(* ===== verification/Prelude.thy ===== *)
theory Prelude
  imports Main "HOL-Library.Word"
begin

text \<open>
  Shared vocabulary of the development: the machine integers of the C sources as
  fixed-width words, byte buffers as lists with the two memory primitives the code
  uses (\<^verbatim>\<open>memcpy\<close> into a buffer at an offset, \<^verbatim>\<open>memset\<close>), the splitting of a byte
  string into blocks, and the generic lemmas on lists and words that every component
  proof rests on.
\<close>

unbundle bit_operations_syntax

type_synonym u8 = "8 word"
type_synonym u16 = "16 word"
type_synonym u32 = "32 word"
type_synonym u64 = "64 word"
type_synonym u256 = "256 word"
type_synonym bytes = "u8 list"

named_theorems sph_simps \<open>unfoldings of the C macro layer\<close>
named_theorems buf_simps \<open>facts about reading and writing byte buffers\<close>

section \<open>Buffers\<close>

text \<open>
  \<^verbatim>\<open>memcpy (dst + off, src, length src)\<close>. The definition is the C effect whenever the
  destination range is inside the buffer, \<open>off + length src \<le> length dst\<close>; the
  invariants below guarantee that at every call.
\<close>

definition memcpy :: "'a list \<Rightarrow> nat \<Rightarrow> 'a list \<Rightarrow> 'a list" where
  "memcpy dst off src = take off dst @ src @ drop (off + length src) dst"

text \<open>\<^verbatim>\<open>memset (dst + off, v, n)\<close>, under the same side condition.\<close>

definition memset :: "'a list \<Rightarrow> nat \<Rightarrow> 'a \<Rightarrow> nat \<Rightarrow> 'a list" where
  "memset dst off v n = memcpy dst off (replicate n v)"

lemma length_memcpy [simp, buf_simps]:
  "off + length src \<le> length dst \<Longrightarrow> length (memcpy dst off src) = length dst"
  by (simp add: memcpy_def)

lemma length_memset [simp, buf_simps]:
  "off + n \<le> length dst \<Longrightarrow> length (memset dst off v n) = length dst"
  by (simp add: memset_def)

lemma memcpy_Nil [simp]: "memcpy dst off [] = dst"
  by (simp add: memcpy_def)

lemma take_memcpy [buf_simps]:
  "off + length src \<le> length dst \<Longrightarrow>
   take (off + length src) (memcpy dst off src) = take off dst @ src"
  by (simp add: memcpy_def)

lemma memcpy_snoc:
  "off + length src < length dst \<Longrightarrow>
   memcpy dst off (src @ [x]) = (memcpy dst off src)[off + length src := x]"
  by (simp add: memcpy_def list_update_append upd_conv_take_nth_drop min_def)

lemma memcpy_append:
  "off + length (xs @ ys) \<le> length dst \<Longrightarrow>
   memcpy dst off (xs @ ys) = memcpy (memcpy dst off xs) (off + length xs) ys"
proof (induction ys rule: rev_induct)
  case Nil
  show ?case by simp
next
  case (snoc y ys)
  then show ?case
    by (simp add: memcpy_snoc flip: append_assoc add.assoc)
qed

lemma memcpy_whole: "length src = length dst \<Longrightarrow> memcpy dst 0 src = src"
  by (simp add: memcpy_def)

section \<open>Blocks\<close>

text \<open>The consecutive blocks of length \<open>n\<close> of a byte string; the last one may be shorter.\<close>

function chunks :: "nat \<Rightarrow> 'a list \<Rightarrow> 'a list list" where
  "chunks n xs = (if n = 0 \<or> xs = [] then [] else take n xs # chunks n (drop n xs))"
  by pat_completeness auto
termination
  by (relation "measure (\<lambda>(n, xs). length xs)") auto

declare chunks.simps [simp del]

lemma chunks_Nil [simp]: "chunks n [] = []"
  by (simp add: chunks.simps)

lemma chunks_append:
  "0 < n \<Longrightarrow> length b = n \<Longrightarrow> chunks n (b @ xs) = b # chunks n xs"
  by (subst chunks.simps) auto

lemma chunks_concat:
  "0 < n \<Longrightarrow> (\<And>b. b \<in> set bs \<Longrightarrow> length b = n) \<Longrightarrow> chunks n (concat bs @ r) = bs @ chunks n r"
  by (induction bs) (simp_all add: chunks_append)

lemma concat_chunks [simp]: "0 < n \<Longrightarrow> concat (chunks n xs) = xs"
proof (induction n xs rule: chunks.induct)
  case (1 n xs)
  then show ?case
    by (subst chunks.simps) (cases "xs = []"; simp)
qed

lemma chunks_full:
  "0 < n \<Longrightarrow> n dvd length xs \<Longrightarrow> b \<in> set (chunks n xs) \<Longrightarrow> length b = n"
proof (induction n xs rule: chunks.induct)
  case (1 n xs)
  show ?case
  proof (cases "xs = []")
    case False
    with "1.prems" have le: "n \<le> length xs" by (auto dest: dvd_imp_le)
    then have "n dvd length (drop n xs)" using "1.prems"(2) by simp
    with "1.IH" "1.prems"(1,3) False le show ?thesis
      by (subst (asm) (2) chunks.simps) auto
  qed (use "1.prems" in simp)
qed

lemma length_chunks:
  "0 < n \<Longrightarrow> n dvd length xs \<Longrightarrow> length (chunks n xs) = length xs div n"
proof (induction n xs rule: chunks.induct)
  case (1 n xs)
  show ?case
  proof (cases "xs = []")
    case False
    with "1.prems" have le: "n \<le> length xs" by (auto dest: dvd_imp_le)
    then have "n dvd length (drop n xs)" using "1.prems"(2) by simp
    with "1.IH" "1.prems" False le show ?thesis
      by (subst chunks.simps) (simp add: le_div_geq)
  qed simp
qed

text \<open>Every byte string is a number of full blocks and a shorter rest.\<close>

lemma blocks_exist:
  assumes "0 < n"
  obtains bs r where "xs = concat bs @ r" "\<And>b. b \<in> set bs \<Longrightarrow> length b = n"
    "length r = length xs mod n" "length bs = length xs div n"
proof -
  define k where "k = n * (length xs div n)"
  have le: "k \<le> length xs" by (simp add: k_def)
  then have k: "n dvd length (take k xs)" by (simp add: k_def)
  let ?bs = "chunks n (take k xs)"
  have "xs = concat ?bs @ drop k xs" using assms by simp
  moreover have "length b = n" if "b \<in> set ?bs" for b
    using assms k that by (rule chunks_full)
  moreover have "length (drop k xs) = length xs mod n"
    by (simp add: k_def minus_mult_div_eq_mod)
  moreover have "length ?bs = length xs div n"
    using assms k le by (simp add: length_chunks) (simp add: k_def)
  ultimately show ?thesis using that by blast
qed

lemma concat_length_eq:
  "(\<And>b. b \<in> set bs \<Longrightarrow> length b = n) \<Longrightarrow> length (concat bs) = length bs * n"
  by (induction bs) auto

text \<open>Index ranges of unrolled loops, as literal lists.\<close>

lemma upt_lists:
  "[0..<2] = [0, 1]"
  "[0..<3] = [0, 1, 2]"
  "[0..<4] = [0, 1, 2, 3]"
  "[0..<5] = [0, 1, 2, 3, 4]"
  "[0..<6] = [0, 1, 2, 3, 4, 5]"
  "[0..<7] = [0, 1, 2, 3, 4, 5, 6]"
  "[0..<8] = [0, 1, 2, 3, 4, 5, 6, 7]"
  "[0..<9] = [0, 1, 2, 3, 4, 5, 6, 7, 8]"
  "[0..<10] = [0, 1, 2, 3, 4, 5, 6, 7, 8, 9]"
  "[0..<12] = [0, 1, 2, 3, 4, 5, 6, 7, 8, 9, 10, 11]"
  "[0..<14] = [0, 1, 2, 3, 4, 5, 6, 7, 8, 9, 10, 11, 12, 13]"
  "[0..<16] = [0, 1, 2, 3, 4, 5, 6, 7, 8, 9, 10, 11, 12, 13, 14, 15]"
  "[0..<18] = [0, 1, 2, 3, 4, 5, 6, 7, 8, 9, 10, 11, 12, 13, 14, 15, 16, 17]"
  "[0..<24] = [0, 1, 2, 3, 4, 5, 6, 7, 8, 9, 10, 11, 12, 13, 14, 15,
    16, 17, 18, 19, 20, 21, 22, 23]"
  by (simp_all add: upt_conv_Cons numeral_2_eq_2)

text \<open>A loop over rounds, each a loop of its own.\<close>

lemma foldl_concat_rounds:
  "foldl f V (concat (map g rs)) = foldl (\<lambda>V r. foldl f V (g r)) V rs"
  by (induction rs arbitrary: V) simp_all

section \<open>Words\<close>

text \<open>Word equalities are decided bit by bit; this expands the finitely many positions.\<close>

lemma all_less_numeral:
  "(\<forall>n<numeral k. P (n::nat)) \<longleftrightarrow> (\<forall>n<pred_numeral k. P n) \<and> P (pred_numeral k)"
  by (auto simp: numeral_eq_Suc less_Suc_eq)

lemma word_eqI_bits: "(\<forall>n<LENGTH('a). bit x n = bit y n) \<Longrightarrow> x = y" for x y :: "'a::len word"
  by (rule bit_word_eqI) simp

lemma u8_eqI: "(\<forall>n<8. bit x n = bit y n) \<Longrightarrow> x = y" for x y :: u8
  by (rule word_eqI_bits) simp

lemma u16_eqI: "(\<forall>n<16. bit x n = bit y n) \<Longrightarrow> x = y" for x y :: u16
  by (rule word_eqI_bits) simp

lemma u32_eqI: "(\<forall>n<32. bit x n = bit y n) \<Longrightarrow> x = y" for x y :: u32
  by (rule word_eqI_bits) simp

lemma u64_eqI: "(\<forall>n<64. bit x n = bit y n) \<Longrightarrow> x = y" for x y :: u64
  by (rule word_eqI_bits) simp

lemma u8_eq_iff: "x = y \<longleftrightarrow> (\<forall>n<8. bit x n = bit y n)" for x y :: u8
  by (auto intro: u8_eqI)

lemma bit_beyond:
  "8 \<le> n \<Longrightarrow> \<not> bit (a::u8) n" "16 \<le> n \<Longrightarrow> \<not> bit (b::u16) n"
  "32 \<le> n \<Longrightarrow> \<not> bit (c::u32) n" "64 \<le> n \<Longrightarrow> \<not> bit (d::u64) n"
  by (auto dest: bit_imp_le_length)

lemma xor_cancel [simp]: "(x XOR y) XOR y = x" "y XOR (y XOR x) = x"
  "(y XOR x) XOR y = x" "y XOR (x XOR y) = x" for x y :: "'a::len word"
  by (simp_all add: xor.assoc xor.left_commute)

text \<open>Exclusive or on truth values as an operation of its own, so that sums can be sorted.\<close>

definition bxor :: "bool \<Rightarrow> bool \<Rightarrow> bool" where
  "bxor a b = (a \<noteq> b)"

lemma bxor_ac:
  "bxor (bxor a b) c = bxor a (bxor b c)" "bxor a b = bxor b a" "bxor a (bxor b c) = bxor b (bxor a c)"
  by (auto simp: bxor_def)

lemma bxor_cancel [simp]: "bxor a a = False" "bxor a (bxor a b) = b" "bxor a False = a" "bxor False a = a"
  by (auto simp: bxor_def)

lemma bit_xor_bxor: "bit (x XOR y) n = bxor (bit x n) (bit y n)"
  by (simp add: bxor_def bit_xor_iff)

lemmas word_xor_ac = xor.assoc xor.commute xor.left_commute

lemma list8_conv: "length xs = 8 \<Longrightarrow>
  xs = [xs!0, xs!1, xs!2, xs!3, xs!4, xs!5, xs!6, xs!7]"
  by (auto simp: list_eq_iff_nth_eq less_Suc_eq numeral_eq_Suc)

lemma length_4E:
  assumes "length xs = 4" obtains a b c d where "xs = [a, b, c, d]"
  using assms by (auto simp: length_Suc_conv numeral_eq_Suc)

lemma length_8E:
  assumes "length xs = 8" obtains a b c d e f g h where "xs = [a, b, c, d, e, f, g, h]"
  using assms by (auto simp: length_Suc_conv numeral_eq_Suc)

lemma list16_conv: "length xs = 16 \<Longrightarrow>
  xs = [xs!0, xs!1, xs!2, xs!3, xs!4, xs!5, xs!6, xs!7,
        xs!8, xs!9, xs!10, xs!11, xs!12, xs!13, xs!14, xs!15]"
  by (auto simp: list_eq_iff_nth_eq less_Suc_eq numeral_eq_Suc)

text \<open>A double-width number as a pair of words.\<close>

definition lo_word :: "nat \<Rightarrow> 'a::len word" where
  "lo_word t = of_nat t"

definition hi_word :: "nat \<Rightarrow> 'a::len word" where
  "hi_word t = of_nat (t div 2 ^ LENGTH('a))"

lemma lo_word_add: "lo_word (s + t) = lo_word s + lo_word t"
  by (simp add: lo_word_def)

end
