(* ===== verification/Sph_Types.thy ===== *)
theory Sph_Types
  imports Prelude
begin

text \<open>
  \<^verbatim>\<open>crypto/sph_types.h\<close>: the truncation and rotation macros and the byte-order helpers all
  hash implementations use. A pointer argument is the buffer from the pointed-to byte
  on, so \<^verbatim>\<open>sph_dec64be (buf + i)\<close> is \<open>sph_dec64be (drop i buf)\<close>; an encoder returns the
  bytes it stores. Each helper has a portable branch that works byte by byte and a branch for
  little-endian machines that stores or loads a whole machine word, byte-swapped when the
  wanted order is big-endian. The portable branch is the definition without
  suffix, the little-endian one has the suffix \<open>_le_branch\<close>; they are proved equal.
\<close>

section \<open>Truncation and rotation\<close>

definition SPH_T32 :: "u32 \<Rightarrow> u32" where
  "SPH_T32 x = x AND 0xFFFFFFFF"

definition SPH_ROTL32 :: "u32 \<Rightarrow> nat \<Rightarrow> u32" where
  "SPH_ROTL32 x n = SPH_T32 (push_bit n x OR drop_bit (32 - n) x)"

definition SPH_ROTR32 :: "u32 \<Rightarrow> nat \<Rightarrow> u32" where
  "SPH_ROTR32 x n = SPH_ROTL32 x (32 - n)"

definition SPH_T64 :: "u64 \<Rightarrow> u64" where
  "SPH_T64 x = x AND 0xFFFFFFFFFFFFFFFF"

definition SPH_ROTL64 :: "u64 \<Rightarrow> nat \<Rightarrow> u64" where
  "SPH_ROTL64 x n = SPH_T64 (push_bit n x OR drop_bit (64 - n) x)"

definition SPH_ROTR64 :: "u64 \<Rightarrow> nat \<Rightarrow> u64" where
  "SPH_ROTR64 x n = SPH_ROTL64 x (64 - n)"

section \<open>Byte swapping\<close>

definition sph_bswap32 :: "u32 \<Rightarrow> u32" where
  "sph_bswap32 x =
    (let x = SPH_T32 (push_bit 16 x OR drop_bit 16 x);
         x = drop_bit 8 (x AND 0xFF00FF00) OR push_bit 8 (x AND 0x00FF00FF)
     in x)"

definition sph_bswap64 :: "u64 \<Rightarrow> u64" where
  "sph_bswap64 x =
    (let x = SPH_T64 (push_bit 32 x OR drop_bit 32 x);
         x = drop_bit 16 (x AND 0xFFFF0000FFFF0000) OR push_bit 16 (x AND 0x0000FFFF0000FFFF);
         x = drop_bit 8 (x AND 0xFF00FF00FF00FF00) OR push_bit 8 (x AND 0x00FF00FF00FF00FF)
     in x)"

section \<open>Encoding and decoding, portable branches\<close>

definition sph_enc32be :: "u32 \<Rightarrow> bytes" where
  "sph_enc32be val =
    [ucast (drop_bit 24 val), ucast (drop_bit 16 val), ucast (drop_bit 8 val), ucast val]"

definition sph_dec32be :: "bytes \<Rightarrow> u32" where
  "sph_dec32be src =
    push_bit 24 (ucast (src ! 0)) OR push_bit 16 (ucast (src ! 1))
    OR push_bit 8 (ucast (src ! 2)) OR ucast (src ! 3)"

definition sph_enc32le :: "u32 \<Rightarrow> bytes" where
  "sph_enc32le val =
    [ucast val, ucast (drop_bit 8 val), ucast (drop_bit 16 val), ucast (drop_bit 24 val)]"

definition sph_dec32le :: "bytes \<Rightarrow> u32" where
  "sph_dec32le src =
    ucast (src ! 0) OR push_bit 8 (ucast (src ! 1))
    OR push_bit 16 (ucast (src ! 2)) OR push_bit 24 (ucast (src ! 3))"

definition sph_enc64be :: "u64 \<Rightarrow> bytes" where
  "sph_enc64be val =
    [ucast (drop_bit 56 val), ucast (drop_bit 48 val), ucast (drop_bit 40 val),
     ucast (drop_bit 32 val), ucast (drop_bit 24 val), ucast (drop_bit 16 val),
     ucast (drop_bit 8 val), ucast val]"

definition sph_dec64be :: "bytes \<Rightarrow> u64" where
  "sph_dec64be src =
    push_bit 56 (ucast (src ! 0)) OR push_bit 48 (ucast (src ! 1))
    OR push_bit 40 (ucast (src ! 2)) OR push_bit 32 (ucast (src ! 3))
    OR push_bit 24 (ucast (src ! 4)) OR push_bit 16 (ucast (src ! 5))
    OR push_bit 8 (ucast (src ! 6)) OR ucast (src ! 7)"

definition sph_enc64le :: "u64 \<Rightarrow> bytes" where
  "sph_enc64le val =
    [ucast val, ucast (drop_bit 8 val), ucast (drop_bit 16 val), ucast (drop_bit 24 val),
     ucast (drop_bit 32 val), ucast (drop_bit 40 val), ucast (drop_bit 48 val),
     ucast (drop_bit 56 val)]"

definition sph_dec64le :: "bytes \<Rightarrow> u64" where
  "sph_dec64le src =
    ucast (src ! 0) OR push_bit 8 (ucast (src ! 1))
    OR push_bit 16 (ucast (src ! 2)) OR push_bit 24 (ucast (src ! 3))
    OR push_bit 32 (ucast (src ! 4)) OR push_bit 40 (ucast (src ! 5))
    OR push_bit 48 (ucast (src ! 6)) OR push_bit 56 (ucast (src ! 7))"

section \<open>The little-endian branches\<close>

text \<open>
  A store of a machine word at an address of a little-endian machine puts byte \<open>i\<close> of
  the word (bits \<open>8 * i\<close> on) at offset \<open>i\<close>; a load reads it back the same way.
\<close>

definition store_word32 :: "u32 \<Rightarrow> bytes" where
  "store_word32 v = map (\<lambda>i. ucast (drop_bit (8 * i) v)) [0..<4]"

definition load_word32 :: "bytes \<Rightarrow> u32" where
  "load_word32 m = foldr (\<lambda>b v. ucast b OR push_bit 8 v) (take 4 m) 0"

definition store_word64 :: "u64 \<Rightarrow> bytes" where
  "store_word64 v = map (\<lambda>i. ucast (drop_bit (8 * i) v)) [0..<8]"

definition load_word64 :: "bytes \<Rightarrow> u64" where
  "load_word64 m = foldr (\<lambda>b v. ucast b OR push_bit 8 v) (take 8 m) 0"

definition sph_enc32be_le_branch :: "u32 \<Rightarrow> bytes" where
  "sph_enc32be_le_branch val = store_word32 (sph_bswap32 val)"

definition sph_dec32be_le_branch :: "bytes \<Rightarrow> u32" where
  "sph_dec32be_le_branch src = sph_bswap32 (load_word32 src)"

definition sph_enc32le_le_branch :: "u32 \<Rightarrow> bytes" where
  "sph_enc32le_le_branch val = store_word32 val"

definition sph_dec32le_le_branch :: "bytes \<Rightarrow> u32" where
  "sph_dec32le_le_branch src = load_word32 src"

definition sph_enc64be_le_branch :: "u64 \<Rightarrow> bytes" where
  "sph_enc64be_le_branch val = store_word64 (sph_bswap64 val)"

definition sph_dec64be_le_branch :: "bytes \<Rightarrow> u64" where
  "sph_dec64be_le_branch src = sph_bswap64 (load_word64 src)"

definition sph_enc64le_le_branch :: "u64 \<Rightarrow> bytes" where
  "sph_enc64le_le_branch val = store_word64 val"

definition sph_dec64le_le_branch :: "bytes \<Rightarrow> u64" where
  "sph_dec64le_le_branch src = load_word64 src"

section \<open>Lemmas\<close>

lemma SPH_T32_id [simp, sph_simps]: "SPH_T32 x = x"
  by (rule u32_eqI) (simp add: SPH_T32_def all_less_numeral bit_simps)

lemma SPH_T64_id [simp, sph_simps]: "SPH_T64 x = x"
  by (rule u64_eqI) (simp add: SPH_T64_def all_less_numeral bit_simps)

text \<open>Rotations: the bits of the result, inverses, and that they are bijections.\<close>

lemma bit_SPH_ROTL32 [bit_simps]:
  "bit (SPH_ROTL32 x n) i \<longleftrightarrow>
    i < 32 \<and> (if n \<le> i then bit x (i - n) else bit x (32 - n + i))" if "n \<le> 32"
  using that by (auto simp: SPH_ROTL32_def bit_simps not_le dest: bit_imp_le_length)

lemma bit_SPH_ROTL64 [bit_simps]:
  "bit (SPH_ROTL64 x n) i \<longleftrightarrow>
    i < 64 \<and> (if n \<le> i then bit x (i - n) else bit x (64 - n + i))" if "n \<le> 64"
  using that by (auto simp: SPH_ROTL64_def bit_simps not_le dest: bit_imp_le_length)

lemma SPH_ROTL32_eq_word_rotl: "n < 32 \<Longrightarrow> SPH_ROTL32 x n = word_rotl n x"
  by (rule bit_word_eqI) (auto simp: bit_simps mod_if add.commute [of 32])

lemma SPH_ROTL64_eq_word_rotl: "n < 64 \<Longrightarrow> SPH_ROTL64 x n = word_rotl n x"
  by (rule bit_word_eqI) (auto simp: bit_simps mod_if add.commute [of 64])

lemma SPH_ROTR32_eq_word_rotr: "0 < n \<Longrightarrow> n < 32 \<Longrightarrow> SPH_ROTR32 x n = word_rotr n x"
  by (rule bit_word_eqI) (auto simp: SPH_ROTR32_def bit_simps mod_if add.commute [of n])

lemma SPH_ROTR64_eq_word_rotr: "0 < n \<Longrightarrow> n < 64 \<Longrightarrow> SPH_ROTR64 x n = word_rotr n x"
  by (rule bit_word_eqI) (auto simp: SPH_ROTR64_def bit_simps le_mod_geq add.commute [of n])

lemma SPH_ROTR_ROTL32 [simp]: "n \<le> 32 \<Longrightarrow> SPH_ROTR32 (SPH_ROTL32 x n) n = x"
  by (rule bit_word_eqI) (auto simp: SPH_ROTR32_def bit_simps)

lemma SPH_ROTL_ROTR32 [simp]: "n \<le> 32 \<Longrightarrow> SPH_ROTL32 (SPH_ROTR32 x n) n = x"
  by (rule bit_word_eqI) (auto simp: SPH_ROTR32_def bit_simps)

lemma SPH_ROTR_ROTL64 [simp]: "n \<le> 64 \<Longrightarrow> SPH_ROTR64 (SPH_ROTL64 x n) n = x"
  by (rule bit_word_eqI) (auto simp: SPH_ROTR64_def bit_simps)

lemma SPH_ROTL_ROTR64 [simp]: "n \<le> 64 \<Longrightarrow> SPH_ROTL64 (SPH_ROTR64 x n) n = x"
  by (rule bit_word_eqI) (auto simp: SPH_ROTR64_def bit_simps)

text \<open>Byte swapping reverses the four or eight bytes of a word.\<close>

lemma bit_sph_bswap32: "n < 32 \<Longrightarrow> bit (sph_bswap32 x) n \<longleftrightarrow> bit x (8 * (3 - n div 8) + n mod 8)"
proof -
  have "\<forall>n<32. bit (sph_bswap32 x) n = bit x (8 * (3 - n div 8) + n mod 8)"
    by (simp add: all_less_numeral sph_bswap32_def bit_simps bit_beyond) (simp add: numeral_2_eq_2)
  then show "n < 32 \<Longrightarrow> ?thesis" by simp
qed

lemma bit_sph_bswap64: "n < 64 \<Longrightarrow> bit (sph_bswap64 x) n \<longleftrightarrow> bit x (8 * (7 - n div 8) + n mod 8)"
proof -
  have "\<forall>n<64. bit (sph_bswap64 x) n = bit x (8 * (7 - n div 8) + n mod 8)"
    by (simp add: all_less_numeral sph_bswap64_def bit_simps bit_beyond) (simp add: numeral_2_eq_2)
  then show "n < 64 \<Longrightarrow> ?thesis" by simp
qed

lemma length_sph_enc [simp, buf_simps]:
  "length (sph_enc32be v) = 4" "length (sph_enc32le v) = 4"
  "length (sph_enc64be w) = 8" "length (sph_enc64le w) = 8"
  by (simp_all add: sph_enc32be_def sph_enc32le_def sph_enc64be_def sph_enc64le_def)

lemma sph_enc_be_rev:
  "sph_enc32be v = rev (sph_enc32le v)" "sph_enc64be w = rev (sph_enc64le w)"
  by (simp_all add: sph_enc32be_def sph_enc32le_def sph_enc64be_def sph_enc64le_def)

lemma sph_dec_enc32be [simp]: "sph_dec32be (sph_enc32be v @ xs) = v"
  by (rule u32_eqI) (simp add: all_less_numeral sph_dec32be_def sph_enc32be_def bit_simps)

lemma sph_dec_enc32le [simp]: "sph_dec32le (sph_enc32le v @ xs) = v"
  by (rule u32_eqI) (simp add: all_less_numeral sph_dec32le_def sph_enc32le_def bit_simps)

lemma sph_dec_enc64be [simp]: "sph_dec64be (sph_enc64be v @ xs) = v"
  by (rule u64_eqI) (simp add: all_less_numeral sph_dec64be_def sph_enc64be_def bit_simps)

lemma sph_dec_enc64le [simp]: "sph_dec64le (sph_enc64le v @ xs) = v"
  by (rule u64_eqI) (simp add: all_less_numeral sph_dec64le_def sph_enc64le_def bit_simps)

lemmas sph_enc_defs = sph_enc32be_def sph_enc32le_def sph_enc64be_def sph_enc64le_def
lemmas sph_dec_defs = sph_dec32be_def sph_dec32le_def sph_dec64be_def sph_dec64le_def

lemma sph_enc_dec32be: "length b = 4 \<Longrightarrow> sph_enc32be (sph_dec32be b) = b"
  by (erule length_4E)
    (simp add: sph_enc_defs sph_dec_defs u8_eq_iff all_less_numeral bit_simps bit_beyond)

lemma sph_enc_dec32le: "length b = 4 \<Longrightarrow> sph_enc32le (sph_dec32le b) = b"
  by (erule length_4E)
    (simp add: sph_enc_defs sph_dec_defs u8_eq_iff all_less_numeral bit_simps bit_beyond)

lemma sph_enc_dec64be: "length b = 8 \<Longrightarrow> sph_enc64be (sph_dec64be b) = b"
  by (erule length_8E)
    (simp add: sph_enc_defs sph_dec_defs u8_eq_iff all_less_numeral bit_simps bit_beyond)

lemma sph_enc_dec64le: "length b = 8 \<Longrightarrow> sph_enc64le (sph_dec64le b) = b"
  by (erule length_8E)
    (simp add: sph_enc_defs sph_dec_defs u8_eq_iff all_less_numeral bit_simps bit_beyond)

lemma store_word_enc:
  "store_word32 v = sph_enc32le v" "store_word64 w = sph_enc64le w"
  by (simp_all add: store_word32_def store_word64_def sph_enc_defs upt_conv_Cons)

lemma sph_bswap32_bswap32 [simp]: "sph_bswap32 (sph_bswap32 x) = x"
  by (rule u32_eqI) (simp add: all_less_numeral bit_sph_bswap32)

lemma sph_bswap64_bswap64 [simp]: "sph_bswap64 (sph_bswap64 x) = x"
  by (rule u64_eqI) (simp add: all_less_numeral bit_sph_bswap64)

lemma sph_enc32le_bswap: "sph_enc32le (sph_bswap32 v) = sph_enc32be v"
  by (simp add: sph_enc_defs u8_eq_iff all_less_numeral bit_simps bit_sph_bswap32)

lemma sph_enc64le_bswap: "sph_enc64le (sph_bswap64 v) = sph_enc64be v"
  by (simp add: sph_enc_defs u8_eq_iff all_less_numeral bit_simps bit_sph_bswap64)

text \<open>Decoders look at the first four or eight bytes only.\<close>

lemma sph_dec_take [simp]:
  "sph_dec32be (take 4 m) = sph_dec32be m" "sph_dec32le (take 4 m) = sph_dec32le m"
  "sph_dec64be (take 8 m) = sph_dec64be m" "sph_dec64le (take 8 m) = sph_dec64le m"
  by (simp_all add: sph_dec_defs)

lemma load_word32_dec: "4 \<le> length m \<Longrightarrow> load_word32 m = sph_dec32le m"
proof -
  assume "4 \<le> length m"
  then have "length (take 4 m) = 4" by simp
  then obtain a b c d where t: "take 4 m = [a, b, c, d]" by (rule length_4E)
  have "load_word32 m = sph_dec32le [a, b, c, d]"
    by (rule u32_eqI)
      (simp add: load_word32_def t sph_dec_defs all_less_numeral bit_simps bit_beyond numeral_2_eq_2)
  then show ?thesis by (simp flip: t)
qed

lemma load_word64_dec: "8 \<le> length m \<Longrightarrow> load_word64 m = sph_dec64le m"
proof -
  assume "8 \<le> length m"
  then have "length (take 8 m) = 8" by simp
  then obtain a b c d e f g h where t: "take 8 m = [a, b, c, d, e, f, g, h]" by (rule length_8E)
  have "load_word64 m = sph_dec64le [a, b, c, d, e, f, g, h]"
    by (rule u64_eqI)
      (simp add: load_word64_def t sph_dec_defs all_less_numeral bit_simps bit_beyond numeral_2_eq_2)
  then show ?thesis by (simp flip: t)
qed

lemma bswap_dec32le: "4 \<le> length m \<Longrightarrow> sph_bswap32 (sph_dec32le m) = sph_dec32be m"
proof -
  assume "4 \<le> length m"
  then have len: "length (take 4 m) = 4" by simp
  have "sph_enc32be (sph_bswap32 (sph_dec32le m)) = sph_enc32le (sph_dec32le m)"
    by (simp flip: sph_enc32le_bswap)
  also have "\<dots> = take 4 m"
    using sph_enc_dec32le [OF len] by simp
  finally have "sph_dec32be (sph_enc32be (sph_bswap32 (sph_dec32le m)) @ []) = sph_dec32be (take 4 m)"
    by simp
  then show ?thesis by (simp only: sph_dec_enc32be sph_dec_take)
qed

lemma bswap_dec64le: "8 \<le> length m \<Longrightarrow> sph_bswap64 (sph_dec64le m) = sph_dec64be m"
proof -
  assume "8 \<le> length m"
  then have len: "length (take 8 m) = 8" by simp
  have "sph_enc64be (sph_bswap64 (sph_dec64le m)) = sph_enc64le (sph_dec64le m)"
    by (simp flip: sph_enc64le_bswap)
  also have "\<dots> = take 8 m"
    using sph_enc_dec64le [OF len] by simp
  finally have "sph_dec64be (sph_enc64be (sph_bswap64 (sph_dec64le m)) @ []) = sph_dec64be (take 8 m)"
    by simp
  then show ?thesis by (simp only: sph_dec_enc64be sph_dec_take)
qed

section \<open>Properties\<close>

text \<open>
  On a little-endian machine the helpers that move a whole machine word (byte-swapped for
  the big-endian formats) store and load exactly the bytes of the portable shift-and-mask
  branches, for both widths and both byte orders.
\<close>

theorem sph_codec_branches:
  assumes "4 \<le> length m" "8 \<le> length n"
  shows "sph_enc32be_le_branch v = sph_enc32be v \<and> sph_enc32le_le_branch v = sph_enc32le v \<and>
    sph_enc64be_le_branch w = sph_enc64be w \<and> sph_enc64le_le_branch w = sph_enc64le w \<and>
    sph_dec32be_le_branch m = sph_dec32be m \<and> sph_dec32le_le_branch m = sph_dec32le m \<and>
    sph_dec64be_le_branch n = sph_dec64be n \<and> sph_dec64le_le_branch n = sph_dec64le n"
  using assms
  by (simp add: sph_enc32be_le_branch_def sph_enc32le_le_branch_def sph_enc64be_le_branch_def
      sph_enc64le_le_branch_def sph_dec32be_le_branch_def sph_dec32le_le_branch_def
      sph_dec64be_le_branch_def sph_dec64le_le_branch_def store_word_enc load_word32_dec
      load_word64_dec sph_enc32le_bswap sph_enc64le_bswap bswap_dec32le bswap_dec64le)

theorem sph_codec_branches_witness:
  "sph_enc32be_le_branch 0x01020304 = sph_enc32be 0x01020304 \<and>
   sph_dec32be_le_branch [1, 2, 3, 4] = sph_dec32be [1, 2, 3, 4] \<and>
   sph_dec64be_le_branch [1, 2, 3, 4, 5, 6, 7, 8] = sph_dec64be [1, 2, 3, 4, 5, 6, 7, 8]"
  using sph_codec_branches [of "[1, 2, 3, 4]" "[1, 2, 3, 4, 5, 6, 7, 8]" "0x01020304"] by simp

text \<open>
  Encoding and decoding are inverse to each other in both byte orders: a decoder recovers
  the word an encoder stored whatever follows it in the buffer, and encoding a decoded word
  restores the bytes.
\<close>

theorem sph_codec_roundtrip:
  assumes "length b = 4" "length c = 8"
  shows "sph_dec32be (sph_enc32be v @ xs) = v \<and> sph_dec32le (sph_enc32le v @ xs) = v \<and>
    sph_dec64be (sph_enc64be w @ xs) = w \<and> sph_dec64le (sph_enc64le w @ xs) = w \<and>
    sph_enc32be (sph_dec32be b) = b \<and> sph_enc32le (sph_dec32le b) = b \<and>
    sph_enc64be (sph_dec64be c) = c \<and> sph_enc64le (sph_dec64le c) = c"
  using assms by (simp add: sph_enc_dec32be sph_enc_dec32le sph_enc_dec64be sph_enc_dec64le)

theorem sph_codec_roundtrip_witness:
  "sph_dec32be (sph_enc32be 0xDEADBEEF @ [9]) = 0xDEADBEEF \<and>
   sph_enc64le (sph_dec64le [1, 2, 3, 4, 5, 6, 7, 8]) = [1, 2, 3, 4, 5, 6, 7, 8]"
  using sph_codec_roundtrip [of "[1, 2, 3, 4]" "[1, 2, 3, 4, 5, 6, 7, 8]" "0xDEADBEEF" "[9]"] by simp

end
