(* ===== verification/Buffered_Hash.thy ===== *)
theory Buffered_Hash
  imports Prelude
begin

text \<open>
  The streaming interface every hash context of \<^verbatim>\<open>crypto/\<close> offers: bytes are copied into
  a fixed buffer, and each time the buffer holds a full block the block is absorbed into
  the chaining state. Two disciplines occur in the sources:

  \<^item> eager (\<^verbatim>\<open>blake.c\<close>, \<^verbatim>\<open>bmw.c\<close>, \<^verbatim>\<open>keccak.c\<close>, \<^verbatim>\<open>jh.c\<close>, \<^verbatim>\<open>groestl.c\<close>): a block is absorbed as
    soon as the buffer is full, so a context at rest holds less than a block;
  \<^item> lazy (\<^verbatim>\<open>skein.c\<close>): a full buffer is kept until a further byte arrives, because the
    last block needs a different tweak.

  Each discipline is a locale. Its parameters are the accessors of a context and the
  update function of the code, its assumptions are what one pass of the code's loop does,
  and its lemmas are what a caller relies on: feeding a message in pieces is feeding
  it at once, and after any sequence of updates the context is the chain of absorbed
  blocks with the rest of the message pending in the buffer.
\<close>

section \<open>Context accessors\<close>

locale hash_context =
  fixes bs :: nat
    and bufsz :: nat
    and buf :: "'c \<Rightarrow> 'b list"
    and ptr :: "'c \<Rightarrow> nat"
    and put :: "'b list \<Rightarrow> nat \<Rightarrow> 'c \<Rightarrow> 'c"
    and absorb :: "'b list \<Rightarrow> 'c \<Rightarrow> 'c"
    and core :: "'c \<Rightarrow> 'b list \<Rightarrow> 'c"
  assumes bs_pos: "0 < bs"
    and bs_le: "bs \<le> bufsz"
    and buf_put [simp]: "buf (put b p c) = b"
    and ptr_put [simp]: "ptr (put b p c) = p"
    and put_put [simp]: "put b p (put b' p' c) = put b p c"
    and put_same [simp]: "put (buf c) (ptr c) c = c"
    and absorb_put: "absorb blk (put b p c) = put b p (absorb blk c)"
begin

lemma buf_absorb [simp]: "buf (absorb blk c) = buf c"
  by (metis absorb_put buf_put put_same)

lemma ptr_absorb [simp]: "ptr (absorb blk c) = ptr c"
  by (metis absorb_put ptr_put put_same)

definition chain :: "'c \<Rightarrow> 'c" where
  "chain c = put [] 0 c"

definition pending :: "'c \<Rightarrow> 'b list" where
  "pending c = take (ptr c) (buf c)"

definition absorb_all :: "'c \<Rightarrow> 'b list list \<Rightarrow> 'c" where
  "absorb_all c blks = foldl (\<lambda>c b. absorb b c) c blks"

lemma chain_put [simp]: "chain (put b p c) = chain c"
  by (simp add: chain_def)

lemma chain_absorb: "chain (absorb blk c) = absorb blk (chain c)"
  by (simp add: chain_def absorb_put)

lemma absorb_all_Cons [simp]: "absorb_all c (b # blks) = absorb_all (absorb b c) blks"
  by (simp add: absorb_all_def)

lemma absorb_all_Nil [simp]: "absorb_all c [] = c"
  by (simp add: absorb_all_def)

lemma absorb_all_append: "absorb_all c (xs @ ys) = absorb_all (absorb_all c xs) ys"
  by (simp add: absorb_all_def)

end

section \<open>The eager discipline\<close>

locale eager_core = hash_context bs bufsz buf ptr put absorb core
  for bs :: nat and bufsz :: nat
    and buf :: "'c \<Rightarrow> 'b list"
    and ptr :: "'c \<Rightarrow> nat"
    and put :: "'b list \<Rightarrow> nat \<Rightarrow> 'c \<Rightarrow> 'c"
    and absorb :: "'b list \<Rightarrow> 'c \<Rightarrow> 'c"
    and core :: "'c \<Rightarrow> 'b list \<Rightarrow> 'c" +
  assumes core_short: "length (buf c) = bufsz \<Longrightarrow> ptr c + length d < bs \<Longrightarrow>
      core c d = put (memcpy (buf c) (ptr c) d) (ptr c + length d) c"
    and core_full: "length (buf c) = bufsz \<Longrightarrow> ptr c < bs \<Longrightarrow> bs \<le> ptr c + length d \<Longrightarrow>
      b = memcpy (buf c) (ptr c) (take (bs - ptr c) d) \<Longrightarrow>
      core c d = core (put b 0 (absorb (take bs b) c)) (drop (bs - ptr c) d)"
begin

definition wf :: "'c \<Rightarrow> bool" where
  "wf c \<longleftrightarrow> length (buf c) = bufsz \<and> ptr c < bs"

lemma wfI: "length (buf c) = bufsz \<Longrightarrow> ptr c < bs \<Longrightarrow> wf c"
  by (simp add: wf_def)

lemma core_Nil: "wf c \<Longrightarrow> core c [] = c"
  using core_short [of c "[]"] by (simp add: wf_def)

text \<open>One byte at a time: the reference every way of cutting the input is compared with.\<close>

definition byte :: "'c \<Rightarrow> 'b \<Rightarrow> 'c" where
  "byte c x = core c [x]"

lemma byte_short:
  "wf c \<Longrightarrow> Suc (ptr c) < bs \<Longrightarrow> byte c x = put ((buf c)[ptr c := x]) (Suc (ptr c)) c"
  using bs_le memcpy_snoc [of "ptr c" "[]" "buf c" x] core_short [of c "[x]"]
  by (simp add: byte_def wf_def)

lemma byte_full:
  assumes "wf c" and "Suc (ptr c) = bs" and b: "b = (buf c)[ptr c := x]"
  shows "byte c x = put b 0 (absorb (take bs b) c)"
proof -
  have n: "bs - ptr c = 1" using assms(2) by simp
  have "b = memcpy (buf c) (ptr c) (take (bs - ptr c) [x])"
    using assms bs_le memcpy_snoc [of "ptr c" "[]" "buf c" x] by (simp add: wf_def n)
  then have "byte c x = core (put b 0 (absorb (take bs b) c)) []"
    using core_full [of c "[x]" b] assms(1,2) by (simp add: byte_def wf_def n)
  moreover have "wf (put b 0 (absorb (take bs b) c))"
    using assms bs_pos by (simp add: wf_def)
  ultimately show ?thesis by (simp add: core_Nil)
qed

lemma wf_byte: "wf c \<Longrightarrow> wf (byte c x)"
  using byte_short [of c x] byte_full [of c _ x] bs_pos
  by (cases "Suc (ptr c) < bs") (auto simp: wf_def)

lemma foldl_byte_short:
  "wf c \<Longrightarrow> ptr c + length d < bs \<Longrightarrow>
   foldl byte c d = put (memcpy (buf c) (ptr c) d) (ptr c + length d) c"
proof (induction d rule: rev_induct)
  case Nil
  then show ?case by simp
next
  case (snoc x d)
  then show ?case
    using bs_le by (simp add: byte_short wf_def memcpy_snoc)
qed

lemma foldl_byte_full:
  assumes "wf c" and len: "ptr c + length d = bs" and b: "b = memcpy (buf c) (ptr c) d"
  shows "foldl byte c d = put b 0 (absorb (take bs b) c)"
proof -
  from assms have "d \<noteq> []" by (auto simp: wf_def)
  then obtain d' x where d: "d = d' @ [x]" by (metis rev_exhaust)
  let ?c = "put (memcpy (buf c) (ptr c) d') (ptr c + length d') c"
  have fd: "foldl byte c d' = ?c"
    using assms by (simp add: foldl_byte_short d)
  have wf: "wf ?c" using assms bs_le by (simp add: wf_def d)
  have "b = (buf ?c)[ptr ?c := x]"
    using assms bs_le by (simp add: d memcpy_snoc wf_def)
  with wf have "byte ?c x = put b 0 (absorb (take bs b) ?c)"
    using len by (intro byte_full) (simp_all add: d)
  with fd show ?thesis by (simp add: d absorb_put)
qed

theorem core_foldl: "wf c \<Longrightarrow> core c d = foldl byte c d"
proof (induction d arbitrary: c rule: length_induct)
  case (1 d)
  show ?case
  proof (cases "ptr c + length d < bs")
    case True
    with "1.prems" show ?thesis by (simp add: core_short foldl_byte_short wf_def)
  next
    case False
    define n where "n = bs - ptr c"
    define b where "b = memcpy (buf c) (ptr c) (take n d)"
    let ?c = "put b 0 (absorb (take bs b) c)"
    have n: "0 < n" "n \<le> length d" "ptr c + length (take n d) = bs"
      using False "1.prems" by (auto simp: n_def wf_def)
    have "core c d = core ?c (drop n d)"
      using False "1.prems" core_full [of c d b] by (simp add: b_def n_def wf_def)
    also have "\<dots> = foldl byte ?c (drop n d)"
      using n "1.prems" bs_pos bs_le by (intro "1.IH" [rule_format]) (simp_all add: wf_def b_def)
    also have "\<dots> = foldl byte (foldl byte c (take n d)) (drop n d)"
      using foldl_byte_full [of c "take n d" b] n "1.prems" by (simp add: b_def)
    also have "\<dots> = foldl byte c d"
      by (simp flip: foldl_append)
    finally show ?thesis .
  qed
qed

lemma wf_core [simp]: "wf c \<Longrightarrow> wf (core c d)"
  unfolding core_foldl
  by (induction d arbitrary: c) (simp_all add: core_foldl wf_byte)

text \<open>The result of hashing does not depend on how the message was cut into updates.\<close>

theorem core_append: "wf c \<Longrightarrow> core c (a @ b) = core (core c a) b"
  by (metis core_foldl foldl_append wf_core)

theorem core_concat: "wf c \<Longrightarrow> core c (concat ds) = foldl core c ds"
proof (induction ds arbitrary: c)
  case Nil
  then show ?case by (simp add: core_Nil)
next
  case (Cons d ds)
  then show ?case by (simp add: core_append)
qed

text \<open>The invariant of a running computation: which blocks were absorbed, what is pending.\<close>

theorem core_blocks:
  assumes "wf c" and "pending c @ d = concat blks @ r"
    and "\<And>b. b \<in> set blks \<Longrightarrow> length b = bs" and "length r < bs"
  shows "chain (core c d) = absorb_all (chain c) blks \<and> pending (core c d) = r
    \<and> ptr (core c d) = length r"
  using assms
proof (induction blks arbitrary: c d)
  case Nil
  have len: "length (pending c) = ptr c"
    using Nil.prems(1) bs_le by (simp add: pending_def wf_def)
  with Nil.prems have lt: "ptr c + length d < bs"
    by (metis append_Nil concat.simps(1) length_append)
  from Nil.prems(2) have r: "r = pending c @ d" by simp
  show ?case
    using core_short [of c d] Nil.prems(1) bs_le len lt
    by (simp add: r) (simp add: wf_def pending_def take_memcpy)
next
  case (Cons blk blks)
  have len: "length (pending c) = ptr c" "ptr c < bs" "length blk = bs"
    using Cons.prems bs_le by (simp_all add: pending_def wf_def)
  define n where "n = bs - ptr c"
  define b where "b = memcpy (buf c) (ptr c) (take n d)"
  let ?c = "put b 0 (absorb (take bs b) c)"
  have eq: "pending c @ d = blk @ concat blks @ r"
    using Cons.prems(2) by simp
  have ge: "n \<le> length d"
    using arg_cong [OF eq, of length] len by (simp add: n_def)
  have "take bs (pending c @ d) = blk" using eq len by simp
  then have blk: "pending c @ take n d = blk"
    using len by (simp add: n_def)
  have rest: "drop n d = concat blks @ r"
    using arg_cong [OF eq, of "drop bs"] len by (simp add: n_def)
  have "take bs b = pending c @ take n d"
    using take_memcpy [of "ptr c" "take n d" "buf c"] len ge Cons.prems(1) bs_le
    by (simp add: b_def pending_def wf_def n_def)
  then have tb: "take bs b = blk" using blk by simp
  have step: "core c d = core ?c (drop n d)"
    using core_full [of c d b] Cons.prems(1) len ge by (simp add: b_def n_def wf_def)
  have "wf ?c"
    using Cons.prems(1) bs_pos bs_le ge len by (simp add: wf_def b_def n_def)
  moreover have "pending ?c @ drop n d = concat blks @ r"
    using rest by (simp add: pending_def)
  ultimately have "chain (core ?c (drop n d)) = absorb_all (chain ?c) blks \<and>
      pending (core ?c (drop n d)) = r \<and> ptr (core ?c (drop n d)) = length r"
    using Cons.prems by (intro Cons.IH) simp_all
  then show ?case
    by (simp add: step tb chain_absorb)
qed

lemma core_fresh:
  assumes "wf c" "ptr c = 0" "msg = concat blks @ r"
    "\<And>b. b \<in> set blks \<Longrightarrow> length b = bs" "length r < bs"
  shows "chain (core c msg) = absorb_all (chain c) blks"
    and "pending (core c msg) = r" and "ptr (core c msg) = length r"
proof -
  have "pending c @ msg = concat blks @ r"
    using assms(2,3) by (simp add: pending_def)
  note core_blocks [OF assms(1) this assms(4,5)]
  then show "chain (core c msg) = absorb_all (chain c) blks"
    and "pending (core c msg) = r" and "ptr (core c msg) = length r" by blast+
qed

lemma core_one_block:
  assumes "wf c" "length (pending c @ d) = bs"
  shows "chain (core c d) = absorb (pending c @ d) (chain c)" and "ptr (core c d) = 0"
  using core_blocks [of c d "[pending c @ d]" "[]"] assms bs_pos by simp_all

end

section \<open>The lazy discipline\<close>

text \<open>
  A full buffer is absorbed only when a further byte arrives. The code may rely on a
  bounded block counter, so the step law is required only while \<open>fits c n\<close> holds: the
  chain \<open>c\<close> has room for \<open>n\<close> more bytes, those in the buffer included.
\<close>

locale lazy_core = hash_context bs bufsz buf ptr put absorb core
  for bs :: nat and bufsz :: nat
    and buf :: "'c \<Rightarrow> 'b list"
    and ptr :: "'c \<Rightarrow> nat"
    and put :: "'b list \<Rightarrow> nat \<Rightarrow> 'c \<Rightarrow> 'c"
    and absorb :: "'b list \<Rightarrow> 'c \<Rightarrow> 'c"
    and core :: "'c \<Rightarrow> 'b list \<Rightarrow> 'c" +
  fixes fits :: "'c \<Rightarrow> nat \<Rightarrow> bool"
  assumes fits_put [simp]: "fits (put b p c) n = fits c n"
    and fits_mono: "fits c n \<Longrightarrow> k \<le> n \<Longrightarrow> fits c k"
    and fits_absorb: "fits c n \<Longrightarrow> bs < n \<Longrightarrow> fits (absorb blk c) (n - bs)"
    and lazy_short: "length (buf c) = bufsz \<Longrightarrow> ptr c + length d \<le> bs \<Longrightarrow>
      core c d = put (memcpy (buf c) (ptr c) d) (ptr c + length d) c"
    and lazy_full: "length (buf c) = bufsz \<Longrightarrow> ptr c \<le> bs \<Longrightarrow> bs < ptr c + length d \<Longrightarrow>
      fits c (ptr c + length d) \<Longrightarrow> b = memcpy (buf c) (ptr c) (take (bs - ptr c) d) \<Longrightarrow>
      core c d = core (put b 0 (absorb (take bs b) c)) (drop (bs - ptr c) d)"
begin

definition lwf :: "'c \<Rightarrow> bool" where
  "lwf c \<longleftrightarrow> length (buf c) = bufsz \<and> ptr c \<le> bs"

lemma length_pending: "lwf c \<Longrightarrow> length (pending c) = ptr c"
  using bs_le by (simp add: lwf_def pending_def)

lemma lazy_step:
  assumes "lwf c" "bs < ptr c + length d" "fits c (ptr c + length d)"
  defines "b \<equiv> memcpy (buf c) (ptr c) (take (bs - ptr c) d)"
  defines "c' \<equiv> put b 0 (absorb (take bs b) c)"
  shows "core c d = core c' (drop (bs - ptr c) d)" and "lwf c'"
    and "fits c' (ptr c' + length (drop (bs - ptr c) d))"
    and "take bs b = pending c @ take (bs - ptr c) d"
proof -
  have wf: "length (buf c) = bufsz" "ptr c \<le> bs" using assms(1) by (simp_all add: lwf_def)
  have le: "bs - ptr c \<le> length d" using assms(2) wf by simp
  show "core c d = core c' (drop (bs - ptr c) d)"
    unfolding c'_def using lazy_full [of c d b] wf assms(2,3) by (simp add: b_def)
  show "lwf c'"
    using wf le bs_le by (simp add: lwf_def c'_def b_def)
  have "ptr c + length d - bs = length d - (bs - ptr c)" using wf by simp
  then show "fits c' (ptr c' + length (drop (bs - ptr c) d))"
    using fits_absorb [OF assms(3,2)] by (simp add: c'_def)
  show "take bs b = pending c @ take (bs - ptr c) d"
    using take_memcpy [of "ptr c" "take (bs - ptr c) d" "buf c"] wf le bs_le
    by (simp add: b_def pending_def)
qed

lemma core_inv:
  "lwf c \<Longrightarrow> fits c (ptr c + length d + n) \<Longrightarrow> lwf (core c d) \<and> fits (core c d) (ptr (core c d) + n)"
proof (induction "ptr c + length d" arbitrary: c d rule: less_induct)
  case less
  show ?case
  proof (cases "ptr c + length d \<le> bs")
    case True
    with less.prems bs_le show ?thesis by (simp add: lazy_short lwf_def)
  next
    case False
    let ?b = "memcpy (buf c) (ptr c) (take (bs - ptr c) d)"
    let ?c' = "put ?b 0 (absorb (take bs ?b) c)"
    note step = lazy_step [OF less.prems(1) _ fits_mono [OF less.prems(2)]]
    have wf: "ptr c \<le> bs" using less.prems(1) by (simp add: lwf_def)
    have "fits (absorb (take bs ?b) c) (ptr c + length d + n - bs)"
      using fits_absorb [OF less.prems(2)] False by simp
    moreover have "ptr c + length d + n - bs = length (drop (bs - ptr c) d) + n"
      using False wf by simp
    ultimately show ?thesis
      using less.hyps [of ?c' "drop (bs - ptr c) d"] step False bs_pos wf by simp
  qed
qed

theorem lazy_append:
  "lwf c \<Longrightarrow> fits c (ptr c + length (a @ b)) \<Longrightarrow> core c (a @ b) = core (core c a) b"
proof (induction "ptr c + length a" arbitrary: c a rule: less_induct)
  case less
  have wf: "length (buf c) = bufsz" "ptr c \<le> bs" using less.prems by (simp_all add: lwf_def)
  show ?case
  proof (cases "ptr c + length a \<le> bs")
    case a: True
    let ?c = "put (memcpy (buf c) (ptr c) a) (ptr c + length a) c"
    have ca: "core c a = ?c" using lazy_short wf a by simp
    have len: "length (buf ?c) = bufsz" using wf a bs_le by simp
    show ?thesis
    proof (cases "ptr c + length (a @ b) \<le> bs")
      case True
      with lazy_short [of c "a @ b"] lazy_short [of ?c b] wf len ca bs_le show ?thesis
        by (simp add: memcpy_append add.assoc)
    next
      case False
      have n: "bs - ptr c = length a + (bs - (ptr c + length a))" using a by simp
      have tk: "take (bs - ptr c) (a @ b) = a @ take (bs - (ptr c + length a)) b"
        and dr: "drop (bs - ptr c) (a @ b) = drop (bs - (ptr c + length a)) b"
        by (simp_all add: n)
      have eq: "memcpy (buf c) (ptr c) (a @ take (bs - (ptr c + length a)) b) =
          memcpy (memcpy (buf c) (ptr c) a) (ptr c + length a) (take (bs - (ptr c + length a)) b)"
        using wf a bs_le False by (intro memcpy_append) simp
      have "fits ?c (ptr ?c + length b)" using less.prems by (simp add: add.assoc)
      then show ?thesis
        unfolding ca
        using lazy_full [of c "a @ b", OF wf _ less.prems(2) refl] lazy_full [of ?c b, OF len _ _ _ refl]
          False a by (simp add: tk eq dr absorb_put)
    qed
  next
    case False
    note mono = fits_mono [OF less.prems(2), of "ptr c + length a"]
    let ?m = "memcpy (buf c) (ptr c) (take (bs - ptr c) a)"
    let ?c' = "put ?m 0 (absorb (take bs ?m) c)"
    have tk: "take (bs - ptr c) (a @ b) = take (bs - ptr c) a"
      and dr: "drop (bs - ptr c) (a @ b) = drop (bs - ptr c) a @ b"
      using False by simp_all
    have steps: "core c (a @ b) = core ?c' (drop (bs - ptr c) a @ b)" "lwf ?c'"
      "fits ?c' (ptr ?c' + length (drop (bs - ptr c) a @ b))"
      using lazy_step [OF less.prems(1) _ less.prems(2)] False by (simp_all add: tk dr)
    have "core c a = core ?c' (drop (bs - ptr c) a)"
      using lazy_step(1) [OF less.prems(1)] False mono by simp
    moreover have "ptr ?c' + length (drop (bs - ptr c) a) < ptr c + length a"
      using False bs_pos wf by simp
    ultimately show ?thesis
      using less.hyps [of ?c' "drop (bs - ptr c) a"] steps by simp
  qed
qed

theorem lazy_concat:
  "lwf c \<Longrightarrow> fits c (ptr c + length (concat ds)) \<Longrightarrow> core c (concat ds) = foldl core c ds"
proof (induction ds arbitrary: c)
  case Nil
  then show ?case
    using lazy_short [of c "[]"] by (simp add: lwf_def)
next
  case (Cons d ds)
  then show ?case
    using core_inv [of c d "length (concat ds)"] lazy_append [of c d "concat ds"]
    by (simp add: add.assoc)
qed

theorem lazy_blocks:
  assumes "lwf c" and "pending c @ d = concat blks @ r" and "fits c (ptr c + length d)"
    and "\<And>b. b \<in> set blks \<Longrightarrow> length b = bs" and "length r \<le> bs" and "blks \<noteq> [] \<Longrightarrow> r \<noteq> []"
  shows "chain (core c d) = absorb_all (chain c) blks \<and> pending (core c d) = r
    \<and> ptr (core c d) = length r \<and> length (buf (core c d)) = bufsz"
  using assms
proof (induction blks arbitrary: c d)
  case Nil
  note len = length_pending [OF Nil.prems(1)]
  from Nil.prems(2) have r: "r = pending c @ d" by simp
  then have le: "ptr c + length d \<le> bs" using Nil.prems(5) len by simp
  have "length (buf c) = bufsz" using Nil.prems(1) by (simp add: lwf_def)
  then show ?case
    using lazy_short [of c d] le bs_le len
    by (simp add: r) (simp add: pending_def take_memcpy)
next
  case (Cons blk blks)
  note len = length_pending [OF Cons.prems(1)]
  have eq: "pending c @ d = blk @ concat blks @ r" and blk: "length blk = bs"
    using Cons.prems(2,4) by simp_all
  have "r \<noteq> []" using Cons.prems(6) by simp
  then have long: "bs < ptr c + length d"
    using arg_cong [OF eq, of length] len blk by simp
  let ?b = "memcpy (buf c) (ptr c) (take (bs - ptr c) d)"
  let ?c' = "put ?b 0 (absorb (take bs ?b) c)"
  note step = lazy_step [OF Cons.prems(1) long Cons.prems(3)]
  have "take bs (pending c @ d) = blk" using eq blk by simp
  moreover have rest: "drop (bs - ptr c) d = concat blks @ r"
    using arg_cong [OF eq, of "drop bs"] blk len Cons.prems(1) by (simp add: lwf_def)
  ultimately have tb: "take bs ?b = blk"
    using step(4) len Cons.prems(1) by (simp add: lwf_def)
  have "chain (core ?c' (drop (bs - ptr c) d)) = absorb_all (chain ?c') blks \<and>
      pending (core ?c' (drop (bs - ptr c) d)) = r \<and>
      ptr (core ?c' (drop (bs - ptr c) d)) = length r \<and> length (buf (core ?c' (drop (bs - ptr c) d))) = bufsz"
    using step(2,3) rest Cons.prems(4,5) \<open>r \<noteq> []\<close>
    by (intro Cons.IH) (simp_all add: pending_def)
  then show ?case
    by (simp add: step(1) tb chain_absorb)
qed

end

end
