(* ===== verification/Blake_Sigma.thy ===== *)
theory Blake_Sigma
  imports Sph_Types Buffered_Hash
begin

text \<open>
  \<^verbatim>\<open>crypto/blake.c\<close>, the part shared by the 32-bit and the 64-bit family: the message
  permutations, once as the macros \<^verbatim>\<open>Z00 .. Z9F\<close> the unrolled code uses and once as the table
  \<^verbatim>\<open>sigma\<close> of the compact code, and the two-word bit counter.
\<close>

section \<open>Message permutations\<close>

definition Z :: "nat list list" where
  "Z =
  [  [ 0,  1,  2,  3,  4,  5,  6,  7,  8,  9, 10, 11, 12, 13, 14, 15],
   [14, 10,  4,  8,  9, 15, 13,  6,  1, 12,  0,  2, 11,  7,  5,  3],
   [11,  8, 12,  0,  5,  2, 15, 13, 10, 14,  3,  6,  7,  1,  9,  4],
   [ 7,  9,  3,  1, 13, 12, 11, 14,  2,  6,  5, 10,  4,  0, 15,  8],
   [ 9,  0,  5,  7,  2,  4, 10, 15, 14,  1, 11, 12,  6,  8,  3, 13],
   [ 2, 12,  6, 10,  0, 11,  8,  3,  4, 13,  7,  5, 15, 14,  1,  9],
   [12,  5,  1, 15, 14, 13,  4, 10,  0,  7,  6,  3,  9,  2,  8, 11],
   [13, 11,  7, 14, 12,  1,  3,  9,  5,  0, 15,  4,  8,  6,  2, 10],
   [ 6, 15, 14,  9, 11,  3,  0,  8, 12,  2, 13,  7,  1,  4, 10,  5],
   [10,  2,  8,  4,  7,  6,  1,  5, 15, 11,  9, 14,  3, 12, 13,  0]]"

definition sigma :: "nat list list" where
  "sigma =
  [  [ 0,  1,  2,  3,  4,  5,  6,  7,  8,  9, 10, 11, 12, 13, 14, 15],
   [14, 10,  4,  8,  9, 15, 13,  6,  1, 12,  0,  2, 11,  7,  5,  3],
   [11,  8, 12,  0,  5,  2, 15, 13, 10, 14,  3,  6,  7,  1,  9,  4],
   [ 7,  9,  3,  1, 13, 12, 11, 14,  2,  6,  5, 10,  4,  0, 15,  8],
   [ 9,  0,  5,  7,  2,  4, 10, 15, 14,  1, 11, 12,  6,  8,  3, 13],
   [ 2, 12,  6, 10,  0, 11,  8,  3,  4, 13,  7,  5, 15, 14,  1,  9],
   [12,  5,  1, 15, 14, 13,  4, 10,  0,  7,  6,  3,  9,  2,  8, 11],
   [13, 11,  7, 14, 12,  1,  3,  9,  5,  0, 15,  4,  8,  6,  2, 10],
   [ 6, 15, 14,  9, 11,  3,  0,  8, 12,  2, 13,  7,  1,  4, 10,  5],
   [10,  2,  8,  4,  7,  6,  1,  5, 15, 11,  9, 14,  3, 12, 13,  0],
   [ 0,  1,  2,  3,  4,  5,  6,  7,  8,  9, 10, 11, 12, 13, 14, 15],
   [14, 10,  4,  8,  9, 15, 13,  6,  1, 12,  0,  2, 11,  7,  5,  3],
   [11,  8, 12,  0,  5,  2, 15, 13, 10, 14,  3,  6,  7,  1,  9,  4],
   [ 7,  9,  3,  1, 13, 12, 11, 14,  2,  6,  5, 10,  4,  0, 15,  8],
   [ 9,  0,  5,  7,  2,  4, 10, 15, 14,  1, 11, 12,  6,  8,  3, 13],
   [ 2, 12,  6, 10,  0, 11,  8,  3,  4, 13,  7,  5, 15, 14,  1,  9]]"

lemma sigma_row: "r < 16 \<Longrightarrow> sigma ! r = Z ! (r mod 10)"
proof -
  have "\<forall>r<16. sigma ! r = Z ! (r mod 10)"
    by (simp add: all_less_numeral sigma_def Z_def)
  then show "r < 16 \<Longrightarrow> ?thesis" by simp
qed

lemma length_Z: "length Z = 10" "r < 10 \<Longrightarrow> length (Z ! r) = 16"
proof -
  have "\<forall>r<10. length (Z ! r) = 16"
    by (simp add: all_less_numeral Z_def)
  then show "r < 10 \<Longrightarrow> length (Z ! r) = 16" by simp
qed (simp add: Z_def)

text \<open>Each round reads every message word exactly once.\<close>

lemma Z_permutation: "r < 10 \<Longrightarrow> distinct (Z ! r) \<and> set (Z ! r) = {0..<16}"
proof -
  have "\<forall>r<10. distinct (Z ! r) \<and> set (Z ! r) = set [0..<16]"
    by (simp add: all_less_numeral Z_def upt_conv_Cons) auto
  then show "r < 10 \<Longrightarrow> ?thesis" by simp
qed

text \<open>The state words the eight applications of the quarter-round work on.\<close>

definition blake_positions :: "(nat \<times> nat \<times> nat \<times> nat) list" where
  "blake_positions =
    [(0, 4, 8, 12), (1, 5, 9, 13), (2, 6, 10, 14), (3, 7, 11, 15),
     (0, 5, 10, 15), (1, 6, 11, 12), (2, 7, 8, 13), (3, 4, 9, 14)]"

section \<open>The two-word counter\<close>

text \<open>
  Both families count message bits in a low word \<^verbatim>\<open>T0\<close> and a high word \<^verbatim>\<open>T1\<close>. Adding a block of
  \<open>B\<close> bits and propagating the carry when the low word wrapped is an addition on
  the double-width number.
\<close>

lemma carry_step:
  fixes B t :: nat
  assumes dvd: "B dvd t" "B dvd 2 ^ LENGTH('a)" and B: "0 < B" "B < 2 ^ LENGTH('a)"
  shows "(if (lo_word t + of_nat B :: 'a word) < of_nat B then hi_word t + 1 else hi_word t)
    = (hi_word (t + B) :: 'a::len word)"
proof -
  let ?N = "2 ^ LENGTH('a) :: nat"
  define l where "l = t mod ?N"
  have l: "l < ?N" "B dvd l" "B dvd ?N - l"
    using dvd by (auto simp: l_def dvd_mod intro: dvd_diff_nat)
  then have le: "l + B \<le> ?N"
    using B by (metis add.commute diff_is_0_eq dvd_imp_le le_diff_conv2 less_imp_le_nat linorder_not_le
        nat_less_le zero_less_diff)
  have "unat (lo_word t + of_nat B :: 'a word) = (l + B) mod ?N"
    by (simp add: lo_word_def l_def unat_of_nat mod_add_left_eq flip: of_nat_add)
  then have lt: "(lo_word t + of_nat B :: 'a word) < of_nat B \<longleftrightarrow> (l + B) mod ?N < B"
    using B by (simp add: word_less_nat_alt unat_of_nat)
  have split: "t + B = ?N * (t div ?N) + (l + B)"
    by (simp add: l_def)
  show ?thesis
  proof (cases "l + B = ?N")
    case True
    then have "(t + B) div ?N = Suc (t div ?N)"
      by (subst split) simp
    with True lt B show ?thesis by (simp add: hi_word_def)
  next
    case False
    with le have "l + B < ?N" by simp
    then have "(l + B) mod ?N = l + B" and "(t + B) div ?N = t div ?N"
      by (simp, subst split) simp
    with lt show ?thesis by (simp add: hi_word_def)
  qed
qed

section \<open>Padding and the counter of the last block\<close>

text \<open>
  The padding of the BLAKE specification for a message of whole bytes: a one bit, zeros up
  to one bit before the length field, the bit \<open>fin\<close> that separates the two output sizes,
  and (added by the users of this definition) the length field. \<open>P\<close> is the offset of the
  length field in a block of \<open>bs\<close> bytes, \<open>r\<close> the number of message bytes in the last block.
\<close>

definition blake_pad :: "nat \<Rightarrow> nat \<Rightarrow> u8 \<Rightarrow> nat \<Rightarrow> bytes" where
  "blake_pad P bs fin r =
    (let z = (P - 1 + bs - r) mod bs
     in if z = 0 then [0x80 OR fin] else 0x80 # replicate (z - 1) 0 @ [fin])"

lemma length_blake_pad: "length (blake_pad P bs fin r) = Suc ((P - 1 + bs - r) mod bs)"
  by (simp add: blake_pad_def Let_def)

lemma length_pad_short: "r < P \<Longrightarrow> P \<le> bs \<Longrightarrow> r + length (blake_pad P bs fin r) = P"
proof -
  assume r: "r < P" "P \<le> bs"
  then have "P - 1 + bs - r = (P - 1 - r) + bs" by simp
  moreover have "(P - 1 - r) mod bs = P - 1 - r" using r by simp
  ultimately have "(P - 1 + bs - r) mod bs = P - 1 - r" by simp
  then show ?thesis using r by (simp only: length_blake_pad)
qed

text \<open>The counter fed into block \<open>i\<close>: message bits up to its end, zero if it has none.\<close>

definition blake_count :: "nat \<Rightarrow> nat \<Rightarrow> nat \<Rightarrow> nat" where
  "blake_count bs len i = (if bs * i < len then 8 * min len (bs * (i + 1)) else 0)"

lemma blake_count_full: "i < len div bs \<Longrightarrow> blake_count bs len i = 8 * bs * i + 8 * bs"
proof -
  assume "i < len div bs"
  then have "Suc i \<le> len div bs" by simp
  then have "bs * Suc i \<le> bs * (len div bs)" by (rule mult_le_mono2)
  also have "\<dots> \<le> len" by simp
  finally have le: "bs * Suc i \<le> len" .
  have "0 < bs" using \<open>i < len div bs\<close> by (cases bs) auto
  with le show ?thesis by (simp add: blake_count_def min_def add.commute)
qed

lemma blake_count_last:
  "0 < bs \<Longrightarrow> blake_count bs len (len div bs) =
    (if len mod bs = 0 then 0 else 8 * bs * (len div bs) + 8 * (len mod bs))"
proof -
  assume bs: "0 < bs"
  have "len < bs * (len div bs + 1)"
    using dividend_less_div_times [OF bs, of len] by (simp add: algebra_simps)
  moreover have "bs * (len div bs) < len \<longleftrightarrow> len mod bs \<noteq> 0"
    by (metis add.commute add_cancel_right_left less_add_same_cancel1 mod_less_eq_dividend
        mult_div_mod_eq neq0_conv)
  moreover have "8 * len = 8 * bs * (len div bs) + 8 * (len mod bs)"
    by (metis add_mult_distrib2 mult.assoc mult_div_mod_eq)
  ultimately show ?thesis by (simp add: blake_count_def min_def)
qed

lemma blake_count_beyond: "0 < bs \<Longrightarrow> len div bs < i \<Longrightarrow> blake_count bs len i = 0"
proof -
  assume bs: "0 < bs" and i: "len div bs < i"
  have "len < bs * (len div bs + 1)"
    using dividend_less_div_times [OF bs, of len] by (simp add: algebra_simps)
  also have "\<dots> \<le> bs * i" using i by (intro mult_le_mono2) simp
  finally show ?thesis by (simp add: blake_count_def)
qed

text \<open>
  Before the last block the code sets the counter so that the addition of a full block
  yields the wanted value; this is the net effect, for \<open>e\<close> message bits in a block of \<open>B\<close>.
\<close>

definition final_counter :: "nat \<Rightarrow> nat \<Rightarrow> 'a::len word \<Rightarrow> 'a word \<Rightarrow> 'a word \<times> 'a word" where
  "final_counter B e T0 T1 =
    (if e = 0 then (- of_nat B, - 1)
     else if T0 = 0 then (- of_nat B + of_nat e, T1 - 1)
     else (T0 - of_nat (B - e), T1))"

definition count_block :: "nat \<Rightarrow> 'a::len word \<times> 'a word \<Rightarrow> 'a word \<times> 'a word" where
  "count_block B t = (let T0 = fst t + of_nat B
    in (T0, if T0 < of_nat B then snd t + 1 else snd t))"

lemma count_block_full:
  fixes B t :: nat
  assumes "B dvd t" "B dvd 2 ^ LENGTH('a)" "0 < B" "B < 2 ^ LENGTH('a)"
  shows "count_block B (lo_word t, hi_word t) = (lo_word (t + B), hi_word (t + B) :: 'a::len word)"
  using carry_step [OF assms] by (auto simp: count_block_def Let_def lo_word_def split: if_splits)

lemma lo_hi_add:
  fixes B t :: nat
  assumes dvd: "B dvd t" "B dvd 2 ^ LENGTH('a)" and e: "e < B"
  shows "unat (lo_word (t + e) :: 'a::len word) = unat (lo_word t :: 'a word) + e"
    and "(hi_word (t + e) :: 'a word) = hi_word t"
proof -
  let ?N = "2 ^ LENGTH('a) :: nat"
  define l where "l = t mod ?N"
  have l: "l < ?N" "B dvd ?N - l" using dvd by (auto simp: l_def dvd_mod intro: dvd_diff_nat)
  then have "B \<le> ?N - l" by (auto intro: dvd_imp_le)
  then have le: "l + e < ?N" using e by simp
  have split: "t + e = ?N * (t div ?N) + (l + e)" by (simp add: l_def)
  have "(t + e) mod ?N = l + e" by (subst split) (use le in simp)
  moreover have "(t + e) div ?N = t div ?N" by (subst split) (use le in simp)
  ultimately show "unat (lo_word (t + e) :: 'a::len word) = unat (lo_word t :: 'a word) + e"
    and "(hi_word (t + e) :: 'a word) = hi_word t"
    by (simp_all add: lo_word_def hi_word_def unat_of_nat l_def del: of_nat_add)
qed

lemma count_block_final:
  fixes B t :: nat
  assumes dvd: "B dvd t" "B dvd 2 ^ LENGTH('a)" and B: "0 < B" "B < 2 ^ LENGTH('a)" "e < B"
  defines "t' \<equiv> if e = 0 then 0 else t + e"
  shows "count_block B (final_counter B e (lo_word t) (hi_word t)) = (lo_word t', hi_word t' :: 'a::len word)"
proof -
  note lh = lo_hi_add [OF dvd B(3)]
  have eB: "(of_nat e :: 'a word) < of_nat B" and B0: "(0 :: 'a word) < of_nat B"
    using B by (simp_all add: word_less_nat_alt unat_of_nat)
  consider "e = 0" | "e \<noteq> 0" "lo_word t = (0 :: 'a word)" | "e \<noteq> 0" "lo_word t \<noteq> (0 :: 'a word)"
    by blast
  then show ?thesis
  proof cases
    case 1
    then show ?thesis using B0
      by (simp add: t'_def count_block_def final_counter_def lo_word_def hi_word_def)
  next
    case 2
    then have "lo_word (t + e) = (of_nat e :: 'a word)" by (simp add: lo_word_add) (simp add: lo_word_def)
    with 2 eB lh(2) show ?thesis
      by (simp add: t'_def count_block_def final_counter_def)
  next
    case 3
    have sum: "lo_word t - of_nat (B - e) + of_nat B = (lo_word (t + e) :: 'a word)"
      using B(3) by (simp add: lo_word_def)
    have "B dvd unat (lo_word t :: 'a word)"
      using dvd by (simp add: lo_word_def unat_of_nat dvd_mod)
    moreover have "0 < unat (lo_word t :: 'a word)" using 3 by (simp add: unat_gt_0)
    ultimately have "B \<le> unat (lo_word t :: 'a word)" by (rule dvd_imp_le)
    then have "\<not> (lo_word (t + e) :: 'a word) < of_nat B"
      using lh(1) B by (simp add: word_less_nat_alt unat_of_nat)
    with 3 lh(2) sum show ?thesis
      by (simp add: t'_def count_block_def final_counter_def Let_def)
  qed
qed

text \<open>The byte array \<^verbatim>\<open>u.buf\<close> of the closing functions and the padding it holds.\<close>

lemma close_pad_byte:
  "ucast (((0 AND - drop_bit 0 0x80) OR drop_bit 0 0x80) AND 0xFF :: u32) = (0x80 :: u8)"
  by simp

lemma update_replicate:
  "r < n \<Longrightarrow> (replicate n v)[r := x] = replicate r v @ x # replicate (n - 1 - r) v"
  by (simp add: upd_conv_take_nth_drop min_def)

lemma memset_zeros:
  "r < n \<Longrightarrow> Suc r + k \<le> n \<Longrightarrow>
   memset (replicate r v @ x # replicate (n - 1 - r) v) (Suc r) v k = replicate r v @ x # replicate (n - 1 - r) v"
  by (simp add: memset_def memcpy_def flip: replicate_add)

lemma memcpy_two:
  "length u = P + length a + length b \<Longrightarrow>
   memcpy (memcpy u P a) (P + length a) b = take P u @ a @ b"
  by (simp add: memcpy_def)

lemma pad_short:
  assumes "r < P" "P \<le> bs" "fin = 0 \<or> fin = 1" and u: "u = replicate r 0 @ 0x80 # replicate (bs - 1 - r) 0"
  shows "drop r (take P (u[P - 1 := u ! (P - 1) OR fin])) = blake_pad P bs fin r"
proof (cases "r = P - 1")
  case True
  then show ?thesis using assms by (simp add: blake_pad_def nth_append list_update_append)
next
  case False
  then have z: "(P - 1 + bs - r) mod bs = P - 1 - r" "P - 1 - r \<noteq> 0"
    using assms(1,2) by (simp_all add: mod_if)
  then have "take P (u[P - 1 := u ! (P - 1) OR fin]) = replicate r 0 @ 0x80 # replicate (P - 2 - r) 0 @ [fin]"
    using assms(1,2) False
    by (auto simp: u list_eq_iff_nth_eq nth_append nth_list_update nth_Cons' min_def)
  with z show ?thesis by (simp add: blake_pad_def numeral_2_eq_2)
qed

lemma pad_long:
  assumes "P \<le> r" "r < bs" "0 < P"
  shows "blake_pad P bs fin r = 0x80 # replicate (bs - 1 - r) 0 @ replicate (P - 1) 0 @ [fin]"
proof -
  have "(P - 1 + bs - r) mod bs = P - 1 + bs - r" using assms by simp
  moreover have "replicate (P - 1 + bs - r - 1) (0 :: u8) = replicate (bs - 1 - r) 0 @ replicate (P - 1) 0"
    using assms by (simp flip: replicate_add)
  ultimately show ?thesis using assms by (simp add: blake_pad_def)
qed

end
