(* ===== verification/Blake_Big.thy ===== *)
theory Blake_Big
  imports Blake_Sigma
begin

text \<open>
  \<^verbatim>\<open>crypto/blake.c\<close>, the 64-bit family (BLAKE-384 and BLAKE-512): context, compression
  function in its unrolled and its compact form, streaming update, padding and
  output. The context is the struct \<^verbatim>\<open>sph_blake_big_context\<close>; the macros' local variables
  \<^verbatim>\<open>H0 .. H7\<close>, \<^verbatim>\<open>V0 .. VF\<close>, \<^verbatim>\<open>M0 .. MF\<close> are lists indexed by the same digits.

  The main results: hashing a message in any sequence of updates yields BLAKE-512 of the
  message as its specification defines it (block counters, padding, output), the
  unrolled and the compact code agree, and the round function is a bijection of the state.
\<close>

section \<open>Context and constants\<close>

record sph_blake_big_context =
  bb_buf :: bytes
  bb_ptr :: nat
  bb_H :: "u64 list"
  bb_S :: "u64 list"
  bb_T0 :: u64
  bb_T1 :: u64

definition IV384 :: "u64 list" where
  "IV384 =
   [0xCBBB9D5DC1059ED8, 0x629A292A367CD507,
    0x9159015A3070DD17, 0x152FECD8F70E5939,
    0x67332667FFC00B31, 0x8EB44A8768581511,
    0xDB0C2E0D64F98FA7, 0x47B5481DBEFA4FA4]"

definition IV512 :: "u64 list" where
  "IV512 =
   [0x6A09E667F3BCC908, 0xBB67AE8584CAA73B,
    0x3C6EF372FE94F82B, 0xA54FF53A5F1D36F1,
    0x510E527FADE682D1, 0x9B05688C2B3E6C1F,
    0x1F83D9ABFB41BD6B, 0x5BE0CD19137E2179]"

definition salt_zero_big :: "u64 list" where
  "salt_zero_big = [0, 0, 0, 0]"

definition CB :: "u64 list" where
  "CB =
   [0x243F6A8885A308D3, 0x13198A2E03707344,
    0xA4093822299F31D0, 0x082EFA98EC4E6C89,
    0x452821E638D01377, 0xBE5466CF34E90C6C,
    0xC0AC29B7C97C50DD, 0x3F84D5B5B5470917,
    0x9216D5D98979FB1B, 0xD1310BA698DFB5AC,
    0x2FFD72DBD01ADFB7, 0xB8E1AFED6A267E96,
    0xBA7C9045F12C7F99, 0x24A19947B3916CF7,
    0x0801F2E2858EFC16, 0x636920D871574E69]"

section \<open>Compression\<close>

definition GB :: "u64 \<Rightarrow> u64 \<Rightarrow> u64 \<Rightarrow> u64 \<Rightarrow> u64 \<times> u64 \<times> u64 \<times> u64 \<Rightarrow> u64 \<times> u64 \<times> u64 \<times> u64" where
  "GB m0 m1 c0 c1 = (\<lambda>(a, b, c, d).
    let a = SPH_T64 (a + b + (m0 XOR c1));
        d = SPH_ROTR64 (d XOR a) 32;
        c = SPH_T64 (c + d);
        b = SPH_ROTR64 (b XOR c) 25;
        a = SPH_T64 (a + b + (m1 XOR c0));
        d = SPH_ROTR64 (d XOR a) 16;
        c = SPH_T64 (c + d);
        b = SPH_ROTR64 (b XOR c) 11
    in (a, b, c, d))"

text \<open>The macro applied to four of the variables \<^verbatim>\<open>V0 .. VF\<close>, given by their digits.\<close>

definition GB_at :: "u64 \<Rightarrow> u64 \<Rightarrow> u64 \<Rightarrow> u64 \<Rightarrow> nat \<Rightarrow> nat \<Rightarrow> nat \<Rightarrow> nat \<Rightarrow> u64 list \<Rightarrow> u64 list" where
  "GB_at m0 m1 c0 c1 i j k l V =
    (case GB m0 m1 c0 c1 (V ! i, V ! j, V ! k, V ! l) of
      (a, b, c, d) \<Rightarrow> V[i := a, j := b, k := c, l := d])"

definition Mx64 :: "u64 list \<Rightarrow> nat \<Rightarrow> nat \<Rightarrow> u64" where
  "Mx64 M r i = M ! (Z ! r ! i)"

definition CBx :: "nat \<Rightarrow> nat \<Rightarrow> u64" where
  "CBx r i = CB ! (Z ! r ! i)"

definition ROUND_B :: "u64 list \<Rightarrow> nat \<Rightarrow> u64 list \<Rightarrow> u64 list" where
  "ROUND_B M r V =
    (let V = GB_at (Mx64 M r 0) (Mx64 M r 1) (CBx r 0) (CBx r 1) 0 4 8 12 V;
         V = GB_at (Mx64 M r 2) (Mx64 M r 3) (CBx r 2) (CBx r 3) 1 5 9 13 V;
         V = GB_at (Mx64 M r 4) (Mx64 M r 5) (CBx r 4) (CBx r 5) 2 6 10 14 V;
         V = GB_at (Mx64 M r 6) (Mx64 M r 7) (CBx r 6) (CBx r 7) 3 7 11 15 V;
         V = GB_at (Mx64 M r 8) (Mx64 M r 9) (CBx r 8) (CBx r 9) 0 5 10 15 V;
         V = GB_at (Mx64 M r 10) (Mx64 M r 11) (CBx r 10) (CBx r 11) 1 6 11 12 V;
         V = GB_at (Mx64 M r 12) (Mx64 M r 13) (CBx r 12) (CBx r 13) 2 7 8 13 V;
         V = GB_at (Mx64 M r 14) (Mx64 M r 15) (CBx r 14) (CBx r 15) 3 4 9 14 V
     in V)"

definition ROUND_B_compact :: "u64 list \<Rightarrow> nat \<Rightarrow> u64 list \<Rightarrow> u64 list" where
  "ROUND_B_compact M r V =
    (let s = sigma ! r;
         V = GB_at (M ! (s ! 0)) (M ! (s ! 1)) (CB ! (s ! 0)) (CB ! (s ! 1)) 0 4 8 12 V;
         V = GB_at (M ! (s ! 2)) (M ! (s ! 3)) (CB ! (s ! 2)) (CB ! (s ! 3)) 1 5 9 13 V;
         V = GB_at (M ! (s ! 4)) (M ! (s ! 5)) (CB ! (s ! 4)) (CB ! (s ! 5)) 2 6 10 14 V;
         V = GB_at (M ! (s ! 6)) (M ! (s ! 7)) (CB ! (s ! 6)) (CB ! (s ! 7)) 3 7 11 15 V;
         V = GB_at (M ! (s ! 8)) (M ! (s ! 9)) (CB ! (s ! 8)) (CB ! (s ! 9)) 0 5 10 15 V;
         V = GB_at (M ! (s ! 10)) (M ! (s ! 11)) (CB ! (s ! 10)) (CB ! (s ! 11)) 1 6 11 12 V;
         V = GB_at (M ! (s ! 12)) (M ! (s ! 13)) (CB ! (s ! 12)) (CB ! (s ! 13)) 2 7 8 13 V;
         V = GB_at (M ! (s ! 14)) (M ! (s ! 15)) (CB ! (s ! 14)) (CB ! (s ! 15)) 3 4 9 14 V
     in V)"

text \<open>The loads of the state and message variables and the final feed-forward.\<close>

definition compress64_V :: "u64 list \<Rightarrow> u64 list \<Rightarrow> u64 \<Rightarrow> u64 \<Rightarrow> u64 list" where
  "compress64_V H S T0 T1 =
    [H ! 0, H ! 1, H ! 2, H ! 3, H ! 4, H ! 5, H ! 6, H ! 7,
     S ! 0 XOR CB ! 0, S ! 1 XOR CB ! 1, S ! 2 XOR CB ! 2, S ! 3 XOR CB ! 3,
     T0 XOR CB ! 4, T0 XOR CB ! 5, T1 XOR CB ! 6, T1 XOR CB ! 7]"

definition compress64_M :: "bytes \<Rightarrow> u64 list" where
  "compress64_M buf =
    [sph_dec64be (drop 0 buf), sph_dec64be (drop 8 buf),
     sph_dec64be (drop 16 buf), sph_dec64be (drop 24 buf),
     sph_dec64be (drop 32 buf), sph_dec64be (drop 40 buf),
     sph_dec64be (drop 48 buf), sph_dec64be (drop 56 buf),
     sph_dec64be (drop 64 buf), sph_dec64be (drop 72 buf),
     sph_dec64be (drop 80 buf), sph_dec64be (drop 88 buf),
     sph_dec64be (drop 96 buf), sph_dec64be (drop 104 buf),
     sph_dec64be (drop 112 buf), sph_dec64be (drop 120 buf)]"

definition compress64_out :: "u64 list \<Rightarrow> u64 list \<Rightarrow> u64 list \<Rightarrow> u64 list" where
  "compress64_out H S V =
    [H ! 0 XOR (S ! 0 XOR V ! 0 XOR V ! 8), H ! 1 XOR (S ! 1 XOR V ! 1 XOR V ! 9),
     H ! 2 XOR (S ! 2 XOR V ! 2 XOR V ! 10), H ! 3 XOR (S ! 3 XOR V ! 3 XOR V ! 11),
     H ! 4 XOR (S ! 0 XOR V ! 4 XOR V ! 12), H ! 5 XOR (S ! 1 XOR V ! 5 XOR V ! 13),
     H ! 6 XOR (S ! 2 XOR V ! 6 XOR V ! 14), H ! 7 XOR (S ! 3 XOR V ! 7 XOR V ! 15)]"

definition COMPRESS64 :: "u64 list \<Rightarrow> u64 list \<Rightarrow> u64 \<Rightarrow> u64 \<Rightarrow> bytes \<Rightarrow> u64 list" where
  "COMPRESS64 H S T0 T1 buf =
    (let V = compress64_V H S T0 T1;
         M = compress64_M buf;
         V = ROUND_B M 0 V;
         V = ROUND_B M 1 V;
         V = ROUND_B M 2 V;
         V = ROUND_B M 3 V;
         V = ROUND_B M 4 V;
         V = ROUND_B M 5 V;
         V = ROUND_B M 6 V;
         V = ROUND_B M 7 V;
         V = ROUND_B M 8 V;
         V = ROUND_B M 9 V;
         V = ROUND_B M 0 V;
         V = ROUND_B M 1 V;
         V = ROUND_B M 2 V;
         V = ROUND_B M 3 V;
         V = ROUND_B M 4 V;
         V = ROUND_B M 5 V
     in compress64_out H S V)"

definition COMPRESS64_compact :: "u64 list \<Rightarrow> u64 list \<Rightarrow> u64 \<Rightarrow> u64 \<Rightarrow> bytes \<Rightarrow> u64 list" where
  "COMPRESS64_compact H S T0 T1 buf =
    (let V = compress64_V H S T0 T1;
         M = compress64_M buf;
         V = foldl (\<lambda>V r. ROUND_B_compact M r V) V [0..<16]
     in compress64_out H S V)"

section \<open>Initialisation and update\<close>

definition blake64_init :: "sph_blake_big_context \<Rightarrow> u64 list \<Rightarrow> u64 list \<Rightarrow> sph_blake_big_context" where
  "blake64_init sc iv salt =
    sc\<lparr>bb_H := iv, bb_S := salt, bb_T0 := 0, bb_T1 := 0, bb_ptr := 0\<rparr>"

type_synonym blake64_state = "u64 list \<times> u64 list \<times> u64 \<times> u64"

definition READ_STATE64 :: "sph_blake_big_context \<Rightarrow> blake64_state" where
  "READ_STATE64 sc = (bb_H sc, bb_S sc, bb_T0 sc, bb_T1 sc)"

definition WRITE_STATE64 :: "sph_blake_big_context \<Rightarrow> blake64_state \<Rightarrow> sph_blake_big_context" where
  "WRITE_STATE64 sc st =
    (case st of (H, S, T0, T1) \<Rightarrow> sc\<lparr>bb_H := H, bb_S := S, bb_T0 := T0, bb_T1 := T1\<rparr>)"

text \<open>The body of \<^verbatim>\<open>if (ptr == sizeof sc->buf)\<close>: count the block, then compress it.\<close>

definition blake64_block :: "blake64_state \<Rightarrow> bytes \<Rightarrow> blake64_state" where
  "blake64_block st buf =
    (case st of (H, S, T0, T1) \<Rightarrow>
      let T0 = SPH_T64 (T0 + 1024);
          T1 = (if T0 < 1024 then SPH_T64 (T1 + 1) else T1)
      in (COMPRESS64 H S T0 T1 buf, S, T0, T1))"

text \<open>
  The \<^verbatim>\<open>while (len > 0)\<close> loop over the local state, the buffer, \<^verbatim>\<open>ptr\<close> and the remaining
  data. A \<^verbatim>\<open>ptr\<close> beyond the buffer would make the \<^verbatim>\<open>memcpy\<close> write out of bounds; no context
  reaches that (\<open>blake64.wf_core\<close>), and the loop stops there.
\<close>

function blake64_loop :: "blake64_state \<Rightarrow> bytes \<Rightarrow> nat \<Rightarrow> bytes \<Rightarrow> blake64_state \<times> bytes \<times> nat" where
  "blake64_loop st buf ptr data =
    (if data = [] \<or> 128 < ptr then (st, buf, ptr)
     else
       let clen = 128 - ptr;
           clen = (if clen > length data then length data else clen);
           buf = memcpy buf ptr (take clen data);
           ptr = ptr + clen;
           data = drop clen data
       in if ptr = 128 then blake64_loop (blake64_block st buf) buf 0 data
          else blake64_loop st buf ptr data)"
  by pat_completeness auto
termination
  by (relation "measure (\<lambda>(st, buf, ptr, data). 2 * length data + (if ptr = 128 then 1 else 0))")
    (auto simp: Let_def split: if_splits)

declare blake64_loop.simps [simp del]

definition blake64 :: "sph_blake_big_context \<Rightarrow> bytes \<Rightarrow> sph_blake_big_context" where
  "blake64 sc data =
    (if length data < 128 - bb_ptr sc then
       sc\<lparr>bb_buf := memcpy (bb_buf sc) (bb_ptr sc) data, bb_ptr := bb_ptr sc + length data\<rparr>
     else
       (case blake64_loop (READ_STATE64 sc) (bb_buf sc) (bb_ptr sc) data of
         (st, buf, ptr) \<Rightarrow> (WRITE_STATE64 (sc\<lparr>bb_buf := buf\<rparr>) st)\<lparr>bb_ptr := ptr\<rparr>))"

section \<open>Padding and output\<close>

text \<open>
  Padding starts by setting back the counter, so that the count of a full block that
  \<^verbatim>\<open>blake64\<close> adds when it absorbs the last block yields the number of message bits.
\<close>

definition blake64_close_counter ::
  "sph_blake_big_context \<Rightarrow> nat \<Rightarrow> nat \<Rightarrow> nat \<Rightarrow> sph_blake_big_context" where
  "blake64_close_counter sc ptr n bit_len =
    (if ptr = 0 \<and> n = 0 then
       sc\<lparr>bb_T0 := 0xFFFFFFFFFFFFFC00, bb_T1 := 0xFFFFFFFFFFFFFFFF\<rparr>
     else if bb_T0 sc = 0 then
       sc\<lparr>bb_T0 := 0xFFFFFFFFFFFFFC00 + of_nat bit_len, bb_T1 := SPH_T64 (bb_T1 sc - 1)\<rparr>
     else
       sc\<lparr>bb_T0 := bb_T0 sc - of_nat (1024 - bit_len)\<rparr>)"

text \<open>
  \<^verbatim>\<open>u.buf\<close> is an uninitialised local array of the C function; every byte of it that is
  passed on has been written before, so its initial content here is arbitrary (zero).
\<close>

definition blake64_close ::
  "sph_blake_big_context \<Rightarrow> u32 \<Rightarrow> nat \<Rightarrow> nat \<Rightarrow> sph_blake_big_context \<times> bytes" where
  "blake64_close sc ub n out_size_w64 =
    (let ptr = bb_ptr sc;
         bit_len = ptr * 8 + n;
         z = drop_bit n (0x80 :: u32);
         u = (replicate 128 0)[ptr := ucast (((ub AND - z) OR z) AND 0xFF)];
         tl = bb_T0 sc + of_nat bit_len;
         th = bb_T1 sc;
         sc = blake64_close_counter sc ptr n bit_len;
         sc = (if bit_len \<le> 894 then
                 let u = memset u (ptr + 1) 0 (111 - ptr);
                     u = (if out_size_w64 = 8 then u[111 := u ! 111 OR 1] else u);
                     u = memcpy u 112 (sph_enc64be th);
                     u = memcpy u 120 (sph_enc64be tl)
                 in blake64 sc (drop ptr u)
               else
                 let u = memset u (ptr + 1) 0 (127 - ptr);
                     sc = blake64 sc (drop ptr u);
                     sc = sc\<lparr>bb_T0 := 0xFFFFFFFFFFFFFC00, bb_T1 := 0xFFFFFFFFFFFFFFFF\<rparr>;
                     u = memset u 0 0 112;
                     u = (if out_size_w64 = 8 then u[111 := 1] else u);
                     u = memcpy u 112 (sph_enc64be th);
                     u = memcpy u 120 (sph_enc64be tl)
                 in blake64 sc u)
     in (sc, concat (map (\<lambda>k. sph_enc64be (bb_H sc ! k)) [0..<out_size_w64])))"

definition sph_blake384_init :: "sph_blake_big_context \<Rightarrow> sph_blake_big_context" where
  "sph_blake384_init cc = blake64_init cc IV384 salt_zero_big"

definition sph_blake384 :: "sph_blake_big_context \<Rightarrow> bytes \<Rightarrow> sph_blake_big_context" where
  "sph_blake384 cc data = blake64 cc data"

definition sph_blake384_addbits_and_close ::
  "sph_blake_big_context \<Rightarrow> u32 \<Rightarrow> nat \<Rightarrow> sph_blake_big_context \<times> bytes" where
  "sph_blake384_addbits_and_close cc ub n =
    (case blake64_close cc ub n 6 of (cc, dst) \<Rightarrow> (sph_blake384_init cc, dst))"

definition sph_blake384_close :: "sph_blake_big_context \<Rightarrow> sph_blake_big_context \<times> bytes" where
  "sph_blake384_close cc = sph_blake384_addbits_and_close cc 0 0"

definition sph_blake512_init :: "sph_blake_big_context \<Rightarrow> sph_blake_big_context" where
  "sph_blake512_init cc = blake64_init cc IV512 salt_zero_big"

definition sph_blake512 :: "sph_blake_big_context \<Rightarrow> bytes \<Rightarrow> sph_blake_big_context" where
  "sph_blake512 cc data = blake64 cc data"

definition sph_blake512_addbits_and_close ::
  "sph_blake_big_context \<Rightarrow> u32 \<Rightarrow> nat \<Rightarrow> sph_blake_big_context \<times> bytes" where
  "sph_blake512_addbits_and_close cc ub n =
    (case blake64_close cc ub n 8 of (cc, dst) \<Rightarrow> (sph_blake512_init cc, dst))"

definition sph_blake512_close :: "sph_blake_big_context \<Rightarrow> sph_blake_big_context \<times> bytes" where
  "sph_blake512_close cc = sph_blake512_addbits_and_close cc 0 0"

section \<open>The streaming contract\<close>

definition blake64_put :: "bytes \<Rightarrow> nat \<Rightarrow> sph_blake_big_context \<Rightarrow> sph_blake_big_context" where
  "blake64_put b p sc = sc\<lparr>bb_buf := b, bb_ptr := p\<rparr>"

definition blake64_absorb :: "bytes \<Rightarrow> sph_blake_big_context \<Rightarrow> sph_blake_big_context" where
  "blake64_absorb blk sc = WRITE_STATE64 sc (blake64_block (READ_STATE64 sc) blk)"

lemma blake64_loop_Nil: "blake64_loop st buf ptr [] = (st, buf, ptr)"
  by (simp add: blake64_loop.simps)

lemma blake64_loop_short:
  "ptr + length d < 128 \<Longrightarrow> blake64_loop st buf ptr d = (st, memcpy buf ptr d, ptr + length d)"
  by (subst blake64_loop.simps) (auto simp: Let_def blake64_loop_Nil)

lemma blake64_loop_full:
  assumes "ptr < 128" "128 \<le> ptr + length d" "b = memcpy buf ptr (take (128 - ptr) d)"
  shows "blake64_loop st buf ptr d = blake64_loop (blake64_block st b) b 0 (drop (128 - ptr) d)"
proof -
  have "d \<noteq> []" using assms by auto
  moreover have "(if 128 - ptr > length d then length d else 128 - ptr) = 128 - ptr"
    using assms by auto
  ultimately show ?thesis
    using assms by (subst blake64_loop.simps) (auto simp: Let_def)
qed

lemma blake64_block_S: "blake64_block (H, S, T0, T1) b =
  (let t = count_block 1024 (T0, T1) in (COMPRESS64 H S (fst t) (snd t) b, S, fst t, snd t))"
  by (simp add: blake64_block_def count_block_def Let_def)

lemma blake64_eq_loop:
  "bb_ptr sc < 128 \<Longrightarrow> blake64 sc d =
    (case blake64_loop (READ_STATE64 sc) (bb_buf sc) (bb_ptr sc) d of
      (st, buf, ptr) \<Rightarrow> blake64_put buf ptr (WRITE_STATE64 sc st))"
  by (auto simp: blake64_def blake64_loop_short blake64_put_def WRITE_STATE64_def READ_STATE64_def
      split: prod.splits)

interpretation blake64: eager_core 128 128 bb_buf bb_ptr blake64_put blake64_absorb blake64
proof
  fix c :: sph_blake_big_context and d b :: bytes
  assume len: "length (bb_buf c) = 128"
  show "blake64 c d = blake64_put (memcpy (bb_buf c) (bb_ptr c) d) (bb_ptr c + length d) c"
    if "bb_ptr c + length d < 128"
    using that by (simp add: blake64_def blake64_put_def less_diff_conv add.commute)
  show "blake64 c d =
      blake64 (blake64_put b 0 (blake64_absorb (take 128 b) c)) (drop (128 - bb_ptr c) d)"
    if p: "bb_ptr c < 128" "128 \<le> bb_ptr c + length d"
      and b: "b = memcpy (bb_buf c) (bb_ptr c) (take (128 - bb_ptr c) d)"
  proof -
    have tb: "take 128 b = b" using p len by (simp add: b)
    show ?thesis
      unfolding tb
      by (cases "blake64_block (READ_STATE64 c) b")
        (auto simp: blake64_eq_loop p blake64_loop_full [OF p b] blake64_put_def blake64_absorb_def
          WRITE_STATE64_def READ_STATE64_def split: prod.splits)
  qed
qed (auto simp: blake64_put_def blake64_absorb_def WRITE_STATE64_def READ_STATE64_def
      split: prod.splits)

section \<open>The BLAKE specification\<close>

text \<open>
  The specification, written from the definition of BLAKE: rounds and quarter-rounds as an
  iteration over round number and position, rotations as rotations of words, the message as
  one padded string cut into blocks, and a counter that is a natural number.
\<close>

definition blake64_G :: "u64 list \<Rightarrow> u64 list \<Rightarrow> nat \<times> nat \<Rightarrow> u64 list" where
  "blake64_G M V = (\<lambda>(r, i). case blake_positions ! i of (pa, pb, pc, pd) \<Rightarrow>
    let s = Z ! (r mod 10); j = s ! (2 * i); k = s ! (2 * i + 1);
        a = V ! pa + V ! pb + (M ! j XOR CB ! k);
        d = word_rotr 32 (V ! pd XOR a);
        c = V ! pc + d;
        b = word_rotr 25 (V ! pb XOR c);
        a = a + b + (M ! k XOR CB ! j);
        d = word_rotr 16 (d XOR a);
        c = c + d;
        b = word_rotr 11 (b XOR c)
    in V[pa := a, pb := b, pc := c, pd := d])"

definition blake64_compress :: "u64 list \<Rightarrow> u64 list \<Rightarrow> nat \<Rightarrow> bytes \<Rightarrow> u64 list" where
  "blake64_compress H S t b =
    (let M = map (\<lambda>j. sph_dec64be (drop (8 * j) b)) [0..<16];
         V = map (\<lambda>j. H ! j) [0..<8] @ map (\<lambda>j. S ! j XOR CB ! j) [0..<4] @
             [lo_word t XOR CB ! 4, lo_word t XOR CB ! 5, hi_word t XOR CB ! 6, hi_word t XOR CB ! 7];
         V = foldl (blake64_G M) V (List.product [0..<16] [0..<8])
     in map (\<lambda>j. H ! j XOR (S ! (j mod 4) XOR V ! j XOR V ! (j + 8))) [0..<8])"

fun blake64_blocks :: "nat \<Rightarrow> nat \<Rightarrow> u64 list \<Rightarrow> bytes list \<Rightarrow> u64 list" where
  "blake64_blocks len i H [] = H"
| "blake64_blocks len i H (b # bs) =
    blake64_blocks len (i + 1) (blake64_compress H salt_zero_big (blake_count 128 len i) b) bs"

definition blake64_hash :: "u64 list \<Rightarrow> u8 \<Rightarrow> nat \<Rightarrow> bytes \<Rightarrow> bytes" where
  "blake64_hash iv fin w msg =
    (let len = length msg;
         padded = msg @ blake_pad 112 128 fin (len mod 128)
           @ sph_enc64be (hi_word (8 * len)) @ sph_enc64be (lo_word (8 * len));
         H = blake64_blocks len 0 iv (chunks 128 padded)
     in concat (map (\<lambda>k. sph_enc64be (H ! k)) [0..<w]))"

definition blake384_spec :: "bytes \<Rightarrow> bytes" where
  "blake384_spec = blake64_hash IV384 0 6"

definition blake512_spec :: "bytes \<Rightarrow> bytes" where
  "blake512_spec = blake64_hash IV512 1 8"

section \<open>Compression implements the specification\<close>

lemma blake64_G_at:
  "blake_positions ! i = (pa, pb, pc, pd) \<Longrightarrow> blake64_G M V (r, i) =
    GB_at (Mx64 M (r mod 10) (2 * i)) (Mx64 M (r mod 10) (2 * i + 1))
      (CBx (r mod 10) (2 * i)) (CBx (r mod 10) (2 * i + 1)) pa pb pc pd V"
  by (simp add: blake64_G_def GB_at_def GB_def Let_def Mx64_def CBx_def SPH_ROTR64_eq_word_rotr)

lemma ROUND_B_foldl: "foldl (blake64_G M) V (map (Pair r) [0..<8]) = ROUND_B M (r mod 10) V"
  by (simp add: upt_lists blake64_G_at blake_positions_def ROUND_B_def Let_def)

lemma COMPRESS64_foldl:
  "foldl (blake64_G M) V (List.product [0..<16] [0..<8]) = foldl (\<lambda>V r. ROUND_B M (r mod 10) V) V [0..<16]"
  by (simp add: product_concat_map foldl_concat_rounds ROUND_B_foldl)

lemma COMPRESS64_rounds:
  "COMPRESS64 H S T0 T1 b = compress64_out H S
    (foldl (\<lambda>V r. ROUND_B (compress64_M b) (r mod 10) V) (compress64_V H S T0 T1) [0..<16])"
  by (simp add: COMPRESS64_def Let_def upt_lists)

lemma compress64_M_map: "compress64_M b = map (\<lambda>j. sph_dec64be (drop (8 * j) b)) [0..<16]"
  by (simp add: compress64_M_def upt_lists)

lemma compress64_V_map: "compress64_V H S T0 T1 =
  map (\<lambda>j. H ! j) [0..<8] @ map (\<lambda>j. S ! j XOR CB ! j) [0..<4] @
    [T0 XOR CB ! 4, T0 XOR CB ! 5, T1 XOR CB ! 6, T1 XOR CB ! 7]"
  by (simp add: compress64_V_def upt_lists)

lemma compress64_out_map: "compress64_out H S V =
  map (\<lambda>j. H ! j XOR (S ! (j mod 4) XOR V ! j XOR V ! (j + 8))) [0..<8]"
  by (simp add: compress64_out_def upt_lists)

lemma COMPRESS64_correct:
  "COMPRESS64 H S (lo_word t) (hi_word t) b = blake64_compress H S t b"
  unfolding COMPRESS64_rounds blake64_compress_def Let_def COMPRESS64_foldl
    compress64_M_map compress64_V_map compress64_out_map by (rule refl)

text \<open>The compact code path runs the same rounds from the table.\<close>

lemma ROUND_B_compact_eq: "r < 16 \<Longrightarrow> ROUND_B_compact M r V = ROUND_B M (r mod 10) V"
  by (simp add: ROUND_B_compact_def ROUND_B_def sigma_row Mx64_def CBx_def Let_def)

lemma COMPRESS64_compact_eq: "COMPRESS64_compact H S T0 T1 b = COMPRESS64 H S T0 T1 b"
  unfolding COMPRESS64_rounds COMPRESS64_compact_def Let_def
  by (intro arg_cong [where f = "compress64_out H S"] foldl_cong refl) (simp add: ROUND_B_compact_eq)

section \<open>Hashing implements the specification\<close>

lemma blake64_blocks_append:
  "blake64_blocks len i H (xs @ ys) = blake64_blocks len (i + length xs) (blake64_blocks len i H xs) ys"
  by (induction xs arbitrary: i H) simp_all

text \<open>The context after \<open>k\<close> full blocks: chaining value \<open>H\<close>, salt zero, \<open>k\<close> blocks counted.\<close>

definition blake64_at :: "u64 list \<Rightarrow> nat \<Rightarrow> sph_blake_big_context \<Rightarrow> bool" where
  "blake64_at H k c \<longleftrightarrow>
    READ_STATE64 c = (H, salt_zero_big, lo_word (1024 * k), hi_word (1024 * k))"

lemma blake64_at_chain [simp]: "blake64_at H k (blake64.chain c) = blake64_at H k c"
  by (simp add: blake64_at_def blake64.chain_def blake64_put_def READ_STATE64_def)

lemma blake64_at_H: "blake64_at H k c \<Longrightarrow> bb_H c = H"
  by (simp add: blake64_at_def READ_STATE64_def)

lemma blake64_at_absorb:
  assumes "blake64_at H k c" "k < len div 128"
  shows "blake64_at (blake64_compress H salt_zero_big (blake_count 128 len k) b) (Suc k) (blake64_absorb b c)"
proof -
  have "count_block 1024 (lo_word (1024 * k), hi_word (1024 * k)) =
      (lo_word (1024 * k + 1024), hi_word (1024 * k + 1024) :: u64)"
    by (rule count_block_full) simp_all
  then show ?thesis
    using assms blake_count_full [OF assms(2)]
    by (simp add: blake64_at_def blake64_absorb_def blake64_block_S READ_STATE64_def WRITE_STATE64_def
        COMPRESS64_correct add.commute)
qed

lemma blake64_at_absorb_all:
  "blake64_at H k c \<Longrightarrow> k + length blks \<le> len div 128 \<Longrightarrow>
   blake64_at (blake64_blocks len k H blks) (k + length blks) (blake64.absorb_all c blks)"
proof (induction blks arbitrary: H k c)
  case Nil
  then show ?case by simp
next
  case (Cons b blks)
  from Cons.IH [OF blake64_at_absorb [OF Cons.prems(1), of len b]] Cons.prems(2)
  show ?case by simp
qed

text \<open>The last block or blocks, with the counter \<^verbatim>\<open>blake64_close\<close> prepares.\<close>

lemma blake64_absorb_final:
  fixes c c' :: sph_blake_big_context and len :: nat
  assumes "blake64_at H (len div 128) c"
    "(bb_T0 c', bb_T1 c') = final_counter 1024 (8 * (len mod 128)) (bb_T0 c) (bb_T1 c)"
    "bb_H c' = bb_H c" "bb_S c' = bb_S c"
  shows "bb_H (blake64_absorb b c') = blake64_compress H salt_zero_big (blake_count 128 len (len div 128)) b
    \<and> bb_S (blake64_absorb b c') = salt_zero_big"
proof -
  let ?t = "1024 * (len div 128)" and ?e = "8 * (len mod 128)"
  have T: "(bb_T0 c', bb_T1 c') = final_counter 1024 ?e (lo_word ?t) (hi_word ?t)"
    using assms(1,2) by (simp add: blake64_at_def READ_STATE64_def)
  have "count_block 1024 (final_counter 1024 ?e (lo_word ?t) (hi_word ?t)) =
      (lo_word (if ?e = 0 then 0 else ?t + ?e), hi_word (if ?e = 0 then 0 else ?t + ?e) :: u64)"
    by (rule count_block_final) simp_all
  then show ?thesis
    using assms T [symmetric] blake_count_last [of 128 len]
    by (simp add: blake64_at_def blake64_absorb_def blake64_block_S READ_STATE64_def WRITE_STATE64_def
        COMPRESS64_correct)
qed

lemma blake64_minus: "(0xFFFFFFFFFFFFFC00 :: u64) = - 1024" "(0xFFFFFFFFFFFFFFFF :: u64) = - 1"
  by simp_all

lemma blake64_absorb_extra:
  fixes c :: sph_blake_big_context
  assumes "bb_T0 c = 0xFFFFFFFFFFFFFC00" "bb_T1 c = 0xFFFFFFFFFFFFFFFF"
  shows "bb_H (blake64_absorb b c) = blake64_compress (bb_H c) (bb_S c) 0 b"
  using assms [unfolded blake64_minus] COMPRESS64_correct [of "bb_H c" "bb_S c" 0 b]
  by (simp add: blake64_absorb_def blake64_block_def READ_STATE64_def WRITE_STATE64_def
      lo_word_def hi_word_def)

text \<open>What \<^verbatim>\<open>blake64_close\<close> does for a message of whole bytes.\<close>

definition blake64_fin :: "sph_blake_big_context \<Rightarrow> sph_blake_big_context" where
  "blake64_fin sc = (case final_counter 1024 (8 * bb_ptr sc) (bb_T0 sc) (bb_T1 sc) of
    (T0, T1) \<Rightarrow> sc\<lparr>bb_T0 := T0, bb_T1 := T1\<rparr>)"

definition blake64_length :: "sph_blake_big_context \<Rightarrow> bytes" where
  "blake64_length sc = sph_enc64be (bb_T1 sc) @ sph_enc64be (bb_T0 sc + of_nat (8 * bb_ptr sc))"

definition blake64_out :: "nat \<Rightarrow> sph_blake_big_context \<Rightarrow> bytes" where
  "blake64_out w sc = concat (map (\<lambda>k. sph_enc64be (bb_H sc ! k)) [0..<w])"

lemma blake64_close_counter_fin:
  "bb_ptr sc < 128 \<Longrightarrow> blake64_close_counter sc (bb_ptr sc) 0 (bb_ptr sc * 8 + 0) = blake64_fin sc"
  unfolding blake64_close_counter_def blake64_minus
  by (simp add: blake64_fin_def final_counter_def mult.commute)

lemma blake64_fields_copy:
  fixes v a b :: bytes
  assumes "length v = 128" "length a = 8" "length b = 8"
  shows "memcpy (memcpy v 112 a) 120 b = take 112 v @ a @ b"
  using assms memcpy_two [of v 112 a b] by simp

lemma blake64_close_short:
  assumes "bb_ptr sc < 112"
  shows "blake64_close sc 0 0 w =
    (let sc' = blake64 (blake64_fin sc) (blake_pad 112 128 (if w = 8 then 1 else 0) (bb_ptr sc) @ blake64_length sc)
     in (sc', blake64_out w sc'))"
proof -
  let ?r = "bb_ptr sc" and ?fin = "if w = 8 then 1 else 0 :: u8"
  let ?u = "replicate ?r 0 @ 0x80 # replicate (128 - 1 - ?r) 0 :: bytes"
  have u: "(replicate 128 0)[?r := 0x80] = ?u"
    using assms update_replicate [of ?r 128 0 "0x80 :: u8"] by simp
  have ms: "memset ?u (?r + 1) 0 (111 - ?r) = ?u"
    using assms memset_zeros [of ?r 128 "111 - ?r" 0 "0x80 :: u8"] by simp
  have pad: "drop ?r (take 112 (?u[111 := ?u ! 111 OR fin])) = blake_pad 112 128 fin ?r" if "fin = 0 \<or> fin = 1" for fin
    using assms that pad_short [of ?r 112 128 fin ?u] by simp
  have v: "(if w = 8 then ?u[111 := ?u ! 111 OR 1] else ?u) = ?u[111 := ?u ! 111 OR ?fin]"
    by simp
  have "drop ?r (memcpy (memcpy (?u[111 := ?u ! 111 OR ?fin]) 112 a) 120 b) = blake_pad 112 128 ?fin ?r @ a @ b"
    if "length a = 8" "length b = 8" for a b :: bytes
    using assms that pad [of ?fin] by (simp add: blake64_fields_copy)
  then show ?thesis
    using assms blake64_close_counter_fin [of sc]
    unfolding blake64_close_def Let_def close_pad_byte u ms v
    by (simp add: blake64_length_def blake64_out_def mult.commute)
qed

lemma blake64_close_long:
  assumes "112 \<le> bb_ptr sc" "bb_ptr sc < 128"
  shows "blake64_close sc 0 0 w =
    (let sc1 = blake64 (blake64_fin sc) (0x80 # replicate (127 - bb_ptr sc) 0);
         sc' = blake64 (sc1\<lparr>bb_T0 := 0xFFFFFFFFFFFFFC00, bb_T1 := 0xFFFFFFFFFFFFFFFF\<rparr>)
           (replicate 111 0 @ [if w = 8 then 1 else 0] @ blake64_length sc)
     in (sc', blake64_out w sc'))"
proof -
  let ?r = "bb_ptr sc" and ?fin = "if w = 8 then 1 else 0 :: u8"
  let ?u = "replicate ?r 0 @ 0x80 # replicate (128 - 1 - ?r) 0 :: bytes"
  have u: "(replicate 128 0)[?r := 0x80] = ?u"
    using assms update_replicate [of ?r 128 0 "0x80 :: u8"] by simp
  have ms: "memset ?u (?r + 1) 0 (127 - ?r) = ?u"
    using assms memset_zeros [of ?r 128 "127 - ?r" 0 "0x80 :: u8"] by simp
  have "take 112 (if w = 8 then (memset ?u 0 0 112)[111 := 1] else memset ?u 0 0 112) = replicate 111 0 @ [?fin]"
    using assms
    by (auto simp: memset_def memcpy_def list_update_append update_replicate replicate_append_same
        simp flip: replicate_Suc)
  then have "memcpy (memcpy (if w = 8 then (memset ?u 0 0 112)[111 := 1] else memset ?u 0 0 112) 112 a) 120 b =
      replicate 111 0 @ [?fin] @ a @ b"
    if "length a = 8" "length b = 8" for a b :: bytes
    using assms that by (subst blake64_fields_copy) simp_all
  then show ?thesis
    using assms blake64_close_counter_fin [of sc]
    unfolding blake64_close_def Let_def close_pad_byte u ms
    by (simp add: blake64_length_def blake64_out_def mult.commute)
qed

lemma blake64_length_at:
  assumes "blake64_at H (len div 128) c" "bb_ptr c = len mod 128"
  shows "blake64_length c = sph_enc64be (hi_word (8 * len)) @ sph_enc64be (lo_word (8 * len))"
proof -
  let ?t = "1024 * (len div 128)" and ?e = "8 * (len mod 128)"
  have len: "8 * len = ?t + ?e"
    using mult_div_mod_eq [of 128 len] by linarith
  have "(hi_word (8 * len) :: u64) = hi_word ?t"
    unfolding len by (rule lo_hi_add(2) [where B = 1024]) simp_all
  moreover have "(lo_word (8 * len) :: u64) = lo_word ?t + of_nat ?e"
    unfolding len lo_word_add by (simp add: lo_word_def)
  ultimately show ?thesis
    using assms by (simp add: blake64_length_def blake64_at_def READ_STATE64_def)
qed

lemma blake64_fin_simps [simp]:
  "bb_buf (blake64_fin c) = bb_buf c" "bb_ptr (blake64_fin c) = bb_ptr c"
  "bb_H (blake64_fin c) = bb_H c" "bb_S (blake64_fin c) = bb_S c"
  "(bb_T0 (blake64_fin c), bb_T1 (blake64_fin c)) = final_counter 1024 (8 * bb_ptr c) (bb_T0 c) (bb_T1 c)"
  by (simp_all add: blake64_fin_def split: prod.splits)

lemma blake64_one_block:
  assumes "blake64.wf c" "length (blake64.pending c @ d) = 128"
  shows "READ_STATE64 (blake64 c d) = READ_STATE64 (blake64_absorb (blake64.pending c @ d) c)"
    and "bb_ptr (blake64 c d) = 0"
proof -
  have chain: "READ_STATE64 (blake64.chain c) = READ_STATE64 c" for c
    by (simp add: blake64.chain_def blake64_put_def READ_STATE64_def)
  have "READ_STATE64 (blake64.chain (blake64 c d)) =
      READ_STATE64 (blake64.chain (blake64_absorb (blake64.pending c @ d) c))"
    using blake64.core_one_block(1) [OF assms] by (simp add: blake64.chain_absorb)
  then show "READ_STATE64 (blake64 c d) = READ_STATE64 (blake64_absorb (blake64.pending c @ d) c)"
    by (simp only: chain)
qed (rule blake64.core_one_block(2) [OF assms])

lemma blake64_pending_cong:
  "bb_buf c = bb_buf c' \<Longrightarrow> bb_ptr c = bb_ptr c' \<Longrightarrow> blake64.pending c = blake64.pending c'"
  by (simp add: blake64.pending_def)

lemma blake64_close_correct:
  assumes wf: "blake64.wf c" and at: "blake64_at H (len div 128) c" and ptr: "bb_ptr c = len mod 128"
  defines "lf \<equiv> sph_enc64be (hi_word (8 * len)) @ sph_enc64be (lo_word (8 * len))"
  obtains c' where "blake64_close c 0 0 w = (c', blake64_out w c')" "length (bb_buf c') = 128"
    "bb_H c' = blake64_blocks len (len div 128) H
      (chunks 128 (blake64.pending c @ blake_pad 112 128 (if w = 8 then 1 else 0) (len mod 128) @ lf))"
proof -
  let ?r = "len mod 128" and ?p = "blake64.pending c" and ?k = "len div 128"
  let ?fin = "if w = 8 then 1 else 0 :: u8" and ?f = "blake64_fin c"
  have wff: "blake64.wf ?f" and pf: "blake64.pending ?f = ?p"
    using wf by (simp_all add: blake64.wf_def blake64.pending_def)
  have lp: "length ?p = ?r"
    using wf ptr by (simp add: blake64.wf_def blake64.pending_def)
  have lf: "blake64_length c = lf" "length lf = 128 - 112"
    using blake64_length_at [OF at ptr] by (simp_all add: lf_def)
  have final: "bb_H (blake64 ?f d) = blake64_compress H salt_zero_big (blake_count 128 len ?k) (?p @ d)
      \<and> bb_S (blake64 ?f d) = salt_zero_big \<and> bb_ptr (blake64 ?f d) = 0" if "length (?p @ d) = 128" for d
  proof -
    have "bb_H (blake64_absorb (?p @ d) ?f) = blake64_compress H salt_zero_big (blake_count 128 len ?k) (?p @ d)
        \<and> bb_S (blake64_absorb (?p @ d) ?f) = salt_zero_big"
      using at ptr by (intro blake64_absorb_final [where c = c]) simp_all
    with blake64_one_block [OF wff, of d] pf that show ?thesis
      by (simp add: READ_STATE64_def)
  qed
  show ?thesis
  proof (cases "?r < 112")
    case True
    let ?d = "blake_pad 112 128 ?fin ?r @ lf"
    have len: "length (?p @ ?d) = 128"
      using length_pad_short [OF True, of 128 ?fin] by (simp add: lp lf)
    show ?thesis
    proof (rule that)
      show "blake64_close c 0 0 w = (blake64 ?f ?d, blake64_out w (blake64 ?f ?d))"
        using True ptr blake64_close_short [of c w] by (simp add: lf Let_def)
      show "length (bb_buf (blake64 ?f ?d)) = 128"
        using blake64.wf_core [OF wff] by (simp add: blake64.wf_def)
      have "chunks 128 (?p @ ?d) = [?p @ ?d]"
        using chunks_append [of 128 "?p @ ?d" "[]"] len by simp
      then show "bb_H (blake64 ?f ?d) = blake64_blocks len ?k H (chunks 128 (?p @ ?d))"
        using final [OF len] by simp
    qed
  next
    case False
    let ?da = "0x80 # replicate (127 - ?r) 0" and ?db = "replicate 111 0 @ [?fin] @ lf"
    let ?mid = "(blake64 ?f ?da)\<lparr>bb_T0 := 0xFFFFFFFFFFFFFC00, bb_T1 := 0xFFFFFFFFFFFFFFFF\<rparr>"
    have len: "length (?p @ ?da) = 128" "length ?db = 128"
      using mod_less_divisor [of 128 len] by (simp_all add: lp lf)
    note f1 = final [OF len(1)]
    have wf1: "blake64.wf ?mid" and p1: "blake64.pending ?mid = []"
      using blake64.wf_core [OF wff, of ?da] f1 by (simp_all add: blake64.wf_def blake64.pending_def)
    show ?thesis
    proof (rule that)
      show "blake64_close c 0 0 w = (blake64 ?mid ?db, blake64_out w (blake64 ?mid ?db))"
        using False ptr blake64_close_long [of c w] by (simp add: lf Let_def)
      show "length (bb_buf (blake64 ?mid ?db)) = 128"
        using blake64.wf_core [OF wf1] by (simp add: blake64.wf_def)
      have "bb_H (blake64 ?mid ?db) = bb_H (blake64_absorb ?db ?mid)"
        using blake64_one_block(1) [OF wf1, of ?db] p1 len(2) by (simp add: READ_STATE64_def)
      also have "\<dots> = blake64_compress (bb_H ?mid) salt_zero_big (blake_count 128 len (?k + 1)) ?db"
        using f1 blake64_absorb_extra [of ?mid ?db] by (simp add: blake_count_beyond)
      also have "\<dots> = blake64_blocks len ?k H [?p @ ?da, ?db]"
        using f1 by simp
      also have "[?p @ ?da, ?db] = chunks 128 ((?p @ ?da) @ ?db @ [])"
        using len by (simp only: chunks_append) simp
      also have "(?p @ ?da) @ ?db @ [] = ?p @ blake_pad 112 128 ?fin ?r @ lf"
        using False pad_long [of 112 ?r 128 ?fin] by simp
      finally show "bb_H (blake64 ?mid ?db) =
        blake64_blocks len ?k H (chunks 128 (?p @ blake_pad 112 128 ?fin ?r @ lf))" .
    qed
  qed
qed

lemma blake64_hash_correct:
  assumes buf: "length (bb_buf sc) = 128" and w: "fin = (if w = 8 then 1 else 0)"
  obtains c' where "length (bb_buf c') = 128"
    "blake64_close (blake64 (blake64_init sc iv salt_zero_big) msg) 0 0 w = (c', blake64_hash iv fin w msg)"
proof -
  let ?len = "length msg" and ?start = "blake64_init sc iv salt_zero_big"
  obtain blks r where msg: "msg = concat blks @ r" and blks: "\<And>b. b \<in> set blks \<Longrightarrow> length b = 128"
    and r: "length r = ?len mod 128" and k: "length blks = ?len div 128"
    using blocks_exist [of 128 msg] by auto
  have c0: "blake64.wf ?start" "bb_ptr ?start = 0" "blake64_at iv 0 ?start"
    using buf by (simp_all add: blake64_init_def blake64.wf_def blake64_at_def READ_STATE64_def lo_word_def hi_word_def)
  have rlt: "length r < 128" using r by simp
  note fresh = blake64.core_fresh [OF c0(1,2) msg blks rlt]
  let ?c = "blake64 ?start msg" and ?H = "blake64_blocks ?len 0 iv blks"
  have pend: "blake64.pending ?c = r" and ptr: "bb_ptr ?c = ?len mod 128"
    using fresh(2,3) r by simp_all
  have at: "blake64_at ?H (?len div 128) ?c"
    using blake64_at_absorb_all [of iv 0 "blake64.chain ?start" blks ?len] c0(3) k
    by (simp flip: fresh(1))
  obtain c' where c': "blake64_close ?c 0 0 w = (c', blake64_out w c')" "length (bb_buf c') = 128"
    and H: "bb_H c' = blake64_blocks ?len (?len div 128) ?H
      (chunks 128 (r @ blake_pad 112 128 fin (?len mod 128)
        @ sph_enc64be (hi_word (8 * ?len)) @ sph_enc64be (lo_word (8 * ?len))))"
    using blake64_close_correct [OF blake64.wf_core [OF c0(1), of msg] at ptr, of w]
    unfolding pend w [symmetric] by blast
  have "bb_H c' = blake64_blocks ?len 0 iv (chunks 128 (msg @ blake_pad 112 128 fin (?len mod 128)
        @ sph_enc64be (hi_word (8 * ?len)) @ sph_enc64be (lo_word (8 * ?len))))"
    unfolding H by (subst (5) msg) (simp add: chunks_concat blks blake64_blocks_append k)
  then have "blake64_out w c' = blake64_hash iv fin w msg"
    by (simp add: blake64_out_def blake64_hash_def Let_def)
  with c' that show ?thesis by simp
qed

section \<open>Invertibility of the rounds\<close>

text \<open>The quarter-round run backwards.\<close>

definition GB_inv :: "u64 \<Rightarrow> u64 \<Rightarrow> u64 \<Rightarrow> u64 \<Rightarrow> u64 \<times> u64 \<times> u64 \<times> u64 \<Rightarrow> u64 \<times> u64 \<times> u64 \<times> u64" where
  "GB_inv m0 m1 c0 c1 = (\<lambda>(a, b, c, d).
    let b = SPH_ROTL64 b 11 XOR c;
        c = c - d;
        d = SPH_ROTL64 d 16 XOR a;
        a = a - b - (m1 XOR c0);
        b = SPH_ROTL64 b 25 XOR c;
        c = c - d;
        d = SPH_ROTL64 d 32 XOR a;
        a = a - b - (m0 XOR c1)
    in (a, b, c, d))"

lemma GB_inv_GB: "GB_inv m0 m1 c0 c1 (GB m0 m1 c0 c1 q) = q"
  by (cases q) (simp add: GB_inv_def GB_def Let_def, simp add: add.assoc)

lemma inj_GB_at:
  assumes "distinct [i, j, k, l]" "{i, j, k, l} \<subseteq> {..<16}" "length V = 16" "length V' = 16"
    and eq: "GB_at m0 m1 c0 c1 i j k l V = GB_at m0 m1 c0 c1 i j k l V'"
  shows "V = V'"
proof -
  have at: "GB_at m0 m1 c0 c1 i j k l W ! i = fst q \<and> GB_at m0 m1 c0 c1 i j k l W ! j = fst (snd q)
      \<and> GB_at m0 m1 c0 c1 i j k l W ! k = fst (snd (snd q)) \<and> GB_at m0 m1 c0 c1 i j k l W ! l = snd (snd (snd q))"
    and other: "n \<notin> {i, j, k, l} \<Longrightarrow> GB_at m0 m1 c0 c1 i j k l W ! n = W ! n"
    if "q = GB m0 m1 c0 c1 (W ! i, W ! j, W ! k, W ! l)" "length W = 16" for W q n
    using assms(1,2) that by (auto simp: GB_at_def nth_list_update split: prod.splits)
  let ?q = "GB m0 m1 c0 c1 (V ! i, V ! j, V ! k, V ! l)"
    and ?p = "GB m0 m1 c0 c1 (V' ! i, V' ! j, V' ! k, V' ! l)"
  have "?q = ?p"
    using at [of ?q V] at [of ?p V'] eq assms(3,4) by (auto intro!: prod_eqI)
  then have "GB_inv m0 m1 c0 c1 ?q = GB_inv m0 m1 c0 c1 ?p" by simp
  then have same: "V ! i = V' ! i \<and> V ! j = V' ! j \<and> V ! k = V' ! k \<and> V ! l = V' ! l"
    by (simp add: GB_inv_GB)
  have "V ! n = V' ! n" for n
    using other [of ?q V n] other [of ?p V' n] eq assms(3,4) same by (cases "n \<in> {i, j, k, l}") auto
  with assms(3,4) show ?thesis by (simp add: list_eq_iff_nth_eq)
qed

lemma length_GB_at [simp]: "length (GB_at m0 m1 c0 c1 i j k l V) = length V"
  by (simp add: GB_at_def split: prod.splits)

lemma length_ROUND_B [simp]: "length (ROUND_B M r V) = length V"
  by (simp add: ROUND_B_def)

text \<open>A round loses no information: two states with the same image are the same state.\<close>

lemma inj_ROUND_B:
  assumes "length V = 16" "length V' = 16" "ROUND_B M r V = ROUND_B M r V'"
  shows "V = V'"
proof -
  note cancel = inj_GB_at [rotated 4]
  show ?thesis
    using assms unfolding ROUND_B_def Let_def
    by (auto dest!: cancel)
qed

section \<open>The initial values\<close>

text \<open>
  The initial value of BLAKE-512 holds the first 64 fractional bits of the square roots of the first eight primes, that of BLAKE-384
  those of the next eight. The word constants and the permutations of the specification are the tables of the code.
\<close>

definition root_bits :: "int \<Rightarrow> u64 \<Rightarrow> bool" where
  "root_bits p h \<longleftrightarrow> (\<exists>r\<in>{1..7}. (r * 2 ^ 64 + uint h)\<^sup>2 \<le> p * 2 ^ 128 \<and> p * 2 ^ 128 < (r * 2 ^ 64 + uint h + 1)\<^sup>2)"

lemma IV512_roots: "list_all2 root_bits [2, 3, 5, 7, 11, 13, 17, 19] IV512"
  by (simp add: IV512_def root_bits_def simp_from_to)

lemma IV384_roots: "list_all2 root_bits [23, 29, 31, 37, 41, 43, 47, 53] IV384"
  by (simp add: IV384_def root_bits_def simp_from_to)

section \<open>Properties\<close>

lemma blake64_init_wf: "length (bb_buf sc) = 128 \<Longrightarrow> blake64.wf (blake64_init sc iv salt)"
  by (simp add: blake64.wf_def blake64_init_def)

lemma blake64_session:
  assumes "length (bb_buf sc) = 128" "fin = (if w = 8 then 1 else 0)"
  obtains c' where "length (bb_buf c') = 128"
    "blake64_close (foldl blake64 (blake64_init sc iv salt_zero_big) pieces) 0 0 w =
      (c', blake64_hash iv fin w (concat pieces))"
  using blake64_hash_correct [OF assms, of iv "concat pieces"]
    blake64.core_concat [OF blake64_init_wf [OF assms(1)], of iv salt_zero_big pieces] by metis

text \<open>
  C30: A session of \<^verbatim>\<open>sph_blake512_init\<close>, any number of \<^verbatim>\<open>sph_blake512\<close> updates with pieces of
  any sizes, and \<^verbatim>\<open>sph_blake512_close\<close> outputs the BLAKE-512 digest of the concatenated
  pieces, for messages of every length, and leaves a context that is initialised again.
\<close>

theorem sph_blake512_correct:
  assumes "length (bb_buf sc) = 128"
  shows "\<exists>c'. length (bb_buf c') = 128 \<and>
    sph_blake512_close (foldl sph_blake512 (sph_blake512_init sc) pieces) =
      (sph_blake512_init c', blake512_spec (concat pieces))"
  by (rule blake64_session [OF assms, of 1 8 IV512 pieces])
    (auto simp: sph_blake512_close_def sph_blake512_addbits_and_close_def sph_blake512_init_def
      sph_blake512_def [abs_def] blake512_spec_def)

theorem sph_blake512_correct_witness:
  "let sc = \<lparr>bb_buf = replicate 128 7, bb_ptr = 5, bb_H = [], bb_S = [], bb_T0 = 3, bb_T1 = 9\<rparr> in
    \<exists>c'. length (bb_buf c') = 128 \<and>
      sph_blake512_close (foldl sph_blake512 (sph_blake512_init sc) [[1, 2], [], [3]]) =
        (sph_blake512_init c', blake512_spec [1, 2, 3])"
  using sph_blake512_correct
    [of "\<lparr>bb_buf = replicate 128 7, bb_ptr = 5, bb_H = [], bb_S = [], bb_T0 = 3, bb_T1 = 9\<rparr>" "[[1, 2], [], [3]]"]
  by simp

text \<open>The same for the shorter output size.\<close>

lemma sph_blake384_correct:
  assumes "length (bb_buf sc) = 128"
  shows "\<exists>c'. length (bb_buf c') = 128 \<and>
    sph_blake384_close (foldl sph_blake384 (sph_blake384_init sc) pieces) =
      (sph_blake384_init c', blake384_spec (concat pieces))"
  by (rule blake64_session [OF assms, of 0 6 IV384 pieces])
    (auto simp: sph_blake384_close_def sph_blake384_addbits_and_close_def sph_blake384_init_def
      sph_blake384_def [abs_def] blake384_spec_def)

text \<open>
  The compression function compiled with \<^verbatim>\<open>SPH_COMPACT_BLAKE_64\<close> (a loop over the table
  \<^verbatim>\<open>sigma\<close>) and the unrolled one (sixteen rounds with the macros \<^verbatim>\<open>Z00 .. Z9F\<close>) compute the same
  chaining value for every state, salt, counter and block.
\<close>

theorem COMPRESS64_variants: "COMPRESS64_compact H S T0 T1 b = COMPRESS64 H S T0 T1 b"
  by (rule COMPRESS64_compact_eq)

text \<open>
  The round function of BLAKE-512 loses no information: for any message words and any
  round number it is injective on states of sixteen words.
\<close>

theorem ROUND_B_injective:
  assumes "length V = 16" "length V' = 16" "ROUND_B M r V = ROUND_B M r V'"
  shows "V = V'"
  using assms by (rule inj_ROUND_B)

theorem ROUND_B_injective_witness:
  "let M = replicate 16 1; V = replicate 16 3 in
    length V = 16 \<and> ROUND_B M 0 V = ROUND_B M 0 (replicate 8 3 @ replicate 8 3) \<and> V = replicate 8 3 @ replicate 8 3"
proof -
  have eq: "replicate 8 3 @ replicate 8 3 = (replicate 16 3 :: u64 list)"
    by (simp flip: replicate_add)
  show ?thesis
    using ROUND_B_injective [of "replicate 16 3" "replicate 8 3 @ replicate 8 3" "replicate 16 1" 0]
    by (simp add: eq)
qed

end
