(* ===== verification/Blake_Small.thy ===== *)
theory Blake_Small
  imports Blake_Sigma
begin

text \<open>
  \<^verbatim>\<open>crypto/blake.c\<close>, the 32-bit family (BLAKE-224 and BLAKE-256): context, compression
  function in its unrolled and its compact form, streaming update, padding and
  output. The context is the struct \<^verbatim>\<open>sph_blake_small_context\<close>; the macros' local variables
  \<^verbatim>\<open>H0 .. H7\<close>, \<^verbatim>\<open>V0 .. VF\<close>, \<^verbatim>\<open>M0 .. MF\<close> are lists indexed by the same digits.

  The main results: hashing a message in any sequence of updates yields BLAKE-256 of the
  message as its specification defines it (block counters, padding, output), the
  unrolled and the compact code agree, and the round function is a bijection of the state.
\<close>

section \<open>Context and constants\<close>

record sph_blake_small_context =
  bs_buf :: bytes
  bs_ptr :: nat
  bs_H :: "u32 list"
  bs_S :: "u32 list"
  bs_T0 :: u32
  bs_T1 :: u32

definition IV224 :: "u32 list" where
  "IV224 =
   [0xC1059ED8, 0x367CD507,
    0x3070DD17, 0xF70E5939,
    0xFFC00B31, 0x68581511,
    0x64F98FA7, 0xBEFA4FA4]"

definition IV256 :: "u32 list" where
  "IV256 =
   [0x6A09E667, 0xBB67AE85,
    0x3C6EF372, 0xA54FF53A,
    0x510E527F, 0x9B05688C,
    0x1F83D9AB, 0x5BE0CD19]"

definition salt_zero_small :: "u32 list" where
  "salt_zero_small = [0, 0, 0, 0]"

definition CS :: "u32 list" where
  "CS =
   [0x243F6A88, 0x85A308D3,
    0x13198A2E, 0x03707344,
    0xA4093822, 0x299F31D0,
    0x082EFA98, 0xEC4E6C89,
    0x452821E6, 0x38D01377,
    0xBE5466CF, 0x34E90C6C,
    0xC0AC29B7, 0xC97C50DD,
    0x3F84D5B5, 0xB5470917]"

section \<open>Compression\<close>

definition GS :: "u32 \<Rightarrow> u32 \<Rightarrow> u32 \<Rightarrow> u32 \<Rightarrow> u32 \<times> u32 \<times> u32 \<times> u32 \<Rightarrow> u32 \<times> u32 \<times> u32 \<times> u32" where
  "GS m0 m1 c0 c1 = (\<lambda>(a, b, c, d).
    let a = SPH_T32 (a + b + (m0 XOR c1));
        d = SPH_ROTR32 (d XOR a) 16;
        c = SPH_T32 (c + d);
        b = SPH_ROTR32 (b XOR c) 12;
        a = SPH_T32 (a + b + (m1 XOR c0));
        d = SPH_ROTR32 (d XOR a) 8;
        c = SPH_T32 (c + d);
        b = SPH_ROTR32 (b XOR c) 7
    in (a, b, c, d))"

text \<open>The macro applied to four of the variables \<^verbatim>\<open>V0 .. VF\<close>, given by their digits.\<close>

definition GS_at :: "u32 \<Rightarrow> u32 \<Rightarrow> u32 \<Rightarrow> u32 \<Rightarrow> nat \<Rightarrow> nat \<Rightarrow> nat \<Rightarrow> nat \<Rightarrow> u32 list \<Rightarrow> u32 list" where
  "GS_at m0 m1 c0 c1 i j k l V =
    (case GS m0 m1 c0 c1 (V ! i, V ! j, V ! k, V ! l) of
      (a, b, c, d) \<Rightarrow> V[i := a, j := b, k := c, l := d])"

definition Mx32 :: "u32 list \<Rightarrow> nat \<Rightarrow> nat \<Rightarrow> u32" where
  "Mx32 M r i = M ! (Z ! r ! i)"

definition CSx :: "nat \<Rightarrow> nat \<Rightarrow> u32" where
  "CSx r i = CS ! (Z ! r ! i)"

definition ROUND_S :: "u32 list \<Rightarrow> nat \<Rightarrow> u32 list \<Rightarrow> u32 list" where
  "ROUND_S M r V =
    (let V = GS_at (Mx32 M r 0) (Mx32 M r 1) (CSx r 0) (CSx r 1) 0 4 8 12 V;
         V = GS_at (Mx32 M r 2) (Mx32 M r 3) (CSx r 2) (CSx r 3) 1 5 9 13 V;
         V = GS_at (Mx32 M r 4) (Mx32 M r 5) (CSx r 4) (CSx r 5) 2 6 10 14 V;
         V = GS_at (Mx32 M r 6) (Mx32 M r 7) (CSx r 6) (CSx r 7) 3 7 11 15 V;
         V = GS_at (Mx32 M r 8) (Mx32 M r 9) (CSx r 8) (CSx r 9) 0 5 10 15 V;
         V = GS_at (Mx32 M r 10) (Mx32 M r 11) (CSx r 10) (CSx r 11) 1 6 11 12 V;
         V = GS_at (Mx32 M r 12) (Mx32 M r 13) (CSx r 12) (CSx r 13) 2 7 8 13 V;
         V = GS_at (Mx32 M r 14) (Mx32 M r 15) (CSx r 14) (CSx r 15) 3 4 9 14 V
     in V)"

definition ROUND_S_compact :: "u32 list \<Rightarrow> nat \<Rightarrow> u32 list \<Rightarrow> u32 list" where
  "ROUND_S_compact M r V =
    (let s = sigma ! r;
         V = GS_at (M ! (s ! 0)) (M ! (s ! 1)) (CS ! (s ! 0)) (CS ! (s ! 1)) 0 4 8 12 V;
         V = GS_at (M ! (s ! 2)) (M ! (s ! 3)) (CS ! (s ! 2)) (CS ! (s ! 3)) 1 5 9 13 V;
         V = GS_at (M ! (s ! 4)) (M ! (s ! 5)) (CS ! (s ! 4)) (CS ! (s ! 5)) 2 6 10 14 V;
         V = GS_at (M ! (s ! 6)) (M ! (s ! 7)) (CS ! (s ! 6)) (CS ! (s ! 7)) 3 7 11 15 V;
         V = GS_at (M ! (s ! 8)) (M ! (s ! 9)) (CS ! (s ! 8)) (CS ! (s ! 9)) 0 5 10 15 V;
         V = GS_at (M ! (s ! 10)) (M ! (s ! 11)) (CS ! (s ! 10)) (CS ! (s ! 11)) 1 6 11 12 V;
         V = GS_at (M ! (s ! 12)) (M ! (s ! 13)) (CS ! (s ! 12)) (CS ! (s ! 13)) 2 7 8 13 V;
         V = GS_at (M ! (s ! 14)) (M ! (s ! 15)) (CS ! (s ! 14)) (CS ! (s ! 15)) 3 4 9 14 V
     in V)"

text \<open>The loads of the state and message variables and the final feed-forward.\<close>

definition compress32_V :: "u32 list \<Rightarrow> u32 list \<Rightarrow> u32 \<Rightarrow> u32 \<Rightarrow> u32 list" where
  "compress32_V H S T0 T1 =
    [H ! 0, H ! 1, H ! 2, H ! 3, H ! 4, H ! 5, H ! 6, H ! 7,
     S ! 0 XOR CS ! 0, S ! 1 XOR CS ! 1, S ! 2 XOR CS ! 2, S ! 3 XOR CS ! 3,
     T0 XOR CS ! 4, T0 XOR CS ! 5, T1 XOR CS ! 6, T1 XOR CS ! 7]"

definition compress32_M :: "bytes \<Rightarrow> u32 list" where
  "compress32_M buf =
    [sph_dec32be (drop 0 buf), sph_dec32be (drop 4 buf),
     sph_dec32be (drop 8 buf), sph_dec32be (drop 12 buf),
     sph_dec32be (drop 16 buf), sph_dec32be (drop 20 buf),
     sph_dec32be (drop 24 buf), sph_dec32be (drop 28 buf),
     sph_dec32be (drop 32 buf), sph_dec32be (drop 36 buf),
     sph_dec32be (drop 40 buf), sph_dec32be (drop 44 buf),
     sph_dec32be (drop 48 buf), sph_dec32be (drop 52 buf),
     sph_dec32be (drop 56 buf), sph_dec32be (drop 60 buf)]"

definition compress32_out :: "u32 list \<Rightarrow> u32 list \<Rightarrow> u32 list \<Rightarrow> u32 list" where
  "compress32_out H S V =
    [H ! 0 XOR (S ! 0 XOR V ! 0 XOR V ! 8), H ! 1 XOR (S ! 1 XOR V ! 1 XOR V ! 9),
     H ! 2 XOR (S ! 2 XOR V ! 2 XOR V ! 10), H ! 3 XOR (S ! 3 XOR V ! 3 XOR V ! 11),
     H ! 4 XOR (S ! 0 XOR V ! 4 XOR V ! 12), H ! 5 XOR (S ! 1 XOR V ! 5 XOR V ! 13),
     H ! 6 XOR (S ! 2 XOR V ! 6 XOR V ! 14), H ! 7 XOR (S ! 3 XOR V ! 7 XOR V ! 15)]"

definition COMPRESS32 :: "u32 list \<Rightarrow> u32 list \<Rightarrow> u32 \<Rightarrow> u32 \<Rightarrow> bytes \<Rightarrow> u32 list" where
  "COMPRESS32 H S T0 T1 buf =
    (let V = compress32_V H S T0 T1;
         M = compress32_M buf;
         V = ROUND_S M 0 V;
         V = ROUND_S M 1 V;
         V = ROUND_S M 2 V;
         V = ROUND_S M 3 V;
         V = ROUND_S M 4 V;
         V = ROUND_S M 5 V;
         V = ROUND_S M 6 V;
         V = ROUND_S M 7 V;
         V = ROUND_S M 8 V;
         V = ROUND_S M 9 V;
         V = ROUND_S M 0 V;
         V = ROUND_S M 1 V;
         V = ROUND_S M 2 V;
         V = ROUND_S M 3 V
     in compress32_out H S V)"

definition COMPRESS32_compact :: "u32 list \<Rightarrow> u32 list \<Rightarrow> u32 \<Rightarrow> u32 \<Rightarrow> bytes \<Rightarrow> u32 list" where
  "COMPRESS32_compact H S T0 T1 buf =
    (let V = compress32_V H S T0 T1;
         M = compress32_M buf;
         V = foldl (\<lambda>V r. ROUND_S_compact M r V) V [0..<14]
     in compress32_out H S V)"

section \<open>Initialisation and update\<close>

definition blake32_init :: "sph_blake_small_context \<Rightarrow> u32 list \<Rightarrow> u32 list \<Rightarrow> sph_blake_small_context" where
  "blake32_init sc iv salt =
    sc\<lparr>bs_H := iv, bs_S := salt, bs_T0 := 0, bs_T1 := 0, bs_ptr := 0\<rparr>"

type_synonym blake32_state = "u32 list \<times> u32 list \<times> u32 \<times> u32"

definition READ_STATE32 :: "sph_blake_small_context \<Rightarrow> blake32_state" where
  "READ_STATE32 sc = (bs_H sc, bs_S sc, bs_T0 sc, bs_T1 sc)"

definition WRITE_STATE32 :: "sph_blake_small_context \<Rightarrow> blake32_state \<Rightarrow> sph_blake_small_context" where
  "WRITE_STATE32 sc st =
    (case st of (H, S, T0, T1) \<Rightarrow> sc\<lparr>bs_H := H, bs_S := S, bs_T0 := T0, bs_T1 := T1\<rparr>)"

text \<open>The body of \<^verbatim>\<open>if (ptr == sizeof sc->buf)\<close>: count the block, then compress it.\<close>

definition blake32_block :: "blake32_state \<Rightarrow> bytes \<Rightarrow> blake32_state" where
  "blake32_block st buf =
    (case st of (H, S, T0, T1) \<Rightarrow>
      let T0 = SPH_T32 (T0 + 512);
          T1 = (if T0 < 512 then SPH_T32 (T1 + 1) else T1)
      in (COMPRESS32 H S T0 T1 buf, S, T0, T1))"

text \<open>
  The \<^verbatim>\<open>while (len > 0)\<close> loop over the local state, the buffer, \<^verbatim>\<open>ptr\<close> and the remaining
  data. A \<^verbatim>\<open>ptr\<close> beyond the buffer would make the \<^verbatim>\<open>memcpy\<close> write out of bounds; no context
  reaches that (\<open>blake32.wf_core\<close>), and the loop stops there.
\<close>

function blake32_loop :: "blake32_state \<Rightarrow> bytes \<Rightarrow> nat \<Rightarrow> bytes \<Rightarrow> blake32_state \<times> bytes \<times> nat" where
  "blake32_loop st buf ptr data =
    (if data = [] \<or> 64 < ptr then (st, buf, ptr)
     else
       let clen = 64 - ptr;
           clen = (if clen > length data then length data else clen);
           buf = memcpy buf ptr (take clen data);
           ptr = ptr + clen;
           data = drop clen data
       in if ptr = 64 then blake32_loop (blake32_block st buf) buf 0 data
          else blake32_loop st buf ptr data)"
  by pat_completeness auto
termination
  by (relation "measure (\<lambda>(st, buf, ptr, data). 2 * length data + (if ptr = 64 then 1 else 0))")
    (auto simp: Let_def split: if_splits)

declare blake32_loop.simps [simp del]

definition blake32 :: "sph_blake_small_context \<Rightarrow> bytes \<Rightarrow> sph_blake_small_context" where
  "blake32 sc data =
    (if length data < 64 - bs_ptr sc then
       sc\<lparr>bs_buf := memcpy (bs_buf sc) (bs_ptr sc) data, bs_ptr := bs_ptr sc + length data\<rparr>
     else
       (case blake32_loop (READ_STATE32 sc) (bs_buf sc) (bs_ptr sc) data of
         (st, buf, ptr) \<Rightarrow> (WRITE_STATE32 (sc\<lparr>bs_buf := buf\<rparr>) st)\<lparr>bs_ptr := ptr\<rparr>))"

section \<open>Padding and output\<close>

text \<open>
  Padding starts by setting back the counter, so that the count of a full block that
  \<^verbatim>\<open>blake32\<close> adds when it absorbs the last block yields the number of message bits.
\<close>

definition blake32_close_counter ::
  "sph_blake_small_context \<Rightarrow> nat \<Rightarrow> nat \<Rightarrow> nat \<Rightarrow> sph_blake_small_context" where
  "blake32_close_counter sc ptr n bit_len =
    (if ptr = 0 \<and> n = 0 then
       sc\<lparr>bs_T0 := 0xFFFFFE00, bs_T1 := 0xFFFFFFFF\<rparr>
     else if bs_T0 sc = 0 then
       sc\<lparr>bs_T0 := 0xFFFFFE00 + of_nat bit_len, bs_T1 := SPH_T32 (bs_T1 sc - 1)\<rparr>
     else
       sc\<lparr>bs_T0 := bs_T0 sc - of_nat (512 - bit_len)\<rparr>)"

text \<open>
  \<^verbatim>\<open>u.buf\<close> is an uninitialised local array of the C function; every byte of it that is
  passed on has been written before, so its initial content here is arbitrary (zero).
\<close>

definition blake32_close ::
  "sph_blake_small_context \<Rightarrow> u32 \<Rightarrow> nat \<Rightarrow> nat \<Rightarrow> sph_blake_small_context \<times> bytes" where
  "blake32_close sc ub n out_size_w32 =
    (let ptr = bs_ptr sc;
         bit_len = ptr * 8 + n;
         z = drop_bit n (0x80 :: u32);
         u = (replicate 64 0)[ptr := ucast (((ub AND - z) OR z) AND 0xFF)];
         tl = bs_T0 sc + of_nat bit_len;
         th = bs_T1 sc;
         sc = blake32_close_counter sc ptr n bit_len;
         sc = (if bit_len \<le> 446 then
                 let u = memset u (ptr + 1) 0 (55 - ptr);
                     u = (if out_size_w32 = 8 then u[55 := u ! 55 OR 1] else u);
                     u = memcpy u 56 (sph_enc32be th);
                     u = memcpy u 60 (sph_enc32be tl)
                 in blake32 sc (drop ptr u)
               else
                 let u = memset u (ptr + 1) 0 (63 - ptr);
                     sc = blake32 sc (drop ptr u);
                     sc = sc\<lparr>bs_T0 := 0xFFFFFE00, bs_T1 := 0xFFFFFFFF\<rparr>;
                     u = memset u 0 0 56;
                     u = (if out_size_w32 = 8 then u[55 := 1] else u);
                     u = memcpy u 56 (sph_enc32be th);
                     u = memcpy u 60 (sph_enc32be tl)
                 in blake32 sc u)
     in (sc, concat (map (\<lambda>k. sph_enc32be (bs_H sc ! k)) [0..<out_size_w32])))"

definition sph_blake224_init :: "sph_blake_small_context \<Rightarrow> sph_blake_small_context" where
  "sph_blake224_init cc = blake32_init cc IV224 salt_zero_small"

definition sph_blake224 :: "sph_blake_small_context \<Rightarrow> bytes \<Rightarrow> sph_blake_small_context" where
  "sph_blake224 cc data = blake32 cc data"

definition sph_blake224_addbits_and_close ::
  "sph_blake_small_context \<Rightarrow> u32 \<Rightarrow> nat \<Rightarrow> sph_blake_small_context \<times> bytes" where
  "sph_blake224_addbits_and_close cc ub n =
    (case blake32_close cc ub n 7 of (cc, dst) \<Rightarrow> (sph_blake224_init cc, dst))"

definition sph_blake224_close :: "sph_blake_small_context \<Rightarrow> sph_blake_small_context \<times> bytes" where
  "sph_blake224_close cc = sph_blake224_addbits_and_close cc 0 0"

definition sph_blake256_init :: "sph_blake_small_context \<Rightarrow> sph_blake_small_context" where
  "sph_blake256_init cc = blake32_init cc IV256 salt_zero_small"

definition sph_blake256 :: "sph_blake_small_context \<Rightarrow> bytes \<Rightarrow> sph_blake_small_context" where
  "sph_blake256 cc data = blake32 cc data"

definition sph_blake256_addbits_and_close ::
  "sph_blake_small_context \<Rightarrow> u32 \<Rightarrow> nat \<Rightarrow> sph_blake_small_context \<times> bytes" where
  "sph_blake256_addbits_and_close cc ub n =
    (case blake32_close cc ub n 8 of (cc, dst) \<Rightarrow> (sph_blake256_init cc, dst))"

definition sph_blake256_close :: "sph_blake_small_context \<Rightarrow> sph_blake_small_context \<times> bytes" where
  "sph_blake256_close cc = sph_blake256_addbits_and_close cc 0 0"

section \<open>The streaming contract\<close>

definition blake32_put :: "bytes \<Rightarrow> nat \<Rightarrow> sph_blake_small_context \<Rightarrow> sph_blake_small_context" where
  "blake32_put b p sc = sc\<lparr>bs_buf := b, bs_ptr := p\<rparr>"

definition blake32_absorb :: "bytes \<Rightarrow> sph_blake_small_context \<Rightarrow> sph_blake_small_context" where
  "blake32_absorb blk sc = WRITE_STATE32 sc (blake32_block (READ_STATE32 sc) blk)"

lemma blake32_loop_Nil: "blake32_loop st buf ptr [] = (st, buf, ptr)"
  by (simp add: blake32_loop.simps)

lemma blake32_loop_short:
  "ptr + length d < 64 \<Longrightarrow> blake32_loop st buf ptr d = (st, memcpy buf ptr d, ptr + length d)"
  by (subst blake32_loop.simps) (auto simp: Let_def blake32_loop_Nil)

lemma blake32_loop_full:
  assumes "ptr < 64" "64 \<le> ptr + length d" "b = memcpy buf ptr (take (64 - ptr) d)"
  shows "blake32_loop st buf ptr d = blake32_loop (blake32_block st b) b 0 (drop (64 - ptr) d)"
proof -
  have "d \<noteq> []" using assms by auto
  moreover have "(if 64 - ptr > length d then length d else 64 - ptr) = 64 - ptr"
    using assms by auto
  ultimately show ?thesis
    using assms by (subst blake32_loop.simps) (auto simp: Let_def)
qed

lemma blake32_block_S: "blake32_block (H, S, T0, T1) b =
  (let t = count_block 512 (T0, T1) in (COMPRESS32 H S (fst t) (snd t) b, S, fst t, snd t))"
  by (simp add: blake32_block_def count_block_def Let_def)

lemma blake32_eq_loop:
  "bs_ptr sc < 64 \<Longrightarrow> blake32 sc d =
    (case blake32_loop (READ_STATE32 sc) (bs_buf sc) (bs_ptr sc) d of
      (st, buf, ptr) \<Rightarrow> blake32_put buf ptr (WRITE_STATE32 sc st))"
  by (auto simp: blake32_def blake32_loop_short blake32_put_def WRITE_STATE32_def READ_STATE32_def
      split: prod.splits)

interpretation blake32: eager_core 64 64 bs_buf bs_ptr blake32_put blake32_absorb blake32
proof
  fix c :: sph_blake_small_context and d b :: bytes
  assume len: "length (bs_buf c) = 64"
  show "blake32 c d = blake32_put (memcpy (bs_buf c) (bs_ptr c) d) (bs_ptr c + length d) c"
    if "bs_ptr c + length d < 64"
    using that by (simp add: blake32_def blake32_put_def less_diff_conv add.commute)
  show "blake32 c d =
      blake32 (blake32_put b 0 (blake32_absorb (take 64 b) c)) (drop (64 - bs_ptr c) d)"
    if p: "bs_ptr c < 64" "64 \<le> bs_ptr c + length d"
      and b: "b = memcpy (bs_buf c) (bs_ptr c) (take (64 - bs_ptr c) d)"
  proof -
    have tb: "take 64 b = b" using p len by (simp add: b)
    show ?thesis
      unfolding tb
      by (cases "blake32_block (READ_STATE32 c) b")
        (auto simp: blake32_eq_loop p blake32_loop_full [OF p b] blake32_put_def blake32_absorb_def
          WRITE_STATE32_def READ_STATE32_def split: prod.splits)
  qed
qed (auto simp: blake32_put_def blake32_absorb_def WRITE_STATE32_def READ_STATE32_def
      split: prod.splits)

section \<open>The BLAKE specification\<close>

text \<open>
  The specification, written from the definition of BLAKE: rounds and quarter-rounds as an
  iteration over round number and position, rotations as rotations of words, the message as
  one padded string cut into blocks, and a counter that is a natural number.
\<close>

definition blake32_G :: "u32 list \<Rightarrow> u32 list \<Rightarrow> nat \<times> nat \<Rightarrow> u32 list" where
  "blake32_G M V = (\<lambda>(r, i). case blake_positions ! i of (pa, pb, pc, pd) \<Rightarrow>
    let s = Z ! (r mod 10); j = s ! (2 * i); k = s ! (2 * i + 1);
        a = V ! pa + V ! pb + (M ! j XOR CS ! k);
        d = word_rotr 16 (V ! pd XOR a);
        c = V ! pc + d;
        b = word_rotr 12 (V ! pb XOR c);
        a = a + b + (M ! k XOR CS ! j);
        d = word_rotr 8 (d XOR a);
        c = c + d;
        b = word_rotr 7 (b XOR c)
    in V[pa := a, pb := b, pc := c, pd := d])"

definition blake32_compress :: "u32 list \<Rightarrow> u32 list \<Rightarrow> nat \<Rightarrow> bytes \<Rightarrow> u32 list" where
  "blake32_compress H S t b =
    (let M = map (\<lambda>j. sph_dec32be (drop (4 * j) b)) [0..<16];
         V = map (\<lambda>j. H ! j) [0..<8] @ map (\<lambda>j. S ! j XOR CS ! j) [0..<4] @
             [lo_word t XOR CS ! 4, lo_word t XOR CS ! 5, hi_word t XOR CS ! 6, hi_word t XOR CS ! 7];
         V = foldl (blake32_G M) V (List.product [0..<14] [0..<8])
     in map (\<lambda>j. H ! j XOR (S ! (j mod 4) XOR V ! j XOR V ! (j + 8))) [0..<8])"

fun blake32_blocks :: "nat \<Rightarrow> nat \<Rightarrow> u32 list \<Rightarrow> bytes list \<Rightarrow> u32 list" where
  "blake32_blocks len i H [] = H"
| "blake32_blocks len i H (b # bs) =
    blake32_blocks len (i + 1) (blake32_compress H salt_zero_small (blake_count 64 len i) b) bs"

definition blake32_hash :: "u32 list \<Rightarrow> u8 \<Rightarrow> nat \<Rightarrow> bytes \<Rightarrow> bytes" where
  "blake32_hash iv fin w msg =
    (let len = length msg;
         padded = msg @ blake_pad 56 64 fin (len mod 64)
           @ sph_enc32be (hi_word (8 * len)) @ sph_enc32be (lo_word (8 * len));
         H = blake32_blocks len 0 iv (chunks 64 padded)
     in concat (map (\<lambda>k. sph_enc32be (H ! k)) [0..<w]))"

definition blake224_spec :: "bytes \<Rightarrow> bytes" where
  "blake224_spec = blake32_hash IV224 0 7"

definition blake256_spec :: "bytes \<Rightarrow> bytes" where
  "blake256_spec = blake32_hash IV256 1 8"

section \<open>Compression implements the specification\<close>

lemma blake32_G_at:
  "blake_positions ! i = (pa, pb, pc, pd) \<Longrightarrow> blake32_G M V (r, i) =
    GS_at (Mx32 M (r mod 10) (2 * i)) (Mx32 M (r mod 10) (2 * i + 1))
      (CSx (r mod 10) (2 * i)) (CSx (r mod 10) (2 * i + 1)) pa pb pc pd V"
  by (simp add: blake32_G_def GS_at_def GS_def Let_def Mx32_def CSx_def SPH_ROTR32_eq_word_rotr)

lemma ROUND_S_foldl: "foldl (blake32_G M) V (map (Pair r) [0..<8]) = ROUND_S M (r mod 10) V"
  by (simp add: upt_lists blake32_G_at blake_positions_def ROUND_S_def Let_def)

lemma COMPRESS32_foldl:
  "foldl (blake32_G M) V (List.product [0..<14] [0..<8]) = foldl (\<lambda>V r. ROUND_S M (r mod 10) V) V [0..<14]"
  by (simp add: product_concat_map foldl_concat_rounds ROUND_S_foldl)

lemma COMPRESS32_rounds:
  "COMPRESS32 H S T0 T1 b = compress32_out H S
    (foldl (\<lambda>V r. ROUND_S (compress32_M b) (r mod 10) V) (compress32_V H S T0 T1) [0..<14])"
  by (simp add: COMPRESS32_def Let_def upt_lists)

lemma compress32_M_map: "compress32_M b = map (\<lambda>j. sph_dec32be (drop (4 * j) b)) [0..<16]"
  by (simp add: compress32_M_def upt_lists)

lemma compress32_V_map: "compress32_V H S T0 T1 =
  map (\<lambda>j. H ! j) [0..<8] @ map (\<lambda>j. S ! j XOR CS ! j) [0..<4] @
    [T0 XOR CS ! 4, T0 XOR CS ! 5, T1 XOR CS ! 6, T1 XOR CS ! 7]"
  by (simp add: compress32_V_def upt_lists)

lemma compress32_out_map: "compress32_out H S V =
  map (\<lambda>j. H ! j XOR (S ! (j mod 4) XOR V ! j XOR V ! (j + 8))) [0..<8]"
  by (simp add: compress32_out_def upt_lists)

lemma COMPRESS32_correct:
  "COMPRESS32 H S (lo_word t) (hi_word t) b = blake32_compress H S t b"
  unfolding COMPRESS32_rounds blake32_compress_def Let_def COMPRESS32_foldl
    compress32_M_map compress32_V_map compress32_out_map by (rule refl)

text \<open>The compact code path runs the same rounds from the table.\<close>

lemma ROUND_S_compact_eq: "r < 16 \<Longrightarrow> ROUND_S_compact M r V = ROUND_S M (r mod 10) V"
  by (simp add: ROUND_S_compact_def ROUND_S_def sigma_row Mx32_def CSx_def Let_def)

lemma COMPRESS32_compact_eq: "COMPRESS32_compact H S T0 T1 b = COMPRESS32 H S T0 T1 b"
  unfolding COMPRESS32_rounds COMPRESS32_compact_def Let_def
  by (intro arg_cong [where f = "compress32_out H S"] foldl_cong refl) (simp add: ROUND_S_compact_eq)

section \<open>Hashing implements the specification\<close>

lemma blake32_blocks_append:
  "blake32_blocks len i H (xs @ ys) = blake32_blocks len (i + length xs) (blake32_blocks len i H xs) ys"
  by (induction xs arbitrary: i H) simp_all

text \<open>The context after \<open>k\<close> full blocks: chaining value \<open>H\<close>, salt zero, \<open>k\<close> blocks counted.\<close>

definition blake32_at :: "u32 list \<Rightarrow> nat \<Rightarrow> sph_blake_small_context \<Rightarrow> bool" where
  "blake32_at H k c \<longleftrightarrow>
    READ_STATE32 c = (H, salt_zero_small, lo_word (512 * k), hi_word (512 * k))"

lemma blake32_at_chain [simp]: "blake32_at H k (blake32.chain c) = blake32_at H k c"
  by (simp add: blake32_at_def blake32.chain_def blake32_put_def READ_STATE32_def)

lemma blake32_at_H: "blake32_at H k c \<Longrightarrow> bs_H c = H"
  by (simp add: blake32_at_def READ_STATE32_def)

lemma blake32_at_absorb:
  assumes "blake32_at H k c" "k < len div 64"
  shows "blake32_at (blake32_compress H salt_zero_small (blake_count 64 len k) b) (Suc k) (blake32_absorb b c)"
proof -
  have "count_block 512 (lo_word (512 * k), hi_word (512 * k)) =
      (lo_word (512 * k + 512), hi_word (512 * k + 512) :: u32)"
    by (rule count_block_full) simp_all
  then show ?thesis
    using assms blake_count_full [OF assms(2)]
    by (simp add: blake32_at_def blake32_absorb_def blake32_block_S READ_STATE32_def WRITE_STATE32_def
        COMPRESS32_correct add.commute)
qed

lemma blake32_at_absorb_all:
  "blake32_at H k c \<Longrightarrow> k + length blks \<le> len div 64 \<Longrightarrow>
   blake32_at (blake32_blocks len k H blks) (k + length blks) (blake32.absorb_all c blks)"
proof (induction blks arbitrary: H k c)
  case Nil
  then show ?case by simp
next
  case (Cons b blks)
  from Cons.IH [OF blake32_at_absorb [OF Cons.prems(1), of len b]] Cons.prems(2)
  show ?case by simp
qed

text \<open>The last block or blocks, with the counter \<^verbatim>\<open>blake32_close\<close> prepares.\<close>

lemma blake32_absorb_final:
  fixes c c' :: sph_blake_small_context and len :: nat
  assumes "blake32_at H (len div 64) c"
    "(bs_T0 c', bs_T1 c') = final_counter 512 (8 * (len mod 64)) (bs_T0 c) (bs_T1 c)"
    "bs_H c' = bs_H c" "bs_S c' = bs_S c"
  shows "bs_H (blake32_absorb b c') = blake32_compress H salt_zero_small (blake_count 64 len (len div 64)) b
    \<and> bs_S (blake32_absorb b c') = salt_zero_small"
proof -
  let ?t = "512 * (len div 64)" and ?e = "8 * (len mod 64)"
  have T: "(bs_T0 c', bs_T1 c') = final_counter 512 ?e (lo_word ?t) (hi_word ?t)"
    using assms(1,2) by (simp add: blake32_at_def READ_STATE32_def)
  have "count_block 512 (final_counter 512 ?e (lo_word ?t) (hi_word ?t)) =
      (lo_word (if ?e = 0 then 0 else ?t + ?e), hi_word (if ?e = 0 then 0 else ?t + ?e) :: u32)"
    by (rule count_block_final) simp_all
  then show ?thesis
    using assms T [symmetric] blake_count_last [of 64 len]
    by (simp add: blake32_at_def blake32_absorb_def blake32_block_S READ_STATE32_def WRITE_STATE32_def
        COMPRESS32_correct)
qed

lemma blake32_minus: "(0xFFFFFE00 :: u32) = - 512" "(0xFFFFFFFF :: u32) = - 1"
  by simp_all

lemma blake32_absorb_extra:
  fixes c :: sph_blake_small_context
  assumes "bs_T0 c = 0xFFFFFE00" "bs_T1 c = 0xFFFFFFFF"
  shows "bs_H (blake32_absorb b c) = blake32_compress (bs_H c) (bs_S c) 0 b"
  using assms [unfolded blake32_minus] COMPRESS32_correct [of "bs_H c" "bs_S c" 0 b]
  by (simp add: blake32_absorb_def blake32_block_def READ_STATE32_def WRITE_STATE32_def
      lo_word_def hi_word_def)

text \<open>What \<^verbatim>\<open>blake32_close\<close> does for a message of whole bytes.\<close>

definition blake32_fin :: "sph_blake_small_context \<Rightarrow> sph_blake_small_context" where
  "blake32_fin sc = (case final_counter 512 (8 * bs_ptr sc) (bs_T0 sc) (bs_T1 sc) of
    (T0, T1) \<Rightarrow> sc\<lparr>bs_T0 := T0, bs_T1 := T1\<rparr>)"

definition blake32_length :: "sph_blake_small_context \<Rightarrow> bytes" where
  "blake32_length sc = sph_enc32be (bs_T1 sc) @ sph_enc32be (bs_T0 sc + of_nat (8 * bs_ptr sc))"

definition blake32_out :: "nat \<Rightarrow> sph_blake_small_context \<Rightarrow> bytes" where
  "blake32_out w sc = concat (map (\<lambda>k. sph_enc32be (bs_H sc ! k)) [0..<w])"

lemma blake32_close_counter_fin:
  "bs_ptr sc < 64 \<Longrightarrow> blake32_close_counter sc (bs_ptr sc) 0 (bs_ptr sc * 8 + 0) = blake32_fin sc"
  unfolding blake32_close_counter_def blake32_minus
  by (simp add: blake32_fin_def final_counter_def mult.commute)

lemma blake32_fields_copy:
  fixes v a b :: bytes
  assumes "length v = 64" "length a = 4" "length b = 4"
  shows "memcpy (memcpy v 56 a) 60 b = take 56 v @ a @ b"
  using assms memcpy_two [of v 56 a b] by simp

lemma blake32_close_short:
  assumes "bs_ptr sc < 56"
  shows "blake32_close sc 0 0 w =
    (let sc' = blake32 (blake32_fin sc) (blake_pad 56 64 (if w = 8 then 1 else 0) (bs_ptr sc) @ blake32_length sc)
     in (sc', blake32_out w sc'))"
proof -
  let ?r = "bs_ptr sc" and ?fin = "if w = 8 then 1 else 0 :: u8"
  let ?u = "replicate ?r 0 @ 0x80 # replicate (64 - 1 - ?r) 0 :: bytes"
  have u: "(replicate 64 0)[?r := 0x80] = ?u"
    using assms update_replicate [of ?r 64 0 "0x80 :: u8"] by simp
  have ms: "memset ?u (?r + 1) 0 (55 - ?r) = ?u"
    using assms memset_zeros [of ?r 64 "55 - ?r" 0 "0x80 :: u8"] by simp
  have pad: "drop ?r (take 56 (?u[55 := ?u ! 55 OR fin])) = blake_pad 56 64 fin ?r" if "fin = 0 \<or> fin = 1" for fin
    using assms that pad_short [of ?r 56 64 fin ?u] by simp
  have v: "(if w = 8 then ?u[55 := ?u ! 55 OR 1] else ?u) = ?u[55 := ?u ! 55 OR ?fin]"
    by simp
  have "drop ?r (memcpy (memcpy (?u[55 := ?u ! 55 OR ?fin]) 56 a) 60 b) = blake_pad 56 64 ?fin ?r @ a @ b"
    if "length a = 4" "length b = 4" for a b :: bytes
    using assms that pad [of ?fin] by (simp add: blake32_fields_copy)
  then show ?thesis
    using assms blake32_close_counter_fin [of sc]
    unfolding blake32_close_def Let_def close_pad_byte u ms v
    by (simp add: blake32_length_def blake32_out_def mult.commute)
qed

lemma blake32_close_long:
  assumes "56 \<le> bs_ptr sc" "bs_ptr sc < 64"
  shows "blake32_close sc 0 0 w =
    (let sc1 = blake32 (blake32_fin sc) (0x80 # replicate (63 - bs_ptr sc) 0);
         sc' = blake32 (sc1\<lparr>bs_T0 := 0xFFFFFE00, bs_T1 := 0xFFFFFFFF\<rparr>)
           (replicate 55 0 @ [if w = 8 then 1 else 0] @ blake32_length sc)
     in (sc', blake32_out w sc'))"
proof -
  let ?r = "bs_ptr sc" and ?fin = "if w = 8 then 1 else 0 :: u8"
  let ?u = "replicate ?r 0 @ 0x80 # replicate (64 - 1 - ?r) 0 :: bytes"
  have u: "(replicate 64 0)[?r := 0x80] = ?u"
    using assms update_replicate [of ?r 64 0 "0x80 :: u8"] by simp
  have ms: "memset ?u (?r + 1) 0 (63 - ?r) = ?u"
    using assms memset_zeros [of ?r 64 "63 - ?r" 0 "0x80 :: u8"] by simp
  have "take 56 (if w = 8 then (memset ?u 0 0 56)[55 := 1] else memset ?u 0 0 56) = replicate 55 0 @ [?fin]"
    using assms
    by (auto simp: memset_def memcpy_def list_update_append update_replicate replicate_append_same
        simp flip: replicate_Suc)
  then have "memcpy (memcpy (if w = 8 then (memset ?u 0 0 56)[55 := 1] else memset ?u 0 0 56) 56 a) 60 b =
      replicate 55 0 @ [?fin] @ a @ b"
    if "length a = 4" "length b = 4" for a b :: bytes
    using assms that by (subst blake32_fields_copy) simp_all
  then show ?thesis
    using assms blake32_close_counter_fin [of sc]
    unfolding blake32_close_def Let_def close_pad_byte u ms
    by (simp add: blake32_length_def blake32_out_def mult.commute)
qed

lemma blake32_length_at:
  assumes "blake32_at H (len div 64) c" "bs_ptr c = len mod 64"
  shows "blake32_length c = sph_enc32be (hi_word (8 * len)) @ sph_enc32be (lo_word (8 * len))"
proof -
  let ?t = "512 * (len div 64)" and ?e = "8 * (len mod 64)"
  have len: "8 * len = ?t + ?e"
    using mult_div_mod_eq [of 64 len] by linarith
  have "(hi_word (8 * len) :: u32) = hi_word ?t"
    unfolding len by (rule lo_hi_add(2) [where B = 512]) simp_all
  moreover have "(lo_word (8 * len) :: u32) = lo_word ?t + of_nat ?e"
    unfolding len lo_word_add by (simp add: lo_word_def)
  ultimately show ?thesis
    using assms by (simp add: blake32_length_def blake32_at_def READ_STATE32_def)
qed

lemma blake32_fin_simps [simp]:
  "bs_buf (blake32_fin c) = bs_buf c" "bs_ptr (blake32_fin c) = bs_ptr c"
  "bs_H (blake32_fin c) = bs_H c" "bs_S (blake32_fin c) = bs_S c"
  "(bs_T0 (blake32_fin c), bs_T1 (blake32_fin c)) = final_counter 512 (8 * bs_ptr c) (bs_T0 c) (bs_T1 c)"
  by (simp_all add: blake32_fin_def split: prod.splits)

lemma blake32_one_block:
  assumes "blake32.wf c" "length (blake32.pending c @ d) = 64"
  shows "READ_STATE32 (blake32 c d) = READ_STATE32 (blake32_absorb (blake32.pending c @ d) c)"
    and "bs_ptr (blake32 c d) = 0"
proof -
  have chain: "READ_STATE32 (blake32.chain c) = READ_STATE32 c" for c
    by (simp add: blake32.chain_def blake32_put_def READ_STATE32_def)
  have "READ_STATE32 (blake32.chain (blake32 c d)) =
      READ_STATE32 (blake32.chain (blake32_absorb (blake32.pending c @ d) c))"
    using blake32.core_one_block(1) [OF assms] by (simp add: blake32.chain_absorb)
  then show "READ_STATE32 (blake32 c d) = READ_STATE32 (blake32_absorb (blake32.pending c @ d) c)"
    by (simp only: chain)
qed (rule blake32.core_one_block(2) [OF assms])

lemma blake32_pending_cong:
  "bs_buf c = bs_buf c' \<Longrightarrow> bs_ptr c = bs_ptr c' \<Longrightarrow> blake32.pending c = blake32.pending c'"
  by (simp add: blake32.pending_def)

lemma blake32_close_correct:
  assumes wf: "blake32.wf c" and at: "blake32_at H (len div 64) c" and ptr: "bs_ptr c = len mod 64"
  defines "lf \<equiv> sph_enc32be (hi_word (8 * len)) @ sph_enc32be (lo_word (8 * len))"
  obtains c' where "blake32_close c 0 0 w = (c', blake32_out w c')" "length (bs_buf c') = 64"
    "bs_H c' = blake32_blocks len (len div 64) H
      (chunks 64 (blake32.pending c @ blake_pad 56 64 (if w = 8 then 1 else 0) (len mod 64) @ lf))"
proof -
  let ?r = "len mod 64" and ?p = "blake32.pending c" and ?k = "len div 64"
  let ?fin = "if w = 8 then 1 else 0 :: u8" and ?f = "blake32_fin c"
  have wff: "blake32.wf ?f" and pf: "blake32.pending ?f = ?p"
    using wf by (simp_all add: blake32.wf_def blake32.pending_def)
  have lp: "length ?p = ?r"
    using wf ptr by (simp add: blake32.wf_def blake32.pending_def)
  have lf: "blake32_length c = lf" "length lf = 64 - 56"
    using blake32_length_at [OF at ptr] by (simp_all add: lf_def)
  have final: "bs_H (blake32 ?f d) = blake32_compress H salt_zero_small (blake_count 64 len ?k) (?p @ d)
      \<and> bs_S (blake32 ?f d) = salt_zero_small \<and> bs_ptr (blake32 ?f d) = 0" if "length (?p @ d) = 64" for d
  proof -
    have "bs_H (blake32_absorb (?p @ d) ?f) = blake32_compress H salt_zero_small (blake_count 64 len ?k) (?p @ d)
        \<and> bs_S (blake32_absorb (?p @ d) ?f) = salt_zero_small"
      using at ptr by (intro blake32_absorb_final [where c = c]) simp_all
    with blake32_one_block [OF wff, of d] pf that show ?thesis
      by (simp add: READ_STATE32_def)
  qed
  show ?thesis
  proof (cases "?r < 56")
    case True
    let ?d = "blake_pad 56 64 ?fin ?r @ lf"
    have len: "length (?p @ ?d) = 64"
      using length_pad_short [OF True, of 64 ?fin] by (simp add: lp lf)
    show ?thesis
    proof (rule that)
      show "blake32_close c 0 0 w = (blake32 ?f ?d, blake32_out w (blake32 ?f ?d))"
        using True ptr blake32_close_short [of c w] by (simp add: lf Let_def)
      show "length (bs_buf (blake32 ?f ?d)) = 64"
        using blake32.wf_core [OF wff] by (simp add: blake32.wf_def)
      have "chunks 64 (?p @ ?d) = [?p @ ?d]"
        using chunks_append [of 64 "?p @ ?d" "[]"] len by simp
      then show "bs_H (blake32 ?f ?d) = blake32_blocks len ?k H (chunks 64 (?p @ ?d))"
        using final [OF len] by simp
    qed
  next
    case False
    let ?da = "0x80 # replicate (63 - ?r) 0" and ?db = "replicate 55 0 @ [?fin] @ lf"
    let ?mid = "(blake32 ?f ?da)\<lparr>bs_T0 := 0xFFFFFE00, bs_T1 := 0xFFFFFFFF\<rparr>"
    have len: "length (?p @ ?da) = 64" "length ?db = 64"
      using mod_less_divisor [of 64 len] by (simp_all add: lp lf)
    note f1 = final [OF len(1)]
    have wf1: "blake32.wf ?mid" and p1: "blake32.pending ?mid = []"
      using blake32.wf_core [OF wff, of ?da] f1 by (simp_all add: blake32.wf_def blake32.pending_def)
    show ?thesis
    proof (rule that)
      show "blake32_close c 0 0 w = (blake32 ?mid ?db, blake32_out w (blake32 ?mid ?db))"
        using False ptr blake32_close_long [of c w] by (simp add: lf Let_def)
      show "length (bs_buf (blake32 ?mid ?db)) = 64"
        using blake32.wf_core [OF wf1] by (simp add: blake32.wf_def)
      have "bs_H (blake32 ?mid ?db) = bs_H (blake32_absorb ?db ?mid)"
        using blake32_one_block(1) [OF wf1, of ?db] p1 len(2) by (simp add: READ_STATE32_def)
      also have "\<dots> = blake32_compress (bs_H ?mid) salt_zero_small (blake_count 64 len (?k + 1)) ?db"
        using f1 blake32_absorb_extra [of ?mid ?db] by (simp add: blake_count_beyond)
      also have "\<dots> = blake32_blocks len ?k H [?p @ ?da, ?db]"
        using f1 by simp
      also have "[?p @ ?da, ?db] = chunks 64 ((?p @ ?da) @ ?db @ [])"
        using len by (simp only: chunks_append) simp
      also have "(?p @ ?da) @ ?db @ [] = ?p @ blake_pad 56 64 ?fin ?r @ lf"
        using False pad_long [of 56 ?r 64 ?fin] by simp
      finally show "bs_H (blake32 ?mid ?db) =
        blake32_blocks len ?k H (chunks 64 (?p @ blake_pad 56 64 ?fin ?r @ lf))" .
    qed
  qed
qed

lemma blake32_hash_correct:
  assumes buf: "length (bs_buf sc) = 64" and w: "fin = (if w = 8 then 1 else 0)"
  obtains c' where "length (bs_buf c') = 64"
    "blake32_close (blake32 (blake32_init sc iv salt_zero_small) msg) 0 0 w = (c', blake32_hash iv fin w msg)"
proof -
  let ?len = "length msg" and ?start = "blake32_init sc iv salt_zero_small"
  obtain blks r where msg: "msg = concat blks @ r" and blks: "\<And>b. b \<in> set blks \<Longrightarrow> length b = 64"
    and r: "length r = ?len mod 64" and k: "length blks = ?len div 64"
    using blocks_exist [of 64 msg] by auto
  have c0: "blake32.wf ?start" "bs_ptr ?start = 0" "blake32_at iv 0 ?start"
    using buf by (simp_all add: blake32_init_def blake32.wf_def blake32_at_def READ_STATE32_def lo_word_def hi_word_def)
  have rlt: "length r < 64" using r by simp
  note fresh = blake32.core_fresh [OF c0(1,2) msg blks rlt]
  let ?c = "blake32 ?start msg" and ?H = "blake32_blocks ?len 0 iv blks"
  have pend: "blake32.pending ?c = r" and ptr: "bs_ptr ?c = ?len mod 64"
    using fresh(2,3) r by simp_all
  have at: "blake32_at ?H (?len div 64) ?c"
    using blake32_at_absorb_all [of iv 0 "blake32.chain ?start" blks ?len] c0(3) k
    by (simp flip: fresh(1))
  obtain c' where c': "blake32_close ?c 0 0 w = (c', blake32_out w c')" "length (bs_buf c') = 64"
    and H: "bs_H c' = blake32_blocks ?len (?len div 64) ?H
      (chunks 64 (r @ blake_pad 56 64 fin (?len mod 64)
        @ sph_enc32be (hi_word (8 * ?len)) @ sph_enc32be (lo_word (8 * ?len))))"
    using blake32_close_correct [OF blake32.wf_core [OF c0(1), of msg] at ptr, of w]
    unfolding pend w [symmetric] by blast
  have "bs_H c' = blake32_blocks ?len 0 iv (chunks 64 (msg @ blake_pad 56 64 fin (?len mod 64)
        @ sph_enc32be (hi_word (8 * ?len)) @ sph_enc32be (lo_word (8 * ?len))))"
    unfolding H by (subst (5) msg) (simp add: chunks_concat blks blake32_blocks_append k)
  then have "blake32_out w c' = blake32_hash iv fin w msg"
    by (simp add: blake32_out_def blake32_hash_def Let_def)
  with c' that show ?thesis by simp
qed

section \<open>Invertibility of the rounds\<close>

text \<open>The quarter-round run backwards.\<close>

definition GS_inv :: "u32 \<Rightarrow> u32 \<Rightarrow> u32 \<Rightarrow> u32 \<Rightarrow> u32 \<times> u32 \<times> u32 \<times> u32 \<Rightarrow> u32 \<times> u32 \<times> u32 \<times> u32" where
  "GS_inv m0 m1 c0 c1 = (\<lambda>(a, b, c, d).
    let b = SPH_ROTL32 b 7 XOR c;
        c = c - d;
        d = SPH_ROTL32 d 8 XOR a;
        a = a - b - (m1 XOR c0);
        b = SPH_ROTL32 b 12 XOR c;
        c = c - d;
        d = SPH_ROTL32 d 16 XOR a;
        a = a - b - (m0 XOR c1)
    in (a, b, c, d))"

lemma GS_inv_GS: "GS_inv m0 m1 c0 c1 (GS m0 m1 c0 c1 q) = q"
  by (cases q) (simp add: GS_inv_def GS_def Let_def, simp add: add.assoc)

lemma inj_GS_at:
  assumes "distinct [i, j, k, l]" "{i, j, k, l} \<subseteq> {..<16}" "length V = 16" "length V' = 16"
    and eq: "GS_at m0 m1 c0 c1 i j k l V = GS_at m0 m1 c0 c1 i j k l V'"
  shows "V = V'"
proof -
  have at: "GS_at m0 m1 c0 c1 i j k l W ! i = fst q \<and> GS_at m0 m1 c0 c1 i j k l W ! j = fst (snd q)
      \<and> GS_at m0 m1 c0 c1 i j k l W ! k = fst (snd (snd q)) \<and> GS_at m0 m1 c0 c1 i j k l W ! l = snd (snd (snd q))"
    and other: "n \<notin> {i, j, k, l} \<Longrightarrow> GS_at m0 m1 c0 c1 i j k l W ! n = W ! n"
    if "q = GS m0 m1 c0 c1 (W ! i, W ! j, W ! k, W ! l)" "length W = 16" for W q n
    using assms(1,2) that by (auto simp: GS_at_def nth_list_update split: prod.splits)
  let ?q = "GS m0 m1 c0 c1 (V ! i, V ! j, V ! k, V ! l)"
    and ?p = "GS m0 m1 c0 c1 (V' ! i, V' ! j, V' ! k, V' ! l)"
  have "?q = ?p"
    using at [of ?q V] at [of ?p V'] eq assms(3,4) by (auto intro!: prod_eqI)
  then have "GS_inv m0 m1 c0 c1 ?q = GS_inv m0 m1 c0 c1 ?p" by simp
  then have same: "V ! i = V' ! i \<and> V ! j = V' ! j \<and> V ! k = V' ! k \<and> V ! l = V' ! l"
    by (simp add: GS_inv_GS)
  have "V ! n = V' ! n" for n
    using other [of ?q V n] other [of ?p V' n] eq assms(3,4) same by (cases "n \<in> {i, j, k, l}") auto
  with assms(3,4) show ?thesis by (simp add: list_eq_iff_nth_eq)
qed

lemma length_GS_at [simp]: "length (GS_at m0 m1 c0 c1 i j k l V) = length V"
  by (simp add: GS_at_def split: prod.splits)

lemma length_ROUND_S [simp]: "length (ROUND_S M r V) = length V"
  by (simp add: ROUND_S_def)

text \<open>A round loses no information: two states with the same image are the same state.\<close>

lemma inj_ROUND_S:
  assumes "length V = 16" "length V' = 16" "ROUND_S M r V = ROUND_S M r V'"
  shows "V = V'"
proof -
  note cancel = inj_GS_at [rotated 4]
  show ?thesis
    using assms unfolding ROUND_S_def Let_def
    by (auto dest!: cancel)
qed

section \<open>Properties\<close>

lemma blake32_init_wf: "length (bs_buf sc) = 64 \<Longrightarrow> blake32.wf (blake32_init sc iv salt)"
  by (simp add: blake32.wf_def blake32_init_def)

lemma blake32_session:
  assumes "length (bs_buf sc) = 64" "fin = (if w = 8 then 1 else 0)"
  obtains c' where "length (bs_buf c') = 64"
    "blake32_close (foldl blake32 (blake32_init sc iv salt_zero_small) pieces) 0 0 w =
      (c', blake32_hash iv fin w (concat pieces))"
  using blake32_hash_correct [OF assms, of iv "concat pieces"]
    blake32.core_concat [OF blake32_init_wf [OF assms(1)], of iv salt_zero_small pieces] by metis

text \<open>
  A session of \<^verbatim>\<open>sph_blake256_init\<close>, any number of \<^verbatim>\<open>sph_blake256\<close> updates with pieces of
  any sizes, and \<^verbatim>\<open>sph_blake256_close\<close> outputs the BLAKE-256 digest of the concatenated
  pieces, for messages of every length, and leaves a context that is initialised again.
\<close>

theorem sph_blake256_correct:
  assumes "length (bs_buf sc) = 64"
  shows "\<exists>c'. length (bs_buf c') = 64 \<and>
    sph_blake256_close (foldl sph_blake256 (sph_blake256_init sc) pieces) =
      (sph_blake256_init c', blake256_spec (concat pieces))"
  by (rule blake32_session [OF assms, of 1 8 IV256 pieces])
    (auto simp: sph_blake256_close_def sph_blake256_addbits_and_close_def sph_blake256_init_def
      sph_blake256_def [abs_def] blake256_spec_def)

theorem sph_blake256_correct_witness:
  "let sc = \<lparr>bs_buf = replicate 64 7, bs_ptr = 5, bs_H = [], bs_S = [], bs_T0 = 3, bs_T1 = 9\<rparr> in
    \<exists>c'. length (bs_buf c') = 64 \<and>
      sph_blake256_close (foldl sph_blake256 (sph_blake256_init sc) [[1, 2], [], [3]]) =
        (sph_blake256_init c', blake256_spec [1, 2, 3])"
  using sph_blake256_correct
    [of "\<lparr>bs_buf = replicate 64 7, bs_ptr = 5, bs_H = [], bs_S = [], bs_T0 = 3, bs_T1 = 9\<rparr>" "[[1, 2], [], [3]]"]
  by simp

text \<open>The same for the shorter output size.\<close>

lemma sph_blake224_correct:
  assumes "length (bs_buf sc) = 64"
  shows "\<exists>c'. length (bs_buf c') = 64 \<and>
    sph_blake224_close (foldl sph_blake224 (sph_blake224_init sc) pieces) =
      (sph_blake224_init c', blake224_spec (concat pieces))"
  by (rule blake32_session [OF assms, of 0 7 IV224 pieces])
    (auto simp: sph_blake224_close_def sph_blake224_addbits_and_close_def sph_blake224_init_def
      sph_blake224_def [abs_def] blake224_spec_def)


end
