(* ===== verification/Skein.thy ===== *)
theory Skein
  imports Sph_Types Buffered_Hash
begin

text \<open>
  \<^verbatim>\<open>crypto/skein.c\<close>: the Threefish-512 block cipher in its unrolled and its small-footprint
  form, the UBI chaining macro, the lazily buffered update and the closing function, with
  the four output sizes. The local variables \<^verbatim>\<open>p0 .. p7\<close>, \<^verbatim>\<open>h0 .. h8\<close> and \<^verbatim>\<open>t0 .. t2\<close> of
  the macros are lists with the same indices.

  The main results: a digest session computes the Skein hash of the concatenated input (two
  UBI calls with 128-bit tweaks from the UBI image of the configuration block, which the tables
  \<^verbatim>\<open>IV512\<close> and \<^verbatim>\<open>IV256\<close> are shown to hold), and the two forms of the cipher agree.
\<close>

section \<open>Context and constants\<close>

record sph_skein_big_context =
  sk_buf :: bytes
  sk_ptr :: nat
  sk_h :: "u64 list"
  sk_bcount :: u64

definition M9 :: "nat list list" where
  "M9 =
  [[0, 1, 2, 3, 4, 5, 6, 7], [1, 2, 3, 4, 5, 6, 7, 8], [2, 3, 4, 5, 6, 7, 8, 0],
   [3, 4, 5, 6, 7, 8, 0, 1], [4, 5, 6, 7, 8, 0, 1, 2], [5, 6, 7, 8, 0, 1, 2, 3],
   [6, 7, 8, 0, 1, 2, 3, 4], [7, 8, 0, 1, 2, 3, 4, 5], [8, 0, 1, 2, 3, 4, 5, 6],
   [0, 1, 2, 3, 4, 5, 6, 7], [1, 2, 3, 4, 5, 6, 7, 8], [2, 3, 4, 5, 6, 7, 8, 0],
   [3, 4, 5, 6, 7, 8, 0, 1], [4, 5, 6, 7, 8, 0, 1, 2], [5, 6, 7, 8, 0, 1, 2, 3],
   [6, 7, 8, 0, 1, 2, 3, 4], [7, 8, 0, 1, 2, 3, 4, 5], [8, 0, 1, 2, 3, 4, 5, 6],
   [0, 1, 2, 3, 4, 5, 6, 7]]"

definition M3 :: "nat list list" where
  "M3 =
  [[0, 1], [1, 2], [2, 0], [0, 1], [1, 2], [2, 0], [0, 1],
   [1, 2], [2, 0], [0, 1], [1, 2], [2, 0], [0, 1], [1, 2],
   [2, 0], [0, 1], [1, 2], [2, 0], [0, 1]]"

definition IV224 :: "u64 list" where
  "IV224 =
   [0xCCD0616248677224, 0xCBA65CF3A92339EF,
    0x8CCD69D652FF4B64, 0x398AED7B3AB890B4,
    0x0F59D1B1457D2BD0, 0x6776FE6575D4EB3D,
    0x99FBC70E997413E9, 0x9E2CFCCFE1C41EF7]"

definition IV256 :: "u64 list" where
  "IV256 =
   [0xCCD044A12FDB3E13, 0xE83590301A79A9EB,
    0x55AEA0614F816E6F, 0x2A2767A4AE9B94DB,
    0xEC06025E74DD7683, 0xE7A436CDC4746251,
    0xC36FBAF9393AD185, 0x3EEDBA1833EDFC13]"

definition IV384 :: "u64 list" where
  "IV384 =
   [0xA3F6C6BF3A75EF5F, 0xB0FEF9CCFD84FAA4,
    0x9D77DD663D770CFE, 0xD798CBF3B468FDDA,
    0x1BC4A6668A0E4465, 0x7ED7D434E5807407,
    0x548FC1ACD4EC44D6, 0x266E17546AA18FF8]"

definition IV512 :: "u64 list" where
  "IV512 =
   [0x4903ADFF749C51CE, 0x0D95DE399746DF03,
    0x8FD1934127C79BCE, 0x9A255629FF352CB1,
    0x5DB62599DF6CA7B0, 0xEABE394CA9D5C3F4,
    0x991112C71A75B523, 0xAE18A40B660FCC33]"

section \<open>Threefish, unrolled\<close>

definition SKBI :: "u64 list \<Rightarrow> nat \<Rightarrow> nat \<Rightarrow> u64" where
  "SKBI k s i = k ! (M9 ! s ! i)"

definition SKBT :: "u64 list \<Rightarrow> nat \<Rightarrow> nat \<Rightarrow> u64" where
  "SKBT t s v = t ! (M3 ! s ! v)"

text \<open>The derived key word \<^verbatim>\<open>k8\<close> and tweak word \<^verbatim>\<open>t2\<close> are appended to the given ones.\<close>

definition TFBIG_KINIT :: "u64 list \<Rightarrow> u64 \<Rightarrow> u64 \<Rightarrow> u64 list \<times> u64 list" where
  "TFBIG_KINIT k t0 t1 =
    (let k8 = ((k ! 0 XOR k ! 1) XOR (k ! 2 XOR k ! 3)) XOR ((k ! 4 XOR k ! 5) XOR (k ! 6 XOR k ! 7))
           XOR 0x1BD11BDAA9FC1A22;
         t2 = t0 XOR t1
     in ([k ! 0, k ! 1, k ! 2, k ! 3, k ! 4, k ! 5, k ! 6, k ! 7, k8], [t0, t1, t2]))"

definition TFBIG_ADDKEY :: "u64 list \<Rightarrow> u64 list \<Rightarrow> nat \<Rightarrow> u64 list \<Rightarrow> u64 list" where
  "TFBIG_ADDKEY k t s w =
    [SPH_T64 (w ! 0 + SKBI k s 0),
     SPH_T64 (w ! 1 + SKBI k s 1),
     SPH_T64 (w ! 2 + SKBI k s 2),
     SPH_T64 (w ! 3 + SKBI k s 3),
     SPH_T64 (w ! 4 + SKBI k s 4),
     SPH_T64 (w ! 5 + SKBI k s 5 + SKBT t s 0),
     SPH_T64 (w ! 6 + SKBI k s 6 + SKBT t s 1),
     SPH_T64 (w ! 7 + SKBI k s 7 + of_nat s)]"

text \<open>\<^verbatim>\<open>TFBIG_MIX (p_i, p_j, rc)\<close>; the eight-word macro takes the indices of its arguments.\<close>

definition TFBIG_MIX :: "nat \<Rightarrow> nat \<Rightarrow> nat \<Rightarrow> u64 list \<Rightarrow> u64 list" where
  "TFBIG_MIX i j rc p =
    (let x0 = SPH_T64 (p ! i + p ! j);
         x1 = SPH_ROTL64 (p ! j) rc XOR x0
     in p[i := x0, j := x1])"

definition TFBIG_MIX8 :: "nat list \<Rightarrow> nat \<Rightarrow> nat \<Rightarrow> nat \<Rightarrow> nat \<Rightarrow> u64 list \<Rightarrow> u64 list" where
  "TFBIG_MIX8 w rc0 rc1 rc2 rc3 p =
    (let p = TFBIG_MIX (w ! 0) (w ! 1) rc0 p;
         p = TFBIG_MIX (w ! 2) (w ! 3) rc1 p;
         p = TFBIG_MIX (w ! 4) (w ! 5) rc2 p;
         p = TFBIG_MIX (w ! 6) (w ! 7) rc3 p
     in p)"

definition TFBIG_4e :: "u64 list \<Rightarrow> u64 list \<Rightarrow> nat \<Rightarrow> u64 list \<Rightarrow> u64 list" where
  "TFBIG_4e h t s p =
    (let p = TFBIG_ADDKEY h t s p;
         p = TFBIG_MIX8 [0, 1, 2, 3, 4, 5, 6, 7] 46 36 19 37 p;
         p = TFBIG_MIX8 [2, 1, 4, 7, 6, 5, 0, 3] 33 27 14 42 p;
         p = TFBIG_MIX8 [4, 1, 6, 3, 0, 5, 2, 7] 17 49 36 39 p;
         p = TFBIG_MIX8 [6, 1, 0, 7, 2, 5, 4, 3] 44 9 54 56 p
     in p)"

definition TFBIG_4o :: "u64 list \<Rightarrow> u64 list \<Rightarrow> nat \<Rightarrow> u64 list \<Rightarrow> u64 list" where
  "TFBIG_4o h t s p =
    (let p = TFBIG_ADDKEY h t s p;
         p = TFBIG_MIX8 [0, 1, 2, 3, 4, 5, 6, 7] 39 30 34 24 p;
         p = TFBIG_MIX8 [2, 1, 4, 7, 6, 5, 0, 3] 13 50 10 17 p;
         p = TFBIG_MIX8 [4, 1, 6, 3, 0, 5, 2, 7] 25 29 39 43 p;
         p = TFBIG_MIX8 [6, 1, 0, 7, 2, 5, 4, 3] 8 35 56 22 p
     in p)"

text \<open>The message words of a block and the tweak words, common to both forms of \<^verbatim>\<open>UBI_BIG\<close>.\<close>

definition ubi_m :: "bytes \<Rightarrow> u64 list" where
  "ubi_m buf =
    [sph_dec64le (drop 0 buf), sph_dec64le (drop 8 buf), sph_dec64le (drop 16 buf),
     sph_dec64le (drop 24 buf), sph_dec64le (drop 32 buf), sph_dec64le (drop 40 buf),
     sph_dec64le (drop 48 buf), sph_dec64le (drop 56 buf)]"

definition ubi_t0 :: "u64 \<Rightarrow> nat \<Rightarrow> u64" where
  "ubi_t0 bcount extra = SPH_T64 (push_bit 6 bcount) + of_nat extra"

definition ubi_t1 :: "u64 \<Rightarrow> nat \<Rightarrow> u64" where
  "ubi_t1 bcount etype = drop_bit 58 bcount + push_bit 55 (of_nat etype)"

definition ubi_out :: "u64 list \<Rightarrow> u64 list \<Rightarrow> u64 list" where
  "ubi_out m p =
    [m ! 0 XOR p ! 0, m ! 1 XOR p ! 1, m ! 2 XOR p ! 2, m ! 3 XOR p ! 3,
     m ! 4 XOR p ! 4, m ! 5 XOR p ! 5, m ! 6 XOR p ! 6, m ! 7 XOR p ! 7]"

definition UBI_BIG :: "u64 list \<Rightarrow> u64 \<Rightarrow> bytes \<Rightarrow> nat \<Rightarrow> nat \<Rightarrow> u64 list" where
  "UBI_BIG h bcount buf etype extra =
    (let m = ubi_m buf;
         p = m;
         t0 = ubi_t0 bcount extra;
         t1 = ubi_t1 bcount etype;
         (h, t) = TFBIG_KINIT h t0 t1;
         p = TFBIG_4e h t 0 p;
         p = TFBIG_4o h t 1 p;
         p = TFBIG_4e h t 2 p;
         p = TFBIG_4o h t 3 p;
         p = TFBIG_4e h t 4 p;
         p = TFBIG_4o h t 5 p;
         p = TFBIG_4e h t 6 p;
         p = TFBIG_4o h t 7 p;
         p = TFBIG_4e h t 8 p;
         p = TFBIG_4o h t 9 p;
         p = TFBIG_4e h t 10 p;
         p = TFBIG_4o h t 11 p;
         p = TFBIG_4e h t 12 p;
         p = TFBIG_4o h t 13 p;
         p = TFBIG_4e h t 14 p;
         p = TFBIG_4o h t 15 p;
         p = TFBIG_4e h t 16 p;
         p = TFBIG_4o h t 17 p;
         p = TFBIG_ADDKEY h t 18 p
     in ubi_out m p)"

section \<open>Threefish, small footprint\<close>

definition TFBIG_ADDKEY_small :: "u64 list \<Rightarrow> nat \<Rightarrow> u64 \<Rightarrow> u64 \<Rightarrow> u64 list \<Rightarrow> u64 list" where
  "TFBIG_ADDKEY_small h s tt0 tt1 p =
    [SPH_T64 (p ! 0 + h ! (s + 0)),
     SPH_T64 (p ! 1 + h ! (s + 1)),
     SPH_T64 (p ! 2 + h ! (s + 2)),
     SPH_T64 (p ! 3 + h ! (s + 3)),
     SPH_T64 (p ! 4 + h ! (s + 4)),
     SPH_T64 (p ! 5 + h ! (s + 5) + tt0),
     SPH_T64 (p ! 6 + h ! (s + 6) + tt1),
     SPH_T64 (p ! 7 + h ! (s + 7) + of_nat s)]"

definition TFBIG_4e_small :: "u64 list \<Rightarrow> u64 \<Rightarrow> u64 \<Rightarrow> nat \<Rightarrow> u64 list \<Rightarrow> u64 list" where
  "TFBIG_4e_small h t0 t1 s p =
    (let p = TFBIG_ADDKEY_small h s t0 t1 p;
         p = TFBIG_MIX8 [0, 1, 2, 3, 4, 5, 6, 7] 46 36 19 37 p;
         p = TFBIG_MIX8 [2, 1, 4, 7, 6, 5, 0, 3] 33 27 14 42 p;
         p = TFBIG_MIX8 [4, 1, 6, 3, 0, 5, 2, 7] 17 49 36 39 p;
         p = TFBIG_MIX8 [6, 1, 0, 7, 2, 5, 4, 3] 44 9 54 56 p
     in p)"

definition TFBIG_4o_small :: "u64 list \<Rightarrow> u64 \<Rightarrow> u64 \<Rightarrow> nat \<Rightarrow> u64 list \<Rightarrow> u64 list" where
  "TFBIG_4o_small h t1 t2 s p =
    (let p = TFBIG_ADDKEY_small h s t1 t2 p;
         p = TFBIG_MIX8 [0, 1, 2, 3, 4, 5, 6, 7] 39 30 34 24 p;
         p = TFBIG_MIX8 [2, 1, 4, 7, 6, 5, 0, 3] 13 50 10 17 p;
         p = TFBIG_MIX8 [4, 1, 6, 3, 0, 5, 2, 7] 25 29 39 43 p;
         p = TFBIG_MIX8 [6, 1, 0, 7, 2, 5, 4, 3] 8 35 56 22 p
     in p)"

text \<open>
  Here \<^verbatim>\<open>h\<close> is an array of 27 words whose first eight are the chaining value; the two loops
  extend the key periodically and rotate the tweak words.
\<close>

definition ubi_extend :: "u64 list \<Rightarrow> u64 list" where
  "ubi_extend h = foldl (\<lambda>h u. h[u + 9 := h ! (u + 0), u + 10 := h ! (u + 1), u + 11 := h ! (u + 2)])
     h [0, 3, 6, 9, 12, 15]"

definition ubi_small_pass :: "u64 list \<Rightarrow> u64 list \<times> u64 \<times> u64 \<times> u64 \<Rightarrow> nat \<Rightarrow> u64 list \<times> u64 \<times> u64 \<times> u64" where
  "ubi_small_pass h st u =
    (case st of (p, t0, t1, t2) \<Rightarrow>
      let s = 2 * u;
          p = TFBIG_4e_small h t0 t1 s p;
          p = TFBIG_4o_small h t1 t2 (s + 1) p;
          tmp = t2;
          t2 = t1;
          t1 = t0;
          t0 = tmp
      in (p, t0, t1, t2))"

definition UBI_BIG_small :: "u64 list \<Rightarrow> u64 \<Rightarrow> bytes \<Rightarrow> nat \<Rightarrow> nat \<Rightarrow> u64 list" where
  "UBI_BIG_small h bcount buf etype extra =
    (let m = ubi_m buf;
         p = m;
         t0 = ubi_t0 bcount extra;
         t1 = ubi_t1 bcount etype;
         k8 = ((h ! 0 XOR h ! 1) XOR (h ! 2 XOR h ! 3)) XOR ((h ! 4 XOR h ! 5) XOR (h ! 6 XOR h ! 7))
           XOR 0x1BD11BDAA9FC1A22;
         h = h[8 := k8];
         t2 = t0 XOR t1;
         h = ubi_extend h;
         (p, t0, t1, t2) = foldl (ubi_small_pass h) (p, t0, t1, t2) [0..<9];
         p = TFBIG_ADDKEY_small h 18 t0 t1 p
     in ubi_out m p @ drop 8 h)"

section \<open>Initialisation and update\<close>

definition skein_big_init :: "sph_skein_big_context \<Rightarrow> u64 list \<Rightarrow> sph_skein_big_context" where
  "skein_big_init sc iv = sc\<lparr>sk_h := iv, sk_bcount := 0, sk_ptr := 0\<rparr>"

definition first_flag :: "u64 \<Rightarrow> nat" where
  "first_flag bcount = (if bcount = 0 then 128 else 0)"

text \<open>
  The \<^verbatim>\<open>do .. while (len > 0)\<close> loop over \<^verbatim>\<open>h\<close>, \<^verbatim>\<open>bcount\<close>, \<^verbatim>\<open>first\<close>, the buffer, \<^verbatim>\<open>ptr\<close> and the
  remaining data. It is entered with data left and \<^verbatim>\<open>ptr\<close> inside the buffer.
\<close>

function skein_big_loop ::
  "u64 list \<Rightarrow> u64 \<Rightarrow> nat \<Rightarrow> bytes \<Rightarrow> nat \<Rightarrow> bytes \<Rightarrow> u64 list \<times> u64 \<times> bytes \<times> nat" where
  "skein_big_loop h bcount first buf ptr data =
    (if data = [] \<or> 64 < ptr then (h, bcount, buf, ptr)
     else
       let (h, bcount, first, ptr) =
             (if ptr = 64 then (UBI_BIG h (bcount + 1) buf (96 + first) 0, bcount + 1, 0, 0)
              else (h, bcount, first, ptr));
           clen = 64 - ptr;
           clen = (if clen > length data then length data else clen);
           buf = memcpy buf ptr (take clen data);
           ptr = ptr + clen;
           data = drop clen data
       in skein_big_loop h bcount first buf ptr data)"
  by pat_completeness auto
termination
  by (relation "measure (\<lambda>(h, bcount, first, buf, ptr, data). length data)")
    (auto simp: Let_def split: if_splits)

declare skein_big_loop.simps [simp del]

definition skein_big_core :: "sph_skein_big_context \<Rightarrow> bytes \<Rightarrow> sph_skein_big_context" where
  "skein_big_core sc data =
    (if length data \<le> 64 - sk_ptr sc then
       sc\<lparr>sk_buf := memcpy (sk_buf sc) (sk_ptr sc) data, sk_ptr := sk_ptr sc + length data\<rparr>
     else
       (case skein_big_loop (sk_h sc) (sk_bcount sc) (first_flag (sk_bcount sc))
           (sk_buf sc) (sk_ptr sc) data of
         (h, bcount, buf, ptr) \<Rightarrow> sc\<lparr>sk_buf := buf, sk_ptr := ptr, sk_h := h, sk_bcount := bcount\<rparr>))"

section \<open>Closing\<close>

text \<open>
  The state words are not written back by \<^verbatim>\<open>skein_big_close\<close>; the output is assembled in
  the context's buffer and its first \<^verbatim>\<open>out_len\<close> bytes are copied to the caller.
\<close>

definition skein_big_close ::
  "sph_skein_big_context \<Rightarrow> u32 \<Rightarrow> nat \<Rightarrow> nat \<Rightarrow> sph_skein_big_context \<times> bytes" where
  "skein_big_close sc ub n out_len =
    (let sc = (if n \<noteq> 0 then
                 let z = drop_bit n (0x80 :: u32);
                     x = ucast (((ub AND - z) OR z) AND 0xFF)
                 in skein_big_core sc [x]
               else sc);
         buf = sk_buf sc;
         ptr = sk_ptr sc;
         h = sk_h sc;
         bcount = sk_bcount sc;
         buf = memset buf ptr 0 (64 - ptr);
         et = 352 + first_flag bcount + (if n \<noteq> 0 then 1 else 0);
         h = UBI_BIG h bcount buf et ptr;
         buf = memset buf 0 0 64;
         h = UBI_BIG h 0 buf 510 8;
         buf = memcpy buf 0 (sph_enc64le (h ! 0));
         buf = memcpy buf 8 (sph_enc64le (h ! 1));
         buf = memcpy buf 16 (sph_enc64le (h ! 2));
         buf = memcpy buf 24 (sph_enc64le (h ! 3));
         buf = memcpy buf 32 (sph_enc64le (h ! 4));
         buf = memcpy buf 40 (sph_enc64le (h ! 5));
         buf = memcpy buf 48 (sph_enc64le (h ! 6));
         buf = memcpy buf 56 (sph_enc64le (h ! 7))
     in (sc\<lparr>sk_buf := buf\<rparr>, take out_len buf))"

definition sph_skein224_init :: "sph_skein_big_context \<Rightarrow> sph_skein_big_context" where
  "sph_skein224_init cc = skein_big_init cc IV224"

definition sph_skein224 :: "sph_skein_big_context \<Rightarrow> bytes \<Rightarrow> sph_skein_big_context" where
  "sph_skein224 cc data = skein_big_core cc data"

definition sph_skein224_addbits_and_close ::
  "sph_skein_big_context \<Rightarrow> u32 \<Rightarrow> nat \<Rightarrow> sph_skein_big_context \<times> bytes" where
  "sph_skein224_addbits_and_close cc ub n =
    (case skein_big_close cc ub n 28 of (cc, dst) \<Rightarrow> (sph_skein224_init cc, dst))"

definition sph_skein224_close :: "sph_skein_big_context \<Rightarrow> sph_skein_big_context \<times> bytes" where
  "sph_skein224_close cc = sph_skein224_addbits_and_close cc 0 0"

definition sph_skein256_init :: "sph_skein_big_context \<Rightarrow> sph_skein_big_context" where
  "sph_skein256_init cc = skein_big_init cc IV256"

definition sph_skein256 :: "sph_skein_big_context \<Rightarrow> bytes \<Rightarrow> sph_skein_big_context" where
  "sph_skein256 cc data = skein_big_core cc data"

definition sph_skein256_addbits_and_close ::
  "sph_skein_big_context \<Rightarrow> u32 \<Rightarrow> nat \<Rightarrow> sph_skein_big_context \<times> bytes" where
  "sph_skein256_addbits_and_close cc ub n =
    (case skein_big_close cc ub n 32 of (cc, dst) \<Rightarrow> (sph_skein256_init cc, dst))"

definition sph_skein256_close :: "sph_skein_big_context \<Rightarrow> sph_skein_big_context \<times> bytes" where
  "sph_skein256_close cc = sph_skein256_addbits_and_close cc 0 0"

definition sph_skein384_init :: "sph_skein_big_context \<Rightarrow> sph_skein_big_context" where
  "sph_skein384_init cc = skein_big_init cc IV384"

definition sph_skein384 :: "sph_skein_big_context \<Rightarrow> bytes \<Rightarrow> sph_skein_big_context" where
  "sph_skein384 cc data = skein_big_core cc data"

definition sph_skein384_addbits_and_close ::
  "sph_skein_big_context \<Rightarrow> u32 \<Rightarrow> nat \<Rightarrow> sph_skein_big_context \<times> bytes" where
  "sph_skein384_addbits_and_close cc ub n =
    (case skein_big_close cc ub n 48 of (cc, dst) \<Rightarrow> (sph_skein384_init cc, dst))"

definition sph_skein384_close :: "sph_skein_big_context \<Rightarrow> sph_skein_big_context \<times> bytes" where
  "sph_skein384_close cc = sph_skein384_addbits_and_close cc 0 0"

definition sph_skein512_init :: "sph_skein_big_context \<Rightarrow> sph_skein_big_context" where
  "sph_skein512_init cc = skein_big_init cc IV512"

definition sph_skein512 :: "sph_skein_big_context \<Rightarrow> bytes \<Rightarrow> sph_skein_big_context" where
  "sph_skein512 cc data = skein_big_core cc data"

definition sph_skein512_addbits_and_close ::
  "sph_skein_big_context \<Rightarrow> u32 \<Rightarrow> nat \<Rightarrow> sph_skein_big_context \<times> bytes" where
  "sph_skein512_addbits_and_close cc ub n =
    (case skein_big_close cc ub n 64 of (cc, dst) \<Rightarrow> (sph_skein512_init cc, dst))"

definition sph_skein512_close :: "sph_skein_big_context \<Rightarrow> sph_skein_big_context \<times> bytes" where
  "sph_skein512_close cc = sph_skein512_addbits_and_close cc 0 0"


section \<open>The streaming contract\<close>

definition skein_put :: "bytes \<Rightarrow> nat \<Rightarrow> sph_skein_big_context \<Rightarrow> sph_skein_big_context" where
  "skein_put b p sc = sc\<lparr>sk_buf := b, sk_ptr := p\<rparr>"

definition skein_absorb :: "bytes \<Rightarrow> sph_skein_big_context \<Rightarrow> sph_skein_big_context" where
  "skein_absorb blk sc =
    sc\<lparr>sk_h := UBI_BIG (sk_h sc) (sk_bcount sc + 1) blk (96 + first_flag (sk_bcount sc)) 0,
       sk_bcount := sk_bcount sc + 1\<rparr>"

definition skein_fits :: "sph_skein_big_context \<Rightarrow> nat \<Rightarrow> bool" where
  "skein_fits sc n \<longleftrightarrow> 64 * unat (sk_bcount sc) + n \<le> 2 ^ 70"

lemma skein_big_loop_Nil: "skein_big_loop h b f buf ptr [] = (h, b, buf, ptr)"
  by (simp add: skein_big_loop.simps)

lemma skein_big_loop_short:
  "ptr < 64 \<Longrightarrow> ptr + length d \<le> 64 \<Longrightarrow> skein_big_loop h b f buf ptr d = (h, b, memcpy buf ptr d, ptr + length d)"
  by (subst skein_big_loop.simps) (auto simp: Let_def skein_big_loop_Nil)

lemma skein_big_loop_flush:
  "d \<noteq> [] \<Longrightarrow> skein_big_loop h b f buf 64 d = skein_big_loop (UBI_BIG h (b + 1) buf (96 + f) 0) (b + 1) 0 buf 0 d"
  by (subst (1 2) skein_big_loop.simps) (simp add: Let_def)

lemma skein_big_loop_full:
  assumes "ptr \<le> 64" "64 < ptr + length d" "B = memcpy buf ptr (take (64 - ptr) d)"
  shows "skein_big_loop h b f buf ptr d =
    skein_big_loop (UBI_BIG h (b + 1) B (96 + f) 0) (b + 1) 0 B 0 (drop (64 - ptr) d)"
proof (cases "ptr = 64")
  case True
  then show ?thesis using assms by (simp add: skein_big_loop_flush)
next
  case False
  have "skein_big_loop h b f buf ptr d = skein_big_loop h b f B 64 (drop (64 - ptr) d)"
    using assms False by (subst skein_big_loop.simps) (auto simp: Let_def)
  then show ?thesis using assms by (simp add: skein_big_loop_flush)
qed

lemma skein_big_core_loop:
  assumes "sk_ptr c < 64"
  shows "skein_big_core c d = (case skein_big_loop (sk_h c) (sk_bcount c) (first_flag (sk_bcount c))
      (sk_buf c) (sk_ptr c) d of
    (h, b, buf, ptr) \<Rightarrow> c\<lparr>sk_buf := buf, sk_ptr := ptr, sk_h := h, sk_bcount := b\<rparr>)"
proof (cases "sk_ptr c + length d \<le> 64")
  case True
  then have "length d \<le> 64 - sk_ptr c" by simp
  with True assms show ?thesis by (simp add: skein_big_core_def skein_big_loop_short)
next
  case False
  then have "\<not> length d \<le> 64 - sk_ptr c" using assms by simp
  then show ?thesis by (simp add: skein_big_core_def)
qed

lemma bcount_Suc:
  assumes "64 * unat (b :: u64) + n \<le> 2 ^ 70" "64 < n"
  shows "unat (b + 1) = Suc (unat b)" "b + 1 \<noteq> 0"
proof -
  have "unat b + 1 < 2 ^ 64" using assms by simp
  then show "unat (b + 1) = Suc (unat b)" by (simp add: unat_word_ariths)
  then show "b + 1 \<noteq> 0" by auto
qed

interpretation skein: lazy_core 64 64 sk_buf sk_ptr skein_put skein_absorb skein_big_core skein_fits
proof
  fix c :: sph_skein_big_context and d b :: bytes and n :: nat
  show "skein_fits (skein_absorb b c) (n - 64)" if "skein_fits c n" "64 < n"
    using that bcount_Suc [of "sk_bcount c" n] by (simp add: skein_fits_def skein_absorb_def)
  assume len: "length (sk_buf c) = 64"
  show "skein_big_core c d = skein_put (memcpy (sk_buf c) (sk_ptr c) d) (sk_ptr c + length d) c"
    if "sk_ptr c + length d \<le> 64"
  proof -
    have "length d \<le> 64 - sk_ptr c" using that by simp
    then show ?thesis by (simp add: skein_big_core_def skein_put_def)
  qed
  show "skein_big_core c d =
      skein_big_core (skein_put b 0 (skein_absorb (take 64 b) c)) (drop (64 - sk_ptr c) d)"
    if p: "sk_ptr c \<le> 64" "64 < sk_ptr c + length d" "skein_fits c (sk_ptr c + length d)"
      and b: "b = memcpy (sk_buf c) (sk_ptr c) (take (64 - sk_ptr c) d)"
  proof -
    have tb: "take 64 b = b" using p len by (simp add: b)
    have "first_flag (sk_bcount c + 1) = 0"
      using bcount_Suc(2) p(2,3) by (simp add: first_flag_def skein_fits_def)
    moreover have "\<not> length d \<le> 64 - sk_ptr c" using p by linarith
    ultimately show ?thesis
      unfolding tb
      by (simp add: skein_big_core_loop skein_big_core_def [of c] skein_big_loop_full [OF p(1,2) b]
          skein_put_def skein_absorb_def split: prod.splits)
  qed
qed (auto simp: skein_put_def skein_absorb_def skein_fits_def)

section \<open>The Skein specification\<close>

text \<open>
  Threefish-512 as 72 rounds on eight words: every fourth round adds a subkey, every round
  mixes four pairs with the rotation amounts of its row and permutes the words.
\<close>

definition tf_R :: "nat list list" where
  "tf_R =
    [[46, 36, 19, 37], [33, 27, 14, 42], [17, 49, 36, 39], [44, 9, 54, 56],
     [39, 30, 34, 24], [13, 50, 10, 17], [25, 29, 39, 43], [8, 35, 56, 22]]"

definition tf_pi :: "nat list" where
  "tf_pi = [2, 1, 4, 7, 6, 5, 0, 3]"

definition tf_addkey :: "u64 list \<Rightarrow> u64 list \<Rightarrow> nat \<Rightarrow> u64 list \<Rightarrow> u64 list" where
  "tf_addkey k t s v = map (\<lambda>i. v ! i + k ! ((s + i) mod 9)
    + (if i = 5 then t ! (s mod 3) else if i = 6 then t ! ((s + 1) mod 3)
       else if i = 7 then of_nat s else 0)) [0..<8]"

definition tf_mix :: "nat list \<Rightarrow> u64 list \<Rightarrow> u64 list" where
  "tf_mix R v = concat (map (\<lambda>j. let x = v ! (2 * j); y = v ! (2 * j + 1)
     in [x + y, word_rotl (R ! j) y XOR (x + y)]) [0..<4])"

definition tf_permute :: "u64 list \<Rightarrow> u64 list" where
  "tf_permute v = map (\<lambda>i. v ! i) tf_pi"

definition tf_round :: "u64 list \<Rightarrow> u64 list \<Rightarrow> u64 list \<Rightarrow> nat \<Rightarrow> u64 list" where
  "tf_round k t v d =
    (let v = (if d mod 4 = 0 then tf_addkey k t (d div 4) v else v)
     in tf_permute (tf_mix (tf_R ! (d mod 8)) v))"

definition threefish512 :: "u64 list \<Rightarrow> nat \<Rightarrow> u64 list \<Rightarrow> u64 list" where
  "threefish512 key tweak p =
    (let k = key @ [foldr (XOR) key 0x1BD11BDAA9FC1A22];
         t = [lo_word tweak, hi_word tweak, lo_word tweak XOR hi_word tweak]
     in tf_addkey k t 18 (foldl (tf_round k t) p [0..<72]))"

text \<open>
  UBI: every block is encrypted under the chaining value with a 128-bit tweak that holds
  the position (bytes so far), the type of the data and the flags for the first and last block.
\<close>

definition ubi_tweak :: "nat \<Rightarrow> nat \<Rightarrow> bool \<Rightarrow> bool \<Rightarrow> nat" where
  "ubi_tweak pos type fst_blk lst_blk =
    pos + type * 2 ^ 120 + of_bool fst_blk * 2 ^ 126 + of_bool lst_blk * 2 ^ 127"

definition ubi_words :: "bytes \<Rightarrow> u64 list" where
  "ubi_words b = map (\<lambda>i. sph_dec64le (drop (8 * i) b)) [0..<8]"

definition ubi_block :: "u64 list \<Rightarrow> nat \<Rightarrow> bytes \<Rightarrow> u64 list" where
  "ubi_block G tweak b = map2 (XOR) (ubi_words b) (threefish512 G tweak (ubi_words b))"

fun ubi_blocks :: "nat \<Rightarrow> nat \<Rightarrow> nat \<Rightarrow> u64 list \<Rightarrow> bytes list \<Rightarrow> u64 list" where
  "ubi_blocks type len i G [] = G"
| "ubi_blocks type len i G (b # bs) =
    ubi_blocks type len (i + 1)
      (ubi_block G (ubi_tweak (min len (64 * (i + 1))) type (i = 0) (bs = [])) b) bs"

definition ubi_pad :: "bytes \<Rightarrow> bytes" where
  "ubi_pad msg = msg @ replicate (if msg = [] then 64 else (64 - length msg mod 64) mod 64) 0"

definition ubi :: "u64 list \<Rightarrow> bytes \<Rightarrow> nat \<Rightarrow> u64 list" where
  "ubi G msg type = ubi_blocks type (length msg) 0 G (chunks 64 (ubi_pad msg))"

text \<open>Message blocks have type 48, the output transform type 63, the configuration type 4.\<close>

definition skein512_spec :: "u64 list \<Rightarrow> nat \<Rightarrow> bytes \<Rightarrow> bytes" where
  "skein512_spec iv out_len msg =
    take out_len (concat (map sph_enc64le (ubi (ubi iv msg 48) (replicate 8 0) 63)))"

text \<open>The configuration is the schema identifier \<^verbatim>\<open>SHA3\<close>, version 1 and the output size in bits; sequential hashing leaves the tree parameters 0.\<close>

definition skein_config :: "nat \<Rightarrow> bytes" where
  "skein_config bits = [0x53, 0x48, 0x41, 0x33, 1, 0, 0, 0] @ sph_enc64le (of_nat bits) @ replicate 16 0"

definition skein512_hash :: "nat \<Rightarrow> bytes \<Rightarrow> bytes" where
  "skein512_hash bits msg = skein512_spec (ubi (replicate 8 0) (skein_config bits) 4) (bits div 8) msg"

section \<open>The cipher implements the specification\<close>

lemma M9_mod: "s < 19 \<Longrightarrow> i < 8 \<Longrightarrow> M9 ! s ! i = (s + i) mod 9"
proof -
  have "\<forall>s<19. \<forall>i<8. M9 ! s ! i = (s + i) mod 9"
    by (simp add: all_less_numeral M9_def)
  then show "s < 19 \<Longrightarrow> i < 8 \<Longrightarrow> ?thesis" by simp
qed

lemma M3_mod: "s < 19 \<Longrightarrow> v < 2 \<Longrightarrow> M3 ! s ! v = (s + v) mod 3"
proof -
  have "\<forall>s<19. \<forall>v<2. M3 ! s ! v = (s + v) mod 3"
    by (simp add: all_less_numeral M3_def del: One_nat_def)
  then show "s < 19 \<Longrightarrow> v < 2 \<Longrightarrow> ?thesis" by simp
qed

lemma TFBIG_ADDKEY_spec: "s < 19 \<Longrightarrow> TFBIG_ADDKEY k t s p = tf_addkey k t s p"
  by (simp add: TFBIG_ADDKEY_def tf_addkey_def SKBI_def SKBT_def M9_mod M3_mod upt_lists)

lemma length_tf [simp]:
  "length (tf_addkey k t s v) = 8" "length (tf_permute v) = 8" "length (tf_round k t v d) = 8"
  by (simp_all add: tf_addkey_def tf_permute_def tf_pi_def tf_round_def Let_def)

text \<open>
  The code keeps the words in place and renames the variables instead of permuting; reading
  the variables in the order \<open>w\<close> gives the permuted state.
\<close>

definition view :: "nat list \<Rightarrow> u64 list \<Rightarrow> u64 list" where
  "view w p = map (\<lambda>i. p ! i) w"

lemma length_TFBIG_MIX8 [simp]: "length (TFBIG_MIX8 w a b c e p) = length p"
  by (simp add: TFBIG_MIX8_def TFBIG_MIX_def Let_def)

lemma TFBIG_MIX8_view:
  assumes "length p = 8" "a < 64" "b < 64" "c < 64" "e < 64"
    and "(w, w') \<in> {([0, 1, 2, 3, 4, 5, 6, 7], [2, 1, 4, 7, 6, 5, 0, 3]),
      ([2, 1, 4, 7, 6, 5, 0, 3], [4, 1, 6, 3, 0, 5, 2, 7]),
      ([4, 1, 6, 3, 0, 5, 2, 7], [6, 1, 0, 7, 2, 5, 4, 3]),
      ([6, 1, 0, 7, 2, 5, 4, 3], [0, 1, 2, 3, 4, 5, 6, 7])}"
  shows "view w' (TFBIG_MIX8 w a b c e p) = tf_permute (tf_mix [a, b, c, e] (view w p))"
  using assms(1)
proof (rule length_8E)
  fix p0 p1 p2 p3 p4 p5 p6 p7
  assume "p = [p0, p1, p2, p3, p4, p5, p6, p7]"
  with assms show ?thesis
    by (auto simp: view_def TFBIG_MIX8_def TFBIG_MIX_def tf_permute_def tf_mix_def tf_pi_def Let_def
        upt_lists SPH_ROTL64_eq_word_rotl)
qed

lemma view_id: "length p = 8 \<Longrightarrow> view [0, 1, 2, 3, 4, 5, 6, 7] p = p"
  using list8_conv [of p] by (simp add: view_def)

lemma four_mixes:
  assumes "length p = 8" "\<forall>x\<in>{a0, a1, a2, a3, b0, b1, b2, b3, c0, c1, c2, c3, e0, e1, e2, e3}. x < 64"
  shows "TFBIG_MIX8 [6, 1, 0, 7, 2, 5, 4, 3] e0 e1 e2 e3
     (TFBIG_MIX8 [4, 1, 6, 3, 0, 5, 2, 7] c0 c1 c2 c3
       (TFBIG_MIX8 [2, 1, 4, 7, 6, 5, 0, 3] b0 b1 b2 b3
         (TFBIG_MIX8 [0, 1, 2, 3, 4, 5, 6, 7] a0 a1 a2 a3 p))) =
    tf_permute (tf_mix [e0, e1, e2, e3] (tf_permute (tf_mix [c0, c1, c2, c3]
      (tf_permute (tf_mix [b0, b1, b2, b3] (tf_permute (tf_mix [a0, a1, a2, a3] p)))))))"
  (is "?lhs = _")
proof -
  have "?lhs = view [0, 1, 2, 3, 4, 5, 6, 7] ?lhs"
    using assms(1) by (simp add: view_id del: One_nat_def)
  also have "\<dots> = tf_permute (tf_mix [e0, e1, e2, e3] (tf_permute (tf_mix [c0, c1, c2, c3]
      (tf_permute (tf_mix [b0, b1, b2, b3] (tf_permute (tf_mix [a0, a1, a2, a3]
        (view [0, 1, 2, 3, 4, 5, 6, 7] p))))))))"
    using assms by (simp add: TFBIG_MIX8_view del: One_nat_def)
  finally show ?thesis using assms(1) by (simp add: view_id del: One_nat_def)
qed

definition tf_four :: "u64 list \<Rightarrow> u64 list \<Rightarrow> u64 list \<Rightarrow> nat \<Rightarrow> u64 list" where
  "tf_four k t p s = (if even s then TFBIG_4e k t s p else TFBIG_4o k t s p)"

lemma tf_four_rounds:
  assumes "s < 18"
  shows "tf_four k t p s = foldl (tf_round k t) p [4 * s, 4 * s + 1, 4 * s + 2, 4 * s + 3]"
proof -
  have m: "(4 * s + i) mod 4 = i" "(4 * s + i) mod 8 = (if even s then i else 4 + i)" if "i < 4" for i
  proof -
    show "(4 * s + i) mod 4 = i" using that by simp
    have "4 * s + i = 8 * (s div 2) + (if even s then i else 4 + i)"
    proof (cases "even s")
      case True
      then have "2 * (s div 2) = s" by simp
      with True show ?thesis by simp
    next
      case False
      then have "2 * (s div 2) + 1 = s" by simp
      with False show ?thesis by (simp only: if_False)
    qed
    with that show "(4 * s + i) mod 8 = (if even s then i else 4 + i)" by simp
  qed
  show ?thesis
    using assms m [of 0] m [of 1] m [of 2] m [of 3]
    by (simp add: tf_four_def TFBIG_4e_def TFBIG_4o_def Let_def four_mixes TFBIG_ADDKEY_spec
        tf_round_def tf_R_def del: One_nat_def)
qed

lemma tf_rounds: "foldl (tf_round k t) p [0..<72] = foldl (tf_four k t) p [0..<18]"
proof -
  have "[0..<72] = concat (map (\<lambda>s. [4 * s, 4 * s + 1, 4 * s + 2, 4 * s + 3]) [0..<18])"
    by (simp add: upt_conv_Cons)
  then show ?thesis
    by (simp only: foldl_concat_rounds) (intro foldl_cong refl, simp only: tf_four_rounds set_upt atLeastLessThan_iff)
qed

lemma UBI_BIG_rounds:
  "UBI_BIG h bcount buf etype extra =
    (let m = ubi_m buf; (k, t) = TFBIG_KINIT h (ubi_t0 bcount extra) (ubi_t1 bcount etype)
     in ubi_out m (TFBIG_ADDKEY k t 18 (foldl (tf_four k t) m [0..<18])))"
  by (simp add: UBI_BIG_def Let_def tf_four_def upt_lists split: prod.splits)

lemma TFBIG_KINIT_spec:
  assumes "length h = 8"
  shows "TFBIG_KINIT h t0 t1 = (h @ [foldr (XOR) h 0x1BD11BDAA9FC1A22], [t0, t1, t0 XOR t1])"
  using assms
  by (elim length_8E) (simp add: TFBIG_KINIT_def ac_simps)

lemma ubi_m_words: "ubi_m b = ubi_words b"
  by (simp add: ubi_m_def ubi_words_def upt_lists)

lemma length_ubi_words [simp]: "length (ubi_words b) = 8"
  by (simp add: ubi_words_def)

lemma ubi_out_map2: "length m = 8 \<Longrightarrow> length p = 8 \<Longrightarrow> ubi_out m p = map2 (XOR) m p"
  by (elim length_8E) (simp add: ubi_out_def)

lemma UBI_BIG_spec:
  assumes "length h = 8" "ubi_t0 bcount extra = lo_word T" "ubi_t1 bcount etype = hi_word T"
  shows "UBI_BIG h bcount buf etype extra = ubi_block h T buf"
  using assms
  by (simp add: UBI_BIG_rounds TFBIG_KINIT_spec ubi_block_def threefish512_def Let_def TFBIG_ADDKEY_spec
      ubi_m_words ubi_out_map2 tf_rounds)

lemma length_ubi_block [simp]: "length (ubi_block G T b) = 8"
  by (simp add: ubi_block_def threefish512_def Let_def)

text \<open>
  The code's tweak words are the low and the high half of the 128-bit tweak, for positions
  below \<open>2 ^ 64\<close>.
\<close>

lemma ubi_tweak_words:
  assumes pos: "64 * b + extra < 2 ^ 64" and etype: "etype = 2 * type + 128 * of_bool f + 256 * of_bool l"
  shows "ubi_t0 (of_nat b) extra = lo_word (ubi_tweak (64 * b + extra) type f l)"
    and "ubi_t1 (of_nat b) etype = hi_word (ubi_tweak (64 * b + extra) type f l)"
proof -
  let ?p = "64 * b + extra"
  let ?T = "ubi_tweak ?p type f l"
  define q where "q = (2 * type + 128 * of_bool f + 256 * of_bool l) * 2 ^ 55"
  have T: "?T = ?p + q * 2 ^ 64"
    by (simp add: ubi_tweak_def q_def algebra_simps)
  have "(of_nat (q * 2 ^ 64) :: u64) = 0"
    by (simp add: word_of_nat_eq_0_iff del: of_nat_mult)
  then have "lo_word ?T = (of_nat ?p :: u64)"
    unfolding T lo_word_def by (simp only: of_nat_add add_0_right)
  moreover have "push_bit 6 (of_nat b :: u64) = of_nat (64 * b)"
    by (simp add: push_bit_eq_mult)
  ultimately show "ubi_t0 (of_nat b) extra = lo_word ?T"
    by (simp add: ubi_t0_def)
  have "?T div 2 ^ 64 = q"
    unfolding T using pos by simp
  then have hi: "hi_word ?T = (of_nat q :: u64)"
    by (simp add: hi_word_def)
  have "unat (of_nat b :: u64) div 2 ^ 58 = 0"
    using pos by (simp add: unat_of_nat)
  then have "drop_bit 58 (of_nat b :: u64) = 0"
    by (simp add: drop_bit_eq_div word_arith_nat_div)
  moreover have "push_bit 55 (of_nat etype :: u64) = of_nat q"
    by (simp add: push_bit_eq_mult q_def etype)
  ultimately show "ubi_t1 (of_nat b) etype = hi_word ?T"
    by (simp add: ubi_t1_def hi)
qed

section \<open>Hashing implements the specification\<close>

text \<open>The context after \<open>k\<close> absorbed blocks.\<close>

definition skein_at :: "u64 list \<Rightarrow> nat \<Rightarrow> sph_skein_big_context \<Rightarrow> bool" where
  "skein_at H k c \<longleftrightarrow> sk_h c = H \<and> length H = 8 \<and> sk_bcount c = of_nat k"

lemma skein_at_chain [simp]: "skein_at H k (skein.chain c) = skein_at H k c"
  by (simp add: skein_at_def skein.chain_def skein_put_def)

lemma first_flag_of_nat: "k < 2 ^ 58 \<Longrightarrow> first_flag (of_nat k) = 128 * of_bool (k = 0)"
  by (auto simp: first_flag_def word_of_nat_eq_0_iff dest: dvd_imp_le)

lemma skein_at_absorb:
  assumes "skein_at H k c" "64 * (k + 1) < len" "len < 2 ^ 64"
  shows "skein_at (ubi_block H (ubi_tweak (64 * (k + 1)) 48 (k = 0) False) b) (Suc k) (skein_absorb b c)"
proof -
  have "UBI_BIG H (of_nat (k + 1)) b (96 + first_flag (of_nat k)) 0 =
      ubi_block H (ubi_tweak (64 * (k + 1) + 0) 48 (k = 0) False) b"
    using assms
    by (intro UBI_BIG_spec ubi_tweak_words) (simp_all add: skein_at_def first_flag_of_nat)
  then show ?thesis
    using assms(1) by (simp add: skein_at_def skein_absorb_def add.commute)
qed

text \<open>The chaining value over full blocks none of which is the last one.\<close>

fun ubi_full :: "nat \<Rightarrow> nat \<Rightarrow> nat \<Rightarrow> u64 list \<Rightarrow> bytes list \<Rightarrow> u64 list" where
  "ubi_full type len i G [] = G"
| "ubi_full type len i G (b # bs) =
    ubi_full type len (i + 1) (ubi_block G (ubi_tweak (min len (64 * (i + 1))) type (i = 0) False) b) bs"

lemma ubi_blocks_append:
  "ys \<noteq> [] \<Longrightarrow> ubi_blocks type len i G (xs @ ys) =
    ubi_blocks type len (i + length xs) (ubi_full type len i G xs) ys"
  by (induction xs arbitrary: i G) simp_all

lemma skein_at_absorb_all:
  "skein_at H k c \<Longrightarrow> 64 * (k + length blks) < len \<Longrightarrow> len < 2 ^ 64 \<Longrightarrow>
   skein_at (ubi_full 48 len k H blks) (k + length blks) (skein.absorb_all c blks)"
proof (induction blks arbitrary: H k c)
  case Nil
  then show ?case by simp
next
  case (Cons b blks)
  have "min len (64 * (k + 1)) = 64 * (k + 1)" using Cons.prems by simp
  with Cons.IH [OF skein_at_absorb [OF Cons.prems(1), of len b]] Cons.prems
  show ?case by simp
qed

lemma memcpy_words:
  fixes buf :: bytes
  assumes "length buf = 64" "length h = 8"
  shows "memcpy (memcpy (memcpy (memcpy (memcpy (memcpy (memcpy (memcpy buf 0 (sph_enc64le (h ! 0)))
      8 (sph_enc64le (h ! 1))) 16 (sph_enc64le (h ! 2))) 24 (sph_enc64le (h ! 3)))
      32 (sph_enc64le (h ! 4))) 40 (sph_enc64le (h ! 5))) 48 (sph_enc64le (h ! 6)))
      56 (sph_enc64le (h ! 7)) = concat (map sph_enc64le h)"
  using assms(2)
  by (elim length_8E) (simp add: memcpy_def assms(1))

lemma skein_big_close_bytes:
  assumes c: "skein_at H k c" and p: "sk_ptr c \<le> 64" "length (sk_buf c) = 64"
    and len: "len = 64 * k + sk_ptr c" "len < 2 ^ 64"
  obtains c' where "length (sk_buf c') = 64"
    "skein_big_close c 0 0 out_len = (c', take out_len (concat (map sph_enc64le
      (ubi_block (ubi_block H (ubi_tweak len 48 (k = 0) True) (skein.pending c @ replicate (64 - sk_ptr c) 0))
        (ubi_tweak 8 63 True True) (replicate 64 0)))))"
proof -
  let ?b = "skein.pending c @ replicate (64 - sk_ptr c) 0"
  have b: "memset (sk_buf c) (sk_ptr c) 0 (64 - sk_ptr c) = ?b"
    using p by (simp add: memset_def memcpy_def skein.pending_def)
  have lb: "length ?b = 64" using p by (simp add: skein.pending_def)
  have z: "memset ?b 0 0 64 = replicate 64 0"
    using lb by (simp add: memset_def memcpy_def)
  have one: "UBI_BIG H (of_nat k) ?b (352 + first_flag (of_nat k)) (sk_ptr c) =
      ubi_block H (ubi_tweak len 48 (k = 0) True) ?b"
    unfolding len(1) using c len
    by (intro UBI_BIG_spec ubi_tweak_words) (simp_all add: skein_at_def first_flag_of_nat)
  have two: "UBI_BIG (ubi_block G T d) 0 (replicate 64 0) 510 8 =
      ubi_block (ubi_block G T d) (ubi_tweak 8 63 True True) (replicate 64 0)" for G T d
    using ubi_tweak_words [of 0 8 510 63 True True] by (intro UBI_BIG_spec) simp_all
  let ?h = "ubi_block (ubi_block H (ubi_tweak len 48 (k = 0) True) ?b)
    (ubi_tweak 8 63 True True) (replicate 64 0)"
  have eq: "skein_big_close c 0 0 out_len =
      (c\<lparr>sk_buf := concat (map sph_enc64le ?h)\<rparr>, take out_len (concat (map sph_enc64le ?h)))"
    using c memcpy_words [of "replicate 64 0" ?h]
    by (simp add: skein_big_close_def Let_def b z one two skein_at_def)
  have "length (concat (map sph_enc64le ?h)) = 64"
    by (simp add: length_concat comp_def sum_list_triv)
  then show ?thesis by (intro that [OF _ eq]) simp
qed

text \<open>A non-empty message is a number of full blocks and a last part of 1 to 64 bytes.\<close>

lemma last_part:
  fixes msg :: bytes
  obtains blks r where "msg = concat blks @ r" "\<And>b. b \<in> set blks \<Longrightarrow> length b = 64" "length r \<le> 64"
    "blks \<noteq> [] \<Longrightarrow> r \<noteq> []" "r = [] \<longleftrightarrow> msg = []"
proof -
  obtain bs s where bs: "msg = concat bs @ s" "\<And>b. b \<in> set bs \<Longrightarrow> length b = 64" "length s = length msg mod 64"
    by (rule blocks_exist [of 64 msg]) (simp, blast)
  show ?thesis
  proof (cases "s = [] \<and> bs \<noteq> []")
    case True
    then have "bs = butlast bs @ [last bs]" by simp
    then have "msg = concat (butlast bs) @ last bs"
      using bs(1) True by (metis append.right_neutral concat.simps concat_append)
    moreover have "length (last bs) = 64" using bs(2) True by simp
    moreover have "length b = 64" if "b \<in> set (butlast bs)" for b
      using that bs(2) in_set_butlastD by metis
    ultimately show ?thesis by (intro that [of "butlast bs" "last bs"]) auto
  next
    case False
    have "length s \<le> 64" using bs(3) by simp
    moreover have "s = [] \<longleftrightarrow> msg = []" using False bs(1) by auto
    ultimately show ?thesis using bs False by (intro that [of bs s]) blast+
  qed
qed

lemma ubi_pad_last:
  assumes "length r \<le> 64" "\<And>b. b \<in> set blks \<Longrightarrow> length b = 64" "r = [] \<longleftrightarrow> concat blks @ r = []"
  shows "ubi_pad (concat blks @ r) = concat blks @ r @ replicate (64 - length r) 0"
proof -
  have "length (concat blks) = length blks * 64" using assms(2) by (rule concat_length_eq)
  then have "length (concat blks @ r) mod 64 = length r mod 64" by simp
  then show ?thesis
    using assms by (cases "length r = 64") (auto simp: ubi_pad_def)
qed

lemma skein_hash_correct:
  assumes buf: "length (sk_buf sc) = 64" and iv: "length iv = 8" and len: "length (concat pieces) < 2 ^ 64"
  obtains c' where "length (sk_buf c') = 64"
    "skein_big_close (foldl skein_big_core (skein_big_init sc iv) pieces) 0 0 out_len =
      (c', skein512_spec iv out_len (concat pieces))"
proof -
  let ?msg = "concat pieces" and ?s = "skein_big_init sc iv"
  let ?c = "skein_big_core ?s ?msg"
  have s: "skein.lwf ?s" "sk_ptr ?s = 0" "skein_at iv 0 ?s" "skein.pending ?s = []"
    using buf iv by (simp_all add: skein_big_init_def skein.lwf_def skein_at_def skein.pending_def)
  have fits: "skein_fits ?s (sk_ptr ?s + length ?msg)"
    using len by (simp add: skein_fits_def skein_big_init_def)
  have c: "foldl skein_big_core ?s pieces = ?c"
    using skein.lazy_concat [OF s(1) fits] by simp
  obtain blks r where msg: "?msg = concat blks @ r" and blks: "\<And>b. b \<in> set blks \<Longrightarrow> length b = 64"
    and r: "length r \<le> 64" "blks \<noteq> [] \<Longrightarrow> r \<noteq> []" "r = [] \<longleftrightarrow> ?msg = []"
    by (rule last_part [of ?msg]) blast
  let ?k = "length blks" and ?len = "length ?msg"
  have "skein.pending ?s @ ?msg = concat blks @ r" using s(4) msg by simp
  note blocks = skein.lazy_blocks [OF s(1) this fits blks r(1,2)]
  have len_eq: "?len = 64 * ?k + length r"
    unfolding msg using concat_length_eq [of blks 64] blks by simp
  let ?G = "ubi_full 48 ?len 0 iv blks"
  have "skein_at ?G ?k ?c"
  proof (cases "blks = []")
    case True
    then show ?thesis using blocks s(3) skein_at_chain [of iv 0 ?s] skein_at_chain [of iv 0 ?c] by simp
  next
    case False
    then have "64 * (0 + ?k) < ?len" using r(2) len_eq by simp
    from skein_at_absorb_all [OF _ this len, of iv "skein.chain ?s"] s(3)
    show ?thesis using blocks skein_at_chain [of _ _ ?c] by simp
  qed
  then obtain c' where c': "length (sk_buf c') = 64"
    "skein_big_close ?c 0 0 out_len = (c', take out_len (concat (map sph_enc64le
      (ubi_block (ubi_block ?G (ubi_tweak ?len 48 (?k = 0) True) (r @ replicate (64 - length r) 0))
        (ubi_tweak 8 63 True True) (replicate 64 0)))))"
    using blocks r(1) len_eq len by (elim skein_big_close_bytes [where out_len = out_len and len = ?len]) simp_all
  have padded: "chunks 64 (ubi_pad ?msg) = blks @ [r @ replicate (64 - length r) 0]"
  proof -
    have "r = [] \<longleftrightarrow> concat blks @ r = []" using r(3) unfolding msg .
    then have pad: "ubi_pad (concat blks @ r) = concat blks @ r @ replicate (64 - length r) 0"
      using r(1) blks by (intro ubi_pad_last)
    have one: "chunks 64 (r @ replicate (64 - length r) 0) = [r @ replicate (64 - length r) 0]"
      using chunks_append [of 64 "r @ replicate (64 - length r) 0" "[]"] r(1) by simp
    show ?thesis
      unfolding msg pad using chunks_concat [of 64 blks "r @ replicate (64 - length r) 0"] blks one by simp
  qed
  have "ubi iv ?msg 48 = ubi_block ?G (ubi_tweak ?len 48 (?k = 0) True) (r @ replicate (64 - length r) 0)"
    using len_eq r(1) by (simp add: ubi_def padded ubi_blocks_append min_def)
  moreover have "ubi G (replicate 8 0) 63 = ubi_block G (ubi_tweak 8 63 True True) (replicate 64 0)" for G
  proof -
    have "ubi_pad (replicate 8 0) = replicate 64 0 @ []"
      by (simp add: ubi_pad_def flip: replicate_add)
    then have "chunks 64 (ubi_pad (replicate 8 0)) = [replicate 64 0]"
      using chunks_append [of 64 "replicate 64 0" "[]"] by simp
    then show ?thesis by (simp add: ubi_def)
  qed
  ultimately have "skein_big_close ?c 0 0 out_len = (c', skein512_spec iv out_len ?msg)"
    using c'(2) by (simp add: skein512_spec_def)
  with c'(1) c that show ?thesis by simp
qed

section \<open>The small-footprint form\<close>

lemma ubi_extend_nth:
  assumes "length h = 27" "i < 27"
  shows "ubi_extend h ! i = h ! (i mod 9)"
proof -
  have "\<forall>i<27. ubi_extend h ! i = h ! (i mod 9)"
    using assms(1) by (simp add: ubi_extend_def all_less_numeral) (simp add: numeral_2_eq_2)
  with assms(2) show ?thesis by simp
qed

lemma length_ubi_extend [simp]: "length (ubi_extend h) = length h"
  by (simp add: ubi_extend_def)

lemma TFBIG_ADDKEY_small_eq:
  assumes "s < 19" "\<And>i. i < 27 \<Longrightarrow> g ! i = k ! (i mod 9)" "tt0 = t ! (s mod 3)" "tt1 = t ! ((s + 1) mod 3)"
  shows "TFBIG_ADDKEY_small g s tt0 tt1 p = TFBIG_ADDKEY k t s p"
proof -
  have "g ! (s + i) = k ! ((s + i) mod 9)" if "i < 8" for i using assms(1,2) that by simp
  from this [of 0] this [of 1] this [of 2] this [of 3] this [of 4] this [of 5] this [of 6] this [of 7]
  show ?thesis
    using assms
    by (simp add: TFBIG_ADDKEY_small_def TFBIG_ADDKEY_def SKBI_def SKBT_def M9_mod M3_mod)
qed

lemma ubi_small_passes:
  assumes g: "\<And>i. i < 27 \<Longrightarrow> g ! i = k ! (i mod 9)" and n: "n \<le> 9"
  shows "foldl (ubi_small_pass g) (p, t0, t1, t2) [0..<n] =
    (foldl (tf_four k [t0, t1, t2]) p [0..<2 * n],
     [t0, t1, t2] ! ((2 * n) mod 3), [t0, t1, t2] ! ((2 * n + 1) mod 3), [t0, t1, t2] ! ((2 * n + 2) mod 3))"
  using n
proof (induction n)
  case 0
  then show ?case by simp
next
  case (Suc n)
  let ?t = "[t0, t1, t2]"
  have e: "TFBIG_4e_small g (?t ! ((2 * n) mod 3)) (?t ! ((2 * n + 1) mod 3)) (2 * n) q = tf_four k ?t q (2 * n)"
    for q
    using TFBIG_ADDKEY_small_eq [OF _ g refl refl, of "2 * n" ?t q] Suc.prems
    by (simp add: tf_four_def TFBIG_4e_def TFBIG_4e_small_def)
  have o: "TFBIG_4o_small g (?t ! ((2 * n + 1) mod 3)) (?t ! ((2 * n + 2) mod 3)) (2 * n + 1) q =
      tf_four k ?t q (2 * n + 1)" for q
    using TFBIG_ADDKEY_small_eq [OF _ g refl refl, of "2 * n + 1" ?t q] Suc.prems
    by (simp add: tf_four_def TFBIG_4o_def TFBIG_4o_small_def)
  have m: "(2 * Suc n) mod 3 = (2 * n + 2) mod 3" "(2 * Suc n + 1) mod 3 = (2 * n) mod 3"
    "(2 * Suc n + 2) mod 3 = (2 * n + 1) mod 3"
    by presburger+
  have step: "ubi_small_pass g (q, ?t ! ((2 * n) mod 3), ?t ! ((2 * n + 1) mod 3), ?t ! ((2 * n + 2) mod 3)) n =
      (tf_four k ?t (tf_four k ?t q (2 * n)) (2 * n + 1),
       ?t ! ((2 * n + 2) mod 3), ?t ! ((2 * n) mod 3), ?t ! ((2 * n + 1) mod 3))" for q
    by (simp only: ubi_small_pass_def prod.case Let_def e o)
  have up: "[0..<Suc n] = [0..<n] @ [n]" "[0..<2 * Suc n] = [0..<2 * n] @ [2 * n, 2 * n + 1]" by simp_all
  have IH: "foldl (ubi_small_pass g) (p, t0, t1, t2) [0..<n] =
    (foldl (tf_four k ?t) p [0..<2 * n], ?t ! ((2 * n) mod 3), ?t ! ((2 * n + 1) mod 3), ?t ! ((2 * n + 2) mod 3))"
    using Suc by simp
  show ?case by (simp only: up foldl_append foldl.simps IH step m)
qed

lemma UBI_BIG_small_eq:
  assumes "length h = 27"
  shows "take 8 (UBI_BIG_small h bcount buf etype extra) = UBI_BIG (take 8 h) bcount buf etype extra"
proof -
  obtain k t where kt: "TFBIG_KINIT (take 8 h) (ubi_t0 bcount extra) (ubi_t1 bcount etype) = (k, t)"
    by (cases "TFBIG_KINIT (take 8 h) (ubi_t0 bcount extra) (ubi_t1 bcount etype)") auto
  define k8 where "k8 = ((h ! 0 XOR h ! 1) XOR (h ! 2 XOR h ! 3)) XOR ((h ! 4 XOR h ! 5) XOR (h ! 6 XOR h ! 7))
    XOR 0x1BD11BDAA9FC1A22"
  have k: "k = [h ! 0, h ! 1, h ! 2, h ! 3, h ! 4, h ! 5, h ! 6, h ! 7, k8]"
    and t: "t = [ubi_t0 bcount extra, ubi_t1 bcount etype, ubi_t0 bcount extra XOR ubi_t1 bcount etype]"
    using kt by (simp_all add: TFBIG_KINIT_def Let_def k8_def)
  have k9: "\<forall>j<9. (h[8 := k8]) ! j = k ! j"
    using assms by (simp add: k all_less_numeral)
  have g: "ubi_extend (h[8 := k8]) ! i = k ! (i mod 9)" if "i < 27" for i
    using ubi_extend_nth [of "h[8 := k8]" i] that assms k9 by simp
  have "length (ubi_out m p) = 8" for m p
    by (simp add: ubi_out_def)
  then show ?thesis
    using ubi_small_passes [OF g, of 9 "ubi_m buf" "ubi_t0 bcount extra" "ubi_t1 bcount etype"
        "ubi_t0 bcount extra XOR ubi_t1 bcount etype"]
      TFBIG_ADDKEY_small_eq [OF _ g refl refl, of 18 t]
    unfolding UBI_BIG_small_def Let_def k8_def [symmetric]
    by (simp add: UBI_BIG_rounds kt t Let_def)
qed


section \<open>The initial values\<close>

text \<open>
  The tables \<^verbatim>\<open>IV512\<close> and \<^verbatim>\<open>IV256\<close> of the code are the UBI images of the configuration blocks, by evaluation of the 72 rounds. The numerals are cut to 64 bits
  after every step, so that they stay short.
\<close>

definition tf_out :: "nat \<Rightarrow> u64 \<Rightarrow> u64 \<Rightarrow> u64" where
  "tf_out r x y = SPH_T64 (SPH_ROTL64 y r XOR (x + y))"

lemma permute_mix:
  assumes "r0 < 64" "r1 < 64" "r2 < 64" "r3 < 64"
  shows "tf_permute (tf_mix [r0, r1, r2, r3] [a, b, c, d, e, f, g, h]) =
    [SPH_T64 (c + d), tf_out r0 a b, SPH_T64 (e + f), tf_out r3 g h, SPH_T64 (g + h), tf_out r2 e f, SPH_T64 (a + b), tf_out r1 c d]"
  using assms by (simp add: tf_permute_def tf_mix_def tf_pi_def tf_out_def SPH_ROTL64_eq_word_rotl upt_lists)

lemma addkey_list:
  "tf_addkey k t s [a, b, c, d, e, f, g, h] =
    [a + k ! (s mod 9), b + k ! ((s + 1) mod 9), c + k ! ((s + 2) mod 9), d + k ! ((s + 3) mod 9), e + k ! ((s + 4) mod 9),
     f + k ! ((s + 5) mod 9) + t ! (s mod 3), g + k ! ((s + 6) mod 9) + t ! ((s + 1) mod 3), h + k ! ((s + 7) mod 9) + of_nat s]"
  by (simp add: tf_addkey_def upt_lists)

lemmas threefish_eval = tf_round_def permute_mix addkey_list tf_R_def upt_conv_Cons tf_out_def SPH_ROTL64_def SPH_T64_def

lemma dec64le_zeros: "8 \<le> m \<Longrightarrow> sph_dec64le (replicate m 0) = 0"
  by (simp add: sph_dec64le_def)

lemma config_words: "ubi_words (skein_config n @ replicate 32 0) = [0x133414853, of_nat n, 0, 0, 0, 0, 0, 0]"
proof -
  define A :: bytes where "A = [0x53, 0x48, 0x41, 0x33, 1, 0, 0, 0]"
  define B :: bytes where "B = sph_enc64le (of_nat n)"
  have len: "length A = 8" "length B = 8" by (simp_all add: A_def B_def sph_enc64le_def)
  have c: "skein_config n @ replicate 32 0 = A @ B @ replicate 48 0"
    by (simp add: skein_config_def A_def B_def replicate_add [symmetric])
  have "sph_dec64le (A @ xs) = 0x133414853" for xs by (simp add: A_def sph_dec64le_def)
  moreover have "sph_dec64le (B @ xs) = of_nat n" for xs by (simp add: B_def)
  ultimately show ?thesis by (simp add: ubi_words_def upt_lists c len dec64le_zeros)
qed

lemma config_image:
  "ubi (replicate 8 0) (skein_config n) 4 =
    map2 (XOR) [0x133414853, of_nat n, 0, 0, 0, 0, 0, 0]
      (threefish512 [0, 0, 0, 0, 0, 0, 0, 0] (32 + 196 * 2 ^ 120) [0x133414853, of_nat n, 0, 0, 0, 0, 0, 0])"
proof -
  have l: "length (skein_config n) = 32" by (simp add: skein_config_def sph_enc64le_def)
  then have "ubi_pad (skein_config n) = skein_config n @ replicate 32 0" by (auto simp: ubi_pad_def)
  then have "chunks 64 (ubi_pad (skein_config n)) = [skein_config n @ replicate 32 0]"
    using l chunks_append [of 64 "skein_config n @ replicate 32 0" "[]"] by simp
  moreover have "ubi_tweak 32 4 True True = 32 + 196 * 2 ^ 120" by (simp add: ubi_tweak_def)
  moreover have "replicate 8 (0 :: u64) = [0, 0, 0, 0, 0, 0, 0, 0]" by (simp add: eval_nat_numeral)
  ultimately show ?thesis by (simp add: ubi_def l ubi_block_def config_words)
qed

text \<open>The key and the tweak words of the configuration block.\<close>

definition config_round :: "u64 list \<Rightarrow> nat \<Rightarrow> u64 list" where
  "config_round = tf_round [0, 0, 0, 0, 0, 0, 0, 0, 0x1BD11BDAA9FC1A22] [32, 0xC400000000000000, 0xC400000000000020]"

lemma config_rounds:
  assumes n: "of_nat n = w"
    and v: "foldl config_round [0x133414853, w, 0, 0, 0, 0, 0, 0] [0..<24] = v" "foldl config_round v [24..<48] = v'"
    "foldl config_round v' [48..<72] = v''"
  shows "ubi (replicate 8 0) (skein_config n) 4 = map2 (XOR) [0x133414853, w, 0, 0, 0, 0, 0, 0]
    (tf_addkey [0, 0, 0, 0, 0, 0, 0, 0, 0x1BD11BDAA9FC1A22] [32, 0xC400000000000000, 0xC400000000000020] 18 v'')"
proof -
  have tweak: "lo_word (32 + 196 * 2 ^ 120) = (32 :: u64)" "hi_word (32 + 196 * 2 ^ 120) = (0xC400000000000000 :: u64)"
    by (simp_all add: lo_word_def hi_word_def)
  have "[0..<72] = [0..<24] @ [24..<48] @ [48..<72]" using upt_add_eq_append [of 0 24 48] upt_add_eq_append [of 24 48 24] by simp
  then have "foldl config_round [0x133414853, w, 0, 0, 0, 0, 0, 0] [0..<72] = v''" using v by (simp only: foldl_append)
  then show ?thesis unfolding config_image n by (simp only: threefish512_def Let_def tweak config_round_def) simp
qed

lemmas config_eval = config_round_def threefish_eval

lemma config512_rounds:
  "foldl config_round [0x133414853, 512, 0, 0, 0, 0, 0, 0] [0..<24] =
    [0xA843C57F26A2E4D0, 0xF2BDE4163A2A8762, 0x296AD751D7008F36, 0xCF004F8C4CFD688D,
     0x8C0F8F6B69C183CC, 0x42A76A1E440D7C09, 0x7671CEA36514E87E, 0x19A6E27482569DAF]"
  "foldl config_round
    [0xA843C57F26A2E4D0, 0xF2BDE4163A2A8762, 0x296AD751D7008F36, 0xCF004F8C4CFD688D,
     0x8C0F8F6B69C183CC, 0x42A76A1E440D7C09, 0x7671CEA36514E87E, 0x19A6E27482569DAF] [24..<48] =
    [0x9420CDDDBF5503C9, 0xD59934A3661F00E6, 0xF3E91D8B4A1438B8, 0x83497D2AFD324C80,
     0x086E7F925E75CA5A, 0xADF9528B6597A004, 0x000FFEA2AB339206, 0x1E0BB9EF52E0C5C3]"
  "foldl config_round
    [0x9420CDDDBF5503C9, 0xD59934A3661F00E6, 0xF3E91D8B4A1438B8, 0x83497D2AFD324C80,
     0x086E7F925E75CA5A, 0xADF9528B6597A004, 0x000FFEA2AB339206, 0x1E0BB9EF52E0C5C3] [48..<72] =
    [0x4903ADFE47DD199D, 0x0D95DE399746DD03, 0x8FD1934127C79BCE, 0x9A255629FF352CB1,
     0x5DB62599DF6CA7B0, 0xEABE394CA9D5C3D4, 0xD51112C71A75B523, 0xAE18A40B660FCC21]"
  subgoal by (simp add: config_eval del: SPH_T64_id)
  subgoal by (simp add: config_eval del: SPH_T64_id)
  subgoal by (simp add: config_eval del: SPH_T64_id)
  done

lemma IV512_config: "ubi (replicate 8 0) (skein_config 512) 4 = IV512"
  by (subst config_rounds [OF of_nat_numeral config512_rounds]) (simp add: addkey_list IV512_def)

lemma config256_rounds:
  "foldl config_round [0x133414853, 256, 0, 0, 0, 0, 0, 0] [0..<24] =
    [0xF94AA93EAEF7AC96, 0x4FBAC5BC55546DA1, 0x046DFE7B0F40053E, 0xAC057C89E7907D7A,
     0x7564CDF93DD3760F, 0x4FA6E79CBE618872, 0xDBA96E92790CD2A5, 0x9594A75CC3F82741]"
  "foldl config_round
    [0xF94AA93EAEF7AC96, 0x4FBAC5BC55546DA1, 0x046DFE7B0F40053E, 0xAC057C89E7907D7A,
     0x7564CDF93DD3760F, 0x4FA6E79CBE618872, 0xDBA96E92790CD2A5, 0x9594A75CC3F82741] [24..<48] =
    [0x5BF6F635D18E8D49, 0x503D721B0195C5E6, 0xE1A029356AE2985C, 0x2FA211429609F4B5,
     0x0482BD32A5538208, 0x1F7EA04932996323, 0x31AD5F92FA506875, 0x781A74D506D3221E]"
  "foldl config_round
    [0x5BF6F635D18E8D49, 0x503D721B0195C5E6, 0xE1A029356AE2985C, 0x2FA211429609F4B5,
     0x0482BD32A5538208, 0x1F7EA04932996323, 0x31AD5F92FA506875, 0x781A74D506D3221E] [48..<72] =
    [0xCCD044A01C9A7640, 0xE83590301A79A8EB, 0x55AEA0614F816E6F, 0x2A2767A4AE9B94DB,
     0xEC06025E74DD7683, 0xE7A436CDC4746231, 0xFF6FBAF9393AD185, 0x3EEDBA1833EDFC01]"
  subgoal by (simp add: config_eval del: SPH_T64_id)
  subgoal by (simp add: config_eval del: SPH_T64_id)
  subgoal by (simp add: config_eval del: SPH_T64_id)
  done

lemma IV256_config: "ubi (replicate 8 0) (skein_config 256) 4 = IV256"
  by (subst config_rounds [OF of_nat_numeral config256_rounds]) (simp add: addkey_list IV256_def)

section \<open>Properties\<close>

lemma length_IV: "length IV224 = 8" "length IV256 = 8" "length IV384 = 8" "length IV512 = 8"
  by (simp_all add: IV224_def IV256_def IV384_def IV512_def)

text \<open>
  C31: A session of \<^verbatim>\<open>sph_skein512_init\<close>, any number of \<^verbatim>\<open>sph_skein512\<close> updates and
  \<^verbatim>\<open>sph_skein512_close\<close> outputs Skein-512-512 of the concatenated input (UBI over the
  configuration block, whose image the table \<^verbatim>\<open>IV512\<close> holds, UBI over the message with position, first and final flags in the tweak, then the output transform), for messages
  shorter than \<open>2 ^ 64\<close> bytes, and leaves a context that is initialised again.
\<close>

theorem sph_skein512_correct:
  assumes "length (sk_buf sc) = 64" "length (concat pieces) < 2 ^ 64"
  shows "\<exists>c'. length (sk_buf c') = 64 \<and>
    sph_skein512_close (foldl sph_skein512 (sph_skein512_init sc) pieces) =
      (sph_skein512_init c', skein512_hash 512 (concat pieces))"
  unfolding skein512_hash_def IV512_config
  by (rule skein_hash_correct [OF assms(1) length_IV(4) assms(2), of 64])
    (auto simp: sph_skein512_close_def sph_skein512_addbits_and_close_def sph_skein512_init_def
      sph_skein512_def [abs_def])

theorem sph_skein512_correct_witness:
  "let sc = \<lparr>sk_buf = replicate 64 7, sk_ptr = 5, sk_h = [], sk_bcount = 9\<rparr> in
    \<exists>c'. length (sk_buf c') = 64 \<and>
      sph_skein512_close (foldl sph_skein512 (sph_skein512_init sc) [replicate 64 1, [2]]) =
        (sph_skein512_init c', skein512_hash 512 (replicate 64 1 @ [2]))"
  using sph_skein512_correct
    [of "\<lparr>sk_buf = replicate 64 7, sk_ptr = 5, sk_h = [], sk_bcount = 9\<rparr>" "[replicate 64 1, [2]]"]
  by simp

text \<open>The other output sizes differ in the initial value and the length of the digest.\<close>

lemma sph_skein256_correct:
  assumes "length (sk_buf sc) = 64" "length (concat pieces) < 2 ^ 64"
  shows "\<exists>c'. length (sk_buf c') = 64 \<and>
    sph_skein256_close (foldl sph_skein256 (sph_skein256_init sc) pieces) =
      (sph_skein256_init c', skein512_hash 256 (concat pieces))"
  unfolding skein512_hash_def IV256_config
  by (rule skein_hash_correct [OF assms(1) length_IV(2) assms(2), of 32])
    (auto simp: sph_skein256_close_def sph_skein256_addbits_and_close_def sph_skein256_init_def
      sph_skein256_def [abs_def])

text \<open>
  The small-footprint UBI (a 27-word key array that is extended periodically and tweak words
  that rotate through three variables) yields the same chaining value as the unrolled one
  that indexes key and tweak through the tables \<^verbatim>\<open>M9\<close> and \<^verbatim>\<open>M3\<close>, for every state, tweak and block.
\<close>

theorem UBI_BIG_variants:
  assumes "length h = 27"
  shows "take 8 (UBI_BIG_small h bcount buf etype extra) = UBI_BIG (take 8 h) bcount buf etype extra"
  using assms by (rule UBI_BIG_small_eq)

theorem UBI_BIG_variants_witness:
  "take 8 (UBI_BIG_small (replicate 27 3) 1 (replicate 64 9) 224 0) = UBI_BIG (replicate 8 3) 1 (replicate 64 9) 224 0"
  using UBI_BIG_variants [of "replicate 27 3" 1 "replicate 64 9" 224 0] by simp

end
