(* ===== verification/Aes_Spec.thy ===== *)
theory Aes_Spec
  imports Prelude
begin

text \<open>
  The AES of FIPS 197 on bytes, the specification \<^verbatim>\<open>ctaes.c\<close> is compared with. A block is a list of
  sixteen bytes in row-major order: the byte in row \<open>r\<close> and column \<open>c\<close> of the standard's
  state has index \<open>4 * r + c\<close>.
\<close>

section \<open>The field with 256 elements\<close>

definition xtime :: "u8 \<Rightarrow> u8" where
  "xtime x = push_bit 1 x XOR (if bit x 7 then 0x1B else 0)"

definition gf_mult :: "u8 \<Rightarrow> u8 \<Rightarrow> u8" where
  "gf_mult a b = foldr (\<lambda>i acc. xtime acc XOR (if bit b i then a else 0)) [0..<8] 0"

definition sbox_affine :: "u8 \<Rightarrow> u8" where
  "sbox_affine y = y XOR word_rotl 1 y XOR word_rotl 2 y XOR word_rotl 3 y XOR word_rotl 4 y XOR 0x63"

section \<open>The cipher\<close>

text \<open>The substitution table of FIPS 197: rows by the high, columns by the low half of a byte.\<close>

definition sbox_table :: "u8 list list" where
  "sbox_table =
    [[0x63, 0x7C, 0x77, 0x7B, 0xF2, 0x6B, 0x6F, 0xC5, 0x30, 0x01, 0x67, 0x2B, 0xFE, 0xD7, 0xAB, 0x76],
     [0xCA, 0x82, 0xC9, 0x7D, 0xFA, 0x59, 0x47, 0xF0, 0xAD, 0xD4, 0xA2, 0xAF, 0x9C, 0xA4, 0x72, 0xC0],
     [0xB7, 0xFD, 0x93, 0x26, 0x36, 0x3F, 0xF7, 0xCC, 0x34, 0xA5, 0xE5, 0xF1, 0x71, 0xD8, 0x31, 0x15],
     [0x04, 0xC7, 0x23, 0xC3, 0x18, 0x96, 0x05, 0x9A, 0x07, 0x12, 0x80, 0xE2, 0xEB, 0x27, 0xB2, 0x75],
     [0x09, 0x83, 0x2C, 0x1A, 0x1B, 0x6E, 0x5A, 0xA0, 0x52, 0x3B, 0xD6, 0xB3, 0x29, 0xE3, 0x2F, 0x84],
     [0x53, 0xD1, 0x00, 0xED, 0x20, 0xFC, 0xB1, 0x5B, 0x6A, 0xCB, 0xBE, 0x39, 0x4A, 0x4C, 0x58, 0xCF],
     [0xD0, 0xEF, 0xAA, 0xFB, 0x43, 0x4D, 0x33, 0x85, 0x45, 0xF9, 0x02, 0x7F, 0x50, 0x3C, 0x9F, 0xA8],
     [0x51, 0xA3, 0x40, 0x8F, 0x92, 0x9D, 0x38, 0xF5, 0xBC, 0xB6, 0xDA, 0x21, 0x10, 0xFF, 0xF3, 0xD2],
     [0xCD, 0x0C, 0x13, 0xEC, 0x5F, 0x97, 0x44, 0x17, 0xC4, 0xA7, 0x7E, 0x3D, 0x64, 0x5D, 0x19, 0x73],
     [0x60, 0x81, 0x4F, 0xDC, 0x22, 0x2A, 0x90, 0x88, 0x46, 0xEE, 0xB8, 0x14, 0xDE, 0x5E, 0x0B, 0xDB],
     [0xE0, 0x32, 0x3A, 0x0A, 0x49, 0x06, 0x24, 0x5C, 0xC2, 0xD3, 0xAC, 0x62, 0x91, 0x95, 0xE4, 0x79],
     [0xE7, 0xC8, 0x37, 0x6D, 0x8D, 0xD5, 0x4E, 0xA9, 0x6C, 0x56, 0xF4, 0xEA, 0x65, 0x7A, 0xAE, 0x08],
     [0xBA, 0x78, 0x25, 0x2E, 0x1C, 0xA6, 0xB4, 0xC6, 0xE8, 0xDD, 0x74, 0x1F, 0x4B, 0xBD, 0x8B, 0x8A],
     [0x70, 0x3E, 0xB5, 0x66, 0x48, 0x03, 0xF6, 0x0E, 0x61, 0x35, 0x57, 0xB9, 0x86, 0xC1, 0x1D, 0x9E],
     [0xE1, 0xF8, 0x98, 0x11, 0x69, 0xD9, 0x8E, 0x94, 0x9B, 0x1E, 0x87, 0xE9, 0xCE, 0x55, 0x28, 0xDF],
     [0x8C, 0xA1, 0x89, 0x0D, 0xBF, 0xE6, 0x42, 0x68, 0x41, 0x99, 0x2D, 0x0F, 0xB0, 0x54, 0xBB, 0x16]]"

definition sbox :: "u8 \<Rightarrow> u8" where
  "sbox x = sbox_table ! (unat x div 16) ! (unat x mod 16)"


definition aes_sub :: "u8 list \<Rightarrow> u8 list" where
  "aes_sub s = map sbox s"

definition aes_shift :: "u8 list \<Rightarrow> u8 list" where
  "aes_shift s = map (\<lambda>p. s ! (4 * (p div 4) + (p mod 4 + p div 4) mod 4)) [0..<16]"

definition aes_mix :: "u8 list \<Rightarrow> u8 list" where
  "aes_mix s = map (\<lambda>p. let a = (\<lambda>k. s ! (4 * ((p div 4 + k) mod 4) + p mod 4))
     in xtime (a 0) XOR (xtime (a 1) XOR a 1) XOR a 2 XOR a 3) [0..<16]"

definition aes_add :: "u8 list \<Rightarrow> u8 list \<Rightarrow> u8 list" where
  "aes_add s k = map2 (XOR) s k"

definition aes_in :: "bytes \<Rightarrow> u8 list" where
  "aes_in d = map (\<lambda>p. d ! (p div 4 + 4 * (p mod 4))) [0..<16]"

definition aes_out :: "u8 list \<Rightarrow> bytes" where
  "aes_out s = map (\<lambda>i. s ! (4 * (i mod 4) + i div 4)) [0..<16]"

definition aes_cipher :: "(nat \<Rightarrow> u8 list) \<Rightarrow> nat \<Rightarrow> bytes \<Rightarrow> bytes" where
  "aes_cipher rk nr d =
    (let s = aes_add (aes_in d) (rk 0);
         s = foldl (\<lambda>s i. aes_add (aes_mix (aes_shift (aes_sub s))) (rk i)) s [1..<nr]
     in aes_out (aes_add (aes_shift (aes_sub s)) (rk nr)))"

section \<open>Key expansion\<close>

definition aes_rcon :: "nat \<Rightarrow> u8" where
  "aes_rcon j = (xtime ^^ (j - 1)) 1"

text \<open>Word \<open>i\<close> of the schedule for a key of \<open>nk\<close> words, as its four bytes.\<close>

function aes_word :: "nat \<Rightarrow> bytes \<Rightarrow> nat \<Rightarrow> u8 list" where
  "aes_word nk key i =
    (if nk = 0 \<or> i < nk then take 4 (drop (4 * i) key)
     else
       let t = aes_word nk key (i - 1);
           t = (if i mod nk = 0 then map2 (XOR) (map sbox (rotate1 t)) [aes_rcon (i div nk), 0, 0, 0]
                else if 6 < nk \<and> i mod nk = 4 then map sbox t
                else t)
       in map2 (XOR) (aes_word nk key (i - nk)) t)"
  by pat_completeness auto
termination
  by (relation "measure (\<lambda>(nk, key, i). i)") auto

declare aes_word.simps [simp del]

definition aes_round_key :: "nat \<Rightarrow> bytes \<Rightarrow> nat \<Rightarrow> u8 list" where
  "aes_round_key nk key j = map (\<lambda>p. aes_word nk key (4 * j + p mod 4) ! (p div 4)) [0..<16]"

definition aes_encrypt_block :: "nat \<Rightarrow> nat \<Rightarrow> bytes \<Rightarrow> bytes \<Rightarrow> bytes" where
  "aes_encrypt_block nk nr key d = aes_cipher (aes_round_key nk key) nr d"

end
