(* ===== verification/Ctaes.thy ===== *)
theory Ctaes
  imports Aes_Spec
begin

text \<open>
  \<^verbatim>\<open>crypto/ctaes/ctaes.c\<close>: the constant-time AES of the wallet encryption. A state is
  bit-sliced: \<^verbatim>\<open>slice[i]\<close> holds bit \<open>i\<close> of the sixteen state bytes, the byte in row \<open>r\<close> and
  column \<open>c\<close> at bit position \<open>4 * r + c\<close>. \<^verbatim>\<open>SubBytes\<close> is a gate-level circuit; its linear
  layers and its shared nonlinear part are separate definitions here, each a sequence of the
  code's assignments.

  C promotes the 16-bit operands to \<^verbatim>\<open>int\<close> and truncates on assignment; as only shifts and
  bitwise operations occur, computing on 16-bit words throughout gives the same result.
\<close>

section \<open>State and byte conversion\<close>

record AES_state =
  slice :: "u16 list"

definition zero_state :: AES_state where
  "zero_state = \<lparr>slice = replicate 8 0\<rparr>"

definition LoadByte :: "AES_state \<Rightarrow> u8 \<Rightarrow> nat \<Rightarrow> nat \<Rightarrow> AES_state" where
  "LoadByte s byte r c =
    fst (foldl (\<lambda>(s, byte) i.
      (s\<lparr>slice := (slice s)[i := slice s ! i OR push_bit (r * 4 + c) (ucast (byte AND 1))]\<rparr>,
       drop_bit 1 byte)) (s, byte) [0..<8])"

definition LoadBytes :: "AES_state \<Rightarrow> bytes \<Rightarrow> AES_state" where
  "LoadBytes s data16 =
    fst (foldl (\<lambda>(s, data16) (c, r). (LoadByte s (hd data16) r c, tl data16)) (s, data16)
      (List.product [0..<4] [0..<4]))"

definition SaveByte :: "AES_state \<Rightarrow> nat \<Rightarrow> nat \<Rightarrow> u8" where
  "SaveByte s r c =
    foldl (\<lambda>v b. v OR push_bit b (ucast (drop_bit (r * 4 + c) (slice s ! b) AND 1))) 0 [0..<8]"

definition SaveBytes :: "AES_state \<Rightarrow> bytes" where
  "SaveBytes s = map (\<lambda>(c, r). SaveByte s r c) (List.product [0..<4] [0..<4])"

section \<open>SubBytes\<close>

text \<open>
  The linear layers before the nonlinear part return the variables \<^verbatim>\<open>D, T1 .. T27\<close> at their
  numbers; the backward one leaves \<^verbatim>\<open>T5, T7, T11, T12, T18, T21\<close> unset, and nothing reads them.
\<close>

definition SubBytes_pre :: "u16 list \<Rightarrow> u16 list" where
  "SubBytes_pre sl =
    (let U0 = sl ! 7;
         U1 = sl ! 6;
         U2 = sl ! 5;
         U3 = sl ! 4;
         U4 = sl ! 3;
         U5 = sl ! 2;
         U6 = sl ! 1;
         U7 = sl ! 0;
         T1 = U0 XOR U3;
         T2 = U0 XOR U5;
         T3 = U0 XOR U6;
         T4 = U3 XOR U5;
         T5 = U4 XOR U6;
         T6 = T1 XOR T5;
         T7 = U1 XOR U2;
         T8 = U7 XOR T6;
         T9 = U7 XOR T7;
         T10 = T6 XOR T7;
         T11 = U1 XOR U5;
         T12 = U2 XOR U5;
         T13 = T3 XOR T4;
         T14 = T6 XOR T11;
         T15 = T5 XOR T11;
         T16 = T5 XOR T12;
         T17 = T9 XOR T16;
         T18 = U3 XOR U7;
         T19 = T7 XOR T18;
         T20 = T1 XOR T19;
         T21 = U6 XOR U7;
         T22 = T7 XOR T21;
         T23 = T2 XOR T22;
         T24 = T2 XOR T10;
         T25 = T20 XOR T17;
         T26 = T3 XOR T16;
         T27 = T1 XOR T12;
         D = U7
     in [D, T1, T2, T3, T4, T5, T6, T7, T8, T9, T10, T11, T12, T13, T14, T15, T16, T17, T18,
         T19, T20, T21, T22, T23, T24, T25, T26, T27])"

definition SubBytes_inv_pre :: "u16 list \<Rightarrow> u16 list" where
  "SubBytes_inv_pre sl =
    (let U0 = sl ! 7;
         U1 = sl ! 6;
         U2 = sl ! 5;
         U3 = sl ! 4;
         U4 = sl ! 3;
         U5 = sl ! 2;
         U6 = sl ! 1;
         U7 = sl ! 0;
         T23 = U0 XOR U3;
         T22 = NOT (U1 XOR U3);
         T2 = NOT (U0 XOR U1);
         T1 = U3 XOR U4;
         T24 = NOT (U4 XOR U7);
         R5 = U6 XOR U7;
         T8 = NOT (U1 XOR T23);
         T19 = T22 XOR R5;
         T9 = NOT (U7 XOR T1);
         T10 = T2 XOR T24;
         T13 = T2 XOR R5;
         T3 = T1 XOR R5;
         T25 = NOT (U2 XOR T1);
         R13 = U1 XOR U6;
         T17 = NOT (U2 XOR T19);
         T20 = T24 XOR R13;
         T4 = U4 XOR T8;
         R17 = NOT (U2 XOR U5);
         R18 = NOT (U5 XOR U6);
         R19 = NOT (U2 XOR U4);
         D = U0 XOR R17;
         T6 = T22 XOR R17;
         T16 = R13 XOR R19;
         T27 = T1 XOR R18;
         T15 = T10 XOR T27;
         T14 = T10 XOR R18;
         T26 = T3 XOR T16
     in [D, T1, T2, T3, T4, 0, T6, 0, T8, T9, T10, 0, 0, T13, T14, T15, T16, T17, 0, T19, T20,
         0, T22, T23, T24, T25, T26, T27])"

text \<open>The nonlinear part: \<^verbatim>\<open>M20 .. M23\<close>, then \<^verbatim>\<open>M37 .. M45\<close>, then \<^verbatim>\<open>M46 .. M63\<close>.\<close>

definition SubBytes_nonlinear1 :: "u16 list \<Rightarrow> u16 list" where
  "SubBytes_nonlinear1 T =
    (let D = T ! 0;
         T1 = T ! 1;
         T2 = T ! 2;
         T3 = T ! 3;
         T4 = T ! 4;
         T6 = T ! 6;
         T8 = T ! 8;
         T9 = T ! 9;
         T10 = T ! 10;
         T13 = T ! 13;
         T14 = T ! 14;
         T15 = T ! 15;
         T16 = T ! 16;
         T17 = T ! 17;
         T19 = T ! 19;
         T20 = T ! 20;
         T22 = T ! 22;
         T23 = T ! 23;
         T24 = T ! 24;
         T25 = T ! 25;
         T26 = T ! 26;
         T27 = T ! 27;
         M1 = T13 AND T6;
         M6 = T3 AND T16;
         M11 = T1 AND T15;
         M13 = (T4 AND T27) XOR M11;
         M15 = (T2 AND T10) XOR M11;
         M20 = T14 XOR M1 XOR (T23 AND T8) XOR M13;
         M21 = (T19 AND D) XOR M1 XOR T24 XOR M15;
         M22 = T26 XOR M6 XOR (T22 AND T9) XOR M13;
         M23 = (T20 AND T17) XOR M6 XOR M15 XOR T25
     in [M20, M21, M22, M23])"

definition SubBytes_nonlinear2 :: "u16 list \<Rightarrow> u16 list" where
  "SubBytes_nonlinear2 M =
    (let M20 = M ! 0;
         M21 = M ! 1;
         M22 = M ! 2;
         M23 = M ! 3;
         M25 = M22 AND M20;
         M37 = M21 XOR ((M20 XOR M21) AND (M23 XOR M25));
         M38 = M20 XOR M25 XOR (M21 OR (M20 AND M23));
         M39 = M23 XOR ((M22 XOR M23) AND (M21 XOR M25));
         M40 = M22 XOR M25 XOR (M23 OR (M21 AND M22));
         M41 = M38 XOR M40;
         M42 = M37 XOR M39;
         M43 = M37 XOR M38;
         M44 = M39 XOR M40;
         M45 = M42 XOR M41
     in [M37, M38, M39, M40, M41, M42, M43, M44, M45])"

definition SubBytes_nonlinear3 :: "u16 list \<Rightarrow> u16 list \<Rightarrow> u16 list" where
  "SubBytes_nonlinear3 T M =
    (let D = T ! 0;
         T1 = T ! 1;
         T2 = T ! 2;
         T3 = T ! 3;
         T4 = T ! 4;
         T6 = T ! 6;
         T8 = T ! 8;
         T9 = T ! 9;
         T10 = T ! 10;
         T13 = T ! 13;
         T15 = T ! 15;
         T16 = T ! 16;
         T17 = T ! 17;
         T19 = T ! 19;
         T20 = T ! 20;
         T22 = T ! 22;
         T23 = T ! 23;
         T27 = T ! 27;
         M37 = M ! 0;
         M38 = M ! 1;
         M39 = M ! 2;
         M40 = M ! 3;
         M41 = M ! 4;
         M42 = M ! 5;
         M43 = M ! 6;
         M44 = M ! 7;
         M45 = M ! 8;
         M46 = M44 AND T6;
         M47 = M40 AND T8;
         M48 = M39 AND D;
         M49 = M43 AND T16;
         M50 = M38 AND T9;
         M51 = M37 AND T17;
         M52 = M42 AND T15;
         M53 = M45 AND T27;
         M54 = M41 AND T10;
         M55 = M44 AND T13;
         M56 = M40 AND T23;
         M57 = M39 AND T19;
         M58 = M43 AND T3;
         M59 = M38 AND T22;
         M60 = M37 AND T20;
         M61 = M42 AND T1;
         M62 = M45 AND T4;
         M63 = M41 AND T2
     in [M46, M47, M48, M49, M50, M51, M52, M53, M54, M55, M56, M57, M58, M59, M60, M61, M62,
         M63])"

text \<open>The linear layers after it compute the new slices from \<^verbatim>\<open>M46 .. M63\<close>.\<close>

definition SubBytes_inv_post :: "u16 list \<Rightarrow> u16 list" where
  "SubBytes_inv_post M =
    (let M46 = M ! 0;
         M47 = M ! 1;
         M48 = M ! 2;
         M49 = M ! 3;
         M50 = M ! 4;
         M51 = M ! 5;
         M52 = M ! 6;
         M53 = M ! 7;
         M54 = M ! 8;
         M55 = M ! 9;
         M56 = M ! 10;
         M57 = M ! 11;
         M58 = M ! 12;
         M59 = M ! 13;
         M60 = M ! 14;
         M61 = M ! 15;
         M62 = M ! 16;
         M63 = M ! 17;
         P0 = M52 XOR M61;
         P1 = M58 XOR M59;
         P2 = M54 XOR M62;
         P3 = M47 XOR M50;
         P4 = M48 XOR M56;
         P5 = M46 XOR M51;
         P6 = M49 XOR M60;
         P7 = P0 XOR P1;
         P8 = M50 XOR M53;
         P9 = M55 XOR M63;
         P10 = M57 XOR P4;
         P11 = P0 XOR P3;
         P12 = M46 XOR M48;
         P13 = M49 XOR M51;
         P14 = M49 XOR M62;
         P15 = M54 XOR M59;
         P16 = M57 XOR M61;
         P17 = M58 XOR P2;
         P18 = M63 XOR P5;
         P19 = P2 XOR P3;
         P20 = P4 XOR P6;
         P22 = P2 XOR P7;
         P23 = P7 XOR P8;
         P24 = P5 XOR P7;
         P25 = P6 XOR P10;
         P26 = P9 XOR P11;
         P27 = P10 XOR P18;
         P28 = P11 XOR P25;
         P29 = P15 XOR P20
     in [P9 XOR P16,
         P14 XOR P23,
         P19 XOR P24,
         P23 XOR P27,
         P12 XOR P22,
         P17 XOR P28,
         P26 XOR P29,
         P13 XOR P22])"

definition SubBytes_post :: "u16 list \<Rightarrow> u16 list" where
  "SubBytes_post M =
    (let M46 = M ! 0;
         M47 = M ! 1;
         M48 = M ! 2;
         M49 = M ! 3;
         M50 = M ! 4;
         M51 = M ! 5;
         M52 = M ! 6;
         M53 = M ! 7;
         M54 = M ! 8;
         M55 = M ! 9;
         M56 = M ! 10;
         M57 = M ! 11;
         M58 = M ! 12;
         M59 = M ! 13;
         M60 = M ! 14;
         M61 = M ! 15;
         M62 = M ! 16;
         M63 = M ! 17;
         L0 = M61 XOR M62;
         L1 = M50 XOR M56;
         L2 = M46 XOR M48;
         L3 = M47 XOR M55;
         L4 = M54 XOR M58;
         L5 = M49 XOR M61;
         L6 = M62 XOR L5;
         L7 = M46 XOR L3;
         L8 = M51 XOR M59;
         L9 = M52 XOR M53;
         L10 = M53 XOR L4;
         L11 = M60 XOR L2;
         L12 = M48 XOR M51;
         L13 = M50 XOR L0;
         L14 = M52 XOR M61;
         L15 = M55 XOR L1;
         L16 = M56 XOR L0;
         L17 = M57 XOR L1;
         L18 = M58 XOR L8;
         L19 = M63 XOR L4;
         L20 = L0 XOR L1;
         L21 = L1 XOR L7;
         L22 = L3 XOR L12;
         L23 = L18 XOR L2;
         L24 = L15 XOR L9;
         L25 = L6 XOR L10;
         L26 = L7 XOR L9;
         L27 = L8 XOR L10;
         L28 = L11 XOR L14;
         L29 = L11 XOR L17
     in [NOT (L6 XOR L23),
         NOT (L13 XOR L27),
         L25 XOR L29,
         L20 XOR L22,
         L6 XOR L21,
         NOT (L19 XOR L28),
         NOT (L16 XOR L26),
         L6 XOR L24])"

definition SubBytes :: "AES_state \<Rightarrow> bool \<Rightarrow> AES_state" where
  "SubBytes s bwd =
    (let T = (if bwd then SubBytes_inv_pre (slice s) else SubBytes_pre (slice s));
         M = SubBytes_nonlinear1 T;
         M = SubBytes_nonlinear2 M;
         M = SubBytes_nonlinear3 T M
     in s\<lparr>slice := (if bwd then SubBytes_inv_post M else SubBytes_post M)\<rparr>)"

section \<open>The linear round operations\<close>

definition BIT_RANGE :: "nat \<Rightarrow> nat \<Rightarrow> u16" where
  "BIT_RANGE f t = push_bit f (push_bit (t - f) 1 - 1)"

definition BIT_RANGE_LEFT :: "u16 \<Rightarrow> nat \<Rightarrow> nat \<Rightarrow> nat \<Rightarrow> u16" where
  "BIT_RANGE_LEFT x f t shift = push_bit shift (x AND BIT_RANGE f t)"

definition BIT_RANGE_RIGHT :: "u16 \<Rightarrow> nat \<Rightarrow> nat \<Rightarrow> nat \<Rightarrow> u16" where
  "BIT_RANGE_RIGHT x f t shift = drop_bit shift (x AND BIT_RANGE f t)"

definition ShiftRows :: "AES_state \<Rightarrow> AES_state" where
  "ShiftRows s = s\<lparr>slice := map (\<lambda>v.
    (v AND BIT_RANGE 0 4) OR
    BIT_RANGE_LEFT v 4 5 3 OR BIT_RANGE_RIGHT v 5 8 1 OR
    BIT_RANGE_LEFT v 8 10 2 OR BIT_RANGE_RIGHT v 10 12 2 OR
    BIT_RANGE_LEFT v 12 15 1 OR BIT_RANGE_RIGHT v 15 16 3) (slice s)\<rparr>"

definition InvShiftRows :: "AES_state \<Rightarrow> AES_state" where
  "InvShiftRows s = s\<lparr>slice := map (\<lambda>v.
    (v AND BIT_RANGE 0 4) OR
    BIT_RANGE_LEFT v 4 7 1 OR BIT_RANGE_RIGHT v 7 8 3 OR
    BIT_RANGE_LEFT v 8 10 2 OR BIT_RANGE_RIGHT v 10 12 2 OR
    BIT_RANGE_LEFT v 12 13 3 OR BIT_RANGE_RIGHT v 13 16 1) (slice s)\<rparr>"

definition ROT :: "u16 \<Rightarrow> nat \<Rightarrow> u16" where
  "ROT x b = drop_bit (b * 4) x OR push_bit ((4 - b) * 4) x"

text \<open>The multiplication by \<open>a(x)\<close>, shared by both directions.\<close>

definition MixColumns_fwd :: "u16 list \<Rightarrow> u16 list" where
  "MixColumns_fwd sl =
    (let s0 = sl ! 0; s1 = sl ! 1; s2 = sl ! 2; s3 = sl ! 3;
         s4 = sl ! 4; s5 = sl ! 5; s6 = sl ! 6; s7 = sl ! 7;
         s0_01 = s0 XOR ROT s0 1; s0_123 = ROT s0_01 1 XOR ROT s0 3;
         s1_01 = s1 XOR ROT s1 1; s1_123 = ROT s1_01 1 XOR ROT s1 3;
         s2_01 = s2 XOR ROT s2 1; s2_123 = ROT s2_01 1 XOR ROT s2 3;
         s3_01 = s3 XOR ROT s3 1; s3_123 = ROT s3_01 1 XOR ROT s3 3;
         s4_01 = s4 XOR ROT s4 1; s4_123 = ROT s4_01 1 XOR ROT s4 3;
         s5_01 = s5 XOR ROT s5 1; s5_123 = ROT s5_01 1 XOR ROT s5 3;
         s6_01 = s6 XOR ROT s6 1; s6_123 = ROT s6_01 1 XOR ROT s6 3;
         s7_01 = s7 XOR ROT s7 1; s7_123 = ROT s7_01 1 XOR ROT s7 3
     in [s7_01 XOR s0_123,
         s7_01 XOR s0_01 XOR s1_123,
         s1_01 XOR s2_123,
         s7_01 XOR s2_01 XOR s3_123,
         s7_01 XOR s3_01 XOR s4_123,
         s4_01 XOR s5_123,
         s5_01 XOR s6_123,
         s6_01 XOR s7_123])"

text \<open>The further multiplication by \<open>{04}x\<^sup>2 + {05}\<close> of the inverse direction.\<close>

definition MixColumns_inv :: "u16 list \<Rightarrow> u16 list" where
  "MixColumns_inv sl =
    (let t0_02 = sl ! 0 XOR ROT (sl ! 0) 2;
         t1_02 = sl ! 1 XOR ROT (sl ! 1) 2;
         t2_02 = sl ! 2 XOR ROT (sl ! 2) 2;
         t3_02 = sl ! 3 XOR ROT (sl ! 3) 2;
         t4_02 = sl ! 4 XOR ROT (sl ! 4) 2;
         t5_02 = sl ! 5 XOR ROT (sl ! 5) 2;
         t6_02 = sl ! 6 XOR ROT (sl ! 6) 2;
         t7_02 = sl ! 7 XOR ROT (sl ! 7) 2
     in [sl ! 0 XOR t6_02,
         sl ! 1 XOR (t6_02 XOR t7_02),
         sl ! 2 XOR (t0_02 XOR t7_02),
         sl ! 3 XOR (t1_02 XOR t6_02),
         sl ! 4 XOR (t2_02 XOR t6_02 XOR t7_02),
         sl ! 5 XOR (t3_02 XOR t7_02),
         sl ! 6 XOR t4_02,
         sl ! 7 XOR t5_02])"

definition MixColumns :: "AES_state \<Rightarrow> bool \<Rightarrow> AES_state" where
  "MixColumns s bwd =
    (let s = s\<lparr>slice := MixColumns_fwd (slice s)\<rparr>
     in if bwd then s\<lparr>slice := MixColumns_inv (slice s)\<rparr> else s)"

definition AddRoundKey :: "AES_state \<Rightarrow> AES_state \<Rightarrow> AES_state" where
  "AddRoundKey s round = s\<lparr>slice := map (\<lambda>b. slice s ! b XOR slice round ! b) [0..<8]\<rparr>"

section \<open>Key schedule\<close>

definition GetOneColumn :: "AES_state \<Rightarrow> nat \<Rightarrow> AES_state" where
  "GetOneColumn a c = \<lparr>slice = map (\<lambda>b. drop_bit c (slice a ! b) AND 0x1111) [0..<8]\<rparr>"

text \<open>Returns the new \<^verbatim>\<open>s\<close> and the new \<^verbatim>\<open>r\<close>.\<close>

definition KeySetupColumnMix ::
  "AES_state \<Rightarrow> AES_state \<Rightarrow> AES_state \<Rightarrow> nat \<Rightarrow> nat \<Rightarrow> AES_state \<times> AES_state" where
  "KeySetupColumnMix s r a c1 c2 =
    (let slices = map (\<lambda>b. let sb = slice s ! b XOR (drop_bit c2 (slice a ! b) AND 0x1111);
                                rb = slice r ! b OR push_bit c1 (sb AND 0x1111)
                            in (sb, rb)) [0..<8]
     in (s\<lparr>slice := map fst slices\<rparr>, r\<lparr>slice := map snd slices\<rparr>))"

definition KeySetupTransform :: "AES_state \<Rightarrow> AES_state \<Rightarrow> AES_state" where
  "KeySetupTransform s r =
    s\<lparr>slice := map (\<lambda>b. (drop_bit 4 (slice s ! b) OR push_bit 12 (slice s ! b)) XOR slice r ! b) [0..<8]\<rparr>"

definition MultX :: "AES_state \<Rightarrow> AES_state" where
  "MultX s =
    (let sl = slice s; top = sl ! 7
     in s\<lparr>slice := [top, sl ! 0 XOR top, sl ! 1, sl ! 2 XOR top, sl ! 3 XOR top, sl ! 4, sl ! 5, sl ! 6]\<rparr>)"

text \<open>One pass of the expansion loop: \<^verbatim>\<open>rounds\<close>, \<^verbatim>\<open>column\<close>, \<^verbatim>\<open>rcon\<close> and \<^verbatim>\<open>pos\<close>.\<close>

definition AES_setup_step ::
  "nat \<Rightarrow> AES_state list \<times> AES_state \<times> AES_state \<times> nat \<Rightarrow> nat \<Rightarrow>
   AES_state list \<times> AES_state \<times> AES_state \<times> nat" where
  "AES_setup_step nkeywords st i =
    (case st of (rounds, column, rcon, pos) \<Rightarrow>
      let (column, rcon) =
            (if pos = 0 then
               let column = SubBytes column False;
                   column = KeySetupTransform column rcon
               in (column, MultX rcon)
             else if nkeywords > 6 \<and> pos = 4 then (SubBytes column False, rcon)
             else (column, rcon));
          pos = (if pos + 1 = nkeywords then 0 else pos + 1);
          (column, r) = KeySetupColumnMix column (rounds ! (i div 4)) (rounds ! ((i - nkeywords) div 4))
            (i mod 4) ((i - nkeywords) mod 4)
      in (rounds[i div 4 := r], column, rcon, pos))"

definition AES_setup_load :: "nat \<Rightarrow> nat \<Rightarrow> bytes \<Rightarrow> AES_state list" where
  "AES_setup_load nkeywords nrounds key =
    fst (foldl (\<lambda>(rounds, key) (i, r).
      (rounds[i div 4 := LoadByte (rounds ! (i div 4)) (hd key) r (i mod 4)], tl key))
      (replicate (nrounds + 1) zero_state, key) (List.product [0..<nkeywords] [0..<4]))"

definition AES_setup :: "bytes \<Rightarrow> nat \<Rightarrow> nat \<Rightarrow> AES_state list" where
  "AES_setup key nkeywords nrounds =
    (let rcon = \<lparr>slice = [1, 0, 0, 0, 0, 0, 0, 0]\<rparr>;
         pos = 0;
         rounds = AES_setup_load nkeywords nrounds key;
         column = GetOneColumn (rounds ! ((nkeywords - 1) div 4)) ((nkeywords - 1) mod 4)
     in fst (foldl (AES_setup_step nkeywords) (rounds, column, rcon, pos) [nkeywords..<4 * (nrounds + 1)]))"

section \<open>Encryption and decryption\<close>

definition AES_encrypt :: "AES_state list \<Rightarrow> nat \<Rightarrow> bytes \<Rightarrow> bytes" where
  "AES_encrypt rounds nrounds plain16 =
    (let s = LoadBytes zero_state plain16;
         s = AddRoundKey s (rounds ! 0);
         s = foldl (\<lambda>s round.
               let s = SubBytes s False;
                   s = ShiftRows s;
                   s = MixColumns s False
               in AddRoundKey s (rounds ! round)) s [1..<nrounds];
         s = SubBytes s False;
         s = ShiftRows s;
         s = AddRoundKey s (rounds ! nrounds)
     in SaveBytes s)"

definition AES_decrypt :: "AES_state list \<Rightarrow> nat \<Rightarrow> bytes \<Rightarrow> bytes" where
  "AES_decrypt rounds nrounds cipher16 =
    (let s = LoadBytes zero_state cipher16;
         s = AddRoundKey s (rounds ! nrounds);
         s = foldl (\<lambda>s round.
               let s = InvShiftRows s;
                   s = SubBytes s True;
                   s = AddRoundKey s (rounds ! (nrounds - round))
               in MixColumns s True) s [1..<nrounds];
         s = InvShiftRows s;
         s = SubBytes s True;
         s = AddRoundKey s (rounds ! 0)
     in SaveBytes s)"

section \<open>The three key sizes\<close>

record AES128_ctx =
  rk128 :: "AES_state list"

record AES192_ctx =
  rk192 :: "AES_state list"

record AES256_ctx =
  rk256 :: "AES_state list"

definition AES128_init :: "AES128_ctx \<Rightarrow> bytes \<Rightarrow> AES128_ctx" where
  "AES128_init ctx key16 = ctx\<lparr>rk128 := AES_setup key16 4 10\<rparr>"

primrec AES128_encrypt :: "AES128_ctx \<Rightarrow> nat \<Rightarrow> bytes \<Rightarrow> bytes" where
  "AES128_encrypt ctx 0 plain16 = []"
| "AES128_encrypt ctx (Suc blocks) plain16 =
    AES_encrypt (rk128 ctx) 10 (take 16 plain16) @ AES128_encrypt ctx blocks (drop 16 plain16)"

primrec AES128_decrypt :: "AES128_ctx \<Rightarrow> nat \<Rightarrow> bytes \<Rightarrow> bytes" where
  "AES128_decrypt ctx 0 cipher16 = []"
| "AES128_decrypt ctx (Suc blocks) cipher16 =
    AES_decrypt (rk128 ctx) 10 (take 16 cipher16) @ AES128_decrypt ctx blocks (drop 16 cipher16)"

definition AES192_init :: "AES192_ctx \<Rightarrow> bytes \<Rightarrow> AES192_ctx" where
  "AES192_init ctx key24 = ctx\<lparr>rk192 := AES_setup key24 6 12\<rparr>"

primrec AES192_encrypt :: "AES192_ctx \<Rightarrow> nat \<Rightarrow> bytes \<Rightarrow> bytes" where
  "AES192_encrypt ctx 0 plain16 = []"
| "AES192_encrypt ctx (Suc blocks) plain16 =
    AES_encrypt (rk192 ctx) 12 (take 16 plain16) @ AES192_encrypt ctx blocks (drop 16 plain16)"

primrec AES192_decrypt :: "AES192_ctx \<Rightarrow> nat \<Rightarrow> bytes \<Rightarrow> bytes" where
  "AES192_decrypt ctx 0 cipher16 = []"
| "AES192_decrypt ctx (Suc blocks) cipher16 =
    AES_decrypt (rk192 ctx) 12 (take 16 cipher16) @ AES192_decrypt ctx blocks (drop 16 cipher16)"

definition AES256_init :: "AES256_ctx \<Rightarrow> bytes \<Rightarrow> AES256_ctx" where
  "AES256_init ctx key32 = ctx\<lparr>rk256 := AES_setup key32 8 14\<rparr>"

primrec AES256_encrypt :: "AES256_ctx \<Rightarrow> nat \<Rightarrow> bytes \<Rightarrow> bytes" where
  "AES256_encrypt ctx 0 plain16 = []"
| "AES256_encrypt ctx (Suc blocks) plain16 =
    AES_encrypt (rk256 ctx) 14 (take 16 plain16) @ AES256_encrypt ctx blocks (drop 16 plain16)"

primrec AES256_decrypt :: "AES256_ctx \<Rightarrow> nat \<Rightarrow> bytes \<Rightarrow> bytes" where
  "AES256_decrypt ctx 0 cipher16 = []"
| "AES256_decrypt ctx (Suc blocks) cipher16 =
    AES_decrypt (rk256 ctx) 14 (take 16 cipher16) @ AES256_decrypt ctx blocks (drop 16 cipher16)"

end
