(* ===== verification/Ctaes_Sbox.thy ===== *)
theory Ctaes_Sbox
  imports Ctaes
begin

text \<open>
  The gate circuit of \<^verbatim>\<open>SubBytes\<close> computes the S-box of FIPS 197 in every lane, and its backward
  form the inverse. The circuit is run on the 256 states whose lanes are all equal;
  locality of the gates carries the result to all states.
\<close>

section \<open>Lanes\<close>

text \<open>
  The circuit works on every bit position independently. Two states that agree at a position
  are mapped to states that agree there, so it suffices to know the circuit on states
  whose positions all hold the same byte.
\<close>

definition agree :: "nat \<Rightarrow> u16 list \<Rightarrow> u16 list \<Rightarrow> bool" where
  "agree p xs ys \<longleftrightarrow> length xs = length ys \<and> (\<forall>i<length xs. bit (xs ! i) p = bit (ys ! i) p)"

lemma agree_nth: "agree p xs ys \<Longrightarrow> i < length xs \<Longrightarrow> bit (xs ! i) p = bit (ys ! i) p"
  by (simp add: agree_def)

lemma agree_list_all2: "agree p xs ys \<longleftrightarrow> list_all2 (\<lambda>x y. bit x p = bit y p) xs ys"
  by (auto simp: agree_def list_all2_conv_all_nth)

named_theorems circuit \<open>the stages of the S-box circuit\<close>

declare SubBytes_pre_def [circuit] SubBytes_inv_pre_def [circuit] SubBytes_nonlinear1_def [circuit]
  SubBytes_nonlinear2_def [circuit] SubBytes_nonlinear3_def [circuit] SubBytes_post_def [circuit]
  SubBytes_inv_post_def [circuit]

lemma length_stages [simp]:
  "length (SubBytes_pre U) = 28" "length (SubBytes_inv_pre U) = 28"
  "length (SubBytes_nonlinear1 T) = 4" "length (SubBytes_nonlinear2 M) = 9"
  "length (SubBytes_nonlinear3 T M) = 18" "length (SubBytes_post M) = 8" "length (SubBytes_inv_post M) = 8"
  by (simp_all add: circuit Let_def)

lemma agree_pre:
  assumes "p < 16" "length U = 8" "agree p U U'"
  shows "agree p (SubBytes_pre U) (SubBytes_pre U')" "agree p (SubBytes_inv_pre U) (SubBytes_inv_pre U')"
  using assms agree_nth [OF assms(3)]
  unfolding agree_list_all2 SubBytes_pre_def SubBytes_inv_pre_def Let_def
  by (simp_all add: bit_simps)

lemma agree_nonlinear1:
  assumes "p < 16" "length T = 28" "agree p T T'"
  shows "agree p (SubBytes_nonlinear1 T) (SubBytes_nonlinear1 T')"
  using assms agree_nth [OF assms(3)]
  unfolding agree_list_all2 SubBytes_nonlinear1_def Let_def
  by (simp add: bit_simps)

lemma agree_nonlinear2:
  assumes "p < 16" "length M = 4" "agree p M M'"
  shows "agree p (SubBytes_nonlinear2 M) (SubBytes_nonlinear2 M')"
  using assms agree_nth [OF assms(3)]
  unfolding agree_list_all2 SubBytes_nonlinear2_def Let_def
  by (simp add: bit_simps)

lemma agree_nonlinear3:
  assumes "p < 16" "length T = 28" "agree p T T'" "length M = 9" "agree p M M'"
  shows "agree p (SubBytes_nonlinear3 T M) (SubBytes_nonlinear3 T' M')"
  using assms agree_nth [OF assms(3)] agree_nth [OF assms(5)]
  unfolding agree_list_all2 SubBytes_nonlinear3_def Let_def
  by (simp add: bit_simps)

lemma agree_post:
  assumes "p < 16" "length M = 18" "agree p M M'"
  shows "agree p (SubBytes_post M) (SubBytes_post M')" "agree p (SubBytes_inv_post M) (SubBytes_inv_post M')"
  using assms agree_nth [OF assms(3)]
  unfolding agree_list_all2 SubBytes_post_def SubBytes_inv_post_def Let_def
  by (simp_all add: bit_simps)

definition Sub_fwd :: "u16 list \<Rightarrow> u16 list" where
  "Sub_fwd U = (let T = SubBytes_pre U
    in SubBytes_post (SubBytes_nonlinear3 T (SubBytes_nonlinear2 (SubBytes_nonlinear1 T))))"

definition Sub_bwd :: "u16 list \<Rightarrow> u16 list" where
  "Sub_bwd U = (let T = SubBytes_inv_pre U
    in SubBytes_inv_post (SubBytes_nonlinear3 T (SubBytes_nonlinear2 (SubBytes_nonlinear1 T))))"

lemma SubBytes_slices:
  "slice (SubBytes s False) = Sub_fwd (slice s)" "slice (SubBytes s True) = Sub_bwd (slice s)"
  by (simp_all add: SubBytes_def Sub_fwd_def Sub_bwd_def Let_def)

lemma length_Sub [simp]: "length (Sub_fwd U) = 8" "length (Sub_bwd U) = 8"
  by (simp_all add: Sub_fwd_def Sub_bwd_def Let_def)

lemma agree_Sub:
  assumes "p < 16" "length U = 8" "agree p U U'"
  shows "agree p (Sub_fwd U) (Sub_fwd U')" "agree p (Sub_bwd U) (Sub_bwd U')"
  unfolding Sub_fwd_def Sub_bwd_def Let_def
  using assms by (auto intro!: agree_pre agree_nonlinear1 agree_nonlinear2 agree_nonlinear3 agree_post)

text \<open>The state all of whose sixteen bytes have the bits \<open>bs\<close>.\<close>

definition uniform :: "bool list \<Rightarrow> u16 list" where
  "uniform bs = map (\<lambda>b. if b then - 1 else 0) bs"

section \<open>The S-box\<close>

text \<open>Words with all lanes set or clear, and the state with the byte \<open>x\<close> in every lane.\<close>

definition ones :: u16 where
  "ones = - 1"

definition fill :: "bool \<Rightarrow> u16" where
  "fill b = (if b then ones else 0)"

definition lanes :: "u8 \<Rightarrow> u16 list" where
  "lanes x = map (\<lambda>i. fill (bit x i)) [0..<8]"

lemma ones_simps:
  "ones XOR ones = 0" "ones XOR 0 = ones" "0 XOR ones = ones" "0 XOR (0 :: u16) = 0"
  "ones AND x = x" "x AND ones = x" "0 AND x = (0 :: u16)" "x AND 0 = (0 :: u16)"
  "ones OR x = ones" "x OR ones = ones" "0 OR x = (x :: u16)" "x OR 0 = (x :: u16)"
  "NOT ones = 0" "NOT 0 = ones"
  by (simp_all add: ones_def)

text \<open>Evaluation of the circuit on constant words, one assignment after the other.\<close>

lemma let_values: "Let ones f = f ones" "Let (0 :: u16) f = f 0" "Let (x # xs) g = g (x # xs)"
  by simp_all

lemmas run_circuit = Sub_fwd_def Sub_bwd_def circuit ones_simps let_values

lemma lanes_bits:
  "lanes x = [fill (bit x 0), fill (bit x 1), fill (bit x 2), fill (bit x 3),
    fill (bit x 4), fill (bit x 5), fill (bit x 6), fill (bit x 7)]"
  by (simp add: lanes_def upt_lists)

text \<open>
  The entry of the table at a byte given by its bits, and the two statements that the circuit
  computes it and its inverse; each is evaluated a quarter of the table at a time.
\<close>

definition sbox_at :: "bool \<Rightarrow> bool \<Rightarrow> bool \<Rightarrow> bool \<Rightarrow> bool \<Rightarrow> bool \<Rightarrow> bool \<Rightarrow> bool \<Rightarrow> u8" where
  "sbox_at b0 b1 b2 b3 b4 b5 b6 b7 =
    sbox_table ! (of_bool b4 + 2 * of_bool b5 + 4 * of_bool b6 + 8 * of_bool b7)
      ! (of_bool b0 + 2 * of_bool b1 + 4 * of_bool b2 + 8 * of_bool b3)"

lemmas sbox_entry = fill_def lanes_bits sbox_at_def sbox_table_def

lemma Sub_fwd_FF: "Sub_fwd [fill b0, fill b1, fill b2, fill b3, fill b4, fill b5, fill False, fill False] = lanes (sbox_at b0 b1 b2 b3 b4 b5 False False)"
  unfolding sbox_entry
  by (cases b0; cases b1; cases b2; cases b3; cases b4; cases b5;
      simp add: run_circuit cong: let_weak_cong del: bit.compl_zero)

lemma Sub_fwd_FT: "Sub_fwd [fill b0, fill b1, fill b2, fill b3, fill b4, fill b5, fill False, fill True] = lanes (sbox_at b0 b1 b2 b3 b4 b5 False True)"
  unfolding sbox_entry
  by (cases b0; cases b1; cases b2; cases b3; cases b4; cases b5;
      simp add: run_circuit cong: let_weak_cong del: bit.compl_zero)

lemma Sub_fwd_TF: "Sub_fwd [fill b0, fill b1, fill b2, fill b3, fill b4, fill b5, fill True, fill False] = lanes (sbox_at b0 b1 b2 b3 b4 b5 True False)"
  unfolding sbox_entry
  by (cases b0; cases b1; cases b2; cases b3; cases b4; cases b5;
      simp add: run_circuit cong: let_weak_cong del: bit.compl_zero)

lemma Sub_fwd_TT: "Sub_fwd [fill b0, fill b1, fill b2, fill b3, fill b4, fill b5, fill True, fill True] = lanes (sbox_at b0 b1 b2 b3 b4 b5 True True)"
  unfolding sbox_entry
  by (cases b0; cases b1; cases b2; cases b3; cases b4; cases b5;
      simp add: run_circuit cong: let_weak_cong del: bit.compl_zero)

lemma Sub_bwd_FF: "Sub_bwd (lanes (sbox_at b0 b1 b2 b3 b4 b5 False False)) = [fill b0, fill b1, fill b2, fill b3, fill b4, fill b5, fill False, fill False]"
  unfolding sbox_entry
  by (cases b0; cases b1; cases b2; cases b3; cases b4; cases b5;
      simp add: run_circuit cong: let_weak_cong del: bit.compl_zero)

lemma Sub_bwd_FT: "Sub_bwd (lanes (sbox_at b0 b1 b2 b3 b4 b5 False True)) = [fill b0, fill b1, fill b2, fill b3, fill b4, fill b5, fill False, fill True]"
  unfolding sbox_entry
  by (cases b0; cases b1; cases b2; cases b3; cases b4; cases b5;
      simp add: run_circuit cong: let_weak_cong del: bit.compl_zero)

lemma Sub_bwd_TF: "Sub_bwd (lanes (sbox_at b0 b1 b2 b3 b4 b5 True False)) = [fill b0, fill b1, fill b2, fill b3, fill b4, fill b5, fill True, fill False]"
  unfolding sbox_entry
  by (cases b0; cases b1; cases b2; cases b3; cases b4; cases b5;
      simp add: run_circuit cong: let_weak_cong del: bit.compl_zero)

lemma Sub_bwd_TT: "Sub_bwd (lanes (sbox_at b0 b1 b2 b3 b4 b5 True True)) = [fill b0, fill b1, fill b2, fill b3, fill b4, fill b5, fill True, fill True]"
  unfolding sbox_entry
  by (cases b0; cases b1; cases b2; cases b3; cases b4; cases b5;
      simp add: run_circuit cong: let_weak_cong del: bit.compl_zero)

lemma Sub_fwd_fill: "Sub_fwd [fill b0, fill b1, fill b2, fill b3, fill b4, fill b5, fill b6, fill b7] = lanes (sbox_at b0 b1 b2 b3 b4 b5 b6 b7)"
  by (cases b6; cases b7; simp only: Sub_fwd_FF Sub_fwd_FT Sub_fwd_TF Sub_fwd_TT)

lemma Sub_bwd_fill: "Sub_bwd (lanes (sbox_at b0 b1 b2 b3 b4 b5 b6 b7)) = [fill b0, fill b1, fill b2, fill b3, fill b4, fill b5, fill b6, fill b7]"
  by (cases b6; cases b7; simp only: Sub_bwd_FF Sub_bwd_FT Sub_bwd_TF Sub_bwd_TT)

lemma byte_split:
  fixes x :: u8
  shows "unat x mod 16 = of_bool (bit x 0) + 2 * of_bool (bit x 1) + 4 * of_bool (bit x 2) + 8 * of_bool (bit x 3)"
    and "unat x div 16 = of_bool (bit x 4) + 2 * of_bool (bit x 5) + 4 * of_bool (bit x 6) + 8 * of_bool (bit x 7)"
proof -
  have "take_bit 8 (unat x) = unat x"
  proof -
    have "unat x < 2 ^ LENGTH(8)" by (rule unsigned_less)
    then show ?thesis by (simp add: take_bit_nat_eq_self)
  qed
  then have "unat x = horner_sum of_bool 2 (map (bit (unat x)) [0..<8])"
    by (simp only: horner_sum_bit_eq_take_bit)
  moreover have "bit (unat x) i = bit x i" for i
    by (simp add: bit_unsigned_iff)
  ultimately have n: "unat x = of_bool (bit x 0) + 2 * of_bool (bit x 1) + 4 * of_bool (bit x 2) + 8 * of_bool (bit x 3)
      + 16 * (of_bool (bit x 4) + 2 * of_bool (bit x 5) + 4 * of_bool (bit x 6) + 8 * of_bool (bit x 7))"
    by (simp add: upt_lists)
  show "unat x mod 16 = of_bool (bit x 0) + 2 * of_bool (bit x 1) + 4 * of_bool (bit x 2) + 8 * of_bool (bit x 3)"
    and "unat x div 16 = of_bool (bit x 4) + 2 * of_bool (bit x 5) + 4 * of_bool (bit x 6) + 8 * of_bool (bit x 7)"
    unfolding n by (simp_all add: of_bool_def)
qed

lemma sbox_at_bits: "sbox_at (bit x 0) (bit x 1) (bit x 2) (bit x 3) (bit x 4) (bit x 5) (bit x 6) (bit x 7) = sbox x"
  unfolding sbox_def sbox_at_def byte_split ..

lemma Sub_fwd_lanes: "Sub_fwd (lanes x) = lanes (sbox x)"
  unfolding lanes_bits [of x] sbox_at_bits [symmetric] by (rule Sub_fwd_fill)

lemma Sub_bwd_lanes: "Sub_bwd (lanes (sbox x)) = lanes x"
  unfolding lanes_bits [of x] sbox_at_bits [symmetric] by (rule Sub_bwd_fill)

section \<open>The table is the inverse followed by the affine map\<close>

text \<open>The preimage of a byte under the affine map, and the check of one entry of the table.\<close>

definition sbox_preimage :: "u8 \<Rightarrow> u8" where
  "sbox_preimage z = word_rotl 1 z XOR word_rotl 3 z XOR word_rotl 6 z XOR 0x05"

definition sbox_entry_ok :: "nat \<Rightarrow> bool" where
  "sbox_entry_ok n = (let x = word_of_nat n :: u8; y = sbox_preimage (sbox x)
     in sbox_affine y = sbox x \<and> (if x = 0 then y = 0 else gf_mult x y = 1))"

lemma sbox_entries_0: "list_all sbox_entry_ok [0..<64]" by code_simp

lemma sbox_entries_1: "list_all sbox_entry_ok [64..<128]" by code_simp

lemma sbox_entries_2: "list_all sbox_entry_ok [128..<192]" by code_simp

lemma sbox_entries_3: "list_all sbox_entry_ok [192..<256]" by code_simp

lemma list_all_upt: "list_all P [a..<b] \<Longrightarrow> a \<le> n \<Longrightarrow> n < b \<Longrightarrow> P n"
  by (simp add: list_all_iff)

lemma sbox_inverse_affine:
  fixes x :: u8
  shows "\<exists>y. sbox x = sbox_affine y \<and> (if x = 0 then y = 0 else gf_mult x y = 1)"
proof -
  have "unat x < 256" using unsigned_less [of x, where ?'a = nat] by simp
  then consider "unat x < 64" | "64 \<le> unat x \<and> unat x < 128" | "128 \<le> unat x \<and> unat x < 192"
    | "192 \<le> unat x \<and> unat x < 256" by linarith
  then have "sbox_entry_ok (unat x)"
    by cases (blast intro: list_all_upt [OF sbox_entries_0] list_all_upt [OF sbox_entries_1]
      list_all_upt [OF sbox_entries_2] list_all_upt [OF sbox_entries_3])+
  then show ?thesis by (auto simp: sbox_entry_ok_def Let_def intro!: exI [of _ "sbox_preimage (sbox x)"])
qed

end
