(* ===== verification/Ctaes_Correct.thy ===== *)
theory Ctaes_Correct
  imports Ctaes_Sbox
begin

text \<open>
  \<^verbatim>\<open>ctaes.c\<close> implements the AES of FIPS 197: reading a bit-sliced state as sixteen bytes turns
  every operation of the code into the operation of the standard, the key setup into the
  standard's key expansion, and decryption inverts encryption.
\<close>

section \<open>Reading a sliced state\<close>

definition wf_state :: "AES_state \<Rightarrow> bool" where
  "wf_state s \<longleftrightarrow> length (slice s) = 8"

definition cell :: "AES_state \<Rightarrow> nat \<Rightarrow> u8" where
  "cell s p = horner_sum of_bool 2 (map (\<lambda>i. bit (slice s ! i) p) [0..<8])"

definition cells :: "AES_state \<Rightarrow> u8 list" where
  "cells s = map (cell s) [0..<16]"

lemma bit_cell [bit_simps]: "bit (cell s p) i \<longleftrightarrow> i < 8 \<and> bit (slice s ! i) p"
  by (auto simp: cell_def bit_horner_sum_bit_word_iff)

lemma length_cells [simp]: "length (cells s) = 16"
  by (simp add: cells_def)

lemma cells_nth [simp]: "p < 16 \<Longrightarrow> cells s ! p = cell s p"
  by (simp add: cells_def)

lemma cells_eqI: "length xs = 16 \<Longrightarrow> (\<And>p. p < 16 \<Longrightarrow> cell s p = xs ! p) \<Longrightarrow> cells s = xs"
  by (simp add: list_eq_iff_nth_eq)

lemma slice_eqI:
  fixes x y :: u16
  shows "(\<And>p. p < 16 \<Longrightarrow> bit x p = bit y p) \<Longrightarrow> x = y"
  by (rule u16_eqI) simp

lemma state_eqI:
  assumes "wf_state s" "wf_state t" "cells s = cells t"
  shows "s = t"
proof -
  have "slice s ! i = slice t ! i" if "i < 8" for i
  proof (rule slice_eqI)
    fix p :: nat
    assume p: "p < 16"
    have "cell s p = cell t p" using assms(3) cells_nth [OF p] by metis
    then show "bit (slice s ! i) p = bit (slice t ! i) p"
      using that by (metis bit_cell)
  qed
  then have "slice s = slice t"
    using assms(1,2) by (simp add: wf_state_def list_eq_iff_nth_eq)
  then show ?thesis by simp
qed

lemma LoadByte_slice:
  assumes "wf_state s"
  shows "slice (LoadByte s byte r c) =
    map (\<lambda>i. slice s ! i OR push_bit (r * 4 + c) (ucast (drop_bit i byte AND 1))) [0..<8]"
proof -
  obtain a0 a1 a2 a3 a4 a5 a6 a7 where s: "slice s = [a0, a1, a2, a3, a4, a5, a6, a7]"
    using assms unfolding wf_state_def by (rule length_8E)
  show ?thesis
    by (simp add: LoadByte_def upt_lists s drop_bit_drop_bit) (simp add: eval_nat_numeral)
qed

lemma wf_LoadByte [simp]: "wf_state s \<Longrightarrow> wf_state (LoadByte s byte r c)"
  by (simp add: wf_state_def LoadByte_slice)

lemma cell_LoadByte:
  assumes "wf_state s" "p < 16" "q = r * 4 + c"
  shows "cell (LoadByte s byte r c) p = cell s p OR (if p = q then byte else 0)"
proof (rule bit_word_eqI)
  fix i
  have one: "bit (push_bit q (ucast (drop_bit i byte AND 1) :: u16)) p \<longleftrightarrow> p = q \<and> bit byte i"
    using assms(2) by (auto simp: bit_simps)
  show "bit (cell (LoadByte s byte r c) p) i = bit (cell s p OR (if p = q then byte else 0)) i"
    using assms one by (auto simp: bit_cell LoadByte_slice bit_or_iff dest: bit_imp_le_length)
qed

lemma cell_zero [simp]: "p < 16 \<Longrightarrow> cell zero_state p = 0"
  by (rule bit_word_eqI) (auto simp: bit_cell zero_state_def)

lemma wf_zero [simp]: "wf_state zero_state"
  by (simp add: wf_state_def zero_state_def)

lemma product44: "List.product [0..<4] [0..<4] =
  [(0, 0), (0, 1), (0, 2), (0, 3), (1, 0), (1, 1), (1, 2), (1, 3),
   (2, 0), (2, 1), (2, 2), (2, 3), (3, 0), (3, 1), (3, 2), (3, 3 :: nat)]"
  by (simp add: upt_lists)

lemma LoadBytes_cells:
  assumes "length d = 16"
  shows "cells (LoadBytes zero_state d) = aes_in d" and "wf_state (LoadBytes zero_state d)"
proof -
  obtain d0 d1 d2 d3 d4 d5 d6 d7 d8 d9 d10 d11 d12 d13 d14 d15 where
    d: "d = [d0, d1, d2, d3, d4, d5, d6, d7, d8, d9, d10, d11, d12, d13, d14, d15]"
    using list16_conv [OF assms] by blast
  show wf: "wf_state (LoadBytes zero_state d)"
    by (simp add: LoadBytes_def product44 d)
  show "cells (LoadBytes zero_state d) = aes_in d"
    by (simp add: cells_def LoadBytes_def product44 d aes_in_def upt_lists cell_LoadByte)
qed

lemma bit_foldl_or: "bit (foldl (\<lambda>v b. v OR f b) a bs) i \<longleftrightarrow> bit (a :: u8) i \<or> (\<exists>b\<in>set bs. bit (f b) i)"
  by (induction bs arbitrary: a) (auto simp: bit_or_iff)

lemma SaveByte_cell: "SaveByte s r c = cell s (r * 4 + c)"
proof (rule bit_word_eqI)
  fix i :: nat
  assume i: "i < LENGTH(8)"
  have "bit (push_bit b (ucast (drop_bit (r * 4 + c) (slice s ! b) AND 1) :: u8)) i \<longleftrightarrow>
      i = b \<and> bit (slice s ! b) (r * 4 + c)" for b
    using i by (auto simp: bit_simps)
  then show "bit (SaveByte s r c) i = bit (cell s (r * 4 + c)) i"
    unfolding SaveByte_def bit_foldl_or using i by (auto simp: bit_cell)
qed

lemma SaveBytes_cells: "SaveBytes s = aes_out (cells s)"
  by (simp add: SaveBytes_def product44 aes_out_def upt_lists SaveByte_cell)

lemma aes_out_in: "length d = 16 \<Longrightarrow> aes_out (aes_in d) = d"
  by (simp add: aes_out_def aes_in_def upt_lists flip: list16_conv del: One_nat_def)

lemma aes_in_out: "length s = 16 \<Longrightarrow> aes_in (aes_out s) = s"
  by (subst (2) list16_conv) (simp_all add: aes_out_def aes_in_def upt_lists numeral_2_eq_2)

section \<open>Row and column operations\<close>

lemma ROT_bit:
  assumes "0 < b" "b < 4" "p < 16"
  shows "bit (ROT x b) p = bit x ((p + 4 * b) mod 16)"
proof -
  have "\<forall>p<16. bit (ROT x b) p = bit x ((p + 4 * b) mod 16)" if "b = 1 \<or> b = 2 \<or> b = 3"
    using that
    by (elim disjE; simp add: all_less_numeral ROT_def bit_simps bit_beyond; (simp add: numeral_2_eq_2)?)
  with assms show ?thesis by (cases "b = 1"; cases "b = 2") auto
qed

lemma ROT_xor: "0 < b \<Longrightarrow> b < 4 \<Longrightarrow> ROT (x XOR y) b = ROT x b XOR ROT y b"
  by (rule slice_eqI) (simp add: ROT_bit bit_xor_iff)

lemma ROT_ROT:
  "ROT (ROT x 1) 1 = ROT x 2" "ROT (ROT x 1) 2 = ROT x 3" "ROT (ROT x 1) 3 = x"
  "ROT (ROT x 2) 1 = ROT x 3" "ROT (ROT x 2) 2 = x" "ROT (ROT x 2) 3 = ROT x 1"
  "ROT (ROT x 3) 1 = x" "ROT (ROT x 3) 2 = ROT x 1" "ROT (ROT x 3) 3 = ROT x 2"
  by (rule u16_eqI, simp add: ROT_bit all_less_numeral)+

lemma MixColumns_twice: "length sl = 8 \<Longrightarrow> MixColumns_fwd (MixColumns_fwd sl) = MixColumns_inv sl"
  by (erule length_8E)
    (simp add: MixColumns_fwd_def MixColumns_inv_def Let_def ROT_xor ROT_ROT [unfolded One_nat_def] word_xor_ac)

lemma MixColumns_inv_inv: "length sl = 8 \<Longrightarrow> MixColumns_inv (MixColumns_inv sl) = sl"
  by (erule length_8E)
    (simp add: MixColumns_inv_def Let_def ROT_xor ROT_ROT [unfolded One_nat_def] word_xor_ac)

definition shift_src :: "nat \<Rightarrow> nat" where
  "shift_src p = 4 * (p div 4) + (p mod 4 + p div 4) mod 4"

lemma bit_BIT_RANGE: "f \<le> t \<Longrightarrow> t \<le> 16 \<Longrightarrow> bit (BIT_RANGE f t) n \<longleftrightarrow> f \<le> n \<and> n < t"
proof -
  assume "f \<le> t" "t \<le> 16"
  have "push_bit (t - f) 1 - 1 = (mask (t - f) :: u16)"
    by (simp add: mask_eq_exp_minus_1 push_bit_of_1)
  with \<open>f \<le> t\<close> \<open>t \<le> 16\<close> show ?thesis
    by (auto simp: BIT_RANGE_def bit_simps)
qed

lemma bit_BIT_RANGE_shift:
  assumes "f \<le> t" "t \<le> 16"
  shows "bit (BIT_RANGE_LEFT x f t k) n \<longleftrightarrow> n < 16 \<and> f + k \<le> n \<and> n < t + k \<and> bit x (n - k)"
    and "bit (BIT_RANGE_RIGHT x f t k) n \<longleftrightarrow> f \<le> k + n \<and> k + n < t \<and> bit x (k + n)"
  using assms by (auto simp: BIT_RANGE_LEFT_def BIT_RANGE_RIGHT_def bit_simps bit_BIT_RANGE)

lemma ShiftRows_bit:
  fixes v :: u16
  defines "w \<equiv> (v AND BIT_RANGE 0 4) OR
    BIT_RANGE_LEFT v 4 5 3 OR BIT_RANGE_RIGHT v 5 8 1 OR
    BIT_RANGE_LEFT v 8 10 2 OR BIT_RANGE_RIGHT v 10 12 2 OR
    BIT_RANGE_LEFT v 12 15 1 OR BIT_RANGE_RIGHT v 15 16 3"
  shows "p < 16 \<Longrightarrow> bit w p = bit v (shift_src p)"
proof -
  have "\<forall>p<16. bit w p = bit v (shift_src p)"
    by (simp add: w_def all_less_numeral bit_or_iff bit_and_iff bit_BIT_RANGE_shift bit_BIT_RANGE shift_src_def)
  then show "p < 16 \<Longrightarrow> ?thesis" by simp
qed

lemma InvShiftRows_bit:
  fixes v :: u16
  defines "w \<equiv> (v AND BIT_RANGE 0 4) OR
    BIT_RANGE_LEFT v 4 7 1 OR BIT_RANGE_RIGHT v 7 8 3 OR
    BIT_RANGE_LEFT v 8 10 2 OR BIT_RANGE_RIGHT v 10 12 2 OR
    BIT_RANGE_LEFT v 12 13 3 OR BIT_RANGE_RIGHT v 13 16 1"
  shows "p < 16 \<Longrightarrow> bit w (shift_src p) = bit v p"
proof -
  have "\<forall>p<16. bit w (shift_src p) = bit v p"
    by (simp add: w_def all_less_numeral bit_or_iff bit_and_iff bit_BIT_RANGE_shift bit_BIT_RANGE shift_src_def)
  then show "p < 16 \<Longrightarrow> ?thesis" by simp
qed

section \<open>The round operations on bytes\<close>

lemma agree_lanes: "p < 16 \<Longrightarrow> wf_state s \<Longrightarrow> agree p (slice s) (lanes (cell s p))"
  by (simp add: agree_def wf_state_def lanes_def fill_def ones_def bit_cell)

lemma agree_lanes_cell:
  assumes "p < 16" "agree p (slice s) (lanes x)"
  shows "cell s p = x"
proof (rule bit_word_eqI)
  fix i :: nat
  assume i: "i < LENGTH(8)"
  have "length (slice s) = 8" using assms(2) by (simp add: agree_def lanes_def)
  then have "bit (slice s ! i) p = bit (lanes x ! i) p"
    using agree_nth [OF assms(2), of i] i by simp
  also have "\<dots> = bit x i"
    using assms(1) i by (simp add: lanes_def fill_def ones_def)
  finally show "bit (cell s p) i = bit x i"
    using i by (simp add: bit_cell)
qed

lemma wf_ops [simp]:
  "wf_state (SubBytes s b)" "wf_state s \<Longrightarrow> wf_state (ShiftRows s)" "wf_state s \<Longrightarrow> wf_state (InvShiftRows s)"
  "wf_state (MixColumns s b)" "wf_state (AddRoundKey s k)"
  by (cases b; simp add: wf_state_def SubBytes_slices ShiftRows_def InvShiftRows_def MixColumns_def
      MixColumns_fwd_def MixColumns_inv_def AddRoundKey_def Let_def)+

lemma cell_SubBytes: "p < 16 \<Longrightarrow> wf_state s \<Longrightarrow> cell (SubBytes s False) p = sbox (cell s p)"
  using agree_Sub(1) [of p "slice s"] agree_lanes [of p s]
  by (intro agree_lanes_cell) (simp_all add: SubBytes_slices wf_state_def flip: Sub_fwd_lanes)

lemma SubBytes_cells: "wf_state s \<Longrightarrow> cells (SubBytes s False) = aes_sub (cells s)"
  by (simp add: cells_def aes_sub_def cell_SubBytes)

lemma SubBytes_inverse:
  assumes "wf_state s"
  shows "SubBytes (SubBytes s False) True = s"
proof (rule state_eqI)
  show "cells (SubBytes (SubBytes s False) True) = cells s"
  proof (rule cells_eqI)
    fix p :: nat
    assume p: "p < 16"
    have "agree p (slice (SubBytes s False)) (lanes (sbox (cell s p)))"
      using agree_lanes [OF p wf_ops(1) [of s False]] cell_SubBytes [OF p assms] by simp
    from agree_Sub(2) [OF p _ this]
    have "agree p (slice (SubBytes (SubBytes s False) True)) (lanes (cell s p))"
      by (simp add: SubBytes_slices Sub_bwd_lanes)
    then show "cell (SubBytes (SubBytes s False) True) p = cells s ! p"
      using p by (simp add: agree_lanes_cell)
  qed simp
qed (use assms in simp_all)

lemma shift_src_bij:
  "p < 16 \<Longrightarrow> shift_src p < 16" "p < 16 \<Longrightarrow> \<exists>q<16. p = shift_src q"
proof -
  have "\<forall>p<16. shift_src p < 16 \<and> 4 * (p div 4) + (p mod 4 + 4 - p div 4) mod 4 < 16 \<and>
      p = shift_src (4 * (p div 4) + (p mod 4 + 4 - p div 4) mod 4)"
    by (simp add: all_less_numeral shift_src_def)
  then show "p < 16 \<Longrightarrow> shift_src p < 16" "p < 16 \<Longrightarrow> \<exists>q<16. p = shift_src q" by blast+
qed

lemma cell_ShiftRows:
  assumes "wf_state s" "p < 16"
  shows "cell (ShiftRows s) p = cell s (shift_src p)"
  using assms
  by (intro bit_word_eqI) (auto simp: bit_cell ShiftRows_def ShiftRows_bit wf_state_def simp del: One_nat_def)

lemma cell_InvShiftRows:
  assumes "wf_state s" "p < 16"
  shows "cell (InvShiftRows s) (shift_src p) = cell s p"
  using assms
  by (intro bit_word_eqI) (auto simp: bit_cell InvShiftRows_def InvShiftRows_bit wf_state_def simp del: One_nat_def)

lemma ShiftRows_cells: "wf_state s \<Longrightarrow> cells (ShiftRows s) = aes_shift (cells s)"
  using shift_src_bij(1) by (intro cells_eqI) (simp_all add: aes_shift_def cell_ShiftRows shift_src_def)

lemma InvShiftRows_ShiftRows:
  assumes "wf_state s"
  shows "InvShiftRows (ShiftRows s) = s"
proof (rule state_eqI)
  show "cells (InvShiftRows (ShiftRows s)) = cells s"
  proof (rule cells_eqI)
    fix p :: nat
    assume p: "p < 16"
    then obtain q where "q < 16" "p = shift_src q" using shift_src_bij(2) by blast
    with assms p show "cell (InvShiftRows (ShiftRows s)) p = cells s ! p"
      by (simp add: cell_InvShiftRows cell_ShiftRows)
  qed simp
qed (use assms in simp_all)

lemma MixColumns_inverse:
  assumes "wf_state s"
  shows "MixColumns (MixColumns s False) True = s"
  using assms by (simp add: MixColumns_def wf_state_def MixColumns_twice MixColumns_inv_inv)

lemma column_index:
  fixes p k :: nat
  shows "p < 16 \<Longrightarrow> 4 * ((p div 4 + k) mod 4) + p mod 4 = (p + 4 * k) mod 16"
proof -
  assume "p < 16"
  have "(p + 4 * k) mod 16 = 4 * ((p + 4 * k) div 4 mod 4) + (p + 4 * k) mod 4"
    using mod_mult2_eq [of "p + 4 * k" 4 4] by simp
  then show ?thesis by (simp add: add.commute)
qed

lemma bit_xtime:
  "bit (xtime x) 0 = bit x 7" "bit (xtime x) 1 = bxor (bit x 0) (bit x 7)" "bit (xtime x) 2 = bit x 1"
  "bit (xtime x) 3 = bxor (bit x 2) (bit x 7)" "bit (xtime x) 4 = bxor (bit x 3) (bit x 7)"
  "bit (xtime x) 5 = bit x 4" "bit (xtime x) 6 = bit x 5" "bit (xtime x) 7 = bit x 6"
  by (auto simp: xtime_def bit_simps bxor_def simp del: push_bit_Suc)

lemma MixColumns_cells:
  assumes "wf_state s"
  shows "cells (MixColumns s False) = aes_mix (cells s)"
proof (rule cells_eqI)
  fix p :: nat
  assume p: "p < 16"
  have c: "cells s ! (4 * ((p div 4 + k) mod 4) + p mod 4) = cell s ((p + 4 * k) mod 16)" for k
    using p by (simp add: column_index)
  let ?c = "\<lambda>k. cell s ((p + 4 * k) mod 16)"
  have mix: "aes_mix (cells s) ! p = xtime (?c 0) XOR (xtime (?c 1) XOR ?c 1) XOR ?c 2 XOR ?c 3"
    unfolding aes_mix_def using p
    by (simp only: nth_map length_upt nth_upt minus_nat.diff_0 add_0 Let_def c)
  obtain s0 s1 s2 s3 s4 s5 s6 s7 where sl: "slice s = [s0, s1, s2, s3, s4, s5, s6, s7]"
    using assms unfolding wf_state_def by (rule length_8E)
  have m: "((p + 4) mod 16 + 4) mod 16 = (p + 8) mod 16" by (simp add: mod_simps add.commute)
  have "\<forall>i<8. bit (cell (MixColumns s False) p) i = bit (aes_mix (cells s) ! p) i"
    unfolding mix using p
    by (simp add: all_less_numeral bit_cell MixColumns_def MixColumns_fwd_def Let_def sl
        bit_xor_bxor bit_xtime bit_xtime [unfolded One_nat_def] ROT_bit bxor_ac m)
  then show "cell (MixColumns s False) p = aes_mix (cells s) ! p"
    by (rule u8_eqI)
qed (simp add: aes_mix_def)

lemma AddRoundKey_cells: "cells (AddRoundKey s k) = aes_add (cells s) (cells k)"
  by (rule cells_eqI) (auto simp: aes_add_def AddRoundKey_def bit_cell bit_xor_iff intro!: bit_word_eqI)

lemma AddRoundKey_inverse: "wf_state s \<Longrightarrow> AddRoundKey (AddRoundKey s k) k = s"
  by (rule state_eqI) (simp_all add: AddRoundKey_cells aes_add_def list_eq_iff_nth_eq)

section \<open>Decryption inverts encryption\<close>

definition enc_round :: "AES_state list \<Rightarrow> AES_state \<Rightarrow> nat \<Rightarrow> AES_state" where
  "enc_round rounds s i = AddRoundKey (MixColumns (ShiftRows (SubBytes s False)) False) (rounds ! i)"

definition dec_round :: "AES_state list \<Rightarrow> AES_state \<Rightarrow> nat \<Rightarrow> AES_state" where
  "dec_round rounds s i = MixColumns (AddRoundKey (SubBytes (InvShiftRows s) True) (rounds ! i)) True"

lemma AES_encrypt_rounds:
  "AES_encrypt rounds n d = SaveBytes (AddRoundKey (ShiftRows (SubBytes
    (foldl (enc_round rounds) (AddRoundKey (LoadBytes zero_state d) (rounds ! 0)) [1..<n]) False)) (rounds ! n))"
  by (simp add: AES_encrypt_def enc_round_def [abs_def] Let_def)

lemma AES_decrypt_rounds:
  "AES_decrypt rounds n d = SaveBytes (AddRoundKey (SubBytes (InvShiftRows
    (foldl (\<lambda>s i. dec_round rounds s (n - i)) (AddRoundKey (LoadBytes zero_state d) (rounds ! n)) [1..<n])) True) (rounds ! 0))"
  by (simp add: AES_decrypt_def dec_round_def [abs_def] Let_def)

lemma wf_enc_rounds: "wf_state s \<Longrightarrow> wf_state (foldl (enc_round rounds) s is)"
  by (induction "is" arbitrary: s) (simp_all add: enc_round_def)

lemma LoadBytes_SaveBytes: "wf_state s \<Longrightarrow> LoadBytes zero_state (SaveBytes s) = s"
  by (rule state_eqI) (simp_all add: LoadBytes_cells SaveBytes_cells aes_in_out aes_out_def [THEN arg_cong, of length])

lemma SaveBytes_LoadBytes: "length d = 16 \<Longrightarrow> SaveBytes (LoadBytes zero_state d) = d"
  by (simp add: SaveBytes_cells LoadBytes_cells aes_out_in)

lemma AES_decrypt_encrypt:
  assumes d: "length d = 16" and n: "0 < n"
  shows "AES_decrypt rounds n (AES_encrypt rounds n d) = d"
proof -
  define S where "S = AddRoundKey (LoadBytes zero_state d) (rounds ! 0)"
  define E where "E j = foldl (enc_round rounds) S [1..<Suc j]" for j
  define Y where "Y j = ShiftRows (SubBytes (E j) False)" for j
  have wfE: "wf_state (E j)" for j
    unfolding E_def by (rule wf_enc_rounds) (simp add: S_def)
  have undo: "SubBytes (InvShiftRows (Y j)) True = E j" for j
    by (simp add: Y_def InvShiftRows_ShiftRows SubBytes_inverse wfE)
  have step: "dec_round rounds (Y (Suc j)) (Suc j) = Y j" for j
  proof -
    have "E (Suc j) = AddRoundKey (MixColumns (Y j) False) (rounds ! Suc j)"
      by (simp add: E_def enc_round_def Y_def)
    then show ?thesis
      by (simp add: dec_round_def undo AddRoundKey_inverse MixColumns_inverse) (simp add: Y_def wfE MixColumns_inverse)
  qed
  have "foldl (\<lambda>s i. dec_round rounds s (n - i)) (Y (n - 1)) [1..<Suc m] = Y (n - Suc m)" if "Suc m \<le> n" for m
    using that
  proof (induction m)
    case (Suc m)
    then have "n - Suc m = Suc (n - Suc (Suc m))" by simp
    with Suc step show ?case by simp
  qed simp
  from this [of "n - 1"] n
  have loop: "foldl (\<lambda>s i. dec_round rounds s (n - i)) (Y (n - 1)) [1..<n] = Y 0" by simp
  have "AES_encrypt rounds n d = SaveBytes (AddRoundKey (Y (n - 1)) (rounds ! n))"
    using n by (simp add: AES_encrypt_rounds Y_def E_def S_def)
  then have "AES_decrypt rounds n (AES_encrypt rounds n d) =
      SaveBytes (AddRoundKey (SubBytes (InvShiftRows (Y 0)) True) (rounds ! 0))"
    using loop by (simp add: AES_decrypt_rounds LoadBytes_SaveBytes AddRoundKey_inverse Y_def wfE)
  also have "\<dots> = SaveBytes (LoadBytes zero_state d)"
    by (simp add: undo E_def S_def AddRoundKey_inverse LoadBytes_cells d)
  finally show ?thesis by (simp add: SaveBytes_LoadBytes d)
qed

lemma length_AES_encrypt [simp]: "length (AES_encrypt rounds n d) = 16"
  by (simp add: AES_encrypt_rounds SaveBytes_cells aes_out_def)

section \<open>Encryption implements the standard\<close>

lemma AES_encrypt_spec:
  assumes "length d = 16"
  shows "AES_encrypt rounds n d = aes_cipher (\<lambda>i. cells (rounds ! i)) n d"
proof -
  have "cells (foldl (enc_round rounds) s is) =
      foldl (\<lambda>s i. aes_add (aes_mix (aes_shift (aes_sub s))) (cells (rounds ! i))) (cells s) is"
    if "wf_state s" for s "is"
    using that
  proof (induction "is" arbitrary: s)
    case (Cons i "is")
    have "cells (enc_round rounds s i) = aes_add (aes_mix (aes_shift (aes_sub (cells s)))) (cells (rounds ! i))"
      using Cons.prems by (simp add: enc_round_def AddRoundKey_cells MixColumns_cells ShiftRows_cells SubBytes_cells)
    moreover have "wf_state (enc_round rounds s i)" by (simp add: enc_round_def)
    ultimately show ?case using Cons.IH by simp
  qed simp
  then show ?thesis
    using assms
    by (simp add: AES_encrypt_rounds aes_cipher_def Let_def SaveBytes_cells AddRoundKey_cells ShiftRows_cells
        SubBytes_cells LoadBytes_cells wf_enc_rounds)
qed

section \<open>The key schedule implements the standard\<close>

lemma bit_columns: "bit (0x1111 :: u16) n \<longleftrightarrow> n < 16 \<and> n mod 4 = 0"
proof -
  have "\<forall>n<16. bit (0x1111 :: u16) n \<longleftrightarrow> n mod 4 = 0"
    by (simp add: all_less_numeral)
  then show ?thesis by (cases "n < 16") (simp_all add: bit_beyond)
qed

lemma bit_and_columns: "bit (x AND 0x1111 :: u16) n \<longleftrightarrow> n mod 4 = 0 \<and> bit x n"
  unfolding bit_and_iff bit_columns by (auto dest: bit_imp_le_length)

lemma cell_GetOneColumn:
  assumes "r < 4" "c < 4"
  shows "cell (GetOneColumn a c) (4 * r) = cell a (4 * r + c)"
  using assms
  by (intro bit_word_eqI) (auto simp: bit_cell GetOneColumn_def bit_and_columns bit_drop_bit_eq add.commute)

lemma wf_key_ops [simp]:
  "wf_state (GetOneColumn a c)" "wf_state (KeySetupTransform s k)" "wf_state (MultX s)"
  "wf_state (fst (KeySetupColumnMix s r a c1 c2))" "wf_state (snd (KeySetupColumnMix s r a c1 c2))"
  by (simp_all add: wf_state_def GetOneColumn_def KeySetupTransform_def MultX_def KeySetupColumnMix_def Let_def)

lemma cell_ColumnMix_s:
  assumes "r < 4" "c2 < 4"
  shows "cell (fst (KeySetupColumnMix s k a c1 c2)) (4 * r) = cell s (4 * r) XOR cell a (4 * r + c2)"
  using assms
  by (intro bit_word_eqI) (auto simp: bit_cell KeySetupColumnMix_def Let_def bit_xor_iff bit_and_columns bit_drop_bit_eq add.commute)

lemma cell_ColumnMix_r:
  assumes "r < 4" "c < 4" "c1 < 4"
  shows "cell (snd (KeySetupColumnMix s k a c1 c2)) (4 * r + c) =
    (if c = c1 then cell k (4 * r + c) OR cell (fst (KeySetupColumnMix s k a c1 c2)) (4 * r) else cell k (4 * r + c))"
proof (rule bit_word_eqI)
  fix i :: nat
  assume i: "i < LENGTH(8)"
  let ?s = "fst (KeySetupColumnMix s k a c1 c2)"
  have "bit (push_bit c1 (slice ?s ! i AND 0x1111)) (4 * r + c) \<longleftrightarrow> c = c1 \<and> bit (slice ?s ! i) (4 * r)"
  proof (cases "c1 \<le> 4 * r + c")
    case True
    have "(4 * r + c - c1) mod 4 = 0 \<longleftrightarrow> c = c1"
    proof (cases "c1 \<le> c")
      case True
      then have "4 * r + c - c1 = 4 * r + (c - c1)" by simp
      then have "(4 * r + c - c1) mod 4 = c - c1" using assms by simp
      with True show ?thesis by auto
    next
      case False
      define d where "d = 4 + c - c1"
      have "0 < r" using False \<open>c1 \<le> 4 * r + c\<close> by (cases r) auto
      then have "4 * r + c - c1 = 4 * (r - 1) + d" and d: "0 < d" "d < 4"
        using False assms by (auto simp: d_def)
      then have "(4 * r + c - c1) mod 4 = d" by simp
      with False d show ?thesis by auto
    qed
    with True assms show ?thesis by (auto simp: bit_push_bit_iff bit_and_columns simp del: push_bit_and)
  qed (use assms in \<open>auto simp: bit_push_bit_iff simp del: push_bit_and\<close>)
  then show "bit (cell (snd (KeySetupColumnMix s k a c1 c2)) (4 * r + c)) i =
      bit (if c = c1 then cell k (4 * r + c) OR cell ?s (4 * r) else cell k (4 * r + c)) i"
    using i by (simp add: bit_cell bit_or_iff KeySetupColumnMix_def Let_def)
qed

lemma cell_Transform:
  assumes "r < 4"
  shows "cell (KeySetupTransform s k) (4 * r) = cell s (4 * ((r + 1) mod 4)) XOR cell k (4 * r)"
proof -
  have "bit (drop_bit 4 x OR push_bit 12 x) (4 * r) = bit x (4 * ((r + 1) mod 4))" for x :: u16
  proof -
    have "\<forall>r<4. bit (drop_bit 4 x OR push_bit 12 x) (4 * r) = bit x (4 * ((r + 1) mod 4))"
      by (simp add: all_less_numeral bit_simps bit_beyond)
    with assms show ?thesis by simp
  qed
  then show ?thesis
    by (intro bit_word_eqI) (auto simp: bit_cell KeySetupTransform_def bit_xor_iff)
qed

lemma cell_MultX: "wf_state s \<Longrightarrow> cell (MultX s) p = xtime (cell s p)"
proof -
  assume "wf_state s"
  then obtain s0 s1 s2 s3 s4 s5 s6 s7 where sl: "slice s = [s0, s1, s2, s3, s4, s5, s6, s7]"
    unfolding wf_state_def by (rule length_8E)
  show ?thesis
    by (rule u8_eqI)
      (simp add: all_less_numeral bit_cell MultX_def Let_def sl bit_xor_bxor bit_xtime bit_xtime [unfolded One_nat_def] bxor_ac)
qed


lemma length_aes_word: "0 < nk \<Longrightarrow> length key = 4 * nk \<Longrightarrow> length (aes_word nk key i) = 4"
proof (induction nk key i rule: aes_word.induct)
  case (1 nk key i)
  show ?case
  proof (cases "i < nk")
    case True
    then show ?thesis using "1.prems" by (subst aes_word.simps) simp
  next
    case False
    then have "length (aes_word nk key (i - 1)) = 4" "length (aes_word nk key (i - nk)) = 4"
      using "1.IH" "1.prems" by simp_all
    with False "1.prems" show ?thesis by (subst aes_word.simps) (simp add: Let_def)
  qed
qed

text \<open>The word that enters the exclusive or for schedule word \<open>i\<close>.\<close>

definition aes_temp :: "nat \<Rightarrow> bytes \<Rightarrow> nat \<Rightarrow> u8 list" where
  "aes_temp nk key i =
    (let t = aes_word nk key (i - 1)
     in if i mod nk = 0 then map2 (XOR) (map sbox (rotate1 t)) [aes_rcon (i div nk), 0, 0, 0]
        else if 6 < nk \<and> i mod nk = 4 then map sbox t else t)"

lemma aes_word_step:
  assumes "0 < nk" "length key = 4 * nk" "nk \<le> i" "r < 4"
  shows "aes_word nk key i ! r = aes_word nk key (i - nk) ! r XOR aes_temp nk key i ! r"
proof -
  have "length (aes_temp nk key i) = 4"
    using length_aes_word [OF assms(1,2)] by (simp add: aes_temp_def Let_def)
  then have "r < length (aes_temp nk key i)" "r < length (aes_word nk key (i - nk))"
    using assms(4) length_aes_word [OF assms(1,2)] by simp_all
  moreover have "aes_word nk key i = map2 (XOR) (aes_word nk key (i - nk)) (aes_temp nk key i)"
    using assms(1,3) by (subst aes_word.simps) (simp add: aes_temp_def Let_def)
  ultimately show ?thesis by simp
qed

text \<open>
  What the expansion loop maintains: the columns below \<open>i\<close> hold the schedule words, the others
  are zero, \<^verbatim>\<open>column\<close> holds the last word and \<^verbatim>\<open>rcon\<close> the next round constant.
\<close>

definition holds_word :: "AES_state \<Rightarrow> nat \<Rightarrow> u8 list \<Rightarrow> bool" where
  "holds_word s c w \<longleftrightarrow> (\<forall>r<4. cell s (4 * r + c) = w ! r)"

definition schedule_upto :: "nat \<Rightarrow> bytes \<Rightarrow> nat \<Rightarrow> nat \<Rightarrow> AES_state list \<Rightarrow> bool" where
  "schedule_upto nk key nr i rounds \<longleftrightarrow> length rounds = nr + 1 \<and> (\<forall>s\<in>set rounds. wf_state s) \<and>
    (\<forall>j<4 * (nr + 1). holds_word (rounds ! (j div 4)) (j mod 4) (if j < i then aes_word nk key j else replicate 4 0))"

definition setup_inv :: "nat \<Rightarrow> bytes \<Rightarrow> nat \<Rightarrow> nat \<Rightarrow> AES_state list \<times> AES_state \<times> AES_state \<times> nat \<Rightarrow> bool" where
  "setup_inv nk key nr i st \<longleftrightarrow> (case st of (rounds, column, rcon, pos) \<Rightarrow>
    schedule_upto nk key nr i rounds \<and> wf_state column \<and> holds_word column 0 (aes_word nk key (i - 1)) \<and>
    wf_state rcon \<and> holds_word rcon 0 [aes_rcon ((i + nk - 1) div nk), 0, 0, 0] \<and> pos = i mod nk)"

lemma ceil_div:
  fixes i nk :: nat
  assumes "0 < nk"
  shows "(i + nk - 1) div nk = (if i mod nk = 0 then i div nk else i div nk + 1)"
proof -
  define q r where "q = i div nk" and "r = i mod nk"
  have i: "i = q * nk + r" and r: "r < nk" using assms by (simp_all add: q_def r_def)
  have "(i + nk - 1) div nk = (if r = 0 then q else q + 1)"
    using r by (intro div_nat_eqI) (auto simp: i algebra_simps)
  then show ?thesis by (simp add: q_def r_def)
qed

lemma aes_rcon_Suc: "0 < j \<Longrightarrow> aes_rcon (Suc j) = xtime (aes_rcon j)"
  by (cases j) (simp_all add: aes_rcon_def)

lemma xtime_0 [simp]: "xtime 0 = 0"
  by (simp add: xtime_def)

lemma all4: "(\<forall>r<4. P (r :: nat)) \<longleftrightarrow> P 0 \<and> P 1 \<and> P 2 \<and> P 3"
  by (auto simp: less_Suc_eq eval_nat_numeral)

lemma holds_SubBytes: "wf_state s \<Longrightarrow> length w = 4 \<Longrightarrow> holds_word s 0 w \<Longrightarrow> holds_word (SubBytes s False) 0 (map sbox w)"
  by (simp add: holds_word_def cell_SubBytes)

lemma holds_Transform:
  assumes "length w = 4" "holds_word s 0 w" "holds_word k 0 v" "length v = 4"
  shows "holds_word (KeySetupTransform s k) 0 (map2 (XOR) (rotate1 w) v)"
proof -
  obtain a b c d where w: "w = [a, b, c, d]" using assms(1) by (rule length_4E)
  obtain e f g h where v: "v = [e, f, g, h]" using assms(4) by (rule length_4E)
  show ?thesis
    using assms(2,3) cell_Transform [of 0 s k] cell_Transform [of 1 s k] cell_Transform [of 2 s k] cell_Transform [of 3 s k]
    by (simp add: holds_word_def all4 w v)
qed

lemma rotate1_map: "rotate1 (map f xs) = map f (rotate1 xs)"
  by (cases xs) simp_all

text \<open>The transformation of \<^verbatim>\<open>column\<close> and \<^verbatim>\<open>rcon\<close> at the start of a pass.\<close>

definition setup_transform :: "nat \<Rightarrow> nat \<Rightarrow> AES_state \<times> AES_state \<Rightarrow> AES_state \<times> AES_state" where
  "setup_transform nk pos cr = (case cr of (column, rcon) \<Rightarrow>
    if pos = 0 then (KeySetupTransform (SubBytes column False) rcon, MultX rcon)
    else if nk > 6 \<and> pos = 4 then (SubBytes column False, rcon) else (column, rcon))"

lemma setup_transform_inv:
  assumes nk: "0 < nk" "length key = 4 * nk" "nk \<le> i"
    and col: "wf_state column" "holds_word column 0 (aes_word nk key (i - 1))"
    and rc: "wf_state rcon" "holds_word rcon 0 [aes_rcon ((i + nk - 1) div nk), 0, 0, 0]"
    and t: "setup_transform nk (i mod nk) (column, rcon) = (column', rcon')"
  shows "wf_state column'" "holds_word column' 0 (aes_temp nk key i)"
    and "wf_state rcon'" "holds_word rcon' 0 [aes_rcon ((Suc i + nk - 1) div nk), 0, 0, 0]"
proof -
  note len = length_aes_word [OF nk(1,2), of "i - 1"]
  note sub = holds_SubBytes [OF col(1) len col(2)]
  show "wf_state column'" "wf_state rcon'"
    using t col(1) rc(1) by (auto simp: setup_transform_def split: if_splits)
  have next_rcon: "(Suc i + nk - 1) div nk = Suc (i div nk)" using nk(1) by (simp add: div_add_self2)
  show "holds_word column' 0 (aes_temp nk key i)"
  proof (cases "i mod nk = 0")
    case True
    then have "(i + nk - 1) div nk = i div nk" using ceil_div [OF nk(1)] by simp
    with True t holds_Transform [OF _ sub rc(2)] len show ?thesis
      by (simp add: setup_transform_def aes_temp_def Let_def rotate1_map)
  next
    case False
    with t sub col(2) show ?thesis
      by (auto simp: setup_transform_def aes_temp_def Let_def split: if_splits)
  qed
  show "holds_word rcon' 0 [aes_rcon ((Suc i + nk - 1) div nk), 0, 0, 0]"
  proof (cases "i mod nk = 0")
    case True
    moreover have "0 < i div nk" using nk by (simp add: div_greater_zero_iff)
    moreover have "(i + nk - 1) div nk = i div nk" using True ceil_div [OF nk(1)] by simp
    ultimately show ?thesis
      using t rc unfolding next_rcon
      by (auto simp: setup_transform_def holds_word_def all4 cell_MultX aes_rcon_Suc)
  next
    case False
    then have "(i + nk - 1) div nk = Suc (i div nk)" using ceil_div [OF nk(1), of i] by simp
    with False t rc(2) show ?thesis
      unfolding next_rcon by (auto simp: setup_transform_def split: if_splits)
  qed
qed

lemma AES_setup_step_transform:
  "AES_setup_step nk (rounds, column, rcon, pos) i =
    (case setup_transform nk pos (column, rcon) of (column, rcon) \<Rightarrow>
     case KeySetupColumnMix column (rounds ! (i div 4)) (rounds ! ((i - nk) div 4)) (i mod 4) ((i - nk) mod 4) of
       (column, r) \<Rightarrow> (rounds[i div 4 := r], column, rcon, if pos + 1 = nk then 0 else pos + 1))"
  by (simp add: AES_setup_step_def setup_transform_def Let_def split: prod.splits)

lemma schedule_upto_step:
  assumes sched: "schedule_upto nk key nr i rounds" and i: "i < 4 * (nr + 1)" and r: "wf_state r"
    and new: "\<And>q c. q < 4 \<Longrightarrow> c < 4 \<Longrightarrow>
      cell r (4 * q + c) = (if c = i mod 4 then aes_word nk key i ! q else cell (rounds ! (i div 4)) (4 * q + c))"
  shows "schedule_upto nk key nr (Suc i) (rounds[i div 4 := r])"
proof -
  have len: "length rounds = nr + 1" and wfs: "\<forall>s\<in>set rounds. wf_state s"
    using sched by (simp_all add: schedule_upto_def)
  have "holds_word ((rounds[i div 4 := r]) ! (j div 4)) (j mod 4)
      (if j < Suc i then aes_word nk key j else replicate 4 0)" if j: "j < 4 * (nr + 1)" for j
  proof -
    have old: "holds_word (rounds ! (j div 4)) (j mod 4) (if j < i then aes_word nk key j else replicate 4 0)"
      using sched j by (simp add: schedule_upto_def)
    have eq: "j = i" if "j div 4 = i div 4" "j mod 4 = i mod 4"
      using that by (metis div_mult_mod_eq)
    show ?thesis
    proof (cases "j div 4 = i div 4")
      case True
      then have "(rounds[i div 4 := r]) ! (j div 4) = r" using i len by simp
      with True old new eq show ?thesis by (auto simp: holds_word_def less_Suc_eq)
    next
      case False
      with old show ?thesis by (auto simp: less_Suc_eq)
    qed
  qed
  then show ?thesis
    using len wfs r set_update_subset_insert [of rounds "i div 4" r] by (auto simp: schedule_upto_def)
qed

lemma setup_inv_step:
  assumes nk: "0 < nk" "length key = 4 * nk" and i: "nk \<le> i" "i < 4 * (nr + 1)"
    and inv: "setup_inv nk key nr i st"
  shows "setup_inv nk key nr (Suc i) (AES_setup_step nk st i)"
proof -
  obtain rounds column rcon pos where st: "st = (rounds, column, rcon, pos)" by (cases st)
  have sched: "schedule_upto nk key nr i rounds" and col: "wf_state column" "holds_word column 0 (aes_word nk key (i - 1))"
    and rc: "wf_state rcon" "holds_word rcon 0 [aes_rcon ((i + nk - 1) div nk), 0, 0, 0]" and pos: "pos = i mod nk"
    using inv by (simp_all add: setup_inv_def st)
  obtain column1 rcon1 where t: "setup_transform nk (i mod nk) (column, rcon) = (column1, rcon1)"
    by (cases "setup_transform nk (i mod nk) (column, rcon)")
  note tr = setup_transform_inv [OF nk i(1) col rc t]
  let ?k = "rounds ! (i div 4)" and ?a = "rounds ! ((i - nk) div 4)"
  obtain column2 r where mix: "KeySetupColumnMix column1 ?k ?a (i mod 4) ((i - nk) mod 4) = (column2, r)"
    by (cases "KeySetupColumnMix column1 ?k ?a (i mod 4) ((i - nk) mod 4)")
  have wf2: "wf_state column2" "wf_state r"
    using wf_key_ops(4,5) [of column1 ?k ?a "i mod 4" "(i - nk) mod 4"] by (simp_all add: mix)
  have word: "cell column2 (4 * q) = aes_word nk key i ! q" if q: "q < 4" for q
  proof -
    have "holds_word ?a ((i - nk) mod 4) (aes_word nk key (i - nk))"
      using sched i nk(1) unfolding schedule_upto_def by (auto dest!: spec [of _ "i - nk"])
    then have "cell column2 (4 * q) = aes_temp nk key i ! q XOR aes_word nk key (i - nk) ! q"
      using cell_ColumnMix_s [of q "(i - nk) mod 4" column1 ?k ?a "i mod 4"] q tr(2) by (simp add: mix holds_word_def)
    then show ?thesis using aes_word_step [OF nk i(1) q] by (simp add: xor.commute)
  qed
  have new: "cell r (4 * q + c) = (if c = i mod 4 then aes_word nk key i ! q else cell ?k (4 * q + c))"
    if "q < 4" "c < 4" for q c
  proof -
    have "holds_word ?k (i mod 4) (replicate 4 0)"
      using sched i(2) unfolding schedule_upto_def by (auto dest!: spec [of _ i])
    then have "cell ?k (4 * q + i mod 4) = 0" using that(1) by (simp add: holds_word_def)
    with cell_ColumnMix_r [of q c "i mod 4" column1 ?k ?a "(i - nk) mod 4"] that word show ?thesis by (simp add: mix)
  qed
  have "schedule_upto nk key nr (Suc i) (rounds[i div 4 := r])"
    using new by (intro schedule_upto_step [OF sched i(2) wf2(2)])
  moreover have "(if i mod nk + 1 = nk then 0 else i mod nk + 1) = Suc i mod nk"
    by (simp add: mod_Suc)
  moreover have "holds_word column2 0 (aes_word nk key (Suc i - 1))" using word by (simp add: holds_word_def)
  ultimately show ?thesis
    using tr(3,4) wf2 unfolding setup_inv_def st AES_setup_step_transform pos t prod.case mix by blast
qed


section \<open>Loading the key\<close>

text \<open>One pass of the load loop moves the four bytes of a word into a column.\<close>

definition load_word :: "AES_state list \<times> bytes \<Rightarrow> nat \<Rightarrow> AES_state list \<times> bytes" where
  "load_word st i = foldl (\<lambda>(rounds, key) (i, r).
      (rounds[i div 4 := LoadByte (rounds ! (i div 4)) (hd key) r (i mod 4)], tl key)) st (map (Pair i) [0..<4])"

lemma AES_setup_load_words:
  "AES_setup_load nk nr key = fst (foldl load_word (replicate (nr + 1) zero_state, key) [0..<nk])"
  unfolding AES_setup_load_def product_concat_map foldl_concat_rounds load_word_def [abs_def] ..

lemma drop_word:
  "4 * i + 4 \<le> length xs \<Longrightarrow>
    drop (4 * i) xs = xs ! (4 * i) # xs ! (4 * i + 1) # xs ! (4 * i + 2) # xs ! (4 * i + 3) # drop (4 * Suc i) xs"
  by (rule nth_equalityI) (auto simp: nth_Cons split: nat.split, simp_all add: eval_nat_numeral)

lemma load_word_eq:
  assumes "i div 4 < length rounds" "4 * i + 4 \<le> length key"
  shows "load_word (rounds, drop (4 * i) key) i =
    (rounds[i div 4 := LoadByte (LoadByte (LoadByte (LoadByte (rounds ! (i div 4)) (key ! (4 * i)) 0 (i mod 4))
       (key ! (4 * i + 1)) 1 (i mod 4)) (key ! (4 * i + 2)) 2 (i mod 4)) (key ! (4 * i + 3)) 3 (i mod 4)],
     drop (4 * Suc i) key)"
  unfolding drop_word [OF assms(2)] load_word_def using assms(1) by (simp add: upt_lists)

lemma cell_load_word:
  assumes "wf_state s" "c < 4" "d < 4" "q < 4" "holds_word s c (replicate 4 0)"
  shows "cell (LoadByte (LoadByte (LoadByte (LoadByte s b0 0 c) b1 1 c) b2 2 c) b3 3 c) (4 * q + d) =
    (if d = c then [b0, b1, b2, b3] ! q else cell s (4 * q + d))"
proof -
  have "cell s (4 * q + c) = 0" using assms(4,5) by (simp add: holds_word_def)
  moreover have "q = 0 \<or> q = 1 \<or> q = 2 \<or> q = 3" using assms(4) by auto
  ultimately show ?thesis
    using assms(1-3) by (auto simp: cell_LoadByte)
qed


lemma load_word_schedule:
  assumes sched: "schedule_upto nk key nr i rounds" and nk: "length key = 4 * nk" and i: "i < nk" "nk \<le> 4 * (nr + 1)"
  shows "\<exists>rounds'. load_word (rounds, drop (4 * i) key) i = (rounds', drop (4 * Suc i) key) \<and>
    schedule_upto nk key nr (Suc i) rounds'"
proof -
  let ?k = "rounds ! (i div 4)" and ?b = "\<lambda>r. key ! (4 * i + r)"
  let ?r = "LoadByte (LoadByte (LoadByte (LoadByte ?k (key ! (4 * i)) 0 (i mod 4))
    (?b 1) 1 (i mod 4)) (?b 2) 2 (i mod 4)) (?b 3) 3 (i mod 4)"
  have len: "i div 4 < length rounds" and wf: "wf_state ?k"
    using sched i by (auto simp: schedule_upto_def)
  have zero: "holds_word ?k (i mod 4) (replicate 4 0)"
    using sched i unfolding schedule_upto_def by (auto dest!: spec [of _ i])
  have word: "aes_word nk key i = [key ! (4 * i), ?b 1, ?b 2, ?b 3]"
    using i(1) nk by (subst aes_word.simps) (simp add: list_eq_iff_nth_eq all4)
  have "schedule_upto nk key nr (Suc i) (rounds[i div 4 := ?r])"
    using i wf cell_load_word [OF wf _ _ _ zero]
    by (intro schedule_upto_step [OF sched]) (simp_all add: word)
  with load_word_eq [OF len] i(1) nk show ?thesis by simp
qed

lemma load_schedule:
  assumes nk: "length key = 4 * nk" "nk \<le> 4 * (nr + 1)" and i: "i \<le> nk"
  shows "\<exists>rounds. foldl load_word (replicate (nr + 1) zero_state, key) [0..<i] = (rounds, drop (4 * i) key) \<and>
    schedule_upto nk key nr i rounds"
  using i
proof (induction i)
  case 0
  have "schedule_upto nk key nr 0 (replicate (nr + 1) zero_state)"
    unfolding schedule_upto_def holds_word_def by (auto simp del: replicate_Suc)
  then show ?case by simp
next
  case (Suc i)
  then obtain rounds where "foldl load_word (replicate (nr + 1) zero_state, key) [0..<i] = (rounds, drop (4 * i) key)"
    and "schedule_upto nk key nr i rounds" by auto
  with load_word_schedule [of nk key nr i rounds] nk Suc.prems show ?case by simp
qed

section \<open>The key setup\<close>

lemma rcon_start:
  assumes "wf_state (AES_state.make sl)" "sl = [1, 0, 0, 0, 0, 0, 0, 0]"
  shows "holds_word \<lparr>slice = sl\<rparr> 0 [1, 0, 0, 0]"
proof -
  have "cell \<lparr>slice = sl\<rparr> 0 = 1" "cell \<lparr>slice = sl\<rparr> 4 = 0" "cell \<lparr>slice = sl\<rparr> 8 = 0" "cell \<lparr>slice = sl\<rparr> 12 = 0"
    by (simp_all add: cell_def assms(2) upt_lists)
  then show ?thesis by (simp add: holds_word_def all4)
qed

theorem AES_setup_schedule:
  assumes nk: "0 < nk" "length key = 4 * nk" "nk \<le> 4 * (nr + 1)"
  shows "schedule_upto nk key nr (4 * (nr + 1)) (AES_setup key nk nr)"
proof -
  obtain rounds where load: "AES_setup_load nk nr key = rounds" and sched: "schedule_upto nk key nr nk rounds"
    using load_schedule [OF nk(2,3) order_refl] by (auto simp: AES_setup_load_words)
  let ?column = "GetOneColumn (rounds ! ((nk - 1) div 4)) ((nk - 1) mod 4)"
  let ?rcon = "\<lparr>slice = [1, 0, 0, 0, 0, 0, 0, 0]\<rparr> :: AES_state"
  let ?st = "(rounds, ?column, ?rcon, 0 :: nat)"
  have "holds_word (rounds ! ((nk - 1) div 4)) ((nk - 1) mod 4) (aes_word nk key (nk - 1))"
    using sched nk(1,3) unfolding schedule_upto_def by (auto dest!: spec [of _ "nk - 1"])
  then have col: "holds_word ?column 0 (aes_word nk key (nk - 1))"
    by (simp add: holds_word_def cell_GetOneColumn)
  have "(nk + nk - 1) div nk = 1" using ceil_div [OF nk(1), of nk] nk(1) by simp
  then have rc: "holds_word ?rcon 0 [aes_rcon ((nk + nk - 1) div nk), 0, 0, 0]"
    using rcon_start by (simp add: aes_rcon_def wf_state_def AES_state.make_def)
  have start: "setup_inv nk key nr nk ?st"
    using sched col rc unfolding setup_inv_def prod.case by (simp add: wf_state_def [of ?rcon])
  have "setup_inv nk key nr j (foldl (AES_setup_step nk) ?st [nk..<j])" if "nk \<le> j" "j \<le> 4 * (nr + 1)" for j
    using that
  proof (induction j rule: dec_induct)
    case base
    then show ?case using start by simp
  next
    case (step j)
    then show ?case using setup_inv_step [OF nk(1,2), of j nr] by simp
  qed
  from this [OF nk(3) order_refl] show ?thesis
    by (auto simp: AES_setup_def load setup_inv_def Let_def split: prod.splits)
qed


lemma AES_setup_round_key:
  assumes nk: "0 < nk" "length key = 4 * nk" "nk \<le> 4 * (nr + 1)" and j: "j \<le> nr"
  shows "cells (AES_setup key nk nr ! j) = aes_round_key nk key j"
proof (rule cells_eqI)
  fix p :: nat
  assume p: "p < 16"
  have "holds_word (AES_setup key nk nr ! ((4 * j + p mod 4) div 4)) ((4 * j + p mod 4) mod 4) (aes_word nk key (4 * j + p mod 4))"
    using AES_setup_schedule [OF nk] j unfolding schedule_upto_def by (auto dest!: spec [of _ "4 * j + p mod 4"])
  then have "cell (AES_setup key nk nr ! j) (4 * (p div 4) + p mod 4) = aes_word nk key (4 * j + p mod 4) ! (p div 4)"
    using p unfolding holds_word_def by (auto dest!: spec [of _ "p div 4"])
  with p show "cell (AES_setup key nk nr ! j) p = aes_round_key nk key j ! p"
    by (simp add: aes_round_key_def)
qed (simp add: aes_round_key_def)

lemma aes_cipher_cong:
  assumes "\<And>i. i \<le> n \<Longrightarrow> rk i = rk' i"
  shows "aes_cipher rk n d = aes_cipher rk' n d"
proof -
  have "foldl (\<lambda>s i. aes_add (aes_mix (aes_shift (aes_sub s))) (rk i)) s [1..<n] =
      foldl (\<lambda>s i. aes_add (aes_mix (aes_shift (aes_sub s))) (rk' i)) s [1..<n]" for s
    by (rule foldl_cong) (auto simp: assms)
  then show ?thesis by (simp add: aes_cipher_def Let_def assms)
qed

lemma AES_setup_encrypt:
  assumes "0 < nk" "length key = 4 * nk" "nk \<le> 4 * (nr + 1)" "length d = 16"
  shows "AES_encrypt (AES_setup key nk nr) nr d = aes_encrypt_block nk nr key d"
  unfolding AES_encrypt_spec [OF assms(4)] aes_encrypt_block_def
  using AES_setup_round_key [OF assms(1-3)] by (rule aes_cipher_cong)

section \<open>Several blocks\<close>

lemma take_drop_block: "length d = 16 * Suc n \<Longrightarrow> length (take 16 d) = 16 \<and> length (drop 16 d) = 16 * n"
  by simp

lemma chunks_16: "length d = 16 * Suc n \<Longrightarrow> chunks 16 d = take 16 d # chunks 16 (drop 16 d)"
  by (subst chunks.simps) auto

text \<open>
  With the context that \<^verbatim>\<open>AES128_init\<close> leaves for a key of 16 bytes, \<^verbatim>\<open>AES128_encrypt\<close>
  on any number of blocks returns, block by block, the AES-128 encryption of FIPS 197 under that key.
\<close>

lemma AES128_encrypt_correct:
  assumes "length key = 16" "length d = 16 * blocks"
  shows "AES128_encrypt (AES128_init ctx key) blocks d = concat (map (aes_encrypt_block 4 10 key) (chunks 16 d))"
  using assms(2)
proof (induction blocks arbitrary: d)
  case (Suc n)
  then show ?case
    using AES_setup_encrypt [of 4 key 10] assms(1) take_drop_block [of d n]
    by (simp add: chunks_16 AES128_init_def)
qed simp

text \<open>
  With the context that \<^verbatim>\<open>AES192_init\<close> leaves for a key of 24 bytes, \<^verbatim>\<open>AES192_encrypt\<close>
  on any number of blocks returns, block by block, the AES-192 encryption of FIPS 197 under that key.
\<close>

lemma AES192_encrypt_correct:
  assumes "length key = 24" "length d = 16 * blocks"
  shows "AES192_encrypt (AES192_init ctx key) blocks d = concat (map (aes_encrypt_block 6 12 key) (chunks 16 d))"
  using assms(2)
proof (induction blocks arbitrary: d)
  case (Suc n)
  then show ?case
    using AES_setup_encrypt [of 6 key 12] assms(1) take_drop_block [of d n]
    by (simp add: chunks_16 AES192_init_def)
qed simp

text \<open>
  With the context that \<^verbatim>\<open>AES256_init\<close> leaves for a key of 32 bytes, \<^verbatim>\<open>AES256_encrypt\<close>
  on any number of blocks returns, block by block, the AES-256 encryption of FIPS 197 under that key:
  the bit-sliced key setup is the key expansion of the standard and the bit-sliced rounds are its rounds.
\<close>

lemma AES256_encrypt_correct:
  assumes "length key = 32" "length d = 16 * blocks"
  shows "AES256_encrypt (AES256_init ctx key) blocks d = concat (map (aes_encrypt_block 8 14 key) (chunks 16 d))"
  using assms(2)
proof (induction blocks arbitrary: d)
  case (Suc n)
  then show ?case
    using AES_setup_encrypt [of 8 key 14] assms(1) take_drop_block [of d n]
    by (simp add: chunks_16 AES256_init_def)
qed simp

text \<open>
  \<^verbatim>\<open>AES256_decrypt\<close> undoes \<^verbatim>\<open>AES256_encrypt\<close> on any number of blocks, whatever round keys the
  context holds.
\<close>

lemma AES256_decrypt_encrypt:
  assumes "length d = 16 * blocks"
  shows "AES256_decrypt ctx blocks (AES256_encrypt ctx blocks d) = d"
  using assms
proof (induction blocks arbitrary: d)
  case (Suc n)
  then show ?case
    using take_drop_block [of d n] AES_decrypt_encrypt [of "take 16 d" 14 "rk256 ctx"] by simp
qed simp

text \<open>
  \<^verbatim>\<open>AES128_decrypt\<close> and \<^verbatim>\<open>AES192_decrypt\<close> undo the encryption of their key size on any number of
  blocks, whatever round keys the contexts hold.
\<close>

lemma AES_short_keys_decrypt_encrypt:
  assumes "length d = 16 * blocks"
  shows "AES128_decrypt ctx blocks (AES128_encrypt ctx blocks d) = d \<and>
    AES192_decrypt ctx' blocks (AES192_encrypt ctx' blocks d) = d"
  using assms
proof (induction blocks arbitrary: d)
  case (Suc n)
  then show ?case
    using take_drop_block [of d n] AES_decrypt_encrypt [of "take 16 d" 10 "rk128 ctx"]
      AES_decrypt_encrypt [of "take 16 d" 12 "rk192 ctx'"] by simp
qed simp

text \<open>
  C32: With the contexts that the three initialisations leave for keys of 16, 24 and 32 bytes,
  encryption of any number of blocks returns, block by block, the AES encryption of FIPS 197 with
  10, 12 and 14 rounds under that key: the bit-sliced key setup is the key expansion of the standard
  and the bit-sliced rounds are its rounds.
\<close>

theorem AES_encrypt_correct:
  assumes "length k128 = 16" "length k192 = 24" "length k256 = 32" "length d = 16 * blocks"
  shows "AES128_encrypt (AES128_init c128 k128) blocks d = concat (map (aes_encrypt_block 4 10 k128) (chunks 16 d)) \<and>
    AES192_encrypt (AES192_init c192 k192) blocks d = concat (map (aes_encrypt_block 6 12 k192) (chunks 16 d)) \<and>
    AES256_encrypt (AES256_init c256 k256) blocks d = concat (map (aes_encrypt_block 8 14 k256) (chunks 16 d))"
  using assms by (simp only: AES128_encrypt_correct AES192_encrypt_correct AES256_encrypt_correct simp_thms)

text \<open>
  For each of the three key sizes, decryption undoes encryption on any number of blocks,
  whatever round keys the contexts hold.
\<close>

theorem AES_roundtrip:
  assumes "length d = 16 * blocks"
  shows "AES128_decrypt c128 blocks (AES128_encrypt c128 blocks d) = d \<and>
    AES192_decrypt c192 blocks (AES192_encrypt c192 blocks d) = d \<and>
    AES256_decrypt c256 blocks (AES256_encrypt c256 blocks d) = d"
  using AES_short_keys_decrypt_encrypt [OF assms] AES256_decrypt_encrypt [OF assms] by blast

text \<open>
  The gates of \<^verbatim>\<open>SubBytes\<close> compute the S-box as the standard defines it: every byte of the state
  becomes the affine image of its inverse in GF(2^8), zero that of zero.
\<close>

theorem SubBytes_inverse_affine:
  assumes "length (slice s) = 8" "p < 16"
  shows "\<exists>y. cells (SubBytes s False) ! p = sbox_affine y \<and>
    (if cells s ! p = 0 then y = 0 else gf_mult (cells s ! p) y = 1)"
proof -
  have "cells (SubBytes s False) ! p = sbox (cell s p)" "cells s ! p = cell s p"
    using assms by (simp_all add: cell_SubBytes wf_state_def)
  then show ?thesis using sbox_inverse_affine [of "cell s p"] by (simp only:)
qed

theorem AES_encrypt_correct_witness:
  "AES128_encrypt (AES128_init \<lparr>rk128 = []\<rparr> (replicate 16 7)) 2 (replicate 32 5) =
     concat (map (aes_encrypt_block 4 10 (replicate 16 7)) (chunks 16 (replicate 32 5))) \<and>
   AES256_encrypt (AES256_init \<lparr>rk256 = []\<rparr> (replicate 32 7)) 2 (replicate 32 5) =
     concat (map (aes_encrypt_block 8 14 (replicate 32 7)) (chunks 16 (replicate 32 5)))"
  using AES_encrypt_correct [of "replicate 16 7" "replicate 24 7" "replicate 32 7" "replicate 32 5" 2 "\<lparr>rk128 = []\<rparr>"
      "\<lparr>rk192 = []\<rparr>" "\<lparr>rk256 = []\<rparr>"] by simp

theorem AES_roundtrip_witness:
  "AES128_decrypt \<lparr>rk128 = replicate 11 zero_state\<rparr> 1
     (AES128_encrypt \<lparr>rk128 = replicate 11 zero_state\<rparr> 1 (replicate 16 9)) = replicate 16 9 \<and>
   AES256_decrypt \<lparr>rk256 = replicate 15 zero_state\<rparr> 1
     (AES256_encrypt \<lparr>rk256 = replicate 15 zero_state\<rparr> 1 (replicate 16 9)) = replicate 16 9"
  using AES_roundtrip [of "replicate 16 9" 1 "\<lparr>rk128 = replicate 11 zero_state\<rparr>" "\<lparr>rk192 = []\<rparr>"
      "\<lparr>rk256 = replicate 15 zero_state\<rparr>"] by simp

theorem SubBytes_inverse_affine_witness:
  "\<exists>y. cells (SubBytes zero_state False) ! 3 = sbox_affine y \<and>
    (if cells zero_state ! 3 = 0 then y = 0 else gf_mult (cells zero_state ! 3) y = 1)"
  using SubBytes_inverse_affine [of zero_state 3] by (simp add: zero_state_def)

end
