(* ===== verification/Lottery_Coinstakes.thy ===== *)
theory Lottery_Coinstakes
  imports Prelude
begin

text \<open>
  The lottery data every block index entry carries (\<^verbatim>\<open>LotteryCoinstakes.h\<close>, \<^verbatim>\<open>LotteryCoinstakes.cpp\<close>): the
  coinstakes that are winning so far in the current lottery cycle, the height of the block that
  stored them, and whether this entry is the owner of the list. The shared pointer
  \<^verbatim>\<open>storage\<close> is an optional list; the list is never modified through it.
\<close>

type_synonym CScript = bytes

type_synonym LotteryCoinstake = "u256 \<times> CScript"

type_synonym LotteryCoinstakes = "LotteryCoinstake list"

record LotteryCoinstakeData =
  storage :: "LotteryCoinstakes option"
  heightOfDataStorage :: int
  storageIsLocal :: bool

definition LotteryCoinstakeData_empty :: LotteryCoinstakeData where
  "LotteryCoinstakeData_empty = \<lparr>storage = Some [], heightOfDataStorage = 0, storageIsLocal = True\<rparr>"

definition LotteryCoinstakeData_at :: "int \<Rightarrow> LotteryCoinstakes \<Rightarrow> LotteryCoinstakeData" where
  "LotteryCoinstakeData_at height coinstakes =
    \<lparr>storage = Some coinstakes, heightOfDataStorage = height, storageIsLocal = True\<rparr>"

definition LotteryCoinstakeData_IsValid :: "LotteryCoinstakeData \<Rightarrow> bool" where
  "LotteryCoinstakeData_IsValid d \<longleftrightarrow> storage d \<noteq> None"

definition MarkAsShallowStorage :: "LotteryCoinstakeData \<Rightarrow> LotteryCoinstakeData" where
  "MarkAsShallowStorage d = d\<lparr>storageIsLocal := False\<rparr>"

definition getLotteryCoinstakes :: "LotteryCoinstakeData \<Rightarrow> LotteryCoinstakes" where
  "getLotteryCoinstakes d = (case storage d of Some l \<Rightarrow> l | None \<Rightarrow> [])"

definition updateShallowDataStore :: "LotteryCoinstakeData \<Rightarrow> LotteryCoinstakeData \<Rightarrow> LotteryCoinstakeData" where
  "updateShallowDataStore d other =
    (if \<not> storageIsLocal d \<and> storageIsLocal other \<and> heightOfDataStorage other = heightOfDataStorage d
     then d\<lparr>storage := storage other\<rparr> else d)"

definition LotteryCoinstakeData_clear :: "LotteryCoinstakeData \<Rightarrow> LotteryCoinstakeData" where
  "LotteryCoinstakeData_clear d = d\<lparr>heightOfDataStorage := 0, storageIsLocal := True, storage := Some []\<rparr>"

definition getShallowCopy :: "LotteryCoinstakeData \<Rightarrow> LotteryCoinstakeData" where
  "getShallowCopy d = MarkAsShallowStorage d"

lemma getLotteryCoinstakes_simps [simp]:
  "getLotteryCoinstakes LotteryCoinstakeData_empty = []"
  "getLotteryCoinstakes (LotteryCoinstakeData_at h l) = l"
  "getLotteryCoinstakes (getShallowCopy d) = getLotteryCoinstakes d"
  "getLotteryCoinstakes (LotteryCoinstakeData_clear d) = []"
  by (simp_all add: getLotteryCoinstakes_def LotteryCoinstakeData_empty_def LotteryCoinstakeData_at_def
      getShallowCopy_def MarkAsShallowStorage_def LotteryCoinstakeData_clear_def)

end
