(* ===== verification/Chain.thy ===== *)
theory Chain
  imports Lottery_Coinstakes "HOL-Library.Sublist" "HOL-Library.Multiset"
begin

text \<open>
  The block index and the active chain (\<^verbatim>\<open>chain.h\<close>, \<^verbatim>\<open>chain.cpp\<close>).

  An entry is its own data together with the entries its \<^verbatim>\<open>pprev\<close> and \<^verbatim>\<open>pskip\<close> pointers lead
  to; \<^verbatim>\<open>NULL\<close> is \<open>None\<close>. The record has the fields that the
  modelled operations read or write. They are not changed once an entry is linked, and the index
  holds one entry per block hash, so equality of entries is equality of pointers. Following a null
  pointer, which is undefined in the source, stays at null here; on the well-formed entries of the
  theorems it never happens.
\<close>

section \<open>Block index entries\<close>

record block_data =
  phashBlock :: u256
  nHeight' :: int
  nFile :: int
  nDataPos :: u32
  nUndoPos :: u32
  nStatus :: u32
  nFlags :: u32
  nStakeModifier :: u64
  nVersion :: u32
  nTime :: u32
  nBits :: u32
  vLotteryWinnersCoinstakes :: LotteryCoinstakeData

datatype CBlockIndex = CBlockIndex (data: block_data) (pprev: "CBlockIndex option") (pskip: "CBlockIndex option")

abbreviation nHeight :: "CBlockIndex \<Rightarrow> int" where
  "nHeight b \<equiv> nHeight' (data b)"

definition GetBlockHash :: "CBlockIndex \<Rightarrow> u256" where
  "GetBlockHash b = phashBlock (data b)"

definition GetBlockTime :: "CBlockIndex \<Rightarrow> int" where
  "GetBlockTime b = uint (nTime (data b))"

lemma size_pprev [simp]: "pprev b = Some p \<Longrightarrow> size p < size b"
  by (cases b) auto

lemma size_CBlockIndex_pos [simp]: "0 < size (b :: CBlockIndex)"
  by (cases b) simp

section \<open>Validity flags\<close>

definition BLOCK_VALID_MASK :: u32 where
  "BLOCK_VALID_MASK = 1 OR 2 OR 3 OR 4 OR 5"

definition BLOCK_HAVE_DATA :: u32 where "BLOCK_HAVE_DATA = 8"

definition BLOCK_HAVE_UNDO :: u32 where "BLOCK_HAVE_UNDO = 16"

definition BLOCK_FAILED_MASK :: u32 where
  "BLOCK_FAILED_MASK = 32 OR 64"

record CDiskBlockPos =
  dpos_nFile :: int
  dpos_nPos :: u32

definition CDiskBlockPos_null :: CDiskBlockPos where
  "CDiskBlockPos_null = \<lparr>dpos_nFile = -1, dpos_nPos = 0\<rparr>"

definition GetBlockPos :: "block_data \<Rightarrow> CDiskBlockPos" where
  "GetBlockPos b = (if nStatus b AND BLOCK_HAVE_DATA \<noteq> 0
    then \<lparr>dpos_nFile = nFile b, dpos_nPos = nDataPos b\<rparr> else CDiskBlockPos_null)"

definition GetUndoPos :: "block_data \<Rightarrow> CDiskBlockPos" where
  "GetUndoPos b = (if nStatus b AND BLOCK_HAVE_UNDO \<noteq> 0
    then \<lparr>dpos_nFile = nFile b, dpos_nPos = nUndoPos b\<rparr> else CDiskBlockPos_null)"

text \<open>The two assertions \<^verbatim>\<open>!(nUpTo & ~BLOCK_VALID_MASK)\<close> are the branch \<open>None\<close>.\<close>

definition IsValid :: "block_data \<Rightarrow> u32 \<Rightarrow> bool option" where
  "IsValid b nUpTo =
    (if nUpTo AND NOT BLOCK_VALID_MASK \<noteq> 0 then None
     else if nStatus b AND BLOCK_FAILED_MASK \<noteq> 0 then Some False
     else Some (nUpTo \<le> nStatus b AND BLOCK_VALID_MASK))"

definition RaiseValidity :: "block_data \<Rightarrow> u32 \<Rightarrow> (bool \<times> block_data) option" where
  "RaiseValidity b nUpTo =
    (if nUpTo AND NOT BLOCK_VALID_MASK \<noteq> 0 then None
     else if nStatus b AND BLOCK_FAILED_MASK \<noteq> 0 then Some (False, b)
     else if nStatus b AND BLOCK_VALID_MASK < nUpTo
       then Some (True, b\<lparr>nStatus := (nStatus b AND NOT BLOCK_VALID_MASK) OR nUpTo\<rparr>)
     else Some (False, b))"

definition IsProofOfStake :: "block_data \<Rightarrow> bool" where
  "IsProofOfStake b \<longleftrightarrow> nFlags b AND 1 \<noteq> 0"

definition IsProofOfWork :: "block_data \<Rightarrow> bool" where
  "IsProofOfWork b \<longleftrightarrow> \<not> (nFlags b AND 1 \<noteq> 0)"

definition SetProofOfStake :: "block_data \<Rightarrow> block_data" where
  "SetProofOfStake b = b\<lparr>nFlags := nFlags b OR 1\<rparr>"

definition SetStakeEntropyBit :: "block_data \<Rightarrow> u32 \<Rightarrow> bool \<times> block_data" where
  "SetStakeEntropyBit b nEntropyBit =
    (if 1 < nEntropyBit then (False, b)
     else (True, b\<lparr>nFlags := nFlags b OR (if nEntropyBit \<noteq> 0 then 2 else 0)\<rparr>))"

definition GeneratedStakeModifier :: "block_data \<Rightarrow> bool" where
  "GeneratedStakeModifier b \<longleftrightarrow> nFlags b AND 4 \<noteq> 0"

definition SetStakeModifier :: "block_data \<Rightarrow> u64 \<Rightarrow> bool \<Rightarrow> block_data" where
  "SetStakeModifier b nModifier fGeneratedStakeModifier =
    (let b = b\<lparr>nStakeModifier := nModifier\<rparr>
     in if fGeneratedStakeModifier then b\<lparr>nFlags := nFlags b OR 4\<rparr> else b)"

section \<open>Median time\<close>

definition nMedianTimeSpan :: nat where
  "nMedianTimeSpan = 11"

fun times_back :: "nat \<Rightarrow> CBlockIndex option \<Rightarrow> int list" where
  "times_back 0 p = []"
| "times_back (Suc i) None = []"
| "times_back (Suc i) (Some b) = GetBlockTime b # times_back i (pprev b)"

definition GetMedianTimePast :: "CBlockIndex \<Rightarrow> int" where
  "GetMedianTimePast b =
    (let pmedian = sort (rev (times_back nMedianTimeSpan (Some b)))
     in pmedian ! (length pmedian div 2))"

section \<open>Ancestors through the skip list\<close>

definition InvertLowestOne :: "int \<Rightarrow> int" where
  "InvertLowestOne n = n AND (n - 1)"

definition GetSkipHeight :: "int \<Rightarrow> int" where
  "GetSkipHeight height =
    (if height < 2 then 0
     else if height AND 1 \<noteq> 0 then InvertLowestOne (InvertLowestOne (height - 1)) + 1
     else InvertLowestOne height)"

lemma InvertLowestOne_bounds:
  assumes "0 \<le> n"
  shows "0 \<le> InvertLowestOne n" "InvertLowestOne n \<le> n" "0 < n \<Longrightarrow> InvertLowestOne n < n"
proof -
  have nn: "0 \<le> InvertLowestOne n" unfolding InvertLowestOne_def using assms by simp
  have lt: "InvertLowestOne n < n" if "0 < n"
    using that AND_upper2 [of "n - 1" n] by (simp add: InvertLowestOne_def)
  show "0 \<le> InvertLowestOne n" "0 < n \<Longrightarrow> InvertLowestOne n < n" using nn lt by simp_all
  show "InvertLowestOne n \<le> n" using lt assms by (cases "n = 0") (auto simp: InvertLowestOne_def)
qed

lemma GetSkipHeight_bounds:
  shows "0 \<le> GetSkipHeight h" and "1 \<le> h \<Longrightarrow> GetSkipHeight h < h"
proof -
  show "0 \<le> GetSkipHeight h"
    by (auto simp: GetSkipHeight_def intro!: InvertLowestOne_bounds(1) add_nonneg_nonneg)
  assume h: "1 \<le> h"
  consider "h < 2" | "2 \<le> h" "h AND 1 = 0" | "2 \<le> h" "h AND 1 \<noteq> 0" by linarith
  then show "GetSkipHeight h < h"
  proof cases
    case 1
    with h show ?thesis by (simp add: GetSkipHeight_def)
  next
    case 2
    then show ?thesis using InvertLowestOne_bounds(3) [of h] by (simp add: GetSkipHeight_def)
  next
    case 3
    have "InvertLowestOne (h - 1) < h - 1" "0 \<le> InvertLowestOne (h - 1)"
      using InvertLowestOne_bounds [of "h - 1"] 3 by simp_all
    then show ?thesis
      using InvertLowestOne_bounds(2) [of "InvertLowestOne (h - 1)"] 3 by (simp add: GetSkipHeight_def)
  qed
qed

text \<open>
  The loop of \<^verbatim>\<open>CBlockIndex::GetAncestor\<close>. The caller has excluded a negative \<open>height\<close>, for which
  the loop would not end; the test is repeated here.
\<close>

function GetAncestor_loop :: "CBlockIndex option \<Rightarrow> int \<Rightarrow> int \<Rightarrow> CBlockIndex option" where
  "GetAncestor_loop pindexWalk heightWalk height =
    (if heightWalk \<le> height \<or> height < 0 then pindexWalk
     else
       let heightSkip = GetSkipHeight heightWalk;
           heightSkipPrev = GetSkipHeight (heightWalk - 1)
       in if heightSkip = height \<or>
             (height < heightSkip \<and> \<not> (heightSkipPrev < heightSkip - 2 \<and> height \<le> heightSkipPrev))
          then GetAncestor_loop (Option.bind pindexWalk pskip) heightSkip height
          else GetAncestor_loop (Option.bind pindexWalk pprev) (heightWalk - 1) height)"
  by pat_completeness auto
termination
  by (relation "measure (\<lambda>(p, hw, h). nat (hw - h))") (auto simp: GetSkipHeight_bounds(2))

declare GetAncestor_loop.simps [simp del]

definition GetAncestor :: "CBlockIndex \<Rightarrow> int \<Rightarrow> CBlockIndex option" where
  "GetAncestor b height =
    (if height > nHeight b \<or> height < 0 then None
     else GetAncestor_loop (Some b) (nHeight b) height)"

definition BuildSkip :: "CBlockIndex \<Rightarrow> CBlockIndex" where
  "BuildSkip b = (case pprev b of None \<Rightarrow> b
     | Some p \<Rightarrow> CBlockIndex (data b) (Some p) (GetAncestor p (GetSkipHeight (nHeight b))))"

function LastCommonAncestor_loop :: "CBlockIndex option \<Rightarrow> CBlockIndex option \<Rightarrow> CBlockIndex option \<times> CBlockIndex option" where
  "LastCommonAncestor_loop pa pb =
    (case (pa, pb) of
       (Some a, Some b) \<Rightarrow> if a \<noteq> b then LastCommonAncestor_loop (pprev a) (pprev b) else (pa, pb)
     | _ \<Rightarrow> (pa, pb))"
  by pat_completeness auto
termination
  by (relation "measure (\<lambda>(pa, pb). case pa of None \<Rightarrow> 0 | Some a \<Rightarrow> size a)")
     (auto split: option.splits)

declare LastCommonAncestor_loop.simps [simp del]

text \<open>\<open>None\<close> is the failing assertion \<^verbatim>\<open>pa == pb\<close> at the end.\<close>

definition LastCommonAncestor :: "CBlockIndex \<Rightarrow> CBlockIndex \<Rightarrow> CBlockIndex option option" where
  "LastCommonAncestor a b =
    (let pa = (if nHeight b < nHeight a then GetAncestor a (nHeight b) else Some a);
         pb = (if nHeight a < nHeight b then GetAncestor b (nHeight a) else Some b);
         (pa, pb) = LastCommonAncestor_loop pa pb
     in if pa = pb then Some pa else None)"

section \<open>The active chain\<close>

type_synonym CChain = "CBlockIndex option list"

definition Genesis :: "CChain \<Rightarrow> CBlockIndex option" where
  "Genesis vChain = (if 0 < length vChain then vChain ! 0 else None)"

function tip_stake :: "CBlockIndex option \<Rightarrow> CBlockIndex option" where
  "tip_stake pindex =
    (case pindex of None \<Rightarrow> None
     | Some b \<Rightarrow> if pprev b \<noteq> None \<and> \<not> IsProofOfStake (data b) then tip_stake (pprev b) else pindex)"
  by pat_completeness auto
termination
  by (relation "measure (\<lambda>p. case p of None \<Rightarrow> 0 | Some b \<Rightarrow> size b)") (auto split: option.splits)

declare tip_stake.simps [simp del]

definition Tip :: "CChain \<Rightarrow> bool \<Rightarrow> CBlockIndex option" where
  "Tip vChain fProofOfStake =
    (if length vChain < 1 then None
     else let pindex = vChain ! (length vChain - 1)
          in if fProofOfStake then tip_stake pindex else pindex)"

definition chain_at :: "CChain \<Rightarrow> int \<Rightarrow> CBlockIndex option" where
  "chain_at vChain h = (if h < 0 \<or> h \<ge> int (length vChain) then None else vChain ! nat h)"

definition Contains :: "CChain \<Rightarrow> CBlockIndex \<Rightarrow> bool" where
  "Contains vChain pindex \<longleftrightarrow> chain_at vChain (nHeight pindex) = Some pindex"

definition Next :: "CChain \<Rightarrow> CBlockIndex \<Rightarrow> CBlockIndex option" where
  "Next vChain pindex = (if Contains vChain pindex then chain_at vChain (nHeight pindex + 1) else None)"

definition Height :: "CChain \<Rightarrow> int" where
  "Height vChain = int (length vChain) - 1"

text \<open>\<^verbatim>\<open>std::vector::resize\<close>: truncation, or new null pointers at the end.\<close>

definition resize_null :: "'a option list \<Rightarrow> nat \<Rightarrow> 'a option list" where
  "resize_null v n = take n v @ replicate (n - length v) None"

function SetTip_loop :: "CChain \<Rightarrow> CBlockIndex option \<Rightarrow> CChain" where
  "SetTip_loop vChain pindex =
    (case pindex of None \<Rightarrow> vChain
     | Some b \<Rightarrow> if vChain ! nat (nHeight b) \<noteq> Some b
         then SetTip_loop (vChain[nat (nHeight b) := Some b]) (pprev b) else vChain)"
  by pat_completeness auto
termination
  by (relation "measure (\<lambda>(v, p). case p of None \<Rightarrow> 0 | Some b \<Rightarrow> size b)") (auto split: option.splits)

declare SetTip_loop.simps [simp del]

definition SetTip :: "CChain \<Rightarrow> CBlockIndex option \<Rightarrow> CChain" where
  "SetTip vChain pindex =
    (case pindex of None \<Rightarrow> []
     | Some b \<Rightarrow> SetTip_loop (resize_null vChain (nat (nHeight b + 1))) (Some b))"

function FindFork_loop :: "CChain \<Rightarrow> CBlockIndex option \<Rightarrow> CBlockIndex option" where
  "FindFork_loop vChain pindex =
    (case pindex of None \<Rightarrow> None
     | Some b \<Rightarrow> if \<not> Contains vChain b then FindFork_loop vChain (pprev b) else pindex)"
  by pat_completeness auto
termination
  by (relation "measure (\<lambda>(v, p). case p of None \<Rightarrow> 0 | Some b \<Rightarrow> size b)") (auto split: option.splits)

declare FindFork_loop.simps [simp del]

definition FindFork :: "CChain \<Rightarrow> CBlockIndex \<Rightarrow> CBlockIndex option" where
  "FindFork vChain b =
    FindFork_loop vChain (if nHeight b > Height vChain then GetAncestor b (Height vChain) else Some b)"

text \<open>
  One pass of the loop of \<^verbatim>\<open>CChain::GetLocator\<close> per call. A step back leads to a smaller height
  unless the entries are malformed; then the loop is left.
\<close>

function GetLocator_loop :: "CChain \<Rightarrow> CBlockIndex option \<Rightarrow> int \<Rightarrow> u256 list \<Rightarrow> u256 list" where
  "GetLocator_loop vChain pindex nStep vHave =
    (case pindex of None \<Rightarrow> vHave
     | Some b \<Rightarrow>
       let vHave = vHave @ [GetBlockHash b]
       in if nHeight b = 0 then vHave
          else
            let height = max (nHeight b - nStep) 0;
                next_index = (if Contains vChain b then chain_at vChain height else GetAncestor b height);
                nStep = (if length vHave > 10 then nStep * 2 else nStep)
            in case next_index of None \<Rightarrow> vHave
               | Some c \<Rightarrow> if 0 \<le> nHeight c \<and> nHeight c < nHeight b
                   then GetLocator_loop vChain (Some c) nStep vHave else vHave)"
  by pat_completeness auto
termination
  by (relation "measure (\<lambda>(v, p, s, h). case p of None \<Rightarrow> 0 | Some b \<Rightarrow> nat (nHeight b))")
     (auto split: option.splits)

declare GetLocator_loop.simps [simp del]

definition GetLocator :: "CChain \<Rightarrow> CBlockIndex option \<Rightarrow> u256 list" where
  "GetLocator vChain pindex =
    GetLocator_loop vChain (if pindex = None then Tip vChain False else pindex) 1 []"

section \<open>Well-formed entries and branches\<close>

text \<open>
  The entries the node builds: the genesis entry, and an entry one higher than its predecessor
  whose skip pointer \<^verbatim>\<open>BuildSkip\<close> has set.
\<close>

inductive wf_index :: "CBlockIndex \<Rightarrow> bool" where
  genesis: "nHeight b = 0 \<Longrightarrow> pprev b = None \<Longrightarrow> pskip b = None \<Longrightarrow> wf_index b"
| child: "wf_index p \<Longrightarrow> pprev b = Some p \<Longrightarrow> nHeight b = nHeight p + 1 \<Longrightarrow>
    pskip b = GetAncestor p (GetSkipHeight (nHeight b)) \<Longrightarrow> wf_index b"

inductive_cases wf_index_cases: "wf_index b"

lemma wf_index_height: "wf_index b \<Longrightarrow> 0 \<le> nHeight b"
  by (induction rule: wf_index.induct) simp_all

lemma wf_index_pprev:
  "wf_index b \<Longrightarrow> pprev b = Some p \<Longrightarrow> wf_index p \<and> nHeight p = nHeight b - 1"
  by (auto elim: wf_index_cases)

lemma wf_index_pprev_None: "wf_index b \<Longrightarrow> pprev b = None \<longleftrightarrow> nHeight b = 0"
  by (erule wf_index_cases) (auto dest: wf_index_height)

lemma wf_index_parent:
  assumes "wf_index b" "0 < nHeight b"
  obtains p where "pprev b = Some p" "wf_index p" "nHeight p = nHeight b - 1"
    "pskip b = GetAncestor p (GetSkipHeight (nHeight b))"
  using assms by (cases rule: wf_index.cases) simp_all

text \<open>\<^verbatim>\<open>BuildSkip\<close> completes a new entry on top of a well-formed one.\<close>

lemma wf_index_BuildSkip:
  "wf_index p \<Longrightarrow> nHeight' d = nHeight p + 1 \<Longrightarrow> wf_index (BuildSkip (CBlockIndex d (Some p) None))"
  by (rule wf_index.child [of p]) (simp_all add: BuildSkip_def)

text \<open>Following \<^verbatim>\<open>pprev\<close> one step at a time.\<close>

primrec go_back :: "nat \<Rightarrow> CBlockIndex \<Rightarrow> CBlockIndex option" where
  "go_back 0 b = Some b"
| "go_back (Suc n) b = Option.bind (pprev b) (go_back n)"

lemma go_back_add: "go_back (m + n) b = Option.bind (go_back m b) (go_back n)"
  by (induction m arbitrary: b) (simp_all split: Option.bind_split)

lemma go_back_wf:
  "wf_index b \<Longrightarrow> int n \<le> nHeight b \<Longrightarrow> \<exists>a. go_back n b = Some a \<and> wf_index a \<and> nHeight a = nHeight b - int n"
proof (induction n arbitrary: b)
  case (Suc n)
  then obtain p where p: "pprev b = Some p" using wf_index_pprev_None [of b] by (cases "pprev b") auto
  with Suc.prems have "wf_index p" "nHeight p = nHeight b - 1" using wf_index_pprev by blast+
  with Suc.IH [of p] Suc.prems p show ?case by (simp add: algebra_simps)
qed simp

lemma GetAncestor_loop_back:
  "wf_index b \<Longrightarrow> 0 \<le> h \<Longrightarrow> h \<le> nHeight b \<Longrightarrow>
    GetAncestor_loop (Some b) (nHeight b) h = go_back (nat (nHeight b - h)) b"
proof (induction "nat (nHeight b)" arbitrary: b h rule: less_induct)
  case less
  show ?case
  proof (cases "nHeight b = h")
    case True
    then show ?thesis by (simp add: GetAncestor_loop.simps)
  next
    case False
    then have pos: "1 \<le> nHeight b" "h < nHeight b" using less.prems by simp_all
    then obtain p where p: "pprev b = Some p" "wf_index p" "nHeight p = nHeight b - 1"
      and skip: "pskip b = GetAncestor p (GetSkipHeight (nHeight b))"
      using wf_index_parent [OF less.prems(1)] by auto
    let ?s = "GetSkipHeight (nHeight b)"
    have s: "0 \<le> ?s" "?s < nHeight b" using GetSkipHeight_bounds [of "nHeight b"] pos by simp_all
    have "GetAncestor p ?s = GetAncestor_loop (Some p) (nHeight p) ?s"
      using s p(3) by (simp add: GetAncestor_def)
    also have "\<dots> = go_back (nat (nHeight p - ?s)) p"
      using less.hyps [of p ?s] less.prems s p pos by simp
    finally have ps: "pskip b = go_back (nat (nHeight p - ?s)) p" using skip by simp
    have "go_back (Suc (nat (nHeight p - ?s))) b = go_back (nat (nHeight p - ?s)) p" using p(1) by simp
    moreover have "Suc (nat (nHeight p - ?s)) = nat (nHeight b - ?s)" using s p(3) by simp
    ultimately have pb: "pskip b = go_back (nat (nHeight b - ?s)) b" using ps by simp
    obtain a where a: "pskip b = Some a" "wf_index a" "nHeight a = ?s"
      using go_back_wf [OF less.prems(1), of "nat (nHeight b - ?s)"] s pb by auto
    have viaskip: "GetAncestor_loop (Some a) ?s h = go_back (nat (nHeight b - h)) b" if "h \<le> ?s"
    proof -
      have "GetAncestor_loop (Some a) (nHeight a) h = go_back (nat (nHeight a - h)) a"
        using less.hyps [of a h] less.prems a s pos that by simp
      moreover have "nat (nHeight b - h) = nat (nHeight b - ?s) + nat (nHeight a - h)"
        using that s a(3) by simp
      moreover have "go_back (nat (nHeight b - ?s)) b = Some a" using pb a(1) by simp
      ultimately show ?thesis using a(3) by (simp add: go_back_add)
    qed
    have viaprev: "GetAncestor_loop (Some p) (nHeight b - 1) h = go_back (nat (nHeight b - h)) b"
    proof -
      have "nat (nHeight b - h) = Suc (nat (nHeight p - h))" using pos p(3) by simp
      then have "go_back (nat (nHeight b - h)) b = go_back (nat (nHeight p - h)) p" using p(1) by simp
      with less.hyps [of p h] less.prems p pos show ?thesis by simp
    qed
    show ?thesis
      using pos less.prems viaskip viaprev a(1) p(1)
      by (subst GetAncestor_loop.simps) (auto simp: Let_def)
  qed
qed

text \<open>The entries from genesis to \<open>b\<close>.\<close>

function branch :: "CBlockIndex \<Rightarrow> CBlockIndex list" where
  "branch b = (case pprev b of None \<Rightarrow> [b] | Some p \<Rightarrow> branch p @ [b])"
  by pat_completeness auto
termination
  by (relation "measure size") simp_all

declare branch.simps [simp del]

lemma branch_pprev:
  "pprev b = None \<Longrightarrow> branch b = [b]"
  "pprev b = Some p \<Longrightarrow> branch b = branch p @ [b]"
  by (simp_all add: branch.simps [of b])

lemma branch_simps [simp]: "branch b \<noteq> []" "last (branch b) = b"
  by (cases "pprev b"; simp add: branch_pprev)+

lemma length_branch: "wf_index b \<Longrightarrow> int (length (branch b)) = nHeight b + 1"
  by (induction rule: wf_index.induct) (simp_all add: branch_pprev)

lemma back_branch:
  "wf_index b \<Longrightarrow> n < length (branch b) \<Longrightarrow> go_back n b = Some (branch b ! (length (branch b) - 1 - n))"
proof (induction arbitrary: n rule: wf_index.induct)
  case (child p b)
  then show ?case
    by (cases n) (simp_all add: branch_pprev nth_append)
qed (simp add: branch_pprev)

lemma branch_nth:
  assumes "wf_index b" "0 \<le> h" "h \<le> nHeight b"
  shows "go_back (nat (nHeight b - h)) b = Some (branch b ! nat h)"
proof -
  have len: "int (length (branch b)) = nHeight b + 1" using assms(1) by (rule length_branch)
  then have "nat (nHeight b - h) < length (branch b)" "length (branch b) - 1 - nat (nHeight b - h) = nat h"
    using assms by simp_all
  then show ?thesis using back_branch [OF assms(1)] by simp
qed

lemma branch_nth_props:
  assumes "wf_index b" "i < length (branch b)"
  shows "wf_index (branch b ! i) \<and> nHeight (branch b ! i) = int i \<and> branch (branch b ! i) = take (Suc i) (branch b)"
  using assms
proof (induction arbitrary: i rule: wf_index.induct)
  case (genesis b)
  then show ?case by (simp add: branch_pprev wf_index.genesis)
next
  case (child p b)
  have wf: "wf_index b" using child.hyps by (rule wf_index.child)
  have len: "int (length (branch p)) = nHeight p + 1" using child.hyps(1) by (rule length_branch)
  show ?case
  proof (cases "i < length (branch p)")
    case True
    with child show ?thesis by (simp add: branch_pprev nth_append)
  next
    case False
    then have "i = length (branch p)" using child.prems child.hyps by (simp add: branch_pprev)
    with wf len child.hyps show ?thesis by (simp add: branch_pprev nth_append)
  qed
qed

lemma GetAncestor_branch:
  "wf_index b \<Longrightarrow> GetAncestor b h = (if 0 \<le> h \<and> h \<le> nHeight b then Some (branch b ! nat h) else None)"
  by (auto simp: GetAncestor_def GetAncestor_loop_back branch_nth)

lemma branch_eq_iff: "branch a = branch b \<longleftrightarrow> a = b"
  by (metis branch_simps(2))

section \<open>The chain follows its tip\<close>

text \<open>The invariant of the active chain: empty, or the branch of a well-formed tip.\<close>

definition chain_ok :: "CChain \<Rightarrow> bool" where
  "chain_ok v \<longleftrightarrow> v = [] \<or> (\<exists>t. wf_index t \<and> v = map Some (branch t))"

text \<open>
  While \<^verbatim>\<open>SetTip\<close> walks down, the entries up to the current height stay those of one branch: an entry
  that is found in place already has all its ancestors in place.
\<close>

definition settled_below :: "CChain \<Rightarrow> nat \<Rightarrow> bool" where
  "settled_below v n \<longleftrightarrow> (\<forall>i<n. \<forall>a. v ! i = Some a \<longrightarrow> wf_index a \<and> take (Suc i) v = map Some (branch a))"

lemma SetTip_loop_branch:
  "wf_index b \<Longrightarrow> nat (nHeight b) < length v \<Longrightarrow> settled_below v (Suc (nat (nHeight b))) \<Longrightarrow>
    SetTip_loop v (Some b) = map Some (branch b) @ drop (Suc (nat (nHeight b))) v"
proof (induction arbitrary: v rule: wf_index.induct)
  case (genesis b)
  show ?case
  proof (cases "v ! 0 = Some b")
    case True
    then have "take (Suc 0) v = map Some (branch b)" using genesis by (auto simp: settled_below_def)
    moreover have "v = take (Suc 0) v @ drop (Suc 0) v" by simp
    ultimately show ?thesis using True genesis(1) by (subst SetTip_loop.simps) simp
  next
    case False
    with genesis show ?thesis
      by (subst SetTip_loop.simps) (cases v; simp add: branch_pprev SetTip_loop.simps [of _ None])
  qed
next
  case (child p b)
  let ?n = "nat (nHeight b)"
  have n: "?n = Suc (nat (nHeight p))" using child.hyps wf_index_height [of p] by simp
  show ?case
  proof (cases "v ! ?n = Some b")
    case True
    then have "take (Suc ?n) v = map Some (branch b)" using child.prems by (auto simp: settled_below_def)
    moreover have "v = take (Suc ?n) v @ drop (Suc ?n) v" by simp
    ultimately show ?thesis using True by (subst SetTip_loop.simps) simp
  next
    case False
    let ?v = "v[?n := Some b]"
    have "settled_below ?v (Suc (nat (nHeight p)))"
      using child.prems(2) unfolding settled_below_def n by (simp add: less_Suc_eq)
    then have "SetTip_loop ?v (Some p) = map Some (branch p) @ drop ?n ?v"
      using child.IH [of ?v] child.prems n by simp
    moreover have "drop ?n ?v = Some b # drop (Suc ?n) v"
      using child.prems(1) by (simp add: drop_update_swap Cons_nth_drop_Suc [symmetric])
    ultimately show ?thesis
      using False child.hyps by (subst SetTip_loop.simps) (simp add: branch_pprev)
  qed
qed

lemma settled_below_branch:
  assumes "wf_index t"
  shows "settled_below (resize_null (map Some (branch t)) n) n"
  unfolding settled_below_def
proof (intro allI impI)
  fix i a
  assume i: "i < n" and a: "resize_null (map Some (branch t)) n ! i = Some a"
  have lt: "i < length (branch t)"
  proof (rule ccontr)
    assume "\<not> i < length (branch t)"
    with a i show False by (simp add: resize_null_def nth_append min_def)
  qed
  then have "a = branch t ! i" using a i by (simp add: resize_null_def nth_append)
  with branch_nth_props [OF assms lt] i lt show "wf_index a \<and>
      take (Suc i) (resize_null (map Some (branch t)) n) = map Some (branch a)"
    by (simp add: resize_null_def take_map min_def)
qed

lemma SetTip_branch:
  assumes "chain_ok v" "wf_index b"
  shows "SetTip v (Some b) = map Some (branch b)"
proof -
  let ?n = "Suc (nat (nHeight b))"
  have h: "0 \<le> nHeight b" using assms(2) by (rule wf_index_height)
  have "settled_below (resize_null [] ?n) ?n"
    by (simp add: settled_below_def resize_null_def del: replicate_Suc)
  then have "settled_below (resize_null v ?n) ?n"
    using assms(1) settled_below_branch unfolding chain_ok_def by blast
  moreover have len: "length (resize_null v ?n) = ?n" by (simp add: resize_null_def)
  ultimately have "SetTip_loop (resize_null v ?n) (Some b) = map Some (branch b)"
    using SetTip_loop_branch [OF assms(2), of "resize_null v ?n"] by simp
  moreover have "nat (nHeight b + 1) = ?n" using h by simp
  ultimately show ?thesis by (simp add: SetTip_def)
qed

lemma chain_ok_SetTip: "chain_ok v \<Longrightarrow> (\<And>b. pindex = Some b \<Longrightarrow> wf_index b) \<Longrightarrow> chain_ok (SetTip v pindex)"
  by (cases pindex) (auto simp: SetTip_branch chain_ok_def SetTip_def [of _ None])

section \<open>Forks\<close>

lemma chain_at_branch:
  "wf_index t \<Longrightarrow> chain_at (map Some (branch t)) h = (if 0 \<le> h \<and> h \<le> nHeight t then Some (branch t ! nat h) else None)"
  using length_branch [of t] by (auto simp: chain_at_def)

lemma Contains_branch: "wf_index t \<Longrightarrow> wf_index b \<Longrightarrow> Contains (map Some (branch t)) b \<longleftrightarrow> prefix (branch b) (branch t)"
proof
  assume wf: "wf_index t" "wf_index b"
  {
    assume "Contains (map Some (branch t)) b"
    then have h: "nHeight b \<le> nHeight t" "branch t ! nat (nHeight b) = b"
      using wf wf_index_height [of b] by (auto simp: Contains_def chain_at_branch split: if_splits)
    then have "branch b = take (Suc (nat (nHeight b))) (branch t)"
      using branch_nth_props [OF wf(1), of "nat (nHeight b)"] length_branch [OF wf(1)] wf_index_height [OF wf(2)] by simp
    then show "prefix (branch b) (branch t)" by (metis take_is_prefix)
  }
  assume pre: "prefix (branch b) (branch t)"
  have lb: "int (length (branch b)) = nHeight b + 1" and lt: "int (length (branch t)) = nHeight t + 1"
    using wf length_branch by blast+
  have "nHeight b \<le> nHeight t" using prefix_length_le [OF pre] lb lt by simp
  moreover have "branch t ! nat (nHeight b) = b"
  proof -
    have "branch t ! (length (branch b) - 1) = branch b ! (length (branch b) - 1)"
      using pre by (auto simp: prefix_def nth_append)
    moreover have "length (branch b) - 1 = nat (nHeight b)" using lb by simp
    moreover have "branch b ! (length (branch b) - 1) = b" using branch_simps last_conv_nth by metis
    ultimately show ?thesis by simp
  qed
  ultimately show "Contains (map Some (branch t)) b"
    using wf wf_index_height [of b] by (simp add: Contains_def chain_at_branch)
qed

text \<open>The last block two branches share, if any.\<close>

definition last_common :: "CBlockIndex \<Rightarrow> CBlockIndex \<Rightarrow> CBlockIndex option" where
  "last_common a b = (let xs = longest_common_prefix (branch a) (branch b) in if xs = [] then None else Some (last xs))"

lemma longest_common_prefix_snoc:
  "\<not> prefix (ys @ [y]) xs \<Longrightarrow> longest_common_prefix xs (ys @ [y]) = longest_common_prefix xs ys"
proof (induction ys arbitrary: xs)
  case Nil
  then show ?case by (cases xs) auto
next
  case (Cons z ys)
  then show ?case by (cases xs) auto
qed

lemma longest_common_prefix_prefix: "prefix ys xs \<Longrightarrow> longest_common_prefix xs ys = ys"
  by (induction xs ys rule: longest_common_prefix.induct) auto

lemma FindFork_loop_common:
  "wf_index b \<Longrightarrow> wf_index t \<Longrightarrow> FindFork_loop (map Some (branch t)) (Some b) = last_common t b"
proof (induction rule: wf_index.induct)
  case (genesis b)
  then have "wf_index b" by (simp add: wf_index.genesis)
  with genesis show ?case
    using longest_common_prefix_snoc [of "[]" b "branch t"] longest_common_prefix_prefix [of "branch b" "branch t"]
    by (subst FindFork_loop.simps)
       (auto simp: Contains_branch last_common_def branch_pprev FindFork_loop.simps [of _ None] Let_def)
next
  case (child p b)
  have "wf_index b" using child.hyps by (rule wf_index.child)
  with child show ?case
    using longest_common_prefix_snoc [of "branch p" b "branch t"] longest_common_prefix_prefix [of "branch b" "branch t"]
    by (subst FindFork_loop.simps) (auto simp: Contains_branch last_common_def branch_pprev Let_def)
qed

lemma last_common_take:
  assumes "wf_index b" "nHeight t < nHeight b" "wf_index t"
  shows "last_common t (branch b ! nat (nHeight t)) = last_common t b"
proof -
  have "longest_common_prefix xs (take (length xs) ys) = longest_common_prefix xs ys" for xs ys :: "CBlockIndex list"
    by (induction xs ys rule: longest_common_prefix.induct) auto
  moreover have "branch (branch b ! nat (nHeight t)) = take (length (branch t)) (branch b)"
  proof -
    have "nat (nHeight t) < length (branch b)" "length (branch t) = Suc (nat (nHeight t))"
      using length_branch [OF assms(1)] length_branch [OF assms(3)] wf_index_height [OF assms(3)] assms(2) by linarith+
    with branch_nth_props [OF assms(1)] show ?thesis by simp
  qed
  ultimately show ?thesis by (simp add: last_common_def)
qed

lemma last_common_self: "last_common a a = Some a"
  by (simp add: last_common_def longest_common_prefix_prefix)

lemma FindFork_common:
  assumes "wf_index t" "wf_index b"
  shows "FindFork (map Some (branch t)) b = last_common t b"
proof -
  have h: "Height (map Some (branch t)) = nHeight t" using length_branch [OF assms(1)] by (simp add: Height_def)
  show ?thesis
  proof (cases "nHeight t < nHeight b")
    case True
    have "nat (nHeight t) < length (branch b)"
      using True length_branch [OF assms(2)] wf_index_height [OF assms(1)] by linarith
    then have "wf_index (branch b ! nat (nHeight t))" using branch_nth_props [OF assms(2)] by blast
    with True show ?thesis
      using assms wf_index_height [OF assms(1)]
      by (simp add: FindFork_def h GetAncestor_branch FindFork_loop_common last_common_take)
  next
    case False
    with assms show ?thesis by (simp add: FindFork_def h FindFork_loop_common)
  qed
qed

lemma longest_common_prefix_commute: "longest_common_prefix xs ys = longest_common_prefix ys xs"
  by (induction xs ys rule: longest_common_prefix.induct) (auto elim: longest_common_prefix.elims)

lemma last_common_commute: "last_common a b = last_common b a"
  by (simp add: last_common_def longest_common_prefix_commute)

lemma longest_common_prefix_snoc2:
  "length xs = length ys \<Longrightarrow> xs @ [x] \<noteq> ys @ [y] \<Longrightarrow> longest_common_prefix (xs @ [x]) (ys @ [y]) = longest_common_prefix xs ys"
  by (induction xs ys rule: list_induct2) auto

lemma LastCommonAncestor_loop_common:
  "wf_index a \<Longrightarrow> wf_index b \<Longrightarrow> nHeight a = nHeight b \<Longrightarrow>
    LastCommonAncestor_loop (Some a) (Some b) = (last_common a b, last_common a b)"
proof (induction arbitrary: b rule: wf_index.induct)
  case (genesis a)
  then have "pprev b = None" using wf_index_pprev_None by simp
  with genesis show ?case
    by (cases "a = b")
       (simp_all add: LastCommonAncestor_loop.simps last_common_self, simp add: last_common_def branch_pprev)
next
  case (child p a)
  have pos: "0 < nHeight b" using child.hyps child.prems wf_index_height [of p] by simp
  obtain q where q: "pprev b = Some q" "wf_index q" "nHeight q = nHeight b - 1"
    using wf_index_parent [OF child.prems(1) pos] by auto
  show ?case
  proof (cases "a = b")
    case True
    then show ?thesis by (simp add: LastCommonAncestor_loop.simps last_common_self)
  next
    case False
    have len: "length (branch p) = length (branch q)"
      using length_branch [OF child.hyps(1)] length_branch [OF q(2)] child.hyps(3) child.prems q(3) by linarith
    have "branch a \<noteq> branch b" using False branch_eq_iff by blast
    then have "last_common a b = last_common p q"
      using longest_common_prefix_snoc2 [OF len, of a b] q(1) child.hyps by (simp add: last_common_def branch_pprev)
    moreover have "LastCommonAncestor_loop (Some p) (Some q) = (last_common p q, last_common p q)"
      using child.IH [of q] q child.hyps child.prems by simp
    ultimately show ?thesis
      using False child.hyps q by (subst LastCommonAncestor_loop.simps) simp
  qed
qed

lemma LastCommonAncestor_common:
  assumes "wf_index a" "wf_index b"
  shows "LastCommonAncestor a b = Some (last_common a b)"
proof -
  have down: "\<exists>c. GetAncestor x (nHeight y) = Some c \<and> wf_index c \<and> nHeight c = nHeight y \<and> last_common y c = last_common y x"
    if "wf_index x" "wf_index y" "nHeight y < nHeight x" for x y
  proof -
    have lt: "nat (nHeight y) < length (branch x)"
      using that length_branch [of x] wf_index_height [of y] by simp
    then show ?thesis
      using branch_nth_props [OF that(1) lt] last_common_take [OF that(1,3,2)] that wf_index_height [of y]
      by (simp add: GetAncestor_branch)
  qed
  consider "nHeight a = nHeight b" | "nHeight b < nHeight a" | "nHeight a < nHeight b" by linarith
  then show ?thesis
  proof cases
    case 1
    then show ?thesis using assms by (simp add: LastCommonAncestor_def LastCommonAncestor_loop_common)
  next
    case 2
    then show ?thesis
      using down [of a b] assms last_common_commute by (auto simp: LastCommonAncestor_def LastCommonAncestor_loop_common)
  next
    case 3
    then show ?thesis
      using down [of b a] assms by (auto simp: LastCommonAncestor_def LastCommonAncestor_loop_common)
  qed
qed

section \<open>Locators\<close>

definition locator_ok :: "CBlockIndex \<Rightarrow> CBlockIndex list \<Rightarrow> bool" where
  "locator_ok b bs \<longleftrightarrow> bs \<noteq> [] \<and> hd bs = b \<and> last bs = hd (branch b) \<and> set bs \<subseteq> set (branch b) \<and>
    sorted_wrt (\<lambda>x y. nHeight y < nHeight x) bs"

lemma chain_step_back:
  assumes "chain_ok v" "wf_index b" "0 \<le> h" "h \<le> nHeight b"
  shows "(if Contains v b then chain_at v h else GetAncestor b h) = Some (branch b ! nat h)"
proof (cases "Contains v b")
  case True
  then have "v \<noteq> []" by (auto simp: Contains_def chain_at_def split: if_splits)
  then obtain t where t: "wf_index t" "v = map Some (branch t)" using assms(1) by (auto simp: chain_ok_def)
  then have pre: "prefix (branch b) (branch t)" using True Contains_branch assms(2) by blast
  then have "branch t ! nat h = branch b ! nat h" "nat h < length (branch b)"
    using assms length_branch [OF assms(2)] by (auto simp: prefix_def nth_append)
  moreover have "h \<le> nHeight t"
    using prefix_length_le [OF pre] length_branch [OF t(1)] length_branch [OF assms(2)] assms(4) by simp
  ultimately show ?thesis using True t assms(3) by (simp add: chain_at_branch)
next
  case False
  with assms show ?thesis by (simp add: GetAncestor_branch)
qed

lemma GetLocator_loop_ok:
  assumes "chain_ok v"
  shows "wf_index b \<Longrightarrow> 1 \<le> nStep \<Longrightarrow>
    \<exists>bs. GetLocator_loop v (Some b) nStep acc = acc @ map GetBlockHash bs \<and> locator_ok b bs"
proof (induction "nat (nHeight b)" arbitrary: b nStep acc rule: less_induct)
  case less
  have h0: "0 \<le> nHeight b" using less.prems(1) by (rule wf_index_height)
  have lenb: "int (length (branch b)) = nHeight b + 1" using less.prems(1) by (rule length_branch)
  show ?case
  proof (cases "nHeight b = 0")
    case True
    then have "branch b = [b]" using less.prems(1) wf_index_pprev_None by (simp add: branch_pprev)
    with True have "GetLocator_loop v (Some b) nStep acc = acc @ map GetBlockHash [b] \<and> locator_ok b [b]"
      by (subst GetLocator_loop.simps) (simp add: locator_ok_def)
    then show ?thesis by blast
  next
    case False
    define h where "h = max (nHeight b - nStep) 0"
    define c where "c = branch b ! nat h"
    have h: "0 \<le> h" "h < nHeight b" using False h0 less.prems(2) by (auto simp: h_def)
    have lt: "nat h < length (branch b)" using h lenb by simp
    have c: "wf_index c" "nHeight c = h" "branch c = take (Suc (nat h)) (branch b)"
      using branch_nth_props [OF less.prems(1) lt] h by (simp_all add: c_def)
    have next_c: "(if Contains v b then chain_at v h else GetAncestor b h) = Some c"
      using chain_step_back [OF assms less.prems(1), of h] h by (simp add: c_def)
    let ?acc = "acc @ [GetBlockHash b]"
    let ?s = "if length ?acc > 10 then nStep * 2 else nStep"
    have s: "1 \<le> ?s" using less.prems(2) by simp
    obtain bs where bs: "GetLocator_loop v (Some c) ?s ?acc = ?acc @ map GetBlockHash bs" "locator_ok c bs"
      using less.hyps [of c ?s ?acc] c h s by auto
    have "GetLocator_loop v (Some b) nStep acc = GetLocator_loop v (Some c) ?s ?acc"
      using False c(2) h by (subst GetLocator_loop.simps) (simp add: Let_def next_c h_def [symmetric])
    moreover have "locator_ok b (b # bs)"
    proof -
      have "hd (branch c) = hd (branch b)" using c(3) lt by (simp add: hd_take)
      moreover have "set bs \<subseteq> set (branch b)" "b \<in> set (branch b)"
        using bs(2) c(3) set_take_subset [of "Suc (nat h)" "branch b"] last_in_set [of "branch b"]
        by (auto simp: locator_ok_def)
      moreover have "\<forall>y\<in>set bs. nHeight y < nHeight b"
        using bs(2) c(2) h by (cases bs) (auto simp: locator_ok_def)
      ultimately show ?thesis using bs(2) by (auto simp: locator_ok_def)
    qed
    ultimately show ?thesis using bs(1) by (intro exI [of _ "b # bs"]) simp
  qed
qed

section \<open>Median time never decreases\<close>

lemma sorted_nth_ge:
  fixes xs :: "int list"
  shows "sorted xs \<Longrightarrow> k < length xs \<Longrightarrow> m \<le> xs ! k \<longleftrightarrow> length (filter (\<lambda>x. x < m) xs) \<le> k"
proof (induction xs arbitrary: k)
  case (Cons x xs)
  show ?case
  proof (cases "x < m")
    case True
    with Cons show ?thesis by (cases k) auto
  next
    case False
    then have "filter (\<lambda>x. x < m) xs = []" using Cons.prems(1) by (auto simp: filter_empty_conv)
    moreover have "x \<le> (x # xs) ! k" using Cons.prems by (cases k) auto
    ultimately show ?thesis using False by simp
  qed
qed simp

definition median :: "int list \<Rightarrow> int" where
  "median xs = sort xs ! (length xs div 2)"

lemma filter_sort_length: "length (filter P (sort xs)) = length (filter P xs)" for xs :: "int list"
  by (metis filter_sort length_sort)

lemma median_ge: "xs \<noteq> [] \<Longrightarrow> m \<le> median xs \<longleftrightarrow> length (filter (\<lambda>x. x < m) xs) \<le> length xs div 2"
  using sorted_nth_ge [of "sort xs" "length xs div 2" m] by (simp add: median_def filter_sort_length)

lemma GetMedianTimePast_median: "GetMedianTimePast b = median (times_back 11 (Some b))"
  by (simp add: GetMedianTimePast_def median_def nMedianTimeSpan_def)
     (metis length_rev length_sort mset_rev mset_sort properties_for_sort sorted_sort)

lemma times_back_take: "times_back m p = take m (times_back (m + n) p)"
  by (induction m p rule: times_back.induct) auto

lemma GetMedianTimePast_mono:
  assumes "pprev b = Some p" "GetMedianTimePast p < GetBlockTime b"
  shows "GetMedianTimePast p \<le> GetMedianTimePast b"
proof -
  define w where "w = times_back 11 (Some p)"
  define m where "m = GetMedianTimePast p"
  have w: "w \<noteq> []" "length w \<le> 11"
  proof -
    have "length (times_back n q) \<le> n" for n q by (induction n q rule: times_back.induct) auto
    then show "length w \<le> 11" by (simp add: w_def)
  qed (simp add: w_def eval_nat_numeral)
  have tb: "times_back 11 (Some b) = GetBlockTime b # take 10 w"
    using assms(1) times_back_take [of 10 "Some p" 1] by (simp add: w_def eval_nat_numeral)
  have "length (filter (\<lambda>x. x < m) w) \<le> length w div 2"
    using median_ge [OF w(1), of m] by (simp add: m_def w_def GetMedianTimePast_median)
  moreover have "length (filter (\<lambda>x. x < m) (take 10 w)) \<le> length (filter (\<lambda>x. x < m) w)"
    by (metis append_take_drop_id filter_append le_add1 length_append)
  moreover have "length w div 2 \<le> length (GetBlockTime b # take 10 w) div 2"
    using w(2) by (intro div_le_mono) simp
  ultimately have "m \<le> median (GetBlockTime b # take 10 w)"
    using assms(2) by (subst median_ge) (simp_all add: m_def)
  then show ?thesis by (simp add: GetMedianTimePast_median [of b] tb m_def)
qed

section \<open>Properties\<close>

text \<open>
  C22: Following skip pointers gives what walking back one block at a time gives: on an entry built by
  the node, \<^verbatim>\<open>GetAncestor\<close> returns the block of its branch at the requested height, and null exactly for a
  height below zero or above the entry.
\<close>

theorem GetAncestor_correct:
  assumes "wf_index b"
  shows "GetAncestor b h =
      (if 0 \<le> h \<and> h \<le> nHeight b then go_back (nat (nHeight b - h)) b else None) \<and>
    (0 \<le> h \<and> h \<le> nHeight b \<longrightarrow> (\<exists>a. GetAncestor b h = Some a \<and> nHeight a = h \<and> a \<in> set (branch b)))"
proof (intro conjI impI)
  show "GetAncestor b h = (if 0 \<le> h \<and> h \<le> nHeight b then go_back (nat (nHeight b - h)) b else None)"
    using assms by (simp add: GetAncestor_branch branch_nth)
  assume h: "0 \<le> h \<and> h \<le> nHeight b"
  then have "nat h < length (branch b)" using length_branch [OF assms] by linarith
  with h branch_nth_props [OF assms] assms show "\<exists>a. GetAncestor b h = Some a \<and> nHeight a = h \<and> a \<in> set (branch b)"
    by (simp add: GetAncestor_branch)
qed

text \<open>
  C24: Whatever sequence of tips is set, from an empty chain, the active chain is the branch of the last tip: the
  walk that stops at the first entry already in place never leaves a stale entry behind.
\<close>

theorem SetTip_sequence:
  assumes "\<And>b. b \<in> set tips \<Longrightarrow> wf_index b"
  shows "foldl (\<lambda>v b. SetTip v (Some b)) [] tips = (if tips = [] then [] else map Some (branch (last tips)))"
  using assms
proof (induction tips rule: rev_induct)
  case (snoc b tips)
  then have "tips \<noteq> [] \<Longrightarrow> wf_index (last tips)" by simp
  with snoc have "chain_ok (foldl (\<lambda>v b. SetTip v (Some b)) [] tips)"
    by (auto simp: chain_ok_def branch_eq_iff)
  with snoc show ?case by (simp add: SetTip_branch)
qed simp

text \<open>
  \<^verbatim>\<open>FindFork\<close> and \<^verbatim>\<open>LastCommonAncestor\<close> return the last block that two branches share, and null when they
  share none; the assertion at the end of \<^verbatim>\<open>LastCommonAncestor\<close> holds.
\<close>

theorem forks_correct:
  assumes "wf_index t" "wf_index b"
  shows "FindFork (map Some (branch t)) b = last_common t b \<and> LastCommonAncestor t b = Some (last_common t b)"
  using assms by (simp add: FindFork_common LastCommonAncestor_common)

text \<open>
  A block locator starts at the requested block, ends with the genesis block, and names blocks of its branch
  with strictly decreasing heights.
\<close>

theorem GetLocator_correct:
  assumes "chain_ok v" "wf_index b"
  shows "\<exists>bs. GetLocator v (Some b) = map GetBlockHash bs \<and> bs \<noteq> [] \<and> hd bs = b \<and> last bs = hd (branch b) \<and>
    set bs \<subseteq> set (branch b) \<and> sorted_wrt (\<lambda>x y. nHeight y < nHeight x) bs"
  using GetLocator_loop_ok [OF assms, of 1 "[]"] by (simp add: GetLocator_def locator_ok_def)

text \<open>A genesis entry and two entries on top of it.\<close>

definition example_data :: "int \<Rightarrow> block_data" where
  "example_data h = \<lparr>phashBlock = word_of_int h, nHeight' = h, nFile = 0, nDataPos = 0, nUndoPos = 0, nStatus = 0,
    nFlags = 0, nStakeModifier = 0, nVersion = 0, nTime = word_of_int (60 * h), nBits = 0,
    vLotteryWinnersCoinstakes = LotteryCoinstakeData_empty\<rparr>"

definition example_0 :: CBlockIndex where
  "example_0 = CBlockIndex (example_data 0) None None"

definition example_1 :: CBlockIndex where
  "example_1 = BuildSkip (CBlockIndex (example_data 1) (Some example_0) None)"

definition example_2 :: CBlockIndex where
  "example_2 = BuildSkip (CBlockIndex (example_data 2) (Some example_1) None)"

lemma nHeight_BuildSkip [simp]: "nHeight (BuildSkip b) = nHeight b"
  by (simp add: BuildSkip_def split: option.split)

lemma example_heights [simp]: "nHeight example_0 = 0" "nHeight example_1 = 1" "nHeight example_2 = 2"
  by (simp_all add: example_0_def example_1_def example_2_def example_data_def)

lemma example_wf [simp]: "wf_index example_0" "wf_index example_1" "wf_index example_2"
proof -
  show 0: "wf_index example_0" by (rule wf_index.genesis) (simp_all add: example_0_def example_data_def)
  show 1: "wf_index example_1"
    unfolding example_1_def by (rule wf_index_BuildSkip [OF 0]) (simp add: example_data_def)
  show "wf_index example_2"
    unfolding example_2_def by (rule wf_index_BuildSkip [OF 1]) (simp add: example_data_def)
qed

theorem GetAncestor_correct_witness:
  "\<exists>a. GetAncestor example_2 1 = Some a \<and> nHeight a = 1 \<and> a \<in> set (branch example_2)"
  using GetAncestor_correct [OF example_wf(3), of 1, THEN conjunct2] by simp

theorem SetTip_sequence_witness:
  "foldl (\<lambda>v b. SetTip v (Some b)) [] [example_2, example_1] = map Some (branch example_1)"
  using SetTip_sequence [of "[example_2, example_1]"] by (simp del: foldl_Cons) (metis example_wf)

theorem forks_correct_witness:
  "FindFork (map Some (branch example_2)) example_1 = last_common example_2 example_1 \<and>
   LastCommonAncestor example_2 example_1 = Some (last_common example_2 example_1)"
  using forks_correct [of example_2 example_1] by simp

theorem GetLocator_correct_witness:
  "\<exists>bs. GetLocator [] (Some example_2) = map GetBlockHash bs \<and> bs \<noteq> [] \<and> hd bs = example_2 \<and>
    last bs = hd (branch example_2) \<and> set bs \<subseteq> set (branch example_2) \<and> sorted_wrt (\<lambda>x y. nHeight y < nHeight x) bs"
  using GetLocator_correct [of "[]" example_2] by (simp add: chain_ok_def)

end
