(* ===== verification/Versionbits.thy ===== *)
theory Versionbits
  imports Chain
begin

text \<open>
  Deployment of soft forks by version bits (\<^verbatim>\<open>BIP9Deployment.h\<close>, \<^verbatim>\<open>versionbits.h\<close>, \<^verbatim>\<open>versionbits.cpp\<close>): the state of a
  deployment changes only at the end of a period of \<^verbatim>\<open>nPeriod\<close> blocks, and the states of the ends of periods
  are cached. The theory models the cached computation and proves that it returns the state that
  stepping through all periods from genesis gives.

  The block predicate \<^verbatim>\<open>Condition\<close>, a virtual function of the source, is an argument. A key of the
  cache is a pointer to a block index entry, the null pointer included.
\<close>

section \<open>Deployments\<close>

datatype ThresholdState = DEFINED | STARTED | LOCKED_IN | ACTIVE | FAILED

record BIP9Deployment =
  deploymentName :: string
  bip_bit :: nat
  nStartTime :: int
  nTimeout :: int
  nPeriod :: int
  threshold :: int

definition ALWAYS_ACTIVE :: int where
  "ALWAYS_ACTIVE = -1"

definition VERSIONBITS_TOP_BITS :: u32 where
  "VERSIONBITS_TOP_BITS = 0x20000000"

definition VERSIONBITS_TOP_MASK :: u32 where
  "VERSIONBITS_TOP_MASK = 0xE0000000"

definition MAX_VERSION_BITS_DEPLOYMENTS :: nat where
  "MAX_VERSION_BITS_DEPLOYMENTS = 1"

type_synonym ThresholdConditionCache = "CBlockIndex option \<rightharpoonup> ThresholdState"

section \<open>The state of a deployment\<close>

text \<open>
  The walk back to a block whose state is known. It need not end for a malformed deployment
  (\<^verbatim>\<open>nPeriod\<close> zero), hence the partial function; the theorems show that it does for the others.
\<close>

partial_function (option) UpdateCacheState_back ::
  "BIP9Deployment \<Rightarrow> CBlockIndex option \<Rightarrow> ThresholdConditionCache \<Rightarrow> CBlockIndex list \<Rightarrow>
   (CBlockIndex option \<times> ThresholdConditionCache \<times> CBlockIndex list) option" where
  "UpdateCacheState_back bip pindexPrev cache vToCompute =
    (if cache pindexPrev \<noteq> None then Some (pindexPrev, cache, vToCompute)
     else case pindexPrev of
       None \<Rightarrow> Some (pindexPrev, cache(pindexPrev \<mapsto> DEFINED), vToCompute)
     | Some b \<Rightarrow>
         if GetMedianTimePast b < nStartTime bip
         then Some (pindexPrev, cache(pindexPrev \<mapsto> DEFINED), vToCompute)
         else UpdateCacheState_back bip (GetAncestor b (nHeight b - nPeriod bip)) cache (vToCompute @ [b]))"

text \<open>The number of blocks among the last \<open>n\<close> that satisfy \<^verbatim>\<open>Condition\<close>.\<close>

fun count_condition :: "(CBlockIndex \<Rightarrow> bool) \<Rightarrow> nat \<Rightarrow> CBlockIndex option \<Rightarrow> int" where
  "count_condition Condition 0 p = 0"
| "count_condition Condition (Suc n) None = 0"
| "count_condition Condition (Suc n) (Some b) = (if Condition b then 1 else 0) + count_condition Condition n (pprev b)"

definition next_state :: "BIP9Deployment \<Rightarrow> (CBlockIndex \<Rightarrow> bool) \<Rightarrow> ThresholdState \<Rightarrow> CBlockIndex \<Rightarrow> ThresholdState" where
  "next_state bip Condition state pindexPrev =
    (case state of
       DEFINED \<Rightarrow> if GetMedianTimePast pindexPrev \<ge> nTimeout bip then FAILED
                  else if GetMedianTimePast pindexPrev \<ge> nStartTime bip then STARTED else state
     | STARTED \<Rightarrow> if GetMedianTimePast pindexPrev \<ge> nTimeout bip then FAILED
                  else if count_condition Condition (nat (nPeriod bip)) (Some pindexPrev) \<ge> threshold bip then LOCKED_IN
                  else state
     | LOCKED_IN \<Rightarrow> ACTIVE
     | FAILED \<Rightarrow> state
     | ACTIVE \<Rightarrow> state)"

text \<open>The walk forward, on the blocks of \<^verbatim>\<open>vToCompute\<close> from its back.\<close>

fun UpdateCacheState_forward ::
  "BIP9Deployment \<Rightarrow> (CBlockIndex \<Rightarrow> bool) \<Rightarrow> ThresholdState \<Rightarrow> ThresholdConditionCache \<Rightarrow> CBlockIndex list \<Rightarrow>
   ThresholdState \<times> ThresholdConditionCache" where
  "UpdateCacheState_forward bip Condition state cache [] = (state, cache)"
| "UpdateCacheState_forward bip Condition state cache (b # bs) =
    (let stateNext = next_state bip Condition state b
     in UpdateCacheState_forward bip Condition stateNext (cache(Some b \<mapsto> stateNext)) bs)"

definition UpdateCacheState ::
  "BIP9Deployment \<Rightarrow> (CBlockIndex \<Rightarrow> bool) \<Rightarrow> CBlockIndex option \<Rightarrow> ThresholdConditionCache \<Rightarrow>
   (ThresholdState \<times> ThresholdConditionCache) option" where
  "UpdateCacheState bip Condition pindexPrev cache =
    (if nStartTime bip = ALWAYS_ACTIVE then Some (ACTIVE, cache)
     else
       let pindexPrev = (case pindexPrev of None \<Rightarrow> None
             | Some b \<Rightarrow> GetAncestor b (nHeight b - ((nHeight b + 1) mod nPeriod bip)))
       in Option.bind (UpdateCacheState_back bip pindexPrev cache [])
            (\<lambda>(pindexPrev, cache, vToCompute).
               Option.bind (cache pindexPrev)
                 (\<lambda>state. Some (UpdateCacheState_forward bip Condition state cache (rev vToCompute)))))"

section \<open>Statistics and starting heights\<close>

record BIP9Stats =
  period :: int
  stats_threshold :: int
  elapsed :: int
  stats_count :: int
  possible :: bool

text \<open>The counting loop, down to the height of the end of the previous period.\<close>

function count_above :: "(CBlockIndex \<Rightarrow> bool) \<Rightarrow> int \<Rightarrow> CBlockIndex option \<Rightarrow> int" where
  "count_above Condition h currentIndex =
    (case currentIndex of None \<Rightarrow> 0
     | Some b \<Rightarrow> if h \<noteq> nHeight b then (if Condition b then 1 else 0) + count_above Condition h (pprev b) else 0)"
  by pat_completeness auto
termination
  by (relation "measure (\<lambda>(c, h, p). case p of None \<Rightarrow> 0 | Some b \<Rightarrow> size b)") (auto split: option.splits)

declare count_above.simps [simp del]

text \<open>
  \<open>None\<close> is the null pointer \<^verbatim>\<open>pindexEndOfPrevPeriod\<close> the source dereferences when \<open>pindex\<close> lies in the
  first period.
\<close>

definition GetStateStatisticsFor :: "BIP9Deployment \<Rightarrow> (CBlockIndex \<Rightarrow> bool) \<Rightarrow> CBlockIndex option \<Rightarrow> BIP9Stats option" where
  "GetStateStatisticsFor bip Condition pindex =
    (let stats = \<lparr>period = nPeriod bip, stats_threshold = threshold bip, elapsed = 0, stats_count = 0, possible = False\<rparr>
     in case pindex of None \<Rightarrow> Some stats
        | Some b \<Rightarrow>
            (case GetAncestor b (nHeight b - ((nHeight b + 1) mod nPeriod bip)) of None \<Rightarrow> None
             | Some pindexEndOfPrevPeriod \<Rightarrow>
                 let n = nHeight b - nHeight pindexEndOfPrevPeriod;
                     count = count_above Condition (nHeight pindexEndOfPrevPeriod) (Some b)
                 in Some (stats\<lparr>elapsed := n, stats_count := count,
                      possible := nPeriod bip - threshold bip \<ge> n - count\<rparr>)))"

text \<open>The loop of \<^verbatim>\<open>StartingHeightOfBlockIndexState\<close>; null dereferences and non-termination are \<open>None\<close>.\<close>

partial_function (option) starting_height_loop ::
  "BIP9Deployment \<Rightarrow> (CBlockIndex \<Rightarrow> bool) \<Rightarrow> ThresholdState \<Rightarrow> CBlockIndex \<Rightarrow> ThresholdConditionCache \<Rightarrow>
   (CBlockIndex \<times> ThresholdConditionCache) option" where
  "starting_height_loop bip Condition initialState pindexPrev cache =
    (case GetAncestor pindexPrev (nHeight pindexPrev - nPeriod bip) of
       None \<Rightarrow> Some (pindexPrev, cache)
     | Some previousPeriodParent \<Rightarrow>
         (case UpdateCacheState bip Condition (Some previousPeriodParent) cache of
            None \<Rightarrow> None
          | Some (state, cache) \<Rightarrow>
              if state = initialState then starting_height_loop bip Condition initialState previousPeriodParent cache
              else Some (pindexPrev, cache)))"

definition StartingHeightOfBlockIndexState ::
  "BIP9Deployment \<Rightarrow> (CBlockIndex \<Rightarrow> bool) \<Rightarrow> CBlockIndex option \<Rightarrow> ThresholdConditionCache \<Rightarrow>
   (int \<times> ThresholdConditionCache) option" where
  "StartingHeightOfBlockIndexState bip Condition pindexPrev cache =
    (if nStartTime bip = ALWAYS_ACTIVE then Some (0, cache)
     else case UpdateCacheState bip Condition pindexPrev cache of None \<Rightarrow> None
     | Some (initialState, cache) \<Rightarrow>
         if initialState = DEFINED then Some (0, cache)
         else case pindexPrev of None \<Rightarrow> None
         | Some b \<Rightarrow>
            (case GetAncestor b (nHeight b - ((nHeight b + 1) mod nPeriod bip)) of None \<Rightarrow> None
             | Some p \<Rightarrow>
               (case starting_height_loop bip Condition initialState p cache of None \<Rightarrow> None
                | Some (q, cache) \<Rightarrow> Some (nHeight q + 1, cache))))"

section \<open>Version bits\<close>

definition VersionBitsMask :: "BIP9Deployment \<Rightarrow> u32" where
  "VersionBitsMask bip = push_bit (bip_bit bip) 1"

definition VersionBitsCondition :: "BIP9Deployment \<Rightarrow> CBlockIndex \<Rightarrow> bool" where
  "VersionBitsCondition bip pindex \<longleftrightarrow>
    nVersion (data pindex) AND VERSIONBITS_TOP_MASK = VERSIONBITS_TOP_BITS \<and>
    nVersion (data pindex) AND VersionBitsMask bip \<noteq> 0"

text \<open>
  The array \<^verbatim>\<open>caches\<close> has \<^verbatim>\<open>MAX_VERSION_BITS_DEPLOYMENTS\<close> elements and is indexed with the bit of the
  deployment; an access past its end is \<open>None\<close>.
\<close>

type_synonym VersionBitsCache = "ThresholdConditionCache list"

definition VersionBitsCache_Clear :: "VersionBitsCache \<Rightarrow> VersionBitsCache" where
  "VersionBitsCache_Clear caches = map (\<lambda>c. Map.empty) caches"

definition VersionBitsState ::
  "CBlockIndex option \<Rightarrow> BIP9Deployment \<Rightarrow> VersionBitsCache \<Rightarrow> (ThresholdState \<times> VersionBitsCache) option" where
  "VersionBitsState pindexPrev bip caches =
    (if bip_bit bip < length caches then
       map_option (\<lambda>(state, c). (state, caches[bip_bit bip := c]))
         (UpdateCacheState bip (VersionBitsCondition bip) pindexPrev (caches ! bip_bit bip))
     else None)"

definition VersionBitsStatistics :: "CBlockIndex option \<Rightarrow> BIP9Deployment \<Rightarrow> BIP9Stats option" where
  "VersionBitsStatistics pindexPrev bip = GetStateStatisticsFor bip (VersionBitsCondition bip) pindexPrev"

definition VersionBitsStateSinceHeight ::
  "CBlockIndex option \<Rightarrow> BIP9Deployment \<Rightarrow> VersionBitsCache \<Rightarrow> (int \<times> VersionBitsCache) option" where
  "VersionBitsStateSinceHeight pindexPrev bip caches =
    (if bip_bit bip < length caches then
       map_option (\<lambda>(h, c). (h, caches[bip_bit bip := c]))
         (StartingHeightOfBlockIndexState bip (VersionBitsCondition bip) pindexPrev (caches ! bip_bit bip))
     else None)"

section \<open>The states from genesis on\<close>

text \<open>
  The reference: the state after \<open>k\<close> full periods of the branch of \<open>b\<close>, stepping through the last blocks
  of all periods from genesis.
\<close>

primrec state_at :: "BIP9Deployment \<Rightarrow> (CBlockIndex \<Rightarrow> bool) \<Rightarrow> CBlockIndex \<Rightarrow> nat \<Rightarrow> ThresholdState" where
  "state_at bip Condition b 0 = DEFINED"
| "state_at bip Condition b (Suc k) =
    next_state bip Condition (state_at bip Condition b k) (branch b ! (Suc k * nat (nPeriod bip) - 1))"

definition periods :: "BIP9Deployment \<Rightarrow> CBlockIndex \<Rightarrow> nat" where
  "periods bip b = nat (nHeight b + 1) div nat (nPeriod bip)"

definition pointer_state :: "BIP9Deployment \<Rightarrow> (CBlockIndex \<Rightarrow> bool) \<Rightarrow> CBlockIndex option \<Rightarrow> ThresholdState" where
  "pointer_state bip Condition p =
    (case p of None \<Rightarrow> DEFINED | Some b \<Rightarrow> state_at bip Condition b (periods bip b))"

text \<open>An entry of the cache is right when it is the state of the end of a period.\<close>

definition period_end :: "BIP9Deployment \<Rightarrow> CBlockIndex option \<Rightarrow> bool" where
  "period_end bip p \<longleftrightarrow> (case p of None \<Rightarrow> True
    | Some b \<Rightarrow> wf_index b \<and> nat (nHeight b + 1) mod nat (nPeriod bip) = 0)"

definition cache_ok :: "BIP9Deployment \<Rightarrow> (CBlockIndex \<Rightarrow> bool) \<Rightarrow> ThresholdConditionCache \<Rightarrow> bool" where
  "cache_ok bip Condition cache \<longleftrightarrow>
    (\<forall>p s. cache p = Some s \<longrightarrow> period_end bip p \<and> s = pointer_state bip Condition p)"

text \<open>
  The rule that a block is later than the median time of its predecessors, which the node checks of
  every header, for all blocks of a branch.
\<close>

definition times_valid :: "CBlockIndex \<Rightarrow> bool" where
  "times_valid b \<longleftrightarrow> (\<forall>i. Suc i < length (branch b) \<longrightarrow>
    GetMedianTimePast (branch b ! i) < GetBlockTime (branch b ! Suc i))"

lemma branch_ancestor:
  assumes "wf_index b" "i < length (branch b)" "a = branch b ! i"
  shows "wf_index a" "nHeight a = int i" "branch a = take (Suc i) (branch b)"
  using branch_nth_props [OF assms(1,2)] assms(3) by simp_all

lemma state_at_ancestor:
  assumes "wf_index b" "i < length (branch b)" "a = branch b ! i" "k * nat (nPeriod bip) \<le> Suc i"
  shows "state_at bip Condition a k = state_at bip Condition b k"
  using assms(4)
proof (induction k)
  case (Suc k)
  then have "branch a ! (Suc k * nat (nPeriod bip) - 1) = branch b ! (Suc k * nat (nPeriod bip) - 1)"
    using branch_ancestor(3) [OF assms(1-3)] by simp
  with Suc show ?case by simp
qed simp

lemma pprev_branch:
  assumes "wf_index b" "Suc i < length (branch b)"
  shows "pprev (branch b ! Suc i) = Some (branch b ! i)"
proof -
  let ?c = "branch b ! Suc i"
  have c: "wf_index ?c" "nHeight ?c = int (Suc i)" "branch ?c = take (Suc (Suc i)) (branch b)"
    using branch_ancestor [OF assms refl] by simp_all
  then obtain p where p: "pprev ?c = Some p" using wf_index_pprev_None [OF c(1)] by (cases "pprev ?c") auto
  then have "branch p @ [?c] = take (Suc i) (branch b) @ [?c]"
    using c(3) branch_pprev(2) [OF p] assms(2) by (simp add: take_Suc_conv_app_nth)
  then have "last (branch p) = last (take (Suc i) (branch b))" by simp
  with p assms(2) show ?thesis by (simp add: take_Suc_conv_app_nth)
qed

lemma median_mono_branch:
  assumes "wf_index b" "times_valid b"
  shows "i \<le> j \<Longrightarrow> j < length (branch b) \<Longrightarrow> GetMedianTimePast (branch b ! i) \<le> GetMedianTimePast (branch b ! j)"
proof (induction j)
  case (Suc j)
  show ?case
  proof (cases "i = Suc j")
    case False
    then have "GetMedianTimePast (branch b ! i) \<le> GetMedianTimePast (branch b ! j)" using Suc by simp
    also have "\<dots> \<le> GetMedianTimePast (branch b ! Suc j)"
      using GetMedianTimePast_mono [OF pprev_branch [OF assms(1) Suc.prems(2)]] assms(2) Suc.prems(2)
      by (simp add: times_valid_def)
    finally show ?thesis .
  qed simp
qed simp

text \<open>Before the start time a deployment is merely defined: the shortcut of the walk back.\<close>

lemma early_state:
  assumes "wf_index b" "times_valid b" "nStartTime bip \<le> nTimeout bip" "0 < nPeriod bip"
    and "i < length (branch b)" "GetMedianTimePast (branch b ! i) < nStartTime bip" "k * nat (nPeriod bip) \<le> Suc i"
  shows "state_at bip Condition b k = DEFINED"
  using assms(7)
proof (induction k)
  case (Suc k)
  have "Suc k * nat (nPeriod bip) - 1 \<le> i" using Suc.prems by simp
  then have "GetMedianTimePast (branch b ! (Suc k * nat (nPeriod bip) - 1)) \<le> GetMedianTimePast (branch b ! i)"
    using median_mono_branch [OF assms(1,2)] assms(5) by blast
  with assms(3,6) Suc show ?case by (simp add: next_state_def)
qed simp

lemma period_of_index:
  fixes P :: nat
  assumes "0 < P" "k * P \<le> n" "n < Suc k * P"
  shows "n div P = k" "n - n mod P = k * P"
proof -
  show "n div P = k" using assms by (intro div_nat_eqI) (simp_all add: mult.commute)
  then show "n - n mod P = k * P" by (metis minus_mod_eq_div_mult)
qed

text \<open>The end of the \<open>k\<close>-th period of a branch, as a pointer.\<close>

definition end_of :: "BIP9Deployment \<Rightarrow> CBlockIndex \<Rightarrow> nat \<Rightarrow> CBlockIndex option" where
  "end_of bip b k = (if k = 0 then None else Some (branch b ! (k * nat (nPeriod bip) - 1)))"

lemma end_of_facts:
  assumes "wf_index b" "0 < nPeriod bip" "0 < k" "k * nat (nPeriod bip) \<le> length (branch b)"
  defines "a \<equiv> branch b ! (k * nat (nPeriod bip) - 1)"
  shows "wf_index a" "nHeight a = int (k * nat (nPeriod bip)) - 1" "periods bip a = k"
    "period_end bip (Some a)" "k * nat (nPeriod bip) - 1 < length (branch b)"
proof -
  have pos: "0 < k * nat (nPeriod bip)" using assms(2,3) by simp
  then show lt: "k * nat (nPeriod bip) - 1 < length (branch b)" using assms(4) by linarith
  show wf: "wf_index a" using branch_ancestor(1) [OF assms(1) lt refl] by (simp add: a_def)
  show h: "nHeight a = int (k * nat (nPeriod bip)) - 1"
    using branch_ancestor(2) [OF assms(1) lt refl] pos unfolding a_def by linarith
  have "nat (nHeight a + 1) = k * nat (nPeriod bip)" using h by linarith
  with wf assms(2) show "periods bip a = k" "period_end bip (Some a)"
    by (simp_all add: periods_def period_end_def)
qed

lemma pointer_state_end:
  assumes "wf_index b" "0 < nPeriod bip" "k * nat (nPeriod bip) \<le> length (branch b)"
  shows "pointer_state bip Condition (end_of bip b k) = state_at bip Condition b k" "period_end bip (end_of bip b k)"
proof -
  show "pointer_state bip Condition (end_of bip b k) = state_at bip Condition b k"
  proof (cases "k = 0")
    case False
    note f = end_of_facts [OF assms(1,2) _ assms(3)]
    from False f(5) state_at_ancestor [OF assms(1) _ refl, of "k * nat (nPeriod bip) - 1" k bip Condition] f(3)
    show ?thesis by (simp add: pointer_state_def end_of_def)
  qed (simp add: pointer_state_def end_of_def)
  show "period_end bip (end_of bip b k)"
    using end_of_facts(4) [OF assms(1,2) _ assms(3)] by (simp add: end_of_def period_end_def [of _ None])
qed

lemma GetAncestor_end_of:
  assumes "wf_index b" "0 < nPeriod bip" "Suc k * nat (nPeriod bip) \<le> length (branch b)"
  defines "a \<equiv> branch b ! (Suc k * nat (nPeriod bip) - 1)"
  shows "GetAncestor a (nHeight a - nPeriod bip) = end_of bip b k"
proof -
  note f = end_of_facts [OF assms(1,2) zero_less_Suc assms(3), folded a_def]
  let ?P = "nat (nPeriod bip)"
  have h: "nHeight a - nPeriod bip = int (k * ?P) - 1" using f(2) assms(2) by (simp add: algebra_simps)
  show ?thesis
  proof (cases "k = 0")
    case True
    with h show ?thesis by (simp add: GetAncestor_def end_of_def)
  next
    case False
    then have pos: "0 < k * ?P" using assms(2) by simp
    have "branch a = take (Suc k * ?P) (branch b)"
      using branch_ancestor(3) [OF assms(1) f(5) refl] assms(2) by (simp add: a_def)
    moreover have "nat (int (k * ?P) - 1) = k * ?P - 1" by linarith
    moreover have "k * ?P - 1 < Suc k * ?P" using pos unfolding mult_Suc by linarith
    ultimately show ?thesis
      using f(1,2) pos assms(2) False by (simp add: GetAncestor_branch h end_of_def)
  qed
qed

section \<open>The cached computation returns the reference state\<close>

lemma cache_ok_upd:
  "cache_ok bip Condition cache \<Longrightarrow> period_end bip p \<Longrightarrow> s = pointer_state bip Condition p \<Longrightarrow>
    cache_ok bip Condition (cache(p \<mapsto> s))"
  by (auto simp: cache_ok_def)

lemma UpdateCacheState_back_ok:
  assumes b: "wf_index b" "times_valid b" and P: "nStartTime bip \<le> nTimeout bip" "0 < nPeriod bip"
  shows "k * nat (nPeriod bip) \<le> length (branch b) \<Longrightarrow> cache_ok bip Condition cache \<Longrightarrow>
    \<exists>j cache'. j \<le> k \<and> UpdateCacheState_back bip (end_of bip b k) cache v =
      Some (end_of bip b j, cache', v @ map (\<lambda>i. branch b ! (i * nat (nPeriod bip) - 1)) (rev [Suc j..<Suc k])) \<and>
      cache_ok bip Condition cache' \<and> cache' (end_of bip b j) = Some (state_at bip Condition b j)"
proof (induction k arbitrary: v)
  case 0
  have st: "pointer_state bip Condition (end_of bip b 0) = state_at bip Condition b 0" "period_end bip (end_of bip b 0)"
    using pointer_state_end [OF b(1) P(2) "0.prems"(1)] by simp_all
  show ?case
  proof (cases "cache (end_of bip b 0)")
    case None
    with 0 show ?thesis
      using cache_ok_upd [OF "0.prems"(2) st(2)] st(1)
      by (subst UpdateCacheState_back.simps) (auto simp: end_of_def)
  next
    case (Some s)
    then have "s = state_at bip Condition b 0" using "0.prems"(2) st by (simp add: cache_ok_def)
    with Some 0 show ?thesis by (subst UpdateCacheState_back.simps) auto
  qed
next
  case (Suc k)
  let ?P = "nat (nPeriod bip)"
  let ?a = "branch b ! (Suc k * ?P - 1)"
  have e: "end_of bip b (Suc k) = Some ?a" by (simp add: end_of_def)
  have st: "pointer_state bip Condition (Some ?a) = state_at bip Condition b (Suc k)" "period_end bip (Some ?a)"
    using pointer_state_end [OF b(1) P(2) Suc.prems(1)] e by simp_all
  consider s where "cache (Some ?a) = Some s" | "cache (Some ?a) = None" "GetMedianTimePast ?a < nStartTime bip"
    | "cache (Some ?a) = None" "\<not> GetMedianTimePast ?a < nStartTime bip" by fastforce
  then show ?case
  proof cases
    case 1
    then have "s = state_at bip Condition b (Suc k)" using Suc.prems(2) st by (simp add: cache_ok_def)
    with 1 Suc.prems(2) show ?thesis
      unfolding e by (intro exI [of _ "Suc k"] exI [of _ cache]) (subst UpdateCacheState_back.simps, simp add: e)
  next
    case 2
    have lt: "Suc k * ?P - 1 < length (branch b)"
      using end_of_facts(5) [OF b(1) P(2) zero_less_Suc Suc.prems(1)] .
    have "0 < Suc k * ?P" using P(2) by simp
    then have early: "state_at bip Condition b (Suc k) = DEFINED"
      using early_state [OF b P lt 2(2), of "Suc k" Condition] by linarith
    with 2 Suc.prems(2) show ?thesis
      using cache_ok_upd [OF Suc.prems(2) st(2)] st(1) unfolding e
      by (intro exI [of _ "Suc k"] exI [of _ "cache(Some ?a \<mapsto> DEFINED)"])
         (subst UpdateCacheState_back.simps, simp add: e)
  next
    case 3
    have "k * ?P \<le> length (branch b)" using Suc.prems(1) by simp
    then obtain j cache' where j: "j \<le> k" and r: "UpdateCacheState_back bip (end_of bip b k) cache (v @ [?a]) =
        Some (end_of bip b j, cache', (v @ [?a]) @ map (\<lambda>i. branch b ! (i * ?P - 1)) (rev [Suc j..<Suc k]))"
      "cache_ok bip Condition cache'" "cache' (end_of bip b j) = Some (state_at bip Condition b j)"
      using Suc.IH [of "v @ [?a]"] Suc.prems(2) by blast
    have "rev [Suc j..<Suc (Suc k)] = Suc k # rev [Suc j..<Suc k]" using j by simp
    moreover have "UpdateCacheState_back bip (Some ?a) cache v = UpdateCacheState_back bip (end_of bip b k) cache (v @ [?a])"
      using 3 GetAncestor_end_of [OF b(1) P(2) Suc.prems(1)] by (subst UpdateCacheState_back.simps) simp
    ultimately show ?thesis
      using j r unfolding e by (intro exI [of _ j] exI [of _ cache']) simp
  qed
qed

lemma UpdateCacheState_forward_ok:
  assumes b: "wf_index b" and P: "0 < nPeriod bip"
  shows "j \<le> k \<Longrightarrow> k * nat (nPeriod bip) \<le> length (branch b) \<Longrightarrow> cache_ok bip Condition cache \<Longrightarrow>
    \<exists>cache'. UpdateCacheState_forward bip Condition (state_at bip Condition b j) cache
      (map (\<lambda>i. branch b ! (i * nat (nPeriod bip) - 1)) [Suc j..<Suc k]) = (state_at bip Condition b k, cache') \<and>
      cache_ok bip Condition cache'"
proof (induction "k - j" arbitrary: j cache)
  case 0
  then show ?case by simp
next
  case (Suc n)
  then have lt: "j < k" by simp
  let ?P = "nat (nPeriod bip)"
  let ?a = "branch b ! (Suc j * ?P - 1)"
  let ?s = "next_state bip Condition (state_at bip Condition b j) ?a"
  have "Suc j * ?P \<le> k * ?P" using lt by (intro mult_le_mono1) simp
  then have le: "Suc j * ?P \<le> length (branch b)" using Suc.prems(2) by linarith
  have "cache_ok bip Condition (cache(Some ?a \<mapsto> ?s))"
    using pointer_state_end(1) [OF b P le, of Condition] pointer_state_end(2) [OF b P le] Suc.prems(3)
    by (intro cache_ok_upd) (simp_all add: end_of_def)
  then obtain cache' where "UpdateCacheState_forward bip Condition (state_at bip Condition b (Suc j)) (cache(Some ?a \<mapsto> ?s))
      (map (\<lambda>i. branch b ! (i * ?P - 1)) [Suc (Suc j)..<Suc k]) = (state_at bip Condition b k, cache')"
      "cache_ok bip Condition cache'"
    using Suc.hyps(1) [of "Suc j"] Suc.hyps(2) Suc.prems(2) lt by fastforce
  then show ?case using lt by (simp add: upt_conv_Cons [of "Suc j"] del: upt_Suc)
qed

lemma UpdateCacheState_ok:
  assumes b: "wf_index b" "times_valid b" and P: "nStartTime bip \<le> nTimeout bip" "0 < nPeriod bip"
    and "nStartTime bip \<noteq> ALWAYS_ACTIVE" "cache_ok bip Condition cache"
  shows "\<exists>cache'. UpdateCacheState bip Condition (Some b) cache = Some (state_at bip Condition b (periods bip b), cache') \<and>
    cache_ok bip Condition cache'"
proof -
  let ?P = "nat (nPeriod bip)"
  let ?n = "nat (nHeight b + 1)"
  let ?k = "periods bip b"
  have len: "length (branch b) = ?n" "0 < ?n" using length_branch [OF b(1)] wf_index_height [OF b(1)] by simp_all
  have k: "?k * ?P \<le> length (branch b)" using len by (simp add: periods_def)
  have n: "nHeight b + 1 = int ?n" "nPeriod bip = int ?P" using wf_index_height [OF b(1)] P(2) by simp_all
  then have "(nHeight b + 1) mod nPeriod bip = int (?n mod ?P)" by (metis zmod_int)
  moreover have "int ?n = int (?k * ?P) + int (?n mod ?P)"
    unfolding periods_def by (metis div_mult_mod_eq of_nat_add)
  ultimately have h: "nHeight b - (nHeight b + 1) mod nPeriod bip = int (?k * ?P) - 1"
    using n(1) by linarith
  have start: "GetAncestor b (nHeight b - (nHeight b + 1) mod nPeriod bip) = end_of bip b ?k"
  proof (cases "?k = 0")
    case True
    with h show ?thesis by (simp add: GetAncestor_def end_of_def)
  next
    case False
    then have "0 < ?k * ?P" using P(2) by simp
    moreover have "nat (int (?k * ?P) - 1) = ?k * ?P - 1" by linarith
    ultimately show ?thesis
      using b(1) False k len wf_index_height [OF b(1)] unfolding h
      by (auto simp: GetAncestor_branch end_of_def simp del: of_nat_mult)
  qed
  obtain j cache1 where j: "j \<le> ?k" and walk: "UpdateCacheState_back bip (end_of bip b ?k) cache [] =
      Some (end_of bip b j, cache1, [] @ map (\<lambda>i. branch b ! (i * ?P - 1)) (rev [Suc j..<Suc ?k]))"
    "cache_ok bip Condition cache1" "cache1 (end_of bip b j) = Some (state_at bip Condition b j)"
    using UpdateCacheState_back_ok [OF b P k assms(6), of "[]"] by blast
  obtain cache2 where "UpdateCacheState_forward bip Condition (state_at bip Condition b j) cache1
      (map (\<lambda>i. branch b ! (i * ?P - 1)) [Suc j..<Suc ?k]) = (state_at bip Condition b ?k, cache2)"
      "cache_ok bip Condition cache2"
    using UpdateCacheState_forward_ok [OF b(1) P(2) j k walk(2)] by blast
  with walk start assms(5) show ?thesis
    by (simp add: UpdateCacheState_def rev_map del: upt_Suc)
qed

section \<open>Properties\<close>

text \<open>
  C23: With any cache whose entries are right, \<^verbatim>\<open>UpdateCacheState\<close> returns for the block after \<open>b\<close> the state that
  stepping through all full periods of the branch of \<open>b\<close> from genesis gives, and leaves a cache whose entries are
  right; the walks back and forward end. The block times satisfy the median time rule, and the deployment
  starts before it times out.
\<close>

theorem UpdateCacheState_correct:
  assumes "wf_index b" "times_valid b" "nStartTime bip \<le> nTimeout bip" "0 < nPeriod bip"
    and "nStartTime bip \<noteq> ALWAYS_ACTIVE" "cache_ok bip Condition cache"
  shows "\<exists>cache'. UpdateCacheState bip Condition (Some b) cache = Some (state_at bip Condition b (periods bip b), cache') \<and>
    cache_ok bip Condition cache'"
  using assms by (rule UpdateCacheState_ok)

lemma next_state_LOCKED_IN:
  assumes "next_state bip Condition s a = LOCKED_IN"
  shows "GetMedianTimePast a < nTimeout bip \<and> threshold bip \<le> count_condition Condition (nat (nPeriod bip)) (Some a)"
  using assms by (auto simp: next_state_def split: ThresholdState.splits if_splits)

lemma next_state_ACTIVE:
  assumes "next_state bip Condition s a = ACTIVE"
  shows "s = ACTIVE \<or> s = LOCKED_IN"
  using assms by (auto simp: next_state_def split: ThresholdState.splits if_splits)

lemma state_at_LOCKED_IN:
  assumes "state_at bip Condition b k = LOCKED_IN"
  shows "\<exists>j<k. GetMedianTimePast (branch b ! (Suc j * nat (nPeriod bip) - 1)) < nTimeout bip \<and>
    threshold bip \<le> count_condition Condition (nat (nPeriod bip)) (Some (branch b ! (Suc j * nat (nPeriod bip) - 1)))"
  using assms by (cases k) (auto dest!: next_state_LOCKED_IN)

lemma state_at_ACTIVE:
  "state_at bip Condition b k = ACTIVE \<Longrightarrow>
   \<exists>j<k. GetMedianTimePast (branch b ! (Suc j * nat (nPeriod bip) - 1)) < nTimeout bip \<and>
    threshold bip \<le> count_condition Condition (nat (nPeriod bip)) (Some (branch b ! (Suc j * nat (nPeriod bip) - 1)))"
proof (induction k)
  case (Suc k)
  then have "state_at bip Condition b k = ACTIVE \<or> state_at bip Condition b k = LOCKED_IN"
    using next_state_ACTIVE by (metis state_at.simps(2))
  with Suc.IH state_at_LOCKED_IN [of bip Condition b k] show ?case by (meson less_SucI)
qed simp

text \<open>
  A deployment is active only when the blocks asked for it: if the state computed for the block after
  \<open>b\<close> is active, the branch of \<open>b\<close> has a full period in which at least \<^verbatim>\<open>threshold\<close> blocks satisfied the condition and
  which ended before the timeout.
\<close>

theorem active_needs_threshold:
  assumes "wf_index b" "times_valid b" "nStartTime bip \<le> nTimeout bip" "0 < nPeriod bip"
    and "nStartTime bip \<noteq> ALWAYS_ACTIVE" "cache_ok bip Condition cache"
    and "UpdateCacheState bip Condition (Some b) cache = Some (ACTIVE, cache')"
  shows "\<exists>a\<in>set (branch b). (nHeight a + 1) mod nPeriod bip = 0 \<and> GetMedianTimePast a < nTimeout bip \<and>
    threshold bip \<le> count_condition Condition (nat (nPeriod bip)) (Some a)"
proof -
  let ?P = "nat (nPeriod bip)"
  have "state_at bip Condition b (periods bip b) = ACTIVE"
    using UpdateCacheState_ok [OF assms(1-6)] assms(7) by auto
  then obtain j where j: "j < periods bip b" "GetMedianTimePast (branch b ! (Suc j * ?P - 1)) < nTimeout bip"
    "threshold bip \<le> count_condition Condition ?P (Some (branch b ! (Suc j * ?P - 1)))"
    using state_at_ACTIVE by blast
  have "Suc j * ?P \<le> periods bip b * ?P" using j(1) by (intro mult_le_mono1) simp
  moreover have "periods bip b * ?P \<le> length (branch b)"
    using length_branch [OF assms(1)] wf_index_height [OF assms(1)] by (simp add: periods_def nat_eq_iff)
      (metis div_times_less_eq_dividend nat_int of_nat_add of_nat_1)
  ultimately have "Suc j * ?P \<le> length (branch b)" by (rule order_trans)
  note f = end_of_facts [OF assms(1,4) zero_less_Suc this]
  have "nHeight (branch b ! (Suc j * ?P - 1)) + 1 = int (Suc j) * nPeriod bip"
    using f(2) assms(4) by (simp add: algebra_simps)
  with f(5) j(2,3) show ?thesis by (intro bexI [of _ "branch b ! (Suc j * ?P - 1)"]) (simp_all del: mult_Suc of_nat_Suc)
qed

text \<open>
  In the first period there is no end of a previous period: for every block of it \<^verbatim>\<open>GetStateStatisticsFor\<close> follows a
  null pointer.
\<close>

theorem statistics_first_period:
  assumes "wf_index b" "nHeight b + 1 < nPeriod bip"
  shows "GetStateStatisticsFor bip Condition (Some b) = None"
  using assms wf_index_height [OF assms(1)] by (simp add: GetStateStatisticsFor_def GetAncestor_def)

definition example_bip :: BIP9Deployment where
  "example_bip = \<lparr>deploymentName = ''example'', bip_bit = 0, nStartTime = 0, nTimeout = 1000, nPeriod = 1, threshold = 1\<rparr>"

lemma example_pprev: "pprev example_0 = None" "pprev example_1 = Some example_0" "pprev example_2 = Some example_1"
  by (simp_all add: example_0_def example_1_def example_2_def BuildSkip_def)

lemma example_branch: "branch example_2 = [example_0, example_1, example_2]"
  using branch_pprev(1) [OF example_pprev(1)] branch_pprev(2) [OF example_pprev(2)] branch_pprev(2) [OF example_pprev(3)]
  by simp

lemma data_BuildSkip [simp]: "data (BuildSkip b) = data b"
  by (simp add: BuildSkip_def split: option.split)

lemma example_GetBlockTime: "GetBlockTime example_0 = 0" "GetBlockTime example_1 = 60" "GetBlockTime example_2 = 120"
  by (simp_all add: GetBlockTime_def example_0_def example_1_def example_2_def example_data_def)

lemma example_times_back:
  "times_back 11 (Some example_0) = [0]" "times_back 11 (Some example_1) = [60, 0]"
  "times_back 11 (Some example_2) = [120, 60, 0]"
  by (simp_all add: example_pprev example_GetBlockTime eval_nat_numeral)

lemma example_median:
  "GetMedianTimePast example_0 = 0" "GetMedianTimePast example_1 = 60" "GetMedianTimePast example_2 = 60"
  by (simp_all add: GetMedianTimePast_def nMedianTimeSpan_def example_times_back)

lemma example_times: "times_valid example_2"
  by (auto simp: times_valid_def example_branch example_median example_GetBlockTime less_Suc_eq)

lemma example_state: "state_at example_bip (\<lambda>_. True) example_2 (periods example_bip example_2) = ACTIVE"
  by (simp add: periods_def example_bip_def eval_nat_numeral example_branch next_state_def example_median)

lemma cache_ok_empty: "cache_ok bip Condition Map.empty"
  by (simp add: cache_ok_def)

theorem UpdateCacheState_correct_witness:
  "\<exists>cache'. UpdateCacheState example_bip (\<lambda>_. True) (Some example_2) Map.empty = Some (ACTIVE, cache') \<and>
    cache_ok example_bip (\<lambda>_. True) cache'"
  using UpdateCacheState_correct [of example_2 example_bip "\<lambda>_. True" Map.empty] example_times example_state
  by (simp add: cache_ok_empty) (simp add: example_bip_def ALWAYS_ACTIVE_def)

theorem active_needs_threshold_witness:
  "\<exists>a\<in>set (branch example_2). (nHeight a + 1) mod nPeriod example_bip = 0 \<and> GetMedianTimePast a < nTimeout example_bip \<and>
    threshold example_bip \<le> count_condition (\<lambda>_. True) (nat (nPeriod example_bip)) (Some a)"
proof -
  have e: "nStartTime example_bip \<le> nTimeout example_bip" "0 < nPeriod example_bip" "nStartTime example_bip \<noteq> ALWAYS_ACTIVE"
    by (simp_all add: example_bip_def ALWAYS_ACTIVE_def)
  obtain cache' where "UpdateCacheState example_bip (\<lambda>_. True) (Some example_2) Map.empty = Some (ACTIVE, cache')"
    using UpdateCacheState_ok [OF example_wf(3) example_times e cache_ok_empty, of "\<lambda>_. True"] example_state by auto
  then show ?thesis by (rule active_needs_threshold [OF example_wf(3) example_times e cache_ok_empty])
qed

theorem statistics_first_period_witness:
  "GetStateStatisticsFor (example_bip\<lparr>nPeriod := 10\<rparr>) (\<lambda>_. True) (Some example_2) = None"
  using statistics_first_period [of example_2 "example_bip\<lparr>nPeriod := 10\<rparr>" "\<lambda>_. True"] by simp

end
