(* ===== verification/Bip9_Manager.thy ===== *)
theory Bip9_Manager
  imports Versionbits
begin

text \<open>
  The activation manager of Divi (\<^verbatim>\<open>CachedBIP9ActivationStateTracker.cpp\<close>, \<^verbatim>\<open>BIP9ActivationManager.cpp\<close>). Its tracker computes
  states at the first blocks of periods, and its cache keeps only the blocks at which the state changes.
  The theory proves that a query still returns the state that stepping through all periods gives, and that
  the manager never registers two deployments for one bit.
\<close>

section \<open>The tracker\<close>

definition bipIsViable :: "BIP9Deployment \<Rightarrow> bool" where
  "bipIsViable bip \<longleftrightarrow> \<not> (nStartTime bip > nTimeout bip \<or> nPeriod bip < threshold bip)"

definition bipIsSignaledFor :: "BIP9Deployment \<Rightarrow> CBlockIndex \<Rightarrow> bool" where
  "bipIsSignaledFor bip b \<longleftrightarrow>
    (let bipMask = push_bit (bip_bit bip) 1
     in nVersion (data b) AND VERSIONBITS_TOP_MASK = VERSIONBITS_TOP_BITS \<and> nVersion (data b) AND bipMask \<noteq> 0)"

fun count_signals :: "BIP9Deployment \<Rightarrow> CBlockIndex option \<Rightarrow> nat \<Rightarrow> int" where
  "count_signals bip endingBlockIndex 0 = 0"
| "count_signals bip None (Suc n) = 0"
| "count_signals bip (Some b) (Suc n) = of_bool (bipIsSignaledFor bip b) + count_signals bip (pprev b) n"

definition enoughBipSignalsToLockIn :: "BIP9Deployment \<Rightarrow> CBlockIndex option \<Rightarrow> bool" where
  "enoughBipSignalsToLockIn bip endingBlockIndex \<longleftrightarrow> count_signals bip endingBlockIndex (nat (nPeriod bip)) \<ge> threshold bip"

definition getMostRecentStartingBlock :: "BIP9Deployment \<Rightarrow> CBlockIndex option \<Rightarrow> CBlockIndex option" where
  "getMostRecentStartingBlock bip shallowBlockIndex =
    (case shallowBlockIndex of None \<Rightarrow> None
     | Some b \<Rightarrow> GetAncestor b (nHeight b - nHeight b mod nPeriod bip))"

definition computeStateTransition :: "BIP9Deployment \<Rightarrow> ThresholdState \<Rightarrow> CBlockIndex \<Rightarrow> ThresholdState" where
  "computeStateTransition bip lastKnownState b =
    (case lastKnownState of
       DEFINED \<Rightarrow> if GetMedianTimePast b \<ge> nTimeout bip then FAILED
                  else if GetMedianTimePast b \<ge> nStartTime bip then STARTED else DEFINED
     | STARTED \<Rightarrow> if GetMedianTimePast b \<ge> nTimeout bip then FAILED
                  else if enoughBipSignalsToLockIn bip (pprev b) then LOCKED_IN else STARTED
     | LOCKED_IN \<Rightarrow> ACTIVE
     | FAILED \<Rightarrow> lastKnownState
     | ACTIVE \<Rightarrow> lastKnownState)"

text \<open>The loop of \<^verbatim>\<open>getStartingBlocksForPeriodsPreceedingBlockIndex\<close>.\<close>

partial_function (option) getStartingBlocks ::
  "BIP9Deployment \<Rightarrow> ThresholdConditionCache \<Rightarrow> CBlockIndex option list \<Rightarrow>
   (CBlockIndex option list \<times> ThresholdConditionCache) option" where
  "getStartingBlocks bip cache blocks =
    (case (if blocks = [] then None else last blocks) of
       None \<Rightarrow> Some (blocks, cache)
     | Some c \<Rightarrow>
         if cache (Some c) \<noteq> None then Some (blocks, cache)
         else
           let predecesor = GetAncestor c (nHeight c - nPeriod bip);
               blocks = blocks @ [predecesor]
           in case predecesor of
                None \<Rightarrow> Some (blocks, cache(None \<mapsto> DEFINED))
              | Some q \<Rightarrow>
                  if GetMedianTimePast q < nStartTime bip then
                    if cache predecesor \<noteq> None then Some (blocks, cache)
                    else Some (blocks, cache(predecesor \<mapsto> DEFINED))
                  else getStartingBlocks bip cache blocks)"

text \<open>\<^verbatim>\<open>std::map::operator[]\<close>, which enters the default state under a key that is missing.\<close>

definition cache_get :: "ThresholdConditionCache \<Rightarrow> CBlockIndex option \<Rightarrow> ThresholdState \<times> ThresholdConditionCache" where
  "cache_get cache p = (case cache p of Some s \<Rightarrow> (s, cache) | None \<Rightarrow> (DEFINED, cache(p \<mapsto> DEFINED)))"

text \<open>The loop of \<^verbatim>\<open>update\<close> over the starting blocks, oldest first; they are not null.\<close>

fun update_loop ::
  "BIP9Deployment \<Rightarrow> ThresholdState \<Rightarrow> ThresholdState \<Rightarrow> ThresholdConditionCache \<Rightarrow> CBlockIndex option list \<Rightarrow>
   ThresholdConditionCache" where
  "update_loop bip lastKnownState priorLastKnownState cache [] = cache"
| "update_loop bip lastKnownState priorLastKnownState cache (None # bs) = cache"
| "update_loop bip lastKnownState priorLastKnownState cache (Some b # bs) =
    (if \<not> bipIsViable bip then
       if lastKnownState \<noteq> FAILED then cache(Some b \<mapsto> FAILED) else cache
     else
       let lastKnownState = computeStateTransition bip lastKnownState b
       in if priorLastKnownState \<noteq> lastKnownState
          then update_loop bip lastKnownState lastKnownState (cache(Some b \<mapsto> lastKnownState)) bs
          else update_loop bip lastKnownState priorLastKnownState cache bs)"

definition tracker_update :: "BIP9Deployment \<Rightarrow> ThresholdConditionCache \<Rightarrow> CBlockIndex option \<Rightarrow> ThresholdConditionCache option" where
  "tracker_update bip cache shallowBlockIndex =
    (if nStartTime bip = ALWAYS_ACTIVE then Some cache
     else Option.bind (getStartingBlocks bip cache [getMostRecentStartingBlock bip shallowBlockIndex])
       (\<lambda>(blocks, cache).
          let lastBlockWithCachedState = last blocks;
              blocks = butlast blocks;
              blockIndexToCache = (if blocks = [] then None else hd blocks)
          in if blockIndexToCache = None then Some cache
             else
               let (lastKnownState, cache) = cache_get cache lastBlockWithCachedState
               in Some (update_loop bip lastKnownState lastKnownState cache (rev blocks))))"

definition getLastCachedStatePriorToBlockIndex ::
  "BIP9Deployment \<Rightarrow> ThresholdConditionCache \<Rightarrow> CBlockIndex option \<Rightarrow> (ThresholdState \<times> ThresholdConditionCache) option" where
  "getLastCachedStatePriorToBlockIndex bip cache shallowBlockIndex =
    (if nStartTime bip = ALWAYS_ACTIVE then Some (ACTIVE, cache)
     else if \<not> bipIsViable bip then Some (FAILED, cache)
     else if shallowBlockIndex = None then Some (DEFINED, cache)
     else map_option (\<lambda>(blocks, cache). cache_get cache (last blocks))
       (getStartingBlocks bip cache [getMostRecentStartingBlock bip shallowBlockIndex]))"

section \<open>The manager\<close>

record BIP9ActivationManager =
  thresholdCaches :: "ThresholdConditionCache list"
  knownBIPs :: "BIP9Deployment list"
  bitfieldOfBipsInUse :: u32
  bipIndexByName :: "string \<rightharpoonup> nat"

definition MAXIMUM_SIMULTANEOUS_DEPLOYMENTS :: nat where
  "MAXIMUM_SIMULTANEOUS_DEPLOYMENTS = 29"

definition BIP9ActivationManager_new :: BIP9ActivationManager where
  "BIP9ActivationManager_new =
    \<lparr>thresholdCaches = [], knownBIPs = [], bitfieldOfBipsInUse = 0, bipIndexByName = Map.empty\<rparr>"

text \<open>
  \<^verbatim>\<open>addBIP\<close> with the factory of \<^verbatim>\<open>BIP9ActivationFeatureContainer.cpp\<close>, which always creates a tracker;
  \<^verbatim>\<open>unordered_map::insert\<close> keeps an index already registered under the name.
\<close>

definition addBIP :: "BIP9ActivationManager \<Rightarrow> BIP9Deployment \<Rightarrow> BIP9ActivationManager" where
  "addBIP m bip =
    (if bip_bit bip \<ge> MAXIMUM_SIMULTANEOUS_DEPLOYMENTS then m
     else
       let bipMask = push_bit (bip_bit bip) 1
       in if bipMask AND bitfieldOfBipsInUse m = 0 then
            m\<lparr>bipIndexByName := (case bipIndexByName m (deploymentName bip) of
                  None \<Rightarrow> (bipIndexByName m)(deploymentName bip \<mapsto> length (knownBIPs m))
                | Some i \<Rightarrow> bipIndexByName m),
              knownBIPs := knownBIPs m @ [bip],
              thresholdCaches := thresholdCaches m @ [Map.empty],
              bitfieldOfBipsInUse := bitfieldOfBipsInUse m OR bipMask\<rparr>
          else m)"

datatype BIPStatus = UNKNOWN_BIP | IN_PROGRESS

definition getBIPStatus :: "BIP9ActivationManager \<Rightarrow> string \<Rightarrow> BIPStatus" where
  "getBIPStatus m bipName =
    (if find (\<lambda>bip. deploymentName bip = bipName) (knownBIPs m) = None then UNKNOWN_BIP else IN_PROGRESS)"

definition networkEnabledBIP ::
  "BIP9ActivationManager \<Rightarrow> string \<Rightarrow> CBlockIndex option \<Rightarrow> (bool \<times> BIP9ActivationManager) option" where
  "networkEnabledBIP m bipName chainTip =
    (case bipIndexByName m bipName of
       None \<Rightarrow> Some (False, m)
     | Some i \<Rightarrow>
         Option.bind (tracker_update (knownBIPs m ! i) (thresholdCaches m ! i) chainTip) (\<lambda>cache.
         Option.bind (getLastCachedStatePriorToBlockIndex (knownBIPs m ! i) cache chainTip) (\<lambda>(result, cache).
           Some (result = ACTIVE, m\<lparr>thresholdCaches := (thresholdCaches m)[i := cache]\<rparr>))))"

section \<open>The states from genesis on\<close>

text \<open>
  The reference: the state of the first block of the \<open>k\<close>-th period of a branch is the state number
  \<open>Suc k\<close>, computed from the one before; state number zero is that of the null pointer.
\<close>

primrec start_state :: "BIP9Deployment \<Rightarrow> CBlockIndex \<Rightarrow> nat \<Rightarrow> ThresholdState" where
  "start_state bip b 0 = DEFINED"
| "start_state bip b (Suc k) = computeStateTransition bip (start_state bip b k) (branch b ! (k * nat (nPeriod bip)))"

definition start_node :: "BIP9Deployment \<Rightarrow> CBlockIndex \<Rightarrow> nat \<Rightarrow> CBlockIndex option" where
  "start_node bip b j = (if j = 0 then None else Some (branch b ! ((j - 1) * nat (nPeriod bip))))"

definition start_number :: "BIP9Deployment \<Rightarrow> CBlockIndex \<Rightarrow> nat" where
  "start_number bip b = Suc (nat (nHeight b) div nat (nPeriod bip))"

definition tracker_cache_ok :: "BIP9Deployment \<Rightarrow> ThresholdConditionCache \<Rightarrow> bool" where
  "tracker_cache_ok bip cache \<longleftrightarrow> (\<forall>p s. cache p = Some s \<longrightarrow>
    (case p of None \<Rightarrow> s = DEFINED | Some b \<Rightarrow> s = start_state bip b (start_number bip b)))"

lemma tracker_cache_okD:
  "tracker_cache_ok bip cache \<Longrightarrow> cache None = Some s \<Longrightarrow> s = DEFINED"
  "tracker_cache_ok bip cache \<Longrightarrow> cache (Some a) = Some s \<Longrightarrow> s = start_state bip a (start_number bip a)"
  unfolding tracker_cache_ok_def by fastforce+

lemma start_node_facts:
  assumes "wf_index b" "0 < nPeriod bip" "k * nat (nPeriod bip) < length (branch b)"
  defines "a \<equiv> branch b ! (k * nat (nPeriod bip))"
  shows "wf_index a" "nHeight a = int (k * nat (nPeriod bip))" "start_number bip a = Suc k"
    "branch a = take (Suc (k * nat (nPeriod bip))) (branch b)"
proof -
  show "wf_index a" "branch a = take (Suc (k * nat (nPeriod bip))) (branch b)"
    and h: "nHeight a = int (k * nat (nPeriod bip))"
    using branch_ancestor [OF assms(1,3) refl] by (simp_all add: a_def)
  have "nat (nHeight a) = k * nat (nPeriod bip)" using h by linarith
  then show "start_number bip a = Suc k" using assms(2) by (simp add: start_number_def)
qed

lemma start_state_node:
  assumes "wf_index b" "0 < nPeriod bip" "k * nat (nPeriod bip) < length (branch b)" "j \<le> Suc k"
  shows "start_state bip (branch b ! (k * nat (nPeriod bip))) j = start_state bip b j"
  using assms(4)
proof (induction j)
  case (Suc j)
  then have "j * nat (nPeriod bip) < Suc (k * nat (nPeriod bip))" by (intro le_imp_less_Suc mult_le_mono1) simp
  then have "branch (branch b ! (k * nat (nPeriod bip))) ! (j * nat (nPeriod bip)) = branch b ! (j * nat (nPeriod bip))"
    by (simp only: start_node_facts(4) [OF assms(1-3)] nth_take)
  with Suc show ?case by simp
qed simp

lemma tracker_cache_ok_node:
  assumes "wf_index b" "0 < nPeriod bip" "tracker_cache_ok bip cache" "cache (start_node bip b j) = Some s"
    and "j = 0 \<or> (j - 1) * nat (nPeriod bip) < length (branch b)"
  shows "s = start_state bip b j"
proof (cases j)
  case 0
  with assms(3,4) show ?thesis by (auto simp: start_node_def dest: tracker_cache_okD)
next
  case (Suc k)
  with assms(5) have lt: "k * nat (nPeriod bip) < length (branch b)" by simp
  have "s = start_state bip (branch b ! (k * nat (nPeriod bip))) (Suc k)"
    using tracker_cache_okD(2) [OF assms(3), of "branch b ! (k * nat (nPeriod bip))" s] assms(4)
      start_node_facts(3) [OF assms(1,2) lt] Suc by (simp add: start_node_def)
  with start_state_node [OF assms(1,2) lt, of "Suc k"] Suc show ?thesis by simp
qed

lemma tracker_cache_ok_upd:
  assumes "wf_index b" "0 < nPeriod bip" "tracker_cache_ok bip cache"
    and "j = 0 \<or> (j - 1) * nat (nPeriod bip) < length (branch b)" "s = start_state bip b j"
  shows "tracker_cache_ok bip (cache(start_node bip b j \<mapsto> s))"
proof (cases j)
  case 0
  with assms(3,5) show ?thesis by (simp add: tracker_cache_ok_def start_node_def)
next
  case (Suc k)
  with assms(4) have lt: "k * nat (nPeriod bip) < length (branch b)" by simp
  with assms(3,5) Suc start_node_facts(3) [OF assms(1,2) lt] start_state_node [OF assms(1,2) lt, of "Suc k"]
  show ?thesis by (auto simp: tracker_cache_ok_def start_node_def split: option.splits)
qed

definition node_number :: "BIP9Deployment \<Rightarrow> CBlockIndex option \<Rightarrow> nat" where
  "node_number bip p = (case p of None \<Rightarrow> 0 | Some a \<Rightarrow> start_number bip a)"

lemma node_number_start_node:
  assumes "wf_index b" "0 < nPeriod bip" "j = 0 \<or> (j - 1) * nat (nPeriod bip) < length (branch b)"
  shows "node_number bip (start_node bip b j) = j"
  using assms start_node_facts(3) [OF assms(1,2), of "j - 1"] by (auto simp: node_number_def start_node_def)

text \<open>The shortcut: before the start time every state is \<^verbatim>\<open>DEFINED\<close>.\<close>

lemma early_start_state:
  assumes "wf_index b" "times_valid b" "nStartTime bip \<le> nTimeout bip"
    and "i < length (branch b)" "GetMedianTimePast (branch b ! i) < nStartTime bip"
  shows "k * nat (nPeriod bip) \<le> i \<Longrightarrow> start_state bip b (Suc k) = DEFINED"
proof (induction k)
  case 0
  have "GetMedianTimePast (branch b ! 0) \<le> GetMedianTimePast (branch b ! i)"
    using median_mono_branch [OF assms(1,2) _ assms(4), of 0] by simp
  with assms show ?case by (simp add: computeStateTransition_def)
next
  case (Suc k)
  have "GetMedianTimePast (branch b ! (Suc k * nat (nPeriod bip))) \<le> GetMedianTimePast (branch b ! i)"
    using median_mono_branch [OF assms(1,2) Suc.prems assms(4)] by simp
  with assms Suc show ?case by (simp add: computeStateTransition_def)
qed

lemma GetAncestor_start_node:
  assumes "wf_index b" "0 < nPeriod bip" "k * nat (nPeriod bip) < length (branch b)"
  defines "a \<equiv> branch b ! (k * nat (nPeriod bip))"
  shows "GetAncestor a (nHeight a - nPeriod bip) = start_node bip b k"
proof -
  note f = start_node_facts [OF assms(1-3), folded a_def]
  let ?P = "nat (nPeriod bip)"
  show ?thesis
  proof (cases k)
    case 0
    with f(2) assms(2) show ?thesis by (simp add: GetAncestor_def start_node_def)
  next
    case (Suc l)
    have h: "nHeight a - nPeriod bip = int (l * ?P)" using f(2) assms(2) Suc by (simp add: algebra_simps)
    have "l * ?P < Suc (k * ?P)" using Suc by simp
    moreover have "nat (int (l * ?P)) = l * ?P" by linarith
    ultimately show ?thesis
      using f Suc assms(2) unfolding h by (simp add: GetAncestor_branch start_node_def)
  qed
qed

section \<open>Queries return the reference state\<close>

text \<open>What the walk back from state number \<open>m\<close> finds: number \<open>j\<close> is known, the numbers above it are not cached.\<close>

definition walk_result ::
  "BIP9Deployment \<Rightarrow> CBlockIndex \<Rightarrow> ThresholdConditionCache \<Rightarrow> nat \<Rightarrow> nat \<Rightarrow> ThresholdConditionCache \<Rightarrow> bool" where
  "walk_result bip b cache m j cache' \<longleftrightarrow> j \<le> m \<and> tracker_cache_ok bip cache' \<and>
    cache' (start_node bip b j) = Some (start_state bip b j) \<and>
    (\<forall>p. p \<noteq> start_node bip b j \<longrightarrow> cache' p = cache p) \<and>
    (\<forall>i. j < i \<and> i \<le> m \<longrightarrow> cache (start_node bip b i) = None \<and> cache' (start_node bip b i) = None)"

lemma rev_upt_Suc: "j \<le> k \<Longrightarrow> rev [j..<Suc (Suc k)] = Suc k # rev [j..<Suc k]"
  by simp

lemma start_node_neq:
  assumes "wf_index b" "0 < nPeriod bip" "k * nat (nPeriod bip) < length (branch b)" "i < j" "j \<le> Suc k"
  shows "start_node bip b j \<noteq> start_node bip b i"
proof
  have le: "l = 0 \<or> (l - 1) * nat (nPeriod bip) < length (branch b)" if "l \<le> Suc k" for l
  proof -
    have "(l - 1) * nat (nPeriod bip) \<le> k * nat (nPeriod bip)" using that by (intro mult_le_mono1) simp
    with assms(3) show ?thesis by linarith
  qed
  assume "start_node bip b j = start_node bip b i"
  then have "j = i"
    using node_number_start_node [OF assms(1,2) le, of j] node_number_start_node [OF assms(1,2) le, of i] assms(4,5) by simp
  with assms(4) show False by simp
qed

lemma walk_result_here:
  assumes "tracker_cache_ok bip cache" "cache (start_node bip b m) = Some (start_state bip b m)"
  shows "walk_result bip b cache m m cache"
  using assms by (auto simp: walk_result_def)

lemma walk_result_step:
  assumes "wf_index b" "0 < nPeriod bip" "k * nat (nPeriod bip) < length (branch b)"
    and "cache (start_node bip b (Suc k)) = None" "tracker_cache_ok bip cache'" "cache' (start_node bip b k) = Some (start_state bip b k)"
    and "\<And>p. p \<noteq> start_node bip b k \<Longrightarrow> cache' p = cache p"
  shows "walk_result bip b cache (Suc k) k cache'"
proof -
  have "k < i \<and> i \<le> Suc k \<longleftrightarrow> i = Suc k" for i by auto
  then show ?thesis
    using assms(4-7) start_node_neq [OF assms(1-3), of k "Suc k"] by (simp add: walk_result_def)
qed

lemma getStartingBlocks_ok:
  assumes b: "wf_index b" "times_valid b" and P: "nStartTime bip \<le> nTimeout bip" "0 < nPeriod bip"
    and cache: "tracker_cache_ok bip cache"
  shows "k * nat (nPeriod bip) < length (branch b) \<Longrightarrow>
    \<exists>j cache'. getStartingBlocks bip cache (l @ [start_node bip b (Suc k)]) =
      Some (l @ map (start_node bip b) (rev [j..<Suc (Suc k)]), cache') \<and> walk_result bip b cache (Suc k) j cache'"
proof (induction k arbitrary: l)
  case (0 l)
  let ?a = "branch b ! 0"
  have n: "start_node bip b (Suc 0) = Some ?a" by (simp add: start_node_def)
  have pred: "GetAncestor ?a (nHeight ?a - nPeriod bip) = None"
    using GetAncestor_start_node [OF b(1) P(2) 0] by (simp add: start_node_def)
  show ?case
  proof (cases "cache (Some ?a)")
    case None
    have "walk_result bip b cache (Suc 0) 0 (cache(None \<mapsto> DEFINED))"
      using None n tracker_cache_ok_upd [OF b(1) P(2) cache, of 0 DEFINED]
      by (intro walk_result_step [OF b(1) P(2) 0]) (auto simp: start_node_def)
    with None pred show ?thesis
      by (intro exI [of _ 0] exI [of _ "cache(None \<mapsto> DEFINED)"]) (subst getStartingBlocks.simps, simp add: n start_node_def)
  next
    case (Some s)
    then have "walk_result bip b cache (Suc 0) (Suc 0) cache"
      using tracker_cache_ok_node [OF b(1) P(2) cache, of "Suc 0" s] 0 n by (intro walk_result_here [OF cache]) simp_all
    with Some show ?thesis
      by (intro exI [of _ "Suc 0"] exI [of _ cache]) (subst getStartingBlocks.simps, simp add: n)
  qed
next
  case (Suc k l)
  let ?P = "nat (nPeriod bip)"
  let ?a = "branch b ! (Suc k * ?P)" and ?q = "branch b ! (k * ?P)"
  have n: "start_node bip b (Suc (Suc k)) = Some ?a" "start_node bip b (Suc k) = Some ?q" by (simp_all add: start_node_def)
  have pred: "GetAncestor ?a (nHeight ?a - nPeriod bip) = Some ?q"
    using GetAncestor_start_node [OF b(1) P(2) Suc.prems] n by simp
  have lt: "k * ?P < length (branch b)" using Suc.prems by simp
  note node_ok = tracker_cache_ok_node [OF b(1) P(2) cache]
  consider s where "cache (Some ?a) = Some s"
    | s where "cache (Some ?a) = None" "GetMedianTimePast ?q < nStartTime bip" "cache (Some ?q) = Some s"
    | "cache (Some ?a) = None" "GetMedianTimePast ?q < nStartTime bip" "cache (Some ?q) = None"
    | "cache (Some ?a) = None" "\<not> GetMedianTimePast ?q < nStartTime bip" by fastforce
  then show ?case
  proof cases
    case 1
    then have "walk_result bip b cache (Suc (Suc k)) (Suc (Suc k)) cache"
      using node_ok [of "Suc (Suc k)" s] Suc.prems n by (intro walk_result_here [OF cache]) simp_all
    with 1 show ?thesis
      by (intro exI [of _ "Suc (Suc k)"] exI [of _ cache]) (subst getStartingBlocks.simps, simp add: n)
  next
    case 2
    then have "walk_result bip b cache (Suc (Suc k)) (Suc k) cache"
      using node_ok [of "Suc k" s] lt n cache by (intro walk_result_step [OF b(1) P(2) Suc.prems]) simp_all
    with 2 pred show ?thesis
      by (intro exI [of _ "Suc k"] exI [of _ cache]) (subst getStartingBlocks.simps, simp add: n)
  next
    case 3
    have early: "start_state bip b (Suc k) = DEFINED"
      using early_start_state [OF b P(1) lt 3(2) order_refl] .
    then have "walk_result bip b cache (Suc (Suc k)) (Suc k) (cache(Some ?q \<mapsto> DEFINED))"
      using 3 lt n tracker_cache_ok_upd [OF b(1) P(2) cache, of "Suc k" DEFINED]
      by (intro walk_result_step [OF b(1) P(2) Suc.prems]) simp_all
    with 3 pred show ?thesis
      by (intro exI [of _ "Suc k"] exI [of _ "cache(Some ?q \<mapsto> DEFINED)"])
         (subst getStartingBlocks.simps, simp add: n Let_def)
  next
    case 4
    obtain j cache' where r: "getStartingBlocks bip cache ((l @ [Some ?a]) @ [start_node bip b (Suc k)]) =
        Some ((l @ [Some ?a]) @ map (start_node bip b) (rev [j..<Suc (Suc k)]), cache')"
      "walk_result bip b cache (Suc k) j cache'"
      using Suc.IH [OF lt, of "l @ [Some ?a]"] by blast
    have j: "j \<le> Suc k" using r(2) by (simp add: walk_result_def)
    have "Some ?a \<noteq> start_node bip b j"
      using start_node_neq [OF b(1) P(2) Suc.prems, of j "Suc (Suc k)"] j n by simp
    then have "cache' (Some ?a) = None" using r(2) 4(1) by (simp add: walk_result_def)
    then have "walk_result bip b cache (Suc (Suc k)) j cache'"
      using r(2) 4(1) n by (auto simp: walk_result_def le_Suc_eq)
    moreover have "getStartingBlocks bip cache (l @ [Some ?a]) = getStartingBlocks bip cache ((l @ [Some ?a]) @ [start_node bip b (Suc k)])"
      using 4 pred n by (subst getStartingBlocks.simps) simp
    ultimately show ?thesis
      using r(1) n rev_upt_Suc [OF j] by (intro exI [of _ j] exI [of _ cache']) simp
  qed
qed

text \<open>After an update a number that is not cached has the state of the number before.\<close>

definition changes_cached :: "BIP9Deployment \<Rightarrow> CBlockIndex \<Rightarrow> ThresholdConditionCache \<Rightarrow> nat \<Rightarrow> nat \<Rightarrow> bool" where
  "changes_cached bip b cache i m \<longleftrightarrow> (\<forall>l. i < l \<and> l \<le> m \<longrightarrow>
    cache (start_node bip b l) \<noteq> None \<or> start_state bip b l = start_state bip b (l - 1))"

lemma update_loop_ok:
  assumes b: "wf_index b" and P: "0 < nPeriod bip" and m: "k * nat (nPeriod bip) < length (branch b)" and "bipIsViable bip"
  shows "i \<le> Suc k \<Longrightarrow> tracker_cache_ok bip cache \<Longrightarrow> s = start_state bip b i \<Longrightarrow>
    cache' = update_loop bip s s cache (map (start_node bip b) [Suc i..<Suc (Suc k)]) \<Longrightarrow>
    tracker_cache_ok bip cache' \<and> changes_cached bip b cache' i (Suc k) \<and>
    (\<forall>l\<le>i. cache' (start_node bip b l) = cache (start_node bip b l))"
proof (induction "Suc k - i" arbitrary: i cache s)
  case 0
  then show ?case by (auto simp: changes_cached_def)
next
  case (Suc n)
  let ?P = "nat (nPeriod bip)"
  let ?a = "branch b ! (i * ?P)" and ?t = "start_state bip b (Suc i)"
  have i: "i \<le> k" using Suc.hyps(2) by simp
  have n: "start_node bip b (Suc i) = Some ?a" by (simp add: start_node_def)
  have "i * ?P \<le> k * ?P" using i by (intro mult_le_mono1) simp
  then have "i * ?P < length (branch b)" using m by (rule le_less_trans)
  then have lt: "Suc i = 0 \<or> (Suc i - 1) * ?P < length (branch b)" by simp
  define cache1 where "cache1 = (if s \<noteq> ?t then cache(Some ?a \<mapsto> ?t) else cache)"
  have trans: "computeStateTransition bip s ?a = ?t" using Suc.prems(3) by simp
  have ok1: "tracker_cache_ok bip cache1"
    using Suc.prems(2) tracker_cache_ok_upd [OF b P Suc.prems(2) lt refl] n by (simp add: cache1_def)
  have step: "cache' = update_loop bip ?t ?t cache1 (map (start_node bip b) [Suc (Suc i)..<Suc (Suc k)])"
  proof -
    have "[Suc i..<Suc (Suc k)] = Suc i # [Suc (Suc i)..<Suc (Suc k)]" using i by (simp add: upt_conv_Cons del: upt_Suc)
    then have "cache' = update_loop bip s s cache (Some ?a # map (start_node bip b) [Suc (Suc i)..<Suc (Suc k)])"
      using Suc.prems(4) n by (simp del: upt_Suc)
    then show ?thesis
      using assms(4) trans by (simp add: cache1_def Let_def del: upt_Suc start_state.simps)
  qed
  have ih: "tracker_cache_ok bip cache'" "changes_cached bip b cache' (Suc i) (Suc k)"
    "\<forall>l\<le>Suc i. cache' (start_node bip b l) = cache1 (start_node bip b l)"
    using Suc.hyps(1) [of "Suc i" cache1 ?t] Suc.hyps(2) i ok1 step by simp_all
  have same: "cache1 (start_node bip b l) = cache (start_node bip b l)" if "l \<le> i" for l
    using start_node_neq [OF b P m, of l "Suc i"] that i n by (simp add: cache1_def)
  have "changes_cached bip b cache' i (Suc k)"
    unfolding changes_cached_def
  proof (intro allI impI)
    fix l
    assume l: "i < l \<and> l \<le> Suc k"
    show "cache' (start_node bip b l) \<noteq> None \<or> start_state bip b l = start_state bip b (l - 1)"
    proof (cases "l = Suc i")
      case True
      have "cache1 (Some ?a) \<noteq> None \<or> ?t = s" by (simp add: cache1_def)
      moreover have "cache' (start_node bip b l) = cache1 (Some ?a)" using ih(3) [rule_format, of "Suc i"] True n by simp
      ultimately show ?thesis using True Suc.prems(3) by (auto simp del: start_state.simps)
    next
      case False
      with l ih(2) show ?thesis by (auto simp: changes_cached_def)
    qed
  qed
  with ih same show ?case by simp
qed

lemma changes_cached_eq:
  assumes "changes_cached bip b cache i m" "i \<le> j" "j \<le> m"
    and "\<And>l. j < l \<Longrightarrow> l \<le> m \<Longrightarrow> cache (start_node bip b l) = None"
  shows "start_state bip b m = start_state bip b j"
proof -
  have "start_state bip b l = start_state bip b j" if "j \<le> l" "l \<le> m" for l
    using that
  proof (induction l rule: dec_induct)
    case (step l)
    have "start_state bip b (Suc l) = start_state bip b (Suc l - 1)"
      using assms(1,2,4) step.hyps step.prems unfolding changes_cached_def by (metis less_Suc_eq_le order_le_less_trans)
    with step show ?case by simp
  qed simp
  with assms(3) show ?thesis by blast
qed

lemma getMostRecentStartingBlock_node:
  assumes "wf_index b" "0 < nPeriod bip"
  defines "k \<equiv> nat (nHeight b) div nat (nPeriod bip)"
  shows "getMostRecentStartingBlock bip (Some b) = start_node bip b (Suc k)" "k * nat (nPeriod bip) < length (branch b)"
proof -
  let ?P = "nat (nPeriod bip)" and ?n = "nat (nHeight b)"
  have h: "nHeight b = int ?n" "nPeriod bip = int ?P" using wf_index_height [OF assms(1)] assms(2) by simp_all
  then have "nHeight b mod nPeriod bip = int (?n mod ?P)" by (metis zmod_int)
  moreover have "int ?n = int (k * ?P) + int (?n mod ?P)"
    unfolding k_def by (metis div_mult_mod_eq of_nat_add)
  ultimately have e: "nHeight b - nHeight b mod nPeriod bip = int (k * ?P)" using h(1) by linarith
  have le: "int (k * ?P) \<le> nHeight b" using h(1) \<open>int ?n = int (k * ?P) + int (?n mod ?P)\<close> by linarith
  then show "k * ?P < length (branch b)" using length_branch [OF assms(1)] by linarith
  have "nat (int (k * ?P)) = k * ?P" by linarith
  with le show "getMostRecentStartingBlock bip (Some b) = start_node bip b (Suc k)"
    using assms(1) by (simp add: getMostRecentStartingBlock_def e GetAncestor_branch start_node_def del: of_nat_mult)
qed

lemma tracker_query:
  assumes b: "wf_index b" "times_valid b" and P: "0 < nPeriod bip" "nStartTime bip \<noteq> ALWAYS_ACTIVE" "bipIsViable bip"
    and cache: "tracker_cache_ok bip cache"
  shows "\<exists>cache1 cache2. tracker_update bip cache (Some b) = Some cache1 \<and>
    getLastCachedStatePriorToBlockIndex bip cache1 (Some b) = Some (start_state bip b (start_number bip b), cache2) \<and>
    tracker_cache_ok bip cache1 \<and> tracker_cache_ok bip cache2"
proof -
  define k where "k = nat (nHeight b) div nat (nPeriod bip)"
  have start: "getMostRecentStartingBlock bip (Some b) = start_node bip b (Suc k)" and lt: "k * nat (nPeriod bip) < length (branch b)"
    using getMostRecentStartingBlock_node [OF b(1) P(1)] by (simp_all add: k_def)
  have num: "start_number bip b = Suc k" by (simp add: start_number_def k_def)
  have viable: "nStartTime bip \<le> nTimeout bip" using P(3) by (simp add: bipIsViable_def)
  note walk = getStartingBlocks_ok [OF b viable P(1) _ lt, of _ "[]", simplified]
  obtain j c where w: "getStartingBlocks bip cache [start_node bip b (Suc k)] =
      Some (map (start_node bip b) (rev [j..<Suc (Suc k)]), c)" "walk_result bip b cache (Suc k) j c"
    using walk [OF cache] by auto
  have j: "j \<le> Suc k" and cj: "c (start_node bip b j) = Some (start_state bip b j)" and okc: "tracker_cache_ok bip c"
    using w(2) by (simp_all add: walk_result_def)
  define c1 where "c1 = update_loop bip (start_state bip b j) (start_state bip b j) c (map (start_node bip b) [Suc j..<Suc (Suc k)])"
  have c1: "tracker_cache_ok bip c1" "changes_cached bip b c1 j (Suc k)" "c1 (start_node bip b j) = Some (start_state bip b j)"
    using update_loop_ok [OF b(1) P(1) lt P(3) j okc refl c1_def] cj by simp_all
  have list: "[j..<Suc (Suc k)] = j # [Suc j..<Suc (Suc k)]" using j by (simp add: upt_conv_Cons del: upt_Suc)
  have upd: "tracker_update bip cache (Some b) = Some c1"
  proof (cases "j = Suc k")
    case True
    then have "c1 = c" by (simp add: c1_def)
    with True show ?thesis using P(2) w(1) by (simp add: tracker_update_def start)
  next
    case False
    define xs where "xs = map (start_node bip b) [Suc j..<Suc (Suc k)]"
    have blocks: "map (start_node bip b) (rev [j..<Suc (Suc k)]) = rev xs @ [start_node bip b j]"
      unfolding list by (simp add: xs_def rev_map del: upt_Suc)
    have "rev [Suc j..<Suc (Suc k)] = Suc k # rev [Suc j..<Suc k]" using False j by simp
    then obtain y where "rev xs \<noteq> []" "hd (rev xs) = Some y" by (simp add: xs_def rev_map [symmetric] start_node_def)
    then show ?thesis
      using P(2) w(1) cj unfolding blocks
      by (simp add: tracker_update_def start cache_get_def c1_def xs_def [symmetric] del: upt_Suc)
  qed
  obtain j' c2 where w': "getStartingBlocks bip c1 [start_node bip b (Suc k)] =
      Some (map (start_node bip b) (rev [j'..<Suc (Suc k)]), c2)" "walk_result bip b c1 (Suc k) j' c2"
    using walk [OF c1(1)] by auto
  have j': "j' \<le> Suc k" "c2 (start_node bip b j') = Some (start_state bip b j')" "tracker_cache_ok bip c2"
    and none: "\<And>l. j' < l \<Longrightarrow> l \<le> Suc k \<Longrightarrow> c1 (start_node bip b l) = None"
    using w'(2) by (simp_all add: walk_result_def)
  have "j \<le> j'" using none [of j] j c1(3) by (cases "j' < j") simp_all
  then have eq: "start_state bip b (Suc k) = start_state bip b j'"
    by (rule changes_cached_eq [OF c1(2) _ j'(1) none])
  have "[j'..<Suc (Suc k)] = j' # [Suc j'..<Suc (Suc k)]" using j' by (simp add: upt_conv_Cons del: upt_Suc)
  then have "last (map (start_node bip b) (rev [j'..<Suc (Suc k)])) = start_node bip b j'" by (simp del: upt_Suc)
  then have "getLastCachedStatePriorToBlockIndex bip c1 (Some b) = Some (start_state bip b (start_number bip b), c2)"
    using P(2,3) w'(1) j' eq num
    by (simp add: getLastCachedStatePriorToBlockIndex_def start cache_get_def del: upt_Suc start_state.simps)
  with upd c1 j' show ?thesis by blast
qed

section \<open>The manager keeps one deployment per bit\<close>

definition manager_ok :: "BIP9ActivationManager \<Rightarrow> bool" where
  "manager_ok m \<longleftrightarrow> length (thresholdCaches m) = length (knownBIPs m) \<and>
    distinct (map bip_bit (knownBIPs m)) \<and>
    (\<forall>n. bit (bitfieldOfBipsInUse m) n \<longleftrightarrow> n \<in> bip_bit ` set (knownBIPs m)) \<and>
    (\<forall>bip\<in>set (knownBIPs m). bip_bit bip < MAXIMUM_SIMULTANEOUS_DEPLOYMENTS) \<and>
    (\<forall>name i. bipIndexByName m name = Some i \<longrightarrow> i < length (knownBIPs m) \<and> deploymentName (knownBIPs m ! i) = name) \<and>
    (\<forall>bip\<in>set (knownBIPs m). bipIndexByName m (deploymentName bip) \<noteq> None) \<and>
    (\<forall>i<length (knownBIPs m). bipIsViable (knownBIPs m ! i) \<longrightarrow> tracker_cache_ok (knownBIPs m ! i) (thresholdCaches m ! i))"

lemma bit_exp_u32: "n < 32 \<Longrightarrow> bit (2 ^ n :: u32) i \<longleftrightarrow> i = n"
  by (auto simp: bit_exp_iff)

lemma bit_mask_and: "n < 32 \<Longrightarrow> 2 ^ n AND w = 0 \<longleftrightarrow> \<not> bit (w :: u32) n"
proof -
  assume n: "n < 32"
  have bits: "bit (2 ^ n AND w) i \<longleftrightarrow> i = n \<and> bit w n" for i using bit_exp_u32 [OF n] by (auto simp: bit_and_iff)
  show ?thesis
  proof
    assume "2 ^ n AND w = 0"
    with bits [of n] show "\<not> bit w n" by simp
  next
    assume "\<not> bit w n"
    with bits show "2 ^ n AND w = 0" by (intro bit_eqI) simp
  qed
qed

lemma addBIP_cases:
  obtains "addBIP m bip = m" "bip_bit bip \<ge> 29 \<or> bit (bitfieldOfBipsInUse m) (bip_bit bip)"
  | idx where "addBIP m bip = m\<lparr>bipIndexByName := idx, knownBIPs := knownBIPs m @ [bip],
      thresholdCaches := thresholdCaches m @ [Map.empty],
      bitfieldOfBipsInUse := bitfieldOfBipsInUse m OR push_bit (bip_bit bip) 1\<rparr>"
    "idx = (case bipIndexByName m (deploymentName bip) of
        None \<Rightarrow> (bipIndexByName m)(deploymentName bip \<mapsto> length (knownBIPs m)) | Some i \<Rightarrow> bipIndexByName m)"
    "bip_bit bip < 29" "\<not> bit (bitfieldOfBipsInUse m) (bip_bit bip)"
proof (cases "bip_bit bip < 29 \<and> \<not> bit (bitfieldOfBipsInUse m) (bip_bit bip)")
  case True
  then show ?thesis
    using that(2) bit_mask_and [of "bip_bit bip" "bitfieldOfBipsInUse m"]
    by (simp add: addBIP_def MAXIMUM_SIMULTANEOUS_DEPLOYMENTS_def Let_def)
next
  case False
  then show ?thesis
    using that(1) bit_mask_and [of "bip_bit bip" "bitfieldOfBipsInUse m"]
    by (auto simp: addBIP_def MAXIMUM_SIMULTANEOUS_DEPLOYMENTS_def Let_def)
qed

lemma manager_ok_new: "manager_ok BIP9ActivationManager_new"
  by (simp add: manager_ok_def BIP9ActivationManager_new_def)

lemma tracker_cache_ok_empty: "tracker_cache_ok bip Map.empty"
  by (simp add: tracker_cache_ok_def)

lemma manager_ok_addBIP: "manager_ok m \<Longrightarrow> manager_ok (addBIP m bip)"
proof (cases rule: addBIP_cases [of m bip])
  case (2 idx)
  assume m: "manager_ok m"
  then have fresh: "bip_bit bip \<notin> bip_bit ` set (knownBIPs m)" using 2(4) by (simp add: manager_ok_def)
  have idx: "i < Suc (length (knownBIPs m)) \<and> deploymentName ((knownBIPs m @ [bip]) ! i) = name" if "idx name = Some i" for name i
    using that m unfolding 2(2) manager_ok_def
    by (force simp: nth_append split: option.splits if_splits)
  have names: "idx (deploymentName c) \<noteq> None" if "c \<in> insert bip (set (knownBIPs m))" for c
    using that m unfolding 2(2) manager_ok_def by (auto split: option.splits)
  have bits: "bit (bitfieldOfBipsInUse m OR push_bit (bip_bit bip) 1) n \<longleftrightarrow> n \<in> bip_bit ` insert bip (set (knownBIPs m))" for n
    using m 2(3) by (auto simp: manager_ok_def bit_or_iff bit_exp_u32)
  have caches: "tracker_cache_ok ((knownBIPs m @ [bip]) ! i) ((thresholdCaches m @ [Map.empty]) ! i)"
    if "i < Suc (length (knownBIPs m))" "bipIsViable ((knownBIPs m @ [bip]) ! i)" for i
    using that m by (auto simp: manager_ok_def nth_append tracker_cache_ok_empty less_Suc_eq)
  show ?thesis
    using m fresh idx names bits caches 2(3)
    by (simp add: 2(1) manager_ok_def MAXIMUM_SIMULTANEOUS_DEPLOYMENTS_def)
qed simp

lemma bits_addBIP:
  "manager_ok m \<Longrightarrow> bip_bit ` set (knownBIPs (addBIP m bip)) =
    bip_bit ` set (knownBIPs m) \<union> ({bip_bit bip} \<inter> {..<MAXIMUM_SIMULTANEOUS_DEPLOYMENTS})"
  by (cases rule: addBIP_cases [of m bip]) (auto simp: MAXIMUM_SIMULTANEOUS_DEPLOYMENTS_def manager_ok_def)

definition addBIPs :: "BIP9ActivationManager \<Rightarrow> BIP9Deployment list \<Rightarrow> BIP9ActivationManager" where
  "addBIPs = foldl addBIP"

lemma addBIPs_ok:
  "manager_ok m \<Longrightarrow> manager_ok (addBIPs m bips) \<and> bip_bit ` set (knownBIPs (addBIPs m bips)) =
    bip_bit ` set (knownBIPs m) \<union> (bip_bit ` set bips \<inter> {..<MAXIMUM_SIMULTANEOUS_DEPLOYMENTS})"
proof (induction bips arbitrary: m)
  case (Cons bip bips)
  show ?case
    using Cons.IH [OF manager_ok_addBIP [OF Cons.prems, of bip]] bits_addBIP [OF Cons.prems, of bip]
    by (auto simp: addBIPs_def)
qed (simp add: addBIPs_def)

lemma manager_ok_at_most:
  assumes "manager_ok m"
  shows "length (knownBIPs m) \<le> MAXIMUM_SIMULTANEOUS_DEPLOYMENTS"
proof -
  have "length (knownBIPs m) = card (bip_bit ` set (knownBIPs m))"
    using assms by (metis distinct_card length_map manager_ok_def set_map)
  also have "\<dots> \<le> card {..<MAXIMUM_SIMULTANEOUS_DEPLOYMENTS}"
    using assms by (intro card_mono) (auto simp: manager_ok_def)
  finally show ?thesis by simp
qed

lemma getBIPStatus_index:
  assumes "manager_ok m"
  shows "getBIPStatus m bipName = IN_PROGRESS \<longleftrightarrow> bipIndexByName m bipName \<noteq> None"
proof -
  have "getBIPStatus m bipName = IN_PROGRESS \<longleftrightarrow> (\<exists>bip\<in>set (knownBIPs m). deploymentName bip = bipName)"
    by (auto simp: getBIPStatus_def find_None_iff)
  also have "\<dots> \<longleftrightarrow> bipIndexByName m bipName \<noteq> None"
    using assms unfolding manager_ok_def by (metis not_Some_eq nth_mem)
  finally show ?thesis .
qed

text \<open>
  Whatever deployments are added, in whatever order, the manager keeps its invariant: the
  trackers' caches and the deployments have the same number, no two deployments share a bit, the bit field
  has exactly their bits, a name leads to a deployment of that name, and every deployment's name is known.
  The bits in use are those offered that are below 29, so there are at most 29 deployments.
\<close>

theorem addBIP_invariant:
  "manager_ok (addBIPs BIP9ActivationManager_new bips) \<and>
   bip_bit ` set (knownBIPs (addBIPs BIP9ActivationManager_new bips)) =
     bip_bit ` set bips \<inter> {..<MAXIMUM_SIMULTANEOUS_DEPLOYMENTS} \<and>
   length (knownBIPs (addBIPs BIP9ActivationManager_new bips)) \<le> MAXIMUM_SIMULTANEOUS_DEPLOYMENTS \<and>
   (getBIPStatus (addBIPs BIP9ActivationManager_new bips) bipName = IN_PROGRESS \<longleftrightarrow>
      bipIndexByName (addBIPs BIP9ActivationManager_new bips) bipName \<noteq> None)"
proof -
  note ok = addBIPs_ok [OF manager_ok_new, of bips, THEN conjunct1]
  have "bip_bit ` set (knownBIPs (addBIPs BIP9ActivationManager_new bips)) =
      bip_bit ` set bips \<inter> {..<MAXIMUM_SIMULTANEOUS_DEPLOYMENTS}"
    using addBIPs_ok [OF manager_ok_new, of bips, THEN conjunct2] by (simp add: BIP9ActivationManager_new_def)
  with ok manager_ok_at_most [OF ok] getBIPStatus_index [OF ok] show ?thesis by blast
qed

lemma manager_ok_cache:
  assumes "manager_ok m" "bipIndexByName m name = Some i" "bipIsViable (knownBIPs m ! i) \<Longrightarrow> tracker_cache_ok (knownBIPs m ! i) cache"
  shows "manager_ok (m\<lparr>thresholdCaches := (thresholdCaches m)[i := cache]\<rparr>)"
  using assms by (auto simp: manager_ok_def nth_list_update)

text \<open>
  C26: Asking the manager whether the network has enabled a deployment always returns (its walk
  over the periods ends and dereferences no missing block), keeps the manager's invariant, and answers
  yes exactly when stepping the state machine from genesis through every period of the branch,
  without a cache, ends in the active state (or the deployment is configured as always active).
\<close>

theorem networkEnabledBIP_correct:
  assumes "manager_ok m" "bipIndexByName m bipName = Some i" "bip = knownBIPs m ! i" "wf_index b" "times_valid b"
    and "0 < nPeriod bip" "bipIsViable bip \<or> nStartTime bip = ALWAYS_ACTIVE"
  shows "\<exists>m'. networkEnabledBIP m bipName (Some b) =
      Some (nStartTime bip = ALWAYS_ACTIVE \<or> start_state bip b (start_number bip b) = ACTIVE, m') \<and>
    manager_ok m' \<and> knownBIPs m' = knownBIPs m"
proof (cases "nStartTime bip = ALWAYS_ACTIVE")
  case True
  have "tracker_cache_ok bip (thresholdCaches m ! i)" if "bipIsViable bip" using that assms(1-3) by (auto simp: manager_ok_def)
  with True assms(1-3) manager_ok_cache [OF assms(1,2), of "thresholdCaches m ! i"] show ?thesis
    by (simp add: networkEnabledBIP_def tracker_update_def getLastCachedStatePriorToBlockIndex_def)
next
  case False
  with assms(7) have v: "bipIsViable bip" by simp
  then have "tracker_cache_ok bip (thresholdCaches m ! i)" using assms(1-3) by (auto simp: manager_ok_def)
  from tracker_query [OF assms(4-6) False v this] obtain c1 c2 where
    "tracker_update bip (thresholdCaches m ! i) (Some b) = Some c1"
    "getLastCachedStatePriorToBlockIndex bip c1 (Some b) = Some (start_state bip b (start_number bip b), c2)"
    "tracker_cache_ok bip c2" by blast
  with False assms(1-3) manager_ok_cache [OF assms(1,2), of c2] show ?thesis
    by (simp add: networkEnabledBIP_def)
qed


definition example_manager :: BIP9ActivationManager where
  "example_manager = addBIP BIP9ActivationManager_new (example_bip\<lparr>threshold := 0\<rparr>)"

lemma example_manager_unfold:
  "knownBIPs example_manager = [example_bip\<lparr>threshold := 0\<rparr>]" "bipIndexByName example_manager ''example'' = Some 0"
  by (simp_all add: example_manager_def addBIP_def MAXIMUM_SIMULTANEOUS_DEPLOYMENTS_def BIP9ActivationManager_new_def example_bip_def)

lemma example_start_state:
  "start_state (example_bip\<lparr>threshold := 0\<rparr>) example_2 (start_number (example_bip\<lparr>threshold := 0\<rparr>) example_2) = ACTIVE"
  by (simp add: start_number_def example_bip_def eval_nat_numeral example_branch computeStateTransition_def example_median
      enoughBipSignalsToLockIn_def example_pprev)

theorem networkEnabledBIP_witness:
  "\<exists>m'. networkEnabledBIP example_manager ''example'' (Some example_2) = Some (True, m') \<and>
    manager_ok m' \<and> knownBIPs m' = knownBIPs example_manager"
proof -
  have "manager_ok example_manager" by (simp add: example_manager_def manager_ok_addBIP manager_ok_new)
  moreover have "0 < nPeriod (example_bip\<lparr>threshold := 0\<rparr>)" "bipIsViable (example_bip\<lparr>threshold := 0\<rparr>)"
    by (simp_all add: example_bip_def bipIsViable_def)
  ultimately show ?thesis
    using networkEnabledBIP_correct [of example_manager "''example''" 0 "example_bip\<lparr>threshold := 0\<rparr>" example_2]
      example_times example_start_state by (simp add: example_manager_unfold)
qed

end
