(* ===== verification/Transactions.thy ===== *)
theory Transactions
  imports Lottery_Coinstakes
begin

text \<open>
  Transactions (\<^verbatim>\<open>primitives/transaction.h\<close>, \<^verbatim>\<open>primitives/transaction.cpp\<close>): outpoints, inputs, outputs, the two kinds of
  minting transactions and the sum of the outputs with its overflow checks. The hash of a serialised
  transaction is a parameter; a \<^verbatim>\<open>CTransaction\<close> caches it. Serialisation itself and the printing of transactions are
  not modelled.
\<close>

section \<open>Outpoints, inputs and outputs\<close>

record COutPoint =
  op_hash :: u256
  op_n :: u32

definition COutPoint_SetNull :: COutPoint where
  "COutPoint_SetNull = \<lparr>op_hash = 0, op_n = -1\<rparr>"

definition COutPoint_IsNull :: "COutPoint \<Rightarrow> bool" where
  "COutPoint_IsNull p \<longleftrightarrow> op_hash p = 0 \<and> op_n p = -1"

definition COutPoint_less :: "COutPoint \<Rightarrow> COutPoint \<Rightarrow> bool" where
  "COutPoint_less a b \<longleftrightarrow> op_hash a < op_hash b \<or> op_hash a = op_hash b \<and> op_n a < op_n b"

record CTxIn =
  prevout :: COutPoint
  scriptSig :: CScript
  nSequence :: u32

definition CTxIn_new :: CTxIn where
  "CTxIn_new = \<lparr>prevout = COutPoint_SetNull, scriptSig = [], nSequence = -1\<rparr>"

definition IsFinal :: "CTxIn \<Rightarrow> bool" where
  "IsFinal i \<longleftrightarrow> nSequence i = -1"

text \<open>Amounts are 64-bit signed integers, kept as integers in that range.\<close>

record CTxOut =
  nValue :: int
  scriptPubKey :: CScript

definition CTxOut_SetNull :: CTxOut where
  "CTxOut_SetNull = \<lparr>nValue = -1, scriptPubKey = []\<rparr>"

definition CTxOut_IsNull :: "CTxOut \<Rightarrow> bool" where
  "CTxOut_IsNull t \<longleftrightarrow> nValue t = -1"

definition CTxOut_SetEmpty :: CTxOut where
  "CTxOut_SetEmpty = \<lparr>nValue = 0, scriptPubKey = []\<rparr>"

definition CTxOut_IsEmpty :: "CTxOut \<Rightarrow> bool" where
  "CTxOut_IsEmpty t \<longleftrightarrow> nValue t = 0 \<and> scriptPubKey t = []"

section \<open>Transactions\<close>

record CMutableTransaction =
  txVersion :: int
  vin :: "CTxIn list"
  vout :: "CTxOut list"
  nLockTime :: u32

record CTransaction = CMutableTransaction +
  tx_hash :: u256

type_synonym tx_hasher = "CMutableTransaction \<Rightarrow> u256"

definition CMutableTransaction_new :: CMutableTransaction where
  "CMutableTransaction_new = \<lparr>txVersion = 1, vin = [], vout = [], nLockTime = 0\<rparr>"

definition to_mutable :: "CTransaction \<Rightarrow> CMutableTransaction" where
  "to_mutable tx = \<lparr>txVersion = txVersion tx, vin = vin tx, vout = vout tx, nLockTime = nLockTime tx\<rparr>"

definition to_transaction :: "tx_hasher \<Rightarrow> CMutableTransaction \<Rightarrow> CTransaction" where
  "to_transaction SerializeTx tx =
    \<lparr>txVersion = txVersion tx, vin = vin tx, vout = vout tx, nLockTime = nLockTime tx, tx_hash = SerializeTx tx\<rparr>"

definition CTransaction_new :: CTransaction where
  "CTransaction_new = \<lparr>txVersion = 1, vin = [], vout = [], nLockTime = 0, tx_hash = 0\<rparr>"

definition CTransaction_IsNull :: "CTransaction \<Rightarrow> bool" where
  "CTransaction_IsNull tx \<longleftrightarrow> vin tx = [] \<and> vout tx = []"

definition IsCoinBase :: "CTransaction \<Rightarrow> bool" where
  "IsCoinBase tx \<longleftrightarrow> length (vin tx) = 1 \<and> COutPoint_IsNull (prevout (vin tx ! 0))"

definition IsCoinStake :: "CTransaction \<Rightarrow> bool" where
  "IsCoinStake tx \<longleftrightarrow> length (vin tx) > 0 \<and> \<not> COutPoint_IsNull (prevout (vin tx ! 0)) \<and> length (vout tx) \<ge> 2 \<and>
    CTxOut_IsEmpty (vout tx ! 0)"

definition GetBareTxid :: "tx_hasher \<Rightarrow> CTransaction \<Rightarrow> u256" where
  "GetBareTxid SerializeTx tx =
    (if IsCoinBase tx then tx_hash tx
     else
       let withoutSigs = to_mutable tx
       in SerializeTx (withoutSigs\<lparr>vin := map (\<lambda>i. i\<lparr>scriptSig := []\<rparr>) (vin withoutSigs)\<rparr>))"

section \<open>The value of the outputs\<close>

text \<open>
  The sum is taken in 64-bit arithmetic and the test for an overflow relies on wrap-around, as the
  supported compilers give it; the language leaves it undefined.
\<close>

definition wrap64 :: "int \<Rightarrow> int" where
  "wrap64 i = (i + 2 ^ 63) mod 2 ^ 64 - 2 ^ 63"

datatype value_error = less_than_0 | wraps_the_boundary

fun value_out_loop :: "int \<Rightarrow> CTxOut list \<Rightarrow> value_error + int" where
  "value_out_loop nValueOut [] = Inr nValueOut"
| "value_out_loop nValueOut (t # ts) =
    (if nValue t < 0 then Inl less_than_0
     else if wrap64 (nValueOut + nValue t) < nValueOut then Inl wraps_the_boundary
     else value_out_loop (wrap64 (nValueOut + nValue t)) ts)"

definition GetValueOut :: "CTransaction \<Rightarrow> value_error + int" where
  "GetValueOut tx = value_out_loop 0 (vout tx)"

text \<open>The mutable variant returns -1 instead of throwing.\<close>

fun mutable_value_loop :: "int \<Rightarrow> CTxOut list \<Rightarrow> int" where
  "mutable_value_loop nValueOut [] = nValueOut"
| "mutable_value_loop nValueOut (t # ts) =
    (if nValue t < 0 then -1
     else if wrap64 (nValueOut + nValue t) < nValueOut then -1
     else mutable_value_loop (wrap64 (nValueOut + nValue t)) ts)"

definition CMutableTransaction_GetValueOut :: "CMutableTransaction \<Rightarrow> int" where
  "CMutableTransaction_GetValueOut tx = mutable_value_loop 0 (vout tx)"

definition is_amount :: "int \<Rightarrow> bool" where
  "is_amount v \<longleftrightarrow> - (2 ^ 63) \<le> v \<and> v < 2 ^ 63"

lemma wrap64_id: "is_amount v \<Longrightarrow> wrap64 v = v"
  by (simp add: wrap64_def is_amount_def)

lemma wrap64_over: "2 ^ 63 \<le> v \<Longrightarrow> v < 2 ^ 64 \<Longrightarrow> wrap64 v = v - 2 ^ 64"
proof -
  assume v: "(2 :: int) ^ 63 \<le> v" "v < 2 ^ 64"
  have "(v + 2 ^ 63) mod 2 ^ 64 = (v + 2 ^ 63 - 2 ^ 64) mod 2 ^ 64" by (rule minus_mod_self2 [symmetric])
  also have "\<dots> = v + 2 ^ 63 - 2 ^ 64" using v by (intro mod_pos_pos_trivial) simp_all
  finally show ?thesis by (simp add: wrap64_def)
qed

lemma wrap_test:
  assumes "0 \<le> s" "is_amount s" "0 \<le> v" "is_amount v"
  shows "wrap64 (s + v) < s \<longleftrightarrow> 2 ^ 63 \<le> s + v" "s + v < 2 ^ 63 \<Longrightarrow> wrap64 (s + v) = s + v"
proof -
  show id: "wrap64 (s + v) = s + v" if "s + v < 2 ^ 63" using that assms by (simp add: wrap64_id is_amount_def)
  show "wrap64 (s + v) < s \<longleftrightarrow> 2 ^ 63 \<le> s + v"
  proof (cases "s + v < 2 ^ 63")
    case True
    with id assms show ?thesis by simp
  next
    case False
    with wrap64_over [of "s + v"] assms show ?thesis by (simp add: is_amount_def)
  qed
qed

lemma value_out_loop_sum:
  assumes "0 \<le> s" "is_amount s" "list_all (\<lambda>t. is_amount (nValue t)) ts"
  shows "value_out_loop s ts = Inr v \<longleftrightarrow> list_all (\<lambda>t. 0 \<le> nValue t) ts \<and> s + sum_list (map nValue ts) < 2 ^ 63 \<and>
    v = s + sum_list (map nValue ts)"
  using assms
proof (induction ts arbitrary: s)
  case (Cons t ts)
  have nonneg: "0 \<le> sum_list (map nValue ts)" if "list_all (\<lambda>t. 0 \<le> nValue t) ts"
    using that by (intro sum_list_nonneg) (auto simp: list_all_iff)
  show ?case
  proof (cases "0 \<le> nValue t \<and> s + nValue t < 2 ^ 63")
    case True
    then have "value_out_loop s (t # ts) = value_out_loop (s + nValue t) ts"
      using Cons.prems wrap_test [of s "nValue t"] by simp
    moreover have "is_amount (s + nValue t)" "0 \<le> s + nValue t" using True Cons.prems by (simp_all add: is_amount_def)
    ultimately show ?thesis using True Cons.IH [of "s + nValue t"] Cons.prems(3) by (simp add: add.assoc)
  next
    case False
    then have "\<not> (\<exists>v. value_out_loop s (t # ts) = Inr v)"
      using Cons.prems wrap_test(1) [of s "nValue t"] by auto
    then show ?thesis using False nonneg by auto
  qed
qed (auto simp: is_amount_def)

lemma mutable_value_loop_eq:
  "mutable_value_loop s ts = (case value_out_loop s ts of Inl e \<Rightarrow> -1 | Inr v \<Rightarrow> v)"
  by (induction ts arbitrary: s) simp_all

text \<open>
  For outputs whose amounts are 64-bit integers, the sum is returned exactly when all amounts
  are non-negative and the mathematical sum fits 63 bits, and it is then that sum; every other
  transaction makes the loop throw, and the mutable variant returns -1 in exactly these cases.
\<close>

theorem GetValueOut_correct:
  assumes "list_all (\<lambda>t. is_amount (nValue t)) (vout tx)"
  shows "(GetValueOut tx = Inr v \<longleftrightarrow> list_all (\<lambda>t. 0 \<le> nValue t) (vout tx) \<and> v = sum_list (map nValue (vout tx)) \<and> v < 2 ^ 63) \<and>
    CMutableTransaction_GetValueOut (to_mutable tx) = (case GetValueOut tx of Inl e \<Rightarrow> -1 | Inr s \<Rightarrow> s)"
  using value_out_loop_sum [of 0 "vout tx" v] assms
  by (auto simp: GetValueOut_def CMutableTransaction_GetValueOut_def to_mutable_def mutable_value_loop_eq is_amount_def)

theorem GetValueOut_correct_witness:
  "GetValueOut (CTransaction_new\<lparr>vout := [\<lparr>nValue = 5, scriptPubKey = []\<rparr>, \<lparr>nValue = 2 ^ 62, scriptPubKey = []\<rparr>]\<rparr>) =
    Inr (2 ^ 62 + 5)"
  using GetValueOut_correct [of "CTransaction_new\<lparr>vout := [\<lparr>nValue = 5, scriptPubKey = []\<rparr>, \<lparr>nValue = 2 ^ 62, scriptPubKey = []\<rparr>]\<rparr>"
      "2 ^ 62 + 5"]
  by (simp add: is_amount_def)

end
