(* ===== verification/Spork_Values.thy ===== *)
theory Spork_Values
  imports Prelude
begin

text \<open>
  The values of network sporks (\<^verbatim>\<open>spork.h\<close>, \<^verbatim>\<open>spork.cpp\<close>): the identifiers and names of the sporks, and
  the four multi-value types with their text form, a list of integers joined by semicolons.
  The conversions of Boost that the text form uses are parameters; what the code relies on
  is the locale \<open>payload_text\<close>, and a decimal implementation satisfies it.
\<close>

section \<open>The text conversions\<close>

text \<open>
  \<^verbatim>\<open>boost::lexical_cast\<close> between \<^verbatim>\<open>int\<close> and text, \<^verbatim>\<open>boost::algorithm::split\<close> at semicolons and \<^verbatim>\<open>join\<close> with them.
  A cast that throws \<^verbatim>\<open>bad_lexical_cast\<close> gives \<open>None\<close>.
\<close>

record text_lib =
  int_of_text :: "string \<Rightarrow> int option"
  int64_of_text :: "string \<Rightarrow> int option"
  text_of_int :: "int \<Rightarrow> string"
  split_semicolon :: "string \<Rightarrow> string list"
  join_semicolon :: "string list \<Rightarrow> string"

definition is_int32 :: "int \<Rightarrow> bool" where
  "is_int32 i \<longleftrightarrow> - 2147483648 \<le> i \<and> i \<le> 2147483647"

locale payload_text =
  fixes T :: text_lib
  assumes read_shown: "is_int32 i \<Longrightarrow> int_of_text T (text_of_int T i) = Some i"
    and shown_no_semicolon: "CHR '';'' \<notin> set (text_of_int T i)"
    and split_joined: "ts \<noteq> [] \<Longrightarrow> list_all (\<lambda>t. CHR '';'' \<notin> set t) ts \<Longrightarrow>
      split_semicolon T (join_semicolon T ts) = ts"

section \<open>Payloads\<close>

definition BuildDataPayload :: "text_lib \<Rightarrow> int list \<Rightarrow> string" where
  "BuildDataPayload T values = join_semicolon T (map (text_of_int T) values)"

text \<open>The loop stops at the first token that is not a number and keeps what it has parsed.\<close>

fun parse_tokens :: "text_lib \<Rightarrow> string list \<Rightarrow> int list" where
  "parse_tokens T [] = []"
| "parse_tokens T (token # tokens) =
    (case int_of_text T token of None \<Rightarrow> [] | Some i \<Rightarrow> i # parse_tokens T tokens)"

definition ParseDataPayload :: "text_lib \<Rightarrow> string \<Rightarrow> int list" where
  "ParseDataPayload T strDataPayload = parse_tokens T (split_semicolon T strDataPayload)"

context payload_text
begin

lemma parse_shown: "list_all is_int32 vs \<Longrightarrow> parse_tokens T (map (text_of_int T) vs) = vs"
  by (induction vs) (simp_all add: read_shown)

lemma parse_built: "vs \<noteq> [] \<Longrightarrow> list_all is_int32 vs \<Longrightarrow> ParseDataPayload T (BuildDataPayload T vs) = vs"
  by (simp add: ParseDataPayload_def BuildDataPayload_def split_joined parse_shown shown_no_semicolon list_all_iff)

end

section \<open>Spork identifiers\<close>

definition SPORK_2_SWIFTTX_ENABLED :: int where "SPORK_2_SWIFTTX_ENABLED = 10001"

definition SPORK_3_SWIFTTX_BLOCK_FILTERING :: int where "SPORK_3_SWIFTTX_BLOCK_FILTERING = 10002"

definition SPORK_5_INSTANTSEND_MAX_VALUE :: int where "SPORK_5_INSTANTSEND_MAX_VALUE = 10004"

definition SPORK_8_MASTERNODE_PAYMENT_ENFORCEMENT :: int where "SPORK_8_MASTERNODE_PAYMENT_ENFORCEMENT = 10007"

definition SPORK_9_SUPERBLOCKS_ENABLED :: int where "SPORK_9_SUPERBLOCKS_ENABLED = 10008"

definition SPORK_10_MASTERNODE_PAY_UPDATED_NODES :: int where "SPORK_10_MASTERNODE_PAY_UPDATED_NODES = 10009"

definition SPORK_12_RECONSIDER_BLOCKS :: int where "SPORK_12_RECONSIDER_BLOCKS = 10011"

definition SPORK_13_BLOCK_PAYMENTS :: int where "SPORK_13_BLOCK_PAYMENTS = 10012"

definition SPORK_14_TX_FEE :: int where "SPORK_14_TX_FEE = 10013"

definition SPORK_15_BLOCK_VALUE :: int where "SPORK_15_BLOCK_VALUE = 10014"

definition SPORK_16_LOTTERY_TICKET_MIN_VALUE :: int where "SPORK_16_LOTTERY_TICKET_MIN_VALUE = 10015"

definition SPORK_START :: int where "SPORK_START = SPORK_2_SWIFTTX_ENABLED"

definition SPORK_END :: int where "SPORK_END = SPORK_16_LOTTERY_TICKET_MIN_VALUE"

lemmas spork_ids = SPORK_2_SWIFTTX_ENABLED_def SPORK_3_SWIFTTX_BLOCK_FILTERING_def SPORK_5_INSTANTSEND_MAX_VALUE_def
  SPORK_8_MASTERNODE_PAYMENT_ENFORCEMENT_def SPORK_9_SUPERBLOCKS_ENABLED_def SPORK_10_MASTERNODE_PAY_UPDATED_NODES_def
  SPORK_12_RECONSIDER_BLOCKS_def SPORK_13_BLOCK_PAYMENTS_def SPORK_14_TX_FEE_def SPORK_15_BLOCK_VALUE_def
  SPORK_16_LOTTERY_TICKET_MIN_VALUE_def

definition mapSporkDefaults :: "int \<rightharpoonup> string" where
  "mapSporkDefaults = map_of
    [(SPORK_2_SWIFTTX_ENABLED, ''0''),
     (SPORK_3_SWIFTTX_BLOCK_FILTERING, ''0''),
     (SPORK_5_INSTANTSEND_MAX_VALUE, ''1000''),
     (SPORK_8_MASTERNODE_PAYMENT_ENFORCEMENT, ''1537971708''),
     (SPORK_9_SUPERBLOCKS_ENABLED, ''4070908800''),
     (SPORK_10_MASTERNODE_PAY_UPDATED_NODES, ''4070908800''),
     (SPORK_12_RECONSIDER_BLOCKS, ''0'')]"

definition IsMultiValueSpork :: "int \<Rightarrow> bool" where
  "IsMultiValueSpork nSporkID \<longleftrightarrow>
    SPORK_13_BLOCK_PAYMENTS = nSporkID \<or> SPORK_14_TX_FEE = nSporkID \<or>
    SPORK_15_BLOCK_VALUE = nSporkID \<or> SPORK_16_LOTTERY_TICKET_MIN_VALUE = nSporkID"

definition GetSporkIDByName :: "string \<Rightarrow> int" where
  "GetSporkIDByName strName =
    (if strName = ''SPORK_2_SWIFTTX_ENABLED'' then SPORK_2_SWIFTTX_ENABLED else
     if strName = ''SPORK_3_SWIFTTX_BLOCK_FILTERING'' then SPORK_3_SWIFTTX_BLOCK_FILTERING else
     if strName = ''SPORK_5_INSTANTSEND_MAX_VALUE'' then SPORK_5_INSTANTSEND_MAX_VALUE else
     if strName = ''SPORK_8_MASTERNODE_PAYMENT_ENFORCEMENT'' then SPORK_8_MASTERNODE_PAYMENT_ENFORCEMENT else
     if strName = ''SPORK_9_SUPERBLOCKS_ENABLED'' then SPORK_9_SUPERBLOCKS_ENABLED else
     if strName = ''SPORK_10_MASTERNODE_PAY_UPDATED_NODES'' then SPORK_10_MASTERNODE_PAY_UPDATED_NODES else
     if strName = ''SPORK_12_RECONSIDER_BLOCKS'' then SPORK_12_RECONSIDER_BLOCKS else
     if strName = ''SPORK_13_BLOCK_PAYMENTS'' then SPORK_13_BLOCK_PAYMENTS else
     if strName = ''SPORK_14_TX_FEE'' then SPORK_14_TX_FEE else
     if strName = ''SPORK_15_BLOCK_VALUE'' then SPORK_15_BLOCK_VALUE else
     if strName = ''SPORK_16_LOTTERY_TICKET_MIN_VALUE'' then SPORK_16_LOTTERY_TICKET_MIN_VALUE else
     -1)"

definition GetSporkNameByID :: "int \<Rightarrow> string" where
  "GetSporkNameByID nSporkID =
    (if nSporkID = SPORK_2_SWIFTTX_ENABLED then ''SPORK_2_SWIFTTX_ENABLED'' else
     if nSporkID = SPORK_3_SWIFTTX_BLOCK_FILTERING then ''SPORK_3_SWIFTTX_BLOCK_FILTERING'' else
     if nSporkID = SPORK_5_INSTANTSEND_MAX_VALUE then ''SPORK_5_INSTANTSEND_MAX_VALUE'' else
     if nSporkID = SPORK_8_MASTERNODE_PAYMENT_ENFORCEMENT then ''SPORK_8_MASTERNODE_PAYMENT_ENFORCEMENT'' else
     if nSporkID = SPORK_9_SUPERBLOCKS_ENABLED then ''SPORK_9_SUPERBLOCKS_ENABLED'' else
     if nSporkID = SPORK_10_MASTERNODE_PAY_UPDATED_NODES then ''SPORK_10_MASTERNODE_PAY_UPDATED_NODES'' else
     if nSporkID = SPORK_12_RECONSIDER_BLOCKS then ''SPORK_12_RECONSIDER_BLOCKS'' else
     if nSporkID = SPORK_13_BLOCK_PAYMENTS then ''SPORK_13_BLOCK_PAYMENTS'' else
     if nSporkID = SPORK_14_TX_FEE then ''SPORK_14_TX_FEE'' else
     if nSporkID = SPORK_15_BLOCK_VALUE then ''SPORK_15_BLOCK_VALUE'' else
     if nSporkID = SPORK_16_LOTTERY_TICKET_MIN_VALUE then ''SPORK_16_LOTTERY_TICKET_MIN_VALUE'' else
     ''Unknown'')"

section \<open>Multi-value types\<close>

text \<open>\<^verbatim>\<open>SporkMultiValue::IsValid\<close>.\<close>

definition activation_valid :: "int \<Rightarrow> bool" where
  "activation_valid nActivationBlockHeight \<longleftrightarrow> nActivationBlockHeight > 0"

text \<open>\<^verbatim>\<open>std::accumulate\<close> in \<^verbatim>\<open>int\<close>; an overflow is undefined.\<close>

fun accumulate_int :: "int \<Rightarrow> int list \<Rightarrow> int option" where
  "accumulate_int s [] = Some s"
| "accumulate_int s (v # vs) = (if is_int32 (s + v) then accumulate_int (s + v) vs else None)"

record BlockPaymentSporkValue =
  nStakeReward :: int
  nMasternodeReward :: int
  nTreasuryReward :: int
  nProposalsReward :: int
  nCharityReward :: int
  bpActivationBlockHeight :: int

definition BlockPaymentSporkValue_new :: BlockPaymentSporkValue where
  "BlockPaymentSporkValue_new =
    \<lparr>nStakeReward = 0, nMasternodeReward = 0, nTreasuryReward = 0, nProposalsReward = 0, nCharityReward = 0,
     bpActivationBlockHeight = 0\<rparr>"

definition BlockPaymentSporkValue_FromString :: "text_lib \<Rightarrow> string \<Rightarrow> BlockPaymentSporkValue" where
  "BlockPaymentSporkValue_FromString T strData =
    (let v = ParseDataPayload T strData
     in if length v \<noteq> 6 then BlockPaymentSporkValue_new
        else \<lparr>nStakeReward = v ! 0, nMasternodeReward = v ! 1, nTreasuryReward = v ! 2, nProposalsReward = v ! 3,
              nCharityReward = v ! 4, bpActivationBlockHeight = v ! 5\<rparr>)"

definition BlockPaymentSporkValue_IsValid :: "BlockPaymentSporkValue \<Rightarrow> bool option" where
  "BlockPaymentSporkValue_IsValid v =
    (if activation_valid (bpActivationBlockHeight v)
     then map_option (\<lambda>s. s = 100)
       (accumulate_int 0 [nStakeReward v, nMasternodeReward v, nTreasuryReward v, nProposalsReward v, nCharityReward v])
     else Some False)"

definition BlockPaymentSporkValue_ToString :: "text_lib \<Rightarrow> BlockPaymentSporkValue \<Rightarrow> string" where
  "BlockPaymentSporkValue_ToString T v = BuildDataPayload T
    [nStakeReward v, nMasternodeReward v, nTreasuryReward v, nProposalsReward v, nCharityReward v,
     bpActivationBlockHeight v]"

record BlockSubsiditySporkValue =
  nBlockSubsidity :: int
  bsActivationBlockHeight :: int

definition BlockSubsiditySporkValue_new :: BlockSubsiditySporkValue where
  "BlockSubsiditySporkValue_new = \<lparr>nBlockSubsidity = -1, bsActivationBlockHeight = 0\<rparr>"

definition BlockSubsiditySporkValue_FromString :: "text_lib \<Rightarrow> string \<Rightarrow> BlockSubsiditySporkValue" where
  "BlockSubsiditySporkValue_FromString T strData =
    (let v = ParseDataPayload T strData
     in if length v \<noteq> 2 then BlockSubsiditySporkValue_new
        else \<lparr>nBlockSubsidity = v ! 0, bsActivationBlockHeight = v ! 1\<rparr>)"

definition BlockSubsiditySporkValue_IsValid :: "BlockSubsiditySporkValue \<Rightarrow> bool" where
  "BlockSubsiditySporkValue_IsValid v \<longleftrightarrow> activation_valid (bsActivationBlockHeight v) \<and> nBlockSubsidity v \<ge> 0"

definition BlockSubsiditySporkValue_ToString :: "text_lib \<Rightarrow> BlockSubsiditySporkValue \<Rightarrow> string" where
  "BlockSubsiditySporkValue_ToString T v = BuildDataPayload T [nBlockSubsidity v, bsActivationBlockHeight v]"

record LotteryTicketMinValueSporkValue =
  nEntryTicketValue :: int
  ltActivationBlockHeight :: int

definition LotteryTicketMinValueSporkValue_new :: LotteryTicketMinValueSporkValue where
  "LotteryTicketMinValueSporkValue_new = \<lparr>nEntryTicketValue = 0, ltActivationBlockHeight = 0\<rparr>"

definition LotteryTicketMinValueSporkValue_FromString :: "text_lib \<Rightarrow> string \<Rightarrow> LotteryTicketMinValueSporkValue" where
  "LotteryTicketMinValueSporkValue_FromString T strData =
    (let v = ParseDataPayload T strData
     in if length v \<noteq> 2 then LotteryTicketMinValueSporkValue_new
        else \<lparr>nEntryTicketValue = v ! 0, ltActivationBlockHeight = v ! 1\<rparr>)"

definition LotteryTicketMinValueSporkValue_IsValid :: "LotteryTicketMinValueSporkValue \<Rightarrow> bool" where
  "LotteryTicketMinValueSporkValue_IsValid v \<longleftrightarrow> activation_valid (ltActivationBlockHeight v) \<and> nEntryTicketValue v > 0"

definition LotteryTicketMinValueSporkValue_ToString :: "text_lib \<Rightarrow> LotteryTicketMinValueSporkValue \<Rightarrow> string" where
  "LotteryTicketMinValueSporkValue_ToString T v = BuildDataPayload T [nEntryTicketValue v, ltActivationBlockHeight v]"

record TxFeeSporkValue =
  nTxValueMultiplier :: int
  nTxSizeMultiplier :: int
  nMaxFee :: int
  nMinFeePerKb :: int
  tfActivationBlockHeight :: int

definition TxFeeSporkValue_new :: TxFeeSporkValue where
  "TxFeeSporkValue_new =
    \<lparr>nTxValueMultiplier = -1, nTxSizeMultiplier = -1, nMaxFee = -1, nMinFeePerKb = -1, tfActivationBlockHeight = 0\<rparr>"

definition TxFeeSporkValue_FromString :: "text_lib \<Rightarrow> string \<Rightarrow> TxFeeSporkValue" where
  "TxFeeSporkValue_FromString T strData =
    (let v = ParseDataPayload T strData
     in if length v \<noteq> 6 then TxFeeSporkValue_new
        else \<lparr>nTxValueMultiplier = v ! 0, nTxSizeMultiplier = v ! 1, nMaxFee = v ! 2, nMinFeePerKb = v ! 3,
              tfActivationBlockHeight = v ! 4\<rparr>)"

definition TxFeeSporkValue_IsValid :: "TxFeeSporkValue \<Rightarrow> bool" where
  "TxFeeSporkValue_IsValid v \<longleftrightarrow> activation_valid (tfActivationBlockHeight v) \<and>
    nTxValueMultiplier v > 0 \<and> nTxSizeMultiplier v > 0 \<and> nMaxFee v > 0 \<and> nMinFeePerKb v > 0"

definition TxFeeSporkValue_ToString :: "text_lib \<Rightarrow> TxFeeSporkValue \<Rightarrow> string" where
  "TxFeeSporkValue_ToString T v = BuildDataPayload T
    [nTxValueMultiplier v, nTxSizeMultiplier v, nMaxFee v, nMinFeePerKb v, tfActivationBlockHeight v]"

section \<open>Properties\<close>

definition payment_fields_int32 :: "BlockPaymentSporkValue \<Rightarrow> bool" where
  "payment_fields_int32 v \<longleftrightarrow> is_int32 (nStakeReward v) \<and> is_int32 (nMasternodeReward v) \<and> is_int32 (nTreasuryReward v) \<and>
    is_int32 (nProposalsReward v) \<and> is_int32 (nCharityReward v) \<and> is_int32 (bpActivationBlockHeight v)"

text \<open>
  The text form of block payments, block subsidies and lottery ticket minimum values
  parses back to the value printed, whatever 32-bit integers their fields hold.
\<close>

theorem spork_value_roundtrip:
  assumes "payload_text T" "payment_fields_int32 p"
    and "is_int32 (nBlockSubsidity s)" "is_int32 (bsActivationBlockHeight s)"
    and "is_int32 (nEntryTicketValue l)" "is_int32 (ltActivationBlockHeight l)"
  shows "BlockPaymentSporkValue_FromString T (BlockPaymentSporkValue_ToString T p) = p \<and>
    BlockSubsiditySporkValue_FromString T (BlockSubsiditySporkValue_ToString T s) = s \<and>
    LotteryTicketMinValueSporkValue_FromString T (LotteryTicketMinValueSporkValue_ToString T l) = l"
  using assms
  by (simp add: payment_fields_int32_def BlockPaymentSporkValue_FromString_def BlockPaymentSporkValue_ToString_def
      BlockSubsiditySporkValue_FromString_def BlockSubsiditySporkValue_ToString_def payload_text.parse_built
      LotteryTicketMinValueSporkValue_FromString_def LotteryTicketMinValueSporkValue_ToString_def)

text \<open>
  A transaction fee spork does not survive its own text form: printing writes five numbers,
  parsing demands six, so every printed value, valid ones included, parses to the invalid default.
\<close>

theorem tx_fee_value_lost:
  assumes "payload_text T" "is_int32 (nTxValueMultiplier v)" "is_int32 (nTxSizeMultiplier v)" "is_int32 (nMaxFee v)"
    "is_int32 (nMinFeePerKb v)" "is_int32 (tfActivationBlockHeight v)"
  shows "TxFeeSporkValue_FromString T (TxFeeSporkValue_ToString T v) = TxFeeSporkValue_new \<and>
    \<not> TxFeeSporkValue_IsValid (TxFeeSporkValue_FromString T (TxFeeSporkValue_ToString T v))"
  using assms
  by (simp add: TxFeeSporkValue_FromString_def TxFeeSporkValue_ToString_def TxFeeSporkValue_IsValid_def TxFeeSporkValue_new_def
      activation_valid_def payload_text.parse_built)

lemma GetSporkIDByName_NameByID: "GetSporkNameByID i \<noteq> ''Unknown'' \<Longrightarrow> GetSporkIDByName (GetSporkNameByID i) = i"
  by (simp add: GetSporkNameByID_def GetSporkIDByName_def split: if_splits)

section \<open>A decimal implementation\<close>

fun digits :: "nat \<Rightarrow> string" where
  "digits n = (if n < 10 then [char_of (48 + n)] else digits (n div 10) @ [char_of (48 + n mod 10)])"

declare digits.simps [simp del]

definition decimal :: "int \<Rightarrow> string" where
  "decimal i = (if i < 0 then CHR ''-'' # digits (nat (- i)) else digits (nat i))"

fun read_digits :: "nat \<Rightarrow> string \<Rightarrow> nat option" where
  "read_digits n [] = Some n"
| "read_digits n (c # cs) =
    (if 48 \<le> (of_char c :: nat) \<and> of_char c \<le> (57 :: nat) then read_digits (10 * n + (of_char c - 48)) cs else None)"

definition read_decimal :: "string \<Rightarrow> int option" where
  "read_decimal s = (case s of [] \<Rightarrow> None
    | c # cs \<Rightarrow> if c = CHR ''-'' then (if cs = [] then None else map_option (\<lambda>n. - int n) (read_digits 0 cs))
               else map_option int (read_digits 0 s))"

fun split_at_semicolon :: "string \<Rightarrow> string list" where
  "split_at_semicolon [] = [[]]"
| "split_at_semicolon (c # cs) =
    (if c = CHR '';'' then [] # split_at_semicolon cs
     else case split_at_semicolon cs of [] \<Rightarrow> [[c]] | t # ts \<Rightarrow> (c # t) # ts)"

fun join_by_semicolon :: "string list \<Rightarrow> string" where
  "join_by_semicolon [] = []"
| "join_by_semicolon [t] = t"
| "join_by_semicolon (t # u # ts) = t @ CHR '';'' # join_by_semicolon (u # ts)"

definition decimal_text :: text_lib where
  "decimal_text = \<lparr>int_of_text = (\<lambda>s. Option.bind (read_decimal s) (\<lambda>i. if is_int32 i then Some i else None)),
    int64_of_text = (\<lambda>s. Option.bind (read_decimal s) (\<lambda>i. if - (2 ^ 63) \<le> i \<and> i < 2 ^ 63 then Some i else None)),
    text_of_int = decimal, split_semicolon = split_at_semicolon, join_semicolon = join_by_semicolon\<rparr>"

lemma read_digits_append: "read_digits n (xs @ [c]) =
    Option.bind (read_digits n xs) (\<lambda>m. read_digits m [c])"
  by (induction xs arbitrary: n) auto

lemma of_char_digit: "d < 10 \<Longrightarrow> of_char (char_of (48 + d)) = (48 + d :: nat)"
  by simp

lemma read_digits_digits: "read_digits 0 (digits n) = Some n"
proof (induction n rule: digits.induct)
  case (1 n)
  then show ?case
    by (subst digits.simps) (auto simp: read_digits_append of_char_digit simp del: of_char_of)
qed

lemma digits_digit: "c \<in> set (digits n) \<Longrightarrow> 48 \<le> (of_char c :: nat) \<and> of_char c < (58 :: nat)"
proof (induction n rule: digits.induct)
  case (1 n)
  then show ?case
    by (subst (asm) (2) digits.simps) (auto simp: of_char_digit simp del: of_char_of split: if_splits)
qed

lemma digits_Cons: "\<exists>c cs. digits n = c # cs \<and> c \<noteq> CHR ''-''"
proof -
  have "digits n \<noteq> []" by (subst digits.simps) simp
  then obtain c cs where c: "digits n = c # cs" by (cases "digits n") auto
  then have "48 \<le> (of_char c :: nat)" using digits_digit [of c n] by simp
  then have "c \<noteq> CHR ''-''" by auto
  with c show ?thesis by blast
qed

lemma read_decimal_decimal: "read_decimal (decimal i) = Some i"
proof -
  obtain c cs where c: "digits (nat \<bar>i\<bar>) = c # cs" "c \<noteq> CHR ''-''" using digits_Cons by blast
  then have "read_digits 0 (c # cs) = Some (nat \<bar>i\<bar>)" using read_digits_digits [of "nat \<bar>i\<bar>"] by simp
  with c show ?thesis by (cases "i < 0") (simp_all add: read_decimal_def decimal_def)
qed

lemma decimal_no_semicolon: "CHR '';'' \<notin> set (decimal i)"
proof
  assume "CHR '';'' \<in> set (decimal i)"
  then have "CHR '';'' \<in> set (digits (nat \<bar>i\<bar>))" by (auto simp: decimal_def split: if_splits)
  then show False using digits_digit by fastforce
qed

lemma split_token: "CHR '';'' \<notin> set t \<Longrightarrow> split_at_semicolon t = [t]"
  by (induction t) auto

lemma split_token_Cons: "CHR '';'' \<notin> set t \<Longrightarrow> split_at_semicolon (t @ CHR '';'' # s) = t # split_at_semicolon s"
  by (induction t) auto

lemma split_join: "ts \<noteq> [] \<Longrightarrow> list_all (\<lambda>t. CHR '';'' \<notin> set t) ts \<Longrightarrow> split_at_semicolon (join_by_semicolon ts) = ts"
  by (induction ts rule: join_by_semicolon.induct) (simp_all add: split_token split_token_Cons)

interpretation decimal_payload: payload_text decimal_text
  by unfold_locales (simp_all add: decimal_text_def read_decimal_decimal decimal_no_semicolon split_join)

theorem spork_value_roundtrip_witness:
  "let p = \<lparr>nStakeReward = 38, nMasternodeReward = 45, nTreasuryReward = 16, nProposalsReward = 0, nCharityReward = 1,
      bpActivationBlockHeight = 100\<rparr>;
    s = \<lparr>nBlockSubsidity = 1250, bsActivationBlockHeight = 100\<rparr>; l = \<lparr>nEntryTicketValue = 10000, ltActivationBlockHeight = 100\<rparr>
   in BlockPaymentSporkValue_FromString decimal_text (BlockPaymentSporkValue_ToString decimal_text p) = p \<and>
    BlockSubsiditySporkValue_FromString decimal_text (BlockSubsiditySporkValue_ToString decimal_text s) = s \<and>
    LotteryTicketMinValueSporkValue_FromString decimal_text (LotteryTicketMinValueSporkValue_ToString decimal_text l) = l"
  unfolding Let_def
  by (rule spork_value_roundtrip [OF decimal_payload.payload_text_axioms]) (simp_all add: payment_fields_int32_def is_int32_def)

theorem tx_fee_value_lost_witness:
  "TxFeeSporkValue_FromString decimal_text (TxFeeSporkValue_ToString decimal_text
      \<lparr>nTxValueMultiplier = 1000, nTxSizeMultiplier = 300, nMaxFee = 100, nMinFeePerKb = 10, tfActivationBlockHeight = 100\<rparr>) =
    TxFeeSporkValue_new"
  using tx_fee_value_lost [OF decimal_payload.payload_text_axioms,
      of "\<lparr>nTxValueMultiplier = 1000, nTxSizeMultiplier = 300, nMaxFee = 100, nMinFeePerKb = 10, tfActivationBlockHeight = 100\<rparr>"]
  by (simp add: is_int32_def)

end
