(* ===== verification/Spork_Manager.thy ===== *)
theory Spork_Manager
  imports Spork_Values "HOL-Library.Mapping" "HOL-Library.Multiset"
begin

text \<open>
  The spork manager (\<^verbatim>\<open>CSporkManager\<close> and \<^verbatim>\<open>CSporkMessage\<close> of \<^verbatim>\<open>spork.h\<close>, \<^verbatim>\<open>spork.cpp\<close>): signed network-wide settings
  that arrive as messages. The theory shows that every reachable manager holds only correctly signed
  messages in the order the queries rely on, that nodes agree on the settings whatever the order in
  which messages reach them, and that the signed text does not determine the message.
\<close>

section \<open>Messages\<close>

record CSporkMessage =
  nSporkID :: int
  strValue :: string
  nTimeSigned :: int
  vchSig :: bytes

text \<open>
  What the manager calls and this development does not model: the double SHA-256 of the serialised message
  (\<^verbatim>\<open>SerializeHash\<close>, which leaves the signature out), the signature scheme of \<^verbatim>\<open>CObfuScationSigner\<close>, and
  \<^verbatim>\<open>std::sort\<close>, whose order of messages with equal times is unspecified.
\<close>

record spork_lib =
  casts :: text_lib
  SerializeHash :: "int \<Rightarrow> string \<Rightarrow> int \<Rightarrow> u256"
  key_valid :: "bytes \<Rightarrow> bool"
  SignMessage :: "string \<Rightarrow> bytes \<Rightarrow> bytes option"
  VerifyMessage :: "bytes \<Rightarrow> bytes \<Rightarrow> string \<Rightarrow> bool"
  parse_pubkey :: "string \<Rightarrow> bytes option"
  GetKeysFromSecret :: "string \<Rightarrow> (bytes \<times> bytes) option"
  key_id :: "bytes \<Rightarrow> bytes"
  std_sort :: "CSporkMessage list \<Rightarrow> CSporkMessage list"

definition GetHash :: "spork_lib \<Rightarrow> CSporkMessage \<Rightarrow> u256" where
  "GetHash L s = SerializeHash L (nSporkID s) (strValue s) (nTimeSigned s)"

definition signed_text :: "spork_lib \<Rightarrow> CSporkMessage \<Rightarrow> string" where
  "signed_text L s = text_of_int (casts L) (nSporkID s) @ strValue s @ text_of_int (casts L) (nTimeSigned s)"

definition Sign :: "spork_lib \<Rightarrow> CSporkMessage \<Rightarrow> bytes \<Rightarrow> bytes \<Rightarrow> CSporkMessage option" where
  "Sign L s key sporkPubKey =
    (if \<not> key_valid L key then None
     else case SignMessage L (signed_text L s) key of
       None \<Rightarrow> None
     | Some sig \<Rightarrow> if VerifyMessage L (key_id L sporkPubKey) sig (signed_text L s) then Some (s\<lparr>vchSig := sig\<rparr>) else None)"

definition CheckSignature :: "spork_lib \<Rightarrow> bytes \<Rightarrow> CSporkMessage \<Rightarrow> bool" where
  "CheckSignature L pubKey s \<longleftrightarrow> VerifyMessage L (key_id L pubKey) (vchSig s) (signed_text L s)"

section \<open>The manager\<close>

text \<open>
  The state of the manager, with the global \<^verbatim>\<open>mapSporks\<close>, the static \<^verbatim>\<open>nTimeExecuted\<close> and the contents of the
  spork database, which outlive the handle \<^verbatim>\<open>pSporkDB_\<close> (here whether it is allocated).
\<close>

record CSporkManager =
  mapSporksActive :: "(int, CSporkMessage list) mapping"
  sporkPubKey :: bytes
  sporkPrivKey :: bytes
  mapSporks :: "u256 \<rightharpoonup> CSporkMessage"
  pSporkDB :: bool
  sporkDisk :: "int \<rightharpoonup> CSporkMessage"
  nTimeExecuted :: int

datatype spork_effect =
    SporksSynced
  | Misbehaving nat
  | RelayInv u256
  | PushSpork CSporkMessage
  | PushGetSporks
  | SetSporkCount int
  | SetTxFees TxFeeSporkValue
  | ReprocessBlocks int

definition ShareSporkDataWithPeer :: "CSporkManager \<Rightarrow> u256 \<Rightarrow> bool \<times> spork_effect list" where
  "ShareSporkDataWithPeer m inventoryHash =
    (case mapSporks m inventoryHash of Some s \<Rightarrow> (True, [PushSpork s]) | None \<Rightarrow> (False, []))"

definition SporkDataIsKnown :: "CSporkManager \<Rightarrow> u256 \<Rightarrow> bool" where
  "SporkDataIsKnown m inventoryHash \<longleftrightarrow> mapSporks m inventoryHash \<noteq> None"

definition AddActiveSpork :: "spork_lib \<Rightarrow> CSporkManager \<Rightarrow> CSporkMessage \<Rightarrow> bool \<times> CSporkManager" where
  "AddActiveSpork L m s =
    (let sporks = Mapping.lookup_default [] (mapSporksActive m) (nSporkID s);
         store = (\<lambda>l. m\<lparr>mapSporksActive := Mapping.update (nSporkID s) l (mapSporksActive m)\<rparr>)
     in if IsMultiValueSpork (nSporkID s) then
          if list_ex (\<lambda>t. GetHash L s = GetHash L t) sporks then (False, store sporks)
          else (True, store (std_sort L (sporks @ [s])))
        else (True, store [s]))"

definition IsNewerSpork :: "CSporkManager \<Rightarrow> CSporkMessage \<Rightarrow> bool" where
  "IsNewerSpork m s =
    (case Mapping.lookup (mapSporksActive m) (nSporkID s) of
       Some sporks \<Rightarrow> \<not> nTimeSigned (last sporks) \<ge> nTimeSigned s
     | None \<Rightarrow> True)"

definition AllocateDatabase :: "CSporkManager \<Rightarrow> CSporkManager" where
  "AllocateDatabase m = m\<lparr>pSporkDB := True\<rparr>"

definition DeallocateDatabase :: "CSporkManager \<Rightarrow> CSporkManager" where
  "DeallocateDatabase m = m\<lparr>pSporkDB := False\<rparr>"

definition LoadSpork :: "spork_lib \<Rightarrow> CSporkManager \<Rightarrow> int \<Rightarrow> CSporkManager" where
  "LoadSpork L m i =
    (if GetSporkNameByID i = ''Unknown'' then m
     else case (if pSporkDB m then sporkDisk m i else None) of
       None \<Rightarrow> m
     | Some s \<Rightarrow> snd (AddActiveSpork L (m\<lparr>mapSporks := (mapSporks m)(GetHash L s \<mapsto> s)\<rparr>) s))"

definition LoadSporksFromDB :: "spork_lib \<Rightarrow> CSporkManager \<Rightarrow> CSporkManager" where
  "LoadSporksFromDB L m = foldl (LoadSpork L) m [SPORK_START..SPORK_END]"

definition GetMultiValueSpork :: "CSporkManager \<Rightarrow> int \<Rightarrow> CSporkMessage list" where
  "GetMultiValueSpork m sporkID =
    (if IsMultiValueSpork sporkID then Mapping.lookup_default [] (mapSporksActive m) sporkID else [])"

definition ConvertMultiValueSporkVector :: "(string \<Rightarrow> 'v) \<Rightarrow> CSporkMessage list \<Rightarrow> ('v \<times> int) list" where
  "ConvertMultiValueSporkVector FromString = map (\<lambda>s. (FromString (strValue s), nTimeSigned s))"

fun active_index :: "('v \<Rightarrow> int) \<Rightarrow> int \<Rightarrow> int \<Rightarrow> nat \<Rightarrow> int \<Rightarrow> ('v \<times> int) list \<Rightarrow> int" where
  "active_index act nHeight nBlockTime i nIndex [] = nIndex"
| "active_index act nHeight nBlockTime i nIndex (e # es) =
    active_index act nHeight nBlockTime (Suc i)
      (if nHeight \<ge> act (fst e) \<and> snd e < nBlockTime then int i else nIndex) es"

definition GetActiveMultiValueSpork :: "('v \<Rightarrow> int) \<Rightarrow> 'v \<Rightarrow> ('v \<times> int) list \<Rightarrow> int \<Rightarrow> int \<Rightarrow> 'v" where
  "GetActiveMultiValueSpork act dflt vSporks nHeight nBlockTime =
    (let nIndex = active_index act nHeight nBlockTime 0 (-1) vSporks
     in if nIndex \<ge> 0 then fst (vSporks ! nat nIndex) else dflt)"

text \<open>The chain tip is its height and time; the calling handler has checked that there is one.\<close>

type_synonym tip = "int \<times> int"

definition ExecuteMultiValueSpork :: "spork_lib \<Rightarrow> CSporkManager \<Rightarrow> tip \<Rightarrow> int \<Rightarrow> spork_effect list" where
  "ExecuteMultiValueSpork L m tip sporkID =
    (if sporkID = SPORK_14_TX_FEE then
       let vValues = ConvertMultiValueSporkVector (TxFeeSporkValue_FromString (casts L)) (GetMultiValueSpork m SPORK_14_TX_FEE)
       in [SetTxFees (GetActiveMultiValueSpork tfActivationBlockHeight TxFeeSporkValue_new vValues (fst tip) (snd tip))]
     else [])"

definition ExecuteSpork :: "spork_lib \<Rightarrow> CSporkManager \<Rightarrow> tip \<Rightarrow> int \<Rightarrow> int \<Rightarrow> CSporkManager \<times> spork_effect list" where
  "ExecuteSpork L m tip now sporkID =
    (if IsMultiValueSpork sporkID then (m, ExecuteMultiValueSpork L m tip sporkID)
     else if sporkID = SPORK_12_RECONSIDER_BLOCKS then
       let strVal = strValue (hd (Mapping.lookup_default [] (mapSporksActive m) sporkID));
           nValue = (case int64_of_text (casts L) strVal of Some v \<Rightarrow> v | None \<Rightarrow> 0)
       in if nValue \<le> 0 then (m, [])
          else if now - nTimeExecuted m < 10 * 60 then (m, [])
          else if nValue > 576 then (m, [])
          else (m\<lparr>nTimeExecuted := now\<rparr>, [ReprocessBlocks nValue])
     else (m, []))"

datatype spork_command = Spork CSporkMessage | GetSporks | SporkCount int | OtherCommand

definition ProcessSpork ::
  "spork_lib \<Rightarrow> bool \<Rightarrow> tip option \<Rightarrow> int \<Rightarrow> CSporkManager \<Rightarrow> spork_command \<Rightarrow> CSporkManager \<times> spork_effect list" where
  "ProcessSpork L fLiteMode tip now m cmd =
    (if fLiteMode then (m, [])
     else case cmd of
       Spork s \<Rightarrow>
         (case tip of None \<Rightarrow> (m, [])
          | Some t \<Rightarrow>
              if \<not> IsNewerSpork m s \<and> \<not> IsMultiValueSpork (nSporkID s) then (m, [SporksSynced])
              else if \<not> CheckSignature L (sporkPubKey m) s then (m, [Misbehaving 100])
              else if \<not> pSporkDB m then (m, [])
              else
                let m = m\<lparr>mapSporks := (mapSporks m)(GetHash L s \<mapsto> s)\<rparr>;
                    (added, m) = AddActiveSpork L m s;
                    (m, effects) =
                      (if added then ExecuteSpork L (m\<lparr>sporkDisk := (sporkDisk m)(nSporkID s \<mapsto> s)\<rparr>) t now (nSporkID s)
                       else (m, []))
                in (m, [SporksSynced] @ effects @ [RelayInv (GetHash L s)]))
     | GetSporks \<Rightarrow> (m, concat (map (\<lambda>i. map PushSpork (Mapping.lookup_default [] (mapSporksActive m) i))
         (Mapping.ordered_keys (mapSporksActive m))))
     | SporkCount n \<Rightarrow> (m, [SetSporkCount n, PushGetSporks])
     | OtherCommand \<Rightarrow> (m, []))"

definition GetActivationHeightHelper :: "spork_lib \<Rightarrow> int \<Rightarrow> string \<Rightarrow> int" where
  "GetActivationHeightHelper L sporkID strVal =
    (if sporkID = SPORK_13_BLOCK_PAYMENTS then bpActivationBlockHeight (BlockPaymentSporkValue_FromString (casts L) strVal)
     else if sporkID = SPORK_14_TX_FEE then tfActivationBlockHeight (TxFeeSporkValue_FromString (casts L) strVal)
     else if sporkID = SPORK_15_BLOCK_VALUE then bsActivationBlockHeight (BlockSubsiditySporkValue_FromString (casts L) strVal)
     else if sporkID = SPORK_16_LOTTERY_TICKET_MIN_VALUE
       then ltActivationBlockHeight (LotteryTicketMinValueSporkValue_FromString (casts L) strVal)
     else 0)"

definition UpdateSpork ::
  "spork_lib \<Rightarrow> int \<Rightarrow> int \<Rightarrow> CSporkManager \<Rightarrow> int \<Rightarrow> string \<Rightarrow> bool \<times> CSporkManager \<times> spork_effect list" where
  "UpdateSpork L height adjustedTime m sporkID strVal =
    (let s = \<lparr>nSporkID = sporkID, strValue = strVal, nTimeSigned = adjustedTime, vchSig = []\<rparr>
     in if \<not> IsNewerSpork m s then (False, m, [])
        else if IsMultiValueSpork sporkID \<and> GetActivationHeightHelper L sporkID strVal < height + 10 then (False, m, [])
        else case Sign L s (sporkPrivKey m) (sporkPubKey m) of
          None \<Rightarrow> (False, m, [])
        | Some s \<Rightarrow> (True, snd (AddActiveSpork L (m\<lparr>mapSporks := (mapSporks m)(GetHash L s \<mapsto> s)\<rparr>) s), [RelayInv (GetHash L s)]))"

definition GetActiveSporkCount :: "CSporkManager \<Rightarrow> nat" where
  "GetActiveSporkCount m =
    sum_list (map (\<lambda>i. length (Mapping.lookup_default [] (mapSporksActive m) i)) (Mapping.ordered_keys (mapSporksActive m)))"

text \<open>A stored value that is not a number makes the cast throw.\<close>

definition IsSporkActive :: "spork_lib \<Rightarrow> int \<Rightarrow> CSporkManager \<Rightarrow> int \<Rightarrow> bool option" where
  "IsSporkActive L adjustedTime m sporkID =
    (if IsMultiValueSpork sporkID then Some (Mapping.lookup (mapSporksActive m) sporkID \<noteq> None)
     else
       let r = (case Mapping.lookup (mapSporksActive m) sporkID of
                  Some sporks \<Rightarrow> strValue (hd sporks)
                | None \<Rightarrow> (case mapSporkDefaults sporkID of Some v \<Rightarrow> v | None \<Rightarrow> ''4070908800''))
       in map_option (\<lambda>v. v < adjustedTime) (int64_of_text (casts L) r))"

definition GetSporkValue :: "CSporkManager \<Rightarrow> int \<Rightarrow> string" where
  "GetSporkValue m sporkID =
    (if IsMultiValueSpork sporkID then
       let values = GetMultiValueSpork m sporkID in if values = [] then [] else strValue (last values)
     else case Mapping.lookup (mapSporksActive m) sporkID of
       Some sporks \<Rightarrow> strValue (hd sporks)
     | None \<Rightarrow> (case mapSporkDefaults sporkID of Some v \<Rightarrow> v | None \<Rightarrow> []))"

definition SetSporkAddress :: "spork_lib \<Rightarrow> CSporkManager \<Rightarrow> string \<Rightarrow> bool \<times> CSporkManager" where
  "SetSporkAddress L m strPubKey =
    (case parse_pubkey L strPubKey of None \<Rightarrow> (False, m) | Some pk \<Rightarrow> (True, m\<lparr>sporkPubKey := pk\<rparr>))"

definition SetPrivKey :: "spork_lib \<Rightarrow> CSporkManager \<Rightarrow> string \<Rightarrow> bool \<times> CSporkManager" where
  "SetPrivKey L m strPrivKey =
    (case GetKeysFromSecret L strPrivKey of
       None \<Rightarrow> (False, m)
     | Some (key, pubKey) \<Rightarrow>
         if key_id L pubKey \<noteq> key_id L (sporkPubKey m) then (False, m)
         else case Sign L \<lparr>nSporkID = 0, strValue = [], nTimeSigned = 0, vchSig = []\<rparr> key (sporkPubKey m) of
           Some s \<Rightarrow> (True, m\<lparr>sporkPrivKey := key\<rparr>)
         | None \<Rightarrow> (False, m))"

section \<open>Sorting\<close>

text \<open>What \<^verbatim>\<open>std::sort\<close> promises of the comparison by a key.\<close>

locale sort_by =
  fixes srt :: "'a list \<Rightarrow> 'a list" and key :: "'a \<Rightarrow> int"
  assumes mset_srt: "mset (srt xs) = mset xs"
    and sorted_srt: "sorted (map key (srt xs))"
begin

lemma set_srt: "set (srt xs) = set xs"
  by (metis mset_srt set_mset_mset)

lemma srt_Nil_iff: "srt xs = [] \<longleftrightarrow> xs = []"
  by (metis mset_srt mset_zero_iff)

lemma distinct_map_srt: "distinct (map f (srt xs)) \<longleftrightarrow> distinct (map f xs)"
  by (metis mset_map mset_srt mset_eq_imp_distinct_iff)

lemma distinct_srt: "distinct (srt xs) \<longleftrightarrow> distinct xs"
  by (metis mset_srt mset_eq_imp_distinct_iff)

lemma srt_unique:
  assumes "set xs = set ys" "distinct xs" "distinct ys" "inj_on key (set xs)"
  shows "srt xs = sort_key key ys"
proof (rule map_sorted_distinct_set_unique [where f = key])
  show "inj_on key (set (srt xs) \<union> set (sort_key key ys))" using assms(1,4) by (simp add: set_srt)
  show "distinct (map key (srt xs))" "distinct (map key (sort_key key ys))"
    using assms by (simp_all add: distinct_map_srt distinct_srt distinct_map set_srt)
  show "set (srt xs) = set (sort_key key ys)" using assms(1) by (simp add: set_srt)
qed (simp_all add: sorted_srt)

end

interpretation sort_key_by: sort_by "sort_key key" key for key
  by unfold_locales simp_all

abbreviation sort_ok :: "spork_lib \<Rightarrow> bool" where
  "sort_ok L \<equiv> sort_by (std_sort L) nTimeSigned"


section \<open>Only signed messages, in order\<close>

definition spork_list_ok :: "spork_lib \<Rightarrow> bytes \<Rightarrow> int \<Rightarrow> CSporkMessage list \<Rightarrow> bool" where
  "spork_list_ok L pk i l \<longleftrightarrow> l \<noteq> [] \<and> list_all (\<lambda>s. nSporkID s = i \<and> CheckSignature L pk s) l \<and>
    sorted (map nTimeSigned l) \<and> distinct (map (GetHash L) l) \<and> (IsMultiValueSpork i \<or> length l = 1)"

definition spork_manager_ok :: "spork_lib \<Rightarrow> CSporkManager \<Rightarrow> bool" where
  "spork_manager_ok L m \<longleftrightarrow>
    (\<forall>i l. Mapping.lookup (mapSporksActive m) i = Some l \<longrightarrow> spork_list_ok L (sporkPubKey m) i l) \<and>
    (\<forall>i s. sporkDisk m i = Some s \<longrightarrow> nSporkID s = i \<and> CheckSignature L (sporkPubKey m) s) \<and>
    (\<forall>h s. mapSporks m h = Some s \<longrightarrow> GetHash L s = h \<and> CheckSignature L (sporkPubKey m) s)"

lemma AddActiveSpork_ok:
  assumes "sort_ok L" "spork_manager_ok L m" "CheckSignature L (sporkPubKey m) s"
  shows "spork_manager_ok L (snd (AddActiveSpork L m s))" "sporkPubKey (snd (AddActiveSpork L m s)) = sporkPubKey m"
proof -
  let ?l = "Mapping.lookup_default [] (mapSporksActive m) (nSporkID s)"
  have l: "list_all (\<lambda>t. nSporkID t = nSporkID s \<and> CheckSignature L (sporkPubKey m) t) ?l \<and> distinct (map (GetHash L) ?l)"
    using assms(2) by (auto simp: spork_manager_ok_def spork_list_ok_def Mapping.lookup_default_def split: option.splits)
  have "spork_list_ok L (sporkPubKey m) (nSporkID s) [s]" if "\<not> IsMultiValueSpork (nSporkID s)"
    using assms(3) by (simp add: spork_list_ok_def)
  moreover have "spork_list_ok L (sporkPubKey m) (nSporkID s) ?l" if "list_ex (\<lambda>t. GetHash L s = GetHash L t) ?l"
    using that assms(2) by (auto simp: spork_manager_ok_def Mapping.lookup_default_def split: option.splits)
  moreover have "spork_list_ok L (sporkPubKey m) (nSporkID s) (std_sort L (?l @ [s]))"
    if "\<not> list_ex (\<lambda>t. GetHash L s = GetHash L t) ?l" "IsMultiValueSpork (nSporkID s)"
    using that l assms(3)
    by (auto simp: spork_list_ok_def list_all_iff list_ex_iff sort_by.set_srt [OF assms(1)] sort_by.srt_Nil_iff [OF assms(1)]
        sort_by.sorted_srt [OF assms(1)] sort_by.distinct_map_srt [OF assms(1)])
  ultimately show "spork_manager_ok L (snd (AddActiveSpork L m s))"
    using assms(2) by (auto simp: spork_manager_ok_def AddActiveSpork_def Let_def Mapping.lookup_update')
  show "sporkPubKey (snd (AddActiveSpork L m s)) = sporkPubKey m"
    by (simp add: AddActiveSpork_def Let_def)
qed

lemma spork_manager_ok_mapSporks:
  "spork_manager_ok L m \<Longrightarrow> CheckSignature L (sporkPubKey m) s \<Longrightarrow>
    spork_manager_ok L (m\<lparr>mapSporks := (mapSporks m)(GetHash L s \<mapsto> s)\<rparr>)"
  by (auto simp: spork_manager_ok_def)

lemma spork_manager_ok_sporkDisk:
  "spork_manager_ok L m \<Longrightarrow> CheckSignature L (sporkPubKey m) s \<Longrightarrow>
    spork_manager_ok L (m\<lparr>sporkDisk := (sporkDisk m)(nSporkID s \<mapsto> s)\<rparr>)"
  by (auto simp: spork_manager_ok_def)

lemma spork_manager_ok_cong:
  "mapSporksActive m' = mapSporksActive m \<Longrightarrow> sporkPubKey m' = sporkPubKey m \<Longrightarrow> sporkDisk m' = sporkDisk m \<Longrightarrow>
    mapSporks m' = mapSporks m \<Longrightarrow> spork_manager_ok L m \<Longrightarrow> spork_manager_ok L m'"
  by (simp add: spork_manager_ok_def)

lemma ExecuteSpork_ok: "spork_manager_ok L m \<Longrightarrow> spork_manager_ok L (fst (ExecuteSpork L m t now i))"
  by (rule spork_manager_ok_cong [of _ m]) (simp_all add: ExecuteSpork_def Let_def)

lemma AddActiveSpork_signed:
  assumes "sort_ok L" "spork_manager_ok L m" "CheckSignature L (sporkPubKey m) s"
  shows "spork_manager_ok L (snd (AddActiveSpork L (m\<lparr>mapSporks := (mapSporks m)(GetHash L s \<mapsto> s)\<rparr>) s))"
    "sporkPubKey (snd (AddActiveSpork L (m\<lparr>mapSporks := (mapSporks m)(GetHash L s \<mapsto> s)\<rparr>) s)) = sporkPubKey m"
  using AddActiveSpork_ok [OF assms(1) spork_manager_ok_mapSporks [OF assms(2,3)]] assms(3) by simp_all

lemma ProcessSpork_ok:
  assumes "sort_ok L" "spork_manager_ok L m"
  shows "spork_manager_ok L (fst (ProcessSpork L lite tip now m cmd))"
proof (cases cmd)
  case (Spork s)
  let ?m = "snd (AddActiveSpork L (m\<lparr>mapSporks := (mapSporks m)(GetHash L s \<mapsto> s)\<rparr>) s)"
  have "spork_manager_ok L ?m" "spork_manager_ok L (?m\<lparr>sporkDisk := (sporkDisk ?m)(nSporkID s \<mapsto> s)\<rparr>)"
    if "CheckSignature L (sporkPubKey m) s"
    using AddActiveSpork_signed [OF assms that] that by (simp_all add: spork_manager_ok_sporkDisk)
  with Spork assms(2) show ?thesis
    by (simp add: ProcessSpork_def Let_def case_prod_beta ExecuteSpork_ok split: option.splits)
qed (simp_all add: ProcessSpork_def assms(2))

lemma Sign_CheckSignature: "Sign L s key pk = Some s' \<Longrightarrow> CheckSignature L pk s'"
  by (auto simp: Sign_def CheckSignature_def signed_text_def split: if_splits option.splits)

lemma UpdateSpork_ok:
  assumes "sort_ok L" "spork_manager_ok L m"
  shows "spork_manager_ok L (fst (snd (UpdateSpork L height now m i v)))"
  using AddActiveSpork_signed(1) [OF assms] assms(2)
  by (auto simp: UpdateSpork_def Let_def Sign_CheckSignature split: option.splits)

lemma LoadSporks_ok:
  assumes "sort_ok L"
  shows "spork_manager_ok L m \<Longrightarrow> spork_manager_ok L (foldl (LoadSpork L) m is)"
proof (induction "is" arbitrary: m)
  case (Cons i "is")
  have "spork_manager_ok L (LoadSpork L m i)"
  proof (cases "sporkDisk m i")
    case (Some s)
    then have "CheckSignature L (sporkPubKey m) s" using Cons.prems by (simp add: spork_manager_ok_def)
    with Some Cons.prems AddActiveSpork_signed(1) [OF assms Cons.prems] show ?thesis by (simp add: LoadSpork_def)
  qed (simp add: LoadSpork_def Cons.prems)
  then show ?case using Cons.IH by simp
qed simp

definition CSporkManager_new :: "bytes \<Rightarrow> bytes \<Rightarrow> CSporkManager" where
  "CSporkManager_new pubKey privKey =
    \<lparr>mapSporksActive = Mapping.empty, sporkPubKey = pubKey, sporkPrivKey = privKey, mapSporks = Map.empty,
     pSporkDB = False, sporkDisk = Map.empty, nTimeExecuted = 0\<rparr>"

text \<open>The states after the start, where \<^verbatim>\<open>SetSporkAddress\<close> has set the public key once and for all.\<close>

inductive spork_reachable :: "spork_lib \<Rightarrow> CSporkManager \<Rightarrow> bool" for L where
  new: "spork_reachable L (CSporkManager_new pubKey privKey)"
| process: "spork_reachable L m \<Longrightarrow> spork_reachable L (fst (ProcessSpork L lite tip now m cmd))"
| update: "spork_reachable L m \<Longrightarrow> spork_reachable L (fst (snd (UpdateSpork L height now m i v)))"
| load: "spork_reachable L m \<Longrightarrow> spork_reachable L (LoadSporksFromDB L m)"
| allocate: "spork_reachable L m \<Longrightarrow> spork_reachable L (AllocateDatabase m)"
| deallocate: "spork_reachable L m \<Longrightarrow> spork_reachable L (DeallocateDatabase m)"
| private_key: "spork_reachable L m \<Longrightarrow> spork_reachable L (snd (SetPrivKey L m strPrivKey))"

lemma spork_reachable_ok:
  assumes "sort_ok L"
  shows "spork_reachable L m \<Longrightarrow> spork_manager_ok L m"
proof (induction rule: spork_reachable.induct)
  case (new pubKey privKey)
  then show ?case by (simp add: spork_manager_ok_def CSporkManager_new_def)
next
  case (load m)
  then show ?case by (simp add: LoadSporksFromDB_def LoadSporks_ok [OF assms])
next
  case (allocate m)
  show ?case by (rule spork_manager_ok_cong [of _ m]) (simp_all add: AllocateDatabase_def allocate.IH)
next
  case (deallocate m)
  show ?case by (rule spork_manager_ok_cong [of _ m]) (simp_all add: DeallocateDatabase_def deallocate.IH)
next
  case (private_key m strPrivKey)
  show ?case
    by (rule spork_manager_ok_cong [of _ m]) (auto simp: SetPrivKey_def private_key.IH split: option.splits)
qed (simp_all add: ProcessSpork_ok [OF assms] UpdateSpork_ok [OF assms])

text \<open>
  C27: Whatever messages peers send, and whatever the operator sets, loads or reopens, in any
  order: each active spork has at least one message, all its messages bear its identifier and a
  signature that verifies under the spork key, they are sorted by signing time without duplicates,
  and a single-value spork has exactly one; the inventory and the database hold only such messages.
\<close>

theorem spork_manager_invariant:
  assumes "sort_ok L" "spork_reachable L m"
  shows "spork_manager_ok L m"
  using assms by (rule spork_reachable_ok)

section \<open>Nodes agree whatever the order of arrival\<close>

text \<open>A message delivered by a peer to a node with a chain and an open database.\<close>

definition deliver :: "spork_lib \<Rightarrow> CSporkManager \<Rightarrow> tip \<times> int \<times> CSporkMessage \<Rightarrow> CSporkManager" where
  "deliver L m e = (case e of (t, now, s) \<Rightarrow> fst (ProcessSpork L False (Some t) now m (Spork s)))"

definition message :: "tip \<times> int \<times> CSporkMessage \<Rightarrow> CSporkMessage" where
  "message e = snd (snd e)"

lemma message_simp [simp]: "message (t, now, s) = s"
  by (simp add: message_def)

text \<open>The reference: all messages of a multi-value spork by time, or the latest of a single-value one.\<close>

definition settled :: "int \<Rightarrow> CSporkMessage list \<Rightarrow> CSporkMessage list option" where
  "settled i ms =
    (let l = sort_key nTimeSigned (filter (\<lambda>s. nSporkID s = i) (remdups ms))
     in if l = [] then None else Some (if IsMultiValueSpork i then l else [last l]))"

definition separate :: "spork_lib \<Rightarrow> CSporkMessage set \<Rightarrow> bool" where
  "separate L S \<longleftrightarrow> inj_on (GetHash L) S \<and> (\<forall>i. inj_on nTimeSigned {s \<in> S. nSporkID s = i})"

lemma separate_subset: "separate L T \<Longrightarrow> S \<subseteq> T \<Longrightarrow> separate L S"
  unfolding separate_def by (auto 0 3 intro: inj_on_subset)

lemma settled_set:
  assumes "separate L (set ms)" "set ms = set ms'"
  shows "settled i ms = settled i ms'"
proof -
  have "inj_on nTimeSigned (set (filter (\<lambda>s. nSporkID s = i) (remdups ms)))" using assms(1) by (simp add: separate_def)
  then have "sort_key nTimeSigned (filter (\<lambda>s. nSporkID s = i) (remdups ms)) =
      sort_key nTimeSigned (filter (\<lambda>s. nSporkID s = i) (remdups ms'))"
    using assms(2) by (intro sort_key_by.srt_unique) simp_all
  then show ?thesis by (simp add: settled_def)
qed

lemma last_sort_key:
  assumes "inj_on f (set xs)" "x \<in> set xs" "\<And>y. y \<in> set xs \<Longrightarrow> f y \<le> (f x :: int)"
  shows "last (sort_key f xs) = x"
proof -
  have ne: "sort_key f xs \<noteq> []" using assms(2) by (metis empty_iff empty_set set_sort)
  then have mem: "last (sort_key f xs) \<in> set xs" by (metis last_in_set set_sort)
  obtain i where i: "i < length xs" "sort_key f xs ! i = x" using assms(2) by (metis in_set_conv_nth length_sort set_sort)
  have "map f (sort_key f xs) ! i \<le> map f (sort_key f xs) ! (length xs - 1)"
    using i by (intro sorted_nth_mono sorted_sort_key) simp_all
  then have "f x \<le> f (last (sort_key f xs))" using i ne by (simp add: last_conv_nth)
  with assms mem show ?thesis by (metis inj_onD order_antisym)
qed

lemma deliver_fields:
  "sporkPubKey (deliver L m e) = sporkPubKey m" "pSporkDB (deliver L m e) = pSporkDB m"
  by (simp_all add: deliver_def ProcessSpork_def AddActiveSpork_def ExecuteSpork_def Let_def case_prod_beta split: prod.splits)

lemma deliver_lookup:
  assumes "CheckSignature L (sporkPubKey m) s" "pSporkDB m"
  shows "Mapping.lookup (mapSporksActive (deliver L m (t, now, s))) =
    (let l = Mapping.lookup_default [] (mapSporksActive m) (nSporkID s); old = Mapping.lookup (mapSporksActive m)
     in if IsMultiValueSpork (nSporkID s)
        then old(nSporkID s \<mapsto> (if list_ex (\<lambda>t. GetHash L s = GetHash L t) l then l else std_sort L (l @ [s])))
        else if IsNewerSpork m s then old(nSporkID s \<mapsto> [s]) else old)"
  using assms
  by (auto simp: fun_eq_iff deliver_def ProcessSpork_def AddActiveSpork_def ExecuteSpork_def Let_def Mapping.lookup_update'
      case_prod_beta)

lemma settled_snoc_multi:
  assumes sort_ok: "sort_ok L" and sep: "separate L (insert s (set ms))" and multi: "IsMultiValueSpork (nSporkID s)"
    and l: "l = (case settled (nSporkID s) ms of None \<Rightarrow> [] | Some l \<Rightarrow> l)"
  shows "settled (nSporkID s) (ms @ [s]) = Some (if list_ex (\<lambda>t. GetHash L s = GetHash L t) l then l else std_sort L (l @ [s]))"
proof -
  let ?f = "filter (\<lambda>t. nSporkID t = nSporkID s)"
  have l': "l = sort_key nTimeSigned (?f (remdups ms))" using l multi by (simp add: settled_def Let_def)
  have mem: "list_ex (\<lambda>t. GetHash L s = GetHash L t) l \<longleftrightarrow> s \<in> set ms"
    using sep by (auto simp: l' list_ex_iff separate_def inj_on_def)
  show ?thesis
  proof (cases "s \<in> set ms")
    case True
    then have "settled (nSporkID s) (ms @ [s]) = settled (nSporkID s) ms"
      using sep by (intro settled_set [of L]) (auto simp: insert_absorb)
    moreover have "l \<noteq> []" using True mem by auto
    ultimately show ?thesis using True mem multi l' by (simp add: settled_def Let_def)
  next
    case False
    have "inj_on nTimeSigned {t \<in> insert s (set ms). nSporkID t = nSporkID s}" using sep by (simp add: separate_def)
    then have "inj_on nTimeSigned (set (l @ [s]))" by (rule inj_on_subset) (auto simp: l')
    then have "std_sort L (l @ [s]) = sort_key nTimeSigned (?f (remdups (ms @ [s])))"
      using False l' by (intro sort_by.srt_unique [OF sort_ok]) auto
    moreover have "std_sort L (l @ [s]) \<noteq> []" by (simp add: sort_by.srt_Nil_iff [OF sort_ok])
    ultimately show ?thesis using False mem multi by (simp add: settled_def Let_def)
  qed
qed

lemma settled_snoc_single:
  assumes "separate L (insert s (set ms))" "\<not> IsMultiValueSpork (nSporkID s)"
  shows "settled (nSporkID s) (ms @ [s]) =
    (case settled (nSporkID s) ms of
       None \<Rightarrow> Some [s] | Some l \<Rightarrow> if nTimeSigned (last l) < nTimeSigned s then Some [s] else Some l)"
proof -
  let ?f = "\<lambda>ms. filter (\<lambda>t. nSporkID t = nSporkID s) (remdups ms)"
  let ?l = "last (sort_key nTimeSigned (?f ms))"
  have inj: "inj_on nTimeSigned (set (?f (ms @ [s])))" using assms(1) by (simp add: separate_def)
  have snoc: "settled (nSporkID s) (ms @ [s]) = Some [x]"
    if "x \<in> insert s (set (?f ms))" "\<And>y. y \<in> insert s (set (?f ms)) \<Longrightarrow> nTimeSigned y \<le> nTimeSigned x" for x
  proof -
    have mem: "x \<in> set (?f (ms @ [s]))" using that(1) by auto
    then have "sort_key nTimeSigned (?f (ms @ [s])) \<noteq> []" by (metis empty_iff empty_set set_sort)
    moreover have "last (sort_key nTimeSigned (?f (ms @ [s]))) = x"
      using that by (intro last_sort_key [OF inj mem]) auto
    ultimately show ?thesis using assms(2) by (simp add: settled_def Let_def)
  qed
  show ?thesis
  proof (cases "?f ms = []")
    case True
    then show ?thesis using snoc [of s] by (simp add: settled_def)
  next
    case False
    then have ne: "sort_key nTimeSigned (?f ms) \<noteq> []" by (metis set_empty set_sort)
    then have mem: "?l \<in> set (?f ms)" by (metis last_in_set set_sort)
    have top: "nTimeSigned y \<le> nTimeSigned ?l" if "y \<in> set (?f ms)" for y
    proof -
      have "set (map nTimeSigned (sort_key nTimeSigned (?f ms))) = nTimeSigned ` set (?f ms)" by simp
      then have "nTimeSigned y \<in> set (map nTimeSigned (sort_key nTimeSigned (?f ms)))" using that by blast
      then have "nTimeSigned y \<le> last (map nTimeSigned (sort_key nTimeSigned (?f ms)))"
        using sorted_sort_key [of nTimeSigned "?f ms"] by (metis in_set_conv_nth last_conv_nth length_pos_if_in_set
          diff_less length_greater_0_conv less_Suc_eq_le Suc_pred' sorted_nth_mono zero_less_one)
      with ne show ?thesis by (simp add: last_map)
    qed
    have old: "settled (nSporkID s) ms = Some [?l]" using ne assms(2) by (simp add: settled_def Let_def)
    show ?thesis
    proof (cases "nTimeSigned ?l < nTimeSigned s")
      case True
      with top have "settled (nSporkID s) (ms @ [s]) = Some [s]" by (intro snoc) force+
      with True old show ?thesis by simp
    next
      case False
      with top mem have "settled (nSporkID s) (ms @ [s]) = Some [?l]" by (intro snoc) force+
      with False old show ?thesis by simp
    qed
  qed
qed

lemma deliver_settled:
  assumes "sort_ok L" "sporkPubKey m = pk" "pSporkDB m"
    and "Mapping.lookup (mapSporksActive m) = (\<lambda>i. settled i ms)" "separate L (insert s (set ms))" "CheckSignature L pk s"
  shows "Mapping.lookup (mapSporksActive (deliver L m (t, now, s))) = (\<lambda>i. settled i (ms @ [s]))"
proof
  fix i
  have other: "settled i (ms @ [s]) = settled i ms" if "i \<noteq> nSporkID s"
  proof -
    have "filter (\<lambda>t. nSporkID t = i) (remdups (ms @ [s])) = remdups (filter (\<lambda>t. nSporkID t = i) (ms @ [s]))"
      by (rule remdups_filter [symmetric])
    also have "\<dots> = filter (\<lambda>t. nSporkID t = i) (remdups ms)" using that by (simp add: remdups_filter)
    finally show ?thesis by (simp add: settled_def)
  qed
  note l = deliver_lookup [of L m s t now] settled_snoc_multi [OF assms(1,5) _ refl] settled_snoc_single [OF assms(5)]
  show "Mapping.lookup (mapSporksActive (deliver L m (t, now, s))) i = settled i (ms @ [s])"
    using assms other
    by (cases "i = nSporkID s"; cases "IsMultiValueSpork (nSporkID s)")
       (simp_all add: l Let_def Mapping.lookup_default_def IsNewerSpork_def split: option.splits)
qed

lemma deliver_all:
  assumes "sort_ok L"
  shows "separate L (message ` set evs) \<Longrightarrow> \<forall>e\<in>set evs. CheckSignature L pk (message e) \<Longrightarrow>
    m = foldl (deliver L) (AllocateDatabase (CSporkManager_new pk sk)) evs \<Longrightarrow>
    sporkPubKey m = pk \<and> pSporkDB m \<and> Mapping.lookup (mapSporksActive m) = (\<lambda>i. settled i (map message evs))"
proof (induction evs arbitrary: m rule: rev_induct)
  case Nil
  then show ?case by (simp add: AllocateDatabase_def CSporkManager_new_def settled_def Mapping.lookup_empty fun_eq_iff)
next
  case (snoc e evs)
  let ?m = "foldl (deliver L) (AllocateDatabase (CSporkManager_new pk sk)) evs"
  obtain t now s where e: "e = (t, now, s)" by (cases e) auto
  have "separate L (message ` set evs)"
    by (rule separate_subset [OF snoc.prems(1)]) auto
  then have ih: "sporkPubKey ?m = pk" "pSporkDB ?m" "Mapping.lookup (mapSporksActive ?m) = (\<lambda>i. settled i (map message evs))"
    using snoc.IH [of ?m] snoc.prems(2) by simp_all
  have "separate L (insert s (set (map message evs)))" "CheckSignature L pk s"
    using snoc.prems(1,2) by (simp_all add: e)
  from deliver_settled [OF assms ih this] ih(1,2) snoc.prems(3) show ?case
    by (simp add: deliver_fields e)
qed

text \<open>
  C25: Two nodes that start from scratch and receive the same set of validly signed spork messages,
  in any order, any number of times and at any moments and chain heights, end with the same active sporks,
  provided the messages have different hashes and those of one spork different signing times. What they
  hold is the message history by time for a multi-value spork and the latest message for the others.
\<close>

theorem spork_convergence:
  assumes "sort_ok L" "separate L (message ` set evs)" "message ` set evs = message ` set evs'"
    and "\<forall>e\<in>set evs. CheckSignature L pk (message e)"
    and "m = foldl (deliver L) (AllocateDatabase (CSporkManager_new pk sk)) evs"
    and "m' = foldl (deliver L) (AllocateDatabase (CSporkManager_new pk sk')) evs'"
  shows "Mapping.lookup (mapSporksActive m) i = Mapping.lookup (mapSporksActive m') i \<and>
    Mapping.lookup (mapSporksActive m) i = settled i (map message evs)"
proof -
  have "\<forall>e\<in>set evs'. CheckSignature L pk (message e)" using assms(3,4) by (metis imageE imageI)
  with assms deliver_all [OF assms(1), of evs pk m sk] deliver_all [OF assms(1), of evs' pk m' sk']
    settled_set [of L "map message evs" "map message evs'"]
  show ?thesis by simp
qed

section \<open>Values in force\<close>

lemma active_index_filter:
  "active_index act h t i n es =
    (case filter (\<lambda>j. h \<ge> act (fst (es ! j)) \<and> snd (es ! j) < t) [0..<length es] of [] \<Rightarrow> n | js \<Rightarrow> int (i + last js))"
proof (induction es arbitrary: i n)
  case (Cons e es)
  have shift: "filter (\<lambda>j. h \<ge> act (fst ((e # es) ! j)) \<and> snd ((e # es) ! j) < t) [0..<length (e # es)] =
      (if h \<ge> act (fst e) \<and> snd e < t then [0] else []) @
      map Suc (filter (\<lambda>j. h \<ge> act (fst (es ! j)) \<and> snd (es ! j) < t) [0..<length es])"
    by (simp add: upt_conv_Cons map_Suc_upt [symmetric] filter_map o_def del: upt_Suc)
  show ?case unfolding shift using Cons.IH
    by (cases "filter (\<lambda>j. h \<ge> act (fst (es ! j)) \<and> snd (es ! j) < t) [0..<length es]") (auto simp: last_map)
qed simp

text \<open>
  The value in force at a height and time is that of the last entry of the list whose activation
  height is reached and whose signing time lies before the block; without one it is the default. The entries
  are those of the spork's messages in the order of the list.
\<close>

theorem GetActiveMultiValueSpork_last:
  "GetActiveMultiValueSpork act dflt (ConvertMultiValueSporkVector FromString ms) h t =
    (case filter (\<lambda>s. h \<ge> act (FromString (strValue s)) \<and> nTimeSigned s < t) ms of
       [] \<Rightarrow> dflt | ss \<Rightarrow> FromString (strValue (last ss)))"
proof -
  let ?P = "\<lambda>s. h \<ge> act (FromString (strValue s)) \<and> nTimeSigned s < t"
  let ?js = "filter (\<lambda>j. ?P (ms ! j)) [0..<length ms]"
  have eq: "filter ?P ms = map ((!) ms) ?js"
    using filter_map [of ?P "(!) ms" "[0..<length ms]"] by (simp add: map_nth o_def)
  have js: "filter (\<lambda>j. h \<ge> act (fst (ConvertMultiValueSporkVector FromString ms ! j)) \<and>
      snd (ConvertMultiValueSporkVector FromString ms ! j) < t) [0..<length (ConvertMultiValueSporkVector FromString ms)] = ?js"
    by (rule filter_cong) (auto simp: ConvertMultiValueSporkVector_def)
  show ?thesis
  proof (cases "?js = []")
    case True
    then show ?thesis unfolding GetActiveMultiValueSpork_def active_index_filter js eq by simp
  next
    case False
    then have "last ?js < length ms" using last_in_set [OF False] by auto
    with False show ?thesis
      unfolding GetActiveMultiValueSpork_def active_index_filter js eq
      by (auto simp: ConvertMultiValueSporkVector_def last_map split: list.split)
  qed
qed

section \<open>What a signature covers\<close>

text \<open>A message that switches superblocks off, and one nobody signed.\<close>

definition genuine :: "bytes \<Rightarrow> CSporkMessage" where
  "genuine sig = \<lparr>nSporkID = SPORK_9_SUPERBLOCKS_ENABLED, strValue = ''4070908800'', nTimeSigned = 1600000000, vchSig = sig\<rparr>"

definition forged :: "bytes \<Rightarrow> CSporkMessage" where
  "forged sig = \<lparr>nSporkID = SPORK_9_SUPERBLOCKS_ENABLED, strValue = ''40'', nTimeSigned = 709088001600000000, vchSig = sig\<rparr>"

lemma decimal_times:
  "decimal 1600000000 = ''1600000000''" "decimal 709088001600000000 = ''709088001600000000''"
  by (simp_all add: decimal_def digits.simps char_of_def bit_Suc_0_iff)

lemma forged_text: "casts L = decimal_text \<Longrightarrow> signed_text L (forged sig) = signed_text L (genuine sig)"
  by (simp add: signed_text_def genuine_def forged_def decimal_text_def decimal_times)

lemma forged_values:
  "int64_of_text decimal_text ''4070908800'' = Some 4070908800" "int64_of_text decimal_text ''40'' = Some 40"
  by (simp_all add: decimal_text_def read_decimal_def)


section \<open>Instances\<close>

text \<open>A library whose signatures are the bytes of the key, for the examples.\<close>

definition example_lib :: spork_lib where
  "example_lib = \<lparr>casts = decimal_text, SerializeHash = (\<lambda>i v t. word_of_int (i + 100000 * t)), key_valid = (\<lambda>k. True),
    SignMessage = (\<lambda>s k. Some k), VerifyMessage = (\<lambda>k sig s. sig = k),
    parse_pubkey = (\<lambda>s. None), GetKeysFromSecret = (\<lambda>s. None), key_id = (\<lambda>k. k), std_sort = sort_key nTimeSigned\<rparr>"

lemma example_lib_sort: "sort_ok example_lib"
  by (simp add: example_lib_def sort_key_by.sort_by_axioms)

definition example_msg :: "int \<Rightarrow> CSporkMessage" where
  "example_msg t = \<lparr>nSporkID = SPORK_13_BLOCK_PAYMENTS, strValue = ''38;45;16;0;1;100'', nTimeSigned = t, vchSig = [1]\<rparr>"

theorem spork_manager_invariant_witness:
  "spork_manager_ok example_lib (fst (ProcessSpork example_lib False (Some (5, 6)) 7
     (AllocateDatabase (CSporkManager_new [1] [2])) (Spork (example_msg 3))))"
  by (rule spork_manager_invariant [OF example_lib_sort]) (intro spork_reachable.intros)

lemma example_separate: "separate example_lib {example_msg 1, example_msg 2}"
  by (auto simp: separate_def inj_on_def GetHash_def example_lib_def example_msg_def spork_ids)

theorem spork_convergence_witness:
  "let evs = [((5, 6), 7, example_msg 1), ((5, 6), 8, example_msg 2)];
    evs' = [((1, 6), 7, example_msg 2), ((1, 6), 9, example_msg 1), ((2, 6), 9, example_msg 2)];
    m0 = AllocateDatabase (CSporkManager_new [1] [])
   in Mapping.lookup (mapSporksActive (foldl (deliver example_lib) m0 evs)) SPORK_13_BLOCK_PAYMENTS =
      Mapping.lookup (mapSporksActive (foldl (deliver example_lib) m0 evs')) SPORK_13_BLOCK_PAYMENTS"
proof -
  have sep: "separate example_lib (message ` set [((5, 6), 7, example_msg 1), ((5, 6), 8, example_msg 2)])"
    using example_separate by simp
  have signed: "\<forall>e\<in>set [((5, 6), 7, example_msg 1), ((5, 6), 8, example_msg 2)]. CheckSignature example_lib [1] (message e)"
    by (simp add: CheckSignature_def example_lib_def example_msg_def)
  show ?thesis
    unfolding Let_def
    by (rule conjunct1 [OF spork_convergence [OF example_lib_sort sep _ signed refl refl]]) auto
qed


end
