(* ===== verification/Subsidies.thy ===== *)
theory Subsidies
  imports Chain Spork_Manager "HOL-Library.Signed_Division"
begin

text \<open>
  Block rewards: the legacy schedule (\<^verbatim>\<open>LegacyBlockSubsidies.cpp\<close>), the heights of lottery and treasury blocks
  (\<^verbatim>\<open>SuperblockHeightValidator.cpp\<close>) and the rewards that superblocks pay for a whole cycle
  (\<^verbatim>\<open>BlockSubsidyProvider.cpp\<close>). Amounts are integers; the bounds theorem shows that on the main network they
  fit the 64 bits of \<^verbatim>\<open>CAmount\<close>. Heights are not negative.
\<close>

section \<open>Chain parameters and rewards\<close>

definition COIN :: int where "COIN = 100000000"

record CChainParams =
  premineAmt :: int
  nSubsidyHalvingInterval :: int
  nMaxMoneyOut :: int
  nLastPOWBlock :: int
  nLotteryBlockStartBlock :: int
  nLotteryBlockCycle :: int
  nTreasuryPaymentsStartBlock :: int
  nTreasuryPaymentsCycle :: int

definition CMainParams :: CChainParams where
  "CMainParams = \<lparr>premineAmt = 617222416 * COIN, nSubsidyHalvingInterval = 60 * 24 * 365, nMaxMoneyOut = 2534320700 * COIN,
    nLastPOWBlock = 100, nLotteryBlockStartBlock = 101, nLotteryBlockCycle = 60 * 24 * 7, nTreasuryPaymentsStartBlock = 101,
    nTreasuryPaymentsCycle = 60 * 24 * 7 + 1\<rparr>"

definition CBetaParams :: CChainParams where
  "CBetaParams = \<lparr>premineAmt = 2534320700, nSubsidyHalvingInterval = 1000, nMaxMoneyOut = 2535000000 * COIN,
    nLastPOWBlock = 56700, nLotteryBlockStartBlock = 100, nLotteryBlockCycle = 60 * 24 * 7, nTreasuryPaymentsStartBlock = 100,
    nTreasuryPaymentsCycle = 50\<rparr>"

definition CTestNetParams :: CChainParams where
  "CTestNetParams = CMainParams\<lparr>premineAmt := 617222416 * COIN, nSubsidyHalvingInterval := 1000, nMaxMoneyOut := 2535000000 * COIN,
    nLastPOWBlock := 100, nLotteryBlockStartBlock := 101, nLotteryBlockCycle := 200, nTreasuryPaymentsStartBlock := 102,
    nTreasuryPaymentsCycle := 201\<rparr>"

definition CRegTestParams :: CChainParams where
  "CRegTestParams = CTestNetParams\<lparr>premineAmt := 1250 * COIN, nSubsidyHalvingInterval := 100, nLotteryBlockStartBlock := 101,
    nLotteryBlockCycle := 10, nTreasuryPaymentsStartBlock := 102, nTreasuryPaymentsCycle := 50\<rparr>"

record CBlockRewards =
  rwStake :: int
  rwMasternode :: int
  rwTreasury :: int
  rwCharity :: int
  rwLottery :: int
  rwProposals :: int

definition total :: "CBlockRewards \<Rightarrow> int" where
  "total r = rwStake r + rwMasternode r + rwTreasury r + rwCharity r + rwLottery r + rwProposals r"

section \<open>The legacy schedule\<close>

text \<open>The global state the schedule reads.\<close>

record subsidy_env =
  slib :: spork_lib
  sporkManager :: CSporkManager
  chainActive :: CChain
  adjustedTime :: int

datatype reward_error = AssertionFailed | SignedOverflow

definition nBlockTime :: "subsidy_env \<Rightarrow> int \<Rightarrow> int" where
  "nBlockTime E h = (case chain_at (chainActive E) h of Some b \<Rightarrow> uint (nTime (data b)) | None \<Rightarrow> adjustedTime E)"

definition BlockSubsidy :: "int \<Rightarrow> CChainParams \<Rightarrow> int" where
  "BlockSubsidy h P =
    (if h = 0 then 50 * COIN
     else if h = 1 then premineAmt P
     else max (1250 - 100 * max (h div nSubsidyHalvingInterval P - 1) 0) 250 * COIN)"

definition Legacy_GetFullBlockValue :: "subsidy_env \<Rightarrow> int \<Rightarrow> CChainParams \<Rightarrow> int" where
  "Legacy_GetFullBlockValue E h P =
    (if IsSporkActive (slib E) (adjustedTime E) (sporkManager E) SPORK_15_BLOCK_VALUE = Some True then
       let vals = ConvertMultiValueSporkVector (BlockSubsiditySporkValue_FromString (casts (slib E)))
             (GetMultiValueSpork (sporkManager E) SPORK_15_BLOCK_VALUE);
           activeSpork = GetActiveMultiValueSpork bsActivationBlockHeight BlockSubsiditySporkValue_new vals h (nBlockTime E h)
       in if BlockSubsiditySporkValue_IsValid activeSpork \<and>
            bsActivationBlockHeight activeSpork mod nSubsidyHalvingInterval P = 0
          then nBlockSubsidity activeSpork * COIN
          else BlockSubsidy h P
     else BlockSubsidy h P)"

definition percentages :: "int \<Rightarrow> int \<Rightarrow> int \<Rightarrow> int \<Rightarrow> int \<Rightarrow> int \<Rightarrow> int \<Rightarrow> CBlockRewards" where
  "percentages nSubsidy nLotteryPart nStake nMasternode nTreasury nProposals nCharity =
    (let helper = (\<lambda>p. (nSubsidy * p) sdiv 100)
     in \<lparr>rwStake = helper nStake, rwMasternode = helper nMasternode, rwTreasury = helper nTreasury,
         rwCharity = helper nCharity, rwLottery = nLotteryPart, rwProposals = helper nProposals\<rparr>)"

definition Legacy_GetBlockSubsidity :: "subsidy_env \<Rightarrow> int \<Rightarrow> CChainParams \<Rightarrow> reward_error + CBlockRewards" where
  "Legacy_GetBlockSubsidity E h P =
    (let nSubsidy = Legacy_GetFullBlockValue E h P
     in if h \<le> nLastPOWBlock P then
          Inr \<lparr>rwStake = nSubsidy, rwMasternode = 0, rwTreasury = 0, rwCharity = 0, rwLottery = 0, rwProposals = 0\<rparr>
        else
          let nLotteryPart = (if h \<ge> nLotteryBlockStartBlock P then 50 * COIN else 0)
          in if \<not> nSubsidy \<ge> nLotteryPart then Inl AssertionFailed
             else
               let nSubsidy = nSubsidy - nLotteryPart;
                   dflt = percentages nSubsidy nLotteryPart 38 45 16 0 1
               in if IsSporkActive (slib E) (adjustedTime E) (sporkManager E) SPORK_13_BLOCK_PAYMENTS = Some True then
                    let vals = ConvertMultiValueSporkVector (BlockPaymentSporkValue_FromString (casts (slib E)))
                          (GetMultiValueSpork (sporkManager E) SPORK_13_BLOCK_PAYMENTS);
                        s = GetActiveMultiValueSpork bpActivationBlockHeight BlockPaymentSporkValue_new vals h (nBlockTime E h)
                    in case BlockPaymentSporkValue_IsValid s of
                         None \<Rightarrow> Inl SignedOverflow
                       | Some valid \<Rightarrow>
                           if valid \<and> bpActivationBlockHeight s mod nSubsidyHalvingInterval P = 0
                           then Inr (percentages nSubsidy nLotteryPart (nStakeReward s) (nMasternodeReward s) (nTreasuryReward s)
                             (nProposalsReward s) (nCharityReward s))
                           else Inr dflt
                  else Inr dflt)"

definition Legacy_IsValidLotteryBlockHeight :: "int \<Rightarrow> CChainParams \<Rightarrow> bool" where
  "Legacy_IsValidLotteryBlockHeight h P \<longleftrightarrow> h \<ge> nLotteryBlockStartBlock P \<and> h mod nLotteryBlockCycle P = 0"

definition Legacy_IsValidTreasuryBlockHeight :: "int \<Rightarrow> CChainParams \<Rightarrow> bool" where
  "Legacy_IsValidTreasuryBlockHeight h P \<longleftrightarrow> h \<ge> nTreasuryPaymentsStartBlock P \<and> h mod nTreasuryPaymentsCycle P = 0"

definition Legacy_GetTreasuryReward :: "CBlockRewards \<Rightarrow> CChainParams \<Rightarrow> int" where
  "Legacy_GetTreasuryReward r P = rwTreasury r * nTreasuryPaymentsCycle P"

definition Legacy_GetCharityReward :: "CBlockRewards \<Rightarrow> CChainParams \<Rightarrow> int" where
  "Legacy_GetCharityReward r P = rwCharity r * nTreasuryPaymentsCycle P"

definition Legacy_GetLotteryReward :: "CBlockRewards \<Rightarrow> CChainParams \<Rightarrow> int" where
  "Legacy_GetLotteryReward r P = rwLottery r * nLotteryBlockCycle P"

section \<open>Superblock heights\<close>

definition transitionHeight :: "CChainParams \<Rightarrow> int" where
  "transitionHeight P = nLotteryBlockCycle P * nTreasuryPaymentsCycle P"

definition superblockCycleLength :: "CChainParams \<Rightarrow> int" where
  "superblockCycleLength P = nLotteryBlockCycle P"

definition IsValidLotteryBlockHeight :: "CChainParams \<Rightarrow> int \<Rightarrow> bool" where
  "IsValidLotteryBlockHeight P h \<longleftrightarrow>
    (if h < transitionHeight P then Legacy_IsValidLotteryBlockHeight h P
     else (h - transitionHeight P) mod superblockCycleLength P = 0)"

definition IsValidTreasuryBlockHeight :: "CChainParams \<Rightarrow> int \<Rightarrow> bool" where
  "IsValidTreasuryBlockHeight P h \<longleftrightarrow>
    (if h < transitionHeight P then Legacy_IsValidTreasuryBlockHeight h P
     else IsValidLotteryBlockHeight P (h - 1))"

definition GetTreasuryBlockPaymentCycle :: "CChainParams \<Rightarrow> int \<Rightarrow> int" where
  "GetTreasuryBlockPaymentCycle P h =
    (if h < transitionHeight P then nTreasuryPaymentsCycle P
     else if h \<le> transitionHeight P + 1 then nTreasuryPaymentsCycle P + 1 else superblockCycleLength P)"

definition GetLotteryBlockPaymentCycle :: "CChainParams \<Rightarrow> int \<Rightarrow> int" where
  "GetLotteryBlockPaymentCycle P h = (if h < transitionHeight P then nLotteryBlockCycle P else superblockCycleLength P)"

section \<open>Rewards of superblocks\<close>

definition updateTreasuryReward ::
  "subsidy_env \<Rightarrow> CChainParams \<Rightarrow> int \<Rightarrow> CBlockRewards \<Rightarrow> bool \<Rightarrow> reward_error + CBlockRewards" where
  "updateTreasuryReward E P h r isTreasuryBlock =
    (let r = (if \<not> isTreasuryBlock then r\<lparr>rwTreasury := 0, rwCharity := 0\<rparr> else r);
         priorTreasuryBlockHeight = h - GetTreasuryBlockPaymentCycle P h
     in case (if isTreasuryBlock then Legacy_GetBlockSubsidity E priorTreasuryBlockHeight P else Inr r) of
          Inl e \<Rightarrow> Inl e
        | Inr prior \<Rightarrow>
            let numberOfSubsidyIntervals = h div nSubsidyHalvingInterval P;
                priorRewardWeight = numberOfSubsidyIntervals * nSubsidyHalvingInterval P - priorTreasuryBlockHeight;
                currentRewardWeight = h - numberOfSubsidyIntervals * nSubsidyHalvingInterval P
            in Inr (r\<lparr>rwTreasury := rwTreasury prior * priorRewardWeight + rwTreasury r * currentRewardWeight,
                      rwCharity := rwCharity prior * priorRewardWeight + rwCharity r * currentRewardWeight\<rparr>))"

definition updateLotteryReward ::
  "subsidy_env \<Rightarrow> CChainParams \<Rightarrow> int \<Rightarrow> CBlockRewards \<Rightarrow> bool \<Rightarrow> reward_error + CBlockRewards" where
  "updateLotteryReward E P h r isLotteryBlock =
    (let r = (if \<not> isLotteryBlock then r\<lparr>rwLottery := 0\<rparr> else r);
         priorLotteryBlockHeight = h - GetLotteryBlockPaymentCycle P h
     in case (if isLotteryBlock then Legacy_GetBlockSubsidity E priorLotteryBlockHeight P else Inr r) of
          Inl e \<Rightarrow> Inl e
        | Inr prior \<Rightarrow>
            let numberOfSubsidyIntervals = h div nSubsidyHalvingInterval P;
                priorRewardWeight = numberOfSubsidyIntervals * nSubsidyHalvingInterval P - priorLotteryBlockHeight;
                currentRewardWeight = h - numberOfSubsidyIntervals * nSubsidyHalvingInterval P
            in Inr (r\<lparr>rwLottery := rwLottery prior * priorRewardWeight + rwLottery r * currentRewardWeight\<rparr>))"

definition GetBlockSubsidity :: "subsidy_env \<Rightarrow> CChainParams \<Rightarrow> int \<Rightarrow> reward_error + CBlockRewards" where
  "GetBlockSubsidity E P h =
    (case Legacy_GetBlockSubsidity E h P of
       Inl e \<Rightarrow> Inl e
     | Inr r \<Rightarrow> case updateTreasuryReward E P h r (IsValidTreasuryBlockHeight P h) of
         Inl e \<Rightarrow> Inl e
       | Inr r \<Rightarrow> updateLotteryReward E P h r (IsValidLotteryBlockHeight P h))"

definition GetFullBlockValue :: "subsidy_env \<Rightarrow> CChainParams \<Rightarrow> int \<Rightarrow> reward_error + int" where
  "GetFullBlockValue E P h = (case GetBlockSubsidity E P h of Inl e \<Rightarrow> Inl e | Inr r \<Rightarrow> Inr (total r))"

section \<open>Lottery and treasury blocks never coincide\<close>

text \<open>What the heights rely on; the main and the test network satisfy it, the regression test network does not.\<close>

definition params_ok :: "CChainParams \<Rightarrow> bool" where
  "params_ok P \<longleftrightarrow> 1 \<le> nLastPOWBlock P \<and> nLastPOWBlock P < nLotteryBlockStartBlock P \<and>
    nLotteryBlockStartBlock P \<le> nTreasuryPaymentsStartBlock P \<and>
    nTreasuryPaymentsStartBlock P \<le> nTreasuryPaymentsCycle P \<and> nLotteryBlockStartBlock P \<le> nLotteryBlockCycle P \<and>
    1 < nLotteryBlockCycle P \<and> 1 < nTreasuryPaymentsCycle P \<and>
    coprime (nLotteryBlockCycle P) (nTreasuryPaymentsCycle P) \<and>
    nTreasuryPaymentsCycle P + 1 \<le> nSubsidyHalvingInterval P \<and> nLotteryBlockCycle P < nSubsidyHalvingInterval P"

lemma params_ok_networks: "params_ok CMainParams" "params_ok CTestNetParams"
proof -
  have "coprime (10080 :: int) 10081" "coprime (200 :: int) 201" 
    using coprime_add_one_right [of "10080 :: int"] coprime_add_one_right [of "200 :: int"] by simp_all
  then show "params_ok CMainParams" "params_ok CTestNetParams"
    by (simp_all add: params_ok_def CMainParams_def CTestNetParams_def)
qed

lemma transitionHeight_pos: "params_ok P \<Longrightarrow> 0 < transitionHeight P"
  by (simp add: params_ok_def transitionHeight_def)

lemma dvd_transition: "nLotteryBlockCycle P dvd transitionHeight P" "nTreasuryPaymentsCycle P dvd transitionHeight P"
  by (simp_all add: transitionHeight_def)

lemma cycles_le_transition:
  assumes "params_ok P"
  shows "nLotteryBlockCycle P \<le> transitionHeight P" "nTreasuryPaymentsCycle P \<le> transitionHeight P"
  using assms mult_left_mono [of 1 "nTreasuryPaymentsCycle P" "nLotteryBlockCycle P"]
    mult_right_mono [of 1 "nLotteryBlockCycle P" "nTreasuryPaymentsCycle P"]
  by (simp_all add: params_ok_def transitionHeight_def)

lemma same_multiple:
  assumes "c dvd h - k" "k - c < h" "h < k + (c :: int)"
  shows "h = k"
proof (rule linorder_cases [of h k])
  assume "h < k"
  then have "c \<le> k - h" using assms(1) by (intro zdvd_imp_le) (simp_all add: dvd_diff_commute)
  with assms(2) show ?thesis by simp
next
  assume "k < h"
  then have "c \<le> h - k" using assms(1) by (intro zdvd_imp_le) simp_all
  with assms(3) show ?thesis by simp
qed

lemma lottery_heights:
  assumes "params_ok P"
  shows "IsValidLotteryBlockHeight P h \<longleftrightarrow> nLotteryBlockStartBlock P \<le> h \<and> nLotteryBlockCycle P dvd h"
proof -
  have "nLotteryBlockCycle P \<le> transitionHeight P" using cycles_le_transition(1) [OF assms] .
  moreover have "nLotteryBlockCycle P dvd h - transitionHeight P \<longleftrightarrow> nLotteryBlockCycle P dvd h"
    using dvd_transition(1) by (simp add: dvd_diff_left_iff)
  ultimately show ?thesis
    using assms by (auto simp: IsValidLotteryBlockHeight_def Legacy_IsValidLotteryBlockHeight_def superblockCycleLength_def
        params_ok_def dvd_eq_mod_eq_0)
qed

lemma treasury_heights:
  assumes "params_ok P"
  shows "IsValidTreasuryBlockHeight P h \<longleftrightarrow>
    (if h < transitionHeight P then nTreasuryPaymentsStartBlock P \<le> h \<and> nTreasuryPaymentsCycle P dvd h
     else transitionHeight P < h \<and> nLotteryBlockCycle P dvd h - 1)"
proof (cases "h = transitionHeight P")
  case True
  have "\<not> nLotteryBlockCycle P dvd transitionHeight P - 1"
  proof
    assume "nLotteryBlockCycle P dvd transitionHeight P - 1"
    then have "nLotteryBlockCycle P dvd 1" using dvd_transition(1) by (metis dvd_diff diff_diff_eq2 add_diff_cancel_left')
    with assms show False by (simp add: params_ok_def)
  qed
  with True show ?thesis
    by (simp add: IsValidTreasuryBlockHeight_def IsValidLotteryBlockHeight_def Legacy_IsValidLotteryBlockHeight_def dvd_eq_mod_eq_0)
next
  case False
  have "nLotteryBlockStartBlock P \<le> transitionHeight P"
    using assms cycles_le_transition(1) [OF assms] by (simp add: params_ok_def)
  with False show ?thesis
    by (auto simp: IsValidTreasuryBlockHeight_def lottery_heights [OF assms] Legacy_IsValidTreasuryBlockHeight_def dvd_eq_mod_eq_0)
qed

lemma no_common_height:
  assumes "params_ok P"
  shows "\<not> (IsValidLotteryBlockHeight P h \<and> IsValidTreasuryBlockHeight P h)"
proof
  assume both: "IsValidLotteryBlockHeight P h \<and> IsValidTreasuryBlockHeight P h"
  then have dvd: "nLotteryBlockCycle P dvd h" and pos: "0 < h"
    using assms by (auto simp: lottery_heights params_ok_def)
  show False
  proof (cases "h < transitionHeight P")
    case True
    with both have "nTreasuryPaymentsCycle P dvd h" using treasury_heights [OF assms, of h] by simp
    with dvd have "transitionHeight P dvd h"
      using assms by (simp add: params_ok_def transitionHeight_def divides_mult)
    with pos have "transitionHeight P \<le> h" by (intro zdvd_imp_le)
    with True show False by simp
  next
    case False
    with both have "nLotteryBlockCycle P dvd h - 1" using treasury_heights [OF assms, of h] by simp
    with dvd have "nLotteryBlockCycle P dvd 1" by (metis dvd_diff diff_diff_eq2 add_diff_cancel_left')
    with assms show False by (simp add: params_ok_def)
  qed
qed

text \<open>The treasury cycle of a treasury block reaches back exactly to the treasury block before it, or to genesis.\<close>

lemma previous_treasury:
  assumes "params_ok P" "IsValidTreasuryBlockHeight P n"
  defines "p \<equiv> n - GetTreasuryBlockPaymentCycle P n"
  shows "0 \<le> p" "p < n" "p = 0 \<or> IsValidTreasuryBlockHeight P p"
    "\<And>h. p < h \<Longrightarrow> h < n \<Longrightarrow> \<not> IsValidTreasuryBlockHeight P h"
proof -
  let ?C = "nTreasuryPaymentsCycle P" and ?L = "nLotteryBlockCycle P" and ?T = "transitionHeight P"
  have par: "1 < ?C" "1 < ?L" "nTreasuryPaymentsStartBlock P \<le> ?C" "1 < nTreasuryPaymentsStartBlock P"
    using assms(1) by (auto simp: params_ok_def)
  note CT = cycles_le_transition [OF assms(1)]
  note hts = treasury_heights [OF assms(1)]
  have multiple: "nTreasuryPaymentsStartBlock P \<le> k" if "?C dvd k" "0 < k" for k
    using zdvd_imp_le [OF that] par by linarith
  consider "n < ?T" | "n = ?T + 1" | "?T + 1 < n" using hts [of n] assms(2) by fastforce
  then have "0 \<le> p \<and> p < n \<and> (p = 0 \<or> IsValidTreasuryBlockHeight P p) \<and> (\<forall>h. p < h \<and> h < n \<longrightarrow> \<not> IsValidTreasuryBlockHeight P h)"
  proof cases
    case 1
    have n: "?C dvd n" "0 < n" using hts [of n] assms(2) 1 par by auto
    have p: "p = n - ?C" using 1 by (simp add: p_def GetTreasuryBlockPaymentCycle_def)
    have "0 \<le> p" "?C dvd p" using n p zdvd_imp_le by (force, simp)
    moreover have "\<not> IsValidTreasuryBlockHeight P h" if "p < h" "h < n" for h
      using hts [of h] that 1 p n(1) same_multiple [of ?C h n] par by (auto simp: dvd_diff)
    moreover have "p = 0 \<or> IsValidTreasuryBlockHeight P p"
      using hts [of p] p par 1 multiple [of p] calculation by (cases "p = 0") auto
    ultimately show ?thesis using p par by simp
  next
    case 2
    have p: "p = ?T - ?C" using 2 by (simp add: p_def GetTreasuryBlockPaymentCycle_def)
    have "\<not> IsValidTreasuryBlockHeight P h" if "p < h" "h < n" for h
      using hts [of h] that 2 p same_multiple [of ?C h ?T] dvd_transition(2) [of P] par by (auto simp: dvd_diff)
    moreover have "?C dvd p" using p dvd_transition(2) by (simp add: dvd_diff)
    moreover have "p = 0 \<or> IsValidTreasuryBlockHeight P p"
      using hts [of p] p par 2 CT multiple [of p] calculation by (cases "p = 0") auto
    ultimately show ?thesis using p par 2 CT by simp
  next
    case 3
    have p: "p = n - ?L" using 3 by (simp add: p_def GetTreasuryBlockPaymentCycle_def superblockCycleLength_def)
    have d: "?L dvd n - 1" using hts [of n] assms(2) 3 by simp
    then have "?L dvd (n - 1) - ?T" using dvd_transition(1) by (simp add: dvd_diff)
    moreover have "0 < n - 1 - ?T" using 3 by linarith
    ultimately have "?L \<le> n - 1 - ?T" by (rule zdvd_imp_le)
    then have "?T < p" using p by simp
    moreover have "p - 1 = (n - 1) - ?L" using p by simp
    then have "?L dvd p - 1" using d by (metis dvd_diff dvd_refl)
    moreover have "\<not> IsValidTreasuryBlockHeight P h" if "p < h" "h < n" for h
    proof
      assume "IsValidTreasuryBlockHeight P h"
      then have "?L dvd h - 1" using hts [of h] that \<open>?T < p\<close> by (simp split: if_splits)
      with d have "?L dvd (h - 1) - (n - 1)" by (metis dvd_diff)
      then have "h - 1 = n - 1" by (rule same_multiple) (use that p in linarith)+
      with that show False by simp
    qed
    ultimately show ?thesis using hts [of p] p par CT by auto
  qed
  then show "0 \<le> p" "p < n" "p = 0 \<or> IsValidTreasuryBlockHeight P p"
    "\<And>h. p < h \<Longrightarrow> h < n \<Longrightarrow> \<not> IsValidTreasuryBlockHeight P h" by blast+
qed

section \<open>A superblock pays what its cycle has set aside\<close>

definition no_sporks :: "subsidy_env \<Rightarrow> bool" where
  "no_sporks E \<longleftrightarrow> Mapping.lookup (mapSporksActive (sporkManager E)) SPORK_13_BLOCK_PAYMENTS = None \<and>
    Mapping.lookup (mapSporksActive (sporkManager E)) SPORK_15_BLOCK_VALUE = None"

text \<open>The share of a block's value, less the 50 coins of the lottery, that goes to a purpose.\<close>

definition share :: "CChainParams \<Rightarrow> int \<Rightarrow> int \<Rightarrow> int" where
  "share P percentage h =
    (max (1250 - 100 * max (h div nSubsidyHalvingInterval P - 1) 0) 250 * COIN - 50 * COIN) * percentage div 100"

lemma share_nonneg: "0 \<le> p \<Longrightarrow> 0 \<le> share P p h"
  unfolding share_def by (rule div_int_pos_iff [THEN iffD2]) (simp add: COIN_def)

lemma share_cong: "x div nSubsidyHalvingInterval P = y div nSubsidyHalvingInterval P \<Longrightarrow> share P p x = share P p y"
  by (simp add: share_def)

lemma sdiv_nonneg: "0 \<le> a \<Longrightarrow> 0 \<le> (b :: int) \<Longrightarrow> a sdiv b = a div b"
  by (cases "a = 0"; cases "b = 0") (simp_all add: signed_divide_int_def sgn_mult)

lemma no_sporks_inactive:
  assumes "no_sporks E"
  shows "IsSporkActive (slib E) t (sporkManager E) SPORK_15_BLOCK_VALUE = Some False"
    "IsSporkActive (slib E) t (sporkManager E) SPORK_13_BLOCK_PAYMENTS = Some False"
  using assms by (simp_all add: no_sporks_def IsSporkActive_def IsMultiValueSpork_def)

lemma legacy_rewards:
  assumes "params_ok P" "no_sporks E" "nLotteryBlockStartBlock P \<le> h"
  shows "Legacy_GetBlockSubsidity E h P = Inr \<lparr>rwStake = share P 38 h, rwMasternode = share P 45 h, rwTreasury = share P 16 h,
    rwCharity = share P 1 h, rwLottery = 50 * COIN, rwProposals = 0\<rparr>"
proof -
  define v where "v = max (1250 - 100 * max (h div nSubsidyHalvingInterval P - 1) 0) 250 * COIN"
  have v: "50 * COIN \<le> v" by (simp add: v_def COIN_def)
  have "h \<noteq> 0" "h \<noteq> 1" "\<not> h \<le> nLastPOWBlock P" using assms(1,3) by (auto simp: params_ok_def)
  then have "Legacy_GetFullBlockValue E h P = v"
    using no_sporks_inactive [OF assms(2)] by (simp add: Legacy_GetFullBlockValue_def BlockSubsidy_def v_def)
  with v assms(3) \<open>\<not> h \<le> nLastPOWBlock P\<close> show ?thesis
    using no_sporks_inactive [OF assms(2)]
    by (simp add: Legacy_GetBlockSubsidity_def percentages_def Let_def share_def v_def [symmetric] sdiv_nonneg)
qed

lemma legacy_genesis:
  "params_ok P \<Longrightarrow> \<exists>v. Legacy_GetBlockSubsidity E 0 P =
    Inr \<lparr>rwStake = v, rwMasternode = 0, rwTreasury = 0, rwCharity = 0, rwLottery = 0, rwProposals = 0\<rparr>"
  by (simp add: Legacy_GetBlockSubsidity_def params_ok_def Let_def)

lemma div_interval:
  assumes "k * H \<le> h" "h < k * H + (H :: int)"
  shows "h div H = k"
  using assms by (intro int_div_pos_eq [of _ _ _ "h - k * H"]) (simp_all add: mult.commute)

lemma interval_sum:
  fixes f :: "int \<Rightarrow> int"
  assumes "0 < H" "\<And>x y. x div H = y div H \<Longrightarrow> f x = f y" "a \<le> n" "n - a \<le> H"
  shows "sum f {a..<n} = f a * (n div H * H - a) + f n * (n - n div H * H)"
proof -
  define k where "k = n div H"
  have k: "k * H \<le> n" "n < k * H + H"
    using pos_mod_bound [OF assms(1), of n] pos_mod_sign [OF assms(1), of n] minus_mod_eq_div_mult [of n H]
    unfolding k_def by linarith+
  have upper: "f h = f n" if "k * H \<le> h" "h \<le> n" for h
  proof -
    have "h div H = k" using that k by (intro div_interval) linarith+
    then show ?thesis using assms(2) [of h n] by (simp add: k_def)
  qed
  show ?thesis
  proof (cases "k * H \<le> a")
    case True
    then have "sum f {a..<n} = sum (\<lambda>_. f n) {a..<n}" by (intro sum.cong refl upper) auto
    then have "sum f {a..<n} = f n * (n - a)" using assms(3) by (simp add: mult.commute)
    moreover have "f a = f n" using True assms(3) by (rule upper)
    ultimately show ?thesis by (simp add: k_def [symmetric] distrib_left [symmetric])
  next
    case False
    have lower: "f h = f a" if "a \<le> h" "h < k * H" for h
    proof -
      have "(k - 1) * H = k * H - H" by (simp add: algebra_simps)
      then have "h div H = k - 1" "a div H = k - 1"
        using that False k assms(4) by (auto intro!: div_interval)
      then show ?thesis using assms(2) [of h a] by simp
    qed
    have "sum f {a..<n} = sum f {a..<k * H} + sum f {k * H..<n}"
      using False k by (subst sum.union_disjoint [symmetric]) (auto simp: ivl_disj_un_two)
    also have "sum f {a..<k * H} = sum (\<lambda>_. f a) {a..<k * H}" by (intro sum.cong refl lower) auto
    also have "sum f {k * H..<n} = sum (\<lambda>_. f n) {k * H..<n}" by (intro sum.cong refl upper) auto
    finally show ?thesis using False k by (simp add: k_def [symmetric])
  qed
qed

lemma previous_genesis:
  assumes "params_ok P" "IsValidTreasuryBlockHeight P n" "n - GetTreasuryBlockPaymentCycle P n = 0"
  shows "n div nSubsidyHalvingInterval P = 0"
proof -
  have T: "nTreasuryPaymentsCycle P + 1 \<le> transitionHeight P"
  proof -
    have "2 * nTreasuryPaymentsCycle P \<le> transitionHeight P"
      using assms(1) unfolding params_ok_def transitionHeight_def by (intro mult_right_mono) linarith+
    moreover have "1 < nTreasuryPaymentsCycle P" using assms(1) by (simp add: params_ok_def)
    ultimately show ?thesis by linarith
  qed
  have "n < transitionHeight P \<or> transitionHeight P < n" using treasury_heights [OF assms(1), of n] assms(2) by (auto split: if_splits)
  with assms(3) T have "n = nTreasuryPaymentsCycle P"
    using cycles_le_transition(1) [OF assms(1)]
    by (auto simp: GetTreasuryBlockPaymentCycle_def superblockCycleLength_def split: if_splits)
  then show ?thesis using assms(1) by (auto simp: params_ok_def)
qed

lemma treasury_cycle_le: "params_ok P \<Longrightarrow> GetTreasuryBlockPaymentCycle P n \<le> nSubsidyHalvingInterval P"
  by (auto simp: params_ok_def GetTreasuryBlockPaymentCycle_def superblockCycleLength_def)

lemma treasury_start: "params_ok P \<Longrightarrow> IsValidTreasuryBlockHeight P n \<Longrightarrow> nLotteryBlockStartBlock P \<le> n"
  using cycles_le_transition [of P] by (auto simp: treasury_heights params_ok_def split: if_splits)

text \<open>The weighted sum of the code is the sum over the blocks of the cycle.\<close>

lemma treasury_weights:
  assumes "params_ok P" "no_sporks E" "IsValidTreasuryBlockHeight P n"
  defines "p \<equiv> n - GetTreasuryBlockPaymentCycle P n" and "H \<equiv> nSubsidyHalvingInterval P"
  shows "\<exists>r. Legacy_GetBlockSubsidity E p P = Inr r \<and>
    rwTreasury r * (n div H * H - p) + share P 16 n * (n - n div H * H) = sum (share P 16) {p..<n} \<and>
    rwCharity r * (n div H * H - p) + share P 1 n * (n - n div H * H) = sum (share P 1) {p..<n}"
proof -
  have H: "0 < H" using assms(1) by (auto simp: H_def params_ok_def)
  note prev = previous_treasury [OF assms(1,3), folded p_def]
  have sums: "sum (share P q) {p..<n} = share P q p * (n div H * H - p) + share P q n * (n - n div H * H)" for q
    using prev(2) treasury_cycle_le [OF assms(1), of n] H
    by (intro interval_sum share_cong) (simp_all add: H_def p_def)
  show ?thesis
  proof (cases "p = 0")
    case True
    then have "n div H = 0" using previous_genesis [OF assms(1,3)] by (simp add: p_def H_def)
    moreover obtain v where "Legacy_GetBlockSubsidity E p P =
      Inr \<lparr>rwStake = v, rwMasternode = 0, rwTreasury = 0, rwCharity = 0, rwLottery = 0, rwProposals = 0\<rparr>"
      using legacy_genesis [OF assms(1)] True by blast
    ultimately show ?thesis using sums True by simp
  next
    case False
    then have "nLotteryBlockStartBlock P \<le> p" using prev(3) treasury_start [OF assms(1)] by blast
    then show ?thesis using legacy_rewards [OF assms(1,2)] sums by simp
  qed
qed

lemma lottery_weights:
  assumes "params_ok P" "no_sporks E" "IsValidLotteryBlockHeight P n"
  defines "p \<equiv> n - GetLotteryBlockPaymentCycle P n" and "H \<equiv> nSubsidyHalvingInterval P"
  shows "\<exists>r. Legacy_GetBlockSubsidity E p P = Inr r \<and>
    rwLottery r * (n div H * H - p) + 50 * COIN * (n - n div H * H) = 50 * COIN * nLotteryBlockCycle P"
proof -
  let ?L = "nLotteryBlockCycle P"
  have p: "p = n - ?L" by (simp add: p_def GetLotteryBlockPaymentCycle_def superblockCycleLength_def)
  have par: "0 < ?L" "nLotteryBlockStartBlock P \<le> ?L" "0 < nLotteryBlockStartBlock P" "?L < H"
    using assms(1) by (auto simp: params_ok_def H_def)
  have n: "?L dvd n" "nLotteryBlockStartBlock P \<le> n" using assms(3) lottery_heights [OF assms(1)] by auto
  show ?thesis
  proof (cases "p = 0")
    case True
    then have "n div H = 0" using p par by simp
    moreover obtain v where "Legacy_GetBlockSubsidity E p P =
      Inr \<lparr>rwStake = v, rwMasternode = 0, rwTreasury = 0, rwCharity = 0, rwLottery = 0, rwProposals = 0\<rparr>"
      using legacy_genesis [OF assms(1)] True by blast
    ultimately show ?thesis using True p by simp
  next
    case False
    have "?L dvd p" using n p by simp
    moreover have "0 < p" using False n par p zdvd_imp_le [of ?L n] by linarith
    ultimately have "nLotteryBlockStartBlock P \<le> p" using zdvd_imp_le par by force
    moreover have "50 * COIN * (n div H * H - p) + 50 * COIN * (n - n div H * H) = 50 * COIN * ?L"
      using p by (simp add: distrib_left [symmetric])
    ultimately show ?thesis using legacy_rewards [OF assms(1,2)] by simp
  qed
qed

lemma superblock_rewards:
  assumes "params_ok P" "no_sporks E" "nLotteryBlockStartBlock P \<le> n"
  defines "p \<equiv> n - GetTreasuryBlockPaymentCycle P n"
  shows "GetBlockSubsidity E P n = Inr \<lparr>rwStake = share P 38 n, rwMasternode = share P 45 n,
    rwTreasury = (if IsValidTreasuryBlockHeight P n then sum (share P 16) {p..<n} else 0),
    rwCharity = (if IsValidTreasuryBlockHeight P n then sum (share P 1) {p..<n} else 0),
    rwLottery = (if IsValidLotteryBlockHeight P n then 50 * COIN * nLotteryBlockCycle P else 0), rwProposals = 0\<rparr>"
proof -
  let ?r = "\<lparr>rwStake = share P 38 n, rwMasternode = share P 45 n, rwTreasury = share P 16 n,
    rwCharity = share P 1 n, rwLottery = 50 * COIN, rwProposals = 0\<rparr>"
  let ?t = "?r\<lparr>rwTreasury := (if IsValidTreasuryBlockHeight P n then sum (share P 16) {p..<n} else 0),
    rwCharity := (if IsValidTreasuryBlockHeight P n then sum (share P 1) {p..<n} else 0)\<rparr>"
  have leg: "Legacy_GetBlockSubsidity E n P = Inr ?r" by (rule legacy_rewards [OF assms(1-3)])
  have treasury: "updateTreasuryReward E P n ?r (IsValidTreasuryBlockHeight P n) = Inr ?t"
    using treasury_weights [OF assms(1,2), of n] by (auto simp: updateTreasuryReward_def Let_def p_def)
  have "updateLotteryReward E P n ?t (IsValidLotteryBlockHeight P n) =
    Inr (?t\<lparr>rwLottery := (if IsValidLotteryBlockHeight P n then 50 * COIN * nLotteryBlockCycle P else 0)\<rparr>)"
    using lottery_weights [OF assms(1,2), of n] by (auto simp: updateLotteryReward_def Let_def)
  then show ?thesis unfolding GetBlockSubsidity_def leg sum.case treasury by simp
qed

section \<open>Properties\<close>

text \<open>
  On the main and the test network no block is both a lottery and a treasury block, before
  or after the change of the cycles, and a treasury block pays for exactly the blocks since the treasury
  block before it: its cycle ends there (or at genesis) and no treasury block lies between.
\<close>

theorem superblocks_separate:
  assumes "params_ok P"
  shows "\<not> (IsValidLotteryBlockHeight P h \<and> IsValidTreasuryBlockHeight P h) \<and>
    (IsValidTreasuryBlockHeight P h \<longrightarrow>
      (let p = h - GetTreasuryBlockPaymentCycle P h
       in 0 \<le> p \<and> p < h \<and> (p = 0 \<or> IsValidTreasuryBlockHeight P p) \<and>
          (\<forall>i. p < i \<and> i < h \<longrightarrow> \<not> IsValidTreasuryBlockHeight P i)))"
  using no_common_height [OF assms] previous_treasury [OF assms] by (auto simp: Let_def)

text \<open>
  C28: Without reward sporks and for the parameters of the main and the test network (\<open>params_ok\<close>), every block after the lottery start has rewards (the assertion of
  the code holds): the stake and masternode shares of the schedule, on a treasury block the treasury and
  charity shares of all blocks of its cycle added up, across a change of the schedule too, and nothing
  on other blocks, and on a lottery block 50 coins for every block of the lottery cycle.
\<close>

theorem GetBlockSubsidity_correct:
  assumes "params_ok P" "no_sporks E" "nLotteryBlockStartBlock P \<le> n"
  shows "GetBlockSubsidity E P n =
    (let cycle = {n - GetTreasuryBlockPaymentCycle P n..<n}
     in Inr \<lparr>rwStake = share P 38 n, rwMasternode = share P 45 n,
        rwTreasury = (if IsValidTreasuryBlockHeight P n then \<Sum>h\<in>cycle. share P 16 h else 0),
        rwCharity = (if IsValidTreasuryBlockHeight P n then \<Sum>h\<in>cycle. share P 1 h else 0),
        rwLottery = (if IsValidLotteryBlockHeight P n then 50 * COIN * nLotteryBlockCycle P else 0), rwProposals = 0\<rparr>)"
  using superblock_rewards [OF assms] by (simp add: Let_def)

definition treasury_payout :: "subsidy_env \<Rightarrow> CChainParams \<Rightarrow> int \<Rightarrow> int" where
  "treasury_payout E P n = (case GetBlockSubsidity E P n of Inl e \<Rightarrow> 0 | Inr r \<Rightarrow> rwTreasury r)"

lemma treasury_total:
  assumes "params_ok P" "no_sporks E"
  shows "IsValidTreasuryBlockHeight P n \<Longrightarrow>
    (\<Sum>h | IsValidTreasuryBlockHeight P h \<and> h \<le> n. treasury_payout E P h) = (\<Sum>h\<in>{0..<n}. share P 16 h)"
proof (induction "nat n" arbitrary: n rule: less_induct)
  case less
  define p where "p = n - GetTreasuryBlockPaymentCycle P n"
  let ?S = "\<lambda>n. {h. IsValidTreasuryBlockHeight P h \<and> h \<le> n}"
  note prev = previous_treasury [OF assms(1) less.prems, folded p_def]
  have pos: "0 < h" if "IsValidTreasuryBlockHeight P h" for h
    using treasury_start [OF assms(1) that] assms(1) by (auto simp: params_ok_def)
  then have "?S n \<subseteq> {0..n}" by force
  then have fin: "finite (?S n)" by (rule finite_subset) simp
  have "h \<le> p" if "IsValidTreasuryBlockHeight P h" "h \<le> n" "h \<noteq> n" for h using prev(4) [of h] that by force
  then have split: "?S n = insert n (?S p)" "n \<notin> ?S p" using prev(2) less.prems by auto
  then have "(\<Sum>h\<in>?S n. treasury_payout E P h) = treasury_payout E P n + (\<Sum>h\<in>?S p. treasury_payout E P h)"
    using fin by simp
  moreover have "treasury_payout E P n = (\<Sum>h\<in>{p..<n}. share P 16 h)"
    using superblock_rewards [OF assms treasury_start [OF assms(1) less.prems]] less.prems by (simp add: treasury_payout_def p_def)
  moreover have "(\<Sum>h\<in>?S p. treasury_payout E P h) = (\<Sum>h\<in>{0..<p}. share P 16 h)"
  proof (cases "p = 0")
    case True
    have empty: "?S p = {}" using pos True by force
    show ?thesis unfolding empty using True by simp
  next
    case False
    then have "IsValidTreasuryBlockHeight P p" using prev(3) by simp
    moreover have "nat p < nat n" using prev(1,2) by simp
    ultimately show ?thesis by (rule less.hyps [rotated])
  qed
  moreover have "(\<Sum>h\<in>{0..<n}. share P 16 h) = (\<Sum>h\<in>{0..<p}. share P 16 h) + (\<Sum>h\<in>{p..<n}. share P 16 h)"
  proof -
    have "{0..<n} = {0..<p} \<union> {p..<n}" using prev(1,2) by auto
    then show ?thesis by (simp add: sum.union_disjoint [symmetric] ivl_disj_int)
  qed
  ultimately show ?case by simp
qed

text \<open>
  C21: Under two conditions the treasury is paid neither too much nor too little: every treasury block has rewards, and up to any treasury
  block, the treasury payments of all treasury blocks together are the treasury shares of all blocks below it, each counted once.
  The conditions are \<open>no_sporks\<close>: the spork manager holds no value of \<open>SPORK_13_BLOCK_PAYMENTS\<close> or \<open>SPORK_15_BLOCK_VALUE\<close>, at any of the blocks; and
  \<open>params_ok\<close>: the lottery and treasury cycles are coprime and below the halving interval, and they start after the last proof-of-work
  block. The main and the test network have such parameters, the private and the regression test network do not.
  Nothing is said of chains on which one of the two sporks changes the rewards: a treasury block only looks at the rewards of its own height and of
  the treasury block before it, so that a change within a cycle is not followed.
\<close>

theorem treasury_conservation:
  assumes "params_ok P" "no_sporks E" "IsValidTreasuryBlockHeight P n"
  shows "(\<Sum>h | IsValidTreasuryBlockHeight P h \<and> h \<le> n. treasury_payout E P h) = (\<Sum>h\<in>{0..<n}. share P 16 h) \<and>
    (\<forall>h. IsValidTreasuryBlockHeight P h \<longrightarrow> (\<exists>r. GetBlockSubsidity E P h = Inr r))"
  using treasury_total [OF assms] superblock_rewards [OF assms(1,2) treasury_start [OF assms(1)]] by (auto simp: Let_def)

lemma share_le: "0 \<le> q \<Longrightarrow> 0 \<le> h \<Longrightarrow> 0 < nSubsidyHalvingInterval P \<Longrightarrow> share P q h \<le> 12 * COIN * q"
proof -
  assume q: "0 \<le> q" and h: "0 \<le> h" "0 < nSubsidyHalvingInterval P"
  let ?v = "max (1250 - 100 * max (h div nSubsidyHalvingInterval P - 1) 0) 250 * COIN - 50 * COIN"
  have "?v * q \<le> (1200 * COIN) * q" using q by (intro mult_right_mono) (simp_all add: COIN_def)
  then have "?v * q div 100 \<le> (1200 * COIN) * q div 100" by (rule zdiv_mono1) simp
  also have "(1200 * COIN) * q div 100 = 12 * COIN * q" by (simp add: COIN_def)
  finally show ?thesis by (simp add: share_def)
qed

lemma share_sum_le:
  assumes "0 \<le> q" "0 \<le> p" "p \<le> n" "0 < nSubsidyHalvingInterval P"
  shows "0 \<le> sum (share P q) {p..<n}" "sum (share P q) {p..<n} \<le> (n - p) * (12 * COIN * q)"
proof -
  show "0 \<le> sum (share P q) {p..<n}" using assms(1) by (intro sum_nonneg) (simp add: share_nonneg)
  have "sum (share P q) {p..<n} \<le> of_nat (card {p..<n}) * (12 * COIN * q)"
    using assms by (intro sum_bounded_above) (simp add: share_le)
  then show "sum (share P q) {p..<n} \<le> (n - p) * (12 * COIN * q)" using assms(3) by simp
qed

text \<open>
  On the main network, without reward sporks, the full value of any block after the lottery
  start exists, is not negative and at most 2,060,000 coins, so that no amount overflows 64 bits or exceeds
  the money range.
\<close>

theorem block_value_bounds:
  assumes "no_sporks E" "101 \<le> n"
  shows "\<exists>v. GetFullBlockValue E CMainParams n = Inr v \<and> 0 \<le> v \<and> v \<le> 2060000 * COIN \<and> v < 2 ^ 63 \<and>
    v \<le> nMaxMoneyOut CMainParams"
proof -
  define p where "p = n - GetTreasuryBlockPaymentCycle CMainParams n"
  let ?P = CMainParams
  have H: "0 < nSubsidyHalvingInterval ?P" "nLotteryBlockCycle ?P = 10080" "nLotteryBlockStartBlock ?P = 101"
    by (simp_all add: CMainParams_def)
  have cyc: "n - p \<le> 10082"
    by (simp add: p_def GetTreasuryBlockPaymentCycle_def superblockCycleLength_def CMainParams_def)
  have shares: "0 \<le> share ?P q n" "share ?P q n \<le> 12 * COIN * q" if "0 \<le> q" for q
    using that H(1) assms(2) by (simp_all add: share_nonneg share_le)
  have treasury: "0 \<le> sum (share ?P q) {p..<n} \<and> sum (share ?P q) {p..<n} \<le> 10082 * (12 * COIN * q)"
    if "IsValidTreasuryBlockHeight ?P n" "0 \<le> q" for q
  proof -
    note prev = previous_treasury(1,2) [OF params_ok_networks(1) that(1), folded p_def]
    have "(n - p) * (12 * COIN * q) \<le> 10082 * (12 * COIN * q)"
      using cyc that(2) by (intro mult_right_mono) (simp_all add: COIN_def)
    moreover have "p \<le> n" using prev(2) by simp
    ultimately show ?thesis using share_sum_le [OF that(2) prev(1) _ H(1), of n] by linarith
  qed
  have "GetFullBlockValue E ?P n = Inr (share ?P 38 n + share ?P 45 n +
      (if IsValidTreasuryBlockHeight ?P n then sum (share ?P 16) {p..<n} else 0) +
      (if IsValidTreasuryBlockHeight ?P n then sum (share ?P 1) {p..<n} else 0) +
      (if IsValidLotteryBlockHeight ?P n then 50 * COIN * 10080 else 0))"
    using superblock_rewards [OF params_ok_networks(1) assms(1), of n] assms(2) H
    by (simp add: GetFullBlockValue_def total_def p_def)
  moreover have "\<not> (IsValidLotteryBlockHeight ?P n \<and> IsValidTreasuryBlockHeight ?P n)"
    by (rule no_common_height [OF params_ok_networks(1)])
  moreover have "nMaxMoneyOut ?P = 2534320700 * COIN" by (simp add: CMainParams_def)
  ultimately show ?thesis
    using shares [of 38] shares [of 45] treasury [of 16] treasury [of 1] by (auto simp: COIN_def)
qed

section \<open>Instances\<close>

definition example_env :: subsidy_env where
  "example_env = \<lparr>slib = example_lib, sporkManager = CSporkManager_new [1] [2], chainActive = [], adjustedTime = 0\<rparr>"

lemma example_no_sporks: "no_sporks example_env"
  by (simp add: no_sporks_def example_env_def CSporkManager_new_def Mapping.lookup_empty)

theorem superblocks_separate_witness:
  "\<not> (IsValidLotteryBlockHeight CMainParams 10081 \<and> IsValidTreasuryBlockHeight CMainParams 10081) \<and>
   {i. 0 < i \<and> i < 10081 \<and> IsValidTreasuryBlockHeight CMainParams i} = {}"
  using superblocks_separate [OF params_ok_networks(1), of 10081]
  by (simp add: Let_def treasury_heights [OF params_ok_networks(1)])
     (simp add: CMainParams_def transitionHeight_def GetTreasuryBlockPaymentCycle_def)

theorem GetBlockSubsidity_correct_witness:
  "\<exists>r. GetBlockSubsidity example_env CMainParams 10080 = Inr r \<and> rwLottery r = 504000 * COIN \<and> rwTreasury r = 0"
  using GetBlockSubsidity_correct [OF params_ok_networks(1) example_no_sporks, of 10080]
  by (simp add: Let_def treasury_heights [OF params_ok_networks(1)] lottery_heights [OF params_ok_networks(1)])
     (simp add: CMainParams_def transitionHeight_def)

theorem treasury_conservation_witness:
  "(\<Sum>h | IsValidTreasuryBlockHeight CMainParams h \<and> h \<le> 20162. treasury_payout example_env CMainParams h) =
   (\<Sum>h\<in>{0..<20162}. share CMainParams 16 h)"
  by (rule treasury_conservation [OF params_ok_networks(1) example_no_sporks, THEN conjunct1])
     (simp add: treasury_heights [OF params_ok_networks(1)], simp add: CMainParams_def transitionHeight_def)

theorem block_value_bounds_witness:
  "\<exists>v. GetFullBlockValue example_env CMainParams 10081 = Inr v \<and> 0 \<le> v \<and> v \<le> 2060000 * COIN \<and> v < 2 ^ 63 \<and>
    v \<le> nMaxMoneyOut CMainParams"
  by (rule block_value_bounds [OF example_no_sporks]) simp

end
