(* ===== verification/Lottery.thy ===== *)
theory Lottery
  imports Transactions Subsidies
begin

text \<open>
  The lottery (\<^verbatim>\<open>LotteryWinnersCalculator.cpp\<close>, \<^verbatim>\<open>BlockIndexLotteryUpdater.cpp\<close>, \<^verbatim>\<open>ForkActivation.cpp\<close>): every block between two lottery
  blocks may enter the coinstake it mints with, and each block index entry keeps the eleven best so far.
  The theory shows that this incremental selection gives the eleven best of all entered coinstakes, and
  what the later rules against repeated winners keep of that.
\<close>

section \<open>Forks\<close>

datatype Fork = TestByTimestamp | HardenedStakeModifier | UniformLotteryWinners

definition unixTimestampForDec31stMidnight :: int where
  "unixTimestampForDec31stMidnight = 1609459199"

definition manualOverrides :: "Fork list" where
  "manualOverrides = []"

fun ACTIVATION_TIMES :: "Fork \<Rightarrow> int" where
  "ACTIVATION_TIMES TestByTimestamp = 1000000000"
| "ACTIVATION_TIMES HardenedStakeModifier = unixTimestampForDec31stMidnight"
| "ACTIVATION_TIMES UniformLotteryWinners = unixTimestampForDec31stMidnight"

text \<open>The setting \<^verbatim>\<open>-manual_fork\<close> is a parameter.\<close>

definition IsActive :: "int option \<Rightarrow> int \<Rightarrow> Fork \<Rightarrow> bool" where
  "IsActive manual_fork time f =
    (case (if f \<in> set manualOverrides then manual_fork else None) of
       Some timestampOverride \<Rightarrow> time \<ge> timestampOverride
     | None \<Rightarrow> time \<ge> ACTIVATION_TIMES f)"

section \<open>The calculator\<close>

text \<open>What the calculator refers to; \<open>score_hash\<close> is the double SHA-256 of the two serialised hashes.\<close>

record lottery_env =
  subsidy :: subsidy_env
  params :: CChainParams
  score_hash :: "u256 \<Rightarrow> u256 \<Rightarrow> u256"
  manual_fork :: "int option"

abbreviation startOfLotteryBlocks :: "lottery_env \<Rightarrow> int" where
  "startOfLotteryBlocks E \<equiv> nLotteryBlockStartBlock (params E)"

definition minimumCoinstakeForTicket :: "lottery_env \<Rightarrow> int \<Rightarrow> int" where
  "minimumCoinstakeForTicket E h =
    (let S = subsidy E
     in if IsSporkActive (slib S) (adjustedTime S) (sporkManager S) SPORK_16_LOTTERY_TICKET_MIN_VALUE = Some True then
          let vals = ConvertMultiValueSporkVector (LotteryTicketMinValueSporkValue_FromString (casts (slib S)))
                (GetMultiValueSpork (sporkManager S) SPORK_16_LOTTERY_TICKET_MIN_VALUE);
              activeSpork = GetActiveMultiValueSpork ltActivationBlockHeight LotteryTicketMinValueSporkValue_new vals h
                (nBlockTime S h)
          in if LotteryTicketMinValueSporkValue_IsValid activeSpork then nEntryTicketValue activeSpork else 10000
        else 10000)"

definition CalculateLotteryScore :: "lottery_env \<Rightarrow> u256 \<Rightarrow> u256 \<Rightarrow> u256" where
  "CalculateLotteryScore E hashCoinbaseTx hashLastLotteryBlock = score_hash E hashCoinbaseTx hashLastLotteryBlock"

text \<open>The outputs that the code indexes exist in the minting transaction of a checked block.\<close>

definition IsCoinstakeValidForLottery :: "lottery_env \<Rightarrow> CTransaction \<Rightarrow> int \<Rightarrow> bool" where
  "IsCoinstakeValidForLottery E tx h =
    (let nAmount =
       (if IsCoinBase tx then nValue (vout tx ! 0)
        else let payee = scriptPubKey (vout tx ! 1)
             in foldl (\<lambda>accum out. if scriptPubKey out = payee then accum + nValue out else accum) 0 (vout tx))
     in nAmount > minimumCoinstakeForTicket E h * COIN)"

definition nLastLotteryHeight :: "lottery_env \<Rightarrow> int \<Rightarrow> int" where
  "nLastLotteryHeight E blockHeight =
    (let lotteryBlockPaymentCycle = GetLotteryBlockPaymentCycle (params E) blockHeight
     in max (startOfLotteryBlocks E) (lotteryBlockPaymentCycle * ((blockHeight - 1) div lotteryBlockPaymentCycle)))"

definition GetLastLotteryBlockIndexBeforeHeight :: "lottery_env \<Rightarrow> int \<Rightarrow> CBlockIndex option" where
  "GetLastLotteryBlockIndexBeforeHeight E blockHeight = chain_at (chainActive (subsidy E)) (nLastLotteryHeight E blockHeight)"

fun veto_loop :: "lottery_env \<Rightarrow> CScript \<Rightarrow> int \<Rightarrow> int \<Rightarrow> int list \<Rightarrow> bool" where
  "veto_loop E paymentScript lastHeight cycle [] = False"
| "veto_loop E paymentScript lastHeight cycle (lotteryCycleCount # counts) =
    (case chain_at (chainActive (subsidy E)) (lastHeight - cycle * lotteryCycleCount - 1) of
       None \<Rightarrow> False
     | Some b \<Rightarrow>
         if list_ex (\<lambda>coinstake. snd coinstake = paymentScript) (getLotteryCoinstakes (vLotteryWinnersCoinstakes (data b)))
         then True else veto_loop E paymentScript lastHeight cycle counts)"

definition IsPaymentScriptVetoed :: "lottery_env \<Rightarrow> CScript \<Rightarrow> int \<Rightarrow> bool" where
  "IsPaymentScriptVetoed E paymentScript blockHeight =
    veto_loop E paymentScript (nLastLotteryHeight E blockHeight) (GetLotteryBlockPaymentCycle (params E) blockHeight) [0, 1, 2]"

record RankAwareScore =
  score :: u256
  rank :: nat
  isDuplicateScript :: bool

text \<open>The map from transaction hashes, as an association list in the order of insertion.\<close>

type_synonym RankedScoreAwareCoinstakes = "(u256 \<times> RankAwareScore) list"

definition emplace :: "RankedScoreAwareCoinstakes \<Rightarrow> u256 \<Rightarrow> RankAwareScore \<Rightarrow> RankedScoreAwareCoinstakes" where
  "emplace r k v = (if map_of r k = None then r @ [(k, v)] else r)"

fun ranked_loop ::
  "lottery_env \<Rightarrow> u256 \<Rightarrow> RankedScoreAwareCoinstakes \<Rightarrow> CScript list \<Rightarrow> LotteryCoinstakes \<Rightarrow> RankedScoreAwareCoinstakes" where
  "ranked_loop E lastLotteryBlockHash r paymentScripts [] = r"
| "ranked_loop E lastLotteryBlockHash r paymentScripts (c # cs) =
    ranked_loop E lastLotteryBlockHash
      (emplace r (fst c) \<lparr>score = CalculateLotteryScore E (fst c) lastLotteryBlockHash, rank = length r,
         isDuplicateScript = snd c \<in> set paymentScripts\<rparr>)
      (snd c # paymentScripts) cs"

definition computeRankedScoreAwareCoinstakes :: "lottery_env \<Rightarrow> u256 \<Rightarrow> LotteryCoinstakes \<Rightarrow> RankedScoreAwareCoinstakes" where
  "computeRankedScoreAwareCoinstakes E lastLotteryBlockHash updatedCoinstakes =
    ranked_loop E lastLotteryBlockHash [] [] updatedCoinstakes"

definition ranked :: "RankedScoreAwareCoinstakes \<Rightarrow> LotteryCoinstake \<Rightarrow> RankAwareScore" where
  "ranked r c = the (map_of r (fst c))"

text \<open>\<^verbatim>\<open>std::stable_sort\<close> by falling score.\<close>

definition SortCoinstakesByScore :: "RankedScoreAwareCoinstakes \<Rightarrow> LotteryCoinstakes \<Rightarrow> LotteryCoinstakes" where
  "SortCoinstakesByScore r updatedCoinstakes =
    (if length r > 1 then sort_key (\<lambda>c. - uint (score (ranked r c))) updatedCoinstakes else updatedCoinstakes)"

definition TopElevenBestCoinstakesNeedUpdating ::
  "bool \<Rightarrow> RankedScoreAwareCoinstakes \<Rightarrow> LotteryCoinstakes \<Rightarrow> bool \<times> LotteryCoinstakes" where
  "TopElevenBestCoinstakesNeedUpdating trimDuplicates r updatedCoinstakes =
    (let shouldUpdateCoinstakeData =
       (if length r > 1 then rank (ranked r (last updatedCoinstakes)) \<noteq> 11 else length r > 0)
     in if length updatedCoinstakes > 11 then
          case (if \<not> trimDuplicates then None
                else find (\<lambda>i. isDuplicateScript (ranked r (updatedCoinstakes ! i))) (rev [0..<length updatedCoinstakes])) of
            Some i \<Rightarrow> (True, take i updatedCoinstakes @ drop (Suc i) updatedCoinstakes)
          | None \<Rightarrow> (shouldUpdateCoinstakeData, butlast updatedCoinstakes)
        else (shouldUpdateCoinstakeData, updatedCoinstakes))"

text \<open>\<open>None\<close>: the active chain has no block at the last lottery height, and the code dereferences null.\<close>

definition UpdateCoinstakes :: "lottery_env \<Rightarrow> int \<Rightarrow> LotteryCoinstakes \<Rightarrow> (bool \<times> LotteryCoinstakes) option" where
  "UpdateCoinstakes E nextBlockHeight updatedCoinstakes =
    (case GetLastLotteryBlockIndexBeforeHeight E nextBlockHeight of
       None \<Rightarrow> None
     | Some b \<Rightarrow>
         let uniform = IsActive (manual_fork E) (uint (nTime (data b))) UniformLotteryWinners
         in if uniform \<and> IsPaymentScriptVetoed E (snd (last updatedCoinstakes)) nextBlockHeight then Some (False, updatedCoinstakes)
            else
              let r = computeRankedScoreAwareCoinstakes E (GetBlockHash b) updatedCoinstakes
              in Some (TopElevenBestCoinstakesNeedUpdating uniform r (SortCoinstakesByScore r updatedCoinstakes)))"

definition ticket :: "CTransaction \<Rightarrow> LotteryCoinstake" where
  "ticket tx = (tx_hash tx, if IsCoinBase tx then scriptPubKey (vout tx ! 0) else scriptPubKey (vout tx ! 1))"

definition CalculateUpdatedLotteryWinners ::
  "lottery_env \<Rightarrow> CTransaction \<Rightarrow> LotteryCoinstakeData \<Rightarrow> int \<Rightarrow> LotteryCoinstakeData option" where
  "CalculateUpdatedLotteryWinners E tx previous h =
    (if h \<le> 0 then Some LotteryCoinstakeData_empty
     else if IsValidLotteryBlockHeight (params E) h then Some (LotteryCoinstakeData_at h [])
     else if h \<le> startOfLotteryBlocks E then Some (getShallowCopy previous)
     else if \<not> IsCoinstakeValidForLottery E tx h then Some (getShallowCopy previous)
     else
       map_option (\<lambda>(update, updatedCoinstakes). if update then LotteryCoinstakeData_at h updatedCoinstakes else getShallowCopy previous)
         (UpdateCoinstakes E h (getLotteryCoinstakes previous @ [ticket tx])))"

definition UpdateBlockIndexLotteryWinners :: "lottery_env \<Rightarrow> CTransaction list \<Rightarrow> CBlockIndex \<Rightarrow> CBlockIndex option" where
  "UpdateBlockIndexLotteryWinners E block_vtx newestBlockIndex =
    (let h = nHeight newestBlockIndex;
         previous = (case pprev newestBlockIndex of
           Some p \<Rightarrow> vLotteryWinnersCoinstakes (data p) | None \<Rightarrow> LotteryCoinstakeData_empty);
         tx = (if h > nLastPOWBlock (params E) then block_vtx ! 1 else block_vtx ! 0)
     in map_option (\<lambda>d. CBlockIndex (data newestBlockIndex \<lparr>vLotteryWinnersCoinstakes := d\<rparr>) (pprev newestBlockIndex) (pskip newestBlockIndex))
          (CalculateUpdatedLotteryWinners E tx previous h))"

section \<open>Keeping the best of a growing list\<close>

primrec place :: "('a \<Rightarrow> int) \<Rightarrow> 'a \<Rightarrow> 'a list \<Rightarrow> 'a list" where
  "place f x [] = [x]"
| "place f x (y # ys) = (if f y \<le> f x then y # place f x ys else x # y # ys)"

lemma mset_place [simp]: "mset (place f x ys) = add_mset x (mset ys)"
  by (induction ys) auto

lemma set_place [simp]: "set (place f x ys) = insert x (set ys)"
  by (induction ys) auto

lemma sorted_place: "sorted (map f ys) \<Longrightarrow> sorted (map f (place f x ys))"
  by (induction ys) (auto simp: sorted_wrt_map)

lemma filter_place:
  "sorted (map f ys) \<Longrightarrow> filter (\<lambda>y. f y = k) (place f x ys) = filter (\<lambda>y. f y = k) ys @ (if f x = k then [x] else [])"
proof (induction ys)
  case (Cons y ys)
  show ?case
  proof (cases "f y \<le> f x")
    case False
    then have "filter (\<lambda>y. f y = k) (y # ys) = []" if "f x = k" using that Cons.prems by (auto simp: filter_empty_conv)
    with False show ?thesis by auto
  qed (use Cons in auto)
qed simp

lemma sort_key_snoc: "sort_key f (xs @ [x]) = place f x (sort_key f xs)"
proof (rule properties_for_sort_key)
  show "filter (\<lambda>y. f k = f y) (place f x (sort_key f xs)) = filter (\<lambda>y. f k = f y) (xs @ [x])" for k
    using filter_place [of f "sort_key f xs" "f k" x] sort_key_stable [of f "f k" xs] by (simp add: eq_commute [of "f k"])
qed (simp_all add: sorted_place)

lemma place_last: "last (place f x ys) = x \<Longrightarrow> x \<notin> set ys \<Longrightarrow> place f x ys = ys @ [x]"
proof (induction ys)
  case (Cons y ys)
  have "place f x ys \<noteq> []" by (cases ys) auto
  with Cons show ?case by (auto split: if_splits)
qed simp

lemma take_place: "take n (place f x (take n ys)) = take n (place f x ys)"
proof (induction ys arbitrary: n)
  case (Cons y ys)
  then show ?case by (cases n) (auto simp: take_Cons' split: nat.splits)
qed simp

lemma take_sort_snoc: "take n (sort_key f (take n (sort_key f xs) @ [x])) = take n (sort_key f (xs @ [x]))"
  for f :: "'a \<Rightarrow> int"
proof -
  have "sort_key f (take n (sort_key f xs)) = take n (sort_key f xs)"
    by (rule sort_key_id_if_sorted) (metis sorted_sort_key sorted_wrt_take take_map)
  then show ?thesis by (simp add: sort_key_snoc take_place)
qed


section \<open>One step of the selection\<close>

lemma ranked_loop_spec:
  "distinct (map fst r @ map fst cs) \<Longrightarrow>
    length (ranked_loop E h r ps cs) = length r + length cs \<and>
    (\<forall>k. k \<notin> fst ` set cs \<longrightarrow> map_of (ranked_loop E h r ps cs) k = map_of r k) \<and>
    (\<forall>i<length cs. \<exists>d. map_of (ranked_loop E h r ps cs) (fst (cs ! i)) =
      Some \<lparr>score = CalculateLotteryScore E (fst (cs ! i)) h, rank = length r + i, isDuplicateScript = d\<rparr>)"
proof (induction cs arbitrary: r ps)
  case (Cons c cs)
  let ?v = "\<lparr>score = CalculateLotteryScore E (fst c) h, rank = length r, isDuplicateScript = snd c \<in> set ps\<rparr>"
  have new: "map_of r (fst c) = None" using Cons.prems by (auto simp: map_of_eq_None_iff)
  then have e: "emplace r (fst c) ?v = r @ [(fst c, ?v)]" by (simp add: emplace_def)
  have "distinct (map fst (r @ [(fst c, ?v)]) @ map fst cs)" using Cons.prems by auto
  note ih = Cons.IH [OF this, of "snd c # ps"]
  show ?case
  proof (intro conjI allI impI)
    show "length (ranked_loop E h r ps (c # cs)) = length r + length (c # cs)" using ih by (simp add: e)
    show "map_of (ranked_loop E h r ps (c # cs)) k = map_of r k" if "k \<notin> fst ` set (c # cs)" for k
      using ih that by (auto simp: e map_add_def split: option.splits)
    show "\<exists>d. map_of (ranked_loop E h r ps (c # cs)) (fst ((c # cs) ! i)) =
        Some \<lparr>score = CalculateLotteryScore E (fst ((c # cs) ! i)) h, rank = length r + i, isDuplicateScript = d\<rparr>"
      if "i < length (c # cs)" for i
    proof (cases i)
      case 0
      have "fst c \<notin> fst ` set cs" using Cons.prems by auto
      then show ?thesis using ih 0 new by (auto simp: e map_add_def)
    next
      case (Suc j)
      then show ?thesis using ih that by (auto simp: e)
    qed
  qed
qed simp

definition score_of :: "lottery_env \<Rightarrow> u256 \<Rightarrow> LotteryCoinstake \<Rightarrow> int" where
  "score_of E lastHash c = uint (CalculateLotteryScore E (fst c) lastHash)"

lemma computeRanked_spec:
  fixes E :: lottery_env and h :: u256
  assumes "distinct (map fst cs)"
  defines "r \<equiv> computeRankedScoreAwareCoinstakes E h cs"
  shows "length r = length cs" "c \<in> set cs \<Longrightarrow> uint (score (ranked r c)) = score_of E h c"
    "i < length cs \<Longrightarrow> rank (ranked r (cs ! i)) = i"
proof -
  have spec: "length r = length cs"
    "\<And>i. i < length cs \<Longrightarrow> \<exists>d. map_of r (fst (cs ! i)) =
      Some \<lparr>score = CalculateLotteryScore E (fst (cs ! i)) h, rank = i, isDuplicateScript = d\<rparr>"
    using ranked_loop_spec [of "[]" cs E h "[]"] assms(1) by (simp_all add: r_def computeRankedScoreAwareCoinstakes_def)
  show "length r = length cs" by (rule spec)
  show "uint (score (ranked r c)) = score_of E h c" if "c \<in> set cs"
    using that spec(2) by (fastforce simp: ranked_def score_of_def in_set_conv_nth)
  show "rank (ranked r (cs ! i)) = i" if "i < length cs"
    using spec(2) [OF that] by (auto simp: ranked_def)
qed

lemma sort_key_agree:
  assumes "\<And>x. x \<in> set xs \<Longrightarrow> f x = (g x :: int)"
  shows "sort_key f xs = sort_key g xs"
proof (rule properties_for_sort_key)
  have map: "map f (sort_key g xs) = map g (sort_key g xs)" using assms by (intro map_cong) simp_all
  show "sorted (map f (sort_key g xs))" unfolding map by simp
  fix k
  assume "k \<in> set (sort_key g xs)"
  then have "f k = g k" using assms by simp
  moreover have "filter (\<lambda>x. f k = f x) ys = filter (\<lambda>x. g x = f k) ys" if "set ys \<subseteq> set xs" for ys
    using that assms by (intro filter_cong) auto
  ultimately show "filter (\<lambda>x. f k = f x) (sort_key g xs) = filter (\<lambda>x. f k = f x) xs"
    by (simp add: sort_key_stable)
qed simp

lemma SortCoinstakes_sorted:
  assumes "distinct (map fst cs)"
  shows "SortCoinstakesByScore (computeRankedScoreAwareCoinstakes E h cs) cs = sort_key (\<lambda>c. - score_of E h c) cs"
proof (cases "length cs > 1")
  case True
  have "sort_key (\<lambda>c. - uint (score (ranked (computeRankedScoreAwareCoinstakes E h cs) c))) cs = sort_key (\<lambda>c. - score_of E h c) cs"
    using computeRanked_spec(2) [OF assms] by (intro sort_key_agree) simp
  with True show ?thesis using computeRanked_spec(1) [OF assms] by (simp add: SortCoinstakesByScore_def)
next
  case False
  then consider "cs = []" | c where "cs = [c]" by (cases cs) (auto simp: not_less le_Suc_eq)
  then show ?thesis using computeRanked_spec(1) [OF assms] by cases (simp_all add: SortCoinstakesByScore_def)
qed

text \<open>Without the rule against duplicates, the step keeps the eleven best of the old winners and the new coinstake.\<close>

lemma top_eleven_step:
  fixes E :: lottery_env and h :: u256
  assumes "distinct (map fst (l @ [c]))" "length l \<le> 11" "l = sort_key (\<lambda>c. - score_of E h c) l"
  defines "cs \<equiv> l @ [c]" and "r \<equiv> computeRankedScoreAwareCoinstakes E h (l @ [c])"
  shows "\<exists>u l'. TopElevenBestCoinstakesNeedUpdating False r (SortCoinstakesByScore r cs) = (u, l') \<and>
    (if u then l' else l) = take 11 (sort_key (\<lambda>c. - score_of E h c) cs)"
proof -
  let ?f = "\<lambda>c. - score_of E h c"
  let ?s = "sort_key ?f cs"
  have sorted: "SortCoinstakesByScore r cs = ?s" using SortCoinstakes_sorted [OF assms(1)] by (simp add: cs_def r_def)
  have len: "length r = Suc (length l)" using computeRanked_spec(1) [OF assms(1)] by (simp add: r_def)
  have rank_last: "rank (ranked r c) = length l"
    using computeRanked_spec(3) [OF assms(1), of "length l"] by (simp add: r_def)
  have rank_old: "rank (ranked r (l ! i)) = i" if "i < length l" for i
    using computeRanked_spec(3) [OF assms(1), of i] that by (simp add: r_def nth_append)
  have rank_mem: "rank (ranked r x) < length l" if "x \<in> set l" for x using that rank_old by (metis in_set_conv_nth)
  have s: "?s = place ?f c l" using sort_key_snoc [of ?f l c] assms(3) by (simp add: cs_def)
  have last_s: "last ?s = c \<or> last ?s \<in> set l"
    using last_in_set [of ?s] by (simp add: cs_def) (metis insert_iff last_in_set length_0_conv list.size(3) s set_place length_sort cs_def length_append_singleton nat.distinct(1))
  show ?thesis
  proof (cases "length l = 11")
    case False
    then have short: "length ?s \<le> 11" using assms(2) by (simp add: cs_def)
    have "rank (ranked r (last ?s)) \<noteq> 11"
      using last_s False assms(2) rank_last rank_mem [of "last ?s"] by auto
    with short len show ?thesis unfolding sorted by (simp add: TopElevenBestCoinstakesNeedUpdating_def Let_def)
  next
    case True
    have long: "length ?s = 12" using True by (simp add: cs_def)
    then have butlast: "butlast ?s = take 11 ?s" by (simp add: butlast_conv_take)
    show ?thesis
    proof (cases "last ?s = c")
      case new: True
      have "c \<notin> set l" using assms(1) by auto
      with new have "butlast ?s = l" using s place_last [of ?f c l] by simp
      with True new len rank_last long butlast show ?thesis
        unfolding sorted by (simp add: TopElevenBestCoinstakesNeedUpdating_def Let_def) blast
    next
      case False
      then have "rank (ranked r (last ?s)) \<noteq> 11" using last_s rank_mem [of "last ?s"] True by auto
      with len long butlast True show ?thesis
        unfolding sorted by (simp add: TopElevenBestCoinstakesNeedUpdating_def Let_def) blast
    qed
  qed
qed

section \<open>A whole lottery cycle\<close>

fun lottery_run :: "lottery_env \<Rightarrow> LotteryCoinstakeData \<Rightarrow> int \<Rightarrow> CTransaction list \<Rightarrow> LotteryCoinstakeData option" where
  "lottery_run E d h [] = Some d"
| "lottery_run E d h (tx # txs) = Option.bind (CalculateUpdatedLotteryWinners E tx d h) (\<lambda>d. lottery_run E d (h + 1) txs)"

fun tickets :: "lottery_env \<Rightarrow> int \<Rightarrow> CTransaction list \<Rightarrow> LotteryCoinstakes" where
  "tickets E h [] = []"
| "tickets E h (tx # txs) = (if IsCoinstakeValidForLottery E tx h then [ticket tx] else []) @ tickets E (h + 1) txs"

lemma payment_cycle: "GetLotteryBlockPaymentCycle P h = nLotteryBlockCycle P"
  by (simp add: GetLotteryBlockPaymentCycle_def superblockCycleLength_def)

lemma within_cycle:
  assumes "params_ok (params E)" "IsValidLotteryBlockHeight (params E) h0" "h0 < h" "h < h0 + nLotteryBlockCycle (params E)"
  shows "\<not> IsValidLotteryBlockHeight (params E) h" "startOfLotteryBlocks E < h" "0 < h" "nLastLotteryHeight E h = h0"
proof -
  let ?L = "nLotteryBlockCycle (params E)"
  have L: "1 < ?L" "1 < startOfLotteryBlocks E" using assms(1) by (auto simp: params_ok_def)
  have h0: "?L dvd h0" "startOfLotteryBlocks E \<le> h0" using assms(2) lottery_heights [OF assms(1)] by auto
  show "startOfLotteryBlocks E < h" "0 < h" using h0 assms(3) L by simp_all
  show "\<not> IsValidLotteryBlockHeight (params E) h"
  proof
    assume "IsValidLotteryBlockHeight (params E) h"
    then have "?L dvd h - h0" using lottery_heights [OF assms(1)] h0 by (simp add: dvd_diff)
    then have "?L \<le> h - h0" using assms(3) by (intro zdvd_imp_le) simp_all
    with assms(4) show False by simp
  qed
  have "(h - 1) div ?L = h0 div ?L"
  proof (rule div_interval)
    have "h0 div ?L * ?L = h0" using h0(1) by simp
    then show "h0 div ?L * ?L \<le> h - 1" "h - 1 < h0 div ?L * ?L + ?L" using assms(3,4) by linarith+
  qed
  then show "nLastLotteryHeight E h = h0"
    using h0 by (simp add: nLastLotteryHeight_def payment_cycle)
qed

lemma ticket_fst [simp]: "fst (ticket tx) = tx_hash tx"
  by (simp add: ticket_def)

lemma distinct_take_sort: "distinct (map g xs) \<Longrightarrow> distinct (map g (take n (sort_key (f :: 'a \<Rightarrow> int) xs)))"
  by (simp only: take_map [symmetric] distinct_take sort_key_by.distinct_map_srt)

lemma run_step:
  assumes "params_ok (params E)" "IsValidLotteryBlockHeight (params E) h0" "h0 < h" "h < h0 + nLotteryBlockCycle (params E)"
    and "chain_at (chainActive (subsidy E)) h0 = Some lb"
    and "\<not> IsActive (manual_fork E) (uint (nTime (data lb))) UniformLotteryWinners"
    and d: "getLotteryCoinstakes d = take 11 (sort_key (\<lambda>c. - score_of E (GetBlockHash lb) c) ts)"
    and "distinct (map fst (ts @ [ticket tx]))"
  shows "\<exists>d'. CalculateUpdatedLotteryWinners E tx d h = Some d' \<and> getLotteryCoinstakes d' =
    take 11 (sort_key (\<lambda>c. - score_of E (GetBlockHash lb) c) (ts @ (if IsCoinstakeValidForLottery E tx h then [ticket tx] else [])))"
proof (cases "IsCoinstakeValidForLottery E tx h")
  case False
  then show ?thesis using within_cycle [OF assms(1-4)] d by (simp add: CalculateUpdatedLotteryWinners_def)
next
  case True
  let ?f = "\<lambda>c. - score_of E (GetBlockHash lb) c"
  define l where "l = take 11 (sort_key ?f ts)"
  define r where "r = computeRankedScoreAwareCoinstakes E (GetBlockHash lb) (l @ [ticket tx])"
  have "tx_hash tx \<notin> fst ` set ts" using assms(8) by auto
  moreover have "set l \<subseteq> set ts" by (metis l_def set_sort set_take_subset)
  ultimately have "distinct (map fst (l @ [ticket tx]))"
    using assms(8) distinct_take_sort [of fst ts 11 ?f] by (auto simp: l_def)
  moreover have "l = sort_key ?f l"
    unfolding l_def by (rule sort_key_id_if_sorted [symmetric]) (metis sorted_sort_key sorted_wrt_take take_map)
  moreover have "length l \<le> 11" by (simp add: l_def)
  ultimately obtain u l' where top: "TopElevenBestCoinstakesNeedUpdating False r (SortCoinstakesByScore r (l @ [ticket tx])) = (u, l')"
    "(if u then l' else l) = take 11 (sort_key ?f (l @ [ticket tx]))"
    using top_eleven_step [of l "ticket tx" E "GetBlockHash lb"] by (auto simp: r_def)
  have "UpdateCoinstakes E h (l @ [ticket tx]) = Some (u, l')"
    using assms(5,6) within_cycle(4) [OF assms(1-4)] top(1)
    by (simp add: UpdateCoinstakes_def GetLastLotteryBlockIndexBeforeHeight_def r_def Let_def)
  then have "CalculateUpdatedLotteryWinners E tx d h = Some (if u then LotteryCoinstakeData_at h l' else getShallowCopy d)"
    using True within_cycle [OF assms(1-4)] d by (simp add: CalculateUpdatedLotteryWinners_def l_def)
  moreover have "getLotteryCoinstakes (if u then LotteryCoinstakeData_at h l' else getShallowCopy d) = (if u then l' else l)"
    using d by (simp add: l_def)
  ultimately show ?thesis using top(2) True take_sort_snoc [of 11 ?f ts "ticket tx"] by (simp add: l_def)
qed

lemma lottery_run_top:
  assumes "params_ok (params E)" "IsValidLotteryBlockHeight (params E) h0"
    and "chain_at (chainActive (subsidy E)) h0 = Some lb"
    and "\<not> IsActive (manual_fork E) (uint (nTime (data lb))) UniformLotteryWinners"
  shows "getLotteryCoinstakes d = take 11 (sort_key (\<lambda>c. - score_of E (GetBlockHash lb) c) ts) \<Longrightarrow>
    distinct (map fst ts @ map tx_hash txs) \<Longrightarrow> h0 < h \<Longrightarrow> h + int (length txs) \<le> h0 + nLotteryBlockCycle (params E) \<Longrightarrow>
    \<exists>d'. lottery_run E d h txs = Some d' \<and> getLotteryCoinstakes d' =
      take 11 (sort_key (\<lambda>c. - score_of E (GetBlockHash lb) c) (ts @ tickets E h txs))"
proof (induction txs arbitrary: d h ts)
  case (Cons tx txs)
  let ?t = "if IsCoinstakeValidForLottery E tx h then [ticket tx] else []"
  have "h < h0 + nLotteryBlockCycle (params E)" "distinct (map fst (ts @ [ticket tx]))" using Cons.prems(2,4) by auto
  from run_step [OF assms(1,2) Cons.prems(3) this(1) assms(3,4) Cons.prems(1) this(2)]
  obtain d1 where d1: "CalculateUpdatedLotteryWinners E tx d h = Some d1"
    "getLotteryCoinstakes d1 = take 11 (sort_key (\<lambda>c. - score_of E (GetBlockHash lb) c) (ts @ ?t))" by blast
  have "distinct (map fst (ts @ ?t) @ map tx_hash txs)" "h0 < h + 1" "h + 1 + int (length txs) \<le> h0 + nLotteryBlockCycle (params E)"
    using Cons.prems by auto
  from Cons.IH [OF d1(2) this] d1(1) show ?case by simp
qed simp

text \<open>
  C20: Before the fork to uniform winners, the winners that the last block of a lottery cycle carries
  are the eleven coinstakes with the highest scores among all valid coinstakes since the last lottery
  block, in order of score and, at equal scores, of entry; the update from block to block never fails.
  This is for the parameters of the main and the test network (\<open>params_ok\<close>), coinstakes with different hashes, fewer blocks than the
  cycle has, and one environment \<open>E\<close> (the chain up to the lottery block, the fork times, the verdicts on coinstakes) for all of these blocks.
\<close>

theorem lottery_top_eleven:
  assumes "params_ok (params E)" "IsValidLotteryBlockHeight (params E) h0"
    and "chain_at (chainActive (subsidy E)) h0 = Some lb"
    and "\<not> IsActive (manual_fork E) (uint (nTime (data lb))) UniformLotteryWinners"
    and "distinct (map tx_hash txs)" "int (length txs) < nLotteryBlockCycle (params E)"
  shows "\<exists>d. lottery_run E (LotteryCoinstakeData_at h0 []) (h0 + 1) txs = Some d \<and> getLotteryCoinstakes d =
    take 11 (sort_key (\<lambda>c. - score_of E (GetBlockHash lb) c) (tickets E (h0 + 1) txs))"
  using lottery_run_top [OF assms(1-4), of "LotteryCoinstakeData_at h0 []" "[]" txs "h0 + 1"] assms(5,6) by simp

section \<open>Uniform winners\<close>

definition winners_ok :: "lottery_env \<Rightarrow> u256 \<Rightarrow> LotteryCoinstakes \<Rightarrow> bool" where
  "winners_ok E lastHash l \<longleftrightarrow> length l \<le> 11 \<and> sorted_wrt (\<lambda>a b. score_of E lastHash b \<le> score_of E lastHash a) l \<and>
    distinct (map fst l)"

lemma sorted_wrt_sort_key: "sorted_wrt (\<lambda>a b. g b \<le> g a) (sort_key (\<lambda>c. - g c) xs)" for g :: "'a \<Rightarrow> int"
  using sorted_sort_key [of "\<lambda>c. - g c" xs] by (simp add: sorted_wrt_map)

lemma winners_ok_erase:
  assumes "sorted_wrt (\<lambda>a b. score_of E h b \<le> score_of E h a) xs" "distinct (map fst xs)" "i < length xs" "length xs \<le> 12"
  shows "winners_ok E h (take i xs @ drop (Suc i) xs) \<and> set (take i xs @ drop (Suc i) xs) \<subseteq> set xs"
proof -
  have xs: "xs = take i xs @ xs ! i # drop (Suc i) xs" by (rule id_take_nth_drop [OF assms(3)])
  obtain ys x zs where split: "ys = take i xs" "x = xs ! i" "zs = drop (Suc i) xs" by blast
  with xs have "xs = ys @ x # zs" by simp
  with assms show ?thesis unfolding split [symmetric] by (auto simp: winners_ok_def sorted_wrt_append)
qed

lemma top_eleven_ok:
  fixes E :: lottery_env and h :: u256 and trim :: bool
  assumes "distinct (map fst cs)" "length cs \<le> 12"
  defines "r \<equiv> computeRankedScoreAwareCoinstakes E h cs"
  defines "l \<equiv> snd (TopElevenBestCoinstakesNeedUpdating trim r (SortCoinstakesByScore r cs))"
  shows "winners_ok E h l" "set l \<subseteq> set cs"
proof -
  define ys where "ys = sort_key (\<lambda>c. - score_of E h c) cs"
  have sorted: "SortCoinstakesByScore r cs = ys" using SortCoinstakes_sorted [OF assms(1)] by (simp add: r_def ys_def)
  have ys: "sorted_wrt (\<lambda>a b. score_of E h b \<le> score_of E h a) ys" "distinct (map fst ys)" "length ys \<le> 12" "set ys = set cs"
    using assms(1,2) sorted_wrt_sort_key [of "score_of E h" cs] by (simp_all add: ys_def sort_key_by.distinct_map_srt)
  consider "length ys \<le> 11" "l = ys" | i where "i < length ys" "l = take i ys @ drop (Suc i) ys"
  proof (cases "length ys \<le> 11")
    case True
    with that(1) show ?thesis by (simp add: l_def sorted TopElevenBestCoinstakesNeedUpdating_def Let_def)
  next
    case False
    then have last: "butlast ys = take (length ys - 1) ys @ drop (Suc (length ys - 1)) ys" "length ys - 1 < length ys"
      by (simp_all add: butlast_conv_take)
    have "i < length ys" if "find P (rev [0..<length ys]) = Some i" for P i
      using that by (auto simp: find_Some_iff) (metis diff_Suc_less length_greater_0_conv length_rev length_upt list.size(3) nth_mem
          set_rev set_upt atLeastLessThan_iff minus_nat.diff_0)
    moreover define fi where
      "fi = (if \<not> trim then None else find (\<lambda>i. isDuplicateScript (ranked r (ys ! i))) (rev [0..<length ys]))"
    ultimately have fi: "i < length ys" if "fi = Some i" for i using that by (simp split: if_splits)
    have l: "l = (case fi of None \<Rightarrow> butlast ys | Some i \<Rightarrow> take i ys @ drop (Suc i) ys)"
      using False by (simp add: l_def sorted TopElevenBestCoinstakesNeedUpdating_def Let_def fi_def split: option.split)
    show ?thesis
    proof (cases fi)
      case None
      with l last show ?thesis by (intro that(2) [of "length ys - 1"]) simp_all
    next
      case (Some i)
      with l fi show ?thesis by (intro that(2) [of i]) simp_all
    qed
  qed
  then have "winners_ok E h l \<and> set l \<subseteq> set ys"
    using winners_ok_erase [OF ys(1,2) _ ys(3)] ys(1,2) by cases (simp_all add: winners_ok_def)
  then show "winners_ok E h l" "set l \<subseteq> set cs" using ys(4) by simp_all
qed

text \<open>One block, under either rule.\<close>

lemma winners_step:
  assumes "params_ok (params E)" "IsValidLotteryBlockHeight (params E) h0" "h0 < h" "h < h0 + nLotteryBlockCycle (params E)"
    and "chain_at (chainActive (subsidy E)) h0 = Some lb"
    and d: "winners_ok E (GetBlockHash lb) (getLotteryCoinstakes d)" "tx_hash tx \<notin> fst ` set (getLotteryCoinstakes d)"
  defines "new \<equiv> (if IsCoinstakeValidForLottery E tx h \<and> \<not> (IsActive (manual_fork E) (uint (nTime (data lb))) UniformLotteryWinners \<and>
    IsPaymentScriptVetoed E (snd (ticket tx)) h) then {ticket tx} else {})"
  shows "\<exists>d'. CalculateUpdatedLotteryWinners E tx d h = Some d' \<and> winners_ok E (GetBlockHash lb) (getLotteryCoinstakes d') \<and>
    set (getLotteryCoinstakes d') \<subseteq> set (getLotteryCoinstakes d) \<union> new"
proof -
  let ?l = "getLotteryCoinstakes d" and ?uniform = "IsActive (manual_fork E) (uint (nTime (data lb))) UniformLotteryWinners"
  let ?r = "computeRankedScoreAwareCoinstakes E (GetBlockHash lb) (?l @ [ticket tx])"
  let ?top = "TopElevenBestCoinstakesNeedUpdating ?uniform ?r (SortCoinstakesByScore ?r (?l @ [ticket tx]))"
  note cyc = within_cycle [OF assms(1-4)]
  have "distinct (map fst (?l @ [ticket tx]))" "length (?l @ [ticket tx]) \<le> 12" using d by (simp_all add: winners_ok_def)
  note ok = top_eleven_ok [OF this, where E = E and h = "GetBlockHash lb" and trim = ?uniform]
  have upd: "UpdateCoinstakes E h (?l @ [ticket tx]) =
      Some (if ?uniform \<and> IsPaymentScriptVetoed E (snd (ticket tx)) h then (False, ?l @ [ticket tx]) else ?top)"
    using assms(5) cyc(4) by (simp add: UpdateCoinstakes_def GetLastLotteryBlockIndexBeforeHeight_def Let_def)
  show ?thesis
  proof (cases "IsCoinstakeValidForLottery E tx h \<and> \<not> (?uniform \<and> IsPaymentScriptVetoed E (snd (ticket tx)) h)")
    case True
    obtain u l' where top: "?top = (u, l')" by (cases ?top)
    then have "CalculateUpdatedLotteryWinners E tx d h = Some (if u then LotteryCoinstakeData_at h l' else getShallowCopy d)"
      using True cyc upd by (auto simp: CalculateUpdatedLotteryWinners_def)
    with ok top d(1) True show ?thesis by (auto simp: new_def)
  next
    case False
    then have "CalculateUpdatedLotteryWinners E tx d h = Some (getShallowCopy d)"
      using cyc upd by (auto simp: CalculateUpdatedLotteryWinners_def)
    with d(1) show ?thesis by simp
  qed
qed

lemma veto_constant:
  assumes "params_ok (params E)" "IsValidLotteryBlockHeight (params E) h0" "h0 < h" "h < h0 + nLotteryBlockCycle (params E)"
  shows "IsPaymentScriptVetoed E s h = IsPaymentScriptVetoed E s (h0 + 1)"
proof -
  have "h0 + 1 < h0 + nLotteryBlockCycle (params E)" using assms(3,4) by linarith
  then show ?thesis
    using within_cycle(4) [OF assms] within_cycle(4) [OF assms(1,2), of "h0 + 1"]
    by (simp add: IsPaymentScriptVetoed_def payment_cycle)
qed

lemma lottery_run_ok:
  assumes "params_ok (params E)" "IsValidLotteryBlockHeight (params E) h0"
    and "chain_at (chainActive (subsidy E)) h0 = Some lb"
  defines "barred \<equiv> (\<lambda>c. IsActive (manual_fork E) (uint (nTime (data lb))) UniformLotteryWinners \<and>
    IsPaymentScriptVetoed E (snd c) (h0 + 1))"
  shows "winners_ok E (GetBlockHash lb) (getLotteryCoinstakes d) \<Longrightarrow> set (getLotteryCoinstakes d) \<subseteq> {c \<in> set ts. \<not> barred c} \<Longrightarrow>
    distinct (map fst ts @ map tx_hash txs) \<Longrightarrow> h0 < h \<Longrightarrow> h + int (length txs) \<le> h0 + nLotteryBlockCycle (params E) \<Longrightarrow>
    \<exists>d'. lottery_run E d h txs = Some d' \<and> winners_ok E (GetBlockHash lb) (getLotteryCoinstakes d') \<and>
      set (getLotteryCoinstakes d') \<subseteq> {c \<in> set (ts @ tickets E h txs). \<not> barred c}"
proof (induction txs arbitrary: d h ts)
  case (Cons tx txs)
  let ?t = "if IsCoinstakeValidForLottery E tx h then [ticket tx] else []"
  have lt: "h < h0 + nLotteryBlockCycle (params E)" using Cons.prems(5) by simp
  have "tx_hash tx \<notin> fst ` set (getLotteryCoinstakes d)" using Cons.prems(2,3) by auto
  from winners_step [OF assms(1,2) Cons.prems(4) lt assms(3) Cons.prems(1) this]
  obtain d1 where d1: "CalculateUpdatedLotteryWinners E tx d h = Some d1" "winners_ok E (GetBlockHash lb) (getLotteryCoinstakes d1)"
    "set (getLotteryCoinstakes d1) \<subseteq> set (getLotteryCoinstakes d) \<union> (if IsCoinstakeValidForLottery E tx h \<and> \<not> barred (ticket tx) then {ticket tx} else {})"
    unfolding barred_def veto_constant [OF assms(1,2) Cons.prems(4) lt] by blast
  have "set (getLotteryCoinstakes d1) \<subseteq> {c \<in> set (ts @ ?t). \<not> barred c}"
    using d1(3) Cons.prems(2) by (auto split: if_splits)
  moreover have "distinct (map fst (ts @ ?t) @ map tx_hash txs)" "h0 < h + 1" "h + 1 + int (length txs) \<le> h0 + nLotteryBlockCycle (params E)"
    using Cons.prems by auto
  ultimately show ?case using Cons.IH [OF d1(2), of "ts @ ?t" "h + 1"] d1(1) by simp
qed auto

text \<open>
  Under either rule, and whatever coinstakes the blocks of a lottery cycle enter, the update from
  block to block never fails and the winners are at most eleven valid coinstakes of this cycle with
  different transactions, in falling order of score; once winners are uniform, no coinstake wins whose
  payment script won in one of the last three lotteries the chain still holds.
\<close>

theorem lottery_winners_ok:
  assumes "params_ok (params E)" "IsValidLotteryBlockHeight (params E) h0"
    and "chain_at (chainActive (subsidy E)) h0 = Some lb"
    and "distinct (map tx_hash txs)" "int (length txs) < nLotteryBlockCycle (params E)"
  shows "\<exists>d. lottery_run E (LotteryCoinstakeData_at h0 []) (h0 + 1) txs = Some d \<and>
    winners_ok E (GetBlockHash lb) (getLotteryCoinstakes d) \<and> set (getLotteryCoinstakes d) \<subseteq> set (tickets E (h0 + 1) txs) \<and>
    (IsActive (manual_fork E) (uint (nTime (data lb))) UniformLotteryWinners \<longrightarrow>
      (\<forall>c\<in>set (getLotteryCoinstakes d). \<not> IsPaymentScriptVetoed E (snd c) (h0 + 1)))"
  using lottery_run_ok [OF assms(1-3), of "LotteryCoinstakeData_at h0 []" "[]" txs "h0 + 1"] assms(4,5)
  by (auto simp: winners_ok_def)

section \<open>Instances\<close>

text \<open>A test network whose block 200 is a lottery block, and two coinbases that enter.\<close>

definition example_lottery :: "u32 \<Rightarrow> lottery_env" where
  "example_lottery t = \<lparr>subsidy = example_env\<lparr>chainActive := replicate 200 None @ [Some (CBlockIndex (example_data 200\<lparr>nTime := t\<rparr>) None None)]\<rparr>,
    params = CTestNetParams, score_hash = (\<lambda>a b. a + b), manual_fork = None\<rparr>"

definition example_tx :: "u256 \<Rightarrow> CTransaction" where
  "example_tx n = \<lparr>txVersion = 1, vin = [CTxIn_new], vout = [\<lparr>nValue = 20000 * COIN, scriptPubKey = [ucast n]\<rparr>], nLockTime = 0, tx_hash = n\<rparr>"

lemma example_lottery_height: "IsValidLotteryBlockHeight CTestNetParams 200"
  by (simp add: lottery_heights [OF params_ok_networks(2)]) (simp add: CTestNetParams_def)

lemma example_lottery_chain:
  "chain_at (chainActive (subsidy (example_lottery t))) 200 = Some (CBlockIndex (example_data 200\<lparr>nTime := t\<rparr>) None None)"
  by (simp add: chain_at_def example_lottery_def nth_append)

lemma example_tickets: "tickets (example_lottery t) 201 [example_tx 1, example_tx 2] = [(1, [1]), (2, [2])]"
  by (simp add: IsCoinstakeValidForLottery_def minimumCoinstakeForTicket_def example_lottery_def example_env_def IsSporkActive_def
      IsMultiValueSpork_def CSporkManager_new_def Mapping.lookup_empty Let_def example_tx_def IsCoinBase_def CTxIn_new_def
      COutPoint_IsNull_def COutPoint_SetNull_def COIN_def ticket_def)

theorem lottery_top_eleven_witness:
  "\<exists>d. lottery_run (example_lottery 0) (LotteryCoinstakeData_at 200 []) 201 [example_tx 1, example_tx 2] = Some d \<and>
    getLotteryCoinstakes d = [(2, [2]), (1, [1])]"
proof -
  let ?lb = "CBlockIndex (example_data 200\<lparr>nTime := 0\<rparr>) None None"
  have par: "params (example_lottery 0) = CTestNetParams" by (simp add: example_lottery_def)
  have early: "\<not> IsActive (manual_fork (example_lottery 0)) (uint (nTime (data ?lb))) UniformLotteryWinners"
    by (simp add: IsActive_def manualOverrides_def unixTimestampForDec31stMidnight_def)
  have scores: "score_of (example_lottery 0) (GetBlockHash ?lb) (n, s) = uint (n + 200)" for n s
    by (simp add: score_of_def CalculateLotteryScore_def example_lottery_def GetBlockHash_def example_data_def)
  have "distinct (map tx_hash [example_tx 1, example_tx 2])" "int (length [example_tx 1, example_tx 2]) < nLotteryBlockCycle CTestNetParams"
    by (simp_all add: example_tx_def CTestNetParams_def)
  with lottery_top_eleven [of "example_lottery 0" 200 ?lb "[example_tx 1, example_tx 2]"]
  show ?thesis
    using params_ok_networks(2) example_lottery_height example_lottery_chain early
    unfolding par by (simp add: example_tickets [of 0, simplified] scores)
qed

theorem lottery_winners_ok_witness:
  "\<exists>d. lottery_run (example_lottery 1700000000) (LotteryCoinstakeData_at 200 []) 201 [example_tx 1, example_tx 2] = Some d \<and>
    length (getLotteryCoinstakes d) \<le> 11 \<and> set (getLotteryCoinstakes d) \<subseteq> {(1, [1]), (2, [2])}"
proof -
  let ?E = "example_lottery 1700000000" and ?txs = "[example_tx 1, example_tx 2]"
  have par: "params ?E = CTestNetParams" by (simp add: example_lottery_def)
  have txs: "distinct (map tx_hash ?txs)" "int (length ?txs) < nLotteryBlockCycle (params ?E)"
    by (simp_all add: par) (simp_all add: example_tx_def CTestNetParams_def)
  obtain d where "lottery_run ?E (LotteryCoinstakeData_at 200 []) (200 + 1) ?txs = Some d"
    "winners_ok ?E (GetBlockHash (CBlockIndex (example_data 200\<lparr>nTime := 1700000000\<rparr>) None None)) (getLotteryCoinstakes d)"
    "set (getLotteryCoinstakes d) \<subseteq> set (tickets ?E (200 + 1) ?txs)"
    using lottery_winners_ok [OF _ _ example_lottery_chain txs] params_ok_networks(2) example_lottery_height unfolding par by blast
  then show ?thesis
    by (intro exI [of _ d]) (simp add: example_tickets winners_ok_def del: lottery_run.simps tickets.simps)
qed

end
