(* ===== verification/Incentives.thy ===== *)
theory Incentives
  imports Lottery
begin

text \<open>
  Payment and checking of block incentives (\<^verbatim>\<open>BlockIncentivesPopulator.cpp\<close>): what a minting node adds to its
  transaction, and what every node demands of it. The theory composes the rewards of \<open>Subsidies\<close> with the winners
  of \<open>Lottery\<close>: what is filled in is accepted, and a lottery never pays more than its reward.
\<close>

section \<open>Operations\<close>

text \<open>
  What the class refers to: the subsidy provider and height validator through the lottery environment, the
  network, the script of an address, and the masternode module and settings, which are not modelled.
\<close>

record incentives_env =
  lottery :: lottery_env
  is_main :: bool
  GetScriptForAddress :: "string \<Rightarrow> CScript"
  MasternodesSynced :: bool
  GetBlockHashForScoring :: "CBlockIndex \<Rightarrow> u256 option"
  MasternodeTransactionValid :: "CTxOut list \<Rightarrow> u256 \<Rightarrow> bool"
  MasternodeFillBlockPayee :: "CBlockIndex \<Rightarrow> CTxOut list \<Rightarrow> CBlockRewards \<Rightarrow> bool \<Rightarrow> CTxOut list"
  override_mnpayee :: bool

definition TREASURY_PAYMENT_ADDRESS :: string where
  "TREASURY_PAYMENT_ADDRESS = ''DPhJsztbZafDc1YeyrRqSjmKjkmLJpQpUn''"

definition CHARITY_PAYMENT_ADDRESS :: string where
  "CHARITY_PAYMENT_ADDRESS = ''DPujt2XAdHyRcZNB5ySZBBVKjzY2uXZGYq''"

definition TREASURY_PAYMENT_ADDRESS_TESTNET :: string where
  "TREASURY_PAYMENT_ADDRESS_TESTNET = ''xw7G6toCcLr2J7ZK8zTfVRhAPiNc8AyxCd''"

definition CHARITY_PAYMENT_ADDRESS_TESTNET :: string where
  "CHARITY_PAYMENT_ADDRESS_TESTNET = ''y8zytdJziDeXcdk48Wv7LH6FgnF4zDiXM5''"

definition TreasuryPaymentAddress :: "incentives_env \<Rightarrow> string" where
  "TreasuryPaymentAddress E = (if is_main E then TREASURY_PAYMENT_ADDRESS else TREASURY_PAYMENT_ADDRESS_TESTNET)"

definition CharityPaymentAddress :: "incentives_env \<Rightarrow> string" where
  "CharityPaymentAddress E = (if is_main E then CHARITY_PAYMENT_ADDRESS else CHARITY_PAYMENT_ADDRESS_TESTNET)"

text \<open>The loop over the winners; the first gets the big reward.\<close>

fun lottery_payment_loop :: "int \<Rightarrow> int \<Rightarrow> CTxOut list \<Rightarrow> nat \<Rightarrow> LotteryCoinstakes \<Rightarrow> bool" where
  "lottery_payment_loop nBigReward nSmallReward outs i [] = True"
| "lottery_payment_loop nBigReward nSmallReward outs i (w # ws) =
    (let reward = (if i = 0 then nBigReward else nSmallReward)
     in if \<lparr>nValue = reward, scriptPubKey = snd w\<rparr> \<notin> set outs then False
        else lottery_payment_loop nBigReward nSmallReward outs (Suc i) ws)"

definition IsValidLotteryPayment :: "CBlockRewards \<Rightarrow> CTxOut list \<Rightarrow> LotteryCoinstakes \<Rightarrow> bool" where
  "IsValidLotteryPayment rewards outs winners =
    (if winners = [] then True
     else let nBigReward = rwLottery rewards sdiv 2; nSmallReward = nBigReward sdiv 10
          in lottery_payment_loop nBigReward nSmallReward outs 0 winners)"

definition IsValidTreasuryPayment :: "incentives_env \<Rightarrow> CBlockRewards \<Rightarrow> CTxOut list \<Rightarrow> bool" where
  "IsValidTreasuryPayment E rewards outs =
    (let verifyPayment = (\<lambda>address amount. \<lparr>nValue = amount, scriptPubKey = GetScriptForAddress E address\<rparr> \<in> set outs)
     in if \<not> verifyPayment (TreasuryPaymentAddress E) (rwTreasury rewards) then False
        else if \<not> verifyPayment (CharityPaymentAddress E) (rwCharity rewards) then False
        else True)"

abbreviation rewards_at :: "incentives_env \<Rightarrow> int \<Rightarrow> reward_error + CBlockRewards" where
  "rewards_at E h \<equiv> GetBlockSubsidity (subsidy (lottery E)) (params (lottery E)) h"

definition FillTreasuryPayment :: "incentives_env \<Rightarrow> CTxOut list \<Rightarrow> int \<Rightarrow> reward_error + CTxOut list" where
  "FillTreasuryPayment E outs h =
    (case rewards_at E h of
       Inl e \<Rightarrow> Inl e
     | Inr r \<Rightarrow> Inr (outs @ [\<lparr>nValue = rwTreasury r, scriptPubKey = GetScriptForAddress E (TreasuryPaymentAddress E)\<rparr>,
         \<lparr>nValue = rwCharity r, scriptPubKey = GetScriptForAddress E (CharityPaymentAddress E)\<rparr>]))"

fun fill_lottery_loop :: "int \<Rightarrow> int \<Rightarrow> nat \<Rightarrow> LotteryCoinstakes \<Rightarrow> CTxOut list" where
  "fill_lottery_loop nBigReward nSmallReward i [] = []"
| "fill_lottery_loop nBigReward nSmallReward i (w # ws) =
    \<lparr>nValue = (if i = 0 then nBigReward else nSmallReward), scriptPubKey = snd w\<rparr> #
    fill_lottery_loop nBigReward nSmallReward (Suc i) ws"

definition FillLotteryPayment :: "CTxOut list \<Rightarrow> CBlockRewards \<Rightarrow> CBlockIndex \<Rightarrow> CTxOut list" where
  "FillLotteryPayment outs rewards currentBlockIndex =
    (let lotteryWinners = getLotteryCoinstakes (vLotteryWinnersCoinstakes (data currentBlockIndex));
         nBigReward = rwLottery rewards sdiv 2; nSmallReward = nBigReward sdiv 10
     in outs @ fill_lottery_loop nBigReward nSmallReward 0 lotteryWinners)"

definition FillBlockPayee ::
  "incentives_env \<Rightarrow> CTxOut list \<Rightarrow> CBlockRewards \<Rightarrow> CBlockIndex \<Rightarrow> bool \<Rightarrow> reward_error + CTxOut list" where
  "FillBlockPayee E outs payments chainTip fProofOfStake =
    (if IsValidTreasuryBlockHeight (params (lottery E)) (nHeight chainTip + 1) then FillTreasuryPayment E outs (nHeight chainTip + 1)
     else if IsValidLotteryBlockHeight (params (lottery E)) (nHeight chainTip + 1) then Inr (FillLotteryPayment outs payments chainTip)
     else Inr (MasternodeFillBlockPayee E chainTip outs payments fProofOfStake))"

definition IsBlockValueValid :: "incentives_env \<Rightarrow> CBlockRewards \<Rightarrow> int \<Rightarrow> int \<Rightarrow> bool" where
  "IsBlockValueValid E expected nMinted h =
    (let nExpectedMintCombined = rwStake expected + rwMasternode expected;
         nExpectedMintCombined =
           (if IsValidTreasuryBlockHeight (params (lottery E)) h then nExpectedMintCombined + (rwTreasury expected + rwCharity expected)
            else if IsValidLotteryBlockHeight (params (lottery E)) h then nExpectedMintCombined + rwLottery expected
            else nExpectedMintCombined)
     in \<not> nMinted > nExpectedMintCombined)"

definition HasValidMasternodePayee :: "incentives_env \<Rightarrow> CTxOut list \<Rightarrow> CBlockIndex \<Rightarrow> bool" where
  "HasValidMasternodePayee E outs pindex =
    (if \<not> MasternodesSynced E then True
     else if nHeight pindex \<le> 100 then True
     else case GetBlockHashForScoring E pindex of
       None \<Rightarrow> False
     | Some seedHash \<Rightarrow>
         if MasternodeTransactionValid E outs seedHash \<or> override_mnpayee E then True
         else let S = subsidy (lottery E)
              in \<not> IsSporkActive (slib S) (adjustedTime S) (sporkManager S) SPORK_8_MASTERNODE_PAYMENT_ENFORCEMENT = Some True)"

text \<open>The block checked has a predecessor when it is a lottery block.\<close>

definition HasValidPayees :: "incentives_env \<Rightarrow> CTxOut list \<Rightarrow> CBlockIndex \<Rightarrow> reward_error + bool" where
  "HasValidPayees E outs pindex =
    (if IsValidTreasuryBlockHeight (params (lottery E)) (nHeight pindex) then
       case rewards_at E (nHeight pindex) of Inl e \<Rightarrow> Inl e | Inr r \<Rightarrow> Inr (IsValidTreasuryPayment E r outs)
     else if IsValidLotteryBlockHeight (params (lottery E)) (nHeight pindex) then
       case rewards_at E (nHeight pindex) of
         Inl e \<Rightarrow> Inl e
       | Inr r \<Rightarrow> Inr (IsValidLotteryPayment r outs
           (case pprev pindex of Some p \<Rightarrow> getLotteryCoinstakes (vLotteryWinnersCoinstakes (data p)) | None \<Rightarrow> []))
     else Inr (HasValidMasternodePayee E outs pindex))"

section \<open>What is filled in is accepted\<close>

lemma fill_lottery_loop_valid:
  "set (fill_lottery_loop big small i ws) \<subseteq> set outs \<Longrightarrow> lottery_payment_loop big small outs i ws"
  by (induction ws arbitrary: i) (auto simp: Let_def)

text \<open>
  C29: On a superblock, whatever outputs the minting transaction already has, the payments that the
  minting node adds for the next height, when adding them succeeds, are accepted by the check of every node that has the same chain
  state, for treasury and for lottery blocks.
\<close>

theorem filled_payees_valid:
  assumes "pprev pindex = Some tip" "nHeight pindex = nHeight tip + 1"
    and "IsValidTreasuryBlockHeight (params (lottery E)) (nHeight pindex) \<or>
      IsValidLotteryBlockHeight (params (lottery E)) (nHeight pindex)"
    and "rewards_at E (nHeight pindex) = Inr r" "FillBlockPayee E outs r tip stake = Inr outs'"
  shows "HasValidPayees E outs' pindex = Inr True"
  using assms fill_lottery_loop_valid [of "rwLottery r sdiv 2" "rwLottery r sdiv 2 sdiv 10" 0 _ outs']
  by (auto simp: HasValidPayees_def FillBlockPayee_def FillTreasuryPayment_def FillLotteryPayment_def IsValidTreasuryPayment_def
      IsValidLotteryPayment_def Let_def split: if_splits)

section \<open>The lottery pays at most its reward\<close>

lemma fill_lottery_sum:
  "sum_list (map nValue (fill_lottery_loop big small i ws)) =
    (if i = 0 \<and> ws \<noteq> [] then big + small * (int (length ws) - 1) else small * int (length ws))"
  by (induction ws arbitrary: i) (auto simp: algebra_simps)

lemma fill_lottery_le:
  assumes "length ws \<le> 11" "0 \<le> reward"
  defines "big \<equiv> reward sdiv 2" and "small \<equiv> reward sdiv 2 sdiv 10"
  shows "sum_list (map nValue (fill_lottery_loop big small 0 ws)) \<le> reward"
proof (cases "ws = []")
  case False
  have b: "big = reward div 2" "small = reward div 2 div 10"
    using assms(2) by (simp_all add: big_def small_def sdiv_nonneg pos_imp_zdiv_nonneg_iff)
  then have "0 \<le> small" "10 * small \<le> big" "2 * big \<le> reward" using assms(2) by (simp_all add: pos_imp_zdiv_nonneg_iff)
  moreover have "small * (int (length ws) - 1) \<le> small * 10" using assms(1) \<open>0 \<le> small\<close> by (intro mult_left_mono) simp_all
  ultimately show ?thesis using False by (simp add: fill_lottery_sum)
qed (use assms(2) in simp)

text \<open>
  The winners that a lottery cycle selects are paid at most the lottery reward of the block: for
  every cycle of coinstakes, the outputs that the minting node adds on the lottery block sum up to no
  more than the reward the schedule grants, and the value check accepts a mint of these payments on top
  of the stake and masternode shares.
\<close>

theorem lottery_payment_bounded:
  assumes "params_ok (params (lottery E))" "no_sporks (subsidy (lottery E))"
    and "IsValidLotteryBlockHeight (params (lottery E)) h0"
    and "chain_at (chainActive (subsidy (lottery E))) h0 = Some lb"
    and "distinct (map tx_hash txs)" "int (length txs) + 1 = nLotteryBlockCycle (params (lottery E))"
    and "lottery_run (lottery E) (LotteryCoinstakeData_at h0 []) (h0 + 1) txs = Some d"
    and "vLotteryWinnersCoinstakes (data tip) = d" "nHeight tip = h0 + int (length txs)"
  shows "\<exists>r paid. rewards_at E (nHeight tip + 1) = Inr r \<and> FillBlockPayee E outs r tip stake = Inr (outs @ paid) \<and>
    sum_list (map nValue paid) \<le> rwLottery r \<and>
    IsBlockValueValid E r (rwStake r + rwMasternode r + sum_list (map nValue paid)) (nHeight tip + 1)"
proof -
  let ?P = "params (lottery E)" and ?h = "nHeight tip + 1"
  have h: "?h = h0 + nLotteryBlockCycle ?P" using assms(6,9) by simp
  have h0: "nLotteryBlockStartBlock ?P \<le> h0" "nLotteryBlockCycle ?P dvd h0" "0 < nLotteryBlockCycle ?P"
    using assms(1,3) lottery_heights [OF assms(1)] by (auto simp: params_ok_def)
  then have lot: "IsValidLotteryBlockHeight ?P ?h" using h lottery_heights [OF assms(1)] by simp
  then have tre: "\<not> IsValidTreasuryBlockHeight ?P ?h" using no_common_height [OF assms(1)] by blast
  have start: "nLotteryBlockStartBlock ?P \<le> ?h" using h h0 by simp
  obtain r where r: "rewards_at E ?h = Inr r" "rwLottery r = 50 * COIN * nLotteryBlockCycle ?P"
    using superblock_rewards [OF assms(1,2) start] lot by simp
  have "length (getLotteryCoinstakes d) \<le> 11"
    using lottery_run_ok [OF assms(1,3,4), of "LotteryCoinstakeData_at h0 []" "[]" txs "h0 + 1"] assms(5,6,7)
    by (auto simp: winners_ok_def)
  moreover have "0 \<le> rwLottery r" using r(2) h0(3) by (simp add: COIN_def)
  ultimately have "sum_list (map nValue (fill_lottery_loop (rwLottery r sdiv 2) (rwLottery r sdiv 2 sdiv 10) 0
      (getLotteryCoinstakes d))) \<le> rwLottery r"
    by (rule fill_lottery_le)
  with r lot tre assms(8) show ?thesis
    by (simp add: FillBlockPayee_def FillLotteryPayment_def IsBlockValueValid_def Let_def)
qed

section \<open>Instances\<close>

definition example_incentives :: "u32 \<Rightarrow> incentives_env" where
  "example_incentives t = \<lparr>lottery = example_lottery t, is_main = False, GetScriptForAddress = (\<lambda>a. [of_nat (length a)]),
    MasternodesSynced = True, GetBlockHashForScoring = (\<lambda>b. None), MasternodeTransactionValid = (\<lambda>outs s. True),
    MasternodeFillBlockPayee = (\<lambda>b outs r s. outs), override_mnpayee = False\<rparr>"

lemma example_incentives_no_sporks: "no_sporks (subsidy (lottery (example_incentives t)))"
  using example_no_sporks by (simp add: example_incentives_def example_lottery_def no_sporks_def)

lemma example_incentives_params: "params (lottery (example_incentives t)) = CTestNetParams"
  by (simp add: example_incentives_def example_lottery_def)

lemma example_rewards:
  "\<exists>r. rewards_at (example_incentives t) 400 = Inr r"
  "IsValidLotteryBlockHeight (params (lottery (example_incentives t))) 400"
proof -
  show "\<exists>r. rewards_at (example_incentives t) 400 = Inr r"
    using superblock_rewards [OF params_ok_networks(2) example_incentives_no_sporks, of 400]
    unfolding example_incentives_params by (simp add: CTestNetParams_def)
  show "IsValidLotteryBlockHeight (params (lottery (example_incentives t))) 400"
    unfolding example_incentives_params lottery_heights [OF params_ok_networks(2)] by (simp add: CTestNetParams_def)
qed

theorem filled_payees_valid_witness:
  "\<exists>r outs'. FillBlockPayee (example_incentives 0) [] r (CBlockIndex (example_data 399) None None) True = Inr outs' \<and>
    HasValidPayees (example_incentives 0) outs' (CBlockIndex (example_data 400) (Some (CBlockIndex (example_data 399) None None)) None) = Inr True"
proof -
  let ?E = "example_incentives 0" and ?tip = "CBlockIndex (example_data 399) None None"
  obtain r where r: "rewards_at ?E 400 = Inr r" using example_rewards(1) by blast
  have h: "nHeight ?tip = 399" "nHeight (CBlockIndex (example_data 400) (Some ?tip) None) = 400" by (simp_all add: example_data_def)
  have "\<exists>outs'. FillBlockPayee ?E [] r ?tip True = Inr outs'"
    using r h(1) by (simp add: FillBlockPayee_def FillTreasuryPayment_def)
  then obtain outs' where outs: "FillBlockPayee ?E [] r ?tip True = Inr outs'" by blast
  have "HasValidPayees ?E outs' (CBlockIndex (example_data 400) (Some ?tip) None) = Inr True"
    by (rule filled_payees_valid [where r = r and outs = "[]" and stake = True and tip = ?tip])
       (use r outs h example_rewards(2) in \<open>simp_all\<close>)
  with outs show ?thesis by blast
qed

definition example_txs :: "CTransaction list" where
  "example_txs = map (\<lambda>n. example_tx (of_nat n)) [1..<200]"

lemma example_txs: "distinct (map tx_hash example_txs)" "length example_txs = 199"
proof -
  have "inj_on (\<lambda>n. of_nat n :: u256) {1..<200}"
  proof (rule inj_onI)
    fix x y :: nat
    assume xy: "x \<in> {1..<200}" "y \<in> {1..<200}" "(of_nat x :: u256) = of_nat y"
    have "unat (of_nat n :: u256) = n" if "n \<in> {1..<200}" for n
      using that by (simp add: unsigned_of_nat take_bit_nat_eq_self_iff)
    with xy show "x = y" by metis
  qed
  then show "distinct (map tx_hash example_txs)" by (simp add: example_txs_def example_tx_def distinct_map o_def)
qed (simp add: example_txs_def)

theorem lottery_payment_bounded_witness:
  "\<exists>d tip r paid. lottery_run (example_lottery 0) (LotteryCoinstakeData_at 200 []) 201 example_txs = Some d \<and>
    vLotteryWinnersCoinstakes (data tip) = d \<and> nHeight tip = 399 \<and>
    FillBlockPayee (example_incentives 0) [] r tip True = Inr paid \<and> sum_list (map nValue paid) \<le> rwLottery r"
proof -
  let ?E = "example_incentives 0"
  have e: "lottery ?E = example_lottery 0" by (simp add: example_incentives_def)
  have P: "params (lottery ?E) = CTestNetParams" "nLotteryBlockCycle CTestNetParams = 200"
    by (simp_all add: example_incentives_params CTestNetParams_def)
  have lot: "params_ok (params (lottery ?E))" "IsValidLotteryBlockHeight (params (lottery ?E)) 200"
    using params_ok_networks(2) example_lottery_height P by simp_all
  have chain: "chain_at (chainActive (subsidy (lottery ?E))) 200 = Some (CBlockIndex (example_data 200\<lparr>nTime := 0\<rparr>) None None)"
    unfolding e by (rule example_lottery_chain)
  have "int (length example_txs) < nLotteryBlockCycle (params (lottery ?E))" by (simp add: P example_txs)
  from lottery_run_ok [OF lot chain, of "LotteryCoinstakeData_at 200 []" "[]" example_txs "200 + 1"] this
  obtain d where d: "lottery_run (lottery ?E) (LotteryCoinstakeData_at 200 []) (200 + 1) example_txs = Some d"
    using example_txs by (auto simp: winners_ok_def)
  let ?tip = "CBlockIndex (example_data 399\<lparr>vLotteryWinnersCoinstakes := d\<rparr>) None None"
  have tip: "vLotteryWinnersCoinstakes (data ?tip) = d" "nHeight ?tip = 200 + int (length example_txs)"
    by (simp_all add: example_data_def example_txs)
  have "int (length example_txs) + 1 = nLotteryBlockCycle (params (lottery ?E))" by (simp add: P example_txs)
  from lottery_payment_bounded [OF lot(1) example_incentives_no_sporks lot(2) chain example_txs(1) this d tip, of "[]" True]
  obtain r paid where "FillBlockPayee ?E [] r ?tip True = Inr paid" "sum_list (map nValue paid) \<le> rwLottery r" by auto
  with d tip show ?thesis
    unfolding e by (intro exI [of _ d] exI [of _ ?tip] exI [of _ r] exI [of _ paid]) (simp add: example_txs)
qed

end
