(* ===== verification/Opcodes.thy ===== *)
theory Opcodes
  imports Prelude
begin

text \<open>
  The opcodes of the script language (\<^verbatim>\<open>script/opcodes.h\<close>), the errors of its evaluation
  (\<^verbatim>\<open>script/script_error.h\<close>) and the verification flags (\<^verbatim>\<open>script/scriptandsigflags.h\<close>). An opcode is the byte
  that the script holds.
\<close>

type_synonym opcodetype = u8

abbreviation OP_0 :: opcodetype where "OP_0 \<equiv> 0"
abbreviation OP_FALSE :: opcodetype where "OP_FALSE \<equiv> OP_0"
abbreviation OP_PUSHDATA1 :: opcodetype where "OP_PUSHDATA1 \<equiv> 76"
abbreviation OP_PUSHDATA2 :: opcodetype where "OP_PUSHDATA2 \<equiv> 77"
abbreviation OP_PUSHDATA4 :: opcodetype where "OP_PUSHDATA4 \<equiv> 78"
abbreviation OP_1NEGATE :: opcodetype where "OP_1NEGATE \<equiv> 79"
abbreviation OP_RESERVED :: opcodetype where "OP_RESERVED \<equiv> 80"
abbreviation OP_1 :: opcodetype where "OP_1 \<equiv> 81"
abbreviation OP_TRUE :: opcodetype where "OP_TRUE \<equiv> OP_1"
abbreviation OP_2 :: opcodetype where "OP_2 \<equiv> 82"
abbreviation OP_3 :: opcodetype where "OP_3 \<equiv> 83"
abbreviation OP_4 :: opcodetype where "OP_4 \<equiv> 84"
abbreviation OP_5 :: opcodetype where "OP_5 \<equiv> 85"
abbreviation OP_6 :: opcodetype where "OP_6 \<equiv> 86"
abbreviation OP_7 :: opcodetype where "OP_7 \<equiv> 87"
abbreviation OP_8 :: opcodetype where "OP_8 \<equiv> 88"
abbreviation OP_9 :: opcodetype where "OP_9 \<equiv> 89"
abbreviation OP_10 :: opcodetype where "OP_10 \<equiv> 90"
abbreviation OP_11 :: opcodetype where "OP_11 \<equiv> 91"
abbreviation OP_12 :: opcodetype where "OP_12 \<equiv> 92"
abbreviation OP_13 :: opcodetype where "OP_13 \<equiv> 93"
abbreviation OP_14 :: opcodetype where "OP_14 \<equiv> 94"
abbreviation OP_15 :: opcodetype where "OP_15 \<equiv> 95"
abbreviation OP_16 :: opcodetype where "OP_16 \<equiv> 96"
abbreviation OP_NOP :: opcodetype where "OP_NOP \<equiv> 97"
abbreviation OP_VER :: opcodetype where "OP_VER \<equiv> 98"
abbreviation OP_IF :: opcodetype where "OP_IF \<equiv> 99"
abbreviation OP_NOTIF :: opcodetype where "OP_NOTIF \<equiv> 100"
abbreviation OP_VERIF :: opcodetype where "OP_VERIF \<equiv> 101"
abbreviation OP_VERNOTIF :: opcodetype where "OP_VERNOTIF \<equiv> 102"
abbreviation OP_ELSE :: opcodetype where "OP_ELSE \<equiv> 103"
abbreviation OP_ENDIF :: opcodetype where "OP_ENDIF \<equiv> 104"
abbreviation OP_VERIFY :: opcodetype where "OP_VERIFY \<equiv> 105"
abbreviation OP_META :: opcodetype where "OP_META \<equiv> 106"
abbreviation OP_TOALTSTACK :: opcodetype where "OP_TOALTSTACK \<equiv> 107"
abbreviation OP_FROMALTSTACK :: opcodetype where "OP_FROMALTSTACK \<equiv> 108"
abbreviation OP_2DROP :: opcodetype where "OP_2DROP \<equiv> 109"
abbreviation OP_2DUP :: opcodetype where "OP_2DUP \<equiv> 110"
abbreviation OP_3DUP :: opcodetype where "OP_3DUP \<equiv> 111"
abbreviation OP_2OVER :: opcodetype where "OP_2OVER \<equiv> 112"
abbreviation OP_2ROT :: opcodetype where "OP_2ROT \<equiv> 113"
abbreviation OP_2SWAP :: opcodetype where "OP_2SWAP \<equiv> 114"
abbreviation OP_IFDUP :: opcodetype where "OP_IFDUP \<equiv> 115"
abbreviation OP_DEPTH :: opcodetype where "OP_DEPTH \<equiv> 116"
abbreviation OP_DROP :: opcodetype where "OP_DROP \<equiv> 117"
abbreviation OP_DUP :: opcodetype where "OP_DUP \<equiv> 118"
abbreviation OP_NIP :: opcodetype where "OP_NIP \<equiv> 119"
abbreviation OP_OVER :: opcodetype where "OP_OVER \<equiv> 120"
abbreviation OP_PICK :: opcodetype where "OP_PICK \<equiv> 121"
abbreviation OP_ROLL :: opcodetype where "OP_ROLL \<equiv> 122"
abbreviation OP_ROT :: opcodetype where "OP_ROT \<equiv> 123"
abbreviation OP_SWAP :: opcodetype where "OP_SWAP \<equiv> 124"
abbreviation OP_TUCK :: opcodetype where "OP_TUCK \<equiv> 125"
abbreviation OP_CAT :: opcodetype where "OP_CAT \<equiv> 126"
abbreviation OP_SUBSTR :: opcodetype where "OP_SUBSTR \<equiv> 127"
abbreviation OP_LEFT :: opcodetype where "OP_LEFT \<equiv> 128"
abbreviation OP_RIGHT :: opcodetype where "OP_RIGHT \<equiv> 129"
abbreviation OP_SIZE :: opcodetype where "OP_SIZE \<equiv> 130"
abbreviation OP_INVERT :: opcodetype where "OP_INVERT \<equiv> 131"
abbreviation OP_AND :: opcodetype where "OP_AND \<equiv> 132"
abbreviation OP_OR :: opcodetype where "OP_OR \<equiv> 133"
abbreviation OP_XOR :: opcodetype where "OP_XOR \<equiv> 134"
abbreviation OP_EQUAL :: opcodetype where "OP_EQUAL \<equiv> 135"
abbreviation OP_EQUALVERIFY :: opcodetype where "OP_EQUALVERIFY \<equiv> 136"
abbreviation OP_RESERVED1 :: opcodetype where "OP_RESERVED1 \<equiv> 137"
abbreviation OP_RESERVED2 :: opcodetype where "OP_RESERVED2 \<equiv> 138"
abbreviation OP_1ADD :: opcodetype where "OP_1ADD \<equiv> 139"
abbreviation OP_1SUB :: opcodetype where "OP_1SUB \<equiv> 140"
abbreviation OP_2MUL :: opcodetype where "OP_2MUL \<equiv> 141"
abbreviation OP_2DIV :: opcodetype where "OP_2DIV \<equiv> 142"
abbreviation OP_NEGATE :: opcodetype where "OP_NEGATE \<equiv> 143"
abbreviation OP_ABS :: opcodetype where "OP_ABS \<equiv> 144"
abbreviation OP_NOT :: opcodetype where "OP_NOT \<equiv> 145"
abbreviation OP_0NOTEQUAL :: opcodetype where "OP_0NOTEQUAL \<equiv> 146"
abbreviation OP_ADD :: opcodetype where "OP_ADD \<equiv> 147"
abbreviation OP_SUB :: opcodetype where "OP_SUB \<equiv> 148"
abbreviation OP_MUL :: opcodetype where "OP_MUL \<equiv> 149"
abbreviation OP_DIV :: opcodetype where "OP_DIV \<equiv> 150"
abbreviation OP_MOD :: opcodetype where "OP_MOD \<equiv> 151"
abbreviation OP_LSHIFT :: opcodetype where "OP_LSHIFT \<equiv> 152"
abbreviation OP_RSHIFT :: opcodetype where "OP_RSHIFT \<equiv> 153"
abbreviation OP_BOOLAND :: opcodetype where "OP_BOOLAND \<equiv> 154"
abbreviation OP_BOOLOR :: opcodetype where "OP_BOOLOR \<equiv> 155"
abbreviation OP_NUMEQUAL :: opcodetype where "OP_NUMEQUAL \<equiv> 156"
abbreviation OP_NUMEQUALVERIFY :: opcodetype where "OP_NUMEQUALVERIFY \<equiv> 157"
abbreviation OP_NUMNOTEQUAL :: opcodetype where "OP_NUMNOTEQUAL \<equiv> 158"
abbreviation OP_LESSTHAN :: opcodetype where "OP_LESSTHAN \<equiv> 159"
abbreviation OP_GREATERTHAN :: opcodetype where "OP_GREATERTHAN \<equiv> 160"
abbreviation OP_LESSTHANOREQUAL :: opcodetype where "OP_LESSTHANOREQUAL \<equiv> 161"
abbreviation OP_GREATERTHANOREQUAL :: opcodetype where "OP_GREATERTHANOREQUAL \<equiv> 162"
abbreviation OP_MIN :: opcodetype where "OP_MIN \<equiv> 163"
abbreviation OP_MAX :: opcodetype where "OP_MAX \<equiv> 164"
abbreviation OP_WITHIN :: opcodetype where "OP_WITHIN \<equiv> 165"
abbreviation OP_RIPEMD160 :: opcodetype where "OP_RIPEMD160 \<equiv> 166"
abbreviation OP_SHA1 :: opcodetype where "OP_SHA1 \<equiv> 167"
abbreviation OP_SHA256 :: opcodetype where "OP_SHA256 \<equiv> 168"
abbreviation OP_HASH160 :: opcodetype where "OP_HASH160 \<equiv> 169"
abbreviation OP_HASH256 :: opcodetype where "OP_HASH256 \<equiv> 170"
abbreviation OP_CODESEPARATOR :: opcodetype where "OP_CODESEPARATOR \<equiv> 171"
abbreviation OP_CHECKSIG :: opcodetype where "OP_CHECKSIG \<equiv> 172"
abbreviation OP_CHECKSIGVERIFY :: opcodetype where "OP_CHECKSIGVERIFY \<equiv> 173"
abbreviation OP_CHECKMULTISIG :: opcodetype where "OP_CHECKMULTISIG \<equiv> 174"
abbreviation OP_CHECKMULTISIGVERIFY :: opcodetype where "OP_CHECKMULTISIGVERIFY \<equiv> 175"
abbreviation OP_NOP1 :: opcodetype where "OP_NOP1 \<equiv> 176"
abbreviation OP_NOP2 :: opcodetype where "OP_NOP2 \<equiv> 177"
abbreviation OP_NOP3 :: opcodetype where "OP_NOP3 \<equiv> 178"
abbreviation OP_NOP4 :: opcodetype where "OP_NOP4 \<equiv> 179"
abbreviation OP_NOP5 :: opcodetype where "OP_NOP5 \<equiv> 180"
abbreviation OP_NOP6 :: opcodetype where "OP_NOP6 \<equiv> 181"
abbreviation OP_NOP7 :: opcodetype where "OP_NOP7 \<equiv> 182"
abbreviation OP_NOP8 :: opcodetype where "OP_NOP8 \<equiv> 183"
abbreviation OP_NOP9 :: opcodetype where "OP_NOP9 \<equiv> 184"
abbreviation OP_REQUIRE_COINSTAKE :: opcodetype where "OP_REQUIRE_COINSTAKE \<equiv> 185"
abbreviation OP_NOP10 :: opcodetype where "OP_NOP10 \<equiv> OP_REQUIRE_COINSTAKE"
abbreviation OP_SMALLINTEGER :: opcodetype where "OP_SMALLINTEGER \<equiv> 250"
abbreviation OP_PUBKEYS :: opcodetype where "OP_PUBKEYS \<equiv> 251"
abbreviation OP_PUBKEYHASH :: opcodetype where "OP_PUBKEYHASH \<equiv> 253"
abbreviation OP_PUBKEY :: opcodetype where "OP_PUBKEY \<equiv> 254"
abbreviation OP_INVALIDOPCODE :: opcodetype where "OP_INVALIDOPCODE \<equiv> 255"

datatype ScriptError =
    SCRIPT_ERR_OK
  | SCRIPT_ERR_UNKNOWN_ERROR
  | SCRIPT_ERR_EVAL_FALSE
  | SCRIPT_ERR_OP_META
  | SCRIPT_ERR_SCRIPT_SIZE
  | SCRIPT_ERR_PUSH_SIZE
  | SCRIPT_ERR_OP_COUNT
  | SCRIPT_ERR_STACK_SIZE
  | SCRIPT_ERR_SIG_COUNT
  | SCRIPT_ERR_PUBKEY_COUNT
  | SCRIPT_ERR_VERIFY
  | SCRIPT_ERR_EQUALVERIFY
  | SCRIPT_ERR_CHECKMULTISIGVERIFY
  | SCRIPT_ERR_CHECKSIGVERIFY
  | SCRIPT_ERR_NUMEQUALVERIFY
  | SCRIPT_ERR_BAD_OPCODE
  | SCRIPT_ERR_DISABLED_OPCODE
  | SCRIPT_ERR_INVALID_STACK_OPERATION
  | SCRIPT_ERR_INVALID_ALTSTACK_OPERATION
  | SCRIPT_ERR_UNBALANCED_CONDITIONAL
  | SCRIPT_ERR_SIG_HASHTYPE
  | SCRIPT_ERR_SIG_DER
  | SCRIPT_ERR_MINIMALDATA
  | SCRIPT_ERR_SIG_PUSHONLY
  | SCRIPT_ERR_SIG_HIGH_S
  | SCRIPT_ERR_SIG_NULLDUMMY
  | SCRIPT_ERR_PUBKEYTYPE
  | SCRIPT_ERR_DISCOURAGE_UPGRADABLE_NOPS
  | SCRIPT_ERR_ERROR_COUNT

definition SCRIPT_VERIFY_P2SH :: u32 where "SCRIPT_VERIFY_P2SH = 1"
definition SCRIPT_VERIFY_STRICTENC :: u32 where "SCRIPT_VERIFY_STRICTENC = 2"
definition SCRIPT_VERIFY_DERSIG :: u32 where "SCRIPT_VERIFY_DERSIG = 4"
definition SCRIPT_VERIFY_LOW_S :: u32 where "SCRIPT_VERIFY_LOW_S = 8"
definition SCRIPT_VERIFY_NULLDUMMY :: u32 where "SCRIPT_VERIFY_NULLDUMMY = 16"
definition SCRIPT_VERIFY_SIGPUSHONLY :: u32 where "SCRIPT_VERIFY_SIGPUSHONLY = 32"
definition SCRIPT_VERIFY_MINIMALDATA :: u32 where "SCRIPT_VERIFY_MINIMALDATA = 64"
definition SCRIPT_VERIFY_DISCOURAGE_UPGRADABLE_NOPS :: u32 where "SCRIPT_VERIFY_DISCOURAGE_UPGRADABLE_NOPS = 128"
definition SCRIPT_REQUIRE_COINSTAKE :: u32 where "SCRIPT_REQUIRE_COINSTAKE = 256"

lemmas script_flag_defs =
  SCRIPT_VERIFY_P2SH_def
  SCRIPT_VERIFY_STRICTENC_def
  SCRIPT_VERIFY_DERSIG_def
  SCRIPT_VERIFY_LOW_S_def
  SCRIPT_VERIFY_NULLDUMMY_def
  SCRIPT_VERIFY_SIGPUSHONLY_def
  SCRIPT_VERIFY_MINIMALDATA_def
  SCRIPT_VERIFY_DISCOURAGE_UPGRADABLE_NOPS_def
  SCRIPT_REQUIRE_COINSTAKE_def

abbreviation has_script_flag :: "u32 \<Rightarrow> u32 \<Rightarrow> bool" where
  "has_script_flag flags f \<equiv> flags AND f \<noteq> 0"

definition MANDATORY_SCRIPT_VERIFY_FLAGS :: u32 where
  "MANDATORY_SCRIPT_VERIFY_FLAGS = SCRIPT_VERIFY_P2SH OR SCRIPT_VERIFY_DERSIG OR SCRIPT_REQUIRE_COINSTAKE"

definition POS_SCRIPT_VERIFY_FLAGS :: u32 where
  "POS_SCRIPT_VERIFY_FLAGS =
    MANDATORY_SCRIPT_VERIFY_FLAGS OR SCRIPT_VERIFY_DERSIG OR SCRIPT_VERIFY_STRICTENC OR SCRIPT_VERIFY_MINIMALDATA OR
    SCRIPT_VERIFY_NULLDUMMY"

definition STANDARD_SCRIPT_VERIFY_FLAGS :: u32 where
  "STANDARD_SCRIPT_VERIFY_FLAGS = POS_SCRIPT_VERIFY_FLAGS OR SCRIPT_VERIFY_DISCOURAGE_UPGRADABLE_NOPS"

definition STANDARD_NOT_MANDATORY_VERIFY_FLAGS :: u32 where
  "STANDARD_NOT_MANDATORY_VERIFY_FLAGS = STANDARD_SCRIPT_VERIFY_FLAGS AND NOT MANDATORY_SCRIPT_VERIFY_FLAGS"

lemma mandatory_flags [simp]: "has_script_flag MANDATORY_SCRIPT_VERIFY_FLAGS SCRIPT_REQUIRE_COINSTAKE"
  "has_script_flag MANDATORY_SCRIPT_VERIFY_FLAGS SCRIPT_VERIFY_P2SH" "has_script_flag MANDATORY_SCRIPT_VERIFY_FLAGS SCRIPT_VERIFY_DERSIG"
  "\<not> has_script_flag MANDATORY_SCRIPT_VERIFY_FLAGS SCRIPT_VERIFY_SIGPUSHONLY"
  by (simp_all add: MANDATORY_SCRIPT_VERIFY_FLAGS_def script_flag_defs)

end
