(* ===== verification/Little_Endian.thy ===== *)
theory Little_Endian
  imports Prelude
begin

text \<open>
  The value of a byte vector in little-endian order, the bytes of a number, and the computations that may fail.
\<close>

section \<open>Values of byte vectors\<close>

primrec le_int :: "bytes \<Rightarrow> int" where
  "le_int [] = 0"
| "le_int (b # bs) = uint b + 256 * le_int bs"

lemma le_int_append: "le_int (xs @ ys) = le_int xs + 2 ^ (8 * length xs) * le_int ys"
  by (induction xs) (simp_all add: algebra_simps power_add)

lemma le_int_nonneg [simp]: "0 \<le> le_int xs"
  by (induction xs) simp_all

lemma le_int_less: "le_int xs < 2 ^ (8 * length xs)"
proof (induction xs)
  case (Cons b xs)
  have "uint b < 256" using uint_lt2p [of b] by simp
  then show ?case using Cons by (simp add: power_add)
qed simp

text \<open>The lowest \<open>n\<close> bytes of a number; of a negative one, of its two's complement.\<close>

primrec le_bytes :: "nat \<Rightarrow> int \<Rightarrow> bytes" where
  "le_bytes 0 k = []"
| "le_bytes (Suc n) k = word_of_int (k mod 256) # le_bytes n (k div 256)"

lemma length_le_bytes [simp]: "length (le_bytes n k) = n"
  by (induction n arbitrary: k) simp_all

lemma le_int_le_bytes: "le_int (le_bytes n k) = k mod 2 ^ (8 * n)"
proof (induction n arbitrary: k)
  case (Suc n)
  have u: "uint (word_of_int (k mod 256) :: u8) = k mod 256" by (simp add: uint_word_of_int)
  have "k mod 2 ^ (8 * Suc n) = k mod (256 * 2 ^ (8 * n))" by (simp add: power_add)
  also have "\<dots> = 256 * (k div 256 mod 2 ^ (8 * n)) + k mod 256" by (rule zmod_zmult2_eq) simp
  finally show ?case using Suc u by simp
qed simp

lemma le_bytes_le_int: "le_bytes (length b) (le_int b) = b"
proof (induction b)
  case (Cons x b)
  have u: "0 \<le> uint x" "uint x < 256" using uint_lt2p [of x] by simp_all
  then have "(uint x + 256 * le_int b) mod 256 = uint x" "(uint x + 256 * le_int b) div 256 = le_int b" by simp_all
  then show ?case using Cons by simp
qed simp

section \<open>Results with errors\<close>

definition ebind :: "'e + 'a \<Rightarrow> ('a \<Rightarrow> 'e + 'b) \<Rightarrow> 'e + 'b" where
  "ebind r f = (case r of Inl e \<Rightarrow> Inl e | Inr x \<Rightarrow> f x)"

lemma ebind_simps [simp]: "ebind (Inl e) f = Inl e" "ebind (Inr x) f = f x"
  by (simp_all add: ebind_def)

lemma ebind_Inr: "ebind r f = Inr y \<longleftrightarrow> (\<exists>x. r = Inr x \<and> f x = Inr y)"
  by (cases r) simp_all

end
