(* ===== verification/Script.thy ===== *)
theory Script
  imports Opcodes Lottery_Coinstakes Little_Endian
begin

text \<open>
  Scripts (\<^verbatim>\<open>script/script.h\<close>, \<^verbatim>\<open>script/script.cpp\<close>, \<^verbatim>\<open>script/StakingVaultScript.cpp\<close>): numbers on the script stack, pushing
  and parsing of operations, counting of signature operations, the recognised forms of scripts, and the staking vault. An
  iterator into a script is the rest of the script from there on.
\<close>

section \<open>Numbers\<close>

datatype scriptnum_error = script_number_overflow | non_minimally_encoded

definition nMaxNumSize :: nat where
  "nMaxNumSize = 4"

definition set_vch :: "bytes \<Rightarrow> int" where
  "set_vch vch =
    (if vch = [] then 0
     else
       let result = foldl (\<lambda>result i. result OR push_bit (8 * i) (uint (vch ! i))) 0 [0..<length vch]
       in if last vch AND 0x80 \<noteq> 0 then - (result AND NOT (push_bit (8 * (length vch - 1)) 0x80)) else result)"

definition CScriptNum :: "bytes \<Rightarrow> bool \<Rightarrow> scriptnum_error + int" where
  "CScriptNum vch fRequireMinimal =
    (if length vch > nMaxNumSize then Inl script_number_overflow
     else if fRequireMinimal \<and> length vch > 0 \<and> last vch AND 0x7f = 0 \<and>
       (length vch \<le> 1 \<or> vch ! (length vch - 2) AND 0x80 = 0) then Inl non_minimally_encoded
     else Inr (set_vch vch))"

definition getint :: "int \<Rightarrow> int" where
  "getint n = (if n > 2 ^ 31 - 1 then 2 ^ 31 - 1 else if n < - (2 ^ 31) then - (2 ^ 31) else n)"

fun abs_bytes :: "nat \<Rightarrow> bytes" where
  "abs_bytes absvalue = (if absvalue = 0 then [] else word_of_nat (absvalue mod 256) # abs_bytes (absvalue div 256))"

declare abs_bytes.simps [simp del]

definition serialize_num :: "int \<Rightarrow> bytes" where
  "serialize_num n =
    (if n = 0 then []
     else
       let neg = n < 0; result = abs_bytes (nat \<bar>n\<bar>)
       in if last result AND 0x80 \<noteq> 0 then result @ [if neg then 0x80 else 0]
          else if neg then butlast result @ [last result OR 0x80]
          else result)"

section \<open>Writing scripts\<close>

text \<open>The size of a pushed vector fits into four bytes.\<close>

definition push_data :: "CScript \<Rightarrow> bytes \<Rightarrow> CScript" where
  "push_data s b =
    (if length b < 76 then s @ [word_of_nat (length b)]
     else if length b \<le> 0xff then s @ [OP_PUSHDATA1, word_of_nat (length b)]
     else if length b \<le> 0xffff then s @ [OP_PUSHDATA2, word_of_nat (length b), word_of_nat (length b div 256)]
     else s @ [OP_PUSHDATA4, word_of_nat (length b), word_of_nat (length b div 256), word_of_nat (length b div 65536),
       word_of_nat (length b div 16777216)]) @ b"

definition push_op :: "CScript \<Rightarrow> opcodetype \<Rightarrow> CScript" where
  "push_op s opcode = s @ [opcode]"

definition push_int64 :: "CScript \<Rightarrow> int \<Rightarrow> CScript" where
  "push_int64 s n =
    (if n = -1 \<or> 1 \<le> n \<and> n \<le> 16 then s @ [word_of_int (n + (uint OP_1 - 1))]
     else if n = 0 then s @ [OP_0]
     else push_data s (serialize_num n))"

definition PushMinimal :: "CScript \<Rightarrow> bytes \<Rightarrow> CScript" where
  "PushMinimal s b =
    (if length b = 0 then push_op s OP_0
     else if length b = 1 \<and> 1 \<le> b ! 0 \<and> b ! 0 \<le> 16 then push_op s (OP_1 + (b ! 0 - 1))
     else if length b = 1 \<and> b ! 0 = 0x81 then push_op s OP_1NEGATE
     else push_data s b)"

section \<open>Reading scripts\<close>

text \<open>
  The results of \<^verbatim>\<open>GetOp2\<close>: success, opcode, pushed data and the advanced iterator. Sizes are read in
  little-endian order.
\<close>

definition push_size :: "opcodetype \<Rightarrow> bytes \<Rightarrow> (nat \<times> bytes) option" where
  "push_size opcode pc =
    (if opcode < OP_PUSHDATA1 then Some (unat opcode, pc)
     else if opcode = OP_PUSHDATA1 then if length pc < 1 then None else Some (unat (pc ! 0), drop 1 pc)
     else if opcode = OP_PUSHDATA2 then
       if length pc < 2 then None else Some (unat (pc ! 0) + 256 * unat (pc ! 1), drop 2 pc)
     else
       if length pc < 4 then None
       else Some (unat (pc ! 0) + 256 * unat (pc ! 1) + 65536 * unat (pc ! 2) + 16777216 * unat (pc ! 3), drop 4 pc))"

definition GetOp2 :: "bytes \<Rightarrow> bool \<times> opcodetype \<times> bytes \<times> bytes" where
  "GetOp2 pc =
    (case pc of
       [] \<Rightarrow> (False, OP_INVALIDOPCODE, [], [])
     | opcode # pc \<Rightarrow>
         if opcode \<le> OP_PUSHDATA4 then
           case push_size opcode pc of
             None \<Rightarrow> (False, OP_INVALIDOPCODE, [], pc)
           | Some (nSize, pc) \<Rightarrow>
               if length pc < nSize then (False, OP_INVALIDOPCODE, [], pc)
               else (True, opcode, take nSize pc, drop nSize pc)
         else (True, opcode, [], pc))"

lemma GetOp2_shorter: "GetOp2 pc = (True, opcode, vch, pc') \<Longrightarrow> length pc' < length pc"
  by (cases pc) (auto simp: GetOp2_def push_size_def split: if_splits)

lemma GetOp2_le: "GetOp2 pc = (r, opcode, vch, pc') \<Longrightarrow> length pc' \<le> length pc"
  by (cases pc) (auto simp: GetOp2_def push_size_def split: if_splits)

definition DecodeOP_N :: "opcodetype \<Rightarrow> nat" where
  "DecodeOP_N opcode = (if opcode = OP_0 then 0 else unat opcode - (unat OP_1 - 1))"

definition EncodeOP_N :: "nat \<Rightarrow> opcodetype" where
  "EncodeOP_N n = (if n = 0 then OP_0 else OP_1 + word_of_nat n - 1)"

text \<open>\<open>strip\<close> is the inner loop of \<open>FindAndDelete\<close>; the outer one keeps the bytes of each operation it passes.\<close>

function strip :: "CScript \<Rightarrow> bytes \<Rightarrow> nat \<Rightarrow> nat \<times> bytes" where
  "strip b pc nFound = (if b \<noteq> [] \<and> length pc \<ge> length b \<and> take (length b) pc = b then strip b (drop (length b) pc) (Suc nFound)
     else (nFound, pc))"
  by pat_completeness auto
termination
proof (relation "measure (\<lambda>(b, pc, n). length pc)", goal_cases)
  case (2 b pc n)
  then have "0 < length b" "0 < length pc" by auto
  then have "length pc - length b < length pc" by (metis diff_less)
  then show ?case by simp
qed simp

declare strip.simps [simp del]

lemma strip_le: "length (snd (strip b pc n)) \<le> length pc"
proof (induction b pc n rule: strip.induct)
  case (1 b pc n)
  then show ?case by (subst strip.simps) auto
qed

lemma GetOp2_advances: "fst (GetOp2 pc) \<Longrightarrow> length (snd (snd (snd (GetOp2 pc)))) < length pc"
  by (cases "GetOp2 pc") (auto dest: GetOp2_shorter)

function find_delete_loop :: "CScript \<Rightarrow> bytes \<Rightarrow> nat \<Rightarrow> nat \<times> bytes" where
  "find_delete_loop b pc nFound =
    (let s = strip b pc nFound; g = GetOp2 (snd s)
     in if fst g then
          let r = find_delete_loop b (snd (snd (snd g))) (fst s)
          in (fst r, take (length (snd s) - length (snd (snd (snd g)))) (snd s) @ snd r)
        else s)"
  by pat_completeness auto
termination
proof (relation "measure (\<lambda>(b, pc, n). length pc)", goal_cases)
  case (2 b pc n s g)
  then show ?case using strip_le [of b pc n] GetOp2_advances [of "snd (strip b pc n)"] by simp
qed simp

declare find_delete_loop.simps [simp del]

definition FindAndDelete :: "CScript \<Rightarrow> CScript \<Rightarrow> nat \<times> CScript" where
  "FindAndDelete s b = (if b = [] then (0, s) else find_delete_loop b s 0)"

section \<open>Forms of scripts\<close>

text \<open>The loops run over the operations; \<open>count\<close> is how many of them have been seen.\<close>

function sig_op_loop :: "bool \<Rightarrow> opcodetype \<Rightarrow> nat \<Rightarrow> bytes \<Rightarrow> nat" where
  "sig_op_loop fAccurate lastOpcode n pc =
    (if pc = [] then n
     else
       let g = GetOp2 pc; opcode = fst (snd g)
       in if \<not> fst g then n
          else sig_op_loop fAccurate opcode
            (if opcode = OP_CHECKSIG \<or> opcode = OP_CHECKSIGVERIFY then n + 1
             else if opcode = OP_CHECKMULTISIG \<or> opcode = OP_CHECKMULTISIGVERIFY then
               if fAccurate \<and> lastOpcode \<ge> OP_1 \<and> lastOpcode \<le> OP_16 then n + DecodeOP_N lastOpcode else n + 20
             else n)
            (snd (snd (snd g))))"
  by pat_completeness auto
termination
  by (relation "measure (\<lambda>(f, l, n, pc). length pc)") (auto dest: GetOp2_advances)

declare sig_op_loop.simps [simp del]

definition GetSigOpCount :: "CScript \<Rightarrow> bool \<Rightarrow> nat" where
  "GetSigOpCount s fAccurate = sig_op_loop fAccurate OP_INVALIDOPCODE 0 s"

definition IsPayToScriptHash :: "CScript \<Rightarrow> bool" where
  "IsPayToScriptHash s \<longleftrightarrow> length s = 23 \<and> s ! 0 = OP_HASH160 \<and> s ! 1 = 0x14 \<and> s ! 22 = OP_EQUAL"

definition IsPayToPublicKeyHash :: "CScript \<Rightarrow> bool" where
  "IsPayToPublicKeyHash s \<longleftrightarrow>
    length s = 25 \<and> s ! 0 = OP_DUP \<and> s ! 1 = OP_HASH160 \<and> s ! 2 = 0x14 \<and> s ! 23 = OP_EQUALVERIFY \<and> s ! 24 = OP_CHECKSIG"

text \<open>The pushed data of the last operation of a script that only pushes; \<open>None\<close> where the code returns zero.\<close>

function last_push :: "bytes \<Rightarrow> bytes \<Rightarrow> bytes option" where
  "last_push d pc =
    (if pc = [] then Some d
     else
       let g = GetOp2 pc
       in if \<not> fst g then None else if fst (snd g) > OP_16 then None else last_push (fst (snd (snd g))) (snd (snd (snd g))))"
  by pat_completeness auto
termination
  by (relation "measure (\<lambda>x. length (snd x))") (auto dest: GetOp2_advances)

declare last_push.simps [simp del]

definition GetSigOpCount_of :: "CScript \<Rightarrow> CScript \<Rightarrow> nat" where
  "GetSigOpCount_of s scriptSig =
    (if \<not> IsPayToScriptHash s then GetSigOpCount s True
     else case last_push [] scriptSig of None \<Rightarrow> 0 | Some subscript \<Rightarrow> GetSigOpCount subscript True)"

text \<open>The result of \<^verbatim>\<open>GetOp\<close> is ignored here; a failed read leaves an invalid opcode and an advanced iterator.\<close>

function normal_payment_loop :: "nat \<Rightarrow> bytes \<Rightarrow> bool" where
  "normal_payment_loop i pc =
    (if pc = [] then True
     else
       let g = GetOp2 pc; opcode = fst (snd g)
       in if i = 0 \<and> opcode \<noteq> OP_DUP then False
          else if i = 1 \<and> opcode \<noteq> OP_HASH160 then False
          else if i = 3 \<and> opcode \<noteq> OP_EQUALVERIFY then False
          else if i = 4 \<and> opcode \<noteq> OP_CHECKSIG then False
          else if i = 5 then False
          else normal_payment_loop (Suc i) (snd (snd (snd g))))"
  by pat_completeness auto

lemma GetOp2_consumes: "pc \<noteq> [] \<Longrightarrow> length (snd (snd (snd (GetOp2 pc)))) < length pc"
  by (cases pc) (auto simp: GetOp2_def push_size_def split: if_splits)

termination normal_payment_loop
  by (relation "measure (\<lambda>(i, pc). length pc)") (auto dest: GetOp2_consumes)

declare normal_payment_loop.simps [simp del]

definition IsNormalPaymentScript :: "CScript \<Rightarrow> bool" where
  "IsNormalPaymentScript s \<longleftrightarrow> length s = 25 \<and> normal_payment_loop 0 s"

function IsPushOnly :: "bytes \<Rightarrow> bool" where
  "IsPushOnly pc =
    (if pc = [] then True
     else
       let g = GetOp2 pc in if \<not> fst g then False else if fst (snd g) > OP_16 then False else IsPushOnly (snd (snd (snd g))))"
  by pat_completeness auto
termination
  by (relation "measure length") (auto dest: GetOp2_advances)

declare IsPushOnly.simps [simp del]

definition IsUnspendable :: "CScript \<Rightarrow> bool" where
  "IsUnspendable s \<longleftrightarrow> length s > 0 \<and> hd s = OP_META"

section \<open>Staking vaults\<close>

definition CreateStakingVaultScript :: "bytes \<Rightarrow> bytes \<Rightarrow> CScript" where
  "CreateStakingVaultScript ownerKeyHash vaultKeyHash =
    push_op (push_op (push_op (push_op (push_op (push_data (push_op (push_op (push_data (push_op [] OP_IF) ownerKeyHash) OP_ELSE)
      OP_REQUIRE_COINSTAKE) vaultKeyHash) OP_ENDIF) OP_OVER) OP_HASH160) OP_EQUALVERIFY) OP_CHECKSIG"

definition GetStakingVaultScriptTemplate :: CScript where
  "GetStakingVaultScriptTemplate =
    push_op (push_op (push_op (push_op (push_op (push_op (push_op (push_op (push_op (push_op [] OP_IF) OP_PUBKEYHASH) OP_ELSE)
      OP_REQUIRE_COINSTAKE) OP_PUBKEYHASH) OP_ENDIF) OP_OVER) OP_HASH160) OP_EQUALVERIFY) OP_CHECKSIG"

definition IsStakingVaultScript :: "CScript \<Rightarrow> bool" where
  "IsStakingVaultScript s \<longleftrightarrow>
    length s = length GetStakingVaultScriptTemplate + 2 * 20 \<and>
    (let keyPushSizeMatch = (s ! 1 = 0x14 \<and> s ! 24 = 0x14);
         copyScript = take 24 s @ drop 45 s;
         copyScript = take 24 copyScript @ [OP_PUBKEYHASH] @ drop 24 copyScript;
         copyScript = take 1 copyScript @ drop 22 copyScript;
         copyScript = take 1 copyScript @ [OP_PUBKEYHASH] @ drop 1 copyScript
     in copyScript = GetStakingVaultScriptTemplate \<and> keyPushSizeMatch)"

definition GetStakingVaultPubkeyHashes :: "CScript \<Rightarrow> (bytes \<times> bytes) option" where
  "GetStakingVaultPubkeyHashes s =
    (if IsStakingVaultScript s then Some (take 20 (drop 2 s), take 20 (drop 25 s)) else None)"

end
