(* ===== verification/Stack_Manager.thy ===== *)
theory Stack_Manager
  imports Script
begin

text \<open>
  The stack machine of scripts (\<^verbatim>\<open>script/StackManager.cpp\<close>): conditional scopes, one definition per kind of
  operation and the dispatch on the opcode, and the checks of signature encodings
  (\<^verbatim>\<open>script/SignatureCheckers.cpp\<close>). Stacks are lists whose head is the top. Hash functions and the verification of
  signatures are parameters.
\<close>

section \<open>State\<close>

record ConditionalScopeStackManager =
  conditionalScopeReadStatusStack :: "bool list"
  conditionalScopeNeedsClosing :: bool

record script_machine =
  stack :: "bytes list"
  altstack :: "bytes list"
  conditionalManager :: ConditionalScopeStackManager
  opCount :: nat

record script_env =
  CheckSig :: "bytes \<Rightarrow> bytes \<Rightarrow> CScript \<Rightarrow> bool"
  CheckCoinstake :: bool
  CheckSignatureElement :: "bytes \<Rightarrow> bool"
  RIPEMD160 :: "bytes \<Rightarrow> bytes"
  SHA1 :: "bytes \<Rightarrow> bytes"
  SHA256 :: "bytes \<Rightarrow> bytes"
  Hash160 :: "bytes \<Rightarrow> bytes"
  Hash256 :: "bytes \<Rightarrow> bytes"

text \<open>An operation fails with an error or gives the next state.\<close>

type_synonym 'a script_result = "ScriptError + 'a"

section \<open>Conditional scopes\<close>

definition CheckConditionalScopeStatus :: "ConditionalScopeStackManager \<Rightarrow> ConditionalScopeStackManager" where
  "CheckConditionalScopeStatus c = c\<lparr>conditionalScopeNeedsClosing := count_list (conditionalScopeReadStatusStack c) False \<noteq> 0\<rparr>"

definition OpenScope :: "ConditionalScopeStackManager \<Rightarrow> bool \<Rightarrow> ConditionalScopeStackManager" where
  "OpenScope c conditionStatus =
    c\<lparr>conditionalScopeReadStatusStack := conditionStatus # conditionalScopeReadStatusStack c,
      conditionalScopeNeedsClosing := (conditionalScopeNeedsClosing c \<or> conditionStatus = False)\<rparr>"

definition TryElse :: "ConditionalScopeStackManager \<Rightarrow> ConditionalScopeStackManager option" where
  "TryElse c =
    (case conditionalScopeReadStatusStack c of
       [] \<Rightarrow> None
     | b # bs \<Rightarrow> Some (CheckConditionalScopeStatus (c\<lparr>conditionalScopeReadStatusStack := (\<not> b) # bs\<rparr>)))"

definition TryCLoseScope :: "ConditionalScopeStackManager \<Rightarrow> ConditionalScopeStackManager option" where
  "TryCLoseScope c =
    (case conditionalScopeReadStatusStack c of
       [] \<Rightarrow> None
     | b # bs \<Rightarrow> Some (CheckConditionalScopeStatus (c\<lparr>conditionalScopeReadStatusStack := bs\<rparr>)))"

section \<open>Values on the stack\<close>

fun CastToBool :: "bytes \<Rightarrow> bool" where
  "CastToBool [] = False"
| "CastToBool (b # bs) = (if b \<noteq> 0 then \<not> (bs = [] \<and> b = 0x80) else CastToBool bs)"

definition vchFalse :: bytes where
  "vchFalse = []"

definition vchTrue :: bytes where
  "vchTrue = [1]"

definition vchBool :: "bool \<Rightarrow> bytes" where
  "vchBool b = (if b then vchTrue else vchFalse)"

lemma CastToBool_vchBool [simp]: "CastToBool (vchBool b) = b"
  by (simp add: vchBool_def vchTrue_def vchFalse_def)

text \<open>
  A number read from the stack. The exception for a malformed number is caught in \<^verbatim>\<open>EvalScript\<close>, which reports an
  unknown error. A number read has at most four bytes, so that sums and negations stay within 64 bits.
\<close>

definition stack_num :: "u32 \<Rightarrow> bytes \<Rightarrow> int script_result" where
  "stack_num flags vch =
    (case CScriptNum vch (has_script_flag flags SCRIPT_VERIFY_MINIMALDATA) of
       Inl e \<Rightarrow> Inl SCRIPT_ERR_UNKNOWN_ERROR
     | Inr n \<Rightarrow> Inr n)"

definition of_bool_num :: "bool \<Rightarrow> int" where
  "of_bool_num b = (if b then 1 else 0)"

section \<open>Operations\<close>

definition DisabledOp :: "u32 \<Rightarrow> script_machine \<Rightarrow> script_machine script_result" where
  "DisabledOp flags m =
    (if has_script_flag flags SCRIPT_VERIFY_DISCOURAGE_UPGRADABLE_NOPS then Inl SCRIPT_ERR_DISCOURAGE_UPGRADABLE_NOPS else Inr m)"

definition PushValueOp :: "opcodetype \<Rightarrow> script_machine \<Rightarrow> script_machine script_result" where
  "PushValueOp opcode m = Inr (m\<lparr>stack := serialize_num (uint opcode - (uint OP_1 - 1)) # stack m\<rparr>)"

definition ConditionalOp :: "opcodetype \<Rightarrow> script_machine \<Rightarrow> script_machine script_result" where
  "ConditionalOp opcode m =
    (let c = conditionalManager m
     in if opcode = OP_IF \<or> opcode = OP_NOTIF then
          if \<not> conditionalScopeNeedsClosing c then
            case stack m of
              [] \<Rightarrow> Inl SCRIPT_ERR_UNBALANCED_CONDITIONAL
            | vch # rest \<Rightarrow>
                let fValue = CastToBool vch; fValue = (if opcode = OP_NOTIF then \<not> fValue else fValue)
                in Inr (m\<lparr>stack := rest, conditionalManager := OpenScope c fValue\<rparr>)
          else Inr (m\<lparr>conditionalManager := OpenScope c False\<rparr>)
        else if opcode = OP_ELSE then
          case TryElse c of None \<Rightarrow> Inl SCRIPT_ERR_UNBALANCED_CONDITIONAL | Some c \<Rightarrow> Inr (m\<lparr>conditionalManager := c\<rparr>)
        else if opcode = OP_ENDIF then
          case TryCLoseScope c of None \<Rightarrow> Inl SCRIPT_ERR_UNBALANCED_CONDITIONAL | Some c \<Rightarrow> Inr (m\<lparr>conditionalManager := c\<rparr>)
        else Inr m)"

definition swap_at :: "nat \<Rightarrow> nat \<Rightarrow> 'a list \<Rightarrow> 'a list" where
  "swap_at i j s = s[i := s ! j, j := s ! i]"

definition erase_at :: "nat \<Rightarrow> 'a list \<Rightarrow> 'a list" where
  "erase_at n s = take n s @ drop (Suc n) s"

definition need :: "nat \<Rightarrow> script_machine \<Rightarrow> (bytes list \<Rightarrow> bytes list) \<Rightarrow> script_machine script_result" where
  "need n m f = (if length (stack m) < n then Inl SCRIPT_ERR_INVALID_STACK_OPERATION else Inr (m\<lparr>stack := f (stack m)\<rparr>))"

definition PickRollOp :: "u32 \<Rightarrow> opcodetype \<Rightarrow> script_machine \<Rightarrow> script_machine script_result" where
  "PickRollOp flags opcode m =
    (if length (stack m) < 2 then Inl SCRIPT_ERR_INVALID_STACK_OPERATION
     else ebind (stack_num flags (stack m ! 0)) (\<lambda>bn.
       let n = getint bn; s = tl (stack m)
       in if n < 0 \<or> n \<ge> int (length s) then Inl SCRIPT_ERR_INVALID_STACK_OPERATION
          else Inr (m\<lparr>stack := s ! nat n # (if opcode = OP_ROLL then erase_at (nat n) s else s)\<rparr>)))"

definition StackModificationOp :: "u32 \<Rightarrow> opcodetype \<Rightarrow> script_machine \<Rightarrow> script_machine script_result" where
  "StackModificationOp flags opcode m =
    (if opcode = OP_TOALTSTACK then
       if length (stack m) < 1 then Inl SCRIPT_ERR_INVALID_STACK_OPERATION
       else Inr (m\<lparr>altstack := stack m ! 0 # altstack m, stack := tl (stack m)\<rparr>)
     else if opcode = OP_FROMALTSTACK then
       if length (altstack m) < 1 then Inl SCRIPT_ERR_INVALID_ALTSTACK_OPERATION
       else Inr (m\<lparr>stack := altstack m ! 0 # stack m, altstack := tl (altstack m)\<rparr>)
     else if opcode = OP_2DROP then need 2 m (\<lambda>s. tl (tl s))
     else if opcode = OP_2DUP then need 2 m (\<lambda>s. s ! 0 # s ! 1 # s)
     else if opcode = OP_3DUP then need 3 m (\<lambda>s. s ! 0 # s ! 1 # s ! 2 # s)
     else if opcode = OP_2OVER then need 4 m (\<lambda>s. s ! 2 # s ! 3 # s)
     else if opcode = OP_2ROT then need 6 m (\<lambda>s. s ! 4 # s ! 5 # (take 4 s @ drop 6 s))
     else if opcode = OP_2SWAP then need 4 m (\<lambda>s. swap_at 2 0 (swap_at 3 1 s))
     else if opcode = OP_IFDUP then need 1 m (\<lambda>s. if CastToBool (s ! 0) then s ! 0 # s else s)
     else if opcode = OP_DEPTH then need 0 m (\<lambda>s. serialize_num (int (length s)) # s)
     else if opcode = OP_DROP then need 1 m tl
     else if opcode = OP_DUP then need 1 m (\<lambda>s. s ! 0 # s)
     else if opcode = OP_NIP then need 2 m (erase_at 1)
     else if opcode = OP_OVER then need 2 m (\<lambda>s. s ! 1 # s)
     else if opcode = OP_PICK \<or> opcode = OP_ROLL then PickRollOp flags opcode m
     else if opcode = OP_ROT then need 3 m (\<lambda>s. swap_at 1 0 (swap_at 2 1 s))
     else if opcode = OP_SWAP then need 2 m (swap_at 1 0)
     else if opcode = OP_TUCK then need 2 m (\<lambda>s. take 2 s @ [s ! 0] @ drop 2 s)
     else if opcode = OP_SIZE then need 1 m (\<lambda>s. serialize_num (int (length (s ! 0))) # s)
     else Inr m)"

definition EqualityVerificationOp :: "opcodetype \<Rightarrow> script_machine \<Rightarrow> script_machine script_result" where
  "EqualityVerificationOp opcode m =
    (if opcode = OP_VERIFY then
       if length (stack m) < 1 then Inl SCRIPT_ERR_INVALID_STACK_OPERATION
       else if CastToBool (stack m ! 0) then Inr (m\<lparr>stack := tl (stack m)\<rparr>)
       else Inl SCRIPT_ERR_VERIFY
     else if opcode = OP_EQUAL \<or> opcode = OP_EQUALVERIFY then
       if length (stack m) < 2 then Inl SCRIPT_ERR_INVALID_STACK_OPERATION
       else
         let fEqual = (stack m ! 1 = stack m ! 0); s = vchBool fEqual # tl (tl (stack m))
         in if opcode = OP_EQUALVERIFY then
              if fEqual then Inr (m\<lparr>stack := tl s\<rparr>) else Inl SCRIPT_ERR_EQUALVERIFY
            else Inr (m\<lparr>stack := s\<rparr>)
     else Inr m)"

definition MetadataOp :: "script_machine \<Rightarrow> script_machine script_result" where
  "MetadataOp m = Inl SCRIPT_ERR_OP_META"

definition UnaryNumericOp :: "u32 \<Rightarrow> opcodetype \<Rightarrow> script_machine \<Rightarrow> script_machine script_result" where
  "UnaryNumericOp flags opcode m =
    (if length (stack m) < 1 then Inl SCRIPT_ERR_INVALID_STACK_OPERATION
     else ebind (stack_num flags (stack m ! 0)) (\<lambda>bn.
       ebind
         (if opcode = OP_1ADD then Inr (bn + 1)
          else if opcode = OP_1SUB then Inr (bn - 1)
          else if opcode = OP_NEGATE then Inr (- bn)
          else if opcode = OP_ABS then Inr (if bn < 0 then - bn else bn)
          else if opcode = OP_NOT then Inr (of_bool_num (bn = 0))
          else if opcode = OP_0NOTEQUAL then Inr (of_bool_num (bn \<noteq> 0))
          else Inl SCRIPT_ERR_UNKNOWN_ERROR)
         (\<lambda>bn. Inr (m\<lparr>stack := serialize_num bn # tl (stack m)\<rparr>))))"

definition binary_num :: "opcodetype \<Rightarrow> int \<Rightarrow> int \<Rightarrow> int script_result" where
  "binary_num opcode bn1 bn2 =
    (if opcode = OP_ADD then Inr (bn1 + bn2)
     else if opcode = OP_SUB then Inr (bn1 - bn2)
     else if opcode = OP_BOOLAND then Inr (of_bool_num (bn1 \<noteq> 0 \<and> bn2 \<noteq> 0))
     else if opcode = OP_BOOLOR then Inr (of_bool_num (bn1 \<noteq> 0 \<or> bn2 \<noteq> 0))
     else if opcode = OP_NUMEQUAL then Inr (of_bool_num (bn1 = bn2))
     else if opcode = OP_NUMEQUALVERIFY then Inr (of_bool_num (bn1 = bn2))
     else if opcode = OP_NUMNOTEQUAL then Inr (of_bool_num (bn1 \<noteq> bn2))
     else if opcode = OP_LESSTHAN then Inr (of_bool_num (bn1 < bn2))
     else if opcode = OP_GREATERTHAN then Inr (of_bool_num (bn1 > bn2))
     else if opcode = OP_LESSTHANOREQUAL then Inr (of_bool_num (bn1 \<le> bn2))
     else if opcode = OP_GREATERTHANOREQUAL then Inr (of_bool_num (bn1 \<ge> bn2))
     else if opcode = OP_MIN then Inr (if bn1 < bn2 then bn1 else bn2)
     else if opcode = OP_MAX then Inr (if bn1 > bn2 then bn1 else bn2)
     else Inl SCRIPT_ERR_UNKNOWN_ERROR)"

definition BinaryNumericOp :: "u32 \<Rightarrow> opcodetype \<Rightarrow> script_machine \<Rightarrow> script_machine script_result" where
  "BinaryNumericOp flags opcode m =
    (if length (stack m) < 2 then Inl SCRIPT_ERR_INVALID_STACK_OPERATION
     else ebind (stack_num flags (stack m ! 1)) (\<lambda>bn1.
       ebind (stack_num flags (stack m ! 0)) (\<lambda>bn2.
       ebind (binary_num opcode bn1 bn2) (\<lambda>bn.
         let s = serialize_num bn # tl (tl (stack m))
         in if opcode = OP_NUMEQUALVERIFY then
              if CastToBool (s ! 0) then Inr (m\<lparr>stack := tl s\<rparr>) else Inl SCRIPT_ERR_NUMEQUALVERIFY
            else Inr (m\<lparr>stack := s\<rparr>)))))"

definition NumericBoundsOp :: "u32 \<Rightarrow> script_machine \<Rightarrow> script_machine script_result" where
  "NumericBoundsOp flags m =
    (if length (stack m) < 3 then Inl SCRIPT_ERR_INVALID_STACK_OPERATION
     else ebind (stack_num flags (stack m ! 2)) (\<lambda>bn1.
       ebind (stack_num flags (stack m ! 1)) (\<lambda>bn2.
       ebind (stack_num flags (stack m ! 0)) (\<lambda>bn3.
         let fValue = (bn2 \<le> bn1 \<and> bn1 < bn3)
         in Inr (m\<lparr>stack := vchBool fValue # tl (tl (tl (stack m)))\<rparr>)))))"

definition HashingOp :: "script_env \<Rightarrow> opcodetype \<Rightarrow> script_machine \<Rightarrow> script_machine script_result" where
  "HashingOp E opcode m =
    (if length (stack m) < 1 then Inl SCRIPT_ERR_INVALID_STACK_OPERATION
     else
       let vch = stack m ! 0;
           vchHash =
             (if opcode = OP_RIPEMD160 then RIPEMD160 E vch
              else if opcode = OP_SHA1 then SHA1 E vch
              else if opcode = OP_SHA256 then SHA256 E vch
              else if opcode = OP_HASH160 then Hash160 E vch
              else if opcode = OP_HASH256 then Hash256 E vch
              else replicate 32 0)
       in Inr (m\<lparr>stack := vchHash # tl (stack m)\<rparr>))"

section \<open>Encodings of keys and signatures\<close>

definition IsCompressedOrUncompressedPubKey :: "bytes \<Rightarrow> bool" where
  "IsCompressedOrUncompressedPubKey vchPubKey \<longleftrightarrow>
    (if length vchPubKey < 33 then False
     else if vchPubKey ! 0 = 0x04 then length vchPubKey = 65
     else if vchPubKey ! 0 = 0x02 \<or> vchPubKey ! 0 = 0x03 then length vchPubKey = 33
     else False)"

definition IsValidSignatureEncoding :: "bytes \<Rightarrow> bool" where
  "IsValidSignatureEncoding sig \<longleftrightarrow>
    (if length sig < 9 then False
     else if length sig > 73 then False
     else if sig ! 0 \<noteq> 0x30 then False
     else if unat (sig ! 1) \<noteq> length sig - 3 then False
     else
       let lenR = unat (sig ! 3)
       in if 5 + lenR \<ge> length sig then False
          else
            let lenS = unat (sig ! (5 + lenR))
            in if lenR + lenS + 7 \<noteq> length sig then False
               else if sig ! 2 \<noteq> 0x02 then False
               else if lenR = 0 then False
               else if sig ! 4 AND 0x80 \<noteq> 0 then False
               else if lenR > 1 \<and> sig ! 4 = 0 \<and> sig ! 5 AND 0x80 = 0 then False
               else if sig ! (lenR + 4) \<noteq> 0x02 then False
               else if lenS = 0 then False
               else if sig ! (lenR + 6) AND 0x80 \<noteq> 0 then False
               else if lenS > 1 \<and> sig ! (lenR + 6) = 0 \<and> sig ! (lenR + 7) AND 0x80 = 0 then False
               else True)"

definition IsLowDERSignature :: "script_env \<Rightarrow> bytes \<Rightarrow> unit script_result" where
  "IsLowDERSignature E vchSig =
    (if \<not> IsValidSignatureEncoding vchSig then Inl SCRIPT_ERR_SIG_DER
     else
       let nLenR = unat (vchSig ! 3); nLenS = unat (vchSig ! (5 + nLenR)); S = take nLenS (drop (6 + nLenR) vchSig)
       in if \<not> CheckSignatureElement E S then Inl SCRIPT_ERR_SIG_HIGH_S else Inr ())"

definition IsDefinedHashtypeSignature :: "bytes \<Rightarrow> bool" where
  "IsDefinedHashtypeSignature vchSig \<longleftrightarrow>
    vchSig \<noteq> [] \<and> (let nHashType = last vchSig AND NOT 0x80 in 1 \<le> nHashType \<and> nHashType \<le> 3)"

definition CheckSignatureEncoding :: "script_env \<Rightarrow> u32 \<Rightarrow> bytes \<Rightarrow> unit script_result" where
  "CheckSignatureEncoding E flags vchSig =
    (if vchSig = [] then Inr ()
     else if has_script_flag flags (SCRIPT_VERIFY_DERSIG OR SCRIPT_VERIFY_LOW_S OR SCRIPT_VERIFY_STRICTENC) \<and>
       \<not> IsValidSignatureEncoding vchSig then Inl SCRIPT_ERR_SIG_DER
     else ebind (if has_script_flag flags SCRIPT_VERIFY_LOW_S then IsLowDERSignature E vchSig else Inr ()) (\<lambda>_.
       if has_script_flag flags SCRIPT_VERIFY_STRICTENC \<and> \<not> IsDefinedHashtypeSignature vchSig then Inl SCRIPT_ERR_SIG_HASHTYPE
       else Inr ()))"

definition CheckPubKeyEncoding :: "u32 \<Rightarrow> bytes \<Rightarrow> unit script_result" where
  "CheckPubKeyEncoding flags vchPubKey =
    (if has_script_flag flags SCRIPT_VERIFY_STRICTENC \<and> \<not> IsCompressedOrUncompressedPubKey vchPubKey then Inl SCRIPT_ERR_PUBKEYTYPE
     else Inr ())"

section \<open>Signature operations\<close>

definition MAXIMUM_NUMBER_OF_OPCODES :: nat where
  "MAXIMUM_NUMBER_OF_OPCODES = 201"

definition delete_signature :: "bytes \<Rightarrow> CScript \<Rightarrow> CScript" where
  "delete_signature vchSig scriptCode = snd (FindAndDelete scriptCode (push_data [] vchSig))"

definition CheckSigOp :: "script_env \<Rightarrow> u32 \<Rightarrow> opcodetype \<Rightarrow> CScript \<Rightarrow> script_machine \<Rightarrow> script_machine script_result" where
  "CheckSigOp E flags opcode scriptCode m =
    (if length (stack m) < 2 then Inl SCRIPT_ERR_INVALID_STACK_OPERATION
     else
       let vchSig = stack m ! 1; vchPubKey = stack m ! 0; scriptCode = delete_signature vchSig scriptCode
       in ebind (CheckSignatureEncoding E flags vchSig) (\<lambda>_.
          ebind (CheckPubKeyEncoding flags vchPubKey) (\<lambda>_.
            let fSuccess = CheckSig E vchSig vchPubKey scriptCode; s = vchBool fSuccess # tl (tl (stack m))
            in if opcode = OP_CHECKSIGVERIFY then
                 if fSuccess then Inr (m\<lparr>stack := tl s\<rparr>) else Inl SCRIPT_ERR_CHECKSIGVERIFY
               else Inr (m\<lparr>stack := s\<rparr>))))"

text \<open>The loop over the signatures and keys, with the positions and the numbers of those left.\<close>

function multisig_loop ::
  "script_env \<Rightarrow> u32 \<Rightarrow> CScript \<Rightarrow> bytes list \<Rightarrow> nat \<Rightarrow> nat \<Rightarrow> nat \<Rightarrow> nat \<Rightarrow> bool script_result" where
  "multisig_loop E flags scriptCode s isig ikey nSigsCount nKeysCount =
    (if nSigsCount = 0 then Inr True
     else
       let vchSig = s ! (isig - 1); vchPubKey = s ! (ikey - 1)
       in case CheckSignatureEncoding E flags vchSig of
            Inl e \<Rightarrow> Inl e
          | Inr _ \<Rightarrow>
              case CheckPubKeyEncoding flags vchPubKey of
                Inl e \<Rightarrow> Inl e
              | Inr _ \<Rightarrow>
                  let fOk = CheckSig E vchSig vchPubKey scriptCode;
                      isig = (if fOk then isig + 1 else isig);
                      nSigsCount = (if fOk then nSigsCount - 1 else nSigsCount);
                      nKeysCount = nKeysCount - 1
                  in if nSigsCount > nKeysCount then Inr False
                     else multisig_loop E flags scriptCode s isig (ikey + 1) nSigsCount nKeysCount)"
  by pat_completeness auto
termination
  by (relation "measure (\<lambda>(E, flags, code, s, isig, ikey, nSigs, nKeys). nSigs + nKeys)") (auto split: if_splits)

declare multisig_loop.simps [simp del]

definition CheckMultisigOp :: "script_env \<Rightarrow> u32 \<Rightarrow> opcodetype \<Rightarrow> CScript \<Rightarrow> script_machine \<Rightarrow> script_machine script_result" where
  "CheckMultisigOp E flags opcode scriptCode m =
    (let s = stack m
     in if length s < 1 then Inl SCRIPT_ERR_INVALID_STACK_OPERATION
        else ebind (stack_num flags (s ! 0)) (\<lambda>bn.
          let nKeysCount = getint bn
          in if nKeysCount < 0 \<or> nKeysCount > 20 then Inl SCRIPT_ERR_PUBKEY_COUNT
             else
               let nKeysCount = nat nKeysCount; m = m\<lparr>opCount := opCount m + nKeysCount\<rparr>
               in if opCount m > MAXIMUM_NUMBER_OF_OPCODES then Inl SCRIPT_ERR_OP_COUNT
                  else
                    let ikey = 2; i = ikey + nKeysCount
                    in if length s < i then Inl SCRIPT_ERR_INVALID_STACK_OPERATION
                       else ebind (stack_num flags (s ! (i - 1))) (\<lambda>bn.
                         let nSigsCount = getint bn
                         in if nSigsCount < 0 \<or> nSigsCount > int nKeysCount then Inl SCRIPT_ERR_SIG_COUNT
                            else
                              let nSigsCount = nat nSigsCount; isig = i + 1; i = isig + nSigsCount
                              in if length s < i then Inl SCRIPT_ERR_INVALID_STACK_OPERATION
                                 else
                                   let scriptCode = foldl (\<lambda>code k. delete_signature (s ! (isig + k - 1)) code) scriptCode [0..<nSigsCount]
                                   in ebind (multisig_loop E flags scriptCode s isig ikey nSigsCount nKeysCount) (\<lambda>fSuccess.
                                     let s = drop (i - 1) s
                                     in if length s < 1 then Inl SCRIPT_ERR_INVALID_STACK_OPERATION
                                        else if has_script_flag flags SCRIPT_VERIFY_NULLDUMMY \<and> length (s ! 0) \<noteq> 0 then Inl SCRIPT_ERR_SIG_NULLDUMMY
                                        else
                                          let s = vchBool fSuccess # tl s
                                          in if opcode = OP_CHECKMULTISIGVERIFY then
                                               if fSuccess then Inr (m\<lparr>stack := tl s\<rparr>) else Inl SCRIPT_ERR_CHECKMULTISIGVERIFY
                                             else Inr (m\<lparr>stack := s\<rparr>)))))"

definition SignatureCheckOp :: "script_env \<Rightarrow> u32 \<Rightarrow> opcodetype \<Rightarrow> CScript \<Rightarrow> script_machine \<Rightarrow> script_machine script_result" where
  "SignatureCheckOp E flags opcode scriptCode m =
    (if opcode = OP_CHECKSIG \<or> opcode = OP_CHECKSIGVERIFY then CheckSigOp E flags opcode scriptCode m
     else if opcode = OP_CHECKMULTISIG \<or> opcode = OP_CHECKMULTISIGVERIFY then CheckMultisigOp E flags opcode scriptCode m
     else Inr m)"

definition CoinstakeCheckOp :: "script_env \<Rightarrow> script_machine \<Rightarrow> script_machine script_result" where
  "CoinstakeCheckOp E m = (if CheckCoinstake E then Inr m else Inl SCRIPT_ERR_VERIFY)"

section \<open>Dispatch\<close>

definition upgradableOpCodes :: "opcodetype list" where
  "upgradableOpCodes = [OP_NOP1, OP_NOP2, OP_NOP3, OP_NOP4, OP_NOP5, OP_NOP6, OP_NOP7, OP_NOP8, OP_NOP9, OP_NOP10]"

definition simpleValueOpCodes :: "opcodetype list" where
  "simpleValueOpCodes = [OP_1NEGATE, OP_1, OP_2, OP_3, OP_4, OP_5, OP_6, OP_7, OP_8, OP_9, OP_10, OP_11, OP_12, OP_13, OP_14,
    OP_15, OP_16]"

definition conditionalOpCodes :: "opcodetype list" where
  "conditionalOpCodes = [OP_IF, OP_NOTIF, OP_ELSE, OP_ENDIF]"

definition stackModificationOpCodes :: "opcodetype list" where
  "stackModificationOpCodes = [OP_TOALTSTACK, OP_FROMALTSTACK, OP_2DROP, OP_2DUP, OP_3DUP, OP_2OVER, OP_2ROT, OP_2SWAP, OP_IFDUP,
    OP_DEPTH, OP_DROP, OP_DUP, OP_NIP, OP_OVER, OP_PICK, OP_ROLL, OP_ROT, OP_SWAP, OP_TUCK, OP_SIZE]"

definition equalityAndVerificationOpCodes :: "opcodetype list" where
  "equalityAndVerificationOpCodes = [OP_EQUAL, OP_EQUALVERIFY, OP_VERIFY]"

definition unaryNumericOpCodes :: "opcodetype list" where
  "unaryNumericOpCodes = [OP_1ADD, OP_1SUB, OP_NEGATE, OP_ABS, OP_NOT, OP_0NOTEQUAL]"

definition binaryNumericOpCodes :: "opcodetype list" where
  "binaryNumericOpCodes = [OP_ADD, OP_SUB, OP_BOOLAND, OP_BOOLOR, OP_NUMEQUAL, OP_NUMEQUALVERIFY, OP_NUMNOTEQUAL, OP_LESSTHAN,
    OP_GREATERTHAN, OP_LESSTHANOREQUAL, OP_GREATERTHANOREQUAL, OP_MIN, OP_MAX]"

definition hashingOpCodes :: "opcodetype list" where
  "hashingOpCodes = [OP_RIPEMD160, OP_SHA1, OP_SHA256, OP_HASH160, OP_HASH256]"

definition checkSigOpcodes :: "opcodetype list" where
  "checkSigOpcodes = [OP_CHECKSIG, OP_CHECKSIGVERIFY, OP_CHECKMULTISIG, OP_CHECKMULTISIGVERIFY]"

lemmas opcode_class_defs =
  upgradableOpCodes_def simpleValueOpCodes_def conditionalOpCodes_def stackModificationOpCodes_def
  equalityAndVerificationOpCodes_def unaryNumericOpCodes_def binaryNumericOpCodes_def hashingOpCodes_def checkSigOpcodes_def

definition ApplyOpcode :: "script_env \<Rightarrow> u32 \<Rightarrow> opcodetype \<Rightarrow> script_machine \<Rightarrow> script_machine script_result" where
  "ApplyOpcode E flags opcode m =
    (if has_script_flag flags SCRIPT_REQUIRE_COINSTAKE \<and> opcode = OP_REQUIRE_COINSTAKE then CoinstakeCheckOp E m
     else if opcode = OP_META then MetadataOp m
     else if opcode = OP_WITHIN then NumericBoundsOp flags m
     else if opcode \<in> set upgradableOpCodes then DisabledOp flags m
     else if opcode \<in> set simpleValueOpCodes then PushValueOp opcode m
     else if opcode \<in> set conditionalOpCodes then ConditionalOp opcode m
     else if opcode \<in> set stackModificationOpCodes then StackModificationOp flags opcode m
     else if opcode \<in> set equalityAndVerificationOpCodes then EqualityVerificationOp opcode m
     else if opcode \<in> set unaryNumericOpCodes then UnaryNumericOp flags opcode m
     else if opcode \<in> set binaryNumericOpCodes then BinaryNumericOp flags opcode m
     else if opcode \<in> set hashingOpCodes then HashingOp E opcode m
     else Inl SCRIPT_ERR_BAD_OPCODE)"

definition ApplyOpcode_sig :: "script_env \<Rightarrow> u32 \<Rightarrow> opcodetype \<Rightarrow> CScript \<Rightarrow> script_machine \<Rightarrow> script_machine script_result" where
  "ApplyOpcode_sig E flags opcode scriptCode m =
    (if opcode \<in> set checkSigOpcodes then SignatureCheckOp E flags opcode scriptCode m
     else Inl SCRIPT_ERR_INVALID_STACK_OPERATION)"

section \<open>The manager\<close>

definition StackOperationManager_new :: "bytes list \<Rightarrow> script_machine" where
  "StackOperationManager_new s =
    \<lparr>stack = s, altstack = [],
     conditionalManager = \<lparr>conditionalScopeReadStatusStack = [], conditionalScopeNeedsClosing = False\<rparr>, opCount = 0\<rparr>"

definition ReserveAdditionalOp :: "script_machine \<Rightarrow> bool \<times> script_machine" where
  "ReserveAdditionalOp m = (let m = m\<lparr>opCount := opCount m + 1\<rparr> in (opCount m \<le> MAXIMUM_NUMBER_OF_OPCODES, m))"

definition PushData :: "bytes \<Rightarrow> script_machine \<Rightarrow> script_machine" where
  "PushData stackElement m = m\<lparr>stack := stackElement # stack m\<rparr>"

definition ConditionalNeedsClosing :: "script_machine \<Rightarrow> bool" where
  "ConditionalNeedsClosing m = conditionalScopeNeedsClosing (conditionalManager m)"

definition ConditionalScopeIsBalanced :: "script_machine \<Rightarrow> bool" where
  "ConditionalScopeIsBalanced m \<longleftrightarrow> conditionalScopeReadStatusStack (conditionalManager m) = []"

definition TotalStackSize :: "script_machine \<Rightarrow> nat" where
  "TotalStackSize m = length (stack m) + length (altstack m)"

definition OpcodeIsDisabled :: "opcodetype \<Rightarrow> bool" where
  "OpcodeIsDisabled opcode \<longleftrightarrow> opcode \<in> set [OP_CAT, OP_SUBSTR, OP_LEFT, OP_RIGHT, OP_INVERT, OP_AND, OP_OR, OP_XOR, OP_2MUL,
    OP_2DIV, OP_MUL, OP_DIV, OP_MOD, OP_LSHIFT, OP_RSHIFT]"

end
