(* ===== verification/Script_Codec.thy ===== *)
theory Script_Codec
  imports Script
begin

text \<open>
  Round trips of the script encoding: numbers on the stack, pushed data, small numbers, and the script of a staking vault,
  which is recognised exactly when it has the form the node creates.
\<close>

section \<open>Numbers\<close>

lemma le_int_concat: "le_int xs OR push_bit (8 * length xs) y = le_int xs + 2 ^ (8 * length xs) * y"
proof -
  have t: "take_bit (8 * length xs) (le_int xs) = le_int xs" by (simp add: take_bit_int_eq_self le_int_less)
  show ?thesis using concat_bit_def [of "8 * length xs" "le_int xs" y] concat_bit_eq [of "8 * length xs" "le_int xs" y]
    unfolding t by (simp add: push_bit_eq_mult mult.commute)
qed

lemma set_vch_result:
  "n \<le> length v \<Longrightarrow> foldl (\<lambda>result i. result OR push_bit (8 * i) (uint (v ! i))) 0 [0..<n] = le_int (take n v)"
proof (induction n)
  case (Suc n)
  have l: "length (take n v) = n" using Suc.prems by simp
  show ?case using Suc le_int_concat [of "take n v" "uint (v ! n)"]
    by (simp add: take_Suc_conv_app_nth le_int_append l)
qed simp

lemma and_not_concat: "(take_bit k x OR push_bit k y) AND NOT (push_bit k c) = take_bit k x OR push_bit k (y AND NOT c)" for x y c :: int
  by (rule bit_eqI) (auto simp: bit_simps)

lemma set_vch_snoc:
  "set_vch (xs @ [b]) =
    (if b AND 0x80 \<noteq> 0 then - (le_int xs + 2 ^ (8 * length xs) * (uint b AND NOT 0x80)) else le_int xs + 2 ^ (8 * length xs) * uint b)"
proof -
  have "le_int (xs @ [b]) = take_bit (8 * length xs) (le_int xs) OR push_bit (8 * length xs) (uint b)"
    using le_int_concat [of xs "uint b"] by (simp add: le_int_append take_bit_int_eq_self le_int_less)
  then have "le_int (xs @ [b]) AND NOT (push_bit (8 * length xs) 0x80) =
    take_bit (8 * length xs) (le_int xs) OR push_bit (8 * length xs) (uint b AND NOT 0x80)"
    using and_not_concat [of "8 * length xs" "le_int xs" "uint b" "0x80"] by simp
  also have "\<dots> = le_int xs + 2 ^ (8 * length xs) * (uint b AND NOT 0x80)"
    using le_int_concat [of xs "uint b AND NOT 0x80"] by (simp only: take_bit_int_eq_self [OF le_int_nonneg le_int_less])
  finally show ?thesis
    using set_vch_result [of "length (xs @ [b])" "xs @ [b]"] by (simp add: set_vch_def Let_def le_int_append del: upt_Suc)
qed

lemma le_int_abs_bytes: "le_int (abs_bytes n) = int n"
proof (induction n rule: abs_bytes.induct)
  case (1 n)
  have "uint (word_of_nat (n mod 256) :: u8) = int (n mod 256)" by (simp add: unsigned_of_nat zmod_int take_bit_eq_mod)
  with 1 show ?case by (subst abs_bytes.simps) (auto simp: zmod_int zdiv_int)
qed

lemma abs_bytes_Nil [simp]: "abs_bytes n = [] \<longleftrightarrow> n = 0"
  by (subst abs_bytes.simps) simp

lemma last_abs_bytes: "0 < n \<Longrightarrow> last (abs_bytes n) \<noteq> 0"
proof (induction n rule: abs_bytes.induct)
  case (1 n)
  show ?case
  proof (cases "n div 256 = 0")
    case True
    then have "n < 256" by auto
    then have "(word_of_nat n :: u8) \<noteq> 0" using 1(2) by (auto simp: word_of_nat_eq_0_iff dest: nat_dvd_not_less)
    then show ?thesis using True 1(2) \<open>n < 256\<close> by (subst abs_bytes.simps) simp
  next
    case False
    then show ?thesis using 1 by (subst abs_bytes.simps) auto
  qed
qed

lemma length_abs_bytes: "n < 256 ^ k \<Longrightarrow> length (abs_bytes n) \<le> k"
proof (induction k arbitrary: n)
  case (Suc k)
  then have "n div 256 < 256 ^ k" by (simp add: less_mult_imp_div_less mult.commute)
  from Suc.IH [OF this] show ?case by (subst abs_bytes.simps) simp
qed simp

lemma length_serialize_num: "nat \<bar>n\<bar> < 256 ^ k \<Longrightarrow> length (serialize_num n) \<le> Suc k"
  using length_abs_bytes [of "nat \<bar>n\<bar>" k] by (auto simp: serialize_num_def Let_def)

lemma high_bit_iff: "b AND 0x80 = 0 \<longleftrightarrow> \<not> bit b 7" for b :: u8
  using bit_iff_and_push_bit_not_eq_0 [of b 7] by (simp add: push_bit_eq_mult)

lemma bit_0x80: "bit (0x80 :: u8) n \<longleftrightarrow> n = 7" "bit (0x80 :: int) n \<longleftrightarrow> n = 7"
  using bit_exp_iff [of 7 n, where 'a = u8] bit_exp_iff [of 7 n, where 'a = int] by auto

lemma high_bit_u8:
  fixes b :: u8
  shows "b AND 0x80 = 0 \<Longrightarrow> uint (b OR 0x80) AND NOT 0x80 = uint b" "(b OR 0x80) AND 0x80 \<noteq> 0"
    and "b AND 0x7f = 0 \<Longrightarrow> b AND 0x80 = 0 \<Longrightarrow> b = 0" "(b OR 0x80) AND 0x7f = b AND 0x7f" "b < 0x80 \<Longrightarrow> b AND 0x80 = 0"
proof -
  have "(0x7f OR 0x80 :: u8) = - 1" by simp
  then have "b = b AND (0x7f OR 0x80)" by (simp only: and.right_neutral)
  then have b: "b = (b AND 0x7f) OR (b AND 0x80)" by (simp only: bit.conj_disj_distrib)
  show "b AND 0x7f = 0 \<Longrightarrow> b AND 0x80 = 0 \<Longrightarrow> b = 0" using b by simp
  show "(b OR 0x80) AND 0x80 \<noteq> 0" by (simp add: bit.conj_disj_distrib2)
  show "(b OR 0x80) AND 0x7f = b AND 0x7f" by (simp add: bit.conj_disj_distrib2)
  show "b AND 0x80 = 0 \<Longrightarrow> uint (b OR 0x80) AND NOT 0x80 = uint b"
    by (rule bit_eqI) (auto simp: bit_simps high_bit_iff bit_0x80 unsigned_or_eq)
  assume "b < 0x80"
  then have "uint b < 2 ^ 7" by (simp add: word_less_def)
  then have "take_bit 7 (uint b) = uint b" by (simp add: take_bit_int_eq_self)
  then have "\<not> bit (uint b) 7" by (metis bit_take_bit_iff less_irrefl)
  then show "b AND 0x80 = 0" by (simp add: high_bit_iff bit_uint_iff)
qed

lemma set_vch_serialize: "set_vch (serialize_num n) = n"
proof (cases "n = 0")
  case True
  then show ?thesis by (simp add: serialize_num_def set_vch_def)
next
  case False
  let ?a = "abs_bytes (nat \<bar>n\<bar>)"
  have a: "?a = butlast ?a @ [last ?a]" using False by (subst append_butlast_last_id) auto
  have v: "\<bar>n\<bar> = le_int (butlast ?a) + 2 ^ (8 * length (butlast ?a)) * uint (last ?a)"
    using le_int_abs_bytes [of "nat \<bar>n\<bar>"] by (subst (asm) a) (simp only: le_int_append, simp)
  consider "last ?a AND 0x80 \<noteq> 0" | "last ?a AND 0x80 = 0" "n < 0" | "last ?a AND 0x80 = 0" "n > 0" using False by linarith
  then show ?thesis
  proof cases
    case 1
    then show ?thesis using False by (simp add: serialize_num_def Let_def set_vch_snoc le_int_abs_bytes)
  next
    case 2
    then show ?thesis using v high_bit_u8(1,2) [of "last ?a"] by (simp add: serialize_num_def Let_def set_vch_snoc)
  next
    case 3
    then have "set_vch (serialize_num n) = set_vch (butlast ?a @ [last ?a])" using a by (simp add: serialize_num_def Let_def)
    then show ?thesis using v 3 unfolding set_vch_snoc by simp
  qed
qed

lemma serialize_num_minimal:
  assumes "n \<noteq> 0"
  shows "\<not> (last (serialize_num n) AND 0x7f = 0 \<and>
    (length (serialize_num n) \<le> 1 \<or> serialize_num n ! (length (serialize_num n) - 2) AND 0x80 = 0))"
proof -
  let ?a = "abs_bytes (nat \<bar>n\<bar>)"
  have a: "?a \<noteq> []" "last ?a \<noteq> 0" using assms last_abs_bytes by auto
  have "last ?a AND 0x7f \<noteq> 0" if "last ?a AND 0x80 = 0" using high_bit_u8(3) a(2) that by blast
  then show ?thesis using a assms
    by (auto simp: serialize_num_def Let_def last_conv_nth nth_append high_bit_u8(4))
qed

lemma length_serialize_num_4:
  assumes "\<bar>n\<bar> < 2 ^ 31"
  shows "length (serialize_num n) \<le> 4"
proof (cases "n = 0 \<or> length (abs_bytes (nat \<bar>n\<bar>)) \<le> 3")
  case False
  let ?a = "abs_bytes (nat \<bar>n\<bar>)"
  have l: "length ?a = 4" using length_abs_bytes [of "nat \<bar>n\<bar>" 4] False assms by (simp add: nat_less_iff)
  have a: "?a = butlast ?a @ [last ?a]" using False by (subst append_butlast_last_id) auto
  have "\<bar>n\<bar> = le_int (butlast ?a) + 2 ^ (8 * length (butlast ?a)) * uint (last ?a)"
    using le_int_abs_bytes [of "nat \<bar>n\<bar>"] by (subst (asm) a) (simp only: le_int_append, simp)
  then have "16777216 * uint (last ?a) < 2 ^ 31" using assms l le_int_nonneg [of "butlast ?a"] by (simp del: le_int_nonneg)
  then have "last ?a < 0x80" by (simp add: word_less_def)
  then have "last ?a AND 0x80 = 0" by (rule high_bit_u8(5))
  then show ?thesis using l by (auto simp: serialize_num_def Let_def abs_if split: if_splits)
qed (auto simp: serialize_num_def Let_def)

lemma low_bits_u8:
  fixes b :: u8
  shows "uint b AND NOT 0x80 = take_bit 7 (uint b)" "b AND 0x80 = 0 \<Longrightarrow> uint b = take_bit 7 (uint b)"
proof -
  show A: "uint b AND NOT 0x80 = take_bit 7 (uint b)"
    by (rule bit_eqI) (auto simp: bit_simps bit_0x80 dest: bit_imp_le_length)
  show "b AND 0x80 = 0 \<Longrightarrow> uint b = take_bit 7 (uint b)" unfolding A [symmetric]
    by (rule bit_eqI) (auto simp: bit_simps bit_0x80 high_bit_iff)
qed

lemma set_vch_bound: "length v \<le> Suc k \<Longrightarrow> \<bar>set_vch v\<bar> < 2 ^ (8 * k + 7)"
proof (cases v rule: rev_cases)
  case (snoc xs b)
  assume l: "length v \<le> Suc k"
  have s: "set_vch v = le_int xs + 2 ^ (8 * length xs) * take_bit 7 (uint b) \<or>
    set_vch v = - (le_int xs + 2 ^ (8 * length xs) * take_bit 7 (uint b))"
    using low_bits_u8 [of b] by (simp add: snoc set_vch_snoc)
  have t: "0 \<le> take_bit 7 (uint b)" "take_bit 7 (uint b) < 2 ^ 7" by (simp, rule take_bit_int_less_exp)
  have "2 ^ (8 * length xs) * take_bit 7 (uint b) \<le> 2 ^ (8 * length xs) * (2 ^ 7 - 1)" using t by (intro mult_left_mono) auto
  moreover have "(2::int) ^ (8 * length xs) * (2 ^ 7 - 1) + 2 ^ (8 * length xs) = 2 ^ (8 * length xs + 7)" by (simp add: power_add)
  ultimately have "le_int xs + 2 ^ (8 * length xs) * take_bit 7 (uint b) < 2 ^ (8 * length xs + 7)"
    using le_int_less [of xs] by linarith
  moreover have "(2::int) ^ (8 * length xs + 7) \<le> 2 ^ (8 * k + 7)" using l snoc by (intro power_increasing) auto
  moreover have "0 \<le> le_int xs + 2 ^ (8 * length xs) * take_bit 7 (uint b)" by simp
  ultimately show ?thesis using s by linarith
qed (simp add: set_vch_def)

text \<open>
  A number of at most 31 bits and a sign that a script leaves on the stack is read back as itself, also when minimal
  encodings are required; larger results can be left on the stack but are rejected as operands.
\<close>

theorem script_number_roundtrip:
  "CScriptNum (serialize_num n) fRequireMinimal = (if \<bar>n\<bar> < 2 ^ 31 then Inr n else Inl script_number_overflow)"
proof (cases "\<bar>n\<bar> < 2 ^ 31")
  case True
  show ?thesis
  proof (cases "n = 0")
    case nz: False
    then show ?thesis using True length_serialize_num_4 [OF True] serialize_num_minimal [OF nz]
      by (simp add: CScriptNum_def nMaxNumSize_def set_vch_serialize)
  qed (simp add: CScriptNum_def set_vch_def serialize_num_def)
next
  case False
  then have "\<not> length (serialize_num n) \<le> 4" using set_vch_bound [of "serialize_num n" 3] by (auto simp: set_vch_serialize)
  then show ?thesis using False by (simp add: CScriptNum_def nMaxNumSize_def)
qed

section \<open>Pushed data\<close>

lemma little_endian_4:
  fixes n :: nat
  assumes "n < 2 ^ 32"
  shows "n mod 256 + 256 * (n div 256 mod 256) + 65536 * (n div 65536 mod 256) + 16777216 * (n div 16777216 mod 256) = n"
proof -
  have d: "n div 65536 = n div 256 div 256" "n div 16777216 = n div 256 div 256 div 256" by (simp_all add: div_mult2_eq [symmetric])
  have "n div 256 div 256 div 256 < 256" using assms by (simp add: less_mult_imp_div_less)
  then show ?thesis unfolding d
    using mult_div_mod_eq [of 256 n] mult_div_mod_eq [of 256 "n div 256"] mult_div_mod_eq [of 256 "n div 256 div 256"]
    by (simp only: mod_less)
qed

text \<open>
  Data written with its size, in any of the four forms, is read back as itself, and reading stops behind it.
\<close>

theorem push_data_roundtrip:
  assumes "length d < 2 ^ 32"
  shows "GetOp2 (push_data [] d @ pc) = (True, hd (push_data [] d), d, pc)"
proof -
  let ?n = "length d"
  have u: "unat (word_of_nat n :: u8) = n mod 256" for n by (simp add: unat_of_nat take_bit_eq_mod)
  have l: "?n mod 256 + 256 * (?n div 256 mod 256) + 65536 * (?n div 65536 mod 256) + 16777216 * (?n div 16777216 mod 256) = ?n"
    using little_endian_4 [OF assms] .
  have l2: "?n mod 256 + 256 * (?n div 256 mod 256) = ?n" if "?n \<le> 0xffff" using that by (simp add: div_less_dividend less_mult_imp_div_less)
  have small: "(word_of_nat ?n :: u8) < OP_PUSHDATA1" if "?n < 76" using that u by (simp add: word_less_nat_alt)
  then have "(word_of_nat ?n :: u8) \<le> OP_PUSHDATA4" if "?n < 76" using that u by (simp add: word_le_nat_alt)
  with small show ?thesis by (simp add: GetOp2_def push_data_def push_size_def u l l2)
qed

theorem push_data_roundtrip_witness:
  "GetOp2 (push_data [] (replicate 300 7) @ [OP_1]) = (True, OP_PUSHDATA2, replicate 300 7, [OP_1])"
  using push_data_roundtrip [of "replicate 300 7" "[OP_1]"] by (simp add: push_data_def)

section \<open>Staking vaults\<close>

lemma vault_script:
  assumes "length ow = 20" "length va = 20"
  shows "CreateStakingVaultScript ow va =
    OP_IF # 20 # ow @ OP_ELSE # OP_REQUIRE_COINSTAKE # 20 # va @ [OP_ENDIF, OP_OVER, OP_HASH160, OP_EQUALVERIFY, OP_CHECKSIG]"
  using assms by (simp add: CreateStakingVaultScript_def push_op_def push_data_def)

lemma length_vault_template: "length GetStakingVaultScriptTemplate = 10"
  by (simp add: GetStakingVaultScriptTemplate_def push_op_def)

lemma split_vault_script:
  assumes "length s = 50"
  shows "\<exists>a b ow c d e va f. s = a # b # ow @ c # d # e # va @ f \<and> length ow = 20 \<and> length va = 20 \<and> length f = 5"
proof -
  have c: "drop i s = s ! i # drop (Suc i) s" if "i < 50" for i using Cons_nth_drop_Suc [of i s] assms that by simp
  have t: "drop i s = take 20 (drop i s) @ drop (i + 20) s" for i using append_take_drop_id [of 20 "drop i s"] by (simp add: add.commute)
  have "s = s ! 0 # s ! 1 # take 20 (drop 2 s) @ s ! 22 # s ! 23 # s ! 24 # take 20 (drop 25 s) @ drop 45 s"
    using c [of 0] c [of 1] t [of 2] c [of 22] c [of 23] c [of 24] t [of 25] by (simp add: numeral_2_eq_2)
  moreover have "length (take 20 (drop 2 s)) = 20" "length (take 20 (drop 25 s)) = 20" "length (drop 45 s) = 5" using assms by simp_all
  ultimately show ?thesis by blast
qed

lemma vault_hashes:
  "GetStakingVaultPubkeyHashes s = Some (ow, va) \<longleftrightarrow>
    length ow = 20 \<and> length va = 20 \<and> s = CreateStakingVaultScript ow va"
proof
  assume "length ow = 20 \<and> length va = 20 \<and> s = CreateStakingVaultScript ow va"
  then show "GetStakingVaultPubkeyHashes s = Some (ow, va)"
    by (simp add: GetStakingVaultPubkeyHashes_def IsStakingVaultScript_def vault_script GetStakingVaultScriptTemplate_def push_op_def
          nth_append Let_def)
next
  assume g: "GetStakingVaultPubkeyHashes s = Some (ow, va)"
  then have v: "IsStakingVaultScript s" by (simp add: GetStakingVaultPubkeyHashes_def split: if_splits)
  then have "length s = 50" by (simp add: IsStakingVaultScript_def length_vault_template)
  then obtain a b ow' c d e va' f where s: "s = a # b # ow' @ c # d # e # va' @ f" "length ow' = 20" "length va' = 20" "length f = 5"
    using split_vault_script by blast
  then have "ow = ow'" "va = va'" using g v by (simp_all add: GetStakingVaultPubkeyHashes_def)
  moreover have "a = OP_IF" "b = 20" "c = OP_ELSE" "d = OP_REQUIRE_COINSTAKE" "e = 20" "f = [OP_ENDIF, OP_OVER, OP_HASH160, OP_EQUALVERIFY, OP_CHECKSIG]"
    using v by (simp_all add: s IsStakingVaultScript_def GetStakingVaultScriptTemplate_def push_op_def nth_append Let_def)
  ultimately show "length ow = 20 \<and> length va = 20 \<and> s = CreateStakingVaultScript ow va" using s by (simp add: vault_script)
qed

text \<open>
  A script is recognised as a staking vault exactly when it is one that the node creates for two key hashes, and these
  are the hashes read from it.
\<close>

theorem vault_recognised:
  "GetStakingVaultPubkeyHashes s = Some (ow, va) \<longleftrightarrow>
    length ow = 20 \<and> length va = 20 \<and> s = CreateStakingVaultScript ow va"
  by (rule vault_hashes)

end
