(* ===== verification/Interpreter.thy ===== *)
theory Interpreter
  imports Stack_Manager Script_Codec
begin

text \<open>
  Evaluation and verification of scripts (\<^verbatim>\<open>script/interpreter.cpp\<close>). Evaluation of a script ends because every
  operation read is at least one byte long. The theory shows that the verification never fails its assertion and that
  outputs the node prunes as unspendable cannot be spent.
\<close>

section \<open>Evaluation\<close>

definition MAX_SCRIPT_ELEMENT_SIZE :: nat where
  "MAX_SCRIPT_ELEMENT_SIZE = 520"

definition CheckMinimalPush :: "bytes \<Rightarrow> opcodetype \<Rightarrow> bool" where
  "CheckMinimalPush d opcode =
    (if length d = 0 then opcode = OP_0
     else if length d = 1 \<and> 1 \<le> d ! 0 \<and> d ! 0 \<le> 16 then uint opcode = uint OP_1 + (uint (d ! 0) - 1)
     else if length d = 1 \<and> d ! 0 = 0x81 then opcode = OP_1NEGATE
     else if length d \<le> 75 then unat opcode = length d
     else if length d \<le> 255 then opcode = OP_PUSHDATA1
     else if length d \<le> 65535 then opcode = OP_PUSHDATA2
     else True)"

text \<open>
  The body of the loop for one operation; \<open>code\<close> is the script from the last code separator on and \<open>pc\<close> the rest
  behind the operation.
\<close>

definition eval_op ::
  "script_env \<Rightarrow> u32 \<Rightarrow> opcodetype \<Rightarrow> bytes \<Rightarrow> bytes \<Rightarrow> CScript \<times> script_machine \<Rightarrow> (CScript \<times> script_machine) script_result" where
  "eval_op E flags opcode vchPushValue pc x =
    (case x of (code, m) \<Rightarrow>
       if \<not> ConditionalNeedsClosing m \<and> opcode \<le> OP_PUSHDATA4 then
         if has_script_flag flags SCRIPT_VERIFY_MINIMALDATA \<and> \<not> CheckMinimalPush vchPushValue opcode then Inl SCRIPT_ERR_MINIMALDATA
         else Inr (code, PushData vchPushValue m)
       else if \<not> ConditionalNeedsClosing m \<or> OP_IF \<le> opcode \<and> opcode \<le> OP_ENDIF then
         if opcode = OP_NOP then Inr (code, m)
         else if opcode = OP_CODESEPARATOR then Inr (pc, m)
         else if opcode = OP_CHECKSIG \<or> opcode = OP_CHECKSIGVERIFY \<or> opcode = OP_CHECKMULTISIG \<or> opcode = OP_CHECKMULTISIGVERIFY then
           ebind (ApplyOpcode_sig E flags opcode code m) (\<lambda>m. Inr (code, m))
         else ebind (ApplyOpcode E flags opcode m) (\<lambda>m. Inr (code, m))
       else Inr (code, m))"

definition eval_step ::
  "script_env \<Rightarrow> u32 \<Rightarrow> bytes \<Rightarrow> CScript \<times> script_machine \<Rightarrow> (CScript \<times> script_machine) script_result" where
  "eval_step E flags pc x =
    (case GetOp2 pc of (fRet, opcode, vchPushValue, pc) \<Rightarrow>
       if \<not> fRet then Inl SCRIPT_ERR_BAD_OPCODE
       else if length vchPushValue > MAX_SCRIPT_ELEMENT_SIZE then Inl SCRIPT_ERR_PUSH_SIZE
       else
         let (reserved, m) = (if opcode > OP_16 then ReserveAdditionalOp (snd x) else (True, snd x))
         in if \<not> reserved then Inl SCRIPT_ERR_OP_COUNT
            else if OpcodeIsDisabled opcode then Inl SCRIPT_ERR_DISABLED_OPCODE
            else ebind (eval_op E flags opcode vchPushValue pc (fst x, m)) (\<lambda>x.
              if TotalStackSize (snd x) > 1000 then Inl SCRIPT_ERR_STACK_SIZE else Inr x))"

function eval_loop :: "script_env \<Rightarrow> u32 \<Rightarrow> CScript \<times> script_machine \<Rightarrow> bytes \<Rightarrow> script_machine script_result" where
  "eval_loop E flags x pc =
    (if pc = [] then if \<not> ConditionalScopeIsBalanced (snd x) then Inl SCRIPT_ERR_UNBALANCED_CONDITIONAL else Inr (snd x)
     else case eval_step E flags pc x of Inl e \<Rightarrow> Inl e | Inr x \<Rightarrow> eval_loop E flags x (snd (snd (snd (GetOp2 pc)))))"
  by pat_completeness auto
termination
  by (relation "measure (\<lambda>(E, flags, x, pc). length pc)") (auto dest: GetOp2_consumes)

declare eval_loop.simps [simp del]

definition EvalScript :: "script_env \<Rightarrow> u32 \<Rightarrow> CScript \<Rightarrow> bytes list \<Rightarrow> bytes list script_result" where
  "EvalScript E flags script s =
    (if length script > 10000 then Inl SCRIPT_ERR_SCRIPT_SIZE
     else ebind (eval_loop E flags (script, StackOperationManager_new s) script) (\<lambda>m. Inr (stack m)))"

text \<open>\<open>None\<close> is the failed assertion.\<close>

definition VerifyScript :: "script_env \<Rightarrow> CScript \<Rightarrow> CScript \<Rightarrow> u32 \<Rightarrow> unit script_result option" where
  "VerifyScript E scriptSig scriptPubKey flags =
    (if has_script_flag flags SCRIPT_VERIFY_SIGPUSHONLY \<and> \<not> IsPushOnly scriptSig then Some (Inl SCRIPT_ERR_SIG_PUSHONLY)
     else case EvalScript E flags scriptSig [] of
       Inl e \<Rightarrow> Some (Inl e)
     | Inr stackCopy \<Rightarrow>
         case EvalScript E flags scriptPubKey stackCopy of
           Inl e \<Rightarrow> Some (Inl e)
         | Inr s \<Rightarrow>
             if s = [] then Some (Inl SCRIPT_ERR_EVAL_FALSE)
             else if \<not> CastToBool (hd s) then Some (Inl SCRIPT_ERR_EVAL_FALSE)
             else if has_script_flag flags SCRIPT_VERIFY_P2SH \<and> IsPayToScriptHash scriptPubKey then
               if \<not> IsPushOnly scriptSig then Some (Inl SCRIPT_ERR_SIG_PUSHONLY)
               else if stackCopy = [] then None
               else case EvalScript E flags (hd stackCopy) (tl stackCopy) of
                   Inl e \<Rightarrow> Some (Inl e)
                 | Inr s \<Rightarrow>
                     if s = [] then Some (Inl SCRIPT_ERR_EVAL_FALSE)
                     else if \<not> CastToBool (hd s) then Some (Inl SCRIPT_ERR_EVAL_FALSE)
                     else Some (Inr ())
             else Some (Inr ()))"

section \<open>Stepping through a script\<close>

lemma eval_loop_Nil [simp]:
  "eval_loop E flags x [] = (if ConditionalScopeIsBalanced (snd x) then Inr (snd x) else Inl SCRIPT_ERR_UNBALANCED_CONDITIONAL)"
  by (subst eval_loop.simps) simp

lemma GetOp2_opcode: "OP_PUSHDATA4 < opcode \<Longrightarrow> GetOp2 (opcode # pc) = (True, opcode, [], pc)"
  by (auto simp: GetOp2_def)

lemma GetOp2_push:
  assumes "length d < 76"
  shows "GetOp2 (word_of_nat (length d) # d @ pc) = (True, word_of_nat (length d), d, pc)"
proof -
  have u: "unat (word_of_nat (length d) :: u8) = length d" using assms by (simp add: unat_of_nat take_bit_nat_eq_self)
  then have "(word_of_nat (length d) :: u8) < OP_PUSHDATA1" using assms by (simp add: word_less_nat_alt)
  moreover have "(word_of_nat (length d) :: u8) \<le> OP_PUSHDATA4" using u assms by (simp add: word_le_nat_alt)
  ultimately show ?thesis using u by (simp add: GetOp2_def push_size_def)
qed

definition checked :: "script_env \<Rightarrow> u32 \<Rightarrow> bytes \<Rightarrow> (CScript \<times> script_machine) script_result \<Rightarrow> script_machine script_result" where
  "checked E flags pc r = ebind r (\<lambda>x. if TotalStackSize (snd x) > 1000 then Inl SCRIPT_ERR_STACK_SIZE else eval_loop E flags x pc)"

lemma eval_loop_opcode:
  assumes "OP_16 < opcode" "\<not> OpcodeIsDisabled opcode"
  shows "eval_loop E flags (code, m) (opcode # pc) =
    (if opCount m + 1 > MAXIMUM_NUMBER_OF_OPCODES then Inl SCRIPT_ERR_OP_COUNT
     else checked E flags pc (eval_op E flags opcode [] pc (code, m\<lparr>opCount := opCount m + 1\<rparr>)))"
proof -
  have "OP_PUSHDATA4 < opcode" using assms(1) by (rule order.strict_trans [rotated]) simp
  note g = GetOp2_opcode [OF this, of pc]
  show ?thesis
    by (subst eval_loop.simps)
      (use assms in \<open>simp add: eval_step_def g ReserveAdditionalOp_def Let_def checked_def ebind_def split: sum.splits\<close>)
qed

lemma eval_loop_push:
  assumes "length d < 76"
  shows "eval_loop E flags (code, m) (word_of_nat (length d) # d @ pc) =
    checked E flags pc (eval_op E flags (word_of_nat (length d)) d pc (code, m))"
proof -
  have u: "unat (word_of_nat (length d) :: u8) = length d" using assms by (simp add: unat_of_nat take_bit_nat_eq_self)
  have "\<not> OP_16 < (word_of_nat (length d) :: u8)" using u assms by (simp add: word_less_nat_alt)
  moreover have "\<not> OpcodeIsDisabled (word_of_nat (length d))"
    using u assms by (auto simp: OpcodeIsDisabled_def dest!: arg_cong [of _ _ unat])
  ultimately show ?thesis using assms
    by (subst eval_loop.simps)
      (simp add: eval_step_def GetOp2_push MAX_SCRIPT_ELEMENT_SIZE_def checked_def ebind_def split: sum.splits)
qed

section \<open>Outputs that cannot be spent\<close>

lemma EvalScript_unspendable:
  assumes "IsUnspendable s"
  shows "\<exists>e. EvalScript E flags s st = Inl e"
proof -
  obtain pc where s: "s = OP_META # pc" using assms by (cases s) (auto simp: IsUnspendable_def)
  have "eval_loop E flags (s, StackOperationManager_new st) (OP_META # pc) = Inl SCRIPT_ERR_OP_META"
    by (subst eval_loop_opcode)
       (simp_all add: OpcodeIsDisabled_def StackOperationManager_new_def MAXIMUM_NUMBER_OF_OPCODES_def eval_op_def
          ConditionalNeedsClosing_def ApplyOpcode_def MetadataOp_def checked_def)
  then show ?thesis by (simp add: EvalScript_def s)
qed

lemma EvalScript_script_hash_empty:
  assumes "IsPayToScriptHash s"
  shows "\<exists>e. EvalScript E flags s [] = Inl e"
proof -
  obtain pc where s: "s = OP_HASH160 # pc" using assms by (cases s) (auto simp: IsPayToScriptHash_def)
  have "eval_loop E flags (s, StackOperationManager_new []) (OP_HASH160 # pc) = Inl SCRIPT_ERR_INVALID_STACK_OPERATION"
    by (subst eval_loop_opcode)
       (simp_all add: OpcodeIsDisabled_def StackOperationManager_new_def MAXIMUM_NUMBER_OF_OPCODES_def eval_op_def
          ConditionalNeedsClosing_def ApplyOpcode_def HashingOp_def checked_def opcode_class_defs)
  then show ?thesis by (simp add: EvalScript_def s)
qed

text \<open>
  The verification of scripts never fails its assertion: a script hash output is only satisfied
  by a script that leaves a serialised script on the stack.
\<close>

theorem VerifyScript_returns: "VerifyScript E scriptSig scriptPubKey flags \<noteq> None"
proof (cases "EvalScript E flags scriptSig [] = Inr []")
  case True
  then show ?thesis using EvalScript_script_hash_empty [of scriptPubKey E flags]
    by (cases "IsPayToScriptHash scriptPubKey") (auto simp: VerifyScript_def split: sum.splits)
next
  case False
  then show ?thesis by (auto simp: VerifyScript_def split: sum.splits)
qed

text \<open>
  C17: An output that the node drops from the set of unspent outputs as unspendable could not have been
  spent: verification fails for every input script, every checker and all flags.
\<close>

theorem unspendable_not_spent:
  assumes "IsUnspendable scriptPubKey"
  shows "\<exists>e. VerifyScript E scriptSig scriptPubKey flags = Some (Inl e)"
proof (cases "EvalScript E flags scriptSig []")
  case (Inr st)
  obtain e where "EvalScript E flags scriptPubKey st = Inl e" using EvalScript_unspendable [OF assms] by blast
  with Inr show ?thesis by (simp add: VerifyScript_def)
qed (simp add: VerifyScript_def)

theorem unspendable_not_spent_witness:
  "IsUnspendable [OP_META, 1, 7] \<and> (\<forall>E. \<exists>e. VerifyScript E [OP_1] [OP_META, 1, 7] MANDATORY_SCRIPT_VERIFY_FLAGS = Some (Inl e))"
  using unspendable_not_spent [of "[OP_META, 1, 7]" _ "[OP_1]" MANDATORY_SCRIPT_VERIFY_FLAGS] by (simp add: IsUnspendable_def)

text \<open>An environment with digests of the right size, for concrete evaluations.\<close>

definition zero_env :: script_env where
  "zero_env = \<lparr>CheckSig = (\<lambda>sig pub code. sig = [1]), CheckCoinstake = False, CheckSignatureElement = (\<lambda>s. True),
    RIPEMD160 = (\<lambda>v. replicate 20 0), SHA1 = (\<lambda>v. replicate 20 0), SHA256 = (\<lambda>v. replicate 32 0),
    Hash160 = (\<lambda>v. replicate 20 0), Hash256 = (\<lambda>v. replicate 32 0)\<rparr>"

end
