(* ===== verification/Script_Limits.thy ===== *)
theory Script_Limits
  imports Interpreter
begin

text \<open>
  The resource limits of script evaluation, as an invariant of the states that the loop of \<^verbatim>\<open>EvalScript\<close> goes through: the sizes
  of the stacks and of their elements, the number of operations, and the flag of the conditional scopes.
\<close>

section \<open>The invariant\<close>

definition small :: "bytes \<Rightarrow> bool" where
  "small v \<longleftrightarrow> length v \<le> MAX_SCRIPT_ELEMENT_SIZE"

definition scopes_ok :: "script_machine \<Rightarrow> bool" where
  "scopes_ok m \<longleftrightarrow>
    conditionalScopeNeedsClosing (conditionalManager m) = (False \<in> set (conditionalScopeReadStatusStack (conditionalManager m)))"

definition good :: "script_machine \<Rightarrow> bool" where
  "good m \<longleftrightarrow> list_all small (stack m) \<and> list_all small (altstack m) \<and> opCount m \<le> MAXIMUM_NUMBER_OF_OPCODES \<and> scopes_ok m"

definition machine_ok :: "script_machine \<Rightarrow> bool" where
  "machine_ok m \<longleftrightarrow> good m \<and> TotalStackSize m \<le> 1000"

text \<open>The digests have at most 32 bytes.\<close>

definition digests_ok :: "script_env \<Rightarrow> bool" where
  "digests_ok E \<longleftrightarrow> (\<forall>v. length (RIPEMD160 E v) = 20 \<and> length (SHA1 E v) = 20 \<and> length (SHA256 E v) = 32 \<and>
    length (Hash160 E v) = 20 \<and> length (Hash256 E v) = 32)"

text \<open>A result is an error or a state that keeps the invariant; the loop checks the size of the stacks itself.\<close>

definition keeps :: "script_machine script_result \<Rightarrow> bool" where
  "keeps r \<longleftrightarrow> (case r of Inl e \<Rightarrow> True | Inr m \<Rightarrow> good m)"

section \<open>Values\<close>

lemma small_simps [simp]: "small []" "small vchFalse" "small vchTrue" "small (vchBool b)"
  by (simp_all add: small_def vchBool_def vchTrue_def vchFalse_def MAX_SCRIPT_ELEMENT_SIZE_def)

lemma small_digest:
  assumes "digests_ok E"
  shows "small (RIPEMD160 E v)" "small (SHA1 E v)" "small (SHA256 E v)" "small (Hash160 E v)" "small (Hash256 E v)"
  using assms by (simp_all add: digests_ok_def small_def MAX_SCRIPT_ELEMENT_SIZE_def)

lemma small_serialize_num: "\<bar>n\<bar> < 2 ^ 40 \<Longrightarrow> small (serialize_num n)"
  using length_serialize_num [of n 5] by (simp add: small_def MAX_SCRIPT_ELEMENT_SIZE_def nat_less_iff)

lemma stack_num_bound: "stack_num flags v = Inr n \<Longrightarrow> \<bar>n\<bar> < 2 ^ 31"
  using set_vch_bound [of v 3]
  by (auto simp: stack_num_def CScriptNum_def nMaxNumSize_def split: sum.splits if_splits)

lemma small_length: "small v \<Longrightarrow> small (serialize_num (int (length v)))"
  by (rule small_serialize_num) (simp add: small_def MAX_SCRIPT_ELEMENT_SIZE_def)

lemma list_all_small_lists:
  assumes "list_all small s"
  shows "Suc i \<le> length s \<Longrightarrow> small (s ! i)" "list_all small (tl s)" "list_all small (take k s)" "list_all small (drop k s)"
    "Suc i \<le> length s \<Longrightarrow> Suc j \<le> length s \<Longrightarrow> list_all small (swap_at i j s)"
  using assms by (auto simp: list_all_length nth_tl swap_at_def nth_list_update)

lemma list_all_small_erase_at: "list_all small s \<Longrightarrow> list_all small (erase_at k s)"
  by (simp add: erase_at_def list_all_small_lists)

lemma length_swap_at [simp]: "length (swap_at i j s) = length s"
  by (simp add: swap_at_def)

section \<open>Operations\<close>

lemma keeps_simps [simp]: "keeps (Inl e)" "keeps (Inr m) \<longleftrightarrow> good m"
  by (simp_all add: keeps_def)

lemma keeps_if: "(b \<Longrightarrow> keeps x) \<Longrightarrow> (\<not> b \<Longrightarrow> keeps y) \<Longrightarrow> keeps (if b then x else y)"
  by simp

lemma keeps_ebind: "(\<And>x. r = Inr x \<Longrightarrow> keeps (f x)) \<Longrightarrow> keeps (ebind r f)"
  by (cases r) simp_all

lemma good_stack: "good m \<Longrightarrow> list_all small s \<Longrightarrow> good (m\<lparr>stack := s\<rparr>)"
  by (simp add: good_def scopes_ok_def)

lemma keeps_need:
  assumes "machine_ok m" "list_all small (stack m) \<Longrightarrow> n \<le> length (stack m) \<Longrightarrow> length (stack m) \<le> 1000 \<Longrightarrow> list_all small (f (stack m))"
  shows "keeps (need n m f)"
  using assms by (simp add: need_def machine_ok_def good_def scopes_ok_def TotalStackSize_def)

lemma keeps_PickRollOp:
  assumes "good m"
  shows "keeps (PickRollOp flags opcode m)"
proof -
  have s: "list_all small (tl (stack m))" using assms by (auto simp: good_def list_all_small_lists(2))
  have k: "small (tl (stack m) ! nat n)" if "\<not> n < 0" "\<not> int (length (stack m)) - 1 \<le> n" for n
    using that by (intro list_all_small_lists(1) [OF s]) (simp add: nat_less_iff less_diff_conv Suc_le_eq)
  show ?thesis unfolding PickRollOp_def
    by (rule keeps_if, simp, rule keeps_ebind)
       (auto simp: Let_def s k intro!: good_stack [OF assms] list_all_small_erase_at)
qed

lemma keeps_altstack:
  assumes "good m"
  shows "stack m \<noteq> [] \<Longrightarrow> good (m\<lparr>altstack := stack m ! 0 # altstack m, stack := tl (stack m)\<rparr>)"
    "altstack m \<noteq> [] \<Longrightarrow> good (m\<lparr>stack := altstack m ! 0 # stack m, altstack := tl (altstack m)\<rparr>)"
  using assms by (cases "stack m"; cases "altstack m"; simp add: good_def scopes_ok_def)+

lemma keeps_StackModificationOp:
  assumes m: "machine_ok m"
  shows "keeps (StackModificationOp flags opcode m)"
proof -
  have g: "good m" using m by (simp add: machine_ok_def)
  show ?thesis unfolding StackModificationOp_def
    by (intro keeps_if keeps_need [OF m] keeps_PickRollOp [OF g])
       (simp_all add: list_all_small_lists list_all_small_erase_at small_length small_serialize_num keeps_altstack [OF g] g)
qed

lemma count_list_pos: "0 < count_list xs x \<longleftrightarrow> x \<in> set xs"
  using count_list_0_iff [of xs x] by auto

lemma keeps_ConditionalOp: "good m \<Longrightarrow> keeps (ConditionalOp opcode m)"
  by (auto simp: ConditionalOp_def Let_def good_def scopes_ok_def OpenScope_def TryElse_def TryCLoseScope_def
      CheckConditionalScopeStatus_def count_list_0_iff count_list_pos split: list.splits)

lemma keeps_EqualityVerificationOp: "good m \<Longrightarrow> keeps (EqualityVerificationOp opcode m)"
  by (auto simp: EqualityVerificationOp_def Let_def good_def scopes_ok_def list_all_small_lists)

lemma keeps_UnaryNumericOp:
  assumes "good m"
  shows "keeps (UnaryNumericOp flags opcode m)"
  unfolding UnaryNumericOp_def
proof (intro keeps_if keeps_ebind, goal_cases)
  case (2 n r)
  then have "\<bar>n\<bar> < 2 ^ 31" by (blast intro: stack_num_bound)
  with 2 have "\<bar>r\<bar> < 2 ^ 40" by (auto simp: of_bool_num_def split: if_splits)
  then show ?case using assms by (simp add: good_def scopes_ok_def small_serialize_num list_all_small_lists)
qed simp

lemma keeps_BinaryNumericOp:
  assumes "good m"
  shows "keeps (BinaryNumericOp flags opcode m)"
  unfolding BinaryNumericOp_def
proof (intro keeps_if keeps_ebind, goal_cases)
  case (2 n k r)
  then have "\<bar>n\<bar> < 2 ^ 31" "\<bar>k\<bar> < 2 ^ 31" by (blast intro: stack_num_bound)+
  with 2(4) have "\<bar>r\<bar> < 2 ^ 40" by (auto simp: binary_num_def of_bool_num_def split: if_splits)
  then show ?case using assms by (simp add: Let_def good_def scopes_ok_def small_serialize_num list_all_small_lists)
qed simp

lemma keeps_NumericBoundsOp: "good m \<Longrightarrow> keeps (NumericBoundsOp flags m)"
  unfolding NumericBoundsOp_def
  by (intro keeps_if keeps_ebind) (simp_all add: Let_def good_def scopes_ok_def list_all_small_lists)

lemma keeps_HashingOp: "digests_ok E \<Longrightarrow> good m \<Longrightarrow> keeps (HashingOp E opcode m)"
  unfolding HashingOp_def
  by (intro keeps_if)
     (simp_all add: Let_def good_def scopes_ok_def list_all_small_lists small_digest small_def [of "replicate 32 0"] MAX_SCRIPT_ELEMENT_SIZE_def)

lemma keeps_CheckSigOp: "good m \<Longrightarrow> keeps (CheckSigOp E flags opcode code m)"
  unfolding CheckSigOp_def Let_def
  by (intro keeps_if keeps_ebind) (simp_all add: good_def scopes_ok_def list_all_small_lists)

lemma keeps_CheckMultisigOp: "good m \<Longrightarrow> keeps (CheckMultisigOp E flags opcode code m)"
  unfolding CheckMultisigOp_def Let_def
  by (intro keeps_if keeps_ebind) (simp_all add: good_def scopes_ok_def list_all_small_lists)

lemma keeps_PushValueOp:
  assumes "good m"
  shows "keeps (PushValueOp opcode m)"
proof -
  have "uint opcode < 256" using uint_lt2p [of opcode] by simp
  then have "\<bar>uint opcode - 80\<bar> < 1099511627776" using uint_ge_0 [of opcode] by linarith
  then have "small (serialize_num (uint opcode - (uint OP_1 - 1)))" by (intro small_serialize_num) simp
  then show ?thesis using assms by (simp add: PushValueOp_def good_def scopes_ok_def)
qed

lemmas keeps_ops =
  keeps_StackModificationOp keeps_ConditionalOp keeps_EqualityVerificationOp keeps_UnaryNumericOp keeps_BinaryNumericOp
  keeps_NumericBoundsOp keeps_HashingOp keeps_CheckSigOp keeps_CheckMultisigOp keeps_PushValueOp

lemma keeps_ApplyOpcode:
  assumes "digests_ok E" "machine_ok m" "good m"
  shows "keeps (ApplyOpcode E flags opcode m)"
  unfolding ApplyOpcode_def CoinstakeCheckOp_def MetadataOp_def DisabledOp_def
  by (intro keeps_if keeps_ops assms) (simp_all add: assms)

lemma keeps_ApplyOpcode_sig: "good m \<Longrightarrow> keeps (ApplyOpcode_sig E flags opcode code m)"
  unfolding ApplyOpcode_sig_def SignatureCheckOp_def
  by (intro keeps_if keeps_ops) simp_all

section \<open>Evaluation\<close>

lemma eval_op_good:
  assumes "digests_ok E" "machine_ok m" "small v" "eval_op E flags opcode v pc (code, m) = Inr (code', m')"
  shows "good m'"
proof -
  have g: "good m" using assms(2) by (simp add: machine_ok_def)
  have "keeps (ApplyOpcode E flags opcode m)" "keeps (ApplyOpcode_sig E flags opcode code m)"
    using assms g by (simp_all add: keeps_ApplyOpcode keeps_ApplyOpcode_sig)
  then show ?thesis using assms(3,4) g
    by (auto simp: eval_op_def ebind_Inr keeps_def PushData_def good_stack good_def split: if_splits)
       (simp_all add: scopes_ok_def)
qed

lemma eval_step_ok:
  assumes E: "digests_ok E" and m: "machine_ok (snd x)" and s: "eval_step E flags pc x = Inr x'"
  shows "machine_ok (snd x')"
proof -
  obtain fRet opcode v pc' where g: "GetOp2 pc = (fRet, opcode, v, pc')" by (cases "GetOp2 pc") auto
  obtain b m1 where r: "(if opcode > OP_16 then ReserveAdditionalOp (snd x) else (True, snd x)) = (b, m1)" by fastforce
  have v: "small v" using s by (simp add: eval_step_def g small_def split: if_splits)
  have b: "b" "eval_op E flags opcode v pc' (fst x, m1) = Inr x'" "TotalStackSize (snd x') \<le> 1000"
    using s by (auto simp: eval_step_def g r Let_def ebind_Inr split: if_splits)
  have "machine_ok m1" using m r b(1)
    by (auto simp: ReserveAdditionalOp_def Let_def machine_ok_def good_def scopes_ok_def TotalStackSize_def split: if_splits)
  with eval_op_good [OF E this v, of flags opcode pc' "fst x" "fst x'" "snd x'"] b show ?thesis by (simp add: machine_ok_def)
qed

text \<open>The states in front of the operations of a script, and the one behind the last.\<close>

inductive eval_reaches :: "script_env \<Rightarrow> u32 \<Rightarrow> CScript \<times> script_machine \<Rightarrow> bytes \<Rightarrow> CScript \<times> script_machine \<Rightarrow> bytes \<Rightarrow> bool"
  for E flags x pc where
  start: "eval_reaches E flags x pc x pc"
| step: "eval_reaches E flags x pc x' pc' \<Longrightarrow> pc' \<noteq> [] \<Longrightarrow> eval_step E flags pc' x' = Inr x'' \<Longrightarrow>
    eval_reaches E flags x pc x'' (snd (snd (snd (GetOp2 pc'))))"

lemma eval_reaches_trans:
  "eval_reaches E flags x' pc' x'' pc'' \<Longrightarrow> eval_reaches E flags x pc x' pc' \<Longrightarrow> eval_reaches E flags x pc x'' pc''"
  by (induction rule: eval_reaches.induct) (auto intro: eval_reaches.step)

lemma eval_loop_reaches: "eval_loop E flags x pc = Inr m \<Longrightarrow> \<exists>code. eval_reaches E flags x pc (code, m) []"
proof (induction E flags x pc rule: eval_loop.induct)
  case (1 E flags x pc)
  show ?case
  proof (cases "pc = []")
    case True
    then show ?thesis using 1(2) by (cases x) (auto intro: eval_reaches.start split: if_splits)
  next
    case False
    with 1(2) obtain x' where x': "eval_step E flags pc x = Inr x'" "eval_loop E flags x' (snd (snd (snd (GetOp2 pc)))) = Inr m"
      by (subst (asm) eval_loop.simps) (auto split: sum.splits)
    with 1(1) [OF False x'(1)] obtain code where "eval_reaches E flags x' (snd (snd (snd (GetOp2 pc)))) (code, m) []" by blast
    then show ?thesis using eval_reaches_trans eval_reaches.step [OF eval_reaches.start False x'(1)] by blast
  qed
qed

lemma eval_reaches_ok:
  assumes "digests_ok E" "machine_ok (snd x)" "eval_reaches E flags x pc x' pc'"
  shows "machine_ok (snd x')"
  using assms(3)
proof (induction rule: eval_reaches.induct)
  case (step x' pc' x'')
  then show ?case using eval_step_ok [OF assms(1)] by blast
qed (rule assms(2))

text \<open>
  C18: Every state that the evaluation of a script goes through keeps the limits: together at most 1000 elements on the two
  stacks, each of at most 520 bytes, at most 201 counted operations, and operations are skipped exactly while one of
  the open conditional scopes is false.
\<close>

theorem eval_keeps_limits:
  assumes "digests_ok E" "length s \<le> 1000" "list_all small s"
    and "eval_reaches E flags (script, StackOperationManager_new s) script (code, m) pc"
  shows "length (stack m) + length (altstack m) \<le> 1000 \<and> list_all small (stack m) \<and> list_all small (altstack m) \<and> opCount m \<le> 201 \<and>
    ConditionalNeedsClosing m = (False \<in> set (conditionalScopeReadStatusStack (conditionalManager m)))"
proof -
  have "machine_ok (StackOperationManager_new s)"
    using assms by (simp add: machine_ok_def good_def scopes_ok_def StackOperationManager_new_def TotalStackSize_def)
  then have "machine_ok m" using eval_reaches_ok [OF assms(1) _ assms(4)] by simp
  then show ?thesis
    by (simp add: machine_ok_def good_def scopes_ok_def ConditionalNeedsClosing_def TotalStackSize_def MAXIMUM_NUMBER_OF_OPCODES_def)
qed

lemma EvalScript_limits:
  assumes "digests_ok E" "length s \<le> 1000" "list_all small s" "EvalScript E flags script s = Inr s'"
  shows "length s' \<le> 1000" "list_all small s'"
proof -
  obtain m where m: "eval_loop E flags (script, StackOperationManager_new s) script = Inr m" "s' = stack m"
    using assms(4) by (auto simp: EvalScript_def ebind_Inr split: if_splits)
  have "machine_ok (StackOperationManager_new s)"
    using assms by (simp add: machine_ok_def good_def scopes_ok_def StackOperationManager_new_def TotalStackSize_def)
  then have "machine_ok m" using eval_loop_reaches [OF m(1)] eval_reaches_ok [OF assms(1)] by fastforce
  then show "length s' \<le> 1000" "list_all small s'" by (simp_all add: m(2) machine_ok_def good_def TotalStackSize_def)
qed

theorem eval_keeps_limits_witness:
  "digests_ok zero_env \<and>
   eval_reaches zero_env 0 ([OP_IF, OP_ENDIF], StackOperationManager_new [[]]) [OP_IF, OP_ENDIF]
     ([OP_IF, OP_ENDIF], \<lparr>stack = [], altstack = [],
        conditionalManager = \<lparr>conditionalScopeReadStatusStack = [False], conditionalScopeNeedsClosing = True\<rparr>, opCount = 1\<rparr>) [OP_ENDIF] \<and>
   opCount \<lparr>stack = [], altstack = [],
        conditionalManager = \<lparr>conditionalScopeReadStatusStack = [False], conditionalScopeNeedsClosing = True\<rparr>, opCount = 1\<rparr> \<le> 201"
  (is "?d \<and> ?r \<and> _")
proof -
  have d: ?d by (simp add: digests_ok_def zero_env_def)
  have g: "GetOp2 [OP_IF, OP_ENDIF] = (True, OP_IF, [], [OP_ENDIF])" by (simp add: GetOp2_opcode)
  have r: ?r
    using eval_reaches.step [OF eval_reaches.start [of zero_env 0 "([OP_IF, OP_ENDIF], StackOperationManager_new [[]])" "[OP_IF, OP_ENDIF]"]]
    by (simp add: g eval_step_def eval_op_def StackOperationManager_new_def ReserveAdditionalOp_def MAXIMUM_NUMBER_OF_OPCODES_def Let_def
        ConditionalNeedsClosing_def OpcodeIsDisabled_def ApplyOpcode_def opcode_class_defs ConditionalOp_def OpenScope_def TotalStackSize_def)
  show ?thesis using d r eval_keeps_limits [OF d _ _ r] by simp
qed

end
