(* ===== verification/Serialize.thy ===== *)
theory Serialize
  imports Little_Endian
begin

text \<open>
  Serialisation (\<^verbatim>\<open>serialize.h\<close>, reading from a \<^verbatim>\<open>CDataStream\<close> of \<^verbatim>\<open>streams.h\<close>): numbers of a fixed size, the two encodings of
  variable size, and vectors. Memory is little-endian. A reader takes the rest of a stream and fails with an error or returns
  a value and what is left; a pair of a writer and a reader that undo each other is a codec.
\<close>

section \<open>Streams\<close>

datatype ser_error = end_of_data | non_canonical | size_too_large

type_synonym 'a reader = "bytes \<Rightarrow> ser_error + 'a \<times> bytes"

definition rret :: "'a \<Rightarrow> 'a reader" where
  "rret x s = Inr (x, s)"

definition rbind :: "'a reader \<Rightarrow> ('a \<Rightarrow> 'b reader) \<Rightarrow> 'b reader" where
  "rbind m f s = ebind (m s) (\<lambda>x. f (fst x) (snd x))"

definition rfail :: "ser_error \<Rightarrow> 'a reader" where
  "rfail e s = Inl e"

definition stream_read :: "nat \<Rightarrow> bytes reader" where
  "stream_read n s = (if n > length s then Inl end_of_data else Inr (take n s, drop n s))"

text \<open>A number of \<open>n\<close> bytes.\<close>

definition read_uint :: "nat \<Rightarrow> int reader" where
  "read_uint n = rbind (stream_read n) (\<lambda>b. rret (le_int b))"

lemma rret_simp [simp]: "rret x s = Inr (x, s)"
  by (simp add: rret_def)

lemma rfail_simp [simp]: "rfail e s = Inl e"
  by (simp add: rfail_def)

lemma stream_read_append [simp]: "length b = n \<Longrightarrow> stream_read n (b @ r) = Inr (b, r)"
  by (auto simp: stream_read_def)

lemma rbind_Inr: "m s = Inr (x, r) \<Longrightarrow> rbind m f s = f x r"
  by (simp add: rbind_def)

lemma rbind_stream_read [simp]: "length b = n \<Longrightarrow> rbind (stream_read n) f (b @ r) = f b r"
  by (simp add: rbind_Inr)

lemma read_uint_le_bytes [simp]: "read_uint n (le_bytes n k @ r) = Inr (k mod 2 ^ (8 * n), r)"
  by (simp add: read_uint_def le_int_le_bytes)

section \<open>Codecs\<close>

locale codec =
  fixes ser :: "'a \<Rightarrow> bytes" and unser :: "'a reader" and ok :: "'a \<Rightarrow> bool"
  assumes roundtrip: "ok x \<Longrightarrow> unser (ser x @ r) = Inr (x, r)"
begin

lemma read_back: "ok x \<Longrightarrow> rbind unser f (ser x @ r) = f x r"
  by (simp add: rbind_Inr roundtrip)

lemma unique:
  assumes "ok x" "ok y" "ser x @ r = ser y @ s"
  shows "x = y \<and> r = s"
proof -
  have "unser (ser x @ r) = Inr (x, r)" "unser (ser x @ r) = Inr (y, s)" using roundtrip assms by metis+
  then show ?thesis by simp
qed

lemma inj_ser: "ok x \<Longrightarrow> ok y \<Longrightarrow> ser x = ser y \<Longrightarrow> x = y"
  using unique [of x y "[]" "[]"] by simp

end

section \<open>Compact sizes\<close>

definition MAX_SIZE :: int where
  "MAX_SIZE = 0x02000000"

definition WriteCompactSize :: "int \<Rightarrow> bytes" where
  "WriteCompactSize nSize =
    (if nSize < 253 then le_bytes 1 nSize
     else if nSize \<le> 0xffff then le_bytes 1 253 @ le_bytes 2 nSize
     else if nSize \<le> 0xffffffff then le_bytes 1 254 @ le_bytes 4 nSize
     else le_bytes 1 255 @ le_bytes 8 nSize)"

definition check_size :: "int \<Rightarrow> int \<Rightarrow> int reader" where
  "check_size least nSizeRet =
    (if nSizeRet < least then rfail non_canonical
     else if nSizeRet > MAX_SIZE then rfail size_too_large
     else rret nSizeRet)"

definition ReadCompactSize :: "int reader" where
  "ReadCompactSize =
    rbind (read_uint 1) (\<lambda>chSize.
      if chSize < 253 then check_size 0 chSize
      else if chSize = 253 then rbind (read_uint 2) (check_size 253)
      else if chSize = 254 then rbind (read_uint 4) (check_size 0x10000)
      else rbind (read_uint 8) (check_size 0x100000000))"

definition GetSizeOfCompactSize :: "int \<Rightarrow> nat" where
  "GetSizeOfCompactSize nSize =
    (if nSize < 253 then 1 else if nSize \<le> 0xffff then 1 + 2 else if nSize \<le> 0xffffffff then 1 + 4 else 1 + 8)"

lemma rbind_read_uint [simp]: "rbind (read_uint n) f (le_bytes n k @ r) = f (k mod 2 ^ (8 * n)) r"
  by (simp add: rbind_Inr)

lemma length_WriteCompactSize: "length (WriteCompactSize n) = GetSizeOfCompactSize n"
  by (simp add: WriteCompactSize_def GetSizeOfCompactSize_def)

interpretation compact_size: codec WriteCompactSize ReadCompactSize "\<lambda>n. 0 \<le> n \<and> n \<le> MAX_SIZE"
proof
  fix n :: int and r
  assume n: "0 \<le> n \<and> n \<le> MAX_SIZE"
  have b: "rbind (read_uint 1) f (le_bytes 1 k @ s) = f (k mod 256) s" for f :: "int \<Rightarrow> int reader" and k s
    using rbind_read_uint [of 1 f k s] by (simp del: rbind_read_uint)
  show "ReadCompactSize (WriteCompactSize n @ r) = Inr (n, r)"
    using n by (auto simp: ReadCompactSize_def WriteCompactSize_def b check_size_def MAX_SIZE_def simp del: le_bytes.simps One_nat_def)
qed

section \<open>Integers of variable length\<close>

text \<open>
  The digits of \<open>n\<close> from the last one on; all but the last one in the stream have the high bit set. A negative number of a signed
  type takes the first branch.
\<close>

function var_digits :: "int \<Rightarrow> bool \<Rightarrow> bytes" where
  "var_digits n first =
    ((word_of_int (n mod 128) :: u8) OR (if first then 0 else 0x80)) #
      (if n \<le> 0x7f then [] else var_digits (n div 128 - 1) False)"
  by pat_completeness auto
termination
  by (relation "measure (\<lambda>x. nat (fst x))") auto

declare var_digits.simps [simp del]

definition WriteVarInt :: "int \<Rightarrow> bytes" where
  "WriteVarInt n = rev (var_digits n True)"

text \<open>Reading into a type of \<open>w\<close> bits.\<close>

fun read_var :: "nat \<Rightarrow> int \<Rightarrow> int reader" where
  "read_var w n [] = Inl end_of_data"
| "read_var w n (chData # s) =
    (let n = take_bit w (push_bit 7 n OR uint (chData AND 0x7f))
     in if chData AND 0x80 \<noteq> 0 then read_var w (take_bit w (n + 1)) s else Inr (n, s))"

definition ReadVarInt :: "nat \<Rightarrow> int reader" where
  "ReadVarInt w = read_var w 0"

function GetSizeOfVarInt :: "int \<Rightarrow> nat" where
  "GetSizeOfVarInt n = (if n \<le> 0x7f then 1 else Suc (GetSizeOfVarInt (n div 128 - 1)))"
  by pat_completeness auto
termination
  by (relation "measure nat") auto

declare GetSizeOfVarInt.simps [simp del]

lemma or_7: "0 \<le> y \<Longrightarrow> y < 128 \<Longrightarrow> push_bit 7 x OR y = 128 * x + y" for x y :: int
  using concat_bit_def [of 7 y x] concat_bit_eq [of 7 y x]
  by (simp add: take_bit_int_eq_self push_bit_eq_mult or.commute)

lemma digit_bits:
  fixes k :: int
  assumes "0 \<le> k" "k < 128"
  shows "uint (word_of_int k AND 0x7f :: u8) = k" "uint ((word_of_int k OR 0x80) AND 0x7f :: u8) = k"
    "(word_of_int k :: u8) AND 0x80 = 0" "((word_of_int k :: u8) OR 0x80) AND 0x80 \<noteq> 0"
proof -
  have m: "(0x7f :: u8) = mask 7" by (simp add: mask_eq_exp_minus_1)
  have u: "uint (word_of_int k :: u8) = k" using assms by (simp add: uint_word_of_int)
  show A: "uint (word_of_int k AND 0x7f :: u8) = k"
    unfolding m using assms u by (simp flip: take_bit_eq_mask add: unsigned_take_bit_eq take_bit_int_eq_self)
  have "((word_of_int k :: u8) OR 0x80) AND 0x7f = word_of_int k AND 0x7f" by (simp add: bit.conj_disj_distrib2)
  then show "uint ((word_of_int k OR 0x80) AND 0x7f :: u8) = k" using A by simp
  show "((word_of_int k :: u8) OR 0x80) AND 0x80 \<noteq> 0" by (simp add: bit.conj_disj_distrib2)
  have "word_of_int k AND 0x7f = (word_of_int k :: u8)" using A u by (metis word_uint_eqI)
  then have "(word_of_int k :: u8) AND 0x80 = word_of_int k AND (0x7f AND 0x80)" by (metis and.assoc)
  then show "(word_of_int k :: u8) AND 0x80 = 0" by simp
qed

lemma read_var_flagged:
  "0 \<le> m \<Longrightarrow> m + 1 < 2 ^ w \<Longrightarrow> read_var w 0 (rev (var_digits m False) @ s) = read_var w (m + 1) s"
proof (induction m "False" arbitrary: s rule: var_digits.induct)
  case (1 m)
  have k: "0 \<le> m mod 128" "m mod 128 < 128" by simp_all
  note digit = digit_bits [OF k] or_7 [OF k]
  have t: "take_bit w m = m" "take_bit w (m + 1) = m + 1" using "1.prems" by (simp_all add: take_bit_int_eq_self)
  show ?case
  proof (cases "m \<le> 0x7f")
    case True
    then show ?thesis using digit t "1.prems" by (subst var_digits.simps) simp
  next
    case False
    have "m div 128 - 1 + 1 < 2 ^ w" using "1.prems" False by linarith
    then have "read_var w 0 (rev (var_digits m False) @ s) = read_var w (m div 128) ((word_of_int (m mod 128) OR 0x80) # s)"
      using "1.hyps" [of "(word_of_int (m mod 128) OR 0x80) # s"] False by (subst var_digits.simps) simp
    also have "\<dots> = read_var w (m + 1) s" using digit t mult_div_mod_eq [of 128 m] by simp
    finally show ?thesis .
  qed
qed

lemma ReadVarInt_WriteVarInt:
  assumes "0 \<le> n" "n < 2 ^ w"
  shows "ReadVarInt w (WriteVarInt n @ r) = Inr (n, r)"
proof -
  have k: "0 \<le> n mod 128" "n mod 128 < 128" by simp_all
  note digit = digit_bits [OF k] or_7 [OF k]
  have t: "take_bit w n = n" using assms by (simp add: take_bit_int_eq_self)
  show ?thesis
  proof (cases "n \<le> 0x7f")
    case True
    then show ?thesis using digit t assms by (subst WriteVarInt_def, subst var_digits.simps) (simp add: ReadVarInt_def)
  next
    case False
    have "n div 128 - 1 + 1 < 2 ^ w" using assms False by linarith
    then have "ReadVarInt w (WriteVarInt n @ r) = read_var w (n div 128) (word_of_int (n mod 128) # r)"
      using read_var_flagged [of "n div 128 - 1" w "word_of_int (n mod 128) # r"] False
      by (subst WriteVarInt_def, subst var_digits.simps) (simp add: ReadVarInt_def)
    also have "\<dots> = Inr (n, r)" using digit t mult_div_mod_eq [of 128 n] by simp
    finally show ?thesis .
  qed
qed

interpretation varint32: codec WriteVarInt "ReadVarInt 32" "\<lambda>n. 0 \<le> n \<and> n < 2 ^ 32"
  by unfold_locales (simp add: ReadVarInt_WriteVarInt)

interpretation varint64: codec WriteVarInt "ReadVarInt 64" "\<lambda>n. 0 \<le> n \<and> n < 2 ^ 64"
  by unfold_locales (simp add: ReadVarInt_WriteVarInt)

text \<open>A negative number of a signed type keeps only its lowest seven bits.\<close>

lemma WriteVarInt_negative: "n < 0 \<Longrightarrow> WriteVarInt n = WriteVarInt (n mod 128)"
proof -
  assume "n < 0"
  moreover have "n mod 128 \<le> 127" using pos_mod_bound [of 128 n] by simp
  ultimately show ?thesis by (simp add: WriteVarInt_def var_digits.simps [of n] var_digits.simps [of "n mod 128"])
qed

lemma length_WriteVarInt: "length (WriteVarInt n) = GetSizeOfVarInt n"
proof -
  have "length (var_digits n b) = GetSizeOfVarInt n" for b
    by (induction n b rule: var_digits.induct) (subst var_digits.simps, subst GetSizeOfVarInt.simps, simp)
  then show ?thesis by (simp add: WriteVarInt_def)
qed

section \<open>Vectors\<close>

definition Serialize_bytes :: "bytes \<Rightarrow> bytes" where
  "Serialize_bytes v = WriteCompactSize (int (length v)) @ v"

text \<open>The bytes are read in blocks of at most five million.\<close>

function read_blocks :: "nat \<Rightarrow> bytes \<Rightarrow> bytes reader" where
  "read_blocks nSize v s =
    (if length v < nSize then
       let blk = min (nSize - length v) 5000000
       in case stream_read blk s of Inl e \<Rightarrow> Inl e | Inr (b, s) \<Rightarrow> read_blocks nSize (v @ b) s
     else Inr (v, s))"
  by pat_completeness auto
termination
  by (relation "measure (\<lambda>(n, v, s). n - length v)") (auto simp: stream_read_def split: if_splits)

declare read_blocks.simps [simp del]

definition Unserialize_bytes :: "bytes reader" where
  "Unserialize_bytes = rbind ReadCompactSize (\<lambda>nSize. read_blocks (nat nSize) [])"

lemma read_blocks_append: "length v + length b = n \<Longrightarrow> read_blocks n v (b @ r) = Inr (v @ b, r)"
proof (induction n v "b @ r" arbitrary: b rule: read_blocks.induct)
  case (1 n v)
  show ?case
  proof (cases "length v < n")
    case True
    define k where "k = min (n - length v) 5000000"
    have k: "k \<le> length b" using 1(2) by (auto simp: k_def)
    have s: "stream_read k (b @ r) = Inr (take k b, drop k b @ r)" using k by (simp add: stream_read_def)
    have "read_blocks n (v @ take k b) (drop k b @ r) = Inr ((v @ take k b) @ drop k b, r)"
      using 1(1) [OF True k_def s refl] 1(2) k by simp
    then show ?thesis using True s by (subst read_blocks.simps) (simp add: Let_def flip: k_def)
  next
    case False
    then have "length b = 0" using 1(2) by linarith
    then show ?thesis using False by (subst read_blocks.simps) simp
  qed
qed

interpretation byte_vector: codec Serialize_bytes Unserialize_bytes "\<lambda>v. int (length v) \<le> MAX_SIZE"
  by unfold_locales
     (simp add: Serialize_bytes_def Unserialize_bytes_def compact_size.read_back read_blocks_append)

definition Serialize_vector :: "('a \<Rightarrow> bytes) \<Rightarrow> 'a list \<Rightarrow> bytes" where
  "Serialize_vector ser v = WriteCompactSize (int (length v)) @ concat (map ser v)"

fun read_items :: "'a reader \<Rightarrow> nat \<Rightarrow> 'a list \<Rightarrow> 'a list reader" where
  "read_items unser 0 v s = Inr (v, s)"
| "read_items unser (Suc n) v s = (case unser s of Inl e \<Rightarrow> Inl e | Inr (x, s) \<Rightarrow> read_items unser n (v @ [x]) s)"

text \<open>The items are read in batches whose size depends on that of an item in memory.\<close>

function read_batches :: "nat \<Rightarrow> 'a reader \<Rightarrow> nat \<Rightarrow> nat \<Rightarrow> 'a list \<Rightarrow> 'a list reader" where
  "read_batches batch unser nSize nMid v s =
    (if nMid < nSize \<and> batch > 0 then
       let nMid' = (if nMid + batch > nSize then nSize else nMid + batch)
       in case read_items unser (nMid' - nMid) v s of Inl e \<Rightarrow> Inl e | Inr (v, s) \<Rightarrow> read_batches batch unser nSize nMid' v s
     else Inr (v, s))"
  by pat_completeness auto
termination
  by (relation "measure (\<lambda>(batch, u, n, nMid, v, s). n - nMid)") (auto split: if_splits)

declare read_batches.simps [simp del]

definition Unserialize_vector :: "nat \<Rightarrow> 'a reader \<Rightarrow> 'a list reader" where
  "Unserialize_vector batch unser = rbind ReadCompactSize (\<lambda>nSize. read_batches batch unser (nat nSize) 0 [])"

context codec
begin

lemma read_items_back: "list_all ok xs \<Longrightarrow> read_items unser (length xs) v (concat (map ser xs) @ r) = Inr (v @ xs, r)"
  by (induction xs arbitrary: v) (simp_all add: roundtrip)

lemma read_batches_back:
  assumes "0 < batch"
  shows "list_all ok xs \<Longrightarrow> k + length xs = n \<Longrightarrow> read_batches batch unser n k v (concat (map ser xs) @ r) = Inr (v @ xs, r)"
proof (induction "n - k" arbitrary: k v xs rule: less_induct)
  case less
  show ?case
  proof (cases "k < n")
    case True
    let ?m = "if k + batch > n then n else k + batch"
    let ?j = "?m - k"
    have m: "k < ?m" "?m \<le> n" "?j \<le> length xs" "?m + length (drop ?j xs) = n" using True assms less.prems by auto
    have "read_items unser (length (take ?j xs)) v (concat (map ser (take ?j xs)) @ concat (map ser (drop ?j xs)) @ r) =
      Inr (v @ take ?j xs, concat (map ser (drop ?j xs)) @ r)"
      using less.prems(1) by (intro read_items_back) (auto simp: list_all_iff dest: in_set_takeD)
    moreover have "concat (map ser (take ?j xs)) @ concat (map ser (drop ?j xs)) = concat (map ser xs)"
      by (metis append_take_drop_id concat_append map_append)
    moreover have "length (take ?j xs) = ?j" using m(3) by (simp only: length_take min_absorb2)
    ultimately have i: "read_items unser ?j v (concat (map ser xs) @ r) = Inr (v @ take ?j xs, concat (map ser (drop ?j xs)) @ r)"
      by (metis append.assoc)
    have "read_batches batch unser n ?m (v @ take ?j xs) (concat (map ser (drop ?j xs)) @ r) = Inr ((v @ take ?j xs) @ drop ?j xs, r)"
      using less.prems(1) m True by (intro less.hyps) (auto simp: list_all_iff dest: in_set_dropD)
    then show ?thesis using True assms i by (subst read_batches.simps) (simp add: Let_def)
  next
    case False
    then have "length xs = 0" using less.prems by linarith
    then have "xs = []" by simp
    then show ?thesis using False by (subst read_batches.simps) simp
  qed
qed

lemma vector_codec:
  "0 < batch \<Longrightarrow> codec (Serialize_vector ser) (Unserialize_vector batch unser) (\<lambda>xs. int (length xs) \<le> MAX_SIZE \<and> list_all ok xs)"
  by unfold_locales
     (simp add: Serialize_vector_def Unserialize_vector_def compact_size.read_back read_batches_back)

end

end
