(* ===== verification/Tx_Serialize.thy ===== *)
theory Tx_Serialize
  imports Serialize Transactions
begin

text \<open>
  Serialisation of transactions (\<^verbatim>\<open>SerializationOp\<close> of \<^verbatim>\<open>primitives/transaction.h\<close>), which is also what their hashes are
  taken of. The batch sizes of the two vectors depend on the memory layout and are parameters.
\<close>

section \<open>Outpoints, inputs and outputs\<close>

definition Serialize_COutPoint :: "COutPoint \<Rightarrow> bytes" where
  "Serialize_COutPoint p = le_bytes 32 (uint (op_hash p)) @ le_bytes 4 (uint (op_n p))"

definition Unserialize_COutPoint :: "COutPoint reader" where
  "Unserialize_COutPoint =
    rbind (read_uint 32) (\<lambda>h. rbind (read_uint 4) (\<lambda>n. rret \<lparr>op_hash = word_of_int h, op_n = word_of_int n\<rparr>))"

definition Serialize_CTxIn :: "CTxIn \<Rightarrow> bytes" where
  "Serialize_CTxIn i = Serialize_COutPoint (prevout i) @ Serialize_bytes (scriptSig i) @ le_bytes 4 (uint (nSequence i))"

definition Unserialize_CTxIn :: "CTxIn reader" where
  "Unserialize_CTxIn =
    rbind Unserialize_COutPoint (\<lambda>p. rbind Unserialize_bytes (\<lambda>s. rbind (read_uint 4) (\<lambda>n.
      rret \<lparr>prevout = p, scriptSig = s, nSequence = word_of_int n\<rparr>)))"

definition Serialize_CTxOut :: "CTxOut \<Rightarrow> bytes" where
  "Serialize_CTxOut t = le_bytes 8 (nValue t) @ Serialize_bytes (scriptPubKey t)"

definition Unserialize_CTxOut :: "CTxOut reader" where
  "Unserialize_CTxOut =
    rbind (read_uint 8) (\<lambda>v. rbind Unserialize_bytes (\<lambda>s. rret \<lparr>nValue = wrap64 v, scriptPubKey = s\<rparr>))"

section \<open>Transactions\<close>

definition wrap32 :: "int \<Rightarrow> int" where
  "wrap32 i = (i + 2 ^ 31) mod 2 ^ 32 - 2 ^ 31"

definition Serialize_tx :: "CMutableTransaction \<Rightarrow> bytes" where
  "Serialize_tx tx =
    le_bytes 4 (txVersion tx) @ Serialize_vector Serialize_CTxIn (vin tx) @ Serialize_vector Serialize_CTxOut (vout tx) @
      le_bytes 4 (uint (nLockTime tx))"

definition Unserialize_tx :: "nat \<Rightarrow> nat \<Rightarrow> CMutableTransaction reader" where
  "Unserialize_tx batch_in batch_out =
    rbind (read_uint 4) (\<lambda>v.
      rbind (Unserialize_vector batch_in Unserialize_CTxIn) (\<lambda>is.
        rbind (Unserialize_vector batch_out Unserialize_CTxOut) (\<lambda>os.
          rbind (read_uint 4) (\<lambda>t.
            rret \<lparr>txVersion = wrap32 v, vin = is, vout = os, nLockTime = word_of_int t\<rparr>))))"

text \<open>The hash of a transaction, from a hash of byte vectors.\<close>

definition SerializeHash :: "(bytes \<Rightarrow> u256) \<Rightarrow> tx_hasher" where
  "SerializeHash H tx = H (Serialize_tx tx)"

section \<open>Reading back\<close>

lemma wrap64_mod: "wrap64 (v mod 2 ^ 64) = wrap64 v"
  by (simp add: wrap64_def mod_add_left_eq)

lemma wrap32_mod: "wrap32 (v mod 2 ^ 32) = wrap32 v"
  by (simp add: wrap32_def mod_add_left_eq)

lemma uint_mod_size: "LENGTH('a) = 8 * n \<Longrightarrow> uint (w :: 'a :: len word) mod 2 ^ (8 * n) = uint w"
  using uint_lt2p [of w] by simp

lemmas fixed_sizes =
  uint_mod_size [where 'a = 32 and n = 4, simplified] uint_mod_size [where 'a = 256 and n = 32, simplified] wrap64_mod [simplified]
  wrap32_mod [simplified]

definition script_fits :: "CScript \<Rightarrow> bool" where
  "script_fits s \<longleftrightarrow> int (length s) \<le> MAX_SIZE"

definition tx_fits :: "CMutableTransaction \<Rightarrow> bool" where
  "tx_fits tx \<longleftrightarrow> - (2 ^ 31) \<le> txVersion tx \<and> txVersion tx < 2 ^ 31 \<and>
    int (length (vin tx)) \<le> MAX_SIZE \<and> list_all (\<lambda>i. script_fits (scriptSig i)) (vin tx) \<and>
    int (length (vout tx)) \<le> MAX_SIZE \<and> list_all (\<lambda>t. is_amount (nValue t) \<and> script_fits (scriptPubKey t)) (vout tx)"

interpretation outpoint: codec Serialize_COutPoint Unserialize_COutPoint "\<lambda>p. True"
  by unfold_locales (simp add: Serialize_COutPoint_def Unserialize_COutPoint_def fixed_sizes)

interpretation tx_in: codec Serialize_CTxIn Unserialize_CTxIn "\<lambda>i. script_fits (scriptSig i)"
  by unfold_locales
     (simp add: Serialize_CTxIn_def Unserialize_CTxIn_def outpoint.read_back byte_vector.read_back script_fits_def fixed_sizes)

interpretation tx_out: codec Serialize_CTxOut Unserialize_CTxOut "\<lambda>t. is_amount (nValue t) \<and> script_fits (scriptPubKey t)"
  by unfold_locales
     (simp add: Serialize_CTxOut_def Unserialize_CTxOut_def byte_vector.read_back script_fits_def fixed_sizes wrap64_id)

lemma tx_roundtrip:
  assumes "tx_fits tx" "0 < batch_in" "0 < batch_out"
  shows "Unserialize_tx batch_in batch_out (Serialize_tx tx @ r) = Inr (tx, r)"
proof -
  note ins = codec.read_back [OF tx_in.vector_codec [OF assms(2)]]
  note outs = codec.read_back [OF tx_out.vector_codec [OF assms(3)]]
  have "wrap32 (txVersion tx mod 2 ^ 32) = txVersion tx"
    unfolding wrap32_mod using assms(1) by (simp add: wrap32_def tx_fits_def)
  then show ?thesis using assms(1)
    by (simp add: Serialize_tx_def Unserialize_tx_def ins outs tx_fits_def fixed_sizes)
qed

text \<open>
  C35: A transaction is read back from its serialised form as itself, whatever follows it in the stream, for all batch sizes,
  provided that its vectors are within the size limit and the numbers within their types.
\<close>

theorem transaction_roundtrip:
  assumes "tx_fits tx" "0 < batch_in" "0 < batch_out"
  shows "Unserialize_tx batch_in batch_out (Serialize_tx tx @ r) = Inr (tx, r)"
  using assms by (rule tx_roundtrip)

theorem transaction_roundtrip_witness:
  "Unserialize_tx 1 2 (Serialize_tx \<lparr>txVersion = -1, vin = [CTxIn_new, CTxIn_new], vout = [\<lparr>nValue = 9, scriptPubKey = [1]\<rparr>], nLockTime = 3\<rparr> @ [7]) =
    Inr (\<lparr>txVersion = -1, vin = [CTxIn_new, CTxIn_new], vout = [\<lparr>nValue = 9, scriptPubKey = [1]\<rparr>], nLockTime = 3\<rparr>, [7])"
  by (rule transaction_roundtrip) (simp_all add: tx_fits_def script_fits_def is_amount_def MAX_SIZE_def CTxIn_new_def)

lemma Serialize_tx_inj:
  assumes "tx_fits a" "tx_fits b" "Serialize_tx a @ r = Serialize_tx b @ s"
  shows "a = b \<and> r = s"
  using tx_roundtrip [OF assms(1), of 1 1 r] tx_roundtrip [OF assms(2), of 1 1 s] assms(3) by simp

end
