(* ===== verification/Signature_Hash.thy ===== *)
theory Signature_Hash
  imports Tx_Serialize Interpreter
begin

text \<open>
  What a signature signs (\<^verbatim>\<open>SignatureHash\<close> and \<^verbatim>\<open>TransactionSignatureChecker\<close> of \<^verbatim>\<open>script/SignatureCheckers.cpp\<close>): the parts of a
  transaction are serialised in place, without a modified copy. The reference is the earlier function that makes that copy,
  \<^verbatim>\<open>SignatureHashOld\<close> of \<^verbatim>\<open>test/sighash_tests.cpp\<close>.
\<close>

section \<open>Serialising for the signature\<close>

definition SIGHASH_ALL :: int where "SIGHASH_ALL = 1"
definition SIGHASH_NONE :: int where "SIGHASH_NONE = 2"
definition SIGHASH_SINGLE :: int where "SIGHASH_SINGLE = 3"
definition SIGHASH_ANYONECANPAY :: int where "SIGHASH_ANYONECANPAY = 0x80"

record CTransactionSignatureSerializer =
  txTo :: CMutableTransaction
  scriptCode :: CScript
  nIn :: nat
  fAnyoneCanPay :: bool
  fHashSingle :: bool
  fHashNone :: bool

definition CTransactionSignatureSerializer_new :: "CMutableTransaction \<Rightarrow> CScript \<Rightarrow> nat \<Rightarrow> int \<Rightarrow> CTransactionSignatureSerializer" where
  "CTransactionSignatureSerializer_new tx code n nHashType =
    \<lparr>txTo = tx, scriptCode = code, nIn = n, fAnyoneCanPay = (nHashType AND SIGHASH_ANYONECANPAY \<noteq> 0),
     fHashSingle = (nHashType AND 0x1f = SIGHASH_SINGLE), fHashNone = (nHashType AND 0x1f = SIGHASH_NONE)\<rparr>"

text \<open>The two loops over the operations of the script; iterators are the rests of the script from there on.\<close>

function count_separators :: "bytes \<Rightarrow> nat" where
  "count_separators it =
    (let g = GetOp2 it
     in if fst g then (if fst (snd g) = OP_CODESEPARATOR then 1 else 0) + count_separators (snd (snd (snd g))) else 0)"
  by pat_completeness auto
termination
  by (relation "measure length") (auto dest: GetOp2_advances)

function skip_separators :: "bytes \<Rightarrow> bytes \<Rightarrow> bytes" where
  "skip_separators itBegin it =
    (let g = GetOp2 it; it' = snd (snd (snd g))
     in if fst g then
          if fst (snd g) = OP_CODESEPARATOR then take (length itBegin - length it' - 1) itBegin @ skip_separators it' it'
          else skip_separators itBegin it'
        else if itBegin \<noteq> [] then take (length itBegin - length it') itBegin
        else [])"
  by pat_completeness auto
termination
  by (relation "measure (\<lambda>(b, it). length it)") (auto dest: GetOp2_advances)

declare count_separators.simps [simp del] skip_separators.simps [simp del]

definition SerializeScriptCode :: "CTransactionSignatureSerializer \<Rightarrow> bytes" where
  "SerializeScriptCode t =
    WriteCompactSize (int (length (scriptCode t)) - int (count_separators (scriptCode t))) @ skip_separators (scriptCode t) (scriptCode t)"

definition SerializeInput :: "CTransactionSignatureSerializer \<Rightarrow> nat \<Rightarrow> bytes" where
  "SerializeInput t nInput =
    (let nInput = (if fAnyoneCanPay t then nIn t else nInput); i = vin (txTo t) ! nInput
     in Serialize_COutPoint (prevout i) @
        (if nInput \<noteq> nIn t then Serialize_bytes [] else SerializeScriptCode t) @
        (if nInput \<noteq> nIn t \<and> (fHashSingle t \<or> fHashNone t) then le_bytes 4 0 else le_bytes 4 (uint (nSequence i))))"

definition SerializeOutput :: "CTransactionSignatureSerializer \<Rightarrow> nat \<Rightarrow> bytes" where
  "SerializeOutput t nOutput =
    (if fHashSingle t \<and> nOutput \<noteq> nIn t then Serialize_CTxOut CTxOut_SetNull else Serialize_CTxOut (vout (txTo t) ! nOutput))"

definition Serialize_signature :: "CTransactionSignatureSerializer \<Rightarrow> bytes" where
  "Serialize_signature t =
    (let nInputs = (if fAnyoneCanPay t then 1 else length (vin (txTo t)));
         nOutputs = (if fHashNone t then 0 else if fHashSingle t then nIn t + 1 else length (vout (txTo t)))
     in le_bytes 4 (txVersion (txTo t)) @
        WriteCompactSize (int nInputs) @ concat (map (SerializeInput t) [0..<nInputs]) @
        WriteCompactSize (int nOutputs) @ concat (map (SerializeOutput t) [0..<nOutputs]) @
        le_bytes 4 (uint (nLockTime (txTo t))))"

definition SignatureHash :: "(bytes \<Rightarrow> u256) \<Rightarrow> CScript \<Rightarrow> CMutableTransaction \<Rightarrow> nat \<Rightarrow> int \<Rightarrow> u256" where
  "SignatureHash H code tx n nHashType =
    (if n \<ge> length (vin tx) then 1
     else if nHashType AND 0x1f = SIGHASH_SINGLE \<and> n \<ge> length (vout tx) then 1
     else H (Serialize_signature (CTransactionSignatureSerializer_new tx code n nHashType) @ le_bytes 4 nHashType))"

section \<open>The checker\<close>

definition GetLen :: "u8 \<Rightarrow> nat" where
  "GetLen chHeader = (if chHeader = 2 \<or> chHeader = 3 then 33 else if chHeader = 4 \<or> chHeader = 6 \<or> chHeader = 7 then 65 else 0)"

text \<open>A public key is the vector of its bytes; the invalid key is empty.\<close>

definition CPubKey :: "bytes \<Rightarrow> bytes" where
  "CPubKey v = (let len = (if v = [] then 0 else GetLen (v ! 0)) in if len \<noteq> 0 \<and> len = length v then v else [])"

definition CPubKey_IsValid :: "bytes \<Rightarrow> bool" where
  "CPubKey_IsValid key \<longleftrightarrow> length key > 0"

record crypto_lib =
  lib_Verify :: "bytes \<Rightarrow> u256 \<Rightarrow> bytes \<Rightarrow> bool"
  lib_CheckSignatureElement :: "bytes \<Rightarrow> bool"
  lib_RIPEMD160 :: "bytes \<Rightarrow> bytes"
  lib_SHA1 :: "bytes \<Rightarrow> bytes"
  lib_SHA256 :: "bytes \<Rightarrow> bytes"
  lib_Hash160 :: "bytes \<Rightarrow> bytes"
  lib_Hash256 :: "bytes \<Rightarrow> bytes"

definition hash_of :: "crypto_lib \<Rightarrow> bytes \<Rightarrow> u256" where
  "hash_of L b = word_of_int (le_int (lib_Hash256 L b))"

definition TransactionSignatureChecker_CheckSig :: "crypto_lib \<Rightarrow> CTransaction \<Rightarrow> nat \<Rightarrow> bytes \<Rightarrow> bytes \<Rightarrow> CScript \<Rightarrow> bool" where
  "TransactionSignatureChecker_CheckSig L tx n vchSigIn vchPubKey code \<longleftrightarrow>
    (let pubkey = CPubKey vchPubKey
     in if \<not> CPubKey_IsValid pubkey then False
        else if vchSigIn = [] then False
        else
          let nHashType = uint (last vchSigIn); vchSig = butlast vchSigIn;
              sighash = SignatureHash (hash_of L) code (to_mutable tx) n nHashType
          in lib_Verify L pubkey sighash vchSig)"

definition TransactionSignatureChecker :: "crypto_lib \<Rightarrow> CTransaction \<Rightarrow> nat \<Rightarrow> script_env" where
  "TransactionSignatureChecker L tx n =
    \<lparr>CheckSig = TransactionSignatureChecker_CheckSig L tx n, CheckCoinstake = IsCoinStake tx,
     CheckSignatureElement = lib_CheckSignatureElement L, RIPEMD160 = lib_RIPEMD160 L, SHA1 = lib_SHA1 L, SHA256 = lib_SHA256 L,
     Hash160 = lib_Hash160 L, Hash256 = lib_Hash256 L\<rparr>"

section \<open>The reference\<close>

definition blank_sequences :: "nat \<Rightarrow> CTxIn list \<Rightarrow> CTxIn list" where
  "blank_sequences n is = map (\<lambda>i. if i \<noteq> n then (is ! i)\<lparr>nSequence := 0\<rparr> else is ! i) [0..<length is]"

definition SignatureHashOld_tx :: "CScript \<Rightarrow> CMutableTransaction \<Rightarrow> nat \<Rightarrow> int \<Rightarrow> CMutableTransaction option" where
  "SignatureHashOld_tx code tx n nHashType =
    (let code = snd (FindAndDelete code (push_op [] OP_CODESEPARATOR));
         is = map (\<lambda>i. i\<lparr>scriptSig := []\<rparr>) (vin tx);
         is = is[n := (is ! n)\<lparr>scriptSig := code\<rparr>];
         tmp =
           (if nHashType AND 0x1f = SIGHASH_NONE then Some (tx\<lparr>vin := blank_sequences n is, vout := []\<rparr>)
            else if nHashType AND 0x1f = SIGHASH_SINGLE then
              if n \<ge> length (vout tx) then None
              else Some (tx\<lparr>vin := blank_sequences n is, vout := map (\<lambda>t. CTxOut_SetNull) (take n (vout tx)) @ [vout tx ! n]\<rparr>)
            else Some (tx\<lparr>vin := is\<rparr>))
     in map_option (\<lambda>tmp. if nHashType AND SIGHASH_ANYONECANPAY \<noteq> 0 then tmp\<lparr>vin := [vin tmp ! n]\<rparr> else tmp) tmp)"

definition SignatureHashOld :: "(bytes \<Rightarrow> u256) \<Rightarrow> CScript \<Rightarrow> CMutableTransaction \<Rightarrow> nat \<Rightarrow> int \<Rightarrow> u256" where
  "SignatureHashOld H code tx n nHashType =
    (if n \<ge> length (vin tx) then 1
     else case SignatureHashOld_tx code tx n nHashType of
       None \<Rightarrow> 1
     | Some tmp \<Rightarrow> H (Serialize_tx tmp @ le_bytes 4 nHashType))"

section \<open>Agreement\<close>

text \<open>A script whose operations can be read to its end.\<close>

function parses :: "bytes \<Rightarrow> bool" where
  "parses pc = (if pc = [] then True else let g = GetOp2 pc in if fst g then parses (snd (snd (snd g))) else False)"
  by pat_completeness auto
termination
  by (relation "measure length") (auto dest: GetOp2_advances)

declare parses.simps [simp del]

lemma parses_Nil [simp]: "parses []"
  by (subst parses.simps) simp

lemma parses_step: "parses pc \<Longrightarrow> pc \<noteq> [] \<Longrightarrow> fst (GetOp2 pc) \<and> parses (snd (snd (snd (GetOp2 pc))))"
  by (subst (asm) parses.simps) (simp add: Let_def split: if_splits)

lemma GetOp2_Nil [simp]: "GetOp2 [] = (False, OP_INVALIDOPCODE, [], [])"
  by (simp add: GetOp2_def)

text \<open>The operation that was read is the part of the script in front of the rest.\<close>

lemma push_size_drop: "push_size opcode s = Some (n, t) \<Longrightarrow> \<exists>i. t = drop i s"
  by (auto simp: push_size_def split: if_splits intro: exI [of _ 0])

lemma GetOp2_drop: "\<exists>k. snd (snd (snd (GetOp2 pc))) = drop k pc"
proof (cases pc)
  case (Cons opcode s)
  have *: "\<exists>k. drop i s = drop k (opcode # s)" for i by (rule exI [of _ "Suc i"]) simp
  show ?thesis
  proof (cases "push_size opcode s")
    case None
    then show ?thesis using * [of 0] by (simp add: Cons GetOp2_def)
  next
    case (Some x)
    then obtain n i where x: "x = (n, drop i s)" using push_size_drop by (metis surj_pair)
    then show ?thesis using Some * [of 0] * [of i] * [of "n + i"] by (simp add: Cons GetOp2_def)
  qed
qed (simp add: GetOp2_Nil)

lemma GetOp2_length: "length (snd (snd (snd (GetOp2 pc)))) \<le> length pc"
  using GetOp2_drop [of pc] by auto

lemma GetOp2_append: "take (length pc - length (snd (snd (snd (GetOp2 pc))))) pc @ snd (snd (snd (GetOp2 pc))) = pc"
proof -
  obtain k where k: "snd (snd (snd (GetOp2 pc))) = drop k pc" using GetOp2_drop by blast
  have "take (length pc - length (drop k pc)) pc = take k pc" by (cases "k \<le> length pc") simp_all
  then show ?thesis unfolding k by simp
qed

lemma GetOp2_head: "fst (GetOp2 (c # s)) \<Longrightarrow> fst (snd (GetOp2 (c # s))) = c"
  by (auto simp: GetOp2_def split: option.splits if_splits)

lemma GetOp2_separator: "GetOp2 (OP_CODESEPARATOR # s) = (True, OP_CODESEPARATOR, [], s)"
  by (rule GetOp2_opcode) simp

text \<open>The script without its separators.\<close>

function without_separators :: "bytes \<Rightarrow> bytes" where
  "without_separators pc =
    (if pc = [] then []
     else
       let rest = snd (snd (snd (GetOp2 pc)))
       in (if hd pc = OP_CODESEPARATOR then [] else take (length pc - length rest) pc) @ without_separators rest)"
  by pat_completeness auto
termination
  by (relation "measure length") (auto dest: GetOp2_consumes)

declare without_separators.simps [simp del]

lemma without_separators_simps [simp]:
  "without_separators [] = []" "without_separators (OP_CODESEPARATOR # s) = without_separators s"
  by (subst without_separators.simps, simp add: GetOp2_separator)+

lemma length_without_separators: "parses pc \<Longrightarrow> length pc = length (without_separators pc) + count_separators pc"
proof (induction pc rule: without_separators.induct)
  case (1 pc)
  show ?case
  proof (cases pc)
    case (Cons c s)
    let ?r = "snd (snd (snd (GetOp2 pc)))"
    note p = parses_step [OF 1(2)]
    have IH: "length ?r = length (without_separators ?r) + count_separators ?r" using 1(1) p Cons by simp
    show ?thesis
    proof (cases "c = OP_CODESEPARATOR")
      case True
      then show ?thesis using IH Cons by (subst count_separators.simps) (simp add: GetOp2_separator)
    next
      case False
      have "fst (snd (GetOp2 pc)) = c" using GetOp2_head [of c s] p Cons by simp
      then have "count_separators pc = count_separators ?r" using p False Cons by (subst count_separators.simps) (simp add: Let_def)
      moreover have "length (without_separators pc) = length pc - length ?r + length (without_separators ?r)"
        using False Cons by (subst without_separators.simps) (simp add: Let_def)
      ultimately show ?thesis using IH GetOp2_length [of pc] by simp
    qed
  qed (simp add: count_separators.simps)
qed

lemma skip_separators_front: "parses it \<Longrightarrow> skip_separators (front @ it) it = front @ without_separators it"
proof (induction it arbitrary: front rule: without_separators.induct)
  case (1 it)
  show ?case
  proof (cases it)
    case Nil
    then show ?thesis by (subst skip_separators.simps) simp
  next
    case (Cons c s)
    let ?r = "snd (snd (snd (GetOp2 it)))"
    note p = parses_step [OF 1(2)]
    have IH: "skip_separators (f @ ?r) ?r = f @ without_separators ?r" for f using 1(1) p Cons by simp
    show ?thesis
    proof (cases "c = OP_CODESEPARATOR")
      case True
      then have "?r = s" using Cons by (simp add: GetOp2_separator)
      then show ?thesis using True IH [of "[]"] Cons by (subst skip_separators.simps) (simp add: GetOp2_separator)
    next
      case False
      let ?o = "take (length it - length ?r) it"
      have "fst (snd (GetOp2 it)) = c" using GetOp2_head [of c s] p Cons by simp
      then have "skip_separators (front @ it) it = skip_separators (front @ it) ?r"
        using p False Cons by (subst skip_separators.simps) (simp add: Let_def)
      also have "\<dots> = skip_separators ((front @ ?o) @ ?r) ?r" using GetOp2_append [of it] by (metis append.assoc)
      also have "\<dots> = front @ ?o @ without_separators ?r" using IH [of "front @ ?o"] by simp
      also have "?o @ without_separators ?r = without_separators it"
        using False Cons by (subst (2) without_separators.simps) (simp add: Let_def)
      finally show ?thesis .
    qed
  qed
qed

lemma strip_separators:
  "parses pc \<Longrightarrow> parses (snd (strip [OP_CODESEPARATOR] pc n)) \<and>
    without_separators (snd (strip [OP_CODESEPARATOR] pc n)) = without_separators pc \<and>
    (snd (strip [OP_CODESEPARATOR] pc n) \<noteq> [] \<longrightarrow> hd (snd (strip [OP_CODESEPARATOR] pc n)) \<noteq> OP_CODESEPARATOR)"
proof (induction pc arbitrary: n)
  case (Cons c s)
  show ?case
  proof (cases "c = OP_CODESEPARATOR")
    case True
    then have "parses s" using parses_step [OF Cons.prems] by (simp add: GetOp2_separator)
    from Cons.IH [OF this, of "Suc n"] True show ?thesis by (subst (1 2 3 4) strip.simps) simp
  next
    case False
    then show ?thesis using Cons.prems by (subst (1 2 3 4) strip.simps) simp
  qed
qed (simp add: strip.simps)

lemma find_delete_separators:
  "parses pc \<Longrightarrow> snd (find_delete_loop [OP_CODESEPARATOR] pc n) = without_separators pc"
proof (induction "length pc" arbitrary: pc n rule: less_induct)
  case less
  let ?s = "snd (strip [OP_CODESEPARATOR] pc n)"
  note s = strip_separators [OF less.prems, of n]
  show ?case
  proof (cases "?s = []")
    case True
    then show ?thesis using s by (subst find_delete_loop.simps) (simp add: Let_def)
  next
    case False
    let ?r = "snd (snd (snd (GetOp2 ?s)))"
    have g: "fst (GetOp2 ?s)" "parses ?r" using parses_step False s by blast+
    have "length ?r < length pc" using GetOp2_advances [OF g(1)] strip_le [of "[OP_CODESEPARATOR]" pc n] by simp
    then have "snd (find_delete_loop [OP_CODESEPARATOR] pc n) = take (length ?s - length ?r) ?s @ without_separators ?r"
      using less.hyps [OF _ g(2)] g(1) by (subst find_delete_loop.simps) (simp add: Let_def)
    also have "\<dots> = without_separators ?s" using False s by (subst (2) without_separators.simps) (simp add: Let_def)
    finally show ?thesis using s by simp
  qed
qed

lemma SerializeScriptCode_parses: "parses (scriptCode t) \<Longrightarrow> SerializeScriptCode t = Serialize_bytes (without_separators (scriptCode t))"
  using skip_separators_front [of "scriptCode t" "[]"] length_without_separators [of "scriptCode t"]
  by (simp add: SerializeScriptCode_def Serialize_bytes_def)

lemma concat_map_upt: "length xs = k \<Longrightarrow> (\<And>i. i < k \<Longrightarrow> f i = g (xs ! i)) \<Longrightarrow> concat (map f [0..<k]) = concat (map g xs)"
  by (metis (mono_tags, lifting) atLeastLessThan_iff map_cong map_map map_nth o_apply set_upt)

text \<open>The inputs of the copy that the reference makes, with all of them kept.\<close>

definition ref_inputs :: "CScript \<Rightarrow> CMutableTransaction \<Rightarrow> nat \<Rightarrow> bool \<Rightarrow> CTxIn list" where
  "ref_inputs code tx n blank =
    map (\<lambda>i. \<lparr>prevout = prevout (vin tx ! i), scriptSig = (if i = n then without_separators code else []),
      nSequence = (if i \<noteq> n \<and> blank then 0 else nSequence (vin tx ! i))\<rparr>) [0..<length (vin tx)]"

lemma ref_inputs_copy:
  fixes ks js :: "CTxIn list"
  assumes "parses code" "n < length (vin tx)"
  defines "ks \<equiv> map (\<lambda>i. i\<lparr>scriptSig := []\<rparr>) (vin tx)"
  defines "js \<equiv> ks[n := (ks ! n)\<lparr>scriptSig := snd (FindAndDelete code (push_op [] OP_CODESEPARATOR))\<rparr>]"
  shows "js = ref_inputs code tx n False" "blank_sequences n js = ref_inputs code tx n True"
proof -
  have c: "snd (FindAndDelete code (push_op [] OP_CODESEPARATOR)) = without_separators code"
    using assms(1) by (simp add: FindAndDelete_def push_op_def find_delete_separators)
  show "js = ref_inputs code tx n False" "blank_sequences n js = ref_inputs code tx n True"
    using assms(2) unfolding js_def ks_def c
    by (auto intro!: nth_equalityI simp: ref_inputs_def blank_sequences_def nth_list_update)
qed

lemma SerializeInput_ref:
  fixes t :: CTransactionSignatureSerializer and ht :: int
  assumes "parses code" "n < length (vin tx)" "i < length (vin tx)"
  defines "t \<equiv> CTransactionSignatureSerializer_new tx code n ht"
  shows "SerializeInput t i = Serialize_CTxIn (ref_inputs code tx n (fHashSingle t \<or> fHashNone t) ! (if fAnyoneCanPay t then n else i))"
proof -
  have "parses (scriptCode t)" "scriptCode t = code" "nIn t = n" "txTo t = tx"
    using assms(1) by (simp_all add: t_def CTransactionSignatureSerializer_new_def)
  then show ?thesis using assms(2,3)
    by (simp add: SerializeInput_def Let_def SerializeScriptCode_parses Serialize_CTxIn_def ref_inputs_def)
qed

text \<open>
  C34: For a script that can be read to its end, the message that is hashed for a signature is the one of the reference function,
  which serialises a modified copy of the transaction, for all hash types.
\<close>

theorem signature_hash_reference:
  assumes "parses code"
  shows "SignatureHash H code tx n nHashType = SignatureHashOld H code tx n nHashType"
proof (cases "n < length (vin tx)")
  case True
  define t where "t = CTransactionSignatureSerializer_new tx code n nHashType"
  have f: "fAnyoneCanPay t = (nHashType AND SIGHASH_ANYONECANPAY \<noteq> 0)" "fHashSingle t = (nHashType AND 0x1f = SIGHASH_SINGLE)"
    "fHashNone t = (nHashType AND 0x1f = SIGHASH_NONE)" "txTo t = tx" "nIn t = n"
    by (simp_all add: t_def CTransactionSignatureSerializer_new_def)
  have d: "\<not> (fHashSingle t \<and> fHashNone t)" by (auto simp: f SIGHASH_SINGLE_def SIGHASH_NONE_def)
  let ?r = "ref_inputs code tx n (fHashSingle t \<or> fHashNone t)"
  let ?os = "if fHashNone t then [] else if fHashSingle t then map (\<lambda>t. CTxOut_SetNull) (take n (vout tx)) @ [vout tx ! n] else vout tx"
  have l: "length ?r = length (vin tx)" by (simp add: ref_inputs_def)
  have z: "0 < length (vin tx)" using True by linarith
  have ins: "concat (map (SerializeInput t) [0..<if fAnyoneCanPay t then 1 else length (vin tx)]) =
    concat (map Serialize_CTxIn (if fAnyoneCanPay t then [?r ! n] else ?r))"
    using True l SerializeInput_ref [OF assms True, of _ nHashType] SerializeInput_ref [OF assms True z, of nHashType] by (intro concat_map_upt) (auto simp flip: t_def)
  show ?thesis
  proof (cases "fHashSingle t \<and> n \<ge> length (vout tx)")
    case bad: True
    then have "SignatureHashOld_tx code tx n nHashType = None" using d f by (simp add: SignatureHashOld_tx_def Let_def)
    then show ?thesis using bad True f by (simp add: SignatureHash_def SignatureHashOld_def)
  next
    case False
    have outs: "concat (map (SerializeOutput t) [0..<if fHashNone t then 0 else if fHashSingle t then n + 1 else length (vout tx)]) =
      concat (map Serialize_CTxOut ?os)"
      using False d by (intro concat_map_upt) (auto simp: SerializeOutput_def f(4,5) nth_append less_Suc_eq split: if_splits)
    note copy = ref_inputs_copy [OF assms True]
    have "SignatureHashOld_tx code tx n nHashType =
      Some (tx\<lparr>vin := if fAnyoneCanPay t then [?r ! n] else ?r, vout := ?os\<rparr>)"
      using False d unfolding SignatureHashOld_tx_def Let_def copy f by (simp add: copy(2) [unfolded copy(1)])
    moreover have "Serialize_signature t = Serialize_tx (tx\<lparr>vin := if fAnyoneCanPay t then [?r ! n] else ?r, vout := ?os\<rparr>)"
      using ins outs l False by (auto simp: Serialize_signature_def Serialize_tx_def Serialize_vector_def Let_def f(4,5))
    ultimately obtain tmp where tmp: "SignatureHashOld_tx code tx n nHashType = Some tmp" "Serialize_signature t = Serialize_tx tmp" by blast
    have "\<not> (nHashType AND 0x1f = SIGHASH_SINGLE \<and> n \<ge> length (vout tx))" using False f(2) by simp
    then show ?thesis using True tmp unfolding SignatureHash_def SignatureHashOld_def t_def by auto
  qed
qed (simp add: SignatureHash_def SignatureHashOld_def)

text \<open>The message for the hash type that covers all inputs and outputs.\<close>

lemma Serialize_signature_all:
  assumes "parses code" "n < length (vin tx)" "ht AND 0x1f \<noteq> SIGHASH_NONE" "ht AND 0x1f \<noteq> SIGHASH_SINGLE" "ht AND SIGHASH_ANYONECANPAY = 0"
  shows "Serialize_signature (CTransactionSignatureSerializer_new tx code n ht) = Serialize_tx (tx\<lparr>vin := ref_inputs code tx n False\<rparr>)"
proof -
  define t where "t = CTransactionSignatureSerializer_new tx code n ht"
  have f: "fAnyoneCanPay t = False" "fHashSingle t = False" "fHashNone t = False" "txTo t = tx" "nIn t = n"
    using assms by (simp_all add: t_def CTransactionSignatureSerializer_new_def)
  have "concat (map (SerializeInput t) [0..<length (vin tx)]) = concat (map Serialize_CTxIn (ref_inputs code tx n False))"
    using SerializeInput_ref [OF assms(1,2), of _ ht] f by (intro concat_map_upt) (simp_all add: ref_inputs_def flip: t_def)
  moreover have "concat (map (SerializeOutput t) [0..<length (vout tx)]) = concat (map Serialize_CTxOut (vout tx))"
    by (intro concat_map_upt) (simp_all add: SerializeOutput_def f)
  moreover have "length (ref_inputs code tx n False) = length (vin tx)" by (simp add: ref_inputs_def)
  ultimately show ?thesis unfolding t_def [symmetric] by (simp add: Serialize_signature_def Serialize_tx_def Serialize_vector_def Let_def f)
qed

lemma map_ref_inputs:
  "map prevout (ref_inputs code tx n b) = map prevout (vin tx)" "map nSequence (ref_inputs code tx n False) = map nSequence (vin tx)"
  "n < length (vin tx) \<Longrightarrow> scriptSig (ref_inputs code tx n b ! n) = without_separators code"
  by (auto intro!: nth_equalityI simp: ref_inputs_def)

lemma tx_fits_copy:
  assumes "tx_fits tx" "parses code" "script_fits code"
  shows "tx_fits (tx\<lparr>vin := ref_inputs code tx n b\<rparr>)"
proof -
  have "script_fits (without_separators code)" "script_fits []"
    using assms length_without_separators [of code] by (simp_all add: script_fits_def MAX_SIZE_def)
  then show ?thesis using assms(1) by (auto simp: tx_fits_def ref_inputs_def list_all_iff)
qed

text \<open>
  C16: The message of a signature with the hash type for all inputs and outputs determines what the
  transaction does: two transactions with the same message have the same version, spend the same outputs with the same
  sequence numbers, create the same outputs, have the same lock time, and the signed script is the same up to separators.
\<close>

theorem signature_commits:
  assumes "tx_fits tx" "parses code" "script_fits code" "n < length (vin tx)"
    and "tx_fits tx'" "parses code'" "script_fits code'" "n < length (vin tx')"
    and "ht AND 0x1f \<noteq> SIGHASH_NONE" "ht AND 0x1f \<noteq> SIGHASH_SINGLE" "ht AND SIGHASH_ANYONECANPAY = 0"
    and "Serialize_signature (CTransactionSignatureSerializer_new tx code n ht) @ le_bytes 4 ht =
      Serialize_signature (CTransactionSignatureSerializer_new tx' code' n ht) @ le_bytes 4 ht"
  shows "txVersion tx = txVersion tx' \<and> map prevout (vin tx) = map prevout (vin tx') \<and> map nSequence (vin tx) = map nSequence (vin tx') \<and>
    vout tx = vout tx' \<and> nLockTime tx = nLockTime tx' \<and> without_separators code = without_separators code'"
proof -
  have "tx\<lparr>vin := ref_inputs code tx n False\<rparr> = tx'\<lparr>vin := ref_inputs code' tx' n False\<rparr>"
    using Serialize_tx_inj [OF tx_fits_copy [OF assms(1-3), of n False] tx_fits_copy [OF assms(5-7), of n False]] assms(12)
    by (simp add: Serialize_signature_all assms)
  then have e: "ref_inputs code tx n False = ref_inputs code' tx' n False" "txVersion tx = txVersion tx'" "vout tx = vout tx'"
    "nLockTime tx = nLockTime tx'" by (cases tx, cases tx', simp)+
  have "map prevout (vin tx) = map prevout (vin tx')" "map nSequence (vin tx) = map nSequence (vin tx')"
    "without_separators code = without_separators code'"
    using e(1) map_ref_inputs assms(4,8) by metis+
  with e show ?thesis by blast
qed

text \<open>A transaction with two inputs and one output.\<close>

definition example_spend :: CMutableTransaction where
  "example_spend = \<lparr>txVersion = 1, vin = [\<lparr>prevout = \<lparr>op_hash = 5, op_n = 0\<rparr>, scriptSig = [], nSequence = 7\<rparr>,
    \<lparr>prevout = \<lparr>op_hash = 6, op_n = 1\<rparr>, scriptSig = [OP_1], nSequence = 8\<rparr>], vout = [\<lparr>nValue = 9, scriptPubKey = [OP_1]\<rparr>], nLockTime = 0\<rparr>"

lemma example_code: "parses [OP_1, OP_CODESEPARATOR]" "script_fits [OP_1, OP_CODESEPARATOR]" "parses [OP_1]" "script_fits [OP_1]"
  by (simp_all add: parses.simps GetOp2_def script_fits_def MAX_SIZE_def)

theorem signature_hash_reference_witness:
  "parses [OP_1, OP_CODESEPARATOR] \<and>
   (\<forall>H. SignatureHash H [OP_1, OP_CODESEPARATOR] example_spend 1 2 = SignatureHashOld H [OP_1, OP_CODESEPARATOR] example_spend 1 2)"
  using signature_hash_reference [OF example_code(1)] example_code(1) by blast

theorem signature_commits_witness:
  "Serialize_signature (CTransactionSignatureSerializer_new example_spend [OP_1, OP_CODESEPARATOR] 1 1) @ le_bytes 4 1 \<noteq>
    Serialize_signature (CTransactionSignatureSerializer_new (example_spend\<lparr>vout := []\<rparr>) [OP_1] 1 1) @ le_bytes 4 1"
proof
  have fits: "tx_fits example_spend" "tx_fits (example_spend\<lparr>vout := []\<rparr>)"
    by (simp_all add: tx_fits_def example_spend_def script_fits_def MAX_SIZE_def is_amount_def)
  have n: "1 < length (vin example_spend)" "1 < length (vin (example_spend\<lparr>vout := []\<rparr>))" by (simp_all add: example_spend_def)
  have t: "(1 :: int) AND 0x1f \<noteq> SIGHASH_NONE" "(1 :: int) AND 0x1f \<noteq> SIGHASH_SINGLE" "1 AND SIGHASH_ANYONECANPAY = 0"
    by (simp_all add: SIGHASH_NONE_def SIGHASH_SINGLE_def SIGHASH_ANYONECANPAY_def)
  assume "Serialize_signature (CTransactionSignatureSerializer_new example_spend [OP_1, OP_CODESEPARATOR] 1 1) @ le_bytes 4 1 =
    Serialize_signature (CTransactionSignatureSerializer_new (example_spend\<lparr>vout := []\<rparr>) [OP_1] 1 1) @ le_bytes 4 1"
  from signature_commits [OF fits(1) example_code(1,2) n(1) fits(2) example_code(3,4) n(2) t this]
  show False by (simp add: example_spend_def)
qed

end
