(* ===== verification/Standard.thy ===== *)
theory Standard
  imports Signature_Hash
begin

text \<open>
  The standard forms of scripts (\<^verbatim>\<open>script/standard.cpp\<close>): matching of a script against templates, destinations and the scripts that
  pay to them. The hash of a public key is a parameter.
\<close>

section \<open>Templates\<close>

datatype txnouttype = TX_NONSTANDARD | TX_PUBKEY | TX_PUBKEYHASH | TX_SCRIPTHASH | TX_VAULT | TX_MULTISIG | TX_NULL_DATA

definition GetTxnOutputType :: "txnouttype \<Rightarrow> string" where
  "GetTxnOutputType t =
    (case t of TX_NONSTANDARD \<Rightarrow> ''nonstandard'' | TX_PUBKEY \<Rightarrow> ''pubkey'' | TX_PUBKEYHASH \<Rightarrow> ''pubkeyhash'' | TX_SCRIPTHASH \<Rightarrow> ''scripthash''
     | TX_VAULT \<Rightarrow> ''vault'' | TX_MULTISIG \<Rightarrow> ''multisig'' | TX_NULL_DATA \<Rightarrow> ''nulldata'')"

text \<open>The multimap is ordered by the type.\<close>

definition mTemplates :: "(txnouttype \<times> CScript) list" where
  "mTemplates =
    [(TX_PUBKEY, push_op (push_op [] OP_PUBKEY) OP_CHECKSIG),
     (TX_PUBKEYHASH, push_op (push_op (push_op (push_op (push_op [] OP_DUP) OP_HASH160) OP_PUBKEYHASH) OP_EQUALVERIFY) OP_CHECKSIG),
     (TX_VAULT, GetStakingVaultScriptTemplate),
     (TX_MULTISIG, push_op (push_op (push_op (push_op [] OP_SMALLINTEGER) OP_PUBKEYS) OP_SMALLINTEGER) OP_CHECKMULTISIG)]"

text \<open>The loop over the keys of a multisignature script: the operation read last, the position behind it and the solutions.\<close>

function take_pubkeys :: "opcodetype \<Rightarrow> bytes \<Rightarrow> bytes \<Rightarrow> bytes list \<Rightarrow> opcodetype \<times> bytes \<times> bytes \<times> bytes list" where
  "take_pubkeys opcode1 vch1 pc1 sols =
    (if length vch1 \<ge> 33 \<and> length vch1 \<le> 65 then
       let g = GetOp2 pc1; sols = sols @ [vch1]
       in if fst g then take_pubkeys (fst (snd g)) (fst (snd (snd g))) (snd (snd (snd g))) sols
          else (fst (snd g), fst (snd (snd g)), snd (snd (snd g)), sols)
     else (opcode1, vch1, pc1, sols))"
  by pat_completeness auto
termination
  by (relation "measure (\<lambda>(o1, v, pc, s). length pc)") (auto dest: GetOp2_advances)

declare take_pubkeys.simps [simp del]

text \<open>What one operation of the template asks of the operation of the script; \<open>None\<close> is a mismatch.\<close>

definition match_op :: "opcodetype \<Rightarrow> bytes \<Rightarrow> opcodetype \<Rightarrow> bytes \<Rightarrow> bytes list \<Rightarrow> bytes list option" where
  "match_op opcode1 vch1 opcode2 vch2 sols =
    (if opcode2 = OP_PUBKEY then if length vch1 < 33 \<or> length vch1 > 65 then None else Some (sols @ [vch1])
     else if opcode2 = OP_PUBKEYHASH then if length vch1 \<noteq> 20 then None else Some (sols @ [vch1])
     else if opcode2 = OP_SMALLINTEGER then
       if opcode1 = OP_0 \<or> opcode1 \<ge> OP_1 \<and> opcode1 \<le> OP_16 then Some (sols @ [[word_of_nat (DecodeOP_N opcode1)]]) else None
     else if opcode1 \<noteq> opcode2 \<or> vch1 \<noteq> vch2 then None
     else Some sols)"

function match_template :: "bytes \<Rightarrow> bytes \<Rightarrow> bytes list \<Rightarrow> bytes list option" where
  "match_template pc1 pc2 sols =
    (if pc1 = [] \<and> pc2 = [] then Some sols
     else
       let g1 = GetOp2 pc1; g2 = GetOp2 pc2
       in if \<not> fst g1 then None
          else if \<not> fst g2 then None
          else if fst (snd g2) = OP_PUBKEYS then
            let k = take_pubkeys (fst (snd g1)) (fst (snd (snd g1))) (snd (snd (snd g1))) sols; h = GetOp2 (snd (snd (snd g2)))
            in if \<not> fst h then None
               else case match_op (fst k) (fst (snd k)) (fst (snd h)) (fst (snd (snd h))) (snd (snd (snd k))) of
                   None \<Rightarrow> None
                 | Some sols \<Rightarrow> match_template (fst (snd (snd k))) (snd (snd (snd h))) sols
          else case match_op (fst (snd g1)) (fst (snd (snd g1))) (fst (snd g2)) (fst (snd (snd g2))) sols of
              None \<Rightarrow> None
            | Some sols \<Rightarrow> match_template (snd (snd (snd g1))) (snd (snd (snd g2))) sols)"
  by pat_completeness auto
termination
  by (relation "measure (\<lambda>(pc1, pc2, s). length pc2)") (auto dest!: GetOp2_advances)

declare match_template.simps [simp del]

fun scan_templates :: "(txnouttype \<times> CScript) list \<Rightarrow> CScript \<Rightarrow> bool \<times> txnouttype \<times> bytes list" where
  "scan_templates [] script1 = (False, TX_NONSTANDARD, [])"
| "scan_templates ((t, script2) # ts) script1 =
    (case match_template script1 script2 [] of
       None \<Rightarrow> scan_templates ts script1
     | Some sols \<Rightarrow>
         if t = TX_MULTISIG then
           let m = hd sols ! 0; n = last sols ! 0
           in if m < 1 \<or> n < 1 \<or> m > n \<or> length sols - 2 \<noteq> unat n then (False, t, sols) else (True, t, sols)
         else (True, t, sols))"

definition ExtractScriptPubKeyFormat :: "CScript \<Rightarrow> bool \<times> txnouttype \<times> bytes list" where
  "ExtractScriptPubKeyFormat s =
    (if IsPayToScriptHash s then (True, TX_SCRIPTHASH, [take 20 (drop 2 s)])
     else if length s \<ge> 1 \<and> s ! 0 = OP_META \<and> IsPushOnly (drop 1 s) then (True, TX_NULL_DATA, [])
     else scan_templates mTemplates s)"

definition ScriptSigArgsExpected :: "txnouttype \<Rightarrow> bytes list \<Rightarrow> int" where
  "ScriptSigArgsExpected t vSolutions =
    (case t of
       TX_NONSTANDARD \<Rightarrow> -1 | TX_NULL_DATA \<Rightarrow> -1 | TX_PUBKEY \<Rightarrow> 1 | TX_PUBKEYHASH \<Rightarrow> 2
     | TX_MULTISIG \<Rightarrow> if length vSolutions < 1 \<or> length (vSolutions ! 0) < 1 then -1 else uint (vSolutions ! 0 ! 0) + 1
     | TX_SCRIPTHASH \<Rightarrow> 1 | TX_VAULT \<Rightarrow> 3)"

definition MAX_OP_META_RELAY :: nat where
  "MAX_OP_META_RELAY = 603"

definition IsStandard :: "nat \<Rightarrow> CScript \<Rightarrow> bool \<times> txnouttype" where
  "IsStandard maximumMetadataBytes s =
    (case ExtractScriptPubKeyFormat s of (ok, whichType, vSolutions) \<Rightarrow>
       if \<not> ok then (False, whichType)
       else if whichType = TX_MULTISIG then
         let m = hd vSolutions ! 0; n = last vSolutions ! 0
         in if n < 1 \<or> n > 3 then (False, whichType) else if m < 1 \<or> m > n then (False, whichType) else (True, whichType)
       else if whichType = TX_NULL_DATA \<and> length s > maximumMetadataBytes then (False, whichType)
       else (whichType \<noteq> TX_NONSTANDARD, whichType))"

section \<open>Destinations\<close>

datatype CTxDestination = CNoDestination | CKeyID bytes | CScriptID bytes

definition GetID :: "(bytes \<Rightarrow> bytes) \<Rightarrow> bytes \<Rightarrow> bytes" where
  "GetID hash160 pubkey = hash160 pubkey"

definition ExtractDestination :: "(bytes \<Rightarrow> bytes) \<Rightarrow> CScript \<Rightarrow> CTxDestination option" where
  "ExtractDestination hash160 s =
    (case ExtractScriptPubKeyFormat s of (ok, whichType, vSolutions) \<Rightarrow>
       if \<not> ok then None
       else if whichType = TX_PUBKEY then
         let pubKey = CPubKey (vSolutions ! 0) in if \<not> CPubKey_IsValid pubKey then None else Some (CKeyID (GetID hash160 pubKey))
       else if whichType = TX_PUBKEYHASH then Some (CKeyID (vSolutions ! 0))
       else if whichType = TX_SCRIPTHASH then Some (CScriptID (vSolutions ! 0))
       else None)"

text \<open>
  The result: success, the type, the addresses and the number of signatures required, which is not set on failure. The end index
  is the number of solutions less the start index.
\<close>

definition multi_addresses :: "(bytes \<Rightarrow> bytes) \<Rightarrow> txnouttype \<Rightarrow> bytes list \<Rightarrow> CTxDestination list" where
  "multi_addresses hash160 typeRet vSolutions =
    (let start = (if typeRet \<noteq> TX_VAULT then 1 else 0); stop = length vSolutions - start
     in concat (map (\<lambda>i.
          if typeRet = TX_VAULT then [CKeyID (vSolutions ! i)]
          else let pubKey = CPubKey (vSolutions ! i) in if \<not> CPubKey_IsValid pubKey then [] else [CKeyID (GetID hash160 pubKey)])
        [start..<stop]))"

definition ExtractDestinations :: "(bytes \<Rightarrow> bytes) \<Rightarrow> CScript \<Rightarrow> bool \<times> txnouttype \<times> CTxDestination list \<times> nat option" where
  "ExtractDestinations hash160 s =
    (case ExtractScriptPubKeyFormat s of (ok, typeRet, vSolutions) \<Rightarrow>
       if \<not> ok then (False, typeRet, [], None)
       else if typeRet = TX_NULL_DATA then (False, typeRet, [], None)
       else if typeRet = TX_MULTISIG \<or> typeRet = TX_VAULT then
         let nRequiredRet = (if typeRet \<noteq> TX_VAULT then unat (hd vSolutions ! 0) else 1);
             addressRet = multi_addresses hash160 typeRet vSolutions
         in (addressRet \<noteq> [], typeRet, addressRet, Some nRequiredRet)
       else
         case ExtractDestination hash160 s of
           None \<Rightarrow> (False, typeRet, [], Some 1)
         | Some address \<Rightarrow> (True, typeRet, [address], Some 1))"

definition GetScriptForDestination :: "CTxDestination \<Rightarrow> CScript" where
  "GetScriptForDestination dest =
    (case dest of
       CNoDestination \<Rightarrow> []
     | CKeyID keyID \<Rightarrow> push_op (push_op (push_data (push_op (push_op [] OP_DUP) OP_HASH160) keyID) OP_EQUALVERIFY) OP_CHECKSIG
     | CScriptID scriptID \<Rightarrow> push_op (push_data (push_op [] OP_HASH160) scriptID) OP_EQUAL)"

text \<open>The numbers are at most 16; otherwise \<^verbatim>\<open>EncodeOP_N\<close> fails its assertion.\<close>

definition GetScriptForMultisig :: "nat \<Rightarrow> bytes list \<Rightarrow> CScript" where
  "GetScriptForMultisig nRequired keys =
    push_op (push_op (foldl push_data (push_op [] (EncodeOP_N nRequired)) keys) (EncodeOP_N (length keys))) OP_CHECKMULTISIG"

section \<open>Scripts of the standard forms\<close>

lemma match_template_Nil [simp]: "match_template [] [] sols = Some sols"
  by (subst match_template.simps) simp

lemma match_template_op:
  assumes "OP_PUSHDATA4 < a" "OP_PUSHDATA4 < b" "b \<noteq> OP_PUBKEYS"
  shows "match_template (a # pc1) (b # pc2) sols =
    (case match_op a [] b [] sols of None \<Rightarrow> None | Some sols \<Rightarrow> match_template pc1 pc2 sols)"
  using assms by (subst match_template.simps) (simp add: GetOp2_opcode Let_def split: option.split)

lemma match_template_push:
  assumes "length d < 76" "OP_PUSHDATA4 < b" "b \<noteq> OP_PUBKEYS"
  shows "match_template (word_of_nat (length d) # d @ pc1) (b # pc2) sols =
    (case match_op (word_of_nat (length d)) d b [] sols of None \<Rightarrow> None | Some sols \<Rightarrow> match_template pc1 pc2 sols)"
  using assms by (subst match_template.simps) (simp add: GetOp2_opcode GetOp2_push Let_def split: option.split)

lemma match_template_push20:
  assumes "length d = 20"
  shows "match_template (20 # d @ pc1) (OP_PUBKEYHASH # pc2) sols = match_template pc1 pc2 (sols @ [d])"
  using match_template_push [of d OP_PUBKEYHASH pc1 pc2 sols] assms by (simp add: match_op_def)

lemmas match_simps = match_template_op match_template_push20 match_op_def mTemplates_def push_op_def GetStakingVaultScriptTemplate_def

lemma key_hash_script:
  assumes "length h = 20"
  shows "GetScriptForDestination (CKeyID h) = OP_DUP # OP_HASH160 # 20 # h @ [OP_EQUALVERIFY, OP_CHECKSIG]"
    "ExtractScriptPubKeyFormat (GetScriptForDestination (CKeyID h)) = (True, TX_PUBKEYHASH, [h])"
proof -
  show s: "GetScriptForDestination (CKeyID h) = OP_DUP # OP_HASH160 # 20 # h @ [OP_EQUALVERIFY, OP_CHECKSIG]"
    using assms by (simp add: GetScriptForDestination_def push_op_def push_data_def)
  show "ExtractScriptPubKeyFormat (GetScriptForDestination (CKeyID h)) = (True, TX_PUBKEYHASH, [h])"
    unfolding s using assms by (simp add: ExtractScriptPubKeyFormat_def IsPayToScriptHash_def match_simps)
qed

lemma script_hash_script:
  assumes "length h = 20"
  shows "ExtractScriptPubKeyFormat (GetScriptForDestination (CScriptID h)) = (True, TX_SCRIPTHASH, [h])"
  using assms by (simp add: GetScriptForDestination_def push_op_def push_data_def ExtractScriptPubKeyFormat_def IsPayToScriptHash_def nth_append)

lemma vault_format:
  assumes "length ow = 20" "length va = 20"
  shows "ExtractScriptPubKeyFormat (CreateStakingVaultScript ow va) = (True, TX_VAULT, [ow, va])"
  using assms by (simp add: vault_script ExtractScriptPubKeyFormat_def IsPayToScriptHash_def match_simps)

text \<open>
  The destination read from the script that pays to a key hash or a script hash is that destination.
\<close>

theorem destination_roundtrip:
  assumes "length h = 20"
  shows "ExtractDestination hash160 (GetScriptForDestination (CKeyID h)) = Some (CKeyID h) \<and>
    ExtractDestination hash160 (GetScriptForDestination (CScriptID h)) = Some (CScriptID h)"
  using assms by (simp add: ExtractDestination_def key_hash_script(2) script_hash_script)

section \<open>Multisignature scripts\<close>

definition key_length :: "bytes \<Rightarrow> bool" where
  "key_length k \<longleftrightarrow> 33 \<le> length k \<and> length k \<le> 65"

definition pushed :: "bytes list \<Rightarrow> bytes" where
  "pushed keys = concat (map (\<lambda>k. word_of_nat (length k) # k) keys)"

lemma foldl_push_data: "list_all key_length keys \<Longrightarrow> foldl push_data s keys = s @ pushed keys"
  by (induction keys arbitrary: s) (simp_all add: pushed_def push_data_def key_length_def)

lemma take_pubkeys_pushed:
  assumes "OP_PUSHDATA4 < opcode"
  shows "key_length k \<Longrightarrow> list_all key_length keys \<Longrightarrow>
    take_pubkeys opcode1 k (pushed keys @ opcode # pc) sols = (opcode, [], pc, sols @ k # keys)"
proof (induction keys arbitrary: opcode1 k sols)
  case Nil
  then show ?case using GetOp2_opcode [OF assms, of pc]
    by (subst take_pubkeys.simps) (simp add: pushed_def key_length_def Let_def take_pubkeys.simps [of _ "[]"])
next
  case (Cons k' keys)
  have "GetOp2 (pushed (k' # keys) @ opcode # pc) = (True, word_of_nat (length k'), k', pushed keys @ opcode # pc)"
    using Cons.prems(2) GetOp2_push [of k' "pushed keys @ opcode # pc"] by (simp add: pushed_def key_length_def)
  then show ?case using Cons.prems Cons.IH [of k' "word_of_nat (length k')" "sols @ [k]"]
    by (subst take_pubkeys.simps) (simp add: key_length_def Let_def)
qed

lemma encode_small:
  assumes "1 \<le> n" "n \<le> 16"
  shows "OP_1 \<le> EncodeOP_N n" "EncodeOP_N n \<le> OP_16" "DecodeOP_N (EncodeOP_N n) = n" "OP_PUSHDATA4 < EncodeOP_N n"
proof -
  have "unat (OP_1 + word_of_nat n - 1 :: u8) = 80 + n"
  proof -
    have "(OP_1 + word_of_nat n - 1 :: u8) = word_of_nat (80 + n)" by simp
    then show ?thesis using assms by (simp only: unat_of_nat) (simp add: take_bit_nat_eq_self)
  qed
  then have u: "unat (EncodeOP_N n) = 80 + n" using assms by (simp add: EncodeOP_N_def)
  show "OP_1 \<le> EncodeOP_N n" "EncodeOP_N n \<le> OP_16" "OP_PUSHDATA4 < EncodeOP_N n"
    using u assms by (simp_all add: word_le_nat_alt word_less_nat_alt)
  have "EncodeOP_N n \<noteq> OP_0" using u by auto
  then show "DecodeOP_N (EncodeOP_N n) = n" using u by (simp add: DecodeOP_N_def)
qed

lemma match_multisig:
  assumes "1 \<le> m" "m \<le> 16" "keys \<noteq> []" "length keys \<le> 16" "list_all key_length keys"
  shows "match_template (EncodeOP_N m # pushed keys @ [EncodeOP_N (length keys), OP_CHECKMULTISIG])
    [OP_SMALLINTEGER, OP_PUBKEYS, OP_SMALLINTEGER, OP_CHECKMULTISIG] [] =
    Some ([word_of_nat m] # keys @ [[word_of_nat (length keys)]])"
proof -
  have l: "1 \<le> length keys" using assms(3) by (cases keys) simp_all
  note em = encode_small [OF assms(1,2)] and en = encode_small [OF l assms(4)]
  obtain k ks where k: "keys = k # ks" using assms(3) by (cases keys) simp_all
  then have ok: "key_length k" "list_all key_length ks" using assms(5) by simp_all
  have g: "GetOp2 (pushed keys @ [EncodeOP_N (length keys), OP_CHECKMULTISIG]) =
    (True, word_of_nat (length k), k, pushed ks @ [EncodeOP_N (length keys), OP_CHECKMULTISIG])"
    using GetOp2_push [of k "pushed ks @ [EncodeOP_N (length keys), OP_CHECKMULTISIG]"] ok by (simp add: k pushed_def key_length_def)
  have t: "take_pubkeys (word_of_nat (length k)) k (pushed ks @ [EncodeOP_N (length keys), OP_CHECKMULTISIG]) [[word_of_nat m]] =
    (EncodeOP_N (length keys), [], [OP_CHECKMULTISIG], [[word_of_nat m]] @ k # ks)"
    using take_pubkeys_pushed [OF en(4) ok, of "word_of_nat (length k)" "[OP_CHECKMULTISIG]" "[[word_of_nat m]]"] by simp
  have "match_template (EncodeOP_N m # pushed keys @ [EncodeOP_N (length keys), OP_CHECKMULTISIG])
    [OP_SMALLINTEGER, OP_PUBKEYS, OP_SMALLINTEGER, OP_CHECKMULTISIG] [] =
    match_template (pushed keys @ [EncodeOP_N (length keys), OP_CHECKMULTISIG]) [OP_PUBKEYS, OP_SMALLINTEGER, OP_CHECKMULTISIG] [[word_of_nat m]]"
    using em by (simp add: match_template_op match_op_def)
  also have "\<dots> = match_template [OP_CHECKMULTISIG] [OP_CHECKMULTISIG] ([[word_of_nat m]] @ keys @ [[word_of_nat (length keys)]])"
    using en by (subst match_template.simps) (simp add: g t GetOp2_opcode Let_def match_op_def flip: k)
  also have "\<dots> = Some ([word_of_nat m] # keys @ [[word_of_nat (length keys)]])" by (simp add: match_template_op match_op_def)
  finally show ?thesis .
qed

text \<open>
  The script that requires \<open>m\<close> signatures of up to sixteen keys is recognised as such, with \<open>m\<close>, the keys and
  their number as the solutions.
\<close>

theorem multisig_format:
  assumes "1 \<le> m" "m \<le> length keys" "length keys \<le> 16" "list_all key_length keys"
  shows "ExtractScriptPubKeyFormat (GetScriptForMultisig m keys) =
    (True, TX_MULTISIG, [word_of_nat m] # keys @ [[word_of_nat (length keys)]])"
proof -
  have n: "keys \<noteq> []" "m \<le> 16" using assms by auto
  note e = encode_small [OF assms(1) n(2)]
  have s: "GetScriptForMultisig m keys = EncodeOP_N m # pushed keys @ [EncodeOP_N (length keys), OP_CHECKMULTISIG]"
    using assms(4) by (simp add: GetScriptForMultisig_def push_op_def foldl_push_data)
  have d: "EncodeOP_N m \<noteq> OP_HASH160" "EncodeOP_N m \<noteq> OP_META" "EncodeOP_N m \<noteq> OP_DUP" "EncodeOP_N m \<noteq> OP_IF"
    using e(2) by (auto simp: word_le_nat_alt)
  have u: "unat (word_of_nat m :: u8) = m" "unat (word_of_nat (length keys) :: u8) = length keys"
    using assms n by (simp_all add: unat_of_nat take_bit_nat_eq_self)
  have small: "\<not> (word_of_nat m :: u8) < 1" "\<not> (word_of_nat (length keys) :: u8) < 1" "\<not> (word_of_nat m :: u8) > word_of_nat (length keys)"
    using u assms n(1) by (simp_all add: word_less_nat_alt)
  show ?thesis
    unfolding s ExtractScriptPubKeyFormat_def IsPayToScriptHash_def mTemplates_def GetStakingVaultScriptTemplate_def push_op_def
    using d e(4) small u match_multisig [OF assms(1) n(2) n(1) assms(3,4)] by (simp add: match_template_op match_op_def)
qed

theorem destination_roundtrip_witness:
  "ExtractDestination (\<lambda>v. []) (GetScriptForDestination (CScriptID (replicate 20 3))) = Some (CScriptID (replicate 20 3))"
  using destination_roundtrip [of "replicate 20 3" "\<lambda>v. []"] by simp

theorem multisig_format_witness:
  "ExtractScriptPubKeyFormat (GetScriptForMultisig 1 [replicate 33 2, replicate 33 3]) =
    (True, TX_MULTISIG, [[1], replicate 33 2, replicate 33 3, [2]])"
  using multisig_format [of 1 "[replicate 33 2, replicate 33 3]"] by (simp add: key_length_def)

end
