(* ===== verification/Keystore.thy ===== *)
theory Keystore
  imports Standard
begin

text \<open>
  The basic key store (\<^verbatim>\<open>keystore.h\<close>, \<^verbatim>\<open>keystore.cpp\<close>): keys by the hash of their public key, redeem scripts by their hash, and the
  sets of watched scripts. Private keys are an opaque type; deriving the public key and signing are parameters. The
  interface through which keys are looked up when signing is a record of functions, as the virtual base class is.
\<close>

section \<open>State\<close>

record 'key key_lib =
  key_GetPubKey :: "'key \<Rightarrow> bytes"
  key_Sign :: "'key \<Rightarrow> u256 \<Rightarrow> bytes option"
  key_Hash160 :: "bytes \<Rightarrow> bytes"

record 'key CBasicKeyStore =
  mapKeys :: "bytes \<rightharpoonup> 'key"
  mapScripts :: "bytes \<rightharpoonup> CScript"
  setWatchOnly :: "CScript set"
  setMultiSig :: "CScript set"

definition CBasicKeyStore_new :: "'key CBasicKeyStore" where
  "CBasicKeyStore_new = \<lparr>mapKeys = Map.empty, mapScripts = Map.empty, setWatchOnly = {}, setMultiSig = {}\<rparr>"

section \<open>Operations\<close>

definition CBasicKeyStore_HaveKey :: "'key CBasicKeyStore \<Rightarrow> bytes \<Rightarrow> bool" where
  "CBasicKeyStore_HaveKey s address \<longleftrightarrow> mapKeys s address \<noteq> None"

definition CBasicKeyStore_GetKey :: "'key CBasicKeyStore \<Rightarrow> bytes \<Rightarrow> 'key option" where
  "CBasicKeyStore_GetKey s address = mapKeys s address"

definition CBasicKeyStore_GetKeys :: "'key CBasicKeyStore \<Rightarrow> bytes set" where
  "CBasicKeyStore_GetKeys s = dom (mapKeys s)"

definition CBasicKeyStore_GetPubKey :: "'key key_lib \<Rightarrow> 'key CBasicKeyStore \<Rightarrow> bytes \<Rightarrow> bytes option" where
  "CBasicKeyStore_GetPubKey L s address =
    (case CBasicKeyStore_GetKey s address of None \<Rightarrow> None | Some key \<Rightarrow> Some (key_GetPubKey L key))"

definition AddKeyPubKey :: "'key key_lib \<Rightarrow> 'key \<Rightarrow> bytes \<Rightarrow> 'key CBasicKeyStore \<Rightarrow> 'key CBasicKeyStore" where
  "AddKeyPubKey L key pubkey s = s\<lparr>mapKeys := (mapKeys s)(GetID (key_Hash160 L) pubkey \<mapsto> key)\<rparr>"

definition AddKey :: "'key key_lib \<Rightarrow> 'key \<Rightarrow> 'key CBasicKeyStore \<Rightarrow> 'key CBasicKeyStore" where
  "AddKey L key s = AddKeyPubKey L key (key_GetPubKey L key) s"

definition AddCScript :: "'key key_lib \<Rightarrow> CScript \<Rightarrow> 'key CBasicKeyStore \<Rightarrow> bool \<times> 'key CBasicKeyStore" where
  "AddCScript L redeemScript s =
    (if length redeemScript > MAX_SCRIPT_ELEMENT_SIZE then (False, s)
     else (True, s\<lparr>mapScripts := (mapScripts s)(key_Hash160 L redeemScript \<mapsto> redeemScript)\<rparr>))"

definition HaveCScript :: "'key CBasicKeyStore \<Rightarrow> bytes \<Rightarrow> bool" where
  "HaveCScript s hash \<longleftrightarrow> mapScripts s hash \<noteq> None"

definition CBasicKeyStore_GetCScript :: "'key CBasicKeyStore \<Rightarrow> bytes \<Rightarrow> CScript option" where
  "CBasicKeyStore_GetCScript s hash = mapScripts s hash"

definition AddWatchOnly :: "CScript \<Rightarrow> 'key CBasicKeyStore \<Rightarrow> 'key CBasicKeyStore" where
  "AddWatchOnly dest s = s\<lparr>setWatchOnly := insert dest (setWatchOnly s)\<rparr>"

definition RemoveWatchOnly :: "CScript \<Rightarrow> 'key CBasicKeyStore \<Rightarrow> 'key CBasicKeyStore" where
  "RemoveWatchOnly dest s = s\<lparr>setWatchOnly := setWatchOnly s - {dest}\<rparr>"

definition HaveWatchOnly :: "'key CBasicKeyStore \<Rightarrow> CScript \<Rightarrow> bool" where
  "HaveWatchOnly s dest \<longleftrightarrow> dest \<in> setWatchOnly s"

definition AddMultiSig :: "CScript \<Rightarrow> 'key CBasicKeyStore \<Rightarrow> 'key CBasicKeyStore" where
  "AddMultiSig dest s = s\<lparr>setMultiSig := insert dest (setMultiSig s)\<rparr>"

definition RemoveMultiSig :: "CScript \<Rightarrow> 'key CBasicKeyStore \<Rightarrow> 'key CBasicKeyStore" where
  "RemoveMultiSig dest s = s\<lparr>setMultiSig := setMultiSig s - {dest}\<rparr>"

definition HaveMultiSig :: "'key CBasicKeyStore \<Rightarrow> CScript \<Rightarrow> bool" where
  "HaveMultiSig s dest \<longleftrightarrow> dest \<in> setMultiSig s"

section \<open>The interface\<close>

record 'key CKeyStore =
  HaveKey :: "bytes \<Rightarrow> bool"
  GetKey :: "bytes \<Rightarrow> 'key option"
  GetPubKey :: "bytes \<Rightarrow> bytes option"
  GetCScript :: "bytes \<Rightarrow> CScript option"

definition as_CKeyStore :: "'key key_lib \<Rightarrow> 'key CBasicKeyStore \<Rightarrow> 'key CKeyStore" where
  "as_CKeyStore L s =
    \<lparr>HaveKey = CBasicKeyStore_HaveKey s, GetKey = CBasicKeyStore_GetKey s, GetPubKey = CBasicKeyStore_GetPubKey L s,
     GetCScript = CBasicKeyStore_GetCScript s\<rparr>"

text \<open>What signing relies on: a key is stored under the hash of its public key, a script under its hash.\<close>

locale key_store =
  fixes L :: "'key key_lib" and store_ok :: "'s \<Rightarrow> bool" and iface :: "'s \<Rightarrow> 'key CKeyStore"
  assumes have_key: "store_ok s \<Longrightarrow> HaveKey (iface s) a \<longleftrightarrow> GetKey (iface s) a \<noteq> None"
    and pub_key: "store_ok s \<Longrightarrow> GetKey (iface s) a = Some key \<Longrightarrow> GetPubKey (iface s) a = Some (key_GetPubKey L key)"
    and key_hash: "store_ok s \<Longrightarrow> GetKey (iface s) a = Some key \<Longrightarrow> key_Hash160 L (key_GetPubKey L key) = a"
    and script_hash: "store_ok s \<Longrightarrow> GetCScript (iface s) h = Some script \<Longrightarrow> key_Hash160 L script = h"
    and script_size: "store_ok s \<Longrightarrow> GetCScript (iface s) h = Some script \<Longrightarrow> length script \<le> MAX_SCRIPT_ELEMENT_SIZE"

definition keystore_ok :: "'key key_lib \<Rightarrow> 'key CBasicKeyStore \<Rightarrow> bool" where
  "keystore_ok L s \<longleftrightarrow>
    (\<forall>a key. mapKeys s a = Some key \<longrightarrow> key_Hash160 L (key_GetPubKey L key) = a) \<and>
    (\<forall>h script. mapScripts s h = Some script \<longrightarrow> key_Hash160 L script = h \<and> length script \<le> MAX_SCRIPT_ELEMENT_SIZE)"

interpretation basic_store: key_store L "keystore_ok L" "as_CKeyStore L" for L
  by unfold_locales
     (auto simp: keystore_ok_def as_CKeyStore_def CBasicKeyStore_HaveKey_def CBasicKeyStore_GetKey_def CBasicKeyStore_GetPubKey_def
        CBasicKeyStore_GetCScript_def)

text \<open>The stores built from the empty one; the caller of \<^verbatim>\<open>AddKeyPubKey\<close> passes the public key of the key.\<close>

inductive built :: "'key key_lib \<Rightarrow> 'key CBasicKeyStore \<Rightarrow> bool" for L where
  empty: "built L CBasicKeyStore_new"
| key: "built L s \<Longrightarrow> built L (AddKey L key s)"
| script: "built L s \<Longrightarrow> built L (snd (AddCScript L script s))"
| watch: "built L s \<Longrightarrow> built L (AddWatchOnly script s)"
| unwatch: "built L s \<Longrightarrow> built L (RemoveWatchOnly script s)"
| multi: "built L s \<Longrightarrow> built L (AddMultiSig script s)"
| unmulti: "built L s \<Longrightarrow> built L (RemoveMultiSig script s)"

lemma built_ok: "built L s \<Longrightarrow> keystore_ok L s"
proof (induction rule: built.induct)
  case (script s script)
  then show ?case by (auto simp: keystore_ok_def AddCScript_def)
qed (auto simp: keystore_ok_def CBasicKeyStore_new_def AddKey_def AddKeyPubKey_def GetID_def AddWatchOnly_def RemoveWatchOnly_def
    AddMultiSig_def RemoveMultiSig_def)

end
