(* ===== verification/Staking_Vault.thy ===== *)
theory Staking_Vault
  imports Interpreter
begin

text \<open>
  Who can spend the output of a staking vault (\<^verbatim>\<open>script/StakingVaultScript.cpp\<close>): the evaluation of the script the node creates, for
  every stack it can start from.
\<close>

section \<open>Evaluation of the vault script\<close>

text \<open>A machine with an empty alternative stack.\<close>

abbreviation (input) mach :: "bytes list \<Rightarrow> bool list \<Rightarrow> bool \<Rightarrow> nat \<Rightarrow> script_machine" where
  "mach s c closing n \<equiv> \<lparr>stack = s, altstack = [],
    conditionalManager = \<lparr>conditionalScopeReadStatusStack = c, conditionalScopeNeedsClosing = closing\<rparr>, opCount = n\<rparr>"

lemmas eval_op_simps =
  eval_op_def ConditionalNeedsClosing_def OpcodeIsDisabled_def MAXIMUM_NUMBER_OF_OPCODES_def TotalStackSize_def checked_def

lemma eval_loop_push20:
  assumes "length d = 20"
  shows "eval_loop E flags (code, m) (20 # d @ pc) =
    (if ConditionalNeedsClosing m then if TotalStackSize m > 1000 then Inl SCRIPT_ERR_STACK_SIZE else eval_loop E flags (code, m) pc
     else if TotalStackSize m + 1 > 1000 then Inl SCRIPT_ERR_STACK_SIZE else eval_loop E flags (code, PushData d m) pc)"
  using eval_loop_push [of d E flags code m pc] assms
  by (auto simp: checked_def eval_op_def CheckMinimalPush_def TotalStackSize_def PushData_def)

lemma eval_OP_IF:
  "n < 201 \<Longrightarrow> eval_loop E flags (code, mach s [] False n) (OP_IF # pc) =
    (case s of [] \<Rightarrow> Inl SCRIPT_ERR_UNBALANCED_CONDITIONAL
     | b # s \<Rightarrow> if length s > 1000 then Inl SCRIPT_ERR_STACK_SIZE
         else eval_loop E flags (code, mach s [CastToBool b] (\<not> CastToBool b) (n + 1)) pc)"
  by (subst eval_loop_opcode)
     (auto simp: eval_op_simps ApplyOpcode_def opcode_class_defs ConditionalOp_def OpenScope_def Let_def split: list.splits)

lemma eval_OP_ELSE:
  "n < 201 \<Longrightarrow> length s \<le> 1000 \<Longrightarrow> closing = (\<not> b) \<Longrightarrow> eval_loop E flags (code, mach s [b] closing n) (OP_ELSE # pc) =
    eval_loop E flags (code, mach s [\<not> b] b (n + 1)) pc"
  by (subst eval_loop_opcode)
     (auto simp: eval_op_simps ApplyOpcode_def opcode_class_defs ConditionalOp_def TryElse_def CheckConditionalScopeStatus_def Let_def)

lemma eval_OP_ENDIF:
  "n < 201 \<Longrightarrow> length s \<le> 1000 \<Longrightarrow> closing = (\<not> b) \<Longrightarrow> eval_loop E flags (code, mach s [b] closing n) (OP_ENDIF # pc) =
    eval_loop E flags (code, mach s [] False (n + 1)) pc"
  by (subst eval_loop_opcode)
     (auto simp: eval_op_simps ApplyOpcode_def opcode_class_defs ConditionalOp_def TryCLoseScope_def CheckConditionalScopeStatus_def Let_def)

lemma eval_OP_REQUIRE_COINSTAKE:
  "n < 201 \<Longrightarrow> length s \<le> 1000 \<Longrightarrow> has_script_flag flags SCRIPT_REQUIRE_COINSTAKE \<Longrightarrow>
   eval_loop E flags (code, mach s c closing n) (OP_REQUIRE_COINSTAKE # pc) =
    (if closing \<or> CheckCoinstake E then eval_loop E flags (code, mach s c closing (n + 1)) pc else Inl SCRIPT_ERR_VERIFY)"
  by (subst eval_loop_opcode) (auto simp: eval_op_simps ApplyOpcode_def CoinstakeCheckOp_def)

text \<open>The end of the script compares the hash of the key with the one pushed and checks the signature.\<close>

definition key_checked :: "script_env \<Rightarrow> u32 \<Rightarrow> CScript \<Rightarrow> bytes \<Rightarrow> bytes \<Rightarrow> bytes \<Rightarrow> bool" where
  "key_checked E flags code h pub sig \<longleftrightarrow>
    Hash160 E pub = h \<and> CheckSignatureEncoding E flags sig = Inr () \<and> CheckPubKeyEncoding flags pub = Inr ()"

lemma eval_vault_end:
  assumes "n < 190"
  shows "eval_loop E flags (code, mach s [] False n) [OP_OVER, OP_HASH160, OP_EQUALVERIFY, OP_CHECKSIG] = Inr m \<longleftrightarrow>
    (\<exists>h pub sig r. s = h # pub # sig # r \<and> length r + 4 \<le> 1000 \<and> key_checked E flags code h pub sig \<and>
      m = mach (vchBool (CheckSig E sig pub (delete_signature sig code)) # r) [] False (n + 4))"
proof -
  consider "length s < 3" | h pub sig r where "s = h # pub # sig # r"
    by (cases s; cases "tl s"; cases "tl (tl s)") auto
  then show ?thesis
  proof cases
    case 1
    then show ?thesis using assms
      by (cases s; cases "tl s")
        (simp_all add: eval_loop_opcode eval_op_simps ApplyOpcode_def opcode_class_defs StackModificationOp_def need_def HashingOp_def
           EqualityVerificationOp_def ApplyOpcode_sig_def SignatureCheckOp_def CheckSigOp_def Let_def)
  next
    case 2
    then show ?thesis using assms
      by (auto simp: eval_loop_opcode eval_op_simps ApplyOpcode_def opcode_class_defs StackModificationOp_def need_def HashingOp_def
           EqualityVerificationOp_def ApplyOpcode_sig_def SignatureCheckOp_def CheckSigOp_def Let_def key_checked_def ebind_Inr
           ConditionalScopeIsBalanced_def split: if_splits)
  qed
qed

lemma eval_vault:
  assumes "length ow = 20" "length va = 20" "has_script_flag flags SCRIPT_REQUIRE_COINSTAKE"
  defines "V \<equiv> CreateStakingVaultScript ow va"
  shows "EvalScript E flags V s = Inr s' \<longleftrightarrow>
    (\<exists>b pub sig r. s = b # pub # sig # r \<and> length r + 4 \<le> 1000 \<and> (CastToBool b \<or> CheckCoinstake E) \<and>
      key_checked E flags V (if CastToBool b then ow else va) pub sig \<and> s' = vchBool (CheckSig E sig pub (delete_signature sig V)) # r)"
proof -
  let ?tail = "[OP_OVER, OP_HASH160, OP_EQUALVERIFY, OP_CHECKSIG]"
  have ev: "EvalScript E flags V s = Inr s' \<longleftrightarrow>
    (\<exists>m. eval_loop E flags (V, mach s [] False 0) V = Inr m \<and> s' = stack m)"
    using assms by (auto simp: EvalScript_def vault_script ebind_Inr StackOperationManager_new_def)
  show ?thesis
  proof (cases s)
    case Nil
    then show ?thesis unfolding ev using assms by (simp add: vault_script eval_OP_IF)
  next
    case (Cons b t)
    let ?h = "if CastToBool b then ow else va"
    have A: "eval_loop E flags (V, mach s [] False 0) V =
      (if length t + 1 > 1000 \<or> \<not> (CastToBool b \<or> CheckCoinstake E) then Inl (if length t > 1000 \<or> CastToBool b \<or> CheckCoinstake E then SCRIPT_ERR_STACK_SIZE else SCRIPT_ERR_VERIFY)
       else eval_loop E flags (V, mach (?h # t) [] False (Suc (Suc (Suc (Suc 0))))) ?tail)"
      using assms Cons
      by (cases "CastToBool b")
         (simp_all add: vault_script eval_OP_IF eval_loop_push20 eval_OP_ELSE eval_OP_REQUIRE_COINSTAKE eval_OP_ENDIF
            ConditionalNeedsClosing_def TotalStackSize_def PushData_def)
    have "EvalScript E flags V s = Inr s' \<longleftrightarrow> length t + 1 \<le> 1000 \<and> (CastToBool b \<or> CheckCoinstake E) \<and>
      (\<exists>m. eval_loop E flags (V, mach (?h # t) [] False (Suc (Suc (Suc (Suc 0))))) ?tail = Inr m \<and> s' = stack m)"
      unfolding ev A by auto
    also have "\<dots> \<longleftrightarrow> (CastToBool b \<or> CheckCoinstake E) \<and> (\<exists>pub sig r. t = pub # sig # r \<and> length r + 4 \<le> 1000 \<and>
      key_checked E flags V ?h pub sig \<and> s' = vchBool (CheckSig E sig pub (delete_signature sig V)) # r)"
      by (subst eval_vault_end) auto
    finally show ?thesis using Cons by auto
  qed
qed

lemma verify_vault:
  assumes "length ow = 20" "length va = 20" "has_script_flag flags SCRIPT_REQUIRE_COINSTAKE"
    and "\<not> has_script_flag flags SCRIPT_VERIFY_SIGPUSHONLY"
  defines "V \<equiv> CreateStakingVaultScript ow va"
  shows "VerifyScript E scriptSig V flags = Some (Inr ()) \<longleftrightarrow>
    (\<exists>b pub sig r. EvalScript E flags scriptSig [] = Inr (b # pub # sig # r) \<and> length r + 4 \<le> 1000 \<and>
      (CastToBool b \<and> Hash160 E pub = ow \<or> \<not> CastToBool b \<and> Hash160 E pub = va \<and> CheckCoinstake E) \<and>
      CheckSignatureEncoding E flags sig = Inr () \<and> CheckPubKeyEncoding flags pub = Inr () \<and>
      CheckSig E sig pub (delete_signature sig V))"
proof -
  have "\<not> IsPayToScriptHash V" using assms by (simp add: IsPayToScriptHash_def vault_script)
  then have A: "VerifyScript E scriptSig V flags = Some (Inr ()) \<longleftrightarrow>
    (\<exists>s s'. EvalScript E flags scriptSig [] = Inr s \<and> EvalScript E flags V s = Inr s' \<and> s' \<noteq> [] \<and> CastToBool (hd s'))"
  proof (cases "EvalScript E flags scriptSig []")
    case (Inr s)
    with \<open>\<not> IsPayToScriptHash V\<close> show ?thesis using assms(4) by (cases "EvalScript E flags V s") (simp_all add: VerifyScript_def)
  qed (use assms(4) in \<open>simp add: VerifyScript_def\<close>)
  show ?thesis unfolding A eval_vault [OF assms(1-3), folded V_def] key_checked_def
  proof (rule iffI, goal_cases)
    case 1
    then show ?case
    proof (elim exE conjE)
      fix s s' b pub sig r
      assume "EvalScript E flags scriptSig [] = Inr s" "s = b # pub # sig # r" "length r + 4 \<le> 1000"
        "CastToBool b \<or> CheckCoinstake E" "Hash160 E pub = (if CastToBool b then ow else va)"
        "CheckSignatureEncoding E flags sig = Inr ()" "CheckPubKeyEncoding flags pub = Inr ()"
        "s' = vchBool (CheckSig E sig pub (delete_signature sig V)) # r" "CastToBool (hd s')"
      then show ?thesis by (intro exI [of _ b] exI [of _ pub] exI [of _ sig] exI [of _ r]) (simp split: if_splits)
    qed
  next
    case 2
    then show ?case
    proof (elim exE conjE)
      fix b pub sig r
      assume "EvalScript E flags scriptSig [] = Inr (b # pub # sig # r)" "length r + 4 \<le> 1000"
        "CastToBool b \<and> Hash160 E pub = ow \<or> \<not> CastToBool b \<and> Hash160 E pub = va \<and> CheckCoinstake E"
        "CheckSignatureEncoding E flags sig = Inr ()" "CheckPubKeyEncoding flags pub = Inr ()"
        "CheckSig E sig pub (delete_signature sig V)"
      then show ?thesis
        by (intro exI [of _ "b # pub # sig # r"] exI [of _ "vchBool (CheckSig E sig pub (delete_signature sig V)) # r"] conjI
              exI [of _ b] exI [of _ pub] exI [of _ sig] exI [of _ r]) auto
    qed
  qed
qed


text \<open>
  C11: A staking vault is spent exactly by a script that leaves a selector, a public key and a signature on
  the stack, such that the signature verifies for the key, and the key hashes either to the owner's hash, with
  a true selector, or to the vault manager's hash, with a false selector and only if the spending transaction is
  a coinstake. In particular the manager cannot spend the vault in any other transaction.
\<close>

theorem vault_spending:
  assumes "length ow = 20" "length va = 20" "has_script_flag flags SCRIPT_REQUIRE_COINSTAKE"
    and "\<not> has_script_flag flags SCRIPT_VERIFY_SIGPUSHONLY"
  defines "V \<equiv> CreateStakingVaultScript ow va"
  shows "VerifyScript E scriptSig V flags = Some (Inr ()) \<longleftrightarrow>
    (\<exists>b pub sig r. EvalScript E flags scriptSig [] = Inr (b # pub # sig # r) \<and> length r + 4 \<le> 1000 \<and>
      (CastToBool b \<and> Hash160 E pub = ow \<or> \<not> CastToBool b \<and> Hash160 E pub = va \<and> CheckCoinstake E) \<and>
      CheckSignatureEncoding E flags sig = Inr () \<and> CheckPubKeyEncoding flags pub = Inr () \<and>
      CheckSig E sig pub (delete_signature sig V))"
  unfolding V_def using assms(1-4) by (rule verify_vault)

theorem vault_spending_witness:
  "VerifyScript zero_env [1, 1, 1, 2, OP_1] (CreateStakingVaultScript (replicate 20 0) (replicate 20 1)) SCRIPT_REQUIRE_COINSTAKE = Some (Inr ())"
proof -
  have "EvalScript zero_env SCRIPT_REQUIRE_COINSTAKE [1, 1, 1, 2, OP_1] [] = Inr [[1], [2], [1]]" by code_simp
  then show ?thesis
    by (subst vault_spending) (simp_all add: SCRIPT_REQUIRE_COINSTAKE_def script_flag_defs zero_env_def CheckSignatureEncoding_def CheckPubKeyEncoding_def)
qed

end
