(* ===== verification/Sign.thy ===== *)
theory Sign
  imports Keystore Staking_Vault
begin

text \<open>
  Signing of inputs (\<^verbatim>\<open>script/sign.cpp\<close>): the input script for each standard form, for staking vaults as the owner or the manager, and
  the final test with the interpreter. The theory shows that the holder of the right key can always spend.
\<close>

section \<open>Signatures for one key and for several\<close>

definition Sign1 :: "'key key_lib \<Rightarrow> 'key CKeyStore \<Rightarrow> bytes \<Rightarrow> u256 \<Rightarrow> int \<Rightarrow> CScript \<Rightarrow> bool \<times> CScript" where
  "Sign1 L keystore address hash nHashType scriptSigRet =
    (case GetKey keystore address of
       None \<Rightarrow> (False, scriptSigRet)
     | Some key \<Rightarrow>
         case key_Sign L key hash of
           None \<Rightarrow> (False, scriptSigRet)
         | Some vchSig \<Rightarrow> (True, push_data scriptSigRet (vchSig @ [word_of_int nHashType])))"

fun sign_loop :: "'key key_lib \<Rightarrow> 'key CKeyStore \<Rightarrow> u256 \<Rightarrow> int \<Rightarrow> nat \<Rightarrow> bytes list \<Rightarrow> nat \<Rightarrow> CScript \<Rightarrow> nat \<times> CScript" where
  "sign_loop L keystore hash nHashType nRequired [] nSigned scriptSigRet = (nSigned, scriptSigRet)"
| "sign_loop L keystore hash nHashType nRequired (pubkey # keys) nSigned scriptSigRet =
    (if nSigned < nRequired then
       let keyID = GetID (key_Hash160 L) (CPubKey pubkey); r = Sign1 L keystore keyID hash nHashType scriptSigRet
       in sign_loop L keystore hash nHashType nRequired keys (if fst r then nSigned + 1 else nSigned) (snd r)
     else (nSigned, scriptSigRet))"

definition SignN :: "'key key_lib \<Rightarrow> 'key CKeyStore \<Rightarrow> bytes list \<Rightarrow> u256 \<Rightarrow> int \<Rightarrow> CScript \<Rightarrow> bool \<times> CScript" where
  "SignN L keystore multisigdata hash nHashType scriptSigRet =
    (let nRequired = unat (hd multisigdata ! 0);
         r = sign_loop L keystore hash nHashType nRequired (butlast (tl multisigdata)) 0 scriptSigRet
     in (fst r = nRequired, snd r))"

text \<open>A public key that the store does not return is the invalid key.\<close>

definition pub_of :: "'key CKeyStore \<Rightarrow> bytes \<Rightarrow> bytes" where
  "pub_of keystore keyID = (case GetPubKey keystore keyID of None \<Rightarrow> [] | Some k \<Rightarrow> k)"

definition SignVaultSpend :: "'key key_lib \<Rightarrow> 'key CKeyStore \<Rightarrow> CScript \<Rightarrow> u256 \<Rightarrow> int \<Rightarrow> CScript \<Rightarrow> bool \<Rightarrow> bool \<times> CScript" where
  "SignVaultSpend L keystore vaultScriptPubKey hash nHashType scriptSigRet spendAsOwner =
    (case GetStakingVaultPubkeyHashes vaultScriptPubKey of
       None \<Rightarrow> (False, scriptSigRet)
     | Some (ownerKeyID, vaultKeyID) \<Rightarrow>
         if \<not> spendAsOwner \<and> HaveKey keystore vaultKeyID then
           let r = Sign1 L keystore vaultKeyID hash nHashType scriptSigRet
           in if \<not> fst r then r else (True, push_op (push_data (snd r) (pub_of keystore vaultKeyID)) OP_FALSE)
         else if spendAsOwner \<and> HaveKey keystore ownerKeyID then
           let r = Sign1 L keystore ownerKeyID hash nHashType scriptSigRet
           in if \<not> fst r then r else (True, push_op (push_data (snd r) (pub_of keystore ownerKeyID)) OP_TRUE)
         else (False, scriptSigRet))"

section \<open>Input scripts\<close>

definition ConstructScriptSigOrGetRedemptionScript ::
  "'key key_lib \<Rightarrow> 'key CKeyStore \<Rightarrow> CScript \<Rightarrow> u256 \<Rightarrow> int \<Rightarrow> bool \<times> CScript \<times> txnouttype" where
  "ConstructScriptSigOrGetRedemptionScript L keystore script hash nHashType =
    (case ExtractScriptPubKeyFormat script of (_, whichTypeRet, vSolutions) \<Rightarrow>
       case whichTypeRet of
         TX_NONSTANDARD \<Rightarrow> (False, [], whichTypeRet)
       | TX_NULL_DATA \<Rightarrow> (False, [], whichTypeRet)
       | TX_PUBKEY \<Rightarrow>
           let r = Sign1 L keystore (GetID (key_Hash160 L) (CPubKey (vSolutions ! 0))) hash nHashType [] in (fst r, snd r, whichTypeRet)
       | TX_PUBKEYHASH \<Rightarrow>
           let keyID = vSolutions ! 0; r = Sign1 L keystore keyID hash nHashType []
           in if \<not> fst r then (False, snd r, whichTypeRet) else (True, push_data (snd r) (pub_of keystore keyID), whichTypeRet)
       | TX_VAULT \<Rightarrow>
           let r = SignVaultSpend L keystore script hash nHashType [] True
           in if fst r then (True, snd r, whichTypeRet)
              else let r = SignVaultSpend L keystore script hash nHashType (snd r) False in (fst r, snd r, whichTypeRet)
       | TX_SCRIPTHASH \<Rightarrow>
           (case GetCScript keystore (vSolutions ! 0) of None \<Rightarrow> (False, [], whichTypeRet) | Some s \<Rightarrow> (True, s, whichTypeRet))
       | TX_MULTISIG \<Rightarrow> let r = SignN L keystore vSolutions hash nHashType (push_op [] OP_0) in (fst r, snd r, whichTypeRet))"

definition set_scriptSig :: "nat \<Rightarrow> CScript \<Rightarrow> CMutableTransaction \<Rightarrow> CMutableTransaction" where
  "set_scriptSig n s tx = tx\<lparr>vin := (vin tx)[n := (vin tx ! n)\<lparr>scriptSig := s\<rparr>]\<rparr>"

text \<open>\<open>None\<close> is the failed assertion that the input exists.\<close>

definition SignSignature ::
  "crypto_lib \<Rightarrow> 'key key_lib \<Rightarrow> 'key CKeyStore \<Rightarrow> CScript \<Rightarrow> CMutableTransaction \<Rightarrow> nat \<Rightarrow> int \<Rightarrow> (bool \<times> CMutableTransaction) option" where
  "SignSignature C L keystore fromPubKey tx n nHashType =
    (if \<not> n < length (vin tx) then None
     else
       let verify = (\<lambda>s. VerifyScript (TransactionSignatureChecker C (to_transaction (SerializeHash (hash_of C)) (set_scriptSig n s tx)) n) s
             fromPubKey STANDARD_SCRIPT_VERIFY_FLAGS = Some (Inr ()))
       in Some (
         case ConstructScriptSigOrGetRedemptionScript L keystore fromPubKey (SignatureHash (hash_of C) fromPubKey tx n nHashType) nHashType of
           (ok, s, whichType) \<Rightarrow>
             if \<not> ok then (False, set_scriptSig n s tx)
             else if whichType = TX_SCRIPTHASH then
               case ConstructScriptSigOrGetRedemptionScript L keystore s
                   (SignatureHash (hash_of C) s (set_scriptSig n s tx) n nHashType) nHashType of
                 (ok, s', subType) \<Rightarrow>
                   let fSolved = (ok \<and> subType \<noteq> TX_SCRIPTHASH); s' = push_data s' s
                   in if \<not> fSolved then (False, set_scriptSig n s' tx) else (verify s', set_scriptSig n s' tx)
             else (verify s, set_scriptSig n s tx)))"

section \<open>The signed message does not depend on the input scripts\<close>

lemma set_scriptSig_simps:
  "length (vin (set_scriptSig n s tx)) = length (vin tx)" "vout (set_scriptSig n s tx) = vout tx"
  "txVersion (set_scriptSig n s tx) = txVersion tx" "nLockTime (set_scriptSig n s tx) = nLockTime tx"
  "prevout (vin (set_scriptSig n s tx) ! i) = prevout (vin tx ! i)" "nSequence (vin (set_scriptSig n s tx) ! i) = nSequence (vin tx ! i)"
  by (simp_all add: set_scriptSig_def) (metis CTxIn.select_convs CTxIn.surjective CTxIn.update_convs(2) list_update_beyond not_le nth_list_update_eq nth_list_update_neq)+

lemma SignatureHash_set_scriptSig [simp]: "SignatureHash H code (set_scriptSig n s tx) k ht = SignatureHash H code tx k ht"
proof -
  define t t' where "t = CTransactionSignatureSerializer_new tx code k ht"
    and "t' = CTransactionSignatureSerializer_new (set_scriptSig n s tx) code k ht"
  have f: "fAnyoneCanPay t' = fAnyoneCanPay t" "fHashSingle t' = fHashSingle t" "fHashNone t' = fHashNone t" "nIn t' = nIn t"
    "scriptCode t' = scriptCode t" "txTo t = tx" "txTo t' = set_scriptSig n s tx"
    by (simp_all add: t_def t'_def CTransactionSignatureSerializer_new_def)
  have i: "SerializeInput t' = SerializeInput t" by (rule ext) (auto simp: SerializeInput_def SerializeScriptCode_def f set_scriptSig_simps Let_def)
  have o1: "SerializeOutput t' = SerializeOutput t" by (rule ext) (simp add: SerializeOutput_def f set_scriptSig_simps)
  have "Serialize_signature t' = Serialize_signature t" by (simp add: Serialize_signature_def i o1 f set_scriptSig_simps)
  then show ?thesis by (simp add: SignatureHash_def set_scriptSig_simps t_def t'_def)
qed

lemma IsCoinStake_set_scriptSig [simp]:
  "IsCoinStake (to_transaction H (set_scriptSig n s tx)) = IsCoinStake (to_transaction H tx)"
  by (simp add: IsCoinStake_def to_transaction_def set_scriptSig_simps flip: length_greater_0_conv)

lemma to_mutable_to_transaction [simp]: "to_mutable (to_transaction H tx) = tx"
  by (simp add: to_mutable_def to_transaction_def)

section \<open>Signatures are not part of the signed script\<close>

lemma find_delete_Nil: "find_delete_loop (c # b) [] n = (n, [])"
  by (subst find_delete_loop.simps) (simp add: Let_def strip.simps)

lemma find_delete_op:
  "OP_PUSHDATA4 < opcode \<Longrightarrow> c \<noteq> opcode \<Longrightarrow>
    snd (find_delete_loop (c # b) (opcode # pc) n) = opcode # snd (find_delete_loop (c # b) pc n)"
  by (subst find_delete_loop.simps) (simp add: Let_def strip.simps GetOp2_opcode)

lemma find_delete_push20:
  assumes "length d = 20" "c = 20 \<Longrightarrow> length b = 20 \<and> b \<noteq> d"
  shows "snd (find_delete_loop (c # b) (20 # d @ pc) n) = 20 # d @ snd (find_delete_loop (c # b) pc n)"
proof -
  have g: "GetOp2 (20 # d @ pc) = (True, 20, d, pc)" using GetOp2_push [of d pc] assms(1) by simp
  have s: "strip (c # b) (20 # d @ pc) n = (n, 20 # d @ pc)" using assms by (subst strip.simps) auto
  show ?thesis using assms(1) by (subst find_delete_loop.simps) (simp add: s g Let_def)
qed

lemma push_short: "length d < 76 \<Longrightarrow> push_data s d = s @ word_of_nat (length d) # d"
  by (simp add: push_data_def)

lemma length_byte_eq_20:
  assumes "length d < 76" "word_of_nat (length d) = (20 :: u8)"
  shows "length d = 20"
proof -
  have "unat (word_of_nat (length d) :: u8) = length d" using assms(1) by (simp add: unat_of_nat take_bit_nat_eq_self)
  with assms(2) show ?thesis by simp
qed

lemma delete_signature_vault:
  assumes "length ow = 20" "length va = 20" "length sig < 76" "sig \<noteq> ow" "sig \<noteq> va"
  shows "delete_signature sig (CreateStakingVaultScript ow va) = CreateStakingVaultScript ow va"
proof -
  have u: "unat (word_of_nat (length sig) :: u8) = length sig" using assms(3) by (simp add: unat_of_nat take_bit_nat_eq_self)
  have c: "(word_of_nat (length sig) :: u8) \<noteq> opcode" if "OP_PUSHDATA4 < opcode" for opcode
    using that u assms(3) by (auto simp: word_less_nat_alt)
  have p: "word_of_nat (length sig) = (20 :: u8) \<Longrightarrow> length sig = 20 \<and> sig \<noteq> d" if "d \<in> {ow, va}" for d
    using that assms length_byte_eq_20 by auto
  show ?thesis unfolding delete_signature_def FindAndDelete_def
    using assms c p [of ow] p [of va] by (simp add: push_short vault_script find_delete_op find_delete_push20 find_delete_Nil)
qed

section \<open>Evaluating an input script\<close>

lemma eval_push_minimal:
  assumes "2 \<le> length d" "length d < 76" "\<not> ConditionalNeedsClosing m" "TotalStackSize m < 1000"
  shows "eval_loop E flags (code, m) (word_of_nat (length d) # d @ pc) = eval_loop E flags (code, PushData d m) pc"
proof -
  have u: "unat (word_of_nat (length d) :: u8) = length d" using assms(2) by (simp add: unat_of_nat take_bit_nat_eq_self)
  then have "(word_of_nat (length d) :: u8) \<le> OP_PUSHDATA4" using assms(2) by (simp add: word_le_nat_alt)
  then show ?thesis using assms u
    by (auto simp: eval_loop_push checked_def eval_op_def CheckMinimalPush_def TotalStackSize_def PushData_def)
qed

lemma eval_selector:
  assumes "length s < 1000"
  shows "eval_loop E flags (code, mach s [] False n) [if b then OP_TRUE else OP_FALSE] = Inr (mach (vchBool b # s) [] False n)"
proof (cases b)
  case True
  have "serialize_num 1 = vchTrue" by (simp add: serialize_num_def abs_bytes.simps vchTrue_def)
  then show ?thesis using True assms
    by (subst eval_loop.simps)
       (simp add: eval_step_def GetOp2_opcode eval_op_simps ApplyOpcode_def opcode_class_defs PushValueOp_def vchBool_def
          ConditionalScopeIsBalanced_def)
next
  case False
  have "(0 :: u8) = word_of_nat (length ([] :: bytes))" by simp
  then show ?thesis using False assms eval_loop_push [of "[]" E flags code "mach s [] False n" "[]"]
    by (simp add: checked_def eval_op_def ConditionalNeedsClosing_def CheckMinimalPush_def PushData_def TotalStackSize_def
        ConditionalScopeIsBalanced_def vchBool_def vchFalse_def)
qed

lemma eval_vault_input:
  assumes "2 \<le> length sig" "length sig < 76" "2 \<le> length pub" "length pub < 76"
  shows "EvalScript E flags (push_op (push_data (push_data [] sig) pub) (if b then OP_TRUE else OP_FALSE)) [] = Inr [vchBool b, pub, sig]"
proof -
  let ?s = "word_of_nat (length sig) # sig @ word_of_nat (length pub) # pub @ [if b then OP_TRUE else OP_FALSE]"
  have s: "push_op (push_data (push_data [] sig) pub) (if b then OP_TRUE else OP_FALSE) = ?s"
    using assms by (simp add: push_short push_op_def)
  have "eval_loop E flags (?s, mach [] [] False 0) ?s = Inr (mach [vchBool b, pub, sig] [] False 0)"
    using assms eval_selector [of "[pub, sig]" E flags ?s 0 b]
    by (simp add: eval_push_minimal ConditionalNeedsClosing_def TotalStackSize_def PushData_def)
  moreover have "length ?s \<le> 10000" using assms by simp
  ultimately show ?thesis unfolding s by (simp add: EvalScript_def StackOperationManager_new_def)
qed

section \<open>Signing works\<close>

text \<open>
  What is relied on of the library: the key signs the hash with a signature in the strict encoding that verifies, and its
  public key has one of the two standard encodings.
\<close>

definition signs_with :: "crypto_lib \<Rightarrow> 'key key_lib \<Rightarrow> 'key \<Rightarrow> u256 \<Rightarrow> int \<Rightarrow> bytes \<Rightarrow> bool" where
  "signs_with C L key hash ht sig \<longleftrightarrow>
    key_Sign L key hash = Some sig \<and> lib_Verify C (key_GetPubKey L key) hash sig \<and>
    IsValidSignatureEncoding (sig @ [word_of_int ht]) \<and> IsCompressedOrUncompressedPubKey (key_GetPubKey L key)"

definition valid_hash_type :: "int \<Rightarrow> bool" where
  "valid_hash_type ht \<longleftrightarrow> 0 \<le> ht \<and> ht < 256 \<and> IsDefinedHashtypeSignature [word_of_int ht]"

lemma standard_flags:
  "has_script_flag STANDARD_SCRIPT_VERIFY_FLAGS SCRIPT_REQUIRE_COINSTAKE" "\<not> has_script_flag STANDARD_SCRIPT_VERIFY_FLAGS SCRIPT_VERIFY_SIGPUSHONLY"
  "\<not> has_script_flag STANDARD_SCRIPT_VERIFY_FLAGS SCRIPT_VERIFY_LOW_S"
  by (simp_all add: STANDARD_SCRIPT_VERIFY_FLAGS_def POS_SCRIPT_VERIFY_FLAGS_def MANDATORY_SCRIPT_VERIFY_FLAGS_def script_flag_defs)

lemma pubkey_lengths: "IsCompressedOrUncompressedPubKey k \<Longrightarrow> length k = 33 \<or> length k = 65"
  by (auto simp: IsCompressedOrUncompressedPubKey_def split: if_splits)

lemma CPubKey_id: "IsCompressedOrUncompressedPubKey k \<Longrightarrow> CPubKey k = k"
  by (cases k) (auto simp: IsCompressedOrUncompressedPubKey_def CPubKey_def GetLen_def split: if_splits)

lemma signs_with_checks:
  fixes sig' :: bytes and sig :: bytes and ht :: int
  defines "sig' \<equiv> sig @ [word_of_int ht]"
  assumes "signs_with C L key (SignatureHash (hash_of C) code (to_mutable tx) n ht) ht sig" "valid_hash_type ht"
  shows "2 \<le> length sig'" "length sig' < 76" "2 \<le> length (key_GetPubKey L key)" "length (key_GetPubKey L key) < 76"
    "CheckSignatureEncoding E STANDARD_SCRIPT_VERIFY_FLAGS sig' = Inr ()"
    "CheckPubKeyEncoding STANDARD_SCRIPT_VERIFY_FLAGS (key_GetPubKey L key) = Inr ()"
    "CheckSig (TransactionSignatureChecker C tx n) sig' (key_GetPubKey L key) code"
proof -
  note a = assms(2)[unfolded signs_with_def] and h = assms(3)[unfolded valid_hash_type_def]
  have e: "IsValidSignatureEncoding sig'" using a by (simp add: sig'_def)
  then show "2 \<le> length sig'" "length sig' < 76" by (auto simp: IsValidSignatureEncoding_def split: if_splits)
  show "2 \<le> length (key_GetPubKey L key)" "length (key_GetPubKey L key) < 76" using a pubkey_lengths by force+
  have "IsDefinedHashtypeSignature sig'" using h by (simp add: IsDefinedHashtypeSignature_def sig'_def)
  then show "CheckSignatureEncoding E STANDARD_SCRIPT_VERIFY_FLAGS sig' = Inr ()"
    using e standard_flags(3) by (simp add: CheckSignatureEncoding_def)
  show "CheckPubKeyEncoding STANDARD_SCRIPT_VERIFY_FLAGS (key_GetPubKey L key) = Inr ()" using a by (simp add: CheckPubKeyEncoding_def)
  have "uint (word_of_int ht :: u8) = ht" using h by (simp add: uint_word_of_int)
  then show "CheckSig (TransactionSignatureChecker C tx n) sig' (key_GetPubKey L key) code"
    using a pubkey_lengths [of "key_GetPubKey L key"]
    by (auto simp: TransactionSignatureChecker_def TransactionSignatureChecker_CheckSig_def CPubKey_id CPubKey_IsValid_def sig'_def Let_def)
qed

definition vault_input :: "bytes \<Rightarrow> bytes \<Rightarrow> bool \<Rightarrow> CScript" where
  "vault_input sig pub b = push_op (push_data (push_data [] sig) pub) (if b then OP_TRUE else OP_FALSE)"

lemma vault_input_verifies:
  fixes V :: CScript and ow va :: bytes
  defines "V \<equiv> CreateStakingVaultScript ow va"
  assumes "length ow = 20" "length va = 20" "valid_hash_type ht"
    and "signs_with C L key (SignatureHash (hash_of C) V tx n ht) ht sig"
    and "sig @ [word_of_int ht] \<notin> {ow, va}" "key_Hash160 L = lib_Hash160 C"
    and "key_Hash160 L (key_GetPubKey L key) = (if b then ow else va)" "b \<or> IsCoinStake (to_transaction (SerializeHash (hash_of C)) tx)"
    and s: "s = vault_input (sig @ [word_of_int ht]) (key_GetPubKey L key) b"
  shows "VerifyScript (TransactionSignatureChecker C (to_transaction (SerializeHash (hash_of C)) (set_scriptSig n s tx)) n) s V
    STANDARD_SCRIPT_VERIFY_FLAGS = Some (Inr ())"
proof -
  let ?E = "TransactionSignatureChecker C (to_transaction (SerializeHash (hash_of C)) (set_scriptSig n s tx)) n"
  let ?sig = "sig @ [word_of_int ht]" and ?pub = "key_GetPubKey L key"
  have w: "signs_with C L key (SignatureHash (hash_of C) V (to_mutable (to_transaction (SerializeHash (hash_of C)) (set_scriptSig n s tx))) n ht) ht sig"
    using assms(5) by simp
  note c = signs_with_checks [OF w assms(4)]
  have "EvalScript ?E STANDARD_SCRIPT_VERIFY_FLAGS s [] = Inr [vchBool b, ?pub, ?sig]"
    unfolding s vault_input_def using eval_vault_input [OF c(1-4)] .
  moreover have "delete_signature ?sig V = V" unfolding V_def using assms(2,3,6) c(2) by (intro delete_signature_vault) auto
  moreover have "b \<and> Hash160 ?E ?pub = ow \<or> \<not> b \<and> Hash160 ?E ?pub = va \<and> CheckCoinstake ?E"
    using assms(7-9) by (auto simp: TransactionSignatureChecker_def split: if_splits)
  ultimately show ?thesis
    unfolding V_def verify_vault [OF assms(2,3) standard_flags(1,2)]
    using c(5-7) by (intro exI [of _ "vchBool b"] exI [of _ ?pub] exI [of _ ?sig] exI [of _ "[]"]) (simp add: V_def)
qed

context key_store
begin

lemma vault_signed:
  assumes st: "store_ok s" and key: "GetKey (iface s) (if b then ow else va) = Some key"
    and other: "\<not> b \<Longrightarrow> GetKey (iface s) ow = None"
    and sign: "key_Sign L key hash = Some sig" and len: "length ow = 20" "length va = 20"
  shows "ConstructScriptSigOrGetRedemptionScript L (iface s) (CreateStakingVaultScript ow va) hash ht =
    (True, vault_input (sig @ [word_of_int ht]) (key_GetPubKey L key) b, TX_VAULT)"
proof -
  have h: "GetStakingVaultPubkeyHashes (CreateStakingVaultScript ow va) = Some (ow, va)"
    using len vault_hashes by blast
  have have_it: "HaveKey (iface s) (if b then ow else va)" using have_key [OF st] key by simp
  have p: "pub_of (iface s) (if b then ow else va) = key_GetPubKey L key" using pub_key [OF st key] by (simp add: pub_of_def)
  show ?thesis
  proof (cases b)
    case True
    then show ?thesis using key sign have_it p h
      by (simp add: ConstructScriptSigOrGetRedemptionScript_def vault_format [OF len] SignVaultSpend_def Sign1_def vault_input_def Let_def)
  next
    case False
    then have "\<not> HaveKey (iface s) ow" using have_key [OF st] other by simp
    then show ?thesis using False key sign have_it p h
      by (simp add: ConstructScriptSigOrGetRedemptionScript_def vault_format [OF len] SignVaultSpend_def Sign1_def vault_input_def Let_def)
  qed
qed

end

text \<open>
  C15: The holder of the owner key of a staking vault can spend it in every transaction, and the holder of the manager key in every
  coinstake: signing the input succeeds and the input script passes verification with the standard flags.
\<close>

theorem sign_vault_succeeds:
  fixes V :: CScript and ow va :: bytes
  defines "V \<equiv> CreateStakingVaultScript ow va"
  assumes "built L s" "mapKeys s (if b then ow else va) = Some key" "length ow = 20" "length va = 20"
    and "b \<or> mapKeys s ow = None \<and> IsCoinStake (to_transaction (SerializeHash (hash_of C)) tx)"
    and "n < length (vin tx)" "valid_hash_type ht" "key_Hash160 L = lib_Hash160 C"
    and "signs_with C L key (SignatureHash (hash_of C) V tx n ht) ht sig" "sig @ [word_of_int ht] \<notin> {ow, va}"
  shows "SignSignature C L (as_CKeyStore L s) V tx n ht =
    Some (True, set_scriptSig n (vault_input (sig @ [word_of_int ht]) (key_GetPubKey L key) b) tx)"
proof -
  have k: "GetKey (as_CKeyStore L s) a = mapKeys s a" for a by (simp add: as_CKeyStore_def CBasicKeyStore_GetKey_def)
  have ok: "keystore_ok L s" by (rule built_ok) (rule assms(2))
  have key: "GetKey (as_CKeyStore L s) (if b then ow else va) = Some key" using assms(3) k by simp
  have "ConstructScriptSigOrGetRedemptionScript L (as_CKeyStore L s) V (SignatureHash (hash_of C) V tx n ht) ht =
    (True, vault_input (sig @ [word_of_int ht]) (key_GetPubKey L key) b, TX_VAULT)"
    unfolding V_def using assms(4-6,10) key k
    by (intro basic_store.vault_signed [OF ok]) (auto simp: signs_with_def V_def)
  moreover have "key_Hash160 L (key_GetPubKey L key) = (if b then ow else va)" by (rule basic_store.key_hash [OF ok key])
  then have "VerifyScript (TransactionSignatureChecker C (to_transaction (SerializeHash (hash_of C))
      (set_scriptSig n (vault_input (sig @ [word_of_int ht]) (key_GetPubKey L key) b) tx)) n)
    (vault_input (sig @ [word_of_int ht]) (key_GetPubKey L key) b) V STANDARD_SCRIPT_VERIFY_FLAGS = Some (Inr ())"
    unfolding V_def using assms(4-6,8-11) by (intro vault_input_verifies) (auto simp: V_def)
  ultimately show ?thesis using assms(7) by (simp add: SignSignature_def Let_def)
qed

text \<open>A library with one key, whose signature is accepted for every message.\<close>

definition example_crypto :: crypto_lib where
  "example_crypto = \<lparr>lib_Verify = (\<lambda>pub h sig. True), lib_CheckSignatureElement = (\<lambda>s. True), lib_RIPEMD160 = (\<lambda>v. replicate 20 0),
    lib_SHA1 = (\<lambda>v. replicate 20 0), lib_SHA256 = (\<lambda>v. replicate 32 0), lib_Hash160 = (\<lambda>v. replicate 20 0), lib_Hash256 = (\<lambda>v. replicate 32 0)\<rparr>"

definition example_keys :: "unit key_lib" where
  "example_keys = \<lparr>key_GetPubKey = (\<lambda>k. 2 # replicate 32 0), key_Sign = (\<lambda>k h. Some [0x30, 6, 2, 1, 1, 2, 1, 1]), key_Hash160 = (\<lambda>v. replicate 20 0)\<rparr>"

theorem sign_vault_succeeds_witness:
  "SignSignature example_crypto example_keys (as_CKeyStore example_keys (AddKey example_keys () CBasicKeyStore_new))
     (CreateStakingVaultScript (replicate 20 0) (replicate 20 1)) example_spend 0 1 =
   Some (True, set_scriptSig 0 (vault_input ([0x30, 6, 2, 1, 1, 2, 1, 1] @ [1]) (2 # replicate 32 0) True) example_spend)"
proof -
  let ?s = "AddKey example_keys () CBasicKeyStore_new" and ?sig = "[0x30, 6, 2, 1, 1, 2, 1, 1] :: bytes"
  have b: "built example_keys ?s" by (intro built.key built.empty)
  have k: "mapKeys ?s (if True then replicate 20 0 else replicate 20 1) = Some ()"
    by (simp add: example_keys_def AddKey_def AddKeyPubKey_def GetID_def)
  have h: "valid_hash_type 1" by (simp add: valid_hash_type_def IsDefinedHashtypeSignature_def)
  have w: "signs_with example_crypto example_keys () hash 1 ?sig" for hash
    by (simp add: signs_with_def example_crypto_def example_keys_def IsValidSignatureEncoding_def IsCompressedOrUncompressedPubKey_def)
  have d: "?sig @ [word_of_int 1] \<notin> {replicate 20 0, replicate 20 1}" by (auto dest: arg_cong [of _ _ length])
  have n: "0 < length (vin example_spend)" by (simp add: example_spend_def)
  have e: "key_Hash160 example_keys = lib_Hash160 example_crypto" by (simp add: example_keys_def example_crypto_def)
  have p: "key_GetPubKey example_keys () = 2 # replicate 32 0" by (simp add: example_keys_def)
  show ?thesis using sign_vault_succeeds [OF b k _ _ _ n h e w d] by (simp only: p) simp
qed

end
