(* ===== verification/Compressor.thy ===== *)
theory Compressor
  imports Tx_Serialize Script_Codec
begin

text \<open>
  The compact form of outputs in the coins database (\<^verbatim>\<open>compressor.h\<close>, \<^verbatim>\<open>compressor.cpp\<close>): special cases for frequent scripts, and amounts
  without their trailing zeros. Validation and decompression of public keys are parameters.
\<close>

section \<open>Scripts\<close>

record point_lib =
  IsFullyValid :: "bytes \<Rightarrow> bool"
  pub_Decompress :: "bytes \<Rightarrow> bytes option"

definition nSpecialScripts :: int where
  "nSpecialScripts = 6"

definition IsToKeyID :: "CScript \<Rightarrow> bytes option" where
  "IsToKeyID script =
    (if length script = 25 \<and> script ! 0 = OP_DUP \<and> script ! 1 = OP_HASH160 \<and> script ! 2 = 20 \<and> script ! 23 = OP_EQUALVERIFY \<and>
       script ! 24 = OP_CHECKSIG then Some (take 20 (drop 3 script)) else None)"

definition IsToScriptID :: "CScript \<Rightarrow> bytes option" where
  "IsToScriptID script =
    (if length script = 23 \<and> script ! 0 = OP_HASH160 \<and> script ! 1 = 20 \<and> script ! 22 = OP_EQUAL then Some (take 20 (drop 2 script)) else None)"

definition IsToPubKey :: "point_lib \<Rightarrow> CScript \<Rightarrow> bytes option" where
  "IsToPubKey L script =
    (if length script = 35 \<and> script ! 0 = 33 \<and> script ! 34 = OP_CHECKSIG \<and> (script ! 1 = 0x02 \<or> script ! 1 = 0x03) then
       Some (take 33 (drop 1 script))
     else if length script = 67 \<and> script ! 0 = 65 \<and> script ! 66 = OP_CHECKSIG \<and> script ! 1 = 0x04 then
       let pubkey = take 65 (drop 1 script) in if IsFullyValid L pubkey then Some pubkey else None
     else None)"

definition Compress :: "point_lib \<Rightarrow> CScript \<Rightarrow> bytes option" where
  "Compress L script =
    (case IsToKeyID script of
       Some keyID \<Rightarrow> Some (0x00 # keyID)
     | None \<Rightarrow>
         case IsToScriptID script of
           Some scriptID \<Rightarrow> Some (0x01 # scriptID)
         | None \<Rightarrow>
             case IsToPubKey L script of
               Some pubkey \<Rightarrow>
                 if pubkey ! 0 = 0x02 \<or> pubkey ! 0 = 0x03 then Some (pubkey ! 0 # take 32 (drop 1 pubkey))
                 else if pubkey ! 0 = 0x04 then Some ((0x04 OR (pubkey ! 64 AND 0x01)) # take 32 (drop 1 pubkey))
                 else None
             | None \<Rightarrow> None)"

definition GetSpecialSize :: "int \<Rightarrow> nat" where
  "GetSpecialSize nSize =
    (if nSize = 0 \<or> nSize = 1 then 20 else if nSize = 2 \<or> nSize = 3 \<or> nSize = 4 \<or> nSize = 5 then 32 else 0)"

text \<open>\<open>None\<close> leaves the script as it was.\<close>

definition Decompress :: "point_lib \<Rightarrow> int \<Rightarrow> bytes \<Rightarrow> CScript option" where
  "Decompress L nSize in_data =
    (if nSize = 0x00 then Some ([OP_DUP, OP_HASH160, 20] @ take 20 in_data @ [OP_EQUALVERIFY, OP_CHECKSIG])
     else if nSize = 0x01 then Some ([OP_HASH160, 20] @ take 20 in_data @ [OP_EQUAL])
     else if nSize = 0x02 \<or> nSize = 0x03 then Some ([33, word_of_int nSize] @ take 32 in_data @ [OP_CHECKSIG])
     else if nSize = 0x04 \<or> nSize = 0x05 then
       case pub_Decompress L (word_of_int (nSize - 2) # take 32 in_data) of
         None \<Rightarrow> None
       | Some pubkey \<Rightarrow> Some ([65] @ take 65 pubkey @ [OP_CHECKSIG])
     else None)"

definition Serialize_script :: "point_lib \<Rightarrow> CScript \<Rightarrow> bytes" where
  "Serialize_script L script =
    (case Compress L script of
       Some compr \<Rightarrow> compr
     | None \<Rightarrow> WriteVarInt (int (length script) + nSpecialScripts) @ script)"

text \<open>The script starts out empty, as in a new output.\<close>

definition Unserialize_script :: "point_lib \<Rightarrow> CScript reader" where
  "Unserialize_script L =
    rbind (ReadVarInt 32) (\<lambda>nSize.
      if nSize < nSpecialScripts then
        rbind (stream_read (GetSpecialSize nSize)) (\<lambda>vch. rret (case Decompress L nSize vch of None \<Rightarrow> [] | Some s \<Rightarrow> s))
      else stream_read (nat (nSize - nSpecialScripts)))"

definition GetSerializeSize_script :: "point_lib \<Rightarrow> CScript \<Rightarrow> nat" where
  "GetSerializeSize_script L script =
    (case Compress L script of
       Some compr \<Rightarrow> length compr
     | None \<Rightarrow> length script + GetSizeOfVarInt (int (length script) + nSpecialScripts))"

section \<open>Amounts\<close>

text \<open>Amounts are unsigned 64-bit numbers here; products wrap around.\<close>

function strip_zeros :: "int \<Rightarrow> nat \<Rightarrow> int \<times> nat" where
  "strip_zeros n e = (if n mod 10 = 0 \<and> e < 9 then strip_zeros (n div 10) (e + 1) else (n, e))"
  by pat_completeness auto
termination
  by (relation "measure (\<lambda>(n, e). 9 - e)") auto

declare strip_zeros.simps [simp del]

definition CompressAmount :: "int \<Rightarrow> int" where
  "CompressAmount n =
    (if n = 0 then 0
     else
       let (n, e) = strip_zeros n 0
       in if e < 9 then let d = n mod 10; n = n div 10 in (1 + (n * 9 + d - 1) * 10 + int e) mod 2 ^ 64
          else (1 + (n - 1) * 10 + 9) mod 2 ^ 64)"

fun add_zeros :: "nat \<Rightarrow> int \<Rightarrow> int" where
  "add_zeros 0 n = n"
| "add_zeros (Suc e) n = add_zeros e (n * 10 mod 2 ^ 64)"

definition DecompressAmount :: "int \<Rightarrow> int" where
  "DecompressAmount x =
    (if x = 0 then 0
     else
       let x = x - 1; e = x mod 10; x = x div 10;
           n = (if e < 9 then let d = x mod 9 + 1; x = x div 9 in (x * 10 + d) mod 2 ^ 64 else (x + 1) mod 2 ^ 64)
       in add_zeros (nat e) n)"

section \<open>Outputs\<close>

definition Serialize_txout :: "point_lib \<Rightarrow> CTxOut \<Rightarrow> bytes" where
  "Serialize_txout L t = WriteVarInt (CompressAmount (nValue t mod 2 ^ 64)) @ Serialize_script L (scriptPubKey t)"

definition Unserialize_txout :: "point_lib \<Rightarrow> CTxOut reader" where
  "Unserialize_txout L =
    rbind (ReadVarInt 64) (\<lambda>nVal. rbind (Unserialize_script L) (\<lambda>s. rret \<lparr>nValue = wrap64 (DecompressAmount nVal), scriptPubKey = s\<rparr>))"

section \<open>Amounts are restored\<close>

lemma strip_zeros_props:
  assumes "strip_zeros n e = (k, f)" "0 < n" "e \<le> 9"
  shows "0 < k \<and> e \<le> f \<and> f \<le> 9 \<and> n = k * 10 ^ (f - e) \<and> (f < 9 \<longrightarrow> k mod 10 \<noteq> 0)"
  using assms
proof (induction n e arbitrary: k f rule: strip_zeros.induct)
  case (1 n e)
  show ?case
  proof (cases "n mod 10 = 0 \<and> e < 9")
    case True
    then have s: "strip_zeros (n div 10) (e + 1) = (k, f)" using 1(2) by (subst (asm) strip_zeros.simps) simp
    have n: "n = 10 * (n div 10)" using True by auto
    then have "0 < n div 10" using 1(3) by linarith
    then have IH: "0 < k" "e + 1 \<le> f" "f \<le> 9" "n div 10 = k * 10 ^ (f - (e + 1))" "f < 9 \<longrightarrow> k mod 10 \<noteq> 0"
      using 1(1) [OF True s] True by auto
    have "(10 :: int) ^ (f - e) = 10 * 10 ^ (f - (e + 1))" using IH(2) by (metis Suc_diff_Suc Suc_eq_plus1 less_eq_Suc_le power_Suc)
    then show ?thesis using IH n by auto
  next
    case False
    then show ?thesis using 1(2-4) by (subst (asm) strip_zeros.simps) auto
  qed
qed

lemma add_zeros_power: "0 \<le> n \<Longrightarrow> n * 10 ^ e < 2 ^ 64 \<Longrightarrow> add_zeros e n = n * 10 ^ e"
proof (induction e arbitrary: n)
  case (Suc e)
  have "n * 10 \<le> n * 10 * 10 ^ e" using Suc.prems(1) by (simp add: mult_le_cancel_left1)
  then have "n * 10 mod 2 ^ 64 = n * 10" using Suc.prems by simp
  then show ?case using Suc by simp
qed simp

lemma DecompressAmount_CompressAmount:
  assumes "0 \<le> n" "n < 2 ^ 60"
  shows "DecompressAmount (CompressAmount n) = n \<and> 0 \<le> CompressAmount n \<and> CompressAmount n < 2 ^ 64"
proof (cases "n = 0")
  case False
  obtain k e where s: "strip_zeros n 0 = (k, e)" by fastforce
  have p: "0 < k" "e \<le> 9" "n = k * 10 ^ e" "e < 9 \<longrightarrow> k mod 10 \<noteq> 0" using strip_zeros_props [OF s] assms False by auto
  have "k \<le> k * 10 ^ e" using p(1) by (simp add: mult_le_cancel_left1)
  then have k: "k < 2 ^ 60" using p(3) assms(2) by linarith
  have z: "add_zeros e k = n" using p assms(2) by (subst add_zeros_power) auto
  show ?thesis
  proof (cases "e < 9")
    case True
    define d q where "d = k mod 10" and "q = k div 10"
    have dq: "k = q * 10 + d" "1 \<le> d" "d \<le> 9" "0 \<le> q" using p True by (auto simp: d_def q_def)
    define x where "x = q * 9 + d - 1"
    have "x = (d - 1) + q * 9" by (simp add: x_def)
    moreover have "((d - 1) + q * 9) mod 9 = d - 1" "((d - 1) + q * 9) div 9 = q" using dq by simp_all
    ultimately have x: "0 \<le> x" "x mod 9 = d - 1" "x div 9 = q" "1 + x * 10 + int e < 2 ^ 64" using dq k True by auto
    have g: "(x * 10 + int e) mod 10 = int e" "(x * 10 + int e) div 10 = x" using True by simp_all
    have c: "CompressAmount n = 1 + x * 10 + int e"
    proof -
      have "CompressAmount n = (1 + x * 10 + int e) mod 2 ^ 64"
        unfolding CompressAmount_def s using False True by (simp only: Let_def case_prod_conv if_True if_False d_def q_def x_def)
      then show ?thesis using x by simp
    qed
    have "CompressAmount n \<noteq> 0" "CompressAmount n - 1 = x * 10 + int e" using c x(1) by auto
    then have "DecompressAmount (CompressAmount n) = add_zeros e (q * 10 + d)"
      using True k dq x(2,3) by (simp add: DecompressAmount_def Let_def g)
    then show ?thesis using z x c dq(1) by simp
  next
    case e9: False
    then have e: "e = 9" using p(2) by simp
    define j where "j = k - 1"
    have j: "0 \<le> j" "j < 2 ^ 60" "k = j + 1" using k p(1) by (auto simp: j_def)
    have c: "CompressAmount n = 1 + j * 10 + 9" using False s e j by (simp add: CompressAmount_def)
    have "(j * 10 + 9) mod 10 = 9" "(j * 10 + 9) div 10 = j" by simp_all
    moreover have "CompressAmount n \<noteq> 0" "CompressAmount n - 1 = j * 10 + 9" using c j(1) by auto
    ultimately have "DecompressAmount (CompressAmount n) = add_zeros 9 k" using j by (simp add: DecompressAmount_def Let_def)
    then show ?thesis using z c e j by simp
  qed
qed (simp add: CompressAmount_def DecompressAmount_def)

section \<open>Scripts are restored\<close>

lemma drop_nth: "i < length s \<Longrightarrow> drop i s = s ! i # drop (Suc i) s"
  by (simp add: Cons_nth_drop_Suc)

lemma drop_block: "drop i s = take k (drop i s) @ drop (i + k) s"
  by (metis append_take_drop_id add.commute drop_drop)

lemma split_25: "length s = 25 \<Longrightarrow> s = s ! 0 # s ! 1 # s ! 2 # take 20 (drop 3 s) @ [s ! 23, s ! 24]"
  using drop_nth [of 0 s] drop_nth [of 1 s] drop_nth [of 2 s] drop_block [of 3 s 20] drop_nth [of 23 s] drop_nth [of 24 s]
  by (simp add: numeral_2_eq_2 numeral_3_eq_3)

lemma split_23: "length s = 23 \<Longrightarrow> s = s ! 0 # s ! 1 # take 20 (drop 2 s) @ [s ! 22]"
  using drop_nth [of 0 s] drop_nth [of 1 s] drop_block [of 2 s 20] drop_nth [of 22 s] by (simp add: numeral_2_eq_2)

lemma split_35: "length s = 35 \<Longrightarrow> s = s ! 0 # s ! 1 # take 32 (drop 2 s) @ [s ! 34]"
  using drop_nth [of 0 s] drop_nth [of 1 s] drop_block [of 2 s 32] drop_nth [of 34 s] by (simp add: numeral_2_eq_2)

lemma split_67: "length s = 67 \<Longrightarrow> s = s ! 0 # take 65 (drop 1 s) @ [s ! 66]"
  using drop_nth [of 0 s] drop_block [of 1 s 65] drop_nth [of 66 s] by simp

text \<open>What is relied on of the library: a valid point is restored from its first coordinate and the parity of the second.\<close>

definition points_ok :: "point_lib \<Rightarrow> bool" where
  "points_ok L \<longleftrightarrow> (\<forall>k. length k = 65 \<longrightarrow> k ! 0 = 4 \<longrightarrow> IsFullyValid L k \<longrightarrow>
    pub_Decompress L ((2 + (k ! 64 AND 1)) # take 32 (drop 1 k)) = Some k)"

lemma Compress_cases:
  assumes "points_ok L" "Compress L s = Some c"
  shows "\<exists>x d. c = word_of_int x # d \<and> 0 \<le> x \<and> x < 6 \<and> length d = GetSpecialSize x \<and> Decompress L x d = Some s"
proof -
  consider h where "IsToKeyID s = Some h" | h where "IsToKeyID s = None" "IsToScriptID s = Some h"
    | k where "IsToKeyID s = None" "IsToScriptID s = None" "IsToPubKey L s = Some k"
    using assms(2) by (auto simp: Compress_def split: option.splits)
  then show ?thesis
  proof cases
    case 1
    then have "c = 0 # h" "length s = 25" "h = take 20 (drop 3 s)" using assms(2) by (auto simp: Compress_def IsToKeyID_def split: if_splits)
    then show ?thesis using 1 split_25 [of s]
      by (intro exI [of _ 0] exI [of _ h]) (simp add: GetSpecialSize_def Decompress_def IsToKeyID_def split: if_splits)
  next
    case 2
    then have "c = 1 # h" "length s = 23" "h = take 20 (drop 2 s)" using assms(2) by (auto simp: Compress_def IsToScriptID_def split: if_splits)
    then show ?thesis using 2 split_23 [of s]
      by (intro exI [of _ 1] exI [of _ h]) (simp add: GetSpecialSize_def Decompress_def IsToScriptID_def split: if_splits)
  next
    case 3
    show ?thesis
    proof (cases "length s = 35")
      case True
      have k: "k = take 33 (drop 1 s)" "s ! 0 = 33" "s ! 34 = OP_CHECKSIG" "s ! 1 = 2 \<or> s ! 1 = 3"
        using 3(3) True by (auto simp: IsToPubKey_def split: if_splits)
      have "k ! 0 = s ! 1" "take 32 (drop 1 k) = take 32 (drop 2 s)" using True k(1) by (simp_all add: take_drop numeral_2_eq_2)
      then have "c = s ! 1 # take 32 (drop 2 s)" using assms(2) 3 k(4) by (auto simp: Compress_def)
      then show ?thesis using True k(2-4) split_35 [OF True]
        by (intro exI [of _ "uint (s ! 1)"] exI [of _ "take 32 (drop 2 s)"]) (auto simp: GetSpecialSize_def Decompress_def)
    next
      case False
      then have l: "length s = 67" and k: "k = take 65 (drop 1 s)" "s ! 0 = 65" "s ! 66 = OP_CHECKSIG" "s ! 1 = 4" "IsFullyValid L k"
        using 3(3) by (auto simp: IsToPubKey_def Let_def split: if_splits)
      have k0: "length k = 65" "k ! 0 = 4" using l k by simp_all
      define x where "x = uint (4 OR (k ! 64 AND 1) :: u8)"
      have c: "c = (4 OR (k ! 64 AND 1)) # take 32 (drop 1 k)" using assms(2) 3 k0 by (simp add: Compress_def)
      have "k ! 64 AND 1 = 0 \<or> k ! 64 AND 1 = 1" by (auto simp: and_one_eq odd_iff_mod_2_eq_one)
      then have x: "x = 4 \<and> word_of_int (x - 2) = (2 + (k ! 64 AND 1) :: u8) \<or> x = 5 \<and> word_of_int (x - 2) = (2 + (k ! 64 AND 1) :: u8)"
        by (auto simp: x_def)
      moreover have "pub_Decompress L ((2 + (k ! 64 AND 1)) # take 32 (drop 1 k)) = Some k"
        using assms(1) k0 k(5) by (simp add: points_ok_def)
      moreover have "s = [65] @ take 65 k @ [OP_CHECKSIG]" using split_67 [OF l] k k0(1) by simp
      ultimately have "Decompress L x (take 32 (drop 1 k)) = Some s" by (auto simp: Decompress_def)
      then show ?thesis using x k0(1) c
        by (intro exI [of _ x] exI [of _ "take 32 (drop 1 k)"]) (auto simp: GetSpecialSize_def x_def)
    qed
  qed
qed

lemma ReadVarInt_small: "0 \<le> x \<Longrightarrow> x < 128 \<Longrightarrow> ReadVarInt 32 (word_of_int x # r) = Inr (x, r)"
  using ReadVarInt_WriteVarInt [of x 32 r] by (simp add: WriteVarInt_def var_digits.simps)

definition script_codec_ok :: "CScript \<Rightarrow> bool" where
  "script_codec_ok s \<longleftrightarrow> int (length s) + 6 < 2 ^ 32"

lemma script_restored:
  assumes "points_ok L" "script_codec_ok s"
  shows "Unserialize_script L (Serialize_script L s @ r) = Inr (s, r)"
proof (cases "Compress L s")
  case None
  then show ?thesis using assms(2)
    by (simp add: Serialize_script_def Unserialize_script_def varint32.read_back nSpecialScripts_def script_codec_ok_def)
next
  case (Some c)
  then obtain x d where x: "c = word_of_int x # d" "0 \<le> x" "x < 6" "length d = GetSpecialSize x" "Decompress L x d = Some s"
    using Compress_cases [OF assms(1)] by blast
  then have "rbind (ReadVarInt 32) f (c @ r) = f x (d @ r)" for f :: "int \<Rightarrow> CScript reader"
    using ReadVarInt_small [of x "d @ r"] by (simp add: rbind_Inr)
  then show ?thesis using x Some by (simp add: Serialize_script_def Unserialize_script_def nSpecialScripts_def)
qed

lemma length_Serialize_script: "length (Serialize_script L s) = GetSerializeSize_script L s"
  by (simp add: Serialize_script_def GetSerializeSize_script_def length_WriteVarInt split: option.splits)

definition txout_codec_ok :: "CTxOut \<Rightarrow> bool" where
  "txout_codec_ok t \<longleftrightarrow> 0 \<le> nValue t \<and> nValue t < 2 ^ 60 \<and> script_codec_ok (scriptPubKey t)"

lemma txout_restored:
  assumes "points_ok L" "txout_codec_ok t"
  shows "Unserialize_txout L (Serialize_txout L t @ r) = Inr (t, r)"
proof -
  have v: "nValue t mod 2 ^ 64 = nValue t" using assms(2) by (simp add: txout_codec_ok_def)
  note a = DecompressAmount_CompressAmount [of "nValue t"]
  have w: "wrap64 (nValue t) = nValue t" using assms(2) by (simp add: wrap64_id is_amount_def txout_codec_ok_def)
  have "rbind (Unserialize_script L) f (Serialize_script L (scriptPubKey t) @ r) = f (scriptPubKey t) r" for f :: "CScript \<Rightarrow> CTxOut reader"
    using assms by (simp add: rbind_Inr script_restored txout_codec_ok_def)
  then show ?thesis unfolding Serialize_txout_def Unserialize_txout_def v
    using assms(2) a w by (simp add: varint64.read_back txout_codec_ok_def)
qed

end
