(* ===== verification/Coins.thy ===== *)
theory Coins
  imports Transactions Script
begin

text \<open>
  The unspent outputs of one transaction (\<^verbatim>\<open>CCoins\<close> of \<^verbatim>\<open>coins.h\<close> and \<^verbatim>\<open>coins.cpp\<close>) and the undo record of one spent
  input (\<^verbatim>\<open>CTxInUndo\<close> of \<^verbatim>\<open>undo.h\<close>): building them from a transaction, spending an output, dropping spent
  outputs at the end. A coins value is clean when its last output, if any, is unspent; every operation
  leaves it clean.
\<close>

section \<open>Coins\<close>

record CCoins =
  fCoinBase :: bool
  fCoinStake :: bool
  coVout :: "CTxOut list"
  coHeight :: int
  coVersion :: int

definition CCoins_new :: CCoins where
  "CCoins_new = \<lparr>fCoinBase = False, fCoinStake = False, coVout = [], coHeight = 0, coVersion = 0\<rparr>"

definition Clear :: "CCoins \<Rightarrow> CCoins" where
  "Clear c = c\<lparr>fCoinBase := False, fCoinStake := False, coVout := [], coHeight := 0, coVersion := 0\<rparr>"

function pop_null :: "CTxOut list \<Rightarrow> CTxOut list" where
  "pop_null v = (if length v > 0 \<and> CTxOut_IsNull (last v) then pop_null (butlast v) else v)"
  by pat_completeness auto
termination
  by (relation "measure length") auto

declare pop_null.simps [simp del]

definition Cleanup :: "CCoins \<Rightarrow> CCoins" where
  "Cleanup c = c\<lparr>coVout := pop_null (coVout c)\<rparr>"

definition ClearUnspendable :: "CCoins \<Rightarrow> CCoins" where
  "ClearUnspendable c =
    Cleanup (c\<lparr>coVout := map (\<lambda>txout. if IsUnspendable (scriptPubKey txout) then CTxOut_SetNull else txout) (coVout c)\<rparr>)"

definition FromTx :: "CTransaction \<Rightarrow> int \<Rightarrow> CCoins" where
  "FromTx tx nHeightIn =
    ClearUnspendable \<lparr>fCoinBase = IsCoinBase tx, fCoinStake = IsCoinStake tx, coVout = vout tx, coHeight = nHeightIn,
      coVersion = txVersion tx\<rparr>"

definition IsAvailable :: "CCoins \<Rightarrow> u32 \<Rightarrow> bool" where
  "IsAvailable c nPos \<longleftrightarrow> unat nPos < length (coVout c) \<and> \<not> CTxOut_IsNull (coVout c ! unat nPos)"

definition IsPruned :: "CCoins \<Rightarrow> bool" where
  "IsPruned c \<longleftrightarrow> list_all CTxOut_IsNull (coVout c)"

definition CCoins_equal :: "CCoins \<Rightarrow> CCoins \<Rightarrow> bool" where
  "CCoins_equal a b \<longleftrightarrow>
    (if IsPruned a \<and> IsPruned b then True
     else fCoinBase a = fCoinBase b \<and> fCoinStake a = fCoinStake b \<and> coHeight a = coHeight b \<and> coVersion a = coVersion b \<and>
       coVout a = coVout b)"

section \<open>Spending an output\<close>

record CTxInUndo =
  txout :: CTxOut
  unCoinBase :: bool
  unCoinStake :: bool
  unHeight :: u32
  unVersion :: int

definition CTxInUndo_of :: "CTxOut \<Rightarrow> CTxInUndo" where
  "CTxInUndo_of t = \<lparr>txout = t, unCoinBase = False, unCoinStake = False, unHeight = 0, unVersion = 0\<rparr>"

definition CTxInUndo_new :: CTxInUndo where
  "CTxInUndo_new = CTxInUndo_of CTxOut_SetNull"

text \<open>
  The position is a signed integer that the code compares with an unsigned size, which makes a negative
  one too large.
\<close>

definition Spend :: "CCoins \<Rightarrow> int \<Rightarrow> CTxInUndo \<Rightarrow> bool \<times> CCoins \<times> CTxInUndo" where
  "Spend c nPos undo =
    (if nPos < 0 \<or> nPos \<ge> int (length (coVout c)) then (False, c, undo)
     else if CTxOut_IsNull (coVout c ! nat nPos) then (False, c, undo)
     else
       let undo = CTxInUndo_of (coVout c ! nat nPos);
           c = Cleanup (c\<lparr>coVout := (coVout c)[nat nPos := CTxOut_SetNull]\<rparr>)
       in (True, c,
           if length (coVout c) = 0 then
             undo\<lparr>unHeight := word_of_int (coHeight c), unCoinBase := fCoinBase c, unCoinStake := fCoinStake c,
               unVersion := coVersion c\<rparr>
           else undo))"

definition Spend_simple :: "CCoins \<Rightarrow> int \<Rightarrow> bool \<times> CCoins" where
  "Spend_simple c nPos = (let (ret, c, undo) = Spend c nPos CTxInUndo_new in (ret, c))"

section \<open>Clean coins\<close>

definition clean :: "CTxOut list \<Rightarrow> bool" where
  "clean v \<longleftrightarrow> v = [] \<or> \<not> CTxOut_IsNull (last v)"

lemma CTxOut_IsNull_SetNull [simp]: "CTxOut_IsNull CTxOut_SetNull"
  by (simp add: CTxOut_IsNull_def CTxOut_SetNull_def)

lemma clean_pop_null [simp]: "clean (pop_null v)"
  by (induction v rule: pop_null.induct) (subst pop_null.simps, auto simp: clean_def)

lemma pop_null_clean: "clean v \<Longrightarrow> pop_null v = v"
  by (subst pop_null.simps) (auto simp: clean_def)

lemma pop_null_idem [simp]: "pop_null (pop_null v) = pop_null v"
  by (simp add: pop_null_clean)

lemma pop_null_split: "\<exists>n. v = pop_null v @ n \<and> list_all CTxOut_IsNull n"
proof (induction v rule: pop_null.induct)
  case (1 v)
  show ?case
  proof (cases "length v > 0 \<and> CTxOut_IsNull (last v)")
    case True
    then obtain n where "butlast v = pop_null (butlast v) @ n" "list_all CTxOut_IsNull n" using 1 by blast
    moreover have "v = butlast v @ [last v]" using True by simp
    ultimately have "v = pop_null (butlast v) @ n @ [last v]" "list_all CTxOut_IsNull (n @ [last v])"
      using True by (metis append.assoc, simp)
    moreover have "pop_null v = pop_null (butlast v)" using True by (subst pop_null.simps) simp
    ultimately show ?thesis by metis
  next
    case False
    then have "pop_null v = v" by (subst pop_null.simps) auto
    then show ?thesis by simp
  qed
qed

lemma pop_null_Nil_iff: "pop_null v = [] \<longleftrightarrow> list_all CTxOut_IsNull v"
proof
  assume "pop_null v = []"
  then show "list_all CTxOut_IsNull v" using pop_null_split [of v] by auto
next
  assume all: "list_all CTxOut_IsNull v"
  obtain n where n: "v = pop_null v @ n" using pop_null_split by blast
  with all have "list_all CTxOut_IsNull (pop_null v)" by (metis list_all_append)
  with clean_pop_null [of v] show "pop_null v = []" unfolding clean_def by (metis last_in_set list_all_iff)
qed

lemma clean_pruned: "clean (coVout c) \<Longrightarrow> IsPruned c \<longleftrightarrow> coVout c = []"
  using pop_null_Nil_iff [of "coVout c"] by (simp add: IsPruned_def pop_null_clean)

lemma IsPruned_Cleanup [simp]: "IsPruned (Cleanup c) = IsPruned c"
  by (simp add: clean_pruned Cleanup_def pop_null_Nil_iff) (simp add: IsPruned_def)

lemma Cleanup_clean: "clean (coVout c) \<Longrightarrow> Cleanup c = c"
  by (simp add: Cleanup_def pop_null_clean)

lemma clean_Cleanup [simp]: "clean (coVout (Cleanup c))"
  by (simp add: Cleanup_def)

lemma clean_FromTx [simp]: "clean (coVout (FromTx tx h))"
  by (simp add: FromTx_def ClearUnspendable_def)

lemma Spend_out_of_range: "coVout c = [] \<Longrightarrow> Spend c n undo = (False, c, undo)"
  by (cases "n < 0") (simp_all add: Spend_def)

end
