(* ===== verification/Coins_View.thy ===== *)
theory Coins_View
  imports Coins "HOL-Library.AList"
begin

text \<open>
  The views on the set of unspent outputs (\<^verbatim>\<open>coins.cpp\<close>, \<^verbatim>\<open>txdb.cpp\<close>): the database at the bottom and memory caches
  stacked on it. A cache reads through to the view below, marks its entries dirty or fresh and writes the
  dirty ones back on a flush. The theory states what a view promises as a locale, shows that the database
  keeps the promise and that a cache over a view that keeps it does so too, and concludes that the
  operations of a cache act on the map of unspent outputs as if there were no caching.
\<close>

section \<open>Cache entries\<close>

definition DIRTY :: u8 where "DIRTY = 1"

definition FRESH :: u8 where "FRESH = 2"

record CCoinsCacheEntry =
  coins :: CCoins
  flags :: u8

definition CCoinsCacheEntry_new :: CCoinsCacheEntry where
  "CCoinsCacheEntry_new = \<lparr>coins = CCoins_new, flags = 0\<rparr>"

abbreviation has_flag :: "CCoinsCacheEntry \<Rightarrow> u8 \<Rightarrow> bool" where
  "has_flag e f \<equiv> flags e AND f \<noteq> 0"

text \<open>The hash map, with its entries in the order in which an iteration meets them.\<close>

type_synonym CCoinsMap = "(u256 \<times> CCoinsCacheEntry) list"

section \<open>Views\<close>

text \<open>
  The virtual methods of a view with states \<open>'v\<close>. Reading may fill caches and so returns a new state; \<open>None\<close>
  of \<open>BatchWrite\<close> is a failed assertion.
\<close>

record 'v CCoinsView =
  vGetCoins :: "'v \<Rightarrow> u256 \<Rightarrow> CCoins option \<times> 'v"
  vGetBestBlock :: "'v \<Rightarrow> u256 \<times> 'v"
  vBatchWrite :: "'v \<Rightarrow> CCoinsMap \<Rightarrow> u256 \<Rightarrow> (bool \<times> 'v) option"

text \<open>The view that the base class itself implements.\<close>

definition CCoinsView_default :: "unit CCoinsView" where
  "CCoinsView_default =
    \<lparr>vGetCoins = \<lambda>v txid. (None, v), vGetBestBlock = \<lambda>v. (0, v), vBatchWrite = \<lambda>v mapCoins hashBlock. Some (False, v)\<rparr>"

section \<open>The database\<close>

text \<open>
  The two kinds of records of the key-value store. A batch is written as a whole. A write that the store refuses
  throws an exception in \<^verbatim>\<open>leveldbwrapper.cpp\<close> and is not represented here: writes of the database succeed.
\<close>

record CCoinsViewDB =
  DB_COINS :: "u256 \<rightharpoonup> CCoins"
  DB_BESTBLOCKHASH :: "u256 option"

definition CCoinsViewDB_GetCoins :: "CCoinsViewDB \<Rightarrow> u256 \<Rightarrow> CCoins option \<times> CCoinsViewDB" where
  "CCoinsViewDB_GetCoins db txid = (DB_COINS db txid, db)"

definition CCoinsViewDB_HaveCoins :: "CCoinsViewDB \<Rightarrow> u256 \<Rightarrow> bool" where
  "CCoinsViewDB_HaveCoins db txid \<longleftrightarrow> DB_COINS db txid \<noteq> None"

definition CCoinsViewDB_GetBestBlock :: "CCoinsViewDB \<Rightarrow> u256 \<times> CCoinsViewDB" where
  "CCoinsViewDB_GetBestBlock db = ((case DB_BESTBLOCKHASH db of None \<Rightarrow> 0 | Some h \<Rightarrow> h), db)"

definition BatchWriteCoins :: "CCoinsViewDB \<Rightarrow> u256 \<Rightarrow> CCoins \<Rightarrow> CCoinsViewDB" where
  "BatchWriteCoins db h c =
    (if IsPruned c then db\<lparr>DB_COINS := (DB_COINS db)(h := None)\<rparr> else db\<lparr>DB_COINS := (DB_COINS db)(h \<mapsto> c)\<rparr>)"

definition BatchWriteHashBestChain :: "CCoinsViewDB \<Rightarrow> u256 \<Rightarrow> CCoinsViewDB" where
  "BatchWriteHashBestChain db h = db\<lparr>DB_BESTBLOCKHASH := Some h\<rparr>"

fun db_batch_loop :: "CCoinsViewDB \<Rightarrow> CCoinsMap \<Rightarrow> CCoinsViewDB" where
  "db_batch_loop db [] = db"
| "db_batch_loop db ((h, e) # mapCoins) =
    db_batch_loop (if has_flag e DIRTY then BatchWriteCoins db h (coins e) else db) mapCoins"

definition CCoinsViewDB_BatchWrite :: "CCoinsViewDB \<Rightarrow> CCoinsMap \<Rightarrow> u256 \<Rightarrow> (bool \<times> CCoinsViewDB) option" where
  "CCoinsViewDB_BatchWrite db mapCoins hashBlock =
    (let db = db_batch_loop db mapCoins
     in Some (True, if hashBlock \<noteq> 0 then BatchWriteHashBestChain db hashBlock else db))"

definition CCoinsViewDB_view :: "CCoinsViewDB CCoinsView" where
  "CCoinsViewDB_view =
    \<lparr>vGetCoins = CCoinsViewDB_GetCoins, vGetBestBlock = CCoinsViewDB_GetBestBlock, vBatchWrite = CCoinsViewDB_BatchWrite\<rparr>"

section \<open>Caches\<close>

record 'v CCoinsViewCache =
  base :: 'v
  hasModifier :: bool
  hashBlock :: u256
  cacheCoins :: CCoinsMap

definition CCoinsViewCache_new :: "'v \<Rightarrow> 'v CCoinsViewCache" where
  "CCoinsViewCache_new baseIn = \<lparr>base = baseIn, hasModifier = False, hashBlock = 0, cacheCoins = []\<rparr>"

definition FetchCoins ::
  "'v CCoinsView \<Rightarrow> 'v CCoinsViewCache \<Rightarrow> u256 \<Rightarrow> CCoinsCacheEntry option \<times> 'v CCoinsViewCache" where
  "FetchCoins B v txid =
    (case map_of (cacheCoins v) txid of
       Some it \<Rightarrow> (Some it, v)
     | None \<Rightarrow>
         let (tmp, b) = vGetCoins B (base v) txid; v = v\<lparr>base := b\<rparr>
         in case tmp of
              None \<Rightarrow> (None, v)
            | Some c \<Rightarrow>
                let ret = CCoinsCacheEntry_new\<lparr>coins := c\<rparr>;
                    ret = (if IsPruned (coins ret) then ret\<lparr>flags := FRESH\<rparr> else ret)
                in (Some ret, v\<lparr>cacheCoins := AList.update txid ret (cacheCoins v)\<rparr>))"

definition GetCoins :: "'v CCoinsView \<Rightarrow> 'v CCoinsViewCache \<Rightarrow> u256 \<Rightarrow> CCoins option \<times> 'v CCoinsViewCache" where
  "GetCoins B v txid = (let (it, v) = FetchCoins B v txid in (map_option coins it, v))"

definition AccessCoins :: "'v CCoinsView \<Rightarrow> 'v CCoinsViewCache \<Rightarrow> u256 \<Rightarrow> CCoins option \<times> 'v CCoinsViewCache" where
  "AccessCoins B v txid = (let (it, v) = FetchCoins B v txid in (case it of None \<Rightarrow> None | Some e \<Rightarrow> Some (coins e), v))"

definition HaveCoins :: "'v CCoinsView \<Rightarrow> 'v CCoinsViewCache \<Rightarrow> u256 \<Rightarrow> bool \<times> 'v CCoinsViewCache" where
  "HaveCoins B v txid =
    (let (it, v) = FetchCoins B v txid in (case it of None \<Rightarrow> False | Some e \<Rightarrow> coVout (coins e) \<noteq> [], v))"

definition GetBestBlock :: "'v CCoinsView \<Rightarrow> 'v CCoinsViewCache \<Rightarrow> u256 \<times> 'v CCoinsViewCache" where
  "GetBestBlock B v =
    (let v = (if hashBlock v = 0 then let (h, b) = vGetBestBlock B (base v) in v\<lparr>base := b, hashBlock := h\<rparr> else v)
     in (hashBlock v, v))"

definition SetBestBlock :: "'v CCoinsViewCache \<Rightarrow> u256 \<Rightarrow> 'v CCoinsViewCache" where
  "SetBestBlock v hashBlockIn = v\<lparr>hashBlock := hashBlockIn\<rparr>"

text \<open>
  \<^verbatim>\<open>ModifyCoins\<close> together with the constructor of the modifier: the entry is in the cache afterwards. The
  destructor cleans the entry up and drops it when it need not be written back.
\<close>

definition ModifyCoins :: "'v CCoinsView \<Rightarrow> 'v CCoinsViewCache \<Rightarrow> u256 \<Rightarrow> 'v CCoinsViewCache option" where
  "ModifyCoins B v txid =
    (if hasModifier v then None
     else
       let (e, v) =
         (case map_of (cacheCoins v) txid of
            Some e \<Rightarrow> (e, v)
          | None \<Rightarrow>
              let (r, b) = vGetCoins B (base v) txid
              in (case r of
                    None \<Rightarrow> \<lparr>coins = Clear CCoins_new, flags = FRESH\<rparr>
                  | Some c \<Rightarrow> if IsPruned c then \<lparr>coins = c, flags = FRESH\<rparr> else \<lparr>coins = c, flags = 0\<rparr>,
                  v\<lparr>base := b\<rparr>))
       in Some (v\<lparr>cacheCoins := AList.update txid (e\<lparr>flags := flags e OR DIRTY\<rparr>) (cacheCoins v), hasModifier := True\<rparr>))"

definition CCoinsModifier_destroy :: "'v CCoinsViewCache \<Rightarrow> u256 \<Rightarrow> 'v CCoinsViewCache option" where
  "CCoinsModifier_destroy v txid =
    (if \<not> hasModifier v then None
     else
       let e = the (map_of (cacheCoins v) txid); e = e\<lparr>coins := Cleanup (coins e)\<rparr>
       in Some (v\<lparr>hasModifier := False,
            cacheCoins :=
              (if has_flag e FRESH \<and> IsPruned (coins e) then AList.delete txid (cacheCoins v)
               else AList.update txid e (cacheCoins v))\<rparr>))"

text \<open>The life of a modifier: create it, change the coins through it, destroy it.\<close>

definition modify_with ::
  "'v CCoinsView \<Rightarrow> 'v CCoinsViewCache \<Rightarrow> u256 \<Rightarrow> (CCoins \<Rightarrow> 'r \<times> CCoins) \<Rightarrow> ('r \<times> 'v CCoinsViewCache) option" where
  "modify_with B v txid f =
    Option.bind (ModifyCoins B v txid) (\<lambda>v.
      let e = the (map_of (cacheCoins v) txid); (r, c) = f (coins e)
      in Option.bind (CCoinsModifier_destroy (v\<lparr>cacheCoins := AList.update txid (e\<lparr>coins := c\<rparr>) (cacheCoins v)\<rparr>) txid)
           (\<lambda>v. Some (r, v)))"

fun cache_batch_loop :: "CCoinsMap \<Rightarrow> CCoinsMap \<Rightarrow> CCoinsMap option" where
  "cache_batch_loop cache [] = Some cache"
| "cache_batch_loop cache ((h, it) # mapCoins) =
    (if has_flag it DIRTY then
       case map_of cache h of
         None \<Rightarrow>
           if \<not> IsPruned (coins it) then
             if \<not> has_flag it FRESH then None
             else cache_batch_loop (AList.update h \<lparr>coins = coins it, flags = DIRTY OR FRESH\<rparr> cache) mapCoins
           else cache_batch_loop cache mapCoins
       | Some itUs \<Rightarrow>
           if has_flag itUs FRESH \<and> IsPruned (coins it) then cache_batch_loop (AList.delete h cache) mapCoins
           else cache_batch_loop (AList.update h \<lparr>coins = coins it, flags = flags itUs OR DIRTY\<rparr> cache) mapCoins
     else cache_batch_loop cache mapCoins)"

definition BatchWrite :: "'v CCoinsViewCache \<Rightarrow> CCoinsMap \<Rightarrow> u256 \<Rightarrow> (bool \<times> 'v CCoinsViewCache) option" where
  "BatchWrite v mapCoins hashBlockIn =
    (if hasModifier v then None
     else map_option (\<lambda>cache. (True, v\<lparr>cacheCoins := cache, hashBlock := hashBlockIn\<rparr>))
       (cache_batch_loop (cacheCoins v) mapCoins))"

definition Flush :: "'v CCoinsView \<Rightarrow> 'v CCoinsViewCache \<Rightarrow> (bool \<times> 'v CCoinsViewCache) option" where
  "Flush B v =
    map_option (\<lambda>(fOk, b). (fOk, v\<lparr>base := b, cacheCoins := []\<rparr>)) (vBatchWrite B (base v) (cacheCoins v) (hashBlock v))"

definition GetCacheSize :: "'v CCoinsViewCache \<Rightarrow> nat" where
  "GetCacheSize v = length (cacheCoins v)"

definition CCoinsViewCache_view :: "'v CCoinsView \<Rightarrow> 'v CCoinsViewCache CCoinsView" where
  "CCoinsViewCache_view B = \<lparr>vGetCoins = GetCoins B, vGetBestBlock = GetBestBlock B, vBatchWrite = BatchWrite\<rparr>"

section \<open>Reading the inputs of a transaction\<close>

definition GetOutputFor :: "'v CCoinsView \<Rightarrow> 'v CCoinsViewCache \<Rightarrow> CTxIn \<Rightarrow> (CTxOut \<times> 'v CCoinsViewCache) option" where
  "GetOutputFor B v input =
    (case AccessCoins B v (op_hash (prevout input)) of
       (None, v) \<Rightarrow> None
     | (Some c, v) \<Rightarrow>
         if IsAvailable c (op_n (prevout input)) then Some (coVout c ! unat (op_n (prevout input)), v) else None)"

fun value_in_loop :: "'v CCoinsView \<Rightarrow> 'v CCoinsViewCache \<Rightarrow> int \<Rightarrow> CTxIn list \<Rightarrow> (int \<times> 'v CCoinsViewCache) option" where
  "value_in_loop B v nResult [] = Some (nResult, v)"
| "value_in_loop B v nResult (i # is) =
    Option.bind (GetOutputFor B v i) (\<lambda>(out, v). value_in_loop B v (wrap64 (nResult + nValue out)) is)"

definition GetValueIn :: "'v CCoinsView \<Rightarrow> 'v CCoinsViewCache \<Rightarrow> CTransaction \<Rightarrow> (int \<times> 'v CCoinsViewCache) option" where
  "GetValueIn B v tx = (if IsCoinBase tx then Some (0, v) else value_in_loop B v 0 (vin tx))"

fun have_inputs_loop :: "'v CCoinsView \<Rightarrow> 'v CCoinsViewCache \<Rightarrow> CTxIn list \<Rightarrow> bool \<times> 'v CCoinsViewCache" where
  "have_inputs_loop B v [] = (True, v)"
| "have_inputs_loop B v (i # is) =
    (let (c, v) = AccessCoins B v (op_hash (prevout i))
     in case c of
          None \<Rightarrow> (False, v)
        | Some c \<Rightarrow> if IsAvailable c (op_n (prevout i)) then have_inputs_loop B v is else (False, v))"

definition HaveInputs :: "'v CCoinsView \<Rightarrow> 'v CCoinsViewCache \<Rightarrow> CTransaction \<Rightarrow> bool \<times> 'v CCoinsViewCache" where
  "HaveInputs B v tx = (if \<not> IsCoinBase tx then have_inputs_loop B v (vin tx) else (True, v))"

section \<open>Sequences of operations\<close>

text \<open>
  The ways in which the node uses a cache: look coins up, add the outputs of a transaction, spend one
  output, remove a transaction, set the best block and flush.
\<close>

datatype coins_op =
    op_Get u256
  | op_Have u256
  | op_Add CTransaction int
  | op_Spend u256 int
  | op_Remove u256
  | op_SetBest u256
  | op_Flush

datatype coins_result = Done | Got "CCoins option" | Having bool | Spent bool CTxInUndo | Flushed bool

definition unpruned :: "CCoins \<Rightarrow> CCoins option" where
  "unpruned c = (if IsPruned c then None else Some c)"

fun coins_step :: "'v CCoinsView \<Rightarrow> 'v CCoinsViewCache \<Rightarrow> coins_op \<Rightarrow> (coins_result \<times> 'v CCoinsViewCache) option" where
  "coins_step B v (op_Get k) = (let (r, v) = GetCoins B v k in Some (Got (Option.bind r unpruned), v))"
| "coins_step B v (op_Have k) = (let (r, v) = HaveCoins B v k in Some (Having r, v))"
| "coins_step B v (op_Add tx h) = modify_with B v (tx_hash tx) (\<lambda>c. (Done, FromTx tx h))"
| "coins_step B v (op_Spend k n) = modify_with B v k (\<lambda>c. let (r, c, undo) = Spend c n CTxInUndo_new in (Spent r undo, c))"
| "coins_step B v (op_Remove k) = modify_with B v k (\<lambda>c. (Done, Clear c))"
| "coins_step B v (op_SetBest h) = Some (Done, SetBestBlock v h)"
| "coins_step B v op_Flush = map_option (\<lambda>(r, v). (Flushed r, v)) (Flush B v)"

fun coins_run ::
  "'v CCoinsView \<Rightarrow> 'v CCoinsViewCache \<Rightarrow> coins_op list \<Rightarrow> (coins_result list \<times> 'v CCoinsViewCache) option" where
  "coins_run B v [] = Some ([], v)"
| "coins_run B v (x # xs) =
    Option.bind (coins_step B v x) (\<lambda>(r, v). map_option (\<lambda>(rs, v). (r # rs, v)) (coins_run B v xs))"

text \<open>The same operations on a plain map of unspent outputs.\<close>

fun utxo_step :: "(u256 \<rightharpoonup> CCoins) \<Rightarrow> coins_op \<Rightarrow> coins_result \<times> (u256 \<rightharpoonup> CCoins)" where
  "utxo_step U (op_Get k) = (Got (U k), U)"
| "utxo_step U (op_Have k) = (Having (U k \<noteq> None), U)"
| "utxo_step U (op_Add tx h) = (Done, U(tx_hash tx := unpruned (FromTx tx h)))"
| "utxo_step U (op_Spend k n) =
    (case U k of
       None \<Rightarrow> (Spent False CTxInUndo_new, U)
     | Some c \<Rightarrow> let (r, c, undo) = Spend c n CTxInUndo_new in (Spent r undo, U(k := unpruned c)))"
| "utxo_step U (op_Remove k) = (Done, U(k := None))"
| "utxo_step U (op_SetBest h) = (Done, U)"
| "utxo_step U op_Flush = (Flushed True, U)"

fun utxo_run :: "(u256 \<rightharpoonup> CCoins) \<Rightarrow> coins_op list \<Rightarrow> coins_result list \<times> (u256 \<rightharpoonup> CCoins)" where
  "utxo_run U [] = ([], U)"
| "utxo_run U (x # xs) = (let (r, U) = utxo_step U x; (rs, U) = utxo_run U xs in (r # rs, U))"

text \<open>The node keeps one cache over the database and a short-lived one over that; this flushes both.\<close>

definition flush_both :: "CCoinsViewDB CCoinsViewCache CCoinsViewCache \<Rightarrow> CCoinsViewDB option" where
  "flush_both v =
    Option.bind (Flush (CCoinsViewCache_view CCoinsViewDB_view) v)
      (\<lambda>(fOk, v). map_option (\<lambda>(fOk, tip). base tip) (Flush CCoinsViewDB_view (base v)))"

section \<open>What a view promises\<close>

text \<open>
  The abstract state of a view is the map from transactions to their coins, where fully spent coins are
  absent. A set of cache entries over a view is consistent when fresh entries are absent below, the others
  have been read from below, and clean entries agree with what is below.
\<close>

definition overlay :: "(u256 \<rightharpoonup> CCoins) \<Rightarrow> CCoinsMap \<Rightarrow> u256 \<rightharpoonup> CCoins" where
  "overlay U m k = (case map_of m k of None \<Rightarrow> U k | Some e \<Rightarrow> unpruned (coins e))"

definition entry_ok :: "CCoins option \<Rightarrow> bool \<Rightarrow> CCoinsCacheEntry \<Rightarrow> bool" where
  "entry_ok below was_read e \<longleftrightarrow>
    clean (coVout (coins e)) \<and> (has_flag e FRESH \<longrightarrow> below = None) \<and> (\<not> has_flag e FRESH \<longrightarrow> was_read) \<and>
    (\<not> has_flag e DIRTY \<longrightarrow> unpruned (coins e) = below)"

definition batch_ok :: "(u256 \<rightharpoonup> CCoins) \<Rightarrow> (u256 \<Rightarrow> bool) \<Rightarrow> CCoinsMap \<Rightarrow> bool" where
  "batch_ok U loaded m \<longleftrightarrow> distinct (map fst m) \<and> (\<forall>k e. map_of m k = Some e \<longrightarrow> entry_ok (U k) (loaded k) e)"

definition same_view ::
  "('v \<Rightarrow> u256 \<rightharpoonup> CCoins) \<Rightarrow> ('v \<Rightarrow> u256) \<Rightarrow> ('v \<Rightarrow> bool) \<Rightarrow> ('v \<Rightarrow> u256 \<Rightarrow> bool) \<Rightarrow> 'v \<Rightarrow> 'v \<Rightarrow> bool" where
  "same_view utxo best ok loaded v v' \<longleftrightarrow>
    ok v' \<and> utxo v' = utxo v \<and> best v' = best v \<and> (\<forall>k. loaded v k \<longrightarrow> loaded v' k)"

locale coins_view =
  fixes B :: "'v CCoinsView" and utxo :: "'v \<Rightarrow> u256 \<rightharpoonup> CCoins" and best :: "'v \<Rightarrow> u256" and ok :: "'v \<Rightarrow> bool"
    and loaded :: "'v \<Rightarrow> u256 \<Rightarrow> bool"
  assumes utxo_ok: "ok v \<Longrightarrow> utxo v k = Some c \<Longrightarrow> clean (coVout c) \<and> \<not> IsPruned c"
    and get_law: "ok v \<Longrightarrow> vGetCoins B v k = (r, v') \<Longrightarrow>
      same_view utxo best ok loaded v v' \<and> Option.bind r unpruned = utxo v k \<and> (\<forall>c. r = Some c \<longrightarrow> clean (coVout c) \<and> loaded v' k)"
    and best_law: "ok v \<Longrightarrow> vGetBestBlock B v = (h, v') \<Longrightarrow> same_view utxo best ok loaded v v' \<and> h = best v"
    and batch_law: "ok v \<Longrightarrow> batch_ok (utxo v) (loaded v) m \<Longrightarrow>
      \<exists>v'. vBatchWrite B v m h = Some (True, v') \<and> ok v' \<and> utxo v' = overlay (utxo v) m \<and> (h \<noteq> 0 \<longrightarrow> best v' = h)"

section \<open>Entries\<close>

lemma flag_simps [simp]:
  "(f OR DIRTY) AND FRESH = f AND FRESH" "(f OR DIRTY) AND DIRTY \<noteq> 0" "(DIRTY OR FRESH) AND FRESH \<noteq> 0"
  "FRESH \<noteq> 0" "DIRTY \<noteq> 0" "FRESH AND DIRTY = 0"
  by (simp_all add: DIRTY_def FRESH_def bit.conj_disj_distrib2 bit.disj_conj_distrib2 and.commute)

lemma unpruned_Cleanup_None: "unpruned (Cleanup c) = None \<longleftrightarrow> IsPruned c"
  by (simp add: unpruned_def)

lemma overlay_update [simp]: "overlay U (AList.update k e m) = (overlay U m)(k := unpruned (coins e))"
  by (rule ext) (simp add: overlay_def update_conv')

lemma overlay_delete [simp]: "overlay U (AList.delete k m) = (overlay U m)(k := U k)"
  by (rule ext) (simp add: overlay_def delete_conv')

lemma overlay_Nil [simp]: "overlay U [] = U"
  by (rule ext) (simp add: overlay_def)

lemma batch_ok_Nil [simp]: "batch_ok U loaded []"
  by (simp add: batch_ok_def)

lemma batch_ok_update: "batch_ok U loaded m \<Longrightarrow> entry_ok (U k) (loaded k) e \<Longrightarrow> batch_ok U loaded (AList.update k e m)"
  by (auto simp: batch_ok_def update_conv' distinct_update)

lemma batch_ok_delete: "batch_ok U loaded m \<Longrightarrow> batch_ok U loaded (AList.delete k m)"
  by (auto simp: batch_ok_def delete_conv' distinct_delete split: if_splits)

lemma batch_ok_entry: "batch_ok U loaded m \<Longrightarrow> map_of m k = Some e \<Longrightarrow> entry_ok (U k) (loaded k) e"
  by (simp add: batch_ok_def)

lemma batch_ok_Cons:
  assumes "batch_ok U loaded ((h, it) # m)"
  shows "entry_ok (U h) (loaded h) it" "map_of m h = None" "batch_ok U loaded m"
proof -
  show none: "map_of m h = None" using assms by (auto simp: batch_ok_def map_of_eq_None_iff)
  show "entry_ok (U h) (loaded h) it" using batch_ok_entry [OF assms, of h it] by simp
  have "entry_ok (U k) (loaded k) e" if "map_of m k = Some e" for k e
    using batch_ok_entry [OF assms, of k e] that none by (cases "k = h") auto
  then show "batch_ok U loaded m" using assms by (auto simp: batch_ok_def)
qed

lemma batch_ok_cong:
  assumes "batch_ok U loaded m" "map_of m h = None" "\<And>k. k \<noteq> h \<Longrightarrow> U' k = U k \<and> loaded' k = loaded k"
  shows "batch_ok U' loaded' m"
proof -
  have "entry_ok (U' k) (loaded' k) e" if "map_of m k = Some e" for k e
    using batch_ok_entry [OF assms(1) that] assms(2,3) that by (cases "k = h") auto
  then show ?thesis using assms(1) by (simp add: batch_ok_def)
qed

section \<open>Writing a batch into a cache\<close>

lemma cache_batch_step:
  assumes cache: "batch_ok U loaded cache"
    and it: "entry_ok (overlay U cache h) (map_of cache h \<noteq> None) it"
  shows "\<exists>cache'. cache_batch_loop cache ((h, it) # m) = cache_batch_loop cache' m \<and>
    overlay U cache' = (overlay U cache)(h := unpruned (coins it)) \<and> batch_ok U loaded cache' \<and>
    (\<forall>k. k \<noteq> h \<longrightarrow> map_of cache' k = map_of cache k)"
proof (cases "has_flag it DIRTY")
  case False
  then have "overlay U cache h = unpruned (coins it)" using it by (simp add: entry_ok_def)
  then have "(overlay U cache)(h := unpruned (coins it)) = overlay U cache" by (metis fun_upd_triv)
  with False cache show ?thesis by (intro exI [of _ cache]) simp
next
  case dirty: True
  show ?thesis
  proof (cases "map_of cache h")
    case None
    then have fresh: "has_flag it FRESH" "overlay U cache h = None" using it by (auto simp: entry_ok_def)
    then have "U h = None" using None by (simp add: overlay_def)
    show ?thesis
    proof (cases "IsPruned (coins it)")
      case True
      then have "(overlay U cache)(h := unpruned (coins it)) = overlay U cache"
        using fresh by (simp add: unpruned_def fun_upd_idem)
      with True None dirty cache show ?thesis by (intro exI [of _ cache]) simp
    next
      case False
      let ?e = "\<lparr>coins = coins it, flags = DIRTY OR FRESH\<rparr>"
      have "entry_ok (U h) (loaded h) ?e" using it \<open>U h = None\<close> by (simp add: entry_ok_def or.commute [of DIRTY])
      with False None dirty fresh cache show ?thesis
        by (intro exI [of _ "AList.update h ?e cache"]) (simp add: batch_ok_update update_conv')
    qed
  next
    case (Some us)
    note us = batch_ok_entry [OF cache Some]
    show ?thesis
    proof (cases "has_flag us FRESH \<and> IsPruned (coins it)")
      case True
      then have "U h = unpruned (coins it)" using us by (simp add: entry_ok_def unpruned_def)
      with True Some dirty cache show ?thesis
        by (intro exI [of _ "AList.delete h cache"]) (simp add: batch_ok_delete delete_conv')
    next
      case False
      let ?e = "\<lparr>coins = coins it, flags = flags us OR DIRTY\<rparr>"
      have "entry_ok (U h) (loaded h) ?e" using it us by (simp add: entry_ok_def)
      with False Some dirty cache show ?thesis
        by (intro exI [of _ "AList.update h ?e cache"]) (auto simp: batch_ok_update update_conv')
    qed
  qed
qed

lemma cache_batch_loop_ok:
  "batch_ok U loaded cache \<Longrightarrow> batch_ok (overlay U cache) (\<lambda>k. map_of cache k \<noteq> None) m \<Longrightarrow>
   \<exists>cache'. cache_batch_loop cache m = Some cache' \<and> overlay U cache' = overlay (overlay U cache) m \<and> batch_ok U loaded cache'"
proof (induction m arbitrary: cache)
  case (Cons x m)
  obtain h it where x: "x = (h, it)" by fastforce
  note m = batch_ok_Cons [OF Cons.prems(2) [unfolded x]]
  obtain c where c: "cache_batch_loop cache ((h, it) # m) = cache_batch_loop c m"
    "overlay U c = (overlay U cache)(h := unpruned (coins it))" "batch_ok U loaded c"
    "\<forall>k. k \<noteq> h \<longrightarrow> map_of c k = map_of cache k"
    using cache_batch_step [OF Cons.prems(1) m(1)] by blast
  have "batch_ok (overlay U c) (\<lambda>k. map_of c k \<noteq> None) m"
    using m(3,2) by (rule batch_ok_cong) (use c in auto)
  from Cons.IH [OF c(3) this] obtain c' where "cache_batch_loop c m = Some c'" "batch_ok U loaded c'"
    "overlay U c' = overlay (overlay U c) m" by blast
  moreover have "overlay (overlay U c) m = overlay (overlay U cache) (x # m)"
    by (rule ext) (use m(2) c(2) x in \<open>auto simp: overlay_def split: option.splits\<close>)
  ultimately show ?case using c(1) x by auto
qed simp

section \<open>The database keeps the promise\<close>

definition db_best :: "CCoinsViewDB \<Rightarrow> u256" where
  "db_best db = (case DB_BESTBLOCKHASH db of None \<Rightarrow> 0 | Some h \<Rightarrow> h)"

definition db_ok :: "CCoinsViewDB \<Rightarrow> bool" where
  "db_ok db \<longleftrightarrow> (\<forall>k c. DB_COINS db k = Some c \<longrightarrow> clean (coVout c) \<and> \<not> IsPruned c)"

lemma db_batch_loop_coins:
  "db_ok db \<Longrightarrow> batch_ok (DB_COINS db) (\<lambda>_. True) m \<Longrightarrow>
   db_ok (db_batch_loop db m) \<and> DB_COINS (db_batch_loop db m) = overlay (DB_COINS db) m \<and>
   DB_BESTBLOCKHASH (db_batch_loop db m) = DB_BESTBLOCKHASH db"
proof (induction m arbitrary: db)
  case (Cons x m)
  obtain h it where x: "x = (h, it)" by fastforce
  note m = batch_ok_Cons [OF Cons.prems(2) [unfolded x]]
  define d where "d = (if has_flag it DIRTY then BatchWriteCoins db h (coins it) else db)"
  have coins: "DB_COINS d = (DB_COINS db)(h := unpruned (coins it))"
    using m(1) by (auto simp: d_def BatchWriteCoins_def unpruned_def entry_ok_def fun_upd_idem)
  have best: "DB_BESTBLOCKHASH d = DB_BESTBLOCKHASH db" by (simp add: d_def BatchWriteCoins_def)
  have ok: "db_ok d" using Cons.prems(1) m(1) by (auto simp: db_ok_def coins unpruned_def entry_ok_def)
  have "batch_ok (DB_COINS d) (\<lambda>_. True) m" using m(3,2) by (rule batch_ok_cong) (simp add: coins)
  note IH = Cons.IH [OF ok this]
  have "overlay (DB_COINS d) m = overlay (DB_COINS db) (x # m)"
    by (rule ext) (use m(2) coins x in \<open>auto simp: overlay_def split: option.splits\<close>)
  then show ?case using IH best by (simp add: x d_def)
qed simp

interpretation db: coins_view CCoinsViewDB_view DB_COINS db_best db_ok "\<lambda>_ _. True"
proof
  fix v k c assume "db_ok v" "DB_COINS v k = Some c"
  then show "clean (coVout c) \<and> \<not> IsPruned c" by (auto simp: db_ok_def)
next
  fix v k r v' assume "db_ok v" "vGetCoins CCoinsViewDB_view v k = (r, v')"
  then show "same_view DB_COINS db_best db_ok (\<lambda>_ _. True) v v' \<and> Option.bind r unpruned = DB_COINS v k \<and>
      (\<forall>c. r = Some c \<longrightarrow> clean (coVout c) \<and> True)"
    by (cases r) (auto simp: CCoinsViewDB_view_def CCoinsViewDB_GetCoins_def same_view_def db_ok_def unpruned_def)
next
  fix v h v' assume "db_ok v" "vGetBestBlock CCoinsViewDB_view v = (h, v')"
  then show "same_view DB_COINS db_best db_ok (\<lambda>_ _. True) v v' \<and> h = db_best v"
    by (auto simp: CCoinsViewDB_view_def CCoinsViewDB_GetBestBlock_def same_view_def db_best_def)
next
  fix v m h assume "db_ok v" "batch_ok (DB_COINS v) (\<lambda>_. True) m"
  from db_batch_loop_coins [OF this]
  show "\<exists>v'. vBatchWrite CCoinsViewDB_view v m h = Some (True, v') \<and> db_ok v' \<and> DB_COINS v' = overlay (DB_COINS v) m \<and>
      (h \<noteq> 0 \<longrightarrow> db_best v' = h)"
    by (auto simp: CCoinsViewDB_view_def CCoinsViewDB_BatchWrite_def BatchWriteHashBestChain_def db_ok_def db_best_def Let_def)
qed

section \<open>A cache keeps the promise if the view below does\<close>

definition cache_utxo :: "('v \<Rightarrow> u256 \<rightharpoonup> CCoins) \<Rightarrow> 'v CCoinsViewCache \<Rightarrow> u256 \<rightharpoonup> CCoins" where
  "cache_utxo utxo v = overlay (utxo (base v)) (cacheCoins v)"

definition cache_best :: "('v \<Rightarrow> u256) \<Rightarrow> 'v CCoinsViewCache \<Rightarrow> u256" where
  "cache_best best v = (if hashBlock v = 0 then best (base v) else hashBlock v)"

definition coins_cache_ok ::
  "('v \<Rightarrow> u256 \<rightharpoonup> CCoins) \<Rightarrow> ('v \<Rightarrow> bool) \<Rightarrow> ('v \<Rightarrow> u256 \<Rightarrow> bool) \<Rightarrow> 'v CCoinsViewCache \<Rightarrow> bool" where
  "coins_cache_ok utxo ok loaded v \<longleftrightarrow>
    ok (base v) \<and> \<not> hasModifier v \<and> batch_ok (utxo (base v)) (loaded (base v)) (cacheCoins v)"

definition cache_loaded :: "'v CCoinsViewCache \<Rightarrow> u256 \<Rightarrow> bool" where
  "cache_loaded v k \<longleftrightarrow> map_of (cacheCoins v) k \<noteq> None"

lemma batch_ok_mono: "batch_ok U loaded m \<Longrightarrow> (\<And>k. loaded k \<Longrightarrow> loaded' k) \<Longrightarrow> batch_ok U loaded' m"
  by (auto simp: batch_ok_def entry_ok_def)

context coins_view begin

abbreviation "U \<equiv> cache_utxo utxo"
abbreviation "C \<equiv> coins_cache_ok utxo ok loaded"
abbreviation "same \<equiv> same_view U (cache_best best) C cache_loaded"

lemma cache_utxo_ok: "C v \<Longrightarrow> U v k = Some c \<Longrightarrow> clean (coVout c) \<and> \<not> IsPruned c"
  using utxo_ok [of "base v" k c] batch_ok_entry [of "utxo (base v)" "loaded (base v)" "cacheCoins v" k]
  by (auto simp: coins_cache_ok_def cache_utxo_def overlay_def unpruned_def entry_ok_def split: option.splits if_splits)

lemma same_refl: "C v \<Longrightarrow> same v v"
  by (simp add: same_view_def)

lemma same_base:
  assumes "C v" "same_view utxo best ok loaded (base v) b"
  shows "same v (v\<lparr>base := b\<rparr>)"
  using assms
  by (auto simp: same_view_def coins_cache_ok_def cache_utxo_def cache_best_def cache_loaded_def elim: batch_ok_mono)

lemma same_insert:
  assumes "C v" "map_of (cacheCoins v) k = None" "entry_ok (utxo (base v) k) (loaded (base v) k) e"
    "unpruned (coins e) = utxo (base v) k"
  shows "same v (v\<lparr>cacheCoins := AList.update k e (cacheCoins v)\<rparr>)"
proof -
  have "overlay (utxo (base v)) (cacheCoins v) k = unpruned (coins e)" using assms by (simp add: overlay_def)
  then have "(overlay (utxo (base v)) (cacheCoins v))(k := unpruned (coins e)) = overlay (utxo (base v)) (cacheCoins v)"
    by (rule fun_upd_idem)
  then show ?thesis using assms
    by (auto simp: same_view_def coins_cache_ok_def cache_utxo_def cache_best_def cache_loaded_def batch_ok_update update_conv')
qed

lemma same_trans: "same u v \<Longrightarrow> same v w \<Longrightarrow> same u w"
  by (simp add: same_view_def)

lemma FetchCoins_ok:
  assumes "C v" "FetchCoins B v k = (r, v')"
  shows "same v v'" "map_of (cacheCoins v') k = r" "r = None \<longrightarrow> U v k = None"
    "r = Some e \<Longrightarrow> clean (coVout (coins e)) \<and> unpruned (coins e) = U v k"
proof -
  have main: "same v v' \<and> map_of (cacheCoins v') k = r \<and>
    (case r of None \<Rightarrow> U v k = None | Some e \<Rightarrow> clean (coVout (coins e)) \<and> unpruned (coins e) = U v k)"
  proof (cases "map_of (cacheCoins v) k")
    case (Some it)
    have "entry_ok (utxo (base v) k) (loaded (base v) k) it"
      using assms(1) Some by (auto simp: coins_cache_ok_def elim: batch_ok_entry)
    moreover have "r = Some it" "v' = v" using assms(2) Some by (simp_all add: FetchCoins_def)
    ultimately show ?thesis using Some same_refl [OF assms(1)] by (simp add: cache_utxo_def overlay_def entry_ok_def)
  next
    case None
    obtain tmp b where get: "vGetCoins B (base v) k = (tmp, b)" by fastforce
    have "ok (base v)" using assms(1) by (simp add: coins_cache_ok_def)
    note law = get_law [OF this get]
    define w where "w = v\<lparr>base := b\<rparr>"
    have w: "same v w" using same_base [OF assms(1)] law by (simp add: w_def)
    then have Cw: "C w" by (simp add: same_view_def)
    have Uk: "U v k = utxo (base v) k" using None by (simp add: cache_utxo_def overlay_def)
    have bw: "utxo b = utxo (base v)" using law by (simp add: same_view_def)
    show ?thesis
    proof (cases tmp)
      case tmp: None
      then show ?thesis using assms(2) None get law w Uk by (auto simp: FetchCoins_def w_def)
    next
      case (Some c)
      let ?e = "\<lparr>coins = c, flags = if IsPruned c then FRESH else 0\<rparr>"
      have "entry_ok (utxo (base w) k) (loaded (base w) k) ?e" "unpruned (coins ?e) = utxo (base w) k"
        using law Some by (auto simp: entry_ok_def bw unpruned_def w_def)
      from same_insert [OF Cw _ this] None have "same w (w\<lparr>cacheCoins := AList.update k ?e (cacheCoins w)\<rparr>)"
        by (simp add: w_def)
      moreover have "r = Some ?e" "v' = w\<lparr>cacheCoins := AList.update k ?e (cacheCoins w)\<rparr>"
        using assms(2) None get Some by (auto simp: FetchCoins_def w_def Let_def CCoinsCacheEntry_new_def)
      ultimately show ?thesis using same_trans [OF w] law Some Uk by (auto simp: update_conv')
    qed
  qed
  then show "same v v'" "map_of (cacheCoins v') k = r" "r = None \<longrightarrow> U v k = None"
    "r = Some e \<Longrightarrow> clean (coVout (coins e)) \<and> unpruned (coins e) = U v k"
    by (auto split: option.splits)
qed

lemma GetCoins_ok:
  assumes "C v" "GetCoins B v k = (r, v')"
  shows "same v v' \<and> Option.bind r unpruned = U v k \<and> (\<forall>c. r = Some c \<longrightarrow> clean (coVout c) \<and> cache_loaded v' k)"
proof -
  obtain it where "FetchCoins B v k = (it, v')" "r = map_option coins it"
    using assms(2) by (auto simp: GetCoins_def split: prod.splits)
  with FetchCoins_ok [OF assms(1) this(1)] show ?thesis by (cases it) (auto simp: cache_loaded_def)
qed

lemma GetBestBlock_ok:
  assumes "C v" "GetBestBlock B v = (h, v')"
  shows "same v v' \<and> h = cache_best best v"
proof (cases "hashBlock v = 0")
  case True
  obtain g b where get: "vGetBestBlock B (base v) = (g, b)" by fastforce
  have "ok (base v)" using assms(1) by (simp add: coins_cache_ok_def)
  note law = best_law [OF this get]
  have "same v (v\<lparr>base := b\<rparr>)" using same_base [OF assms(1)] law by simp
  then show ?thesis using assms(2) True get law
    by (auto simp: GetBestBlock_def same_view_def coins_cache_ok_def cache_utxo_def cache_best_def cache_loaded_def)
next
  case False
  then show ?thesis using assms same_refl by (auto simp: GetBestBlock_def cache_best_def)
qed

lemma BatchWrite_ok:
  assumes "C v" "batch_ok (U v) (cache_loaded v) m"
  shows "\<exists>v'. BatchWrite v m h = Some (True, v') \<and> C v' \<and> U v' = overlay (U v) m \<and> (h \<noteq> 0 \<longrightarrow> cache_best best v' = h)"
proof -
  have "batch_ok (utxo (base v)) (loaded (base v)) (cacheCoins v)" using assms(1) by (simp add: coins_cache_ok_def)
  moreover have "batch_ok (overlay (utxo (base v)) (cacheCoins v)) (\<lambda>k. map_of (cacheCoins v) k \<noteq> None) m"
    using assms(2) unfolding cache_utxo_def cache_loaded_def [abs_def] .
  ultimately obtain c where "cache_batch_loop (cacheCoins v) m = Some c"
    "overlay (utxo (base v)) c = overlay (U v) m" "batch_ok (utxo (base v)) (loaded (base v)) c"
    using cache_batch_loop_ok unfolding cache_utxo_def by blast
  with assms(1) show ?thesis
    by (auto simp: BatchWrite_def coins_cache_ok_def cache_utxo_def cache_best_def)
qed

theorem cache_view: "coins_view (CCoinsViewCache_view B) U (cache_best best) C cache_loaded"
proof
  fix v k c assume "C v" "U v k = Some c"
  then show "clean (coVout c) \<and> \<not> IsPruned c" by (rule cache_utxo_ok)
next
  fix v k r v' assume "C v" "vGetCoins (CCoinsViewCache_view B) v k = (r, v')"
  then show "same v v' \<and> Option.bind r unpruned = U v k \<and> (\<forall>c. r = Some c \<longrightarrow> clean (coVout c) \<and> cache_loaded v' k)"
    by (intro GetCoins_ok) (simp_all add: CCoinsViewCache_view_def)
next
  fix v h v' assume "C v" "vGetBestBlock (CCoinsViewCache_view B) v = (h, v')"
  then show "same v v' \<and> h = cache_best best v" by (intro GetBestBlock_ok) (simp_all add: CCoinsViewCache_view_def)
next
  fix v m h assume "C v" "batch_ok (U v) (cache_loaded v) m"
  then show "\<exists>v'. vBatchWrite (CCoinsViewCache_view B) v m h = Some (True, v') \<and> C v' \<and> U v' = overlay (U v) m \<and>
      (h \<noteq> 0 \<longrightarrow> cache_best best v' = h)"
    using BatchWrite_ok by (simp add: CCoinsViewCache_view_def)
qed

section \<open>The operations of a cache\<close>

lemma AccessCoins_ok:
  assumes "C v" "AccessCoins B v k = (r, v')"
  shows "same v v'" "Option.bind r unpruned = U v k" "r = Some c \<Longrightarrow> clean (coVout c)"
proof -
  have "AccessCoins B v k = GetCoins B v k"
    by (simp add: AccessCoins_def GetCoins_def map_option_case split: prod.splits)
  with assms GetCoins_ok show "same v v'" "Option.bind r unpruned = U v k" "r = Some c \<Longrightarrow> clean (coVout c)"
    by auto
qed

lemma HaveCoins_ok:
  assumes "C v" "HaveCoins B v k = (r, v')"
  shows "same v v'" "r \<longleftrightarrow> U v k \<noteq> None"
proof -
  obtain it where it: "FetchCoins B v k = (it, v')" "r = (case it of None \<Rightarrow> False | Some e \<Rightarrow> coVout (coins e) \<noteq> [])"
    using assms(2) by (auto simp: HaveCoins_def split: prod.splits)
  note F = FetchCoins_ok [OF assms(1) it(1)]
  show "same v v'" by (rule F(1))
  show "r \<longleftrightarrow> U v k \<noteq> None" using F(3,4) it(2) by (cases it) (auto simp: unpruned_def clean_pruned dest: sym split: if_splits)
qed

lemma ModifyCoins_ok:
  assumes "C v"
  obtains w e where "ModifyCoins B v k = Some w" "hasModifier w" "ok (base w)"
    "batch_ok (utxo (base w)) (loaded (base w)) (cacheCoins w)" "U w = U v" "cache_best best w = cache_best best v"
    "map_of (cacheCoins w) k = Some e" "has_flag e DIRTY"
proof (cases "map_of (cacheCoins v) k")
  case (Some e)
  let ?e = "e\<lparr>flags := flags e OR DIRTY\<rparr>"
  have batch: "batch_ok (utxo (base v)) (loaded (base v)) (cacheCoins v)" using assms by (simp add: coins_cache_ok_def)
  then have "entry_ok (utxo (base v) k) (loaded (base v) k) ?e" using batch_ok_entry [OF batch Some] by (simp add: entry_ok_def)
  moreover have "(U v)(k := unpruned (coins e)) = U v"
    using Some by (intro fun_upd_idem) (simp add: cache_utxo_def overlay_def)
  ultimately show ?thesis using Some assms batch
    by (intro that [of "v\<lparr>cacheCoins := AList.update k ?e (cacheCoins v), hasModifier := True\<rparr>" ?e])
       (auto simp: ModifyCoins_def coins_cache_ok_def cache_utxo_def cache_best_def batch_ok_update update_conv')
next
  case None
  obtain r b where get: "vGetCoins B (base v) k = (r, b)" by fastforce
  have ok: "ok (base v)" "\<not> hasModifier v" using assms by (simp_all add: coins_cache_ok_def)
  note law = get_law [OF ok(1) get]
  define e where "e = (case r of None \<Rightarrow> \<lparr>coins = Clear CCoins_new, flags = FRESH\<rparr>
    | Some c \<Rightarrow> if IsPruned c then \<lparr>coins = c, flags = FRESH\<rparr> else \<lparr>coins = c, flags = 0\<rparr>)"
  let ?e = "e\<lparr>flags := flags e OR DIRTY\<rparr>" and ?v = "v\<lparr>base := b\<rparr>"
  have same: "C ?v" "U ?v = U v" "cache_best best ?v = cache_best best v" "utxo b = utxo (base v)"
    using same_base [OF assms] law by (simp_all add: same_view_def)
  have e: "entry_ok (utxo b k) (loaded b k) ?e" "unpruned (coins e) = U v k"
    using law None same(4)
    by (auto simp: e_def entry_ok_def unpruned_def cache_utxo_def overlay_def clean_def Clear_def IsPruned_def split: option.splits)
  then have "(U ?v)(k := unpruned (coins e)) = U ?v" using same(2) by (metis fun_upd_idem)
  moreover have "ModifyCoins B v k = Some (?v\<lparr>cacheCoins := AList.update k ?e (cacheCoins v), hasModifier := True\<rparr>)"
    using ok None get by (simp add: ModifyCoins_def e_def)
  ultimately show ?thesis using same e(1)
    by (intro that [of "?v\<lparr>cacheCoins := AList.update k ?e (cacheCoins v), hasModifier := True\<rparr>" ?e])
       (auto simp: coins_cache_ok_def cache_utxo_def cache_best_def batch_ok_update update_conv')
qed

lemma modify_with_ok:
  assumes "C v"
  obtains c v' where "modify_with B v k f = Some (fst (f c), v')" "C v'" "unpruned c = U v k" "clean (coVout c)"
    "U v' = (U v)(k := unpruned (Cleanup (snd (f c))))" "cache_best best v' = cache_best best v"
proof -
  obtain w e where w: "ModifyCoins B v k = Some w" "hasModifier w" "ok (base w)"
    "batch_ok (utxo (base w)) (loaded (base w)) (cacheCoins w)" "U w = U v" "cache_best best w = cache_best best v"
    "map_of (cacheCoins w) k = Some e" "has_flag e DIRTY"
    using ModifyCoins_ok [OF assms] .
  note e = batch_ok_entry [OF w(4,7)]
  let ?c = "snd (f (coins e))"
  let ?m = "AList.update k (e\<lparr>coins := ?c\<rparr>) (cacheCoins w)" and ?e = "e\<lparr>coins := Cleanup ?c\<rparr>"
  define m where "m = (if has_flag e FRESH \<and> IsPruned ?c then AList.delete k ?m else AList.update k ?e ?m)"
  have mod: "modify_with B v k f = Some (fst (f (coins e)), w\<lparr>cacheCoins := m, hasModifier := False\<rparr>)"
    using w by (cases "f (coins e)") (simp add: modify_with_def CCoinsModifier_destroy_def update_conv' m_def Let_def)
  have "map_of m = map_of (if has_flag e FRESH \<and> IsPruned ?c then AList.delete k (cacheCoins w) else AList.update k ?e (cacheCoins w))"
    by (simp add: m_def update_conv' delete_conv')
  moreover have "distinct (map fst m)" using w(4) by (simp add: m_def batch_ok_def distinct_update distinct_delete)
  moreover have "entry_ok (utxo (base w) k) (loaded (base w) k) ?e" using e w(8) by (simp add: entry_ok_def)
  ultimately have batch: "batch_ok (utxo (base w)) (loaded (base w)) m"
    using batch_ok_update [OF w(4)] batch_ok_delete [OF w(4), of k] by (auto simp: batch_ok_def split: if_splits)
  have Uv: "overlay (utxo (base w)) (cacheCoins w) = U v" using w(5) cache_utxo_def [of utxo w] by simp
  then have "overlay (utxo (base w)) m = (U v)(k := unpruned (Cleanup ?c))"
    using e by (simp add: m_def entry_ok_def unpruned_def)
  moreover have "unpruned (coins e) = U v k" using w(7) by (simp add: Uv [symmetric] overlay_def)
  ultimately show ?thesis using mod w(3,6) batch e
    by (intro that [of "coins e" "w\<lparr>cacheCoins := m, hasModifier := False\<rparr>"])
       (auto simp: coins_cache_ok_def cache_utxo_def [of utxo "w\<lparr>cacheCoins := m, hasModifier := False\<rparr>"] cache_best_def
          entry_ok_def split: if_splits)
qed

lemma Flush_ok:
  assumes "C v"
  obtains v' where "Flush B v = Some (True, v')" "C v'" "U v' = U v" "utxo (base v') = U v" "cacheCoins v' = []"
    "hashBlock v \<noteq> 0 \<Longrightarrow> best (base v') = hashBlock v" "hashBlock v' = hashBlock v"
proof -
  obtain b where "vBatchWrite B (base v) (cacheCoins v) (hashBlock v) = Some (True, b)" "ok b" "utxo b = U v"
    "hashBlock v \<noteq> 0 \<Longrightarrow> best b = hashBlock v"
    using batch_law [of "base v" "cacheCoins v" "hashBlock v"] assms by (auto simp: coins_cache_ok_def cache_utxo_def)
  with assms show ?thesis
    by (intro that [of "v\<lparr>base := b, cacheCoins := []\<rparr>"]) (auto simp: Flush_def coins_cache_ok_def cache_utxo_def)
qed

lemma new_cache_ok: "ok b \<Longrightarrow> C (CCoinsViewCache_new b) \<and> U (CCoinsViewCache_new b) = utxo b"
  by (simp add: CCoinsViewCache_new_def coins_cache_ok_def cache_utxo_def)

lemma SetBestBlock_ok: "C v \<Longrightarrow> C (SetBestBlock v h) \<and> U (SetBestBlock v h) = U v"
  by (simp add: SetBestBlock_def coins_cache_ok_def cache_utxo_def)

lemma coins_step_ok:
  assumes "C v"
  shows "\<exists>v'. coins_step B v x = Some (fst (utxo_step (U v) x), v') \<and> C v' \<and> U v' = snd (utxo_step (U v) x)"
proof (cases x)
  case (op_Get k)
  obtain r w where "GetCoins B v k = (r, w)" by fastforce
  with GetCoins_ok [OF assms this] op_Get show ?thesis by (simp add: same_view_def)
next
  case (op_Have k)
  obtain r w where "HaveCoins B v k = (r, w)" by fastforce
  with HaveCoins_ok [OF assms this] op_Have show ?thesis by (simp add: same_view_def)
next
  case (op_Add tx h)
  obtain w where "modify_with B v (tx_hash tx) (\<lambda>c. (Done, FromTx tx h)) = Some (Done, w)" "C w"
    "U w = (U v)(tx_hash tx := unpruned (Cleanup (FromTx tx h)))"
    by (rule modify_with_ok [OF assms, of "tx_hash tx" "\<lambda>c. (Done, FromTx tx h)"]) auto
  with op_Add show ?thesis by (simp add: Cleanup_clean)
next
  case (op_Spend k n)
  let ?f = "\<lambda>c. let (r, c, undo) = Spend c n CTxInUndo_new in (Spent r undo, c)"
  obtain c w where c: "modify_with B v k ?f = Some (fst (?f c), w)" "C w" "unpruned c = U v k" "clean (coVout c)"
    "U w = (U v)(k := unpruned (Cleanup (snd (?f c))))"
    by (rule modify_with_ok [OF assms, of k ?f]) auto
  show ?thesis
  proof (cases "U v k")
    case None
    then have "coVout c = []" using c(3,4) by (simp add: unpruned_def clean_pruned split: if_splits)
    then have f: "?f c = (Spent False CTxInUndo_new, c)" by (simp add: Spend_out_of_range)
    have "unpruned (Cleanup c) = None" using c(3) None by (simp add: unpruned_def split: if_splits)
    then show ?thesis using c(1,2,5) f op_Spend None by (simp add: fun_upd_idem)
  next
    case (Some d)
    then have [simp]: "d = c" using c(3) by (simp add: unpruned_def split: if_splits)
    have "Cleanup (snd (?f c)) = snd (?f c)" using c(4) by (auto simp: Spend_def Let_def intro!: Cleanup_clean)
    then show ?thesis using c(1,2,5) op_Spend Some by (simp add: case_prod_beta Let_def)
  qed
next
  case (op_Remove k)
  obtain c w where "modify_with B v k (\<lambda>c. (Done, Clear c)) = Some (Done, w)" "C w"
    "U w = (U v)(k := unpruned (Cleanup (Clear c)))"
    by (rule modify_with_ok [OF assms, of k "\<lambda>c. (Done, Clear c)"]) auto
  moreover have "IsPruned (Clear c)" by (simp add: Clear_def IsPruned_def)
  ultimately show ?thesis using op_Remove by (simp add: unpruned_def)
next
  case (op_SetBest h)
  with SetBestBlock_ok [OF assms] show ?thesis by simp
next
  case op_Flush
  obtain w where "Flush B v = Some (True, w)" "C w" "U w = U v" by (rule Flush_ok [OF assms])
  with op_Flush show ?thesis by simp
qed

lemma coins_run_ok:
  "C v \<Longrightarrow> \<exists>v'. coins_run B v xs = Some (fst (utxo_run (U v) xs), v') \<and> C v' \<and> U v' = snd (utxo_run (U v) xs)"
proof (induction xs arbitrary: v)
  case (Cons x xs)
  obtain w where w: "coins_step B v x = Some (fst (utxo_step (U v) x), w)" "C w" "U w = snd (utxo_step (U v) x)"
    using coins_step_ok [OF Cons.prems] by blast
  from Cons.IH [OF w(2)] w show ?case by (auto simp: case_prod_beta Let_def)
qed simp

end

interpretation tip: coins_view "CCoinsViewCache_view CCoinsViewDB_view" "cache_utxo DB_COINS" "cache_best db_best"
  "coins_cache_ok DB_COINS db_ok (\<lambda>_ _. True)" cache_loaded
  by (rule db.cache_view)

section \<open>Caching is invisible\<close>

lemma flush_both_ok:
  assumes "coins_cache_ok (cache_utxo DB_COINS) (coins_cache_ok DB_COINS db_ok (\<lambda>_ _. True)) cache_loaded v" "hashBlock v \<noteq> 0"
  shows "\<exists>db. flush_both v = Some db \<and> db_ok db \<and> DB_COINS db = cache_utxo (cache_utxo DB_COINS) v \<and> db_best db = hashBlock v"
proof -
  obtain w where w: "Flush (CCoinsViewCache_view CCoinsViewDB_view) v = Some (True, w)"
    "cache_utxo DB_COINS (base w) = cache_utxo (cache_utxo DB_COINS) v" "cache_best db_best (base w) = hashBlock v"
    "coins_cache_ok (cache_utxo DB_COINS) (coins_cache_ok DB_COINS db_ok (\<lambda>_ _. True)) cache_loaded w"
    using tip.Flush_ok [OF assms(1)] assms(2) by metis
  have base: "coins_cache_ok DB_COINS db_ok (\<lambda>_ _. True) (base w)" using w(4) by (simp add: coins_cache_ok_def)
  have hash: "hashBlock (base w) = hashBlock v"
  proof -
    obtain c where "w = v\<lparr>base := base v\<lparr>cacheCoins := c, hashBlock := hashBlock v\<rparr>, cacheCoins := []\<rparr>"
      using w(1) by (cases "cache_batch_loop (cacheCoins (base v)) (cacheCoins v)")
        (auto simp: Flush_def CCoinsViewCache_view_def BatchWrite_def split: if_splits)
    then show ?thesis by (cases v; cases "base v") simp
  qed
  obtain x where "Flush CCoinsViewDB_view (base w) = Some (True, x)" "DB_COINS (base x) = cache_utxo DB_COINS (base w)"
    "db_best (base x) = hashBlock v" "coins_cache_ok DB_COINS db_ok (\<lambda>_ _. True) x"
    using db.Flush_ok [OF base] assms(2) hash by metis
  then show ?thesis using w by (simp add: flush_both_def coins_cache_ok_def)
qed

text \<open>
  C19: Two stacked caches over the database behave like a plain map of unspent outputs. Whatever sequence
  of lookups, additions, spendings, removals, best-block updates and flushes runs on the upper cache, no assertion of
  the code fails, every result is the one on the plain map, and once the best block is set and both caches are
  flushed, the database holds exactly that map and that best block.
\<close>

theorem coins_caches_refine:
  assumes "db_ok db" "h \<noteq> 0"
  defines "start \<equiv> CCoinsViewCache_new (CCoinsViewCache_new db)"
  shows "\<exists>v db'. coins_run (CCoinsViewCache_view CCoinsViewDB_view) start xs = Some (fst (utxo_run (DB_COINS db) xs), v) \<and>
    flush_both (SetBestBlock v h) = Some db' \<and> db_ok db' \<and> DB_COINS db' = snd (utxo_run (DB_COINS db) xs) \<and> db_best db' = h"
proof -
  let ?C = "coins_cache_ok (cache_utxo DB_COINS) (coins_cache_ok DB_COINS db_ok (\<lambda>_ _. True)) cache_loaded"
  have "?C start" and U: "cache_utxo (cache_utxo DB_COINS) start = DB_COINS db"
    using tip.new_cache_ok db.new_cache_ok [OF assms(1)] by (simp_all add: start_def)
  then obtain v where v: "coins_run (CCoinsViewCache_view CCoinsViewDB_view) start xs = Some (fst (utxo_run (DB_COINS db) xs), v)"
    "?C v" "cache_utxo (cache_utxo DB_COINS) v = snd (utxo_run (DB_COINS db) xs)"
    using tip.coins_run_ok by metis
  then show ?thesis using flush_both_ok [of "SetBestBlock v h"] tip.SetBestBlock_ok [OF v(2), of h] assms(2)
    by (simp add: SetBestBlock_def)
qed

section \<open>An example\<close>

definition example_output :: CTxOut where
  "example_output = \<lparr>nValue = 5, scriptPubKey = [0x51]\<rparr>"

definition example_coins_tx :: CTransaction where
  "example_coins_tx = \<lparr>txVersion = 1, vin = [], vout = [example_output, example_output], nLockTime = 0, tx_hash = 9\<rparr>"

definition example_db :: CCoinsViewDB where
  "example_db = \<lparr>DB_COINS = Map.empty, DB_BESTBLOCKHASH = None\<rparr>"

definition example_ops :: "coins_op list" where
  "example_ops = [op_Add example_coins_tx 7, op_Flush, op_Spend 9 0, op_Spend 9 0, op_Have 9, op_Spend 9 1, op_Have 9]"

lemma example_output_simps [simp]: "\<not> CTxOut_IsNull example_output" "\<not> IsUnspendable (scriptPubKey example_output)"
  by (simp_all add: example_output_def CTxOut_IsNull_def IsUnspendable_def)

lemma example_run:
  "utxo_run Map.empty example_ops =
    ([Done, Flushed True, Spent True (CTxInUndo_of example_output), Spent False CTxInUndo_new, Having True,
      Spent True \<lparr>txout = example_output, unCoinBase = False, unCoinStake = False, unHeight = 7, unVersion = 1\<rparr>, Having False],
     Map.empty)"
proof -
  have tx: "tx_hash example_coins_tx = 9" by (simp add: example_coins_tx_def)
  have from_tx: "FromTx example_coins_tx 7 =
    \<lparr>fCoinBase = False, fCoinStake = False, coVout = [example_output, example_output], coHeight = 7, coVersion = 1\<rparr>"
    by (simp add: FromTx_def ClearUnspendable_def Cleanup_def example_coins_tx_def IsCoinBase_def IsCoinStake_def pop_null.simps)
  show ?thesis
    by (simp add: example_ops_def tx from_tx Spend_def unpruned_def IsPruned_def Cleanup_def pop_null.simps CTxInUndo_of_def)
qed

theorem coins_caches_refine_witness:
  "\<exists>v db'. coins_run (CCoinsViewCache_view CCoinsViewDB_view) (CCoinsViewCache_new (CCoinsViewCache_new example_db)) example_ops =
    Some ([Done, Flushed True, Spent True (CTxInUndo_of example_output), Spent False CTxInUndo_new, Having True,
      Spent True \<lparr>txout = example_output, unCoinBase = False, unCoinStake = False, unHeight = 7, unVersion = 1\<rparr>, Having False], v) \<and>
    flush_both (SetBestBlock v 3) = Some db' \<and> DB_COINS db' = Map.empty \<and> db_best db' = 3"
  using coins_caches_refine [of example_db 3 example_ops] example_run by (auto simp: example_db_def db_ok_def)

end
