(* ===== verification/Utxo_Update.thy ===== *)
theory Utxo_Update
  imports Coins_View
begin

text \<open>
  Applying a transaction to the set of unspent outputs and taking it back (\<^verbatim>\<open>UtxoCheckingAndUpdating.cpp\<close>), as
  blocks are connected and disconnected. The theory shows that taking a transaction back restores the set,
  with one exception: coins whose last output had been spent come back without their coinstake mark.
\<close>

section \<open>Applying a transaction\<close>

record TransactionLocationReference =
  loc_hash :: u256
  loc_blockHeight :: u32
  loc_transactionIndex :: int

definition TransactionLocationReference_new :: "CTransaction \<Rightarrow> u32 \<Rightarrow> int \<Rightarrow> TransactionLocationReference" where
  "TransactionLocationReference_new tx blockheightValue transactionIndexValue =
    \<lparr>loc_hash = tx_hash tx, loc_blockHeight = blockheightValue, loc_transactionIndex = transactionIndexValue\<rparr>"

text \<open>\<open>None\<close> is a failed assertion. The index of the output is converted to a signed integer for the call.\<close>

fun spend_inputs ::
  "'v CCoinsView \<Rightarrow> 'v CCoinsViewCache \<Rightarrow> CTxInUndo list \<Rightarrow> CTxIn list \<Rightarrow> (CTxInUndo list \<times> 'v CCoinsViewCache) option" where
  "spend_inputs B inputs vprevout [] = Some (vprevout, inputs)"
| "spend_inputs B inputs vprevout (txin # txins) =
    Option.bind
      (modify_with B inputs (op_hash (prevout txin))
        (\<lambda>c. let (ret, c, undo) = Spend c (sint (op_n (prevout txin))) CTxInUndo_new in ((ret, undo), c)))
      (\<lambda>((ret, undo), inputs). if ret then spend_inputs B inputs (vprevout @ [undo]) txins else None)"

definition UpdateCoinsWithTransaction ::
  "'v CCoinsView \<Rightarrow> CTransaction \<Rightarrow> 'v CCoinsViewCache \<Rightarrow> CTxInUndo list \<Rightarrow> int \<Rightarrow>
   (CTxInUndo list \<times> 'v CCoinsViewCache) option" where
  "UpdateCoinsWithTransaction B tx inputs txundo nHeightIn =
    Option.bind (if \<not> IsCoinBase tx then spend_inputs B inputs txundo (vin tx) else Some (txundo, inputs))
      (\<lambda>(txundo, inputs).
         map_option (\<lambda>(_, inputs). (txundo, inputs)) (modify_with B inputs (tx_hash tx) (\<lambda>c. ((), FromTx tx nHeightIn))))"

section \<open>Taking a transaction back\<close>

definition RemoveTxOutputsFromCache ::
  "'v CCoinsView \<Rightarrow> CTransaction \<Rightarrow> TransactionLocationReference \<Rightarrow> 'v CCoinsViewCache \<Rightarrow> (bool \<times> 'v CCoinsViewCache) option" where
  "RemoveTxOutputsFromCache B tx loc view =
    modify_with B view (loc_hash loc)
      (\<lambda>outs.
         let outs = ClearUnspendable outs;
             outsBlock = FromTx tx (sint (loc_blockHeight loc));
             outs = (if coVersion outsBlock < 0 then outs\<lparr>coVersion := coVersion outsBlock\<rparr> else outs)
         in (CCoins_equal outs outsBlock, Clear outs))"

definition resize_vout :: "CTxOut list \<Rightarrow> nat \<Rightarrow> CTxOut list" where
  "resize_vout v n = take n v @ replicate (n - length v) CTxOut_SetNull"

definition UpdateCoinsForRestoredInputs :: "COutPoint \<Rightarrow> CTxInUndo \<Rightarrow> CCoins \<Rightarrow> bool \<Rightarrow> bool \<times> CCoins" where
  "UpdateCoinsForRestoredInputs out undo c fClean =
    (let (fClean, c) =
       (if unHeight undo \<noteq> 0 then
          (if \<not> IsPruned c then False else fClean,
           (Clear c)\<lparr>fCoinBase := unCoinBase undo, coHeight := sint (unHeight undo), coVersion := unVersion undo\<rparr>)
        else (if IsPruned c then False else fClean, c));
         fClean = (if IsAvailable c (op_n out) then False else fClean);
         v = (if length (coVout c) < unat (op_n out + 1) then resize_vout (coVout c) (unat (op_n out + 1)) else coVout c)
     in (fClean, c\<lparr>coVout := v[unat (op_n out) := txout undo]\<rparr>))"

fun restore_inputs ::
  "'v CCoinsView \<Rightarrow> 'v CCoinsViewCache \<Rightarrow> bool \<Rightarrow> (CTxIn \<times> CTxInUndo) list \<Rightarrow> (bool \<times> 'v CCoinsViewCache) option" where
  "restore_inputs B inputs fClean [] = Some (fClean, inputs)"
| "restore_inputs B inputs fClean ((txin, undo) # rest) =
    Option.bind
      (modify_with B inputs (op_hash (prevout txin)) (\<lambda>c. UpdateCoinsForRestoredInputs (prevout txin) undo c fClean))
      (\<lambda>(fClean, inputs). restore_inputs B inputs fClean rest)"

datatype TxReversalStatus = ABORT_NO_OTHER_ERRORS | ABORT_WITH_OTHER_ERRORS | CONTINUE_WITH_ERRORS | OK

text \<open>The inputs are restored from the last one to the first.\<close>

definition UpdateCoinsReversingTransaction ::
  "'v CCoinsView \<Rightarrow> CTransaction \<Rightarrow> TransactionLocationReference \<Rightarrow> 'v CCoinsViewCache \<Rightarrow> CTxInUndo list option \<Rightarrow>
   (TxReversalStatus \<times> 'v CCoinsViewCache) option" where
  "UpdateCoinsReversingTransaction B tx loc inputs txundo =
    Option.bind (RemoveTxOutputsFromCache B tx loc inputs)
      (\<lambda>(fClean, inputs).
         if IsCoinBase tx then Some (if fClean then OK else CONTINUE_WITH_ERRORS, inputs)
         else case txundo of
           None \<Rightarrow> None
         | Some vprevout \<Rightarrow>
             if length vprevout \<noteq> length (vin tx) then
               Some (if fClean then ABORT_NO_OTHER_ERRORS else ABORT_WITH_OTHER_ERRORS, inputs)
             else map_option (\<lambda>(fClean, inputs). (if fClean then OK else CONTINUE_WITH_ERRORS, inputs))
               (restore_inputs B inputs fClean (rev (zip (vin tx) vprevout))))"

section \<open>One output, spent and restored\<close>

text \<open>Spent outputs are null and carry no script; this holds of coins made of outputs with values that are not negative.\<close>

definition exact :: "CTxOut list \<Rightarrow> bool" where
  "exact v \<longleftrightarrow> (\<forall>t\<in>set v. CTxOut_IsNull t \<longrightarrow> t = CTxOut_SetNull)"

lemma exact_pop_null: "exact v \<Longrightarrow> exact (pop_null v)"
  using pop_null_split [of v] unfolding exact_def by (metis Un_iff set_append)

lemma exact_spent: "exact v \<Longrightarrow> exact (v[n := CTxOut_SetNull])"
  unfolding exact_def using set_update_subset_insert [of v n] by blast

lemma exact_nulls: "exact v \<Longrightarrow> list_all CTxOut_IsNull v \<Longrightarrow> v = replicate (length v) CTxOut_SetNull"
  by (auto simp: exact_def list_all_iff intro!: replicate_eqI)

lemma resize_pop_null:
  assumes "exact v"
  shows "resize_vout (pop_null v) (length v) = v"
proof -
  obtain n where n: "v = pop_null v @ n" "list_all CTxOut_IsNull n" using pop_null_split by blast
  have "exact n" using assms n(1) unfolding exact_def by (metis Un_iff set_append)
  then have "n = replicate (length v - length (pop_null v)) CTxOut_SetNull"
    using exact_nulls n by (metis add_diff_cancel_left' length_append)
  moreover have "length (pop_null v) \<le> length v" using n(1) by (metis le_add1 length_append)
  ultimately show ?thesis using n(1) by (simp add: resize_vout_def)
qed

lemma restore_vout:
  assumes "clean v" "exact v" "n < length v" "\<not> CTxOut_IsNull (v ! n)"
  defines "w \<equiv> pop_null (v[n := CTxOut_SetNull])"
  shows "(if length w < Suc n then resize_vout w (Suc n) else w)[n := v ! n] = v"
    "\<not> (n < length w \<and> \<not> CTxOut_IsNull (w ! n))"
proof -
  have le: "length w \<le> length v"
    using pop_null_split [of "v[n := CTxOut_SetNull]"] unfolding w_def by (metis le_add1 length_append length_list_update)
  have *: "(if length w < Suc n then resize_vout w (Suc n) else w) = v[n := CTxOut_SetNull]"
  proof (cases "Suc n = length v")
    case True
    have "resize_vout w (length v) = v[n := CTxOut_SetNull]"
      using resize_pop_null [OF exact_spent [OF assms(2)], of n] by (simp add: w_def)
    moreover have "w = v[n := CTxOut_SetNull]" if "length w = length v"
      using calculation that by (simp add: resize_vout_def)
    ultimately show ?thesis using True le by (cases "length w = length v") auto
  next
    case False
    then have "last (v[n := CTxOut_SetNull]) = last v" using assms(3) by (subst last_list_update) auto
    then have "clean (v[n := CTxOut_SetNull])" using assms(1,3) by (auto simp: clean_def)
    then have "w = v[n := CTxOut_SetNull]" by (simp add: w_def pop_null_clean)
    with assms(3) show ?thesis by simp
  qed
  show "(if length w < Suc n then resize_vout w (Suc n) else w)[n := v ! n] = v" unfolding * by simp
  have "w ! n = CTxOut_SetNull" if "n < length w"
    using * that assms(3) by (auto split: if_splits)
  then show "\<not> (n < length w \<and> \<not> CTxOut_IsNull (w ! n))" by auto
qed

lemma sint_nonneg_u32:
  fixes n :: u32
  assumes "0 \<le> sint n"
  shows "sint n = int (unat n)" "unat n < 2 ^ 31"
proof -
  have lt: "sint n < 2 ^ 31" using sint_lt [of n] by simp
  then have "uint n = sint n" using assms by (simp add: uint_sint take_bit_int_eq_self)
  with lt show "sint n = int (unat n)" "unat n < 2 ^ 31" by (simp, metis nat_less_iff assms unat_eq_nat_uint of_nat_numeral of_nat_power)
qed

lemma Spend_available:
  assumes "IsAvailable c n" "0 \<le> sint n"
  shows "Spend c (sint n) u =
    (let d = c\<lparr>coVout := pop_null ((coVout c)[unat n := CTxOut_SetNull])\<rparr>; t = CTxInUndo_of (coVout c ! unat n)
     in (True, d, if coVout d = [] then
         t\<lparr>unHeight := word_of_int (coHeight c), unCoinBase := fCoinBase c, unCoinStake := fCoinStake c, unVersion := coVersion c\<rparr>
       else t))"
proof -
  have n: "nat (sint n) = unat n" "\<not> (sint n < 0 \<or> int (length (coVout c)) \<le> sint n)"
    using sint_nonneg_u32(1) [OF assms(2)] assms(1) unfolding IsAvailable_def by linarith+
  then show ?thesis unfolding Spend_def n(1) if_not_P [OF n(2)] using assms(1) by (simp add: IsAvailable_def Cleanup_def Let_def)
qed

text \<open>What comes back of fully spent coins is everything but the coinstake mark.\<close>

definition without_mark :: "bool \<Rightarrow> CCoins \<Rightarrow> CCoins" where
  "without_mark lost c = (if lost then c\<lparr>fCoinStake := False\<rparr> else c)"

lemma without_mark_simps [simp]:
  "coVout (without_mark l c) = coVout c" "fCoinBase (without_mark l c) = fCoinBase c" "coHeight (without_mark l c) = coHeight c"
  "coVersion (without_mark l c) = coVersion c" "IsPruned (without_mark l c) = IsPruned c"
  by (simp_all add: without_mark_def IsPruned_def)

lemma restore_spent:
  assumes "IsAvailable c n" "0 \<le> sint n" "clean (coVout c)" "exact (coVout c)" "0 < coHeight c" "coHeight c < 2 ^ 31"
    and spend: "Spend c (sint n) u = (True, d, undo)"
    and e: "if IsPruned d then IsPruned e \<and> lost else e = without_mark lost d"
    and out: "op_n out = n"
  shows "UpdateCoinsForRestoredInputs out undo e True = (True, without_mark lost c)"
proof -
  let ?w = "pop_null ((coVout c)[unat n := CTxOut_SetNull])" and ?n = "unat n"
  have n: "?n < length (coVout c)" "\<not> CTxOut_IsNull (coVout c ! ?n)" using assms(1) by (auto simp: IsAvailable_def)
  note R = restore_vout [OF assms(3,4) n]
  have Suc: "unat (n + 1) = Suc (unat n)" using sint_nonneg_u32(2) [OF assms(2)] by (simp add: unat_word_ariths)
  have d: "d = c\<lparr>coVout := ?w\<rparr>" and txout: "txout undo = coVout c ! ?n"
    using spend Spend_available [OF assms(1,2), of u] by (auto simp: Let_def CTxInUndo_of_def split: if_splits)
  show ?thesis
  proof (cases "IsPruned d")
    case True
    then have w: "?w = []" using d clean_pruned [of d] by simp
    then have undo: "undo = (CTxInUndo_of (coVout c ! ?n))\<lparr>unHeight := word_of_int (coHeight c), unCoinBase := fCoinBase c,
      unCoinStake := fCoinStake c, unVersion := coVersion c\<rparr>"
      using spend Spend_available [OF assms(1,2), of u] by (simp add: Let_def)
    have "sint (word_of_int (coHeight c) :: u32) = coHeight c"
      using assms(5,6) by (simp add: sint_sbintrunc' signed_take_bit_int_eq_self)
    moreover have "(word_of_int (coHeight c) :: u32) \<noteq> 0" using calculation assms(5) by auto
    ultimately show ?thesis using R True e undo out
      by (simp add: UpdateCoinsForRestoredInputs_def Clear_def IsAvailable_def Suc w without_mark_def CTxInUndo_of_def)
  next
    case False
    then have w: "?w \<noteq> []" using d clean_pruned [of d] by simp
    then have "unHeight undo = 0"
      using spend Spend_available [OF assms(1,2), of u] by (auto simp: Let_def CTxInUndo_of_def)
    moreover have e: "e = without_mark lost d" "\<not> IsPruned e" "coVout e = ?w" using e False d by simp_all
    ultimately have "UpdateCoinsForRestoredInputs out undo e True = (True, e\<lparr>coVout := coVout c\<rparr>)"
      using R txout out by (simp add: UpdateCoinsForRestoredInputs_def IsAvailable_def Suc Let_def split: if_splits)
    then show ?thesis using e(1) d by (simp add: without_mark_def)
  qed
qed

section \<open>All inputs, on plain maps\<close>

text \<open>An input can be spent: its output is there, at a signed index, of coins with a positive height.\<close>

definition spendable :: "(u256 \<rightharpoonup> CCoins) \<Rightarrow> CTxIn \<Rightarrow> bool" where
  "spendable U i \<longleftrightarrow>
    (case U (op_hash (prevout i)) of None \<Rightarrow> False
     | Some c \<Rightarrow> IsAvailable c (op_n (prevout i)) \<and> 0 \<le> sint (op_n (prevout i)) \<and> 0 < coHeight c \<and> coHeight c < 2 ^ 31 \<and>
         exact (coVout c))"

definition spend_in :: "(u256 \<rightharpoonup> CCoins) \<Rightarrow> CTxIn \<Rightarrow> CTxInUndo \<times> (u256 \<rightharpoonup> CCoins)" where
  "spend_in U i =
    (case Spend (the (U (op_hash (prevout i)))) (sint (op_n (prevout i))) CTxInUndo_new of
       (r, c, undo) \<Rightarrow> (undo, U(op_hash (prevout i) := unpruned c)))"

fun spend_all :: "(u256 \<rightharpoonup> CCoins) \<Rightarrow> CTxIn list \<Rightarrow> CTxInUndo list \<times> (u256 \<rightharpoonup> CCoins)" where
  "spend_all U [] = ([], U)"
| "spend_all U (i # is) = (let (undo, U) = spend_in U i; (undos, U) = spend_all U is in (undo # undos, U))"

lemma IsAvailable_spent:
  assumes "IsAvailable c n" "m \<noteq> n"
  shows "IsAvailable (c\<lparr>coVout := pop_null ((coVout c)[unat m := CTxOut_SetNull])\<rparr>) n"
proof -
  let ?v = "(coVout c)[unat m := CTxOut_SetNull]"
  have n: "unat n < length ?v" "\<not> CTxOut_IsNull (?v ! unat n)" using assms by (auto simp: IsAvailable_def word_unat_eq_iff)
  obtain z where z: "?v = pop_null ?v @ z" "list_all CTxOut_IsNull z" using pop_null_split by blast
  have "unat n < length (pop_null ?v)"
  proof (rule ccontr)
    assume "\<not> unat n < length (pop_null ?v)"
    then have "?v ! unat n \<in> set z" using n(1) by (subst z(1), subst (asm) (2) z(1)) (auto simp: nth_append)
    with z(2) n(2) show False by (auto simp: list_all_iff)
  qed
  moreover have "pop_null ?v ! unat n = ?v ! unat n" using calculation by (metis z(1) nth_append)
  ultimately show ?thesis using n(2) by (simp add: IsAvailable_def)
qed

lemma spend_in_other:
  assumes "spendable U i" "spendable U j" "prevout i \<noteq> prevout j"
  shows "spendable (snd (spend_in U i)) j"
proof (cases "op_hash (prevout i) = op_hash (prevout j)")
  case False
  then show ?thesis using assms(2) by (auto simp: spendable_def spend_in_def split: prod.splits)
next
  case True
  obtain c where c: "U (op_hash (prevout i)) = Some c" "IsAvailable c (op_n (prevout i))" "0 \<le> sint (op_n (prevout i))"
    using assms(1) by (auto simp: spendable_def split: option.splits)
  let ?d = "c\<lparr>coVout := pop_null ((coVout c)[unat (op_n (prevout i)) := CTxOut_SetNull])\<rparr>"
  have ne: "op_n (prevout i) \<noteq> op_n (prevout j)" using assms(3) True by (metis COutPoint.equality unit.exhaust)
  have j: "IsAvailable c (op_n (prevout j))" "exact (coVout c)" "0 \<le> sint (op_n (prevout j))" "0 < coHeight c" "coHeight c < 2 ^ 31"
    using assms(2) c(1) True by (auto simp: spendable_def)
  note av = IsAvailable_spent [OF j(1) ne]
  then have "unpruned ?d = Some ?d" by (auto simp: unpruned_def IsAvailable_def IsPruned_def list_all_length)
  moreover have "snd (spend_in U i) (op_hash (prevout j)) = unpruned ?d"
    using c True by (simp add: spend_in_def Spend_available [OF c(2,3)] Let_def)
  ultimately show ?thesis using av j by (simp add: spendable_def exact_pop_null exact_spent)
qed

lemma spend_all_None: "U k = None \<Longrightarrow> (\<forall>i\<in>set is. spendable U i) \<Longrightarrow> distinct (map prevout is) \<Longrightarrow> snd (spend_all U is) k = None"
proof (induction "is" arbitrary: U)
  case (Cons i "is")
  have "op_hash (prevout i) \<noteq> k" using Cons.prems by (auto simp: spendable_def)
  then have "snd (spend_in U i) k = None" using Cons.prems(1) by (simp add: spend_in_def split: prod.splits)
  moreover have "\<forall>j\<in>set is. spendable (snd (spend_in U i)) j" using Cons.prems by (auto intro!: spend_in_other)
  ultimately show ?case using Cons by (simp add: case_prod_beta Let_def)
qed simp

section \<open>All inputs, on a cache\<close>

definition marked :: "(u256 \<Rightarrow> bool) \<Rightarrow> (u256 \<rightharpoonup> CCoins) \<Rightarrow> u256 \<rightharpoonup> CCoins" where
  "marked lost U k = map_option (without_mark (lost k)) (U k)"

definition all_clean :: "(u256 \<rightharpoonup> CCoins) \<Rightarrow> bool" where
  "all_clean U \<longleftrightarrow> (\<forall>k c. U k = Some c \<longrightarrow> clean (coVout c) \<and> \<not> IsPruned c)"

lemma spendableE:
  assumes "spendable U i"
  obtains c d undo where "U (op_hash (prevout i)) = Some c" "IsAvailable c (op_n (prevout i))" "0 \<le> sint (op_n (prevout i))"
    "exact (coVout c)" "0 < coHeight c" "coHeight c < 2 ^ 31"
    "Spend c (sint (op_n (prevout i))) CTxInUndo_new = (True, d, undo)" "clean (coVout d)"
    "spend_in U i = (undo, U(op_hash (prevout i) := unpruned d))"
proof -
  obtain c where c: "U (op_hash (prevout i)) = Some c" "IsAvailable c (op_n (prevout i))" "0 \<le> sint (op_n (prevout i))"
    "exact (coVout c)" "0 < coHeight c" "coHeight c < 2 ^ 31"
    using assms by (auto simp: spendable_def split: option.splits)
  moreover obtain d undo where "Spend c (sint (op_n (prevout i))) CTxInUndo_new = (True, d, undo)" "clean (coVout d)"
    using Spend_available [OF c(2,3), of CTxInUndo_new] by (simp add: Let_def)
  ultimately show ?thesis by (intro that) (auto simp: spend_in_def)
qed

lemma all_clean_spend_in: "all_clean U \<Longrightarrow> spendable U i \<Longrightarrow> all_clean (snd (spend_in U i))"
  by (erule spendableE) (auto simp: all_clean_def unpruned_def)

lemma spendable_rest:
  "\<forall>j\<in>set (i # is). spendable U j \<Longrightarrow> distinct (map prevout (i # is)) \<Longrightarrow> \<forall>j\<in>set is. spendable (snd (spend_in U i)) j"
  by (auto intro!: spend_in_other)

lemma restore_inputs_append:
  "restore_inputs B v fClean (xs @ ys) =
    Option.bind (restore_inputs B v fClean xs) (\<lambda>(fClean, v). restore_inputs B v fClean ys)"
proof (induction xs arbitrary: v fClean)
  case (Cons x xs)
  show ?case
    by (cases x; cases "modify_with B v (op_hash (prevout (fst x))) (\<lambda>c. UpdateCoinsForRestoredInputs (prevout (fst x)) (snd x) c fClean)")
       (auto simp: Cons)
qed simp

context coins_view begin

lemma spend_inputs_ok:
  "C v \<Longrightarrow> \<forall>i\<in>set is. spendable (U v) i \<Longrightarrow> distinct (map prevout is) \<Longrightarrow>
   \<exists>v'. spend_inputs B v us is = Some (us @ fst (spend_all (U v) is), v') \<and> C v' \<and> U v' = snd (spend_all (U v) is)"
proof (induction "is" arbitrary: v us)
  case (Cons i "is")
  let ?f = "\<lambda>c. let (ret, c, undo) = Spend c (sint (op_n (prevout i))) CTxInUndo_new in ((ret, undo), c)"
  have "spendable (U v) i" using Cons.prems(2) by simp
  then obtain c d undo where c: "U v (op_hash (prevout i)) = Some c"
    "Spend c (sint (op_n (prevout i))) CTxInUndo_new = (True, d, undo)" "clean (coVout d)"
    "spend_in (U v) i = (undo, (U v)(op_hash (prevout i) := unpruned d))"
    by (rule spendableE)
  obtain c' w where w: "modify_with B v (op_hash (prevout i)) ?f = Some (fst (?f c'), w)" "C w"
    "unpruned c' = U v (op_hash (prevout i))" "U w = (U v)(op_hash (prevout i) := unpruned (Cleanup (snd (?f c'))))"
    by (rule modify_with_ok [OF Cons.prems(1), of "op_hash (prevout i)" ?f]) auto
  have "c' = c" using w(3) c(1) by (simp add: unpruned_def split: if_splits)
  then have Uw: "U w = snd (spend_in (U v) i)" using w(4) c by (simp add: Cleanup_clean)
  have "\<forall>j\<in>set is. spendable (U w) j" using spendable_rest [OF Cons.prems(2,3)] by (simp add: Uw)
  then obtain x where x: "spend_inputs B w (us @ [undo]) is = Some (us @ undo # fst (spend_all (U w) is), x)" "C x"
    "U x = snd (spend_all (U w) is)"
    using Cons.IH [OF w(2), of "us @ [undo]"] Cons.prems(3) by auto
  have "spend_all (U v) (i # is) = (undo # fst (spend_all (U w) is), snd (spend_all (U w) is))"
    by (simp add: c(4) Uw case_prod_beta)
  moreover have "?f c' = ((True, undo), d)" by (simp add: c(2) \<open>c' = c\<close>)
  ultimately show ?case using w(1) x by simp
qed simp

lemma restore_inputs_ok:
  "C v \<Longrightarrow> all_clean V \<Longrightarrow> \<forall>i\<in>set is. spendable V i \<Longrightarrow> distinct (map prevout is) \<Longrightarrow>
   U v = marked lost (snd (spend_all V is)) \<Longrightarrow> (\<And>k. snd (spend_all V is) k = None \<Longrightarrow> lost k) \<Longrightarrow>
   \<exists>v'. restore_inputs B v True (rev (zip is (fst (spend_all V is)))) = Some (True, v') \<and> C v' \<and> U v' = marked lost V"
proof (induction "is" arbitrary: V)
  case (Cons i "is")
  let ?k = "op_hash (prevout i)"
  have sp: "spendable V i" using Cons.prems(3) by simp
  obtain c d undo where c: "V ?k = Some c" "IsAvailable c (op_n (prevout i))" "0 \<le> sint (op_n (prevout i))"
    "exact (coVout c)" "0 < coHeight c" "coHeight c < 2 ^ 31"
    "Spend c (sint (op_n (prevout i))) CTxInUndo_new = (True, d, undo)" "spend_in V i = (undo, V(?k := unpruned d))"
    using sp by (rule spendableE)
  have cc: "clean (coVout c)" "\<not> IsPruned c" using Cons.prems(2) c(1) by (auto simp: all_clean_def)
  define W where "W = snd (spend_in V i)"
  have rest: "\<forall>j\<in>set is. spendable W j" using spendable_rest [OF Cons.prems(3,4)] by (simp add: W_def)
  have all: "spend_all V (i # is) = (undo # fst (spend_all W is), snd (spend_all W is))"
    by (simp add: c(8) W_def case_prod_beta)
  have dist: "distinct (map prevout is)" using Cons.prems(4) by simp
  have lost: "lost k" if "snd (spend_all W is) k = None" for k using Cons.prems(6) [of k] that by (simp add: all del: spend_all.simps)
  obtain w where w: "restore_inputs B v True (rev (zip is (fst (spend_all W is)))) = Some (True, w)" "C w" "U w = marked lost W"
    using Cons.IH [OF Cons.prems(1) _ rest dist _ lost] all_clean_spend_in [OF Cons.prems(2) sp] Cons.prems(5)
    by (auto simp: all W_def simp del: spend_all.simps)
  let ?f = "\<lambda>e. UpdateCoinsForRestoredInputs (prevout i) undo e True"
  obtain e x where x: "modify_with B w ?k ?f = Some (fst (?f e), x)" "C x" "unpruned e = U w ?k"
    "U x = (U w)(?k := unpruned (Cleanup (snd (?f e))))"
    by (rule modify_with_ok [OF w(2), of ?k ?f]) auto
  have "W ?k = unpruned d" by (simp add: W_def c(8))
  then have "if IsPruned d then IsPruned e \<and> lost ?k else e = without_mark (lost ?k) d"
    using x(3) w(3) lost spend_all_None [OF _ rest dist, of ?k] by (auto simp: marked_def unpruned_def split: if_splits)
  then have f: "?f e = (True, without_mark (lost ?k) c)" by (rule restore_spent [OF c(2,3) cc(1) c(4-7)]) simp
  have "U x = marked lost V"
    by (rule ext) (auto simp: x(4) w(3) f marked_def W_def c(1,8) Cleanup_clean cc unpruned_def)
  then show ?case using w(1) x f by (auto simp: all restore_inputs_append simp del: spend_all.simps)
qed (auto simp: marked_def)

end

section \<open>A transaction, applied and taken back\<close>

definition connectable :: "(u256 \<rightharpoonup> CCoins) \<Rightarrow> CTransaction \<Rightarrow> bool" where
  "connectable V tx \<longleftrightarrow>
    V (tx_hash tx) = None \<and> (\<not> IsCoinBase tx \<longrightarrow> list_all (spendable V) (vin tx) \<and> distinct (map prevout (vin tx)))"

definition spent :: "(u256 \<rightharpoonup> CCoins) \<Rightarrow> CTransaction \<Rightarrow> CTxInUndo list \<times> (u256 \<rightharpoonup> CCoins)" where
  "spent V tx = (if IsCoinBase tx then ([], V) else spend_all V (vin tx))"

lemma ClearUnspendable_FromTx [simp]: "ClearUnspendable (FromTx tx h) = FromTx tx h"
proof -
  let ?f = "\<lambda>t. if IsUnspendable (scriptPubKey t) then CTxOut_SetNull else t"
  let ?v = "pop_null (map ?f (vout tx))"
  obtain n where n: "map ?f (vout tx) = ?v @ n" using pop_null_split by blast
  have f: "?f (?f t) = ?f t" for t by (simp add: IsUnspendable_def CTxOut_SetNull_def)
  have "map ?f ?v = ?v"
  proof (rule map_idI)
    fix t assume "t \<in> set ?v"
    then have "t \<in> set (map ?f (vout tx))" using arg_cong [OF n, of set] unfolding set_append by blast
    then obtain s where "t = ?f s" unfolding set_map by blast
    then show "?f t = t" by (simp only: f)
  qed
  then show ?thesis by (simp add: FromTx_def ClearUnspendable_def Cleanup_def)
qed

lemma ClearUnspendable_empty: "coVout c = [] \<Longrightarrow> ClearUnspendable c = c"
  by (simp add: ClearUnspendable_def Cleanup_def pop_null.simps)

lemma spent_None: "connectable V tx \<Longrightarrow> V k = None \<Longrightarrow> snd (spent V tx) k = None"
  by (auto simp: connectable_def spent_def list_all_iff intro: spend_all_None)

lemma length_spend_all [simp]: "length (fst (spend_all V is)) = length is"
  by (induction "is" arbitrary: V) (auto simp: case_prod_beta Let_def)

context coins_view begin

lemma UpdateCoins_ok:
  assumes "C v" "connectable (U v) tx"
  obtains w where "UpdateCoinsWithTransaction B tx v [] h = Some (fst (spent (U v) tx), w)" "C w"
    "U w = (snd (spent (U v) tx))(tx_hash tx := unpruned (FromTx tx h))"
proof -
  obtain x where x: "(if \<not> IsCoinBase tx then spend_inputs B v [] (vin tx) else Some ([], v)) = Some (fst (spent (U v) tx), x)"
    "C x" "U x = snd (spent (U v) tx)"
    using spend_inputs_ok [OF assms(1), of "vin tx" "[]"] assms
    by (cases "IsCoinBase tx") (auto simp: connectable_def spent_def list_all_iff)
  obtain w where "modify_with B x (tx_hash tx) (\<lambda>c. ((), FromTx tx h)) = Some ((), w)" "C w"
    "U w = (U x)(tx_hash tx := unpruned (Cleanup (FromTx tx h)))"
    by (rule modify_with_ok [OF x(2), of "tx_hash tx" "\<lambda>c. ((), FromTx tx h)"]) auto
  with x show ?thesis by (intro that [of w]) (simp_all add: UpdateCoinsWithTransaction_def Cleanup_clean)
qed

lemma RemoveTxOutputs_ok:
  assumes "C v" "U v (loc_hash loc) = unpruned (FromTx tx (sint (loc_blockHeight loc)))"
  obtains w where "RemoveTxOutputsFromCache B tx loc v = Some (True, w)" "C w" "U w = (U v)(loc_hash loc := None)"
proof -
  let ?b = "FromTx tx (sint (loc_blockHeight loc))"
  let ?f = "\<lambda>outs. let outs = ClearUnspendable outs;
    outs = (if coVersion ?b < 0 then outs\<lparr>coVersion := coVersion ?b\<rparr> else outs) in (CCoins_equal outs ?b, Clear outs)"
  obtain c w where c: "modify_with B v (loc_hash loc) ?f = Some (fst (?f c), w)" "C w" "unpruned c = unpruned ?b" "clean (coVout c)"
    "U w = (U v)(loc_hash loc := unpruned (Cleanup (snd (?f c))))"
    by (rule modify_with_ok [OF assms(1), of "loc_hash loc" ?f]) (use assms(2) in auto)
  have "fst (?f c)"
  proof (cases "IsPruned ?b")
    case True
    then have "coVout c = []" using c(3,4) by (simp add: unpruned_def clean_pruned split: if_splits)
    then have "IsPruned (c\<lparr>coVersion := x\<rparr>)" "IsPruned c" for x by (simp_all add: IsPruned_def)
    then show ?thesis using True \<open>coVout c = []\<close> by (simp add: CCoins_equal_def ClearUnspendable_empty Let_def)
  next
    case False
    then have "c = ?b" using c(3) by (simp add: unpruned_def split: if_splits)
    then show ?thesis by (simp add: CCoins_equal_def Let_def)
  qed
  moreover have "unpruned (Cleanup (snd (?f c))) = None" by (simp add: unpruned_def Clear_def Let_def) (simp add: IsPruned_def)
  moreover have "RemoveTxOutputsFromCache B tx loc v = modify_with B v (loc_hash loc) ?f"
    by (simp add: RemoveTxOutputsFromCache_def Let_def)
  ultimately show ?thesis using c by (intro that [of w]) simp_all
qed

lemma reverse_ok:
  assumes "C v" "connectable (U v) tx" "0 \<le> h" "h < 2 ^ 31"
  shows "\<exists>undo w x. UpdateCoinsWithTransaction B tx v [] h = Some (undo, w) \<and>
    U w = (snd (spent (U v) tx))(tx_hash tx := unpruned (FromTx tx h)) \<and>
    UpdateCoinsReversingTransaction B tx (TransactionLocationReference_new tx (word_of_int h) n) w (Some undo) = Some (OK, x) \<and>
    C x \<and> U x = marked (\<lambda>k. U w k = None) (U v)"
proof -
  let ?loc = "TransactionLocationReference_new tx (word_of_int h) n" and ?S = "snd (spent (U v) tx)" and ?h = "tx_hash tx"
  have loc: "loc_hash ?loc = ?h" "sint (loc_blockHeight ?loc) = h"
    using assms(3,4) by (simp_all add: TransactionLocationReference_new_def sint_sbintrunc' signed_take_bit_int_eq_self)
  obtain w where w: "UpdateCoinsWithTransaction B tx v [] h = Some (fst (spent (U v) tx), w)" "C w"
    "U w = ?S(?h := unpruned (FromTx tx h))"
    using UpdateCoins_ok [OF assms(1,2)] .
  obtain y where y: "RemoveTxOutputsFromCache B tx ?loc w = Some (True, y)" "C y" "U y = (U w)(?h := None)"
    by (rule RemoveTxOutputs_ok [OF w(2), of ?loc tx]) (use w(3) loc in auto)
  have none: "U v ?h = None" using assms(2) by (simp add: connectable_def)
  then have Uy: "U y = ?S" using spent_None [OF assms(2)] y(3) w(3) by (auto simp: fun_upd_idem)
  have marked: "marked (\<lambda>k. U w k = None) (U v) = marked (\<lambda>k. ?S k = None) (U v)"
    using none w(3) by (auto simp: marked_def fun_eq_iff)
  have S: "marked (\<lambda>k. ?S k = None) ?S = ?S"
    by (rule ext) (auto simp: marked_def without_mark_def map_option_case split: option.splits)
  show ?thesis
  proof (cases "IsCoinBase tx")
    case True
    then show ?thesis using w y Uy marked S by (auto simp: UpdateCoinsReversingTransaction_def spent_def)
  next
    case False
    let ?P = "\<lambda>is. \<forall>i\<in>set is. spendable (U v) i"
    have "all_clean (U v)" using cache_utxo_ok [OF assms(1)] by (auto simp: all_clean_def)
    moreover have "?P (vin tx)" "distinct (map prevout (vin tx))"
      using assms(2) False by (auto simp: connectable_def list_all_iff)
    ultimately obtain x where x: "restore_inputs B y True (rev (zip (vin tx) (fst (spent (U v) tx)))) = Some (True, x)" "C x"
      "U x = marked (\<lambda>k. ?S k = None) (U v)"
      using restore_inputs_ok [OF y(2), of "U v" "vin tx" "\<lambda>k. ?S k = None"] False Uy S by (auto simp: spent_def)
    then show ?thesis using w y(1) marked False by (auto simp: UpdateCoinsReversingTransaction_def spent_def)
  qed
qed

end

section \<open>On the caches of the node\<close>

abbreviation chain_view :: "CCoinsViewDB CCoinsViewCache CCoinsView" where
  "chain_view \<equiv> CCoinsViewCache_view CCoinsViewDB_view"

definition view_ok :: "CCoinsViewDB CCoinsViewCache CCoinsViewCache \<Rightarrow> bool" where
  "view_ok = coins_cache_ok (cache_utxo DB_COINS) (coins_cache_ok DB_COINS db_ok (\<lambda>_ _. True)) cache_loaded"

definition view_utxo :: "CCoinsViewDB CCoinsViewCache CCoinsViewCache \<Rightarrow> u256 \<rightharpoonup> CCoins" where
  "view_utxo = cache_utxo (cache_utxo DB_COINS)"

text \<open>
  A transaction whose inputs are available can be applied and taken back without a failed assertion
  or a reported error. Taking it back restores the set of unspent outputs exactly, except that coins of which
  the transaction spent the last output come back without their coinstake mark: the undo record keeps the mark, but
  it is not copied back, so that the maturity rule for coinstakes no longer applies to the restored coins.
\<close>

theorem transaction_reversal:
  assumes "view_ok v" "connectable (view_utxo v) tx" "0 \<le> h" "h < 2 ^ 31"
  shows "\<exists>undo w x. UpdateCoinsWithTransaction chain_view tx v [] h = Some (undo, w) \<and>
    view_utxo w = (snd (spent (view_utxo v) tx))(tx_hash tx := unpruned (FromTx tx h)) \<and>
    UpdateCoinsReversingTransaction chain_view tx (TransactionLocationReference_new tx (word_of_int h) n) w (Some undo) = Some (OK, x) \<and>
    view_ok x \<and> view_utxo x = (\<lambda>k. map_option (\<lambda>c. if view_utxo w k = None then c\<lparr>fCoinStake := False\<rparr> else c) (view_utxo v k))"
  using tip.reverse_ok [OF assms [unfolded view_ok_def view_utxo_def], of n]
  by (simp add: view_ok_def view_utxo_def marked_def [abs_def] without_mark_def [abs_def])

definition example_stake :: CCoins where
  "example_stake = \<lparr>fCoinBase = False, fCoinStake = True, coVout = [example_output], coHeight = 7, coVersion = 1\<rparr>"

definition example_spender :: CTransaction where
  "example_spender = \<lparr>txVersion = 1, vin = [\<lparr>prevout = \<lparr>op_hash = 9, op_n = 0\<rparr>, scriptSig = [], nSequence = 0\<rparr>],
    vout = [example_output], nLockTime = 0, tx_hash = 10\<rparr>"

definition example_view :: "CCoinsViewDB CCoinsViewCache CCoinsViewCache" where
  "example_view = CCoinsViewCache_new (CCoinsViewCache_new \<lparr>DB_COINS = [9 \<mapsto> example_stake], DB_BESTBLOCKHASH = None\<rparr>)"

lemma example_view_facts:
  "view_ok example_view" "view_utxo example_view = [9 \<mapsto> example_stake]" "connectable [9 \<mapsto> example_stake] example_spender"
proof -
  have "db_ok \<lparr>DB_COINS = [9 \<mapsto> example_stake], DB_BESTBLOCKHASH = None\<rparr>"
    by (simp add: db_ok_def example_stake_def clean_def IsPruned_def)
  then show "view_ok example_view" "view_utxo example_view = [9 \<mapsto> example_stake]"
    using tip.new_cache_ok db.new_cache_ok by (auto simp: view_ok_def view_utxo_def example_view_def)
  show "connectable [9 \<mapsto> example_stake] example_spender"
    by (simp add: connectable_def example_spender_def spendable_def example_stake_def IsAvailable_def exact_def)
qed

theorem transaction_reversal_witness:
  "\<exists>undo w x. UpdateCoinsWithTransaction chain_view example_spender example_view [] 20 = Some (undo, w) \<and>
    UpdateCoinsReversingTransaction chain_view example_spender (TransactionLocationReference_new example_spender 20 0) w (Some undo) = Some (OK, x) \<and>
    view_utxo example_view 9 = Some example_stake \<and> view_utxo x 9 = Some (example_stake\<lparr>fCoinStake := False\<rparr>)"
proof -
  have "snd (spent [9 \<mapsto> example_stake] example_spender) 9 = None"
    by (simp add: spent_def example_spender_def IsCoinBase_def COutPoint_IsNull_def spend_in_def Spend_def example_stake_def
      Cleanup_def pop_null.simps unpruned_def IsPruned_def)
  moreover have "tx_hash example_spender = 10" by (simp add: example_spender_def)
  ultimately show ?thesis
    using transaction_reversal [of example_view example_spender 20 0] example_view_facts by fastforce
qed

end
