(* ===== verification/Coins_Serialize.thy ===== *)
theory Coins_Serialize
  imports Compressor Utxo_Update
begin

text \<open>
  The database form of coins (\<^verbatim>\<open>CCoins::Serialize\<close> and its relatives in \<^verbatim>\<open>coins.h\<close>, \<^verbatim>\<open>coins.cpp\<close>) and of undo records
  (\<^verbatim>\<open>undo.h\<close>, \<^verbatim>\<open>BlockUndo.h\<close>). Only unspent outputs are written; a bit mask says which ones they are. The first two
  outputs have their bits in the header code, the others in bytes of which only the non-zero ones are counted.
\<close>

section \<open>The bit mask\<close>

definition available :: "CTxOut list \<Rightarrow> nat \<Rightarrow> bool" where
  "available v i \<longleftrightarrow> i < length v \<and> \<not> CTxOut_IsNull (v ! i)"

function calc_mask :: "CTxOut list \<Rightarrow> nat \<Rightarrow> nat \<Rightarrow> nat \<Rightarrow> nat \<times> nat" where
  "calc_mask v b nLastUsedByte nNonzeroBytes =
    (if 2 + b * 8 < length v then
       let fZero = list_all (\<lambda>i. \<not> available v (2 + b * 8 + i)) [0..<8]
       in if \<not> fZero then calc_mask v (b + 1) (b + 1) (nNonzeroBytes + 1) else calc_mask v (b + 1) nLastUsedByte nNonzeroBytes
     else (nLastUsedByte, nNonzeroBytes))"
  by pat_completeness auto
termination
  by (relation "measure (\<lambda>(v, b, l, z). length v - b * 8)") auto

declare calc_mask.simps [simp del]

definition CalcMaskSize :: "CCoins \<Rightarrow> nat \<times> nat" where
  "CalcMaskSize c = calc_mask (coVout c) 0 0 0"

definition mask_byte :: "CTxOut list \<Rightarrow> nat \<Rightarrow> u8" where
  "mask_byte v b = fold (\<lambda>i chAvail. if available v (2 + b * 8 + i) then chAvail OR push_bit i 1 else chAvail) [0..<8] 0"

section \<open>Coins\<close>

text \<open>The header code, with the factor of the number of non-zero mask bytes as an argument.\<close>

definition header_code :: "int \<Rightarrow> CCoins \<Rightarrow> nat \<Rightarrow> int" where
  "header_code k c nMaskCode =
    (let fFirst = available (coVout c) 0; fSecond = available (coVout c) 1
     in (k * (int nMaskCode - (if fFirst \<or> fSecond then 0 else 1)) + (if fCoinBase c then 1 else 0) + (if fCoinStake c then 2 else 0) +
          (if fFirst then 4 else 0) + (if fSecond then 8 else 0)) mod 2 ^ 32)"

text \<open>\<open>None\<close> is the failed assertion for coins without an unspent output.\<close>

definition Serialize_coins :: "point_lib \<Rightarrow> CCoins \<Rightarrow> bytes option" where
  "Serialize_coins L c =
    (let (nMaskSize, nMaskCode) = CalcMaskSize c
     in if available (coVout c) 0 \<or> available (coVout c) 1 \<or> nMaskCode \<noteq> 0 then
          Some (WriteVarInt (coVersion c) @ WriteVarInt (header_code 16 c nMaskCode) @ map (mask_byte (coVout c)) [0..<nMaskSize] @
            concat (map (Serialize_txout L) (filter (\<lambda>t. \<not> CTxOut_IsNull t) (coVout c))) @ WriteVarInt (coHeight c))
        else None)"

definition GetSerializeSize_txout :: "point_lib \<Rightarrow> CTxOut \<Rightarrow> nat" where
  "GetSerializeSize_txout L t =
    GetSizeOfVarInt (CompressAmount (nValue t mod 2 ^ 64)) + GetSerializeSize_script L (scriptPubKey t)"

definition GetSerializeSize_coins :: "point_lib \<Rightarrow> CCoins \<Rightarrow> nat option" where
  "GetSerializeSize_coins L c =
    (let (nMaskSize, nMaskCode) = CalcMaskSize c
     in if available (coVout c) 0 \<or> available (coVout c) 1 \<or> nMaskCode \<noteq> 0 then
          Some (GetSizeOfVarInt (coVersion c) + GetSizeOfVarInt (header_code 8 c nMaskCode) + nMaskSize +
            sum_list (map (GetSerializeSize_txout L) (filter (\<lambda>t. \<not> CTxOut_IsNull t) (coVout c))) + GetSizeOfVarInt (coHeight c))
        else None)"

fun read_mask :: "nat \<Rightarrow> bool list \<Rightarrow> bool list reader" where
  "read_mask 0 vAvail s = Inr (vAvail, s)"
| "read_mask (Suc nMaskCode) vAvail [] = Inl end_of_data"
| "read_mask (Suc nMaskCode) vAvail (chAvail # s) =
    read_mask (if chAvail \<noteq> 0 then nMaskCode else Suc nMaskCode) (vAvail @ map (\<lambda>p. chAvail AND push_bit p 1 \<noteq> 0) [0..<8]) s"

fun read_outs :: "point_lib \<Rightarrow> bool list \<Rightarrow> CTxOut list reader" where
  "read_outs L [] = rret []"
| "read_outs L (f # vAvail) =
    rbind (if f then Unserialize_txout L else rret CTxOut_SetNull) (\<lambda>t. rbind (read_outs L vAvail) (\<lambda>ts. rret (t # ts)))"

definition Unserialize_coins :: "point_lib \<Rightarrow> CCoins reader" where
  "Unserialize_coins L =
    rbind (ReadVarInt 32) (\<lambda>nVersion. rbind (ReadVarInt 32) (\<lambda>nCode.
      rbind (read_mask (nat (nCode div 16 + (if nCode AND 12 \<noteq> 0 then 0 else 1))) [nCode AND 4 \<noteq> 0, nCode AND 8 \<noteq> 0]) (\<lambda>vAvail.
        rbind (read_outs L vAvail) (\<lambda>outs. rbind (ReadVarInt 32) (\<lambda>nHeight.
          rret (Cleanup \<lparr>fCoinBase = nCode AND 1 \<noteq> 0, fCoinStake = nCode AND 2 \<noteq> 0, coVout = outs, coHeight = wrap32 nHeight,
            coVersion = wrap32 nVersion\<rparr>))))))"

section \<open>Undo records\<close>

definition undo_code :: "CTxInUndo \<Rightarrow> u32" where
  "undo_code u = unHeight u * 4 + (if unCoinBase u then 2 else 0) + (if unCoinStake u then 1 else 0)"

definition Serialize_undo :: "point_lib \<Rightarrow> CTxInUndo \<Rightarrow> bytes" where
  "Serialize_undo L u =
    WriteVarInt (uint (undo_code u)) @ (if unHeight u > 0 then WriteVarInt (unVersion u) else []) @ Serialize_txout L (txout u)"

definition GetSerializeSize_undo :: "point_lib \<Rightarrow> CTxInUndo \<Rightarrow> nat" where
  "GetSerializeSize_undo L u =
    GetSizeOfVarInt (uint (undo_code u)) + (if unHeight u > 0 then GetSizeOfVarInt (unVersion u) else 0) +
    GetSerializeSize_txout L (txout u)"

text \<open>The record read into is a new one, so its version is 0 when none is read.\<close>

definition Unserialize_undo :: "point_lib \<Rightarrow> CTxInUndo reader" where
  "Unserialize_undo L =
    rbind (ReadVarInt 32) (\<lambda>code.
      let nCode = (word_of_int code :: u32); nHeight = drop_bit 2 nCode
      in rbind (if nHeight > 0 then ReadVarInt 32 else rret 0) (\<lambda>nVersion. rbind (Unserialize_txout L) (\<lambda>t.
           rret \<lparr>txout = t, unCoinBase = nCode AND 2 \<noteq> 0, unCoinStake = nCode AND 1 \<noteq> 0, unHeight = nHeight,
             unVersion = wrap32 nVersion\<rparr>)))"

text \<open>The undo records of a transaction and of a block; the batch sizes depend on the memory layout.\<close>

definition Serialize_CTxUndo :: "point_lib \<Rightarrow> CTxInUndo list \<Rightarrow> bytes" where
  "Serialize_CTxUndo L = Serialize_vector (Serialize_undo L)"

definition Unserialize_CTxUndo :: "nat \<Rightarrow> point_lib \<Rightarrow> CTxInUndo list reader" where
  "Unserialize_CTxUndo batch L = Unserialize_vector batch (Unserialize_undo L)"

definition Serialize_CBlockUndo :: "point_lib \<Rightarrow> CTxInUndo list list \<Rightarrow> bytes" where
  "Serialize_CBlockUndo L = Serialize_vector (Serialize_CTxUndo L)"

definition Unserialize_CBlockUndo :: "nat \<Rightarrow> nat \<Rightarrow> point_lib \<Rightarrow> CTxInUndo list list reader" where
  "Unserialize_CBlockUndo batch_tx batch L = Unserialize_vector batch_tx (Unserialize_CTxUndo batch L)"

section \<open>Reading the mask back\<close>

lemma bit_mask_fold:
  "n \<le> 8 \<Longrightarrow> bit (fold (\<lambda>i ch. if P i then ch OR push_bit i 1 else ch) [0..<n] (0 :: u8)) p \<longleftrightarrow> p < n \<and> P p"
proof (induction n)
  case (Suc n)
  then show ?case by (auto simp: bit_or_iff bit_exp_iff push_bit_eq_mult less_Suc_eq)
qed simp

lemma bit_mask_byte: "bit (mask_byte v b) p \<longleftrightarrow> p < 8 \<and> available v (2 + b * 8 + p)"
  unfolding mask_byte_def by (subst bit_mask_fold [where P = "\<lambda>i. available v (2 + b * 8 + i)"]) auto

lemma mask_byte_zero: "mask_byte v b = 0 \<longleftrightarrow> list_all (\<lambda>i. \<not> available v (2 + b * 8 + i)) [0..<8]"
  by (auto simp: bit_eq_iff bit_mask_byte list_all_iff)

lemma byte_bits: "map (\<lambda>p. mask_byte v b AND push_bit p 1 \<noteq> 0) [0..<8] = map (\<lambda>p. available v (2 + (b * 8 + p))) [0..<8]"
proof -
  have "(mask_byte v b AND push_bit p 1 \<noteq> 0) \<longleftrightarrow> bit (mask_byte v b) p" for p
    by (simp add: and_exp_eq_0_iff_not_bit push_bit_eq_mult)
  then show ?thesis by (auto simp: bit_mask_byte add.assoc)
qed

lemma concat_blocks: "concat (map (\<lambda>b. map (\<lambda>p. f (b * 8 + p)) [0..<8]) [0..<n]) = map f [0..<n * (8 :: nat)]"
proof (induction n)
  case (Suc n)
  have "[0..<n * 8 + 8] = [0..<n * 8] @ [n * 8..<n * 8 + 8]" by (rule upt_add_eq_append) simp
  then have "[0..<Suc n * 8] = [0..<n * 8] @ map (\<lambda>p. n * 8 + p) [0..<8]" by (simp add: map_add_upt add.commute)
  then show ?case using Suc by (simp add: comp_def)
qed simp

lemma read_mask_back:
  "m = [] \<or> last m \<noteq> 0 \<Longrightarrow>
   read_mask (length (filter (\<lambda>x. x \<noteq> 0) m)) a (m @ r) = Inr (a @ concat (map (\<lambda>x. map (\<lambda>p. x AND push_bit p 1 \<noteq> 0) [0..<8]) m), r)"
proof (induction m arbitrary: a)
  case (Cons x m)
  show ?case
  proof (cases "x = 0")
    case True
    then have ne: "m \<noteq> []" "last m \<noteq> 0" using Cons.prems by (auto split: if_splits)
    then have "filter (\<lambda>x. x \<noteq> 0) m \<noteq> []" by (metis (mono_tags) filter_empty_conv last_in_set)
    then obtain k where k: "length (filter (\<lambda>x. x \<noteq> 0) m) = Suc k" by (cases "filter (\<lambda>x. x \<noteq> 0) m") auto
    show ?thesis using Cons.IH ne(2) True k by (simp del: map_append)
  next
    case False
    then have "m = [] \<or> last m \<noteq> 0" using Cons.prems by (auto split: if_splits)
    then show ?thesis using Cons.IH False by simp
  qed
qed simp

text \<open>Clean coins use every byte of the mask up to the last output.\<close>

definition mask_len :: "CTxOut list \<Rightarrow> nat" where
  "mask_len v = (length v - 2 + 7) div 8"

lemma last_byte_used:
  assumes "clean v" "2 < length v"
  shows "mask_byte v (mask_len v - 1) \<noteq> 0"
proof -
  define b i where "b = mask_len v - 1" and "i = length v - 3 - b * 8"
  have "2 + b * 8 + i = length v - 1" "i < 8" using assms(2) unfolding b_def i_def mask_len_def by linarith+
  moreover have "\<not> CTxOut_IsNull (v ! (length v - 1))" using assms by (metis clean_def last_conv_nth list.size(3) not_less_zero)
  ultimately have "bit (mask_byte v b) i" using assms(2) by (simp add: bit_mask_byte available_def)
  then show ?thesis unfolding b_def by auto
qed

lemma calc_mask_clean:
  "clean v \<Longrightarrow> 2 + b * 8 < length v \<Longrightarrow>
    calc_mask v b l z = (mask_len v, z + length (filter (\<lambda>x. x \<noteq> 0) (map (mask_byte v) [b..<mask_len v])))"
proof (induction v b l z rule: calc_mask.induct)
  case (1 v b l z)
  have b: "[b..<mask_len v] = b # [Suc b..<mask_len v]" using 1(4) by (simp add: upt_conv_Cons mask_len_def)
  show ?case
  proof (cases "2 + (b + 1) * 8 < length v")
    case True
    note IH = 1(1) [OF 1(4) refl _ 1(3) True, folded mask_byte_zero] 1(2) [OF 1(4) refl _ 1(3) True, folded mask_byte_zero]
    show ?thesis unfolding calc_mask.simps [of v b] Let_def mask_byte_zero [symmetric] b
      using IH 1(4) by simp
  next
    case False
    then have m: "mask_len v = b + 1" using 1(4) by (simp add: mask_len_def)
    then have "mask_byte v b \<noteq> 0" using last_byte_used [of v] 1(3,4) by simp
    moreover have "calc_mask v (b + 1) l' z' = (l', z')" for l' z' using False by (subst calc_mask.simps) simp
    ultimately show ?thesis unfolding calc_mask.simps [of v b] Let_def mask_byte_zero [symmetric] using 1(4) m by simp
  qed
qed

lemma CalcMaskSize_clean:
  assumes "clean (coVout c)"
  shows "CalcMaskSize c =
    (mask_len (coVout c), length (filter (\<lambda>x. x \<noteq> 0) (map (mask_byte (coVout c)) [0..<mask_len (coVout c)])))"
proof (cases "2 < length (coVout c)")
  case True
  then show ?thesis using calc_mask_clean [OF assms, of 0 0 0] by (simp add: CalcMaskSize_def)
next
  case False
  then show ?thesis by (simp add: CalcMaskSize_def mask_len_def calc_mask.simps)
qed

lemma read_mask_coins:
  assumes "clean v"
  shows "read_mask (length (filter (\<lambda>x. x \<noteq> 0) (map (mask_byte v) [0..<mask_len v]))) [available v 0, available v 1]
      (map (mask_byte v) [0..<mask_len v] @ r) = Inr (map (available v) [0..<2 + mask_len v * 8], r)"
proof -
  let ?m = "map (mask_byte v) [0..<mask_len v]"
  have "?m = [] \<or> last ?m \<noteq> 0"
  proof (cases "2 < length v")
    case True
    then have "mask_len v \<noteq> 0" by (simp add: mask_len_def)
    then show ?thesis using last_byte_used [OF assms True] by (simp add: last_map)
  qed (simp add: mask_len_def)
  then have "read_mask (length (filter (\<lambda>x. x \<noteq> 0) ?m)) [available v 0, available v 1] (?m @ r) =
      Inr ([available v 0, available v 1] @ map (\<lambda>j. available v (2 + j)) [0..<mask_len v * 8], r)"
    by (simp only: read_mask_back map_map comp_def byte_bits concat_blocks [where f = "\<lambda>j. available v (2 + j)"])
  moreover have "[0..<2 + mask_len v * 8] = [0, 1] @ map (\<lambda>j. 2 + j) [0..<mask_len v * 8]"
    using upt_add_eq_append [of 0 2 "mask_len v * 8"] map_add_upt [of 2 "mask_len v * 8"] by (simp add: upt_rec add.commute)
  ultimately show ?thesis by (simp add: comp_def)
qed

section \<open>Reading coins back\<close>

lemma read_outs_none: "read_outs L (replicate k False) r = Inr (replicate k CTxOut_SetNull, r)"
  by (induction k) (simp_all add: rbind_def)

lemma read_outs_append:
  "read_outs L a s = Inr (x, t) \<Longrightarrow> read_outs L b t = Inr (y, u) \<Longrightarrow> read_outs L (a @ b) s = Inr (x @ y, u)"
  by (induction a arbitrary: s x) (auto simp: rbind_def ebind_def split: sum.splits if_splits)

lemma read_outs_back:
  assumes "points_ok L"
  shows "exact v \<Longrightarrow> list_all (\<lambda>t. CTxOut_IsNull t \<or> txout_codec_ok t) v \<Longrightarrow>
    read_outs L (map (\<lambda>t. \<not> CTxOut_IsNull t) v) (concat (map (Serialize_txout L) (filter (\<lambda>t. \<not> CTxOut_IsNull t) v)) @ r) = Inr (v, r)"
  by (induction v) (auto simp: exact_def rbind_def txout_restored [OF assms])

lemma available_map: "n \<ge> length v \<Longrightarrow> map (available v) [0..<n] = map (\<lambda>t. \<not> CTxOut_IsNull t) v @ replicate (n - length v) False"
  by (rule nth_equalityI) (auto simp: available_def nth_append)

lemma pop_null_snoc: "pop_null (v @ [CTxOut_SetNull]) = pop_null v"
  by (subst pop_null.simps) simp

lemma pop_null_padded: "clean v \<Longrightarrow> pop_null (v @ replicate k CTxOut_SetNull) = v"
proof (induction k)
  case (Suc k)
  have "v @ replicate (Suc k) CTxOut_SetNull = (v @ replicate k CTxOut_SetNull) @ [CTxOut_SetNull]" by (simp add: replicate_append_same)
  then show ?case using Suc by (simp only: pop_null_snoc)
qed (simp add: pop_null_clean)

lemma code_flags:
  fixes K m :: int
  assumes "0 \<le> d" "d < 16" "0 \<le> m" "m < 16"
  shows "(16 * K + d) AND m = d AND m"
proof -
  have "take_bit 4 (16 * K + d) = d" "take_bit 4 m = m" using assms by (simp_all add: take_bit_eq_mod)
  then show ?thesis using take_bit_and [of 4 "16 * K + d" m] take_bit_and [of 4 d m]
    by (metis and.assoc and.commute take_bit_eq_mask)
qed

lemma header_flags:
  fixes nCode K :: int
  assumes "nCode = 16 * K + (if b then 1 else 0) + (if s then 2 else 0) + (if f then 4 else 0) + (if g then 8 else 0)"
  shows "(nCode AND 1 \<noteq> 0) = b" "(nCode AND 2 \<noteq> 0) = s" "(nCode AND 4 \<noteq> 0) = f" "(nCode AND 8 \<noteq> 0) = g"
    "(nCode AND 12 \<noteq> 0) = (f \<or> g)" "nCode div 16 = K"
proof -
  define d :: int where "d = (if b then 1 else 0) + (if s then 2 else 0) + (if f then 4 else 0) + (if g then 8 else 0)"
  have n: "nCode = 16 * K + d" and d: "0 \<le> d" "d < 16" using assms by (auto simp: d_def)
  show "(nCode AND 1 \<noteq> 0) = b" "(nCode AND 2 \<noteq> 0) = s" "(nCode AND 4 \<noteq> 0) = f" "(nCode AND 8 \<noteq> 0) = g"
    "(nCode AND 12 \<noteq> 0) = (f \<or> g)"
    unfolding n by (subst code_flags [OF d], simp, simp, simp add: d_def)+
  show "nCode div 16 = K" using n d by simp
qed

definition coins_codec_ok :: "CCoins \<Rightarrow> bool" where
  "coins_codec_ok c \<longleftrightarrow> clean (coVout c) \<and> exact (coVout c) \<and> coVout c \<noteq> [] \<and> length (coVout c) < 2 ^ 30 \<and>
     list_all (\<lambda>t. CTxOut_IsNull t \<or> txout_codec_ok t) (coVout c) \<and>
     0 \<le> coVersion c \<and> coVersion c < 2 ^ 31 \<and> 0 \<le> coHeight c \<and> coHeight c < 2 ^ 31"

lemma wrap32_id: "0 \<le> n \<Longrightarrow> n < 2 ^ 31 \<Longrightarrow> wrap32 n = n"
  by (simp add: wrap32_def)

lemma some_available:
  assumes "clean v" "v \<noteq> []"
  shows "available v 0 \<or> available v 1 \<or> length (filter (\<lambda>x. x \<noteq> 0) (map (mask_byte v) [0..<mask_len v])) \<noteq> 0"
proof (cases "2 < length v")
  case True
  then have "mask_len v - 1 \<in> set [0..<mask_len v]" by (simp add: mask_len_def)
  then have "filter (\<lambda>x. x \<noteq> 0) (map (mask_byte v) [0..<mask_len v]) \<noteq> []"
    using last_byte_used [OF assms(1) True] unfolding filter_empty_conv by (metis image_eqI set_map)
  then show ?thesis by (simp only: length_0_conv simp_thms)
next
  case False
  then have "length v - 1 = 0 \<or> length v - 1 = 1" by arith
  moreover have "available v (length v - 1)" using assms by (simp add: clean_def available_def last_conv_nth)
  ultimately show ?thesis by auto
qed

lemma coins_restored:
  assumes "points_ok L" "coins_codec_ok c"
  shows "\<exists>b. Serialize_coins L c = Some b \<and> (\<forall>r. Unserialize_coins L (b @ r) = Inr (c, r))"
proof -
  define v m where "v = coVout c" and "m = map (mask_byte v) [0..<mask_len v]"
  define nz where "nz = length (filter (\<lambda>x. x \<noteq> 0) m)"
  have ok: "clean v" "exact v" "v \<noteq> []" "length v < 2 ^ 30" "list_all (\<lambda>t. CTxOut_IsNull t \<or> txout_codec_ok t) v"
    "0 \<le> coVersion c" "coVersion c < 2 ^ 31" "0 \<le> coHeight c" "coHeight c < 2 ^ 31"
    using assms(2) by (simp_all add: coins_codec_ok_def v_def)
  have mask: "CalcMaskSize c = (mask_len v, nz)" using CalcMaskSize_clean ok(1) by (simp add: v_def m_def nz_def)
  have last: "available v 0 \<or> available v 1 \<or> nz \<noteq> 0" using some_available [OF ok(1,3)] by (simp only: nz_def m_def)
  have "nz \<le> mask_len v" unfolding nz_def m_def by (rule order_trans [OF length_filter_le]) simp
  then have nz: "nz < 2 ^ 28" using ok(4) by (simp add: mask_len_def)
  define K where "K = int nz - (if available v 0 \<or> available v 1 then 0 else 1)"
  define nCode where "nCode = header_code 16 c nz"
  have K: "0 \<le> K" "K < 2 ^ 28" using last nz by (auto simp: K_def)
  have code: "nCode = 16 * K + (if fCoinBase c then 1 else 0) + (if fCoinStake c then 2 else 0) +
      (if available v 0 then 4 else 0) + (if available v 1 then 8 else 0)"
    unfolding nCode_def header_code_def Let_def v_def [symmetric] K_def [symmetric] using K by auto
  note flags = header_flags [OF code]
  have n: "nat (nCode div 16 + (if nCode AND 12 \<noteq> 0 then 0 else 1)) = nz" unfolding flags using last by (auto simp: K_def)
  have c32: "0 \<le> nCode" "nCode < 2 ^ 32" by (simp_all add: nCode_def header_code_def Let_def)
  define N where "N = 2 + mask_len v * 8"
  have N: "length v \<le> N" by (simp add: N_def mask_len_def)
  define txs where "txs = concat (map (Serialize_txout L) (filter (\<lambda>t. \<not> CTxOut_IsNull t) v))"
  have outs: "read_outs L (map (available v) [0..<N]) (txs @ r) = Inr (v @ replicate (N - length v) CTxOut_SetNull, r)" for r
    unfolding available_map [OF N] txs_def
    by (rule read_outs_append [OF read_outs_back [OF assms(1) ok(2,5)] read_outs_none])
  have outs': "rbind (read_outs L (map (available v) [0..<N])) f (txs @ r) = f (v @ replicate (N - length v) CTxOut_SetNull) r"
    for f :: "_ \<Rightarrow> CCoins reader" and r using outs by (simp add: rbind_Inr)
  have rest: "rbind (read_mask nz [available v 0, available v 1]) f (m @ r) = f (map (available v) [0..<N]) r" for f :: "_ \<Rightarrow> CCoins reader" and r
    using read_mask_coins [OF ok(1), of r] by (simp only: rbind_Inr N_def m_def nz_def)
  have w32: "wrap32 (coVersion c) = coVersion c" "wrap32 (coHeight c) = coHeight c" using ok(6-9) by (simp_all add: wrap32_id)
  have r: "rbind (ReadVarInt 32) f (WriteVarInt (coVersion c) @ s) = f (coVersion c) s" "rbind (ReadVarInt 32) f (WriteVarInt nCode @ s) = f nCode s"
    "rbind (ReadVarInt 32) f (WriteVarInt (coHeight c) @ s) = f (coHeight c) s" for f :: "int \<Rightarrow> CCoins reader" and s
    using ok(6-9) c32 by (simp_all add: varint32.read_back)
  have "Unserialize_coins L ((WriteVarInt (coVersion c) @ WriteVarInt nCode @ m @ txs @ WriteVarInt (coHeight c)) @ r) = Inr (c, r)" for r
    unfolding Unserialize_coins_def append_assoc
    by (simp only: r n, simp only: flags rest outs' r) (simp add: w32 ok(1) Cleanup_def pop_null_padded, simp add: v_def)
  moreover have "Serialize_coins L c = Some (WriteVarInt (coVersion c) @ WriteVarInt nCode @ m @ txs @ WriteVarInt (coHeight c))"
    using last unfolding Serialize_coins_def mask Let_def case_prod_conv nCode_def txs_def m_def v_def by (simp only: if_True)
  ultimately show ?thesis by blast
qed

section \<open>Reading undo records back\<close>

definition undo_codec_ok :: "CTxInUndo \<Rightarrow> bool" where
  "undo_codec_ok u \<longleftrightarrow> unHeight u < 2 ^ 30 \<and> txout_codec_ok (txout u) \<and>
     (if unHeight u = 0 then unVersion u = 0 else 0 \<le> unVersion u \<and> unVersion u < 2 ^ 31)"

lemma undo_code_parts:
  assumes "unHeight u < 2 ^ 30"
  shows "drop_bit 2 (undo_code u) = unHeight u" "(undo_code u AND 2 \<noteq> 0) = unCoinBase u" "(undo_code u AND 1 \<noteq> 0) = unCoinStake u"
proof -
  define h where "h = uint (unHeight u)"
  define d :: int where "d = (if unCoinBase u then 2 else 0) + (if unCoinStake u then 1 else 0)"
  have h: "0 \<le> h" "h < 2 ^ 30" using assms by (simp_all add: h_def word_less_def)
  have d: "0 \<le> d" "d < 4" by (auto simp: d_def)
  have w: "undo_code u = word_of_int (4 * h + d)" by (auto simp: undo_code_def h_def d_def)
  have "take_bit 32 (4 * h + d) = 4 * h + d" using h d by (simp add: take_bit_int_eq_self)
  then have c: "uint (undo_code u) = 4 * h + d" unfolding w uint_word_of_int_eq by simp
  have "uint (drop_bit 2 (undo_code u)) = h" using d by (simp add: drop_bit_eq_div uint_div_distrib c)
  then show "drop_bit 2 (undo_code u) = unHeight u" by (simp add: h_def word_uint_eq_iff)
  have b: "bit (undo_code u) 0 = odd d" "bit (undo_code u) (Suc 0) = odd (d div 2)"
  proof -
    have "odd ((4 * h + d) div 2) = odd (d div 2)" by presburger
    then show "bit (undo_code u) 0 = odd d" "bit (undo_code u) (Suc 0) = odd (d div 2)"
      using bit_uint_iff [of "undo_code u" 0] bit_uint_iff [of "undo_code u" "Suc 0"] unfolding c bit_iff_odd [of "4 * h + d"] by simp_all
  qed
  then show "(undo_code u AND 2 \<noteq> 0) = unCoinBase u" "(undo_code u AND 1 \<noteq> 0) = unCoinStake u"
    using and_exp_eq_0_iff_not_bit [of "undo_code u" 1] and_exp_eq_0_iff_not_bit [of "undo_code u" 0] by (auto simp: d_def)
qed

lemma undo_restored:
  assumes "points_ok L" "undo_codec_ok u"
  shows "Unserialize_undo L (Serialize_undo L u @ r) = Inr (u, r)"
proof -
  have h: "unHeight u < 2 ^ 30" and t: "txout_codec_ok (txout u)"
    and v: "if unHeight u = 0 then unVersion u = 0 else 0 \<le> unVersion u \<and> unVersion u < 2 ^ 31"
    using assms(2) unfolding undo_codec_ok_def by blast+
  have c: "0 \<le> uint (undo_code u) \<and> uint (undo_code u) < 2 ^ 32" using uint_bounded [of "undo_code u"] by simp
  have z: "unHeight u > 0 \<longleftrightarrow> unHeight u \<noteq> 0" by (simp add: word_gt_0)
  have rt: "rbind (Unserialize_txout L) f (Serialize_txout L (txout u) @ r) = f (txout u) r" for f :: "_ \<Rightarrow> CTxInUndo reader"
    using txout_restored [OF assms(1) t] by (simp add: rbind_Inr)
  show ?thesis
  proof (cases "unHeight u = 0")
    case True
    then show ?thesis using v c rt undo_code_parts [OF h]
      by (simp add: Serialize_undo_def Unserialize_undo_def varint32.read_back wrap32_def rbind_Inr [of "rret 0"])
  next
    case False
    then show ?thesis using v c z rt undo_code_parts [OF h]
      by (simp add: Serialize_undo_def Unserialize_undo_def varint32.read_back wrap32_id)
  qed
qed

lemma undo_codec: "points_ok L \<Longrightarrow> codec (Serialize_undo L) (Unserialize_undo L) undo_codec_ok"
  by unfold_locales (rule undo_restored)

definition tx_undo_ok :: "CTxInUndo list \<Rightarrow> bool" where
  "tx_undo_ok us \<longleftrightarrow> int (length us) \<le> MAX_SIZE \<and> list_all undo_codec_ok us"

lemma tx_undo_codec:
  "points_ok L \<Longrightarrow> 0 < batch \<Longrightarrow> codec (Serialize_CTxUndo L) (Unserialize_CTxUndo batch L) tx_undo_ok"
  unfolding Serialize_CTxUndo_def Unserialize_CTxUndo_def tx_undo_ok_def by (rule codec.vector_codec [OF undo_codec])

definition block_undo_ok :: "CTxInUndo list list \<Rightarrow> bool" where
  "block_undo_ok b \<longleftrightarrow> int (length b) \<le> MAX_SIZE \<and> list_all tx_undo_ok b"

lemma block_undo_codec:
  "points_ok L \<Longrightarrow> 0 < batch \<Longrightarrow> 0 < batch_tx \<Longrightarrow>
   codec (Serialize_CBlockUndo L) (Unserialize_CBlockUndo batch_tx batch L) block_undo_ok"
  unfolding Serialize_CBlockUndo_def Unserialize_CBlockUndo_def block_undo_ok_def by (rule codec.vector_codec [OF tx_undo_codec])

text \<open>What a spend records can be written, for coins that can be.\<close>

lemma Spend_undo_ok:
  assumes "Spend c n u = (True, c', u')" "coins_codec_ok c" "coHeight c < 2 ^ 30" "0 < coHeight c"
  shows "undo_codec_ok u'"
proof -
  have n: "0 \<le> n" "nat n < length (coVout c)" "\<not> CTxOut_IsNull (coVout c ! nat n)"
    using assms(1) by (auto simp: Spend_def split: if_splits)
  have t: "txout_codec_ok (coVout c ! nat n)" "0 \<le> n" "nat n < length (coVout c)"
    using assms(2) n unfolding coins_codec_ok_def list_all_iff by (auto dest: nth_mem)
  have c': "coHeight c' = coHeight c" "coVersion c' = coVersion c" using assms(1)
    by (auto simp: Spend_def Let_def Cleanup_def split: if_splits)
  have h: "(word_of_int (coHeight c) :: u32) < 2 ^ 30" "(word_of_int (coHeight c) :: u32) \<noteq> 0"
    using assms(3,4) by (simp_all add: word_less_def uint_word_of_int_eq take_bit_int_eq_self word_uint_eq_iff)
  have "u' = CTxInUndo_of (coVout c ! nat n) \<or> txout u' = coVout c ! nat n \<and> unHeight u' = word_of_int (coHeight c) \<and> unVersion u' = coVersion c"
    using assms(1) by (auto simp: Spend_def Let_def Cleanup_def CTxInUndo_of_def split: if_splits)
  then show ?thesis using t h assms(2) by (auto simp: undo_codec_ok_def CTxInUndo_of_def coins_codec_ok_def)
qed

section \<open>Sizes\<close>

lemma length_Serialize_txout: "length (Serialize_txout L t) = GetSerializeSize_txout L t"
  by (simp add: Serialize_txout_def GetSerializeSize_txout_def length_WriteVarInt length_Serialize_script)

lemma length_Serialize_undo: "length (Serialize_undo L u) = GetSerializeSize_undo L u"
  by (simp add: Serialize_undo_def GetSerializeSize_undo_def length_WriteVarInt length_Serialize_txout)

text \<open>
  The size computed for coins is the number of bytes written when both header codes have the same length. The codes differ by
  a factor for the mask bytes, so that does not hold of all coins.
\<close>

lemma length_Serialize_coins:
  assumes "Serialize_coins L c = Some b" "GetSerializeSize_coins L c = Some n" "CalcMaskSize c = (ms, nz)"
  shows "length b + GetSizeOfVarInt (header_code 8 c nz) = n + GetSizeOfVarInt (header_code 16 c nz)"
  using assms by (auto simp: Serialize_coins_def GetSerializeSize_coins_def length_WriteVarInt length_concat length_Serialize_txout comp_def
    split: if_splits)

definition many_outputs :: CCoins where
  "many_outputs = \<lparr>fCoinBase = False, fCoinStake = False, coVout = replicate 66 \<lparr>nValue = 1, scriptPubKey = []\<rparr>, coHeight = 1, coVersion = 1\<rparr>"

lemma CalcMaskSize_many: "CalcMaskSize many_outputs = (8, 8)"
  by code_simp

theorem coins_size_differs:
  "\<exists>c b n. Serialize_coins L c = Some b \<and> GetSerializeSize_coins L c = Some n \<and> length b = n + 1"
proof -
  have a: "available (coVout many_outputs) 0" "available (coVout many_outputs) (Suc 0)"
    by (simp_all add: available_def many_outputs_def CTxOut_IsNull_def)
  then obtain b n where bn: "Serialize_coins L many_outputs = Some b" "GetSerializeSize_coins L many_outputs = Some n"
    by (simp add: Serialize_coins_def GetSerializeSize_coins_def CalcMaskSize_many)
  have "header_code 8 many_outputs 8 = 76" "header_code 16 many_outputs 8 = 140"
    using a by (simp_all add: header_code_def many_outputs_def)
  then have "GetSizeOfVarInt (header_code 8 many_outputs 8) = 1" "GetSizeOfVarInt (header_code 16 many_outputs 8) = 2"
    by (simp_all add: GetSizeOfVarInt.simps)
  then have "length b = n + 1" using length_Serialize_coins [OF bn CalcMaskSize_many] by simp
  then show ?thesis using bn by blast
qed

section \<open>Properties\<close>

text \<open>
  C14: Coins written to the database are read back as they were, whatever follows in the stream: which outputs are spent, the
  marks of coinbase and coinstake, height and version. The writing does not fail. This holds of coins without spent
  outputs at the end, with a version that is not negative, amounts below \<open>2 ^ 60\<close> and spent outputs without a script.
\<close>

theorem coins_roundtrip:
  assumes "points_ok L" "coins_codec_ok c"
  shows "\<exists>b. Serialize_coins L c = Some b \<and> (\<forall>r. Unserialize_coins L (b @ r) = Inr (c, r))"
  using assms by (rule coins_restored)

definition example_points :: point_lib where
  "example_points = \<lparr>IsFullyValid = (\<lambda>k. False), pub_Decompress = (\<lambda>k. None)\<rparr>"

definition example_coins :: CCoins where
  "example_coins = \<lparr>fCoinBase = False, fCoinStake = True,
     coVout = [CTxOut_SetNull, \<lparr>nValue = 60000000000, scriptPubKey = [OP_TRUE]\<rparr>, CTxOut_SetNull, \<lparr>nValue = 110397, scriptPubKey = []\<rparr>],
     coHeight = 203998, coVersion = 1\<rparr>"

lemma points_ok_example: "points_ok example_points"
  by (simp add: points_ok_def example_points_def)

lemma coins_roundtrip_witness:
  "points_ok example_points \<and> coins_codec_ok example_coins \<and>
   (\<exists>b. Serialize_coins example_points example_coins = Some b \<and> (\<forall>r. Unserialize_coins example_points (b @ r) = Inr (example_coins, r)))"
proof -
  have "coins_codec_ok example_coins"
    by (simp add: coins_codec_ok_def example_coins_def clean_def exact_def CTxOut_IsNull_def CTxOut_SetNull_def txout_codec_ok_def script_codec_ok_def)
  with coins_roundtrip [OF points_ok_example this] show ?thesis using points_ok_example by blast
qed

end
