(* ===== verification/Tx_Check.thy ===== *)
theory Tx_Check
  imports Utxo_Update Signature_Hash
begin

text \<open>
  Checking the inputs of a transaction (\<^verbatim>\<open>CheckInputs\<close> of \<^verbatim>\<open>UtxoCheckingAndUpdating.cpp\<close>, \<^verbatim>\<open>scriptCheck.cpp\<close>, \<^verbatim>\<open>TransactionOpCounting.cpp\<close>,
  \<^verbatim>\<open>ValidationState.cpp\<close>): the inputs are unspent and mature, their values are in range and pay for the outputs, and their
  scripts accept. The theory shows what a transaction that passes can rely on.
\<close>

section \<open>Validation state\<close>

datatype mode_state = MODE_VALID | MODE_INVALID | MODE_ERROR

record CValidationState =
  vmode :: mode_state
  nDoS :: int
  strRejectReason :: string
  chRejectCode :: u8
  corruptionPossible :: bool

definition CValidationState_new :: CValidationState where
  "CValidationState_new = \<lparr>vmode = MODE_VALID, nDoS = 0, strRejectReason = [], chRejectCode = 0, corruptionPossible = False\<rparr>"

definition DoS :: "CValidationState \<Rightarrow> int \<Rightarrow> bool \<Rightarrow> u8 \<Rightarrow> string \<Rightarrow> bool \<Rightarrow> bool \<times> CValidationState" where
  "DoS st level ret chRejectCodeIn strRejectReasonIn corruptionIn =
    (let st = st\<lparr>chRejectCode := chRejectCodeIn, strRejectReason := strRejectReasonIn, corruptionPossible := corruptionIn\<rparr>
     in if vmode st = MODE_ERROR then (ret, st) else (ret, st\<lparr>nDoS := nDoS st + level, vmode := MODE_INVALID\<rparr>))"

definition Invalid :: "CValidationState \<Rightarrow> bool \<Rightarrow> u8 \<Rightarrow> string \<Rightarrow> bool \<times> CValidationState" where
  "Invalid st ret code reason = DoS st 0 ret code reason False"

definition state_Error :: "CValidationState \<Rightarrow> string \<Rightarrow> bool \<times> CValidationState" where
  "state_Error st reason =
    (let st = (if vmode st = MODE_VALID then st\<lparr>strRejectReason := reason\<rparr> else st) in (False, st\<lparr>vmode := MODE_ERROR\<rparr>))"

definition state_IsValid :: "CValidationState \<Rightarrow> bool" where
  "state_IsValid st \<longleftrightarrow> vmode st = MODE_VALID"

definition state_IsInvalid :: "CValidationState \<Rightarrow> int option" where
  "state_IsInvalid st = (if vmode st = MODE_INVALID then Some (nDoS st) else None)"

definition REJECT_INVALID :: u8 where "REJECT_INVALID = 0x10"

definition REJECT_NONSTANDARD :: u8 where "REJECT_NONSTANDARD = 0x40"

definition MoneyRange :: "int \<Rightarrow> int \<Rightarrow> bool" where
  "MoneyRange nValueOut maxMoneyInOutput \<longleftrightarrow> nValueOut \<ge> 0 \<and> nValueOut \<le> maxMoneyInOutput"

section \<open>Script checks\<close>

fun ScriptErrorString :: "ScriptError \<Rightarrow> string" where
  "ScriptErrorString SCRIPT_ERR_OK = ''No error''"
| "ScriptErrorString SCRIPT_ERR_EVAL_FALSE = ''Script evaluated without error but finished with a false/empty top stack element''"
| "ScriptErrorString SCRIPT_ERR_VERIFY = ''Script failed an OP_VERIFY operation''"
| "ScriptErrorString SCRIPT_ERR_EQUALVERIFY = ''Script failed an OP_EQUALVERIFY operation''"
| "ScriptErrorString SCRIPT_ERR_CHECKMULTISIGVERIFY = ''Script failed an OP_CHECKMULTISIGVERIFY operation''"
| "ScriptErrorString SCRIPT_ERR_CHECKSIGVERIFY = ''Script failed an OP_CHECKSIGVERIFY operation''"
| "ScriptErrorString SCRIPT_ERR_NUMEQUALVERIFY = ''Script failed an OP_NUMEQUALVERIFY operation''"
| "ScriptErrorString SCRIPT_ERR_SCRIPT_SIZE = ''Script is too big''"
| "ScriptErrorString SCRIPT_ERR_PUSH_SIZE = ''Push value size limit exceeded''"
| "ScriptErrorString SCRIPT_ERR_OP_COUNT = ''Operation limit exceeded''"
| "ScriptErrorString SCRIPT_ERR_STACK_SIZE = ''Stack size limit exceeded''"
| "ScriptErrorString SCRIPT_ERR_SIG_COUNT = ''Signature count negative or greater than pubkey count''"
| "ScriptErrorString SCRIPT_ERR_PUBKEY_COUNT = ''Pubkey count negative or limit exceeded''"
| "ScriptErrorString SCRIPT_ERR_BAD_OPCODE = ''Opcode missing or not understood''"
| "ScriptErrorString SCRIPT_ERR_DISABLED_OPCODE = ''Attempted to use a disabled opcode''"
| "ScriptErrorString SCRIPT_ERR_INVALID_STACK_OPERATION = ''Operation not valid with the current stack size''"
| "ScriptErrorString SCRIPT_ERR_INVALID_ALTSTACK_OPERATION = ''Operation not valid with the current altstack size''"
| "ScriptErrorString SCRIPT_ERR_OP_META = ''OP_META was encountered''"
| "ScriptErrorString SCRIPT_ERR_UNBALANCED_CONDITIONAL = ''Invalid OP_IF construction''"
| "ScriptErrorString SCRIPT_ERR_SIG_HASHTYPE = ''Signature hash type missing or not understood''"
| "ScriptErrorString SCRIPT_ERR_SIG_DER = ''Non-canonical DER signature''"
| "ScriptErrorString SCRIPT_ERR_MINIMALDATA = ''Data push larger than necessary''"
| "ScriptErrorString SCRIPT_ERR_SIG_PUSHONLY = ''Only non-push operators allowed in signatures''"
| "ScriptErrorString SCRIPT_ERR_SIG_HIGH_S = ''Non-canonical signature: S value is unnecessarily high''"
| "ScriptErrorString SCRIPT_ERR_SIG_NULLDUMMY = ''Dummy CHECKMULTISIG argument must be zero''"
| "ScriptErrorString SCRIPT_ERR_DISCOURAGE_UPGRADABLE_NOPS = ''NOPx reserved for soft-fork upgrades''"
| "ScriptErrorString SCRIPT_ERR_PUBKEYTYPE = ''Public key is neither compressed or uncompressed''"
| "ScriptErrorString SCRIPT_ERR_UNKNOWN_ERROR = ''unknown error''"
| "ScriptErrorString SCRIPT_ERR_ERROR_COUNT = ''unknown error''"

text \<open>Ways to leave a function other than by a return.\<close>

datatype halt = assert_failed | not_found | out_of_range | thrown value_error

record CScriptCheck =
  chk_scriptPubKey :: CScript
  ptxTo :: CTransaction
  chk_nIn :: nat
  chk_nFlags :: u32
  cacheStore :: bool

definition CScriptCheck_new :: "CCoins \<Rightarrow> CTransaction \<Rightarrow> nat \<Rightarrow> u32 \<Rightarrow> bool \<Rightarrow> halt + CScriptCheck" where
  "CScriptCheck_new txFromIn txToIn nInIn nFlagsIn cacheIn =
    (let n = unat (op_n (prevout (vin txToIn ! nInIn)))
     in if n < length (coVout txFromIn) then
          Inr \<lparr>chk_scriptPubKey = scriptPubKey (coVout txFromIn ! n), ptxTo = txToIn, chk_nIn = nInIn, chk_nFlags = nFlagsIn, cacheStore = cacheIn\<rparr>
        else Inl out_of_range)"

text \<open>
  Running a check gives its result and the error it ends with. The checker of the code asks a cache of valid signatures first; the
  answers are the same as without it.
\<close>

definition run_check :: "crypto_lib \<Rightarrow> CScriptCheck \<Rightarrow> halt + (bool \<times> ScriptError)" where
  "run_check L check =
    (case VerifyScript (TransactionSignatureChecker L (ptxTo check) (chk_nIn check)) (scriptSig (vin (ptxTo check) ! chk_nIn check))
       (chk_scriptPubKey check) (chk_nFlags check) of
       None \<Rightarrow> Inl assert_failed
     | Some (Inl e) \<Rightarrow> Inr (False, e)
     | Some (Inr u) \<Rightarrow> Inr (True, SCRIPT_ERR_OK))"

section \<open>Inputs\<close>

text \<open>What the check reads besides its arguments: the libraries, the chain parameters and the heights of known blocks.\<close>

record check_env =
  ce_lib :: crypto_lib
  MaxMoneyOut :: int
  COINBASE_MATURITY :: int
  ce_heights :: "u256 \<rightharpoonup> int"

fun check_values ::
  "check_env \<Rightarrow> 'v CCoinsView \<Rightarrow> int \<Rightarrow> CTxIn list \<Rightarrow> CValidationState \<Rightarrow> 'v CCoinsViewCache \<Rightarrow> int \<Rightarrow>
   halt + (bool \<times> CValidationState \<times> 'v CCoinsViewCache \<times> int)" where
  "check_values E B nSpendHeight [] st v nValueIn = Inr (True, st, v, nValueIn)"
| "check_values E B nSpendHeight (txin # txins) st v nValueIn =
    (case AccessCoins B v (op_hash (prevout txin)) of
       (None, v) \<Rightarrow> Inl assert_failed
     | (Some c, v) \<Rightarrow>
         if (fCoinBase c \<or> fCoinStake c) \<and> nSpendHeight - coHeight c < COINBASE_MATURITY E then
           let (r, st) = Invalid st False REJECT_INVALID ''bad-txns-premature-spend-of-coinbase'' in Inr (r, st, v, nValueIn)
         else if unat (op_n (prevout txin)) \<ge> length (coVout c) then Inl out_of_range
         else
           let x = nValue (coVout c ! unat (op_n (prevout txin))); nValueIn = wrap64 (nValueIn + x)
           in if \<not> MoneyRange x (MaxMoneyOut E) \<or> \<not> MoneyRange nValueIn (MaxMoneyOut E) then
                let (r, st) = DoS st 100 False REJECT_INVALID ''bad-txns-inputvalues-outofrange'' False in Inr (r, st, v, nValueIn)
              else check_values E B nSpendHeight txins st v nValueIn)"

definition GetValueOut_halt :: "CTransaction \<Rightarrow> halt + int" where
  "GetValueOut_halt tx = (case GetValueOut tx of Inl e \<Rightarrow> Inl (thrown e) | Inr x \<Rightarrow> Inr x)"

definition check_fees ::
  "check_env \<Rightarrow> CTransaction \<Rightarrow> CValidationState \<Rightarrow> int \<Rightarrow> int \<Rightarrow> halt + (bool \<times> CValidationState \<times> int)" where
  "check_fees E tx st nFees nValueIn =
    ebind (GetValueOut_halt tx) (\<lambda>out.
      if nValueIn < out then let (r, st) = DoS st 100 False REJECT_INVALID ''bad-txns-in-belowout'' False in Inr (r, st, nFees)
      else
        let nTxFee = wrap64 (nValueIn - out)
        in if nTxFee < 0 then let (r, st) = DoS st 100 False REJECT_INVALID ''bad-txns-fee-negative'' False in Inr (r, st, nFees)
           else
             let nFees = wrap64 (nFees + nTxFee)
             in if \<not> MoneyRange nFees (MaxMoneyOut E) then
                  let (r, st) = DoS st 100 False REJECT_INVALID ''bad-txns-fee-outofrange'' False in Inr (r, st, nFees)
                else Inr (True, st, nFees))"

text \<open>
  The failure of an immediate check. A second check without the flags that are not mandatory decides on the penalty. The
  message of that branch is built from the error of the second check, which has succeeded.
\<close>

definition failed_check ::
  "check_env \<Rightarrow> CCoins \<Rightarrow> CTransaction \<Rightarrow> nat \<Rightarrow> u32 \<Rightarrow> bool \<Rightarrow> ScriptError \<Rightarrow> CValidationState \<Rightarrow> halt + (bool \<times> CValidationState)" where
  "failed_check E c tx i fl cacheIn e st =
    (let mandatory = DoS st 100 False REJECT_INVALID (''mandatory-script-verify-flag-failed ('' @ ScriptErrorString e @ '')'') False
     in if fl AND STANDARD_NOT_MANDATORY_VERIFY_FLAGS \<noteq> 0 then
          ebind (CScriptCheck_new c tx i (fl AND NOT STANDARD_NOT_MANDATORY_VERIFY_FLAGS) cacheIn) (\<lambda>check.
            ebind (run_check (ce_lib E) check) (\<lambda>(ok2, e2).
              if ok2 then
                Inr (Invalid st False REJECT_NONSTANDARD (''non-mandatory-script-verify-flag ('' @ ScriptErrorString e2 @ '')''))
              else Inr mandatory))
        else Inr mandatory)"

text \<open>Checks are run at once, or collected when a vector is passed for them.\<close>

fun check_scripts ::
  "check_env \<Rightarrow> 'v CCoinsView \<Rightarrow> CTransaction \<Rightarrow> u32 \<Rightarrow> bool \<Rightarrow> nat \<Rightarrow> CTxIn list \<Rightarrow> CValidationState \<Rightarrow> 'v CCoinsViewCache \<Rightarrow>
   CScriptCheck list option \<Rightarrow> halt + (bool \<times> CValidationState \<times> 'v CCoinsViewCache \<times> CScriptCheck list option)" where
  "check_scripts E B tx fl cacheIn i [] st v pvChecks = Inr (True, st, v, pvChecks)"
| "check_scripts E B tx fl cacheIn i (txin # txins) st v pvChecks =
    (case AccessCoins B v (op_hash (prevout txin)) of
       (None, v) \<Rightarrow> Inl assert_failed
     | (Some c, v) \<Rightarrow>
         ebind (CScriptCheck_new c tx i fl cacheIn) (\<lambda>check.
           case pvChecks of
             Some checks \<Rightarrow> check_scripts E B tx fl cacheIn (Suc i) txins st v (Some (checks @ [check]))
           | None \<Rightarrow>
               ebind (run_check (ce_lib E) check) (\<lambda>(ok, e).
                 if ok then check_scripts E B tx fl cacheIn (Suc i) txins st v pvChecks
                 else ebind (failed_check E c tx i fl cacheIn e st) (\<lambda>(r, st). Inr (r, st, v, pvChecks)))))"

record 'v check_result =
  cr_ok :: bool
  cr_state :: CValidationState
  cr_view :: "'v CCoinsViewCache"
  nFees :: int
  nValueIn :: int
  cr_checks :: "CScriptCheck list option"

definition CheckInputs ::
  "check_env \<Rightarrow> 'v CCoinsView \<Rightarrow> CTransaction \<Rightarrow> CValidationState \<Rightarrow> 'v CCoinsViewCache \<Rightarrow> int \<Rightarrow> int \<Rightarrow> bool \<Rightarrow> u32 \<Rightarrow> bool \<Rightarrow>
   CScriptCheck list option \<Rightarrow> bool \<Rightarrow> halt + 'v check_result" where
  "CheckInputs E B tx st v fees valueIn fScriptChecks fl cacheIn pvChecks connectBlockDoS =
    (let result = (\<lambda>r st v fees valueIn pvChecks.
           \<lparr>cr_ok = r, cr_state = st, cr_view = v, nFees = fees, nValueIn = valueIn, cr_checks = pvChecks\<rparr>)
     in if IsCoinBase tx then Inr (result True st v fees valueIn pvChecks)
        else
          let (have_all, v) = HaveInputs B v tx
          in if \<not> have_all then
               let (r, st) = (if connectBlockDoS then DoS st 100 False REJECT_INVALID ''bad-txns-inputs-missingorspent'' False
                              else Invalid st False 0 [])
               in Inr (result r st v fees valueIn pvChecks)
             else
               let (hashBest, v) = GetBestBlock B v
               in case ce_heights E hashBest of
                    None \<Rightarrow> Inl not_found
                  | Some nHeight \<Rightarrow>
                      ebind (check_values E B (nHeight + 1) (vin tx) st v valueIn) (\<lambda>(r, st, v, valueIn).
                        if \<not> r then Inr (result r st v fees valueIn pvChecks)
                        else ebind (if IsCoinStake tx then Inr (True, st, fees) else check_fees E tx st fees valueIn) (\<lambda>(r, st, fees).
                          if \<not> r then Inr (result r st v fees valueIn pvChecks)
                          else if fScriptChecks then
                            ebind (check_scripts E B tx fl cacheIn 0 (vin tx) st v pvChecks)
                              (\<lambda>(r, st, v, pvChecks). Inr (result r st v fees valueIn pvChecks))
                          else Inr (result True st v fees valueIn pvChecks))))"

text \<open>The variant without amounts; its callers do not penalise missing inputs.\<close>

definition CheckInputs_simple ::
  "check_env \<Rightarrow> 'v CCoinsView \<Rightarrow> CTransaction \<Rightarrow> CValidationState \<Rightarrow> 'v CCoinsViewCache \<Rightarrow> bool \<Rightarrow> u32 \<Rightarrow> bool \<Rightarrow> CScriptCheck list option \<Rightarrow>
   halt + 'v check_result" where
  "CheckInputs_simple E B tx st v fScriptChecks fl cacheIn pvChecks = CheckInputs E B tx st v 0 0 fScriptChecks fl cacheIn pvChecks False"

section \<open>Counting signature operations\<close>

definition GetLegacySigOpCount :: "CTransaction \<Rightarrow> u32" where
  "GetLegacySigOpCount tx =
    fold (\<lambda>t n. n + word_of_nat (GetSigOpCount (scriptPubKey t) False)) (vout tx)
      (fold (\<lambda>i n. n + word_of_nat (GetSigOpCount (scriptSig i) False)) (vin tx) 0)"

fun p2sh_loop :: "'v CCoinsView \<Rightarrow> CTxIn list \<Rightarrow> u32 \<Rightarrow> 'v CCoinsViewCache \<Rightarrow> (u32 \<times> 'v CCoinsViewCache) option" where
  "p2sh_loop B [] nSigOps v = Some (nSigOps, v)"
| "p2sh_loop B (i # is) nSigOps v =
    Option.bind (GetOutputFor B v i) (\<lambda>(out, v).
      p2sh_loop B is (if IsPayToScriptHash (scriptPubKey out) then nSigOps + word_of_nat (GetSigOpCount_of (scriptPubKey out) (scriptSig i))
                      else nSigOps) v)"

definition GetP2SHSigOpCount :: "'v CCoinsView \<Rightarrow> CTransaction \<Rightarrow> 'v CCoinsViewCache \<Rightarrow> (u32 \<times> 'v CCoinsViewCache) option" where
  "GetP2SHSigOpCount B tx v = (if IsCoinBase tx then Some (0, v) else p2sh_loop B (vin tx) 0 v)"

section \<open>What the checks read\<close>

text \<open>The output an input spends, read from the set of unspent outputs.\<close>

definition spent_output :: "(u256 \<rightharpoonup> CCoins) \<Rightarrow> CTxIn \<Rightarrow> CTxOut option" where
  "spent_output V i =
    Option.bind (V (op_hash (prevout i))) (\<lambda>c. if IsAvailable c (op_n (prevout i)) then Some (coVout c ! unat (op_n (prevout i))) else None)"

definition value_of :: "(u256 \<rightharpoonup> CCoins) \<Rightarrow> CTxIn \<Rightarrow> int" where
  "value_of V i = (case spent_output V i of None \<Rightarrow> 0 | Some t \<Rightarrow> nValue t)"

definition mature :: "check_env \<Rightarrow> int \<Rightarrow> (u256 \<rightharpoonup> CCoins) \<Rightarrow> CTxIn \<Rightarrow> bool" where
  "mature E h V i \<longleftrightarrow>
    (\<exists>c. V (op_hash (prevout i)) = Some c \<and> (fCoinBase c \<or> fCoinStake c \<longrightarrow> COINBASE_MATURITY E \<le> h - coHeight c))"

definition input_checks :: "(u256 \<rightharpoonup> CCoins) \<Rightarrow> CTransaction \<Rightarrow> u32 \<Rightarrow> bool \<Rightarrow> nat \<Rightarrow> CTxIn list \<Rightarrow> CScriptCheck list" where
  "input_checks V tx fl cacheIn i txins =
    map (\<lambda>(j, txin). \<lparr>chk_scriptPubKey = scriptPubKey (the (spent_output V txin)), ptxTo = tx, chk_nIn = j, chk_nFlags = fl, cacheStore = cacheIn\<rparr>)
      (zip [i..<i + length txins] txins)"

lemma input_checks_Nil [simp]: "input_checks V tx fl cacheIn i [] = []"
  by (simp add: input_checks_def)

lemma input_checks_Cons [simp]:
  "input_checks V tx fl cacheIn i (txin # txins) =
    \<lparr>chk_scriptPubKey = scriptPubKey (the (spent_output V txin)), ptxTo = tx, chk_nIn = i, chk_nFlags = fl, cacheStore = cacheIn\<rparr> #
      input_checks V tx fl cacheIn (Suc i) txins"
  by (simp add: input_checks_def upt_conv_Cons del: upt_Suc)

lemma unpruned_Some: "unpruned c = Some d \<longleftrightarrow> \<not> IsPruned c \<and> c = d"
  by (auto simp: unpruned_def)

lemma available_unpruned: "IsAvailable c n \<Longrightarrow> unpruned c = Some c"
  by (auto simp: IsAvailable_def unpruned_def IsPruned_def list_all_length)

lemma run_check_True:
  "run_check L c = Inr (True, e) \<longleftrightarrow> e = SCRIPT_ERR_OK \<and>
   VerifyScript (TransactionSignatureChecker L (ptxTo c) (chk_nIn c)) (scriptSig (vin (ptxTo c) ! chk_nIn c)) (chk_scriptPubKey c) (chk_nFlags c) =
     Some (Inr ())"
  by (auto simp: run_check_def split: option.splits sum.splits)

lemma check_fees_ok:
  assumes "check_fees E tx st s n = Inr (True, st', f)" "MoneyRange s (MaxMoneyOut E)" "MoneyRange n (MaxMoneyOut E)" "MaxMoneyOut E < 2 ^ 62"
    "list_all (\<lambda>t. is_amount (nValue t)) (vout tx)"
  shows "st' = st \<and> f = s + (n - sum_list (map nValue (vout tx))) \<and> list_all (\<lambda>t. 0 \<le> nValue t) (vout tx) \<and> s \<le> f"
proof -
  obtain out where out: "GetValueOut tx = Inr out"
    using assms(1) by (cases "GetValueOut tx") (auto simp: check_fees_def GetValueOut_halt_def)
  then have o: "list_all (\<lambda>t. 0 \<le> nValue t) (vout tx)" "out = sum_list (map nValue (vout tx))"
    using value_out_loop_sum [of 0 "vout tx" out] assms(5) by (simp_all add: GetValueOut_def is_amount_def)
  have "0 \<le> out" unfolding o(2) using o(1) by (intro sum_list_nonneg) (auto simp: list_all_iff)
  moreover have "\<not> n < out" using assms(1) out by (auto simp: check_fees_def GetValueOut_halt_def DoS_def Let_def split: if_splits)
  ultimately have w: "wrap64 (n - out) = n - out" "wrap64 (s + (n - out)) = s + (n - out)"
    using assms(2-4) by (auto simp: MoneyRange_def is_amount_def intro!: wrap64_id)
  show ?thesis using assms(1) out o w \<open>\<not> n < out\<close>
    by (auto simp: check_fees_def GetValueOut_halt_def DoS_def Let_def split: if_splits)
qed

context coins_view begin

lemma AccessCoins_cases:
  assumes "C v"
  obtains v' where "AccessCoins B v k = (None, v')" "same v v'" "U v k = None"
  | c v' where "AccessCoins B v k = (Some c, v')" "same v v'" "unpruned c = U v k" "clean (coVout c)"
proof -
  obtain r v' where a: "AccessCoins B v k = (r, v')" by fastforce
  show ?thesis using AccessCoins_ok [OF assms a] a that by (cases r) auto
qed

lemma have_inputs_ok:
  "C v \<Longrightarrow> \<exists>v'. have_inputs_loop B v is = (list_all (\<lambda>i. spent_output (U v) i \<noteq> None) is, v') \<and> same v v'"
proof (induction "is" arbitrary: v)
  case Nil
  then show ?case by (simp add: same_refl)
next
  case (Cons i "is")
  show ?case
  proof (rule AccessCoins_cases [OF Cons.prems, of "op_hash (prevout i)"])
    fix v' assume "AccessCoins B v (op_hash (prevout i)) = (None, v')" "same v v'" "U v (op_hash (prevout i)) = None"
    then show ?thesis by (simp add: spent_output_def)
  next
    fix c v' assume a: "AccessCoins B v (op_hash (prevout i)) = (Some c, v')" "same v v'" "unpruned c = U v (op_hash (prevout i))" "clean (coVout c)"
    have out: "spent_output (U v) i \<noteq> None \<longleftrightarrow> IsAvailable c (op_n (prevout i))"
      using a(3) available_unpruned [of c] by (auto simp: spent_output_def unpruned_def dest: sym split: if_splits)
    have "C v'" "U v' = U v" using a(2) by (simp_all add: same_view_def)
    then show ?thesis using Cons.IH [of v'] a out same_trans [OF a(2)] by auto
  qed
qed

lemma check_values_ok:
  "C v \<Longrightarrow> list_all (\<lambda>i. spent_output (U v) i \<noteq> None) txins \<Longrightarrow> MoneyRange s (MaxMoneyOut E) \<Longrightarrow> MaxMoneyOut E < 2 ^ 62 \<Longrightarrow>
   check_values E B h txins st v s = Inr (True, st', v', s') \<Longrightarrow>
   same v v' \<and> st' = st \<and> s' = s + sum_list (map (value_of (U v)) txins) \<and> MoneyRange s' (MaxMoneyOut E) \<and>
   list_all (\<lambda>i. MoneyRange (value_of (U v) i) (MaxMoneyOut E) \<and> mature E h (U v) i) txins"
proof (induction txins arbitrary: v s)
  case Nil
  then show ?case by (simp add: same_refl)
next
  case (Cons i txins)
  show ?case
  proof (rule AccessCoins_cases [OF Cons.prems(1), of "op_hash (prevout i)"])
    fix w assume "U v (op_hash (prevout i)) = None"
    then show ?thesis using Cons.prems(2) by (simp add: spent_output_def)
  next
    fix c w assume a: "AccessCoins B v (op_hash (prevout i)) = (Some c, w)" "same v w" "unpruned c = U v (op_hash (prevout i))" "clean (coVout c)"
    have w: "C w" "U w = U v" using a(2) by (simp_all add: same_view_def)
    have av: "U v (op_hash (prevout i)) = Some c" "IsAvailable c (op_n (prevout i))"
      using a(3) Cons.prems(2) by (auto simp: spent_output_def unpruned_def dest: sym split: if_splits)
    let ?x = "nValue (coVout c ! unat (op_n (prevout i)))"
    have x: "value_of (U v) i = ?x" using av by (simp add: value_of_def spent_output_def)
    have m: "\<not> ((fCoinBase c \<or> fCoinStake c) \<and> h - coHeight c < COINBASE_MATURITY E)"
      and r: "MoneyRange ?x (MaxMoneyOut E)" "MoneyRange (wrap64 (s + ?x)) (MaxMoneyOut E)"
      and rest: "check_values E B h txins st w (wrap64 (s + ?x)) = Inr (True, st', v', s')"
      using Cons.prems(5) a(1) by (auto simp: Invalid_def DoS_def Let_def split: if_splits)
    have "wrap64 (s + ?x) = s + ?x" using Cons.prems(3,4) r(1) by (intro wrap64_id) (auto simp: MoneyRange_def is_amount_def)
    then show ?thesis using Cons.IH [OF w(1) _ r(2) Cons.prems(4) rest] Cons.prems(2) r x m av(1) w(2) same_trans [OF a(2)]
      by (auto simp: mature_def)
  qed
qed

lemma check_scripts_ok:
  "C v \<Longrightarrow> list_all (\<lambda>i. spent_output (U v) i \<noteq> None) txins \<Longrightarrow> drop i (vin tx) = txins \<Longrightarrow>
   check_scripts E B tx fl cacheIn i txins st v pv = Inr (True, st', v', pv') \<Longrightarrow>
   same v v' \<and> st' = st \<and>
   (case pv of None \<Rightarrow> pv' = None \<and> list_all (\<lambda>c. run_check (ce_lib E) c = Inr (True, SCRIPT_ERR_OK)) (input_checks (U v) tx fl cacheIn i txins)
    | Some cs \<Rightarrow> pv' = Some (cs @ input_checks (U v) tx fl cacheIn i txins))"
proof (induction txins arbitrary: v pv i)
  case Nil
  then show ?case by (auto simp: same_refl split: option.splits)
next
  case (Cons txin txins)
  show ?case
  proof (rule AccessCoins_cases [OF Cons.prems(1), of "op_hash (prevout txin)"])
    fix w assume "U v (op_hash (prevout txin)) = None"
    then show ?thesis using Cons.prems(2) by (simp add: spent_output_def)
  next
    fix c w assume a: "AccessCoins B v (op_hash (prevout txin)) = (Some c, w)" "same v w" "unpruned c = U v (op_hash (prevout txin))" "clean (coVout c)"
    have w: "C w" "U w = U v" using a(2) by (simp_all add: same_view_def)
    have av: "U v (op_hash (prevout txin)) = Some c" "IsAvailable c (op_n (prevout txin))"
      using a(3) Cons.prems(2) by (auto simp: spent_output_def unpruned_def dest: sym split: if_splits)
    have i: "vin tx ! i = txin" "drop (Suc i) (vin tx) = txins"
      using Cons.prems(3) by (metis nth_via_drop, metis drop_Suc tl_drop list.sel(3))
    let ?c = "\<lparr>chk_scriptPubKey = scriptPubKey (the (spent_output (U v) txin)), ptxTo = tx, chk_nIn = i, chk_nFlags = fl, cacheStore = cacheIn\<rparr>"
    have new: "CScriptCheck_new c tx i fl cacheIn = Inr ?c" using av i by (simp add: CScriptCheck_new_def spent_output_def IsAvailable_def)
    have rest: "list_all (\<lambda>i. spent_output (U w) i \<noteq> None) txins" using Cons.prems(2) w(2) by simp
    note IH = Cons.IH [OF w(1) rest i(2)]
    show ?thesis
    proof (cases pv)
      case None
      have "run_check (ce_lib E) ?c = Inr (True, SCRIPT_ERR_OK) \<and> check_scripts E B tx fl cacheIn (Suc i) txins st w None = Inr (True, st', v', pv')"
        using Cons.prems(4) a(1) new None
        by (auto simp: ebind_Inr failed_check_def run_check_True Invalid_def DoS_def Let_def case_prod_beta split: if_splits)
      then show ?thesis using IH [of None] same_trans [OF a(2)] None w(2) by auto
    next
      case (Some cs)
      then have "check_scripts E B tx fl cacheIn (Suc i) txins st w (Some (cs @ [?c])) = Inr (True, st', v', pv')"
        using Cons.prems(4) a(1) new by simp
      then show ?thesis using IH [of "Some (cs @ [?c])"] same_trans [OF a(2)] Some w(2) by auto
    qed
  qed
qed

lemma CheckInputs_ok:
  assumes "C v" "\<not> IsCoinBase tx" "CheckInputs E B tx st v 0 0 fScriptChecks fl cacheIn pv dos = Inr r" "cr_ok r"
    and range: "0 \<le> MaxMoneyOut E" "MaxMoneyOut E < 2 ^ 62" "list_all (\<lambda>t. is_amount (nValue t)) (vout tx)"
  shows "\<exists>h. ce_heights E (cache_best best v) = Some h \<and> same v (cr_view r) \<and> cr_state r = st \<and>
    nValueIn r = sum_list (map (value_of (U v)) (vin tx)) \<and> MoneyRange (nValueIn r) (MaxMoneyOut E) \<and>
    list_all (\<lambda>i. spent_output (U v) i \<noteq> None \<and> MoneyRange (value_of (U v) i) (MaxMoneyOut E) \<and> mature E (h + 1) (U v) i) (vin tx) \<and>
    nFees r = (if IsCoinStake tx then 0 else nValueIn r - sum_list (map nValue (vout tx))) \<and>
    (\<not> IsCoinStake tx \<longrightarrow> list_all (\<lambda>t. 0 \<le> nValue t) (vout tx) \<and> 0 \<le> nFees r) \<and>
    (if \<not> fScriptChecks then cr_checks r = pv
     else case pv of
         None \<Rightarrow> cr_checks r = None \<and> list_all (\<lambda>c. run_check (ce_lib E) c = Inr (True, SCRIPT_ERR_OK)) (input_checks (U v) tx fl cacheIn 0 (vin tx))
       | Some cs \<Rightarrow> cr_checks r = Some (cs @ input_checks (U v) tx fl cacheIn 0 (vin tx)))"
proof -
  obtain w where w: "HaveInputs B v tx = (list_all (\<lambda>i. spent_output (U v) i \<noteq> None) (vin tx), w)" "same v w"
    using have_inputs_ok [OF assms(1), of "vin tx"] assms(2) by (auto simp: HaveInputs_def)
  have all: "list_all (\<lambda>i. spent_output (U v) i \<noteq> None) (vin tx)"
    using assms(2-4) w(1) by (auto simp: CheckInputs_def Let_def Invalid_def DoS_def split: if_splits)
  have Cw: "C w" "U w = U v" "cache_best best w = cache_best best v" using w(2) by (simp_all add: same_view_def)
  obtain x where x: "GetBestBlock B w = (cache_best best v, x)" "same w x"
    using GetBestBlock_ok [OF Cw(1)] Cw(3) by (cases "GetBestBlock B w") auto
  have Cx: "C x" "U x = U v" using x(2) Cw by (simp_all add: same_view_def)
  obtain h where h: "ce_heights E (cache_best best v) = Some h"
    using assms(2,3) w(1) all x(1) by (auto simp: CheckInputs_def Let_def split: option.splits)
  obtain b st1 y s where y: "check_values E B (h + 1) (vin tx) st x 0 = Inr (b, st1, y, s)"
    using assms(2,3) w(1) all x(1) h by (auto simp: CheckInputs_def Let_def ebind_Inr)
  have b
  proof (rule ccontr)
    assume "\<not> b"
    then show False using assms(2-4) w(1) all x(1) h y by (auto simp: CheckInputs_def Let_def)
  qed
  then have "same x y \<and> st1 = st \<and> s = 0 + sum_list (map (value_of (U x)) (vin tx)) \<and> MoneyRange s (MaxMoneyOut E) \<and>
      list_all (\<lambda>i. MoneyRange (value_of (U x) i) (MaxMoneyOut E) \<and> mature E (h + 1) (U x) i) (vin tx)"
    using y all Cx range(1,2) by (intro check_values_ok) (auto simp: MoneyRange_def)
  note V = this [unfolded Cx(2)]
  obtain b2 st2 f where f: "(if IsCoinStake tx then Inr (True, st1, 0) else check_fees E tx st1 0 s) = Inr (b2, st2, f)"
    using assms(2,3) w(1) all x(1) h y \<open>b\<close> by (auto simp: CheckInputs_def Let_def ebind_Inr)
  have b2
  proof (rule ccontr)
    assume "\<not> b2"
    then show False using assms(2-4) w(1) all x(1) h y \<open>b\<close> f by (auto simp: CheckInputs_def Let_def)
  qed
  have fees: "st2 = st" "f = (if IsCoinStake tx then 0 else s - sum_list (map nValue (vout tx)))"
    "\<not> IsCoinStake tx \<longrightarrow> list_all (\<lambda>t. 0 \<le> nValue t) (vout tx) \<and> 0 \<le> f"
    using check_fees_ok [of E tx st1 0 s st2 f] f V \<open>b2\<close> range by (auto split: if_splits simp: MoneyRange_def)
  show ?thesis
  proof (cases fScriptChecks)
    case False
    then have "r = \<lparr>cr_ok = True, cr_state = st2, cr_view = y, nFees = f, nValueIn = s, cr_checks = pv\<rparr>"
      using assms(2-4) w(1) all x(1) h y \<open>b\<close> f \<open>b2\<close> by (simp add: CheckInputs_def)
    then show ?thesis using h V fees all False same_trans [OF same_trans [OF w(2) x(2)], of y] by (auto simp: list_all_iff)
  next
    case True
    then obtain b3 st3 z pv' where z: "check_scripts E B tx fl cacheIn 0 (vin tx) st2 y pv = Inr (b3, st3, z, pv')"
      "r = \<lparr>cr_ok = b3, cr_state = st3, cr_view = z, nFees = f, nValueIn = s, cr_checks = pv'\<rparr>"
      using assms(2-4) w(1) all x(1) h y \<open>b\<close> f \<open>b2\<close> by (auto simp: CheckInputs_def ebind_Inr)
    have Cy: "C y" "U y = U v" using V Cx by (simp_all add: same_view_def)
    have "b3" using z(2) assms(4) by simp
    note Z = check_scripts_ok [OF Cy(1), of "vin tx" 0 tx E fl cacheIn st2 pv st3 z pv'] 
    show ?thesis using h V fees all True z \<open>b3\<close> Z Cy(2) same_trans [OF same_trans [OF same_trans [OF w(2) x(2)], of y], of z]
      by (auto simp: list_all_iff split: option.splits)
  qed
qed

end

section \<open>Properties\<close>

lemma input_checks_nth:
  assumes "list_all P (input_checks V tx fl cacheIn 0 (vin tx))" "i < length (vin tx)"
  shows "P \<lparr>chk_scriptPubKey = scriptPubKey (the (spent_output V (vin tx ! i))), ptxTo = tx, chk_nIn = i, chk_nFlags = fl, cacheStore = cacheIn\<rparr>"
  using assms by (auto simp: list_all_length input_checks_def)

text \<open>
  C8: A transaction that passes the check with its scripts run at once, other than a coinbase, spends only outputs that are
  unspent in the view, have a value in range and are mature, and the script of each of them accepts its input. The sum of the input
  values is exact, without an overflow. A transaction that is not a coinstake has no negative output and pays at most what it spends;
  the fee is the difference. The check leaves the unspent outputs and the validation state as they were.
\<close>

theorem inputs_checked:
  assumes "view_ok v" "\<not> IsCoinBase tx" "CheckInputs E chain_view tx st v 0 0 True fl cacheIn None dos = Inr r" "cr_ok r"
    and "0 \<le> MaxMoneyOut E" "MaxMoneyOut E < 2 ^ 62" "list_all (\<lambda>t. is_amount (nValue t)) (vout tx)"
  shows "(\<exists>h. ce_heights E (cache_best (cache_best db_best) v) = Some h \<and>
      (\<forall>i<length (vin tx). \<exists>t. spent_output (view_utxo v) (vin tx ! i) = Some t \<and> 0 \<le> nValue t \<and> nValue t \<le> MaxMoneyOut E \<and>
        mature E (h + 1) (view_utxo v) (vin tx ! i) \<and>
        VerifyScript (TransactionSignatureChecker (ce_lib E) tx i) (scriptSig (vin tx ! i)) (scriptPubKey t) fl = Some (Inr ()))) \<and>
    nValueIn r = (\<Sum>i\<leftarrow>vin tx. value_of (view_utxo v) i) \<and>
    (\<not> IsCoinStake tx \<longrightarrow> (\<forall>t\<in>set (vout tx). 0 \<le> nValue t) \<and> (\<Sum>t\<leftarrow>vout tx. nValue t) \<le> nValueIn r \<and>
      nFees r = nValueIn r - (\<Sum>t\<leftarrow>vout tx. nValue t)) \<and>
    view_ok (cr_view r) \<and> view_utxo (cr_view r) = view_utxo v \<and> cr_state r = st"
proof -
  obtain h where h: "ce_heights E (cache_best (cache_best db_best) v) = Some h" "view_ok (cr_view r)" "view_utxo (cr_view r) = view_utxo v"
    "cr_state r = st" "nValueIn r = (\<Sum>i\<leftarrow>vin tx. value_of (view_utxo v) i)"
    "list_all (\<lambda>i. spent_output (view_utxo v) i \<noteq> None \<and> MoneyRange (value_of (view_utxo v) i) (MaxMoneyOut E) \<and>
      mature E (h + 1) (view_utxo v) i) (vin tx)"
    "nFees r = (if IsCoinStake tx then 0 else nValueIn r - (\<Sum>t\<leftarrow>vout tx. nValue t))"
    "\<not> IsCoinStake tx \<longrightarrow> list_all (\<lambda>t. 0 \<le> nValue t) (vout tx) \<and> 0 \<le> nFees r"
    "list_all (\<lambda>c. run_check (ce_lib E) c = Inr (True, SCRIPT_ERR_OK)) (input_checks (view_utxo v) tx fl cacheIn 0 (vin tx))"
    using tip.CheckInputs_ok [OF assms(1) [unfolded view_ok_def] assms(2-)] by (auto simp: view_ok_def view_utxo_def same_view_def split: if_splits)
  have "\<exists>t. spent_output (view_utxo v) (vin tx ! i) = Some t \<and> 0 \<le> nValue t \<and> nValue t \<le> MaxMoneyOut E \<and>
        mature E (h + 1) (view_utxo v) (vin tx ! i) \<and>
        VerifyScript (TransactionSignatureChecker (ce_lib E) tx i) (scriptSig (vin tx ! i)) (scriptPubKey t) fl = Some (Inr ())"
    if "i < length (vin tx)" for i
    using h(6) that input_checks_nth [OF h(9) that] by (auto simp: list_all_length value_of_def MoneyRange_def run_check_True)
  then show ?thesis using h by (auto simp: list_all_iff)
qed

definition example_check_env :: check_env where
  "example_check_env = \<lparr>ce_lib = \<lparr>lib_Verify = (\<lambda>k h s. False), lib_CheckSignatureElement = (\<lambda>e. True), lib_RIPEMD160 = id, lib_SHA1 = id, lib_SHA256 = id,
     lib_Hash160 = id, lib_Hash256 = id\<rparr>, MaxMoneyOut = 100, COINBASE_MATURITY = 20, ce_heights = [0 \<mapsto> 26]\<rparr>"

lemma example_check:
  "\<exists>r. CheckInputs example_check_env chain_view example_spender CValidationState_new example_view 0 0 True MANDATORY_SCRIPT_VERIFY_FLAGS True None True =
     Inr r \<and> cr_ok r"
proof -
  have "(case CheckInputs example_check_env chain_view example_spender CValidationState_new example_view 0 0 True MANDATORY_SCRIPT_VERIFY_FLAGS True None True of
     Inl e \<Rightarrow> False | Inr r \<Rightarrow> cr_ok r)"
    by code_simp
  then show ?thesis by (auto split: sum.splits)
qed

theorem inputs_checked_witness:
  "\<exists>r. CheckInputs example_check_env chain_view example_spender CValidationState_new example_view 0 0 True MANDATORY_SCRIPT_VERIFY_FLAGS True None True =
     Inr r \<and> nFees r = 0 \<and> VerifyScript (TransactionSignatureChecker (ce_lib example_check_env) example_spender 0) [] [0x51] MANDATORY_SCRIPT_VERIFY_FLAGS =
     Some (Inr ())"
proof -
  obtain r where r: "CheckInputs example_check_env chain_view example_spender CValidationState_new example_view 0 0 True
     MANDATORY_SCRIPT_VERIFY_FLAGS True None True = Inr r" "cr_ok r" using example_check by blast
  have ex: "\<not> IsCoinBase example_spender" "\<not> IsCoinStake example_spender"
    by (simp_all add: example_spender_def IsCoinBase_def IsCoinStake_def COutPoint_IsNull_def)
  have vin: "length (vin example_spender) = 1" "scriptSig (vin example_spender ! 0) = []" "vin example_spender = [vin example_spender ! 0]"
    "vout example_spender = [example_output]" by (simp_all add: example_spender_def)
  have E: "0 \<le> MaxMoneyOut example_check_env" "MaxMoneyOut example_check_env < 2 ^ 62" "list_all (\<lambda>t. is_amount (nValue t)) (vout example_spender)"
    by (simp_all add: example_check_env_def vin example_output_def is_amount_def)
  have o: "spent_output (view_utxo example_view) (vin example_spender ! 0) = Some example_output"
    by (simp add: example_view_facts spent_output_def example_spender_def example_stake_def IsAvailable_def)
  then have "(\<Sum>i\<leftarrow>vin example_spender. value_of (view_utxo example_view) i) = 5" by (subst vin(3)) (simp add: value_of_def example_output_def)
  then show ?thesis
    using inputs_checked [OF example_view_facts(1) ex(1) r E] r(1) o ex(2) vin by (auto simp: example_output_def)
qed

end
