(* ===== verification/Index_Updates.thy ===== *)
theory Index_Updates
  imports Tx_Check
begin

text \<open>
  The optional indices of addresses and spent outputs (\<^verbatim>\<open>IndexDatabaseUpdateCollector.cpp\<close>, \<^verbatim>\<open>addressindex.h\<close>, \<^verbatim>\<open>spentindex.h\<close>, \<^verbatim>\<open>txdb.cpp\<close>): the
  updates that a transaction causes when its block is connected, and those that take them back. The theory shows what is restored.
\<close>

section \<open>Keys and values\<close>

record CAddressIndexKey =
  ak_type :: nat
  ak_hashBytes :: bytes
  ak_blockHeight :: int
  ak_txindex :: u32
  ak_txhash :: u256
  ak_index :: nat
  ak_spending :: bool

record CAddressUnspentKey =
  uk_type :: nat
  uk_hashBytes :: bytes
  uk_txhash :: u256
  uk_index :: nat

record CAddressUnspentValue =
  uv_satoshis :: int
  uv_script :: CScript
  uv_blockHeight :: int

definition CAddressUnspentValue_new :: CAddressUnspentValue where
  "CAddressUnspentValue_new = \<lparr>uv_satoshis = -1, uv_script = [], uv_blockHeight = 0\<rparr>"

definition CAddressUnspentValue_IsNull :: "CAddressUnspentValue \<Rightarrow> bool" where
  "CAddressUnspentValue_IsNull x \<longleftrightarrow> uv_satoshis x = -1"

record CSpentIndexKey =
  sk_txid :: u256
  sk_outputIndex :: u32

record CSpentIndexValue =
  sv_txid :: u256
  sv_inputIndex :: nat
  sv_blockHeight :: int
  sv_satoshis :: int
  sv_addressType :: nat
  sv_addressHash :: bytes

definition CSpentIndexValue_new :: CSpentIndexValue where
  "CSpentIndexValue_new = \<lparr>sv_txid = 0, sv_inputIndex = 0, sv_blockHeight = 0, sv_satoshis = 0, sv_addressType = 0, sv_addressHash = replicate 20 0\<rparr>"

definition CSpentIndexValue_IsNull :: "CSpentIndexValue \<Rightarrow> bool" where
  "CSpentIndexValue_IsNull x \<longleftrightarrow> sv_txid x = 0"

record CDiskTxPos =
  dp_nFile :: int
  dp_nPos :: u32
  nTxOffset :: u32

record TxIndexEntry =
  te_txid :: u256
  te_bareTxid :: u256
  te_diskPos :: CDiskTxPos

record IndexDatabaseUpdates =
  addressIndex :: "(CAddressIndexKey \<times> int) list"
  addressUnspentIndex :: "(CAddressUnspentKey \<times> CAddressUnspentValue) list"
  spentIndex :: "(CSpentIndexKey \<times> CSpentIndexValue) list"
  txLocationData :: "TxIndexEntry list"

definition IndexDatabaseUpdates_new :: IndexDatabaseUpdates where
  "IndexDatabaseUpdates_new = \<lparr>addressIndex = [], addressUnspentIndex = [], spentIndex = [], txLocationData = []\<rparr>"

definition ComputeHashbytesAndAddressTypeForScript :: "CScript \<Rightarrow> bytes \<times> nat" where
  "ComputeHashbytesAndAddressTypeForScript script =
    (if IsStakingVaultScript script then (take 20 (drop 2 script), 3)
     else if IsPayToScriptHash script then (take 20 (drop 2 script), 2)
     else if IsPayToPublicKeyHash script then (take 20 (drop 3 script), 1)
     else (replicate 20 0, 0))"

section \<open>Collecting updates\<close>

record index_flags =
  fAddressIndex :: bool
  fSpentIndex :: bool

text \<open>The key of an input or output in the address index, and the key of an output among the unspent ones.\<close>

definition address_key :: "TransactionLocationReference \<Rightarrow> bytes \<times> nat \<Rightarrow> nat \<Rightarrow> bool \<Rightarrow> CAddressIndexKey" where
  "address_key loc a n sp =
    \<lparr>ak_type = snd a, ak_hashBytes = fst a, ak_blockHeight = sint (loc_blockHeight loc), ak_txindex = word_of_int (loc_transactionIndex loc),
     ak_txhash = loc_hash loc, ak_index = n, ak_spending = sp\<rparr>"

definition unspent_key :: "bytes \<times> nat \<Rightarrow> u256 \<Rightarrow> nat \<Rightarrow> CAddressUnspentKey" where
  "unspent_key a h n = \<lparr>uk_type = snd a, uk_hashBytes = fst a, uk_txhash = h, uk_index = n\<rparr>"

definition push_address :: "CAddressIndexKey \<times> int \<Rightarrow> CAddressUnspentKey \<times> CAddressUnspentValue \<Rightarrow> IndexDatabaseUpdates \<Rightarrow> IndexDatabaseUpdates" where
  "push_address e u D = D\<lparr>addressIndex := addressIndex D @ [e], addressUnspentIndex := addressUnspentIndex D @ [u]\<rparr>"

definition push_spent :: "CSpentIndexKey \<times> CSpentIndexValue \<Rightarrow> IndexDatabaseUpdates \<Rightarrow> IndexDatabaseUpdates" where
  "push_spent s D = D\<lparr>spentIndex := spentIndex D @ [s]\<rparr>"

fun spending_inputs ::
  "index_flags \<Rightarrow> 'v CCoinsView \<Rightarrow> TransactionLocationReference \<Rightarrow> nat \<Rightarrow> CTxIn list \<Rightarrow> 'v CCoinsViewCache \<Rightarrow> IndexDatabaseUpdates \<Rightarrow>
   (IndexDatabaseUpdates \<times> 'v CCoinsViewCache) option" where
  "spending_inputs F B loc j [] v D = Some (D, v)"
| "spending_inputs F B loc j (input # inputs) v D =
    Option.bind (GetOutputFor B v input) (\<lambda>(out, v).
      let a = ComputeHashbytesAndAddressTypeForScript (scriptPubKey out);
          D = (if fAddressIndex F \<and> snd a > 0 then
                 push_address (address_key loc a j True, nValue out * -1)
                   (unspent_key a (op_hash (prevout input)) (unat (op_n (prevout input))), CAddressUnspentValue_new) D
               else D);
          D = (if fSpentIndex F then
                 push_spent (\<lparr>sk_txid = op_hash (prevout input), sk_outputIndex = op_n (prevout input)\<rparr>,
                   \<lparr>sv_txid = loc_hash loc, sv_inputIndex = j, sv_blockHeight = sint (loc_blockHeight loc), sv_satoshis = nValue out,
                    sv_addressType = snd a, sv_addressHash = fst a\<rparr>) D
               else D)
      in spending_inputs F B loc (Suc j) inputs v D)"

definition Spending_CollectUpdatesFromInputs ::
  "index_flags \<Rightarrow> 'v CCoinsView \<Rightarrow> CTransaction \<Rightarrow> TransactionLocationReference \<Rightarrow> 'v CCoinsViewCache \<Rightarrow> IndexDatabaseUpdates \<Rightarrow>
   (IndexDatabaseUpdates \<times> 'v CCoinsViewCache) option" where
  "Spending_CollectUpdatesFromInputs F B tx loc v D =
    (if IsCoinBase tx then Some (D, v)
     else if fAddressIndex F \<or> fSpentIndex F then spending_inputs F B loc 0 (vin tx) v D
     else Some (D, v))"

fun spending_outputs :: "TransactionLocationReference \<Rightarrow> nat \<Rightarrow> CTxOut list \<Rightarrow> IndexDatabaseUpdates \<Rightarrow> IndexDatabaseUpdates" where
  "spending_outputs loc k [] D = D"
| "spending_outputs loc k (out # outs) D =
    (let a = ComputeHashbytesAndAddressTypeForScript (scriptPubKey out)
     in spending_outputs loc (Suc k) outs
          (if snd a > 0 then
             push_address (address_key loc a k False, nValue out)
               (unspent_key a (loc_hash loc) k,
                \<lparr>uv_satoshis = nValue out, uv_script = scriptPubKey out, uv_blockHeight = sint (loc_blockHeight loc)\<rparr>) D
           else D))"

definition Spending_CollectUpdatesFromOutputs ::
  "index_flags \<Rightarrow> CTransaction \<Rightarrow> TransactionLocationReference \<Rightarrow> IndexDatabaseUpdates \<Rightarrow> IndexDatabaseUpdates" where
  "Spending_CollectUpdatesFromOutputs F tx loc D = (if fAddressIndex F then spending_outputs loc 0 (vout tx) D else D)"

definition RecordTransaction ::
  "index_flags \<Rightarrow> 'v CCoinsView \<Rightarrow> CTransaction \<Rightarrow> TransactionLocationReference \<Rightarrow> 'v CCoinsViewCache \<Rightarrow> IndexDatabaseUpdates \<Rightarrow>
   (IndexDatabaseUpdates \<times> 'v CCoinsViewCache) option" where
  "RecordTransaction F B tx loc v D =
    map_option (\<lambda>(D, v). (Spending_CollectUpdatesFromOutputs F tx loc D, v)) (Spending_CollectUpdatesFromInputs F B tx loc v D)"

section \<open>Taking updates back\<close>

text \<open>The loops run from the last element to the first; \<open>n\<close> is the number of elements that are left.\<close>

fun reverse_inputs ::
  "index_flags \<Rightarrow> 'v CCoinsView \<Rightarrow> TransactionLocationReference \<Rightarrow> CTxIn list \<Rightarrow> nat \<Rightarrow> 'v CCoinsViewCache \<Rightarrow> IndexDatabaseUpdates \<Rightarrow>
   (IndexDatabaseUpdates \<times> 'v CCoinsViewCache) option" where
  "reverse_inputs F B loc inputs 0 v D = Some (D, v)"
| "reverse_inputs F B loc inputs (Suc n) v D =
    (let input = inputs ! n
     in Option.bind
          (if fAddressIndex F then
             map_option (\<lambda>(out, v).
               let a = ComputeHashbytesAndAddressTypeForScript (scriptPubKey out)
               in (if snd a > 0 then
                     push_address (address_key loc a n True, nValue out * -1)
                       (unspent_key a (op_hash (prevout input)) (unat (op_n (prevout input))),
                        \<lparr>uv_satoshis = nValue out, uv_script = scriptPubKey out, uv_blockHeight = sint (loc_blockHeight loc)\<rparr>) D
                   else D, v)) (GetOutputFor B v input)
           else Some (D, v))
          (\<lambda>(D, v).
             let D = (if fSpentIndex F then
                        push_spent (\<lparr>sk_txid = op_hash (prevout input), sk_outputIndex = op_n (prevout input)\<rparr>, CSpentIndexValue_new) D
                      else D)
             in reverse_inputs F B loc inputs n v D))"

definition ReverseSpending_CollectUpdatesFromInputs ::
  "index_flags \<Rightarrow> 'v CCoinsView \<Rightarrow> CTransaction \<Rightarrow> TransactionLocationReference \<Rightarrow> 'v CCoinsViewCache \<Rightarrow> IndexDatabaseUpdates \<Rightarrow>
   (IndexDatabaseUpdates \<times> 'v CCoinsViewCache) option" where
  "ReverseSpending_CollectUpdatesFromInputs F B tx loc v D =
    (if IsCoinBase tx then Some (D, v) else reverse_inputs F B loc (vin tx) (length (vin tx)) v D)"

fun reverse_outputs :: "TransactionLocationReference \<Rightarrow> CTxOut list \<Rightarrow> nat \<Rightarrow> IndexDatabaseUpdates \<Rightarrow> IndexDatabaseUpdates" where
  "reverse_outputs loc outs 0 D = D"
| "reverse_outputs loc outs (Suc k) D =
    (let out = outs ! k; a = ComputeHashbytesAndAddressTypeForScript (scriptPubKey out)
     in reverse_outputs loc outs k
          (if snd a > 0 then
             push_address (address_key loc a k False, nValue out) (unspent_key a (loc_hash loc) k, CAddressUnspentValue_new) D
           else D))"

definition ReverseSpending_CollectUpdatesFromOutputs ::
  "index_flags \<Rightarrow> CTransaction \<Rightarrow> TransactionLocationReference \<Rightarrow> IndexDatabaseUpdates \<Rightarrow> IndexDatabaseUpdates" where
  "ReverseSpending_CollectUpdatesFromOutputs F tx loc D = (if \<not> fAddressIndex F then D else reverse_outputs loc (vout tx) (length (vout tx)) D)"

definition ReverseTransaction ::
  "index_flags \<Rightarrow> 'v CCoinsView \<Rightarrow> CTransaction \<Rightarrow> TransactionLocationReference \<Rightarrow> 'v CCoinsViewCache \<Rightarrow> IndexDatabaseUpdates \<Rightarrow>
   (IndexDatabaseUpdates \<times> 'v CCoinsViewCache) option" where
  "ReverseTransaction F B tx loc v D =
    ReverseSpending_CollectUpdatesFromInputs F B tx loc v (ReverseSpending_CollectUpdatesFromOutputs F tx loc D)"

section \<open>The index database\<close>

record CBlockTreeDB =
  DB_ADDRESSINDEX :: "CAddressIndexKey \<rightharpoonup> int"
  DB_ADDRESSUNSPENTINDEX :: "CAddressUnspentKey \<rightharpoonup> CAddressUnspentValue"
  DB_SPENTINDEX :: "CSpentIndexKey \<rightharpoonup> CSpentIndexValue"
  DB_TXINDEX :: "u256 \<rightharpoonup> CDiskTxPos"
  DB_BARETXIDINDEX :: "u256 \<rightharpoonup> CDiskTxPos"

text \<open>A batch of writes and erasures, in order; the function says what is stored for a value.\<close>

definition db_batch :: "('x \<Rightarrow> 'y option) \<Rightarrow> ('k \<times> 'x) list \<Rightarrow> ('k \<rightharpoonup> 'y) \<Rightarrow> 'k \<rightharpoonup> 'y" where
  "db_batch f vect M = fold (\<lambda>e M. M(fst e := f (snd e))) vect M"

definition WriteAddressIndex :: "(CAddressIndexKey \<times> int) list \<Rightarrow> CBlockTreeDB \<Rightarrow> CBlockTreeDB" where
  "WriteAddressIndex vect D = D\<lparr>DB_ADDRESSINDEX := db_batch Some vect (DB_ADDRESSINDEX D)\<rparr>"

definition EraseAddressIndex :: "(CAddressIndexKey \<times> int) list \<Rightarrow> CBlockTreeDB \<Rightarrow> CBlockTreeDB" where
  "EraseAddressIndex vect D = D\<lparr>DB_ADDRESSINDEX := db_batch (\<lambda>x. None) vect (DB_ADDRESSINDEX D)\<rparr>"

definition UpdateAddressUnspentIndex :: "(CAddressUnspentKey \<times> CAddressUnspentValue) list \<Rightarrow> CBlockTreeDB \<Rightarrow> CBlockTreeDB" where
  "UpdateAddressUnspentIndex vect D = D\<lparr>DB_ADDRESSUNSPENTINDEX := db_batch (\<lambda>x. if CAddressUnspentValue_IsNull x then None else Some x) vect (DB_ADDRESSUNSPENTINDEX D)\<rparr>"

definition UpdateSpentIndex :: "(CSpentIndexKey \<times> CSpentIndexValue) list \<Rightarrow> CBlockTreeDB \<Rightarrow> CBlockTreeDB" where
  "UpdateSpentIndex vect D =
    D\<lparr>DB_SPENTINDEX := db_batch (\<lambda>x. if CSpentIndexValue_IsNull x then None else Some x) vect (DB_SPENTINDEX D)\<rparr>"

definition WriteTxIndex :: "TxIndexEntry list \<Rightarrow> CBlockTreeDB \<Rightarrow> CBlockTreeDB" where
  "WriteTxIndex vect D =
    D\<lparr>DB_TXINDEX := db_batch Some (map (\<lambda>e. (te_txid e, te_diskPos e)) vect) (DB_TXINDEX D),
      DB_BARETXIDINDEX := db_batch Some (map (\<lambda>e. (te_bareTxid e, te_diskPos e)) vect) (DB_BARETXIDINDEX D)\<rparr>"

definition ReadTxIndex :: "CBlockTreeDB \<Rightarrow> u256 \<Rightarrow> CDiskTxPos option" where
  "ReadTxIndex D txid = (case DB_TXINDEX D txid of Some p \<Rightarrow> Some p | None \<Rightarrow> DB_BARETXIDINDEX D txid)"

text \<open>The writes of a connected block and of a disconnected one. The latter does not touch the index of spent outputs.\<close>

definition UpdateDBIndicesForNewBlock :: "index_flags \<Rightarrow> bool \<Rightarrow> IndexDatabaseUpdates \<Rightarrow> CBlockTreeDB \<Rightarrow> CBlockTreeDB" where
  "UpdateDBIndicesForNewBlock F fTxIndex upd D =
    (let D = (if fTxIndex then WriteTxIndex (txLocationData upd) D else D);
         D = (if fAddressIndex F then UpdateAddressUnspentIndex (addressUnspentIndex upd) (WriteAddressIndex (addressIndex upd) D) else D)
     in if fSpentIndex F then UpdateSpentIndex (spentIndex upd) D else D)"

definition ApplyDisconnectionUpdateIndexToDBs :: "index_flags \<Rightarrow> IndexDatabaseUpdates \<Rightarrow> CBlockTreeDB \<Rightarrow> CBlockTreeDB" where
  "ApplyDisconnectionUpdateIndexToDBs F upd D =
    (if fAddressIndex F then UpdateAddressUnspentIndex (addressUnspentIndex upd) (EraseAddressIndex (addressIndex upd) D) else D)"

section \<open>What is collected\<close>

abbreviation address_of :: "CTxOut \<Rightarrow> bytes \<times> nat" where
  "address_of t \<equiv> ComputeHashbytesAndAddressTypeForScript (scriptPubKey t)"

definition unspent_value :: "TransactionLocationReference \<Rightarrow> CTxOut \<Rightarrow> CAddressUnspentValue" where
  "unspent_value loc t = \<lparr>uv_satoshis = nValue t, uv_script = scriptPubKey t, uv_blockHeight = sint (loc_blockHeight loc)\<rparr>"

definition in_key :: "CTxIn \<Rightarrow> CTxOut \<Rightarrow> CAddressUnspentKey" where
  "in_key i t = unspent_key (address_of t) (op_hash (prevout i)) (unat (op_n (prevout i)))"

definition spent_key :: "CTxIn \<Rightarrow> CSpentIndexKey" where
  "spent_key i = \<lparr>sk_txid = op_hash (prevout i), sk_outputIndex = op_n (prevout i)\<rparr>"

definition spent_value :: "TransactionLocationReference \<Rightarrow> nat \<Rightarrow> CTxOut \<Rightarrow> CSpentIndexValue" where
  "spent_value loc j t =
    \<lparr>sv_txid = loc_hash loc, sv_inputIndex = j, sv_blockHeight = sint (loc_blockHeight loc), sv_satoshis = nValue t,
     sv_addressType = snd (address_of t), sv_addressHash = fst (address_of t)\<rparr>"

definition in_address where
  "in_address F loc V = (\<lambda>(j, i). let t = the (spent_output V i)
     in if fAddressIndex F \<and> snd (address_of t) > 0 then [(address_key loc (address_of t) j True, nValue t * -1)] else [])"

definition in_unspent where
  "in_unspent F x V = (\<lambda>(j :: nat, i). let t = the (spent_output V i)
     in if fAddressIndex F \<and> snd (address_of t) > 0 then [(in_key i t, x t)] else [])"

definition in_spent where
  "in_spent F y V = (\<lambda>(j :: nat, i). if fSpentIndex F then [(spent_key i, y j (the (spent_output V i)))] else [])"

definition out_address where
  "out_address loc = (\<lambda>(k, t). if snd (address_of t) > 0 then [(address_key loc (address_of t) k False, nValue t)] else [])"

definition out_unspent where
  "out_unspent loc x = (\<lambda>(k, t). if snd (address_of t) > 0 then [(unspent_key (address_of t) (loc_hash loc) k, x t)] else [])"

definition add_updates where
  "add_updates D a u s = D\<lparr>addressIndex := addressIndex D @ a, addressUnspentIndex := addressUnspentIndex D @ u, spentIndex := spentIndex D @ s\<rparr>"

lemma add_updates_add [simp]: "add_updates (add_updates D a u s) a' u' s' = add_updates D (a @ a') (u @ u') (s @ s')"
  by (simp add: add_updates_def)

lemma add_updates_Nil [simp]: "add_updates D [] [] [] = D"
  by (simp add: add_updates_def)

lemma push_add: "push_address e u D = add_updates D [e] [u] []" "push_spent s D = add_updates D [] [] [s]"
  by (simp_all add: push_address_def push_spent_def add_updates_def)

lemma add_updates_if: "(if b then add_updates D a u s else D) = add_updates D (if b then a else []) (if b then u else []) (if b then s else [])"
  by simp

lemma spending_outputs_add:
  "spending_outputs loc k outs D =
    add_updates D (concat (map (out_address loc) (enumerate k outs))) (concat (map (out_unspent loc (unspent_value loc)) (enumerate k outs))) []"
  by (induction loc k outs D rule: spending_outputs.induct)
     (simp_all add: out_address_def out_unspent_def unspent_value_def push_add Let_def)

lemma reverse_outputs_add:
  "n \<le> length outs \<Longrightarrow> reverse_outputs loc outs n D =
    add_updates D (concat (map (out_address loc) (rev (enumerate 0 (take n outs)))))
      (concat (map (out_unspent loc (\<lambda>t. CAddressUnspentValue_new)) (rev (enumerate 0 (take n outs))))) []"
  by (induction n arbitrary: D)
     (simp_all add: out_address_def out_unspent_def push_add Let_def take_Suc_conv_app_nth enumerate_append_eq)

context coins_view begin

lemma GetOutputFor_ok:
  assumes "C v" "spent_output (U v) i = Some t"
  obtains v' where "GetOutputFor B v i = Some (t, v')" "C v'" "U v' = U v"
proof (rule AccessCoins_cases [OF assms(1), of "op_hash (prevout i)"])
  fix v' assume "U v (op_hash (prevout i)) = None"
  then show ?thesis using assms(2) by (simp add: spent_output_def)
next
  fix c v' assume a: "AccessCoins B v (op_hash (prevout i)) = (Some c, v')" "same v v'" "unpruned c = U v (op_hash (prevout i))"
  have "U v (op_hash (prevout i)) = Some c" "IsAvailable c (op_n (prevout i))" "t = coVout c ! unat (op_n (prevout i))"
    using a(3) assms(2) by (auto simp: spent_output_def unpruned_def dest: sym split: if_splits)
  then show ?thesis using a(1,2) by (intro that [of v']) (simp_all add: GetOutputFor_def same_view_def)
qed

lemma spending_inputs_ok:
  "C v \<Longrightarrow> list_all (\<lambda>i. spent_output (U v) i \<noteq> None) is \<Longrightarrow>
   \<exists>v'. spending_inputs F B loc j is v D = Some (add_updates D (concat (map (in_address F loc (U v)) (enumerate j is)))
      (concat (map (in_unspent F (\<lambda>t. CAddressUnspentValue_new) (U v)) (enumerate j is))) (concat (map (in_spent F (spent_value loc) (U v)) (enumerate j is))), v') \<and>
     C v' \<and> U v' = U v"
proof (induction "is" arbitrary: v j D)
  case (Cons i "is")
  then obtain t where t: "spent_output (U v) i = Some t" by auto
  obtain w where w: "GetOutputFor B v i = Some (t, w)" "C w" "U w = U v" using GetOutputFor_ok [OF Cons.prems(1) t] .
  have rest: "list_all (\<lambda>i. spent_output (U w) i \<noteq> None) is" using Cons.prems(2) w(3) by simp
  let ?D = "add_updates D (in_address F loc (U v) (j, i)) (in_unspent F (\<lambda>t. CAddressUnspentValue_new) (U v) (j, i))
    (in_spent F (spent_value loc) (U v) (j, i))"
  have "spending_inputs F B loc j (i # is) v D = spending_inputs F B loc (Suc j) is w ?D"
    using w(1) t
    by (cases "fAddressIndex F"; cases "fSpentIndex F")
       (auto simp: push_add add_updates_if Let_def in_address_def in_unspent_def in_spent_def in_key_def spent_key_def spent_value_def)
  then show ?case using Cons.IH [OF w(2) rest, of "Suc j" ?D] w(3) by simp
qed simp

lemma reverse_inputs_ok:
  "C v \<Longrightarrow> list_all (\<lambda>i. spent_output (U v) i \<noteq> None) is \<Longrightarrow> n \<le> length is \<Longrightarrow>
   \<exists>v'. reverse_inputs F B loc is n v D = Some (add_updates D (concat (map (in_address F loc (U v)) (rev (enumerate 0 (take n is)))))
      (concat (map (in_unspent F (unspent_value loc) (U v)) (rev (enumerate 0 (take n is)))))
      (concat (map (in_spent F (\<lambda>j t. CSpentIndexValue_new) (U v)) (rev (enumerate 0 (take n is))))), v') \<and>
     C v' \<and> U v' = U v"
proof (induction n arbitrary: v D)
  case (Suc n)
  obtain t where t: "spent_output (U v) (is ! n) = Some t" using Suc.prems(2,3) by (auto simp: list_all_length Suc_le_eq)
  obtain w where w: "GetOutputFor B v (is ! n) = Some (t, w)" "C w" "U w = U v" using GetOutputFor_ok [OF Suc.prems(1) t] .
  define x where "x = (if fAddressIndex F then w else v)"
  have x: "C x" "U x = U v" using w Suc.prems(1) by (simp_all add: x_def)
  have rest: "list_all (\<lambda>i. spent_output (U x) i \<noteq> None) is" "n \<le> length is" using Suc.prems(2,3) x(2) by simp_all
  have tk: "take (Suc n) is = take n is @ [is ! n]" using Suc.prems(3) by (simp add: take_Suc_conv_app_nth)
  let ?D = "add_updates D (in_address F loc (U v) (n, is ! n)) (in_unspent F (unspent_value loc) (U v) (n, is ! n))
        (in_spent F (\<lambda>j t. CSpentIndexValue_new) (U v) (n, is ! n))"
  have "reverse_inputs F B loc is (Suc n) v D = reverse_inputs F B loc is n x ?D"
    using w(1) t
    by (cases "fAddressIndex F"; cases "fSpentIndex F")
       (auto simp: push_add add_updates_if Let_def in_address_def in_unspent_def in_spent_def in_key_def spent_key_def unspent_value_def x_def)
  then show ?case using Suc.IH [OF x(1) rest, of ?D] x(2) Suc.prems(3) by (simp add: tk enumerate_append_eq del: reverse_inputs.simps)
qed simp

end

section \<open>What is restored\<close>

lemma db_batch_apply: "(\<And>x. (k, x) \<in> set xs \<Longrightarrow> f x = y) \<Longrightarrow> db_batch f xs M k = (if k \<in> fst ` set xs then y else M k)"
proof (induction xs arbitrary: M)
  case (Cons e xs)
  then have "db_batch f (e # xs) M k = (if k \<in> fst ` set xs then y else (M(fst e := f (snd e))) k)" by (simp add: db_batch_def)
  then show ?case using Cons.prems [of "snd e"] by auto
qed (simp add: db_batch_def)

lemma db_batch_other: "k \<notin> fst ` set xs \<Longrightarrow> db_batch f xs M k = M k"
  by (subst db_batch_apply) (auto simp: rev_image_eqI)

lemma db_batch_append: "db_batch f (xs @ ys) M = db_batch f ys (db_batch f xs M)"
  by (simp add: db_batch_def)

lemma db_batch_Some: "(\<forall>e\<in>set xs. f (snd e) \<noteq> None) \<Longrightarrow> k \<in> fst ` set xs \<Longrightarrow> db_batch f xs M k \<noteq> None"
  by (induction xs rule: rev_induct) (auto simp: db_batch_def)

text \<open>The inputs that are looked at, and the lists collected from them and from the outputs.\<close>

definition indexed_inputs :: "CTransaction \<Rightarrow> CTxIn list" where
  "indexed_inputs tx = (if IsCoinBase tx then [] else vin tx)"

lemma address_keys_hash:
  "k \<in> fst ` set (concat (map (in_address F loc V) E)) \<Longrightarrow> ak_txhash k = loc_hash loc"
  "k \<in> fst ` set (concat (map (out_address loc) Q)) \<Longrightarrow> ak_txhash k = loc_hash loc"
  by (auto simp: in_address_def out_address_def address_key_def Let_def split: if_splits)

lemma unspent_keys_hash: "k \<in> fst ` set (concat (map (out_unspent loc x) Q)) \<Longrightarrow> uk_txhash k = loc_hash loc"
  by (auto simp: out_unspent_def unspent_key_def split: if_splits)

lemma in_unspent_keys:
  "fAddressIndex F \<Longrightarrow> \<forall>i\<in>set is. spent_output V i \<noteq> None \<Longrightarrow>
   (k, x) \<in> set (concat (map (in_unspent F y V) (enumerate j is))) \<longleftrightarrow>
     (\<exists>i t. i \<in> set is \<and> spent_output V i = Some t \<and> 0 < snd (address_of t) \<and> k = in_key i t \<and> x = y t)"
proof (induction "is" arbitrary: j)
  case (Cons i "is")
  then obtain t where "spent_output V i = Some t" by auto
  then show ?case using Cons by (auto simp: in_unspent_def)
qed simp

lemma in_key_inj: "in_key i t = in_key i' t' \<Longrightarrow> spent_output V i = Some t \<Longrightarrow> spent_output V i' = Some t' \<Longrightarrow> t = t'"
  by (auto simp: in_key_def unspent_key_def spent_output_def split: if_splits bind_splits)

lemma spent_output_value: "spent_output V i = Some t \<Longrightarrow> nValue t \<noteq> -1"
  by (auto simp: spent_output_def IsAvailable_def CTxOut_IsNull_def split: if_splits bind_splits)

definition hit_keys :: "(u256 \<rightharpoonup> CCoins) \<Rightarrow> CTransaction \<Rightarrow> CAddressUnspentKey set" where
  "hit_keys V tx = {in_key i t | i t. i \<in> set (indexed_inputs tx) \<and> spent_output V i = Some t \<and> 0 < snd (address_of t)}"

lemma unspent_restored:
  fixes Q :: "(nat \<times> CTxOut) list"
  assumes F: "fAddressIndex F" and out: "\<forall>i\<in>set is. spent_output V i \<noteq> None"
    and fresh: "\<And>k. uk_txhash k = loc_hash loc \<Longrightarrow> M k = None"
  defines "null \<equiv> \<lambda>t :: CTxOut. CAddressUnspentValue_new"
  defines "f \<equiv> \<lambda>x. if CAddressUnspentValue_IsNull x then None else Some x"
  defines "M1 \<equiv> db_batch f (concat (map (in_unspent F null V) (enumerate 0 is)) @ concat (map (out_unspent loc (unspent_value loc)) Q)) M"
  defines "M2 \<equiv> db_batch f (concat (map (out_unspent loc null) (rev Q)) @ concat (map (in_unspent F (unspent_value loc) V) (rev (enumerate 0 is)))) M1"
  shows "i \<in> set is \<Longrightarrow> spent_output V i = Some t \<Longrightarrow> 0 < snd (address_of t) \<Longrightarrow> M2 (in_key i t) = Some (unspent_value loc t)"
    "(\<And>i t. i \<in> set is \<Longrightarrow> spent_output V i = Some t \<Longrightarrow> 0 < snd (address_of t) \<Longrightarrow> k \<noteq> in_key i t) \<Longrightarrow> M2 k = M k"
proof -
  let ?I = "\<lambda>y E. concat (map (in_unspent F y V) E)" and ?O = "\<lambda>y Q. concat (map (out_unspent loc y) Q)"
  have rev: "set (?I y (rev E)) = set (?I y E)" "set (?O z (rev Q)) = set (?O z Q)" for y z E by simp_all
  {
    assume i: "i \<in> set is" "spent_output V i = Some t" "0 < snd (address_of t)"
    let ?k = "in_key i t"
    have "f x = Some (unspent_value loc t)" if "(?k, x) \<in> set (?I (unspent_value loc) (rev (enumerate 0 is)))" for x
      using that in_key_inj [of i t _ _ V] i(2) spent_output_value [OF i(2)] unfolding rev(1) in_unspent_keys [OF F out]
      by (auto simp: f_def unspent_value_def CAddressUnspentValue_IsNull_def)
    moreover have "?k \<in> fst ` set (?I (unspent_value loc) (rev (enumerate 0 is)))"
      using i in_unspent_keys [OF F out, of ?k "unspent_value loc t" "unspent_value loc" 0] unfolding rev(1) by (force simp: image_iff)
    ultimately show "M2 ?k = Some (unspent_value loc t)"
      unfolding M2_def db_batch_append by (subst db_batch_apply [where y = "Some (unspent_value loc t)"]) auto
  }
  {
    assume k: "\<And>i t. i \<in> set is \<Longrightarrow> spent_output V i = Some t \<Longrightarrow> 0 < snd (address_of t) \<Longrightarrow> k \<noteq> in_key i t"
    have no: "k \<notin> fst ` set (?I y (enumerate 0 is))" for y
    proof
      assume "k \<in> fst ` set (?I y (enumerate 0 is))"
      then obtain x where "(k, x) \<in> set (?I y (enumerate 0 is))" by (metis imageE prod.collapse)
      then show False using k unfolding in_unspent_keys [OF F out] by blast
    qed
    then have no': "k \<notin> fst ` set (?I y (rev (enumerate 0 is)))" for y unfolding rev(1) .
    have keys: "fst ` set (?O z Q) = fst ` set (?O null Q)" for z by (force simp: out_unspent_def split: if_splits)
    have "M2 k = db_batch f (?O null (rev Q)) M1 k" unfolding M2_def db_batch_append by (rule db_batch_other [OF no'])
    also have "\<dots> = (if k \<in> fst ` set (?O null Q) then None else M1 k)"
      by (subst db_batch_apply [where y = None])
         (auto simp: rev(2) out_unspent_def null_def f_def CAddressUnspentValue_IsNull_def CAddressUnspentValue_new_def split: if_splits)
    also have "\<dots> = M k"
    proof (cases "k \<in> fst ` set (?O null Q)")
      case True
      then show ?thesis using unspent_keys_hash [OF True] fresh by simp
    next
      case False
      then have "k \<notin> fst ` set (?O (unspent_value loc) Q)" using keys [of "unspent_value loc"] by simp
      then have "M1 k = M k" unfolding M1_def db_batch_append using db_batch_other [OF no] by (simp add: db_batch_other del: set_concat set_map)
      then show ?thesis using False by simp
    qed
    finally show "M2 k = M k" .
  }
qed

lemma address_restored:
  assumes "\<And>k. ak_txhash k = loc_hash loc \<Longrightarrow> M k = None"
  shows "db_batch (\<lambda>x. None) (concat (map (out_address loc) (rev Q)) @ concat (map (in_address F loc V) (rev E)))
    (db_batch Some (concat (map (in_address F loc V) E) @ concat (map (out_address loc) Q)) M) = M"
proof (rule ext)
  fix k
  let ?r = "concat (map (out_address loc) (rev Q)) @ concat (map (in_address F loc V) (rev E))"
  let ?w = "concat (map (in_address F loc V) E) @ concat (map (out_address loc) Q)"
  have keys: "fst ` set ?r = fst ` set ?w" by auto
  have "db_batch (\<lambda>x. None) ?r (db_batch Some ?w M) k = (if k \<in> fst ` set ?r then None else db_batch Some ?w M k)"
    by (rule db_batch_apply) simp
  also have "\<dots> = M k"
  proof (cases "k \<in> fst ` set ?w")
    case True
    then have "ak_txhash k = loc_hash loc" using address_keys_hash [of k] unfolding set_append image_Un by blast
    then show ?thesis using True assms unfolding keys by simp
  next
    case False
    then show ?thesis unfolding keys using db_batch_other [OF False, of Some M] by simp
  qed
  finally show "db_batch (\<lambda>x. None) ?r (db_batch Some ?w M) k = M k" .
qed

lemma spent_written:
  assumes "fSpentIndex F" "loc_hash loc \<noteq> 0" "i \<in> set is"
  shows "db_batch (\<lambda>x. if CSpentIndexValue_IsNull x then None else Some x) (concat (map (in_spent F (spent_value loc) V) (enumerate 0 is))) M (spent_key i) \<noteq> None"
proof (rule db_batch_Some)
  show "\<forall>e\<in>set (concat (map (in_spent F (spent_value loc) V) (enumerate 0 is))).
      (if CSpentIndexValue_IsNull (snd e) then None else Some (snd e)) \<noteq> None"
    using assms(1,2) by (auto simp: in_spent_def spent_value_def CSpentIndexValue_IsNull_def)
  obtain n where "n < length is" "is ! n = i" using assms(3) by (auto simp: in_set_conv_nth)
  then have "(n, i) \<in> set (enumerate 0 is)" by (auto simp: in_set_enumerate_eq)
  then have "(spent_key i, spent_value loc n (the (spent_output V i))) \<in> set (concat (map (in_spent F (spent_value loc) V) (enumerate 0 is)))"
    using assms(1) by (force simp: in_spent_def)
  then show "spent_key i \<in> fst ` set (concat (map (in_spent F (spent_value loc) V) (enumerate 0 is)))" by (metis fst_conv imageI)
qed

context coins_view begin

lemma RecordTransaction_ok:
  assumes "C v" "fAddressIndex F" "\<forall>i\<in>set (indexed_inputs tx). spent_output (U v) i \<noteq> None"
  defines "E \<equiv> enumerate 0 (indexed_inputs tx)"
  obtains v' where "RecordTransaction F B tx loc v IndexDatabaseUpdates_new = Some (add_updates IndexDatabaseUpdates_new
      (concat (map (in_address F loc (U v)) E) @ concat (map (out_address loc) (enumerate 0 (vout tx))))
      (concat (map (in_unspent F (\<lambda>t. CAddressUnspentValue_new) (U v)) E) @ concat (map (out_unspent loc (unspent_value loc)) (enumerate 0 (vout tx))))
      (concat (map (in_spent F (spent_value loc) (U v)) E)), v')"
proof -
  obtain v' where "Spending_CollectUpdatesFromInputs F B tx loc v IndexDatabaseUpdates_new = Some (add_updates IndexDatabaseUpdates_new
      (concat (map (in_address F loc (U v)) E)) (concat (map (in_unspent F (\<lambda>t. CAddressUnspentValue_new) (U v)) E))
      (concat (map (in_spent F (spent_value loc) (U v)) E)), v')"
    using spending_inputs_ok [OF assms(1), of "vin tx" F loc 0 IndexDatabaseUpdates_new] assms(2,3)
    by (cases "IsCoinBase tx") (auto simp: Spending_CollectUpdatesFromInputs_def indexed_inputs_def E_def list_all_iff)
  then show ?thesis using assms(2)
    by (intro that [of v']) (simp add: RecordTransaction_def Spending_CollectUpdatesFromOutputs_def spending_outputs_add)
qed

lemma ReverseTransaction_ok:
  assumes "C v" "fAddressIndex F" "\<forall>i\<in>set (indexed_inputs tx). spent_output (U v) i \<noteq> None"
  defines "E \<equiv> enumerate 0 (indexed_inputs tx)"
  obtains v' where "ReverseTransaction F B tx loc v IndexDatabaseUpdates_new = Some (add_updates IndexDatabaseUpdates_new
      (concat (map (out_address loc) (rev (enumerate 0 (vout tx)))) @ concat (map (in_address F loc (U v)) (rev E)))
      (concat (map (out_unspent loc (\<lambda>t. CAddressUnspentValue_new)) (rev (enumerate 0 (vout tx)))) @ concat (map (in_unspent F (unspent_value loc) (U v)) (rev E)))
      (concat (map (in_spent F (\<lambda>j t. CSpentIndexValue_new) (U v)) (rev E))), v')"
proof -
  let ?D = "ReverseSpending_CollectUpdatesFromOutputs F tx loc IndexDatabaseUpdates_new"
  have D: "?D = add_updates IndexDatabaseUpdates_new (concat (map (out_address loc) (rev (enumerate 0 (vout tx)))))
    (concat (map (out_unspent loc (\<lambda>t. CAddressUnspentValue_new)) (rev (enumerate 0 (vout tx))))) []"
    using assms(2) by (simp add: ReverseSpending_CollectUpdatesFromOutputs_def reverse_outputs_add)
  obtain v' where "ReverseSpending_CollectUpdatesFromInputs F B tx loc v ?D = Some (add_updates ?D
      (concat (map (in_address F loc (U v)) (rev E))) (concat (map (in_unspent F (unspent_value loc) (U v)) (rev E)))
      (concat (map (in_spent F (\<lambda>j t. CSpentIndexValue_new) (U v)) (rev E))), v')"
    using reverse_inputs_ok [OF assms(1), of "vin tx" "length (vin tx)" F loc ?D] assms(2,3)
    by (cases "IsCoinBase tx") (auto simp: ReverseSpending_CollectUpdatesFromInputs_def indexed_inputs_def E_def list_all_iff)
  then show ?thesis by (intro that [of v']) (simp add: ReverseTransaction_def D)
qed

end

lemma in_lists_cong:
  assumes "\<forall>i\<in>set is. spent_output V i = spent_output W i"
  shows "map (in_address F loc V) (rev (enumerate j is)) = map (in_address F loc W) (rev (enumerate j is))"
    "map (in_unspent F y V) (rev (enumerate j is)) = map (in_unspent F y W) (rev (enumerate j is))"
  using assms by (auto simp: in_address_def in_unspent_def rev_map [symmetric] in_set_enumerate_eq)

text \<open>
  C12: Suppose a transaction is recorded in the address indices when its block is connected, and taken back when the block is
  disconnected, with the outputs it spends available both times. The index of payments is as before. The index of unspent
  outputs is as before except for the outputs the transaction had spent: they are there again with their amount and script, but
  with the height of the disconnected block instead of the height they were created at. The index of spent outputs still
  has the entries of the transaction.
\<close>

theorem index_reversal:
  assumes "view_ok v" "view_ok w" "fAddressIndex F" "loc_hash loc = tx_hash tx" "tx_hash tx \<noteq> 0"
    and outs: "\<forall>i\<in>set (indexed_inputs tx). spent_output (view_utxo v) i \<noteq> None \<and> spent_output (view_utxo w) i = spent_output (view_utxo v) i"
    and fresh: "\<forall>k. ak_txhash k = tx_hash tx \<longrightarrow> DB_ADDRESSINDEX D k = None" "\<forall>k. uk_txhash k = tx_hash tx \<longrightarrow> DB_ADDRESSUNSPENTINDEX D k = None"
  shows "\<exists>upd1 upd2 v' w'. RecordTransaction F chain_view tx loc v IndexDatabaseUpdates_new = Some (upd1, v') \<and>
    ReverseTransaction F chain_view tx loc w IndexDatabaseUpdates_new = Some (upd2, w') \<and>
    (let D' = ApplyDisconnectionUpdateIndexToDBs F upd2 (UpdateDBIndicesForNewBlock F fTxIndex upd1 D)
     in DB_ADDRESSINDEX D' = DB_ADDRESSINDEX D \<and>
        (\<forall>i\<in>set (indexed_inputs tx). \<forall>t. spent_output (view_utxo v) i = Some t \<longrightarrow> 0 < snd (address_of t) \<longrightarrow>
          DB_ADDRESSUNSPENTINDEX D' (in_key i t) =
            Some \<lparr>uv_satoshis = nValue t, uv_script = scriptPubKey t, uv_blockHeight = sint (loc_blockHeight loc)\<rparr>) \<and>
        (\<forall>k. k \<notin> hit_keys (view_utxo v) tx \<longrightarrow> DB_ADDRESSUNSPENTINDEX D' k = DB_ADDRESSUNSPENTINDEX D k) \<and>
        (fSpentIndex F \<longrightarrow> (\<forall>i\<in>set (indexed_inputs tx). DB_SPENTINDEX D' (spent_key i) \<noteq> None)))"
proof -
  let ?V = "view_utxo v" and ?is = "indexed_inputs tx" and ?Q = "enumerate 0 (vout tx)"
  let ?null = "\<lambda>t :: CTxOut. CAddressUnspentValue_new"
  have C: "tip.C v" "tip.C w" and U: "tip.U v = ?V" "tip.U w = view_utxo w" using assms(1,2) by (simp_all add: view_ok_def view_utxo_def)
  have av: "\<forall>i\<in>set ?is. spent_output ?V i \<noteq> None" "\<forall>i\<in>set ?is. spent_output (view_utxo w) i \<noteq> None" using outs by auto
  have same: "\<forall>i\<in>set ?is. spent_output (view_utxo w) i = spent_output ?V i" using outs by blast
  note lists = in_lists_cong [OF same]
  obtain v' where r1: "RecordTransaction F chain_view tx loc v IndexDatabaseUpdates_new = Some (add_updates IndexDatabaseUpdates_new
      (concat (map (in_address F loc ?V) (enumerate 0 ?is)) @ concat (map (out_address loc) ?Q))
      (concat (map (in_unspent F ?null ?V) (enumerate 0 ?is)) @ concat (map (out_unspent loc (unspent_value loc)) ?Q))
      (concat (map (in_spent F (spent_value loc) ?V) (enumerate 0 ?is))), v')" (is "_ = Some (?upd1, v')")
    using tip.RecordTransaction_ok [OF C(1) assms(3), of tx loc] av(1) unfolding U by blast
  obtain w' s where r2: "ReverseTransaction F chain_view tx loc w IndexDatabaseUpdates_new = Some (add_updates IndexDatabaseUpdates_new
      (concat (map (out_address loc) (rev ?Q)) @ concat (map (in_address F loc ?V) (rev (enumerate 0 ?is))))
      (concat (map (out_unspent loc ?null) (rev ?Q)) @ concat (map (in_unspent F (unspent_value loc) ?V) (rev (enumerate 0 ?is)))) s, w')"
    (is "_ = Some (?upd2, w')")
    using tip.ReverseTransaction_ok [OF C(2) assms(3), of tx loc] av(2) unfolding U lists by blast
  define D' where "D' = ApplyDisconnectionUpdateIndexToDBs F ?upd2 (UpdateDBIndicesForNewBlock F fTxIndex ?upd1 D)"
  note defs = ApplyDisconnectionUpdateIndexToDBs_def UpdateDBIndicesForNewBlock_def WriteTxIndex_def WriteAddressIndex_def EraseAddressIndex_def
    UpdateAddressUnspentIndex_def UpdateSpentIndex_def add_updates_def IndexDatabaseUpdates_new_def
  have "DB_ADDRESSINDEX D' = DB_ADDRESSINDEX D"
    using address_restored [of loc "DB_ADDRESSINDEX D" ?Q F ?V "enumerate 0 ?is"] fresh(1) assms(3,4) by (simp add: D'_def defs Let_def)
  moreover have "DB_ADDRESSUNSPENTINDEX D' (in_key i t) = Some (unspent_value loc t)"
    if "i \<in> set ?is" "spent_output ?V i = Some t" "0 < snd (address_of t)" for i t
    using unspent_restored(1) [OF assms(3) av(1), of loc "DB_ADDRESSUNSPENTINDEX D" i t ?Q] that fresh(2) assms(3,4) by (simp add: D'_def defs Let_def)
  moreover have "DB_ADDRESSUNSPENTINDEX D' k = DB_ADDRESSUNSPENTINDEX D k" if "k \<notin> hit_keys ?V tx" for k
  proof -
    have no: "\<And>i t. i \<in> set ?is \<Longrightarrow> spent_output ?V i = Some t \<Longrightarrow> 0 < snd (address_of t) \<Longrightarrow> k \<noteq> in_key i t"
      using that by (auto simp: hit_keys_def)
    have f: "DB_ADDRESSUNSPENTINDEX D k = None" if "uk_txhash k = loc_hash loc" for k using that fresh(2) assms(4) by simp
    have "DB_ADDRESSUNSPENTINDEX D' = db_batch (\<lambda>x. if CAddressUnspentValue_IsNull x then None else Some x) (addressUnspentIndex ?upd2)
       (db_batch (\<lambda>x. if CAddressUnspentValue_IsNull x then None else Some x) (addressUnspentIndex ?upd1) (DB_ADDRESSUNSPENTINDEX D))"
      using assms(3) by (simp add: D'_def defs Let_def)
    then show ?thesis using unspent_restored(2) [where Q = ?Q and loc = loc, OF assms(3) av(1) f no]
      by (simp only: add_updates_def IndexDatabaseUpdates_new_def IndexDatabaseUpdates.simps append_Nil)
  qed
  moreover have "DB_SPENTINDEX D' (spent_key i) \<noteq> None" if "fSpentIndex F" "i \<in> set ?is" for i
  proof -
    have "DB_SPENTINDEX D' = db_batch (\<lambda>x. if CSpentIndexValue_IsNull x then None else Some x)
        (concat (map (in_spent F (spent_value loc) ?V) (enumerate 0 ?is))) (DB_SPENTINDEX D)"
      using assms(3) that(1) by (simp add: D'_def defs Let_def)
    moreover have "loc_hash loc \<noteq> 0" using assms(4,5) by simp
    ultimately show ?thesis by (simp only: spent_written that not_False_eq_True)
  qed
  ultimately show ?thesis using r1 r2 unfolding D'_def unspent_value_def Let_def by blast
qed

definition example_payment :: CTransaction where
  "example_payment = example_spender\<lparr>vout := [\<lparr>nValue = 5, scriptPubKey = [OP_HASH160, 20] @ replicate 20 1 @ [OP_EQUAL]\<rparr>]\<rparr>"

definition example_tree :: CBlockTreeDB where
  "example_tree = \<lparr>DB_ADDRESSINDEX = Map.empty, DB_ADDRESSUNSPENTINDEX = Map.empty, DB_SPENTINDEX = Map.empty, DB_TXINDEX = Map.empty,
     DB_BARETXIDINDEX = Map.empty\<rparr>"

definition example_paid :: CCoins where
  "example_paid = example_stake\<lparr>coVout := [\<lparr>nValue = 5, scriptPubKey = [OP_HASH160, 20] @ replicate 20 7 @ [OP_EQUAL]\<rparr>]\<rparr>"

definition example_paid_view :: "CCoinsViewDB CCoinsViewCache CCoinsViewCache" where
  "example_paid_view = CCoinsViewCache_new (CCoinsViewCache_new \<lparr>DB_COINS = [9 \<mapsto> example_paid], DB_BESTBLOCKHASH = None\<rparr>)"

lemma example_paid_facts: "view_ok example_paid_view" "view_utxo example_paid_view = [9 \<mapsto> example_paid]"
proof -
  have "db_ok \<lparr>DB_COINS = [9 \<mapsto> example_paid], DB_BESTBLOCKHASH = None\<rparr>"
    by (simp add: db_ok_def example_paid_def example_stake_def clean_def IsPruned_def CTxOut_IsNull_def)
  then show "view_ok example_paid_view" "view_utxo example_paid_view = [9 \<mapsto> example_paid]"
    using tip.new_cache_ok db.new_cache_ok by (auto simp: view_ok_def view_utxo_def example_paid_view_def)
qed

text \<open>The coins were created at height 7; after the block at height 20 is disconnected the index gives them height 20.\<close>

theorem index_reversal_witness:
  "\<exists>upd1 upd2 v' w'.
    RecordTransaction \<lparr>fAddressIndex = True, fSpentIndex = True\<rparr> chain_view example_payment
      (TransactionLocationReference_new example_payment 20 0) example_paid_view IndexDatabaseUpdates_new = Some (upd1, v') \<and>
    ReverseTransaction \<lparr>fAddressIndex = True, fSpentIndex = True\<rparr> chain_view example_payment
      (TransactionLocationReference_new example_payment 20 0) example_paid_view IndexDatabaseUpdates_new = Some (upd2, w') \<and>
    coHeight example_paid = 7 \<and>
    DB_ADDRESSUNSPENTINDEX (ApplyDisconnectionUpdateIndexToDBs \<lparr>fAddressIndex = True, fSpentIndex = True\<rparr> upd2
      (UpdateDBIndicesForNewBlock \<lparr>fAddressIndex = True, fSpentIndex = True\<rparr> True upd1 example_tree))
      (in_key (vin example_payment ! 0) (coVout example_paid ! 0)) =
    Some \<lparr>uv_satoshis = 5, uv_script = scriptPubKey (coVout example_paid ! 0), uv_blockHeight = 20\<rparr>"
proof -
  let ?F = "\<lparr>fAddressIndex = True, fSpentIndex = True\<rparr>" and ?loc = "TransactionLocationReference_new example_payment 20 0"
  have i: "indexed_inputs example_payment = [vin example_payment ! 0]"
    by (simp add: indexed_inputs_def example_payment_def example_spender_def IsCoinBase_def COutPoint_IsNull_def)
  have o: "spent_output (view_utxo example_paid_view) (vin example_payment ! 0) = Some (coVout example_paid ! 0)"
    by (simp add: example_paid_facts spent_output_def example_payment_def example_spender_def example_paid_def IsAvailable_def CTxOut_IsNull_def)
  have t: "0 < snd (address_of (coVout example_paid ! 0))" "nValue (coVout example_paid ! 0) = 5" "coHeight example_paid = 7"
    by (simp_all add: example_paid_def example_stake_def ComputeHashbytesAndAddressTypeForScript_def IsPayToScriptHash_def nth_append)
  have l: "loc_hash ?loc = tx_hash example_payment" "tx_hash example_payment \<noteq> 0" "sint (loc_blockHeight ?loc) = 20"
    by (simp_all add: TransactionLocationReference_new_def example_payment_def example_spender_def)
  have outs: "\<forall>i\<in>set (indexed_inputs example_payment). spent_output (view_utxo example_paid_view) i \<noteq> None \<and>
      spent_output (view_utxo example_paid_view) i = spent_output (view_utxo example_paid_view) i"
    unfolding i using o by simp
  show ?thesis
    using index_reversal [OF example_paid_facts(1) example_paid_facts(1), of ?F ?loc example_payment example_tree True, OF _ l(1,2) outs] o t l(3)
    by (auto simp: i example_tree_def Let_def)
qed

end
