(* ===== verification/Block_Check.thy ===== *)
theory Block_Check
  imports Index_Updates Subsidies
begin

text \<open>
  The transactions of a block (\<^verbatim>\<open>BlockTransactionChecker.cpp\<close>, \<^verbatim>\<open>TransactionInputChecker.cpp\<close>, \<^verbatim>\<open>CheckCoinstakeForVaults\<close> of
  \<^verbatim>\<open>kernel.cpp\<close>): every transaction is checked against the view, accounted for in the money supply, recorded in the indices and
  applied to the view. The theory shows that the unspent outputs never grow by more than the recorded money supply.
\<close>

section \<open>Checking one transaction\<close>

record TransactionInputChecker =
  nSigOps :: u32
  fScriptChecks :: bool
  vChecks :: "CScriptCheck list"
  scheduled :: "CScriptCheck list"

text \<open>What the checks of a block read besides their arguments.\<close>

record block_env = check_env +
  nScriptCheckThreads :: bool
  be_flags :: index_flags
  be_hasher :: tx_hasher

definition MAX_BLOCK_SIGOPS_CURRENT :: u32 where
  "MAX_BLOCK_SIGOPS_CURRENT = 2000000 div 50"

definition TransactionInputChecker_new :: "bool \<Rightarrow> TransactionInputChecker" where
  "TransactionInputChecker_new checkScripts = \<lparr>nSigOps = 0, fScriptChecks = checkScripts, vChecks = [], scheduled = []\<rparr>"

text \<open>The checks that have been handed to the queue; there is a queue only if scripts are checked, by several threads.\<close>

definition ScheduleBackgroundThreadScriptChecking :: "block_env \<Rightarrow> TransactionInputChecker \<Rightarrow> TransactionInputChecker" where
  "ScheduleBackgroundThreadScriptChecking E T =
    (if fScriptChecks T \<and> nScriptCheckThreads E then T\<lparr>scheduled := scheduled T @ vChecks T, vChecks := []\<rparr> else T\<lparr>vChecks := []\<rparr>)"

record money_records =
  nMoneySupply :: int
  nMint :: int

definition CheckInputsAndUpdateCoinSupplyRecords ::
  "block_env \<Rightarrow> 'v CCoinsView \<Rightarrow> CTransaction \<Rightarrow> bool \<Rightarrow> money_records \<Rightarrow> TransactionInputChecker \<Rightarrow> CValidationState \<Rightarrow> 'v CCoinsViewCache \<Rightarrow>
   halt + (bool \<times> money_records \<times> TransactionInputChecker \<times> CValidationState \<times> 'v CCoinsViewCache)" where
  "CheckInputsAndUpdateCoinSupplyRecords E B tx fJustCheck pindex T st v =
    (if vChecks T \<noteq> [] then Inl assert_failed
     else
       ebind (CheckInputs (check_env.truncate E) B tx st v 0 0 (fScriptChecks T) MANDATORY_SCRIPT_VERIFY_FLAGS fJustCheck
           (if nScriptCheckThreads E then Some (vChecks T) else None) True) (\<lambda>r.
         if \<not> cr_ok r then Inr (False, pindex, T\<lparr>vChecks := []\<rparr>, cr_state r, cr_view r)
         else ebind (GetValueOut_halt tx) (\<lambda>out.
           let mintingMinusBurn = wrap64 (out - nValueIn r)
           in Inr (True,
                \<lparr>nMoneySupply = wrap64 (nMoneySupply pindex + mintingMinusBurn), nMint = wrap64 (nMint pindex + wrap64 (mintingMinusBurn + nFees r))\<rparr>,
                T\<lparr>vChecks := (case cr_checks r of None \<Rightarrow> vChecks T | Some cs \<Rightarrow> cs)\<rparr>, cr_state r, cr_view r))))"

definition TotalSigOpsAreBelowMaximum ::
  "'v CCoinsView \<Rightarrow> CTransaction \<Rightarrow> TransactionInputChecker \<Rightarrow> CValidationState \<Rightarrow> 'v CCoinsViewCache \<Rightarrow>
   halt + (bool \<times> TransactionInputChecker \<times> CValidationState \<times> 'v CCoinsViewCache)" where
  "TotalSigOpsAreBelowMaximum B tx T st v =
    (let T = T\<lparr>nSigOps := nSigOps T + GetLegacySigOpCount tx\<rparr>
     in if nSigOps T > MAX_BLOCK_SIGOPS_CURRENT then
          let (r, st) = DoS st 100 False REJECT_INVALID ''bad-blk-sigops'' False in Inr (r, T, st, v)
        else if \<not> IsCoinBase tx then
          case GetP2SHSigOpCount B tx v of
            None \<Rightarrow> Inl assert_failed
          | Some (n, v) \<Rightarrow>
              let T = T\<lparr>nSigOps := nSigOps T + n\<rparr>
              in if nSigOps T > MAX_BLOCK_SIGOPS_CURRENT then
                   let (r, st) = DoS st 100 False REJECT_INVALID ''bad-blk-sigops'' False in Inr (r, T, st, v)
                 else Inr (True, T, st, v)
        else Inr (True, T, st, v))"

text \<open>The queue runs every check that was handed to it; its result is that of all of them.\<close>

definition WaitForScriptsToBeChecked :: "block_env \<Rightarrow> TransactionInputChecker \<Rightarrow> bool" where
  "WaitForScriptsToBeChecked E T \<longleftrightarrow>
    (if fScriptChecks T \<and> nScriptCheckThreads E then list_all (\<lambda>c. run_check (ce_lib E) c = Inr (True, SCRIPT_ERR_OK)) (scheduled T) else True)"

section \<open>Coinstakes that spend a vault\<close>

fun vault_loop ::
  "'v CCoinsView \<Rightarrow> CTxIn list \<Rightarrow> int \<Rightarrow> CScript option \<Rightarrow> 'v CCoinsViewCache \<Rightarrow> (bool \<times> int \<times> CScript option \<times> 'v CCoinsViewCache) option" where
  "vault_loop B [] valueIn vault v = Some (True, valueIn, vault, v)"
| "vault_loop B (i # is) valueIn vault v =
    Option.bind (GetOutputFor B v i) (\<lambda>(prevOut, v).
      let valueIn = wrap64 (valueIn + nValue prevOut)
      in if \<not> IsStakingVaultScript (scriptPubKey prevOut) then vault_loop B is valueIn vault v
         else case vault of
             Some vaultScript \<Rightarrow> if vaultScript \<noteq> scriptPubKey prevOut then Some (False, valueIn, vault, v) else vault_loop B is valueIn vault v
           | None \<Rightarrow> vault_loop B is valueIn (Some (scriptPubKey prevOut)) v)"

definition MIN_FOR_SPLITTING :: int where
  "MIN_FOR_SPLITTING = 10000 * COIN"

definition CheckCoinstakeForVaults ::
  "'v CCoinsView \<Rightarrow> CTransaction \<Rightarrow> CBlockRewards \<Rightarrow> 'v CCoinsViewCache \<Rightarrow> (bool \<times> 'v CCoinsViewCache) option" where
  "CheckCoinstakeForVaults B tx expectedRewards v =
    (if \<not> IsCoinStake tx then Some (True, v)
     else Option.bind (vault_loop B (vin tx) 0 None v) (\<lambda>(r, valueIn, vault, v).
       if \<not> r then Some (False, v)
       else case vault of
           None \<Rightarrow> Some (True, v)
         | Some vaultScript \<Rightarrow>
             if length (vout tx) < 2 then None
             else
               let rewardOut = vout tx ! 1
               in if scriptPubKey rewardOut \<noteq> vaultScript then Some (False, v)
                  else
                    let actualOutput = nValue rewardOut;
                        actualOutput =
                          (if length (vout tx) \<ge> 3 \<and> actualOutput \<ge> MIN_FOR_SPLITTING \<and> nValue (vout tx ! 2) \<ge> MIN_FOR_SPLITTING \<and>
                              scriptPubKey (vout tx ! 2) = vaultScript
                           then wrap64 (actualOutput + nValue (vout tx ! 2)) else actualOutput);
                        expectedOutput = wrap64 (valueIn + rwStake expectedRewards)
                    in Some (\<not> actualOutput < expectedOutput, v)))"

section \<open>All transactions of a block\<close>

definition RecordTxLocationData :: "block_env \<Rightarrow> CTransaction \<Rightarrow> CDiskTxPos \<Rightarrow> IndexDatabaseUpdates \<Rightarrow> CDiskTxPos \<times> IndexDatabaseUpdates" where
  "RecordTxLocationData E tx pos D =
    (pos\<lparr>nTxOffset := nTxOffset pos + word_of_nat (length (Serialize_tx (to_mutable tx)))\<rparr>,
     D\<lparr>txLocationData := txLocationData D @ [\<lparr>te_txid = tx_hash tx, te_bareTxid = GetBareTxid (be_hasher E) tx, te_diskPos = pos\<rparr>]\<rparr>)"

record 'v BlockTransactionChecker =
  vtxundo :: "CTxInUndo list list"
  bc_state :: CValidationState
  bc_money :: money_records
  bc_view :: "'v CCoinsViewCache"
  txInputChecker :: TransactionInputChecker
  txLocation :: CDiskTxPos

definition BlockTransactionChecker_new ::
  "CTransaction list \<Rightarrow> CValidationState \<Rightarrow> int \<Rightarrow> int \<times> u32 \<Rightarrow> 'v CCoinsViewCache \<Rightarrow> int \<Rightarrow> 'v BlockTransactionChecker" where
  "BlockTransactionChecker_new vtx st nHeightIn pos v blocksToSkipChecksFor =
    \<lparr>vtxundo = replicate (length vtx - 1) [], bc_state = st, bc_money = \<lparr>nMoneySupply = 0, nMint = 0\<rparr>, bc_view = v,
     txInputChecker = TransactionInputChecker_new (nHeightIn \<ge> blocksToSkipChecksFor),
     txLocation = \<lparr>dp_nFile = fst pos, dp_nPos = snd pos, nTxOffset = word_of_nat (GetSizeOfCompactSize (int (length vtx)))\<rparr>\<rparr>"

text \<open>
  One round of the loop. The undo data of a transaction goes to the position before its own; the first transaction shares position 0
  with the second one, which is no position at all in a block of one transaction, and as a coinbase adds nothing to it.
\<close>

definition check_tx ::
  "block_env \<Rightarrow> 'v CCoinsView \<Rightarrow> CBlockRewards \<Rightarrow> bool \<Rightarrow> int \<Rightarrow> nat \<Rightarrow> CTransaction \<Rightarrow> 'v BlockTransactionChecker \<Rightarrow> IndexDatabaseUpdates \<Rightarrow>
   halt + (bool \<times> 'v BlockTransactionChecker \<times> IndexDatabaseUpdates)" where
  "check_tx E B rewards fJustCheck nHeightIn i tx S D =
    (let loc = TransactionLocationReference_new tx (word_of_int nHeightIn) (int i)
     in ebind (TotalSigOpsAreBelowMaximum B tx (txInputChecker S) (bc_state S) (bc_view S)) (\<lambda>(r, T, st, v).
          let S = S\<lparr>txInputChecker := T, bc_state := st, bc_view := v\<rparr>
          in if \<not> r then Inr (False, S, D)
             else ebind (CheckInputsAndUpdateCoinSupplyRecords E B tx fJustCheck (bc_money S) (txInputChecker S) (bc_state S) (bc_view S))
               (\<lambda>(r, money, T, st, v).
                 let S = S\<lparr>bc_money := money, txInputChecker := T, bc_state := st, bc_view := v\<rparr>
                 in if \<not> r then Inr (False, S, D)
                    else
                      let S = (if \<not> IsCoinBase tx then S\<lparr>txInputChecker := ScheduleBackgroundThreadScriptChecking E (txInputChecker S)\<rparr> else S)
                      in case CheckCoinstakeForVaults B tx rewards (bc_view S) of
                           None \<Rightarrow> Inl assert_failed
                         | Some (r, v) \<Rightarrow>
                             if \<not> r then
                               let (r, st) = DoS (bc_state S) 100 False REJECT_INVALID ''bad-coinstake-vault-spend'' False
                               in Inr (r, S\<lparr>bc_view := v, bc_state := st\<rparr>, D)
                             else
                               case RecordTransaction (be_flags E) B tx loc v D of
                                 None \<Rightarrow> Inl assert_failed
                               | Some (D, v) \<Rightarrow>
                                   let j = (if i > 0 then i - 1 else 0); undo = (if j < length (vtxundo S) then vtxundo S ! j else [])
                                   in case UpdateCoinsWithTransaction B tx v undo nHeightIn of
                                        None \<Rightarrow> Inl assert_failed
                                      | Some (undo, v) \<Rightarrow>
                                          let (pos, D) = RecordTxLocationData E tx (txLocation S) D
                                          in Inr (True, S\<lparr>vtxundo := (vtxundo S)[j := undo], bc_view := v, txLocation := pos\<rparr>, D))))"

fun check_txs ::
  "block_env \<Rightarrow> 'v CCoinsView \<Rightarrow> CBlockRewards \<Rightarrow> bool \<Rightarrow> int \<Rightarrow> nat \<Rightarrow> CTransaction list \<Rightarrow> 'v BlockTransactionChecker \<Rightarrow> IndexDatabaseUpdates \<Rightarrow>
   halt + (bool \<times> 'v BlockTransactionChecker \<times> IndexDatabaseUpdates)" where
  "check_txs E B rewards fJustCheck nHeightIn i [] S D = Inr (True, S, D)"
| "check_txs E B rewards fJustCheck nHeightIn i (tx # txs) S D =
    ebind (check_tx E B rewards fJustCheck nHeightIn i tx S D) (\<lambda>(r, S, D).
      if \<not> r then Inr (False, S, D) else check_txs E B rewards fJustCheck nHeightIn (Suc i) txs S D)"

definition Check ::
  "block_env \<Rightarrow> 'v CCoinsView \<Rightarrow> CTransaction list \<Rightarrow> int \<Rightarrow> int \<Rightarrow> CBlockRewards \<Rightarrow> bool \<Rightarrow> 'v BlockTransactionChecker \<Rightarrow> IndexDatabaseUpdates \<Rightarrow>
   halt + (bool \<times> 'v BlockTransactionChecker \<times> IndexDatabaseUpdates)" where
  "Check E B vtx nHeightIn nMoneySupplyPrev nExpectedMint fJustCheck S D =
    check_txs E B nExpectedMint fJustCheck nHeightIn 0 vtx (S\<lparr>bc_money := \<lparr>nMoneySupply = nMoneySupplyPrev, nMint = 0\<rparr>\<rparr>) D"

section \<open>The value of the unspent outputs\<close>

definition coins_value :: "CCoins \<Rightarrow> int" where
  "coins_value c = (\<Sum>t\<leftarrow>coVout c. if CTxOut_IsNull t then 0 else nValue t)"

definition utxo_value :: "(u256 \<rightharpoonup> CCoins) \<Rightarrow> int" where
  "utxo_value V = (\<Sum>k\<in>dom V. coins_value (the (V k)))"

definition values_ok :: "(u256 \<rightharpoonup> CCoins) \<Rightarrow> bool" where
  "values_ok V \<longleftrightarrow> (\<forall>c\<in>ran V. \<forall>t\<in>set (coVout c). CTxOut_IsNull t \<or> 0 \<le> nValue t)"

definition option_value :: "CCoins option \<Rightarrow> int" where
  "option_value x = (case x of None \<Rightarrow> 0 | Some c \<Rightarrow> coins_value c)"

lemma utxo_value_upd:
  assumes "finite (dom V)"
  shows "utxo_value (V(k := x)) = utxo_value V - option_value (V k) + option_value x"
proof -
  let ?f = "\<lambda>W k. coins_value (the (W k))"
  have "utxo_value W = sum (?f W) (dom W - {k}) + option_value (W k)" if "finite (dom W)" for W
    using that by (cases "W k") (auto simp: utxo_value_def option_value_def domIff insert_absorb sum.remove [of "dom W" k "?f W"])
  moreover have "dom (V(k := x)) - {k} = dom V - {k}" by auto
  moreover have "sum (?f (V(k := x))) (dom V - {k}) = sum (?f V) (dom V - {k})" by (rule sum.cong) auto
  moreover have "finite (dom (V(k := x)))" using assms by (cases x) simp_all
  ultimately show ?thesis using assms by simp
qed

lemma sum_nulls: "list_all CTxOut_IsNull v \<Longrightarrow> (\<Sum>t\<leftarrow>v. if CTxOut_IsNull t then 0 else nValue t) = 0"
  by (induction v) auto

lemma coins_value_pop_null: "coVout d = pop_null v \<Longrightarrow> coins_value d = (\<Sum>t\<leftarrow>v. if CTxOut_IsNull t then 0 else nValue t)"
proof -
  assume d: "coVout d = pop_null v"
  obtain n where n: "v = pop_null v @ n" "list_all CTxOut_IsNull n" using pop_null_split by blast
  have "(\<Sum>t\<leftarrow>v. if CTxOut_IsNull t then 0 else nValue t) = (\<Sum>t\<leftarrow>pop_null v @ n. if CTxOut_IsNull t then 0 else nValue t)" using n(1) by simp
  also have "\<dots> = (\<Sum>t\<leftarrow>pop_null v. if CTxOut_IsNull t then 0 else nValue t)" using sum_nulls [OF n(2)] by simp
  finally show ?thesis using d by (simp add: coins_value_def)
qed

lemma option_value_unpruned [simp]: "option_value (unpruned c) = coins_value c"
  by (simp add: option_value_def unpruned_def IsPruned_def coins_value_def sum_nulls)

lemma option_value_nonneg: "values_ok V \<Longrightarrow> 0 \<le> option_value (V k)"
  by (cases "V k") (fastforce simp: option_value_def coins_value_def values_ok_def ran_def intro!: sum_list_nonneg)+

lemma utxo_value_nonneg: "values_ok V \<Longrightarrow> 0 \<le> utxo_value V"
  unfolding utxo_value_def
proof (rule sum_nonneg)
  fix k assume "values_ok V" "k \<in> dom V"
  then show "0 \<le> coins_value (the (V k))" using option_value_nonneg [of V k] by (auto simp: option_value_def)
qed

lemma sum_list_upd: "i < length v \<Longrightarrow> (\<Sum>t\<leftarrow>v[i := x]. f t) = (\<Sum>t\<leftarrow>v. f t) - f (v ! i) + f x" for f :: "'a \<Rightarrow> int"
  by (induction v arbitrary: i) (auto split: nat.splits)

section \<open>Spending in sequence\<close>

fun spend_seq :: "(u256 \<rightharpoonup> CCoins) \<Rightarrow> CTxIn list \<Rightarrow> (CTxInUndo list \<times> (u256 \<rightharpoonup> CCoins)) option" where
  "spend_seq V [] = Some ([], V)"
| "spend_seq V (i # is) =
    Option.bind (V (op_hash (prevout i))) (\<lambda>c.
      case Spend c (sint (op_n (prevout i))) CTxInUndo_new of (ret, d, undo) \<Rightarrow>
        if ret then map_option (\<lambda>(us, W). (undo # us, W)) (spend_seq (V(op_hash (prevout i) := unpruned d)) is) else None)"

lemma Spend_True:
  assumes "Spend c (sint n) u = (True, d, undo)"
  shows "IsAvailable c n" "0 \<le> sint n" "d = c\<lparr>coVout := pop_null ((coVout c)[unat n := CTxOut_SetNull])\<rparr>"
proof -
  have n: "0 \<le> sint n" "sint n < int (length (coVout c))" "\<not> CTxOut_IsNull (coVout c ! nat (sint n))"
    using assms by (auto simp: Spend_def split: if_splits)
  then have "nat (sint n) = unat n" using sint_nonneg_u32(1) [OF n(1)] by simp
  then show a: "IsAvailable c n" "0 \<le> sint n" using n sint_nonneg_u32(1) [OF n(1)] by (simp_all only: IsAvailable_def nat_less_iff of_nat_less_iff simp_thms)
  show "d = c\<lparr>coVout := pop_null ((coVout c)[unat n := CTxOut_SetNull])\<rparr>"
    using assms Spend_available [OF a, of u] by (simp add: Let_def)
qed

lemma pop_null_nth: "m < length (pop_null v) \<Longrightarrow> m < length v \<and> pop_null v ! m = v ! m"
proof -
  assume m: "m < length (pop_null v)"
  obtain n where n: "v = pop_null v @ n" using pop_null_split by blast
  have "m < length (pop_null v @ n)" "(pop_null v @ n) ! m = pop_null v ! m" using m by (simp_all add: nth_append)
  then show ?thesis using n by simp
qed

lemma spent_mono:
  assumes "V (op_hash (prevout i)) = Some c" "Spend c (sint (op_n (prevout i))) u = (True, d, undo)"
    "spent_output (V(op_hash (prevout i) := unpruned d)) j = Some t"
  shows "spent_output V j = Some t"
proof (cases "op_hash (prevout j) = op_hash (prevout i)")
  case False
  then show ?thesis using assms(3) by (simp add: spent_output_def)
next
  case True
  let ?w = "(coVout c)[unat (op_n (prevout i)) := CTxOut_SetNull]"
  have d: "coVout d = pop_null ?w" using Spend_True(3) [OF assms(2)] by simp
  have "unat (op_n (prevout j)) < length (pop_null ?w)" "\<not> CTxOut_IsNull (pop_null ?w ! unat (op_n (prevout j)))"
    "t = pop_null ?w ! unat (op_n (prevout j))"
    using assms(3) True d by (auto simp: spent_output_def IsAvailable_def unpruned_def split: if_splits)
  then have "unat (op_n (prevout j)) < length ?w" "\<not> CTxOut_IsNull t" "t = ?w ! unat (op_n (prevout j))" using pop_null_nth [of _ ?w] by auto
  then show ?thesis using True assms(1)
    by (cases "unat (op_n (prevout j)) = unat (op_n (prevout i))") (auto simp: spent_output_def IsAvailable_def)
qed

lemma spend_value:
  assumes "finite (dom V)" "values_ok V" "V (op_hash (prevout i)) = Some c" "Spend c (sint (op_n (prevout i))) u = (True, d, undo)"
  defines "W \<equiv> V(op_hash (prevout i) := unpruned d)"
  shows "finite (dom W)" "values_ok W" "utxo_value W = utxo_value V - value_of V i" "spent_output V i \<noteq> None"
proof -
  let ?n = "unat (op_n (prevout i))"
  let ?w = "(coVout c)[?n := CTxOut_SetNull]"
  note S = Spend_True [OF assms(4)]
  have n: "?n < length (coVout c)" "\<not> CTxOut_IsNull (coVout c ! ?n)" using S(1) by (auto simp: IsAvailable_def)
  show "finite (dom W)" using assms(1) by (cases "unpruned d") (simp_all add: W_def)
  have "t \<in> set ?w" if "t \<in> set (coVout d)" for t
    using that pop_null_split [of ?w] S(3) by (metis CCoins.select_convs(3) CCoins.surjective CCoins.update_convs(3) UnI1 set_append)
  then have "CTxOut_IsNull t \<or> 0 \<le> nValue t" if "t \<in> set (coVout d)" for t
    using that assms(2,3) set_update_subset_insert [of "coVout c" ?n CTxOut_SetNull] by (fastforce simp: values_ok_def ran_def)
  then show "values_ok W" using assms(2) by (auto simp: values_ok_def ran_def W_def unpruned_def split: if_splits)
  have "coins_value d = coins_value c - nValue (coVout c ! ?n)"
    using n S(3) by (subst coins_value_pop_null [of d ?w]) (simp_all add: sum_list_upd coins_value_def)
  moreover have "value_of V i = nValue (coVout c ! ?n)" "spent_output V i \<noteq> None"
    using assms(3) S(1) by (simp_all add: value_of_def spent_output_def)
  ultimately show "utxo_value W = utxo_value V - value_of V i" "spent_output V i \<noteq> None"
    unfolding W_def using utxo_value_upd [OF assms(1), of "op_hash (prevout i)" "unpruned d"] assms(3)
    by (simp_all add: option_value_def [of "Some c"])
qed

lemma spend_seq_value:
  "finite (dom V) \<Longrightarrow> values_ok V \<Longrightarrow> spend_seq V is = Some (us, W) \<Longrightarrow>
   finite (dom W) \<and> values_ok W \<and> utxo_value W = utxo_value V - (\<Sum>i\<leftarrow>is. value_of V i) \<and> list_all (\<lambda>i. spent_output V i \<noteq> None) is"
proof (induction "is" arbitrary: V us)
  case (Cons i "is")
  obtain c d undo us' where c: "V (op_hash (prevout i)) = Some c" "Spend c (sint (op_n (prevout i))) CTxInUndo_new = (True, d, undo)"
    "spend_seq (V(op_hash (prevout i) := unpruned d)) is = Some (us', W)"
    using Cons.prems(3) by (auto split: bind_splits prod.splits if_splits)
  let ?V = "V(op_hash (prevout i) := unpruned d)"
  note S = spend_value [OF Cons.prems(1,2) c(1,2)]
  note IH = Cons.IH [OF S(1,2) c(3)]
  have "spent_output V j = spent_output ?V j" if j: "j \<in> set is" for j
  proof -
    obtain t where t: "spent_output ?V j = Some t" using IH j by (auto simp: list_all_iff simp del: fun_upd_apply)
    with spent_mono [OF c(1,2) t] show ?thesis by simp
  qed
  then have "(\<Sum>j\<leftarrow>is. value_of ?V j) = (\<Sum>j\<leftarrow>is. value_of V j)" "list_all (\<lambda>j. spent_output V j \<noteq> None) is"
    using IH by (auto simp: value_of_def list_all_iff intro!: arg_cong [where f = sum_list] map_cong simp del: fun_upd_apply)
  then show ?case using IH S by (simp del: fun_upd_apply)
qed simp

section \<open>What a checked transaction does to the view\<close>

lemma FromTx_value:
  assumes "list_all (\<lambda>t. 0 \<le> nValue t) (vout tx)"
  shows "coins_value (FromTx tx h) \<le> (\<Sum>t\<leftarrow>vout tx. nValue t)" "\<forall>t\<in>set (coVout (FromTx tx h)). CTxOut_IsNull t \<or> 0 \<le> nValue t"
proof -
  let ?f = "\<lambda>t. if IsUnspendable (scriptPubKey t) then CTxOut_SetNull else t"
  have v: "coVout (FromTx tx h) = pop_null (map ?f (vout tx))" by (simp add: FromTx_def ClearUnspendable_def Cleanup_def)
  have "(\<Sum>t\<leftarrow>map ?f (vout tx). if CTxOut_IsNull t then 0 else nValue t) \<le> (\<Sum>t\<leftarrow>vout tx. nValue t)"
    using assms by (induction "vout tx" arbitrary: tx rule: list.induct) (auto simp: comp_def list_all_iff intro!: sum_list_mono)
  then show "coins_value (FromTx tx h) \<le> (\<Sum>t\<leftarrow>vout tx. nValue t)" using coins_value_pop_null [OF v] by simp
  have "set (coVout (FromTx tx h)) \<subseteq> set (map ?f (vout tx))" using pop_null_split [of "map ?f (vout tx)"] v by (metis Un_upper1 set_append)
  moreover have "CTxOut_IsNull (?f t) \<or> 0 \<le> nValue (?f t)" if "t \<in> set (vout tx)" for t using assms that by (simp add: list_all_iff)
  ultimately show "\<forall>t\<in>set (coVout (FromTx tx h)). CTxOut_IsNull t \<or> 0 \<le> nValue t" by fastforce
qed

context coins_view begin

lemma GetOutputFor_same:
  assumes "C v" "GetOutputFor B v i = Some (t, v')"
  shows "same v v'"
proof (rule AccessCoins_cases [OF assms(1), of "op_hash (prevout i)"])
  fix w assume "AccessCoins B v (op_hash (prevout i)) = (None, w)"
  then show ?thesis using assms(2) by (simp add: GetOutputFor_def)
next
  fix c w assume "AccessCoins B v (op_hash (prevout i)) = (Some c, w)" "same v w"
  then show ?thesis using assms(2) by (auto simp: GetOutputFor_def split: if_splits)
qed

lemma sameD: "same v w \<Longrightarrow> C w" "same v w \<Longrightarrow> U w = U v" "same v w \<Longrightarrow> cache_best best w = cache_best best v"
  by (simp_all add: same_view_def)

lemma p2sh_loop_same: "C v \<Longrightarrow> p2sh_loop B is n v = Some (m, v') \<Longrightarrow> same v v'"
proof (induction "is" arbitrary: v n)
  case (Cons i "is")
  obtain t w n' where w: "GetOutputFor B v i = Some (t, w)" "p2sh_loop B is n' w = Some (m, v')"
    using Cons.prems(2) by (auto split: bind_splits)
  note G = GetOutputFor_same [OF Cons.prems(1) w(1)]
  show ?case using Cons.IH [OF sameD(1) [OF G] w(2)] by (rule same_trans [OF G])
qed (simp add: same_refl)

lemma vault_loop_same: "C v \<Longrightarrow> vault_loop B is n s v = Some (r, m, s', v') \<Longrightarrow> same v v'"
proof (induction "is" arbitrary: v n s)
  case (Cons i "is")
  obtain t w where w: "GetOutputFor B v i = Some (t, w)" using Cons.prems(2) by (auto split: bind_splits)
  note G = GetOutputFor_same [OF Cons.prems(1) w]
  show ?case using Cons.prems(2) w G same_trans [OF G Cons.IH [OF sameD(1) [OF G]]] by (auto simp: Let_def split: if_splits option.splits)
qed (simp add: same_refl)

lemma spending_inputs_same: "C v \<Longrightarrow> spending_inputs F B loc j is v D = Some (D', v') \<Longrightarrow> same v v'"
proof (induction "is" arbitrary: v j D)
  case (Cons i "is")
  obtain t w where w: "GetOutputFor B v i = Some (t, w)" using Cons.prems(2) by (auto split: bind_splits)
  then obtain D'' where s: "spending_inputs F B loc (Suc j) is w D'' = Some (D', v')" using Cons.prems(2) by (auto simp: Let_def)
  note G = GetOutputFor_same [OF Cons.prems(1) w]
  show ?case using Cons.IH [OF sameD(1) [OF G] s] by (rule same_trans [OF G])
qed (simp add: same_refl)

lemma RecordTransaction_same: "C v \<Longrightarrow> RecordTransaction F B tx loc v D = Some (D', v') \<Longrightarrow> same v v'"
  by (auto simp: RecordTransaction_def Spending_CollectUpdatesFromInputs_def same_refl dest: spending_inputs_same split: if_splits)

lemma CheckCoinstakeForVaults_same: "C v \<Longrightarrow> CheckCoinstakeForVaults B tx rw v = Some (r, v') \<Longrightarrow> same v v'"
  by (auto simp: CheckCoinstakeForVaults_def Let_def same_refl dest: vault_loop_same split: if_splits bind_splits option.splits)

lemma TotalSigOps_same:
  "C v \<Longrightarrow> TotalSigOpsAreBelowMaximum B tx T st v = Inr (True, T', st', v') \<Longrightarrow>
   same v v' \<and> st' = st \<and> (\<exists>n. T' = T\<lparr>nSigOps := n\<rparr> \<and> n \<le> MAX_BLOCK_SIGOPS_CURRENT)"
  by (auto simp: TotalSigOpsAreBelowMaximum_def GetP2SHSigOpCount_def Let_def DoS_def same_refl dest: p2sh_loop_same split: if_splits option.splits)

lemma spend_inputs_run:
  "C v \<Longrightarrow> spend_inputs B v us is = Some (us', v') \<Longrightarrow> 
   \<exists>ws. us' = us @ ws \<and> C v' \<and> cache_best best v' = cache_best best v \<and> spend_seq (U v) is = Some (ws, U v')"
proof (induction "is" arbitrary: v us)
  case (Cons i "is")
  let ?k = "op_hash (prevout i)" and ?f = "\<lambda>c. let (ret, c, undo) = Spend c (sint (op_n (prevout i))) CTxInUndo_new in ((ret, undo), c)"
  obtain c w where c: "modify_with B v ?k ?f = Some (fst (?f c), w)" "C w" "unpruned c = U v ?k" "clean (coVout c)"
    "U w = (U v)(?k := unpruned (Cleanup (snd (?f c))))" "cache_best best w = cache_best best v"
    by (rule modify_with_ok [OF Cons.prems(1), of ?k ?f]) auto
  obtain ret d undo where d: "Spend c (sint (op_n (prevout i))) CTxInUndo_new = (ret, d, undo)" by (metis prod.exhaust)
  have r: ret and rest: "spend_inputs B w (us @ [undo]) is = Some (us', v')" using Cons.prems(2) c(1) d by (auto split: if_splits)
  have "coVout c \<noteq> []" using d r by (auto simp: Spend_out_of_range)
  then have Uc: "U v ?k = Some c" using c(3,4) by (metis clean_pruned unpruned_def)
  have "clean (coVout d)" using Spend_True(3) [of c "op_n (prevout i)" CTxInUndo_new d undo] d r by simp
  then have Uw: "U w = (U v)(?k := unpruned d)" using c(5) d by (simp add: Cleanup_clean)
  show ?case using Cons.IH [OF c(2) rest] Uc d r Uw c(6) by (auto simp del: fun_upd_apply)
qed simp

lemma UpdateCoins_run:
  assumes "C v" "UpdateCoinsWithTransaction B tx v us h = Some (us', v')"
  shows "\<exists>ws W. C v' \<and> cache_best best v' = cache_best best v \<and> us' = us @ ws \<and>
    (if IsCoinBase tx then ws = [] \<and> W = U v else spend_seq (U v) (vin tx) = Some (ws, W)) \<and> U v' = W(tx_hash tx := unpruned (FromTx tx h))"
proof -
  obtain w where w: "(if \<not> IsCoinBase tx then spend_inputs B v us (vin tx) else Some (us, v)) = Some (us', w)"
    "modify_with B w (tx_hash tx) (\<lambda>c. ((), FromTx tx h)) = Some ((), v')"
    using assms(2) by (auto simp: UpdateCoinsWithTransaction_def split: bind_splits)
  have Cw: "C w" "cache_best best w = cache_best best v"
    and W: "\<exists>ws. us' = us @ ws \<and> (if IsCoinBase tx then ws = [] \<and> U w = U v else spend_seq (U v) (vin tx) = Some (ws, U w))"
    using w(1) spend_inputs_run [OF assms(1), of us "vin tx" us' w] assms(1) by (auto split: if_splits)
  obtain x where "modify_with B w (tx_hash tx) (\<lambda>c. ((), FromTx tx h)) = Some ((), x)" "C x"
    "U x = (U w)(tx_hash tx := unpruned (Cleanup (FromTx tx h)))" "cache_best best x = cache_best best w"
    by (rule modify_with_ok [OF Cw(1), of "tx_hash tx" "\<lambda>c. ((), FromTx tx h)"]) auto
  then have "C v'" "U v' = (U w)(tx_hash tx := unpruned (FromTx tx h))" "cache_best best v' = cache_best best v"
    using w(2) Cw(2) by (auto simp: Cleanup_clean)
  then show ?thesis using W by (auto split: if_splits)
qed

end

definition outputs_value :: "CTransaction \<Rightarrow> int" where
  "outputs_value tx = (\<Sum>t\<leftarrow>vout tx. nValue t)"

text \<open>What a transaction adds to the recorded amounts, from the value of its inputs and its fee.\<close>

definition account :: "int \<Rightarrow> int \<Rightarrow> int \<Rightarrow> money_records \<Rightarrow> money_records" where
  "account out inn fee m =
    \<lparr>nMoneySupply = wrap64 (nMoneySupply m + wrap64 (out - inn)), nMint = wrap64 (nMint m + wrap64 (wrap64 (out - inn) + fee))\<rparr>"

definition inputs_value :: "(u256 \<rightharpoonup> CCoins) \<Rightarrow> CTransaction \<Rightarrow> int" where
  "inputs_value V tx = (if IsCoinBase tx then 0 else \<Sum>i\<leftarrow>vin tx. value_of V i)"

definition mints :: "CTransaction \<Rightarrow> bool" where
  "mints tx \<longleftrightarrow> IsCoinBase tx \<or> IsCoinStake tx"

definition fee_of :: "(u256 \<rightharpoonup> CCoins) \<Rightarrow> CTransaction \<Rightarrow> int" where
  "fee_of V tx = (if mints tx then 0 else inputs_value V tx - outputs_value tx)"

text \<open>
  What is required of a transaction at a block whose predecessor has the given hash: its inputs are unspent, in range and mature, and it
  has no negative output and no negative fee.
\<close>

definition inputs_valid :: "block_env \<Rightarrow> u256 \<Rightarrow> (u256 \<rightharpoonup> CCoins) \<Rightarrow> CTransaction \<Rightarrow> bool" where
  "inputs_valid E prev V tx \<longleftrightarrow>
    (IsCoinBase tx \<or> (\<exists>h. ce_heights E prev = Some h \<and>
      list_all (\<lambda>i. spent_output V i \<noteq> None \<and> MoneyRange (value_of V i) (MaxMoneyOut E) \<and> mature (check_env.truncate E) (h + 1) V i) (vin tx))) \<and>
    list_all (\<lambda>t. 0 \<le> nValue t) (vout tx) \<and> 0 \<le> fee_of V tx"

text \<open>The effect of a transaction on the unspent outputs, with its undo data; \<open>None\<close> if an input is not there.\<close>

definition apply_tx :: "int \<Rightarrow> (u256 \<rightharpoonup> CCoins) \<Rightarrow> CTransaction \<Rightarrow> (CTxInUndo list \<times> (u256 \<rightharpoonup> CCoins)) option" where
  "apply_tx h V tx =
    map_option (\<lambda>(us, W). (us, W(tx_hash tx := unpruned (FromTx tx h)))) (if IsCoinBase tx then Some ([], V) else spend_seq V (vin tx))"

definition amounts_ok :: "block_env \<Rightarrow> CTransaction list \<Rightarrow> bool" where
  "amounts_ok E txs \<longleftrightarrow> 0 \<le> MaxMoneyOut E \<and> MaxMoneyOut E < 2 ^ 62 \<and> list_all (\<lambda>tx. list_all (\<lambda>t. is_amount (nValue t)) (vout tx)) txs"

lemma truncate_simps [simp]: "MaxMoneyOut (check_env.truncate E) = MaxMoneyOut E" "ce_lib (check_env.truncate E) = ce_lib E"
  "ce_heights (check_env.truncate E) = ce_heights E"
  by (simp_all add: check_env.defs)

lemma GetValueOut_halt_ok:
  assumes "GetValueOut_halt tx = Inr out" "list_all (\<lambda>t. is_amount (nValue t)) (vout tx)"
  shows "out = outputs_value tx" "list_all (\<lambda>t. 0 \<le> nValue t) (vout tx)"
  using assms value_out_loop_sum [of 0 "vout tx" out]
  by (auto simp: GetValueOut_halt_def GetValueOut_def outputs_value_def is_amount_def split: sum.splits)

lemma wrap64_wrap: "wrap64 (wrap64 a + b) = wrap64 (a + b)"
  using mod_add_left_eq [of "a + 2 ^ 63" "2 ^ 64" b] by (simp add: wrap64_def algebra_simps)

lemma wrap64_wrap': "wrap64 (a + wrap64 b) = wrap64 (a + b)"
  using wrap64_wrap [of b a] by (simp add: add.commute)

lemma wrap64_amount: "is_amount (wrap64 a)"
  unfolding is_amount_def wrap64_def using pos_mod_bound [of "2 ^ 64 :: int" "a + 2 ^ 63"] pos_mod_sign [of "2 ^ 64 :: int" "a + 2 ^ 63"]
  by (simp add: algebra_simps)

context coins_view begin

lemma records_ok:
  assumes "C v" "amounts_ok E [tx]"
    "CheckInputsAndUpdateCoinSupplyRecords E B tx jc m T st v = Inr (True, m', T', st', v')"
  shows "same v v' \<and> st' = st \<and> inputs_valid E (cache_best best v) (U v) tx \<and> 0 \<le> inputs_value (U v) tx \<and>
    m' = account (outputs_value tx) (inputs_value (U v) tx) (fee_of (U v) tx) m \<and>
    scheduled T' = scheduled T \<and> fScriptChecks T' = fScriptChecks T \<and>
    (fScriptChecks T \<and> \<not> IsCoinBase tx \<longrightarrow> (let cs = input_checks (U v) tx MANDATORY_SCRIPT_VERIFY_FLAGS jc 0 (vin tx) in
      if nScriptCheckThreads E then vChecks T' = cs else list_all (\<lambda>c. run_check (ce_lib E) c = Inr (True, SCRIPT_ERR_OK)) cs))"
proof -
  let ?pv = "if nScriptCheckThreads E then Some (vChecks T) else None"
  obtain r out where r: "CheckInputs (check_env.truncate E) B tx st v 0 0 (fScriptChecks T) MANDATORY_SCRIPT_VERIFY_FLAGS jc ?pv True = Inr r" "cr_ok r"
    and out: "GetValueOut_halt tx = Inr out" and m': "m' = account out (nValueIn r) (nFees r) m" and v': "v' = cr_view r" "st' = cr_state r"
    and T: "vChecks T = []" "T' = T\<lparr>vChecks := (case cr_checks r of None \<Rightarrow> vChecks T | Some cs \<Rightarrow> cs)\<rparr>"
    using assms(3) by (auto simp: CheckInputsAndUpdateCoinSupplyRecords_def ebind_Inr Let_def account_def split: if_splits)
  have amt: "0 \<le> MaxMoneyOut E" "MaxMoneyOut E < 2 ^ 62" "list_all (\<lambda>t. is_amount (nValue t)) (vout tx)"
    using assms(2) by (simp_all add: amounts_ok_def)
  note o = GetValueOut_halt_ok [OF out amt(3)]
  show ?thesis
  proof (cases "IsCoinBase tx")
    case True
    then have "cr_view r = v" "nValueIn r = 0" "nFees r = 0" "cr_state r = st" using r(1) by (auto simp: CheckInputs_def)
    then show ?thesis using True assms(1) o m' v' T same_refl by (simp add: inputs_value_def inputs_valid_def fee_of_def mints_def)
  next
    case False
    have eqs: "inputs_value (U v) tx = sum_list (map (value_of (U v)) (vin tx))" "outputs_value tx = sum_list (map nValue (vout tx))"
      using False by (simp_all add: inputs_value_def outputs_value_def)
    note K = CheckInputs_ok [OF assms(1) False r, unfolded truncate_simps, OF amt]
    obtain h where ok: "ce_heights E (cache_best best v) = Some h" "same v (cr_view r)" "cr_state r = st"
      "nValueIn r = inputs_value (U v) tx" "MoneyRange (nValueIn r) (MaxMoneyOut E)"
      "list_all (\<lambda>i. spent_output (U v) i \<noteq> None \<and> MoneyRange (value_of (U v) i) (MaxMoneyOut E) \<and>
        mature (check_env.truncate E) (h + 1) (U v) i) (vin tx)"
      "nFees r = (if IsCoinStake tx then 0 else nValueIn r - outputs_value tx)" "\<not> IsCoinStake tx \<longrightarrow> list_all (\<lambda>t. 0 \<le> nValue t) (vout tx) \<and> 0 \<le> nFees r"
      "if \<not> fScriptChecks T then cr_checks r = ?pv
       else case ?pv of
           None \<Rightarrow> cr_checks r = None \<and>
             list_all (\<lambda>c. run_check (ce_lib E) c = Inr (True, SCRIPT_ERR_OK)) (input_checks (U v) tx MANDATORY_SCRIPT_VERIFY_FLAGS jc 0 (vin tx))
         | Some cs \<Rightarrow> cr_checks r = Some (cs @ input_checks (U v) tx MANDATORY_SCRIPT_VERIFY_FLAGS jc 0 (vin tx))"
      using K unfolding eqs by blast
    have "0 \<le> nValueIn r" using ok(5) by (simp add: MoneyRange_def)
    moreover have "fee_of (U v) tx = nFees r" "0 \<le> nFees r" using ok(4,7,8) False by (simp_all add: fee_of_def mints_def)
    moreover have "inputs_valid E (cache_best best v) (U v) tx"
      using ok calculation o(2) False by (auto simp: inputs_valid_def list_all_iff)
    ultimately show ?thesis using ok o m' v' T by (auto simp: Let_def split: if_splits)
  qed
qed

lemma check_tx_ok:
  assumes "C (bc_view S)" "amounts_ok E [tx]" "check_tx E B rw jc h i tx S D = Inr (True, S', D')"
  defines "V \<equiv> U (bc_view S)" and "T \<equiv> txInputChecker S" and "T' \<equiv> txInputChecker S'"
  shows "\<exists>ws. C (bc_view S') \<and> cache_best best (bc_view S') = cache_best best (bc_view S) \<and>
    apply_tx h V tx = Some (ws, U (bc_view S')) \<and> inputs_valid E (cache_best best (bc_view S)) V tx \<and> 0 \<le> inputs_value V tx \<and>
    bc_money S' = account (outputs_value tx) (inputs_value V tx) (fee_of V tx) (bc_money S) \<and> bc_state S' = bc_state S \<and>
    nSigOps T' \<le> MAX_BLOCK_SIGOPS_CURRENT \<and> fScriptChecks T' = fScriptChecks T \<and>
    (let cs = input_checks V tx MANDATORY_SCRIPT_VERIFY_FLAGS jc 0 (vin tx)
     in if IsCoinBase tx \<or> \<not> fScriptChecks T then \<exists>rest. scheduled T' = scheduled T @ rest
        else if nScriptCheckThreads E then scheduled T' = scheduled T @ cs
        else scheduled T' = scheduled T \<and> list_all (\<lambda>c. run_check (ce_lib E) c = Inr (True, SCRIPT_ERR_OK)) cs) \<and>
    (let j = i - 1 in vtxundo S' = (vtxundo S)[j := (if j < length (vtxundo S) then vtxundo S ! j else []) @ ws])"
proof -
  obtain T1 st1 v1 where 1: "TotalSigOpsAreBelowMaximum B tx T (bc_state S) (bc_view S) = Inr (True, T1, st1, v1)"
    using assms(3) by (auto simp: T_def check_tx_def Let_def ebind_Inr split: if_splits)
  then obtain m2 T2 st2 v2 where 2: "CheckInputsAndUpdateCoinSupplyRecords E B tx jc (bc_money S) T1 st1 v1 = Inr (True, m2, T2, st2, v2)"
    using assms(3) by (auto simp: T_def check_tx_def Let_def ebind_Inr split: if_splits)
  obtain v3 where 3: "CheckCoinstakeForVaults B tx rw v2 = Some (True, v3)"
    using assms(3) 1 2 by (auto simp: T_def check_tx_def Let_def DoS_def split: option.splits if_splits)
  obtain D2 v4 where 4: "RecordTransaction (be_flags E) B tx (TransactionLocationReference_new tx (word_of_int h) (int i)) v3 D = Some (D2, v4)"
    using assms(3) 1 2 3 by (auto simp: T_def check_tx_def Let_def split: option.splits if_splits)
  define us where "us = (if i - 1 < length (vtxundo S) then vtxundo S ! (i - 1) else [])"
  have us: "(if (if i > 0 then i - 1 else 0) < length (vtxundo S) then vtxundo S ! (if i > 0 then i - 1 else 0) else []) = us" by (simp add: us_def)
  obtain us' where 5: "UpdateCoinsWithTransaction B tx v4 us h = Some (us', bc_view S')" "bc_money S' = m2" "bc_state S' = st2"
    "T' = (if IsCoinBase tx then T2 else ScheduleBackgroundThreadScriptChecking E T2)" "vtxundo S' = (vtxundo S)[i - 1 := us']"
    using assms(3) 1 2 3 4 us
    by (auto simp: T_def T'_def check_tx_def Let_def split: option.splits prod.splits if_split_asm)
  have G: "same (bc_view S) v1" "st1 = bc_state S" "\<exists>n. T1 = T\<lparr>nSigOps := n\<rparr> \<and> n \<le> MAX_BLOCK_SIGOPS_CURRENT"
    using TotalSigOps_same [OF assms(1) 1] by simp_all
  note R = records_ok [OF sameD(1) [OF G(1)] assms(2) 2]
  have "same v1 v2" using R by blast
  then have "same v2 v3" "same v3 v4" using CheckCoinstakeForVaults_same [OF sameD(1) 3] RecordTransaction_same [OF sameD(1) 4] by blast+
  then have v4: "same (bc_view S) v4" using same_trans G(1) \<open>same v1 v2\<close> by blast
  obtain ws W where W: "C (bc_view S')" "cache_best best (bc_view S') = cache_best best v4" "us' = us @ ws"
    "if IsCoinBase tx then ws = [] \<and> W = U v4 else spend_seq (U v4) (vin tx) = Some (ws, W)"
    "U (bc_view S') = W(tx_hash tx := unpruned (FromTx tx h))"
    using UpdateCoins_run [OF sameD(1) [OF v4] 5(1)] by blast
  have "apply_tx h V tx = Some (ws, U (bc_view S'))" using W(4,5) sameD(2) [OF v4] by (auto simp: apply_tx_def V_def split: if_splits)
  moreover have "nSigOps T2 = nSigOps T1" using 2 by (auto simp: CheckInputsAndUpdateCoinSupplyRecords_def ebind_Inr Let_def split: if_splits)
  ultimately show ?thesis
    using W(1-3) R G sameD(2,3) [OF G(1)] sameD(3) [OF v4] 5(2-5)
    by (intro exI [of _ ws]) (auto simp: V_def us_def ScheduleBackgroundThreadScriptChecking_def Let_def)
qed

lemma check_tx_value:
  assumes "C (bc_view S)" "finite (dom (U (bc_view S)))" "values_ok (U (bc_view S))" "amounts_ok E [tx]"
    "check_tx E B rw jc h i tx S D = Inr (True, S', D')"
  defines "V \<equiv> U (bc_view S)" and "V' \<equiv> U (bc_view S')"
  shows "C (bc_view S') \<and> finite (dom V') \<and> values_ok V' \<and> utxo_value V' \<le> utxo_value V + outputs_value tx - inputs_value V tx \<and>
    0 \<le> outputs_value tx \<and> 0 \<le> inputs_value V tx \<and> 0 \<le> fee_of V tx \<and>
    bc_money S' = account (outputs_value tx) (inputs_value V tx) (fee_of V tx) (bc_money S)"
proof -
  obtain ws W where W: "C (bc_view S')" "if IsCoinBase tx then W = V else spend_seq V (vin tx) = Some (ws, W)"
    "V' = W(tx_hash tx := unpruned (FromTx tx h))" "list_all (\<lambda>t. 0 \<le> nValue t) (vout tx)"
    "0 \<le> inputs_value V tx" "0 \<le> fee_of V tx" "bc_money S' = account (outputs_value tx) (inputs_value V tx) (fee_of V tx) (bc_money S)"
    using check_tx_ok [OF assms(1,4,5)] unfolding V_def [symmetric] V'_def [symmetric] by (auto simp: apply_tx_def inputs_valid_def split: if_splits)
  have ok: "finite (dom W)" "values_ok W" "utxo_value W = utxo_value V - inputs_value V tx"
    using W(2) assms(2,3) spend_seq_value [of V "vin tx" ws W] by (auto simp: V_def inputs_value_def split: if_splits)
  note T = FromTx_value [OF W(4), of h]
  have "finite (dom V')" using ok(1) by (cases "unpruned (FromTx tx h)") (simp_all add: W(3))
  moreover have "values_ok V'" using ok(2) T(2) by (auto simp: values_ok_def ran_def W(3) unpruned_def split: if_splits)
  moreover have "utxo_value V' \<le> utxo_value V + outputs_value tx - inputs_value V tx"
    using utxo_value_upd [OF ok(1), of "tx_hash tx" "unpruned (FromTx tx h)"] option_value_nonneg [OF ok(2), of "tx_hash tx"] T(1) ok(3)
    by (simp add: W(3) outputs_value_def)
  moreover have "0 \<le> outputs_value tx" unfolding outputs_value_def using W(4) by (intro sum_list_nonneg) (auto simp: list_all_iff)
  ultimately show ?thesis using W by blast
qed

lemma check_txs_value:
  "C (bc_view S) \<Longrightarrow> finite (dom (U (bc_view S))) \<Longrightarrow> values_ok (U (bc_view S)) \<Longrightarrow> amounts_ok E txs \<Longrightarrow>
   check_txs E B rw jc h i txs S D = Inr (True, S', D') \<Longrightarrow>
   is_amount (nMoneySupply (bc_money S)) \<Longrightarrow> is_amount (nMint (bc_money S)) \<Longrightarrow>
   \<exists>inn fees. C (bc_view S') \<and> finite (dom (U (bc_view S'))) \<and> values_ok (U (bc_view S')) \<and> 0 \<le> inn \<and> 0 \<le> fees \<and>
     utxo_value (U (bc_view S')) \<le> utxo_value (U (bc_view S)) + (\<Sum>tx\<leftarrow>txs. outputs_value tx) - inn \<and>
     (\<Sum>tx\<leftarrow>txs. outputs_value tx) - inn + fees \<le> (\<Sum>tx\<leftarrow>filter mints txs. outputs_value tx) \<and>
     (\<Sum>tx\<leftarrow>filter mints txs. outputs_value tx) \<le> (\<Sum>tx\<leftarrow>txs. outputs_value tx) \<and>
     nMoneySupply (bc_money S') = wrap64 (nMoneySupply (bc_money S) + ((\<Sum>tx\<leftarrow>txs. outputs_value tx) - inn)) \<and>
     nMint (bc_money S') = wrap64 (nMint (bc_money S) + ((\<Sum>tx\<leftarrow>txs. outputs_value tx) - inn + fees))"
proof (induction txs arbitrary: S D i)
  case Nil
  then show ?case by (intro exI [of _ 0]) (simp add: wrap64_id)
next
  case (Cons tx txs)
  obtain S1 D1 where 1: "check_tx E B rw jc h i tx S D = Inr (True, S1, D1)" "check_txs E B rw jc h (Suc i) txs S1 D1 = Inr (True, S', D')"
    using Cons.prems(5) by (auto simp: ebind_Inr split: if_splits)
  have am: "amounts_ok E [tx]" "amounts_ok E txs" using Cons.prems(4) by (simp_all add: amounts_ok_def)
  define inn1 where "inn1 = inputs_value (U (bc_view S)) tx"
  define fee1 where "fee1 = fee_of (U (bc_view S)) tx"
  note V = check_tx_value [OF Cons.prems(1-3) am(1) 1(1), folded inn1_def fee1_def]
  have m1: "nMoneySupply (bc_money S1) = wrap64 (nMoneySupply (bc_money S) + (outputs_value tx - inn1))"
    "nMint (bc_money S1) = wrap64 (nMint (bc_money S) + (outputs_value tx - inn1 + fee1))"
    using V by (simp_all add: account_def wrap64_wrap wrap64_wrap')
  have am1: "is_amount (nMoneySupply (bc_money S1))" "is_amount (nMint (bc_money S1))" by (simp_all add: m1 wrap64_amount)
  obtain inn fees where 2: "C (bc_view S')" "finite (dom (U (bc_view S')))" "values_ok (U (bc_view S'))" "0 \<le> inn" "0 \<le> fees"
     "utxo_value (U (bc_view S')) \<le> utxo_value (U (bc_view S1)) + (\<Sum>tx\<leftarrow>txs. outputs_value tx) - inn"
     "(\<Sum>tx\<leftarrow>txs. outputs_value tx) - inn + fees \<le> (\<Sum>tx\<leftarrow>filter mints txs. outputs_value tx)"
     "(\<Sum>tx\<leftarrow>filter mints txs. outputs_value tx) \<le> (\<Sum>tx\<leftarrow>txs. outputs_value tx)"
     "nMoneySupply (bc_money S') = wrap64 (nMoneySupply (bc_money S1) + ((\<Sum>tx\<leftarrow>txs. outputs_value tx) - inn))"
     "nMint (bc_money S') = wrap64 (nMint (bc_money S1) + ((\<Sum>tx\<leftarrow>txs. outputs_value tx) - inn + fees))"
    using Cons.IH [OF _ _ _ am(2) 1(2) am1] V by blast
  let ?s = "outputs_value tx" and ?o = "\<Sum>tx\<leftarrow>txs. outputs_value tx"
  have "wrap64 (wrap64 (a + (?s - inn1)) + (?o - inn)) = wrap64 (a + (?s + ?o - (inn1 + inn)))"
    "wrap64 (wrap64 (a + (?s - inn1 + fee1)) + (?o - inn + fees)) = wrap64 (a + (?s + ?o - (inn1 + inn) + (fee1 + fees)))" for a
    unfolding wrap64_wrap by (simp_all add: algebra_simps)
  then have "nMoneySupply (bc_money S') = wrap64 (nMoneySupply (bc_money S) + (?s + ?o - (inn1 + inn)))"
    "nMint (bc_money S') = wrap64 (nMint (bc_money S) + (?s + ?o - (inn1 + inn) + (fee1 + fees)))"
    using 2(9,10) by (simp_all only: m1)
  moreover have "?s - inn1 + fee1 \<le> (if mints tx then ?s else 0)"
    using V by (simp add: fee1_def fee_of_def flip: inn1_def)
  moreover have "0 \<le> inn1 + inn" "0 \<le> fee1 + fees"
    "utxo_value (U (bc_view S')) \<le> utxo_value (U (bc_view S)) + (?s + ?o) - (inn1 + inn)" "0 \<le> ?s"
    using V 2(4-6) by linarith+
  ultimately show ?case using 2(1-3,7,8) by (intro exI [of _ "inn1 + inn"] exI [of _ "fee1 + fees"]) (cases "mints tx"; simp)
qed

end

section \<open>Properties\<close>

text \<open>
  C6: When the transactions of a block pass, no new amount has wrapped around, and the value of the unspent outputs has grown by at most
  what the recorded money supply has. The supply has grown by at most the recorded mint, and the mint comes from the outputs of the
  coinbase and the coinstake alone: every other transaction pays for its outputs. So a money supply that covers the unspent
  outputs of the previous block covers those of this one.
\<close>

theorem block_money_supply:
  assumes "view_ok (bc_view S)" "values_ok (view_utxo (bc_view S))" "amounts_ok E vtx"
    and "Check E chain_view vtx nHeightIn prev rewards fJustCheck S D = Inr (True, S', D')"
    and "0 \<le> prev" "prev < 2 ^ 62" "utxo_value (view_utxo (bc_view S)) < 2 ^ 62" "(\<Sum>tx\<leftarrow>vtx. outputs_value tx) < 2 ^ 62"
  shows "view_ok (bc_view S') \<and> values_ok (view_utxo (bc_view S')) \<and>
    utxo_value (view_utxo (bc_view S')) - utxo_value (view_utxo (bc_view S)) \<le> nMoneySupply (bc_money S') - prev \<and>
    nMoneySupply (bc_money S') - prev \<le> nMint (bc_money S') \<and> nMint (bc_money S') \<le> (\<Sum>tx\<leftarrow>filter mints vtx. outputs_value tx)"
proof -
  let ?out = "\<Sum>tx\<leftarrow>vtx. outputs_value tx"
  obtain inn fees where 1: "view_ok (bc_view S')" "values_ok (view_utxo (bc_view S'))" "0 \<le> inn" "0 \<le> fees"
     "utxo_value (view_utxo (bc_view S')) \<le> utxo_value (view_utxo (bc_view S)) + ?out - inn"
     "?out - inn + fees \<le> (\<Sum>tx\<leftarrow>filter mints vtx. outputs_value tx)"
     "(\<Sum>tx\<leftarrow>filter mints vtx. outputs_value tx) \<le> ?out"
     "nMoneySupply (bc_money S') = wrap64 (prev + (?out - inn))" "nMint (bc_money S') = wrap64 (?out - inn + fees)"
    using tip.check_txs_value [OF _ _ _ assms(3) assms(4) [unfolded Check_def]] assms(1,2,5,6)
    by (auto simp: view_ok_def view_utxo_def is_amount_def)
  have "0 \<le> utxo_value (view_utxo (bc_view S'))" using 1(2) by (rule utxo_value_nonneg)
  then have "is_amount (prev + (?out - inn))" "is_amount (?out - inn + fees)" using 1(3-7) assms(5-8) by (simp_all add: is_amount_def)
  then show ?thesis using 1 by (simp add: wrap64_id)
qed

definition example_block_env :: block_env where
  "example_block_env = \<lparr>ce_lib = ce_lib example_check_env, MaxMoneyOut = 100, COINBASE_MATURITY = 20, ce_heights = [0 \<mapsto> 26],
     nScriptCheckThreads = False, be_flags = \<lparr>fAddressIndex = False, fSpentIndex = False\<rparr>, be_hasher = (\<lambda>tx. 0)\<rparr>"

definition example_coinbase :: CTransaction where
  "example_coinbase = \<lparr>txVersion = 1, vin = [\<lparr>prevout = \<lparr>op_hash = 0, op_n = - 1\<rparr>, scriptSig = [1, 27], nSequence = 0\<rparr>],
    vout = [\<lparr>nValue = 50, scriptPubKey = [0x51]\<rparr>], nLockTime = 0, tx_hash = 11\<rparr>"

definition example_checker :: "CCoinsViewDB CCoinsViewCache BlockTransactionChecker" where
  "example_checker = BlockTransactionChecker_new [example_coinbase, example_spender] CValidationState_new 27 (0, 0) example_view 0"

definition example_rewards :: CBlockRewards where
  "example_rewards = \<lparr>rwStake = 0, rwMasternode = 0, rwTreasury = 0, rwCharity = 0, rwLottery = 0, rwProposals = 0\<rparr>"

lemma example_block:
  "\<exists>S' D'. Check example_block_env chain_view [example_coinbase, example_spender] 27 5 example_rewards False example_checker IndexDatabaseUpdates_new =
     Inr (True, S', D') \<and> nMoneySupply (bc_money S') = 55"
proof -
  have "(case Check example_block_env chain_view [example_coinbase, example_spender] 27 5 example_rewards False example_checker IndexDatabaseUpdates_new of
     Inl e \<Rightarrow> False | Inr (r, S', D') \<Rightarrow> r \<and> nMoneySupply (bc_money S') = 55)"
    by code_simp
  then show ?thesis by (auto split: sum.splits)
qed

lemma example_amounts: "amounts_ok example_block_env [example_coinbase, example_spender]"
  by (simp add: amounts_ok_def example_block_env_def example_coinbase_def example_spender_def example_output_def is_amount_def)

theorem block_money_supply_witness:
  "\<exists>S' D'. Check example_block_env chain_view [example_coinbase, example_spender] 27 5 example_rewards False example_checker IndexDatabaseUpdates_new =
     Inr (True, S', D') \<and> utxo_value (view_utxo (bc_view S')) \<le> 55 \<and> nMint (bc_money S') = 50"
proof -
  obtain S' D' where S': "Check example_block_env chain_view [example_coinbase, example_spender] 27 5 example_rewards False example_checker
      IndexDatabaseUpdates_new = Inr (True, S', D')" "nMoneySupply (bc_money S') = 55"
    using example_block by blast
  have v: "bc_view example_checker = example_view" by (simp add: example_checker_def BlockTransactionChecker_new_def)
  have u: "values_ok (view_utxo example_view)" "utxo_value (view_utxo example_view) = 5"
    by (simp_all add: example_view_facts values_ok_def utxo_value_def coins_value_def example_stake_def example_output_def CTxOut_IsNull_def)
  have m: "mints example_coinbase" "\<not> mints example_spender" "outputs_value example_coinbase = 50" "outputs_value example_spender = 5"
    by (simp_all add: mints_def IsCoinBase_def IsCoinStake_def example_coinbase_def example_spender_def COutPoint_IsNull_def outputs_value_def
        example_output_def)
  show ?thesis
    using block_money_supply [of example_checker, OF _ _ example_amounts S'(1)] example_view_facts(1) S' u m v by fastforce
qed

end
