(* ===== verification/Block_Connect.thy ===== *)
theory Block_Connect
  imports Block_Check
begin

text \<open>
  Connecting a block and disconnecting it again (\<^verbatim>\<open>ActiveChainManager.cpp\<close> over \<^verbatim>\<open>BlockTransactionChecker.cpp\<close>). The theory gives the
  meaning of a connected block as a relation on sets of unspent outputs, shows that the checks of the code imply it, and
  that disconnecting the block leads back.
\<close>

section \<open>Disconnecting\<close>

text \<open>Whether to go on, and whether the block has been clean so far.\<close>

fun CheckTxReversalStatus :: "TxReversalStatus \<Rightarrow> bool \<Rightarrow> bool \<times> bool" where
  "CheckTxReversalStatus ABORT_NO_OTHER_ERRORS fClean = (False, fClean)"
| "CheckTxReversalStatus ABORT_WITH_OTHER_ERRORS fClean = (False, False)"
| "CheckTxReversalStatus CONTINUE_WITH_ERRORS fClean = (True, False)"
| "CheckTxReversalStatus OK fClean = (True, fClean)"

text \<open>
  The transactions are taken back from the last to the first; \<open>n\<close> of them are left. The last argument of the function says
  whether the caller asks for a verdict only, in which case the indices are left alone.
\<close>

fun disconnect_loop ::
  "index_flags \<Rightarrow> 'v CCoinsView \<Rightarrow> CTransaction list \<Rightarrow> CTxInUndo list list \<Rightarrow> int \<Rightarrow> bool \<Rightarrow> nat \<Rightarrow> bool \<Rightarrow> 'v CCoinsViewCache \<Rightarrow> IndexDatabaseUpdates \<Rightarrow>
   (bool \<times> bool \<times> 'v CCoinsViewCache \<times> IndexDatabaseUpdates) option" where
  "disconnect_loop F B vtx undos h pfClean 0 fClean v D = Some (True, fClean, v, D)"
| "disconnect_loop F B vtx undos h pfClean (Suc n) fClean v D =
    (let tx = vtx ! n; loc = TransactionLocationReference_new tx (word_of_int h) (int n); undo = (if n > 0 then Some (undos ! (n - 1)) else None)
     in Option.bind (UpdateCoinsReversingTransaction B tx loc v undo) (\<lambda>(status, v).
          let (go_on, fClean) = CheckTxReversalStatus status fClean
          in if \<not> go_on then Some (False, fClean, v, D)
             else Option.bind (if \<not> pfClean then ReverseTransaction F B tx loc v D else Some (D, v)) (\<lambda>(D, v).
               disconnect_loop F B vtx undos h pfClean n fClean v D)))"

record 'v disconnect_result =
  dr_ok :: bool
  dr_clean :: "bool option"
  dr_view :: "'v CCoinsViewCache"
  dr_tree :: CBlockTreeDB

text \<open>The undo data is what the block reader returns. Writes to the index database succeed.\<close>

definition DisconnectBlock ::
  "index_flags \<Rightarrow> 'v CCoinsView \<Rightarrow> CTransaction list \<Rightarrow> CTxInUndo list list option \<Rightarrow> u256 \<Rightarrow> u256 \<Rightarrow> int \<Rightarrow> bool \<Rightarrow> 'v CCoinsViewCache \<Rightarrow> CBlockTreeDB \<Rightarrow>
   'v disconnect_result option" where
  "DisconnectBlock F B vtx blockUndo hash prevHash h pfClean v tree =
    (let (best, v) = GetBestBlock B v; out = (\<lambda>c. if pfClean then Some c else None)
     in if hash \<noteq> best then None
        else case blockUndo of
            None \<Rightarrow> Some \<lparr>dr_ok = False, dr_clean = out False, dr_view = v, dr_tree = tree\<rparr>
          | Some undos \<Rightarrow>
              if length undos + 1 \<noteq> length vtx then Some \<lparr>dr_ok = False, dr_clean = out False, dr_view = v, dr_tree = tree\<rparr>
              else Option.bind (disconnect_loop F B vtx undos h pfClean (length vtx) True v IndexDatabaseUpdates_new) (\<lambda>(r, fClean, v, D).
                if \<not> r then Some \<lparr>dr_ok = False, dr_clean = out False, dr_view = v, dr_tree = tree\<rparr>
                else
                  let v = SetBestBlock v prevHash
                  in if \<not> pfClean then Some \<lparr>dr_ok = fClean, dr_clean = None, dr_view = v, dr_tree = ApplyDisconnectionUpdateIndexToDBs F D tree\<rparr>
                     else Some \<lparr>dr_ok = True, dr_clean = Some fClean, dr_view = v, dr_tree = tree\<rparr>))"

section \<open>A connected block\<close>

definition scripts_valid :: "block_env \<Rightarrow> (u256 \<rightharpoonup> CCoins) \<Rightarrow> CTransaction \<Rightarrow> bool" where
  "scripts_valid E V tx \<longleftrightarrow> IsCoinBase tx \<or>
    (\<forall>i<length (vin tx). VerifyScript (TransactionSignatureChecker (ce_lib E) tx i) (scriptSig (vin tx ! i))
       (scriptPubKey (the (spent_output V (vin tx ! i)))) MANDATORY_SCRIPT_VERIFY_FLAGS = Some (Inr ()))"

text \<open>
  The transactions of a block lead from one set of unspent outputs to another, each of them valid where it is applied, with the
  given undo data. Scripts count if the flag is set; the hash is that of the previous block.
\<close>

inductive connects ::
  "block_env \<Rightarrow> bool \<Rightarrow> u256 \<Rightarrow> int \<Rightarrow> (u256 \<rightharpoonup> CCoins) \<Rightarrow> CTransaction list \<Rightarrow> CTxInUndo list list \<Rightarrow> (u256 \<rightharpoonup> CCoins) \<Rightarrow> bool"
  for E sc prev h where
  connects_none: "connects E sc prev h V [] [] V"
| connects_tx: "inputs_valid E prev V tx \<Longrightarrow> (sc \<longrightarrow> scripts_valid E V tx) \<Longrightarrow> apply_tx h V tx = Some (us, V') \<Longrightarrow>
    connects E sc prev h V' txs uss W \<Longrightarrow> connects E sc prev h V (tx # txs) (us # uss) W"

inductive_simps connects_Nil [simp]: "connects E sc prev h V [] uss W"
inductive_cases connects_ConsE: "connects E sc prev h V (tx # txs) uss W"

lemma all_checks_scripts:
  assumes "list_all (\<lambda>c. run_check (ce_lib E) c = Inr (True, SCRIPT_ERR_OK)) (input_checks V tx MANDATORY_SCRIPT_VERIFY_FLAGS jc 0 (vin tx))"
  shows "scripts_valid E V tx"
  using input_checks_nth [OF assms] by (auto simp: scripts_valid_def run_check_True)

context coins_view begin

lemma check_txs_connects:
  "C (bc_view S) \<Longrightarrow> amounts_ok E txs \<Longrightarrow> check_txs E B rw jc h i txs S D = Inr (True, S', D') \<Longrightarrow>
   C (bc_view S') \<and> bc_state S' = bc_state S \<and> fScriptChecks (txInputChecker S') = fScriptChecks (txInputChecker S) \<and>
   (\<exists>rest. scheduled (txInputChecker S') = scheduled (txInputChecker S) @ rest) \<and>
   (txs \<noteq> [] \<longrightarrow> nSigOps (txInputChecker S') \<le> MAX_BLOCK_SIGOPS_CURRENT) \<and>
   (\<exists>uss. connects E (fScriptChecks (txInputChecker S) \<and> WaitForScriptsToBeChecked E (txInputChecker S')) (cache_best best (bc_view S)) h
        (U (bc_view S)) txs uss (U (bc_view S')) \<and>
      (0 < i \<and> vtxundo S = us @ replicate (length txs) [] \<and> length us = i - 1 \<longrightarrow> vtxundo S' = us @ uss))"
proof (induction txs arbitrary: S D i us)
  case Nil
  then show ?case by auto
next
  case (Cons tx txs)
  obtain S1 D1 where 1: "check_tx E B rw jc h i tx S D = Inr (True, S1, D1)" "check_txs E B rw jc h (Suc i) txs S1 D1 = Inr (True, S', D')"
    using Cons.prems(3) by (auto simp: ebind_Inr split: if_splits)
  have am: "amounts_ok E [tx]" "amounts_ok E txs" using Cons.prems(2) by (simp_all add: amounts_ok_def)
  let ?T = "txInputChecker S" and ?T1 = "txInputChecker S1" and ?T' = "txInputChecker S'" and ?V = "U (bc_view S)"
  let ?cs = "input_checks ?V tx MANDATORY_SCRIPT_VERIFY_FLAGS jc 0 (vin tx)"
  let ?sc = "fScriptChecks ?T \<and> WaitForScriptsToBeChecked E ?T'"
  obtain ws where ws: "C (bc_view S1)" "cache_best best (bc_view S1) = cache_best best (bc_view S)" "apply_tx h ?V tx = Some (ws, U (bc_view S1))"
    "inputs_valid E (cache_best best (bc_view S)) ?V tx" "bc_state S1 = bc_state S" "nSigOps ?T1 \<le> MAX_BLOCK_SIGOPS_CURRENT"
    "fScriptChecks ?T1 = fScriptChecks ?T"
    "if IsCoinBase tx \<or> \<not> fScriptChecks ?T then \<exists>rest. scheduled ?T1 = scheduled ?T @ rest
     else if nScriptCheckThreads E then scheduled ?T1 = scheduled ?T @ ?cs
     else scheduled ?T1 = scheduled ?T \<and> list_all (\<lambda>c. run_check (ce_lib E) c = Inr (True, SCRIPT_ERR_OK)) ?cs"
    "vtxundo S1 = (vtxundo S)[i - 1 := (if i - 1 < length (vtxundo S) then vtxundo S ! (i - 1) else []) @ ws]"
    using check_tx_ok [OF Cons.prems(1) am(1) 1(1)] unfolding Let_def by blast
  note IH = Cons.IH [OF ws(1) am(2) 1(2), of "us @ [ws]", unfolded ws(2,7)]
  obtain rest where rest: "scheduled ?T' = scheduled ?T1 @ rest" using IH by blast
  obtain uss where uss: "connects E ?sc (cache_best best (bc_view S)) h (U (bc_view S1)) txs uss (U (bc_view S'))"
    "vtxundo S1 = (us @ [ws]) @ replicate (length txs) [] \<and> length (us @ [ws]) = i \<longrightarrow> vtxundo S' = (us @ [ws]) @ uss"
    using IH by auto
  have fs: "fScriptChecks ?T' = fScriptChecks ?T" using IH by blast
  have "?sc \<longrightarrow> scripts_valid E ?V tx"
  proof (cases "IsCoinBase tx")
    case False
    then show ?thesis using ws(8) rest fs by (auto simp: WaitForScriptsToBeChecked_def intro: all_checks_scripts split: if_splits)
  qed (simp add: scripts_valid_def)
  then have c: "connects E ?sc (cache_best best (bc_view S)) h ?V (tx # txs) (ws # uss) (U (bc_view S'))"
    using ws(3,4) uss(1) by (intro connects_tx) auto
  have u: "vtxundo S' = us @ ws # uss" if "0 < i" "vtxundo S = us @ replicate (length (tx # txs)) []" "length us = i - 1"
    using that ws(9) uss(2) by (auto simp: nth_append list_update_append)
  have "\<exists>r. scheduled ?T1 = scheduled ?T @ r" using ws(8) by (auto split: if_splits)
  then have "\<exists>r. scheduled ?T' = scheduled ?T @ r" using rest by auto
  moreover have "nSigOps ?T' \<le> MAX_BLOCK_SIGOPS_CURRENT" using IH ws(6) 1(2) by (cases txs) auto
  ultimately show ?case using IH ws(5) fs c u by auto
qed

end

text \<open>The checker of a block and its coinbase, which leaves no undo data.\<close>

lemma checker_new [simp]:
  "bc_view (BlockTransactionChecker_new vtx st h pos v skip) = v" "bc_state (BlockTransactionChecker_new vtx st h pos v skip) = st"
  "fScriptChecks (txInputChecker (BlockTransactionChecker_new vtx st h pos v skip)) \<longleftrightarrow> skip \<le> h"
  "vtxundo (BlockTransactionChecker_new vtx st h pos v skip) = replicate (length vtx - 1) []"
  by (simp_all add: BlockTransactionChecker_new_def TransactionInputChecker_new_def)

context coins_view begin

lemma Check_connects:
  assumes "C v" "amounts_ok E (cb # txs)" "IsCoinBase cb"
    "Check E B (cb # txs) h prev rw jc (BlockTransactionChecker_new (cb # txs) st h pos v skip) D = Inr (True, S', D')"
  shows "C (bc_view S') \<and> bc_state S' = st \<and> nSigOps (txInputChecker S') \<le> MAX_BLOCK_SIGOPS_CURRENT \<and>
    connects E (skip \<le> h \<and> WaitForScriptsToBeChecked E (txInputChecker S')) (cache_best best v) h (U v) (cb # txs) ([] # vtxundo S') (U (bc_view S'))"
proof -
  let ?S = "(BlockTransactionChecker_new (cb # txs) st h pos v skip)\<lparr>bc_money := \<lparr>nMoneySupply = prev, nMint = 0\<rparr>\<rparr>"
  obtain S1 D1 where 1: "check_tx E B rw jc h 0 cb ?S D = Inr (True, S1, D1)" "check_txs E B rw jc h 1 txs S1 D1 = Inr (True, S', D')"
    using assms(4) by (auto simp: Check_def ebind_Inr split: if_splits)
  have am: "amounts_ok E [cb]" "amounts_ok E txs" using assms(2) by (simp_all add: amounts_ok_def)
  have S: "C (bc_view ?S)" using assms(1) by simp
  obtain ws where ws: "C (bc_view S1)" "cache_best best (bc_view S1) = cache_best best v" "apply_tx h (U v) cb = Some (ws, U (bc_view S1))"
    "inputs_valid E (cache_best best v) (U v) cb" "bc_state S1 = st" "nSigOps (txInputChecker S1) \<le> MAX_BLOCK_SIGOPS_CURRENT"
    "fScriptChecks (txInputChecker S1) \<longleftrightarrow> skip \<le> h"
    "vtxundo S1 = (vtxundo ?S)[0 := (if 0 < length (vtxundo ?S) then vtxundo ?S ! 0 else []) @ ws]"
    using check_tx_ok [OF S am(1) 1(1)] unfolding Let_def by auto
  have "ws = []" using ws(3) assms(3) by (simp add: apply_tx_def)
  then have u: "vtxundo S1 = [] @ replicate (length txs) []" using ws(8) by (cases txs) simp_all
  note I = check_txs_connects [OF ws(1) am(2) 1(2), of "[]", unfolded ws(2,5,7)]
  have "nSigOps (txInputChecker S') \<le> MAX_BLOCK_SIGOPS_CURRENT" using I ws(6) 1(2) by (cases txs) auto
  moreover have "connects E (skip \<le> h \<and> WaitForScriptsToBeChecked E (txInputChecker S')) (cache_best best v) h (U v) (cb # txs)
      ([] # vtxundo S') (U (bc_view S'))"
    using I u ws(3,4) assms(3) \<open>ws = []\<close> by (auto intro!: connects_tx simp: scripts_valid_def)
  ultimately show ?thesis using I by blast
qed

end

section \<open>Properties\<close>

text \<open>
  C1: When the transactions of a block pass the checks, with the scripts run at once or by the threads of the queue, the view has
  become the result of applying them one after the other: in every set of unspent outputs on the way, the next transaction finds its inputs
  unspent, in range and mature, its scripts accept, its outputs are not negative and, unless it is a coinbase or a coinstake, its
  inputs pay for them. The undo data that is kept is exactly what was spent, the number of signature operations is within the
  limit, and the validation state is as before.
\<close>

theorem block_connects:
  assumes "view_ok v" "amounts_ok E (cb # txs)" "IsCoinBase cb" "skip \<le> h"
    "Check E chain_view (cb # txs) h prev rw jc (BlockTransactionChecker_new (cb # txs) st h pos v skip) D = Inr (True, S', D')"
    "WaitForScriptsToBeChecked E (txInputChecker S')"
  shows "connects E True (cache_best (cache_best db_best) v) h (view_utxo v) (cb # txs) ([] # vtxundo S') (view_utxo (bc_view S')) \<and>
    view_ok (bc_view S') \<and> bc_state S' = st \<and> nSigOps (txInputChecker S') \<le> MAX_BLOCK_SIGOPS_CURRENT"
  using tip.Check_connects [OF assms(1) [unfolded view_ok_def] assms(2,3,5)] assms(4,6) by (simp add: view_ok_def view_utxo_def)

theorem block_connects_witness:
  "\<exists>S' D'. Check example_block_env chain_view [example_coinbase, example_spender] 27 5 example_rewards False example_checker IndexDatabaseUpdates_new =
     Inr (True, S', D') \<and>
   connects example_block_env True (cache_best (cache_best db_best) example_view) 27 (view_utxo example_view) [example_coinbase, example_spender]
     ([] # vtxundo S') (view_utxo (bc_view S'))"
proof -
  obtain S' D' where S': "Check example_block_env chain_view [example_coinbase, example_spender] 27 5 example_rewards False example_checker
      IndexDatabaseUpdates_new = Inr (True, S', D')"
    using example_block by blast
  have "IsCoinBase example_coinbase" by (simp add: IsCoinBase_def example_coinbase_def COutPoint_IsNull_def)
  moreover have "WaitForScriptsToBeChecked example_block_env T" for T by (simp add: WaitForScriptsToBeChecked_def example_block_env_def)
  ultimately show ?thesis
    using block_connects [OF example_view_facts(1) example_amounts _ _ S' [unfolded example_checker_def]] S' by auto
qed

end
