(* ===== verification/Block_Disconnect.thy ===== *)
theory Block_Disconnect
  imports Block_Connect
begin

text \<open>
  Disconnecting a block that has been connected restores the unspent outputs (\<^verbatim>\<open>DisconnectBlock\<close> of \<^verbatim>\<open>ActiveChainManager.cpp\<close>). The
  theory lifts the reversal of one transaction to the transactions of a block, over the sets of unspent outputs between them.
\<close>

section \<open>Spending in sequence, as spending all\<close>

definition coins_wf :: "(u256 \<rightharpoonup> CCoins) \<Rightarrow> bool" where
  "coins_wf V \<longleftrightarrow> (\<forall>c\<in>ran V. exact (coVout c) \<and> 0 < coHeight c \<and> coHeight c < 2 ^ 31)"

lemma coins_wfD: "coins_wf V \<Longrightarrow> V k = Some c \<Longrightarrow> exact (coVout c) \<and> 0 < coHeight c \<and> coHeight c < 2 ^ 31"
  by (auto simp: coins_wf_def ran_def)

lemma coins_wf_upd: "coins_wf V \<Longrightarrow> exact (coVout d) \<Longrightarrow> 0 < coHeight d \<Longrightarrow> coHeight d < 2 ^ 31 \<Longrightarrow> coins_wf (V(k := unpruned d))"
  by (auto simp: coins_wf_def ran_def unpruned_def split: if_splits)

lemma available_spent:
  assumes "IsAvailable (c\<lparr>coVout := pop_null ((coVout c)[unat m := CTxOut_SetNull])\<rparr>) n"
  shows "IsAvailable c n" "n \<noteq> m"
proof -
  let ?w = "(coVout c)[unat m := CTxOut_SetNull]"
  have n: "unat n < length (pop_null ?w)" "\<not> CTxOut_IsNull (pop_null ?w ! unat n)" using assms by (auto simp: IsAvailable_def)
  have w: "unat n < length (coVout c)" "\<not> CTxOut_IsNull (?w ! unat n)" using pop_null_nth [OF n(1)] n(2) by auto
  show "n \<noteq> m" using w by (auto simp: nth_list_update split: if_splits)
  then show "IsAvailable c n" using w by (simp add: IsAvailable_def word_unat_eq_iff nth_list_update)
qed

lemma spend_wf:
  assumes "coins_wf V" "V (op_hash (prevout i)) = Some c" "Spend c (sint (op_n (prevout i))) CTxInUndo_new = (True, d, undo)"
  defines "W \<equiv> V(op_hash (prevout i) := unpruned d)"
  shows "spendable V i" "spend_in V i = (undo, W)" "coins_wf W" "spendable W j \<Longrightarrow> spendable V j \<and> prevout j \<noteq> prevout i"
proof -
  note S = Spend_True [OF assms(3)] and wf = coins_wfD [OF assms(1,2)]
  show "spendable V i" using S(1,2) wf assms(2) by (simp add: spendable_def)
  show "spend_in V i = (undo, W)" using assms(2,3) by (simp add: spend_in_def W_def)
  show "coins_wf W" unfolding W_def using S(3) wf by (intro coins_wf_upd [OF assms(1)]) (simp_all add: exact_pop_null exact_spent)
  show "spendable V j \<and> prevout j \<noteq> prevout i" if j: "spendable W j"
  proof (cases "op_hash (prevout j) = op_hash (prevout i)")
    case False
    then show ?thesis using j by (auto simp: spendable_def W_def)
  next
    case True
    then have "IsAvailable d (op_n (prevout j))" "0 \<le> sint (op_n (prevout j))"
      using j by (auto simp: spendable_def W_def unpruned_def split: if_splits)
    then show ?thesis using True available_spent [of c "op_n (prevout i)" "op_n (prevout j)"] S(3) wf assms(2) by (auto simp: spendable_def)
  qed
qed

lemma spend_seq_all:
  "coins_wf V \<Longrightarrow> spend_seq V is = Some (us, W) \<Longrightarrow>
   (\<forall>i\<in>set is. spendable V i) \<and> distinct (map prevout is) \<and> spend_all V is = (us, W) \<and> coins_wf W \<and>
   (\<forall>k. k \<notin> (\<lambda>i. op_hash (prevout i)) ` set is \<longrightarrow> W k = V k)"
proof (induction "is" arbitrary: V us)
  case (Cons i "is")
  obtain c d undo us' where c: "V (op_hash (prevout i)) = Some c" "Spend c (sint (op_n (prevout i))) CTxInUndo_new = (True, d, undo)"
    "spend_seq (V(op_hash (prevout i) := unpruned d)) is = Some (us', W)" "us = undo # us'"
    using Cons.prems(2) by (auto split: bind_splits prod.splits if_splits)
  define V1 where "V1 = V(op_hash (prevout i) := unpruned d)"
  note S = spend_wf [OF Cons.prems(1) c(1,2), folded V1_def]
  note IH = Cons.IH [OF S(3) c(3) [folded V1_def]]
  have "\<forall>j\<in>set is. spendable V j \<and> prevout j \<noteq> prevout i" using IH S(4) by blast
  moreover have "k \<notin> (\<lambda>i. op_hash (prevout i)) ` set (i # is) \<longrightarrow> W k = V k" for k using IH by (simp add: V1_def)
  moreover have "spend_all V (i # is) = (us, W)" using IH S(2) c(4) by simp
  moreover have "prevout i \<notin> prevout ` set is" using calculation(1) by (metis imageE)
  ultimately show ?case using IH S(1) by simp
qed simp

section \<open>The stages of a block\<close>

definition stage_ok :: "(u256 \<rightharpoonup> CCoins) \<Rightarrow> bool" where
  "stage_ok V \<longleftrightarrow> coins_wf V \<and> all_clean V"

lemma all_clean_spend_all: "all_clean V \<Longrightarrow> \<forall>i\<in>set is. spendable V i \<Longrightarrow> distinct (map prevout is) \<Longrightarrow> all_clean (snd (spend_all V is))"
proof (induction "is" arbitrary: V)
  case (Cons i "is")
  have "all_clean (snd (spend_in V i))" using Cons.prems by (simp add: all_clean_spend_in)
  then show ?case using Cons.IH [of "snd (spend_in V i)"] spendable_rest [OF Cons.prems(2,3)] Cons.prems(3)
    by (simp add: case_prod_beta Let_def)
qed simp

lemma FromTx_fields [simp]: "coHeight (FromTx tx h) = h" "fCoinStake (FromTx tx h) = IsCoinStake tx"
  by (simp_all add: FromTx_def ClearUnspendable_def Cleanup_def)

lemma FromTx_exact:
  assumes "list_all (\<lambda>t. 0 \<le> nValue t) (vout tx)"
  shows "exact (coVout (FromTx tx h))"
proof -
  let ?f = "\<lambda>t. if IsUnspendable (scriptPubKey t) then CTxOut_SetNull else t"
  have "exact (map ?f (vout tx))" using assms by (auto simp: exact_def list_all_iff CTxOut_IsNull_def)
  then show ?thesis by (simp add: FromTx_def ClearUnspendable_def Cleanup_def exact_pop_null)
qed

lemma apply_tx_stage:
  assumes "stage_ok V" "apply_tx h V tx = Some (us, V')" "V (tx_hash tx) = None" "list_all (\<lambda>t. 0 \<le> nValue t) (vout tx)" "0 < h" "h < 2 ^ 31"
  shows "stage_ok V'" "connectable V tx" "us = fst (spent V tx)" "V' = (snd (spent V tx))(tx_hash tx := unpruned (FromTx tx h))"
    "k \<noteq> tx_hash tx \<Longrightarrow> IsCoinBase tx \<or> k \<notin> (\<lambda>i. op_hash (prevout i)) ` set (vin tx) \<Longrightarrow> V' k = V k"
proof -
  have wf: "coins_wf V" "all_clean V" using assms(1) by (simp_all add: stage_ok_def)
  obtain W where W: "(if IsCoinBase tx then Some ([], V) else spend_seq V (vin tx)) = Some (us, W)" "V' = W(tx_hash tx := unpruned (FromTx tx h))"
    using assms(2) by (auto simp: apply_tx_def)
  have *: "connectable V tx \<and> spent V tx = (us, W) \<and> coins_wf W \<and> all_clean W \<and>
      (IsCoinBase tx \<or> k \<notin> (\<lambda>i. op_hash (prevout i)) ` set (vin tx) \<longrightarrow> W k = V k)" for k
  proof (cases "IsCoinBase tx")
    case True
    then show ?thesis using W(1) wf assms(3) by (auto simp: connectable_def spent_def)
  next
    case False
    then have "spend_seq V (vin tx) = Some (us, W)" using W(1) by simp
    from spend_seq_all [OF wf(1) this] show ?thesis
      using False assms(3) all_clean_spend_all [OF wf(2), of "vin tx"] by (auto simp: connectable_def spent_def list_all_iff)
  qed
  then show "connectable V tx" "us = fst (spent V tx)" "V' = (snd (spent V tx))(tx_hash tx := unpruned (FromTx tx h))" by (simp_all add: W(2))
  show "V' k = V k" if "k \<noteq> tx_hash tx" "IsCoinBase tx \<or> k \<notin> (\<lambda>i. op_hash (prevout i)) ` set (vin tx)" using * [of k] that by (simp add: W(2))
  have "coins_wf V'" using * FromTx_exact [OF assms(4)] assms(5,6) by (simp add: W(2) coins_wf_upd)
  moreover have "all_clean V'" using * by (auto simp: all_clean_def W(2) unpruned_def)
  ultimately show "stage_ok V'" by (simp add: stage_ok_def)
qed

lemma marked_cong: "(\<And>k c. V k = Some c \<Longrightarrow> lost k \<noteq> lost' k \<Longrightarrow> \<not> fCoinStake c) \<Longrightarrow> marked lost V = marked lost' V"
  by (rule ext) (auto simp: marked_def without_mark_def map_option_case split: option.splits)

lemma spent_output_marked: "spent_output (marked lost V) i = spent_output V i"
  by (cases "V (op_hash (prevout i))") (auto simp: spent_output_def marked_def IsAvailable_def)

lemma spendable_output: "spendable V i \<Longrightarrow> spent_output V i \<noteq> None"
  by (auto simp: spendable_def spent_output_def split: option.splits)

context coins_view begin

lemma reverse_step:
  assumes "C v" "stage_ok V" "connectable V tx" "0 \<le> h" "h < 2 ^ 31"
    and U: "U v = marked lost ((snd (spent V tx))(tx_hash tx := unpruned (FromTx tx h)))"
    and own: "lost (tx_hash tx) \<Longrightarrow> \<not> IsPruned (FromTx tx h) \<Longrightarrow> \<not> IsCoinStake tx"
    and lost: "\<And>k. V k \<noteq> None \<Longrightarrow> snd (spent V tx) k = None \<Longrightarrow> lost k"
    and undo: "IsCoinBase tx \<or> undo = Some (fst (spent V tx))"
  shows "\<exists>x. UpdateCoinsReversingTransaction B tx (TransactionLocationReference_new tx (word_of_int h) n) v undo = Some (OK, x) \<and> C x \<and> U x = marked lost V"
proof -
  let ?loc = "TransactionLocationReference_new tx (word_of_int h) n" and ?S = "snd (spent V tx)" and ?h = "tx_hash tx"
  have loc: "loc_hash ?loc = ?h" "sint (loc_blockHeight ?loc) = h"
    using assms(4,5) by (simp_all add: TransactionLocationReference_new_def sint_sbintrunc' signed_take_bit_int_eq_self)
  have "U v ?h = unpruned (FromTx tx h)" using own by (auto simp: U marked_def unpruned_def without_mark_def)
  then obtain y where y: "RemoveTxOutputsFromCache B tx ?loc v = Some (True, y)" "C y" "U y = (U v)(?h := None)"
    using RemoveTxOutputs_ok [OF assms(1), of ?loc tx] loc by metis
  have none: "V ?h = None" "?S ?h = None" using assms(3) spent_None [OF assms(3)] by (simp_all add: connectable_def)
  have Uy: "U y = marked lost ?S" using none y(3) U by (auto simp: marked_def fun_eq_iff)
  show ?thesis
  proof (cases "IsCoinBase tx")
    case True
    then show ?thesis using y Uy by (auto simp: UpdateCoinsReversingTransaction_def spent_def)
  next
    case False
    define lost' where "lost' k = (lost k \<or> V k = None)" for k
    have m: "marked lost' V = marked lost V" "marked lost' ?S = marked lost ?S"
      using spent_None [OF assms(3)] by (auto intro!: marked_cong simp: lost'_def)
    have S: "?S = snd (spend_all V (vin tx))" "fst (spent V tx) = fst (spend_all V (vin tx))" using False by (simp_all add: spent_def)
    have "all_clean V" "\<forall>i\<in>set (vin tx). spendable V i" "distinct (map prevout (vin tx))"
      using assms(2,3) False by (auto simp: connectable_def list_all_iff stage_ok_def)
    moreover have "lost' k" if "snd (spend_all V (vin tx)) k = None" for k using lost [of k] that S by (auto simp: lost'_def)
    ultimately obtain x where "restore_inputs B y True (rev (zip (vin tx) (fst (spent V tx)))) = Some (True, x)" "C x" "U x = marked lost V"
      using restore_inputs_ok [OF y(2), of V "vin tx" lost'] Uy m S by auto
    then show ?thesis using y(1) False undo S(2) by (auto simp: UpdateCoinsReversingTransaction_def)
  qed
qed

lemma ReverseTransaction_ok:
  assumes "C v" "IsCoinBase tx \<or> list_all (\<lambda>i. spent_output (U v) i \<noteq> None) (vin tx)"
  shows "\<exists>D' x. ReverseTransaction F B tx loc v D = Some (D', x) \<and> C x \<and> U x = U v"
proof (cases "IsCoinBase tx")
  case True
  then show ?thesis using assms(1) by (simp add: ReverseTransaction_def ReverseSpending_CollectUpdatesFromInputs_def)
next
  case False
  then show ?thesis
    using reverse_inputs_ok [OF assms(1), of "vin tx" "length (vin tx)" F loc] assms(2)
    by (fastforce simp: ReverseTransaction_def ReverseSpending_CollectUpdatesFromInputs_def)
qed

end

section \<open>From the last stage to the first\<close>

text \<open>The sets of unspent outputs between the transactions of a block, at a height above that of the previous block.\<close>

definition block_stages ::
  "block_env \<Rightarrow> u256 \<Rightarrow> int \<Rightarrow> CTransaction list \<Rightarrow> CTxInUndo list list \<Rightarrow> (nat \<Rightarrow> u256 \<rightharpoonup> CCoins) \<Rightarrow> bool" where
  "block_stages E prev h vtx uss Vs \<longleftrightarrow>
    (\<forall>n<length vtx. inputs_valid E prev (Vs n) (vtx ! n) \<and> apply_tx h (Vs n) (vtx ! n) = Some (uss ! n, Vs (Suc n))) \<and>
    stage_ok (Vs 0) \<and> distinct (map tx_hash vtx) \<and> (\<forall>n<length vtx. Vs 0 (tx_hash (vtx ! n)) = None) \<and>
    0 < h \<and> h < 2 ^ 31 \<and> ce_heights E prev = Some (h - 1) \<and> 0 < COINBASE_MATURITY E"

lemma stages_step:
  assumes "block_stages E prev h vtx uss Vs" "n < length vtx"
  shows "inputs_valid E prev (Vs n) (vtx ! n)" "apply_tx h (Vs n) (vtx ! n) = Some (uss ! n, Vs (Suc n))"
    "list_all (\<lambda>t. 0 \<le> nValue t) (vout (vtx ! n))"
  using assms by (auto simp: block_stages_def inputs_valid_def)

lemma stages_hash_inj:
  "block_stages E prev h vtx uss Vs \<Longrightarrow> m < length vtx \<Longrightarrow> n < length vtx \<Longrightarrow> tx_hash (vtx ! m) = tx_hash (vtx ! n) \<Longrightarrow> m = n"
  by (simp add: block_stages_def distinct_conv_nth) metis

lemma stages_height: "block_stages E prev h vtx uss Vs \<Longrightarrow> 0 < h \<and> h < 2 ^ 31"
  by (simp add: block_stages_def)

lemma stages_ok:
  assumes B: "block_stages E prev h vtx uss Vs"
  shows "n \<le> length vtx \<Longrightarrow> stage_ok (Vs n) \<and> (\<forall>m. n \<le> m \<and> m < length vtx \<longrightarrow> Vs n (tx_hash (vtx ! m)) = None)"
proof (induction n)
  case 0
  then show ?case using B by (simp add: block_stages_def)
next
  case (Suc n)
  then have n: "n < length vtx" "stage_ok (Vs n)" "Vs n (tx_hash (vtx ! n)) = None" by simp_all
  note A = apply_tx_stage [OF n(2) stages_step(2) [OF B n(1)] n(3) stages_step(3) [OF B n(1)]]
  have h: "0 < h" "h < 2 ^ 31" using stages_height [OF B] by simp_all
  have "Vs (Suc n) (tx_hash (vtx ! m)) = None" if m: "Suc n \<le> m" "m < length vtx" for m
  proof -
    have "tx_hash (vtx ! m) \<noteq> tx_hash (vtx ! n)" using stages_hash_inj [OF B, of m n] m n(1) by auto
    moreover have "Vs n (tx_hash (vtx ! m)) = None" using Suc m by simp
    ultimately show ?thesis using spent_None [OF A(2) [OF h]] by (simp add: A(4) [OF h])
  qed
  then show ?case using A(1) [OF h] by blast
qed

lemma stages_spent:
  assumes B: "block_stages E prev h vtx uss Vs" and n: "n < length vtx"
  shows "connectable (Vs n) (vtx ! n)" "uss ! n = fst (spent (Vs n) (vtx ! n))"
    "Vs (Suc n) = (snd (spent (Vs n) (vtx ! n)))(tx_hash (vtx ! n) := unpruned (FromTx (vtx ! n) h))"
    "k \<noteq> tx_hash (vtx ! n) \<Longrightarrow> IsCoinBase (vtx ! n) \<or> k \<notin> (\<lambda>i. op_hash (prevout i)) ` set (vin (vtx ! n)) \<Longrightarrow> Vs (Suc n) k = Vs n k"
proof -
  have st: "stage_ok (Vs n)" "Vs n (tx_hash (vtx ! n)) = None" using stages_ok [OF B, of n] n by simp_all
  note A = apply_tx_stage [OF st(1) stages_step(2) [OF B n] st(2) stages_step(3) [OF B n]]
  have h: "0 < h" "h < 2 ^ 31" using stages_height [OF B] by simp_all
  show "connectable (Vs n) (vtx ! n)" "uss ! n = fst (spent (Vs n) (vtx ! n))"
    "Vs (Suc n) = (snd (spent (Vs n) (vtx ! n)))(tx_hash (vtx ! n) := unpruned (FromTx (vtx ! n) h))"
    "k \<noteq> tx_hash (vtx ! n) \<Longrightarrow> IsCoinBase (vtx ! n) \<or> k \<notin> (\<lambda>i. op_hash (prevout i)) ` set (vin (vtx ! n)) \<Longrightarrow> Vs (Suc n) k = Vs n k"
    using A(2-5) [OF h] by blast+
qed

lemma absent_stays:
  assumes B: "block_stages E prev h vtx uss Vs"
    and "\<And>m. n \<le> m \<Longrightarrow> m < length vtx \<Longrightarrow> k \<noteq> tx_hash (vtx ! m)" "n \<le> length vtx" "Vs n k = None"
  shows "Vs (length vtx) k = None"
  using assms(3,2,4)
proof (induction rule: inc_induct)
  case (step n)
  have "Vs (Suc n) k = None" using stages_spent(3) [OF B, of n] spent_None [OF stages_spent(1) [OF B], of n k] step by simp
  then show ?case using step by simp
qed simp

text \<open>A coinstake of this block is not mature in it.\<close>

lemma coinstake_stays:
  assumes B: "block_stages E prev h vtx uss Vs" and "n \<le> length vtx" "Vs n k = Some c" "fCoinStake c" "coHeight c = h"
  shows "Vs (length vtx) k = Some c"
  using assms(2,3)
proof (induction rule: inc_induct)
  case (step n)
  have "k \<noteq> tx_hash (vtx ! n)" using stages_ok [OF B, of n] step by auto
  moreover have "IsCoinBase (vtx ! n) \<or> k \<notin> (\<lambda>i. op_hash (prevout i)) ` set (vin (vtx ! n))"
    using stages_step(1) [OF B, of n] step B assms(4,5)
    by (auto simp: inputs_valid_def list_all_iff mature_def check_env.defs block_stages_def)
  ultimately show ?case using stages_spent(4) [OF B, of n k] step by simp
qed simp

lemma connects_stages:
  "connects E sc prev h V vtx uss W \<Longrightarrow>
   length uss = length vtx \<and> (\<exists>Vs. Vs 0 = V \<and> Vs (length vtx) = W \<and>
     (\<forall>n<length vtx. inputs_valid E prev (Vs n) (vtx ! n) \<and> apply_tx h (Vs n) (vtx ! n) = Some (uss ! n, Vs (Suc n))))"
proof (induction rule: connects.induct)
  case (connects_none V)
  then show ?case by auto
next
  case (connects_tx V tx us V' txs uss W)
  then obtain Vs where Vs: "Vs 0 = V'" "Vs (length txs) = W"
    "\<forall>n<length txs. inputs_valid E prev (Vs n) (txs ! n) \<and> apply_tx h (Vs n) (txs ! n) = Some (uss ! n, Vs (Suc n))"
    by blast
  then show ?case using connects_tx by (intro conjI exI [of _ "case_nat V Vs"]) (auto simp: less_Suc_eq_0_disj)
qed

context coins_view begin

text \<open>The coins whose mark is lost are those that the block has spent to the last output.\<close>

lemma disconnect_loop_ok:
  assumes B': "block_stages E prev h vtx ([] # undos) Vs" and "IsCoinBase (vtx ! 0)"
  defines "lost \<equiv> \<lambda>k. Vs (length vtx) k = None"
  shows "n \<le> length vtx \<Longrightarrow> C v \<Longrightarrow> U v = marked lost (Vs n) \<Longrightarrow>
    \<exists>x D'. disconnect_loop F B vtx undos h pfClean n True v D = Some (True, True, x, D') \<and> C x \<and> U x = marked lost (Vs 0)"
proof (induction n arbitrary: v D)
  case (Suc n)
  let ?tx = "vtx ! n" and ?loc = "TransactionLocationReference_new (vtx ! n) (word_of_int h) (int n)"
  let ?undo = "if n > 0 then Some (undos ! (n - 1)) else None"
  have n: "n < length vtx" "0 \<le> h" "h < 2 ^ 31" using Suc.prems(1) stages_height [OF B'] by simp_all
  have st: "stage_ok (Vs n)" and fresh: "\<And>m. n \<le> m \<Longrightarrow> m < length vtx \<Longrightarrow> Vs n (tx_hash (vtx ! m)) = None" using stages_ok [OF B', of n] n(1) by simp_all
  note A = stages_spent [OF B' n(1)]
  have U: "U v = marked lost ((snd (spent (Vs n) ?tx))(tx_hash ?tx := unpruned (FromTx ?tx h)))" unfolding Suc.prems(3) A(3) ..
  have own: "\<not> IsCoinStake ?tx" if l: "lost (tx_hash ?tx)" "\<not> IsPruned (FromTx ?tx h)"
  proof
    assume "IsCoinStake ?tx"
    moreover have "Vs (Suc n) (tx_hash ?tx) = Some (FromTx ?tx h)" using l(2) by (simp add: A(3) unpruned_def)
    ultimately show False using coinstake_stays [OF B' Suc.prems(1), of "tx_hash ?tx"] l(1) by (simp add: lost_def)
  qed
  have lost: "lost k" if k: "Vs n k \<noteq> None" "snd (spent (Vs n) ?tx) k = None" for k
  proof -
    have ne: "k \<noteq> tx_hash (vtx ! m)" if "n \<le> m" "m < length vtx" for m using fresh [OF that] k(1) by metis
    then have "Vs (Suc n) k = None" using k(2) n(1) by (simp add: A(3))
    then show ?thesis unfolding lost_def using absent_stays [OF B' _ Suc.prems(1)] ne by simp
  qed
  have undo: "IsCoinBase ?tx \<or> ?undo = Some (fst (spent (Vs n) ?tx))" using A(2) assms(2) by (cases n) simp_all
  obtain x where x: "UpdateCoinsReversingTransaction B ?tx ?loc v ?undo = Some (OK, x)" "C x" "U x = marked lost (Vs n)"
    using reverse_step [OF Suc.prems(2) st A(1) n(2,3) U own lost undo] by blast
  have outs: "IsCoinBase ?tx \<or> list_all (\<lambda>i. spent_output (U x) i \<noteq> None) (vin ?tx)"
    using A(1) spendable_output unfolding x(3) spent_output_marked connectable_def list_all_iff by blast
  obtain D' y where y: "(if \<not> pfClean then ReverseTransaction F B ?tx ?loc x D else Some (D, x)) = Some (D', y)" "C y" "U y = marked lost (Vs n)"
    using ReverseTransaction_ok [OF x(2) outs, of F ?loc D] x(2,3) by (cases pfClean) auto
  show ?case using Suc.IH [OF _ y(2,3), of D'] n(1) x(1) y(1) by (simp add: Let_def)
qed simp

lemma DisconnectBlock_ok:
  assumes "C v" "hashBlock v = hash" "hash \<noteq> 0" and B': "block_stages E prev h vtx ([] # undos) Vs" and "IsCoinBase (vtx ! 0)"
    "length vtx = Suc (length undos)" "U v = Vs (length vtx)"
  shows "\<exists>r. DisconnectBlock F B vtx (Some undos) hash prevHash h pfClean v tree = Some r \<and> dr_ok r \<and> (pfClean \<longrightarrow> dr_clean r = Some True) \<and>
    C (dr_view r) \<and> hashBlock (dr_view r) = prevHash \<and> U (dr_view r) = marked (\<lambda>k. Vs (length vtx) k = None) (Vs 0)"
proof -
  have g: "GetBestBlock B v = (hash, v)" using assms(2,3) by (simp add: GetBestBlock_def)
  have "U v = marked (\<lambda>k. Vs (length vtx) k = None) (Vs (length vtx))"
    using assms(7) by (auto simp: marked_def without_mark_def map_option_case fun_eq_iff split: option.splits)
  then obtain x D' where "disconnect_loop F B vtx undos h pfClean (length vtx) True v IndexDatabaseUpdates_new = Some (True, True, x, D')" "C x"
    "U x = marked (\<lambda>k. Vs (length vtx) k = None) (Vs 0)"
    using disconnect_loop_ok [OF B' assms(5) order_refl assms(1)] by blast
  then show ?thesis using g assms(6) SetBestBlock_ok [of x prevHash] by (cases pfClean) (auto simp: DisconnectBlock_def SetBestBlock_def Let_def simp del: disconnect_loop.simps)
qed

end

lemma Check_stages:
  assumes "view_ok v" "amounts_ok E (cb # txs)" "IsCoinBase cb"
    "Check E chain_view (cb # txs) h supply rw jc (BlockTransactionChecker_new (cb # txs) st h pos v skip) D = Inr (True, S', D')"
    and "distinct (map tx_hash (cb # txs))" "list_all (\<lambda>tx. view_utxo v (tx_hash tx) = None) (cb # txs)" "coins_wf (view_utxo v)"
    and "0 < h" "h < 2 ^ 31" "ce_heights E (cache_best (cache_best db_best) v) = Some (h - 1)" "0 < COINBASE_MATURITY E"
  obtains Vs where "view_ok (bc_view S')" "length (vtxundo S') = length txs" "Vs 0 = view_utxo v" "Vs (length (cb # txs)) = view_utxo (bc_view S')"
    "block_stages E (cache_best (cache_best db_best) v) h (cb # txs) ([] # vtxundo S') Vs"
proof -
  let ?prev = "cache_best (cache_best db_best) v"
  have C: "view_ok (bc_view S')" and conn: "\<exists>sc. connects E sc ?prev h (view_utxo v) (cb # txs) ([] # vtxundo S') (view_utxo (bc_view S'))"
    using tip.Check_connects [OF assms(1) [unfolded view_ok_def] assms(2-4)] by (auto simp: view_ok_def view_utxo_def)
  then obtain Vs where Vs: "length (vtxundo S') = length txs" "Vs 0 = view_utxo v" "Vs (length (cb # txs)) = view_utxo (bc_view S')"
    "\<forall>n<length (cb # txs). inputs_valid E ?prev (Vs n) ((cb # txs) ! n) \<and>
      apply_tx h (Vs n) ((cb # txs) ! n) = Some (([] # vtxundo S') ! n, Vs (Suc n))"
    using conn connects_stages [of E _ ?prev h "view_utxo v" "cb # txs" "[] # vtxundo S'" "view_utxo (bc_view S')"] by auto
  have "stage_ok (view_utxo v)"
    using assms(7) tip.cache_utxo_ok [OF assms(1) [unfolded view_ok_def]] by (auto simp: stage_ok_def all_clean_def view_utxo_def)
  then have B: "block_stages E ?prev h (cb # txs) ([] # vtxundo S') Vs"
    using Vs(2,4) assms(5,6,8-11) by (simp add: block_stages_def list_all_length)
  show ?thesis by (rule that [OF C Vs(1-3) B])
qed

section \<open>Properties\<close>

text \<open>
  C7: Disconnecting a block that has just been connected never fails: with the undo data that connecting has kept, it finds no
  inconsistency, asserts nothing false, sets the best block to the previous one and restores the unspent outputs exactly, except that coins which
  the block had spent to their last output come back without their coinstake mark. This needs the hashes of the transactions to be new,
  stored heights to be positive, and coinstakes not to be mature at once.
\<close>

theorem block_disconnect:
  assumes "view_ok v" "amounts_ok E (cb # txs)" "IsCoinBase cb"
    "Check E chain_view (cb # txs) h supply rw jc (BlockTransactionChecker_new (cb # txs) st h pos v skip) D = Inr (True, S', D')"
    and "distinct (map tx_hash (cb # txs))" "list_all (\<lambda>tx. view_utxo v (tx_hash tx) = None) (cb # txs)" "coins_wf (view_utxo v)"
    and "0 < h" "h < 2 ^ 31" "ce_heights E (cache_best (cache_best db_best) v) = Some (h - 1)" "0 < COINBASE_MATURITY E" "hash \<noteq> 0"
  shows "\<exists>r. DisconnectBlock F chain_view (cb # txs) (Some (vtxundo S')) hash prevHash h pfClean (SetBestBlock (bc_view S') hash) tree = Some r \<and>
    dr_ok r \<and> (pfClean \<longrightarrow> dr_clean r = Some True) \<and> view_ok (dr_view r) \<and> hashBlock (dr_view r) = prevHash \<and>
    view_utxo (dr_view r) = (\<lambda>k. map_option (\<lambda>c. if view_utxo (bc_view S') k = None then c\<lparr>fCoinStake := False\<rparr> else c) (view_utxo v k))"
proof -
  obtain Vs where Vs: "view_ok (bc_view S')" "length (vtxundo S') = length txs" "Vs 0 = view_utxo v"
    "Vs (length (cb # txs)) = view_utxo (bc_view S')" and B: "block_stages E (cache_best (cache_best db_best) v) h (cb # txs) ([] # vtxundo S') Vs"
    using Check_stages [OF assms(1-11)] .
  let ?v = "SetBestBlock (bc_view S') hash"
  have v: "view_ok ?v" "view_utxo ?v = Vs (length (cb # txs))" "hashBlock ?v = hash"
    using tip.SetBestBlock_ok [of "bc_view S'" hash] Vs(1,4) by (auto simp: view_ok_def view_utxo_def SetBestBlock_def)
  have l: "IsCoinBase ((cb # txs) ! 0)" "length (cb # txs) = Suc (length (vtxundo S'))" using assms(3) Vs(2) by simp_all
  show ?thesis
    using tip.DisconnectBlock_ok [OF v(1) [unfolded view_ok_def] v(3) assms(12) B l v(2) [unfolded view_utxo_def], of F prevHash pfClean tree]
    unfolding view_ok_def view_utxo_def marked_def [abs_def] without_mark_def [abs_def] Vs(3,4) .
qed

lemma example_block_wf:
  "distinct (map tx_hash [example_coinbase, example_spender])"
  "list_all (\<lambda>tx. view_utxo example_view (tx_hash tx) = None) [example_coinbase, example_spender]"
  "coins_wf (view_utxo example_view)" "IsCoinBase example_coinbase"
  by (simp_all add: example_view_facts example_coinbase_def example_spender_def coins_wf_def example_stake_def example_output_def exact_def
      CTxOut_IsNull_def IsCoinBase_def COutPoint_IsNull_def)

lemma example_block_height:
  "ce_heights example_block_env (cache_best (cache_best db_best) example_view) = Some (27 - 1)" "0 < COINBASE_MATURITY example_block_env"
  by (simp_all add: example_block_env_def example_view_def cache_best_def CCoinsViewCache_new_def db_best_def)

theorem block_disconnect_witness:
  "\<exists>S' D' r. Check example_block_env chain_view [example_coinbase, example_spender] 27 5 example_rewards False example_checker IndexDatabaseUpdates_new =
     Inr (True, S', D') \<and>
   DisconnectBlock \<lparr>fAddressIndex = True, fSpentIndex = True\<rparr> chain_view [example_coinbase, example_spender] (Some (vtxundo S')) 1 2 27 False
     (SetBestBlock (bc_view S') 1) example_tree = Some r \<and>
   dr_ok r \<and> hashBlock (dr_view r) = 2 \<and> view_utxo (dr_view r) 10 = None \<and>
   (view_utxo (dr_view r) 9 = Some example_stake \<or> view_utxo (dr_view r) 9 = Some (example_stake\<lparr>fCoinStake := False\<rparr>))"
proof -
  obtain S' D' where S': "Check example_block_env chain_view [example_coinbase, example_spender] 27 5 example_rewards False example_checker
      IndexDatabaseUpdates_new = Inr (True, S', D')"
    using example_block by blast
  let ?vtx = "[example_coinbase, example_spender]" and ?F = "\<lparr>fAddressIndex = True, fSpentIndex = True\<rparr>"
  have "(0 :: int) < 27" "(27 :: int) < 2 ^ 31" "(1 :: u256) \<noteq> 0" by simp_all
  from block_disconnect [OF example_view_facts(1) example_amounts example_block_wf(4) S' [unfolded example_checker_def] example_block_wf(1-3) this(1,2)
    example_block_height this(3), of ?F 2 False example_tree]
  show ?thesis using S' by (auto simp: example_view_facts)
qed

text \<open>
  C13: Connecting a block keeps the stored coins well-formed: a spent output is the null output with an empty script, no coins are stored that are
  spent to the last output or end with a spent one, and the stored height is positive and fits a signed integer. So what taking back a block requires of the
  unspent outputs holds again for the next one.
\<close>

theorem block_keeps_coins:
  assumes "view_ok v" "amounts_ok E (cb # txs)" "IsCoinBase cb"
    "Check E chain_view (cb # txs) h supply rw jc (BlockTransactionChecker_new (cb # txs) st h pos v skip) D = Inr (True, S', D')"
    and "distinct (map tx_hash (cb # txs))" "list_all (\<lambda>tx. view_utxo v (tx_hash tx) = None) (cb # txs)" "coins_wf (view_utxo v)"
    and "0 < h" "h < 2 ^ 31" "ce_heights E (cache_best (cache_best db_best) v) = Some (h - 1)" "0 < COINBASE_MATURITY E"
  shows "coins_wf (view_utxo (bc_view S')) \<and> all_clean (view_utxo (bc_view S'))"
proof -
  obtain Vs where Vs: "Vs (length (cb # txs)) = view_utxo (bc_view S')"
    and B: "block_stages E (cache_best (cache_best db_best) v) h (cb # txs) ([] # vtxundo S') Vs"
    using Check_stages [OF assms] .
  have "stage_ok (Vs (length (cb # txs)))" using stages_ok [OF B order_refl] by blast
  then show ?thesis unfolding Vs by (simp add: stage_ok_def)
qed

theorem block_keeps_coins_witness:
  "\<exists>S' D'. Check example_block_env chain_view [example_coinbase, example_spender] 27 5 example_rewards False example_checker IndexDatabaseUpdates_new =
     Inr (True, S', D') \<and> coins_wf (view_utxo (bc_view S'))"
proof -
  obtain S' D' where S': "Check example_block_env chain_view [example_coinbase, example_spender] 27 5 example_rewards False example_checker
      IndexDatabaseUpdates_new = Inr (True, S', D')"
    using example_block by blast
  have "(0 :: int) < 27" "(27 :: int) < 2 ^ 31" by simp_all
  from block_keeps_coins [OF example_view_facts(1) example_amounts example_block_wf(4) S' [unfolded example_checker_def] example_block_wf(1-3) this
    example_block_height]
  show ?thesis using S' by blast
qed

end
