(* ===== verification/Check_Queue.thy ===== *)
theory Check_Queue
  imports Prelude
begin

text \<open>
  The queue on which the script checks of a block are run by several threads (\<^verbatim>\<open>checkqueue.h\<close>). One thread, the master, adds checks
  and then waits for the result while it helps the workers. A state holds the members of the queue and the local variables of
  every thread; a step is one critical section under the mutex, or one check outside of it, by any thread. The theory shows
  that the result is right for every interleaving, that no wake-up is lost, and that the queue is idle again after it.
\<close>

section \<open>Threads\<close>

text \<open>
  Where a thread is in the function \<^verbatim>\<open>Loop\<close>: outside of it, at the lock with its number of finished checks (\<^verbatim>\<open>nNow\<close>) and their result
  (\<^verbatim>\<open>fOk\<close>), waiting on its condition variable (and whether it has been notified), or at work on the rest of its batch.
\<close>

datatype 'c thread = Outside | AtLock nat bool | Waiting bool | Working nat bool "'c list"

record 'c CCheckQueue =
  queue :: "'c list"
  nIdle :: nat
  nTotal :: nat
  fAllOk :: bool
  nTodo :: nat
  fQuit :: bool
  nBatchSize :: nat
  threads :: "'c thread list"
  added :: "'c list"
  result :: "(bool \<times> 'c list) option"

text \<open>
  Thread 0 is the master. The last two fields are not part of the code: the checks added since the master last returned, and the
  last value it returned together with the checks it was returned for.
\<close>

definition CCheckQueue_new :: "nat \<Rightarrow> nat \<Rightarrow> 'c CCheckQueue" where
  "CCheckQueue_new nBatchSizeIn n =
    \<lparr>queue = [], nIdle = 0, nTotal = 0, fAllOk = True, nTodo = 0, fQuit = False, nBatchSize = nBatchSizeIn,
     threads = replicate (Suc n) Outside, added = [], result = None\<rparr>"

definition put_thread :: "nat \<Rightarrow> 'c thread \<Rightarrow> 'c CCheckQueue \<Rightarrow> 'c CCheckQueue" where
  "put_thread i t s = s\<lparr>threads := (threads s)[i := t]\<rparr>"

fun notify :: "'c thread \<Rightarrow> 'c thread" where
  "notify (Waiting b) = Waiting True"
| "notify t = t"

definition notify_master :: "'c CCheckQueue \<Rightarrow> 'c CCheckQueue" where
  "notify_master s = s\<lparr>threads := (threads s)[0 := notify (threads s ! 0)]\<rparr>"

section \<open>The loop\<close>

definition leave_loop :: "nat \<Rightarrow> 'c CCheckQueue \<Rightarrow> 'c CCheckQueue" where
  "leave_loop i s =
    (let s = put_thread i Outside (s\<lparr>nTotal := nTotal s - 1\<rparr>)
     in if i = 0 then s\<lparr>fAllOk := True, result := Some (fAllOk s, added s), added := []\<rparr> else s)"

definition take_batch :: "nat \<Rightarrow> 'c CCheckQueue \<Rightarrow> 'c CCheckQueue" where
  "take_batch i s =
    (let nNow = max 1 (min (nBatchSize s) (length (queue s) div (nTotal s + nIdle s + 1)));
         rest = length (queue s) - nNow
     in put_thread i (Working nNow (fAllOk s) (rev (drop rest (queue s)))) (s\<lparr>queue := take rest (queue s)\<rparr>))"

text \<open>The loop that waits for work, from the test of its condition to the next wait, return or batch.\<close>

definition loop_test :: "nat \<Rightarrow> 'c CCheckQueue \<Rightarrow> 'c CCheckQueue" where
  "loop_test i s =
    (if queue s = [] then
       if (i = 0 \<or> fQuit s) \<and> nTodo s = 0 then leave_loop i s
       else put_thread i (Waiting False) (s\<lparr>nIdle := nIdle s + 1\<rparr>)
     else take_batch i s)"

definition lock_section :: "nat \<Rightarrow> nat \<Rightarrow> bool \<Rightarrow> 'c CCheckQueue \<Rightarrow> 'c CCheckQueue" where
  "lock_section i nNow fOk s =
    (let s = (if nNow \<noteq> 0 then
                let s = s\<lparr>fAllOk := (fAllOk s \<and> fOk), nTodo := nTodo s - nNow\<rparr>
                in if nTodo s = 0 \<and> i \<noteq> 0 then notify_master s else s
              else s\<lparr>nTotal := nTotal s + 1\<rparr>)
     in loop_test i s)"

definition wake_up :: "nat \<Rightarrow> 'c CCheckQueue \<Rightarrow> 'c CCheckQueue" where
  "wake_up i s = loop_test i (s\<lparr>nIdle := nIdle s - 1\<rparr>)"

fun work :: "('c \<Rightarrow> bool) \<Rightarrow> nat \<Rightarrow> bool \<Rightarrow> 'c list \<Rightarrow> 'c thread" where
  "work run nNow fOk [] = AtLock nNow fOk"
| "work run nNow fOk (check # vChecks) = Working nNow (if fOk then run check else fOk) vChecks"

section \<open>Adding checks\<close>

text \<open>One check wakes up one worker, chosen by the system; more of them wake up all workers.\<close>

definition Add :: "'c list \<Rightarrow> nat \<Rightarrow> 'c CCheckQueue \<Rightarrow> 'c CCheckQueue" where
  "Add vChecks j s =
    (let s = s\<lparr>queue := queue s @ vChecks, nTodo := nTodo s + length vChecks, added := added s @ vChecks\<rparr>
     in if length vChecks = 1 then (if j \<noteq> 0 then s\<lparr>threads := (threads s)[j := notify (threads s ! j)]\<rparr> else s)
        else if length vChecks > 1 then s\<lparr>threads := hd (threads s) # map notify (tl (threads s))\<rparr>
        else s)"

definition IsIdle :: "'c CCheckQueue \<Rightarrow> bool" where
  "IsIdle s \<longleftrightarrow> nTotal s = nIdle s \<and> nTodo s = 0 \<and> fAllOk s"

section \<open>Steps\<close>

text \<open>
  A thread may also wake up without a notification. The master adds checks and starts to wait only outside of the loop.
\<close>

inductive queue_step :: "('c \<Rightarrow> bool) \<Rightarrow> 'c CCheckQueue \<Rightarrow> 'c CCheckQueue \<Rightarrow> bool" for run where
  enter: "i < length (threads s) \<Longrightarrow> threads s ! i = Outside \<Longrightarrow> queue_step run s (put_thread i (AtLock 0 True) s)"
| lock: "i < length (threads s) \<Longrightarrow> threads s ! i = AtLock n b \<Longrightarrow> queue_step run s (lock_section i n b s)"
| wake: "i < length (threads s) \<Longrightarrow> threads s ! i = Waiting b \<Longrightarrow> queue_step run s (wake_up i s)"
| work: "i < length (threads s) \<Longrightarrow> threads s ! i = Working n b cs \<Longrightarrow> queue_step run s (put_thread i (work run n b cs) s)"
| add: "threads s ! 0 = Outside \<Longrightarrow> j < length (threads s) \<Longrightarrow> queue_step run s (Add cs j s)"

inductive queue_reachable :: "('c \<Rightarrow> bool) \<Rightarrow> 'c CCheckQueue \<Rightarrow> bool" for run where
  start: "queue_reachable run (CCheckQueue_new batch n)"
| next_step: "queue_reachable run s \<Longrightarrow> queue_step run s s' \<Longrightarrow> queue_reachable run s'"

section \<open>Invariant\<close>

fun load :: "'c thread \<Rightarrow> nat" where
  "load (AtLock n b) = n" | "load (Working n b cs) = n" | "load t = 0"

fun inside :: "'c thread \<Rightarrow> nat" where
  "inside Outside = 0" | "inside (AtLock n b) = (if n > 0 then 1 else 0)" | "inside t = 1"

fun waits :: "'c thread \<Rightarrow> nat" where
  "waits (Waiting b) = 1" | "waits t = 0"

fun failed :: "'c thread \<Rightarrow> bool" where
  "failed (AtLock n b) = (\<not> b)" | "failed (Working n b cs) = (\<not> b)" | "failed t = False"

fun pending :: "'c thread \<Rightarrow> 'c list" where
  "pending (Working n b cs) = cs" | "pending t = []"

fun thread_ok :: "'c thread \<Rightarrow> bool" where
  "thread_ok (AtLock n b) = (n = 0 \<longrightarrow> b)" | "thread_ok (Working n b cs) = (n > 0)" | "thread_ok t = True"

text \<open>The counters are right, and the collected result is that of the checks that are neither queued nor in a batch.\<close>

definition counts_ok :: "'c CCheckQueue \<Rightarrow> bool" where
  "counts_ok s \<longleftrightarrow> nTodo s = length (queue s) + sum_list (map load (threads s)) \<and> nTotal s = sum_list (map inside (threads s)) \<and>
     nIdle s = sum_list (map waits (threads s)) \<and> (\<forall>t\<in>set (threads s). thread_ok t) \<and>
     nTodo s \<le> length (added s)"

definition results_ok :: "('c \<Rightarrow> bool) \<Rightarrow> 'c CCheckQueue \<Rightarrow> bool" where
  "results_ok run s \<longleftrightarrow>
    set (queue s) \<subseteq> set (added s) \<and> (\<forall>t\<in>set (threads s). set (pending t) \<subseteq> set (added s)) \<and>
    (\<not> fAllOk s \<or> (\<exists>t\<in>set (threads s). failed t) \<longrightarrow> (\<exists>c\<in>set (added s). \<not> run c)) \<and>
    (fAllOk s \<longrightarrow> (\<forall>t\<in>set (threads s). \<not> failed t) \<longrightarrow>
      (\<forall>c\<in>set (added s). run c \<or> c \<in> set (queue s) \<or> (\<exists>t\<in>set (threads s). c \<in> set (pending t)))) \<and>
    (\<forall>b cs. result s = Some (b, cs) \<longrightarrow> b = list_all run cs)"

text \<open>The master waits without a notification only while others are at work.\<close>

definition master_ok :: "'c CCheckQueue \<Rightarrow> bool" where
  "master_ok s \<longleftrightarrow> threads s \<noteq> [] \<and> (threads s ! 0 = Waiting False \<longrightarrow> queue s = [] \<and> nTodo s > 0)"

lemma sum_upd: "i < length ts \<Longrightarrow> sum_list (map f (ts[i := t])) + f (ts ! i) = sum_list (map f ts) + f t" for f :: "'c thread \<Rightarrow> nat"
  by (induction ts arbitrary: i) (auto split: nat.splits)

lemma set_upd: "i < length ts \<Longrightarrow> x \<in> set (ts[i := t]) \<Longrightarrow> x = t \<or> (x \<in> set ts)"
  using set_update_subset_insert by fastforce

text \<open>A thread in the waiting loop is counted as a waiting one.\<close>

definition as_waiting :: "nat \<Rightarrow> 'c CCheckQueue \<Rightarrow> 'c CCheckQueue" where
  "as_waiting i s = put_thread i (Waiting True) (s\<lparr>nIdle := nIdle s + 1\<rparr>)"

lemma batch_bounds:
  fixes s :: "'c CCheckQueue"
  assumes "queue s \<noteq> []"
  defines "n \<equiv> max 1 (min (nBatchSize s) (length (queue s) div (nTotal s + nIdle s + 1)))"
  shows "0 < n" "n \<le> length (queue s)"
proof -
  have "length (queue s) div (nTotal s + nIdle s + 1) \<le> length (queue s)" by (rule div_le_dividend)
  then have "min (nBatchSize s) (length (queue s) div (nTotal s + nIdle s + 1)) \<le> length (queue s)" by (rule min.coboundedI2)
  moreover have "1 \<le> length (queue s)" using assms(1) by (cases "queue s") auto
  ultimately show "n \<le> length (queue s)" unfolding n_def by (rule max.boundedI [rotated])
  show "0 < n" unfolding n_def by (rule less_le_trans [OF zero_less_one max.cobounded1])
qed

lemma loop_test_counts:
  assumes "counts_ok (as_waiting i s)" "i < length (threads s)"
  shows "counts_ok (loop_test i s)"
proof -
  let ?ts = "threads s"
  note su = sum_upd [OF assms(2)]
  have w: "nTodo s = length (queue s) + sum_list (map load (?ts[i := Waiting True]))" "nTotal s = sum_list (map inside (?ts[i := Waiting True]))"
    "Suc (nIdle s) = sum_list (map waits (?ts[i := Waiting True]))" "\<forall>t\<in>set (?ts[i := Waiting True]). thread_ok t"
    "nTodo s \<le> length (added s)"
    using assms(1) by (simp_all add: counts_ok_def as_waiting_def put_thread_def)
  have ok: "\<forall>t\<in>set (?ts[i := x]). thread_ok t" if "thread_ok x" for x
    using w(4) that assms(2) by (metis list_update_overwrite length_list_update set_upd)
  note sums = su [of load "Waiting True"] su [of inside "Waiting True"] su [of waits "Waiting True"]
  show ?thesis
  proof (cases "queue s = []")
    case True
    show ?thesis
    proof (cases "(i = 0 \<or> fQuit s) \<and> nTodo s = 0")
      case leave: True
      then show ?thesis using w sums su [of load Outside] su [of inside Outside] su [of waits Outside] ok [of Outside] True
        by (auto simp: loop_test_def leave_loop_def counts_ok_def put_thread_def Let_def)
    next
      case False
      then show ?thesis using w sums su [of load "Waiting False"] su [of inside "Waiting False"] su [of waits "Waiting False"] ok [of "Waiting False"] True
        by (auto simp: loop_test_def counts_ok_def put_thread_def)
    qed
  next
    case False
    define n where "n = max 1 (min (nBatchSize s) (length (queue s) div (nTotal s + nIdle s + 1)))"
    note n = batch_bounds [OF False, folded n_def]
    let ?W = "Working n (fAllOk s) (rev (drop (length (queue s) - n) (queue s)))"
    have "loop_test i s = put_thread i ?W (s\<lparr>queue := take (length (queue s) - n) (queue s)\<rparr>)"
      using False by (simp add: loop_test_def take_batch_def n_def Let_def)
    then show ?thesis using w sums su [of load ?W] su [of inside ?W] su [of waits ?W] ok [of ?W] n
      by (simp add: counts_ok_def put_thread_def)
  qed
qed

lemma others:
  assumes "i < length ts"
  obtains R where "\<And>x. set (ts[i := x]) = insert x R" "set ts = insert (ts ! i) R"
proof
  fix x show "set (ts[i := x]) = insert x (set (take i ts) \<union> set (drop (Suc i) ts))"
    using assms by (auto simp: upd_conv_take_nth_drop)
  show "set ts = insert (ts ! i) (set (take i ts) \<union> set (drop (Suc i) ts))"
    using assms by (subst id_take_nth_drop [OF assms]) auto
qed

lemma idle_thread: "thread_ok t \<Longrightarrow> load t = 0 \<Longrightarrow> \<not> failed t \<and> pending t = []"
  by (cases t) auto

lemma loop_test_results:
  assumes "counts_ok (as_waiting i s)" "results_ok run (as_waiting i s)" "i < length (threads s)"
  shows "results_ok run (loop_test i s)"
proof -
  obtain R where R: "\<And>x. set ((threads s)[i := x]) = insert x R" using others [OF assms(3)] by metis
  have r: "set (queue s) \<subseteq> set (added s)" "\<forall>t\<in>R. set (pending t) \<subseteq> set (added s)"
    "\<not> fAllOk s \<or> (\<exists>t\<in>R. failed t) \<longrightarrow> (\<exists>c\<in>set (added s). \<not> run c)"
    "fAllOk s \<Longrightarrow> \<forall>t\<in>R. \<not> failed t \<Longrightarrow> \<forall>c\<in>set (added s). run c \<or> c \<in> set (queue s) \<or> (\<exists>t\<in>R. c \<in> set (pending t))"
    "\<forall>b cs. result s = Some (b, cs) \<longrightarrow> b = list_all run cs"
    using assms(2) by (auto simp: results_ok_def as_waiting_def put_thread_def R)
  show ?thesis
  proof (cases "queue s = []")
    case q: True
    show ?thesis
    proof (cases "(i = 0 \<or> fQuit s) \<and> nTodo s = 0")
      case True
      have "\<forall>t\<in>insert (Waiting True) R. thread_ok t" "sum_list (map load ((threads s)[i := Waiting True])) = 0"
        using assms(1) True unfolding counts_ok_def as_waiting_def put_thread_def by (simp_all add: R)
      then have idle: "\<not> failed t" "pending t = []" if "t \<in> R" for t
        using that R [of "Waiting True"] idle_thread [of t] by (auto simp: sum_list_eq_0_iff simp del: set_update_memI)
      show ?thesis
      proof (cases "i = 0")
        case i: True
        have "fAllOk s = list_all run (added s)" using r(3,4) idle q by (auto simp: list_all_iff)
        then show ?thesis using i q True idle R [of Outside]
          by (auto simp: loop_test_def leave_loop_def results_ok_def put_thread_def Let_def)
      next
        case False
        then show ?thesis using q True r idle by (auto simp: loop_test_def leave_loop_def results_ok_def put_thread_def Let_def R)
      qed
    next
      case False
      then show ?thesis using q r by (auto simp: loop_test_def results_ok_def put_thread_def R)
    qed
  next
    case False
    define n where "n = max 1 (min (nBatchSize s) (length (queue s) div (nTotal s + nIdle s + 1)))"
    let ?m = "length (queue s) - n"
    let ?W = "Working n (fAllOk s) (rev (drop ?m (queue s)))"
    have q: "set (queue s) = set (take ?m (queue s)) \<union> set (drop ?m (queue s))" by (metis append_take_drop_id set_append)
    have "loop_test i s = put_thread i ?W (s\<lparr>queue := take ?m (queue s)\<rparr>)"
      using False by (simp add: loop_test_def take_batch_def n_def Let_def)
    then show ?thesis using r unfolding q by (auto simp: results_ok_def put_thread_def R)
  qed
qed

lemma threads_loop_test: "\<exists>x. threads (loop_test i s) = (threads s)[i := x]"
  by (auto simp: loop_test_def leave_loop_def take_batch_def put_thread_def Let_def)

lemma loop_test_master:
  assumes "threads s \<noteq> []" "i \<noteq> 0 \<Longrightarrow> threads s ! 0 = Waiting False \<Longrightarrow> queue s = [] \<and> nTodo s > 0"
  shows "master_ok (loop_test i s)"
proof (cases "i = 0")
  case True
  then show ?thesis using assms(1) by (auto simp: master_ok_def loop_test_def leave_loop_def take_batch_def put_thread_def Let_def nth_list_update split: if_splits)
next
  case False
  obtain x where x: "threads (loop_test i s) = (threads s)[i := x]" using threads_loop_test by blast
  have "threads (loop_test i s) ! 0 = threads s ! 0" "threads (loop_test i s) \<noteq> []" using False assms(1) by (simp_all add: x)
  then show ?thesis using False assms(2)
    by (auto simp: master_ok_def loop_test_def leave_loop_def take_batch_def put_thread_def Let_def split: if_splits)
qed

section \<open>Every step keeps the invariant\<close>

lemma notify_simps [simp]:
  "load (notify t) = load t" "inside (notify t) = inside t" "waits (notify t) = waits t" "failed (notify t) = failed t"
  "pending (notify t) = pending t" "thread_ok (notify t) = thread_ok t" "notify t \<noteq> Waiting False" "notify t = Outside \<longleftrightarrow> t = Outside"
  by (cases t; simp)+

text \<open>A change of threads that these functions do not see.\<close>

definition same_work :: "'c thread \<Rightarrow> 'c thread \<Rightarrow> bool" where
  "same_work t t' \<longleftrightarrow> load t' = load t \<and> inside t' = inside t \<and> waits t' = waits t \<and> failed t' = failed t \<and> pending t' = pending t \<and>
    thread_ok t' = thread_ok t"

lemma same_work_inv:
  fixes s :: "'c CCheckQueue"
  assumes "list_all2 same_work (threads s) ts"
  shows "counts_ok s \<Longrightarrow> counts_ok (s\<lparr>threads := ts\<rparr>)" "results_ok run s \<Longrightarrow> results_ok run (s\<lparr>threads := ts\<rparr>)"
proof -
  have m: "map f ts = map f (threads s)" if "\<And>t t'. same_work t t' \<Longrightarrow> f t' = f t" for f :: "'c thread \<Rightarrow> 'z"
    using assms that by (induction rule: list_all2_induct) simp_all
  have sets: "(\<exists>t\<in>set ts. P t) \<longleftrightarrow> (\<exists>t\<in>set (threads s). P t)" "(\<forall>t\<in>set ts. P t) \<longleftrightarrow> (\<forall>t\<in>set (threads s). P t)"
    if "\<And>t t'. same_work t t' \<Longrightarrow> P t' = P t" for P
    using assms that by (induction rule: list_all2_induct) simp_all
  show "counts_ok s \<Longrightarrow> counts_ok (s\<lparr>threads := ts\<rparr>)"
    using m [of load] m [of inside] m [of waits] sets(2) [of thread_ok] by (simp add: counts_ok_def same_work_def)
  show "results_ok run s \<Longrightarrow> results_ok run (s\<lparr>threads := ts\<rparr>)"
    unfolding results_ok_def using sets(1) [of failed] sets(2) [of "\<lambda>t. \<not> failed t"] sets(2) [of "\<lambda>t. set (pending t) \<subseteq> set (added s)"]
      sets(1) [of "\<lambda>t. c \<in> set (pending t)" for c] by (simp add: same_work_def)
qed

lemma same_work_refl: "list_all2 same_work ts ts"
  by (simp add: list_all2_refl same_work_def)

lemma same_work_upd: "i < length ts \<Longrightarrow> same_work (ts ! i) t \<Longrightarrow> list_all2 same_work ts (ts[i := t])"
  using list_all2_update_cong [of same_work ts ts "ts ! i" t i] same_work_refl [of ts] by simp

lemma notify_master_as_waiting: "i \<noteq> 0 \<Longrightarrow> as_waiting i (notify_master s) = (as_waiting i s)\<lparr>threads := (threads (as_waiting i s))[0 := notify (threads (as_waiting i s) ! 0)]\<rparr>"
  by (simp add: as_waiting_def notify_master_def put_thread_def list_update_swap)

lemma lock_section_inv:
  assumes "counts_ok s" "results_ok run s" "master_ok s" "i < length (threads s)" "threads s ! i = AtLock n b"
  shows "counts_ok (lock_section i n b s) \<and> results_ok run (lock_section i n b s) \<and> master_ok (lock_section i n b s)"
proof -
  define s1 where "s1 = (if n \<noteq> 0 then s\<lparr>fAllOk := (fAllOk s \<and> b), nTodo := nTodo s - n\<rparr> else s\<lparr>nTotal := nTotal s + 1\<rparr>)"
  define s2 where "s2 = (if n \<noteq> 0 \<and> nTodo s1 = 0 \<and> i \<noteq> 0 then notify_master s1 else s1)"
  have l: "lock_section i n b s = loop_test i s2" by (simp add: lock_section_def s1_def s2_def Let_def)
  obtain R where R: "\<And>x. set ((threads s)[i := x]) = insert x R" "set (threads s) = insert (AtLock n b) R"
    using others [OF assms(4)] assms(5) by metis
  note su = sum_upd [OF assms(4), of _ "Waiting True", unfolded assms(5)]
  have "counts_ok (as_waiting i s1)"
    using assms(1) su [of load] su [of inside] su [of waits]
    by (auto simp: counts_ok_def as_waiting_def put_thread_def s1_def R)
  moreover have "n = 0 \<Longrightarrow> b" using assms(1) R(2) by (auto simp: counts_ok_def)
  then have "results_ok run (as_waiting i s1)"
    using assms(2) by (cases b) (auto simp: results_ok_def as_waiting_def put_thread_def s1_def R)
  moreover have "list_all2 same_work (threads (as_waiting i s1)) ((threads (as_waiting i s1))[0 := notify (threads (as_waiting i s1) ! 0)])"
  proof (rule same_work_upd)
    show "0 < length (threads (as_waiting i s1))" using assms(4) by (cases "threads s") (auto simp: as_waiting_def put_thread_def s1_def)
  qed (simp add: same_work_def)
  ultimately have "counts_ok (as_waiting i s2)" "results_ok run (as_waiting i s2)"
    by (auto simp: s2_def notify_master_as_waiting same_work_inv)
  moreover have "i < length (threads s2)" using assms(4) by (cases "threads s") (auto simp: s2_def s1_def notify_master_def)
  moreover have "master_ok (loop_test i s2)"
  proof (rule loop_test_master)
    show "threads s2 \<noteq> []" using assms(4) by (auto simp: s2_def s1_def notify_master_def)
    assume "i \<noteq> 0" "threads s2 ! 0 = Waiting False"
    then show "queue s2 = [] \<and> nTodo s2 > 0"
      using assms(3,4) by (auto simp: s2_def s1_def notify_master_def master_ok_def split: if_splits)
  qed
  ultimately show ?thesis using l loop_test_counts loop_test_results by metis
qed

lemma wake_up_inv:
  assumes "counts_ok s" "results_ok run s" "master_ok s" "i < length (threads s)" "threads s ! i = Waiting b"
  shows "counts_ok (wake_up i s) \<and> results_ok run (wake_up i s) \<and> master_ok (wake_up i s)"
proof -
  have w: "same_work (threads s ! i) (Waiting True)" using assms(5) by (simp add: same_work_def)
  have "0 < nIdle s"
  proof -
    have "waits (threads s ! i) \<in> set (map waits (threads s))" using assms(4) by simp
    then show ?thesis using assms(1,5) member_le_sum_list by (fastforce simp: counts_ok_def)
  qed
  then have "as_waiting i (s\<lparr>nIdle := nIdle s - 1\<rparr>) = s\<lparr>threads := (threads s)[i := Waiting True]\<rparr>"
    by (simp add: as_waiting_def put_thread_def)
  then have "counts_ok (as_waiting i (s\<lparr>nIdle := nIdle s - 1\<rparr>))" "results_ok run (as_waiting i (s\<lparr>nIdle := nIdle s - 1\<rparr>))"
    using assms(1,2) same_work_inv [OF same_work_upd [OF assms(4) w]] by simp_all
  moreover have "master_ok (loop_test i (s\<lparr>nIdle := nIdle s - 1\<rparr>))"
    using assms(3) by (intro loop_test_master) (auto simp: master_ok_def)
  ultimately show ?thesis
    using loop_test_counts [of i "s\<lparr>nIdle := nIdle s - 1\<rparr>"] loop_test_results [of i "s\<lparr>nIdle := nIdle s - 1\<rparr>" run] assms(4) by (simp add: wake_up_def)
qed

lemma work_inv:
  assumes "counts_ok s" "results_ok run s" "i < length (threads s)" "threads s ! i = Working n b cs"
  shows "counts_ok (put_thread i (work run n b cs) s) \<and> results_ok run (put_thread i (work run n b cs) s)"
proof -
  let ?t = "work run n b cs"
  obtain R where R: "\<And>x. set ((threads s)[i := x]) = insert x R" "set (threads s) = insert (Working n b cs) R"
    using others [OF assms(3)] assms(4) by metis
  note su = sum_upd [OF assms(3), of _ ?t, unfolded assms(4)]
  have t: "load ?t = n" "inside ?t = 1" "waits ?t = 0" "thread_ok ?t" using assms(1) R(2) by (cases cs; simp add: counts_ok_def)+
  have "counts_ok (put_thread i ?t s)"
    using assms(1) su [of load] su [of inside] su [of waits] t by (simp add: counts_ok_def put_thread_def R)
  moreover have "results_ok run (put_thread i ?t s)"
  proof (cases cs)
    case Nil
    then show ?thesis using assms(2) by (auto simp: results_ok_def put_thread_def R)
  next
    case (Cons c cs')
    then show ?thesis using assms(2) by (cases b; cases "run c") (auto simp: results_ok_def put_thread_def R)
  qed
  ultimately show ?thesis by simp
qed

lemma enter_inv:
  assumes "counts_ok s" "results_ok run s" "i < length (threads s)" "threads s ! i = Outside"
  shows "counts_ok (put_thread i (AtLock 0 True) s) \<and> results_ok run (put_thread i (AtLock 0 True) s)"
  using assms(1,2) same_work_inv [OF same_work_upd [OF assms(3), of "AtLock 0 True"]] assms(4) by (simp add: put_thread_def same_work_def)

lemma Add_inv:
  assumes "counts_ok s" "results_ok run s" "master_ok s" "threads s ! 0 = Outside" "j < length (threads s)"
  shows "counts_ok (Add cs j s) \<and> results_ok run (Add cs j s) \<and> master_ok (Add cs j s)"
proof -
  let ?s = "s\<lparr>queue := queue s @ cs, nTodo := nTodo s + length cs, added := added s @ cs\<rparr>"
  have s: "counts_ok ?s" "results_ok run ?s" using assms(1,2) by (simp add: counts_ok_def, auto simp: results_ok_def)
  obtain ts where ts: "Add cs j s = ?s\<lparr>threads := ts\<rparr>" "list_all2 same_work (threads s) ts" "ts \<noteq> []" "ts ! 0 = Outside"
  proof -
    consider (one) "length cs = 1" "j \<noteq> 0" | (all) "length cs > 1" | (none) "\<not> (length cs = 1 \<and> j \<noteq> 0)" "\<not> length cs > 1" by blast
    then show ?thesis
    proof cases
      case one
      then show ?thesis using assms(3-5)
        by (intro that [of "(threads s)[j := notify (threads s ! j)]"]) (auto simp: Add_def Let_def master_ok_def same_work_def intro!: same_work_upd)
    next
      case all
      obtain t us where t: "threads s = t # us" using assms(5) by (cases "threads s") auto
      have "list_all2 same_work us (map notify us)" by (simp add: list_all2_conv_all_nth same_work_def)
      then show ?thesis using all t assms(4)
        by (intro that [of "t # map notify us"]) (auto simp: Add_def Let_def same_work_def)
    next
      case none
      then show ?thesis using assms(3,4) by (intro that [of "threads s"]) (auto simp: Add_def Let_def same_work_refl master_ok_def)
    qed
  qed
  have "list_all2 same_work (threads ?s) ts" using ts(2) by simp
  then show ?thesis using same_work_inv [of ?s ts] s ts(1,3,4) by (simp add: master_ok_def)
qed

lemma queue_step_inv:
  assumes "queue_step run s s'" "counts_ok s" "results_ok run s" "master_ok s"
  shows "counts_ok s' \<and> results_ok run s' \<and> master_ok s'"
  using assms
proof (cases rule: queue_step.cases)
  case (enter i)
  moreover have "master_ok (put_thread i (AtLock 0 True) s)"
    using assms(4) enter by (cases "i = 0") (auto simp: master_ok_def put_thread_def)
  ultimately show ?thesis using enter_inv assms by metis
next
  case (lock i n b)
  then show ?thesis using lock_section_inv assms by metis
next
  case (wake i b)
  then show ?thesis using wake_up_inv assms by metis
next
  case (work i n b cs)
  moreover have "work run n b cs \<noteq> Waiting False" by (cases cs) simp_all
  then have "master_ok (put_thread i (work run n b cs) s)"
    using assms(4) work by (cases "i = 0") (auto simp: master_ok_def put_thread_def)
  ultimately show ?thesis using work_inv assms by metis
next
  case (add j cs)
  then show ?thesis using Add_inv assms by metis
qed

lemma queue_reachable_inv: "queue_reachable run s \<Longrightarrow> counts_ok s \<and> results_ok run s \<and> master_ok s"
proof (induction rule: queue_reachable.induct)
  case (start batch n)
  show ?case by (simp add: CCheckQueue_new_def counts_ok_def results_ok_def master_ok_def sum_list_triv)
next
  case (next_step s s')
  then show ?case using queue_step_inv by metis
qed

section \<open>An example\<close>

text \<open>One worker and a failing check; the master does the work.\<close>

definition example_added :: "nat CCheckQueue" where
  "example_added = Add [0] 1 (CCheckQueue_new 128 1)"

definition example_entered :: "nat CCheckQueue" where
  "example_entered = put_thread 0 (AtLock 0 True) example_added"

definition example_done :: "nat CCheckQueue" where
  "example_done = lock_section 0 1 False (put_thread 0 (AtLock 1 False) (put_thread 0 (Working 1 False []) (lock_section 0 0 True example_entered)))"

abbreviation example_check :: "nat \<Rightarrow> bool" where
  "example_check c \<equiv> c > 0"

lemma example_entered_reachable: "queue_reachable example_check example_entered" "threads example_entered ! 0 = AtLock 0 True"
proof -
  have "queue_step example_check (CCheckQueue_new 128 1) example_added" unfolding example_added_def
    by (rule queue_step.add) (simp_all add: CCheckQueue_new_def)
  moreover have "queue_step example_check example_added example_entered" unfolding example_entered_def
    by (rule queue_step.enter) (simp_all add: example_added_def Add_def CCheckQueue_new_def Let_def)
  ultimately show "queue_reachable example_check example_entered"
    by (metis queue_reachable.start queue_reachable.next_step)
  show "threads example_entered ! 0 = AtLock 0 True"
    by (simp add: example_entered_def example_added_def Add_def CCheckQueue_new_def put_thread_def Let_def)
qed

lemma example_done_reachable: "queue_reachable example_check example_done" "result example_done = Some (False, [0])" "added example_done = []"
proof -
  note defs = example_entered_def example_added_def Add_def CCheckQueue_new_def put_thread_def lock_section_def loop_test_def take_batch_def
    leave_loop_def Let_def
  define s1 where "s1 = lock_section 0 0 True example_entered"
  define s2 where "s2 = put_thread 0 (Working 1 False []) s1"
  define s3 where "s3 = put_thread 0 (AtLock 1 False) s2"
  have s1: "queue_step example_check example_entered s1" "threads s1 ! 0 = Working 1 True [0]" "length (threads s1) = 2"
    using queue_step.lock [of 0 example_entered 0 True example_check] example_entered_reachable(2)
    by (auto simp: s1_def defs)
  have s2: "queue_step example_check s1 s2" using queue_step.work [of 0 s1 1 True "[0]" example_check] s1 by (simp add: s2_def)
  have t2: "threads s2 ! 0 = Working 1 False []" "length (threads s2) = 2" using s1(3) by (auto simp: s2_def put_thread_def)
  have s3: "queue_step example_check s2 s3" using queue_step.work [of 0 s2 1 False "[]" example_check] t2 by (simp add: s3_def)
  have t3: "threads s3 ! 0 = AtLock 1 False" "length (threads s3) = 2" using t2(2) by (auto simp: s3_def put_thread_def)
  have "0 < length (threads s3)" using t3(2) by simp
  from queue_step.lock [OF this t3(1), of example_check] have "queue_step example_check s3 example_done"
    by (simp only: example_done_def s1_def s2_def s3_def)
  with s1(1) s2 s3 show "queue_reachable example_check example_done" by (metis example_entered_reachable(1) queue_reachable.next_step)
  show "result example_done = Some (False, [0])" "added example_done = []" by (simp_all add: example_done_def defs)
qed

section \<open>Properties\<close>

text \<open>
  C9: However the threads interleave, a value that the master got from waiting is true exactly when all checks passed that
  had been added since it last waited.
\<close>

theorem wait_result: "queue_reachable run s \<Longrightarrow> result s = Some (b, checks) \<Longrightarrow> b = (\<forall>c\<in>set checks. run c)"
  using queue_reachable_inv by (fastforce simp: results_ok_def list_all_iff)

theorem wait_result_witness: "\<exists>b. queue_reachable example_check example_done \<and> result example_done = Some (b, [0]) \<and> b = (\<forall>c\<in>set [0]. example_check c)"
  using wait_result [OF example_done_reachable(1,2)] example_done_reachable by auto

text \<open>
  While the master waits for the result, some thread can go on without a spurious wake-up: it is at the lock, at work or has
  been notified. No wake-up is lost.
\<close>

lemma wait_not_stuck:
  assumes "queue_reachable run s" "threads s ! 0 \<noteq> Outside"
  shows "\<exists>t\<in>set (threads s). t \<noteq> Outside \<and> t \<noteq> Waiting False"
proof (cases "threads s ! 0 = Waiting False")
  case True
  note inv = queue_reachable_inv [OF assms(1)]
  then have "0 < sum_list (map load (threads s))" using True by (auto simp: master_ok_def counts_ok_def)
  then obtain t where "t \<in> set (threads s)" "load t \<noteq> 0" by (metis (no_types, lifting) image_iff list.set_map not_less_zero sum_list_eq_0_iff)
  then show ?thesis by (intro bexI [of _ t]) auto
next
  case False
  moreover have "threads s ! 0 \<in> set (threads s)" using queue_reachable_inv [OF assms(1)] by (simp add: master_ok_def)
  ultimately show ?thesis using assms(2) by blast
qed

text \<open>A step of a thread that is inside the loop, other than a spurious wake-up.\<close>

inductive progress :: "('c \<Rightarrow> bool) \<Rightarrow> 'c CCheckQueue \<Rightarrow> 'c CCheckQueue \<Rightarrow> bool" for run where
  progress_lock: "i < length (threads s) \<Longrightarrow> threads s ! i = AtLock n b \<Longrightarrow> progress run s (lock_section i n b s)"
| progress_wake: "i < length (threads s) \<Longrightarrow> threads s ! i = Waiting True \<Longrightarrow> progress run s (wake_up i s)"
| progress_work: "i < length (threads s) \<Longrightarrow> threads s ! i = Working n b cs \<Longrightarrow> progress run s (put_thread i (work run n b cs) s)"

text \<open>What is left to do: a batch costs less than its checks did in the queue.\<close>

fun effort :: "'c thread \<Rightarrow> nat" where
  "effort (AtLock n b) = 2" | "effort (Working n b cs) = 3 + length cs" | "effort (Waiting True) = 1" | "effort t = 0"

definition work_left :: "'c CCheckQueue \<Rightarrow> nat" where
  "work_left s = 4 * length (queue s) + sum_list (map effort (threads s))"

lemma work_left_put:
  "i < length (threads s) \<Longrightarrow> work_left (put_thread i t s) + effort (threads s ! i) = work_left s + effort t"
  using sum_upd [of i "threads s" effort t] by (simp add: work_left_def put_thread_def)

lemma work_left_loop_test:
  assumes "i < length (threads s)"
  shows "work_left (loop_test i s) + effort (threads s ! i) \<le> work_left s"
proof (cases "queue s = []")
  case True
  have idle: "work_left (s\<lparr>nIdle := n\<rparr>) = work_left s" "work_left (s\<lparr>nTotal := n\<rparr>) = work_left s" for n by (simp_all add: work_left_def)
  have "work_left (leave_loop i s) = work_left (put_thread i Outside (s\<lparr>nTotal := nTotal s - 1\<rparr>))"
    by (simp add: leave_loop_def Let_def work_left_def)
  then show ?thesis
    using True assms work_left_put [of i "s\<lparr>nIdle := nIdle s + 1\<rparr>" "Waiting False"] work_left_put [of i "s\<lparr>nTotal := nTotal s - 1\<rparr>" Outside]
    by (auto simp: loop_test_def idle)
next
  case False
  define n where "n = max 1 (min (nBatchSize s) (length (queue s) div (nTotal s + nIdle s + 1)))"
  define q where "q = take (length (queue s) - n) (queue s)"
  define t where "t = Working n (fAllOk s) (rev (drop (length (queue s) - n) (queue s)))"
  have n: "0 < n" "n \<le> length (queue s)" using batch_bounds [OF False] by (simp_all add: n_def)
  have "loop_test i s = put_thread i t (s\<lparr>queue := q\<rparr>)" using False by (simp add: loop_test_def take_batch_def Let_def n_def q_def t_def)
  moreover have "effort t = 3 + n" "length q = length (queue s) - n" using n(2) by (simp_all add: t_def q_def)
  moreover have "work_left (s\<lparr>queue := q\<rparr>) + 4 * length (queue s) = work_left s + 4 * length q" by (simp add: work_left_def)
  ultimately show ?thesis using work_left_put [of i "s\<lparr>queue := q\<rparr>" t] assms n by simp
qed

lemma effort_notify: "effort (notify t) \<le> effort t + 1"
  by (cases t rule: effort.cases) simp_all

lemma work_left_notify:
  assumes "threads s \<noteq> []"
  shows "work_left (notify_master s) \<le> work_left s + 1"
  using sum_upd [of 0 "threads s" effort "notify (threads s ! 0)"] effort_notify [of "threads s ! 0"] assms
  by (simp add: work_left_def notify_master_def)

lemma progress_work_left: "progress run s s' \<Longrightarrow> work_left s' < work_left s"
proof (induction rule: progress.induct)
  case (progress_lock i s n b)
  define s1 where "s1 = (if n \<noteq> 0 then let s = s\<lparr>fAllOk := (fAllOk s \<and> b), nTodo := nTodo s - n\<rparr>
                in if nTodo s = 0 \<and> i \<noteq> 0 then notify_master s else s
              else s\<lparr>nTotal := nTotal s + 1\<rparr>)"
  have t: "threads s1 ! i = AtLock n b" "i < length (threads s1)" using progress_lock by (auto simp: s1_def notify_master_def Let_def)
  have s: "threads s \<noteq> []" using progress_lock(1) by auto
  have "work_left s1 \<le> work_left s + 1"
    using work_left_notify [of "s\<lparr>fAllOk := (fAllOk s \<and> b), nTodo := nTodo s - n\<rparr>"] s by (auto simp: s1_def work_left_def Let_def)
  moreover have "lock_section i n b s = loop_test i s1" by (simp add: lock_section_def s1_def Let_def)
  ultimately show ?case using work_left_loop_test [OF t(2)] t(1) by simp
next
  case (progress_wake i s)
  have "work_left (s\<lparr>nIdle := nIdle s - 1\<rparr>) = work_left s" by (simp add: work_left_def)
  then show ?case using work_left_loop_test [of i "s\<lparr>nIdle := nIdle s - 1\<rparr>"] progress_wake by (simp add: wake_up_def)
next
  case (progress_work i s n b cs)
  then show ?case using work_left_put [OF progress_work(1), of "work run n b cs"] by (cases cs) simp_all
qed

lemma progress_possible:
  assumes "t \<in> set (threads s)" "t \<noteq> Outside" "t \<noteq> Waiting False"
  shows "\<exists>s'. progress run s s'"
proof -
  obtain i where i: "i < length (threads s)" "threads s ! i = t" using assms(1) by (auto simp: in_set_conv_nth)
  show ?thesis
  proof (cases t)
    case (Waiting b)
    then show ?thesis using progress_wake [OF i(1)] i(2) assms(3) by (cases b) auto
  qed (use progress_lock [OF i(1)] progress_work [OF i(1)] i(2) assms(2) in auto)
qed

text \<open>
  C10: Waiting for the queue terminates. The threads that are inside the loop cannot go on for ever without new checks and spurious
  wake-ups, whatever the order in which they run, and when none of them can go on, the master has returned.
\<close>

theorem wait_terminates:
  "wfP (\<lambda>s' s. progress run s s') \<and> (\<forall>s. queue_reachable run s \<and> (\<forall>s'. \<not> progress run s s') \<longrightarrow> threads s ! 0 = Outside)"
proof
  show "wfP (\<lambda>s' s. progress run s s')" by (rule wfp_if_convertible_to_nat [of _ work_left]) (rule progress_work_left)
  show "\<forall>s. queue_reachable run s \<and> (\<forall>s'. \<not> progress run s s') \<longrightarrow> threads s ! 0 = Outside"
    using wait_not_stuck progress_possible by metis
qed

theorem wait_terminates_witness: "queue_reachable example_check example_done \<and> threads example_done ! 0 = Outside"
proof -
  have "threads example_done = [Outside, Outside]"
    by (simp add: example_done_def example_entered_def example_added_def Add_def CCheckQueue_new_def put_thread_def lock_section_def loop_test_def
        take_batch_def leave_loop_def Let_def numeral_2_eq_2)
  then have "\<not> progress example_check example_done s'" for s' by (auto elim!: progress.cases simp: less_Suc_eq)
  then show ?thesis using wait_terminates [of example_check] example_done_reachable(1) by blast
qed

text \<open>
  When the master has returned from waiting and has not added checks since, the queue is idle, whatever the workers
  are about to do: the assertion at the start of the next block cannot fail.
\<close>

theorem queue_idle_again:
  assumes "queue_reachable run s" "added s = []"
  shows "IsIdle s"
proof -
  note inv = queue_reachable_inv [OF assms(1)]
  then have ok: "fAllOk s" "nTodo s = 0" using assms(2) by (auto simp: results_ok_def counts_ok_def)
  then have "\<forall>t\<in>set (threads s). load t = 0 \<and> thread_ok t" using inv by (auto simp: counts_ok_def sum_list_eq_0_iff)
  moreover have "inside t = waits t" if "load t = 0" "thread_ok t" for t :: "'a thread" using that by (cases t) auto
  ultimately have "map inside (threads s) = map waits (threads s)" by auto
  then have "sum_list (map inside (threads s)) = sum_list (map waits (threads s))" by (rule arg_cong)
  then show ?thesis using inv ok by (simp add: IsIdle_def counts_ok_def)
qed

theorem queue_idle_again_witness: "IsIdle example_done"
  by (rule queue_idle_again [OF example_done_reachable(1,3)])

end
