(* ===== verification/Merkle.thy ===== *)
theory Merkle
  imports Prelude
begin

text \<open>
  The Merkle tree of a block (\<^verbatim>\<open>BuildMerkleTree\<close>, \<^verbatim>\<open>GetMerkleBranch\<close> and \<^verbatim>\<open>CheckMerkleBranch\<close> of \<^verbatim>\<open>primitives/block.cpp\<close>). The hash of
  two concatenated hashes is the function \<open>H\<close>. The theory gives the levels of the tree, shows that the branch of a transaction leads
  to the root, and that a root which is not flagged as mutated belongs to one list of transactions only.
\<close>

section \<open>The tree in a vector\<close>

text \<open>One level: \<open>nSize\<close> hashes from index \<open>j\<close> are combined in pairs; the last of an odd number is paired with itself.\<close>

function level_loop :: "(u256 \<Rightarrow> u256 \<Rightarrow> u256) \<Rightarrow> nat \<Rightarrow> nat \<Rightarrow> nat \<Rightarrow> u256 list \<Rightarrow> bool \<Rightarrow> u256 list \<times> bool" where
  "level_loop H j nSize i tree mutated =
    (if i < nSize then
       let i2 = min (i + 1) (nSize - 1);
           mutated = (if i2 = i + 1 \<and> i2 + 1 = nSize \<and> tree ! (j + i) = tree ! (j + i2) then True else mutated)
       in level_loop H j nSize (i + 2) (tree @ [H (tree ! (j + i)) (tree ! (j + i2))]) mutated
     else (tree, mutated))"
  by auto
termination by (relation "measure (\<lambda>(H, j, nSize, i, tree, mutated). nSize - i)") auto

function build_loop :: "(u256 \<Rightarrow> u256 \<Rightarrow> u256) \<Rightarrow> nat \<Rightarrow> nat \<Rightarrow> u256 list \<Rightarrow> bool \<Rightarrow> u256 list \<times> bool" where
  "build_loop H j nSize tree mutated =
    (if nSize > 1 then
       let (tree, mutated) = level_loop H j nSize 0 tree mutated
       in build_loop H (j + nSize) ((nSize + 1) div 2) tree mutated
     else (tree, mutated))"
  by auto
termination by (relation "measure (\<lambda>(H, j, nSize, tree, mutated). nSize)") auto

declare level_loop.simps [simp del] build_loop.simps [simp del]

text \<open>The root, whether a mutation was found, and the vector that is kept in the block.\<close>

definition BuildMerkleTree :: "(u256 \<Rightarrow> u256 \<Rightarrow> u256) \<Rightarrow> u256 list \<Rightarrow> u256 \<times> bool \<times> u256 list" where
  "BuildMerkleTree H vtx =
    (let (vMerkleTree, mutated) = build_loop H 0 (length vtx) vtx False
     in (if vMerkleTree = [] then 0 else last vMerkleTree, mutated, vMerkleTree))"

function branch_loop :: "u256 list \<Rightarrow> nat \<Rightarrow> nat \<Rightarrow> nat \<Rightarrow> u256 list" where
  "branch_loop tree j nSize nIndex =
    (if nSize > 1 then tree ! (j + min (nIndex XOR 1) (nSize - 1)) # branch_loop tree (j + nSize) ((nSize + 1) div 2) (drop_bit 1 nIndex) else [])"
  by auto
termination by (relation "measure (\<lambda>(tree, j, nSize, nIndex). nSize)") auto

declare branch_loop.simps [simp del]

definition GetMerkleBranch :: "(u256 \<Rightarrow> u256 \<Rightarrow> u256) \<Rightarrow> u256 list \<Rightarrow> u256 list \<Rightarrow> nat \<Rightarrow> u256 list" where
  "GetMerkleBranch H vtx vMerkleTree nIndex =
    branch_loop (if vMerkleTree = [] then snd (snd (BuildMerkleTree H vtx)) else vMerkleTree) 0 (length vtx) nIndex"

fun check_branch_loop :: "(u256 \<Rightarrow> u256 \<Rightarrow> u256) \<Rightarrow> u256 \<Rightarrow> u256 list \<Rightarrow> int \<Rightarrow> u256" where
  "check_branch_loop H hash [] nIndex = hash"
| "check_branch_loop H hash (it # branch) nIndex =
    check_branch_loop H (if nIndex AND 1 \<noteq> 0 then H it hash else H hash it) branch (drop_bit 1 nIndex)"

definition CheckMerkleBranch :: "(u256 \<Rightarrow> u256 \<Rightarrow> u256) \<Rightarrow> u256 \<Rightarrow> u256 list \<Rightarrow> int \<Rightarrow> u256" where
  "CheckMerkleBranch H hash vMerkleBranch nIndex = (if nIndex = -1 then 0 else check_branch_loop H hash vMerkleBranch nIndex)"

section \<open>Levels\<close>

fun next_level :: "(u256 \<Rightarrow> u256 \<Rightarrow> u256) \<Rightarrow> u256 list \<Rightarrow> u256 list" where
  "next_level H [] = []"
| "next_level H [a] = [H a a]"
| "next_level H (a # b # xs) = H a b # next_level H xs"

text \<open>Two identical hashes at the end of a level.\<close>

fun twins :: "u256 list \<Rightarrow> bool" where
  "twins [] = False"
| "twins [a] = False"
| "twins [a, b] = (a = b)"
| "twins (a # b # xs) = twins xs"

lemma length_next_level [simp]: "length (next_level H xs) = (length xs + 1) div 2"
  by (induction H xs rule: next_level.induct) auto

function levels :: "(u256 \<Rightarrow> u256 \<Rightarrow> u256) \<Rightarrow> u256 list \<Rightarrow> u256 list list" where
  "levels H xs = (if length xs > 1 then xs # levels H (next_level H xs) else [xs])"
  by auto
termination by (relation "measure (\<lambda>(H, xs). length xs)") auto

declare levels.simps [simp del]

lemma levels_more: "length xs > 1 \<Longrightarrow> levels H xs = xs # levels H (next_level H xs)"
  by (subst levels.simps) simp

lemma levels_one: "\<not> length xs > 1 \<Longrightarrow> levels H xs = [xs]"
  by (subst levels.simps) simp

lemma levels_not_Nil [simp]: "levels H xs \<noteq> []"
  by (subst levels.simps) simp

lemma level_loop_stop: "\<not> i < n \<Longrightarrow> level_loop H j n i tree m = (tree, m)"
  by (subst level_loop.simps) simp

lemma next_level_not_Nil [simp]: "next_level H xs = [] \<longleftrightarrow> xs = []"
  by (cases xs rule: twins.cases) auto

lemma level_loop_eq:
  "n = i + length ys \<Longrightarrow> j + n \<le> length tree \<Longrightarrow> (\<And>k. k < length ys \<Longrightarrow> tree ! (j + i + k) = ys ! k) \<Longrightarrow>
   level_loop H j n i tree m = (tree @ next_level H ys, m \<or> twins ys)"
proof (induction H ys arbitrary: i tree m rule: next_level.induct)
  case (1 H)
  then show ?case by (subst level_loop.simps) simp
next
  case (2 H a)
  then have "tree ! (j + i) = a" using "2.prems"(3) [of 0] by simp
  then show ?case using "2.prems"(1) by (subst level_loop.simps) (simp add: level_loop_stop)
next
  case (3 H a b xs)
  have ab: "tree ! (j + i) = a" "tree ! (j + (i + 1)) = b" using "3.prems"(3) [of 0] "3.prems"(3) [of 1] by (simp_all add: add.assoc)
  have n: "n = i + 2 + length xs" using "3.prems"(1) by simp
  define tr where "tr = tree @ [H a b]"
  have tr: "tr ! (j + (i + 2) + k) = xs ! k" if "k < length xs" for k
    using "3.prems"(2) "3.prems"(3) [of "k + 2"] that n by (simp add: tr_def nth_append add.assoc)
  have l: "j + n \<le> length tr" using "3.prems"(2) by (simp add: tr_def)
  have "level_loop H j n i tree m = level_loop H j n (i + 2) tr (m \<or> (i + 2 = n \<and> a = b))"
    using ab n by (subst level_loop.simps) (auto simp: Let_def tr_def min_def)
  also have "\<dots> = (tr @ next_level H xs, (m \<or> (i + 2 = n \<and> a = b)) \<or> twins xs)"
    by (rule "3.IH" [OF n l tr])
  finally show ?case using n by (cases xs) (auto simp: tr_def)
qed

lemma build_loop_eq:
  "length pre = j \<Longrightarrow>
   build_loop H j (length xs) (pre @ xs) m = (pre @ concat (levels H xs), m \<or> (\<exists>l\<in>set (levels H xs). twins l))"
proof (induction "length xs" arbitrary: xs pre j m rule: less_induct)
  case less
  show ?case
  proof (cases "length xs > 1")
    case True
    have *: "level_loop H j (length xs) 0 (pre @ xs) m = ((pre @ xs) @ next_level H xs, m \<or> twins xs)"
      using less.prems by (intro level_loop_eq) (auto simp: nth_append)
    have "length (next_level H xs) < length xs" using True by simp
    note IH = less.hyps [OF this, of "pre @ xs" "j + length xs" "m \<or> twins xs"]
    show ?thesis using True IH less.prems by (subst build_loop.simps) (auto simp: * levels_more)
  next
    case False
    then have "\<not> twins xs" by (cases xs rule: twins.cases) auto
    then show ?thesis using False by (subst build_loop.simps) (simp add: levels_one)
  qed
qed

definition merkle_root :: "(u256 \<Rightarrow> u256 \<Rightarrow> u256) \<Rightarrow> u256 list \<Rightarrow> u256" where
  "merkle_root H xs = (if xs = [] then 0 else hd (last (levels H xs)))"

lemma last_level: "xs \<noteq> [] \<Longrightarrow> \<exists>r. last (levels H xs) = [r]"
proof (induction H xs rule: levels.induct)
  case (1 H xs)
  show ?case
  proof (cases "length xs > 1")
    case True
    then show ?thesis using 1 by (simp add: levels_more)
  next
    case False
    then show ?thesis using 1 by (cases xs) (auto simp: levels_one)
  qed
qed

lemma merkle_root_more: "length xs > 1 \<Longrightarrow> merkle_root H xs = merkle_root H (next_level H xs)"
  by (auto simp: merkle_root_def levels_more)

lemma BuildMerkleTree_eq:
  "BuildMerkleTree H xs = (merkle_root H xs, \<exists>l\<in>set (levels H xs). twins l, concat (levels H xs))"
proof -
  have b: "build_loop H 0 (length xs) xs False = (concat (levels H xs), \<exists>l\<in>set (levels H xs). twins l)"
    using build_loop_eq [of "[]" 0 H xs False] by simp
  show ?thesis
  proof (cases "xs = []")
    case True
    then show ?thesis using b by (simp add: BuildMerkleTree_def merkle_root_def levels_one)
  next
    case False
    then obtain r where r: "last (levels H xs) = [r]" using last_level by blast
    then have "concat (levels H xs) = concat (butlast (levels H xs)) @ [r]" by (metis append_butlast_last_id concat_append concat.simps levels_not_Nil append_Nil2)
    then show ?thesis using b r False by (simp add: BuildMerkleTree_def merkle_root_def)
  qed
qed

lemma next_level_nth:
  "k < (length xs + 1) div 2 \<Longrightarrow> next_level H xs ! k = H (xs ! (2 * k)) (xs ! min (2 * k + 1) (length xs - 1))"
proof (induction H xs arbitrary: k rule: next_level.induct)
  case (3 H a b xs)
  show ?case
  proof (cases k)
    case (Suc m)
    then have m: "m < (length xs + 1) div 2" using 3 by simp
    then have "2 * m < length xs" by linarith
    then have "min (2 * k + 1) (length (a # b # xs) - 1) = Suc (Suc (min (2 * m + 1) (length xs - 1)))" using Suc by auto
    then show ?thesis using "3.IH" [OF m] Suc by simp
  qed simp
qed simp_all

section \<open>Branches\<close>

function branch :: "(u256 \<Rightarrow> u256 \<Rightarrow> u256) \<Rightarrow> u256 list \<Rightarrow> nat \<Rightarrow> u256 list" where
  "branch H xs n =
    (if length xs > 1 then xs ! min (if even n then n + 1 else n - 1) (length xs - 1) # branch H (next_level H xs) (n div 2) else [])"
  by auto
termination by (relation "measure (\<lambda>(H, xs, n). length xs)") auto

declare branch.simps [simp del]

lemma xor_one_nat: "n XOR Suc 0 = (if even n then n + 1 else n - 1)" for n :: nat
  by (subst xor_rec) (auto elim!: evenE oddE)

lemma branch_loop_eq:
  "length pre = j \<Longrightarrow> branch_loop (pre @ concat (levels H xs)) j (length xs) n = branch H xs n"
proof (induction "length xs" arbitrary: xs pre j n rule: less_induct)
  case less
  show ?case
  proof (cases "length xs > 1")
    case True
    have "length (next_level H xs) < length xs" using True by simp
    note IH = less.hyps [OF this, of "pre @ xs" "j + length xs" "n div 2"]
    have k: "min (n XOR 1) (length xs - 1) < length xs" using True by auto
    then have "(pre @ concat (levels H xs)) ! (j + min (n XOR 1) (length xs - 1)) = xs ! min (n XOR 1) (length xs - 1)"
      using True less.prems by (simp add: levels_more nth_append)
    then show ?thesis using True IH less.prems
      by (subst branch_loop.simps, subst branch.simps) (simp add: levels_more drop_bit_Suc xor_one_nat)
  next
    case False
    then show ?thesis by (subst branch_loop.simps, subst branch.simps) simp
  qed
qed

lemma check_branch_root: "n < length xs \<Longrightarrow> check_branch_loop H (xs ! n) (branch H xs n) (int n) = merkle_root H xs"
proof (induction H xs n rule: branch.induct)
  case (1 H xs n)
  show ?case
  proof (cases "length xs > 1")
    case True
    let ?s = "xs ! min (if even n then n + 1 else n - 1) (length xs - 1)"
    have k: "n div 2 < (length xs + 1) div 2" using 1(2) by simp
    have "int n AND 1 \<noteq> 0 \<longleftrightarrow> odd n" unfolding and_one_eq by presburger
    then have "(if int n AND 1 \<noteq> 0 then H ?s (xs ! n) else H (xs ! n) ?s) = next_level H xs ! (n div 2)"
      using next_level_nth [OF k, of H] 1(2) by (cases "even n") (auto simp: min_def elim!: evenE oddE)
    moreover have "drop_bit 1 (int n) = int (n div 2)" by (simp add: drop_bit_Suc zdiv_int)
    moreover have "branch H xs n = ?s # branch H (next_level H xs) (n div 2)" using True by (subst branch.simps) simp
    ultimately have "check_branch_loop H (xs ! n) (branch H xs n) (int n) =
        check_branch_loop H (next_level H xs ! (n div 2)) (branch H (next_level H xs) (n div 2)) (int (n div 2))"
      by (simp only: check_branch_loop.simps)
    then show ?thesis using 1(1) [OF True] k True by (simp add: merkle_root_more)
  next
    case False
    then show ?thesis using 1(2) by (subst branch.simps) (cases xs; simp add: merkle_root_def levels_one)
  qed
qed

section \<open>What a root commits to\<close>

fun pairs :: "u256 list \<Rightarrow> (u256 \<times> u256) list" where
  "pairs [] = []"
| "pairs [a] = [(a, a)]"
| "pairs (a # b # xs) = (a, b) # pairs xs"

text \<open>The pairs that are hashed for a tree.\<close>

definition hashed :: "(u256 \<Rightarrow> u256 \<Rightarrow> u256) \<Rightarrow> u256 list \<Rightarrow> (u256 \<times> u256) set" where
  "hashed H xs = (\<Union>l\<in>set (butlast (levels H xs)). set (pairs l))"

lemma next_level_pairs: "next_level H xs = map (case_prod H) (pairs xs)"
  by (induction H xs rule: next_level.induct) auto

lemma pairs_Nil [simp]: "pairs xs = [] \<longleftrightarrow> xs = []" "[] = pairs xs \<longleftrightarrow> xs = []"
  by (cases xs rule: pairs.cases; simp)+

lemma pairs_inj: "pairs xs = pairs ys \<Longrightarrow> \<not> twins xs \<Longrightarrow> \<not> twins ys \<Longrightarrow> xs = ys"
proof (induction xs arbitrary: ys rule: twins.induct)
  case (2 a)
  then show ?case by (cases ys rule: twins.cases) auto
next
  case (3 a b)
  then show ?case by (cases ys rule: twins.cases) auto
next
  case (4 a b c xs)
  then show ?case by (cases ys rule: twins.cases) auto
qed simp

lemma hashed_more: "length xs > 1 \<Longrightarrow> hashed H xs = set (pairs xs) \<union> hashed H (next_level H xs)"
  by (simp add: hashed_def levels_more)

lemma root_binds:
  assumes "inj_on (case_prod H) (hashed H xs \<union> hashed H ys)" "length (levels H xs) = length (levels H ys)" "xs \<noteq> []" "ys \<noteq> []"
    "merkle_root H xs = merkle_root H ys" "\<forall>l\<in>set (levels H xs). \<not> twins l" "\<forall>l\<in>set (levels H ys). \<not> twins l"
  shows "xs = ys"
  using assms
proof (induction H xs arbitrary: ys rule: levels.induct)
  case (1 H xs)
  show ?case
  proof (cases "length xs > 1")
    case True
    then have ly: "length ys > 1" using 1(3) by (cases "length ys > 1") (auto simp: levels_more levels_one)
    let ?x = "next_level H xs" and ?y = "next_level H ys"
    have "?x = ?y"
    proof (rule "1.IH" [OF True])
      show "inj_on (case_prod H) (hashed H ?x \<union> hashed H ?y)"
        using True ly by (intro inj_on_subset [OF 1(2)]) (auto simp: hashed_more)
    qed (use 1 True ly in \<open>auto simp: levels_more merkle_root_more\<close>)
    then have m: "map (case_prod H) (pairs xs) = map (case_prod H) (pairs ys)" by (simp add: next_level_pairs)
    have "inj_on (case_prod H) (set (pairs xs) \<union> set (pairs ys))"
      using True ly by (intro inj_on_subset [OF 1(2)]) (auto simp: hashed_more)
    with m have "pairs xs = pairs ys" by (rule map_inj_on)
    then show ?thesis using 1(7,8) True ly by (intro pairs_inj) (simp_all add: levels_more)
  next
    case False
    then have "\<not> length ys > 1" using 1(3) by (cases "length ys > 1") (auto simp: levels_more levels_one)
    then show ?thesis using False 1(4-6) by (cases xs; cases ys) (auto simp: merkle_root_def levels_one)
  qed
qed

section \<open>Properties\<close>

text \<open>
  The branch that is given out for a transaction of a block leads from its hash to the Merkle root of the block.
\<close>

theorem merkle_branch:
  assumes "n < length vtx"
  shows "CheckMerkleBranch H (vtx ! n) (GetMerkleBranch H vtx [] n) (int n) = fst (BuildMerkleTree H vtx)"
  using check_branch_root [OF assms, of H] branch_loop_eq [of "[]" 0 H vtx n]
  by (simp add: CheckMerkleBranch_def GetMerkleBranch_def BuildMerkleTree_eq)

theorem merkle_branch_witness:
  "CheckMerkleBranch (\<lambda>a b. 3 * a + b) 7 (GetMerkleBranch (\<lambda>a b. 3 * a + b) [5, 6, 7] [] 2) 2 = fst (BuildMerkleTree (\<lambda>a b. 3 * a + b) [5, 6, 7])"
  using merkle_branch [of 2 "[5, 6, 7]" "\<lambda>a b. 3 * a + b"] by simp

text \<open>
  C4: A Merkle root commits to the transactions. Two blocks with trees of the same height and the same root, neither of them flagged as
  mutated, have the same transactions, unless two different pairs that were hashed collide. So of two such lists with the same root, as
  when transactions at the end of a level are duplicated, at least one is flagged.
\<close>

theorem merkle_root_commits:
  assumes "BuildMerkleTree H xs = (root, False, tree1)" "BuildMerkleTree H ys = (root, False, tree2)" "xs \<noteq> []" "ys \<noteq> []"
    and "length (levels H xs) = length (levels H ys)" "inj_on (\<lambda>(a, b). H a b) (hashed H xs \<union> hashed H ys)"
  shows "xs = ys"
  by (rule root_binds [OF assms(6,5,3,4)]) (use assms(1,2) in \<open>auto simp: BuildMerkleTree_eq\<close>)

theorem merkle_root_commits_witness:
  "fst (snd (BuildMerkleTree (\<lambda>a b. 3 * a + b) [5, 6, 7])) = False \<and> fst (snd (BuildMerkleTree (\<lambda>a b. 3 * a + b) [5, 6, 7, 7])) \<and>
   fst (BuildMerkleTree (\<lambda>a b. 3 * a + b) [5, 6, 7]) = fst (BuildMerkleTree (\<lambda>a b. 3 * a + b) [5, 6, 7, 7]) \<and>
   [5, 6, 7] = ([5, 6, 7] :: u256 list)"
proof -
  let ?H = "\<lambda>a b. 3 * a + b :: u256"
  have h: "levels ?H [5, 6, 7] = [[5, 6, 7], [21, 28], [91]]" "levels ?H [5, 6, 7, 7] = [[5, 6, 7, 7], [21, 28], [91]]"
    by (simp_all add: levels_more levels_one)
  then have "inj_on (\<lambda>(a, b). ?H a b) (hashed ?H [5, 6, 7] \<union> hashed ?H [5, 6, 7])" by (auto simp: hashed_def inj_on_def)
  then have "[5, 6, 7] = ([5, 6, 7] :: u256 list)"
    using merkle_root_commits [of ?H "[5, 6, 7]" "merkle_root ?H [5, 6, 7]" _ "[5, 6, 7]"] h by (simp add: BuildMerkleTree_eq)
  moreover have "fst (snd (BuildMerkleTree ?H [5, 6, 7])) = False" "fst (snd (BuildMerkleTree ?H [5, 6, 7, 7]))"
    "fst (BuildMerkleTree ?H [5, 6, 7]) = fst (BuildMerkleTree ?H [5, 6, 7, 7])"
    using h by (simp_all add: BuildMerkleTree_eq merkle_root_def)
  ultimately show ?thesis by blast
qed

end
