(* ===== verification/Merkle_Block.thy ===== *)
theory Merkle_Block
  imports Merkle
begin

text \<open>
  Partial Merkle trees (\<^verbatim>\<open>CPartialMerkleTree\<close> of \<^verbatim>\<open>merkleblock.cpp\<close>), which prove to a client that some transactions are in a block. The theory
  shows that a tree built for a block gives back the chosen transactions with the root of the block, and that whatever is extracted with
  that root is in the block.
\<close>

section \<open>Building\<close>

text \<open>The numbers of transactions are far below the range of the counters, so they are natural numbers here.\<close>

record CPartialMerkleTree =
  nTransactions :: nat
  vBits :: "bool list"
  vHash :: "u256 list"
  fBad :: bool

definition CalcTreeWidth :: "nat \<Rightarrow> nat \<Rightarrow> nat" where
  "CalcTreeWidth n height = (n + 2 ^ height - 1) div 2 ^ height"

lemma width_less: "pos < CalcTreeWidth n h \<longleftrightarrow> pos * 2 ^ h < n"
proof -
  define w :: nat where "w = 2 ^ h"
  have w: "0 < w" by (simp add: w_def)
  have "pos < (n + w - 1) div w \<longleftrightarrow> Suc pos * w \<le> n + w - 1"
    using less_eq_div_iff_mult_less_eq [OF w, of "Suc pos" "n + w - 1"] by (simp add: Suc_le_eq)
  also have "\<dots> \<longleftrightarrow> pos * w < n" using w by (simp, arith)
  finally show ?thesis by (simp add: CalcTreeWidth_def w_def)
qed

fun CalcHash :: "(u256 \<Rightarrow> u256 \<Rightarrow> u256) \<Rightarrow> nat \<Rightarrow> nat \<Rightarrow> nat \<Rightarrow> u256 list \<Rightarrow> u256" where
  "CalcHash H n 0 pos vTxid = vTxid ! pos"
| "CalcHash H n (Suc height) pos vTxid =
    (let left = CalcHash H n height (pos * 2) vTxid;
         right = (if pos * 2 + 1 < CalcTreeWidth n height then CalcHash H n height (pos * 2 + 1) vTxid else left)
     in H left right)"

definition parent_of_match :: "nat \<Rightarrow> bool list \<Rightarrow> nat \<Rightarrow> nat \<Rightarrow> bool" where
  "parent_of_match n match height pos = list_ex (\<lambda>p. match ! p) [pos * 2 ^ height ..< min ((pos + 1) * 2 ^ height) n]"

fun TraverseAndBuild :: "(u256 \<Rightarrow> u256 \<Rightarrow> u256) \<Rightarrow> u256 list \<Rightarrow> bool list \<Rightarrow> nat \<Rightarrow> nat \<Rightarrow> CPartialMerkleTree \<Rightarrow> CPartialMerkleTree" where
  "TraverseAndBuild H vTxid match 0 pos t =
    t\<lparr>vBits := vBits t @ [parent_of_match (nTransactions t) match 0 pos], vHash := vHash t @ [CalcHash H (nTransactions t) 0 pos vTxid]\<rparr>"
| "TraverseAndBuild H vTxid match (Suc height) pos t =
    (let fParentOfMatch = parent_of_match (nTransactions t) match (Suc height) pos;
         t = t\<lparr>vBits := vBits t @ [fParentOfMatch]\<rparr>
     in if \<not> fParentOfMatch then t\<lparr>vHash := vHash t @ [CalcHash H (nTransactions t) (Suc height) pos vTxid]\<rparr>
        else
          let t = TraverseAndBuild H vTxid match height (pos * 2) t
          in if pos * 2 + 1 < CalcTreeWidth (nTransactions t) height then TraverseAndBuild H vTxid match height (pos * 2 + 1) t else t)"

function calc_height :: "nat \<Rightarrow> nat \<Rightarrow> nat" where
  "calc_height n nHeight = (if CalcTreeWidth n nHeight > 1 then calc_height n (nHeight + 1) else nHeight)"
  by auto
termination
proof (relation "measure (\<lambda>(n, h). n - h)")
  fix n h :: nat assume "1 < CalcTreeWidth n h"
  then have "2 ^ h < n" by (simp add: width_less)
  then have "h < n" using less_exp [of h] by linarith
  then show "((n, h + 1), n, h) \<in> measure (\<lambda>(n, h). n - h)" by simp
qed simp

declare calc_height.simps [simp del]

definition CPartialMerkleTree_new :: "(u256 \<Rightarrow> u256 \<Rightarrow> u256) \<Rightarrow> u256 list \<Rightarrow> bool list \<Rightarrow> CPartialMerkleTree" where
  "CPartialMerkleTree_new H vTxid match =
    TraverseAndBuild H vTxid match (calc_height (length vTxid) 0) 0 \<lparr>nTransactions = length vTxid, vBits = [], vHash = [], fBad = False\<rparr>"

definition CPartialMerkleTree_default :: CPartialMerkleTree where
  "CPartialMerkleTree_default = \<lparr>nTransactions = 0, vBits = [], vHash = [], fBad = True\<rparr>"

section \<open>Extracting\<close>

record extract_state =
  nBitsUsed :: nat
  nHashUsed :: nat
  ex_bad :: bool
  vMatch :: "u256 list"

definition use_hash :: "CPartialMerkleTree \<Rightarrow> bool \<Rightarrow> extract_state \<Rightarrow> u256 \<times> extract_state" where
  "use_hash t matched s =
    (if nHashUsed s \<ge> length (vHash t) then (0, s\<lparr>ex_bad := True\<rparr>)
     else
       let hash = vHash t ! nHashUsed s; s = s\<lparr>nHashUsed := nHashUsed s + 1\<rparr>
       in (hash, if matched then s\<lparr>vMatch := vMatch s @ [hash]\<rparr> else s))"

fun TraverseAndExtract :: "(u256 \<Rightarrow> u256 \<Rightarrow> u256) \<Rightarrow> CPartialMerkleTree \<Rightarrow> nat \<Rightarrow> nat \<Rightarrow> extract_state \<Rightarrow> u256 \<times> extract_state" where
  "TraverseAndExtract H t 0 pos s =
    (if nBitsUsed s \<ge> length (vBits t) then (0, s\<lparr>ex_bad := True\<rparr>)
     else use_hash t (vBits t ! nBitsUsed s) (s\<lparr>nBitsUsed := nBitsUsed s + 1\<rparr>))"
| "TraverseAndExtract H t (Suc height) pos s =
    (if nBitsUsed s \<ge> length (vBits t) then (0, s\<lparr>ex_bad := True\<rparr>)
     else
       let fParentOfMatch = vBits t ! nBitsUsed s; s = s\<lparr>nBitsUsed := nBitsUsed s + 1\<rparr>
       in if \<not> fParentOfMatch then use_hash t False s
          else
            let (left, s) = TraverseAndExtract H t height (pos * 2) s;
                (right, s) = (if pos * 2 + 1 < CalcTreeWidth (nTransactions t) height then TraverseAndExtract H t height (pos * 2 + 1) s else (left, s))
            in (H left right, s))"

text \<open>The root, which is 0 for a tree that is not accepted, and the matches.\<close>

definition ExtractMatches :: "(u256 \<Rightarrow> u256 \<Rightarrow> u256) \<Rightarrow> CPartialMerkleTree \<Rightarrow> u256 \<times> u256 list" where
  "ExtractMatches H t =
    (if nTransactions t = 0 then (0, [])
     else if nTransactions t > 2000000 div 60 then (0, [])
     else if length (vHash t) > nTransactions t then (0, [])
     else if length (vBits t) < length (vHash t) then (0, [])
     else
       let (hashMerkleRoot, s) = TraverseAndExtract H t (calc_height (nTransactions t) 0) 0 \<lparr>nBitsUsed = 0, nHashUsed = 0, ex_bad = fBad t, vMatch = []\<rparr>
       in if ex_bad s then (0, vMatch s)
          else if (nBitsUsed s + 7) div 8 \<noteq> (length (vBits t) + 7) div 8 then (0, vMatch s)
          else if nHashUsed s \<noteq> length (vHash t) then (0, vMatch s)
          else (hashMerkleRoot, vMatch s))"

section \<open>Bits in bytes\<close>

definition put_bit :: "bool list \<Rightarrow> nat \<Rightarrow> bytes \<Rightarrow> bytes" where
  "put_bit bits p vBytes = vBytes[p div 8 := vBytes ! (p div 8) OR push_bit (p mod 8) (of_bool (bits ! p))]"

definition pack_bits :: "bool list \<Rightarrow> bytes" where
  "pack_bits bits = fold (put_bit bits) [0..<length bits] (replicate ((length bits + 7) div 8) 0)"

definition unpack_bits :: "bytes \<Rightarrow> bool list" where
  "unpack_bits vBytes = map (\<lambda>p. vBytes ! (p div 8) AND push_bit (p mod 8) 1 \<noteq> 0) [0..<length vBytes * 8]"

lemma put_bit_bit:
  assumes "k div 8 < length zs" "q div 8 < length zs"
  shows "bit (put_bit bits k zs ! (q div 8)) (q mod 8) \<longleftrightarrow> bit (zs ! (q div 8)) (q mod 8) \<or> (bits ! k \<and> q = k)"
proof (cases "q div 8 = k div 8")
  case True
  then have "q mod 8 = k mod 8 \<longleftrightarrow> q = k" by (metis div_mult_mod_eq)
  then have "bit (push_bit (k mod 8) (of_bool (bits ! k)) :: u8) (q mod 8) \<longleftrightarrow> bits ! k \<and> q = k"
    by (auto simp: bit_push_bit_iff bit_of_bool_iff)
  then show ?thesis unfolding put_bit_def True nth_list_update_eq [OF assms(1)] bit_or_iff by simp
next
  case False
  moreover from False have "q \<noteq> k" by auto
  ultimately show ?thesis by (simp add: put_bit_def)
qed

lemma pack_loop:
  "k \<le> length bits \<Longrightarrow> length zs = (length bits + 7) div 8 \<Longrightarrow> (\<And>q. q div 8 < length zs \<Longrightarrow> \<not> bit (zs ! (q div 8)) (q mod 8)) \<Longrightarrow>
   length (fold (put_bit bits) [0..<k] zs) = length zs \<and>
   (\<forall>q. q div 8 < length zs \<longrightarrow> bit (fold (put_bit bits) [0..<k] zs ! (q div 8)) (q mod 8) = (q < k \<and> bits ! q))"
proof (induction k)
  case (Suc k)
  define ys where "ys = fold (put_bit bits) [0..<k] zs"
  have IH: "length ys = length zs" "\<And>q. q div 8 < length zs \<Longrightarrow> bit (ys ! (q div 8)) (q mod 8) = (q < k \<and> bits ! q)"
    using Suc by (simp_all add: ys_def)
  have "(k + 8) div 8 \<le> (length bits + 7) div 8" using Suc.prems(1) by (intro div_le_mono) simp
  then have k: "k div 8 < length ys" unfolding IH(1) Suc.prems(2) by simp
  have step: "fold (put_bit bits) [0..<Suc k] zs = put_bit bits k ys" by (simp add: ys_def)
  show ?case unfolding step using IH put_bit_bit [OF k, of _ bits] by (auto simp: put_bit_def [of _ _ ys] less_Suc_eq IH(1))
qed simp

lemma unpack_pack: "\<exists>n. unpack_bits (pack_bits bits) = bits @ replicate n False \<and> (length bits + n + 7) div 8 = (length bits + 7) div 8"
proof -
  let ?k = "(length bits + 7) div 8"
  have p: "length (pack_bits bits) = ?k" "\<And>q. q div 8 < ?k \<Longrightarrow> bit (pack_bits bits ! (q div 8)) (q mod 8) = (q < length bits \<and> bits ! q)"
    using pack_loop [of "length bits" bits "replicate ?k 0"] by (simp_all add: pack_bits_def)
  have le: "length bits \<le> ?k * 8" using div_mult_mod_eq [of "length bits + 7" 8] mod_less_divisor [of 8 "length bits + 7"] by linarith
  have "unpack_bits (pack_bits bits) = map (\<lambda>q. q < length bits \<and> bits ! q) [0..<?k * 8]"
    unfolding unpack_bits_def p(1) bit_iff_and_push_bit_not_eq_0 [symmetric] by (rule map_cong) (auto simp: p(2))
  moreover have "\<dots> = bits @ replicate (?k * 8 - length bits) False"
    by (rule nth_equalityI) (use le in \<open>auto simp: nth_append\<close>)
  moreover have "length bits + (?k * 8 - length bits) + 7 = 7 + ?k * 8" using le by simp
  ultimately show ?thesis by (intro exI [of _ "?k * 8 - length bits"]) (simp only: div_mult_self1, simp)
qed

section \<open>Nodes and levels\<close>

lemma width_Suc: "CalcTreeWidth n (Suc h) = (CalcTreeWidth n h + 1) div 2"
proof -
  define w :: nat where "w = 2 ^ h"
  have w: "0 < w" by (simp add: w_def)
  have "(n + w - 1 + w) div w = (n + w - 1) div w + 1" by (rule div_add_self2) (use w in simp)
  then have "((n + w - 1) div w + 1) div 2 = (n + w - 1 + w) div w div 2" by (simp only:)
  also have "\<dots> = (n + w - 1 + w) div (w * 2)" by (simp only: div_mult2_eq)
  also have "n + w - 1 + w = n + 2 * w - 1" using w by simp
  finally show ?thesis by (simp add: CalcTreeWidth_def w_def mult.commute)
qed

lemma width_0 [simp]: "CalcTreeWidth n 0 = n"
  by (simp add: CalcTreeWidth_def)

lemma length_levels_pow: "length ((next_level H ^^ h) xs) = CalcTreeWidth (length xs) h"
  by (induction h) (simp_all add: width_Suc)

lemma CalcHash_level: "pos < CalcTreeWidth (length xs) h \<Longrightarrow> CalcHash H (length xs) h pos xs = (next_level H ^^ h) xs ! pos"
proof (induction h arbitrary: pos)
  case (Suc h)
  let ?w = "CalcTreeWidth (length xs) h"
  have pos: "pos < (?w + 1) div 2" using Suc.prems by (simp add: width_Suc)
  then have l: "pos * 2 < ?w" by linarith
  have "(next_level H ^^ Suc h) xs ! pos = H ((next_level H ^^ h) xs ! (2 * pos)) ((next_level H ^^ h) xs ! min (2 * pos + 1) (?w - 1))"
    using next_level_nth [of pos "(next_level H ^^ h) xs" H] pos by (simp add: length_levels_pow)
  moreover have "min (2 * pos + 1) (?w - 1) = (if pos * 2 + 1 < ?w then pos * 2 + 1 else pos * 2)" using l by auto
  ultimately show ?case using Suc.IH [OF l] Suc.IH [of "pos * 2 + 1"] by (simp add: mult.commute Let_def)
qed simp

lemma CalcHash_root:
  assumes "xs \<noteq> []"
  shows "CalcHash H (length xs) (calc_height (length xs) h) 0 xs = merkle_root H ((next_level H ^^ h) xs)"
proof (induction "length xs" h rule: calc_height.induct)
  case (1 h)
  let ?l = "(next_level H ^^ h) xs"
  have len: "length ?l = CalcTreeWidth (length xs) h" by (rule length_levels_pow)
  show ?case
  proof (cases "1 < CalcTreeWidth (length xs) h")
    case True
    then show ?thesis using 1 len by (subst calc_height.simps) (simp add: merkle_root_more [of ?l])
  next
    case False
    have pos: "0 < CalcTreeWidth (length xs) h" using assms by (simp add: width_less)
    then obtain r where "?l = [r]" using len False by (cases ?l; cases "tl ?l") auto
    then show ?thesis using False CalcHash_level [OF pos, of H] by (subst calc_height.simps) (simp add: merkle_root_def levels_one)
  qed
qed

section \<open>What is built and what is extracted\<close>

definition leaves :: "nat \<Rightarrow> nat \<Rightarrow> nat \<Rightarrow> nat list" where
  "leaves n h pos = [pos * 2 ^ h ..< min ((pos + 1) * 2 ^ h) n]"

lemma upt_split: "i \<le> j \<Longrightarrow> j \<le> k \<Longrightarrow> [i..<k] = [i..<j] @ [j..<k]"
  using upt_add_eq_append [of i j "k - j"] by simp

lemma leaves_Suc: "leaves n (Suc h) pos = leaves n h (pos * 2) @ leaves n h (pos * 2 + 1)"
proof -
  define w :: nat where "w = 2 ^ h"
  have "[2 * (pos * w) ..< min (2 * (pos * w) + 2 * w) n] =
    [2 * (pos * w) ..< min (2 * (pos * w) + w) n] @ [2 * (pos * w) + w ..< min (2 * (pos * w) + 2 * w) n]"
    by (cases "n \<le> 2 * (pos * w) + w") (auto simp: min_def intro!: upt_split)
  then show ?thesis by (simp add: leaves_def algebra_simps flip: w_def)
qed

lemma leaves_Nil: "\<not> pos < CalcTreeWidth n h \<Longrightarrow> leaves n h pos = []"
  by (simp add: leaves_def width_less)

definition matches :: "u256 list \<Rightarrow> bool list \<Rightarrow> nat \<Rightarrow> nat \<Rightarrow> u256 list" where
  "matches xs m h pos = map (\<lambda>p. xs ! p) (filter (\<lambda>p. m ! p) (leaves (length xs) h pos))"

lemma parent_leaves: "parent_of_match n m h pos \<longleftrightarrow> (\<exists>p\<in>set (leaves n h pos). m ! p)"
  by (auto simp: parent_of_match_def leaves_def list_ex_iff)

fun node_bits :: "nat \<Rightarrow> bool list \<Rightarrow> nat \<Rightarrow> nat \<Rightarrow> bool list" where
  "node_bits n m 0 pos = [parent_of_match n m 0 pos]"
| "node_bits n m (Suc h) pos =
    (if \<not> parent_of_match n m (Suc h) pos then [False]
     else True # node_bits n m h (pos * 2) @ (if pos * 2 + 1 < CalcTreeWidth n h then node_bits n m h (pos * 2 + 1) else []))"

fun node_hashes :: "(u256 \<Rightarrow> u256 \<Rightarrow> u256) \<Rightarrow> u256 list \<Rightarrow> nat \<Rightarrow> bool list \<Rightarrow> nat \<Rightarrow> nat \<Rightarrow> u256 list" where
  "node_hashes H xs n m 0 pos = [CalcHash H n 0 pos xs]"
| "node_hashes H xs n m (Suc h) pos =
    (if \<not> parent_of_match n m (Suc h) pos then [CalcHash H n (Suc h) pos xs]
     else node_hashes H xs n m h (pos * 2) @ (if pos * 2 + 1 < CalcTreeWidth n h then node_hashes H xs n m h (pos * 2 + 1) else []))"

lemma TraverseAndBuild_eq:
  "TraverseAndBuild H xs m h pos t =
    t\<lparr>vBits := vBits t @ node_bits (nTransactions t) m h pos, vHash := vHash t @ node_hashes H xs (nTransactions t) m h pos\<rparr>"
  by (induction h arbitrary: pos t) (simp_all add: Let_def)

lemma left_child: "pos < CalcTreeWidth n (Suc h) \<Longrightarrow> pos * 2 < CalcTreeWidth n h"
  by (simp add: width_less mult.assoc)

lemma node_sizes:
  "pos < CalcTreeWidth n h \<Longrightarrow> length (node_hashes H xs n m h pos) \<le> length (leaves n h pos) \<and>
   length (node_hashes H xs n m h pos) \<le> length (node_bits n m h pos) \<and> leaves n h pos \<noteq> []"
proof (induction h arbitrary: pos)
  case 0
  then show ?case by (simp add: leaves_def)
next
  case (Suc h)
  note l = Suc.IH [OF left_child [OF Suc.prems]]
  have "leaves n (Suc h) pos \<noteq> []" using l by (simp add: leaves_Suc)
  then have "1 \<le> length (leaves n (Suc h) pos)" by (simp add: Suc_le_eq)
  then show ?case using l Suc.IH [of "pos * 2 + 1"] leaves_Nil [of "pos * 2 + 1" n h] by (auto simp: leaves_Suc)
qed

lemma matches_Suc: "matches xs m (Suc h) pos = matches xs m h (pos * 2) @ matches xs m h (pos * 2 + 1)"
  by (simp add: matches_def leaves_Suc)

lemma extract_built:
  "nTransactions t = length xs \<Longrightarrow> pos < CalcTreeWidth (length xs) h \<Longrightarrow>
   vBits t = bs @ node_bits (length xs) m h pos @ bs' \<Longrightarrow> vHash t = hs @ node_hashes H xs (length xs) m h pos @ hs' \<Longrightarrow>
   nBitsUsed s = length bs \<Longrightarrow> nHashUsed s = length hs \<Longrightarrow>
   TraverseAndExtract H t h pos s = (CalcHash H (length xs) h pos xs,
     s\<lparr>nBitsUsed := length bs + length (node_bits (length xs) m h pos), nHashUsed := length hs + length (node_hashes H xs (length xs) m h pos),
       vMatch := vMatch s @ matches xs m h pos\<rparr>)"
proof (induction h arbitrary: pos s bs bs' hs hs')
  case 0
  then have "leaves (length xs) 0 pos = [pos]" by (simp add: leaves_def)
  then show ?case using 0 by (auto simp: use_hash_def nth_append matches_def parent_leaves Let_def)
next
  case (Suc h)
  let ?n = "length xs" and ?l = "pos * 2" and ?r = "pos * 2 + 1"
  show ?case
  proof (cases "parent_of_match ?n m (Suc h) pos")
    case False
    then have "matches xs m (Suc h) pos = []" by (auto simp: matches_def parent_leaves filter_empty_conv)
    then show ?thesis using Suc.prems False by (simp add: use_hash_def nth_append Let_def)
  next
    case True
    let ?R = "?r < CalcTreeWidth ?n h"
    define rb where "rb = (if ?R then node_bits ?n m h ?r else [])"
    define rh where "rh = (if ?R then node_hashes H xs ?n m h ?r else [])"
    let ?lb = "node_bits ?n m h ?l" and ?lh = "node_hashes H xs ?n m h ?l"
    have vb: "vBits t = (bs @ [True]) @ ?lb @ (rb @ bs')" "vBits t = (bs @ True # ?lb) @ rb @ bs'"
      and vh: "vHash t = hs @ ?lh @ (rh @ hs')" "vHash t = (hs @ ?lh) @ rh @ hs'"
      using Suc.prems(3,4) True by (simp_all add: rb_def rh_def)
    define s1 where "s1 = s\<lparr>nBitsUsed := nBitsUsed s + 1\<rparr>"
    define s2 where "s2 = s1\<lparr>nBitsUsed := length (bs @ [True]) + length ?lb, nHashUsed := length hs + length ?lh, vMatch := vMatch s1 @ matches xs m h ?l\<rparr>"
    have L: "TraverseAndExtract H t h ?l s1 = (CalcHash H ?n h ?l xs, s2)"
      unfolding s2_def using Suc.prems by (intro Suc.IH [OF _ left_child vb(1) vh(1)]) (simp_all add: s1_def)
    have R: "TraverseAndExtract H t h ?r s2 = (CalcHash H ?n h ?r xs,
        s2\<lparr>nBitsUsed := length (bs @ True # ?lb) + length rb, nHashUsed := length (hs @ ?lh) + length rh, vMatch := vMatch s2 @ matches xs m h ?r\<rparr>)" if ?R
      using Suc.IH [OF Suc.prems(1) that, of "bs @ True # ?lb" bs' "hs @ ?lh" hs' s2] vb(2) vh(2) that by (simp add: rb_def rh_def s2_def)
    have bit: "nBitsUsed s < length (vBits t)" "vBits t ! nBitsUsed s" using vb(2) Suc.prems(5) by (simp_all add: nth_append)
    have m: "matches xs m h ?r = []" if "\<not> ?R" using leaves_Nil [OF that] by (simp add: matches_def)
    have "TraverseAndExtract H t (Suc h) pos s =
        (let (right, s) = (if ?R then TraverseAndExtract H t h ?r s2 else (CalcHash H ?n h ?l xs, s2)) in (H (CalcHash H ?n h ?l xs) right, s))"
      using bit L Suc.prems(1) by (simp add: s1_def)
    also have "\<dots> = (CalcHash H ?n (Suc h) pos xs, s\<lparr>nBitsUsed := length (bs @ True # ?lb) + length rb, nHashUsed := length (hs @ ?lh) + length rh,
        vMatch := vMatch s @ matches xs m (Suc h) pos\<rparr>)"
      using R m by (cases ?R) (simp_all add: Let_def matches_Suc s1_def s2_def rb_def rh_def)
    finally show ?thesis using True by (simp add: rb_def rh_def)
  qed
qed

section \<open>What can be extracted\<close>

text \<open>The pairs that are hashed during an extraction.\<close>

fun extract_pairs :: "(u256 \<Rightarrow> u256 \<Rightarrow> u256) \<Rightarrow> CPartialMerkleTree \<Rightarrow> nat \<Rightarrow> nat \<Rightarrow> extract_state \<Rightarrow> (u256 \<times> u256) set" where
  "extract_pairs H t 0 pos s = {}"
| "extract_pairs H t (Suc h) pos s =
    (if nBitsUsed s \<ge> length (vBits t) \<or> \<not> vBits t ! nBitsUsed s then {}
     else
       let s = s\<lparr>nBitsUsed := nBitsUsed s + 1\<rparr>; (left, s1) = TraverseAndExtract H t h (pos * 2) s;
           right = (if pos * 2 + 1 < CalcTreeWidth (nTransactions t) h then fst (TraverseAndExtract H t h (pos * 2 + 1) s1) else left)
       in insert (left, right) (extract_pairs H t h (pos * 2) s \<union>
            (if pos * 2 + 1 < CalcTreeWidth (nTransactions t) h then extract_pairs H t h (pos * 2 + 1) s1 else {})))"

lemma levels_from:
  "levels H ((next_level H ^^ h) xs) = map (\<lambda>k. (next_level H ^^ k) xs) [h..<Suc (calc_height (length xs) h)]"
proof (induction "length xs" h rule: calc_height.induct)
  case (1 h)
  have len: "length ((next_level H ^^ h) xs) = CalcTreeWidth (length xs) h" by (rule length_levels_pow)
  have ge: "h \<le> calc_height n h" for n h
  proof (induction n h rule: calc_height.induct)
    case (1 n h)
    then show ?case by (subst calc_height.simps) auto
  qed
  show ?case
  proof (cases "1 < CalcTreeWidth (length xs) h")
    case True
    have "calc_height (length xs) h = calc_height (length xs) (Suc h)" using True by (subst calc_height.simps) simp
    moreover have "levels H ((next_level H ^^ h) xs) = (next_level H ^^ h) xs # levels H ((next_level H ^^ Suc h) xs)"
      using True len by (simp add: levels_more)
    moreover have "[h..<Suc (calc_height (length xs) (Suc h))] = h # [Suc h..<Suc (calc_height (length xs) (Suc h))]"
      using ge [of "Suc h" "length xs"] by (intro upt_conv_Cons) simp
    ultimately show ?thesis using 1 True by simp
  next
    case False
    then have "calc_height (length xs) h = h" by (subst calc_height.simps) simp
    then show ?thesis using False len by (simp add: levels_one)
  qed
qed

lemma pairs_nth:
  "k < (length xs + 1) div 2 \<Longrightarrow> (xs ! (2 * k), xs ! min (2 * k + 1) (length xs - 1)) \<in> set (pairs xs)"
proof (induction xs arbitrary: k rule: pairs.induct)
  case (3 a b xs)
  show ?case
  proof (cases k)
    case (Suc m)
    then have m: "m < (length xs + 1) div 2" using 3 by simp
    then have "2 * m < length xs" by linarith
    then have "min (2 * k + 1) (length (a # b # xs) - 1) = Suc (Suc (min (2 * m + 1) (length xs - 1)))" using Suc by auto
    then show ?thesis using "3.IH" [OF m] Suc by simp
  qed simp
qed simp_all

lemma node_pair_hashed:
  assumes "h < calc_height (length xs) 0" "pos < CalcTreeWidth (length xs) (Suc h)"
  shows "(CalcHash H (length xs) h (pos * 2) xs,
      if pos * 2 + 1 < CalcTreeWidth (length xs) h then CalcHash H (length xs) h (pos * 2 + 1) xs else CalcHash H (length xs) h (pos * 2) xs) \<in> hashed H xs"
proof -
  let ?l = "(next_level H ^^ h) xs" and ?w = "CalcTreeWidth (length xs) h"
  have w: "pos < (?w + 1) div 2" "pos * 2 < ?w" using assms(2) left_child [OF assms(2)] by (simp_all add: width_Suc)
  have l: "?l \<in> set (butlast (levels H xs))" using levels_from [of H 0 xs] assms(1) by (simp add: map_butlast [symmetric])
  have "min (2 * pos + 1) (?w - 1) = (if pos * 2 + 1 < ?w then pos * 2 + 1 else pos * 2)" using w(2) by auto
  moreover have "(?l ! (2 * pos), ?l ! min (2 * pos + 1) (?w - 1)) \<in> set (pairs ?l)"
    using pairs_nth [of pos ?l] w(1) by (simp add: length_levels_pow)
  moreover have "CalcHash H (length xs) h (pos * 2) xs = ?l ! (2 * pos)" using CalcHash_level [OF w(2), of H] by (simp add: mult.commute)
  moreover have "CalcHash H (length xs) h (pos * 2 + 1) xs = ?l ! (pos * 2 + 1)" if "pos * 2 + 1 < ?w" using CalcHash_level [OF that, of H] by simp
  ultimately have "(CalcHash H (length xs) h (pos * 2) xs,
      if pos * 2 + 1 < ?w then CalcHash H (length xs) h (pos * 2 + 1) xs else CalcHash H (length xs) h (pos * 2) xs) \<in> set (pairs ?l)"
    by (cases "pos * 2 + 1 < ?w") (simp_all add: mult.commute)
  then show ?thesis unfolding hashed_def using l by (rule UN_I [rotated])
qed

lemma bad_stays: "ex_bad s \<Longrightarrow> ex_bad (snd (TraverseAndExtract H t h pos s))"
proof (induction h arbitrary: pos s)
  case 0
  then show ?case by (auto simp: use_hash_def Let_def)
next
  case (Suc h)
  then show ?case by (auto simp: use_hash_def Let_def case_prod_beta)
qed

lemma extract_sound:
  "nTransactions t = length xs \<Longrightarrow> h \<le> calc_height (length xs) 0 \<Longrightarrow> pos < CalcTreeWidth (length xs) h \<Longrightarrow>
   inj_on (\<lambda>(a, b). H a b) (extract_pairs H t h pos s \<union> hashed H xs) \<Longrightarrow>
   TraverseAndExtract H t h pos s = (CalcHash H (length xs) h pos xs, s') \<Longrightarrow> \<not> ex_bad s' \<Longrightarrow>
   \<exists>ms. vMatch s' = vMatch s @ ms \<and> set ms \<subseteq> set xs"
proof (induction h arbitrary: pos s s')
  case 0
  then show ?case by (auto simp: use_hash_def Let_def split: if_splits)
next
  case (Suc h)
  let ?n = "length xs" and ?R = "pos * 2 + 1 < CalcTreeWidth (length xs) h"
  have used: "nBitsUsed s < length (vBits t)" using Suc.prems(5,6) by (auto split: if_splits)
  define s1 where "s1 = s\<lparr>nBitsUsed := nBitsUsed s + 1\<rparr>"
  show ?case
  proof (cases "vBits t ! nBitsUsed s")
    case False
    then show ?thesis using Suc.prems(5,6) used by (auto simp: use_hash_def Let_def split: if_splits)
  next
    case True
    obtain left s2 where L: "TraverseAndExtract H t h (pos * 2) s1 = (left, s2)" by fastforce
    obtain right s3 where R: "(if ?R then TraverseAndExtract H t h (pos * 2 + 1) s2 else (left, s2)) = (right, s3)" by fastforce
    define l where "l = CalcHash H ?n h (pos * 2) xs"
    define r where "r = (if ?R then CalcHash H ?n h (pos * 2 + 1) xs else l)"
    have e: "s' = s3" "H left right = H l r"
      using Suc.prems(1,5) used True L R by (auto simp: s1_def l_def r_def Let_def split: if_splits)
    have ps: "extract_pairs H t (Suc h) pos s = insert (left, right) (extract_pairs H t h (pos * 2) s1 \<union> (if ?R then extract_pairs H t h (pos * 2 + 1) s2 else {}))"
      using Suc.prems(1) used True L R by (auto simp: s1_def Let_def split: if_splits)
    have "(l, r) \<in> hashed H xs" unfolding l_def r_def using Suc.prems(2,3) by (intro node_pair_hashed) simp_all
    then have lr: "left = l" "right = r" using inj_onD [OF Suc.prems(4), of "(left, right)" "(l, r)"] e(2) ps by auto
    have inj: "inj_on (\<lambda>(a, b). H a b) (extract_pairs H t h (pos * 2) s1 \<union> hashed H xs)"
      "?R \<Longrightarrow> inj_on (\<lambda>(a, b). H a b) (extract_pairs H t h (pos * 2 + 1) s2 \<union> hashed H xs)"
      by (rule inj_on_subset [OF Suc.prems(4) [unfolded ps]]; auto)+
    have h: "h \<le> calc_height ?n 0" using Suc.prems(2) by simp
    have ok: "\<not> ex_bad s2" using bad_stays [of s2 H t h "pos * 2 + 1"] R Suc.prems(6) e(1) by (auto split: if_splits)
    obtain ms where ms: "vMatch s2 = vMatch s @ ms" "set ms \<subseteq> set xs"
      using Suc.IH [OF Suc.prems(1) h left_child [OF Suc.prems(3)] inj(1) _ ok] L lr(1) by (auto simp: l_def s1_def)
    show ?thesis
    proof (cases ?R)
      case True
      then obtain ms2 where "vMatch s3 = vMatch s2 @ ms2" "set ms2 \<subseteq> set xs"
        using Suc.IH [OF Suc.prems(1) h True inj(2) [OF True], of s3] R lr(2) Suc.prems(6) e(1) by (auto simp: r_def)
      then show ?thesis using ms e(1) by (intro exI [of _ "ms @ ms2"]) auto
    next
      case False
      then show ?thesis using ms e(1) R by auto
    qed
  qed
qed

section \<open>Properties\<close>

lemma calc_height_width: "\<not> 1 < CalcTreeWidth n (calc_height n h)"
proof (induction n h rule: calc_height.induct)
  case (1 n h)
  then show ?case by (subst calc_height.simps) auto
qed

lemma root_node:
  assumes "xs \<noteq> []"
  shows "0 < CalcTreeWidth (length xs) (calc_height (length xs) 0)" "leaves (length xs) (calc_height (length xs) 0) 0 = [0..<length xs]"
    "CalcHash H (length xs) (calc_height (length xs) 0) 0 xs = fst (BuildMerkleTree H xs)"
proof -
  show "0 < CalcTreeWidth (length xs) (calc_height (length xs) 0)" using assms by (simp add: width_less)
  have "length xs \<le> 2 ^ calc_height (length xs) 0" using calc_height_width [of "length xs" 0] by (simp add: width_less)
  then show "leaves (length xs) (calc_height (length xs) 0) 0 = [0..<length xs]" by (simp add: leaves_def min_absorb2)
  show "CalcHash H (length xs) (calc_height (length xs) 0) 0 xs = fst (BuildMerkleTree H xs)"
    using CalcHash_root [OF assms, of H 0] by (simp add: BuildMerkleTree_eq)
qed

lemma filter_zip_upt:
  "length m = length xs \<Longrightarrow> map (\<lambda>p. xs ! p) (filter (\<lambda>p. m ! p) [0..<length xs]) = map fst (filter snd (zip xs m))"
proof -
  assume l: "length m = length xs"
  have "zip xs m = map (\<lambda>p. (xs ! p, m ! p)) [0..<length xs]" using l by (auto intro: nth_equalityI)
  then show ?thesis by (simp add: filter_map comp_def)
qed

text \<open>
  C36: A partial Merkle tree that is built for some transactions of a block, sent as bytes and read back, is accepted: the client gets
  the Merkle root of the block and the chosen transactions, in their order.
\<close>

theorem partial_tree_roundtrip:
  assumes "xs \<noteq> []" "length xs \<le> 2000000 div 60" "length match = length xs"
  shows "ExtractMatches H ((CPartialMerkleTree_new H xs match)\<lparr>vBits := unpack_bits (pack_bits (vBits (CPartialMerkleTree_new H xs match)))\<rparr>) =
    (fst (BuildMerkleTree H xs), map fst (filter snd (zip xs match)))"
proof -
  let ?n = "length xs" and ?h = "calc_height (length xs) 0"
  let ?bs = "node_bits ?n match ?h 0" and ?hs = "node_hashes H xs ?n match ?h 0"
  note root = root_node [OF assms(1)]
  have t: "CPartialMerkleTree_new H xs match = \<lparr>nTransactions = ?n, vBits = ?bs, vHash = ?hs, fBad = False\<rparr>"
    by (simp add: CPartialMerkleTree_new_def TraverseAndBuild_eq)
  obtain k where k: "unpack_bits (pack_bits ?bs) = ?bs @ replicate k False" "(length ?bs + k + 7) div 8 = (length ?bs + 7) div 8"
    using unpack_pack by blast
  let ?t = "\<lparr>nTransactions = ?n, vBits = ?bs @ replicate k False, vHash = ?hs, fBad = False\<rparr>"
  have size: "length ?hs \<le> ?n" "length ?hs \<le> length ?bs" using node_sizes [OF root(1), of H xs match] root(2) by simp_all
  have "TraverseAndExtract H ?t ?h 0 \<lparr>nBitsUsed = 0, nHashUsed = 0, ex_bad = False, vMatch = []\<rparr> =
      (fst (BuildMerkleTree H xs), \<lparr>nBitsUsed = length ?bs, nHashUsed = length ?hs, ex_bad = False, vMatch = matches xs match ?h 0\<rparr>)"
    using extract_built [of ?t xs 0 ?h "[]" match "replicate k False" "[]" H "[]" "\<lparr>nBitsUsed = 0, nHashUsed = 0, ex_bad = False, vMatch = []\<rparr>"]
      root(1) unfolding root(3) by simp
  moreover have "matches xs match ?h 0 = map fst (filter snd (zip xs match))" using filter_zip_upt [OF assms(3)] by (simp add: matches_def root(2))
  ultimately show ?thesis using size assms(1,2) k(2) by (simp add: t k(1) ExtractMatches_def)
qed

theorem partial_tree_roundtrip_witness:
  "ExtractMatches (\<lambda>a b. 3 * a + b) ((CPartialMerkleTree_new (\<lambda>a b. 3 * a + b) [5, 6, 7] [False, True, True])\<lparr>vBits :=
     unpack_bits (pack_bits (vBits (CPartialMerkleTree_new (\<lambda>a b. 3 * a + b) [5, 6, 7] [False, True, True])))\<rparr>) =
   (fst (BuildMerkleTree (\<lambda>a b. 3 * a + b) [5, 6, 7]), [6, 7])"
  using partial_tree_roundtrip [of "[5, 6, 7]" "[False, True, True]" "\<lambda>a b. 3 * a + b"] by simp

text \<open>
  C5: Whatever a partial Merkle tree is made of, the transactions that are extracted from it together with the Merkle root of a block of that size are
  transactions of that block, unless two different pairs that were hashed for it or for the block collide.
\<close>

theorem partial_tree_sound:
  assumes "ExtractMatches H t = (fst (BuildMerkleTree H xs), ms)" "fst (BuildMerkleTree H xs) \<noteq> 0" "nTransactions t = length xs"
    and "inj_on (\<lambda>(a, b). H a b) (extract_pairs H t (calc_height (length xs) 0) 0 \<lparr>nBitsUsed = 0, nHashUsed = 0, ex_bad = fBad t, vMatch = []\<rparr> \<union> hashed H xs)"
  shows "set ms \<subseteq> set xs"
proof -
  let ?s = "\<lparr>nBitsUsed = 0, nHashUsed = 0, ex_bad = fBad t, vMatch = []\<rparr>" and ?h = "calc_height (length xs) 0"
  have ne: "xs \<noteq> []" using assms(2) by (auto simp: BuildMerkleTree_eq merkle_root_def)
  note root = root_node [OF ne]
  obtain r s where s: "TraverseAndExtract H t ?h 0 ?s = (r, s)" by fastforce
  have r: "r = CalcHash H (length xs) ?h 0 xs" "ms = vMatch s" "\<not> ex_bad s"
    using assms(1-3) s unfolding root(3) by (auto simp: ExtractMatches_def Let_def split: if_splits)
  show ?thesis using extract_sound [OF assms(3) order_refl root(1) assms(4) s [unfolded r(1)] r(3)] r(2) by auto
qed

definition example_partial :: CPartialMerkleTree where
  "example_partial = \<lparr>nTransactions = 3, vBits = [True, False, True, True], vHash = [21, 7], fBad = False\<rparr>"

theorem partial_tree_sound_witness:
  "ExtractMatches (\<lambda>a b. 3 * a + b) example_partial = (fst (BuildMerkleTree (\<lambda>a b. 3 * a + b) [5, 6, 7]), [7]) \<and> set [7] \<subseteq> set [5, 6, 7 :: u256]"
proof -
  let ?H = "\<lambda>a b. 3 * a + b :: u256" and ?s = "\<lparr>nBitsUsed = 0, nHashUsed = 0, ex_bad = fBad example_partial, vMatch = []\<rparr>"
  have w: "CalcTreeWidth 3 0 = 3" "CalcTreeWidth 3 (Suc 0) = 2" "CalcTreeWidth 3 2 = 1" by (simp_all add: CalcTreeWidth_def)
  have "calc_height 3 2 = 2" by (subst calc_height.simps) (simp add: w)
  then have "calc_height 3 (Suc 0) = 2" by (subst calc_height.simps) (simp add: w numeral_2_eq_2)
  then have h: "calc_height 3 0 = 2" by (subst calc_height.simps) (simp add: w)
  then have h2: "calc_height 3 0 = Suc (Suc 0)" by (simp only: numeral_2_eq_2)
  have l: "levels ?H [5, 6, 7] = [[5, 6, 7], [21, 28], [91]]" by (simp add: levels_more levels_one)
  have root: "fst (BuildMerkleTree ?H [5, 6, 7]) = 91" by (simp add: BuildMerkleTree_eq merkle_root_def l)
  have len: "length [5, 6, 7 :: u256] = 3" by simp
  let ?s1 = "\<lparr>nBitsUsed = 1, nHashUsed = 0, ex_bad = False, vMatch = []\<rparr>" and ?s2 = "\<lparr>nBitsUsed = 2, nHashUsed = 1, ex_bad = False, vMatch = []\<rparr>"
    and ?s3 = "\<lparr>nBitsUsed = 3, nHashUsed = 1, ex_bad = False, vMatch = []\<rparr>" and ?s4 = "\<lparr>nBitsUsed = 4, nHashUsed = 2, ex_bad = False, vMatch = [7]\<rparr>"
  note [simp] = example_partial_def use_hash_def w
  have t1: "TraverseAndExtract ?H example_partial (Suc 0) 0 ?s1 = (21, ?s2)" by simp
  have t0: "TraverseAndExtract ?H example_partial 0 2 ?s3 = (7, ?s4)" by simp
  have t2: "TraverseAndExtract ?H example_partial (Suc 0) 1 ?s2 = (28, ?s4)" using t0 by simp
  have t3: "TraverseAndExtract ?H example_partial (Suc (Suc 0)) 0 ?s = (91, ?s4)" using t1 t2 by simp
  have e: "ExtractMatches ?H example_partial = (91, [7])" using t3 by (simp add: ExtractMatches_def h2 del: TraverseAndExtract.simps)
  have p: "extract_pairs ?H example_partial (Suc 0) 0 ?s1 = {}" "extract_pairs ?H example_partial (Suc 0) 1 ?s2 = {(7, 7)}" using t0 by simp_all
  then have "extract_pairs ?H example_partial (Suc (Suc 0)) 0 ?s = {(21, 28), (7, 7)}" using t1 t2 by simp
  then have "extract_pairs ?H example_partial 2 0 ?s = {(21, 28), (7, 7)}" by (simp only: numeral_2_eq_2)
  moreover have "hashed ?H [5, 6, 7] = {(5, 6), (7, 7), (21, 28)}" by (auto simp: hashed_def l)
  ultimately have "inj_on (\<lambda>(a, b). ?H a b) (extract_pairs ?H example_partial (calc_height (length [5, 6, 7 :: u256]) 0) 0 ?s \<union> hashed ?H [5, 6, 7])"
    using len by (simp add: h inj_on_def del: list.size)
  then have "set [7] \<subseteq> set [5, 6, 7 :: u256]"
    using partial_tree_sound [of ?H example_partial "[5, 6, 7]" "[7]"] e root by simp
  then show ?thesis using e root by simp
qed

end
