(* ===== verification/Uint256.thy ===== *)
theory Uint256
  imports Prelude
begin

text \<open>
  The big integers of the code (\<^verbatim>\<open>base_uint\<close> of \<^verbatim>\<open>uint256.h\<close> and \<^verbatim>\<open>uint256.cpp\<close>): an array of 32-bit limbs, the least significant one first. The
  theory gives the value of such an array and shows that every operation computes the operation of the same name on 256-bit words,
  which the other theories use for \<^verbatim>\<open>uint256\<close>.
\<close>

section \<open>Operations on limbs\<close>

type_synonym limbs = "u32 list"

definition of_uint64 :: "nat \<Rightarrow> u64 \<Rightarrow> limbs" where
  "of_uint64 width b = [ucast b, ucast (drop_bit 32 b)] @ replicate (width - 2) 0"

definition limbs_not :: "limbs \<Rightarrow> limbs" where
  "limbs_not pn = map NOT pn"

fun increment :: "limbs \<Rightarrow> limbs" where
  "increment [] = []"
| "increment (p # pn) = (if p + 1 = 0 then (p + 1) # increment pn else (p + 1) # pn)"

definition negate :: "limbs \<Rightarrow> limbs" where
  "negate pn = increment (limbs_not pn)"

fun add_loop :: "u64 \<Rightarrow> limbs \<Rightarrow> limbs \<Rightarrow> limbs" where
  "add_loop carry (p # pn) (b # bs) =
    (let n = carry + ucast p + ucast b in ucast (n AND 0xffffffff) # add_loop (drop_bit 32 n) pn bs)"
| "add_loop carry _ _ = []"

definition add_assign :: "limbs \<Rightarrow> limbs \<Rightarrow> limbs" where
  "add_assign pn b = add_loop 0 pn b"

definition sub_assign :: "limbs \<Rightarrow> limbs \<Rightarrow> limbs" where
  "sub_assign pn b = add_assign pn (negate b)"

definition shl_step :: "limbs \<Rightarrow> nat \<Rightarrow> nat \<Rightarrow> nat \<Rightarrow> limbs \<Rightarrow> limbs" where
  "shl_step a k shift i pn =
    (let pn = (if i + k + 1 < length a \<and> shift \<noteq> 0 then pn[i + k + 1 := pn ! (i + k + 1) OR drop_bit (32 - shift) (a ! i)] else pn)
     in if i + k < length a then pn[i + k := pn ! (i + k) OR push_bit shift (a ! i)] else pn)"

definition shl_assign :: "limbs \<Rightarrow> nat \<Rightarrow> limbs" where
  "shl_assign a shift = fold (shl_step a (shift div 32) (shift mod 32)) [0..<length a] (replicate (length a) 0)"

definition shr_step :: "limbs \<Rightarrow> nat \<Rightarrow> nat \<Rightarrow> nat \<Rightarrow> limbs \<Rightarrow> limbs" where
  "shr_step a k shift i pn =
    (let pn = (if i \<ge> k + 1 \<and> shift \<noteq> 0 then pn[i - k - 1 := pn ! (i - k - 1) OR push_bit (32 - shift) (a ! i)] else pn)
     in if i \<ge> k then pn[i - k := pn ! (i - k) OR drop_bit shift (a ! i)] else pn)"

definition shr_assign :: "limbs \<Rightarrow> nat \<Rightarrow> limbs" where
  "shr_assign a shift = fold (shr_step a (shift div 32) (shift mod 32)) [0..<length a] (replicate (length a) 0)"

fun mul32_loop :: "u32 \<Rightarrow> u64 \<Rightarrow> limbs \<Rightarrow> limbs" where
  "mul32_loop b32 carry [] = []"
| "mul32_loop b32 carry (p # pn) =
    (let n = carry + ucast b32 * ucast p in ucast (n AND 0xffffffff) # mul32_loop b32 (drop_bit 32 n) pn)"

definition mul32_assign :: "limbs \<Rightarrow> u32 \<Rightarrow> limbs" where
  "mul32_assign pn b32 = mul32_loop b32 0 pn"

text \<open>One row of the long multiplication: the limbs from the row's own position on, and the carry that is left over.\<close>

fun mul_row :: "u32 \<Rightarrow> u64 \<Rightarrow> limbs \<Rightarrow> limbs \<Rightarrow> limbs \<times> u64" where
  "mul_row aj carry (p # pn) (b # bs) =
    (let n = carry + ucast p + ucast aj * ucast b; (pn, carry) = mul_row aj (drop_bit 32 n) pn bs
     in (ucast (n AND 0xffffffff) # pn, carry))"
| "mul_row aj carry _ _ = ([], carry)"

record mul_state =
  mul_pn :: limbs
  overflow :: bool
  highestNonzeroA :: nat
  highestNonzeroB :: nat

definition mul_step :: "limbs \<Rightarrow> limbs \<Rightarrow> nat \<Rightarrow> mul_state \<Rightarrow> mul_state" where
  "mul_step a b j s =
    (let s = (if a ! j \<noteq> 0 then s\<lparr>highestNonzeroA := j\<rparr> else s);
         s = (if b ! j \<noteq> 0 then s\<lparr>highestNonzeroB := j\<rparr> else s);
         (row, carry) = mul_row (a ! j) 0 (drop j (mul_pn s)) b;
         s = s\<lparr>mul_pn := take j (mul_pn s) @ row\<rparr>
     in if carry > 0 then s\<lparr>overflow := True\<rparr> else s)"

text \<open>
  The product, and whether it fits. The code clears the object and then reads the factor while it writes the product, so this is for a factor that is
  another object than the one multiplied; no call in the sources multiplies an object in place by itself.
\<close>

definition MultiplyBy :: "limbs \<Rightarrow> limbs \<Rightarrow> limbs \<times> bool" where
  "MultiplyBy a b =
    (let s = fold (mul_step a b) [0..<length a]
           \<lparr>mul_pn = replicate (length a) 0, overflow = False, highestNonzeroA = 0, highestNonzeroB = 0\<rparr>;
         s = (if highestNonzeroA s + highestNonzeroB s \<ge> length a then s\<lparr>overflow := True\<rparr> else s)
     in (mul_pn s, \<not> overflow s))"

definition mul_assign :: "limbs \<Rightarrow> limbs \<Rightarrow> limbs" where
  "mul_assign a b = fst (MultiplyBy a b)"

fun compare_loop :: "limbs \<Rightarrow> limbs \<Rightarrow> nat \<Rightarrow> int" where
  "compare_loop pn b 0 = 0"
| "compare_loop pn b (Suc i) = (if pn ! i < b ! i then -1 else if pn ! i > b ! i then 1 else compare_loop pn b i)"

definition CompareTo :: "limbs \<Rightarrow> limbs \<Rightarrow> int" where
  "CompareTo pn b = compare_loop pn b (length pn)"

definition EqualTo :: "limbs \<Rightarrow> u64 \<Rightarrow> bool" where
  "EqualTo pn b \<longleftrightarrow> (\<forall>i\<in>{2..<length pn}. pn ! i = 0) \<and> ucast (pn ! 1) = drop_bit 32 b \<and> ucast (pn ! 0) = b AND 0xffffffff"

fun bits_in :: "u32 \<Rightarrow> nat \<Rightarrow> nat" where
  "bits_in p 0 = 1"
| "bits_in p (Suc n) = (if p AND push_bit (Suc n) 1 \<noteq> 0 then Suc n + 1 else bits_in p n)"

fun bits_loop :: "limbs \<Rightarrow> nat \<Rightarrow> nat" where
  "bits_loop pn 0 = 0"
| "bits_loop pn (Suc pos) = (if pn ! pos \<noteq> 0 then 32 * pos + bits_in (pn ! pos) 31 else bits_loop pn pos)"

definition bits :: "limbs \<Rightarrow> nat" where
  "bits pn = bits_loop pn (length pn)"

text \<open>The loop of the division, from a shift down to 0.\<close>

fun div_loop :: "nat \<Rightarrow> limbs \<Rightarrow> limbs \<Rightarrow> limbs \<Rightarrow> limbs" where
  "div_loop 0 num dv pn = pn"
| "div_loop (Suc shift) num dv pn =
    (if CompareTo num dv \<ge> 0 then
       div_loop shift (sub_assign num dv) (shr_assign dv 1) (pn[shift div 32 := pn ! (shift div 32) OR push_bit (shift mod 32) 1])
     else div_loop shift num (shr_assign dv 1) pn)"

datatype uint_error = DivisionByZero

definition div_assign :: "limbs \<Rightarrow> limbs \<Rightarrow> uint_error + limbs" where
  "div_assign num b =
    (let num_bits = bits num; div_bits = bits b; pn = replicate (length num) 0
     in if div_bits = 0 then Inl DivisionByZero
        else if div_bits > num_bits then Inr pn
        else let shift = num_bits - div_bits in Inr (div_loop (Suc shift) num (shl_assign b shift) pn))"

section \<open>Values\<close>

definition limbs_value :: "limbs \<Rightarrow> int" where
  "limbs_value pn = horner_sum uint (2 ^ 32) pn"

lemma limbs_value_simps [simp]: "limbs_value [] = 0" "limbs_value (p # pn) = uint p + 2 ^ 32 * limbs_value pn"
  by (simp_all add: limbs_value_def)

lemma limbs_value_append: "limbs_value (xs @ ys) = limbs_value xs + 2 ^ (32 * length xs) * limbs_value ys"
  by (induction xs) (simp_all add: algebra_simps power_add)

lemma limbs_value_bounds: "0 \<le> limbs_value pn \<and> limbs_value pn < 2 ^ (32 * length pn)"
proof (induction pn)
  case (Cons p pn)
  have "uint p + 2 ^ 32 * limbs_value pn < 2 ^ 32 + 2 ^ 32 * (2 ^ (32 * length pn) - 1)"
    using Cons uint_lt2p [of p] by (intro add_less_le_mono mult_left_mono) auto
  then show ?case using Cons by (simp add: power_add algebra_simps)
qed simp

lemma bit_limbs_value: "bit (limbs_value pn) n \<longleftrightarrow> n div 32 < length pn \<and> bit (pn ! (n div 32)) (n mod 32)"
  using bit_horner_sum_uint_exp_iff [of pn n] by (simp add: limbs_value_def)

lemma limbs_value_eqD: "limbs_value a = limbs_value b \<Longrightarrow> length a = length b \<Longrightarrow> a = b"
proof (rule nth_equalityI)
  fix i assume *: "limbs_value a = limbs_value b" "length a = length b" "i < length a"
  show "a ! i = b ! i"
  proof (rule bit_word_eqI)
    fix n assume "n < LENGTH(32)"
    then show "bit (a ! i) n = bit (b ! i) n"
      using bit_limbs_value [of a "32 * i + n"] bit_limbs_value [of b "32 * i + n"] * by simp
  qed
qed

lemma replicate_value [simp]: "limbs_value (replicate n 0) = 0"
  by (induction n) simp_all

text \<open>A 64-bit intermediate result is split into a limb and a carry.\<close>

lemma uint_high: "uint (drop_bit 32 (n :: u64)) = uint n div 2 ^ 32"
  unfolding unsigned_drop_bit_eq by (simp add: drop_bit_eq_div bintr_uint)

lemma uint_high_less: "uint (drop_bit 32 (n :: u64)) < 2 ^ 32"
  using zdiv_mono1 [of "uint n" "2 ^ 64 - 1" "2 ^ 32"] uint_lt2p [of n] unfolding uint_high by simp

lemma uint_low: "uint (ucast (n AND 0xffffffff :: u64) :: u32) = uint n mod 2 ^ 32"
proof -
  have "n AND 0xffffffff = take_bit 32 n" by (simp add: take_bit_eq_mask mask_eq_exp_minus_1)
  then show ?thesis by (simp only: unsigned_ucast_eq unsigned_take_bit_eq take_bit_take_bit) (simp add: take_bit_eq_mod)
qed

lemma split64: "uint (ucast (n AND 0xffffffff :: u64) :: u32) + 2 ^ 32 * uint (drop_bit 32 n) = uint n"
  unfolding uint_high uint_low by simp

section \<open>Sums\<close>

lemma uint_less_32 [simp]: "uint (p :: u32) < 2 ^ 32" "uint (p :: u32) \<le> 2 ^ 32 - 1"
  using uint_lt2p [of p] by simp_all

lemma uint_ucast_64 [simp]: "uint (ucast (p :: u32) :: u64) = uint p"
  by (simp add: unsigned_ucast_eq take_bit_int_eq_self_iff order_less_trans [OF uint_less_32(1)])

lemma uint_sum: "uint a + uint b < 2 ^ 64 \<Longrightarrow> uint (a + b) = uint a + uint b" for a b :: u64
  by (simp add: uint_word_ariths)

lemma uint_prod: "uint a * uint b < 2 ^ 64 \<Longrightarrow> uint (a * b) = uint a * uint b" for a b :: u64
  by (simp add: uint_word_ariths)

lemma length_add_loop [simp]: "length pn = length b \<Longrightarrow> length (add_loop carry pn b) = length pn"
  by (induction carry pn b rule: add_loop.induct) (auto simp: Let_def)

lemma limb_carry_step:
  fixes low hi x :: int
  assumes "0 \<le> low" "low < 2 ^ 32"
  shows "low + 2 ^ 32 * ((hi + x) mod 2 ^ (32 * n)) = (low + 2 ^ 32 * hi + 2 ^ 32 * x) mod 2 ^ (32 * Suc n)"
proof -
  let ?r = "(hi + x) mod 2 ^ (32 * n)" and ?M = "2 ^ 32 * 2 ^ (32 * n) :: int"
  have "0 \<le> ?r" "?r < 2 ^ (32 * n)" by simp_all
  then have "low + 2 ^ 32 * ?r < 2 ^ 32 + 2 ^ 32 * (2 ^ (32 * n) - 1)" using assms(2) by (intro add_less_le_mono mult_left_mono) auto
  then have "low + 2 ^ 32 * ?r = (low + 2 ^ 32 * ?r) mod ?M" using assms(1) \<open>0 \<le> ?r\<close> by (simp add: algebra_simps)
  also have "\<dots> = (low + 2 ^ 32 * (hi + x)) mod ?M" unfolding mult_mod_right mod_add_right_eq ..
  finally show ?thesis by (simp add: algebra_simps power_add)
qed

lemma limb_carry:
  "uint (ucast (n AND 0xffffffff :: u64) :: u32) + 2 ^ 32 * ((uint (drop_bit 32 n) + x) mod 2 ^ (32 * k)) = (uint n + 2 ^ 32 * x) mod 2 ^ (32 * Suc k)"
  using limb_carry_step [of "uint (ucast (n AND 0xffffffff) :: u32)" "uint (drop_bit 32 n)" x k] unfolding split64 by (simp only: unsigned_greater_eq uint_less_32 simp_thms)

lemma limbs_value_mod: "limbs_value pn mod 2 ^ (32 * length pn) = limbs_value pn"
  using limbs_value_bounds [of pn] by simp

lemma add_loop_value:
  "length pn = length b \<Longrightarrow> uint carry \<le> 1 \<Longrightarrow>
   limbs_value (add_loop carry pn b) = (uint carry + limbs_value pn + limbs_value b) mod 2 ^ (32 * length pn)"
proof (induction carry pn b rule: add_loop.induct)
  case (1 carry p pn b bs)
  define n where "n = carry + ucast p + ucast b"
  have u: "uint n = uint carry + uint p + uint b"
    using 1(3) uint_less_32 [of p] uint_less_32 [of b] by (simp add: n_def uint_sum)
  have "uint (drop_bit 32 n) \<le> 1"
    using 1(3) uint_less_32 [of p] uint_less_32 [of b] zdiv_mono1 [of "uint n" "2 ^ 33 - 1" "2 ^ 32"] unfolding uint_high by (simp add: u)
  then have "limbs_value (add_loop (drop_bit 32 n) pn bs) = (uint (drop_bit 32 n) + (limbs_value pn + limbs_value bs)) mod 2 ^ (32 * length pn)"
    using 1 by (simp add: n_def add.assoc)
  moreover have "add_loop carry (p # pn) (b # bs) = ucast (n AND 0xffffffff) # add_loop (drop_bit 32 n) pn bs" by (simp add: n_def Let_def)
  ultimately show ?case
    using limb_carry [of n "limbs_value pn + limbs_value bs" "length pn"] unfolding u by (simp add: algebra_simps)
qed auto

lemma add_assign_value: "length pn = length b \<Longrightarrow> limbs_value (add_assign pn b) = (limbs_value pn + limbs_value b) mod 2 ^ (32 * length pn)"
  by (simp add: add_assign_def add_loop_value)

lemma length_increment [simp]: "length (increment pn) = length pn"
  by (induction pn) auto

lemma increment_value: "limbs_value (increment pn) = (limbs_value pn + 1) mod 2 ^ (32 * length pn)"
proof (induction pn)
  case (Cons p pn)
  show ?case
  proof (cases "p + 1 = 0")
    case True
    then have "p = -1" using add_eq_0_iff2 [of p 1] by simp
    then have u: "uint p = 2 ^ 32 - 1" by (simp add: unsigned_minus_1_eq_mask mask_eq_exp_minus_1)
    show ?thesis using True Cons limb_carry_step [of 0 0 "limbs_value pn + 1" "length pn"] u by (simp add: algebra_simps)
  next
    case False
    then have "uint (p + 1) \<noteq> 0" by (simp only: uint_0_iff not_False_eq_True)
    then have u: "uint (p + 1) = uint p + 1" using uint_less_32 [of p] by (cases "uint p + 1 = 2 ^ 32") (simp_all add: uint_word_ariths)
    then show ?thesis using False limbs_value_mod [of "(p + 1) # pn"] by (simp add: algebra_simps)
  qed
qed simp

lemma limbs_not_value: "limbs_value (limbs_not pn) = 2 ^ (32 * length pn) - 1 - limbs_value pn"
proof (induction pn)
  case (Cons p pn)
  have "uint (NOT p) = 2 ^ 32 - 1 - uint p" by (simp add: unsigned_not_eq take_bit_not_eq_mask_diff mask_eq_exp_minus_1 bintr_uint)
  then show ?case using Cons by (simp add: limbs_not_def algebra_simps power_add)
qed (simp add: limbs_not_def)

lemma length_negate [simp]: "length (negate pn) = length pn" "length (limbs_not pn) = length pn"
  by (simp_all add: negate_def limbs_not_def)

lemma sub_assign_value:
  assumes "length pn = length b"
  shows "limbs_value (sub_assign pn b) = (limbs_value pn - limbs_value b) mod 2 ^ (32 * length pn)"
proof -
  have "limbs_value (negate b) = (- limbs_value b) mod 2 ^ (32 * length pn)"
    using assms by (simp add: negate_def increment_value limbs_not_value)
  then show ?thesis using assms by (simp add: sub_assign_def add_assign_value mod_add_right_eq)
qed

section \<open>Products\<close>

lemma uint_mul_add:
  fixes p q :: u32 and c :: u64
  assumes "uint c < 2 ^ 32"
  shows "uint (c + ucast p + ucast q * ucast r) = uint c + uint p + uint q * uint (r :: u32)"
    "uint (c + ucast q * ucast r) = uint c + uint q * uint r"
    "uint (drop_bit 32 (c + ucast p + ucast q * ucast r)) < 2 ^ 32" "uint (drop_bit 32 (c + ucast q * ucast r)) < 2 ^ 32"
proof -
  have m: "uint q * uint r \<le> (2 ^ 32 - 1) * (2 ^ 32 - 1)" by (intro mult_mono) (simp_all only: uint_less_32 unsigned_greater_eq, simp_all)
  then have pr: "uint (ucast q * ucast r :: u64) = uint q * uint r" by (simp add: uint_prod)
  show u: "uint (c + ucast p + ucast q * ucast r) = uint c + uint p + uint q * uint r" "uint (c + ucast q * ucast r) = uint c + uint q * uint r"
    using m pr assms uint_less_32 [of p] by (simp_all add: uint_sum)
  show "uint (drop_bit 32 (c + ucast p + ucast q * ucast r)) < 2 ^ 32" "uint (drop_bit 32 (c + ucast q * ucast r)) < 2 ^ 32"
    by (rule uint_high_less)+
qed

lemma length_mul32_loop [simp]: "length (mul32_loop b32 carry pn) = length pn"
  by (induction pn arbitrary: carry) (simp_all add: Let_def)

lemma mul32_loop_value:
  "uint carry < 2 ^ 32 \<Longrightarrow> limbs_value (mul32_loop b32 carry pn) = (uint carry + uint b32 * limbs_value pn) mod 2 ^ (32 * length pn)"
proof (induction pn arbitrary: carry)
  case (Cons p pn)
  define n where "n = carry + ucast b32 * ucast p"
  have n: "mul32_loop b32 carry (p # pn) = ucast (n AND 0xffffffff) # mul32_loop b32 (drop_bit 32 n) pn" by (simp add: n_def Let_def)
  have u: "uint n = uint carry + uint b32 * uint p" "uint (drop_bit 32 n) < 2 ^ 32" using uint_mul_add(2,4) [OF Cons.prems] by (simp_all add: n_def)
  show ?case using limb_carry [of n "uint b32 * limbs_value pn" "length pn"] Cons.IH [OF u(2)] unfolding n u(1) by (simp add: algebra_simps)
qed simp

lemma mul32_assign_value: "limbs_value (mul32_assign pn b) = (limbs_value pn * uint b) mod 2 ^ (32 * length pn)"
  by (simp add: mul32_assign_def mul32_loop_value mult.commute)

lemma mul_row_value:
  "mul_row aj carry pn b = (row, carry') \<Longrightarrow> length pn \<le> length b \<Longrightarrow> uint carry < 2 ^ 32 \<Longrightarrow>
   length row = length pn \<and> uint carry' < 2 ^ 32 \<and>
   limbs_value row + 2 ^ (32 * length pn) * uint carry' = uint carry + limbs_value pn + uint aj * limbs_value (take (length pn) b)"
proof (induction aj carry pn b arbitrary: row rule: mul_row.induct)
  case (1 aj carry p pn b bs)
  define n where "n = carry + ucast p + ucast aj * ucast b"
  obtain r where r: "mul_row aj (drop_bit 32 n) pn bs = (r, carry')" "row = ucast (n AND 0xffffffff) # r"
    using "1.prems"(1) by (auto simp: n_def Let_def split: prod.splits)
  have u: "uint n = uint carry + uint p + uint aj * uint b" "uint (drop_bit 32 n) < 2 ^ 32"
    using uint_mul_add(1,3) [OF "1.prems"(3)] by (simp_all add: n_def)
  have I: "length r = length pn" "uint carry' < 2 ^ 32"
    "limbs_value r + 2 ^ (32 * length pn) * uint carry' = uint (drop_bit 32 n) + limbs_value pn + uint aj * limbs_value (take (length pn) bs)"
    using "1.IH" [OF n_def r(1) _ u(2)] "1.prems"(2) by simp_all
  have "limbs_value row + 2 ^ (32 * length (p # pn)) * uint carry' =
      uint (ucast (n AND 0xffffffff) :: u32) + 2 ^ 32 * (limbs_value r + 2 ^ (32 * length pn) * uint carry')"
    by (simp add: r(2) algebra_simps power_add)
  also have "\<dots> = uint n + 2 ^ 32 * (limbs_value pn + uint aj * limbs_value (take (length pn) bs))"
    unfolding I(3) using split64 [of n] by (simp add: algebra_simps)
  finally show ?case using I u(1) r(2) by (simp add: algebra_simps)
qed auto

text \<open>What has been dropped above the highest limb, and the highest limbs seen so far.\<close>

definition highest :: "limbs \<Rightarrow> nat \<Rightarrow> nat \<Rightarrow> bool" where
  "highest a j h \<longleftrightarrow> (\<forall>i<j. a ! i \<noteq> 0 \<longrightarrow> i \<le> h) \<and> (h = 0 \<or> h < j \<and> a ! h \<noteq> 0)"

lemma highest_step: "highest a j h \<Longrightarrow> highest a (Suc j) (if a ! j \<noteq> 0 then j else h)"
  by (auto simp: highest_def less_Suc_eq)

definition mul_inv :: "limbs \<Rightarrow> limbs \<Rightarrow> nat \<Rightarrow> mul_state \<Rightarrow> bool" where
  "mul_inv a b j s \<longleftrightarrow> length (mul_pn s) = length a \<and> highest a j (highestNonzeroA s) \<and> highest b j (highestNonzeroB s) \<and>
    (\<exists>D\<ge>0. limbs_value (mul_pn s) + 2 ^ (32 * length a) * D = limbs_value (take j a) * limbs_value b \<and> (overflow s \<longrightarrow> D > 0) \<and>
      (D > 0 \<longrightarrow> overflow s \<or> (\<exists>i<j. a ! i \<noteq> 0 \<and> limbs_value (drop (length a - i) b) \<noteq> 0)))"

lemma mul_step_inv:
  assumes "mul_inv a b j s" "j < length a" "length b = length a"
  shows "mul_inv a b (Suc j) (mul_step a b j s)"
proof -
  let ?W = "length a" and ?k = "length a - j"
  obtain D where D: "0 \<le> D" "limbs_value (mul_pn s) + 2 ^ (32 * ?W) * D = limbs_value (take j a) * limbs_value b" "overflow s \<longrightarrow> D > 0"
    "D > 0 \<longrightarrow> overflow s \<or> (\<exists>i<j. a ! i \<noteq> 0 \<and> limbs_value (drop (?W - i) b) \<noteq> 0)" and l: "length (mul_pn s) = ?W"
    and h: "highest a j (highestNonzeroA s)" "highest b j (highestNonzeroB s)"
    using assms(1) by (auto simp: mul_inv_def)
  obtain row c where row: "mul_row (a ! j) 0 (drop j (mul_pn s)) b = (row, c)" by fastforce
  have R: "length row = ?k" "limbs_value row + 2 ^ (32 * ?k) * uint c = limbs_value (drop j (mul_pn s)) + uint (a ! j) * limbs_value (take ?k b)"
    using mul_row_value [OF row] assms(2,3) l by simp_all
  define s' where "s' = mul_step a b j s"
  have s': "mul_pn s' = take j (mul_pn s) @ row" "overflow s' \<longleftrightarrow> overflow s \<or> c > 0"
    "highestNonzeroA s' = (if a ! j \<noteq> 0 then j else highestNonzeroA s)" "highestNonzeroB s' = (if b ! j \<noteq> 0 then j else highestNonzeroB s)"
    using row by (cases "a ! j = 0"; cases "b ! j = 0"; simp add: s'_def mul_step_def Let_def)+
  let ?top = "limbs_value (drop ?k b)" and ?P = "2 ^ (32 * j) :: int" and ?Q = "2 ^ (32 * ?k) :: int"
  define t where "t = uint (a ! j) * ?top"
  define D' where "D' = D + uint c + t"
  have W: "(2 :: int) ^ (32 * ?W) = ?P * ?Q" using assms(2) by (simp flip: power_add distrib_left)
  have b: "limbs_value b = limbs_value (take ?k b) + ?Q * ?top" using limbs_value_append [of "take ?k b" "drop ?k b"] assms(3) by simp
  have m: "limbs_value (mul_pn s) = limbs_value (take j (mul_pn s)) + ?P * limbs_value (drop j (mul_pn s))"
    using limbs_value_append [of "take j (mul_pn s)" "drop j (mul_pn s)"] l assms(2) by simp
  have "take (Suc j) a = take j a @ [a ! j]" using assms(2) by (simp add: take_Suc_conv_app_nth)
  then have a: "limbs_value (take (Suc j) a) = limbs_value (take j a) + ?P * uint (a ! j)" using limbs_value_append [of "take j a" "[a ! j]"] assms(2) by simp
  have v: "limbs_value (mul_pn s') = limbs_value (take j (mul_pn s)) + ?P * limbs_value row"
    using limbs_value_append [of "take j (mul_pn s)" row] l assms(2) by (simp add: s')
  have "limbs_value (mul_pn s') + ?P * ?Q * D' =
      limbs_value (take j (mul_pn s)) + ?P * (limbs_value row + ?Q * uint c) + ?P * ?Q * D + ?P * ?Q * uint (a ! j) * ?top"
    unfolding v D'_def t_def by (simp add: algebra_simps)
  also have "\<dots> = limbs_value (take (Suc j) a) * limbs_value b"
    using D(2) unfolding R(2) a W m by (simp add: b algebra_simps)
  finally have e: "limbs_value (mul_pn s') + 2 ^ (32 * ?W) * D' = limbs_value (take (Suc j) a) * limbs_value b" unfolding W .
  have top: "0 \<le> t" "t > 0 \<longrightarrow> a ! j \<noteq> 0 \<and> ?top \<noteq> 0" using limbs_value_bounds by (auto simp: t_def)
  have o: "overflow s' \<longrightarrow> D' > 0" using D(1,3) top(1) s'(2) uint_ge_0 [of c] unfolding D'_def word_less_def uint_0_eq by linarith
  have d: "D' > 0 \<longrightarrow> overflow s' \<or> (\<exists>i<Suc j. a ! i \<noteq> 0 \<and> limbs_value (drop (?W - i) b) \<noteq> 0)"
    using D(1,4) s'(2) top unsigned_greater_eq [of c] by (cases "D > 0"; cases "t > 0") (auto simp: D'_def less_Suc_eq word_less_def)
  show ?thesis unfolding s'_def [symmetric] mul_inv_def
    using e o d D(1) top(1) h l R(1) assms(2) by (auto simp: s' highest_step D'_def intro!: exI [of _ D'])
qed

lemma highest_value:
  assumes "highest a (length a) h" "0 < h"
  shows "2 ^ (32 * h) \<le> limbs_value a"
proof -
  have h: "h < length a" "a ! h \<noteq> 0" using assms by (auto simp: highest_def)
  have "a = take h a @ a ! h # drop (Suc h) a" using h(1) by (rule id_take_nth_drop)
  then have "limbs_value a = limbs_value (take h a) + 2 ^ (32 * h) * (uint (a ! h) + 2 ^ 32 * limbs_value (drop (Suc h) a))"
    using limbs_value_append [of "take h a" "a ! h # drop (Suc h) a"] h(1) by simp
  moreover have "1 \<le> uint (a ! h)" using h(2) uint_ge_0 [of "a ! h"] uint_0_iff [of "a ! h"] by linarith
  moreover have "0 \<le> limbs_value (drop (Suc h) a)" "0 \<le> limbs_value (take h a)" using limbs_value_bounds by simp_all
  moreover have "1 \<le> x \<Longrightarrow> 2 ^ (32 * h) \<le> 2 ^ (32 * h) * x" for x :: int by simp
  ultimately show ?thesis by (smt (verit) zero_le_mult_iff zero_le_power)
qed

lemma value_nonzero: "limbs_value pn \<noteq> 0 \<Longrightarrow> \<exists>i<length pn. pn ! i \<noteq> 0"
proof (rule ccontr)
  assume *: "limbs_value pn \<noteq> 0" "\<not> (\<exists>i<length pn. pn ! i \<noteq> 0)"
  then have "pn = replicate (length pn) 0" by (intro nth_equalityI) auto
  then show False using *(1) by (metis replicate_value)
qed

lemma MultiplyBy_value:
  assumes "length b = length a" "a \<noteq> []"
  shows "length (fst (MultiplyBy a b)) = length a"
    "limbs_value (fst (MultiplyBy a b)) = (limbs_value a * limbs_value b) mod 2 ^ (32 * length a)"
    "snd (MultiplyBy a b) \<longleftrightarrow> limbs_value a * limbs_value b < 2 ^ (32 * length a)"
proof -
  let ?W = "length a" and ?s0 = "\<lparr>mul_pn = replicate (length a) 0, overflow = False, highestNonzeroA = 0, highestNonzeroB = 0\<rparr>"
  define s where "s = fold (mul_step a b) [0..<?W] ?s0"
  have "n \<le> ?W \<Longrightarrow> mul_inv a b n (fold (mul_step a b) [0..<n] ?s0)" for n
    by (induction n) (auto simp: mul_step_inv assms(1) mul_inv_def [of a b 0] highest_def)
  then have "mul_inv a b ?W s" by (simp add: s_def)
  then obtain D where D: "0 \<le> D" "limbs_value (mul_pn s) + 2 ^ (32 * ?W) * D = limbs_value a * limbs_value b" "overflow s \<longrightarrow> D > 0"
    "D > 0 \<longrightarrow> overflow s \<or> (\<exists>i<?W. a ! i \<noteq> 0 \<and> limbs_value (drop (?W - i) b) \<noteq> 0)" and l: "length (mul_pn s) = ?W"
    and h: "highest a ?W (highestNonzeroA s)" "highest b ?W (highestNonzeroB s)"
    by (auto simp: mul_inv_def)
  have M: "MultiplyBy a b = (mul_pn s, \<not> (overflow s \<or> highestNonzeroA s + highestNonzeroB s \<ge> ?W))"
    by (simp add: MultiplyBy_def Let_def flip: s_def)
  have v: "limbs_value (mul_pn s) = (limbs_value a * limbs_value b) mod 2 ^ (32 * ?W)"
    unfolding D(2) [symmetric] using limbs_value_bounds [of "mul_pn s"] l by simp
  have "2 ^ (32 * ?W) \<le> 2 ^ (32 * ?W) * D" if "D \<noteq> 0" using that D(1) by simp
  moreover have "limbs_value (mul_pn s) < 2 ^ (32 * ?W)" "0 \<le> limbs_value (mul_pn s)" using limbs_value_bounds [of "mul_pn s"] l by simp_all
  ultimately have fit: "D = 0 \<longleftrightarrow> limbs_value a * limbs_value b < 2 ^ (32 * ?W)"
    unfolding D(2) [symmetric] by (metis add.right_neutral add_increasing mult_zero_right not_less)
  have 1: "D > 0" if W: "highestNonzeroA s + highestNonzeroB s \<ge> ?W" "?W > 0"
  proof -
    let ?A = "highestNonzeroA s" and ?B = "highestNonzeroB s"
    have p: "?A > 0" "?B > 0" using W h assms(1) by (auto simp: highest_def)
    have "(2 :: int) ^ (32 * ?W) \<le> 2 ^ (32 * ?A + 32 * ?B)" using W(1) by (intro power_increasing) auto
    also have "\<dots> \<le> limbs_value a * limbs_value b"
      unfolding power_add using highest_value [OF h(1) p(1)] highest_value [of b ?B] h(2) p(2) assms(1) limbs_value_bounds by (intro mult_mono) auto
    finally show ?thesis using fit D(1) by linarith
  qed
  have 2: "overflow s \<or> highestNonzeroA s + highestNonzeroB s \<ge> ?W" if "D > 0"
  proof (rule disjCI)
    assume no: "\<not> highestNonzeroA s + highestNonzeroB s \<ge> ?W"
    {
      fix i assume i: "i < ?W" "a ! i \<noteq> 0" "limbs_value (drop (?W - i) b) \<noteq> 0"
      then obtain m where "m < i" "b ! (?W - i + m) \<noteq> 0" using value_nonzero [OF i(3)] assms(1) by auto
      then have "?W - i + m \<le> highestNonzeroB s" "i \<le> highestNonzeroA s" using h i by (auto simp: highest_def)
      then have False using no i(1) by linarith
    }
    then show "overflow s" using D(4) that by blast
  qed
  show "length (fst (MultiplyBy a b)) = length a" "limbs_value (fst (MultiplyBy a b)) = (limbs_value a * limbs_value b) mod 2 ^ (32 * length a)"
    unfolding M fst_conv using l v by simp_all
  show "snd (MultiplyBy a b) \<longleftrightarrow> limbs_value a * limbs_value b < 2 ^ (32 * length a)"
    unfolding M snd_conv fit [symmetric] using 1 2 D(1,3) assms(2) by (cases "D > 0") auto
qed

section \<open>Shifts\<close>

lemma shl_fold:
  "n \<le> length a \<Longrightarrow> length (fold (shl_step a k sh) [0..<n] (replicate (length a) 0)) = length a \<and>
   (\<forall>m<length a. fold (shl_step a k sh) [0..<n] (replicate (length a) 0) ! m =
     (if k \<le> m \<and> m - k < n then push_bit sh (a ! (m - k)) else 0) OR (if k < m \<and> m - k - 1 < n \<and> sh \<noteq> 0 then drop_bit (32 - sh) (a ! (m - k - 1)) else 0))"
proof (induction n)
  case (Suc n)
  define pn where "pn = fold (shl_step a k sh) [0..<n] (replicate (length a) 0)"
  have I: "length pn = length a" "\<And>m. m < length a \<Longrightarrow> pn ! m =
     (if k \<le> m \<and> m - k < n then push_bit sh (a ! (m - k)) else 0) OR (if k < m \<and> m - k - 1 < n \<and> sh \<noteq> 0 then drop_bit (32 - sh) (a ! (m - k - 1)) else 0)"
    using Suc by (simp_all add: pn_def)
  have f: "fold (shl_step a k sh) [0..<Suc n] (replicate (length a) 0) = shl_step a k sh n pn" by (simp add: pn_def)
  have l: "length (shl_step a k sh n pn) = length a" using I(1) by (simp add: shl_step_def Let_def)
  have "shl_step a k sh n pn ! m = (if m = n + k then pn ! m OR push_bit sh (a ! n) else if m = n + k + 1 \<and> sh \<noteq> 0 then pn ! m OR drop_bit (32 - sh) (a ! n) else pn ! m)"
    if "m < length a" for m
    using that I(1) by (auto simp: shl_step_def Let_def nth_list_update)
  moreover have "m = n + k \<or> m = n + k + 1 \<or> (k \<le> m \<longrightarrow> m - k \<noteq> n \<and> (k < m \<longrightarrow> m - k - 1 \<noteq> n))" for m by linarith
  ultimately show ?case unfolding f using l I(2) by (auto simp: less_Suc_eq or.assoc or.commute)
qed simp

lemma length_shl_assign [simp]: "length (shl_assign a s) = length a"
  using shl_fold [OF order_refl, of a] by (simp add: shl_assign_def)

lemma bit_high_32: "bit (p :: u32) n \<Longrightarrow> n < 32"
  using bit_imp_le_length [of p n] by simp

lemma div_mod_32: "x = 32 * q + t \<Longrightarrow> t < 32 \<Longrightarrow> x div 32 = q" "x = 32 * q + t \<Longrightarrow> t < 32 \<Longrightarrow> x mod 32 = t" for x :: nat
  by simp_all

lemma shl_assign_value: "limbs_value (shl_assign a s) = take_bit (32 * length a) (push_bit s (limbs_value a))"
proof (rule bit_eqI)
  fix n :: nat
  define k sh m r where d: "k = s div 32" "sh = s mod 32" "m = n div 32" "r = n mod 32"
  have n: "n = 32 * m + r" "r < 32" and s: "s = 32 * k + sh" "sh < 32" by (simp_all add: d)
  have lt: "m < length a \<longleftrightarrow> n < 32 * length a" using n by auto
  have L: "shl_assign a s ! m = (if k \<le> m \<and> m - k < length a then push_bit sh (a ! (m - k)) else 0) OR
      (if k < m \<and> m - k - 1 < length a \<and> sh \<noteq> 0 then drop_bit (32 - sh) (a ! (m - k - 1)) else 0)" if "m < length a"
    using shl_fold [OF order_refl, of a k sh] that unfolding shl_assign_def d(1,2) [symmetric] by blast
  have "bit (limbs_value (shl_assign a s)) n \<longleftrightarrow> n < 32 * length a \<and> s \<le> n \<and> bit (limbs_value a) (n - s)"
  proof (cases "sh \<le> r")
    case True
    have "s \<le> n \<longleftrightarrow> k \<le> m" using n s True by auto
    moreover have "(n - s) div 32 = m - k" "(n - s) mod 32 = r - sh" if "k \<le> m"
    proof -
      have "n - s = 32 * (m - k) + (r - sh)" using n s True that by (simp add: diff_mult_distrib2)
      moreover have "r - sh < 32" using n(2) by simp
      ultimately show "(n - s) div 32 = m - k" "(n - s) mod 32 = r - sh" by (rule div_mod_32)+
    qed
    moreover have "\<not> bit (a ! i) (32 - sh + r)" for i using True bit_high_32 [of "a ! i" "32 - sh + r"] s(2) by auto
    ultimately show ?thesis
      unfolding bit_limbs_value using L n(2) True lt by (auto simp: bit_or_iff bit_push_bit_iff bit_drop_bit_eq d(3,4) [symmetric] split: if_splits)
  next
    case False
    have "s \<le> n \<longleftrightarrow> k < m" using n s False by auto
    moreover have "(n - s) div 32 = m - k - 1" "(n - s) mod 32 = 32 - sh + r" if "k < m"
    proof -
      have "n - s = 32 * (m - k - 1) + (32 - sh + r)" using n s False that by (simp add: diff_mult_distrib2)
      moreover have "32 - sh + r < 32" using False s(2) by simp
      ultimately show "(n - s) div 32 = m - k - 1" "(n - s) mod 32 = 32 - sh + r" by (rule div_mod_32)+
    qed
    ultimately show ?thesis
      unfolding bit_limbs_value using L n(2) False lt by (auto simp: bit_or_iff bit_push_bit_iff bit_drop_bit_eq d(3,4) [symmetric] split: if_splits)
  qed
  then show "bit (limbs_value (shl_assign a s)) n \<longleftrightarrow> bit (take_bit (32 * length a) (push_bit s (limbs_value a))) n"
    by (simp add: bit_take_bit_iff bit_push_bit_iff)
qed

lemma shr_fold:
  "n \<le> length a \<Longrightarrow> length (fold (shr_step a k sh) [0..<n] (replicate (length a) 0)) = length a \<and>
   (\<forall>m<length a. fold (shr_step a k sh) [0..<n] (replicate (length a) 0) ! m =
     (if m + k < n then drop_bit sh (a ! (m + k)) else 0) OR (if m + k + 1 < n \<and> sh \<noteq> 0 then push_bit (32 - sh) (a ! (m + k + 1)) else 0))"
proof (induction n)
  case (Suc n)
  define pn where "pn = fold (shr_step a k sh) [0..<n] (replicate (length a) 0)"
  have I: "length pn = length a" "\<And>m. m < length a \<Longrightarrow> pn ! m =
     (if m + k < n then drop_bit sh (a ! (m + k)) else 0) OR (if m + k + 1 < n \<and> sh \<noteq> 0 then push_bit (32 - sh) (a ! (m + k + 1)) else 0)"
    using Suc by (simp_all add: pn_def)
  have f: "fold (shr_step a k sh) [0..<Suc n] (replicate (length a) 0) = shr_step a k sh n pn" by (simp add: pn_def)
  have l: "length (shr_step a k sh n pn) = length a" using I(1) by (simp add: shr_step_def Let_def)
  have "shr_step a k sh n pn ! m = (if m + k = n then pn ! m OR drop_bit sh (a ! n) else if m + k + 1 = n \<and> sh \<noteq> 0 then pn ! m OR push_bit (32 - sh) (a ! n) else pn ! m)"
    if "m < length a" for m
    using that I(1) by (auto simp: shr_step_def Let_def nth_list_update)
  then show ?case unfolding f using l I(2) by (auto simp: less_Suc_eq or.assoc or.commute)
qed simp

lemma length_shr_assign [simp]: "length (shr_assign a s) = length a"
  using shr_fold [OF order_refl, of a] by (simp add: shr_assign_def)

lemma shr_assign_value: "limbs_value (shr_assign a s) = drop_bit s (limbs_value a)"
proof (rule bit_eqI)
  fix n :: nat
  define k sh m r where d: "k = s div 32" "sh = s mod 32" "m = n div 32" "r = n mod 32"
  have n: "n = 32 * m + r" "r < 32" and s: "s = 32 * k + sh" "sh < 32" by (simp_all add: d)
  have L: "shr_assign a s ! m = (if m + k < length a then drop_bit sh (a ! (m + k)) else 0) OR
      (if m + k + 1 < length a \<and> sh \<noteq> 0 then push_bit (32 - sh) (a ! (m + k + 1)) else 0)" if "m < length a"
    using shr_fold [OF order_refl, of a k sh] that unfolding shr_assign_def d(1,2) [symmetric] by blast
  have "bit (limbs_value (shr_assign a s)) n \<longleftrightarrow> bit (limbs_value a) (s + n)"
  proof (cases "r + sh < 32")
    case True
    have "(s + n) div 32 = m + k" "(s + n) mod 32 = sh + r"
    proof -
      have "s + n = 32 * (m + k) + (sh + r)" using n s by simp
      moreover have "sh + r < 32" using True by simp
      ultimately show "(s + n) div 32 = m + k" "(s + n) mod 32 = sh + r" by (rule div_mod_32)+
    qed
    moreover have "\<not> 32 - sh \<le> r" using True by simp
    ultimately show ?thesis
      unfolding bit_limbs_value using L by (auto simp: bit_or_iff bit_push_bit_iff bit_drop_bit_eq d(3,4) [symmetric] split: if_splits)
  next
    case False
    have "(s + n) div 32 = m + k + 1" "(s + n) mod 32 = r - (32 - sh)"
    proof -
      have "s + n = 32 * (m + k + 1) + (r - (32 - sh))" using n s False by simp
      moreover have "r - (32 - sh) < 32" using n(2) by simp
      ultimately show "(s + n) div 32 = m + k + 1" "(s + n) mod 32 = r - (32 - sh)" by (rule div_mod_32)+
    qed
    moreover have "\<not> bit (a ! i) (sh + r)" for i using False bit_high_32 [of "a ! i" "sh + r"] by auto
    ultimately show ?thesis
      unfolding bit_limbs_value using L n(2) False s(2) by (auto simp: bit_or_iff bit_push_bit_iff bit_drop_bit_eq d(3,4) [symmetric] split: if_splits)
  qed
  then show "bit (limbs_value (shr_assign a s)) n \<longleftrightarrow> bit (drop_bit s (limbs_value a)) n" by (simp add: bit_drop_bit_eq)
qed

section \<open>Comparison and division\<close>

lemma limbs_value_take: "i < length pn \<Longrightarrow> limbs_value (take (Suc i) pn) = limbs_value (take i pn) + 2 ^ (32 * i) * uint (pn ! i)"
  using limbs_value_append [of "take i pn" "[pn ! i]"] by (simp add: take_Suc_conv_app_nth)

lemma compare_step:
  fixes x y :: int
  assumes "0 \<le> x" "x < m" "0 \<le> y" "p < q"
  shows "x + m * p < y + m * q"
proof -
  have "m * p + m * 1 \<le> m * q" using assms mult_left_mono [of "p + 1" q m] by (simp add: distrib_left)
  then show ?thesis using assms by simp
qed

lemma compare_loop_value: "i \<le> length pn \<Longrightarrow> i \<le> length b \<Longrightarrow> compare_loop pn b i = sgn (limbs_value (take i pn) - limbs_value (take i b))"
proof (induction i)
  case (Suc i)
  have B: "0 \<le> limbs_value (take i pn)" "limbs_value (take i pn) < 2 ^ (32 * i)" "0 \<le> limbs_value (take i b)" "limbs_value (take i b) < 2 ^ (32 * i)"
    using limbs_value_bounds [of "take i pn"] limbs_value_bounds [of "take i b"] Suc.prems by simp_all
  have v: "limbs_value (take (Suc i) pn) = limbs_value (take i pn) + 2 ^ (32 * i) * uint (pn ! i)"
    "limbs_value (take (Suc i) b) = limbs_value (take i b) + 2 ^ (32 * i) * uint (b ! i)"
    using Suc.prems by (simp_all add: limbs_value_take)
  consider "uint (pn ! i) < uint (b ! i)" | "uint (b ! i) < uint (pn ! i)" | "pn ! i = b ! i" using word_uint_eqI by (metis linorder_neqE)
  then show ?case
  proof cases
    case 1
    then have "compare_loop pn b (Suc i) = - 1" by (simp add: word_less_def)
    then show ?thesis using compare_step [OF B(1,2,3) 1] v by simp
  next
    case 2
    then have "compare_loop pn b (Suc i) = 1" by (simp add: word_less_def)
    then show ?thesis using compare_step [OF B(3,4,1) 2] v by simp
  next
    case 3
    then show ?thesis using Suc v by simp
  qed
qed simp

lemma CompareTo_value: "length pn = length b \<Longrightarrow> CompareTo pn b = sgn (limbs_value pn - limbs_value b)"
  by (simp add: CompareTo_def compare_loop_value)

lemma top_bit:
  fixes x :: int
  assumes "0 \<le> x" "x < 2 ^ Suc m"
  shows "bit x m \<longleftrightarrow> 2 ^ m \<le> x"
proof (cases "2 ^ m \<le> x")
  case True
  have "x div 2 ^ m = 1 + (x - 2 ^ m) div 2 ^ m" using True by (simp add: div_pos_geq)
  also have "(x - 2 ^ m) div 2 ^ m = 0" using True assms(2) by (intro div_pos_pos_trivial) auto
  finally show ?thesis using True by (simp add: bit_iff_odd)
qed (use assms in \<open>simp add: bit_iff_odd\<close>)

lemma bits_in_value:
  "p \<noteq> 0 \<Longrightarrow> uint p < 2 ^ Suc n \<Longrightarrow> n < 32 \<Longrightarrow> 0 < bits_in p n \<and> 2 ^ (bits_in p n - 1) \<le> uint p \<and> uint p < 2 ^ bits_in p n"
proof (induction n)
  case 0
  then have "1 \<le> uint p" using uint_ge_0 [of p] uint_0_iff [of p] by linarith
  then show ?case using 0 by simp
next
  case (Suc n)
  have b: "p AND push_bit (Suc n) 1 \<noteq> 0 \<longleftrightarrow> 2 ^ Suc n \<le> uint p"
    unfolding bit_iff_and_push_bit_not_eq_0 [symmetric] using top_bit [of "uint p" "Suc n"] Suc.prems by (simp add: bit_uint_iff)
  show ?case
  proof (cases "2 ^ Suc n \<le> uint p")
    case True
    then have "bits_in p (Suc n) = Suc n + 1" using b by simp
    then show ?thesis using True Suc.prems by simp
  next
    case False
    then have "bits_in p (Suc n) = bits_in p n" using b by simp
    then show ?thesis using Suc False by simp
  qed
qed

lemma bits_loop_value:
  "i \<le> length pn \<Longrightarrow> limbs_value (take i pn) < 2 ^ bits_loop pn i \<and> (bits_loop pn i > 0 \<longrightarrow> 2 ^ (bits_loop pn i - 1) \<le> limbs_value (take i pn)) \<and>
   bits_loop pn i \<le> 32 * i"
proof (induction i)
  case (Suc i)
  have v: "limbs_value (take (Suc i) pn) = limbs_value (take i pn) + 2 ^ (32 * i) * uint (pn ! i)" using Suc.prems by (simp add: limbs_value_take)
  have B: "0 \<le> limbs_value (take i pn)" "limbs_value (take i pn) < 2 ^ (32 * i)" using limbs_value_bounds [of "take i pn"] Suc.prems by simp_all
  show ?case
  proof (cases "pn ! i = 0")
    case False
    define k where "k = bits_in (pn ! i) 31"
    have k: "0 < k" "2 ^ (k - 1) \<le> uint (pn ! i)" "uint (pn ! i) < 2 ^ k" using bits_in_value [OF False, of 31] uint_less_32 [of "pn ! i"] by (simp_all add: k_def)
    have "bits_loop pn (Suc i) = 32 * i + k" using False by (simp add: k_def)
    moreover have "(2 :: int) ^ (32 * i + k - 1) \<le> limbs_value (take (Suc i) pn)"
      using k(1,2) B(1) mult_left_mono [of "2 ^ (k - 1)" "uint (pn ! i)" "2 ^ (32 * i)"] by (simp add: v flip: power_add)
    moreover have "limbs_value (take (Suc i) pn) < 2 ^ (32 * i + k)"
      using compare_step [OF B(1,2) order_refl k(3)] by (simp add: v power_add)
    moreover have "k \<le> 32"
    proof (rule ccontr)
      assume "\<not> k \<le> 32"
      then have "(2 :: int) ^ 32 \<le> 2 ^ (k - 1)" by (intro power_increasing) auto
      then show False using k(2) uint_less_32 [of "pn ! i"] by linarith
    qed
    ultimately show ?thesis by simp
  qed (use Suc v in auto)
qed simp

lemma bits_value:
  "limbs_value pn < 2 ^ bits pn" "bits pn > 0 \<Longrightarrow> 2 ^ (bits pn - 1) \<le> limbs_value pn" "bits pn \<le> 32 * length pn" "bits pn = 0 \<longleftrightarrow> limbs_value pn = 0"
proof -
  show 1: "limbs_value pn < 2 ^ bits pn" "bits pn > 0 \<Longrightarrow> 2 ^ (bits pn - 1) \<le> limbs_value pn" "bits pn \<le> 32 * length pn"
    using bits_loop_value [of "length pn" pn] by (simp_all add: bits_def)
  have "0 < bits pn \<Longrightarrow> (0 :: int) < 2 ^ (bits pn - 1)" by simp
  then show "bits pn = 0 \<longleftrightarrow> limbs_value pn = 0" using 1(1,2) limbs_value_bounds [of pn] by (cases "bits pn = 0") (auto simp: order.order_iff_strict)
qed

lemma set_limb_value:
  assumes "n < 32 * length pn"
  shows "limbs_value (pn[n div 32 := pn ! (n div 32) OR push_bit (n mod 32) 1]) = set_bit n (limbs_value pn)"
proof (rule bit_eqI)
  fix m :: nat
  have "n div 32 < length pn" using assms by (simp add: div_less_iff_less_mult mult.commute)
  moreover have "m = n \<longleftrightarrow> m div 32 = n div 32 \<and> m mod 32 = n mod 32" by (metis div_mult_mod_eq)
  moreover have "n mod 32 < 32" "m mod 32 < 32" by simp_all
  ultimately show "bit (limbs_value (pn[n div 32 := pn ! (n div 32) OR push_bit (n mod 32) 1])) m \<longleftrightarrow> bit (set_bit n (limbs_value pn)) m"
    unfolding bit_limbs_value by (auto simp: bit_set_bit_iff bit_limbs_value nth_list_update bit_or_iff bit_push_bit_iff bit_1_iff simp del: push_bit_of_1)
qed

lemma length_sub_assign [simp]: "length pn = length b \<Longrightarrow> length (sub_assign pn b) = length pn"
  by (simp add: sub_assign_def add_assign_def)

lemma div_loop_value:
  "0 < D \<Longrightarrow> length num = W \<Longrightarrow> length dv = W \<Longrightarrow> length pn = W \<Longrightarrow> n \<le> 32 * W \<Longrightarrow> (n > 0 \<longrightarrow> limbs_value dv = D * 2 ^ (n - 1)) \<Longrightarrow>
   limbs_value num < D * 2 ^ n \<Longrightarrow> (\<forall>m<n. \<not> bit (limbs_value pn) m) \<Longrightarrow>
   length (div_loop n num dv pn) = W \<and> limbs_value (div_loop n num dv pn) = limbs_value pn + limbs_value num div D"
proof (induction n arbitrary: num dv pn)
  case 0
  then show ?case using limbs_value_bounds [of num] by simp
next
  case (Suc shift)
  have dv: "limbs_value dv = D * 2 ^ shift" using Suc.prems by simp
  have shr: "shift > 0 \<longrightarrow> limbs_value (shr_assign dv 1) = D * 2 ^ (shift - 1)"
    by (cases shift) (simp_all add: shr_assign_value dv drop_bit_eq_div)
  show ?case
  proof (cases "limbs_value num \<ge> limbs_value dv")
    case True
    let ?num = "sub_assign num dv" and ?pn = "pn[shift div 32 := pn ! (shift div 32) OR push_bit (shift mod 32) 1]"
    have num: "limbs_value ?num = limbs_value num - D * 2 ^ shift"
      using Suc.prems(2,3) True limbs_value_bounds [of num] limbs_value_bounds [of dv] by (simp add: sub_assign_value dv [symmetric])
    have pn: "limbs_value ?pn = set_bit shift (limbs_value pn)" using set_limb_value [of shift pn] Suc.prems(4,5) by simp
    then have pn': "limbs_value ?pn = limbs_value pn + 2 ^ shift" using Suc.prems(8) by (simp add: set_bit_eq)
    have "CompareTo num dv \<ge> 0" using True Suc.prems(2,3) by (simp add: CompareTo_value sgn_if)
    then have e: "div_loop (Suc shift) num dv pn = div_loop shift ?num (shr_assign dv 1) ?pn" by simp
    have low: "\<forall>m. m < shift \<longrightarrow> \<not> bit (limbs_value ?pn) m" using Suc.prems(8) unfolding pn by (simp add: bit_set_bit_iff)
    have less: "limbs_value ?num < D * 2 ^ shift" using Suc.prems(7) by (simp add: num)
    have "length (div_loop shift ?num (shr_assign dv 1) ?pn) = W \<and>
        limbs_value (div_loop shift ?num (shr_assign dv 1) ?pn) = limbs_value ?pn + limbs_value ?num div D"
      using Suc.prems(1-5) shr low less by (intro Suc.IH) auto
    moreover have "limbs_value num div D = 2 ^ shift + limbs_value ?num div D"
      using Suc.prems(1) div_mult_self1 [of D "limbs_value ?num" "2 ^ shift"] by (simp add: num mult.commute)
    ultimately show ?thesis unfolding e pn' by simp
  next
    case False
    then have "\<not> CompareTo num dv \<ge> 0" using Suc.prems(2,3) by (simp add: CompareTo_value sgn_if)
    then have e: "div_loop (Suc shift) num dv pn = div_loop shift num (shr_assign dv 1) pn" by simp
    show ?thesis unfolding e using Suc.prems False shr dv by (intro Suc.IH) auto
  qed
qed

lemma div_assign_value:
  assumes "length b = length num"
  shows "case div_assign num b of Inl e \<Rightarrow> limbs_value b = 0
    | Inr q \<Rightarrow> limbs_value b \<noteq> 0 \<and> length q = length num \<and> limbs_value q = limbs_value num div limbs_value b"
proof -
  let ?n = "bits num" and ?d = "bits b" and ?D = "limbs_value b"
  note n = bits_value [of num] and d = bits_value [of b]
  consider (zero) "?d = 0" | (small) "?d > ?n" "?d > 0" | (loop) "?d > 0" "?d \<le> ?n" by linarith
  then show ?thesis
  proof cases
    case zero
    then show ?thesis using d(4) by (simp add: div_assign_def)
  next
    case small
    have "(2 :: int) ^ ?n \<le> 2 ^ (?d - 1)" using small by (intro power_increasing) auto
    then have "limbs_value num < ?D" using n(1) d(2) small(2) by linarith
    then show ?thesis using small d(4) limbs_value_bounds [of num] by (simp add: div_assign_def)
  next
    case loop
    define s where "s = ?n - ?d"
    have ns: "?n = ?d + s" using loop by (simp add: s_def)
    have D: "0 < ?D" using d(4) loop(1) limbs_value_bounds [of b] by (auto simp: order.order_iff_strict)
    have "?D * 2 ^ s < 2 ^ ?d * 2 ^ s" using d(1) by (intro mult_strict_right_mono) auto
    also have "\<dots> \<le> 2 ^ (32 * length num)" unfolding power_add [symmetric] ns [symmetric] using n(3) by (intro power_increasing) auto
    finally have "limbs_value (shl_assign b s) = ?D * 2 ^ s" using assms D by (simp add: shl_assign_value push_bit_eq_mult take_bit_int_eq_self_iff)
    moreover have "(2 :: int) ^ ?n \<le> ?D * 2 ^ Suc s"
      using mult_right_mono [OF d(2) [OF loop(1)], of "2 ^ Suc s"] loop(1) by (simp add: ns flip: power_add power_Suc)
    moreover have "Suc s \<le> 32 * length num" using n(3) ns loop(1) by simp
    ultimately have "length (div_loop (Suc s) num (shl_assign b s) (replicate (length num) 0)) = length num \<and>
       limbs_value (div_loop (Suc s) num (shl_assign b s) (replicate (length num) 0)) = 0 + limbs_value num div ?D"
      using div_loop_value [OF D, of num "length num" "shl_assign b s" "replicate (length num) 0" "Suc s"] n(1) assms by simp
    then show ?thesis using loop D by (simp add: div_assign_def s_def Let_def del: div_loop.simps)
  qed
qed

section \<open>256-bit words\<close>

definition limbs_of :: "u256 \<Rightarrow> limbs" where
  "limbs_of x = map (\<lambda>i. ucast (drop_bit (32 * i) x)) [0..<8]"

lemma length_limbs_of [simp]: "length (limbs_of x) = 8"
  by (simp add: limbs_of_def)

lemma limbs_of_value [simp]: "limbs_value (limbs_of x) = uint x"
proof (rule bit_eqI)
  fix n :: nat
  have "n div 32 < 8 \<longleftrightarrow> n < 256" by auto
  moreover have "bit (ucast (drop_bit (32 * i) x) :: u32) r \<longleftrightarrow> r < 32 \<and> bit x (32 * i + r)" for i r
    by (simp only: bit_ucast_iff bit_drop_bit_eq comp_def) simp
  moreover have "bit x n \<Longrightarrow> n < 256" using bit_imp_le_length [of x n] by simp
  ultimately show "bit (limbs_value (limbs_of x)) n \<longleftrightarrow> bit (uint x) n"
    by (auto simp: bit_limbs_value limbs_of_def bit_uint_iff simp del: drop_bit_of_nat)
qed

lemma limbs_eqI: "length pn = 8 \<Longrightarrow> limbs_value pn = uint x \<Longrightarrow> pn = limbs_of x"
  by (rule limbs_value_eqD) simp_all

lemma limbs_of_add: "add_assign (limbs_of a) (limbs_of b) = limbs_of (a + b)"
  by (rule limbs_eqI) (simp_all add: add_assign_def [of "limbs_of a" "limbs_of b"] add_assign_value uint_word_ariths add_loop_value)

lemma limbs_of_sub: "sub_assign (limbs_of a) (limbs_of b) = limbs_of (a - b)"
  by (rule limbs_eqI) (simp_all add: sub_assign_value uint_word_ariths)

lemma limbs_of_shl: "shl_assign (limbs_of a) n = limbs_of (push_bit n a)"
  by (rule limbs_eqI) (simp_all add: shl_assign_value unsigned_push_bit_eq)

lemma limbs_of_shr: "shr_assign (limbs_of a) n = limbs_of (drop_bit n a)"
  by (rule limbs_eqI) (simp_all add: shr_assign_value unsigned_drop_bit_eq bintr_uint)

lemma limbs_of_mul32: "mul32_assign (limbs_of a) b = limbs_of (a * ucast b)"
  by (rule limbs_eqI) (simp_all add: mul32_assign_def [of "limbs_of a"] mul32_loop_value uint_word_ariths unsigned_ucast_eq bintr_uint mult.commute)

lemma limbs_of_not_Nil [simp]: "limbs_of a \<noteq> []"
  using length_limbs_of [of a] by fastforce

lemma limbs_of_mul: "MultiplyBy (limbs_of a) (limbs_of b) = (limbs_of (a * b), uint a * uint b < 2 ^ 256)"
  using MultiplyBy_value [of "limbs_of b" "limbs_of a"] limbs_eqI [of "fst (MultiplyBy (limbs_of a) (limbs_of b))" "a * b"]
  by (simp add: prod_eq_iff uint_word_ariths)

lemma limbs_of_div: "div_assign (limbs_of a) (limbs_of b) = (if b = 0 then Inl DivisionByZero else Inr (limbs_of (a div b)))"
proof (cases "div_assign (limbs_of a) (limbs_of b)")
  case (Inl e)
  then show ?thesis using div_assign_value [of "limbs_of b" "limbs_of a"] by (cases e) (simp add: uint_0_iff)
next
  case (Inr q)
  then have "length q = 8" "limbs_value q = uint (a div b)" "b \<noteq> 0"
    using div_assign_value [of "limbs_of b" "limbs_of a"] by (auto simp: uint_div_distrib)
  then show ?thesis using Inr limbs_eqI [of q "a div b"] by simp
qed

lemma low_limb: "uint (ucast (b :: u64) :: u32) = uint b mod 2 ^ 32"
  by (simp add: unsigned_ucast_eq take_bit_eq_mod)

lemma high_limb: "uint (ucast (drop_bit 32 (b :: u64)) :: u32) = uint b div 2 ^ 32"
  using uint_high [of b] uint_high_less [of b] unfolding unsigned_ucast_eq by (simp add: take_bit_int_eq_self_iff pos_imp_zdiv_nonneg_iff)

lemma of_uint64_value: "limbs_value (of_uint64 8 b) = uint b"
  unfolding of_uint64_def append.simps limbs_value_simps high_limb unfolding low_limb by simp

lemma limbs_of_uint64: "of_uint64 8 b = limbs_of (ucast b)"
  by (rule limbs_eqI) (simp_all only: of_uint64_value, simp_all add: of_uint64_def unsigned_ucast_eq bintr_uint)

lemma all_less_8: "(\<forall>i<8. P i) \<longleftrightarrow> P 0 \<and> P 1 \<and> (\<forall>i\<in>{2..<8}. P i)" for P :: "nat \<Rightarrow> bool"
proof -
  have e: "i < 8 \<longleftrightarrow> i = 0 \<or> i = 1 \<or> i \<in> {2..<8}" for i :: nat by (simp, arith)
  show ?thesis unfolding e by blast
qed

lemma EqualTo_limbs:
  assumes "length pn = 8"
  shows "EqualTo pn b \<longleftrightarrow> pn = of_uint64 8 b"
proof -
  have low: "ucast p = b AND 0xffffffff \<longleftrightarrow> p = ucast b" for p :: u32
  proof -
    have "b AND 0xffffffff = take_bit 32 b" by (simp add: take_bit_eq_mask mask_eq_exp_minus_1)
    then have "uint (b AND 0xffffffff) = uint (ucast b :: u32)" by (simp only: unsigned_take_bit_eq unsigned_ucast_eq) simp
    then show ?thesis by (metis uint_ucast_64 word_uint_eqI)
  qed
  have high: "ucast p = drop_bit 32 b \<longleftrightarrow> p = ucast (drop_bit 32 b)" for p :: u32
    using uint_high [of b] high_limb [of b] by (metis uint_ucast_64 word_uint_eqI)
  have "pn = of_uint64 8 b \<longleftrightarrow> (\<forall>i<8. pn ! i = of_uint64 8 b ! i)" using assms by (simp add: list_eq_iff_nth_eq of_uint64_def)
  also have "\<dots> \<longleftrightarrow> pn ! 0 = of_uint64 8 b ! 0 \<and> pn ! 1 = of_uint64 8 b ! 1 \<and> (\<forall>i\<in>{2..<8}. pn ! i = of_uint64 8 b ! i)"
    by (rule all_less_8)
  also have "\<dots> \<longleftrightarrow> pn ! 0 = ucast b \<and> pn ! 1 = ucast (drop_bit 32 b) \<and> (\<forall>i\<in>{2..<8}. pn ! i = 0)"
  proof -
    have "of_uint64 8 b ! i = 0" if "i \<in> {2..<8}" for i using that by (auto simp: of_uint64_def nth_append nth_Cons')
    moreover have "of_uint64 8 b ! 0 = ucast b" "of_uint64 8 b ! 1 = ucast (drop_bit 32 b)" unfolding of_uint64_def by simp_all
    ultimately show ?thesis by simp
  qed
  finally show ?thesis unfolding EqualTo_def assms low high by blast
qed

lemma limbs_of_equal: "EqualTo (limbs_of a) b \<longleftrightarrow> a = ucast b"
  by (metis EqualTo_limbs length_limbs_of limbs_of_uint64 limbs_of_value word_uint_eqI)

section \<open>Properties\<close>

text \<open>
  C3: The limb arithmetic is that of 256-bit words, on all inputs: sums, differences and products wrap around at 256 bits, the division is
  exact and fails for a zero divisor only, shifts drop what leaves the word, and comparison and bit count read the value. The
  multiplication reports exactly whether the product fits.
\<close>

theorem big_integer_arithmetic:
  "add_assign (limbs_of a) (limbs_of b) = limbs_of (a + b) \<and> sub_assign (limbs_of a) (limbs_of b) = limbs_of (a - b) \<and>
   mul32_assign (limbs_of a) c = limbs_of (a * ucast c) \<and> MultiplyBy (limbs_of a) (limbs_of b) = (limbs_of (a * b), uint a * uint b < 2 ^ 256) \<and>
   div_assign (limbs_of a) (limbs_of b) = (if b = 0 then Inl DivisionByZero else Inr (limbs_of (a div b))) \<and>
   shl_assign (limbs_of a) n = limbs_of (push_bit n a) \<and> shr_assign (limbs_of a) n = limbs_of (drop_bit n a) \<and>
   CompareTo (limbs_of a) (limbs_of b) = (if a < b then -1 else if b < a then 1 else 0) \<and>
   of_uint64 8 d = limbs_of (ucast d) \<and> (EqualTo (limbs_of a) d \<longleftrightarrow> a = ucast d) \<and>
   uint a < 2 ^ bits (limbs_of a) \<and> (bits (limbs_of a) = 0 \<or> 2 ^ (bits (limbs_of a) - 1) \<le> uint a)"
proof -
  have "CompareTo (limbs_of a) (limbs_of b) = (if a < b then -1 else if b < a then 1 else 0)" by (simp add: CompareTo_value word_less_def sgn_if)
  moreover have "uint a < 2 ^ bits (limbs_of a)" "bits (limbs_of a) = 0 \<or> 2 ^ (bits (limbs_of a) - 1) \<le> uint a"
    using bits_value(1,2) [of "limbs_of a"] by auto
  ultimately show ?thesis by (simp only: limbs_of_add limbs_of_sub limbs_of_mul32 limbs_of_mul limbs_of_div limbs_of_shl limbs_of_shr limbs_of_uint64 limbs_of_equal simp_thms)
qed

end
