(* ===== verification/Compact.thy ===== *)
theory Compact
  imports Uint256
begin

text \<open>
  The compact form of targets (\<^verbatim>\<open>SetCompact\<close> and \<^verbatim>\<open>GetCompact\<close> of \<^verbatim>\<open>uint256.cpp\<close>): a mantissa of 23 bits, a sign, and an exponent of base 256. The theory
  shows what the form keeps of a number, and that the assertions of the encoder hold.
\<close>

section \<open>Compact form\<close>

text \<open>The value, the sign and the overflow flag.\<close>

definition SetCompact :: "u32 \<Rightarrow> u256 \<times> bool \<times> bool" where
  "SetCompact nCompact =
    (let nSize = unat (drop_bit 24 nCompact); nWord = nCompact AND 0x007fffff;
         nWord = (if nSize \<le> 3 then drop_bit (8 * (3 - nSize)) nWord else nWord);
         this = (if nSize \<le> 3 then ucast nWord else push_bit (8 * (nSize - 3)) (ucast nWord))
     in (this, nWord \<noteq> 0 \<and> nCompact AND 0x00800000 \<noteq> 0,
         nWord \<noteq> 0 \<and> (nSize > 34 \<or> nWord > 0xff \<and> nSize > 33 \<or> nWord > 0xffff \<and> nSize > 32)))"

definition GetLow64 :: "u256 \<Rightarrow> u64" where
  "GetLow64 x = ucast (limbs_of x ! 0) OR push_bit 32 (ucast (limbs_of x ! 1))"

definition GetCompact :: "u256 \<Rightarrow> bool \<Rightarrow> u32 option" where
  "GetCompact x fNegative =
    (let nSize = (bits (limbs_of x) + 7) div 8;
         nCompact = (if nSize \<le> 3 then ucast (push_bit (8 * (3 - nSize)) (GetLow64 x)) else (ucast (GetLow64 (drop_bit (8 * (nSize - 3)) x)) :: u32));
         (nCompact, nSize) = (if nCompact AND 0x00800000 \<noteq> 0 then (drop_bit 8 nCompact, nSize + 1) else (nCompact, nSize))
     in if nCompact AND NOT 0x007fffff \<noteq> 0 \<or> \<not> nSize < 256 then None
        else
          let nCompact = nCompact OR push_bit 24 (of_nat nSize)
          in Some (nCompact OR (if fNegative \<and> nCompact AND 0x007fffff \<noteq> 0 then 0x00800000 else 0)))"

section \<open>Words and numbers\<close>

lemma GetLow64_ucast: "GetLow64 x = ucast x"
proof (rule bit_word_eqI)
  fix n assume "n < LENGTH(64)"
  then have n: "n < 64" by simp
  have l: "limbs_of x ! 0 = ucast x" "limbs_of x ! 1 = ucast (drop_bit 32 x)" by (simp_all add: limbs_of_def)
  have "bit (ucast (ucast x :: u32) :: u64) n \<longleftrightarrow> n < 32 \<and> bit x n" using n by (simp add: bit_ucast_iff)
  moreover have "bit (push_bit 32 (ucast (ucast (drop_bit 32 x) :: u32)) :: u64) n \<longleftrightarrow> 32 \<le> n \<and> bit x n"
    using n unfolding bit_push_bit_iff bit_ucast_iff bit_drop_bit_eq comp_def by auto
  moreover have "bit (ucast x :: u64) n \<longleftrightarrow> bit x n" using n by (simp add: bit_ucast_iff)
  ultimately show "bit (GetLow64 x) n \<longleftrightarrow> bit (ucast x :: u64) n" unfolding GetLow64_def l bit_or_iff by auto
qed

lemma uint_GetLow64: "uint (GetLow64 x) = uint x mod 2 ^ 64"
  unfolding GetLow64_ucast unsigned_ucast_eq by (simp add: take_bit_eq_mod)

lemma or_shifted: "0 \<le> a \<Longrightarrow> a < 2 ^ n \<Longrightarrow> a OR push_bit n b = a + 2 ^ n * b" for a b :: int
  using concat_bit_eq [of n a b] by (simp add: concat_bit_def take_bit_int_eq_self push_bit_eq_mult mult.commute)

lemma uint_mantissa: "uint (c AND 0x007fffff) = uint c mod 2 ^ 23" for c :: u32
proof -
  have "c AND 0x007fffff = take_bit 23 c" by (simp add: take_bit_eq_mask mask_eq_exp_minus_1)
  then show ?thesis by (simp only: unsigned_take_bit_eq) (simp add: take_bit_eq_mod)
qed

lemma uint_exponent: "uint (drop_bit 24 c) = uint c div 2 ^ 24" for c :: u32
  unfolding unsigned_drop_bit_eq by (simp add: drop_bit_eq_div bintr_uint)

lemma sign_bit: "c AND 0x00800000 \<noteq> 0 \<longleftrightarrow> odd (uint c div 2 ^ 23)" for c :: u32
proof -
  have "(0x00800000 :: u32) = push_bit 23 1" by simp
  then have "c AND 0x00800000 \<noteq> 0 \<longleftrightarrow> bit c 23" by (simp only: bit_iff_and_push_bit_not_eq_0)
  moreover have "bit c 23 \<longleftrightarrow> bit (uint c) 23" by (simp add: bit_uint_iff)
  ultimately show ?thesis by (simp add: bit_iff_odd)
qed

lemma uint_drop_bit_32: "uint (drop_bit k c) = uint c div 2 ^ k" for c :: u32
  unfolding unsigned_drop_bit_eq by (simp add: drop_bit_eq_div bintr_uint)

lemma SetCompact_value:
  assumes "uint c = m + 2 ^ 24 * int n" "0 \<le> m" "m < 2 ^ 23" "n < 256"
  shows "n \<le> 3 \<Longrightarrow> SetCompact c = (word_of_int (m div 2 ^ (8 * (3 - n))), False, False)"
    "3 < n \<Longrightarrow> n \<le> 33 \<Longrightarrow> n = 33 \<longrightarrow> m < 2 ^ 16 \<Longrightarrow> SetCompact c = (word_of_int (m * 2 ^ (8 * (n - 3))), False, False)"
proof -
  define w where "w = c AND 0x007fffff"
  have e: "unat (drop_bit 24 c) = n" using assms by (simp only: unat_eq_nat_uint uint_exponent) simp
  have c: "uint c = m + 2 ^ 23 * (2 * int n)" using assms(1) by simp
  have w: "uint w = m" using assms(2,3) unfolding w_def uint_mantissa c mod_mult_self2 by simp
  have "uint c div 2 ^ 23 = 2 * int n" using assms(2,3) unfolding c by (subst div_mult_self2) simp_all
  then have s: "c AND 0x00800000 = 0" using sign_bit [of c] by simp
  {
    assume n: "n \<le> 3"
    then have "SetCompact c = (ucast (drop_bit (8 * (3 - n)) w), False, False)" unfolding SetCompact_def e w_def [symmetric] Let_def s by simp
    also have "ucast (drop_bit (8 * (3 - n)) w) = word_of_int (m div 2 ^ (8 * (3 - n)))" unfolding ucast_eq uint_drop_bit_32 w ..
    finally show "SetCompact c = (word_of_int (m div 2 ^ (8 * (3 - n))), False, False)" .
  next
    assume n: "3 < n" "n \<le> 33" "n = 33 \<longrightarrow> m < 2 ^ 16"
    then have "\<not> (w > 0xffff \<and> n > 32)" using w by (auto simp: word_less_def)
    then have "SetCompact c = (push_bit (8 * (n - 3)) (ucast w), False, False)"
      using n unfolding SetCompact_def e w_def [symmetric] Let_def s by simp
    also have "push_bit (8 * (n - 3)) (ucast w) = word_of_int (m * 2 ^ (8 * (n - 3)))" unfolding ucast_eq w by (simp add: push_bit_eq_mult)
    finally show "SetCompact c = (word_of_int (m * 2 ^ (8 * (n - 3))), False, False)" .
  }
qed

section \<open>Encoding\<close>

text \<open>The size in bytes and the mantissa before and after the sign bit is cleared.\<close>

definition byte_size :: "u256 \<Rightarrow> nat" where
  "byte_size x = (bits (limbs_of x) + 7) div 8"

definition mantissa :: "int \<Rightarrow> nat \<Rightarrow> int" where
  "mantissa X n = (if n \<le> 3 then X * 2 ^ (8 * (3 - n)) else X div 2 ^ (8 * (n - 3)))"

lemma div_less_int: "x < a * b \<Longrightarrow> 0 < b \<Longrightarrow> x div b < a" for x a b :: int
proof (rule ccontr)
  assume *: "x < a * b" "0 < b" "\<not> x div b < a"
  have "a * b \<le> x div b * b" using * by (intro mult_right_mono) auto
  also have "\<dots> \<le> x" using div_mult_mod_eq [of x b] pos_mod_sign [OF *(2), of x] by linarith
  finally show False using *(1) by simp
qed

lemma byte_size_bounds:
  "uint x < 2 ^ (8 * byte_size x)" "byte_size x \<noteq> 0 \<Longrightarrow> 2 ^ (8 * (byte_size x - 1)) \<le> uint x" "byte_size x \<le> 32"
proof -
  let ?b = "bits (limbs_of x)"
  have b: "?b \<le> 8 * byte_size x" "byte_size x \<noteq> 0 \<Longrightarrow> 8 * (byte_size x - 1) \<le> ?b - 1 \<and> 0 < ?b" by (simp_all add: byte_size_def) arith+
  show "byte_size x \<le> 32" using bits_value(3) [of "limbs_of x"] by (simp add: byte_size_def)
  show "uint x < 2 ^ (8 * byte_size x)" by (rule less_le_trans [OF bits_value(1) [of "limbs_of x", simplified] power_increasing [OF b(1)]]) simp
  show "2 ^ (8 * (byte_size x - 1)) \<le> uint x" if "byte_size x \<noteq> 0"
    using order_trans [OF power_increasing [of "8 * (byte_size x - 1)" "?b - 1" "2 :: int"] bits_value(2) [of "limbs_of x"]] b(2) [OF that] by simp
qed

lemma mantissa_bounds:
  assumes "n = byte_size x"
  shows "0 \<le> mantissa (uint x) n" "mantissa (uint x) n < 2 ^ 24"
proof -
  have u: "uint x < 2 ^ (8 * n)" using byte_size_bounds(1) assms by simp
  show "0 \<le> mantissa (uint x) n" by (simp add: mantissa_def pos_imp_zdiv_nonneg_iff)
  show "mantissa (uint x) n < 2 ^ 24"
  proof (cases "n \<le> 3")
    case True
    then have "uint x * 2 ^ (8 * (3 - n)) < 2 ^ (8 * n) * 2 ^ (8 * (3 - n))" using u by simp
    also have "\<dots> = 2 ^ (8 * n + 8 * (3 - n))" by (simp add: power_add)
    also have "8 * n + 8 * (3 - n) = 24" using True by simp
    finally show ?thesis using True by (simp add: mantissa_def)
  next
    case False
    then have "8 * n = 24 + 8 * (n - 3)" by simp
    then have "(2 :: int) ^ (8 * n) = 2 ^ 24 * 2 ^ (8 * (n - 3))" by (simp only: power_add)
    then show ?thesis using False u by (simp add: mantissa_def div_less_int)
  qed
qed

lemma uint_ucast_small: "uint (y :: u64) < 2 ^ 24 \<Longrightarrow> uint (ucast y :: u32) = uint y"
  unfolding unsigned_ucast_eq by (simp add: take_bit_int_eq_self_iff)

lemma raw_mantissa:
  "uint (if byte_size x \<le> 3 then ucast (push_bit (8 * (3 - byte_size x)) (GetLow64 x)) else (ucast (GetLow64 (drop_bit (8 * (byte_size x - 3)) x)) :: u32)) =
   mantissa (uint x) (byte_size x)"
proof -
  let ?n = "byte_size x"
  note m = mantissa_bounds [of ?n x, OF refl]
  show ?thesis
  proof (cases "?n \<le> 3")
    case True
    have "uint x < 2 ^ 24" by (rule less_le_trans [OF byte_size_bounds(1) power_increasing]) (use True in auto)
    then have "uint (GetLow64 x) = uint x" by (simp add: uint_GetLow64)
    then have "uint (push_bit (8 * (3 - ?n)) (GetLow64 x)) = mantissa (uint x) ?n"
      unfolding unsigned_push_bit_eq using m True by (simp add: push_bit_eq_mult mantissa_def take_bit_int_eq_self_iff)
    then show ?thesis using True m(2) uint_ucast_small by simp
  next
    case False
    have d: "uint (drop_bit (8 * (?n - 3)) x) = mantissa (uint x) ?n"
      unfolding unsigned_drop_bit_eq using False by (simp add: mantissa_def drop_bit_eq_div bintr_uint)
    then have "uint (GetLow64 (drop_bit (8 * (?n - 3)) x)) = mantissa (uint x) ?n" unfolding uint_GetLow64 d using m by simp
    then show ?thesis using False m(2) uint_ucast_small by simp
  qed
qed

lemma high_clear: "uint (c :: u32) < 2 ^ 23 \<Longrightarrow> c AND NOT 0x007fffff = 0"
proof -
  assume c: "uint c < 2 ^ 23"
  have m: "(0x007fffff :: u32) = mask 23" by (simp add: mask_eq_exp_minus_1)
  have "take_bit 23 c = c" using c by (intro word_uint_eqI) (simp only: unsigned_take_bit_eq, simp add: take_bit_int_eq_self_iff)
  then have "c = c AND mask 23" by (simp only: take_bit_eq_mask)
  then show ?thesis unfolding m by (metis and.assoc and.right_neutral bit.conj_cancel_right and_zero_eq)
qed

text \<open>The final mantissa and size.\<close>

definition final_size :: "u256 \<Rightarrow> nat" where
  "final_size x = (if 2 ^ 23 \<le> mantissa (uint x) (byte_size x) then byte_size x + 1 else byte_size x)"

definition final_mantissa :: "u256 \<Rightarrow> int" where
  "final_mantissa x = (if 2 ^ 23 \<le> mantissa (uint x) (byte_size x) then mantissa (uint x) (byte_size x) div 2 ^ 8 else mantissa (uint x) (byte_size x))"

lemma final_bounds: "0 \<le> final_mantissa x" "final_mantissa x < 2 ^ 23" "final_size x \<le> 33" "final_size x = 33 \<longrightarrow> final_mantissa x < 2 ^ 16"
  using mantissa_bounds [of _ x, OF refl] byte_size_bounds(3) [of x] div_less_int [of "mantissa (uint x) (byte_size x)" "2 ^ 16" "2 ^ 8"]
  by (auto simp: final_mantissa_def final_size_def pos_imp_zdiv_nonneg_iff)

lemma GetCompact_value: "\<exists>c. GetCompact x False = Some c \<and> uint c = final_mantissa x + 2 ^ 24 * int (final_size x)"
proof -
  define w where "w = (if byte_size x \<le> 3 then ucast (push_bit (8 * (3 - byte_size x)) (GetLow64 x)) else (ucast (GetLow64 (drop_bit (8 * (byte_size x - 3)) x)) :: u32))"
  have w: "uint w = mantissa (uint x) (byte_size x)" unfolding w_def by (rule raw_mantissa)
  note m = mantissa_bounds [of _ x, OF refl]
  have "odd (uint w div 2 ^ 23) \<longleftrightarrow> 2 ^ 23 \<le> mantissa (uint x) (byte_size x)"
    using top_bit [of "uint w" 23] m by (simp add: w bit_iff_odd)
  then have sgn: "w AND 0x00800000 \<noteq> 0 \<longleftrightarrow> 2 ^ 23 \<le> mantissa (uint x) (byte_size x)" by (simp only: sign_bit)
  define c where "c = (if 2 ^ 23 \<le> mantissa (uint x) (byte_size x) then drop_bit 8 w else w)"
  have c: "uint c = final_mantissa x" unfolding c_def final_mantissa_def w [symmetric] by (simp add: uint_drop_bit_32 del: drop_bit_eq_div)
  have g: "GetCompact x False = (if c AND NOT 0x007fffff \<noteq> 0 \<or> \<not> final_size x < 256 then None else Some (c OR push_bit 24 (of_nat (final_size x)) OR 0))"
    unfolding GetCompact_def byte_size_def [symmetric] w_def [symmetric] Let_def sgn c_def final_size_def by simp
  have "c AND NOT 0x007fffff = 0" using high_clear c final_bounds(2) by simp
  then have "GetCompact x False = Some (c OR push_bit 24 (of_nat (final_size x)))" unfolding g using final_bounds(3) [of x] by simp
  moreover have "uint (c OR push_bit 24 (of_nat (final_size x))) = final_mantissa x + 2 ^ 24 * int (final_size x)"
  proof -
    have n: "uint (of_nat (final_size x) :: u32) = int (final_size x)" using final_bounds(3) [of x] by (simp add: unsigned_of_nat take_bit_nat_eq_self_iff)
    have "uint (push_bit 24 (of_nat (final_size x)) :: u32) = push_bit 24 (int (final_size x))"
      unfolding unsigned_push_bit_eq n using final_bounds(3) [of x] by (simp add: take_bit_int_eq_self_iff push_bit_eq_mult)
    then show ?thesis using or_shifted [of "final_mantissa x" 24 "int (final_size x)"] final_bounds(1,2) [of x] by (simp only: unsigned_or_eq c) simp
  qed
  ultimately show ?thesis by blast
qed

section \<open>Properties\<close>

lemma low_cleared: "word_of_int (uint x div 2 ^ k * 2 ^ k) = push_bit k (drop_bit k (x :: u256))"
proof -
  have "uint (drop_bit k x) = uint x div 2 ^ k" unfolding unsigned_drop_bit_eq by (simp add: drop_bit_eq_div bintr_uint)
  then have "drop_bit k x = word_of_int (uint x div 2 ^ k)" by (metis word_of_int_uint)
  then show ?thesis by (simp only: push_bit_eq_mult) simp
qed

lemma final_value:
  defines "k x \<equiv> 8 * (final_size x - 3)"
  shows "final_size x \<le> 3 \<Longrightarrow> final_mantissa x div 2 ^ (8 * (3 - final_size x)) = uint x"
    "3 < final_size x \<Longrightarrow> final_mantissa x = uint x div 2 ^ k x \<and> 2 ^ (k x + 15) \<le> uint x"
proof -
  let ?n = "byte_size x" and ?M = "mantissa (uint x) (byte_size x)"
  note size = byte_size_bounds [of x] and defs = final_size_def final_mantissa_def
  show "final_mantissa x div 2 ^ (8 * (3 - final_size x)) = uint x" if le: "final_size x \<le> 3"
  proof (cases "2 ^ 23 \<le> ?M")
    case True
    then have n: "?n < 3" using le by (simp add: final_size_def)
    then have e: "8 * (3 - ?n) = 8 + 8 * (3 - (?n + 1))" by simp
    have "?M div 2 ^ 8 = uint x * 2 ^ (8 * (3 - (?n + 1)))" using n unfolding mantissa_def e power_add by simp
    then show ?thesis using True by (simp add: defs)
  next
    case False
    then show ?thesis using le by (simp add: defs mantissa_def)
  qed
  show "final_mantissa x = uint x div 2 ^ k x \<and> 2 ^ (k x + 15) \<le> uint x" if gt: "3 < final_size x"
  proof (cases "2 ^ 23 \<le> ?M")
    case True
    then have f: "final_size x = ?n + 1" "final_mantissa x = ?M div 2 ^ 8" and n: "3 \<le> ?n" using gt by (simp_all add: defs)
    have k: "k x = 8 * (?n - 3) + 8" using n by (simp add: k_def f)
    have M: "?M = uint x div 2 ^ (8 * (?n - 3))" using n by (cases "?n = 3") (simp_all add: mantissa_def)
    have "2 ^ 23 * 2 ^ (8 * (?n - 3)) \<le> ?M * 2 ^ (8 * (?n - 3))" using True by simp
    also have "\<dots> \<le> uint x" unfolding M using div_mult_mod_eq [of "uint x" "2 ^ (8 * (?n - 3))"] pos_mod_sign [of "2 ^ (8 * (?n - 3))" "uint x"]
      by (simp del: div_mult_mod_eq pos_mod_sign)
    finally have "2 ^ (k x + 15) \<le> uint x" unfolding k by (simp add: power_add)
    moreover have "final_mantissa x = uint x div 2 ^ k x" unfolding f M k power_add by (simp add: zdiv_zmult2_eq)
    ultimately show ?thesis by simp
  next
    case False
    then have f: "final_size x = ?n" "final_mantissa x = ?M" using gt by (simp_all add: defs)
    have "(2 :: int) ^ (k x + 15) \<le> 2 ^ (8 * (?n - 1))" using gt f by (intro power_increasing) (auto simp: k_def)
    also have "\<dots> \<le> uint x" using size(2) gt f by simp
    finally have "2 ^ (k x + 15) \<le> uint x" .
    then show ?thesis using f gt by (simp add: mantissa_def k_def)
  qed
qed

lemma compact_exists:
  "\<exists>c k. GetCompact x False = Some c \<and> SetCompact c = (push_bit k (drop_bit k x), False, False) \<and> (k = 0 \<or> 2 ^ (k + 15) \<le> uint x)"
proof -
  let ?n = "final_size x" and ?m = "final_mantissa x"
  obtain c where c: "GetCompact x False = Some c" "uint c = ?m + 2 ^ 24 * int ?n" using GetCompact_value by blast
  note b = final_bounds [of x]
  have n: "?n < 256" using b(3) by simp
  show ?thesis
  proof (cases "?n \<le> 3")
    case True
    then have "SetCompact c = (x, False, False)"
      using SetCompact_value(1) [OF c(2) b(1,2) n] final_value(1) [of x] by simp
    then show ?thesis using c(1) by (intro exI [of _ c] exI [of _ 0]) simp
  next
    case False
    then have f: "?m = uint x div 2 ^ (8 * (?n - 3))" "2 ^ (8 * (?n - 3) + 15) \<le> uint x" using final_value(2) [of x] by simp_all
    have "SetCompact c = (word_of_int (?m * 2 ^ (8 * (?n - 3))), False, False)"
      using SetCompact_value(2) [OF c(2) b(1,2) n _ b(3,4)] False by simp
    moreover have "word_of_int (?m * 2 ^ (8 * (?n - 3))) = push_bit (8 * (?n - 3)) (drop_bit (8 * (?n - 3)) x)"
      unfolding f(1) by (rule low_cleared)
    ultimately show ?thesis using c(1) f(2) by (intro exI [of _ c] exI [of _ "8 * (?n - 3)"]) simp
  qed
qed

text \<open>
  C37: Every number has a compact form: the assertions of the encoder hold. Reading the form gives the number with its low bytes cleared, without sign
  and overflow; either nothing is cleared, or at least the 16 leading bits are kept.
\<close>

theorem compact_roundtrip:
  "\<exists>c k. GetCompact x False = Some c \<and> SetCompact c = (push_bit k (drop_bit k x), False, False) \<and> (k = 0 \<or> 2 ^ (k + 15) \<le> uint x)"
  by (rule compact_exists)

end
