(* ===== verification/Pow.thy ===== *)
theory Pow
  imports Tx_Serialize Subsidies Compact
begin

text \<open>
  Work and stakes (\<^verbatim>\<open>pow.cpp\<close>, \<^verbatim>\<open>GetBlockTrust\<close> of \<^verbatim>\<open>chain.cpp\<close>, \<^verbatim>\<open>ProofOfStakeCalculator.cpp\<close>). The theory shows that the work of a block is
  computed exactly, that the required target stays within its limit, and that the test of a stake against its target is the one over unbounded
  integers. Values of \<^verbatim>\<open>uint256\<close> are words here, by the theory \<open>Uint256\<close>; where the code asks for an overflow, the limbs are used.
\<close>

section \<open>Work\<close>

record pow_params =
  LAST_POW_BLOCK :: int
  ProofOfWorkLimit :: u256
  RetargetDifficulty :: bool
  TargetSpacing :: int

definition CheckProofOfWork :: "pow_params \<Rightarrow> u256 \<Rightarrow> u32 \<Rightarrow> bool" where
  "CheckProofOfWork P hash bits_in_header =
    (let (bnTarget, fNegative, fOverflow) = SetCompact bits_in_header
     in if fNegative \<or> bnTarget = 0 \<or> fOverflow \<or> bnTarget > ProofOfWorkLimit P then False
        else if hash > bnTarget then False
        else True)"

definition u256_div :: "u256 \<Rightarrow> u256 \<Rightarrow> uint_error + u256" where
  "u256_div a b = (if b = 0 then Inl DivisionByZero else Inr (a div b))"

definition GetBlockProof :: "CBlockIndex \<Rightarrow> uint_error + u256" where
  "GetBlockProof block =
    (let (bnTarget, fNegative, fOverflow) = SetCompact (nBits (data block))
     in if fNegative \<or> fOverflow \<or> bnTarget = 0 then Inr 0
        else ebind (u256_div (NOT bnTarget) (bnTarget + 1)) (\<lambda>q. Inr (q + 1)))"

definition GetBlockTrust :: "CBlockIndex \<Rightarrow> uint_error + u256" where
  "GetBlockTrust b =
    (let bnTarget = fst (SetCompact (nBits (data b)))
     in if bnTarget \<le> 0 then Inr 0
        else if IsProofOfStake (data b) then u256_div (push_bit 256 1) (bnTarget + 1)
        else ebind (u256_div (drop_bit 20 (NOT 0)) (bnTarget + 1)) (\<lambda>bnPoWTrust. Inr (if bnPoWTrust > 1 then bnPoWTrust else 1)))"

text \<open>
  The required target after a block; \<open>None\<close> stands for a null pointer, a failed assertion or a division by zero. In
  the stage of proof of work, the average of the targets of the last 24 blocks is scaled by the time they took.
\<close>

record average_state =
  nActualTimespan :: int
  LastBlockTime :: int
  CountBlocks :: int
  PastDifficultyAverage :: u256

definition average_step :: "CBlockIndex \<Rightarrow> average_state \<Rightarrow> average_state" where
  "average_step b s =
    (let CountBlocks' = CountBlocks s + 1;
         avg = (if CountBlocks' \<le> 24 then
                  if CountBlocks' = 1 then fst (SetCompact (nBits (data b)))
                  else (PastDifficultyAverage s * ucast (word_of_int CountBlocks' :: u32) + fst (SetCompact (nBits (data b)))) div
                    ucast (word_of_int (CountBlocks' + 1) :: u64)
                else PastDifficultyAverage s);
         span = (if LastBlockTime s > 0 then nActualTimespan s + (LastBlockTime s - GetBlockTime b) else nActualTimespan s)
     in \<lparr>nActualTimespan = span, LastBlockTime = GetBlockTime b, CountBlocks = CountBlocks', PastDifficultyAverage = avg\<rparr>)"

fun average_loop :: "nat \<Rightarrow> CBlockIndex option \<Rightarrow> average_state \<Rightarrow> average_state" where
  "average_loop 0 b s = s"
| "average_loop (Suc n) None s = s"
| "average_loop (Suc n) (Some b) s = (if nHeight b > 0 then average_loop n (pprev b) (average_step b s) else s)"

definition stake_retarget :: "CBlockIndex \<Rightarrow> u32 option" where
  "stake_retarget pindexLast =
    (let bnTargetLimit = drop_bit 24 (NOT 0) :: u256
     in Option.bind (if nHeight pindexLast \<noteq> 0 then
          (case pprev pindexLast of None \<Rightarrow> None | Some p \<Rightarrow> Some (GetBlockTime pindexLast - GetBlockTime p)) else Some 0) (\<lambda>nActualSpacing.
       let nActualSpacing = (if nActualSpacing < 0 then 1 else nActualSpacing);
           bnNew = fst (SetCompact (nBits (data pindexLast)));
           nInterval = 60 * 40 div 60;
           bnNew = bnNew * ucast (word_of_int ((nInterval - 1) * 60 + nActualSpacing + nActualSpacing) :: u32);
           bnNew = bnNew div ucast (word_of_int ((nInterval + 1) * 60) :: u64);
           bnNew = (if bnNew \<le> 0 \<or> bnNew > bnTargetLimit then bnTargetLimit else bnNew)
       in GetCompact bnNew False))"

definition GetNextWorkRequired :: "pow_params \<Rightarrow> CBlockIndex option \<Rightarrow> u32 option" where
  "GetNextWorkRequired P pindexLast =
    (case pindexLast of
       None \<Rightarrow> GetCompact (ProofOfWorkLimit P) False
     | Some b \<Rightarrow>
         if nHeight b = 0 \<or> nHeight b < 24 then GetCompact (ProofOfWorkLimit P) False
         else if \<not> RetargetDifficulty P then Some (nBits (data b))
         else if nHeight b > LAST_POW_BLOCK P then stake_retarget b
         else
           let s = average_loop 24 (Some b) \<lparr>nActualTimespan = 0, LastBlockTime = 0, CountBlocks = 0, PastDifficultyAverage = 0\<rparr>;
               nTargetTimespan = CountBlocks s * TargetSpacing P;
               span = (if nActualTimespan s < nTargetTimespan sdiv 3 then nTargetTimespan sdiv 3 else nActualTimespan s);
               span = (if span > nTargetTimespan * 3 then nTargetTimespan * 3 else span);
               bnNew = PastDifficultyAverage s * ucast (word_of_int span :: u32)
           in case u256_div bnNew (ucast (word_of_int nTargetTimespan :: u64)) of
                Inl e \<Rightarrow> None
              | Inr bnNew \<Rightarrow> GetCompact (if bnNew > ProofOfWorkLimit P then ProofOfWorkLimit P else bnNew) False)"

section \<open>Stakes\<close>

record StakingData =
  sd_nBits :: u32
  sd_blockTimeOfFirstConfirmationBlock :: u32
  sd_blockHashOfFirstConfirmationBlock :: u256
  sd_utxoBeingStaked :: COutPoint
  sd_utxoValue :: int
  sd_blockHashOfChainTipBlock :: u256

definition MAXIMUM_COIN_AGE_WEIGHT_FOR_STAKING :: int where
  "MAXIMUM_COIN_AGE_WEIGHT_FOR_STAKING = 60 * 60 * 24 * 7 - 60 * 60"

definition stakeHash :: "(bytes \<Rightarrow> u256) \<Rightarrow> u64 \<Rightarrow> u32 \<Rightarrow> COutPoint \<Rightarrow> u32 \<Rightarrow> u256" where
  "stakeHash Hash stakeModifier hashproofTimestamp utxo coinstakeStartTime =
    Hash (le_bytes 8 (uint stakeModifier) @ le_bytes 4 (uint coinstakeStartTime) @ le_bytes 4 (uint (op_n utxo)) @
      le_bytes 32 (uint (op_hash utxo)) @ le_bytes 4 (uint hashproofTimestamp))"

definition stakeTargetHit :: "u256 \<Rightarrow> int \<Rightarrow> u256 \<Rightarrow> int \<Rightarrow> bool" where
  "stakeTargetHit hashProofOfStake nValueIn bnTargetPerCoinDay nTimeWeight =
    (let bnCoinDayWeight = (ucast (word_of_int nValueIn :: u64) * ucast (word_of_int nTimeWeight :: u32)) div
           ucast (word_of_int COIN :: u64) div 400;
         (target, fits) = MultiplyBy (limbs_of bnTargetPerCoinDay) (limbs_of bnCoinDayWeight)
     in if \<not> fits then True else CompareTo (limbs_of hashProofOfStake) target < 0)"

record ProofOfStakeCalculator =
  psc_utxoToStake :: COutPoint
  psc_utxoValue :: int
  psc_stakeModifier :: u64
  psc_targetPerCoinDay :: u256
  psc_coinstakeStartTime :: u32

definition ProofOfStakeCalculator_new :: "StakingData \<Rightarrow> u64 \<Rightarrow> ProofOfStakeCalculator" where
  "ProofOfStakeCalculator_new stakingData stakeModifier =
    \<lparr>psc_utxoToStake = sd_utxoBeingStaked stakingData, psc_utxoValue = sd_utxoValue stakingData, psc_stakeModifier = stakeModifier,
     psc_targetPerCoinDay = fst (SetCompact (sd_nBits stakingData)), psc_coinstakeStartTime = sd_blockTimeOfFirstConfirmationBlock stakingData\<rparr>"

text \<open>The difference of the times is taken on unsigned numbers.\<close>

definition computeProofOfStakeAndCheckItMeetsTarget ::
  "(bytes \<Rightarrow> u256) \<Rightarrow> ProofOfStakeCalculator \<Rightarrow> u32 \<Rightarrow> u256 \<Rightarrow> bool \<Rightarrow> bool \<times> u256" where
  "computeProofOfStakeAndCheckItMeetsTarget Hash C hashproofTimestamp computedProofOfStake checkOnly =
    (let computedProofOfStake =
           (if \<not> checkOnly then stakeHash Hash (psc_stakeModifier C) hashproofTimestamp (psc_utxoToStake C) (psc_coinstakeStartTime C) else computedProofOfStake);
         coinAgeWeightOfUtxo = min (uint (hashproofTimestamp - psc_coinstakeStartTime C)) MAXIMUM_COIN_AGE_WEIGHT_FOR_STAKING
     in (stakeTargetHit computedProofOfStake (psc_utxoValue C) (psc_targetPerCoinDay C) coinAgeWeightOfUtxo, computedProofOfStake))"

section \<open>Properties\<close>

lemma SetCompact_not_max: "fst (SetCompact c) \<noteq> -1"
proof
  assume m: "fst (SetCompact c) = -1"
  have b: "bit (-1 :: u256) n \<longleftrightarrow> n < 256" for n by (simp add: bit_minus_1_iff)
  let ?n = "unat (drop_bit 24 c)" and ?w = "c AND 0x007fffff"
  have "\<not> bit (fst (SetCompact c)) 32 \<or> \<not> bit (fst (SetCompact c)) 0"
  proof (cases "?n \<le> 3")
    case True
    then have "fst (SetCompact c) = ucast (drop_bit (8 * (3 - ?n)) ?w)" by (simp add: SetCompact_def Let_def)
    then show ?thesis using bit_high_32 [of "drop_bit (8 * (3 - ?n)) ?w" 32] by (simp only: bit_ucast_iff) auto
  next
    case False
    then have "fst (SetCompact c) = push_bit (8 * (?n - 3)) (ucast ?w)" by (simp add: SetCompact_def Let_def)
    then show ?thesis using False by (simp only: bit_push_bit_iff) simp
  qed
  then show False using b [of 32] b [of 0] by (simp only: m) simp
qed

lemma proof_quotient:
  fixes T M :: int
  assumes "1 \<le> T" "T < M - 1"
  shows "(M - 1 - T) div (T + 1) + 1 = M div (T + 1)"
proof -
  have "M div (T + 1) = (M - 1 - T + (T + 1) * 1) div (T + 1)" by simp
  also have "\<dots> = 1 + (M - 1 - T) div (T + 1)" using assms by (subst div_mult_self2) auto
  finally show ?thesis by simp
qed

text \<open>
  C38: The work of a block is exactly \<open>2\<^sup>2\<^sup>5\<^sup>6\<close> divided by its target plus one, although that dividend is not a 256-bit number, and the division does not
  fail for any header. A target that is zero, negative or too large has no work.
\<close>

theorem block_proof_exact:
  "GetBlockProof b = Inr (case SetCompact (nBits (data b)) of (t, fNegative, fOverflow) \<Rightarrow>
     if fNegative \<or> fOverflow \<or> t = 0 then 0 else word_of_int (2 ^ 256 div (uint t + 1)))"
proof -
  obtain t n v where t: "SetCompact (nBits (data b)) = (t, n, v)" by (cases "SetCompact (nBits (data b))") auto
  have ne: "t \<noteq> -1" using SetCompact_not_max [of "nBits (data b)"] t by simp
  then have t1: "t + 1 \<noteq> 0" using add_eq_0_iff2 [of t 1] by simp
  have "((NOT t) div (t + 1)) + 1 = word_of_int (2 ^ 256 div (uint t + 1))" if "t \<noteq> 0"
  proof -
    have T: "1 \<le> uint t" using that uint_ge_0 [of t] uint_0_iff [of t] by linarith
    have "uint (t + 1) \<noteq> 0" using t1 by (simp only: uint_0_iff not_False_eq_True)
    then have u: "uint (t + 1) = uint t + 1" "uint t + 1 \<noteq> 2 ^ 256"
      using uint_lt2p [of t] by (cases "uint t + 1 = 2 ^ 256"; simp add: uint_word_ariths)+
    have "uint (NOT t) = 2 ^ 256 - 1 - uint t" by (simp add: unsigned_not_eq take_bit_not_eq_mask_diff mask_eq_exp_minus_1 bintr_uint)
    then have "uint ((NOT t) div (t + 1)) = (2 ^ 256 - 1 - uint t) div (uint t + 1)" by (simp only: uint_div_distrib u)
    moreover have "(2 ^ 256 - 1 - uint t) div (uint t + 1) + 1 = 2 ^ 256 div (uint t + 1)"
      using T u(2) uint_lt2p [of t] by (intro proof_quotient) auto
    moreover have "((NOT t) div (t + 1)) + 1 = word_of_int (uint ((NOT t) div (t + 1)) + 1)" by (simp only: of_int_add word_of_int_uint of_int_1)
    ultimately show ?thesis by (simp only:)
  qed
  then show ?thesis using t t1 by (simp add: GetBlockProof_def u256_div_def ebind_def)
qed

text \<open>
  C40: The trust of a block with proof of stake is 0: its numerator, which is meant to be \<open>2\<^sup>2\<^sup>5\<^sup>6\<close>, is shifted out of the word. The trust that is
  summed up along the chain does not grow with such blocks.
\<close>

theorem stake_block_no_trust:
  assumes "IsProofOfStake (data b)"
  shows "GetBlockTrust b = Inr 0"
proof -
  have "fst (SetCompact (nBits (data b))) + 1 \<noteq> 0"
    using SetCompact_not_max [of "nBits (data b)"] add_eq_0_iff2 [of "fst (SetCompact (nBits (data b)))" 1] by simp
  moreover have "push_bit 256 (1 :: u256) = 0" by (rule bit_word_eqI) (simp only: bit_push_bit_iff, simp)
  ultimately show ?thesis using assms by (simp only: GetBlockTrust_def u256_div_def Let_def if_True) simp
qed

theorem stake_block_no_trust_witness:
  "GetBlockTrust (CBlockIndex (example_data 5\<lparr>nFlags := 1, nBits := 0x1d00ffff\<rparr>) None None) = Inr 0"
  by (rule stake_block_no_trust) (simp add: IsProofOfStake_def)

lemma uint_amount: "0 \<le> v \<Longrightarrow> v < 2 ^ 63 \<Longrightarrow> uint (ucast (word_of_int v :: u64) :: u256) = v"
  by (simp only: unsigned_ucast_eq uint_word_of_int) (simp add: take_bit_int_eq_self_iff)

lemma uint_weight: "0 \<le> w \<Longrightarrow> w < 2 ^ 32 \<Longrightarrow> uint (ucast (word_of_int w :: u32) :: u256) = w"
  by (simp only: unsigned_ucast_eq uint_word_of_int) (simp add: take_bit_int_eq_self_iff)

lemma stakeTargetHit_exact:
  assumes "0 \<le> v" "v < 2 ^ 63" "0 \<le> w" "w < 2 ^ 32"
  shows "stakeTargetHit h v t w \<longleftrightarrow> uint h < uint t * (v * w div COIN div 400)"
proof -
  let ?p = "ucast (word_of_int v :: u64) * ucast (word_of_int w :: u32) :: u256"
  have "v * w < 2 ^ 63 * 2 ^ 32" using assms by (intro mult_strict_mono) auto
  then have "uint ?p = v * w" using assms by (simp add: uint_word_ariths uint_amount uint_weight)
  moreover have "uint (ucast (word_of_int COIN :: u64) :: u256) = COIN" by (rule uint_amount) (simp_all add: COIN_def)
  ultimately have w: "uint (?p div ucast (word_of_int COIN :: u64) div 400) = v * w div COIN div 400" by (simp only: uint_div_distrib) simp
  define W where "W = ?p div ucast (word_of_int COIN :: u64) div 400"
  have h: "uint h < 2 ^ 256" using uint_lt2p [of h] by simp
  have "stakeTargetHit h v t w \<longleftrightarrow> (uint t * uint W < 2 ^ 256 \<longrightarrow> CompareTo (limbs_of h) (limbs_of (t * W)) < 0)"
    unfolding stakeTargetHit_def W_def [symmetric] Let_def limbs_of_mul by simp
  also have "\<dots> \<longleftrightarrow> uint h < uint t * uint W"
  proof (cases "uint t * uint W < 2 ^ 256")
    case True
    then have "uint (t * W) = uint t * uint W" by (simp add: uint_word_ariths)
    then show ?thesis using True by (simp add: CompareTo_value)
  qed (use h in auto)
  finally show ?thesis unfolding W_def w .
qed

text \<open>
  C2: A stake meets its target exactly if its hash is below the target times the weight of the staked coins, computed over unbounded integers: the
  product may exceed 256 bits, and then every hash is below it. The weight is the value times the age in seconds, which is capped, over
  400 coins.
\<close>

theorem stake_target_exact:
  assumes "0 \<le> psc_utxoValue C" "psc_utxoValue C < 2 ^ 63"
  shows "computeProofOfStakeAndCheckItMeetsTarget Hash C now given checkOnly = (hit, hash) \<longleftrightarrow>
    hash = (if checkOnly then given else stakeHash Hash (psc_stakeModifier C) now (psc_utxoToStake C) (psc_coinstakeStartTime C)) \<and>
    (hit \<longleftrightarrow> uint hash < uint (psc_targetPerCoinDay C) *
      (psc_utxoValue C * min (uint (now - psc_coinstakeStartTime C)) MAXIMUM_COIN_AGE_WEIGHT_FOR_STAKING div COIN div 400))"
proof -
  have "min (uint (now - psc_coinstakeStartTime C)) MAXIMUM_COIN_AGE_WEIGHT_FOR_STAKING < 2 ^ 32"
    "0 \<le> min (uint (now - psc_coinstakeStartTime C)) MAXIMUM_COIN_AGE_WEIGHT_FOR_STAKING"
    by (simp_all add: MAXIMUM_COIN_AGE_WEIGHT_FOR_STAKING_def min_less_iff_disj)
  then show ?thesis using stakeTargetHit_exact [OF assms]
    by (cases checkOnly) (auto simp: computeProofOfStakeAndCheckItMeetsTarget_def Let_def)
qed

definition example_calculator :: ProofOfStakeCalculator where
  "example_calculator = ProofOfStakeCalculator_new \<lparr>sd_nBits = 0x03000007, sd_blockTimeOfFirstConfirmationBlock = 100,
     sd_blockHashOfFirstConfirmationBlock = 1, sd_utxoBeingStaked = \<lparr>op_hash = 2, op_n = 0\<rparr>, sd_utxoValue = 10000 * COIN,
     sd_blockHashOfChainTipBlock = 3\<rparr> 77"

theorem stake_target_exact_witness:
  "computeProofOfStakeAndCheckItMeetsTarget (\<lambda>_. 6999) example_calculator 140 0 False = (True, 6999) \<and>
   computeProofOfStakeAndCheckItMeetsTarget (\<lambda>_. 7000) example_calculator 140 0 False = (False, 7000)"
proof -
  have C: "psc_utxoValue example_calculator = 10000 * COIN" "psc_coinstakeStartTime example_calculator = 100"
    "psc_targetPerCoinDay example_calculator = 7"
    by (simp_all add: example_calculator_def ProofOfStakeCalculator_new_def SetCompact_def Let_def)
  show ?thesis
    using stake_target_exact [of example_calculator "\<lambda>_. 6999" 140 0 False True 6999]
      stake_target_exact [of example_calculator "\<lambda>_. 7000" 140 0 False False 7000]
    by (simp add: C COIN_def stakeHash_def MAXIMUM_COIN_AGE_WEIGHT_FOR_STAKING_def)
qed

section \<open>The next target\<close>

lemma compact_close:
  assumes "SetCompact c = (push_bit k (drop_bit k x), False, False)" "k = 0 \<or> 2 ^ (k + 15) \<le> uint x"
  shows "fst (SetCompact c) \<le> x" "2 ^ 15 * (uint x - uint (fst (SetCompact c))) \<le> uint x" "x \<noteq> 0 \<Longrightarrow> fst (SetCompact c) \<noteq> 0"
proof -
  define d where "d = uint x div 2 ^ k"
  have m: "d * 2 ^ k + uint x mod 2 ^ k = uint x" unfolding d_def by (rule div_mult_mod_eq)
  have r: "0 \<le> uint x mod 2 ^ k" "uint x mod 2 ^ k < 2 ^ k" by simp_all
  have "0 \<le> d" by (simp add: d_def pos_imp_zdiv_nonneg_iff)
  then have "0 \<le> d * 2 ^ k" by simp
  moreover have "d * 2 ^ k \<le> uint x" using m r(1) by linarith
  ultimately have b: "0 \<le> d * 2 ^ k" "d * 2 ^ k < 2 ^ 256" using uint_lt2p [of x] by simp_all
  have "fst (SetCompact c) = word_of_int (d * 2 ^ k)" using assms(1) low_cleared [of x k] by (simp add: d_def)
  then have u: "uint (fst (SetCompact c)) = d * 2 ^ k" using b by (simp only: uint_word_of_int) simp
  show "fst (SetCompact c) \<le> x" unfolding word_le_def u using m r(1) by linarith
  show "2 ^ 15 * (uint x - uint (fst (SetCompact c))) \<le> uint x"
  proof (cases "k = 0")
    case False
    then have "2 ^ 15 * 2 ^ k \<le> uint x" using assms(2) by (simp add: power_add mult.commute)
    moreover have "uint x - d * 2 ^ k \<le> 2 ^ k" using m r(2) by linarith
    then have "2 ^ 15 * (uint x - d * 2 ^ k) \<le> 2 ^ 15 * 2 ^ k" by (intro mult_left_mono) simp_all
    ultimately show ?thesis unfolding u by linarith
  qed (use assms(1) in simp)
  show "fst (SetCompact c) \<noteq> 0" if "x \<noteq> 0"
  proof (cases "k = 0")
    case False
    then have "2 ^ 15 * 2 ^ k \<le> uint x" using assms(2) by (simp add: power_add mult.commute)
    moreover have "uint x - d * 2 ^ k < 2 ^ k" using m r(2) by linarith
    moreover have "(2 :: int) ^ k \<le> 2 ^ 15 * 2 ^ k" by simp
    ultimately have "0 < uint (fst (SetCompact c))" unfolding u by linarith
    then show ?thesis by auto
  qed (use assms(1) that in simp)
qed

text \<open>The seconds that a block has taken, as the retarget counts them: a block that is older than its predecessor counts as one second.\<close>

definition stake_spacing :: "CBlockIndex \<Rightarrow> CBlockIndex \<Rightarrow> int" where
  "stake_spacing b p = (if GetBlockTime b < GetBlockTime p then 1 else GetBlockTime b - GetBlockTime p)"

text \<open>The target after a block, before it is put in the compact form, with the truncation of the factor to 32 bits and of the product to 256.\<close>

definition next_target :: "CBlockIndex \<Rightarrow> CBlockIndex \<Rightarrow> int" where
  "next_target b p =
    (let new = uint (fst (SetCompact (nBits (data b)))) * ((2340 + 2 * stake_spacing b p) mod 2 ^ 32) mod 2 ^ 256 div 2460
     in if new = 0 \<or> new > 2 ^ 232 - 1 then 2 ^ 232 - 1 else new)"

lemma stake_spacing_nonneg: "0 \<le> stake_spacing b p" by (simp add: stake_spacing_def)

lemma uint_factor: "uint (ucast (word_of_int k :: u32) :: u256) = k mod 2 ^ 32"
proof -
  have "take_bit 256 (k mod 2 ^ 32) = k mod 2 ^ 32"
    by (rule take_bit_int_eq_self) (use pos_mod_bound [of "2 ^ 32" k] in auto)
  then show ?thesis by (simp only: unsigned_ucast_eq uint_word_of_int) (simp add: take_bit_eq_mod)
qed

lemma stake_retarget_compact:
  assumes "24 \<le> nHeight b" "pprev b = Some p"
  shows "\<exists>y. stake_retarget b = GetCompact y False \<and> uint y = next_target b p"
proof -
  define s where "s = stake_spacing b p"
  define T where "T = fst (SetCompact (nBits (data b)))"
  let ?lim = "drop_bit 24 (NOT 0) :: u256"
  have lim: "uint ?lim = 2 ^ 232 - 1" by (simp only: unsigned_drop_bit_eq) (simp add: unsigned_minus_1_eq_mask mask_eq_exp_minus_1 drop_bit_eq_div bintr_uint)
  define x :: u256 where "x = T * ucast (word_of_int (39 * 60 + s + s) :: u32) div ucast (word_of_int (41 * 60) :: u64)"
  have "uint (ucast (word_of_int (41 * 60) :: u64) :: u256) = 2460" by (subst uint_amount) simp_all
  moreover have "uint (T * ucast (word_of_int (39 * 60 + s + s) :: u32)) = uint T * ((2340 + 2 * s) mod 2 ^ 32) mod 2 ^ 256"
    by (simp only: uint_word_ariths(3) uint_factor) (simp add: algebra_simps)
  ultimately have x: "uint x = uint T * ((2340 + 2 * s) mod 2 ^ 32) mod 2 ^ 256 div 2460" by (simp only: x_def uint_div_distrib)
  define y where "y = (if x \<le> 0 \<or> x > ?lim then ?lim else x)"
  have "uint y = next_target b p"
    unfolding y_def next_target_def Let_def T_def [symmetric] s_def [symmetric] x [symmetric]
    using lim uint_0_iff [of x] by (auto simp: word_less_def)
  moreover have "stake_retarget b = GetCompact y False"
    using assms by (simp add: stake_retarget_def y_def x_def T_def s_def stake_spacing_def Let_def)
  ultimately show ?thesis by blast
qed

lemma next_target_range: "0 < next_target b p" "next_target b p \<le> 2 ^ 232 - 1"
proof -
  have "0 \<le> uint (fst (SetCompact (nBits (data b)))) * ((2340 + 2 * stake_spacing b p) mod 2 ^ 32) mod 2 ^ 256 div 2460"
    by (simp add: pos_imp_zdiv_nonneg_iff)
  then show "0 < next_target b p" "next_target b p \<le> 2 ^ 232 - 1" by (auto simp: next_target_def Let_def)
qed

lemma next_target_exact:
  assumes "T = uint (fst (SetCompact (nBits (data b))))" "T \<le> 2 ^ 232 - 1" "stake_spacing b p \<le> 8387438"
  shows "next_target b p =
    (let new = T * (2340 + 2 * stake_spacing b p) div 2460 in if new = 0 \<or> new > 2 ^ 232 - 1 then 2 ^ 232 - 1 else new)"
proof -
  let ?f = "2340 + 2 * stake_spacing b p"
  have f: "0 \<le> ?f" "?f \<le> 2 ^ 24" using assms(3) stake_spacing_nonneg [of b p] by simp_all
  have T: "0 \<le> T" by (simp add: assms(1))
  have "T * ?f \<le> (2 ^ 232 - 1) * 2 ^ 24" using f assms(2) T by (intro mult_mono) auto
  then have "T * ?f < 2 ^ 256" by simp
  moreover have "0 \<le> T * ?f" using f T by simp
  moreover have "?f mod 2 ^ 32 = ?f" using f by simp
  ultimately have "T * (?f mod 2 ^ 32) mod 2 ^ 256 = T * ?f" by simp
  then show ?thesis by (simp only: next_target_def assms(1) [symmetric])
qed

text \<open>
  C39: In the stage of proof of stake with retargeting, after any block with a predecessor and height at least 24, whatever its target and its time, a
  target is found; it is neither zero nor above the limit \<open>2\<^sup>2\<^sup>3\<^sup>2 - 1\<close>, and the compact form rounds it down by at most one part in
  \<open>2\<^sup>1\<^sup>5\<close>. Before that rounding it is \<open>next_target\<close>: the target of the block times \<open>2340 + 2 s\<close>, with the factor cut to 32 bits and the
  product to 256, over \<open>2460\<close>, or the limit when this is zero or above the limit. Here \<open>s\<close> is the time the block has taken, or one second for a block that is
  older than its predecessor. When the target of the block is within the limit and \<open>s\<close> is at most 8387438 seconds, about 97 days,
  nothing is cut, so that a target stays as it is when blocks take a minute.
\<close>

theorem stake_target_moves:
  assumes "RetargetDifficulty P" "24 \<le> nHeight b" "LAST_POW_BLOCK P < nHeight b" "pprev b = Some p"
  shows "\<exists>c t. GetNextWorkRequired P (Some b) = Some c \<and> SetCompact c = (t, False, False) \<and> t \<noteq> 0 \<and> uint t \<le> 2 ^ 232 - 1 \<and>
    uint t \<le> next_target b p \<and> 2 ^ 15 * (next_target b p - uint t) \<le> next_target b p \<and>
    (let T = uint (fst (SetCompact (nBits (data b)))); s = stake_spacing b p; new = T * (2340 + 2 * s) div 2460
     in T \<le> 2 ^ 232 - 1 \<and> s \<le> 8387438 \<longrightarrow> next_target b p = (if new = 0 \<or> new > 2 ^ 232 - 1 then 2 ^ 232 - 1 else new))"
proof -
  obtain y where y: "stake_retarget b = GetCompact y False" "uint y = next_target b p" using stake_retarget_compact [OF assms(2,4)] by blast
  have "y \<noteq> 0" using next_target_range(1) [of b p] y(2) by auto
  obtain c k where c: "GetCompact y False = Some c" "SetCompact c = (push_bit k (drop_bit k y), False, False)" "k = 0 \<or> 2 ^ (k + 15) \<le> uint y"
    using compact_exists [of y] by blast
  note close = compact_close [OF c(2,3), unfolded word_le_def y(2)]
  have "GetNextWorkRequired P (Some b) = Some c" using assms(1-3) c(1) y(1) by (simp add: GetNextWorkRequired_def)
  moreover have "SetCompact c = (fst (SetCompact c), False, False)" using c(2) by simp
  moreover have "uint (fst (SetCompact c)) \<le> 2 ^ 232 - 1" using close(1) next_target_range(2) [of b p] by simp
  moreover note close(1,2) close(3) [OF \<open>y \<noteq> 0\<close>] next_target_exact [OF refl, of b p, unfolded Let_def]
  ultimately show ?thesis unfolding Let_def by blast
qed

definition example_stake_block :: CBlockIndex where
  "example_stake_block = CBlockIndex (example_data 200\<lparr>nTime := 1060, nBits := 0x1b00ffff\<rparr>)
     (Some (CBlockIndex (example_data 199\<lparr>nTime := 1000\<rparr>) None None)) None"

theorem stake_target_moves_witness:
  "\<exists>c t. GetNextWorkRequired \<lparr>LAST_POW_BLOCK = 100, ProofOfWorkLimit = drop_bit 20 (NOT 0), RetargetDifficulty = True, TargetSpacing = 60\<rparr>
       (Some example_stake_block) = Some c \<and> SetCompact c = (t, False, False) \<and> t \<noteq> 0 \<and> uint t \<le> 0xffff * 2 ^ 192 \<and>
     2 ^ 15 * (0xffff * 2 ^ 192 - uint t) \<le> 0xffff * 2 ^ 192"
proof -
  let ?p = "CBlockIndex (example_data 199\<lparr>nTime := 1000\<rparr>) None None"
  have t: "uint (fst (SetCompact 0x1b00ffff)) = 0xffff * 2 ^ 192" by (simp add: SetCompact_def Let_def)
  have b: "nHeight example_stake_block = 200" "GetBlockTime example_stake_block = 1060" "nBits (data example_stake_block) = 0x1b00ffff"
    "pprev example_stake_block = Some ?p"
    by (simp_all add: example_stake_block_def GetBlockTime_def example_data_def)
  have "GetBlockTime ?p = 1000" by (simp add: GetBlockTime_def)
  then have s: "stake_spacing example_stake_block ?p = 60" by (simp add: stake_spacing_def b)
  obtain c u where r: "GetNextWorkRequired \<lparr>LAST_POW_BLOCK = 100, ProofOfWorkLimit = drop_bit 20 (NOT 0), RetargetDifficulty = True, TargetSpacing = 60\<rparr>
       (Some example_stake_block) = Some c" "SetCompact c = (u, False, False)" "u \<noteq> 0" "uint u \<le> next_target example_stake_block ?p"
      "2 ^ 15 * (next_target example_stake_block ?p - uint u) \<le> next_target example_stake_block ?p"
      "next_target example_stake_block ?p = 0xffff * 2 ^ 192"
    using stake_target_moves [of "\<lparr>LAST_POW_BLOCK = 100, ProofOfWorkLimit = drop_bit 20 (NOT 0), RetargetDifficulty = True, TargetSpacing = 60\<rparr>",
      OF _ _ _ b(4)] by (auto simp: b s t Let_def)
  show ?thesis using r(1-3) r(4,5) [unfolded r(6)] by blast
qed

end
