(* ===== verification/Spec2Isabelle.thy ===== *)
theory Spec2Isabelle
  imports Blake_Big Blake_Small Skein Ctaes_Correct Bip9_Manager Incentives Script_Limits Sign Coins_Serialize Block_Disconnect Check_Queue Merkle_Block Pow
begin

text \<open>
  A verification of the core of Divi, a proof-of-stake currency node (\<^verbatim>\<open>src/divi/src\<close>).

  \<^bold>\<open>The program.\<close> A node keeps an index of blocks and an active chain through it, the set of unspent outputs that the active chain
  leads to, and optional indices over both. A block is connected by checking its transactions one by one against the unspent outputs: inputs
  must be unspent, mature and pay for the outputs, and the scripts that guard them must accept. What is spent is kept as undo data, with
  which the block can be disconnected again. Blocks are minted by staking coins, possibly from a vault that a second party manages. A block pays the
  stake, a masternode and, at certain heights, a treasury or the winners of a lottery; the amounts follow a schedule that signed
  network-wide settings, the sporks, can change. Soft forks are activated by bits in the versions of blocks.

  \<^bold>\<open>Theories and sources.\<close> File names are relative to \<^verbatim>\<open>src/divi/src\<close>. A structure is a record, an enumeration a datatype, a C++ method is a definition
  of the same name whose arguments are the object and, for caches, the view below it; objects that change are returned. Machine integers are words
  where they may wrap around; amounts are integers with \<open>wrap64\<close> at every sum of the code. An assertion, a null pointer, an index out of range or an
  exception is a value: \<open>None\<close>, or the left of a sum. Cryptographic functions, clocks, files and the network are arguments.
  \<^item> Shared: \<open>Prelude\<close> (words, buffers), \<open>Little_Endian\<close> (bytes of numbers, the error monad), \<open>Buffered_Hash\<close> (a locale for streaming hashes).
  \<^item> Chain: \<open>Chain\<close> (\<^verbatim>\<open>chain.h\<close>, \<^verbatim>\<open>chain.cpp\<close>), \<open>Versionbits\<close> and \<open>Bip9_Manager\<close> (\<^verbatim>\<open>versionbits.cpp\<close>, \<^verbatim>\<open>BIP9Deployment.h\<close>, \<^verbatim>\<open>BIP9ActivationManager.cpp\<close>), \<open>Pow\<close>
    (\<^verbatim>\<open>pow.cpp\<close>, \<^verbatim>\<open>ProofOfStakeCalculator.cpp\<close>), \<open>Uint256\<close> and \<open>Compact\<close> (\<^verbatim>\<open>uint256.h\<close>, \<^verbatim>\<open>uint256.cpp\<close>), \<open>Merkle\<close> and \<open>Merkle_Block\<close>
    (\<^verbatim>\<open>primitives/block.cpp\<close>, \<^verbatim>\<open>merkleblock.cpp\<close>).
  \<^item> Money: \<open>Spork_Values\<close> and \<open>Spork_Manager\<close> (\<^verbatim>\<open>spork.cpp\<close>), \<open>Subsidies\<close> (\<^verbatim>\<open>LegacyBlockSubsidies.cpp\<close>, \<^verbatim>\<open>SuperblockHeightValidator.cpp\<close>, \<^verbatim>\<open>BlockSubsidyProvider.cpp\<close>),
    \<open>Lottery_Coinstakes\<close> and \<open>Lottery\<close> (\<^verbatim>\<open>LotteryCoinstakes.cpp\<close>, \<^verbatim>\<open>LotteryWinnersCalculator.cpp\<close>), \<open>Incentives\<close> (\<^verbatim>\<open>BlockIncentivesPopulator.cpp\<close>).
  \<^item> Transactions: \<open>Transactions\<close> (\<^verbatim>\<open>primitives/transaction.cpp\<close>), \<open>Serialize\<close> and \<open>Tx_Serialize\<close> (\<^verbatim>\<open>serialize.h\<close>, \<^verbatim>\<open>streams.h\<close>).
  \<^item> Scripts: \<open>Opcodes\<close>, \<open>Script\<close> and \<open>Script_Codec\<close> (\<^verbatim>\<open>script/script.cpp\<close>), \<open>Stack_Manager\<close> (\<^verbatim>\<open>script/StackManager.cpp\<close>), \<open>Interpreter\<close>, \<open>Script_Limits\<close>
    (\<^verbatim>\<open>script/interpreter.cpp\<close>), \<open>Signature_Hash\<close> (\<^verbatim>\<open>script/SignatureCheckers.cpp\<close>), \<open>Staking_Vault\<close>, \<open>Standard\<close> (\<^verbatim>\<open>script/standard.cpp\<close>), \<open>Keystore\<close>
    (\<^verbatim>\<open>keystore.cpp\<close>), \<open>Sign\<close> (\<^verbatim>\<open>script/sign.cpp\<close>).
  \<^item> Unspent outputs: \<open>Coins\<close>, \<open>Coins_View\<close> (\<^verbatim>\<open>coins.cpp\<close>, \<^verbatim>\<open>txdb.cpp\<close>), \<open>Compressor\<close>, \<open>Coins_Serialize\<close> (\<^verbatim>\<open>compressor.cpp\<close>), \<open>Utxo_Update\<close> and \<open>Tx_Check\<close>
    (\<^verbatim>\<open>UtxoCheckingAndUpdating.cpp\<close>, \<^verbatim>\<open>ValidationState.cpp\<close>, \<^verbatim>\<open>scriptCheck.cpp\<close>), \<open>Index_Updates\<close> (\<^verbatim>\<open>IndexDatabaseUpdateCollector.cpp\<close>).
  \<^item> Blocks: \<open>Block_Check\<close> (\<^verbatim>\<open>BlockTransactionChecker.cpp\<close>, \<^verbatim>\<open>TransactionInputChecker.cpp\<close>), \<open>Block_Connect\<close> and \<open>Block_Disconnect\<close> (\<^verbatim>\<open>ActiveChainManager.cpp\<close>),
    \<open>Check_Queue\<close> (\<^verbatim>\<open>checkqueue.h\<close>).
  \<^item> Hashes and ciphers: \<open>Sph_Types\<close>, \<open>Blake_Sigma\<close>, \<open>Blake_Big\<close>, \<open>Blake_Small\<close> (\<^verbatim>\<open>crypto/blake.c\<close>), \<open>Skein\<close> (\<^verbatim>\<open>crypto/skein.c\<close>), \<open>Aes_Spec\<close>, \<open>Ctaes\<close>,
    \<open>Ctaes_Sbox\<close>, \<open>Ctaes_Correct\<close> (\<^verbatim>\<open>crypto/ctaes/ctaes.c\<close>).

  \<^bold>\<open>What is shown.\<close>
  \<^item> Blocks. The checks of a block imply the relation \<open>connects\<close> between sets of unspent outputs; the money supply covers the unspent outputs; the
    coins stay well-formed; disconnecting leads back to the unspent outputs before, up to the coinstake mark of coins spent to the end.
    The caches implement one set of unspent outputs, under the locale \<open>coins_view\<close> that the database and every cache level interpret. The queue of
    script checks returns the conjunction of the checks in every interleaving, and waiting for it ends.
  \<^item> Scripts. Evaluation keeps its limits, a vault is spent by its owner, or by its manager in a coinstake only; what the node signs is accepted;
    a signature commits to the parts of the transaction that its hash type names.
  \<^item> Chain. Skip pointers lead to the ancestors, the cached state of a soft fork is the one of the definition, a Merkle root commits to its transactions and
    a partial tree proves membership; the work of a block and the test of a stake are exact although both exceed 256 bits on the way; the next target of the proof-of-stake stage is
    within its limit for any block, and the moving average wherever 256 bits suffice for it.
  \<^item> Money. While no reward spork is set and for parameters like those of the main and the test network, rewards follow the schedule and treasury cycles
    cover every block once; lottery winners are the eleven best; sporks converge whatever the order of their messages.
  \<^item> Encodings lead back: transactions, coins, undo data, compact targets. Hash contexts compute the compression of the padded message, from initial
    values that are derived from their specification, and the bit-sliced
    cipher is that of FIPS 197.

  \<^bold>\<open>Loops.\<close> Every recursion terminates by a measure or on its data. The only fuel is the script loop's, which is the length of the script and enough because every
    step reads at least one byte; reading vectors is bounded by the bytes left. The state machine of the queue is a relation on states, so that all interleavings count.

  \<^bold>\<open>Not modelled.\<close> The network, the RPC interface, start-up and the graphical user interface are input and output. The wallet, the memory pool, the masternode
  network, kernels and stake modifiers, the acceptance of headers and the choice of the best chain in \<^verbatim>\<open>main.cpp\<close>, the Bloom filter and the signature cache are parts of the
  program's logic that this development leaves out; where the modelled code asks one of them, its answer is an argument. The hash functions of \<^verbatim>\<open>crypto\<close> other than BLAKE and Skein,
  elliptic curves (\<^verbatim>\<open>secp256k1\<close>), \<^verbatim>\<open>leveldb\<close>, \<^verbatim>\<open>libzerocoin\<close>, \<^verbatim>\<open>json\<close>, \<^verbatim>\<open>univalue\<close> and \<^verbatim>\<open>GMock\<close> are third-party code. Writes to the
  database of unspent outputs succeed: an exception of \<^verbatim>\<open>leveldb\<close> is not represented.
\<close>

end
